(* ===== verification/Brotli_Prelude.thy ===== *)
theory Brotli_Prelude
  imports Main "HOL-Library.Word" "HOL-Library.More_List"
begin

text \<open>
  Vocabulary shared by every component: the C integer types as words, bit lists in the
  order the stream carries them (least significant bit first), little-endian loads from a
  byte buffer with the out-of-bounds case as \<open>None\<close>, and the arithmetic of bit lists that
  both the reader and the writer proofs rest on. The collections \<open>bits_simps\<close> (rewriting
  of bit lists) and \<open>word_conv\<close> (from words to natural numbers) are filled here and by the
  components.
\<close>

unbundle bit_operations_syntax

named_theorems bits_simps
named_theorems word_conv

type_synonym u8 = "8 word"
type_synonym u16 = "16 word"
type_synonym u32 = "32 word"
type_synonym u64 = "64 word"

section \<open>Bit lists\<close>

text \<open>The low \<open>n\<close> bits of a number, least significant first, and the number of a bit list.\<close>

fun nat_bits :: "nat \<Rightarrow> nat \<Rightarrow> bool list" where
  "nat_bits 0 v = []"
| "nat_bits (Suc n) v = odd v # nat_bits n (v div 2)"

fun bits_val :: "bool list \<Rightarrow> nat" where
  "bits_val [] = 0"
| "bits_val (b # bs) = of_bool b + 2 * bits_val bs"

lemma length_nat_bits [simp]: "length (nat_bits n v) = n"
  by (induction n arbitrary: v) auto

lemma nat_bits_nth: "i < n \<Longrightarrow> nat_bits n v ! i = odd (v div 2 ^ i)"
proof (induction n arbitrary: v i)
  case 0
  then show ?case by simp
next
  case (Suc n)
  then show ?case
    by (cases i) (auto simp: div_mult2_eq)
qed

lemma bits_val_nat_bits [simp]: "bits_val (nat_bits n v) = v mod 2 ^ n"
proof (induction n arbitrary: v)
  case 0
  then show ?case by simp
next
  case (Suc n)
  have "v mod 2 ^ Suc n = 2 * (v div 2 mod 2 ^ n) + v mod 2"
    by (simp add: mod_mult2_eq)
  with Suc show ?case by (simp add: mod_2_eq_odd)
qed

lemma nat_bits_bits_val [simp]: "nat_bits (length bs) (bits_val bs) = bs"
  by (induction bs) auto

lemma bits_val_bound: "bits_val bs < 2 ^ length bs"
  by (induction bs) auto

lemma bits_val_append:
  "bits_val (xs @ ys) = bits_val xs + 2 ^ length xs * bits_val ys"
  by (induction xs) (auto simp: algebra_simps)

lemma nat_bits_add:
  "nat_bits (m + n) v = nat_bits m v @ nat_bits n (v div 2 ^ m)"
  by (induction m arbitrary: v) (auto simp: div_mult2_eq)

lemma nat_bits_mod: "n \<le> m \<Longrightarrow> nat_bits n (v mod 2 ^ m) = nat_bits n v"
proof (induction n arbitrary: v m)
  case 0
  then show ?case by simp
next
  case (Suc n)
  then obtain m' where m: "m = Suc m'" "n \<le> m'" by (cases m) auto
  have "v mod 2 ^ Suc m' div 2 = v div 2 mod 2 ^ m'"
    by (simp add: mod_mult2_eq)
  moreover have "odd (v mod 2 ^ Suc m') = odd v"
    by (simp add: mod_mult2_eq)
  ultimately show ?case using Suc m by simp
qed

lemma bits_val_inj: "length xs = length ys \<Longrightarrow> bits_val xs = bits_val ys \<Longrightarrow> xs = ys"
  by (metis nat_bits_bits_val)

lemma take_nat_bits: "take k (nat_bits n v) = nat_bits (min k n) v"
  by (induction n arbitrary: v k) (auto simp: take_Cons split: nat.splits)

lemma nat_bits_one [simp]: "nat_bits 1 v = [odd v]"
  by (simp add: numeral_eq_Suc)

text \<open>Taking a prefix is a remainder, dropping it a quotient.\<close>

lemma bits_val_take: "bits_val (take n bs) = bits_val bs mod 2 ^ n"
proof (cases "n \<le> length bs")
  case True
  have "bits_val bs = bits_val (take n bs) + 2 ^ n * bits_val (drop n bs)"
    using bits_val_append [of "take n bs" "drop n bs"] True by (simp add: min_absorb2)
  moreover have "bits_val (take n bs) < 2 ^ n"
    using bits_val_bound [of "take n bs"] True by simp
  ultimately show ?thesis by simp
next
  case False
  then have "(2::nat) ^ length bs \<le> 2 ^ n" by simp
  then have "bits_val bs < 2 ^ n"
    using bits_val_bound [of bs] by (rule order.strict_trans2 [rotated])
  with False show ?thesis by simp
qed

lemma bits_val_drop: "bits_val (drop n bs) = bits_val bs div 2 ^ n"
proof (cases "n \<le> length bs")
  case True
  have "bits_val bs = bits_val (take n bs) + 2 ^ n * bits_val (drop n bs)"
    using bits_val_append [of "take n bs" "drop n bs"] True by (simp add: min_absorb2)
  moreover have "bits_val (take n bs) < 2 ^ n"
    using bits_val_bound [of "take n bs"] True by simp
  ultimately show ?thesis by simp
next
  case False
  then have "(2::nat) ^ length bs \<le> 2 ^ n" by simp
  then have "bits_val bs < 2 ^ n"
    using bits_val_bound [of bs] by (rule order.strict_trans2 [rotated])
  with False show ?thesis by simp
qed

lemma drop_bit_3_nat [simp]: "drop_bit 3 (n :: nat) = n div 8"
  by (simp add: drop_bit_eq_div)

lemma and_7_nat [simp]: "(n :: nat) AND 7 = n mod 8"
proof -
  have "n AND 7 = take_bit 3 n" by (simp add: take_bit_eq_mask mask_eq_exp_minus_1)
  then show ?thesis by (simp add: take_bit_eq_mod)
qed

lemma unat_word_of_nat_small [word_conv]:
  "n < 2 ^ LENGTH('a::len) \<Longrightarrow> unat (word_of_nat n :: 'a word) = n"
  by (simp add: unat_of_nat)

lemma unat_drop_bit_div [word_conv]: "unat (drop_bit n w) = unat w div 2 ^ n"
  unfolding unat_drop_bit_eq by (rule drop_bit_eq_div)

lemma unat_take_bit_mod [word_conv]: "unat (take_bit n w) = unat w mod 2 ^ n"
  unfolding unsigned_take_bit_eq by (rule take_bit_eq_mod)

section \<open>Words as bit lists\<close>

definition word_bits :: "'a::len word \<Rightarrow> nat \<Rightarrow> nat \<Rightarrow> bool list" where
  "word_bits w lo hi = map (bit w) [lo..<hi]"

lemma length_word_bits [simp]: "length (word_bits w lo hi) = hi - lo"
  by (simp add: word_bits_def)

lemma word_bits_nth [simp]: "i < hi - lo \<Longrightarrow> word_bits w lo hi ! i = bit w (lo + i)"
  by (simp add: word_bits_def)

lemma word_bits_empty [simp]: "hi \<le> lo \<Longrightarrow> word_bits w lo hi = []"
  by (simp add: word_bits_def)

lemma word_bits_split:
  "lo \<le> mid \<Longrightarrow> mid \<le> hi \<Longrightarrow> word_bits w lo hi = word_bits w lo mid @ word_bits w mid hi"
  by (metis word_bits_def map_append upt_add_eq_append le_Suc_ex)

lemma word_bits_eqI:
  "hi - lo = hi' - lo' \<Longrightarrow> (\<And>i. i < hi - lo \<Longrightarrow> bit w (lo + i) = bit w' (lo' + i)) \<Longrightarrow>
    word_bits w lo hi = word_bits w' lo' hi'"
  by (rule nth_equalityI) auto

lemma nat_bits_unat: "nat_bits n (unat w) = word_bits w 0 n"
proof (rule nth_equalityI)
  fix i
  assume "i < length (nat_bits n (unat w))"
  moreover have "odd (unat w div 2 ^ i) \<longleftrightarrow> bit w i"
    by (simp add: bit_unsigned_iff flip: bit_iff_odd)
  ultimately show "nat_bits n (unat w) ! i = word_bits w 0 n ! i"
    by (simp add: nat_bits_nth)
qed simp

lemma bits_val_word_bits: "bits_val (word_bits w 0 n) = unat w mod 2 ^ n"
  by (simp flip: nat_bits_unat)

text \<open>Joining two fields with a shift and an OR adds them.\<close>

lemma nat_or_push_bit:
  fixes a b :: nat
  assumes "a < 2 ^ k"
  shows "a OR push_bit k b = a + 2 ^ k * b"
proof -
  have "a AND push_bit k b = 0"
  proof (rule bit_eqI)
    fix i
    have "\<not> bit a i" if "k \<le> i"
      using assms that by (metis bit_take_bit_iff not_less take_bit_nat_eq_self)
    then show "bit (a AND push_bit k b) i = bit (0 :: nat) i"
      by (auto simp: bit_and_iff bit_push_bit_iff)
  qed
  then have "a + push_bit k b = a OR push_bit k b" by (rule disjunctive_add_eq_or)
  then show ?thesis by (simp add: push_bit_eq_mult mult.commute)
qed

lemma unat_or_push_bit:
  fixes a b :: "'a::len word"
  assumes "unat a < 2 ^ k" "2 ^ k * unat b < 2 ^ LENGTH('a)"
  shows "unat (a OR push_bit k b) = unat a + 2 ^ k * unat b"
proof -
  have "unat (push_bit k b) = push_bit k (unat b)"
    unfolding unsigned_push_bit_eq
    by (rule take_bit_nat_eq_self) (use assms(2) in \<open>simp add: push_bit_eq_mult mult.commute\<close>)
  then show ?thesis using nat_or_push_bit [OF assms(1)] by (simp add: unsigned_or_eq)
qed

text \<open>The bytes of a buffer as one bit list, each byte least significant bit first.\<close>

definition byte_bits :: "u8 \<Rightarrow> bool list" where
  "byte_bits b = word_bits b 0 8"

definition bytes_bits :: "u8 list \<Rightarrow> bool list" where
  "bytes_bits bs = concat (map byte_bits bs)"

lemma length_byte_bits [simp]: "length (byte_bits b) = 8"
  by (simp add: byte_bits_def)

lemma bytes_bits_Nil [simp, bits_simps]: "bytes_bits [] = []"
  by (simp add: bytes_bits_def)

lemma bytes_bits_Cons [simp, bits_simps]: "bytes_bits (b # bs) = byte_bits b @ bytes_bits bs"
  by (simp add: bytes_bits_def)

lemma bytes_bits_append [simp, bits_simps]:
  "bytes_bits (xs @ ys) = bytes_bits xs @ bytes_bits ys"
  by (simp add: bytes_bits_def)

lemma length_bytes_bits [simp, bits_simps]: "length (bytes_bits bs) = 8 * length bs"
  by (induction bs) auto

lemma bytes_bits_nth:
  "i < 8 * length bs \<Longrightarrow> bytes_bits bs ! i = bit (bs ! (i div 8)) (i mod 8)"
proof (induction bs arbitrary: i)
  case Nil
  then show ?case by simp
next
  case (Cons b bs)
  show ?case
  proof (cases "i < 8")
    case True
    then show ?thesis by (simp add: nth_append byte_bits_def)
  next
    case False
    then have "(i - 8) div 8 = i div 8 - 1" "(i - 8) mod 8 = i mod 8" "0 < i div 8"
      by (auto simp: le_div_geq le_mod_geq)
    with False Cons show ?thesis by (simp add: nth_append)
  qed
qed

section \<open>Little-endian loads\<close>

text \<open>
  \<open>load_le n mem off\<close> is the unaligned little-endian load of \<open>n\<close> bytes at offset \<open>off\<close> of a
  memory object; a load that leaves the object is undefined in C and \<open>None\<close> here.
\<close>

fun le_word :: "u8 list \<Rightarrow> u64" where
  "le_word [] = 0"
| "le_word (b # bs) = ucast b OR push_bit 8 (le_word bs)"

definition load_le :: "nat \<Rightarrow> u8 list \<Rightarrow> nat \<Rightarrow> u64 option" where
  "load_le n mem off =
    (if off + n \<le> length mem then Some (le_word (take n (drop off mem))) else None)"

lemma bit_le_word:
  "i < 64 \<Longrightarrow> bit (le_word bs) i \<longleftrightarrow> i < 8 * length bs \<and> bytes_bits bs ! i"
proof (induction bs arbitrary: i)
  case Nil
  then show ?case by simp
next
  case (Cons b bs)
  show ?case
  proof (cases "i < 8")
    case True
    with Cons.prems show ?thesis
      by (simp add: bit_or_iff bit_ucast_iff bit_push_bit_iff nth_append byte_bits_def)
  next
    case False
    then have "\<not> bit b i" using bit_imp_le_length [of b i] by auto
    with False Cons show ?thesis
      by (auto simp: bit_or_iff bit_ucast_iff bit_push_bit_iff nth_append)
  qed
qed

lemma le_word_bits:
  assumes "k \<le> 8 * length bs" "k \<le> 64"
  shows "word_bits (le_word bs) 0 k = take k (bytes_bits bs)"
  using assms by (intro nth_equalityI) (auto simp: bit_le_word)

lemma take_bytes_bits [bits_simps]: "take (8 * k) (bytes_bits bs) = bytes_bits (take k bs)"
proof (induction bs arbitrary: k)
  case Nil
  then show ?case by simp
next
  case (Cons b bs)
  then show ?case by (cases k) auto
qed

lemma drop_bytes_bits [bits_simps]: "drop (8 * k) (bytes_bits bs) = bytes_bits (drop k bs)"
proof (induction bs arbitrary: k)
  case Nil
  then show ?case by simp
next
  case (Cons b bs)
  then show ?case by (cases k) auto
qed

lemma load_le_SomeD:
  "load_le n mem off = Some w \<Longrightarrow> off + n \<le> length mem \<and> w = le_word (take n (drop off mem))"
  by (auto simp: load_le_def split: if_splits)

section \<open>Little-endian stores\<close>

fun le_bytes :: "nat \<Rightarrow> u64 \<Rightarrow> u8 list" where
  "le_bytes 0 w = []"
| "le_bytes (Suc n) w = ucast w # le_bytes n (drop_bit 8 w)"

definition store_le :: "nat \<Rightarrow> u64 \<Rightarrow> u8 list \<Rightarrow> nat \<Rightarrow> u8 list option" where
  "store_le n w mem off =
    (if off + n \<le> length mem then Some (take off mem @ le_bytes n w @ drop (off + n) mem) else None)"

lemma length_le_bytes [simp]: "length (le_bytes n w) = n"
  by (induction n arbitrary: w) auto

lemma bytes_bits_le_bytes [bits_simps]:
  "n \<le> 8 \<Longrightarrow> bytes_bits (le_bytes n w) = word_bits w 0 (8 * n)"
proof (induction n arbitrary: w)
  case 0
  then show ?case by simp
next
  case (Suc n)
  have "word_bits w 0 (8 * Suc n) = word_bits w 0 8 @ word_bits w 8 (8 * Suc n)"
    by (rule word_bits_split) auto
  moreover have "word_bits w 8 (8 * Suc n) = word_bits (drop_bit 8 w) 0 (8 * n)"
    by (rule word_bits_eqI) (auto simp: bit_drop_bit_eq)
  moreover have "byte_bits (ucast w) = word_bits w 0 8"
    unfolding byte_bits_def by (rule word_bits_eqI) (auto simp: bit_ucast_iff)
  ultimately show ?case using Suc by simp
qed

end
