(* ===== verification/Brotli_Interfaces.thy ===== *)
theory Brotli_Interfaces
  imports Brotli_Prelude
begin

text \<open>
  The two interfaces everything else is written against, as locales: \<open>bit_source\<close>, what a
  caller may rely on when it asks the reader for \<open>n\<close> bits and handles the refusal, and
  \<open>bit_sink\<close>, what a caller may rely on when it appends \<open>n\<close> bits to the output. The
  decoder's safe reads interpret the first (theory \<open>Brotli_BitReader\<close>), the encoder's
  \<open>BrotliWriteBits\<close> the second (theory \<open>Brotli_WriteBits\<close>).
\<close>

section \<open>Reading bits\<close>

locale bit_source =
  fixes rd :: "u32 \<Rightarrow> 'r \<Rightarrow> u32 option \<times> 'r"
    and unread :: "'r \<Rightarrow> bool list"
    and wf :: "'r \<Rightarrow> bool"
    and request :: "u32 \<Rightarrow> bool"
  assumes request_bound: "request n \<Longrightarrow> n \<le> 32"
    and rd_enough: "wf r \<Longrightarrow> request n \<Longrightarrow> unat n \<le> length (unread r) \<Longrightarrow>
      \<exists>v r'. rd n r = (Some v, r') \<and> unat v = bits_val (take (unat n) (unread r)) \<and>
        wf r' \<and> unread r' = drop (unat n) (unread r)"
    and rd_short: "wf r \<Longrightarrow> request n \<Longrightarrow> length (unread r) < unat n \<Longrightarrow>
      \<exists>r'. rd n r = (None, r') \<and> wf r' \<and> unread r' = unread r"
begin

text \<open>A read either delivers the next bits or leaves them all.\<close>

lemma rd_cases:
  assumes "wf r" "request n"
  obtains v r' where "unat n \<le> length (unread r)" "rd n r = (Some v, r')"
      "unat v = bits_val (take (unat n) (unread r))" "wf r'" "unread r' = drop (unat n) (unread r)"
  | r' where "length (unread r) < unat n" "rd n r = (None, r')" "wf r'" "unread r' = unread r"
  using rd_enough [OF assms] rd_short [OF assms] by (meson not_less)

text \<open>What was written as \<open>n\<close> bits of \<open>v\<close> is read back as \<open>v\<close>.\<close>

lemma rd_written:
  assumes "wf r" "request n" and u: "unread r = nat_bits (unat n) v @ rest" and v: "v < 2 ^ unat n"
  shows "\<exists>r'. rd n r = (Some (word_of_nat v), r') \<and> wf r' \<and> unread r' = rest"
proof -
  obtain w r' where w: "rd n r = (Some w, r')" "unat w = bits_val (take (unat n) (unread r))"
      "wf r'" "unread r' = drop (unat n) (unread r)"
    using rd_enough [OF assms(1,2)] u by auto
  have "unat w = v" using w(2) u v by simp
  then have "w = word_of_nat v" by auto
  with w u show ?thesis by simp
qed

text \<open>Two reads in a row read the two halves of one longer read.\<close>

lemma rd_twice:
  assumes "wf r" "request m" "request n" "unat m + unat n \<le> length (unread r)"
  obtains v1 r1 v2 r2 where "rd m r = (Some v1, r1)" "rd n r1 = (Some v2, r2)"
    "unat v1 + 2 ^ unat m * unat v2 = bits_val (take (unat m + unat n) (unread r))"
    "wf r2" "unread r2 = drop (unat m + unat n) (unread r)"
proof -
  have "unat m \<le> length (unread r)" using assms(4) by simp
  then obtain v1 r1 where 1: "rd m r = (Some v1, r1)" "unat v1 = bits_val (take (unat m) (unread r))"
      "wf r1" "unread r1 = drop (unat m) (unread r)"
    using rd_enough [OF assms(1,2)] by blast
  have "unat n \<le> length (unread r1)" using assms(4) 1 by simp
  then obtain v2 r2 where 2: "rd n r1 = (Some v2, r2)" "unat v2 = bits_val (take (unat n) (unread r1))"
      "wf r2" "unread r2 = drop (unat n) (unread r1)"
    using rd_enough [OF 1(3) assms(3)] by blast
  have "unat v1 + 2 ^ unat m * unat v2 = bits_val (take (unat m + unat n) (unread r))"
    using assms(4) by (simp add: 1 2 take_add bits_val_append min_absorb1)
  then show thesis using that [OF 1(1) 2(1) _ 2(3)] 1 2 by (simp add: add.commute)
qed

end

section \<open>Writing bits\<close>

text \<open>
  A sink has a capacity in bits; a write of \<open>n\<close> bits succeeds while \<open>slack\<close> bits of room
  remain beyond it. \<open>wrote s bs s'\<close> says that \<open>s'\<close> is \<open>s\<close> with exactly \<open>bs\<close> appended.
\<close>

locale bit_sink =
  fixes wr :: "nat \<Rightarrow> u64 \<Rightarrow> 's \<Rightarrow> 's option"
    and written :: "'s \<Rightarrow> bool list"
    and room :: "'s \<Rightarrow> nat"
    and wf :: "'s \<Rightarrow> bool"
    and slack :: nat
  assumes wr_append: "wf s \<Longrightarrow> n \<le> 56 \<Longrightarrow> unat v < 2 ^ n \<Longrightarrow> n + slack \<le> room s \<Longrightarrow>
      \<exists>s'. wr n v s = Some s' \<and> wf s' \<and> written s' = written s @ nat_bits n (unat v) \<and>
        room s' = room s - n"
begin

definition wrote :: "'s \<Rightarrow> bool list \<Rightarrow> 's \<Rightarrow> bool" where
  "wrote s bs s' \<longleftrightarrow> wf s' \<and> written s' = written s @ bs \<and> room s' = room s - length bs"

definition writes :: "('s \<Rightarrow> 's option) \<Rightarrow> bool list \<Rightarrow> bool" where
  "writes f bs \<longleftrightarrow> (\<forall>s. wf s \<longrightarrow> length bs + slack \<le> room s \<longrightarrow> (\<exists>s'. f s = Some s' \<and> wrote s bs s'))"

lemma writes_wr: "n \<le> 56 \<Longrightarrow> unat v < 2 ^ n \<Longrightarrow> writes (wr n v) (nat_bits n (unat v))"
  unfolding writes_def wrote_def using wr_append by auto

lemma writes_none: "writes Some []"
  by (simp add: writes_def wrote_def)

lemma writes_seq:
  assumes f: "writes f xs" and g: "writes g ys"
  shows "writes (\<lambda>s. Option.bind (f s) g) (xs @ ys)"
  unfolding writes_def
proof (intro allI impI)
  fix s
  assume s: "wf s" "length (xs @ ys) + slack \<le> room s"
  then obtain s1 where s1: "f s = Some s1" "wrote s xs s1" using f by (auto simp: writes_def)
  then have "wf s1" "length ys + slack \<le> room s1" using s by (auto simp: wrote_def)
  then obtain s2 where "g s1 = Some s2" "wrote s1 ys s2" using g by (auto simp: writes_def)
  with s1 show "\<exists>s'. Option.bind (f s) g = Some s' \<and> wrote s (xs @ ys) s'"
    by (auto simp: wrote_def)
qed

lemma writesD:
  assumes "writes f bs" "wf s" "length bs + slack \<le> room s"
  obtains s' where "f s = Some s'" "wf s'" "written s' = written s @ bs" "room s' = room s - length bs"
  using assms by (auto simp: writes_def wrote_def)

lemma writes_cong: "writes f bs \<Longrightarrow> bs = bs' \<Longrightarrow> writes f bs'"
  by simp

end

end
