(* ===== verification/Brotli_BitReader.thy ===== *)
theory Brotli_BitReader
  imports Brotli_Interfaces
begin

text \<open>
  The decoder's bit reader, \<open>dec/bit_reader.h\<close> and \<open>dec/bit_reader.c\<close>, for a 64-bit
  little-endian build that allows unaligned reads (\<open>BROTLI_64_BITS = 1\<close>,
  \<open>BROTLI_ALIGNED_READ = 0\<close>, the x86-64 configuration of \<open>common/platform.h\<close>). The pointer
  \<open>next_in\<close> is a memory object \<open>br_mem\<close> and an offset into it; reads that leave the
  object are \<open>None\<close>. The abstraction \<open>br_bits\<close> is the sequence of bits the reader has not
  consumed yet: every operation is characterised by what it does to that sequence.
\<close>

section \<open>State\<close>

record BrotliBitReader =
  br_val :: u64
  br_bit_pos :: u32
  br_mem :: "u8 list"
  br_next_in :: nat
  br_avail_in :: nat

definition kBrotliBitMask :: "u32 list" where
  "kBrotliBitMask = [0x00000000,
    0x00000001, 0x00000003, 0x00000007, 0x0000000F,
    0x0000001F, 0x0000003F, 0x0000007F, 0x000000FF,
    0x000001FF, 0x000003FF, 0x000007FF, 0x00000FFF,
    0x00001FFF, 0x00003FFF, 0x00007FFF, 0x0000FFFF,
    0x0001FFFF, 0x0003FFFF, 0x0007FFFF, 0x000FFFFF,
    0x001FFFFF, 0x003FFFFF, 0x007FFFFF, 0x00FFFFFF,
    0x01FFFFFF, 0x03FFFFFF, 0x07FFFFFF, 0x0FFFFFFF,
    0x1FFFFFFF, 0x3FFFFFFF, 0x7FFFFFFF, 0xFFFFFFFF]"

text \<open>
  \<open>BitMask\<close> has two bodies: the expression for compile-time constants (the Boolean
  \<open>is_const\<close>, \<open>BROTLI_IS_CONSTANT\<close>) and the table.
\<close>

definition BitMask :: "bool \<Rightarrow> u32 \<Rightarrow> u32" where
  "BitMask is_const n =
    (if is_const then NOT (push_bit (unat n) 0xFFFFFFFF) else kBrotliBitMask ! unat n)"

section \<open>Operations\<close>

definition BrotliInitBitReader :: "BrotliBitReader \<Rightarrow> BrotliBitReader" where
  "BrotliInitBitReader br = br\<lparr>br_val := 0, br_bit_pos := 64\<rparr>"

definition BrotliGetAvailableBits :: "BrotliBitReader \<Rightarrow> u32" where
  "BrotliGetAvailableBits br = 64 - br_bit_pos br"

definition BROTLI_LARGE_MAX_WBITS :: nat where
  "BROTLI_LARGE_MAX_WBITS = 30"

definition BrotliGetRemainingBytes :: "BrotliBitReader \<Rightarrow> nat" where
  "BrotliGetRemainingBytes br =
    (let kCap = 2 ^ BROTLI_LARGE_MAX_WBITS in
     if kCap < br_avail_in br then kCap
     else br_avail_in br + unat (drop_bit 3 (BrotliGetAvailableBits br)))"

definition BrotliCheckInputAmount :: "BrotliBitReader \<Rightarrow> nat \<Rightarrow> bool" where
  "BrotliCheckInputAmount br num \<longleftrightarrow> num \<le> br_avail_in br"

definition BrotliFillBitWindow :: "bool \<Rightarrow> u32 \<Rightarrow> BrotliBitReader \<Rightarrow> BrotliBitReader option" where
  "BrotliFillBitWindow is_const n_bits br =
    (if is_const \<and> n_bits \<le> 8 then
       (if 56 \<le> br_bit_pos br then
          (case load_le 8 (br_mem br) (br_next_in br) of
             None \<Rightarrow> None
           | Some w \<Rightarrow> if br_avail_in br < 7 then None else
               Some (br\<lparr>br_val := drop_bit 56 (br_val br) OR push_bit 8 w,
                       br_bit_pos := br_bit_pos br XOR 56,
                       br_avail_in := br_avail_in br - 7,
                       br_next_in := br_next_in br + 7\<rparr>))
        else Some br)
     else if is_const \<and> n_bits \<le> 16 then
       (if 48 \<le> br_bit_pos br then
          (case load_le 8 (br_mem br) (br_next_in br) of
             None \<Rightarrow> None
           | Some w \<Rightarrow> if br_avail_in br < 6 then None else
               Some (br\<lparr>br_val := drop_bit 48 (br_val br) OR push_bit 16 w,
                       br_bit_pos := br_bit_pos br XOR 48,
                       br_avail_in := br_avail_in br - 6,
                       br_next_in := br_next_in br + 6\<rparr>))
        else Some br)
     else
       (if 32 \<le> br_bit_pos br then
          (case load_le 4 (br_mem br) (br_next_in br) of
             None \<Rightarrow> None
           | Some w \<Rightarrow> if br_avail_in br < 4 then None else
               Some (br\<lparr>br_val := drop_bit 32 (br_val br) OR push_bit 32 w,
                       br_bit_pos := br_bit_pos br XOR 32,
                       br_avail_in := br_avail_in br - 4,
                       br_next_in := br_next_in br + 4\<rparr>))
        else Some br))"

definition BrotliFillBitWindow16 :: "BrotliBitReader \<Rightarrow> BrotliBitReader option" where
  "BrotliFillBitWindow16 br = BrotliFillBitWindow True 17 br"

definition BrotliPullByte :: "BrotliBitReader \<Rightarrow> bool \<times> BrotliBitReader" where
  "BrotliPullByte br =
    (if br_avail_in br = 0 then (False, br)
     else (True, br\<lparr>br_val := drop_bit 8 (br_val br) OR
                       push_bit 56 (ucast (br_mem br ! br_next_in br)),
                    br_bit_pos := br_bit_pos br - 8,
                    br_avail_in := br_avail_in br - 1,
                    br_next_in := br_next_in br + 1\<rparr>))"

definition BrotliGetBitsUnmasked :: "BrotliBitReader \<Rightarrow> u64" where
  "BrotliGetBitsUnmasked br = drop_bit (unat (br_bit_pos br)) (br_val br)"

definition BrotliGet16BitsUnmasked :: "BrotliBitReader \<Rightarrow> (u32 \<times> BrotliBitReader) option" where
  "BrotliGet16BitsUnmasked br =
    (case BrotliFillBitWindow True 16 br of
       None \<Rightarrow> None
     | Some br \<Rightarrow> Some (ucast (BrotliGetBitsUnmasked br), br))"

definition BrotliGetBits :: "bool \<Rightarrow> u32 \<Rightarrow> BrotliBitReader \<Rightarrow> (u32 \<times> BrotliBitReader) option" where
  "BrotliGetBits is_const n_bits br =
    (case BrotliFillBitWindow is_const n_bits br of
       None \<Rightarrow> None
     | Some br \<Rightarrow> Some (ucast (BrotliGetBitsUnmasked br) AND BitMask is_const n_bits, br))"

text \<open>
  The loop shared by \<open>BrotliSafeGetBits\<close>, \<open>BrotliSafeReadBits\<close> and
  \<open>BrotliSafeReadBits32\<close>: pull bytes until \<open>n_bits\<close> are available.
\<close>

function pull_until :: "u32 \<Rightarrow> BrotliBitReader \<Rightarrow> bool \<times> BrotliBitReader" where
  "pull_until n_bits br =
    (if BrotliGetAvailableBits br < n_bits then
       (case BrotliPullByte br of
          (False, br') \<Rightarrow> (False, br')
        | (True, br') \<Rightarrow> pull_until n_bits br')
     else (True, br))"
  by pat_completeness auto
termination
  by (relation "measure (\<lambda>(n, br). br_avail_in br)")
    (auto simp: BrotliPullByte_def split: if_splits)

declare pull_until.simps [simp del]

definition BrotliDropBits :: "u32 \<Rightarrow> BrotliBitReader \<Rightarrow> BrotliBitReader" where
  "BrotliDropBits n_bits br = br\<lparr>br_bit_pos := br_bit_pos br + n_bits\<rparr>"

definition BrotliTakeBits :: "u32 \<Rightarrow> BrotliBitReader \<Rightarrow> u32 \<times> BrotliBitReader" where
  "BrotliTakeBits n_bits br =
    (ucast (BrotliGetBitsUnmasked br) AND BitMask False n_bits, BrotliDropBits n_bits br)"

definition BrotliSafeGetBits :: "u32 \<Rightarrow> BrotliBitReader \<Rightarrow> u32 option \<times> BrotliBitReader" where
  "BrotliSafeGetBits n_bits br =
    (case pull_until n_bits br of
       (False, br) \<Rightarrow> (None, br)
     | (True, br) \<Rightarrow> (Some (ucast (BrotliGetBitsUnmasked br) AND BitMask False n_bits), br))"

definition BrotliSafeReadBits :: "u32 \<Rightarrow> BrotliBitReader \<Rightarrow> u32 option \<times> BrotliBitReader" where
  "BrotliSafeReadBits n_bits br =
    (case pull_until n_bits br of
       (False, br) \<Rightarrow> (None, br)
     | (True, br) \<Rightarrow> (case BrotliTakeBits n_bits br of (v, br) \<Rightarrow> (Some v, br)))"

definition BrotliSafeReadBits32 :: "u32 \<Rightarrow> BrotliBitReader \<Rightarrow> u32 option \<times> BrotliBitReader" where
  "BrotliSafeReadBits32 n_bits br =
    (case pull_until n_bits br of
       (False, br) \<Rightarrow> (None, br)
     | (True, br) \<Rightarrow> (case BrotliTakeBits n_bits br of (v, br) \<Rightarrow> (Some v, br)))"

text \<open>
  \<open>BrotliSafeReadBits32Slow\<close> is what \<open>BrotliSafeReadBits32\<close> calls on a 32-bit build for
  more than 24 bits: two reads, undone together when the second fails.
\<close>

definition BrotliSafeReadBits32Slow :: "u32 \<Rightarrow> BrotliBitReader \<Rightarrow> u32 option \<times> BrotliBitReader" where
  "BrotliSafeReadBits32Slow n_bits br =
    (let memento = br in
     case BrotliSafeReadBits 16 br of
       (None, br) \<Rightarrow> (None, memento)
     | (Some low_val, br) \<Rightarrow>
         (case BrotliSafeReadBits (n_bits - 16) br of
            (None, br) \<Rightarrow> (None, memento)
          | (Some high_val, br) \<Rightarrow> (Some (low_val OR push_bit 16 high_val), br)))"

definition BrotliReadBits24 :: "bool \<Rightarrow> u32 \<Rightarrow> BrotliBitReader \<Rightarrow> (u32 \<times> BrotliBitReader) option" where
  "BrotliReadBits24 is_const n_bits br =
    (case BrotliFillBitWindow is_const n_bits br of
       None \<Rightarrow> None
     | Some br \<Rightarrow> Some (BrotliTakeBits n_bits br))"

definition BrotliReadBits32 :: "bool \<Rightarrow> u32 \<Rightarrow> BrotliBitReader \<Rightarrow> (u32 \<times> BrotliBitReader) option" where
  "BrotliReadBits32 is_const n_bits br =
    (case BrotliFillBitWindow is_const n_bits br of
       None \<Rightarrow> None
     | Some br \<Rightarrow> Some (BrotliTakeBits n_bits br))"

definition BrotliWarmupBitReader :: "BrotliBitReader \<Rightarrow> bool \<times> BrotliBitReader" where
  \<comment> \<open>\<open>aligned_read_mask = 0\<close> on this build, so the alignment loop has no iteration.\<close>
  "BrotliWarmupBitReader br =
    (if BrotliGetAvailableBits br = 0 then BrotliPullByte br else (True, br))"

definition BrotliBitReaderUnload :: "BrotliBitReader \<Rightarrow> BrotliBitReader" where
  "BrotliBitReaderUnload br =
    (let unused_bytes = drop_bit 3 (BrotliGetAvailableBits br);
         unused_bits = push_bit 3 unused_bytes
     in br\<lparr>br_avail_in := br_avail_in br + unat unused_bytes,
           br_next_in := br_next_in br - unat unused_bytes,
           br_val := (if unused_bits = 64 then 0 else push_bit (unat unused_bits) (br_val br)),
           br_bit_pos := br_bit_pos br + unused_bits\<rparr>)"

definition BrotliJumpToByteBoundary :: "BrotliBitReader \<Rightarrow> bool \<times> BrotliBitReader" where
  "BrotliJumpToByteBoundary br =
    (let pad_bits_count = BrotliGetAvailableBits br AND 7 in
     case (if pad_bits_count \<noteq> 0 then BrotliTakeBits pad_bits_count br else (0, br)) of
       (pad_bits, br) \<Rightarrow> (pad_bits = 0, br))"

text \<open>
  \<open>BrotliCopyBytes\<close>: whole bytes of the accumulator first, then a \<open>memcpy\<close> from the
  input (\<open>None\<close> where it would leave the memory object or \<open>avail_in\<close>). The result is the
  copied bytes.
\<close>

function copy_buffered :: "nat \<Rightarrow> BrotliBitReader \<Rightarrow> u8 list \<times> nat \<times> BrotliBitReader" where
  "copy_buffered num br =
    (if 8 \<le> BrotliGetAvailableBits br \<and> 0 < num then
       (case copy_buffered (num - 1) (BrotliDropBits 8 br) of
          (out, num', br') \<Rightarrow> (ucast (BrotliGetBitsUnmasked br) # out, num', br'))
     else ([], num, br))"
  by pat_completeness auto
termination
  by (relation "measure fst") auto

declare copy_buffered.simps [simp del]

definition BrotliCopyBytes :: "nat \<Rightarrow> BrotliBitReader \<Rightarrow> (u8 list \<times> BrotliBitReader) option" where
  "BrotliCopyBytes num br =
    (case copy_buffered num br of
       (out, num, br) \<Rightarrow>
         if br_avail_in br < num \<or> length (br_mem br) < br_next_in br + num then None
         else Some (out @ take num (drop (br_next_in br) (br_mem br)),
                    br\<lparr>br_avail_in := br_avail_in br - num, br_next_in := br_next_in br + num\<rparr>))"

section \<open>The abstraction: the unread bits\<close>

definition br_ok :: "BrotliBitReader \<Rightarrow> bool" where
  "br_ok br \<longleftrightarrow> br_bit_pos br \<le> 64 \<and> br_next_in br + br_avail_in br \<le> length (br_mem br)"

definition br_input :: "BrotliBitReader \<Rightarrow> u8 list" where
  "br_input br = take (br_avail_in br) (drop (br_next_in br) (br_mem br))"

definition br_bits :: "BrotliBitReader \<Rightarrow> bool list" where
  "br_bits br = word_bits (br_val br) (unat (br_bit_pos br)) 64 @ bytes_bits (br_input br)"

abbreviation br_avail_bits :: "BrotliBitReader \<Rightarrow> nat" where
  "br_avail_bits br \<equiv> 64 - unat (br_bit_pos br)"


section \<open>Bit masks and shifts\<close>

lemma kBrotliBitMask_eq: "kBrotliBitMask = map mask [0..<33]"
  by (simp add: kBrotliBitMask_def mask_eq_exp_minus_1 upt_rec)

lemma BitMask_table:
  assumes "n \<le> 32"
  shows "BitMask False n = mask (unat n)"
  using assms by (simp add: BitMask_def kBrotliBitMask_eq word_le_nat_alt)

lemma BitMask_const:
  assumes "n < 32"
  shows "BitMask True n = mask (unat n)"
proof -
  have "(0xFFFFFFFF :: u32) = - 1" by simp
  then have "BitMask True n = NOT (push_bit (unat n) (- 1))" by (simp only: BitMask_def if_True)
  then show ?thesis by (simp add: mask_eq_exp_minus_1 push_bit_minus_one_eq_not_mask)
qed

text \<open>Shifting \<open>k\<close> consumed bits out at the bottom makes room for \<open>k\<close> new ones at the top.\<close>

lemma refill_bits:
  fixes v w :: u64
  assumes "k \<le> p" "p \<le> 64" "k \<le> 64"
  shows "word_bits (drop_bit k v OR push_bit (64 - k) w) (p - k) 64 =
    word_bits v p 64 @ word_bits w 0 k"
proof (rule nth_equalityI)
  show "length (word_bits (drop_bit k v OR push_bit (64 - k) w) (p - k) 64) =
      length (word_bits v p 64 @ word_bits w 0 k)"
    using assms by simp
next
  fix i
  assume "i < length (word_bits (drop_bit k v OR push_bit (64 - k) w) (p - k) 64)"
  then have i: "i < 64 - (p - k)" by simp
  show "word_bits (drop_bit k v OR push_bit (64 - k) w) (p - k) 64 ! i =
      (word_bits v p 64 @ word_bits w 0 k) ! i"
  proof (cases "i < 64 - p")
    case True
    then have "\<not> 64 - k \<le> p - k + i" "k + (p - k + i) = p + i" using assms by auto
    with True i show ?thesis
      by (simp add: nth_append bit_or_iff bit_drop_bit_eq bit_push_bit_iff)
  next
    case False
    then have "64 - k \<le> p - k + i" "\<not> bit v (k + (p - k + i))" "p - k + i < 64"
      using assms i bit_imp_le_length [of v "k + (p - k + i)"] by auto
    moreover have "p - k + i - (64 - k) = i - (64 - p)" using assms False by simp
    ultimately show ?thesis using False i assms
      by (simp add: nth_append bit_or_iff bit_drop_bit_eq bit_push_bit_iff)
  qed
qed

section \<open>What each operation does to the unread bits\<close>

lemma br_okD:
  assumes "br_ok br"
  shows "unat (br_bit_pos br) \<le> 64" "br_next_in br + br_avail_in br \<le> length (br_mem br)"
  using assms by (auto simp: br_ok_def word_le_nat_alt)

lemma length_br_input [simp]: "br_ok br \<Longrightarrow> length (br_input br) = br_avail_in br"
  by (auto simp: br_input_def dest: br_okD(2))

lemma length_br_bits [simp]:
  "br_ok br \<Longrightarrow> length (br_bits br) = br_avail_bits br + 8 * br_avail_in br"
  by (simp add: br_bits_def)

lemma available_bits_unat [word_conv]:
  "br_ok br \<Longrightarrow> unat (BrotliGetAvailableBits br) = br_avail_bits br"
  by (simp add: BrotliGetAvailableBits_def br_ok_def unat_sub)

lemma br_input_split:
  "k \<le> br_avail_in br \<Longrightarrow>
    br_input br = take k (drop (br_next_in br) (br_mem br)) @
      take (br_avail_in br - k) (drop (br_next_in br + k) (br_mem br))"
  by (simp add: br_input_def add.commute flip: take_add drop_drop)

text \<open>
  A refill of \<open>k\<close> bytes, in the form all four refills of the code have: the value is
  shifted by \<open>8 * k\<close>, the new bytes come in at the top, the position moves down.
\<close>

lemma refill_br_bits:
  assumes ok: "br_ok br" and k: "8 * k \<le> unat (br_bit_pos br)" "k \<le> br_avail_in br"
    and w: "word_bits w 0 (8 * k) = bytes_bits (take k (drop (br_next_in br) (br_mem br)))"
    and br': "br' = br\<lparr>br_val := drop_bit (8 * k) (br_val br) OR push_bit (64 - 8 * k) w,
      br_bit_pos := p, br_avail_in := br_avail_in br - k, br_next_in := br_next_in br + k\<rparr>"
    and p: "unat p = unat (br_bit_pos br) - 8 * k"
  shows "br_ok br'" "br_bits br' = br_bits br" "br_avail_bits br' = br_avail_bits br + 8 * k"
proof -
  note okD = br_okD [OF ok]
  show "br_ok br'"
    using okD k p by (simp add: br' br_ok_def word_le_nat_alt)
  show "br_avail_bits br' = br_avail_bits br + 8 * k"
    using okD k by (simp add: br' p)
  have "word_bits (br_val br') (unat p) 64 = word_bits (br_val br) (unat (br_bit_pos br)) 64 @
      bytes_bits (take k (drop (br_next_in br) (br_mem br)))"
    using refill_bits [OF k(1) okD(1), of "br_val br" w] okD(1) k(1) w by (simp add: br' p)
  then show "br_bits br' = br_bits br"
    using br_input_split [OF k(2)] by (simp add: br' br_bits_def br_input_def)
qed

lemma pull_byte_bits:
  assumes ok: "br_ok br" and pull: "BrotliPullByte br = (True, br')"
    and room: "8 \<le> unat (br_bit_pos br)"
  shows "br_ok br'" "br_bits br' = br_bits br" "br_avail_bits br' = br_avail_bits br + 8"
    and "br_avail_in br = Suc (br_avail_in br')"
proof -
  have av: "0 < br_avail_in br" using pull by (auto simp: BrotliPullByte_def split: if_splits)
  have br': "br' = br\<lparr>br_val := drop_bit (8 * 1) (br_val br) OR
        push_bit (64 - 8 * 1) (ucast (br_mem br ! br_next_in br)),
      br_bit_pos := br_bit_pos br - 8, br_avail_in := br_avail_in br - 1,
      br_next_in := br_next_in br + 1\<rparr>"
    using pull av by (simp add: BrotliPullByte_def)
  have lt: "br_next_in br < length (br_mem br)" using br_okD(2) [OF ok] av by simp
  have w: "word_bits (ucast (br_mem br ! br_next_in br) :: u64) 0 (8 * 1) =
      bytes_bits (take 1 (drop (br_next_in br) (br_mem br)))"
    using lt by (simp add: take_Suc_conv_app_nth hd_drop_conv_nth take_Suc byte_bits_def)
      (auto intro!: word_bits_eqI simp: bit_ucast_iff)
  have p: "unat (br_bit_pos br - 8) = unat (br_bit_pos br) - 8 * 1"
    using room by (simp add: unat_sub word_le_nat_alt)
  show "br_ok br'" "br_bits br' = br_bits br" "br_avail_bits br' = br_avail_bits br + 8"
    using refill_br_bits [OF ok _ _ w br' p] room av by simp_all
  show "br_avail_in br = Suc (br_avail_in br')" using av by (simp add: br')
qed

lemma pull_byte_False:
  "BrotliPullByte br = (False, br') \<Longrightarrow> br' = br \<and> br_avail_in br = 0"
  by (auto simp: BrotliPullByte_def split: if_splits)

lemma pull_until_bits:
  assumes "br_ok br" "n \<le> 56" "pull_until n br = (b, br')"
  shows "br_ok br' \<and> br_bits br' = br_bits br \<and> b = (unat n \<le> length (br_bits br)) \<and>
    (b \<longrightarrow> unat n \<le> br_avail_bits br') \<and> (\<not> b \<longrightarrow> br_avail_in br' = 0)"
  using assms
proof (induction n br arbitrary: b br' rule: pull_until.induct)
  case (1 n br)
  note ok = \<open>br_ok br\<close>
  have n: "unat n \<le> 56" using "1.prems"(2) by (simp add: word_le_nat_alt)
  have lt: "BrotliGetAvailableBits br < n \<longleftrightarrow> br_avail_bits br < unat n"
    by (simp add: word_less_nat_alt available_bits_unat ok)
  show ?case
  proof (cases "br_avail_bits br < unat n")
    case False
    with "1.prems" lt have "b" "br' = br" by (auto simp: pull_until.simps [of n br])
    with False ok show ?thesis by simp
  next
    case True
    obtain c br1 where p: "BrotliPullByte br = (c, br1)" by (cases "BrotliPullByte br")
    show ?thesis
    proof (cases c)
      case False
      then have "br1 = br" "br_avail_in br = 0" using p pull_byte_False by auto
      moreover have "b = False" "br' = br1"
        using "1.prems" lt True p False by (auto simp: pull_until.simps [of n br])
      ultimately show ?thesis using True ok by simp
    next
      case c: True
      have room: "8 \<le> unat (br_bit_pos br)" using True n br_okD(1) [OF ok] by simp
      note q = pull_byte_bits [OF ok p [unfolded c [THEN eqTrueI]] room]
      have "pull_until n br1 = (b, br')"
        using "1.prems" lt True p c by (simp add: pull_until.simps [of n br])
      then show ?thesis
        using "1.IH" [OF _ p [symmetric]] lt True q "1.prems"(2) c by simp
    qed
  qed
qed

text \<open>Taking \<open>n\<close> bits reads the first \<open>n\<close> unread bits as a number and drops them.\<close>

lemma bits_val_br_bits:
  assumes "br_ok br" "n \<le> br_avail_bits br"
  shows "take n (br_bits br) = word_bits (BrotliGetBitsUnmasked br) 0 n"
  using assms
  by (intro nth_equalityI)
    (auto simp: br_bits_def nth_append BrotliGetBitsUnmasked_def bit_drop_bit_eq add.commute
      dest: br_okD(1))

lemma unat_masked:
  fixes w :: u64
  assumes "n \<le> 32"
  shows "unat ((ucast w :: u32) AND mask n) = unat w mod 2 ^ n"
proof -
  have "unat ((ucast w :: u32) AND mask n) = take_bit n (take_bit 32 (unat w))"
    by (simp add: unsigned_take_bit_eq unsigned_ucast_eq flip: take_bit_eq_mask)
  also have "\<dots> = take_bit n (unat w)" using assms by (simp add: min_absorb1)
  finally show ?thesis by (simp only: take_bit_eq_mod)
qed

lemma drop_bits_bits:
  assumes "br_ok br" "unat n \<le> br_avail_bits br"
  shows "br_ok (BrotliDropBits n br)"
    and "br_bits (BrotliDropBits n br) = drop (unat n) (br_bits br)"
    and "br_avail_bits (BrotliDropBits n br) = br_avail_bits br - unat n"
proof -
  have p: "unat (br_bit_pos br + n) = unat (br_bit_pos br) + unat n"
    using assms br_okD(1) [OF assms(1)] by (simp add: unat_word_ariths)
  show "br_ok (BrotliDropBits n br)"
    using assms br_okD [OF assms(1)] by (simp add: BrotliDropBits_def br_ok_def word_le_nat_alt p)
  show "br_avail_bits (BrotliDropBits n br) = br_avail_bits br - unat n"
    by (simp add: BrotliDropBits_def p)
  have "word_bits (br_val br) (unat (br_bit_pos br)) 64 =
      word_bits (br_val br) (unat (br_bit_pos br)) (unat (br_bit_pos br) + unat n) @
      word_bits (br_val br) (unat (br_bit_pos br) + unat n) 64"
    using assms br_okD(1) [OF assms(1)] by (intro word_bits_split) auto
  then show "br_bits (BrotliDropBits n br) = drop (unat n) (br_bits br)"
    by (simp add: br_bits_def BrotliDropBits_def br_input_def p)
qed

lemma take_bits_bits:
  assumes ok: "br_ok br" and n: "unat n \<le> br_avail_bits br" "n \<le> 32"
    and take: "BrotliTakeBits n br = (v, br')"
  shows "br_ok br'" "br_bits br' = drop (unat n) (br_bits br)"
    and "unat v = bits_val (take (unat n) (br_bits br))"
proof -
  have br': "br' = BrotliDropBits n br"
    and v: "v = ucast (BrotliGetBitsUnmasked br) AND BitMask False n"
    using take by (auto simp: BrotliTakeBits_def)
  show "br_ok br'" "br_bits br' = drop (unat n) (br_bits br)"
    using drop_bits_bits [OF ok n(1)] br' by auto
  show "unat v = bits_val (take (unat n) (br_bits br))"
    using n by (simp add: v BitMask_table unat_masked word_le_nat_alt bits_val_word_bits
        bits_val_br_bits [OF ok n(1)])
qed

text \<open>The safe read succeeds exactly when enough bits are left, and a failure loses none.\<close>

lemma safe_read_bits:
  assumes ok: "br_ok br" and n: "n \<le> 32"
  obtains v br' where "unat n \<le> length (br_bits br)" "BrotliSafeReadBits n br = (Some v, br')"
      "unat v = bits_val (take (unat n) (br_bits br))" "br_ok br'"
      "br_bits br' = drop (unat n) (br_bits br)"
  | br' where "length (br_bits br) < unat n" "BrotliSafeReadBits n br = (None, br')"
      "br_ok br'" "br_bits br' = br_bits br" "br_avail_in br' = 0"
proof -
  obtain b br1 where p: "pull_until n br = (b, br1)" by (cases "pull_until n br")
  have "n \<le> 56" using n by (rule order_trans) simp
  note q = pull_until_bits [OF ok this p]
  show thesis
  proof (cases b)
    case False
    then have "BrotliSafeReadBits n br = (None, br1)" by (simp add: BrotliSafeReadBits_def p)
    with q False show thesis by (intro that(2) [of br1]) auto
  next
    case True
    obtain v br' where t: "BrotliTakeBits n br1 = (v, br')" by (cases "BrotliTakeBits n br1")
    then have "BrotliSafeReadBits n br = (Some v, br')"
      using True by (simp add: BrotliSafeReadBits_def p)
    moreover have "br_ok br1" "unat n \<le> br_avail_bits br1" "br_bits br1 = br_bits br"
      using q True by auto
    ultimately show thesis
      using take_bits_bits [OF _ _ n t] q True by (intro that(1)) auto
  qed
qed

text \<open>The position update \<open>bit_pos_ ^= 56\<close> of the code is a subtraction on the range it meets.\<close>

lemma xor_sub:
  fixes p :: u32
  shows "56 \<le> unat p \<Longrightarrow> unat p < 64 \<Longrightarrow> unat (p XOR 56) = unat p - 56"
    and "48 \<le> unat p \<Longrightarrow> unat p < 64 \<Longrightarrow> unat (p XOR 48) = unat p - 48"
    and "32 \<le> unat p \<Longrightarrow> unat p < 64 \<Longrightarrow> unat (p XOR 32) = unat p - 32"
proof -
  have in_list: "unat p \<in> set [32..<64]" if "32 \<le> unat p" "unat p < 64"
    using that by (simp only: set_upt atLeastLessThan_iff)
  have p: "p = word_of_nat (unat p)" by simp
  have all: "\<forall>m \<in> set [32..<64].
      (48 \<le> m \<longrightarrow> unat ((word_of_nat m :: u32) XOR 48) = m - 48) \<and>
      (56 \<le> m \<longrightarrow> unat ((word_of_nat m :: u32) XOR 56) = m - 56) \<and>
      unat ((word_of_nat m :: u32) XOR 32) = m - 32"
    by (simp add: upt_rec)
  show "56 \<le> unat p \<Longrightarrow> unat p < 64 \<Longrightarrow> unat (p XOR 56) = unat p - 56"
    "48 \<le> unat p \<Longrightarrow> unat p < 64 \<Longrightarrow> unat (p XOR 48) = unat p - 48"
    "32 \<le> unat p \<Longrightarrow> unat p < 64 \<Longrightarrow> unat (p XOR 32) = unat p - 32"
    using bspec [OF all in_list] by (simp_all flip: p)
qed

lemma load_le_bits:
  assumes "load_le m mem off = Some w" "k \<le> m" "8 * k \<le> 64"
  shows "word_bits w 0 (8 * k) = bytes_bits (take k (drop off mem))"
proof -
  have w: "off + m \<le> length mem" "w = le_word (take m (drop off mem))"
    using load_le_SomeD [OF assms(1)] by auto
  have "word_bits w 0 (8 * k) = take (8 * k) (bytes_bits (take m (drop off mem)))"
    using w assms by (auto simp: intro!: le_word_bits)
  then show ?thesis using assms(2) by (simp add: take_bytes_bits min_absorb1)
qed

lemma fill_bit_window_bits:
  assumes ok: "br_ok br" and one: "br_bit_pos br \<noteq> 64"
    and room: "8 \<le> br_avail_in br" and n: "n \<le> 32"
  obtains br' where "BrotliFillBitWindow c n br = Some br'" "br_ok br'"
    "br_bits br' = br_bits br" "unat n < br_avail_bits br'"
    "br_avail_in br \<le> br_avail_in br' + 7" "br_avail_bits br \<le> br_avail_bits br'"
proof -
  note okD = br_okD [OF ok] and result = that
  have "unat (br_bit_pos br) \<noteq> unat (64 :: u32)" using one by (simp only: word_unat_eq_iff) simp
  then have p64: "unat (br_bit_pos br) < 64" using okD(1) by simp
  have load: "\<exists>w. load_le m (br_mem br) (br_next_in br) = Some w" if "m \<le> 8" for m
    using okD(2) room that by (simp add: load_le_def)
  have nn: "unat n \<le> 32" using n by (simp add: word_le_nat_alt)
  have step: thesis
    if le: "q \<le> unat (br_bit_pos br)" and q: "q = 8 * k" "k \<le> m" "m \<le> 8" "k \<le> 7"
      and x: "unat p = unat (br_bit_pos br) - q" and n': "unat n \<le> q"
      and eq: "\<And>w. load_le m (br_mem br) (br_next_in br) = Some w \<Longrightarrow>
        BrotliFillBitWindow c n br = Some (br\<lparr>br_val := drop_bit q (br_val br) OR
            push_bit (64 - q) w, br_bit_pos := p, br_avail_in := br_avail_in br - k,
            br_next_in := br_next_in br + k\<rparr>)"
    for q k m p
  proof -
    obtain w where w: "load_le m (br_mem br) (br_next_in br) = Some w" using load q by blast
    let ?br = "br\<lparr>br_val := drop_bit (8 * k) (br_val br) OR push_bit (64 - 8 * k) w,
      br_bit_pos := p, br_avail_in := br_avail_in br - k, br_next_in := br_next_in br + k\<rparr>"
    have wb: "word_bits w 0 (8 * k) = bytes_bits (take k (drop (br_next_in br) (br_mem br)))"
      using w q by (intro load_le_bits [OF w]) auto
    have av: "8 * k \<le> unat (br_bit_pos br)" "k \<le> br_avail_in br"
      "unat p = unat (br_bit_pos br) - 8 * k"
      using le x q room by auto
    note r = refill_br_bits [OF ok av(1,2) wb refl [of ?br] av(3)]
    show thesis
    proof (rule result)
      show "BrotliFillBitWindow c n br = Some ?br" using eq [OF w] q by simp
      show "unat n < br_avail_bits ?br" using r(3) n' q p64 by simp
      show "br_avail_in br \<le> br_avail_in ?br + 7" using av q by simp
      show "br_avail_bits br \<le> br_avail_bits ?br" using r(3) by simp
    qed (use r in auto)
  qed
  have big: thesis if "BrotliFillBitWindow c n br = Some br" "unat n < br_avail_bits br"
    by (rule result [OF that(1) ok refl that(2)]) auto
  consider (a) "c" "n \<le> 8" | (b) "c" "\<not> n \<le> 8" "n \<le> 16" | (d) "\<not> (c \<and> n \<le> 8)" "\<not> (c \<and> n \<le> 16)"
    by auto
  then show thesis
  proof cases
    case a
    show thesis
    proof (cases "56 \<le> unat (br_bit_pos br)")
      case True
      with a show thesis
        using room p64
        by (intro step [of 56 7 8 "br_bit_pos br XOR 56"])
          (auto simp: xor_sub BrotliFillBitWindow_def word_le_nat_alt)
    next
      case False
      with a show thesis by (intro big) (auto simp: BrotliFillBitWindow_def word_le_nat_alt)
    qed
  next
    case b
    show thesis
    proof (cases "48 \<le> unat (br_bit_pos br)")
      case True
      with b show thesis
        using room p64
        by (intro step [of 48 6 8 "br_bit_pos br XOR 48"])
          (auto simp: xor_sub BrotliFillBitWindow_def word_le_nat_alt)
    next
      case False
      with b show thesis by (intro big) (auto simp: BrotliFillBitWindow_def word_le_nat_alt)
    qed
  next
    case d
    show thesis
    proof (cases "32 \<le> unat (br_bit_pos br)")
      case True
      with d nn show thesis
        using room p64
        by (intro step [of 32 4 4 "br_bit_pos br XOR 32"])
          (auto simp: xor_sub BrotliFillBitWindow_def word_le_nat_alt)
    next
      case False
      with d nn show thesis by (intro big) (auto simp: BrotliFillBitWindow_def word_le_nat_alt)
    qed
  qed
qed


section \<open>Byte alignment, unloading, copying\<close>

lemma warmup_bits:
  assumes "br_ok br" "BrotliWarmupBitReader br = (b, br')"
  shows "br_ok br'" "br_bits br' = br_bits br" "b \<longleftrightarrow> br_bits br \<noteq> []"
    and "b \<Longrightarrow> br_bit_pos br' \<noteq> 64"
proof -
  note okD = br_okD [OF assms(1)]
  have avail: "BrotliGetAvailableBits br = 0 \<longleftrightarrow> br_avail_bits br = 0"
    using available_bits_unat [OF assms(1)] by (metis unat_eq_zero)
  have p64: "br_avail_bits br = 0 \<longleftrightarrow> br_bit_pos br = 64"
    using okD(1) unat_eq_zero [of "64 - br_bit_pos br"] available_bits_unat [OF assms(1)]
    by (simp add: BrotliGetAvailableBits_def)
  have ne: "br_bits br \<noteq> [] \<longleftrightarrow> br_avail_bits br \<noteq> 0 \<or> br_avail_in br \<noteq> 0"
    using length_br_bits [OF assms(1)] by (metis add_is_0 length_0_conv mult_is_0 zero_neq_numeral)
  have "br_ok br' \<and> br_bits br' = br_bits br \<and> (b \<longleftrightarrow> br_bits br \<noteq> []) \<and> (b \<longrightarrow> br_bit_pos br' \<noteq> 64)"
  proof (cases "br_avail_bits br = 0")
    case False
    with assms avail p64 ne show ?thesis by (auto simp: BrotliWarmupBitReader_def)
  next
    case True
    then have pull: "BrotliPullByte br = (b, br')" using assms avail by (simp add: BrotliWarmupBitReader_def)
    have room: "8 \<le> unat (br_bit_pos br)" using True p64 by simp
    show ?thesis
    proof (cases b)
      case True
      with pull have t: "BrotliPullByte br = (True, br')" by simp
      note q = pull_byte_bits [OF assms(1) t room]
      then have "br_avail_bits br' \<noteq> 0" by simp
      then have "br_bit_pos br' \<noteq> 64" by auto
      with q True ne show ?thesis by simp
    next
      case False
      with pull pull_byte_False [of br br'] True ne assms(1) show ?thesis by auto
    qed
  qed
  then show "br_ok br'" "br_bits br' = br_bits br" "b \<longleftrightarrow> br_bits br \<noteq> []"
    "b \<Longrightarrow> br_bit_pos br' \<noteq> 64" by auto
qed

lemma jump_bits:
  assumes ok: "br_ok br" and j: "BrotliJumpToByteBoundary br = (b, br')"
  shows "br_ok br'" "br_bits br' = drop (br_avail_bits br mod 8) (br_bits br)"
    and "b \<longleftrightarrow> bits_val (take (br_avail_bits br mod 8) (br_bits br)) = 0"
proof -
  let ?pad = "BrotliGetAvailableBits br AND 7"
  have "unat ?pad = take_bit 3 (unat (BrotliGetAvailableBits br))"
    by (simp add: unsigned_and_eq take_bit_eq_mask mask_eq_exp_minus_1)
  then have pad: "unat ?pad = br_avail_bits br mod 8"
    by (simp add: take_bit_eq_mod available_bits_unat ok)
  have "br_ok br' \<and> br_bits br' = drop (unat ?pad) (br_bits br) \<and>
      (b \<longleftrightarrow> bits_val (take (unat ?pad) (br_bits br)) = 0)"
  proof (cases "?pad = 0")
    case True
    then show ?thesis using j ok by (auto simp: BrotliJumpToByteBoundary_def)
  next
    case False
    obtain v br1 where t: "BrotliTakeBits ?pad br = (v, br1)" by (cases "BrotliTakeBits ?pad br")
    have le: "unat ?pad \<le> br_avail_bits br" "?pad \<le> 32"
      using pad by (auto simp: word_le_nat_alt)
    note q = take_bits_bits [OF ok le t]
    have "b \<longleftrightarrow> v = 0" "br' = br1" using j False t by (auto simp: BrotliJumpToByteBoundary_def)
    then show ?thesis using q by (metis unat_eq_zero)
  qed
  then show "br_ok br'" "br_bits br' = drop (br_avail_bits br mod 8) (br_bits br)"
    "b \<longleftrightarrow> bits_val (take (br_avail_bits br mod 8) (br_bits br)) = 0"
    unfolding pad by auto
qed

text \<open>
  Unloading gives whole accumulator bytes back to the input. It needs them to be the bytes
  just before \<open>next_in\<close>, which is how they got there: that relation is \<open>br_loaded\<close>.
\<close>

definition br_loaded :: "BrotliBitReader \<Rightarrow> bool" where
  "br_loaded br \<longleftrightarrow>
    (let k = br_avail_bits br div 8 in
     k \<le> br_next_in br \<and>
     word_bits (br_val br) (64 - 8 * k) 64 =
       bytes_bits (take k (drop (br_next_in br - k) (br_mem br))))"

lemma unload_bits:
  assumes ok: "br_ok br" and ld: "br_loaded br" and u: "br' = BrotliBitReaderUnload br"
  shows "br_ok br'" "br_bits br' = br_bits br" "br_avail_bits br' < 8"
    and "br_avail_in br' = br_avail_in br + br_avail_bits br div 8"
    and "br_next_in br' + br_avail_in br' = br_next_in br + br_avail_in br"
proof -
  define k where "k = br_avail_bits br div 8"
  note okD = br_okD [OF ok]
  have ub: "unat (drop_bit 3 (BrotliGetAvailableBits br)) = k"
    by (simp add: drop_bit_eq_div unat_div available_bits_unat ok k_def)
  have k8: "8 * k \<le> br_avail_bits br" "k \<le> 8" by (auto simp: k_def)
  have ub8: "unat (push_bit 3 (drop_bit 3 (BrotliGetAvailableBits br))) = 8 * k"
    using ub k8 by (simp add: push_bit_eq_mult unat_word_ariths)
  have p: "unat (br_bit_pos br + push_bit 3 (drop_bit 3 (BrotliGetAvailableBits br))) =
      unat (br_bit_pos br) + 8 * k"
    using ub8 k8 okD(1) by (simp add: unat_word_ariths)
  have l: "k \<le> br_next_in br" "word_bits (br_val br) (64 - 8 * k) 64 =
       bytes_bits (take k (drop (br_next_in br - k) (br_mem br)))"
    using ld by (auto simp: br_loaded_def k_def Let_def)
  have sh: "(if push_bit 3 (drop_bit 3 (BrotliGetAvailableBits br)) = 64 then 0
      else push_bit (unat (push_bit 3 (drop_bit 3 (BrotliGetAvailableBits br)))) (br_val br)) =
    push_bit (8 * k) (br_val br)"
  proof (cases "k = 8")
    case True
    have "push_bit 64 (br_val br) = 0"
      by (rule bit_word_eqI) (simp add: bit_push_bit_iff)
    with True ub8 show ?thesis by simp
  next
    case False
    then have "push_bit 3 (drop_bit 3 (BrotliGetAvailableBits br)) \<noteq> 64" using ub8 by auto
    with ub8 show ?thesis by simp
  qed
  show 1: "br_next_in br' + br_avail_in br' = br_next_in br + br_avail_in br"
    "br_avail_in br' = br_avail_in br + br_avail_bits br div 8"
    using l by (auto simp: u BrotliBitReaderUnload_def Let_def ub k_def)
  show "br_ok br'"
    using okD k8 1 p by (simp add: br_ok_def word_le_nat_alt u BrotliBitReaderUnload_def Let_def)
  show "br_avail_bits br' < 8"
    using okD(1) by (simp add: u BrotliBitReaderUnload_def Let_def p k_def)
  have w: "word_bits (push_bit (8 * k) (br_val br)) (unat (br_bit_pos br) + 8 * k) 64 =
      word_bits (br_val br) (unat (br_bit_pos br)) (64 - 8 * k)"
    using k8 by (intro word_bits_eqI) (auto simp: bit_push_bit_iff)
  have split: "word_bits (br_val br) (unat (br_bit_pos br)) 64 =
      word_bits (br_val br) (unat (br_bit_pos br)) (64 - 8 * k) @
      bytes_bits (take k (drop (br_next_in br - k) (br_mem br)))"
    unfolding l(2) [symmetric] using okD(1) k8 by (intro word_bits_split) auto
  have inp: "br_input br' = take k (drop (br_next_in br - k) (br_mem br)) @ br_input br"
    using br_input_split [of k br'] l(1)
    by (simp add: br_input_def u BrotliBitReaderUnload_def Let_def ub)
  have "word_bits (br_val br') (unat (br_bit_pos br')) 64 =
      word_bits (br_val br) (unat (br_bit_pos br)) (64 - 8 * k)"
    unfolding u BrotliBitReaderUnload_def Let_def
    using sh p w by simp
  then show "br_bits br' = br_bits br"
    using split inp by (simp add: br_bits_def)
qed

lemma br_loaded_pull:
  assumes ok: "br_ok br" and ld: "br_loaded br" and pull: "BrotliPullByte br = (True, br')"
    and room: "8 \<le> unat (br_bit_pos br)"
  shows "br_loaded br'"
proof -
  define k where "k = br_avail_bits br div 8"
  note okD = br_okD [OF ok] and q = pull_byte_bits [OF ok pull room]
  have av: "0 < br_avail_in br" using q(4) by simp
  have br': "br' = br\<lparr>br_val := drop_bit 8 (br_val br) OR push_bit 56 (ucast (br_mem br ! br_next_in br)),
      br_bit_pos := br_bit_pos br - 8, br_avail_in := br_avail_in br - 1,
      br_next_in := br_next_in br + 1\<rparr>"
    using pull av by (simp add: BrotliPullByte_def)
  have lt: "br_next_in br < length (br_mem br)" using okD(2) av by simp
  have k8: "8 * k \<le> 56" using room okD(1) by (simp add: k_def)
  have k': "br_avail_bits br' div 8 = Suc k" using q(3) by (simp add: k_def)
  have l: "k \<le> br_next_in br" "word_bits (br_val br) (64 - 8 * k) 64 =
       bytes_bits (take k (drop (br_next_in br - k) (br_mem br)))"
    using ld by (auto simp: br_loaded_def k_def Let_def)
  have b: "word_bits (ucast (br_mem br ! br_next_in br) :: u64) 0 8 = byte_bits (br_mem br ! br_next_in br)"
    by (auto intro!: word_bits_eqI simp: byte_bits_def bit_ucast_iff)
  have r: "word_bits (br_val br') (64 - 8 * Suc k) 64 =
      word_bits (br_val br) (64 - 8 * k) 64 @ byte_bits (br_mem br ! br_next_in br)"
    using refill_bits [of 8 "64 - 8 * k" "br_val br" "ucast (br_mem br ! br_next_in br)"] k8
    by (simp add: br' b)
  have "take (Suc k) (drop (br_next_in br - k) (br_mem br)) =
      take k (drop (br_next_in br - k) (br_mem br)) @ [br_mem br ! br_next_in br]"
    using lt l(1) by (simp add: take_Suc_conv_app_nth)
  then have "br_avail_bits br' div 8 \<le> br_next_in br' \<and>
      word_bits (br_val br') (64 - 8 * (br_avail_bits br' div 8)) 64 =
      bytes_bits (take (br_avail_bits br' div 8)
        (drop (br_next_in br' - br_avail_bits br' div 8) (br_mem br')))"
    unfolding k' r using l by (simp add: br')
  then show ?thesis by (simp add: br_loaded_def Let_def)
qed

lemma br_loaded_weaken:
  assumes ld: "br_loaded br" and le: "br_avail_bits br' \<le> br_avail_bits br"
    and same: "br_val br' = br_val br" "br_mem br' = br_mem br" "br_next_in br' = br_next_in br"
  shows "br_loaded br'"
proof -
  define k k' where "k = br_avail_bits br div 8" and "k' = br_avail_bits br' div 8"
  have kk: "k' \<le> k" "k \<le> 8" using le by (auto simp: k_def k'_def div_le_mono)
  have l: "k \<le> br_next_in br" "word_bits (br_val br) (64 - 8 * k) 64 =
       bytes_bits (take k (drop (br_next_in br - k) (br_mem br)))"
    using ld by (auto simp: br_loaded_def k_def Let_def)
  have "drop (8 * (k - k')) (word_bits (br_val br) (64 - 8 * k) 64) =
      word_bits (br_val br) (64 - 8 * k') 64" (is "?l = ?r")
  proof (rule nth_equalityI)
    show "length ?l = length ?r" using kk by auto
    fix i assume "i < length ?l"
    moreover have "64 - 8 * k + (8 * (k - k') + i) = 64 - 8 * k' + i" using kk by auto
    ultimately show "?l ! i = ?r ! i" using kk by (simp add: nth_drop del: diff_mult_distrib2)
  qed
  moreover have "drop (8 * (k - k')) (bytes_bits (take k (drop (br_next_in br - k) (br_mem br)))) =
      bytes_bits (take k' (drop (br_next_in br - k') (br_mem br)))"
    using kk l(1) by (simp add: drop_bytes_bits drop_take)
  ultimately show ?thesis
    using l kk by (simp add: br_loaded_def Let_def same flip: k'_def)
qed

lemma br_loaded_pull_until:
  assumes "br_ok br" "br_loaded br" "n \<le> 56" "pull_until n br = (b, br')"
  shows "br_loaded br'"
  using assms
proof (induction n br arbitrary: b br' rule: pull_until.induct)
  case (1 n br)
  note ok = \<open>br_ok br\<close>
  have n: "unat n \<le> 56" using "1.prems"(3) by (simp add: word_le_nat_alt)
  show ?case
  proof (cases "BrotliGetAvailableBits br < n")
    case False
    with "1.prems" show ?thesis by (auto simp: pull_until.simps [of n br])
  next
    case True
    obtain c br1 where p: "BrotliPullByte br = (c, br1)" by (cases "BrotliPullByte br")
    show ?thesis
    proof (cases c)
      case False
      then show ?thesis
        using "1.prems" True p pull_byte_False [of br br1] by (auto simp: pull_until.simps [of n br])
    next
      case c: True
      have room: "8 \<le> unat (br_bit_pos br)"
        using True n br_okD(1) [OF ok] available_bits_unat [OF ok] by (simp add: word_less_nat_alt)
      have p': "BrotliPullByte br = (True, br1)" using p c by simp
      note q = pull_byte_bits [OF ok p' room] br_loaded_pull [OF ok "1.prems"(2) p' room]
      have "pull_until n br1 = (b, br')"
        using "1.prems" True p c by (simp add: pull_until.simps [of n br])
      then show ?thesis
        using "1.IH" [OF True p [symmetric]] q "1.prems"(3) c by simp
    qed
  qed
qed

lemma br_loaded_safe_read:
  assumes "br_ok br" "br_loaded br" "n \<le> 32"
  shows "br_loaded (snd (BrotliSafeReadBits n br))"
proof -
  obtain b br1 where p: "pull_until n br = (b, br1)" by (cases "pull_until n br")
  have n: "n \<le> 56" using assms(3) by (rule order_trans) simp
  note q = pull_until_bits [OF assms(1) n p] and l = br_loaded_pull_until [OF assms(1,2) n p]
  show ?thesis
  proof (cases b)
    case False
    then show ?thesis using l by (simp add: BrotliSafeReadBits_def p)
  next
    case True
    then have "br_avail_bits (BrotliDropBits n br1) \<le> br_avail_bits br1"
      using q drop_bits_bits(3) [of br1 n] by simp
    then have "br_loaded (BrotliDropBits n br1)"
      by (rule br_loaded_weaken [OF l]) (simp_all add: BrotliDropBits_def)
    with True show ?thesis by (simp add: BrotliSafeReadBits_def p BrotliTakeBits_def)
  qed
qed

lemma copy_buffered_bits:
  assumes "br_ok br" "copy_buffered num br = (out, num', br')"
  shows "br_ok br' \<and> length out + num' = num \<and> bytes_bits out = take (8 * length out) (br_bits br) \<and>
    br_bits br' = drop (8 * length out) (br_bits br) \<and> br_avail_in br' = br_avail_in br \<and>
    length out = min num (br_avail_bits br div 8) \<and>
    br_avail_bits br' = br_avail_bits br - 8 * length out \<and>
    br_next_in br' = br_next_in br \<and> br_mem br' = br_mem br"
  using assms
proof (induction num br arbitrary: out num' br' rule: copy_buffered.induct)
  case (1 num br)
  note ok = \<open>br_ok br\<close>
  have c: "8 \<le> BrotliGetAvailableBits br \<longleftrightarrow> 8 \<le> br_avail_bits br"
    using available_bits_unat [OF ok] by (simp add: word_le_nat_alt)
  show ?case
  proof (cases "8 \<le> br_avail_bits br \<and> 0 < num")
    case False
    then have "out = []" "num' = num" "br' = br"
      using "1.prems"(2) c by (auto simp: copy_buffered.simps [of num br])
    with False ok show ?thesis by (auto simp: not_le div_eq_0_iff)
  next
    case True
    obtain out1 num1 br1 where r: "copy_buffered (num - 1) (BrotliDropBits 8 br) = (out1, num1, br1)"
      by (cases "copy_buffered (num - 1) (BrotliDropBits 8 br)")
    then have out: "out = ucast (BrotliGetBitsUnmasked br) # out1" "num' = num1" "br' = br1"
      using "1.prems"(2) True c by (auto simp: copy_buffered.simps [of num br])
    have d: "br_ok (BrotliDropBits 8 br)" "br_bits (BrotliDropBits 8 br) = drop 8 (br_bits br)"
      "br_avail_bits (BrotliDropBits 8 br) = br_avail_bits br - 8"
      using drop_bits_bits [OF ok, of 8] True by simp_all
    have same: "br_avail_in (BrotliDropBits 8 br) = br_avail_in br"
      "br_next_in (BrotliDropBits 8 br) = br_next_in br" "br_mem (BrotliDropBits 8 br) = br_mem br"
      by (simp_all add: BrotliDropBits_def)
    have cond: "8 \<le> BrotliGetAvailableBits br \<and> 0 < num" using True c by simp
    have byte: "byte_bits (ucast (BrotliGetBitsUnmasked br)) = take 8 (br_bits br)"
      using True bits_val_br_bits [OF ok, of 8]
      by (auto intro!: word_bits_eqI simp: byte_bits_def bit_ucast_iff)
    have "min num (br_avail_bits br div 8) = Suc (min (num - 1) ((br_avail_bits br - 8) div 8))"
      using True by (cases num) (simp_all add: le_div_geq)
    then have len: "length out = min num (br_avail_bits br div 8)"
      using "1.IH" [OF cond d(1) r, unfolded d] by (simp add: out)
    note ih = "1.IH" [OF cond d(1) r, unfolded d same]
    have ih': "br_ok br1" "length out1 + num1 = num - 1" "br_avail_in br1 = br_avail_in br"
      "bytes_bits out1 = take (8 * length out1) (drop 8 (br_bits br))"
      "br_bits br1 = drop (8 * length out1) (drop 8 (br_bits br))"
      "br_avail_bits br1 = br_avail_bits br - 8 - 8 * length out1"
      "br_next_in br1 = br_next_in br" "br_mem br1 = br_mem br"
      using ih by blast+
    have l8: "8 * length out = 8 + 8 * length out1" by (simp add: out)
    show ?thesis
      unfolding len [symmetric] out(2,3)
    proof (intro conjI)
      show "length out + num1 = num" using ih'(2) True by (simp add: out)
      show "bytes_bits out = take (8 * length out) (br_bits br)"
        unfolding l8 take_add using byte ih'(4) by (simp add: out)
      show "br_bits br1 = drop (8 * length out) (br_bits br)"
        unfolding l8 using ih'(5) by (simp add: add.commute)
      show "br_avail_bits br1 = br_avail_bits br - 8 * length out"
        unfolding l8 using ih'(6) by simp
    qed (rule ih' refl)+
  qed
qed

lemma copy_bytes_bits:
  assumes ok: "br_ok br" and al: "br_avail_bits br mod 8 = 0"
    and num: "8 * num \<le> length (br_bits br)"
  obtains out br' where "BrotliCopyBytes num br = Some (out, br')" "length out = num"
    "bytes_bits out = take (8 * num) (br_bits br)" "br_ok br'"
    "br_bits br' = drop (8 * num) (br_bits br)"
proof -
  obtain out1 n1 br1 where c: "copy_buffered num br = (out1, n1, br1)" by (cases "copy_buffered num br")
  note q = copy_buffered_bits [OF ok c]
  have qb: "bytes_bits out1 = take (8 * length out1) (br_bits br)"
    "br_bits br1 = drop (8 * length out1) (br_bits br)" using q by blast+
  have len: "8 * num \<le> br_avail_bits br + 8 * br_avail_in br" using num ok by simp
  have n1: "n1 \<le> br_avail_in br1" using q al len by (auto simp: min_def split: if_splits)
  then have safe: "\<not> (br_avail_in br1 < n1 \<or> length (br_mem br1) < br_next_in br1 + n1)"
    using br_okD(2) [of br1] q by auto
  have nn: "8 * num = 8 * length out1 + 8 * n1" using q by auto
  define br2 where
    "br2 = br1\<lparr>br_avail_in := br_avail_in br1 - n1, br_next_in := br_next_in br1 + n1\<rparr>"
  define rest where "rest = take n1 (drop (br_next_in br1) (br_mem br1))"
  have inp: "br_input br1 = rest @ br_input br2" using br_input_split [OF n1] by (simp add: br_input_def br2_def rest_def)
  have lr: "length rest = n1" using safe by (auto simp: rest_def)
  have ok': "br_ok br2" using q n1 by (auto simp: br_ok_def br2_def)
  have empty: "n1 \<noteq> 0 \<Longrightarrow> br_avail_bits br1 = 0"
    using q al by (auto simp: min_def split: if_splits)
  have same: "br_val br2 = br_val br1" "br_bit_pos br2 = br_bit_pos br1" by (simp_all add: br2_def)
  have b1: "br_bits br1 = (if n1 = 0 then br_bits br2 else bytes_bits rest @ br_bits br2)"
  proof (cases "n1 = 0")
    case True
    then have "rest = []" using lr by simp
    with True show ?thesis by (simp add: br_bits_def same inp)
  next
    case False
    then have "word_bits (br_val br1) (unat (br_bit_pos br1)) 64 = []" using empty by simp
    with False show ?thesis by (simp add: br_bits_def same inp)
  qed
  have "BrotliCopyBytes num br = Some (out1 @ rest, br2)"
    using c safe by (simp add: BrotliCopyBytes_def br2_def rest_def)
  moreover have "length (out1 @ rest) = num" using nn lr by simp
  moreover have "bytes_bits (out1 @ rest) = take (8 * num) (br_bits br)"
  proof -
    have "take (8 * num) (br_bits br) =
        take (8 * length out1) (br_bits br) @ take (8 * n1) (br_bits br1)"
      unfolding nn take_add by (simp add: qb)
    then show ?thesis using lr qb(1) by (cases "n1 = 0") (simp_all add: b1)
  qed
  moreover have "br_bits br2 = drop (8 * num) (br_bits br)"
  proof -
    have "drop (8 * num) (br_bits br) = drop (8 * n1) (br_bits br1)"
      unfolding nn by (simp add: qb add.commute)
    then show ?thesis using lr by (cases "n1 = 0") (simp_all add: b1)
  qed
  ultimately show thesis using ok' by (intro that) 
qed


section \<open>The safe reads are bit sources\<close>

interpretation safe: bit_source BrotliSafeReadBits br_bits br_ok "\<lambda>n. n \<le> 32"
proof (unfold_locales, goal_cases)
  case (1 n)
  then show ?case .
next
  case (2 r n)
  then show ?case by (rule_tac safe_read_bits [of r n]) auto
next
  case (3 r n)
  then show ?case by (rule_tac safe_read_bits [of r n]) auto
qed

lemma safe_read32_eq: "BrotliSafeReadBits32 = BrotliSafeReadBits"
  by (intro ext) (simp add: BrotliSafeReadBits32_def BrotliSafeReadBits_def)

text \<open>The two-step read for 32-bit builds obeys the same contract on its requests.\<close>

interpretation slow: bit_source BrotliSafeReadBits32Slow br_bits br_ok "\<lambda>n. 16 \<le> n \<and> n \<le> 32"
proof (unfold_locales, goal_cases)
  case (1 n)
  then show ?case by simp
next
  case (2 r n)
  have n: "16 \<le> n" "n \<le> 32" "unat (n - 16) = unat n - 16" "16 \<le> unat n" "n - 16 \<le> 32" "unat n \<le> 32"
    using 2(2) by (auto simp: unat_sub word_le_nat_alt)
  have len: "16 \<le> length (br_bits r)" using 2(3) n(4) by (rule order_trans [rotated])
  obtain v1 r1 where r1: "BrotliSafeReadBits 16 r = (Some v1, r1)"
      "unat v1 = bits_val (take 16 (br_bits r))" "br_ok r1" "br_bits r1 = drop 16 (br_bits r)"
    using safe.rd_enough [of r 16] 2 len by auto
  have l2: "unat (n - 16) \<le> length (br_bits r1)" unfolding n(3) r1(4) using 2(3) by simp
  obtain v2 r2 where r2: "BrotliSafeReadBits (n - 16) r1 = (Some v2, r2)"
      "unat v2 = bits_val (take (unat n - 16) (br_bits r1))" "br_ok r2"
      "br_bits r2 = drop (unat n - 16) (br_bits r1)"
    using safe.rd_enough [OF r1(3) n(5) l2] unfolding n(3) by blast
  have b1: "unat v1 < 2 ^ 16" using bits_val_bound [of "take 16 (br_bits r)"] len by (simp add: r1)
  have b2: "unat v2 < 2 ^ (unat n - 16)"
    using bits_val_bound [of "take (unat n - 16) (br_bits r1)"] 2(3) by (simp add: r1 r2 min_absorb2)
  have "(2::nat) ^ (unat n - 16) \<le> 2 ^ 16" using n(6) by (intro power_increasing) auto
  then have v: "unat (v1 OR push_bit 16 v2) = unat v1 + 2 ^ 16 * unat v2"
    using b1 b2 by (intro unat_or_push_bit) auto
  have t: "take (unat n) (br_bits r) = take 16 (br_bits r) @ take (unat n - 16) (br_bits r1)"
    using n(4) take_add [of 16 "unat n - 16" "br_bits r"] by (simp add: r1)
  have "unat (v1 OR push_bit 16 v2) = bits_val (take (unat n) (br_bits r))"
    unfolding v t bits_val_append using len by (simp add: r1 r2)
  moreover have "br_bits r2 = drop (unat n) (br_bits r)" using n(4) by (simp add: r1 r2)
  ultimately show ?case using r1 r2 by (simp add: BrotliSafeReadBits32Slow_def)
next
  case (3 r n)
  have n: "unat (n - 16) = unat n - 16" "n - 16 \<le> 32"
    using 3(2) by (auto simp: unat_sub word_le_nat_alt)
  show ?case
  proof (cases "BrotliSafeReadBits 16 r")
    case (Pair o1 r1)
    show ?thesis
    proof (cases o1)
      case None
      then show ?thesis using Pair 3(1) by (simp add: BrotliSafeReadBits32Slow_def)
    next
      case (Some v1)
      then have "16 \<le> length (br_bits r)" "br_ok r1" "br_bits r1 = drop 16 (br_bits r)"
        using Pair safe_read_bits [OF 3(1), of 16] by auto
      then have sh: "length (br_bits r1) < unat (n - 16)" "br_ok r1" unfolding n(1) using 3(3) by auto
      then obtain r2 where "BrotliSafeReadBits (n - 16) r1 = (None, r2)"
        using safe.rd_short [of r1 "n - 16"] n(2) sh by blast
      then show ?thesis using Pair Some 3(1) by (simp add: BrotliSafeReadBits32Slow_def)
    qed
  qed
qed

section \<open>Properties\<close>

text \<open>
  C2: \<open>BrotliFillBitWindow\<close> (the unaligned refill of the fast path) stays inside its input
  and is invisible to the stream. With at least one bit in the accumulator and 8 bytes of
  input left, for every compile-time or run-time \<open>n_bits \<le> 32\<close>, it returns, the sequence of
  unread bits is unchanged, and afterwards more than \<open>n_bits\<close> bits can be taken; it
  consumes at most 7 bytes.
\<close>

theorem fill_bit_window_correct:
  assumes "br_ok br" "br_bit_pos br \<noteq> 64" "8 \<le> br_avail_in br" "n_bits \<le> 32"
  shows "\<exists>br'. BrotliFillBitWindow is_const n_bits br = Some br' \<and> br_ok br' \<and>
    br_bits br' = br_bits br \<and> unat n_bits < 64 - unat (br_bit_pos br') \<and>
    br_avail_in br \<le> br_avail_in br' + 7"
  by (rule fill_bit_window_bits [OF assms, of is_const]) blast

theorem fill_bit_window_witness:
  "\<exists>br'. BrotliFillBitWindow True 8
      \<lparr>br_val = 0, br_bit_pos = 60, br_mem = [1,2,3,4,5,6,7,8,9], br_next_in = 1, br_avail_in = 8\<rparr> = Some br' \<and>
    br_ok br' \<and> br_bits br' = br_bits
      \<lparr>br_val = 0, br_bit_pos = 60, br_mem = [1,2,3,4,5,6,7,8,9], br_next_in = 1, br_avail_in = 8\<rparr> \<and>
    unat (8 :: u32) < 64 - unat (br_bit_pos br') \<and> 8 \<le> br_avail_in br' + 7"
  using fill_bit_window_correct [of "\<lparr>br_val = 0, br_bit_pos = 60, br_mem = [1,2,3,4,5,6,7,8,9],
    br_next_in = 1, br_avail_in = 8\<rparr>" 8 True]
  by (simp add: br_ok_def)

text \<open>
  C1: \<open>BrotliSafeReadBits\<close> either delivers the next \<open>n_bits\<close> bits of the stream as a number
  and advances by exactly that many, or, when fewer are left, refuses, keeps every unread
  bit (the input may have moved into the accumulator) and has drained the input. The code documents
  1 to 24 bits for it, and 1 to 32 for \<open>BrotliSafeReadBits32\<close>, which has the same body; at 0 bits the
  shift of an empty accumulator is not defined in C, where the model has the value 0.
\<close>

theorem safe_read_bits_correct:
  assumes "br_ok br" "n_bits \<le> 32"
  shows "case BrotliSafeReadBits n_bits br of
      (Some v, br') \<Rightarrow> unat n_bits \<le> length (br_bits br) \<and> br_ok br' \<and>
        unat v = bits_val (take (unat n_bits) (br_bits br)) \<and>
        br_bits br' = drop (unat n_bits) (br_bits br)
    | (None, br') \<Rightarrow> length (br_bits br) < unat n_bits \<and> br_ok br' \<and>
        br_bits br' = br_bits br \<and> br_avail_in br' = 0"
  using assms by (rule safe_read_bits) auto

theorem safe_read_bits_witness:
  "case BrotliSafeReadBits 12
      \<lparr>br_val = 0, br_bit_pos = 64, br_mem = [0xAB, 0xCD], br_next_in = 0, br_avail_in = 2\<rparr> of
      (Some v, br') \<Rightarrow> v = 0xDAB \<and> br_avail_in br' = 0
    | (None, br') \<Rightarrow> False"
  using safe_read_bits_correct [of "\<lparr>br_val = 0, br_bit_pos = 64, br_mem = [0xAB, 0xCD],
    br_next_in = 0, br_avail_in = 2\<rparr>" 12]
  by (simp add: br_ok_def BrotliSafeReadBits_def pull_until.simps BrotliGetAvailableBits_def
    BrotliPullByte_def BrotliTakeBits_def BrotliGetBitsUnmasked_def BrotliDropBits_def
    BitMask_def kBrotliBitMask_def)

text \<open>
  \<open>BrotliSafeReadBits32Slow\<close>, the pair of reads that 32-bit builds use, agrees with the
  single read: the same value or the same refusal, and the same unread bits, including when
  its first half succeeds and its second fails and the reader is put back.
\<close>

theorem slow_read_agrees:
  assumes "br_ok br" "16 \<le> n_bits" "n_bits \<le> 32"
  shows "fst (BrotliSafeReadBits32Slow n_bits br) = fst (BrotliSafeReadBits32 n_bits br) \<and>
    br_bits (snd (BrotliSafeReadBits32Slow n_bits br)) = br_bits (snd (BrotliSafeReadBits32 n_bits br))"
proof (cases "unat n_bits \<le> length (br_bits br)")
  case True
  then show ?thesis
    using safe.rd_enough [OF assms(1,3) True] slow.rd_enough [OF assms(1) _ True] assms
    by (auto simp: safe_read32_eq word_unat_eq_iff)
next
  case False
  then have "length (br_bits br) < unat n_bits" by simp
  then show ?thesis
    using safe.rd_short [OF assms(1,3)] slow.rd_short [OF assms(1)] assms
    by (fastforce simp: safe_read32_eq)
qed

theorem slow_read_witness:
  "fst (BrotliSafeReadBits32Slow 20
      \<lparr>br_val = 0, br_bit_pos = 64, br_mem = [1, 2], br_next_in = 0, br_avail_in = 2\<rparr>) = None \<and>
    fst (BrotliSafeReadBits32 20
      \<lparr>br_val = 0, br_bit_pos = 64, br_mem = [1, 2], br_next_in = 0, br_avail_in = 2\<rparr>) = None"
  using slow_read_agrees [of "\<lparr>br_val = 0, br_bit_pos = 64, br_mem = [1, 2],
    br_next_in = 0, br_avail_in = 2\<rparr>" 20]
  by (simp add: br_ok_def safe_read32_eq BrotliSafeReadBits_def pull_until.simps
    BrotliGetAvailableBits_def BrotliPullByte_def)

text \<open>
  \<open>BrotliBitReaderUnload\<close> gives whole bytes of the accumulator back to the input: the
  unread bits do not change, fewer than 8 of them stay in the accumulator, the input grows
  by the bytes given back, and its end does not move. The hypothesis \<open>br_loaded\<close> says that
  the accumulator holds the bytes before \<open>next_in\<close>, which every read keeps
  (\<open>br_loaded_safe_read\<close>).
\<close>

theorem unload_gives_back:
  assumes "br_ok br" "br_loaded br"
  shows "br_ok (BrotliBitReaderUnload br) \<and>
    br_bits (BrotliBitReaderUnload br) = br_bits br \<and>
    64 - unat (br_bit_pos (BrotliBitReaderUnload br)) < 8 \<and>
    br_avail_in (BrotliBitReaderUnload br) = br_avail_in br + (64 - unat (br_bit_pos br)) div 8 \<and>
    br_next_in (BrotliBitReaderUnload br) + br_avail_in (BrotliBitReaderUnload br) =
      br_next_in br + br_avail_in br"
  using unload_bits [OF assms refl] by blast

theorem unload_witness:
  "br_avail_in (BrotliBitReaderUnload
      \<lparr>br_val = 0x0201 * 2 ^ 48, br_bit_pos = 52, br_mem = [1, 2, 3], br_next_in = 2, br_avail_in = 1\<rparr>) = 2"
proof -
  let ?br = "\<lparr>br_val = 0x0201 * 2 ^ 48 :: u64, br_bit_pos = 52, br_mem = [1, 2, 3], br_next_in = 2, br_avail_in = 1\<rparr>"
  have "br_loaded ?br"
    by (simp add: br_loaded_def Let_def word_bits_def byte_bits_def upt_rec)
  then show ?thesis using unload_gives_back [of ?br] by (simp add: br_ok_def)
qed

text \<open>
  \<open>BrotliCopyBytes\<close> on a byte-aligned reader with enough input delivers exactly the next
  \<open>num\<close> bytes, those buffered in the accumulator first, and stays inside its input.
\<close>

theorem copy_bytes_correct:
  assumes "br_ok br" "(64 - unat (br_bit_pos br)) mod 8 = 0" "8 * num \<le> length (br_bits br)"
  shows "\<exists>out br'. BrotliCopyBytes num br = Some (out, br') \<and> length out = num \<and>
    bytes_bits out = take (8 * num) (br_bits br) \<and> br_ok br' \<and>
    br_bits br' = drop (8 * num) (br_bits br)"
  by (rule copy_bytes_bits [OF assms]) blast

theorem copy_bytes_witness:
  "\<exists>out br'. BrotliCopyBytes 3
      \<lparr>br_val = 0x0201 * 2 ^ 48, br_bit_pos = 48, br_mem = [1, 2, 3, 4], br_next_in = 2, br_avail_in = 2\<rparr> =
      Some (out, br') \<and> length out = 3"
  using copy_bytes_correct [of "\<lparr>br_val = 0x0201 * 2 ^ 48, br_bit_pos = 48, br_mem = [1, 2, 3, 4],
    br_next_in = 2, br_avail_in = 2\<rparr>" 3]
  by (auto simp: br_ok_def)

end
