(* ===== verification/Brotli_WriteBits.thy ===== *)
theory Brotli_WriteBits
  imports Brotli_Interfaces
begin

text \<open>
  The encoder's bit writer, \<open>enc/write_bits.h\<close>. The output is a byte array and the number
  of bits already in it (the \<open>pos\<close>/\<open>storage_ix\<close> and \<open>array\<close>/\<open>storage\<close> arguments every
  encoder routine threads through). A store that leaves the array is \<open>None\<close>.
  \<open>BrotliWriteBits\<close> is the 64-bit store of little-endian builds,
  \<open>BrotliWriteBitsBytewise\<close> the byte loop of the other branch.
\<close>

section \<open>State and operations\<close>

record BitStorage =
  bs_pos :: nat
  bs_array :: "u8 list"

definition BrotliWriteBits :: "nat \<Rightarrow> u64 \<Rightarrow> BitStorage \<Rightarrow> BitStorage option" where
  "BrotliWriteBits n_bits bits s =
    (let pos = bs_pos s; array = bs_array s; p = drop_bit 3 pos in
     if length array \<le> p then None
     else
       let v = ucast (array ! p) OR push_bit (pos AND 7) bits in
       case store_le 8 v array p of
         None \<Rightarrow> None
       | Some array \<Rightarrow> Some \<lparr>bs_pos = pos + n_bits, bs_array = array\<rparr>)"

text \<open>
  The loop of the portable branch: \<open>left\<close> is \<open>bits_left_to_write\<close>, \<open>p\<close> the index
  \<open>array_pos\<close> points to.
\<close>

function write_bytes :: "nat \<Rightarrow> u64 \<Rightarrow> nat \<Rightarrow> u8 list \<Rightarrow> (nat \<times> u8 list) option" where
  "write_bytes left bits p array =
    (if 9 \<le> left then
       (if length array \<le> p then None
        else write_bytes (left - 8) (drop_bit 8 bits) (p + 1)
               (array[p := ucast (drop_bit 8 bits)]))
     else Some (p, array))"
  by pat_completeness auto
termination
  by (relation "measure fst") auto

declare write_bytes.simps [simp del]

definition BrotliWriteBitsBytewise :: "nat \<Rightarrow> u64 \<Rightarrow> BitStorage \<Rightarrow> BitStorage option" where
  "BrotliWriteBitsBytewise n_bits bits s =
    (let pos = bs_pos s; array = bs_array s; p = drop_bit 3 pos;
         bits_reserved_in_first_byte = pos AND 7;
         bits = push_bit bits_reserved_in_first_byte bits in
     if length array \<le> p then None
     else
       case write_bytes (n_bits + bits_reserved_in_first_byte) bits (p + 1)
              (array[p := array ! p OR ucast bits]) of
         None \<Rightarrow> None
       | Some (p, array) \<Rightarrow>
           if length array \<le> p then None
           else Some \<lparr>bs_pos = pos + n_bits, bs_array = array[p := 0]\<rparr>)"

definition BrotliWriteBitsPrepareStorage :: "BitStorage \<Rightarrow> BitStorage option" where
  "BrotliWriteBitsPrepareStorage s =
    (let p = drop_bit 3 (bs_pos s) in
     if length (bs_array s) \<le> p then None else Some (s\<lparr>bs_array := (bs_array s)[p := 0]\<rparr>))"

section \<open>The abstraction: the bits written\<close>

definition bs_written :: "BitStorage \<Rightarrow> bool list" where
  "bs_written s = take (bs_pos s) (bytes_bits (bs_array s))"

definition bs_room :: "BitStorage \<Rightarrow> nat" where
  "bs_room s = 8 * length (bs_array s) - bs_pos s"

text \<open>The invariant: the byte the next write lands in is zero from the write position up.\<close>

definition bs_ok :: "BitStorage \<Rightarrow> bool" where
  "bs_ok s \<longleftrightarrow> bs_pos s div 8 < length (bs_array s) \<and>
    drop_bit (bs_pos s mod 8) (bs_array s ! (bs_pos s div 8)) = 0"

lemma bs_ok_bits:
  "bs_ok s \<longleftrightarrow> bs_pos s div 8 < length (bs_array s) \<and>
    (\<forall>i<8. bs_pos s mod 8 \<le> i \<longrightarrow> \<not> bit (bs_array s ! (bs_pos s div 8)) i)"
proof -
  have "drop_bit r w = 0 \<longleftrightarrow> (\<forall>i<8. r \<le> i \<longrightarrow> \<not> bit w i)" for r and w :: u8
  proof (intro iffI allI impI)
    fix i assume "drop_bit r w = 0" "r \<le> i"
    moreover have "bit (drop_bit r w) (i - r) = bit w i" using \<open>r \<le> i\<close> by (simp add: bit_drop_bit_eq)
    ultimately show "\<not> bit w i" by simp
  next
    assume clean: "\<forall>i<8. r \<le> i \<longrightarrow> \<not> bit w i"
    show "drop_bit r w = 0"
    proof (rule bit_eqI)
      fix n
      show "bit (drop_bit r w) n = bit 0 n"
        using clean bit_imp_le_length [of w "r + n"] by (auto simp: bit_drop_bit_eq)
    qed
  qed
  then show ?thesis by (simp add: bs_ok_def)
qed

section \<open>Correctness of the 64-bit store\<close>

text \<open>
  The word that is stored: the byte already there, and the new bits above its written part.
\<close>

lemma stored_word_bits:
  fixes old :: u8 and v :: u64
  assumes r: "r < 8" and n: "n \<le> 56" and v: "unat v < 2 ^ n"
    and clean: "\<And>i. r \<le> i \<Longrightarrow> i < 8 \<Longrightarrow> \<not> bit old i"
  shows "word_bits (ucast old OR push_bit r v) 0 64 =
    word_bits old 0 r @ word_bits v 0 n @ replicate (64 - (r + n)) False" (is "?l = ?r")
proof (rule nth_equalityI)
  show "length ?l = length ?r" using r n by simp
next
  fix i
  assume "i < length ?l"
  then have i: "i < 64" by simp
  have hi: "\<not> bit v j" if "n \<le> j" for j
  proof -
    have "unat v < 2 ^ j" using v that by (metis order.strict_trans2 one_le_numeral power_increasing)
    then have "unat v div 2 ^ j = 0" by simp
    then have "\<not> bit (unat v) j" by (simp add: bit_iff_odd)
    then show ?thesis using bit_imp_le_length [of v j] by (auto simp: bit_unsigned_iff)
  qed
  have ob: "bit old i \<Longrightarrow> i < r" using clean [of i] bit_imp_le_length [of old i] by (cases "r \<le> i") auto
  have l: "?l ! i = ((i < r \<and> bit old i) \<or> (r \<le> i \<and> bit v (i - r)))"
    using i ob by (auto simp: bit_or_iff bit_ucast_iff bit_push_bit_iff)
  show "?l ! i = ?r ! i"
    unfolding l using r n i hi [of "i - r"] by (auto simp: nth_append)
qed

lemma bytes_bits_take_bits:
  assumes "p \<le> length bs" "k \<le> 8" "p < length bs \<or> k = 0"
  shows "take (8 * p + k) (bytes_bits bs) = bytes_bits (take p bs) @ word_bits (bs ! p) 0 k"
proof -
  have "take k (bytes_bits (drop p bs)) = word_bits (bs ! p) 0 k"
  proof (cases "p < length bs")
    case True
    then have "drop p bs = bs ! p # drop (Suc p) bs" by (rule Cons_nth_drop_Suc [symmetric])
    moreover have "take k (word_bits (bs ! p) 0 8) = word_bits (bs ! p) 0 k"
      using assms(2) by (simp add: word_bits_def take_map min_absorb1)
    ultimately show ?thesis using assms(2) by (simp add: byte_bits_def)
  next
    case False
    with assms(3) show ?thesis by simp
  qed
  then show ?thesis by (simp add: take_add take_bytes_bits drop_bytes_bits)
qed

lemma nth_zero_gap:
  "length xs \<le> j \<Longrightarrow> j < length xs + m \<Longrightarrow> \<not> (xs @ replicate m False @ ys) ! j"
  by (auto simp: nth_append)

lemma write_bits_appends:
  assumes ok: "bs_ok s" and n: "n \<le> 56" and v: "unat v < 2 ^ n" and room: "64 \<le> bs_room s"
  obtains s' where "BrotliWriteBits n v s = Some s'" "bs_ok s'"
    "bs_written s' = bs_written s @ nat_bits n (unat v)" "bs_pos s' = bs_pos s + n"
    "length (bs_array s') = length (bs_array s)"
proof -
  define p r where "p = bs_pos s div 8" and "r = bs_pos s mod 8"
  have pr: "bs_pos s = 8 * p + r" "r < 8" by (simp_all add: p_def r_def)
  have p8: "p + 8 \<le> length (bs_array s)" using room pr by (simp add: bs_room_def)
  have clean: "\<not> bit (bs_array s ! p) i" if "r \<le> i" "i < 8" for i
    using ok that by (simp add: bs_ok_bits p_def r_def)
  define w where "w = ucast (bs_array s ! p) OR push_bit r v"
  define a where "a = take p (bs_array s) @ le_bytes 8 w @ drop (p + 8) (bs_array s)"
  define s' where "s' = \<lparr>bs_pos = bs_pos s + n, bs_array = a\<rparr>"
  have wr: "BrotliWriteBits n v s = Some s'"
    using p8 by (simp add: BrotliWriteBits_def store_le_def Let_def s'_def a_def w_def
      flip: p_def r_def)
  have la: "length a = length (bs_array s)" using p8 by (simp add: a_def)
  have wb: "bytes_bits (le_bytes 8 w) =
      word_bits (bs_array s ! p) 0 r @ word_bits v 0 n @ replicate (64 - (r + n)) False"
    using stored_word_bits [OF pr(2) n v clean] by (simp add: bytes_bits_le_bytes w_def)
  have ab: "bytes_bits a = bytes_bits (take p (bs_array s)) @ word_bits (bs_array s ! p) 0 r @
      word_bits v 0 n @ replicate (64 - (r + n)) False @ bytes_bits (drop (p + 8) (bs_array s))"
    by (simp add: a_def wb)
  have before: "bs_written s = bytes_bits (take p (bs_array s)) @ word_bits (bs_array s ! p) 0 r"
    unfolding bs_written_def pr(1) using p8 pr(2) by (intro bytes_bits_take_bits) auto
  have lb: "length (bs_written s) = bs_pos s"
    unfolding before using p8 pr by simp
  have ab': "bytes_bits a = (bs_written s @ word_bits v 0 n) @
      replicate (64 - (r + n)) False @ bytes_bits (drop (p + 8) (bs_array s))"
    by (simp add: ab before)
  have wr': "bs_written s' = bs_written s @ nat_bits n (unat v)"
    unfolding bs_written_def [of s'] by (simp add: s'_def ab' lb nat_bits_unat)
  have ok': "bs_ok s'"
    unfolding bs_ok_bits
  proof (intro conjI allI impI)
    have "bs_pos s + n < 8 * length a" using p8 pr n la by simp
    then show lt: "bs_pos s' div 8 < length (bs_array s')"
      by (simp add: s'_def less_mult_imp_div_less mult.commute)
    fix i assume i: "i < 8" "bs_pos s' mod 8 \<le> i"
    let ?j = "8 * (bs_pos s' div 8) + i"
    have j: "?j < 8 * length a" using lt i by (simp add: s'_def)
    have m: "8 * (bs_pos s' div 8) + bs_pos s' mod 8 = 8 * p + (r + n)"
      using pr by (simp add: s'_def)
    have "bit (bs_array s' ! (bs_pos s' div 8)) i = bytes_bits a ! ?j"
      using bytes_bits_nth [OF j] i by (simp add: s'_def)
    moreover have "bs_pos s + n \<le> ?j" using i m pr by linarith
    moreover have "bs_pos s' < (p + 8) * 8" using pr n by (simp add: s'_def)
    then have "bs_pos s' div 8 < p + 8" by (rule less_mult_imp_div_less)
    then have "?j < 8 * p + 64" using i by simp
    ultimately show "\<not> bit (bs_array s' ! (bs_pos s' div 8)) i"
      unfolding ab' using lb pr nth_zero_gap [of "bs_written s @ word_bits v 0 n" ?j "64 - (r + n)"]
      by simp
  qed
  show thesis by (rule that [OF wr ok' wr']) (simp_all add: s'_def la)
qed

section \<open>Correctness of the byte loop\<close>

lemma write_bytes_spec:
  assumes "p + (left - 1) div 8 \<le> length array"
  shows "\<exists>array'. write_bytes left bits p array = Some (p + (left - 1) div 8, array') \<and>
    length array' = length array \<and>
    take (p + (left - 1) div 8) array' = take p array @ le_bytes ((left - 1) div 8) (drop_bit 8 bits)"
  using assms
proof (induction left bits p array rule: write_bytes.induct)
  case (1 left bits p array)
  show ?case
  proof (cases "9 \<le> left")
    case False
    then have "(left - 1) div 8 = 0" by simp
    with False show ?thesis by (simp add: write_bytes.simps [of left])
  next
    case True
    define m where "m = (left - 8 - 1) div 8"
    have k: "(left - 1) div 8 = Suc m" using True by (simp add: m_def le_div_geq)
    with "1.prems" have p: "p < length array" by simp
    let ?a = "array[p := ucast (drop_bit 8 bits)]"
    obtain a' where a': "write_bytes (left - 8) (drop_bit 8 bits) (p + 1) ?a =
          Some (p + 1 + m, a')" "length a' = length ?a"
        "take (p + 1 + m) a' = take (p + 1) ?a @ le_bytes m (drop_bit 8 (drop_bit 8 bits))"
      using "1.IH" [folded m_def] True p "1.prems" k by auto
    have t: "take (p + 1) ?a = take p array @ [ucast (drop_bit 8 bits)]"
      using p by (simp add: take_Suc_conv_app_nth)
    show ?thesis
      unfolding k using a' p True t by (simp add: write_bytes.simps [of left])
  qed
qed

lemma le_bytes_Suc_ucast:
  "le_bytes (Suc n) w = ucast w # le_bytes n (drop_bit 8 w)"
  by simp

lemma write_bits_bytewise_appends:
  assumes ok: "bs_ok s" and n: "n \<le> 56" and v: "unat v < 2 ^ n" and room: "n + 64 \<le> bs_room s"
  obtains s' where "BrotliWriteBitsBytewise n v s = Some s'" "bs_ok s'"
    "bs_written s' = bs_written s @ nat_bits n (unat v)" "bs_pos s' = bs_pos s + n"
    "length (bs_array s') = length (bs_array s)"
proof -
  define p r where "p = bs_pos s div 8" and "r = bs_pos s mod 8"
  have pr: "bs_pos s = 8 * p + r" "r < 8" by (simp_all add: p_def r_def)
  define k where "k = (n + r - 1) div 8"
  have k8: "8 * k \<le> n + r" "k \<le> 7" using n pr by (simp_all add: k_def)
  have pk: "p + k + 1 < length (bs_array s)" using room pr k8 by (simp add: bs_room_def)
  have clean: "\<not> bit (bs_array s ! p) i" if "r \<le> i" "i < 8" for i
    using ok that by (simp add: bs_ok_bits p_def r_def)
  define a0 where "a0 = (bs_array s)[p := bs_array s ! p OR ucast (push_bit r v)]"
  obtain a where a: "write_bytes (n + r) (push_bit r v) (p + 1) a0 = Some (p + 1 + k, a)"
      "length a = length a0" "take (p + 1 + k) a = take (p + 1) a0 @ le_bytes k (drop_bit 8 (push_bit r v))"
    using write_bytes_spec [of "p + 1" "n + r" a0 "push_bit r v"] pk by (auto simp: k_def a0_def)
  have la: "length a = length (bs_array s)" using a by (simp add: a0_def)
  define s' where "s' = \<lparr>bs_pos = bs_pos s + n, bs_array = a[p + 1 + k := 0]\<rparr>"
  have wr: "BrotliWriteBitsBytewise n v s = Some s'"
    using pk a(1) la by (simp add: BrotliWriteBitsBytewise_def Let_def s'_def a0_def flip: p_def r_def)
  define w where "w = ucast (bs_array s ! p) OR push_bit r v"
  have high: "drop_bit 8 w = drop_bit 8 (push_bit r v)"
    by (rule bit_eqI) (use bit_imp_le_length [of "bs_array s ! p"] in
      \<open>force simp: w_def bit_or_iff bit_ucast_iff bit_drop_bit_eq bit_push_bit_iff\<close>)
  have low: "bs_array s ! p OR ucast (push_bit r v) = ucast w"
    by (rule bit_eqI) (auto simp: w_def bit_or_iff bit_ucast_iff)
  have t0: "take (p + 1) a0 = take p (bs_array s) @ [ucast w]"
    using pk by (simp add: a0_def take_Suc_conv_app_nth low)
  have ta: "take (p + 1 + k) a = take p (bs_array s) @ le_bytes (Suc k) w"
    unfolding a(3) t0 high [symmetric] by simp
  have "k + 1 \<le> 8" using k8 by simp
  then have bw: "bytes_bits (le_bytes (Suc k) w) = word_bits w 0 (8 * Suc k)"
    by (intro bytes_bits_le_bytes) simp
  have before: "bs_written s = bytes_bits (take p (bs_array s)) @ word_bits (bs_array s ! p) 0 r"
    unfolding bs_written_def pr(1) using pk pr(2) by (intro bytes_bits_take_bits) auto
  have lb: "length (bs_written s) = bs_pos s" unfolding before using pk pr by simp
  have nk: "n + r \<le> 8 * Suc k" by (simp add: k_def)
  have ws: "word_bits w 0 (8 * Suc k) =
      word_bits (bs_array s ! p) 0 r @ word_bits v 0 n @ replicate (8 * Suc k - (r + n)) False"
  proof -
    have "word_bits w 0 (8 * Suc k) = take (8 * Suc k) (word_bits w 0 64)"
      using k8 by (simp add: word_bits_def take_map min_absorb1)
    moreover have "word_bits w 0 64 = word_bits (bs_array s ! p) 0 r @ word_bits v 0 n @
        replicate (64 - (r + n)) False"
      unfolding w_def by (rule stored_word_bits [OF pr(2) n v]) (rule clean)
    moreover have "8 * Suc k - (r + n) \<le> 64 - (r + n)"
      using k8 by (intro diff_le_mono) simp
    ultimately show ?thesis using nk k8 pr by (simp del: mult_Suc_right add: min_def)
  qed
  have s'k: "take (8 * (p + 1 + k)) (bytes_bits (bs_array s')) =
      (bs_written s @ word_bits v 0 n) @ replicate (8 * Suc k - (r + n)) False"
    using ta by (simp only: take_bytes_bits) (simp add: s'_def bw ws before del: le_bytes.simps mult_Suc_right)
  have z: "bs_array s' ! (p + 1 + k) = 0" using pk la by (simp add: s'_def)
  have "8 * (p + 1 + k) = bs_pos s + n + (8 * Suc k - (r + n))" using pr nk by simp
  then have "take (bs_pos s + n) (take (8 * (p + 1 + k)) (bytes_bits (bs_array s'))) = bs_written s'"
    by (simp add: bs_written_def s'_def)
  then have wr': "bs_written s' = bs_written s @ nat_bits n (unat v)"
    unfolding s'k by (simp add: lb nat_bits_unat)
  have ok': "bs_ok s'"
    unfolding bs_ok_bits
  proof (intro conjI allI impI)
    have m: "8 * (bs_pos s' div 8) + bs_pos s' mod 8 = 8 * p + (r + n)" 
      using pr by (simp add: s'_def)
    have c: "bs_pos s' div 8 \<le> p + 1 + k" using m nk by simp
    then show lt: "bs_pos s' div 8 < length (bs_array s')" using pk la by (simp add: s'_def)
    fix i assume i: "i < 8" "bs_pos s' mod 8 \<le> i"
    let ?j = "8 * (bs_pos s' div 8) + i"
    have j: "?j < 8 * length (bs_array s')" using lt i by simp
    have b: "bit (bs_array s' ! (bs_pos s' div 8)) i = bytes_bits (bs_array s') ! ?j"
      using bytes_bits_nth [OF j] i by simp
    show "\<not> bit (bs_array s' ! (bs_pos s' div 8)) i"
    proof (cases "bs_pos s' div 8 = p + 1 + k")
      case True
      then show ?thesis using z by simp
    next
      case False
      with c have lt': "?j < 8 * (p + 1 + k)" using i by simp
      have "bs_pos s + n \<le> ?j" using m i pr by linarith
      then have "\<not> take (8 * (p + 1 + k)) (bytes_bits (bs_array s')) ! ?j"
        unfolding s'k using lb lt' pr
          nth_zero_gap [of "bs_written s @ word_bits v 0 n" ?j "8 * Suc k - (r + n)" "[]"]
        by simp
      then show ?thesis unfolding b using lt' by simp
    qed
  qed
  show thesis by (rule that [OF wr ok' wr']) (simp_all add: s'_def la)
qed

section \<open>Both branches are bit sinks\<close>

interpretation store: bit_sink BrotliWriteBits bs_written bs_room bs_ok 64
proof (unfold_locales, goal_cases)
  case (1 s n v)
  then show ?case by (rule_tac write_bits_appends [of s n v]) (auto simp: bs_room_def)
qed

interpretation bytewise: bit_sink BrotliWriteBitsBytewise bs_written bs_room bs_ok 64
proof (unfold_locales, goal_cases)
  case (1 s n v)
  then show ?case by (rule_tac write_bits_bytewise_appends [of s n v]) (auto simp: bs_room_def)
qed

lemma prepare_storage_ok:
  assumes "bs_pos s mod 8 = 0" "bs_pos s div 8 < length (bs_array s)"
  obtains s' where "BrotliWriteBitsPrepareStorage s = Some s'" "bs_ok s'" "bs_written s' = bs_written s"
    "bs_room s' = bs_room s"
proof -
  define p where "p = bs_pos s div 8"
  have pos: "bs_pos s = 8 * p" using assms(1) unfolding p_def by presburger
  have "take (8 * p) (bytes_bits ((bs_array s)[p := 0])) = take (8 * p) (bytes_bits (bs_array s))"
    by (simp add: take_bytes_bits)
  then show thesis
    using that [of "s\<lparr>bs_array := (bs_array s)[p := 0]\<rparr>"] assms
    by (simp add: BrotliWriteBitsPrepareStorage_def bs_ok_bits bs_written_def bs_room_def pos)
qed

section \<open>Properties\<close>

text \<open>
  C3: \<open>BrotliWriteBits\<close> appends. On storage whose current byte is clean above the write
  position, with 64 bits of room, a write of \<open>n_bits \<le> 56\<close> bits whose value fits returns,
  leaves every bit already written alone, appends exactly the \<open>n_bits\<close> bits of the value,
  least significant first, and leaves the storage clean for the next write.
\<close>

theorem write_bits_correct:
  assumes "bs_ok s" "n_bits \<le> 56" "unat bits < 2 ^ n_bits" "64 \<le> bs_room s"
  shows "\<exists>s'. BrotliWriteBits n_bits bits s = Some s' \<and> bs_ok s' \<and>
    bs_written s' = bs_written s @ nat_bits n_bits (unat bits) \<and> bs_pos s' = bs_pos s + n_bits"
  by (rule write_bits_appends [OF assms]) blast

theorem write_bits_witness:
  "\<exists>s'. BrotliWriteBits 5 19 \<lparr>bs_pos = 6, bs_array = 21 # replicate 9 0\<rparr> = Some s' \<and>
    bs_written s' = [True, False, True, False, True, False] @ [True, True, False, False, True]"
proof -
  have "bs_ok \<lparr>bs_pos = 6, bs_array = 21 # replicate 9 0\<rparr>" by (simp add: bs_ok_def)
  moreover have "bs_written \<lparr>bs_pos = 6, bs_array = 21 # replicate 9 0\<rparr> =
      [True, False, True, False, True, False]"
    by (simp add: bs_written_def byte_bits_def word_bits_def upt_rec)
  moreover have "nat_bits 5 (unat (19 :: u64)) = [True, True, False, False, True]" by code_simp
  ultimately show ?thesis
    using write_bits_correct [of "\<lparr>bs_pos = 6, bs_array = 21 # replicate 9 0\<rparr>" 5 19]
    by (auto simp: bs_room_def)
qed

text \<open>
  C4: The two branches of \<open>BrotliWriteBits\<close>, the 64-bit store and the byte loop of the
  portable build, write the same stream: from the same storage both return, at the same
  position, with the same bits written.
\<close>

theorem write_bits_branches_agree:
  assumes "bs_ok s" "n_bits \<le> 56" "unat bits < 2 ^ n_bits" "n_bits + 64 \<le> bs_room s"
  shows "\<exists>s1 s2. BrotliWriteBits n_bits bits s = Some s1 \<and>
    BrotliWriteBitsBytewise n_bits bits s = Some s2 \<and>
    bs_pos s1 = bs_pos s2 \<and> bs_written s1 = bs_written s2 \<and> bs_ok s1 \<and> bs_ok s2"
proof -
  have "64 \<le> bs_room s" using assms(4) by simp
  then show ?thesis
    using write_bits_appends [OF assms(1-3)] write_bits_bytewise_appends [OF assms] by metis
qed

theorem write_bits_branches_witness:
  "\<exists>s1 s2. BrotliWriteBits 12 2748 \<lparr>bs_pos = 3, bs_array = 5 # replicate 19 0\<rparr> = Some s1 \<and>
    BrotliWriteBitsBytewise 12 2748 \<lparr>bs_pos = 3, bs_array = 5 # replicate 19 0\<rparr> = Some s2 \<and>
    bs_written s1 = bs_written s2"
proof -
  have "bs_ok \<lparr>bs_pos = 3, bs_array = 5 # replicate 19 0\<rparr>"
    by (simp add: bs_ok_def)
  then show ?thesis
    using write_bits_branches_agree [of "\<lparr>bs_pos = 3, bs_array = 5 # replicate 19 0\<rparr>" 12 2748]
    by (auto simp: bs_room_def)
qed

end
