(* ===== verification/Brotli_Huffman.thy ===== *)
theory Brotli_Huffman
  imports Brotli_Prelude "HOL-Library.Monad_Syntax"
begin

text \<open>
  The decoder's prefix-code tables, \<open>dec/huffman.c\<close> and \<open>dec/huffman.h\<close>: the builders of
  the lookup tables for code lengths (one level, 5 bits), for alphabets (two levels, 8 bits
  then up to 7), and for the simple codes. A table lives in a memory object; a builder gets
  the part of the object from its \<open>table\<close> pointer on and returns it updated, \<open>None\<close> where
  the C code would leave the object or not terminate. The unsigned \<open>key\<close> variables are
  natural numbers: they never exceed \<open>2 * BROTLI_REVERSE_BITS_LOWEST\<close>.
\<close>

section \<open>Table entries\<close>

record HuffmanCode =
  hc_bits :: u8
  hc_value :: u16

definition ConstructHuffmanCode :: "u8 \<Rightarrow> u16 \<Rightarrow> HuffmanCode" where
  "ConstructHuffmanCode bits value = \<lparr>hc_bits = bits, hc_value = value\<rparr>"

definition BROTLI_HUFFMAN_MAX_CODE_LENGTH :: nat where
  "BROTLI_HUFFMAN_MAX_CODE_LENGTH = 15"

definition BROTLI_HUFFMAN_MAX_CODE_LENGTH_CODE_LENGTH :: nat where
  "BROTLI_HUFFMAN_MAX_CODE_LENGTH_CODE_LENGTH = 5"

definition BROTLI_CODE_LENGTH_CODES :: nat where
  "BROTLI_CODE_LENGTH_CODES = 18"

definition BROTLI_REVERSE_BITS_LOWEST :: nat where
  "BROTLI_REVERSE_BITS_LOWEST = 128"

definition kReverseBits :: "nat list" where
  "kReverseBits = [
    0x00, 0x80, 0x40, 0xC0, 0x20, 0xA0, 0x60, 0xE0,
    0x10, 0x90, 0x50, 0xD0, 0x30, 0xB0, 0x70, 0xF0,
    0x08, 0x88, 0x48, 0xC8, 0x28, 0xA8, 0x68, 0xE8,
    0x18, 0x98, 0x58, 0xD8, 0x38, 0xB8, 0x78, 0xF8,
    0x04, 0x84, 0x44, 0xC4, 0x24, 0xA4, 0x64, 0xE4,
    0x14, 0x94, 0x54, 0xD4, 0x34, 0xB4, 0x74, 0xF4,
    0x0C, 0x8C, 0x4C, 0xCC, 0x2C, 0xAC, 0x6C, 0xEC,
    0x1C, 0x9C, 0x5C, 0xDC, 0x3C, 0xBC, 0x7C, 0xFC,
    0x02, 0x82, 0x42, 0xC2, 0x22, 0xA2, 0x62, 0xE2,
    0x12, 0x92, 0x52, 0xD2, 0x32, 0xB2, 0x72, 0xF2,
    0x0A, 0x8A, 0x4A, 0xCA, 0x2A, 0xAA, 0x6A, 0xEA,
    0x1A, 0x9A, 0x5A, 0xDA, 0x3A, 0xBA, 0x7A, 0xFA,
    0x06, 0x86, 0x46, 0xC6, 0x26, 0xA6, 0x66, 0xE6,
    0x16, 0x96, 0x56, 0xD6, 0x36, 0xB6, 0x76, 0xF6,
    0x0E, 0x8E, 0x4E, 0xCE, 0x2E, 0xAE, 0x6E, 0xEE,
    0x1E, 0x9E, 0x5E, 0xDE, 0x3E, 0xBE, 0x7E, 0xFE,
    0x01, 0x81, 0x41, 0xC1, 0x21, 0xA1, 0x61, 0xE1,
    0x11, 0x91, 0x51, 0xD1, 0x31, 0xB1, 0x71, 0xF1,
    0x09, 0x89, 0x49, 0xC9, 0x29, 0xA9, 0x69, 0xE9,
    0x19, 0x99, 0x59, 0xD9, 0x39, 0xB9, 0x79, 0xF9,
    0x05, 0x85, 0x45, 0xC5, 0x25, 0xA5, 0x65, 0xE5,
    0x15, 0x95, 0x55, 0xD5, 0x35, 0xB5, 0x75, 0xF5,
    0x0D, 0x8D, 0x4D, 0xCD, 0x2D, 0xAD, 0x6D, 0xED,
    0x1D, 0x9D, 0x5D, 0xDD, 0x3D, 0xBD, 0x7D, 0xFD,
    0x03, 0x83, 0x43, 0xC3, 0x23, 0xA3, 0x63, 0xE3,
    0x13, 0x93, 0x53, 0xD3, 0x33, 0xB3, 0x73, 0xF3,
    0x0B, 0x8B, 0x4B, 0xCB, 0x2B, 0xAB, 0x6B, 0xEB,
    0x1B, 0x9B, 0x5B, 0xDB, 0x3B, 0xBB, 0x7B, 0xFB,
    0x07, 0x87, 0x47, 0xC7, 0x27, 0xA7, 0x67, 0xE7,
    0x17, 0x97, 0x57, 0xD7, 0x37, 0xB7, 0x77, 0xF7,
    0x0F, 0x8F, 0x4F, 0xCF, 0x2F, 0xAF, 0x6F, 0xEF,
    0x1F, 0x9F, 0x5F, 0xDF, 0x3F, 0xBF, 0x7F, 0xFF]"

definition BrotliReverseBits :: "nat \<Rightarrow> nat option" where
  "BrotliReverseBits num = (if num < length kReverseBits then Some (kReverseBits ! num) else None)"

section \<open>The builders\<close>

text \<open>
  \<open>ReplicateValue\<close> on the pointer \<open>&table[off]\<close>. \<open>end\<close> is signed in C: when it would become
  negative, the store is at \<open>off + end - step\<close> all the same and the loop stops.
\<close>

function ReplicateValue :: "HuffmanCode list \<Rightarrow> nat \<Rightarrow> nat \<Rightarrow> nat \<Rightarrow> HuffmanCode \<Rightarrow>
    HuffmanCode list option" where
  "ReplicateValue table off step end' code =
    (if step = 0 \<or> off + end' < step \<or> length table \<le> off + end' - step then None
     else
       let table = table[off + end' - step := code] in
       if step < end' then ReplicateValue table off step (end' - step) code else Some table)"
  by pat_completeness auto
termination
  by (relation "measure (\<lambda>(table, off, step, end', code). end')") auto

declare ReplicateValue.simps [simp del]

function next_table_bits :: "u16 list \<Rightarrow> nat \<Rightarrow> int \<Rightarrow> nat" where
  "next_table_bits count len left =
    (if len < BROTLI_HUFFMAN_MAX_CODE_LENGTH then
       let left = left - uint (count ! len) in
       if left \<le> 0 then len else next_table_bits count (len + 1) (2 * left)
     else len)"
  by pat_completeness auto
termination
  by (relation "measure (\<lambda>(count, len, left). BROTLI_HUFFMAN_MAX_CODE_LENGTH - len)") auto

declare next_table_bits.simps [simp del]

definition NextTableBitSize :: "u16 list \<Rightarrow> nat \<Rightarrow> nat \<Rightarrow> nat" where
  "NextTableBitSize count len root_bits = next_table_bits count len (2 ^ (len - root_bits)) - root_bits"

subsection \<open>Code length codes\<close>

text \<open>
  The counting sort: \<open>offset\<close> is the array of the positions of the last symbol of each
  length (signed in C: the entry of a length that no symbol has may be \<open>-1\<close>).
\<close>

definition code_length_offsets :: "u16 list \<Rightarrow> int list" where
  "code_length_offsets count =
    (int BROTLI_CODE_LENGTH_CODES - 1) #
    map (\<lambda>bits. (\<Sum>b\<leftarrow>[1..<Suc bits]. uint (count ! b)) - 1)
      [1..<Suc BROTLI_HUFFMAN_MAX_CODE_LENGTH_CODE_LENGTH]"

fun sort_symbols :: "u8 list \<Rightarrow> nat \<Rightarrow> int list \<Rightarrow> nat list \<Rightarrow> (int list \<times> nat list) option" where
  "sort_symbols code_lengths 0 offset srt = Some (offset, srt)"
| "sort_symbols code_lengths (Suc symbol) offset srt =
    (let len = unat (code_lengths ! symbol); o' = offset ! len in
     if length offset \<le> len \<or> o' < 0 \<or> int (length srt) \<le> o' then None
     else sort_symbols code_lengths symbol (offset[len := o' - 1]) (srt[nat o' := symbol]))"

fun fill_sorted :: "nat \<Rightarrow> nat list \<Rightarrow> nat \<Rightarrow> nat \<Rightarrow> nat \<Rightarrow> nat \<Rightarrow> nat \<Rightarrow> HuffmanCode list \<Rightarrow>
    (nat \<times> nat \<times> HuffmanCode list) option" where
  "fill_sorted 0 srt symbol bits key key_step step table = Some (symbol, key, table)"
| "fill_sorted (Suc n) srt symbol bits key key_step step table =
    (if length srt \<le> symbol then None
     else do {
       off \<leftarrow> BrotliReverseBits key;
       table \<leftarrow> ReplicateValue table off step (2 ^ BROTLI_HUFFMAN_MAX_CODE_LENGTH_CODE_LENGTH)
         (ConstructHuffmanCode (word_of_nat bits) (word_of_nat (srt ! symbol)));
       fill_sorted n srt (symbol + 1) bits (key + key_step) key_step step table })"

function fill_code_lengths :: "u16 list \<Rightarrow> nat list \<Rightarrow> nat \<Rightarrow> nat \<Rightarrow> nat \<Rightarrow> nat \<Rightarrow> nat \<Rightarrow>
    HuffmanCode list \<Rightarrow> HuffmanCode list option" where
  "fill_code_lengths count srt symbol bits key key_step step table =
    (case fill_sorted (unat (count ! bits)) srt symbol bits key key_step step table of
       None \<Rightarrow> None
     | Some (symbol, key, table) \<Rightarrow>
         if bits + 1 \<le> BROTLI_HUFFMAN_MAX_CODE_LENGTH_CODE_LENGTH then
           fill_code_lengths count srt symbol (bits + 1) key (key_step div 2) (2 * step) table
         else Some table)"
  by pat_completeness auto
termination
  by (relation "measure (\<lambda>(count, srt, symbol, bits, key, key_step, step, table).
    BROTLI_HUFFMAN_MAX_CODE_LENGTH_CODE_LENGTH - bits)") auto

declare fill_code_lengths.simps [simp del]

definition BrotliBuildCodeLengthsHuffmanTable ::
    "HuffmanCode list \<Rightarrow> u8 list \<Rightarrow> u16 list \<Rightarrow> HuffmanCode list option" where
  "BrotliBuildCodeLengthsHuffmanTable table code_lengths count =
    (case sort_symbols code_lengths BROTLI_CODE_LENGTH_CODES (code_length_offsets count)
            (replicate BROTLI_CODE_LENGTH_CODES 0) of
       None \<Rightarrow> None
     | Some (offset, srt) \<Rightarrow>
         let table_size = 2 ^ BROTLI_HUFFMAN_MAX_CODE_LENGTH_CODE_LENGTH in
         if offset ! 0 = 0 then
           (if length table < table_size then None
            else Some (replicate table_size (ConstructHuffmanCode 0 (word_of_nat (srt ! 0))) @
                       drop table_size table))
         else fill_code_lengths count srt 0 1 0 BROTLI_REVERSE_BITS_LOWEST 2 table)"

subsection \<open>Alphabets\<close>

text \<open>
  \<open>symbol_lists\<close> points 16 entries into \<open>symbols_lists_array\<close>: the head of the chain of the
  symbols of length \<open>len\<close> is at index \<open>len - 16\<close>, the successor of symbol \<open>s\<close> at index \<open>s\<close>.
\<close>

definition symbol_list_at :: "u16 list \<Rightarrow> int \<Rightarrow> u16 option" where
  "symbol_list_at symbols_lists_array i =
    (let j = i + int (BROTLI_HUFFMAN_MAX_CODE_LENGTH + 1) in
     if 0 \<le> j \<and> j < int (length symbols_lists_array) then Some (symbols_lists_array ! nat j) else None)"

text \<open>\<open>while (symbol_lists[max_length] == 0xFFFF) max_length--\<close>, then \<open>+ 16\<close>.\<close>

fun find_max_length :: "u16 list \<Rightarrow> nat \<Rightarrow> nat option" where
  "find_max_length sl 0 = None"
| "find_max_length sl (Suc n) =
    do {
      s \<leftarrow> symbol_list_at sl (int n - int (BROTLI_HUFFMAN_MAX_CODE_LENGTH + 1));
      if s = 0xFFFF then find_max_length sl n else Some n }"

fun fill_chain :: "nat \<Rightarrow> u16 list \<Rightarrow> int \<Rightarrow> nat \<Rightarrow> nat \<Rightarrow> nat \<Rightarrow> nat \<Rightarrow> nat \<Rightarrow> HuffmanCode list \<Rightarrow>
    (nat \<times> HuffmanCode list) option" where
  "fill_chain 0 sl symbol bits key key_step step table_size table = Some (key, table)"
| "fill_chain (Suc n) sl symbol bits key key_step step table_size table =
    do {
      s \<leftarrow> symbol_list_at sl symbol;
      off \<leftarrow> BrotliReverseBits key;
      table \<leftarrow> ReplicateValue table off step table_size (ConstructHuffmanCode (word_of_nat bits) s);
      fill_chain n sl (uint s) bits (key + key_step) key_step step table_size table }"

function fill_root :: "u16 list \<Rightarrow> u16 list \<Rightarrow> nat \<Rightarrow> nat \<Rightarrow> nat \<Rightarrow> nat \<Rightarrow> nat \<Rightarrow> nat \<Rightarrow> HuffmanCode list \<Rightarrow>
    (nat \<times> HuffmanCode list) option" where
  "fill_root count sl table_bits table_size bits key key_step step table =
    (case fill_chain (unat (count ! bits)) sl
            (int bits - int (BROTLI_HUFFMAN_MAX_CODE_LENGTH + 1))
            bits key key_step step table_size table of
       None \<Rightarrow> None
     | Some (key, table) \<Rightarrow>
         if bits + 1 \<le> table_bits then
           fill_root count sl table_bits table_size (bits + 1) key (key_step div 2) (2 * step) table
         else Some (key, table))"
  by pat_completeness auto
termination
  by (relation "measure (\<lambda>(count, sl, table_bits, table_size, bits, key, key_step, step, table).
    table_bits - bits)") auto

declare fill_root.simps [simp del]

text \<open>The doubling loop \<open>while (total_size != table_size) memcpy(...)\<close>.\<close>

function double_table :: "nat \<Rightarrow> nat \<Rightarrow> HuffmanCode list \<Rightarrow> HuffmanCode list option" where
  "double_table total_size table_size table =
    (if total_size = table_size then Some table
     else if table_size = 0 \<or> length table < 2 * table_size then None
     else double_table total_size (2 * table_size)
            (take table_size table @ take table_size table @ drop (2 * table_size) table))"
  by pat_completeness auto
termination
  by (relation "measure (\<lambda>(total_size, table_size, table). length table - table_size)") auto

declare double_table.simps [simp del]

text \<open>The variables of the second-level loops; \<open>table\<close> is an offset from \<open>root_table\<close>.\<close>

record sub_tables =
  tb_table :: nat
  tb_bits :: nat
  tb_size :: nat
  tb_total :: nat
  tb_key :: nat
  tb_sub_key :: nat
  tb_count :: "u16 list"
  tb_root_table :: "HuffmanCode list"

text \<open>The branch \<open>if (sub_key == (BROTLI_REVERSE_BITS_LOWEST << 1U))\<close>: open the next table.\<close>

definition open_sub_table :: "nat \<Rightarrow> nat \<Rightarrow> nat \<Rightarrow> sub_tables \<Rightarrow> sub_tables option" where
  "open_sub_table root_bits key_step len b =
    (let table = tb_table b + tb_size b;
         table_bits = NextTableBitSize (tb_count b) len root_bits;
         table_size = 2 ^ table_bits
     in do {
       sub_key \<leftarrow> BrotliReverseBits (tb_key b);
       if length (tb_root_table b) \<le> sub_key then None
       else Some (b\<lparr>tb_table := table, tb_bits := table_bits, tb_size := table_size,
         tb_total := tb_total b + table_size, tb_key := tb_key b + key_step, tb_sub_key := 0,
         tb_root_table := (tb_root_table b)[sub_key := ConstructHuffmanCode
           (word_of_nat (table_bits + root_bits)) (word_of_int (int table - int sub_key))]\<rparr>) })"

definition put_sub_symbol :: "nat \<Rightarrow> nat \<Rightarrow> nat \<Rightarrow> nat \<Rightarrow> u16 \<Rightarrow> sub_tables \<Rightarrow> sub_tables option" where
  "put_sub_symbol root_bits len step sub_key_step s b =
    do {
      off \<leftarrow> BrotliReverseBits (tb_sub_key b);
      t \<leftarrow> ReplicateValue (tb_root_table b) (tb_table b + off) step (tb_size b)
        (ConstructHuffmanCode (word_of_nat (len - root_bits)) s);
      Some (b\<lparr>tb_root_table := t, tb_sub_key := tb_sub_key b + sub_key_step\<rparr>) }"

text \<open>The loop \<open>for (; count[len] != 0; --count[len])\<close> and the loop over \<open>len\<close> around it.\<close>

fun sub_chain :: "nat \<Rightarrow> u16 list \<Rightarrow> nat \<Rightarrow> nat \<Rightarrow> nat \<Rightarrow> nat \<Rightarrow> nat \<Rightarrow> int \<Rightarrow> sub_tables \<Rightarrow>
    sub_tables option" where
  "sub_chain 0 sl root_bits key_step len step sub_key_step symbol b = Some b"
| "sub_chain (Suc n) sl root_bits key_step len step sub_key_step symbol b =
    do {
      b \<leftarrow> (if tb_sub_key b = 2 * BROTLI_REVERSE_BITS_LOWEST
            then open_sub_table root_bits key_step len b else Some b);
      s \<leftarrow> symbol_list_at sl symbol;
      b \<leftarrow> put_sub_symbol root_bits len step sub_key_step s b;
      sub_chain n sl root_bits key_step len step sub_key_step (uint s)
        (b\<lparr>tb_count := (tb_count b)[len := tb_count b ! len - 1]\<rparr>) }"

function sub_lengths :: "u16 list \<Rightarrow> nat \<Rightarrow> nat \<Rightarrow> nat \<Rightarrow> nat \<Rightarrow> nat \<Rightarrow> nat \<Rightarrow> sub_tables \<Rightarrow>
    sub_tables option" where
  "sub_lengths sl root_bits key_step max_length len step sub_key_step b =
    (if len \<le> max_length then
       do {
         b \<leftarrow> sub_chain (unat (tb_count b ! len)) sl root_bits key_step len step sub_key_step
           (int len - int (BROTLI_HUFFMAN_MAX_CODE_LENGTH + 1)) b;
         sub_lengths sl root_bits key_step max_length (len + 1) (2 * step) (sub_key_step div 2) b }
     else Some b)"
  by pat_completeness auto
termination
  by (relation "measure (\<lambda>(sl, root_bits, key_step, max_length, len, step, sub_key_step, b).
    Suc max_length - len)") auto

declare sub_lengths.simps [simp del]

definition BrotliBuildHuffmanTable ::
    "HuffmanCode list \<Rightarrow> nat \<Rightarrow> u16 list \<Rightarrow> u16 list \<Rightarrow> (nat \<times> HuffmanCode list \<times> u16 list) option" where
  "BrotliBuildHuffmanTable root_table root_bits symbols_lists_array count =
    do {
      max_length \<leftarrow> find_max_length symbols_lists_array (BROTLI_HUFFMAN_MAX_CODE_LENGTH + 1);
      let total_size = 2 ^ root_bits;
      let table_bits = min root_bits max_length;
      (key, table) \<leftarrow> fill_root count symbols_lists_array table_bits (2 ^ table_bits) 1 0
        BROTLI_REVERSE_BITS_LOWEST 2 root_table;
      table \<leftarrow> double_table total_size (2 ^ table_bits) table;
      b \<leftarrow> sub_lengths symbols_lists_array root_bits
        (BROTLI_REVERSE_BITS_LOWEST div 2 ^ (root_bits - 1)) max_length (root_bits + 1) 2
        BROTLI_REVERSE_BITS_LOWEST
        \<lparr>tb_table = 0, tb_bits = table_bits, tb_size = total_size, tb_total = total_size,
          tb_key = key, tb_sub_key = 2 * BROTLI_REVERSE_BITS_LOWEST, tb_count = count,
          tb_root_table = table\<rparr>;
      Some (tb_total b, tb_root_table b, tb_count b) }"

subsection \<open>Simple codes\<close>

text \<open>
  The stores \<open>table[i] = code\<close> of a case, in order, and the exchange step of the sorting
  loops. \<open>val\<close> is the caller's array, sorted in place by the last two cases.
\<close>

fun put_codes :: "HuffmanCode list \<Rightarrow> (nat \<times> HuffmanCode) list \<Rightarrow> HuffmanCode list option" where
  "put_codes table [] = Some table"
| "put_codes table ((i, code) # cs) =
    (if i < length table then put_codes (table[i := code]) cs else None)"

definition swap_vals :: "nat \<Rightarrow> nat \<Rightarrow> u16 list \<Rightarrow> u16 list" where
  "swap_vals i k val = (if val ! k < val ! i then val[k := val ! i, i := val ! k] else val)"

definition BrotliBuildSimpleHuffmanTable ::
    "HuffmanCode list \<Rightarrow> nat \<Rightarrow> u16 list \<Rightarrow> nat \<Rightarrow> (nat \<times> HuffmanCode list \<times> u16 list) option" where
  "BrotliBuildSimpleHuffmanTable table root_bits val num_symbols =
    (let goal_size = 2 ^ root_bits in
     do {
       (table_size, val, stores) \<leftarrow>
         (if num_symbols = 0 then
            (if length val < 1 then None else Some (1, val, [(0, ConstructHuffmanCode 0 (val ! 0))]))
          else if num_symbols = 1 then
            (if length val < 2 then None
             else if val ! 1 > val ! 0 then
               Some (2, val, [(0, ConstructHuffmanCode 1 (val ! 0)), (1, ConstructHuffmanCode 1 (val ! 1))])
             else
               Some (2, val, [(0, ConstructHuffmanCode 1 (val ! 1)), (1, ConstructHuffmanCode 1 (val ! 0))]))
          else if num_symbols = 2 then
            (if length val < 3 then None
             else Some (4, val,
               [(0, ConstructHuffmanCode 1 (val ! 0)), (2, ConstructHuffmanCode 1 (val ! 0))] @
               (if val ! 2 > val ! 1
                then [(1, ConstructHuffmanCode 2 (val ! 1)), (3, ConstructHuffmanCode 2 (val ! 2))]
                else [(1, ConstructHuffmanCode 2 (val ! 2)), (3, ConstructHuffmanCode 2 (val ! 1))])))
          else if num_symbols = 3 then
            (if length val < 4 then None
             else
               let val = swap_vals 2 3 (swap_vals 1 3 (swap_vals 1 2
                           (swap_vals 0 3 (swap_vals 0 2 (swap_vals 0 1 val))))) in
               Some (4, val,
                 [(0, ConstructHuffmanCode 2 (val ! 0)), (2, ConstructHuffmanCode 2 (val ! 1)),
                  (1, ConstructHuffmanCode 2 (val ! 2)), (3, ConstructHuffmanCode 2 (val ! 3))]))
          else if num_symbols = 4 then
            (if length val < 4 then None
             else
               let val = swap_vals 2 3 val in
               Some (8, val,
                 [(0, ConstructHuffmanCode 1 (val ! 0)), (1, ConstructHuffmanCode 2 (val ! 1)),
                  (2, ConstructHuffmanCode 1 (val ! 0)), (3, ConstructHuffmanCode 3 (val ! 2)),
                  (4, ConstructHuffmanCode 1 (val ! 0)), (5, ConstructHuffmanCode 2 (val ! 1)),
                  (6, ConstructHuffmanCode 1 (val ! 0)), (7, ConstructHuffmanCode 3 (val ! 3))]))
          else Some (1, val, []));
       table \<leftarrow> put_codes table stores;
       table \<leftarrow> double_table goal_size table_size table;
       Some (goal_size, table, val) })"


end
