(* ===== verification/Brotli_Canonical.thy ===== *)
theory Brotli_Canonical
  imports Brotli_Prelude
begin

text \<open>
  What a canonical prefix code is, independently of how tables and code words are computed.
  A code is a list of pairs (length, symbol) in canonical order: shorter codes first, symbols
  in order within a length. With \<open>W\<close> bits of look-ahead, read most significant code bit
  first, each code of length \<open>l\<close> owns an interval of \<open>2 ^ (W - l)\<close> numbers; the intervals
  follow each other from 0. The decoder's tables (theory \<open>Brotli_HuffmanTables\<close>) and the
  encoder's code words are both proved to implement this specification.
\<close>

section \<open>Bit reversal\<close>

definition rev_bits :: "nat \<Rightarrow> nat \<Rightarrow> nat" where
  "rev_bits n v = bits_val (rev (nat_bits n v))"

lemma rev_bits_bound: "rev_bits n v < 2 ^ n"
  using bits_val_bound [of "rev (nat_bits n v)"] by (simp add: rev_bits_def)

lemma nat_bits_rev_bits: "nat_bits n (rev_bits n v) = rev (nat_bits n v)"
  using nat_bits_bits_val [of "rev (nat_bits n v)"] by (simp add: rev_bits_def)

lemma rev_bits_rev_bits [simp]: "rev_bits n (rev_bits n v) = v mod 2 ^ n"
  by (simp add: rev_bits_def [of n "rev_bits n v"] nat_bits_rev_bits)

lemma rev_bits_mod [simp]: "rev_bits n (v mod 2 ^ n) = rev_bits n v"
  by (simp add: rev_bits_def nat_bits_mod)

lemma rev_bits_0 [simp]: "rev_bits n 0 = 0"
proof -
  have "nat_bits n 0 = replicate n False" by (induction n) auto
  moreover have "bits_val (replicate n False) = 0" by (induction n) auto
  ultimately show ?thesis by (simp add: rev_bits_def)
qed

lemma rev_bits_div: "l \<le> n \<Longrightarrow> rev_bits n v div 2 ^ (n - l) = rev_bits l v"
proof -
  assume l: "l \<le> n"
  have "drop (n - l) (rev (nat_bits n v)) = rev (nat_bits l v)"
    using l by (simp add: drop_rev take_nat_bits min_absorb1)
  then show ?thesis by (simp add: rev_bits_def flip: bits_val_drop)
qed

lemma rev_bits_shift: "l \<le> n \<Longrightarrow> rev_bits n (2 ^ (n - l) * q) = rev_bits l q"
proof -
  assume l: "l \<le> n"
  have z: "nat_bits m 0 = replicate m False" for m by (induction m) auto
  have "nat_bits n (2 ^ (n - l) * q) = nat_bits ((n - l) + l) (2 ^ (n - l) * q)" using l by simp
  also have "\<dots> = nat_bits (n - l) (2 ^ (n - l) * q) @ nat_bits l q" by (simp add: nat_bits_add)
  also have "nat_bits (n - l) (2 ^ (n - l) * q) = replicate (n - l) False"
    using nat_bits_mod [of "n - l" "n - l" "2 ^ (n - l) * q"] by (simp add: z)
  finally have "rev (nat_bits n (2 ^ (n - l) * q)) = rev (nat_bits l q) @ replicate (n - l) False"
    by simp
  moreover have "bits_val (replicate m False) = 0" for m by (induction m) auto
  ultimately show ?thesis by (simp add: rev_bits_def bits_val_append)
qed

lemma rev_bits_inj: "rev_bits n u = rev_bits n v \<longleftrightarrow> u mod 2 ^ n = v mod 2 ^ n"
  by (metis rev_bits_mod rev_bits_rev_bits)

lemma rev_bits_append:
  "rev_bits (m + n) v = 2 ^ n * rev_bits m v + rev_bits n (v div 2 ^ m)"
  by (simp add: rev_bits_def nat_bits_add bits_val_append)

text \<open>
  The table indices that agree with a code word in its \<open>l\<close> low bits are, after reversal,
  the interval that the code owns.
\<close>

lemma rev_bits_interval:
  assumes "l \<le> n" "2 ^ (n - l) dvd key" "key < 2 ^ n"
  shows "i mod 2 ^ l = rev_bits n key \<longleftrightarrow> key \<le> rev_bits n i \<and> rev_bits n i < key + 2 ^ (n - l)"
proof -
  obtain q where q: "key = 2 ^ (n - l) * q" using assms(2) by (rule dvdE)
  have "(2::nat) ^ n = 2 ^ (n - l) * 2 ^ l" using assms(1) by (simp flip: power_add)
  then have ql: "q < 2 ^ l" using assms(3) q by simp
  have "i mod 2 ^ l = rev_bits n key \<longleftrightarrow> rev_bits l i = q"
    using rev_bits_inj [of l i "rev_bits l q"] ql rev_bits_bound [of l q]
    by (simp add: q rev_bits_shift [OF assms(1)])
  also have "\<dots> \<longleftrightarrow> rev_bits n i div 2 ^ (n - l) = q" by (simp add: rev_bits_div [OF assms(1)])
  also have "\<dots> \<longleftrightarrow> key \<le> rev_bits n i \<and> rev_bits n i < key + 2 ^ (n - l)"
    unfolding q using dividend_less_times_div [of "2 ^ (n - l)" "rev_bits n i"]
    by (auto intro: div_nat_eqI simp: add.commute)
  finally show ?thesis .
qed

section \<open>Canonical codes\<close>

fun canon :: "nat \<Rightarrow> (nat \<times> 'a) list \<Rightarrow> nat \<Rightarrow> (nat \<times> 'a) option" where
  "canon W [] x = None"
| "canon W ((l, s) # cs) x = (if x < 2 ^ (W - l) then Some (l, s) else canon W cs (x - 2 ^ (W - l)))"

definition span :: "nat \<Rightarrow> (nat \<times> 'a) list \<Rightarrow> nat" where
  "span W cs = (\<Sum>(l, s)\<leftarrow>cs. 2 ^ (W - l))"

lemma span_simps [simp]:
  "span W [] = 0"
  "span W ((l, s) # cs) = 2 ^ (W - l) + span W cs"
  "span W (xs @ ys) = span W xs + span W ys"
  by (simp_all add: span_def)

lemma canon_None: "canon W cs x = None \<longleftrightarrow> span W cs \<le> x"
  by (induction W cs x rule: canon.induct) auto

lemma canon_append:
  "canon W (xs @ ys) x = (if x < span W xs then canon W xs x else canon W ys (x - span W xs))"
  by (induction W xs x rule: canon.induct) auto

lemma canon_mem: "canon W cs x = Some c \<Longrightarrow> c \<in> set cs"
  by (induction W cs x rule: canon.induct) (auto split: if_splits)

lemma sub_mult_div:
  fixes x a d :: nat
  assumes "0 < d"
  shows "(x - a * d) div d = x div d - a"
proof (cases "a * d \<le> x")
  case True
  then obtain y where "x = y + a * d" by (metis le_add_diff_inverse2)
  then show ?thesis using assms by simp
next
  case False
  then have "x div d \<le> a" using assms by (simp add: less_mult_imp_div_less less_imp_le)
  with False show ?thesis by simp
qed

text \<open>More look-ahead bits than the longest code do not change the answer.\<close>

lemma canon_scale:
  "\<forall>(l, s)\<in>set cs. l \<le> W \<Longrightarrow> canon (W + k) cs x = canon W cs (x div 2 ^ k)"
proof (induction cs arbitrary: x)
  case Nil
  then show ?case by simp
next
  case (Cons c cs)
  obtain l s where c: "c = (l, s)" by (cases c)
  have l: "W + k - l = (W - l) + k" using Cons.prems c by auto
  have p: "(2::nat) ^ (W + k - l) = 2 ^ (W - l) * 2 ^ k" by (simp add: l power_add)
  have "x < 2 ^ (W + k - l) \<longleftrightarrow> x div 2 ^ k < 2 ^ (W - l)"
    unfolding p by (simp add: div_less_iff_less_mult)
  moreover have "(x - 2 ^ (W + k - l)) div 2 ^ k = x div 2 ^ k - 2 ^ (W - l)"
    unfolding p by (simp add: sub_mult_div)
  ultimately show ?case using Cons c by simp
qed

lemma span_scale: "\<forall>(l, s)\<in>set cs. l \<le> W \<Longrightarrow> span (W + k) cs = 2 ^ k * span W cs"
proof (induction cs)
  case Nil
  then show ?case by simp
next
  case (Cons c cs)
  obtain l s where c: "c = (l, s)" by (cases c)
  have "W + k - l = k + (W - l)" using Cons.prems c by auto
  then have "(2::nat) ^ (W + k - l) = 2 ^ k * 2 ^ (W - l)" by (simp add: power_add)
  then show ?case using Cons c by (simp add: distrib_left)
qed

text \<open>In length order every interval starts at a multiple of its size.\<close>

lemma span_dvd: "\<forall>(l, s)\<in>set cs. l \<le> m \<Longrightarrow> m \<le> W \<Longrightarrow> 2 ^ (W - m) dvd span W cs"
proof (induction cs)
  case Nil
  then show ?case by simp
next
  case (Cons c cs)
  obtain l s where c: "c = (l, s)" by (cases c)
  have "W - m \<le> W - l" using Cons.prems c by auto
  then show ?case using Cons c by (auto intro!: dvd_add le_imp_power_dvd)
qed

text \<open>The code that owns a position, by its place in the list.\<close>

lemma canon_at:
  "span W pre \<le> x \<Longrightarrow> x < span W pre + 2 ^ (W - l) \<Longrightarrow>
    canon W (pre @ (l, s) # post) x = Some (l, s)"
  by (simp add: canon_append less_diff_conv2 add.commute)

lemma canon_SomeD:
  assumes "canon W cs x = Some (l, s)"
  obtains pre post where "cs = pre @ (l, s) # post" "span W pre \<le> x" "x < span W pre + 2 ^ (W - l)"
  using assms
proof (induction W cs x arbitrary: thesis rule: canon.induct)
  case (1 W x)
  then show ?case by simp
next
  case (2 W l' s' cs x)
  show ?case
  proof (cases "x < 2 ^ (W - l')")
    case True
    with "2.prems"(2) have "l = l'" "s = s'" by auto
    with True show ?thesis using "2.prems"(1) [of "[]" cs] by simp
  next
    case False
    then obtain pre post where "cs = pre @ (l, s) # post" "span W pre \<le> x - 2 ^ (W - l')"
        "x - 2 ^ (W - l') < span W pre + 2 ^ (W - l)"
      using "2.IH" "2.prems"(2) by auto
    with False show ?thesis using "2.prems"(1) [of "(l', s') # pre" post] by simp
  qed
qed

definition code_ok :: "nat \<Rightarrow> (nat \<times> 'a) list \<Rightarrow> bool" where
  "code_ok m cs \<longleftrightarrow> sorted (map fst cs) \<and> (\<forall>c\<in>set cs. 0 < fst c \<and> fst c \<le> m)"

lemma code_okD:
  assumes "code_ok m cs"
  shows "sorted (map fst cs)" "\<And>l s. (l, s) \<in> set cs \<Longrightarrow> 0 < l \<and> l \<le> m"
  using assms by (auto simp: code_ok_def)

lemma code_ok_Cons:
  "code_ok m ((l, s) # cs) \<longleftrightarrow> 0 < l \<and> l \<le> m \<and> (\<forall>c\<in>set cs. l \<le> fst c) \<and> code_ok m cs"
  by (auto simp: code_ok_def)

lemma code_ok_append:
  "code_ok m (xs @ ys) \<longleftrightarrow>
    code_ok m xs \<and> code_ok m ys \<and> (\<forall>x\<in>set xs. \<forall>y\<in>set ys. fst x \<le> fst y)"
  by (auto simp: code_ok_def sorted_append)

lemma code_ok_mono: "code_ok m cs \<Longrightarrow> m \<le> m' \<Longrightarrow> code_ok m' cs"
  by (auto simp: code_ok_def)

text \<open>Positions in one block of \<open>2 ^ (W - m)\<close> have the same code, if it has at most \<open>m\<close> bits.\<close>

lemma canon_block:
  assumes ok: "code_ok W cs" and x: "canon W cs x = Some (l, s)" and m: "l \<le> m" "m \<le> W"
    and same: "y div 2 ^ (W - m) = x div 2 ^ (W - m)"
  shows "canon W cs y = Some (l, s)"
proof -
  obtain pre post where p: "cs = pre @ (l, s) # post" "span W pre \<le> x" "x < span W pre + 2 ^ (W - l)"
    using x by (rule canon_SomeD)
  have "\<forall>(l', s')\<in>set pre. l' \<le> l" using ok p(1) by (auto simp: code_ok_def sorted_append)
  then have "2 ^ (W - l) dvd span W pre" using m by (intro span_dvd) auto
  then have "2 ^ (W - m) dvd span W pre" using m by (meson diff_le_mono2 dvd_trans le_imp_power_dvd)
  then obtain q where q: "span W pre = 2 ^ (W - m) * q" by (rule dvdE)
  obtain r where r: "(2::nat) ^ (W - l) = 2 ^ (W - m) * r"
    using m by (metis diff_le_mono2 dvdE le_imp_power_dvd)
  have d: "(0::nat) < 2 ^ (W - m)" by simp
  have "q \<le> x div 2 ^ (W - m)" "x div 2 ^ (W - m) < q + r"
    using p(2,3) unfolding q r
    by (auto simp: less_eq_div_iff_mult_less_eq div_less_iff_less_mult mult.commute algebra_simps)
  then have "2 ^ (W - m) * q \<le> y" "y < 2 ^ (W - m) * q + 2 ^ (W - m) * r"
    unfolding same [symmetric]
    by (auto simp: less_eq_div_iff_mult_less_eq div_less_iff_less_mult mult.commute algebra_simps)
  then show ?thesis unfolding p(1) using canon_at [of W pre y l s post] q r by simp
qed


section \<open>The code of a list of code lengths\<close>

text \<open>
  Symbols of length 0 have no code. The symbols of each length follow each other in symbol
  order, the lengths in increasing order.
\<close>

definition syms_of_len :: "nat list \<Rightarrow> nat \<Rightarrow> nat list" where
  "syms_of_len lens l = filter (\<lambda>s. lens ! s = l) [0..<length lens]"

definition code_of :: "nat \<Rightarrow> nat list \<Rightarrow> (nat \<times> nat) list" where
  "code_of m lens = concat (map (\<lambda>l. map (Pair l) (syms_of_len lens l)) [1..<Suc m])"

lemma code_of_Suc: "code_of (Suc m) lens = code_of m lens @ map (Pair (Suc m)) (syms_of_len lens (Suc m))"
  by (simp add: code_of_def)

lemma code_of_0 [simp]: "code_of 0 lens = []"
  by (simp add: code_of_def)

lemma set_code_of: "(l, s) \<in> set (code_of m lens) \<longleftrightarrow> 0 < l \<and> l \<le> m \<and> s < length lens \<and> lens ! s = l"
  by (induction m) (auto simp: code_of_Suc syms_of_len_def le_Suc_eq)

lemma code_ok_code_of: "code_ok m (code_of m lens)"
proof (induction m)
  case 0
  then show ?case by (simp add: code_ok_def)
next
  case (Suc m)
  then have "code_ok (Suc m) (code_of m lens)" by (rule code_ok_mono) simp
  moreover have "sorted (map (\<lambda>x. Suc m) xs)" for xs :: "nat list" by (induction xs) auto
  then have "code_ok (Suc m) (map (Pair (Suc m)) (syms_of_len lens (Suc m)))"
    by (auto simp: code_ok_def comp_def)
  ultimately show ?case
    unfolding code_of_Suc code_ok_append using Suc by (auto simp: code_ok_def le_Suc_eq)
qed

lemma span_code_of:
  "span W (code_of m lens) = (\<Sum>s\<leftarrow>[0..<length lens]. if 0 < lens ! s \<and> lens ! s \<le> m then 2 ^ (W - lens ! s) else 0)"
proof (induction m)
  case 0
  have z: "(if 0 < k \<and> k \<le> 0 then a else 0) = (0::nat)" for k a :: nat by simp
  show ?case by (simp only: z code_of_0 span_simps sum_list_0)
next
  case (Suc m)
  have f: "span W (map (Pair l) (filter P xs)) = (\<Sum>s\<leftarrow>xs. if P s then 2 ^ (W - l) else 0)" for l P and xs :: "nat list"
    by (induction xs) auto
  have a: "(\<Sum>s\<leftarrow>xs. if 0 < lens ! s \<and> lens ! s \<le> m then 2 ^ (W - lens ! s) else (0::nat)) +
      (\<Sum>s\<leftarrow>xs. if lens ! s = Suc m then 2 ^ (W - Suc m) else 0) =
      (\<Sum>s\<leftarrow>xs. if 0 < lens ! s \<and> lens ! s \<le> Suc m then 2 ^ (W - lens ! s) else 0)" for xs :: "nat list"
    by (induction xs) (auto simp: le_Suc_eq)
  show ?case by (simp only: code_of_Suc span_simps Suc syms_of_len_def f a)
qed

text \<open>Renaming the symbols.\<close>

lemma canon_map: "canon W (map (map_prod id f) cs) x = map_option (map_prod id f) (canon W cs x)"
  by (induction W cs x rule: canon.induct) auto

lemma span_map [simp]: "span W (map (map_prod id f) cs) = span W cs"
  by (induction cs) auto

lemma code_ok_map [simp]: "code_ok m (map (map_prod id f) cs) = code_ok m cs"
  by (auto simp: code_ok_def comp_def)


section \<open>The code at the front of a bit list\<close>

text \<open>
  \<open>next_code cs bs\<close> is the code that the bits \<open>bs\<close>, continued by zeros, start with, and
  \<open>codeword pre l\<close> the bits of the code of length \<open>l\<close> that follows the codes \<open>pre\<close>: its
  canonical number, most significant bit first.
\<close>

definition next_code :: "(nat \<times> 'a) list \<Rightarrow> bool list \<Rightarrow> (nat \<times> 'a) option" where
  "next_code cs bs = canon 16 cs (rev_bits 16 (bits_val bs))"

definition codeword :: "(nat \<times> 'a) list \<Rightarrow> nat \<Rightarrow> bool list" where
  "codeword pre l = rev (nat_bits l (span l pre))"

lemma length_codeword [simp]: "length (codeword pre l) = l"
  by (simp add: codeword_def)

text \<open>Only the next 15 bits matter.\<close>

lemma rev_bits_cong: "u mod 2 ^ n = v mod 2 ^ n \<Longrightarrow> rev_bits n u = rev_bits n v"
  by (metis rev_bits_mod)

lemma next_code_15:
  assumes "\<forall>c\<in>set cs. fst c \<le> 15" "u mod 2 ^ 15 = v mod 2 ^ 15"
  shows "canon 16 cs (rev_bits 16 u) = canon 16 cs (rev_bits 16 v)"
proof -
  have le: "\<forall>(l, s)\<in>set cs. l \<le> 15" using assms(1) by auto
  have "canon 16 cs (rev_bits 16 w) = canon 15 cs (rev_bits 15 w)" for w
    using canon_scale [OF le, of 1] rev_bits_div [of 15 16 w] by simp
  then show ?thesis using rev_bits_cong [OF assms(2)] by simp
qed

lemma next_code_take:
  assumes "\<forall>c\<in>set cs. fst c \<le> 15" "15 \<le> n"
  shows "next_code cs (take n bs) = next_code cs bs"
  unfolding next_code_def
proof (rule next_code_15 [OF assms(1)])
  have "(2::nat) ^ 15 dvd 2 ^ n" using assms(2) by (rule le_imp_power_dvd)
  then show "bits_val (take n bs) mod 2 ^ 15 = bits_val bs mod 2 ^ 15"
    by (simp add: bits_val_take mod_mod_cancel)
qed

lemma codeword_bits_val: "rev_bits l (bits_val (codeword pre l @ rest)) = span l pre mod 2 ^ l"
proof -
  have "nat_bits l (bits_val (codeword pre l @ rest)) = codeword pre l"
  proof -
    have "bits_val (codeword pre l @ rest) mod 2 ^ l = bits_val (codeword pre l)"
      by (simp add: bits_val_take [symmetric])
    then show ?thesis
      using nat_bits_mod [of l l "bits_val (codeword pre l @ rest)"] nat_bits_bits_val [of "codeword pre l"]
      by simp
  qed
  then show ?thesis by (simp add: rev_bits_def codeword_def)
qed

text \<open>A stream that starts with a code word decodes to its symbol.\<close>

lemma next_code_codeword:
  assumes ok: "code_ok 16 cs" and cs: "cs = pre @ (l, s) # post" and sp: "span 16 cs \<le> 2 ^ 16"
  shows "next_code cs (codeword pre l @ rest) = Some (l, s)"
proof -
  have l: "0 < l" "l \<le> 16" and pre: "\<forall>(l', s')\<in>set pre. l' \<le> l"
    using ok by (auto simp: cs code_ok_append code_ok_Cons)
  have s16: "span 16 pre = 2 ^ (16 - l) * span l pre"
    using span_scale [OF pre, of "16 - l"] l by simp
  define x where "x = rev_bits 16 (bits_val (codeword pre l @ rest))"
  have p16: "(2::nat) ^ 16 = 2 ^ (16 - l) * 2 ^ l" using l by (simp flip: power_add)
  have "span 16 pre + 2 ^ (16 - l) \<le> 2 ^ 16" using sp by (simp add: cs)
  then have "2 ^ (16 - l) * (span l pre + 1) \<le> 2 ^ (16 - l) * 2 ^ l"
    by (simp only: s16 p16 distrib_left mult_1_right)
  then have "span l pre + 1 \<le> 2 ^ l" by (simp only: mult_le_cancel1) simp
  then have "span l pre < 2 ^ l" by simp
  then have "x div 2 ^ (16 - l) = span l pre"
    unfolding x_def rev_bits_div [OF l(2)] codeword_bits_val by simp
  then have "2 ^ (16 - l) * span l pre \<le> x \<and> x < 2 ^ (16 - l) * span l pre + 2 ^ (16 - l)"
    using dividend_less_times_div [of "2 ^ (16 - l)" x] times_div_less_eq_dividend [of "2 ^ (16 - l)" x]
    by (simp add: add.commute)
  then show ?thesis
    unfolding next_code_def x_def [symmetric] cs using canon_at [of 16 pre x l s post] by (simp add: s16)
qed

end
