(* ===== verification/Brotli_HuffmanTables.thy ===== *)
theory Brotli_HuffmanTables
  imports Brotli_Huffman Brotli_Canonical
begin

text \<open>
  Correctness of the table builders of theory \<open>Brotli_Huffman\<close> against the canonical codes
  of theory \<open>Brotli_Canonical\<close>: the entry that a lookup finds for the next bits of the
  stream is the entry of the code those bits start with. The loops over symbol chains are
  first reduced to folds over the list of codes, then the folds are characterised by
  intervals of reversed table indices.
\<close>

section \<open>Bit reversal and replication\<close>

lemma rev_bits_one: "0 < n \<Longrightarrow> rev_bits n 1 = 2 ^ (n - 1)"
  using rev_bits_shift [of 1 n 1] rev_bits_rev_bits [of n "2 ^ (n - 1)"]
  by (simp add: rev_bits_def)

lemma rev_bits_add_pow:
  assumes "i < 2 ^ k" "k < n"
  shows "rev_bits n (i + 2 ^ k) = rev_bits n i + 2 ^ (n - Suc k)"
proof -
  have n: "n = k + (n - k)" using assms by simp
  have "rev_bits k (i + 2 ^ k) = rev_bits k i" using rev_bits_mod [of k "i + 2 ^ k"] assms by simp
  moreover have "rev_bits (n - k) 1 = 2 ^ (n - Suc k)" using assms rev_bits_one [of "n - k"] by simp
  moreover have "(i + 2 ^ k) div 2 ^ k = 1" using assms by (simp add: div_add_self2)
  ultimately show ?thesis
    using assms rev_bits_append [of k "n - k" "i + 2 ^ k"] rev_bits_append [of k "n - k" i]
    by (simp add: n [symmetric])
qed

lemma map_rev_bits_double:
  assumes "k < n"
  shows "map (rev_bits n) [0..<2 ^ Suc k] =
    map (rev_bits n) [0..<2 ^ k] @ map (\<lambda>r. r + 2 ^ (n - Suc k)) (map (rev_bits n) [0..<2 ^ k])"
  using assms
  by (intro nth_equalityI) (auto simp: nth_append rev_bits_add_pow [symmetric])

lemma kReverseBits_eq: "kReverseBits = map (rev_bits 8) [0..<256]"
proof -
  have t0: "map (rev_bits 8) [0..<1] = [0]" by simp
  have t1: "map (rev_bits 8) [0..<2] = [0, 128]"
    using map_rev_bits_double [of 0 8] t0 by (simp del: map_map)
  have t2: "map (rev_bits 8) [0..<4] = [0, 128, 64, 192]"
    using map_rev_bits_double [of 1 8] t1 by (simp del: map_map)
  have t3: "map (rev_bits 8) [0..<8] = [0, 128, 64, 192, 32, 160, 96, 224]"
    using map_rev_bits_double [of 2 8] t2 by (simp del: map_map)
  have t4: "map (rev_bits 8) [0..<16] = [0, 128, 64, 192, 32, 160, 96, 224, 16, 144, 80, 208, 48, 176, 112, 240]"
    using map_rev_bits_double [of 3 8] t3 by (simp del: map_map)
  have t5: "map (rev_bits 8) [0..<32] = [0, 128, 64, 192, 32, 160, 96, 224, 16, 144, 80, 208, 48, 176, 112, 240, 8, 136, 72, 200,
      40, 168, 104, 232, 24, 152, 88, 216, 56, 184, 120, 248]"
    using map_rev_bits_double [of 4 8] t4 by (simp del: map_map)
  have t6: "map (rev_bits 8) [0..<64] = [0, 128, 64, 192, 32, 160, 96, 224, 16, 144, 80, 208, 48, 176, 112, 240, 8, 136, 72, 200,
      40, 168, 104, 232, 24, 152, 88, 216, 56, 184, 120, 248, 4, 132, 68, 196, 36, 164, 100,
      228, 20, 148, 84, 212, 52, 180, 116, 244, 12, 140, 76, 204, 44, 172, 108, 236, 28, 156,
      92, 220, 60, 188, 124, 252]"
    using map_rev_bits_double [of 5 8] t5 by (simp del: map_map)
  have t7: "map (rev_bits 8) [0..<128] = [0, 128, 64, 192, 32, 160, 96, 224, 16, 144, 80, 208, 48, 176, 112, 240, 8, 136, 72, 200,
      40, 168, 104, 232, 24, 152, 88, 216, 56, 184, 120, 248, 4, 132, 68, 196, 36, 164, 100,
      228, 20, 148, 84, 212, 52, 180, 116, 244, 12, 140, 76, 204, 44, 172, 108, 236, 28, 156,
      92, 220, 60, 188, 124, 252, 2, 130, 66, 194, 34, 162, 98, 226, 18, 146, 82, 210, 50, 178,
      114, 242, 10, 138, 74, 202, 42, 170, 106, 234, 26, 154, 90, 218, 58, 186, 122, 250, 6,
      134, 70, 198, 38, 166, 102, 230, 22, 150, 86, 214, 54, 182, 118, 246, 14, 142, 78, 206,
      46, 174, 110, 238, 30, 158, 94, 222, 62, 190, 126, 254]"
    using map_rev_bits_double [of 6 8] t6 by (simp del: map_map)
  show ?thesis using map_rev_bits_double [of 7 8] t7 by (simp del: map_map add: kReverseBits_def)
qed

lemma BrotliReverseBits_eq:
  "BrotliReverseBits num = (if num < 256 then Some (rev_bits 8 num) else None)"
  unfolding BrotliReverseBits_def kReverseBits_eq by simp

lemma replicate_value_spec:
  assumes "0 < step" "end' = Suc k * step" "off + k * step < length table"
  shows "\<exists>table'. ReplicateValue table off step end' code = Some table' \<and>
    length table' = length table \<and>
    (\<forall>j<length table. table' ! j =
      (if off \<le> j \<and> j < off + end' \<and> step dvd j - off then code else table ! j))"
  using assms
proof (induction k arbitrary: end' table)
  case 0
  have idx: "off + end' - step = off" "\<not> step < end'" "\<not> off + end' < step" using 0 by auto
  have "step dvd j - off \<longleftrightarrow> j = off" if "off \<le> j" "j < off + end'" for j
    using that 0 by (auto simp: le_iff_add dest: dvd_imp_le)
  with 0 idx show ?case
    by (auto simp: ReplicateValue.simps [of table] nth_list_update Let_def)
next
  case (Suc k)
  let ?t = "table[off + Suc k * step := code]"
  have idx: "off + end' - step = off + Suc k * step" "step < end'" "end' - step = Suc k * step"
    "\<not> off + end' < step" using Suc.prems by auto
  have "ReplicateValue table off step end' code = ReplicateValue ?t off step (Suc k * step) code"
    using Suc.prems idx by (simp add: ReplicateValue.simps [of table] Let_def)
  moreover obtain t' where t': "ReplicateValue ?t off step (Suc k * step) code = Some t'"
      "length t' = length ?t"
      "\<forall>j<length ?t. t' ! j = (if off \<le> j \<and> j < off + Suc k * step \<and> step dvd j - off then code else ?t ! j)"
    using Suc.IH [of "Suc k * step" ?t] Suc.prems by auto
  moreover have "t' ! j = (if off \<le> j \<and> j < off + end' \<and> step dvd j - off then code else table ! j)"
    if "j < length table" for j
  proof (cases "j = off + Suc k * step")
    case True
    then have "step dvd j - off" by simp
    with True that t' Suc.prems show ?thesis by auto
  next
    case False
    have "j < off + Suc k * step" if a: "off \<le> j" and b: "j < off + end'" and c: "step dvd j - off"
    proof -
      obtain m where m: "j - off = step * m" using c by (rule dvdE)
      then have "step * m < step * Suc (Suc k)" using a b Suc.prems(2) by (simp add: mult.commute)
      then have "m \<le> Suc k" by (simp only: mult_less_cancel1) simp
      moreover have "m \<noteq> Suc k" using False m a by (auto simp: mult.commute)
      ultimately have "m < Suc k" by simp
      then have "step * m < step * Suc k" using Suc.prems(1) by (simp only: mult_less_cancel1)
      then show ?thesis using m a by (simp add: mult.commute)
    qed
    moreover have "Suc k * step \<le> end'" using Suc.prems by simp
    ultimately show ?thesis using that t' False by auto
  qed
  ultimately show ?case by auto
qed

text \<open>
  One \<open>ReplicateValue\<close> of a builder: a code of length \<open>l\<close> whose interval starts at \<open>key\<close>,
  into the table of \<open>2 ^ T\<close> entries at \<open>base\<close>. Seen through the reversal, exactly the
  entries in the interval get the code.
\<close>

lemma replicate_code:
  assumes l: "l \<le> T" "T \<le> 8" and key: "2 ^ (8 - l) dvd key" "key < 256"
    and mem: "base + 2 ^ T \<le> length table"
  obtains table' where "ReplicateValue table (base + rev_bits 8 key) (2 ^ l) (2 ^ T) code = Some table'"
    "length table' = length table"
    "\<And>j. j < length table \<Longrightarrow> \<not> (base \<le> j \<and> j < base + 2 ^ T) \<Longrightarrow> table' ! j = table ! j"
    "\<And>i. i < 2 ^ T \<Longrightarrow> table' ! (base + i) =
      (if key \<le> rev_bits 8 i \<and> rev_bits 8 i < key + 2 ^ (8 - l) then code else table ! (base + i))"
proof -
  define r where "r = rev_bits 8 key"
  obtain q where q: "key = 2 ^ (8 - l) * q" using key(1) by (rule dvdE)
  have r: "r < 2 ^ l" using l by (simp add: r_def q rev_bits_shift rev_bits_bound)
  define k where "k = 2 ^ (T - l) - (1 :: nat)"
  have T: "(2::nat) ^ T = Suc k * 2 ^ l" using l by (simp add: k_def flip: power_add)
  then have kT: "r + k * 2 ^ l < 2 ^ T" using r by simp
  then obtain t' where t': "ReplicateValue table (base + r) (2 ^ l) (2 ^ T) code = Some t'"
      "length t' = length table"
      "\<forall>j<length table. t' ! j = (if base + r \<le> j \<and> j < base + r + 2 ^ T \<and>
        2 ^ l dvd j - (base + r) then code else table ! j)"
    using replicate_value_spec [of "2 ^ l" "2 ^ T" k "base + r" table code] mem T by auto
  have inside: "2 ^ l dvd i - r \<and> r \<le> i \<longleftrightarrow> i mod 2 ^ l = r" for i
    using r by (metis dvd_minus_mod le_add_diff_inverse mod_eq_dvd_iff_nat mod_less mod_less_eq_dividend)
  have outside: "\<not> (2 ^ l dvd i - r)" if "r \<le> i" "i < r + 2 ^ T" "2 ^ T \<le> i" for i
  proof
    assume "2 ^ l dvd i - r"
    then obtain m where m: "i - r = 2 ^ l * m" by (rule dvdE)
    then have "2 ^ l * m < 2 ^ l * Suc k" using that T by (simp add: mult.commute)
    then have "m \<le> k" by (simp only: mult_less_cancel1) simp
    then have "m * 2 ^ l \<le> k * 2 ^ l" by (rule mult_le_mono1)
    then show False using m that kT by (simp only: mult.commute [of "2 ^ l"])
  qed
  show thesis
  proof (rule that [OF t'(1)[unfolded r_def] t'(2)])
    fix j assume j: "j < length table" "\<not> (base \<le> j \<and> j < base + 2 ^ T)"
    have n: "\<not> (base + r \<le> j \<and> j < base + r + 2 ^ T \<and> 2 ^ l dvd j - (base + r))"
    proof
      assume a: "base + r \<le> j \<and> j < base + r + 2 ^ T \<and> 2 ^ l dvd j - (base + r)"
      then have "r \<le> j - base" "j - base < r + 2 ^ T" "2 ^ T \<le> j - base" using j by auto
      then show False using outside [of "j - base"] a by simp
    qed
    show "t' ! j = table ! j"
      unfolding t'(3) [rule_format, OF j(1)] by (rule if_not_P [OF n])
  next
    fix i :: nat assume i: "i < 2 ^ T"
    have "t' ! (base + i) = (if i mod 2 ^ l = r then code else table ! (base + i))"
      using t'(3) mem i inside [of i] by auto
    then show "t' ! (base + i) = (if key \<le> rev_bits 8 i \<and> rev_bits 8 i < key + 2 ^ (8 - l)
        then code else table ! (base + i))"
      using rev_bits_interval [of l 8 key i] l key by (simp add: r_def)
  qed
qed


section \<open>Filling one table\<close>

abbreviation entry :: "nat \<Rightarrow> u16 \<Rightarrow> HuffmanCode" where
  "entry l s \<equiv> ConstructHuffmanCode (word_of_nat l) s"

fun fill_flat :: "nat \<Rightarrow> (nat \<times> u16) list \<Rightarrow> nat \<Rightarrow> HuffmanCode list \<Rightarrow> (nat \<times> HuffmanCode list) option" where
  "fill_flat T [] key table = Some (key, table)"
| "fill_flat T ((l, s) # cs) key table =
    do {
      off \<leftarrow> BrotliReverseBits key;
      table \<leftarrow> ReplicateValue table off (2 ^ l) (2 ^ T) (entry l s);
      fill_flat T cs (key + 2 ^ (8 - l)) table }"

lemma fill_flat_append:
  "fill_flat T (xs @ ys) key table =
    do { (key, table) \<leftarrow> fill_flat T xs key table; fill_flat T ys key table }"
  by (induction T xs key table rule: fill_flat.induct) (auto split: bind_splits)

lemma fill_flat_spec:
  assumes "code_ok T cs" "T \<le> 8" "cs \<noteq> [] \<Longrightarrow> 2 ^ (8 - fst (hd cs)) dvd key"
    and "key + span 8 cs \<le> 256" "2 ^ T \<le> length table"
  shows "\<exists>table'. fill_flat T cs key table = Some (key + span 8 cs, table') \<and>
    length table' = length table \<and>
    (\<forall>j<length table. 2 ^ T \<le> j \<longrightarrow> table' ! j = table ! j) \<and>
    (\<forall>i<2 ^ T. table' ! i = (if rev_bits 8 i < key then table ! i
      else case canon 8 cs (rev_bits 8 i - key) of None \<Rightarrow> table ! i | Some (l, s) \<Rightarrow> entry l s))"
  using assms
proof (induction cs arbitrary: key table)
  case Nil
  then show ?case by simp
next
  case (Cons c cs)
  obtain l s where c: "c = (l, s)" by (cases c)
  have l: "0 < l" "l \<le> T" "\<forall>c\<in>set cs. l \<le> fst c" "code_ok T cs"
    using Cons.prems(1) by (auto simp: c code_ok_Cons)
  have "0 < (2::nat) ^ (8 - l)" "key + 2 ^ (8 - l) \<le> 256" using Cons.prems(4) by (simp_all add: c)
  then have "key < 256" by linarith
  then have key: "2 ^ (8 - l) dvd key" "key < 256" using Cons.prems(3) by (simp_all add: c)
  have "0 + 2 ^ T \<le> length table" using Cons.prems(5) by simp
  from replicate_code [OF l(2) Cons.prems(2) key this, where code = "entry l s"] obtain t1 where
    r: "ReplicateValue table (0 + rev_bits 8 key) (2 ^ l) (2 ^ T) (entry l s) = Some t1"
      "length t1 = length table"
      "\<And>j. j < length table \<Longrightarrow> \<not> (0 \<le> j \<and> j < 0 + 2 ^ T) \<Longrightarrow> t1 ! j = table ! j"
      "\<And>i. i < 2 ^ T \<Longrightarrow> t1 ! (0 + i) = (if key \<le> rev_bits 8 i \<and> rev_bits 8 i < key + 2 ^ (8 - l)
        then entry l s else table ! (0 + i))"
    by blast
  have t1: "ReplicateValue table (rev_bits 8 key) (2 ^ l) (2 ^ T) (entry l s) = Some t1"
      "length t1 = length table" "\<And>j. j < length table \<Longrightarrow> 2 ^ T \<le> j \<Longrightarrow> t1 ! j = table ! j"
      "\<And>i. i < 2 ^ T \<Longrightarrow> t1 ! i = (if key \<le> rev_bits 8 i \<and> rev_bits 8 i < key + 2 ^ (8 - l)
        then entry l s else table ! i)"
    using r(1,2) r(3) r(4) by simp_all
  let ?k = "key + 2 ^ (8 - l)"
  have "2 ^ (8 - fst (hd cs)) dvd ?k" if "cs \<noteq> []"
  proof -
    have "l \<le> fst (hd cs)" using l(3) that by simp
    then have "(2::nat) ^ (8 - fst (hd cs)) dvd 2 ^ (8 - l)" by (intro le_imp_power_dvd) simp
    then show ?thesis using key(1) by (meson dvd_add dvd_trans dvd_refl)
  qed
  then obtain t2 where t2: "fill_flat T cs ?k t1 = Some (?k + span 8 cs, t2)"
      "length t2 = length t1" "\<forall>j<length t1. 2 ^ T \<le> j \<longrightarrow> t2 ! j = t1 ! j"
      "\<forall>i<2 ^ T. t2 ! i = (if rev_bits 8 i < ?k then t1 ! i
        else case canon 8 cs (rev_bits 8 i - ?k) of None \<Rightarrow> t1 ! i | Some (l, s) \<Rightarrow> entry l s)"
    using Cons.IH [of ?k t1] l(4) Cons.prems(2,4,5) t1(2) by (auto simp: c add.assoc)
  have "fill_flat T (c # cs) key table = Some (key + span 8 (c # cs), t2)"
    using t1(1) t2(1) key(2) by (simp add: c BrotliReverseBits_eq add.assoc)
  moreover have "t2 ! i = (if rev_bits 8 i < key then table ! i
      else case canon 8 (c # cs) (rev_bits 8 i - key) of None \<Rightarrow> table ! i | Some (l, s) \<Rightarrow> entry l s)"
    if i: "i < 2 ^ T" for i
    using t2(4) t1(4) [OF i] i by (auto simp: c split: option.splits)
  ultimately show ?case using t1(2,3) t2(2,3) by auto
qed

text \<open>A complete set of codes of at most \<open>T\<close> bits fills the table.\<close>

lemma fill_flat_complete:
  assumes "code_ok T cs" "T \<le> 8" "2 ^ T \<le> length table" "span 8 cs \<le> 256"
  obtains table' where "fill_flat T cs 0 table = Some (span 8 cs, table')"
    "length table' = length table"
    "\<And>i l s. i < 2 ^ T \<Longrightarrow> canon 8 cs (rev_bits 8 i) = Some (l, s) \<Longrightarrow> table' ! i = entry l s"
proof -
  have "cs \<noteq> [] \<Longrightarrow> 2 ^ (8 - fst (hd cs)) dvd (0::nat)" by simp
  from fill_flat_spec [OF assms(1,2) this, of table] assms(3,4) show thesis
    by (auto intro!: that)
qed

text \<open>The doubling loop repeats the first entries.\<close>

lemma double_table_spec:
  assumes "T \<le> n" "2 ^ n \<le> length table"
  shows "\<exists>table'. double_table (2 ^ n) (2 ^ T) table = Some table' \<and> length table' = length table \<and>
    (\<forall>i<2 ^ n. table' ! i = table ! (i mod 2 ^ T)) \<and> (\<forall>j<length table. 2 ^ n \<le> j \<longrightarrow> table' ! j = table ! j)"
  using assms
proof (induction "n - T" arbitrary: T table)
  case 0
  then have "n = T" by simp
  then show ?case by (auto simp: double_table.simps [of "2 ^ T" "2 ^ T"])
next
  case (Suc d)
  have T: "T < n" using Suc.hyps by simp
  then have le: "(2::nat) ^ Suc T \<le> 2 ^ n" by (intro power_increasing) auto
  have ne: "(2::nat) ^ T \<noteq> 2 ^ n" using T by simp
  let ?t = "take (2 ^ T) table @ take (2 ^ T) table @ drop (2 * 2 ^ T) table"
  have len: "2 * 2 ^ T \<le> length table" using le Suc.prems by simp
  then have lt: "length ?t = length table" by simp
  have "d = n - Suc T" using Suc.hyps by simp
  from Suc.hyps(1) [OF this, of ?t] obtain t' where
    t': "double_table (2 ^ n) (2 ^ Suc T) ?t = Some t'" "length t' = length table"
      "\<forall>i<2 ^ n. t' ! i = ?t ! (i mod 2 ^ Suc T)" "\<forall>j<length table. 2 ^ n \<le> j \<longrightarrow> t' ! j = ?t ! j"
    using T Suc.prems lt by auto
  have "double_table (2 ^ n) (2 ^ T) table = Some t'"
    using t'(1) ne len by (simp add: double_table.simps [of "2 ^ n" "2 ^ T"])
  moreover have "?t ! (i mod 2 ^ Suc T) = table ! (i mod 2 ^ T)" for i
  proof -
    have m: "i mod 2 ^ Suc T = i mod 2 ^ T \<or> i mod 2 ^ Suc T = i mod 2 ^ T + 2 ^ T"
      using mod_mult2_eq [of i "2 ^ T" 2] by (auto simp: mult.commute mod_2_eq_odd)
    have "i mod 2 ^ T < 2 ^ T" by simp
    then show ?thesis using m len by (auto simp: nth_append)
  qed
  moreover have "?t ! j = table ! j" if "j < length table" "2 ^ n \<le> j" for j
    using that le len by (auto simp: nth_append)
  ultimately show ?case using t' by auto
qed


section \<open>Symbol chains\<close>

text \<open>
  The chains of \<open>symbols_lists_array\<close> and the histogram \<open>count\<close> represent a code when the
  chain of every length lists the symbols of that length, in order, and the head of an
  empty chain is \<open>0xFFFF\<close>.
\<close>

fun chain_syms :: "u16 list \<Rightarrow> int \<Rightarrow> nat \<Rightarrow> u16 list option" where
  "chain_syms sl i 0 = Some []"
| "chain_syms sl i (Suc n) =
    do { s \<leftarrow> symbol_list_at sl i; ss \<leftarrow> chain_syms sl (uint s) n; Some (s # ss) }"

definition of_len :: "(nat \<times> 'a) list \<Rightarrow> nat \<Rightarrow> 'a list" where
  "of_len cs l = map snd (filter (\<lambda>c. fst c = l) cs)"

definition lists_represent :: "u16 list \<Rightarrow> u16 list \<Rightarrow> (nat \<times> u16) list \<Rightarrow> bool" where
  "lists_represent sl count cs \<longleftrightarrow> length count = 16 \<and>
    list_all (\<lambda>l. unat (count ! l) = length (of_len cs l) \<and>
      chain_syms sl (int l - 16) (length (of_len cs l)) = Some (of_len cs l)) [1..<16] \<and>
    list_all (\<lambda>l. case symbol_list_at sl (int l - 16) of None \<Rightarrow> False
      | Some h \<Rightarrow> (h = 0xFFFF) = (of_len cs l = [])) [0..<16]"

lemma lists_representD:
  assumes "lists_represent sl count cs"
  shows "length count = 16"
    and "\<And>l. 0 < l \<Longrightarrow> l < 16 \<Longrightarrow> unat (count ! l) = length (of_len cs l)"
    and "\<And>l. 0 < l \<Longrightarrow> l < 16 \<Longrightarrow> chain_syms sl (int l - 16) (length (of_len cs l)) = Some (of_len cs l)"
    and "\<And>l. l < 16 \<Longrightarrow> \<exists>h. symbol_list_at sl (int l - 16) = Some h \<and> (h = 0xFFFF \<longleftrightarrow> of_len cs l = [])"
proof -
  show "length count = 16"
    and "\<And>l. 0 < l \<Longrightarrow> l < 16 \<Longrightarrow> unat (count ! l) = length (of_len cs l)"
    and "\<And>l. 0 < l \<Longrightarrow> l < 16 \<Longrightarrow> chain_syms sl (int l - 16) (length (of_len cs l)) = Some (of_len cs l)"
    using assms by (auto simp: lists_represent_def list_all_iff)
  fix l :: nat
  assume "l < 16"
  then have "l \<in> set [0..<16]" by simp
  then have "case symbol_list_at sl (int l - 16) of None \<Rightarrow> False
      | Some h \<Rightarrow> (h = 0xFFFF) = (of_len cs l = [])"
    using assms unfolding lists_represent_def list_all_iff by blast
  then show "\<exists>h. symbol_list_at sl (int l - 16) = Some h \<and> (h = 0xFFFF \<longleftrightarrow> of_len cs l = [])"
    by (auto split: option.splits)
qed

lemma of_len_Nil_iff: "of_len cs l = [] \<longleftrightarrow> (\<forall>c\<in>set cs. fst c \<noteq> l)"
  by (auto simp: of_len_def filter_empty_conv)

lemma map_Pair_of_len: "map (Pair l) (of_len cs l) = filter (\<lambda>c. fst c = l) cs"
  by (induction cs) (auto simp: of_len_def)

lemma filter_len_Suc:
  "sorted (map fst cs) \<Longrightarrow> a \<le> b \<Longrightarrow>
    filter (\<lambda>c. a \<le> fst c \<and> fst c < Suc b) cs =
    filter (\<lambda>c. a \<le> fst c \<and> fst c < b) cs @ filter (\<lambda>c. fst c = b) cs"
proof (induction cs)
  case Nil
  then show ?case by simp
next
  case (Cons c cs)
  show ?case
  proof (cases "fst c < b")
    case True
    with Cons show ?thesis by auto
  next
    case False
    then have "\<forall>d\<in>set cs. \<not> fst d < b" using Cons.prems by (auto simp: not_less)
    then have "filter (\<lambda>c. a \<le> fst c \<and> fst c < b) (c # cs) = []"
      using False by (auto simp: filter_empty_conv)
    moreover have "filter (\<lambda>c. a \<le> fst c \<and> fst c < Suc b) (c # cs) = filter (\<lambda>c. fst c = b) (c # cs)"
      using False Cons.prems \<open>\<forall>d\<in>set cs. \<not> fst d < b\<close> by (intro filter_cong) auto
    ultimately show ?thesis by simp
  qed
qed

lemma filter_len_first:
  assumes "sorted (map fst cs)" "a < b"
  shows "filter (\<lambda>c. a \<le> fst c \<and> fst c < b) cs =
    filter (\<lambda>c. fst c = a) cs @ filter (\<lambda>c. Suc a \<le> fst c \<and> fst c < b) cs"
  using assms(2)
proof (induction b)
  case 0
  then show ?case by simp
next
  case (Suc b)
  show ?case
  proof (cases "a = b")
    case True
    have "filter (\<lambda>c. a \<le> fst c \<and> fst c < Suc a) cs = filter (\<lambda>c. fst c = a) cs"
      by (intro filter_cong) auto
    moreover have "filter (\<lambda>c. Suc a \<le> fst c \<and> fst c < Suc a) cs = []"
      by (auto simp: filter_empty_conv)
    ultimately show ?thesis using True by simp
  next
    case False
    then have "a < b" "Suc a \<le> b" using Suc.prems by auto
    with Suc.IH show ?thesis
      using filter_len_Suc [OF assms(1), of a b] filter_len_Suc [OF assms(1), of "Suc a" b] by simp
  qed
qed

lemma find_max_length_eq:
  assumes "\<And>l. l < n \<Longrightarrow> \<exists>h. symbol_list_at sl (int l - 16) = Some h \<and> (h = 0xFFFF \<longleftrightarrow> of_len cs l = [])"
    and "cs \<noteq> []" "sorted (map fst cs)" "\<forall>c\<in>set cs. fst c < n"
  shows "find_max_length sl n = Some (fst (last cs))"
  using assms
proof (induction n)
  case 0
  then show ?case by (cases cs) auto
next
  case (Suc n)
  obtain h where h: "symbol_list_at sl (int n - 16) = Some h" "h = 0xFFFF \<longleftrightarrow> of_len cs n = []"
    using Suc.prems(1) [of n] by auto
  show ?case
  proof (cases "of_len cs n = []")
    case True
    then have "\<forall>c\<in>set cs. fst c < n" using Suc.prems(4) by (auto simp: of_len_Nil_iff less_Suc_eq)
    then show ?thesis using Suc h True by (simp add: BROTLI_HUFFMAN_MAX_CODE_LENGTH_def)
  next
    case False
    then obtain c where c: "c \<in> set cs" "fst c = n" by (auto simp: of_len_Nil_iff)
    have "last cs \<in> set cs" using Suc.prems(2) by simp
    moreover have "fst c \<le> fst (last cs)"
      using c(1) Suc.prems(2,3) by (induction cs) auto
    ultimately have "fst (last cs) = n" using c(2) Suc.prems(4) by force
    then show ?thesis using h False by (simp add: BROTLI_HUFFMAN_MAX_CODE_LENGTH_def)
  qed
qed

lemma fill_chain_flat:
  assumes "chain_syms sl symbol n = Some ss"
  shows "fill_chain n sl symbol bits key (2 ^ (8 - bits)) (2 ^ bits) (2 ^ T) table =
    fill_flat T (map (Pair bits) ss) key table"
  using assms
proof (induction n arbitrary: symbol ss key table)
  case 0
  then show ?case by simp
next
  case (Suc n)
  then obtain s ss' where s: "symbol_list_at sl symbol = Some s" "chain_syms sl (uint s) n = Some ss'"
      "ss = s # ss'" by (auto split: bind_splits)
  show ?case using Suc.IH [OF s(2)] s by (auto split: bind_splits)
qed

lemma fill_root_flat:
  assumes rep: "lists_represent sl count cs" "sorted (map fst cs)"
    and "0 < bits" "bits \<le> T" "T \<le> 8"
  shows "fill_root count sl T (2 ^ T) bits key (2 ^ (8 - bits)) (2 ^ bits) table =
    fill_flat T (filter (\<lambda>c. bits \<le> fst c \<and> fst c < Suc T) cs) key table"
  using assms(3-5)
proof (induction "T - bits" arbitrary: bits key table)
  case (0 bits)
  then have "bits = T" by simp
  have n: "unat (count ! bits) = length (of_len cs bits)"
    and ch: "chain_syms sl (int bits - 16) (length (of_len cs bits)) = Some (of_len cs bits)"
    using 0 by (intro lists_representD [OF rep(1)]; simp)+
  have "filter (\<lambda>c. bits \<le> fst c \<and> fst c < Suc T) cs = map (Pair bits) (of_len cs bits)"
    unfolding map_Pair_of_len \<open>bits = T\<close> by (intro filter_cong) auto
  then show ?case
    using fill_chain_flat [OF ch, of bits key T table] n \<open>bits = T\<close>
    by (simp add: fill_root.simps [of count] BROTLI_HUFFMAN_MAX_CODE_LENGTH_def split: option.splits)
next
  case (Suc d bits)
  have n: "unat (count ! bits) = length (of_len cs bits)"
    and ch: "chain_syms sl (int bits - 16) (length (of_len cs bits)) = Some (of_len cs bits)"
    using Suc by (intro lists_representD [OF rep(1)]; simp)+
  have "2 ^ (8 - bits) = 2 * (2::nat) ^ (8 - Suc bits)"
    using Suc by (simp add: Suc_diff_Suc flip: power_Suc)
  then have half: "2 ^ (8 - bits) div 2 = (2::nat) ^ (8 - Suc bits)" by simp
  have split: "filter (\<lambda>c. bits \<le> fst c \<and> fst c < Suc T) cs =
      map (Pair bits) (of_len cs bits) @ filter (\<lambda>c. Suc bits \<le> fst c \<and> fst c < Suc T) cs"
    unfolding map_Pair_of_len using Suc.prems by (intro filter_len_first [OF rep(2)]) auto
  have ih: "fill_root count sl T (2 ^ T) (Suc bits) key' (2 ^ (8 - Suc bits)) (2 * 2 ^ bits) table' =
      fill_flat T (filter (\<lambda>c. Suc bits \<le> fst c \<and> fst c < Suc T) cs) key' table'" for key' table'
    using Suc.hyps(1) [of "Suc bits" key' table'] Suc.hyps(2) Suc.prems by simp
  have lt: "bits < T" using Suc by simp
  show ?case
    unfolding split fill_flat_append
    using fill_chain_flat [OF ch, of bits key T table] lt
    by (auto simp: fill_root.simps [of count sl T "2 ^ T" bits] n half ih [simplified] ih
        BROTLI_HUFFMAN_MAX_CODE_LENGTH_def split: option.splits)
qed


section \<open>Second-level tables as a fold\<close>

fun sub_flat :: "(nat \<times> u16) list \<Rightarrow> sub_tables \<Rightarrow> sub_tables option" where
  "sub_flat [] b = Some b"
| "sub_flat ((l, s) # cs) b =
    do {
      b \<leftarrow> (if tb_sub_key b = 256 then open_sub_table 8 1 l b else Some b);
      b \<leftarrow> put_sub_symbol 8 l (2 ^ (l - 8)) (2 ^ (16 - l)) s b;
      sub_flat cs (b\<lparr>tb_count := (tb_count b)[l := tb_count b ! l - 1]\<rparr>) }"

lemma sub_flat_append:
  "sub_flat (xs @ ys) b = do { b \<leftarrow> sub_flat xs b; sub_flat ys b }"
  by (induction xs b rule: sub_flat.induct) (auto split: bind_splits)

lemma open_sub_table_count: "open_sub_table r k l b = Some b' \<Longrightarrow> tb_count b' = tb_count b"
  by (auto simp: open_sub_table_def Let_def split: bind_splits if_splits)

lemma put_sub_symbol_count: "put_sub_symbol r l st k s b = Some b' \<Longrightarrow> tb_count b' = tb_count b"
  by (auto simp: put_sub_symbol_def split: bind_splits)

lemma sub_flat_count:
  "sub_flat cs b = Some b' \<Longrightarrow> \<forall>c\<in>set cs. fst c \<noteq> l \<Longrightarrow> tb_count b' ! l = tb_count b ! l"
proof (induction cs b arbitrary: b' rule: sub_flat.induct)
  case (1 b)
  then show ?case by simp
next
  case (2 l' s cs b)
  let ?o = "if tb_sub_key b = 256 then open_sub_table 8 1 l' b else Some b"
  obtain b1 b2 where b: "?o = Some b1" "put_sub_symbol 8 l' (2 ^ (l' - 8)) (2 ^ (16 - l')) s b1 = Some b2"
      "sub_flat cs (b2\<lparr>tb_count := (tb_count b2)[l' := tb_count b2 ! l' - 1]\<rparr>) = Some b'"
    using "2.prems"(1) by (auto split: bind_splits)
  have "tb_count b2 = tb_count b"
    using put_sub_symbol_count [OF b(2)] b(1) by (auto dest: open_sub_table_count split: if_splits)
  then show ?case using "2.IH" [OF b] "2.prems"(2) by simp
qed

lemma sub_chain_flat:
  assumes "chain_syms sl symbol n = Some ss"
  shows "sub_chain n sl 8 1 len (2 ^ (len - 8)) (2 ^ (16 - len)) symbol b = sub_flat (map (Pair len) ss) b"
  using assms
proof (induction n arbitrary: symbol ss b)
  case 0
  then show ?case by simp
next
  case (Suc n)
  then obtain s ss' where s: "symbol_list_at sl symbol = Some s" "chain_syms sl (uint s) n = Some ss'"
      "ss = s # ss'" by (auto split: bind_splits)
  show ?case using Suc.IH [OF s(2)] s
    by (auto simp: BROTLI_REVERSE_BITS_LOWEST_def split: bind_splits)
qed

lemma sub_lengths_flat:
  assumes rep: "lists_represent sl count cs" "sorted (map fst cs)"
    and "8 < len" "m \<le> 15" "\<And>l. len \<le> l \<Longrightarrow> l \<le> m \<Longrightarrow> tb_count b ! l = count ! l"
  shows "sub_lengths sl 8 1 m len (2 ^ (len - 8)) (2 ^ (16 - len)) b =
    sub_flat (filter (\<lambda>c. len \<le> fst c \<and> fst c < Suc m) cs) b"
  using assms(3-5)
proof (induction "Suc m - len" arbitrary: len b)
  case (0 len)
  then have "m < len" by simp
  then have "filter (\<lambda>c. len \<le> fst c \<and> fst c < Suc m) cs = []" by (auto simp: filter_empty_conv)
  then show ?case using \<open>m < len\<close> by (simp add: sub_lengths.simps [of sl 8 "Suc 0" m])
next
  case (Suc d len)
  then have lt: "len \<le> m" "0 < len" "len < 16" by auto
  have n: "unat (tb_count b ! len) = length (of_len cs len)"
    and ch: "chain_syms sl (int len - 16) (length (of_len cs len)) = Some (of_len cs len)"
    using lt lists_representD [OF rep(1)] Suc.prems(3) [of len] by simp_all
  have "16 - len = Suc (16 - Suc len)" using lt by simp
  then have half: "(2::nat) ^ (16 - len) div 2 = 2 ^ (16 - Suc len)" by simp
  have "Suc len - 8 = Suc (len - 8)" using Suc.prems(1) by simp
  then have dbl: "(2::nat) * 2 ^ (len - 8) = 2 ^ (Suc len - 8)" by simp
  have split: "filter (\<lambda>c. len \<le> fst c \<and> fst c < Suc m) cs =
      map (Pair len) (of_len cs len) @ filter (\<lambda>c. Suc len \<le> fst c \<and> fst c < Suc m) cs"
    unfolding map_Pair_of_len using lt by (intro filter_len_first [OF rep(2)]) auto
  have ih: "sub_lengths sl 8 1 m (Suc len) (2 ^ (Suc len - 8)) (2 ^ (16 - Suc len)) b1 =
      sub_flat (filter (\<lambda>c. Suc len \<le> fst c \<and> fst c < Suc m) cs) b1"
    if "sub_flat (map (Pair len) (of_len cs len)) b = Some b1" for b1
  proof (rule Suc.hyps(1))
    show "d = Suc m - Suc len" using Suc.hyps(2) by simp
    fix l assume "Suc len \<le> l" "l \<le> m"
    then show "tb_count b1 ! l = count ! l"
      using sub_flat_count [OF that, of l] Suc.prems(3) [of l] by auto
  qed (use Suc.prems in auto)
  show ?case
    unfolding split sub_flat_append sub_lengths.simps [of sl 8 1 m len]
    using lt n sub_chain_flat [OF ch, of len b]
    by (simp only: n if_True half dbl Suc_eq_plus1 [symmetric] BROTLI_HUFFMAN_MAX_CODE_LENGTH_def)
      (auto simp: ih [simplified] split: bind_splits)
qed


section \<open>The width of a second-level table\<close>

abbreviation upto_len :: "nat \<Rightarrow> (nat \<times> 'a) list \<Rightarrow> (nat \<times> 'a) list" where
  "upto_len m cs \<equiv> filter (\<lambda>c. fst c \<le> m) cs"

lemma span_filter_len: "span W (filter (\<lambda>c. fst c = l) cs) = length (of_len cs l) * 2 ^ (W - l)"
  by (induction cs) (auto simp: of_len_def)

lemma span_upto_Suc:
  "span W (filter (\<lambda>c. fst c \<le> Suc m) cs) = span W (filter (\<lambda>c. fst c \<le> m) cs) +
    length (of_len cs (Suc m)) * 2 ^ (W - Suc m)"
  by (induction cs) (auto simp: of_len_def le_Suc_eq)

text \<open>
  The width found makes room for every code that goes into the table: the codes of at most
  \<open>8 + width\<close> bits among those left fill a table of 256 sixteen-bit units.
\<close>

lemma next_table_bits_fit:
  assumes "\<And>l. len \<le> l \<Longrightarrow> l < 16 \<Longrightarrow> unat (count ! l) = length (of_len rem l)"
    and "code_ok 15 rem" "256 \<le> span 16 rem" "8 < len" "len \<le> 15"
    and "left * 2 ^ (16 - len) = 256 - int (span 16 (filter (\<lambda>c. fst c < len) rem))"
  shows "len \<le> next_table_bits count len left \<and> next_table_bits count len left \<le> 15 \<and>
    256 \<le> span 16 (upto_len (next_table_bits count len left) rem)"
  using assms(1,4-6)
proof (induction count len left rule: next_table_bits.induct)
  case (1 count len left)
  show ?case
  proof (cases "len < 15")
    case False
    then have len: "len = 15" using "1.prems"(3) by simp
    have "upto_len 15 rem = rem" using assms(2) by (auto simp: code_ok_def filter_id_conv)
    then show ?thesis
      using assms(3) by (simp add: next_table_bits.simps [of count] len BROTLI_HUFFMAN_MAX_CODE_LENGTH_def)
  next
    case True
    let ?left = "left - uint (count ! len)"
    have u: "uint (count ! len) = int (length (of_len rem len))"
      using "1.prems"(1) [of len] True by (simp only: uint_nat) 
    have le: "span 16 (upto_len len rem) =
        span 16 (filter (\<lambda>c. fst c < len) rem) + length (of_len rem len) * 2 ^ (16 - len)"
      by (induction rem) (auto simp: of_len_def le_less)
    have inv: "?left * 2 ^ (16 - len) = 256 - int (span 16 (upto_len len rem))"
      unfolding le u left_diff_distrib "1.prems"(4) by simp
    show ?thesis
    proof (cases "?left \<le> 0")
      case t: True
      then have "?left * 2 ^ (16 - len) \<le> 0" by (simp add: mult_nonpos_nonneg)
      then have "256 \<le> span 16 (upto_len len rem)" unfolding inv by simp
      moreover have "next_table_bits count len left = len"
        using t True by (simp add: next_table_bits.simps [of count] BROTLI_HUFFMAN_MAX_CODE_LENGTH_def)
      ultimately show ?thesis using True by simp
    next
      case f: False
      have "16 - len = Suc (16 - Suc len)" using True by simp
      then have "(2 * ?left) * 2 ^ (16 - Suc len) = ?left * 2 ^ (16 - len)" by simp
      moreover have "filter (\<lambda>c. fst c < Suc len) rem = upto_len len rem" by (simp add: less_Suc_eq_le)
      ultimately have "(2 * ?left) * 2 ^ (16 - (len + 1)) =
          256 - int (span 16 (filter (\<lambda>c. fst c < len + 1) rem))"
        using inv by simp
      moreover have "next_table_bits count len left = next_table_bits count (len + 1) (2 * ?left)"
        using f True by (simp add: next_table_bits.simps [of count len] Let_def BROTLI_HUFFMAN_MAX_CODE_LENGTH_def)
      ultimately show ?thesis
        using "1.IH" [OF _ refl] "1.prems"(1,2) True f
        by (simp add: BROTLI_HUFFMAN_MAX_CODE_LENGTH_def)
    qed
  qed
qed

lemma NextTableBitSize_fit:
  assumes "\<And>l. 8 < l \<Longrightarrow> l < 16 \<Longrightarrow> unat (count ! l) = length (of_len rem l)"
    and "code_ok 15 rem" "256 \<le> span 16 rem" "8 < len" "len \<le> 15" "\<forall>c\<in>set rem. len \<le> fst c"
  shows "len \<le> 8 + NextTableBitSize count len 8 \<and> NextTableBitSize count len 8 \<le> 7 \<and>
    256 \<le> span 16 (upto_len (8 + NextTableBitSize count len 8) rem)"
proof -
  have e: "filter (\<lambda>c. fst c < len) rem = []" using assms(6) by (auto simp: filter_empty_conv)
  have "(2::int) ^ (len - 8) * 2 ^ (16 - len) = 2 ^ 8"
    using assms(4,5) by (simp flip: power_add)
  then have "(2::int) ^ (len - 8) * 2 ^ (16 - len) = 256 - int (span 16 (filter (\<lambda>c. fst c < len) rem))"
    unfolding e by simp
  from next_table_bits_fit [OF _ assms(2-5) this, of count] assms(1,4)
  show ?thesis by (auto simp: NextTableBitSize_def)
qed


section \<open>The invariant of the second-level loop\<close>

text \<open>The room the remaining second-level tables need, and the size of the whole table.\<close>

fun sub_sizes :: "u16 list \<Rightarrow> (nat \<times> u16) list \<Rightarrow> nat \<Rightarrow> nat" where
  "sub_sizes count [] sub_key = 0"
| "sub_sizes count ((l, s) # cs) sub_key =
    (if sub_key = 256
     then 2 ^ NextTableBitSize count l 8 + sub_sizes (count[l := count ! l - 1]) cs (2 ^ (16 - l))
     else sub_sizes (count[l := count ! l - 1]) cs (sub_key + 2 ^ (16 - l)))"

definition huffman_table_size :: "u16 list \<Rightarrow> (nat \<times> u16) list \<Rightarrow> nat" where
  "huffman_table_size count cs = 256 + sub_sizes count (filter (\<lambda>c. 8 < fst c) cs) 256"

text \<open>
  A root entry read as a link: the width and the place of its second-level table. \<open>link_ok\<close>
  says that the table is there and that its entries for the positions below \<open>lim\<close> are
  those of the code.
\<close>

definition link_bits :: "HuffmanCode \<Rightarrow> nat" where
  "link_bits e = unat (hc_bits e) - 8"

definition link_off :: "nat \<Rightarrow> HuffmanCode \<Rightarrow> nat" where
  "link_off j e = j + unat (hc_value e)"

definition link_ok :: "(nat \<times> u16) list \<Rightarrow> nat \<Rightarrow> nat \<Rightarrow> nat \<Rightarrow> HuffmanCode list \<Rightarrow> bool" where
  "link_ok cs y lim bound tab \<longleftrightarrow>
    (let e = tab ! rev_bits 8 y; T = link_bits e; off = link_off (rev_bits 8 y) e in
     8 < unat (hc_bits e) \<and> T \<le> 7 \<and> 256 \<le> off \<and> off + 2 ^ T \<le> bound \<and>
     (\<forall>i<2 ^ T. \<forall>l s. 256 * y + rev_bits 8 i < lim \<longrightarrow>
        canon 16 cs (256 * y + rev_bits 8 i) = Some (l, s) \<longrightarrow>
        tab ! (off + i) = entry (l - 8) s \<and> 8 < l \<and> l \<le> 8 + T))"

definition sub_inv :: "(nat \<times> u16) list \<Rightarrow> nat \<Rightarrow> (nat \<times> u16) list \<Rightarrow> (nat \<times> u16) list \<Rightarrow>
    sub_tables \<Rightarrow> bool" where
  "sub_inv cs N ini rem b \<longleftrightarrow>
    cs = ini @ rem \<and> (\<forall>c\<in>set rem. 8 < fst c) \<and>
    length (tb_root_table b) = N \<and> 256 \<le> N \<and> 256 \<le> tb_total b \<and>
    tb_table b + tb_size b = tb_total b \<and>
    tb_total b + sub_sizes (tb_count b) rem (tb_sub_key b) \<le> N \<and>
    tb_total b \<le> 256 + 128 * tb_key b \<and>
    span 16 ini + 256 = 256 * tb_key b + tb_sub_key b \<and> tb_sub_key b \<le> 256 \<and>
    (rem \<noteq> [] \<longrightarrow> 2 ^ (16 - fst (hd rem)) dvd tb_sub_key b) \<and>
    (length (tb_count b) = 16 \<and> (\<forall>l. 8 < l \<longrightarrow> l < 16 \<longrightarrow> unat (tb_count b ! l) = length (of_len rem l))) \<and>
    (tb_sub_key b < 256 \<longrightarrow> tb_size b = 2 ^ tb_bits b \<and> tb_bits b \<le> 7 \<and> 256 \<le> tb_table b \<and>
       0 < tb_key b \<and> span 16 (upto_len 8 cs) \<le> 256 * (tb_key b - 1) \<and>
       link_bits (tb_root_table b ! rev_bits 8 (tb_key b - 1)) = tb_bits b \<and>
       link_off (rev_bits 8 (tb_key b - 1)) (tb_root_table b ! rev_bits 8 (tb_key b - 1)) = tb_table b \<and>
       256 \<le> tb_sub_key b + span 16 (upto_len (8 + tb_bits b) rem)) \<and>
    (\<forall>y<tb_key b. span 16 (upto_len 8 cs) \<le> 256 * y \<longrightarrow>
       link_ok cs y (span 16 ini)
         (if tb_sub_key b < 256 \<and> Suc y < tb_key b then tb_table b else tb_total b) (tb_root_table b)) \<and>
    (\<forall>j<256. \<forall>l s. canon 16 cs (256 * rev_bits 8 j) = Some (l, s) \<longrightarrow> l \<le> 8 \<longrightarrow>
       tb_root_table b ! j = entry l s)"

lemma rev_bits_8_eq: "y < 256 \<Longrightarrow> y' < 256 \<Longrightarrow> rev_bits 8 y = rev_bits 8 y' \<longleftrightarrow> y = y'"
  using rev_bits_inj [of 8 y y'] by simp

lemma rev_bits_8_less [simp]: "rev_bits 8 y < 256"
  using rev_bits_bound [of 8 y] by simp

text \<open>A position at or past the short codes has a long code.\<close>

lemma upto_len_prefix:
  "sorted (map fst cs) \<Longrightarrow> cs = upto_len m cs @ filter (\<lambda>c. m < fst c) cs"
proof (induction cs)
  case Nil
  then show ?case by simp
next
  case (Cons c cs)
  show ?case
  proof (cases "fst c \<le> m")
    case True
    with Cons show ?thesis by auto
  next
    case False
    then have "\<forall>d\<in>set cs. \<not> fst d \<le> m" using Cons.prems by auto
    then show ?thesis using False by (auto simp: filter_empty_conv filter_id_conv not_le)
  qed
qed

lemma canon_long:
  assumes "code_ok 15 cs" "span 16 (upto_len 8 cs) \<le> x" "canon 16 cs x = Some (l, s)"
  shows "8 < l"
proof -
  have "cs = upto_len 8 cs @ filter (\<lambda>c. 8 < fst c) cs"
    using assms(1) by (intro upto_len_prefix) (simp add: code_ok_def)
  then have "canon 16 cs x = canon 16 (filter (\<lambda>c. 8 < fst c) cs) (x - span 16 (upto_len 8 cs))"
    using canon_append [of 16 "upto_len 8 cs" "filter (\<lambda>c. 8 < fst c) cs" x] assms(2) by simp
  then have "(l, s) \<in> set (filter (\<lambda>c. 8 < fst c) cs)" using assms(3) canon_mem by metis
  then show ?thesis by simp
qed

lemma link_ok_update:
  assumes "link_ok cs y lim bound tab" "tab' ! rev_bits 8 y = tab ! rev_bits 8 y" "bound \<le> bound'"
    and "\<And>k. 256 \<le> k \<Longrightarrow> k < bound \<Longrightarrow> tab' ! k = tab ! k"
  shows "link_ok cs y lim bound' tab'"
  using assms by (auto simp: link_ok_def Let_def)

lemma sub_inv_short:
  assumes "cs = ini @ rem" "\<forall>c\<in>set rem. 8 < fst c"
  shows "span 16 (upto_len 8 cs) \<le> span 16 ini"
proof -
  have "upto_len 8 rem = []" using assms(2) by (auto simp: filter_empty_conv)
  moreover have "span 16 (upto_len 8 ini) \<le> span 16 ini"
    by (induction ini) auto
  ultimately show ?thesis by (simp add: assms(1))
qed

lemma unat_link:
  assumes "j < 256" "256 \<le> table" "table < 65536"
  shows "unat (word_of_int (int table - int j) :: u16) = table - j"
proof -
  have "int table - int j = int (table - j)" using assms by simp
  then have "(word_of_int (int table - int j) :: u16) = word_of_nat (table - j)"
    by (simp only: of_int_of_nat_eq)
  moreover have "unat (word_of_nat (table - j) :: u16) = table - j"
    using assms by (intro unat_word_of_nat_small) simp
  ultimately show ?thesis by (simp only:)
qed

lemma sub_inv_open:
  assumes ok: "code_ok 15 cs" "span 16 cs = 2 ^ 16"
    and inv: "sub_inv cs N ini ((l, s) # rem) b" and full: "tb_sub_key b = 256"
  obtains b' where "open_sub_table 8 1 l b = Some b'" "sub_inv cs N ini ((l, s) # rem) b'"
    "tb_sub_key b' = 0"
proof -
  define K tab where "K = tb_key b" and "tab = tb_root_table b"
  let ?rem = "(l, s) # rem"
  note I = inv [unfolded sub_inv_def full, folded K_def tab_def]
  have cs: "cs = ini @ ?rem" and long: "\<forall>c\<in>set ?rem. 8 < fst c" using I by blast+
  have N: "length tab = N" "256 \<le> N" "256 \<le> tb_total b" "tb_table b + tb_size b = tb_total b"
    "tb_total b + sub_sizes (tb_count b) ?rem 256 \<le> N" "tb_total b \<le> 256 + 128 * K"
    using I by blast+
  have count: "length (tb_count b) = 16"
    "\<And>l'. 8 < l' \<Longrightarrow> l' < 16 \<Longrightarrow> unat (tb_count b ! l') = length (of_len ?rem l')" using I by blast+
  have sp: "span 16 ini = 256 * K" using I by auto
  have old_links: "\<And>y. y < K \<Longrightarrow> span 16 (upto_len 8 cs) \<le> 256 * y \<Longrightarrow>
      link_ok cs y (span 16 ini) (tb_total b) tab" using I by auto
  have old_short: "\<And>j l s. j < 256 \<Longrightarrow> canon 16 cs (256 * rev_bits 8 j) = Some (l, s) \<Longrightarrow> l \<le> 8 \<Longrightarrow>
      tab ! j = entry l s" using I by blast
  have ok_rem: "code_ok 15 ?rem" using ok(1) by (simp add: cs code_ok_append)
  then have l: "8 < l" "l \<le> 15" using long by (auto simp: code_ok_Cons)
  have tot: "256 * K + span 16 ?rem = 65536" using ok(2) sp by (simp add: cs)
  have "0 < span 16 ?rem" by simp
  then have K: "K < 256" using tot by linarith
  then have sp_rem: "256 \<le> span 16 ?rem" using tot by linarith
  define T where "T = NextTableBitSize (tb_count b) l 8"
  have "\<forall>c\<in>set ?rem. l \<le> fst c" using ok_rem by (auto simp: code_ok_Cons)
  from NextTableBitSize_fit [OF count(2) ok_rem sp_rem l this]
  have T: "l \<le> 8 + T" "T \<le> 7" "256 \<le> span 16 (upto_len (8 + T) ?rem)" by (auto simp: T_def)
  define j0 where "j0 = rev_bits 8 K"
  have j0: "j0 < 256" "rev_bits 8 j0 = K" using K by (simp_all add: j0_def)
  define e where "e = ConstructHuffmanCode (word_of_nat (T + 8)) (word_of_int (int (tb_total b) - int j0))"
  define b' where "b' = b\<lparr>tb_table := tb_total b, tb_bits := T, tb_size := 2 ^ T,
    tb_total := tb_total b + 2 ^ T, tb_key := K + 1, tb_sub_key := 0, tb_root_table := tab[j0 := e]\<rparr>"
  have op: "open_sub_table 8 1 l b = Some b'"
    using K N(1,2,4) rev_bits_8_less [of K]
    by (simp del: rev_bits_8_less add: open_sub_table_def BrotliReverseBits_eq b'_def e_def T_def j0_def tab_def K_def Let_def)
  have lt: "tb_total b < 65536" using N(6) K by simp
  have e: "unat (hc_bits e) = T + 8" "unat (hc_value e) = tb_total b - j0"
    unfolding e_def ConstructHuffmanCode_def HuffmanCode.simps
    using T(2) by (intro unat_word_of_nat_small unat_link [OF j0(1) N(3) lt]; simp)+
  have tj0: "tab[j0 := e] ! j0 = e" using N(1,2) j0(1) by simp
  have tj: "j \<noteq> j0 \<Longrightarrow> tab[j0 := e] ! j = tab ! j" for j by simp
  have short: "span 16 (upto_len 8 cs) \<le> 256 * K" using sub_inv_short [OF cs long] sp by simp
  have cK: "canon 16 cs (256 * K) = Some (l, s)"
    unfolding cs by (rule canon_at) (simp_all add: sp)
  have linksK: "link_ok cs K (span 16 ini) (tb_total b + 2 ^ T) (tab[j0 := e])"
    using T(1,2) l(1) N(3) j0(1)
    by (simp add: link_ok_def j0_def [symmetric] tj0 link_bits_def link_off_def e sp Let_def)
  have links: "link_ok cs y (span 16 ini) (tb_total b) (tab[j0 := e])"
    if y: "y < K" "span 16 (upto_len 8 cs) \<le> 256 * y" for y
  proof (rule link_ok_update [OF old_links [OF y]])
    have "rev_bits 8 y \<noteq> j0" using y(1) K rev_bits_8_eq [of y K] by (simp add: j0_def)
    then show "tab[j0 := e] ! rev_bits 8 y = tab ! rev_bits 8 y" by (rule tj)
    show "tab[j0 := e] ! k = tab ! k" if "256 \<le> k" for k using that j0(1) by (intro tj) simp
  qed simp
  have shorts: "tab[j0 := e] ! j = entry l' s'"
    if j: "j < 256" "canon 16 cs (256 * rev_bits 8 j) = Some (l', s')" "l' \<le> 8" for j l' s'
  proof -
    have "j \<noteq> j0" using j cK l(1) j0(2) by auto
    then show ?thesis using old_short [OF j] by simp
  qed
  have sizes: "tb_total b + 2 ^ T + sub_sizes (tb_count b) ?rem 0 \<le> N"
    using N(5) by (simp add: T_def Let_def add.assoc)
  have "sub_inv cs N ini ?rem b'"
    unfolding sub_inv_def
  proof (intro conjI impI allI)
    show "cs = ini @ ?rem" "\<forall>c\<in>set ?rem. 8 < fst c" by (rule cs, rule long)
    fix y
    assume y: "y < tb_key b'" "span 16 (upto_len 8 cs) \<le> 256 * y"
    show "link_ok cs y (span 16 ini)
        (if tb_sub_key b' < 256 \<and> Suc y < tb_key b' then tb_table b' else tb_total b') (tb_root_table b')"
      using y links [of y] linksK by (cases "y = K") (simp_all add: b'_def)
  next
    fix j l' s' assume "j < 256" "canon 16 cs (256 * rev_bits 8 j) = Some (l', s')" "l' \<le> 8"
    then show "tb_root_table b' ! j = entry l' s'" using shorts by (simp add: b'_def)
  next
    have "(2::nat) ^ T \<le> 2 ^ 7" using T(2) by (intro power_increasing) auto
    then show "tb_total b' \<le> 256 + 128 * tb_key b'" using N(6) by (simp add: b'_def)
  qed (use N T j0 tj0 short sp sizes count e in
      \<open>simp_all add: b'_def link_bits_def link_off_def j0_def [symmetric]\<close>)
  then show thesis by (rule that [OF op]) (simp add: b'_def)
qed

lemma link_ok_lim:
  assumes "link_ok cs y lim bound tab" "256 * Suc y \<le> lim"
  shows "link_ok cs y lim' bound tab"
proof -
  have "256 * y + rev_bits 8 i < lim" for i using assms(2) rev_bits_8_less [of i] unfolding mult_Suc_right by linarith
  then show ?thesis using assms(1) by (auto simp: link_ok_def Let_def)
qed

lemma dvd_step:
  fixes a b d :: nat
  assumes "d dvd a" "d dvd b" "a < b"
  shows "a + d \<le> b"
proof -
  have "d dvd b - a" using assms by simp
  then have "d \<le> b - a" using assms(3) by (intro dvd_imp_le) auto
  then show ?thesis using assms(3) by simp
qed

lemma sub_inv_put:
  assumes ok: "code_ok 15 cs" "span 16 cs = 2 ^ 16"
    and inv: "sub_inv cs N ini ((l, s) # rem) b" and part: "tb_sub_key b < 256"
  obtains b' where "put_sub_symbol 8 l (2 ^ (l - 8)) (2 ^ (16 - l)) s b = Some b'"
    "sub_inv cs N (ini @ [(l, s)]) rem (b'\<lparr>tb_count := (tb_count b')[l := tb_count b' ! l - 1]\<rparr>)"
proof -
  define K tab sk T where "K = tb_key b" and "tab = tb_root_table b" and "sk = tb_sub_key b" and "T = tb_bits b"
  define d :: nat where "d = 2 ^ (16 - l)"
  let ?rem = "(l, s) # rem"
  note I = inv [unfolded sub_inv_def, folded K_def tab_def sk_def T_def]
  have cs: "cs = ini @ ?rem" and long: "\<forall>c\<in>set ?rem. 8 < fst c" using I by blast+
  have sk: "sk < 256" using part by (simp add: sk_def)
  have N: "length tab = N" "256 \<le> N" "256 \<le> tb_total b" "tb_table b + tb_size b = tb_total b"
    "tb_total b + sub_sizes (tb_count b) ?rem sk \<le> N" "tb_total b \<le> 256 + 128 * K"
    using I by blast+
  have count: "length (tb_count b) = 16"
    "\<And>l'. 8 < l' \<Longrightarrow> l' < 16 \<Longrightarrow> unat (tb_count b ! l') = length (of_len ?rem l')" using I by blast+
  have sp: "span 16 ini + 256 = 256 * K + sk" using I by blast
  have dv: "d dvd sk" using I by (simp add: d_def)
  have open': "tb_size b = 2 ^ T" "T \<le> 7" "256 \<le> tb_table b" "0 < K"
    "span 16 (upto_len 8 cs) \<le> 256 * (K - 1)"
    "link_bits (tab ! rev_bits 8 (K - 1)) = T"
    "link_off (rev_bits 8 (K - 1)) (tab ! rev_bits 8 (K - 1)) = tb_table b"
    "256 \<le> sk + span 16 (upto_len (8 + T) ?rem)" using I sk by blast+
  have "\<forall>y<K. span 16 (upto_len 8 cs) \<le> 256 * y \<longrightarrow>
      link_ok cs y (span 16 ini) (if sk < 256 \<and> Suc y < K then tb_table b else tb_total b) tab"
    using I by blast
  then have old_links: "link_ok cs y (span 16 ini) (if Suc y < K then tb_table b else tb_total b) tab"
    if "y < K" "span 16 (upto_len 8 cs) \<le> 256 * y" for y
    using sk that by simp
  have old_short: "\<And>j l s. j < 256 \<Longrightarrow> canon 16 cs (256 * rev_bits 8 j) = Some (l, s) \<Longrightarrow> l \<le> 8 \<Longrightarrow>
      tab ! j = entry l s" using I by blast
  have ok_rem: "code_ok 15 ?rem" using ok(1) by (simp add: cs code_ok_append)
  then have l: "8 < l" "l \<le> 15" and ge: "\<forall>c\<in>set rem. l \<le> fst c" using long by (auto simp: code_ok_Cons)
  have lT: "l \<le> 8 + T"
  proof (rule ccontr)
    assume "\<not> l \<le> 8 + T"
    then have "upto_len (8 + T) ?rem = []" using ge by (force simp: filter_empty_conv)
    then show False using open'(8) sk by simp
  qed
  define y0 where "y0 = K - 1"
  note lk = open'(6,7) [folded y0_def]
  have K: "K = Suc y0" using open'(4) by (simp add: y0_def)
  have sp': "span 16 ini = 256 * y0 + sk" using sp K by simp
  have d256: "sk + d \<le> 256"
  proof (rule dvd_step [OF dv _ sk])
    have "(256::nat) = 2 ^ (16 - l) * 2 ^ (l - 8)" using l by (simp flip: power_add)
    then show "d dvd 256" unfolding d_def by (rule dvdI)
  qed
  have eight: "8 - (l - 8) = 16 - l" using l by simp
  obtain tab' where tab': "ReplicateValue tab (tb_table b + rev_bits 8 sk) (2 ^ (l - 8)) (2 ^ T) (entry (l - 8) s) = Some tab'"
      "length tab' = length tab"
      "\<And>j. j < length tab \<Longrightarrow> \<not> (tb_table b \<le> j \<and> j < tb_table b + 2 ^ T) \<Longrightarrow> tab' ! j = tab ! j"
      "\<And>i. i < 2 ^ T \<Longrightarrow> tab' ! (tb_table b + i) =
        (if sk \<le> rev_bits 8 i \<and> rev_bits 8 i < sk + d then entry (l - 8) s else tab ! (tb_table b + i))"
  proof (rule replicate_code [of "l - 8" T sk "tb_table b" tab "entry (l - 8) s", unfolded eight, folded d_def])
    show "l - 8 \<le> T" "T \<le> 8" "d dvd sk" "sk < 256" using lT open'(2) dv sk by auto
    show "tb_table b + 2 ^ T \<le> length tab" using N(1,4,5) open'(1) by simp
  qed blast
  define b' where "b' = b\<lparr>tb_root_table := tab', tb_sub_key := sk + d\<rparr>"
  have put: "put_sub_symbol 8 l (2 ^ (l - 8)) (2 ^ (16 - l)) s b = Some b'"
    using tab'(1) sk open'(1)
    by (simp add: put_sub_symbol_def BrotliReverseBits_eq b'_def d_def flip: sk_def tab_def)
  have low: "tab' ! j = tab ! j" if "j < 256" for j
    using that open'(3) N(1,2) by (intro tab'(3)) auto
  have lim: "span 16 (ini @ [(l, s)]) = 256 * y0 + sk + d" by (simp add: sp' d_def)
  have links0: "link_ok cs y0 (span 16 (ini @ [(l, s)])) (tb_total b) tab'"
  proof -
    have "link_ok cs y0 (span 16 ini) (tb_total b) tab"
      using old_links [of y0] open'(5) by (simp add: K)
    moreover have "tab' ! (tb_table b + i) = entry (l' - 8) s' \<and> 8 < l' \<and> l' \<le> 8 + T"
      if i: "i < 2 ^ T" "256 * y0 + rev_bits 8 i < span 16 (ini @ [(l, s)])"
        "canon 16 cs (256 * y0 + rev_bits 8 i) = Some (l', s')" for i l' s'
    proof (cases "rev_bits 8 i < sk")
      case True
      then have "tab ! (tb_table b + i) = entry (l' - 8) s' \<and> 8 < l' \<and> l' \<le> 8 + T"
        using calculation i by (simp add: link_ok_def Let_def sp' lk)
      then show ?thesis using tab'(4) [OF i(1)] True by simp
    next
      case False
      have "canon 16 cs (256 * y0 + rev_bits 8 i) = Some (l, s)"
        unfolding cs by (rule canon_at) (use False i(2) lim in \<open>auto simp: sp' d_def\<close>)
      then have "l' = l" "s' = s" using i(3) by auto
      then show ?thesis using tab'(4) [OF i(1)] False i(2) lim l(1) lT by simp
    qed
    ultimately show ?thesis
      using low [of "rev_bits 8 y0"] by (simp add: link_ok_def Let_def lk)
  qed
  have links: "link_ok cs y (span 16 (ini @ [(l, s)])) (tb_table b) tab'"
    if y: "y < y0" "span 16 (upto_len 8 cs) \<le> 256 * y" for y
  proof -
    have "link_ok cs y (span 16 ini) (tb_table b) tab" using old_links [of y] y by (simp add: K)
    then have "link_ok cs y (span 16 (ini @ [(l, s)])) (tb_table b) tab"
      by (rule link_ok_lim) (use y(1) sp' in simp)
    then show ?thesis
    proof (rule link_ok_update)
      fix k assume "256 \<le> k" "k < tb_table b"
      then show "tab' ! k = tab ! k" using N(1,4,5) by (intro tab'(3)) auto
    qed (simp_all add: low)
  qed
  have cnt: "unat ((tb_count b)[l := tb_count b ! l - 1] ! l') = length (of_len rem l')"
    if l': "8 < l'" "l' < 16" for l'
  proof (cases "l' = l")
    case True
    have c: "unat (tb_count b ! l) = Suc (length (of_len rem l))"
      using count(2) [of l] l by (simp add: of_len_def)
    then have "unat (tb_count b ! l - 1) = length (of_len rem l)"
      by (subst unat_sub) (auto simp: word_le_nat_alt)
    then show ?thesis using True count(1) l by simp
  next
    case False
    then show ?thesis using count(2) [OF l'] by (simp add: of_len_def)
  qed
  have dv': "2 ^ (16 - fst (hd rem)) dvd sk + d" if "rem \<noteq> []"
  proof -
    have "l \<le> fst (hd rem)" using ge that by simp
    then have "(2::nat) ^ (16 - fst (hd rem)) dvd d" unfolding d_def by (intro le_imp_power_dvd) simp
    then show ?thesis using dv by (meson dvd_add dvd_trans dvd_refl)
  qed
  have sizes: "tb_total b + sub_sizes ((tb_count b)[l := tb_count b ! l - 1]) rem (sk + d) \<le> N"
    using N(5) sk by (simp add: d_def Let_def)
  have fit: "256 \<le> sk + d + span 16 (upto_len (8 + T) rem)"
    using open'(8) lT by (simp add: d_def add.assoc)
  have "sub_inv cs N (ini @ [(l, s)]) rem (b'\<lparr>tb_count := (tb_count b')[l := tb_count b' ! l - 1]\<rparr>)"
    (is "sub_inv _ _ _ _ ?b")
    unfolding sub_inv_def
  proof (intro conjI impI allI)
    show "cs = (ini @ [(l, s)]) @ rem" by (simp add: cs)
    show "\<forall>c\<in>set rem. 8 < fst c" using long by simp
    show "span 16 (ini @ [(l, s)]) + 256 = 256 * tb_key ?b + tb_sub_key ?b"
      using lim K by (simp add: b'_def flip: K_def)
    fix y
    assume y: "y < tb_key ?b" "span 16 (upto_len 8 cs) \<le> 256 * y"
    have up: "tb_table b \<le> tb_total b" using N(4) by simp
    show "link_ok cs y (span 16 (ini @ [(l, s)]))
        (if tb_sub_key ?b < 256 \<and> Suc y < tb_key ?b then tb_table ?b else tb_total ?b) (tb_root_table ?b)"
    proof (cases "y = y0")
      case True
      then show ?thesis using links0 K by (simp add: b'_def flip: K_def)
    next
      case False
      then have "y < y0" using y(1) K by (simp add: b'_def flip: K_def)
      from links [OF this y(2)] have "link_ok cs y (span 16 (ini @ [(l, s)])) (tb_total b) tab'"
        by (rule link_ok_update) (use up in auto)
      then show ?thesis using links [OF \<open>y < y0\<close> y(2)] by (simp add: b'_def)
    qed
  next
    fix j l' s' assume j: "j < 256" "canon 16 cs (256 * rev_bits 8 j) = Some (l', s')" "l' \<le> 8"
    then show "tb_root_table ?b ! j = entry l' s'" using old_short [OF j] low by (simp add: b'_def)
  next
    fix l' :: nat assume "8 < l'" "l' < 16"
    then show "unat (tb_count ?b ! l') = length (of_len rem l')" using cnt by (simp add: b'_def)
  qed (use N open' sizes fit dv' d256 low [of "rev_bits 8 y0"] count tab'(2) K in
      \<open>simp_all add: b'_def flip: K_def T_def sk_def\<close>)
  with put show thesis by (rule that)
qed

lemma sub_flat_inv:
  assumes ok: "code_ok 15 cs" "span 16 cs = 2 ^ 16"
    and inv: "sub_inv cs N ini rem b"
  shows "\<exists>b'. sub_flat rem b = Some b' \<and> sub_inv cs N cs [] b'"
  using inv
proof (induction rem arbitrary: ini b)
  case Nil
  moreover have "ini = cs" using Nil by (simp add: sub_inv_def)
  ultimately show ?case by auto
next
  case (Cons c rem)
  obtain l s where c: "c = (l, s)" by (cases c)
  have "\<exists>b1. (if tb_sub_key b = 256 then open_sub_table 8 1 l b else Some b) = Some b1 \<and>
      sub_inv cs N ini ((l, s) # rem) b1 \<and> tb_sub_key b1 < 256"
  proof (cases "tb_sub_key b = 256")
    case True
    then show ?thesis using sub_inv_open [OF ok Cons.prems [unfolded c] True] by (metis zero_less_numeral)
  next
    case False
    then have "tb_sub_key b < 256" using Cons.prems by (simp add: sub_inv_def)
    with False show ?thesis using Cons.prems by (simp add: c)
  qed
  then obtain b1 where b1: "(if tb_sub_key b = 256 then open_sub_table 8 1 l b else Some b) = Some b1"
      "sub_inv cs N ini ((l, s) # rem) b1" "tb_sub_key b1 < 256" by blast
  obtain b2 where b2: "put_sub_symbol 8 l (2 ^ (l - 8)) (2 ^ (16 - l)) s b1 = Some b2"
      "sub_inv cs N (ini @ [(l, s)]) rem (b2\<lparr>tb_count := (tb_count b2)[l := tb_count b2 ! l - 1]\<rparr>)"
    using sub_inv_put [OF ok b1(2,3)] .
  show ?case using Cons.IH [OF b2(2)] b1(1) b2(1) by (simp add: c)
qed


section \<open>The two-level table\<close>

text \<open>The lookup that every symbol reader of the decoder makes, on the next bits of the stream.\<close>

definition table_lookup :: "HuffmanCode list \<Rightarrow> nat \<Rightarrow> nat \<times> u16" where
  "table_lookup tab bits =
    (let j = bits mod 256; e = tab ! j in
     if 8 < unat (hc_bits e) then
       let e2 = tab ! (link_off j e + (bits div 256) mod 2 ^ link_bits e) in
       (8 + unat (hc_bits e2), hc_value e2)
     else (unat (hc_bits e), hc_value e))"

lemma entry_simps:
  "l < 256 \<Longrightarrow> unat (hc_bits (entry l s)) = l" "hc_value (entry l s) = s"
  by (simp_all add: ConstructHuffmanCode_def unat_of_nat)

lemma rev_bits_16: "rev_bits 16 v = 256 * rev_bits 8 v + rev_bits 8 (v div 256)"
  using rev_bits_append [of 8 8 v] by simp

lemma canon_short:
  assumes "code_ok 15 cs" "\<not> span 16 (upto_len 8 cs) \<le> x" "canon 16 cs x = Some (l, s)"
  shows "l \<le> 8"
proof -
  have "cs = upto_len 8 cs @ filter (\<lambda>c. 8 < fst c) cs"
    using assms(1) by (intro upto_len_prefix) (simp add: code_ok_def)
  then have "canon 16 cs x = canon 16 (upto_len 8 cs) x"
    using canon_append [of 16 "upto_len 8 cs" "filter (\<lambda>c. 8 < fst c) cs" x] assms(2) by simp
  then have "(l, s) \<in> set (upto_len 8 cs)" using assms(3) by (intro canon_mem [of 16 _ x]) simp
  then show ?thesis by simp
qed

text \<open>
  What a table for a code is: lookups of any 16 bits give the code they start with, every
  link stays inside the memory of the table, and only codes of more than 8 bits are reached
  through a link.
\<close>

definition table_ok :: "(nat \<times> u16) list \<Rightarrow> HuffmanCode list \<Rightarrow> bool" where
  "table_ok cs tab \<longleftrightarrow>
    256 \<le> length tab \<and>
    (\<forall>j<256. 8 < unat (hc_bits (tab ! j)) \<longrightarrow>
       link_bits (tab ! j) \<le> 7 \<and> link_off j (tab ! j) + 2 ^ link_bits (tab ! j) \<le> length tab) \<and>
    (\<forall>v. canon 16 cs (rev_bits 16 v) = Some (table_lookup tab v)) \<and>
    (\<forall>c\<in>set cs. fst c \<le> 15) \<and>
    (\<forall>v. 8 < unat (hc_bits (tab ! (v mod 256))) \<longrightarrow> 8 < fst (table_lookup tab v))"

text \<open>Only the part of the memory that the table occupies matters.\<close>

lemma table_ok_take:
  assumes "256 \<le> n" "n \<le> length tab" "\<And>v. canon 16 cs (rev_bits 16 v) = Some (table_lookup tab v)"
    and "\<And>j. j < 256 \<Longrightarrow> 8 < unat (hc_bits (tab ! j)) \<Longrightarrow>
      link_bits (tab ! j) \<le> 7 \<and> link_off j (tab ! j) + 2 ^ link_bits (tab ! j) \<le> n"
    and "\<forall>c\<in>set cs. fst c \<le> 15"
    and "\<And>v. 8 < unat (hc_bits (tab ! (v mod 256))) \<Longrightarrow> 8 < fst (table_lookup tab v)"
  shows "table_ok cs (take n tab)"
proof -
  have "table_lookup (take n tab) v = table_lookup tab v" for v
  proof -
    define j e where "j = v mod 256" and "e = tab ! j"
    have j: "j < 256" "j < n" using assms(1) by (auto simp: j_def intro: order.strict_trans2)
    have "link_off j e + (v div 256) mod 2 ^ link_bits e < n" if "8 < unat (hc_bits e)"
    proof -
      have "link_off j e + 2 ^ link_bits e \<le> n" using assms(4) [OF j(1)] that by (simp add: e_def)
      then show ?thesis by (rule order.strict_trans2 [rotated]) simp
    qed
    then show ?thesis using j by (simp add: table_lookup_def Let_def flip: j_def e_def)
  qed
  moreover have "v mod 256 < n" for v using assms(1) by (rule order.strict_trans2 [rotated]) simp
  ultimately show ?thesis using assms by (simp add: table_ok_def)
qed

lemma sub_inv_links:
  assumes ok: "code_ok 15 cs" "span 16 cs = 2 ^ 16" and inv: "sub_inv cs N cs [] b"
    and j: "j < 256" "8 < unat (hc_bits (tb_root_table b ! j))"
  shows "link_bits (tb_root_table b ! j) \<le> 7 \<and>
    link_off j (tb_root_table b ! j) + 2 ^ link_bits (tb_root_table b ! j) \<le> tb_total b"
proof -
  define tab y where "tab = tb_root_table b" and "y = rev_bits 8 j"
  note I = inv [unfolded sub_inv_def, folded tab_def]
  have yj: "rev_bits 8 y = j" "y < 256" using j(1) by (simp_all add: y_def)
  have closed: "\<not> tb_sub_key b < 256" using I by auto
  have key: "tb_key b = 256" using I closed ok(2) by auto
  have "256 * y < 2 ^ 16" using yj by simp
  then obtain l s where c: "canon 16 cs (256 * y) = Some (l, s)"
    using canon_None [of 16 cs "256 * y"] ok(2) by (cases "canon 16 cs (256 * y)") auto
  have "span 16 (upto_len 8 cs) \<le> 256 * y"
  proof (rule ccontr)
    assume "\<not> ?thesis"
    then have "l \<le> 8" using c by (rule canon_short [OF ok(1)])
    moreover have "\<And>j l s. j < 256 \<Longrightarrow> canon 16 cs (256 * rev_bits 8 j) = Some (l, s) \<Longrightarrow> l \<le> 8 \<Longrightarrow>
      tab ! j = entry l s" using I by blast
    ultimately have "tab ! j = entry l s" using j(1) c by (simp add: y_def)
    then show False using j(2) \<open>l \<le> 8\<close> by (simp add: entry_simps flip: tab_def)
  qed
  moreover have "\<forall>y<tb_key b. span 16 (upto_len 8 cs) \<le> 256 * y \<longrightarrow> link_ok cs y (span 16 cs)
      (if tb_sub_key b < 256 \<and> Suc y < tb_key b then tb_table b else tb_total b) tab"
    using I by blast
  ultimately have "link_ok cs y (2 ^ 16) (tb_total b) tab" using closed key ok(2) yj by simp
  then show ?thesis by (auto simp: link_ok_def Let_def yj simp flip: tab_def)
qed

lemma sub_inv_final:
  assumes ok: "code_ok 15 cs" "span 16 cs = 2 ^ 16" and inv: "sub_inv cs N cs [] b"
  shows "canon 16 cs (rev_bits 16 v) = Some (table_lookup (tb_root_table b) v)"
proof -
  define tab j y where "tab = tb_root_table b" and "j = v mod 256" and "y = rev_bits 8 v"
  note I = inv [unfolded sub_inv_def, folded tab_def]
  have short: "\<And>j l s. j < 256 \<Longrightarrow> canon 16 cs (256 * rev_bits 8 j) = Some (l, s) \<Longrightarrow> l \<le> 8 \<Longrightarrow>
      tab ! j = entry l s" using I by blast
  have closed: "\<not> tb_sub_key b < 256" using I by auto
  have key: "tb_key b = 256" using I closed ok(2) by auto
  have links: "link_ok cs y (2 ^ 16) (tb_total b) tab" if "span 16 (upto_len 8 cs) \<le> 256 * y"
  proof -
    have "\<forall>y<tb_key b. span 16 (upto_len 8 cs) \<le> 256 * y \<longrightarrow> link_ok cs y (span 16 cs)
        (if tb_sub_key b < 256 \<and> Suc y < tb_key b then tb_table b else tb_total b) tab"
      using I by blast
    then show ?thesis using that closed key ok(2) by (simp add: y_def)
  qed
  have yj: "rev_bits 8 j = y" and jy: "rev_bits 8 y = j" "j < 256" "y < 256"
    using rev_bits_mod [of 8 v] by (simp_all add: j_def y_def)
  have ok16: "code_ok 16 cs" using ok(1) by (rule code_ok_mono) simp
  have total: "\<exists>l s. canon 16 cs x = Some (l, s)" if "x < 2 ^ 16" for x
    using canon_None [of 16 cs x] that ok(2) by (cases "canon 16 cs x") auto
  show ?thesis
  proof (cases "span 16 (upto_len 8 cs) \<le> 256 * y")
    case False
    obtain l s where c: "canon 16 cs (256 * y) = Some (l, s)" using total [of "256 * y"] jy by auto
    have l: "l \<le> 8" using False c by (rule canon_short [OF ok(1)])
    have "canon 16 cs (rev_bits 16 v) = Some (l, s)"
    proof (rule canon_block [OF ok16 c l])
      have "(256 * y + rev_bits 8 (v div 256)) div 256 = y" by simp
      then show "rev_bits 16 v div 2 ^ (16 - 8) = 256 * y div 2 ^ (16 - 8)"
        by (simp add: rev_bits_16 flip: y_def)
    qed simp
    moreover have "tab ! j = entry l s" using short [OF jy(2)] c l by (simp add: yj)
    ultimately show ?thesis
      using l by (simp add: table_lookup_def Let_def entry_simps flip: tab_def j_def)
  next
    case True
    define T off e where "T = link_bits (tab ! j)" and "off = link_off j (tab ! j)" and "e = tab ! j"
    define i where "i = (v div 256) mod 2 ^ T"
    have lk: "8 < unat (hc_bits e)" "T \<le> 7"
      "\<And>i l s. i < 2 ^ T \<Longrightarrow> canon 16 cs (256 * y + rev_bits 8 i) = Some (l, s) \<Longrightarrow>
        tab ! (off + i) = entry (l - 8) s \<and> 8 < l \<and> l \<le> 8 + T"
    proof -
      have "256 * y + rev_bits 8 i < 65536" for i using jy(3) rev_bits_8_less [of i] by linarith
      then show "8 < unat (hc_bits e)" "T \<le> 7"
        "\<And>i l s. i < 2 ^ T \<Longrightarrow> canon 16 cs (256 * y + rev_bits 8 i) = Some (l, s) \<Longrightarrow>
          tab ! (off + i) = entry (l - 8) s \<and> 8 < l \<and> l \<le> 8 + T"
        using links [OF True] by (simp_all add: link_ok_def Let_def jy T_def off_def e_def)
    qed
    have "256 * y + rev_bits 8 i < 65536" using jy(3) rev_bits_8_less [of i] by linarith
    then obtain l s where c: "canon 16 cs (256 * y + rev_bits 8 i) = Some (l, s)"
      using total [of "256 * y + rev_bits 8 i"] by auto
    have i: "i < 2 ^ T" by (simp add: i_def)
    note ent = lk(3) [OF i c]
    have m: "16 - (8 + T) = 8 - T" using lk(2) by simp
    have p: "(256::nat) = 2 ^ T * 2 ^ (8 - T)" using lk(2) by (simp flip: power_add)
    have blk: "(256 * y + r) div 2 ^ (8 - T) = 2 ^ T * y + r div 2 ^ (8 - T)" for r
    proof -
      have e: "256 * y + r = (2 ^ T * y) * 2 ^ (8 - T) + r"
        by (subst p) (simp only: mult.assoc mult.commute [of y])
      show ?thesis unfolding e by (rule div_mult_self3) simp
    qed
    have "canon 16 cs (rev_bits 16 v) = Some (l, s)"
    proof (rule canon_block [OF ok16 c])
      show "l \<le> 8 + T" "8 + T \<le> 16" using ent lk(2) by auto
      show "rev_bits 16 v div 2 ^ (16 - (8 + T)) = (256 * y + rev_bits 8 i) div 2 ^ (16 - (8 + T))"
        unfolding m rev_bits_16 y_def [symmetric] blk using lk(2)
        by (simp add: rev_bits_div i_def)
    qed
    note c1 = this
    have c2: "table_lookup tab v = (8 + unat (hc_bits (tab ! (off + i))), hc_value (tab ! (off + i)))"
      using lk(1) by (simp add: table_lookup_def Let_def flip: j_def e_def)
        (simp add: T_def off_def i_def e_def)
    have el: "tab ! (off + i) = entry (l - 8) s" "l - 8 < 256" using ent lk(2) by auto
    have c3: "unat (hc_bits (tab ! (off + i))) = l - 8" "hc_value (tab ! (off + i)) = s"
      unfolding el(1) by (rule entry_simps(1) [OF el(2)], rule entry_simps(2))
    have "table_lookup tab v = (l, s)" unfolding c2 c3 using conjunct1 [OF conjunct2 [OF ent]] by simp
    then show ?thesis using c1 unfolding tab_def by (simp only:)
  qed
qed

lemma sub_inv_long:
  assumes ok: "code_ok 15 cs" "span 16 cs = 2 ^ 16" and inv: "sub_inv cs N cs [] b"
    and link: "8 < unat (hc_bits (tb_root_table b ! (v mod 256)))"
  shows "8 < fst (table_lookup (tb_root_table b) v)"
proof -
  define tab j y where "tab = tb_root_table b" and "j = v mod 256" and "y = rev_bits 8 v"
  have yj: "rev_bits 8 j = y" using rev_bits_mod [of 8 v] by (simp add: j_def y_def)
  have j: "j < 256" by (simp add: j_def)
  have "256 * y < 2 ^ 16" using rev_bits_8_less [of v] unfolding y_def by simp
  then obtain l s where c: "canon 16 cs (256 * y) = Some (l, s)"
    using canon_None [of 16 cs "256 * y"] ok(2) by (cases "canon 16 cs (256 * y)") auto
  have "span 16 (upto_len 8 cs) \<le> 256 * y"
  proof (rule ccontr)
    assume "\<not> ?thesis"
    then have l: "l \<le> 8" using c by (rule canon_short [OF ok(1)])
    have "\<And>j l s. j < 256 \<Longrightarrow> canon 16 cs (256 * rev_bits 8 j) = Some (l, s) \<Longrightarrow> l \<le> 8 \<Longrightarrow>
      tab ! j = entry l s" using inv [unfolded sub_inv_def, folded tab_def] by blast
    from this [OF j] l c have "tab ! j = entry l s" by (simp add: yj)
    then show False using link l by (simp add: entry_simps flip: tab_def j_def)
  qed
  then have "span 16 (upto_len 8 cs) \<le> rev_bits 16 v" by (simp add: rev_bits_16 flip: y_def)
  then show ?thesis
    using canon_long [OF ok(1), of "rev_bits 16 v" "fst (table_lookup tab v)" "snd (table_lookup tab v)"]
      sub_inv_final [OF ok inv, of v] by (simp add: tab_def)
qed

text \<open>The root table: the short codes, and the doubling when all codes are shorter than 8 bits.\<close>

lemma root_table_spec:
  assumes rep: "lists_represent sl count cs"
    and ok: "code_ok 15 cs" "span 16 cs = 2 ^ 16"
    and T: "T = min 8 (fst (last cs))" and mem: "256 \<le> length tab"
  obtains t1 t2 where
    "fill_root count sl T (2 ^ T) 1 0 128 2 tab = Some (span 8 (upto_len 8 cs), t1)"
    "double_table 256 (2 ^ T) t1 = Some t2" "length t2 = length tab"
    "\<And>j l s. j < 256 \<Longrightarrow> canon 16 cs (256 * rev_bits 8 j) = Some (l, s) \<Longrightarrow> l \<le> 8 \<Longrightarrow> t2 ! j = entry l s"
proof -
  define cs1 where "cs1 = upto_len 8 cs"
  have ne: "cs \<noteq> []" using ok(2) by auto
  then have last: "0 < fst (last cs)" using ok(1) by (auto simp: code_ok_def)
  have sorted: "sorted (map fst cs)" using ok(1) by (simp add: code_ok_def)
  have le_last: "fst c \<le> fst (last cs)" if "c \<in> set cs" for c
    using that sorted ne by (induction cs) auto
  have T1: "0 < T" "T \<le> 8" using last T by auto
  have flt: "filter (\<lambda>c. 1 \<le> fst c \<and> fst c < Suc T) cs = cs1"
    unfolding cs1_def using ok(1) le_last T by (intro filter_cong) (force simp: code_ok_def)+
  have "sorted (map fst cs1)" unfolding cs1_def using sorted by (rule sorted_filter)
  then have ok1: "code_ok T cs1"
    unfolding code_ok_def using ok(1) le_last T by (auto simp: code_ok_def cs1_def)
  have sc: "span 16 cs1 = 256 * span 8 cs1"
    using span_scale [of cs1 8 8] by (simp add: cs1_def case_prod_beta)
  have split: "cs = cs1 @ filter (\<lambda>c. 8 < fst c) cs"
    unfolding cs1_def using sorted by (rule upto_len_prefix)
  have "span 16 cs1 \<le> 2 ^ 16" using ok(2) span_simps(3) [of 16 cs1 "filter (\<lambda>c. 8 < fst c) cs"] split by simp
  then have sp: "span 8 cs1 \<le> 256" using sc by simp
  have pT: "(2::nat) ^ T \<le> 2 ^ 8" using T1 by (intro power_increasing) auto
  obtain t1 where t1: "fill_flat T cs1 0 tab = Some (span 8 cs1, t1)" "length t1 = length tab"
      "\<And>i l s. i < 2 ^ T \<Longrightarrow> canon 8 cs1 (rev_bits 8 i) = Some (l, s) \<Longrightarrow> t1 ! i = entry l s"
    using fill_flat_complete [OF ok1 T1(2) _ sp, of tab] mem pT by auto
  have "fill_root count sl T (2 ^ T) 1 0 (2 ^ (8 - 1)) (2 ^ 1) tab = Some (span 8 cs1, t1)"
    using fill_root_flat [OF rep sorted, of 1 T 0 tab] T1 t1(1) flt by simp
  moreover obtain t2 where t2: "double_table (2 ^ 8) (2 ^ T) t1 = Some t2" "length t2 = length t1"
      "\<forall>i<2 ^ 8. t2 ! i = t1 ! (i mod 2 ^ T)"
    using double_table_spec [OF T1(2), of t1] mem t1(2) by auto
  moreover have "t2 ! j = entry l s"
    if j: "j < 256" "canon 16 cs (256 * rev_bits 8 j) = Some (l, s)" "l \<le> 8" for j l s
  proof -
    have "\<not> span 16 cs1 \<le> 256 * rev_bits 8 j"
      using canon_long [OF ok(1) _ j(2)] j(3) by (auto simp: cs1_def)
    then have "canon 16 cs1 (256 * rev_bits 8 j) = Some (l, s)"
      using j(2) canon_append [of 16 cs1 "filter (\<lambda>c. 8 < fst c) cs" "256 * rev_bits 8 j"] split by simp
    then have c8: "canon 8 cs1 (rev_bits 8 j) = Some (l, s)"
      using canon_scale [of cs1 8 8] by (simp add: cs1_def case_prod_beta)
    have ok8: "code_ok 8 cs1" using ok1 T1(2) by (rule code_ok_mono)
    have lT: "l \<le> T" using canon_mem [OF c8] ok1 by (auto simp: code_ok_def)
    have "canon 8 cs1 (rev_bits 8 (j mod 2 ^ T)) = Some (l, s)"
    proof (rule canon_block [OF ok8 c8 lT T1(2)])
      show "rev_bits 8 (j mod 2 ^ T) div 2 ^ (8 - T) = rev_bits 8 j div 2 ^ (8 - T)"
        using T1(2) by (simp add: rev_bits_div)
    qed
    then show ?thesis using t2(3) j(1) t1(3) [of "j mod 2 ^ T"] by simp
  qed
  ultimately show thesis using t1(2) by (intro that [of t1 t2]) (simp_all add: cs1_def)
qed

lemma build_huffman_table:
  assumes rep: "lists_represent sl count cs"
    and ok: "code_ok 15 cs" "span 16 cs = 2 ^ 16"
    and mem: "huffman_table_size count cs \<le> length root_table"
  obtains total tab count' where
    "BrotliBuildHuffmanTable root_table 8 sl count = Some (total, tab, count')"
    "length tab = length root_table" "total \<le> length tab" "table_ok cs (take total tab)"
proof -
  define m where "m = fst (last cs)"
  define T where "T = min 8 m"
  define rem where "rem = filter (\<lambda>c. 8 < fst c) cs"
  let ?cs1 = "upto_len 8 cs"
  have ne: "cs \<noteq> []" using ok(2) by auto
  have sorted: "sorted (map fst cs)" using ok(1) by (simp add: code_ok_def)
  have m: "m \<le> 15" using ok(1) ne by (auto simp: m_def code_ok_def)
  have le_m: "fst c \<le> m" if "c \<in> set cs" for c
    unfolding m_def using that sorted ne by (induction cs) auto
  have fm: "find_max_length sl 16 = Some m"
    unfolding m_def using ok(1) by (intro find_max_length_eq lists_representD(4) [OF rep] ne sorted)
      (auto simp: code_ok_def)
  have mem256: "256 \<le> length root_table" using mem by (simp add: huffman_table_size_def)
  obtain t1 t2 where root:
    "fill_root count sl T (2 ^ T) 1 0 128 2 root_table = Some (span 8 ?cs1, t1)"
    "double_table 256 (2 ^ T) t1 = Some t2" "length t2 = length root_table"
    "\<And>j l s. j < 256 \<Longrightarrow> canon 16 cs (256 * rev_bits 8 j) = Some (l, s) \<Longrightarrow> l \<le> 8 \<Longrightarrow> t2 ! j = entry l s"
    using root_table_spec [OF rep ok _ mem256, of T] by (auto simp: T_def m_def)
  define b where "b = \<lparr>tb_table = 0, tb_bits = T, tb_size = 256, tb_total = 256,
    tb_key = span 8 ?cs1, tb_sub_key = 256, tb_count = count, tb_root_table = t2\<rparr>"
  have split: "cs = ?cs1 @ rem" unfolding rem_def using sorted by (rule upto_len_prefix)
  have sc: "span 16 ?cs1 = 256 * span 8 ?cs1"
    using span_scale [of ?cs1 8 8] by (simp add: case_prod_beta)
  have ol: "of_len rem l = of_len cs l" if "8 < l" for l
    unfolding rem_def of_len_def using that by (auto intro!: arg_cong [where f = "map snd"] filter_cong)
  have hd: "2 ^ (16 - fst (hd rem)) dvd (256 :: nat)" if "rem \<noteq> []"
  proof -
    have "hd rem \<in> set rem" using that by simp
    then have "8 < fst (hd rem)" by (simp add: rem_def)
    then have "(2::nat) ^ (16 - fst (hd rem)) dvd 2 ^ 8" by (intro le_imp_power_dvd) simp
    then show ?thesis by simp
  qed
  have inv: "sub_inv cs (length root_table) ?cs1 rem b"
    unfolding sub_inv_def
  proof (intro conjI impI allI)
    show "cs = ?cs1 @ rem" by (rule split)
    show "\<forall>c\<in>set rem. 8 < fst c" by (simp add: rem_def)
    fix y assume "y < tb_key b" "span 16 ?cs1 \<le> 256 * y"
    then show "link_ok cs y (span 16 ?cs1)
        (if tb_sub_key b < 256 \<and> Suc y < tb_key b then tb_table b else tb_total b) (tb_root_table b)"
      by (simp add: b_def sc)
  next
    fix j l s assume "j < 256" "canon 16 cs (256 * rev_bits 8 j) = Some (l, s)" "l \<le> 8"
    then show "tb_root_table b ! j = entry l s" using root(4) by (simp add: b_def)
  next
    show "tb_total b + sub_sizes (tb_count b) rem (tb_sub_key b) \<le> length root_table"
      using mem by (simp add: b_def huffman_table_size_def rem_def)
  qed (use root(3) mem256 sc hd lists_representD(1,2) [OF rep] ol in \<open>simp_all add: b_def\<close>)
  obtain b' where b': "sub_flat rem b = Some b'" "sub_inv cs (length root_table) cs [] b'"
    using sub_flat_inv [OF ok inv] by blast
  have "filter (\<lambda>c. 9 \<le> fst c \<and> fst c < Suc m) cs = rem"
    unfolding rem_def using le_m by (intro filter_cong) (auto simp: less_Suc_eq_le)
  then have "sub_lengths sl 8 1 m 9 (2 ^ (9 - 8)) (2 ^ (16 - 9)) b = Some b'"
    using sub_lengths_flat [OF rep sorted _ m, of 9 b] b'(1) by (simp add: b_def)
  then have "BrotliBuildHuffmanTable root_table 8 sl count = Some (tb_total b', tb_root_table b', tb_count b')"
    using fm root(1,2)
    by (simp add: BrotliBuildHuffmanTable_def BROTLI_HUFFMAN_MAX_CODE_LENGTH_def
        BROTLI_REVERSE_BITS_LOWEST_def T_def b_def Let_def)
  moreover have len: "length (tb_root_table b') = length root_table"
    using b'(2) by (simp add: sub_inv_def)
  moreover have tot: "256 \<le> tb_total b'" "tb_total b' \<le> length (tb_root_table b')"
    using b'(2) by (auto simp: sub_inv_def)
  moreover have "table_ok cs (take (tb_total b') (tb_root_table b'))"
  proof (rule table_ok_take [OF tot sub_inv_final [OF ok b'(2)]])
    show "\<forall>c\<in>set cs. fst c \<le> 15" using ok(1) by (simp add: code_ok_def)
  qed (rule sub_inv_links [OF ok b'(2)] sub_inv_long [OF ok b'(2)]; assumption)+
  ultimately show thesis by (intro that)
qed

section \<open>The property of the builder\<close>

text \<open>C7: For every complete code of at most 15 bits, given as the chained symbol lists the
  decoder keeps, \<open>BrotliBuildHuffmanTable\<close> returns within the size computed for it, and the
  two-level table decodes any bits as the canonical prefix code does; every link of the first
  level stays inside the returned size.\<close>

theorem build_huffman_table_correct:
  assumes "lists_represent sl count cs" "code_ok 15 cs" "span 16 cs = 2 ^ 16"
    and "huffman_table_size count cs \<le> length root_table"
  shows "\<exists>total tab count'. BrotliBuildHuffmanTable root_table 8 sl count = Some (total, tab, count') \<and>
    total \<le> length tab \<and> length tab = length root_table \<and> table_ok cs (take total tab)"
  using build_huffman_table [OF assms] by blast

text \<open>A code with lengths 1 to 9: two levels, the last table with two entries.\<close>

definition demo_lists :: "u16 list" where
  "demo_lists = [0xFFFF, 0, 1, 2, 3, 4, 5, 6, 7, 8, 0xFFFF, 0xFFFF, 0xFFFF, 0xFFFF, 0xFFFF, 0xFFFF,
    0, 0, 0, 0, 0, 0, 0, 0, 9, 0]"
definition demo_count :: "u16 list" where
  "demo_count = [0, 1, 1, 1, 1, 1, 1, 1, 1, 2, 0, 0, 0, 0, 0, 0]"
definition demo_code :: "(nat \<times> u16) list" where
  "demo_code = [(1, 0), (2, 1), (3, 2), (4, 3), (5, 4), (6, 5), (7, 6), (8, 7), (9, 8), (9, 9)]"
lemma demo_represent: "lists_represent demo_lists demo_count demo_code" by code_simp
lemma demo_code_ok: "code_ok 15 demo_code" by code_simp
lemma demo_span: "span 16 demo_code = 2 ^ 16" by (simp add: demo_code_def)
lemma demo_size: "huffman_table_size demo_count demo_code \<le> 260"
proof -
  have "next_table_bits demo_count 9 2 = 9"
    by (subst next_table_bits.simps) (simp add: demo_count_def BROTLI_HUFFMAN_MAX_CODE_LENGTH_def)
  then have "NextTableBitSize demo_count 9 8 = 1" by (simp add: NextTableBitSize_def)
  then show ?thesis by (simp add: huffman_table_size_def demo_code_def)
qed

theorem build_huffman_table_witness:
  "\<exists>total tab count'. BrotliBuildHuffmanTable (replicate 260 (entry 0 0)) 8 demo_lists demo_count =
      Some (total, tab, count') \<and> total \<le> 260 \<and> table_ok demo_code (take total tab)"
  using build_huffman_table_correct [OF demo_represent demo_code_ok demo_span, of "replicate 260 (entry 0 0)"]
    demo_size
  by auto

end
