(* ===== verification/Brotli_SmallTables.thy ===== *)
theory Brotli_SmallTables
  imports Brotli_HuffmanTables "HOL-Library.Multiset"
begin

text \<open>
  Correctness of the two small table builders of \<open>dec/huffman.c\<close>: the tables of the simple
  codes (one to four symbols), and the one-level table of the code length code with its
  counting sort.
\<close>

section \<open>Simple codes\<close>

definition simple_code :: "nat \<Rightarrow> u16 list \<Rightarrow> (nat \<times> u16) list" where
  "simple_code num_symbols val =
    (if num_symbols = 0 then [(0, val ! 0)]
     else if num_symbols = 1 then map (Pair 1) (sort [val ! 0, val ! 1])
     else if num_symbols = 2 then (1, val ! 0) # map (Pair 2) (sort [val ! 1, val ! 2])
     else if num_symbols = 3 then map (Pair 2) (sort [val ! 0, val ! 1, val ! 2, val ! 3])
     else (1, val ! 0) # (2, val ! 1) # map (Pair 3) (sort [val ! 2, val ! 3]))"

text \<open>A table whose first \<open>2 ^ T\<close> entries are those of a code of at most \<open>T\<close> bits, repeated.\<close>

lemma doubled_table_ok:
  assumes T: "T \<le> 8" "\<forall>c\<in>set cs. fst c \<le> T"
    and tab: "256 \<le> length table" "length table' = length table"
      "\<forall>i<256. table' ! i = table ! (i mod 2 ^ T)"
    and ent: "\<And>i. i < 2 ^ T \<Longrightarrow> \<exists>l s. canon T cs (rev_bits T i) = Some (l, s) \<and> table ! i = entry l s"
  shows "table_ok cs (take 256 table')"
proof (rule table_ok_take)
  have e: "\<exists>l s. canon T cs (rev_bits T i) = Some (l, s) \<and> table' ! (i mod 256) = entry l s \<and> l \<le> 8" for i
  proof -
    have d: "(2::nat) ^ T dvd 2 ^ 8" using T(1) by (intro le_imp_power_dvd)
    have "i mod 2 ^ T < 2 ^ T" by simp
    from ent [OF this] obtain l s where "canon T cs (rev_bits T i) = Some (l, s)"
        "table ! (i mod 2 ^ T) = entry l s" by auto
    moreover have "l \<le> T" using calculation(1) T(2) canon_mem by fastforce
    moreover have "i mod 256 mod 2 ^ T = i mod 2 ^ T" using d by (simp add: mod_mod_cancel)
    ultimately show ?thesis using tab(3) T(1) by auto
  qed
  show "256 \<le> length table'" using tab by simp
  show "canon 16 cs (rev_bits 16 v) = Some (table_lookup table' v)" for v
  proof -
    obtain l s where ls: "canon T cs (rev_bits T v) = Some (l, s)" "table' ! (v mod 256) = entry l s" "l \<le> 8"
      using e [of v] by blast
    have "canon 16 cs (rev_bits 16 v) = canon T cs (rev_bits T v)"
      using canon_scale [of cs T "16 - T" "rev_bits 16 v"] T rev_bits_div [of T 16 v]
      by (simp add: case_prod_beta)
    then show ?thesis using ls by (simp add: table_lookup_def Let_def entry_simps)
  qed
  show "link_bits (table' ! j) \<le> 7 \<and> link_off j (table' ! j) + 2 ^ link_bits (table' ! j) \<le> 256"
    if "j < 256" "8 < unat (hc_bits (table' ! j))" for j
    using that e [of j] by (auto simp: entry_simps)
  show "\<forall>c\<in>set cs. fst c \<le> 15" using T by auto
  show "8 < fst (table_lookup table' v)" if "8 < unat (hc_bits (table' ! (v mod 256)))" for v
    using that e [of v] by (auto simp: entry_simps)
qed simp

lemma all_less_upt: "(\<forall>i<n. P i) \<longleftrightarrow> list_all P [0..<n]"
  by (auto simp: list_all_iff)

lemma rev_bits_small:
  "rev_bits 0 n = 0" "rev_bits 1 0 = 0" "rev_bits 1 1 = 1"
  "rev_bits 2 0 = 0" "rev_bits 2 1 = 2" "rev_bits 2 2 = 1" "rev_bits 2 3 = 3"
  "rev_bits 3 0 = 0" "rev_bits 3 1 = 4" "rev_bits 3 2 = 2" "rev_bits 3 3 = 6"
  "rev_bits 3 4 = 1" "rev_bits 3 5 = 5" "rev_bits 3 6 = 3" "rev_bits 3 7 = 7"
  by code_simp+

lemma finish_simple_table:
  assumes "put_codes table stores = Some t1" "length t1 = length table" "256 \<le> length table"
    and T: "T \<le> 8" "\<forall>c\<in>set cs. fst c \<le> T"
    and e: "\<forall>i<2 ^ T. \<exists>l s. canon T cs (rev_bits T i) = Some (l, s) \<and> t1 ! i = entry l s"
  obtains t2 where "double_table 256 (2 ^ T) t1 = Some t2" "length t2 = length table"
    "table_ok cs (take 256 t2)"
proof -
  obtain t2 where t2: "double_table (2 ^ 8) (2 ^ T) t1 = Some t2" "length t2 = length t1"
      "\<forall>i<2 ^ 8. t2 ! i = t1 ! (i mod 2 ^ T)"
    using double_table_spec [OF T(1), of t1] assms(2,3) by auto
  have "table_ok cs (take 256 t2)"
    by (rule doubled_table_ok [OF T, of t1]) (use assms t2 e in auto)
  then show thesis using assms(1,2) t2 by (intro that) simp_all
qed

definition simple_stores :: "nat \<Rightarrow> u16 list \<Rightarrow> nat \<times> (nat \<times> HuffmanCode) list" where
  "simple_stores num_symbols v =
    (if num_symbols = 0 then (0, [(0, entry 0 (v ! 0))])
     else if num_symbols = 1 then (1, [(0, entry 1 (v ! 0)), (1, entry 1 (v ! 1))])
     else if num_symbols = 2 then
       (2, [(0, entry 1 (v ! 0)), (2, entry 1 (v ! 0)), (1, entry 2 (v ! 1)), (3, entry 2 (v ! 2))])
     else if num_symbols = 3 then
       (2, [(0, entry 2 (v ! 0)), (2, entry 2 (v ! 1)), (1, entry 2 (v ! 2)), (3, entry 2 (v ! 3))])
     else (3, [(0, entry 1 (v ! 0)), (1, entry 2 (v ! 1)), (2, entry 1 (v ! 0)), (3, entry 3 (v ! 2)),
       (4, entry 1 (v ! 0)), (5, entry 2 (v ! 1)), (6, entry 1 (v ! 0)), (7, entry 3 (v ! 3))]))"

lemma put_codes_length: "put_codes table cs = Some t \<Longrightarrow> length t = length table"
  by (induction table cs rule: put_codes.induct) (auto split: if_splits)

lemma put_codes_spec:
  "\<forall>p\<in>set ps. fst p < length table \<Longrightarrow> distinct (map fst ps) \<Longrightarrow>
    \<exists>t. put_codes table ps = Some t \<and> (\<forall>p\<in>set ps. t ! fst p = snd p) \<and>
      (\<forall>i. i \<notin> fst ` set ps \<longrightarrow> t ! i = table ! i)"
proof (induction table ps rule: put_codes.induct)
  case (1 table)
  then show ?case by simp
next
  case (2 table i c ps)
  then obtain t where t: "put_codes (table[i := c]) ps = Some t" "\<forall>p\<in>set ps. t ! fst p = snd p"
      "\<forall>k. k \<notin> fst ` set ps \<longrightarrow> t ! k = table[i := c] ! k" by auto
  moreover have "i \<notin> fst ` set ps" using 2(3) by simp
  ultimately show ?case using 2(2) by auto
qed

lemma less_2_power_cases:
  "(i::nat) < 2 ^ 0 \<longleftrightarrow> i = 0" "(i::nat) < 2 ^ 1 \<longleftrightarrow> i = 0 \<or> i = 1"
  "(i::nat) < 2 ^ 2 \<longleftrightarrow> i = 0 \<or> i = 1 \<or> i = 2 \<or> i = 3"
  "(i::nat) < 2 ^ 3 \<longleftrightarrow> i = 0 \<or> i = 1 \<or> i = 2 \<or> i = 3 \<or> i = 4 \<or> i = 5 \<or> i = 6 \<or> i = 7"
  by auto

text \<open>With the symbols of each length in order, the stores of a case are the code's table.\<close>

lemma simple_stores_table:
  assumes st: "simple_stores num_symbols v = (T, stores)" and n: "num_symbols \<le> 4"
    and mem: "256 \<le> length table"
    and cs: "cs = (if num_symbols = 0 then [(0, v ! 0)] else if num_symbols = 1 then [(1, v ! 0), (1, v ! 1)]
      else if num_symbols = 2 then [(1, v ! 0), (2, v ! 1), (2, v ! 2)]
      else if num_symbols = 3 then [(2, v ! 0), (2, v ! 1), (2, v ! 2), (2, v ! 3)]
      else [(1, v ! 0), (2, v ! 1), (3, v ! 2), (3, v ! 3)])"
  obtains t1 t2 where "put_codes table stores = Some t1" "double_table 256 (2 ^ T) t1 = Some t2"
    "length t2 = length table" "table_ok cs (take 256 t2)"
proof -
  have T: "T \<le> 8" "\<forall>c\<in>set cs. fst c \<le> T"
    using st n unfolding cs simple_stores_def by (auto split: if_splits)
  have ent: "\<forall>i<2 ^ T. \<exists>l s. canon T cs (rev_bits T i) = Some (l, s) \<and> (i, entry l s) \<in> set stores"
    and dist: "distinct (map fst stores)" "\<forall>p\<in>set stores. fst p < 8"
  proof -
    consider "num_symbols = 0" | "num_symbols = 1" | "num_symbols = 2" | "num_symbols = 3" | "num_symbols = 4"
      using n by linarith
    then have "(\<forall>i<2 ^ T. \<exists>l s. canon T cs (rev_bits T i) = Some (l, s) \<and> (i, entry l s) \<in> set stores) \<and>
        distinct (map fst stores) \<and> (\<forall>p\<in>set stores. fst p < 8)"
    proof cases
      case 1
      then show ?thesis using st unfolding cs simple_stores_def by (auto simp: rev_bits_small)
    next
      case 2
      then have "T = 1" "stores = [(0, entry 1 (v ! 0)), (1, entry 1 (v ! 1))]"
        "cs = [(1, v ! 0), (1, v ! 1)]" using st unfolding cs simple_stores_def by auto
      then show ?thesis
        by (simp only: less_2_power_cases) (auto simp: rev_bits_small simp del: One_nat_def)
    next
      case 3
      then have "T = 2" "stores = [(0, entry 1 (v ! 0)), (2, entry 1 (v ! 0)), (1, entry 2 (v ! 1)), (3, entry 2 (v ! 2))]"
        "cs = [(1, v ! 0), (2, v ! 1), (2, v ! 2)]" using st unfolding cs simple_stores_def by auto
      then show ?thesis
        by (simp only: less_2_power_cases) (auto simp: rev_bits_small simp del: One_nat_def)
    next
      case 4
      then have "T = 2" "stores = [(0, entry 2 (v ! 0)), (2, entry 2 (v ! 1)), (1, entry 2 (v ! 2)), (3, entry 2 (v ! 3))]"
        "cs = [(2, v ! 0), (2, v ! 1), (2, v ! 2), (2, v ! 3)]" using st unfolding cs simple_stores_def by auto
      then show ?thesis
        by (simp only: less_2_power_cases) (auto simp: rev_bits_small simp del: One_nat_def)
    next
      case 5
      then have "T = 3" "stores = [(0, entry 1 (v ! 0)), (1, entry 2 (v ! 1)), (2, entry 1 (v ! 0)), (3, entry 3 (v ! 2)),
          (4, entry 1 (v ! 0)), (5, entry 2 (v ! 1)), (6, entry 1 (v ! 0)), (7, entry 3 (v ! 3))]"
        "cs = [(1, v ! 0), (2, v ! 1), (3, v ! 2), (3, v ! 3)]" using st unfolding cs simple_stores_def by auto
      then show ?thesis
        by (simp only: less_2_power_cases) (auto simp: rev_bits_small simp del: One_nat_def)
    qed
    then show "\<forall>i<2 ^ T. \<exists>l s. canon T cs (rev_bits T i) = Some (l, s) \<and> (i, entry l s) \<in> set stores"
      "distinct (map fst stores)" "\<forall>p\<in>set stores. fst p < 8" by blast+
  qed
  have "\<forall>p\<in>set stores. fst p < length table" using dist(2) mem by auto
  then obtain t1 where t1: "put_codes table stores = Some t1" "\<forall>p\<in>set stores. t1 ! fst p = snd p"
    using put_codes_spec [OF _ dist(1)] by blast
  have e: "\<forall>i<2 ^ T. \<exists>l s. canon T cs (rev_bits T i) = Some (l, s) \<and> t1 ! i = entry l s"
    using ent t1(2) by fastforce
  obtain t2 where "double_table 256 (2 ^ T) t1 = Some t2" "length t2 = length table"
      "table_ok cs (take 256 t2)"
    using finish_simple_table [OF t1(1) put_codes_length [OF t1(1)] mem T e] by blast
  then show thesis by (rule that [OF t1(1)])
qed

lemma sort_two: "sort [a, b] = (if b < a then [b, a] else [a, b :: 'a :: linorder])"
  by auto

lemma mset_swap_vals: "i < length v \<Longrightarrow> k < length v \<Longrightarrow> mset (swap_vals i k v) = mset v"
  by (simp add: swap_vals_def mset_swap)

lemma length_swap_vals [simp]: "length (swap_vals i k v) = length v"
  by (simp add: swap_vals_def)

lemma swap_vals_4:
  "swap_vals 0 1 (a # b # r) = min a b # max a b # r"
  "swap_vals 0 2 (a # b # c # r) = min a c # b # max a c # r"
  "swap_vals 0 3 (a # b # c # d # r) = min a d # b # c # max a d # r"
  "swap_vals 1 2 (a # b # c # r) = a # min b c # max b c # r"
  "swap_vals 1 3 (a # b # c # d # r) = a # min b d # c # max b d # r"
  "swap_vals 2 3 (a # b # c # d # r) = a # b # min c d # max c d # r"
  by (auto simp: swap_vals_def numeral_eq_Suc min_def max_def)

lemma swap_sorts_four:
  fixes a b c d :: u16 and rest :: "u16 list"
  defines "v \<equiv> swap_vals 2 3 (swap_vals 1 3 (swap_vals 1 2
      (swap_vals 0 3 (swap_vals 0 2 (swap_vals 0 1 (a # b # c # d # rest))))))"
  shows "v = sort [a, b, c, d] @ rest"
proof -
  define a1 b1 where "a1 = min a b" and "b1 = max a b"
  define a2 c1 where "a2 = min a1 c" and "c1 = max a1 c"
  define a3 d1 where "a3 = min a2 d" and "d1 = max a2 d"
  define b2 c2 where "b2 = min b1 c1" and "c2 = max b1 c1"
  define b3 d2 where "b3 = min b2 d1" and "d2 = max b2 d1"
  define c3 d3 where "c3 = min c2 d2" and "d3 = max c2 d2"
  have v: "v = a3 # b3 # c3 # d3 # rest"
    by (simp only: v_def swap_vals_4 a1_def b1_def a2_def c1_def a3_def d1_def b2_def c2_def
        b3_def d2_def c3_def d3_def)
  have a: "a3 \<le> a2" "a2 \<le> a1" "a1 \<le> b1" "a1 \<le> c1" "a2 \<le> d1"
    by (simp_all add: a1_def b1_def a2_def c1_def a3_def d1_def min.coboundedI1 max.coboundedI1)
  have "a3 \<le> b1" "a3 \<le> c1" "a3 \<le> d1" using a by order+
  then have ab: "a3 \<le> b3" by (simp add: b3_def b2_def)
  have b: "b3 \<le> b2" "b2 \<le> c2" "b2 \<le> d2"
    by (simp_all add: b2_def c2_def b3_def d2_def min.coboundedI1 max.coboundedI1)
  have "b3 \<le> c2" "b3 \<le> d2" using b by order+
  then have bc: "b3 \<le> c3" by (simp add: c3_def)
  have cd: "c3 \<le> d3" by (simp add: c3_def d3_def min.coboundedI1 max.coboundedI1)
  have "mset v = mset (a # b # c # d # rest)" by (simp add: v_def mset_swap_vals)
  then have "mset ([a3, b3, c3, d3] @ rest) = mset ([a, b, c, d] @ rest)" by (simp add: v)
  then have "mset [a3, b3, c3, d3] = mset [a, b, c, d]" by (simp only: mset_append add_right_cancel)
  then have "sort [a, b, c, d] = [a3, b3, c3, d3]"
    using ab bc cd by (intro properties_for_sort) auto
  then show ?thesis by (simp add: v)
qed

lemma simple_table:
  assumes n: "num_symbols \<le> 4" and val: "(if num_symbols = 4 then 4 else Suc num_symbols) \<le> length val"
    and mem: "256 \<le> length table"
  shows "\<exists>table' val'. BrotliBuildSimpleHuffmanTable table 8 val num_symbols = Some (256, table', val') \<and>
    length table' = length table \<and> table_ok (simple_code num_symbols val) (take 256 table')"
proof -
  have go: ?thesis
    if st: "simple_stores num_symbols v = (T, stores)" and cs: "simple_code num_symbols val =
        (if num_symbols = 0 then [(0, v ! 0)] else if num_symbols = 1 then [(1, v ! 0), (1, v ! 1)]
         else if num_symbols = 2 then [(1, v ! 0), (2, v ! 1), (2, v ! 2)]
         else if num_symbols = 3 then [(2, v ! 0), (2, v ! 1), (2, v ! 2), (2, v ! 3)]
         else [(1, v ! 0), (2, v ! 1), (3, v ! 2), (3, v ! 3)])"
      and b: "BrotliBuildSimpleHuffmanTable table 8 val num_symbols =
        do { table \<leftarrow> put_codes table stores; table \<leftarrow> double_table 256 (2 ^ T) table;
             Some (256, table, val') }"
    for v T stores val'
  proof -
    obtain t1 t2 where "put_codes table stores = Some t1" "double_table 256 (2 ^ T) t1 = Some t2"
        "length t2 = length table" "table_ok (simple_code num_symbols val) (take 256 t2)"
      using simple_stores_table [OF st n mem cs] by blast
    then show ?thesis by (simp add: b)
  qed
  consider "num_symbols = 0" | "num_symbols = 1" | "num_symbols = 2" | "num_symbols = 3" | "num_symbols = 4"
    using n by linarith
  then show ?thesis
  proof cases
    case 1
    then have "\<not> length val < 1" "val \<noteq> []" using val by auto
    with 1 show ?thesis
      by (intro go [OF surjective_pairing, of val val])
        (simp_all add: simple_stores_def BrotliBuildSimpleHuffmanTable_def simple_code_def Let_def
          del: put_codes.simps)
  next
    case 2
    then have "\<not> length val < 2" using val by simp
    with 2 show ?thesis
      by (intro go [OF surjective_pairing, of "sort [val ! 0, val ! 1]" val])
        (auto simp: simple_stores_def BrotliBuildSimpleHuffmanTable_def simple_code_def Let_def sort_two
          simp del: put_codes.simps)
  next
    case 3
    then have "\<not> length val < 3" using val by simp
    with 3 show ?thesis
      by (intro go [OF surjective_pairing, of "val ! 0 # sort [val ! 1, val ! 2]" val])
        (auto simp: simple_stores_def BrotliBuildSimpleHuffmanTable_def simple_code_def Let_def sort_two
          simp del: put_codes.simps)
  next
    case 4
    have "\<exists>a b c d rest. val = a # b # c # d # rest"
    proof -
      have "4 \<le> length val" using val 4 by simp
      then show ?thesis by (cases val; cases "tl val"; cases "tl (tl val)"; cases "tl (tl (tl val))") auto
    qed
    then obtain a b c d rest where abcd: "val = a # b # c # d # rest" by blast
    have nl: "\<not> length val < 4" by (simp add: abcd)
    define v where "v = sort [a, b, c, d]"
    have sw: "swap_vals 2 3 (swap_vals 1 3 (swap_vals 1 2
      (swap_vals 0 3 (swap_vals 0 2 (swap_vals 0 1 val))))) = v @ rest"
      unfolding abcd v_def by (rule swap_sorts_four)
    have vs: "v = sort [val ! 0, val ! 1, val ! 2, val ! 3]" by (simp add: abcd v_def)
    have l: "length v = 4" by (simp add: v_def)
    have "map (Pair 2) v = [(2, v ! 0), (2, v ! 1), (2, v ! 2), (2, v ! 3)]"
      using l by (intro nth_equalityI) (auto simp: nth_Cons' numeral_eq_Suc less_Suc_eq)
    moreover have "simple_code 3 val = map (Pair 2) v" unfolding simple_code_def vs by simp
    ultimately have code: "simple_code 3 val = [(2, v ! 0), (2, v ! 1), (2, v ! 2), (2, v ! 3)]" by simp
    show ?thesis
      using 4 l nl
      by (intro go [OF surjective_pairing, of v "v @ rest"])
        (simp_all add: simple_stores_def BrotliBuildSimpleHuffmanTable_def code sw [unfolded One_nat_def]
          Let_def nth_append
          del: put_codes.simps)
  next
    case 5
    define v where "v = val ! 0 # val ! 1 # sort [val ! 2, val ! 3]"
    have lv: "\<not> length val < 4" using val 5 by simp
    show ?thesis
      using 5 lv
      by (intro go [OF surjective_pairing, of v "swap_vals 2 3 val"])
        (auto simp: simple_stores_def BrotliBuildSimpleHuffmanTable_def simple_code_def v_def sort_two
          swap_vals_def Let_def simp del: put_codes.simps)
  qed
qed


section \<open>The table of the code length code\<close>

text \<open>
  The counting sort. \<open>lens\<close> are the 18 code lengths; \<open>F l k\<close> lists the symbols of length
  \<open>l\<close> from \<open>k\<close> on, \<open>below l k\<close> counts those before \<open>k\<close>, and \<open>start l\<close> is where the symbols of
  length \<open>l\<close> begin in the sorted array (length 0 last).
\<close>

definition below :: "nat list \<Rightarrow> nat \<Rightarrow> nat \<Rightarrow> nat" where
  "below lens l k = length (filter (\<lambda>s. lens ! s = l) [0..<k])"

definition start :: "nat list \<Rightarrow> nat \<Rightarrow> nat" where
  "start lens l = (\<Sum>b\<leftarrow>(if l = 0 then [1..<6] else [1..<l]). below lens b 18)"

lemma below_simps [simp]:
  "below lens l 0 = 0"
  "below lens l (Suc k) = below lens l k + (if lens ! k = l then 1 else 0)"
  by (simp_all add: below_def)

lemma below_mono: "k \<le> m \<Longrightarrow> below lens l k \<le> below lens l m"
  by (induction rule: dec_induct) auto

lemma below_total:
  "\<forall>s<k. lens ! s < 6 \<Longrightarrow> below lens 0 k + below lens 1 k + below lens 2 k + below lens 3 k +
    below lens 4 k + below lens 5 k = k"
proof (induction k)
  case 0
  then show ?case by simp
next
  case (Suc k)
  then have "lens ! k < 6" by simp
  then have "lens ! k = 0 \<or> lens ! k = 1 \<or> lens ! k = 2 \<or> lens ! k = 3 \<or> lens ! k = 4 \<or> lens ! k = 5"
    by linarith
  then show ?case using Suc by auto
qed

lemma start_simps:
  "start lens 1 = 0" "start lens 2 = below lens 1 18" "start lens 3 = below lens 1 18 + below lens 2 18"
  "start lens 4 = below lens 1 18 + below lens 2 18 + below lens 3 18"
  "start lens 5 = below lens 1 18 + below lens 2 18 + below lens 3 18 + below lens 4 18"
  "start lens 0 = below lens 1 18 + below lens 2 18 + below lens 3 18 + below lens 4 18 + below lens 5 18"
proof -
  have u: "[1..<1] = ([] :: nat list)" "[1..<2] = [1::nat]" "[1..<3] = [1, 2::nat]" "[1..<4] = [1, 2, 3::nat]"
    "[1..<5] = [1, 2, 3, 4::nat]" "[1..<6] = [1, 2, 3, 4, 5::nat]"
    by code_simp+
  show "start lens 1 = 0" "start lens 2 = below lens 1 18" "start lens 3 = below lens 1 18 + below lens 2 18"
    "start lens 4 = below lens 1 18 + below lens 2 18 + below lens 3 18"
    "start lens 5 = below lens 1 18 + below lens 2 18 + below lens 3 18 + below lens 4 18"
    "start lens 0 = below lens 1 18 + below lens 2 18 + below lens 3 18 + below lens 4 18 + below lens 5 18"
    unfolding start_def by (simp_all add: u del: One_nat_def)
qed

lemma less_6_cases: "(l::nat) < 6 \<longleftrightarrow> l = 0 \<or> l = 1 \<or> l = 2 \<or> l = 3 \<or> l = 4 \<or> l = 5"
  by linarith

text \<open>The ranges of different lengths do not overlap, and fill the array.\<close>

lemma start_disjoint:
  assumes "l < 6" "l' < 6" "l \<noteq> l'" "i < below lens l 18" "i' < below lens l' 18"
  shows "start lens l + i \<noteq> start lens l' + i'"
  using assms unfolding less_6_cases
  by (elim disjE) (simp_all only: start_simps; simp)+

lemma start_bound:
  assumes "\<forall>s<18. lens ! s < 6" "l < 6"
  shows "start lens l + below lens l 18 \<le> 18"
proof -
  note t = below_total [OF assms(1)]
  from assms(2) show ?thesis unfolding less_6_cases
    by (elim disjE; simp only: start_simps; use t in linarith)
qed

lemma sort_symbols_spec:
  assumes len: "length cl = 18" "\<forall>s<18. unat (cl ! s) < 6" and lens: "lens = map unat cl"
  shows "k \<le> 18 \<Longrightarrow> length offset = 6 \<Longrightarrow> length srt = 18 \<Longrightarrow>
    \<forall>l<6. offset ! l = int (start lens l + below lens l k) - 1 \<Longrightarrow>
    \<forall>l<6. \<forall>r<length (filter (\<lambda>s. lens ! s = l) [k..<18]).
      srt ! (start lens l + below lens l k + r) = filter (\<lambda>s. lens ! s = l) [k..<18] ! r \<Longrightarrow>
    \<exists>offset' srt'. sort_symbols cl k offset srt = Some (offset', srt') \<and> length srt' = 18 \<and>
      offset' ! 0 = int (start lens 0) - 1 \<and>
      (\<forall>l<6. \<forall>r<below lens l 18. srt' ! (start lens l + r) = syms_of_len lens l ! r)"
proof (induction k arbitrary: offset srt)
  case 0
  have "syms_of_len lens l = filter (\<lambda>s. lens ! s = l) [0..<18]" for l
    using len(1) by (simp add: syms_of_len_def lens)
  then show ?case using 0 by (simp add: below_def)
next
  case (Suc k)
  have lk: "lens ! k = unat (cl ! k)" using Suc.prems(1) len(1) by (simp add: lens)
  have lens6: "\<forall>s<18. lens ! s < 6" using len by (simp add: lens)
  define l where "l = lens ! k"
  have l6: "l < 6" using lens6 Suc.prems(1) by (simp add: l_def)
  define p where "p = start lens l + below lens l k"
  have o: "offset ! l = int p" using Suc.prems(4) l6 by (simp add: p_def l_def)
  have "below lens l (Suc k) \<le> below lens l 18" using Suc.prems(1) by (intro below_mono)
  then have inr: "below lens l k < below lens l 18" by (simp add: l_def)
  then have p18: "p < 18" using start_bound [OF lens6 l6] by (simp add: p_def)
  have nl: "\<not> 6 \<le> unat (cl ! k)" using l6 lk by (simp add: l_def)
  have step: "sort_symbols cl (Suc k) offset srt = sort_symbols cl k (offset[l := int p - 1]) (srt[p := k])"
    using Suc.prems(1-3) len(1) o p18 nl lk by (simp add: Let_def l_def)
  have upt: "[k..<18] = k # [Suc k..<18]" using Suc.prems(1) by (simp add: upt_conv_Cons)
  show ?case
    unfolding step
  proof (rule Suc.IH)
    show "k \<le> 18" "length (offset[l := int p - 1]) = 6" "length (srt[p := k]) = 18"
      using Suc.prems by simp_all
    show "\<forall>l'<6. offset[l := int p - 1] ! l' = int (start lens l' + below lens l' k) - 1"
    proof (intro allI impI)
      fix l' :: nat
      assume "l' < 6"
      then have "offset ! l' = int (start lens l' + below lens l' (Suc k)) - 1" using Suc.prems(4) by blast
      then show "offset[l := int p - 1] ! l' = int (start lens l' + below lens l' k) - 1"
        using \<open>l' < 6\<close> Suc.prems(2) by (cases "l' = l") (simp_all add: p_def l_def)
    qed
    show "\<forall>l'<6. \<forall>r<length (filter (\<lambda>s. lens ! s = l') [k..<18]).
        srt[p := k] ! (start lens l' + below lens l' k + r) = filter (\<lambda>s. lens ! s = l') [k..<18] ! r"
    proof (intro allI impI)
      fix l' r
      assume l': "l' < 6" and r: "r < length (filter (\<lambda>s. lens ! s = l') [k..<18])"
      have tot: "below lens l' k + length (filter (\<lambda>s. lens ! s = l') [k..<18]) = below lens l' 18"
        unfolding below_def using upt_add_eq_append [of 0 k "18 - k"] Suc.prems(1)
        by (simp flip: length_append filter_append)
      show "srt[p := k] ! (start lens l' + below lens l' k + r) = filter (\<lambda>s. lens ! s = l') [k..<18] ! r"
      proof (cases "l' = l")
        case True
        show ?thesis
        proof (cases r)
          case 0
          then show ?thesis using True upt p18 Suc.prems(3) by (simp add: p_def l_def)
        next
          case (Suc r')
          have "r' < length (filter (\<lambda>s. lens ! s = l') [Suc k..<18])"
            using r True Suc upt by (simp add: l_def)
          then have "srt ! (start lens l' + below lens l' (Suc k) + r') =
              filter (\<lambda>s. lens ! s = l') [Suc k..<18] ! r'"
            using Suc.prems(5) l' by blast
          then show ?thesis using True Suc upt by (simp add: p_def l_def)
        qed
      next
        case False
        then have f: "filter (\<lambda>s. lens ! s = l') [k..<18] = filter (\<lambda>s. lens ! s = l') [Suc k..<18]"
          "below lens l' (Suc k) = below lens l' k" using upt by (simp_all add: l_def)
        have "below lens l' k + r < below lens l' 18" using r tot by simp
        then have "p \<noteq> start lens l' + (below lens l' k + r)"
          unfolding p_def using start_disjoint [OF l6 l' _ inr] False by blast
        moreover have "srt ! (start lens l' + below lens l' (Suc k) + r) =
            filter (\<lambda>s. lens ! s = l') [Suc k..<18] ! r"
          using Suc.prems(5) l' r unfolding f(1) by blast
        ultimately show ?thesis unfolding f by (simp add: add.assoc)
      qed
    qed
  qed
qed

lemma fill_sorted_flat:
  assumes "symbol + length ss \<le> length srt" "\<forall>r<length ss. srt ! (symbol + r) = ss ! r"
  shows "fill_sorted (length ss) srt symbol bits key (2 ^ (8 - bits)) (2 ^ bits) table =
    map_option (\<lambda>(key, table). (symbol + length ss, key, table))
      (fill_flat 5 (map (\<lambda>s. (bits, word_of_nat s)) ss) key table)"
  using assms
proof (induction ss arbitrary: symbol key table)
  case Nil
  then show ?case by simp
next
  case (Cons s ss)
  have s: "srt ! symbol = s" using Cons.prems(2) by (auto dest: spec [of _ 0])
  have "\<forall>r<length ss. srt ! (Suc symbol + r) = ss ! r"
    using Cons.prems(2) by (metis Suc_less_eq add_Suc_shift length_Cons nth_Cons_Suc)
  then have ih: "fill_sorted (length ss) srt (Suc symbol) bits key' (2 ^ (8 - bits)) (2 ^ bits) table' =
    map_option (\<lambda>(key, table). (Suc symbol + length ss, key, table))
      (fill_flat 5 (map (\<lambda>s. (bits, word_of_nat s)) ss) key' table')" for key' table'
    using Cons.IH Cons.prems(1) by simp
  show ?case
    using Cons.prems(1)
    by (simp add: ih s BROTLI_HUFFMAN_MAX_CODE_LENGTH_CODE_LENGTH_def split: bind_splits)
qed

text \<open>The code of the code lengths, with the symbols as table values.\<close>

definition cl_code :: "u8 list \<Rightarrow> (nat \<times> u16) list" where
  "cl_code cl = map (map_prod id word_of_nat) (code_of 5 (map unat cl))"

lemma fill_code_lengths_flat:
  assumes "0 < bits" "bits \<le> 5" "\<And>l. bits \<le> l \<Longrightarrow> l \<le> 5 \<Longrightarrow> unat (cnt ! l) = length (ss l)"
    and "\<And>l r. bits \<le> l \<Longrightarrow> l \<le> 5 \<Longrightarrow> r < length (ss l) \<Longrightarrow>
      srt ! (symbol + (\<Sum>b\<leftarrow>[bits..<l]. length (ss b)) + r) = ss l ! r"
    and "symbol + (\<Sum>b\<leftarrow>[bits..<6]. length (ss b)) \<le> length srt"
  shows "fill_code_lengths cnt srt symbol bits key (2 ^ (8 - bits)) (2 ^ bits) table =
    map_option snd (fill_flat 5 (concat (map (\<lambda>l. map (\<lambda>s. (l, word_of_nat s)) (ss l)) [bits..<6])) key table)"
  using assms
proof (induction "5 - bits" arbitrary: bits symbol key table)
  case (0 bits)
  then have b: "bits = 5" by simp
  have u: "[5..<6] = [5::nat]" "[5..<5] = ([]::nat list)" by (simp_all add: upt_rec)
  have "fill_sorted (length (ss 5)) srt symbol 5 key (2 ^ (8 - 5)) (2 ^ 5) table =
    map_option (\<lambda>(key, table). (symbol + length (ss 5), key, table))
      (fill_flat 5 (map (\<lambda>s. (5, word_of_nat s)) (ss 5)) key table)"
    by (rule fill_sorted_flat) (use "0.prems"(4) [of 5] "0.prems"(5) in \<open>simp_all add: b u\<close>)
  then show ?case
    using "0.prems"(3) [of 5]
    by (simp add: fill_code_lengths.simps [of cnt] b u BROTLI_HUFFMAN_MAX_CODE_LENGTH_CODE_LENGTH_def
        split: option.splits)
next
  case (Suc d bits)
  then have lt: "bits < 5" by simp
  have u: "[bits..<6] = bits # [Suc bits..<6]" using lt by (simp add: upt_conv_Cons)
  have s: "fill_sorted (length (ss bits)) srt symbol bits key (2 ^ (8 - bits)) (2 ^ bits) table =
    map_option (\<lambda>(key, table). (symbol + length (ss bits), key, table))
      (fill_flat 5 (map (\<lambda>s. (bits, word_of_nat s)) (ss bits)) key table)"
    by (rule fill_sorted_flat) (use Suc.prems(4) [of bits] Suc.prems(5) lt in \<open>simp_all add: u\<close>)
  have "8 - bits = Suc (8 - Suc bits)" using lt by simp
  then have half: "(2::nat) ^ (8 - bits) div 2 = 2 ^ (8 - Suc bits)" by simp
  have ih: "fill_code_lengths cnt srt (symbol + length (ss bits)) (Suc bits) key' (2 ^ (8 - Suc bits)) (2 ^ Suc bits) table' =
    map_option snd (fill_flat 5 (concat (map (\<lambda>l. map (\<lambda>s. (l, word_of_nat s)) (ss l)) [Suc bits..<6])) key' table')"
    for key' table'
  proof (rule Suc.hyps(1))
    show "d = 5 - Suc bits" using Suc.hyps(2) by simp
    fix l r assume l: "Suc bits \<le> l" "l \<le> 5" "r < length (ss l)"
    then have "[bits..<l] = bits # [Suc bits..<l]" by (simp add: upt_conv_Cons)
    then show "srt ! (symbol + length (ss bits) + (\<Sum>b\<leftarrow>[Suc bits..<l]. length (ss b)) + r) = ss l ! r"
      using Suc.prems(4) [of l r] l by (simp add: add.assoc)
  qed (use Suc.prems lt in \<open>simp_all add: u\<close>)
  have n: "unat (cnt ! bits) = length (ss bits)" using Suc.prems(3) [of bits] lt by simp
  show ?case
    unfolding u using lt
    by (simp add: fill_code_lengths.simps [of cnt srt symbol bits] n s fill_flat_append)
      (auto simp: BROTLI_HUFFMAN_MAX_CODE_LENGTH_CODE_LENGTH_def half ih [simplified] ih
        split: bind_splits option.splits)
qed

text \<open>
  The counting sort and the loops together: the fill is the fold over the code, or, for a
  single used symbol, a constant table.
\<close>

lemma code_lengths_sorted:
  assumes len: "length cl = 18" "\<forall>s<18. unat (cl ! s) < 6"
    and cnt: "\<And>l. 0 < l \<Longrightarrow> l < 6 \<Longrightarrow> unat (cnt ! l) = length (syms_of_len (map unat cl) l)"
  obtains offset srt where
    "sort_symbols cl 18 (code_length_offsets cnt) (replicate 18 0) = Some (offset, srt)"
    "length srt = 18" "offset ! 0 = int (length (code_of 5 (map unat cl))) - 1"
    "\<And>l r. 0 < l \<Longrightarrow> l < 6 \<Longrightarrow> r < length (syms_of_len (map unat cl) l) \<Longrightarrow>
      srt ! ((\<Sum>b\<leftarrow>[1..<l]. length (syms_of_len (map unat cl) b)) + r) = syms_of_len (map unat cl) l ! r"
proof -
  let ?lens = "map unat cl"
  have b: "below ?lens l 18 = length (syms_of_len ?lens l)" for l
    using len(1) by (simp add: below_def syms_of_len_def)
  have lens6: "\<forall>s<18. ?lens ! s < 6" using len by simp
  have u: "uint (cnt ! l) = int (below ?lens l 18)" if "0 < l" "l < 6" for l
    unfolding b using cnt [OF that] by (simp only: uint_nat)
  have u': "uint (cnt ! 1) = int (below ?lens 1 18)" "uint (cnt ! 2) = int (below ?lens 2 18)"
    "uint (cnt ! 3) = int (below ?lens 3 18)" "uint (cnt ! 4) = int (below ?lens 4 18)"
    "uint (cnt ! 5) = int (below ?lens 5 18)" by (simp_all add: u del: One_nat_def)
  have l6: "[1..<2] = [1::nat]" "[1..<3] = [1, 2::nat]" "[1..<4] = [1, 2, 3::nat]"
    "[1..<5] = [1, 2, 3, 4::nat]" "[1..<6] = [1, 2, 3, 4, 5::nat]" "Suc 5 = 6" "Suc 4 = 5" "Suc 3 = 4"
    "Suc 2 = 3" "Suc 1 = 2"
    by code_simp+
  have offs: "code_length_offsets cnt =
    [17, int (below ?lens 1 18) - 1, int (below ?lens 1 18 + below ?lens 2 18) - 1,
     int (below ?lens 1 18 + below ?lens 2 18 + below ?lens 3 18) - 1,
     int (below ?lens 1 18 + below ?lens 2 18 + below ?lens 3 18 + below ?lens 4 18) - 1,
     int (below ?lens 1 18 + below ?lens 2 18 + below ?lens 3 18 + below ?lens 4 18 + below ?lens 5 18) - 1]"
    unfolding code_length_offsets_def BROTLI_CODE_LENGTH_CODES_def
      BROTLI_HUFFMAN_MAX_CODE_LENGTH_CODE_LENGTH_def
    by (simp add: l6 u' del: One_nat_def)
  have t: "start ?lens 0 + below ?lens 0 18 = 18"
    using below_total [OF lens6] by (simp only: start_simps)
  have o: "\<forall>l<6. code_length_offsets cnt ! l = int (start ?lens l + below ?lens l 18) - 1"
  proof (intro allI impI)
    fix l :: nat assume "l < 6"
    then consider "l = 0" | "0 < l" "l = 1 \<or> l = 2 \<or> l = 3 \<or> l = 4 \<or> l = 5" by linarith
    then show "code_length_offsets cnt ! l = int (start ?lens l + below ?lens l 18) - 1"
    proof cases
      case 1
      then show ?thesis unfolding offs using t by simp
    next
      case 2
      then show ?thesis unfolding offs
        by (elim disjE; simp only: start_simps; simp)
    qed
  qed
  have st: "start ?lens l = (\<Sum>b\<leftarrow>[1..<l]. length (syms_of_len ?lens b))" if "0 < l" for l
    using that by (simp add: start_def b)
  have s0: "start ?lens 0 = length (code_of 5 ?lens)"
    by (simp add: start_def code_of_def b length_concat comp_def)
  have "\<exists>offset srt. sort_symbols cl 18 (code_length_offsets cnt) (replicate 18 0) = Some (offset, srt) \<and>
      length srt = 18 \<and> offset ! 0 = int (start ?lens 0) - 1 \<and>
      (\<forall>l<6. \<forall>r<below ?lens l 18. srt ! (start ?lens l + r) = syms_of_len ?lens l ! r)"
    by (rule sort_symbols_spec [OF len refl]) (use o in \<open>simp_all add: offs\<close>)
  then obtain offset srt where srt:
    "sort_symbols cl 18 (code_length_offsets cnt) (replicate 18 0) = Some (offset, srt)"
    "length srt = 18" "offset ! 0 = int (start ?lens 0) - 1"
    "\<forall>l<6. \<forall>r<below ?lens l 18. srt ! (start ?lens l + r) = syms_of_len ?lens l ! r" by blast
  show thesis
  proof (rule that [OF srt(1,2)])
    show "offset ! 0 = int (length (code_of 5 ?lens)) - 1" using srt(3) by (simp add: s0)
    fix l r :: nat
    assume "0 < l" "l < 6" "r < length (syms_of_len ?lens l)"
    then show "srt ! ((\<Sum>b\<leftarrow>[1..<l]. length (syms_of_len ?lens b)) + r) = syms_of_len ?lens l ! r"
      unfolding st [symmetric, OF \<open>0 < l\<close>] using srt(4) by (simp add: b)
  qed
qed

text \<open>The entries of a filled table, in the order of the next five bits of the stream.\<close>

lemma build_code_lengths_table:
  assumes len: "length cl = 18" "\<forall>s<18. unat (cl ! s) < 6"
    and cnt: "\<And>l. 0 < l \<Longrightarrow> l < 6 \<Longrightarrow> unat (cnt ! l) = length (syms_of_len (map unat cl) l)"
    and mem: "32 \<le> length table" and kraft: "span 5 (cl_code cl) \<le> 32"
  obtains table' where "BrotliBuildCodeLengthsHuffmanTable table cl cnt = Some table'"
    "length table' = length table"
    "\<And>i. i < 32 \<Longrightarrow> length (cl_code cl) = 1 \<Longrightarrow> table' ! i = entry 0 (snd (hd (cl_code cl)))"
    "\<And>i l s. i < 32 \<Longrightarrow> length (cl_code cl) \<noteq> 1 \<Longrightarrow>
      canon 5 (cl_code cl) (rev_bits 5 i) = Some (l, s) \<Longrightarrow> table' ! i = entry l s"
proof -
  let ?lens = "map unat cl"
  obtain offset srt where srt:
    "sort_symbols cl 18 (code_length_offsets cnt) (replicate 18 0) = Some (offset, srt)"
    "length srt = 18" "offset ! 0 = int (length (code_of 5 ?lens)) - 1"
    "\<And>l r. 0 < l \<Longrightarrow> l < 6 \<Longrightarrow> r < length (syms_of_len ?lens l) \<Longrightarrow>
      srt ! ((\<Sum>b\<leftarrow>[1..<l]. length (syms_of_len ?lens b)) + r) = syms_of_len ?lens l ! r"
    using code_lengths_sorted [OF len cnt] by blast
  have lc: "length (cl_code cl) = length (code_of 5 ?lens)" by (simp add: cl_code_def)
  show thesis
  proof (cases "length (cl_code cl) = 1")
    case True
    then obtain l s where one: "code_of 5 ?lens = [(l, s)]"
      unfolding lc by (cases "code_of 5 ?lens") auto
    have "(l, s) \<in> set (code_of 5 ?lens)" by (simp add: one)
    then have l: "0 < l" "l < 6" "s \<in> set (syms_of_len ?lens l)"
      unfolding set_code_of by (auto simp: syms_of_len_def)
    have only: "x = s \<and> b = l" if "0 < b" "b < 6" "x \<in> set (syms_of_len ?lens b)" for b x
    proof -
      have "(b, x) \<in> set (code_of 5 ?lens)"
        unfolding set_code_of using that by (auto simp: syms_of_len_def)
      then show ?thesis by (simp add: one)
    qed
    have "syms_of_len ?lens b = []" if "0 < b" "b < 6" "b \<noteq> l" for b
    proof (rule ccontr)
      assume "syms_of_len ?lens b \<noteq> []"
      then obtain x where "x \<in> set (syms_of_len ?lens b)" by (cases "syms_of_len ?lens b") auto
      then show False using only [OF that(1,2)] that(3) by blast
    qed
    then have "map (\<lambda>b. length (syms_of_len ?lens b)) [1..<l] = map (\<lambda>b. 0) [1..<l]"
      using l(2) by (intro map_cong) auto
    then have z: "(\<Sum>b\<leftarrow>[1..<l]. length (syms_of_len ?lens b)) = 0" by (simp only: sum_list_0)
    have ne: "0 < length (syms_of_len ?lens l)" using l(3) by (auto simp: length_pos_if_in_set)
    then have "syms_of_len ?lens l ! 0 = s" using only [OF l(1,2)] by auto
    moreover have "srt ! 0 = syms_of_len ?lens l ! 0" using srt(4) [OF l(1,2) ne] unfolding z by simp
    ultimately have s0: "srt ! 0 = s" by simp
    have "BrotliBuildCodeLengthsHuffmanTable table cl cnt =
        Some (replicate 32 (entry 0 (word_of_nat s)) @ drop 32 table)"
      using srt(1,3) mem one s0
      by (simp add: BrotliBuildCodeLengthsHuffmanTable_def BROTLI_CODE_LENGTH_CODES_def
          BROTLI_HUFFMAN_MAX_CODE_LENGTH_CODE_LENGTH_def Let_def)
    then show ?thesis
    proof (rule that)
      show "length (replicate 32 (entry 0 (word_of_nat s)) @ drop 32 table) = length table" using mem by simp
    qed (use True in \<open>auto simp: nth_append cl_code_def one\<close>)
  next
    case False
    have code: "concat (map (\<lambda>l. map (\<lambda>s. (l, word_of_nat s)) (syms_of_len ?lens l)) [1..<6]) = cl_code cl"
      by (simp add: cl_code_def code_of_def map_concat comp_def map_prod_def)
    have ok: "code_ok 5 (cl_code cl)" by (simp add: cl_code_def code_ok_code_of)
    have le5: "\<forall>(l, s)\<in>set (cl_code cl). l \<le> 5" using ok by (auto simp: code_ok_def)
    have "span 8 (cl_code cl) \<le> 256" using span_scale [OF le5, of 3] kraft by simp
    then obtain t where t: "fill_flat 5 (cl_code cl) 0 table = Some (span 8 (cl_code cl), t)"
        "length t = length table"
        "\<And>i l s. i < 2 ^ 5 \<Longrightarrow> canon 8 (cl_code cl) (rev_bits 8 i) = Some (l, s) \<Longrightarrow> t ! i = entry l s"
      using fill_flat_complete [OF ok _ _, of table] mem by auto
    have "fill_code_lengths cnt srt 0 1 0 (2 ^ (8 - 1)) (2 ^ 1) table =
        map_option snd (fill_flat 5 (concat (map (\<lambda>l. map (\<lambda>s. (l, word_of_nat s)) (syms_of_len ?lens l)) [1..<6])) 0 table)"
    proof (rule fill_code_lengths_flat)
      have "(\<Sum>b\<leftarrow>[1..<6]. length (syms_of_len ?lens b)) = length (code_of 5 ?lens)"
        by (simp add: code_of_def length_concat comp_def)
      moreover have "length (code_of 5 ?lens) \<le> 18"
      proof -
        have "(\<Sum>b\<leftarrow>[1..<6]. length (syms_of_len ?lens b)) = start ?lens 0"
          using len(1) by (simp add: start_def below_def syms_of_len_def)
        then show ?thesis
          using start_bound [of ?lens 0] len calculation by simp
      qed
      ultimately show "0 + (\<Sum>b\<leftarrow>[1..<6]. length (syms_of_len ?lens b)) \<le> length srt" by (simp add: srt(2))
    qed (use cnt srt(4) in auto)
    then have "fill_code_lengths cnt srt 0 1 0 (2 ^ (8 - 1)) (2 ^ 1) table = Some t"
      unfolding code by (simp add: t(1))
    then have "BrotliBuildCodeLengthsHuffmanTable table cl cnt = Some t"
      using srt(1,3) False
      by (simp add: BrotliBuildCodeLengthsHuffmanTable_def BROTLI_CODE_LENGTH_CODES_def lc
          BROTLI_REVERSE_BITS_LOWEST_def Let_def)
    moreover have "t ! i = entry l s" if "i < 32" "canon 5 (cl_code cl) (rev_bits 5 i) = Some (l, s)" for i l s
    proof -
      have "rev_bits 8 i = 8 * rev_bits 5 i" using rev_bits_append [of 5 3 i] that(1) by simp
      then have "canon 8 (cl_code cl) (rev_bits 8 i) = Some (l, s)"
        using canon_scale [OF le5, of 3 "rev_bits 8 i"] that(2) by simp
      then show ?thesis using t(3) that(1) by simp
    qed
    ultimately show ?thesis using t(2) False by (intro that [of t]) auto
  qed
qed

section \<open>Properties\<close>

text \<open>C8: The table of a simple code (one to four explicitly listed symbols, with both shapes
  for four) decodes the prefix code that the format defines for the list, whatever order the
  stream gave the symbols in: those of one length are sorted.\<close>

theorem simple_table_correct:
  assumes "num_symbols \<le> 4" "(if num_symbols = 4 then 4 else Suc num_symbols) \<le> length val"
    and "256 \<le> length table"
  shows "\<exists>table' val'. BrotliBuildSimpleHuffmanTable table 8 val num_symbols = Some (256, table', val') \<and>
    length table' = length table \<and> table_ok (simple_code num_symbols val) (take 256 table')"
  by (rule simple_table [OF assms])

theorem simple_table_witness:
  "\<exists>table' val'. BrotliBuildSimpleHuffmanTable (replicate 256 (entry 0 0)) 8 [9, 5, 7, 2] 4 =
      Some (256, table', val') \<and> length table' = 256 \<and>
    table_ok [(1, 9), (2, 5), (3, 2), (3, 7)] (take 256 table')"
  using simple_table_correct [of 4 "[9, 5, 7, 2]" "replicate 256 (entry 0 0)"]
  by (simp add: simple_code_def)

text \<open>The one-level table of the code length code gives, for each 5 bits, the canonical
  code they start with; with a single used symbol every entry is that symbol at length 0.\<close>

theorem build_code_lengths_table_correct:
  assumes "length cl = 18" "\<forall>s<18. unat (cl ! s) < 6"
    and "\<forall>l. 0 < l \<and> l < 6 \<longrightarrow> unat (cnt ! l) = length (syms_of_len (map unat cl) l)"
    and "32 \<le> length table" "span 5 (cl_code cl) \<le> 32"
  shows "\<exists>table'. BrotliBuildCodeLengthsHuffmanTable table cl cnt = Some table' \<and>
    length table' = length table \<and>
    (\<forall>i<32. if length (cl_code cl) = 1 then table' ! i = entry 0 (snd (hd (cl_code cl)))
       else case canon 5 (cl_code cl) (rev_bits 5 i) of None \<Rightarrow> True | Some (l, s) \<Rightarrow> table' ! i = entry l s)"
proof -
  obtain table' where "BrotliBuildCodeLengthsHuffmanTable table cl cnt = Some table'"
    "length table' = length table"
    "\<And>i. i < 32 \<Longrightarrow> length (cl_code cl) = 1 \<Longrightarrow> table' ! i = entry 0 (snd (hd (cl_code cl)))"
    "\<And>i l s. i < 32 \<Longrightarrow> length (cl_code cl) \<noteq> 1 \<Longrightarrow>
      canon 5 (cl_code cl) (rev_bits 5 i) = Some (l, s) \<Longrightarrow> table' ! i = entry l s"
    by (rule build_code_lengths_table [OF assms(1,2) _ assms(4,5)]) (use assms(3) in auto)
  then show ?thesis by (intro exI [of _ table']) (auto split: option.split)
qed

definition demo_cl :: "u8 list" where
  "demo_cl = [2, 0, 2, 1, 0, 0, 0, 0, 0, 0, 0, 0, 0, 0, 0, 0, 0, 0]"

theorem build_code_lengths_table_witness:
  "\<exists>table'. BrotliBuildCodeLengthsHuffmanTable (replicate 32 (entry 0 0)) demo_cl [0, 1, 2, 0, 0, 0] = Some table' \<and>
    length table' = 32 \<and>
    (\<forall>i<32. case canon 5 (cl_code demo_cl) (rev_bits 5 i) of None \<Rightarrow> True | Some (l, s) \<Rightarrow> table' ! i = entry l s)"
proof -
  have "cl_code demo_cl = [(1, 3), (2, 0), (2, 2)]" by code_simp
  moreover have "\<forall>s<18. unat (demo_cl ! s) < 6"
    by (simp add: demo_cl_def all_less_upt upt_rec)
  moreover have "syms_of_len (map unat demo_cl) l = (if l = 1 then [3] else if l = 2 then [0, 2] else [])"
    if "0 < l" for l
    using that by (auto simp: syms_of_len_def demo_cl_def upt_rec)
  then have "\<forall>l. 0 < l \<and> l < 6 \<longrightarrow>
      unat ([0, 1, 2, 0, 0, 0 :: u16] ! l) = length (syms_of_len (map unat demo_cl) l)"
    by (auto simp: less_6_cases)
  ultimately show ?thesis
    using build_code_lengths_table_correct [of demo_cl "[0, 1, 2, 0, 0, 0]" "replicate 32 (entry 0 0)"]
    by (simp add: demo_cl_def)
qed

end
