(* ===== verification/Brotli_Symbols.thy ===== *)
theory Brotli_Symbols
  imports Brotli_BitReader Brotli_SmallTables
begin

text \<open>
  The symbol readers of \<open>dec/decode.c\<close>: from a table (the memory from the \<open>table\<close> pointer
  on) and the bit reader to the next symbol, in the fast form that peeks 15 or more bits,
  the safe form for the end of the input, and the preloaded form of the literal loop. An
  access outside the table is \<open>None\<close>; in the safe readers the inner option is the Boolean
  result with the value stored through \<open>result\<close>.
\<close>

section \<open>Operations\<close>

definition HUFFMAN_TABLE_BITS :: u32 where
  "HUFFMAN_TABLE_BITS = 8"

definition HUFFMAN_TABLE_MASK :: u32 where
  "HUFFMAN_TABLE_MASK = 0xFF"

definition hc_at :: "HuffmanCode list \<Rightarrow> nat \<Rightarrow> HuffmanCode option" where
  "hc_at table i = (if i < length table then Some (table ! i) else None)"

definition DecodeSymbol :: "u32 \<Rightarrow> HuffmanCode list \<Rightarrow> BrotliBitReader \<Rightarrow>
    (u32 \<times> BrotliBitReader) option" where
  "DecodeSymbol bits table br =
    do {
      let idx = unat (bits AND HUFFMAN_TABLE_MASK);
      h \<leftarrow> hc_at table idx;
      (h, br) \<leftarrow>
        (if ucast (hc_bits h) > HUFFMAN_TABLE_BITS then
           do {
             let nbits = ucast (hc_bits h) - HUFFMAN_TABLE_BITS;
             let br = BrotliDropBits HUFFMAN_TABLE_BITS br;
             h \<leftarrow> hc_at table (idx + unat (hc_value h) +
               unat (drop_bit (unat HUFFMAN_TABLE_BITS) bits AND BitMask False nbits));
             Some (h, br) }
         else Some (h, br));
      Some (ucast (hc_value h), BrotliDropBits (ucast (hc_bits h)) br) }"

definition ReadSymbol :: "HuffmanCode list \<Rightarrow> BrotliBitReader \<Rightarrow> (u32 \<times> BrotliBitReader) option" where
  "ReadSymbol table br =
    do { (bits, br) \<leftarrow> BrotliGet16BitsUnmasked br; DecodeSymbol bits table br }"

definition SafeDecodeSymbol :: "HuffmanCode list \<Rightarrow> BrotliBitReader \<Rightarrow>
    (u32 option \<times> BrotliBitReader) option" where
  "SafeDecodeSymbol table br =
    (let available_bits = BrotliGetAvailableBits br in
     if available_bits = 0 then
       do {
         h \<leftarrow> hc_at table 0;
         if hc_bits h = 0 then Some (Some (ucast (hc_value h)), br) else Some (None, br) }
     else
       do {
         let val = (ucast (BrotliGetBitsUnmasked br) :: u32);
         let idx = unat (val AND HUFFMAN_TABLE_MASK);
         h \<leftarrow> hc_at table idx;
         if ucast (hc_bits h) \<le> HUFFMAN_TABLE_BITS then
           (if ucast (hc_bits h) \<le> available_bits
            then Some (Some (ucast (hc_value h)), BrotliDropBits (ucast (hc_bits h)) br)
            else Some (None, br))
         else if available_bits \<le> HUFFMAN_TABLE_BITS then Some (None, br)
         else
           do {
             let val = drop_bit (unat HUFFMAN_TABLE_BITS) (val AND BitMask False (ucast (hc_bits h)));
             let available_bits = available_bits - HUFFMAN_TABLE_BITS;
             h \<leftarrow> hc_at table (idx + unat (hc_value h) + unat val);
             if available_bits < ucast (hc_bits h) then Some (None, br)
             else Some (Some (ucast (hc_value h)),
                        BrotliDropBits (HUFFMAN_TABLE_BITS + ucast (hc_bits h)) br) } })"

definition SafeReadSymbol :: "HuffmanCode list \<Rightarrow> BrotliBitReader \<Rightarrow>
    (u32 option \<times> BrotliBitReader) option" where
  "SafeReadSymbol table br =
    (case BrotliSafeGetBits 15 br of
       (Some val, br) \<Rightarrow> do { (s, br) \<leftarrow> DecodeSymbol val table br; Some (Some s, br) }
     | (None, br) \<Rightarrow> SafeDecodeSymbol table br)"

text \<open>\<open>PreloadSymbol\<close> leaves \<open>bits\<close> and \<open>value\<close> alone when \<open>safe\<close> is set.\<close>

definition PreloadSymbol :: "bool \<Rightarrow> HuffmanCode list \<Rightarrow> BrotliBitReader \<Rightarrow> u32 \<times> u32 \<Rightarrow>
    ((u32 \<times> u32) \<times> BrotliBitReader) option" where
  "PreloadSymbol safe table br bits_value =
    (if safe then Some (bits_value, br)
     else
       do {
         (v, br) \<leftarrow> BrotliGetBits True HUFFMAN_TABLE_BITS br;
         h \<leftarrow> hc_at table (unat v);
         Some ((ucast (hc_bits h), ucast (hc_value h)), br) })"

definition ReadPreloadedSymbol :: "HuffmanCode list \<Rightarrow> BrotliBitReader \<Rightarrow> u32 \<times> u32 \<Rightarrow>
    (u32 \<times> (u32 \<times> u32) \<times> BrotliBitReader) option" where
  "ReadPreloadedSymbol table br bits_value =
    (case bits_value of (bits, value) \<Rightarrow>
     do {
       (result, br) \<leftarrow>
         (if bits > HUFFMAN_TABLE_BITS then
            do {
              (val, br) \<leftarrow> BrotliGet16BitsUnmasked br;
              let ext = unat (val AND HUFFMAN_TABLE_MASK) + unat value;
              let mask = BitMask False (bits - HUFFMAN_TABLE_BITS);
              let br = BrotliDropBits HUFFMAN_TABLE_BITS br;
              h \<leftarrow> hc_at table (ext + unat (drop_bit (unat HUFFMAN_TABLE_BITS) val AND mask));
              Some (ucast (hc_value h), BrotliDropBits (ucast (hc_bits h)) br) }
          else Some (value, BrotliDropBits bits br));
       (bits_value, br) \<leftarrow> PreloadSymbol False table br bits_value;
       Some (result, bits_value, br) })"

section \<open>Decoding through a table\<close>

lemma table_okD:
  assumes "table_ok cs tab"
  shows "256 \<le> length tab"
    and "\<And>j. j < 256 \<Longrightarrow> 8 < unat (hc_bits (tab ! j)) \<Longrightarrow>
      link_bits (tab ! j) \<le> 7 \<and> link_off j (tab ! j) + 2 ^ link_bits (tab ! j) \<le> length tab"
    and "\<And>v. canon 16 cs (rev_bits 16 v) = Some (table_lookup tab v)"
    and "\<forall>c\<in>set cs. fst c \<le> 15"
    and "\<And>v. 8 < unat (hc_bits (tab ! (v mod 256))) \<Longrightarrow> 8 < fst (table_lookup tab v)"
  using assms unfolding table_ok_def by blast+

lemma table_lookup_le:
  assumes "table_ok cs tab"
  shows "fst (table_lookup tab v) \<le> 15"
  using canon_mem [OF table_okD(3) [OF assms]] table_okD(4) [OF assms] by blast

lemma and_0xFF: "unat (w AND 0xFF :: u32) = unat w mod 256"
proof -
  have e: "w AND 0xFF = take_bit 8 w" by (simp add: take_bit_eq_mask mask_eq_exp_minus_1)
  show ?thesis unfolding e by (simp only: unat_take_bit_mod) simp
qed

lemma drop_bit_and_mask:
  assumes "n \<le> 32"
  shows "unat (drop_bit 8 w AND BitMask False n :: u32) = (unat w div 256) mod 2 ^ unat n"
proof -
  have e: "drop_bit 8 w AND BitMask False n = take_bit (unat n) (drop_bit 8 w)"
    unfolding BitMask_table [OF assms] by (rule take_bit_eq_mask [symmetric])
  show ?thesis unfolding e by (simp only: unat_take_bit_mod unat_drop_bit_div) simp
qed

text \<open>
  What the two levels of a lookup access: the first entry, and for a link the second entry,
  whose indices are inside the table.
\<close>

lemma lookup_levels:
  assumes ok: "table_ok cs tab" and h: "h = tab ! (v mod 256)"
  obtains
    (short) "unat (hc_bits h) \<le> 8" "hc_at tab (v mod 256) = Some h"
      "table_lookup tab v = (unat (hc_bits h), hc_value h)"
  | (long) h2 where "8 < unat (hc_bits h)" "unat (hc_bits h) \<le> 15" "hc_at tab (v mod 256) = Some h"
      "hc_at tab (v mod 256 + unat (hc_value h) + (v div 256) mod 2 ^ (unat (hc_bits h) - 8)) = Some h2"
      "table_lookup tab v = (8 + unat (hc_bits h2), hc_value h2)" "0 < unat (hc_bits h2)"
      "8 + unat (hc_bits h2) \<le> 15"
proof -
  have j: "v mod 256 < 256" by simp
  have at: "hc_at tab (v mod 256) = Some h" using table_okD(1) [OF ok] h j by (auto simp: hc_at_def)
  show thesis
  proof (cases "8 < unat (hc_bits h)")
    case False
    then show thesis using at h by (intro short) (simp_all add: table_lookup_def Let_def)
  next
    case True
    define i where "i = link_off (v mod 256) h + (v div 256) mod 2 ^ link_bits h"
    have lk: "link_bits h \<le> 7" "link_off (v mod 256) h + 2 ^ link_bits h \<le> length tab"
      using table_okD(2) [OF ok j] True by (simp_all add: h)
    have "(v div 256) mod 2 ^ link_bits h < 2 ^ link_bits h" by simp
    then have "i < length tab" using lk(2) unfolding i_def by linarith
    then have at2: "hc_at tab i = Some (tab ! i)" by (simp add: hc_at_def)
    have tl: "table_lookup tab v = (8 + unat (hc_bits (tab ! i)), hc_value (tab ! i))"
      using True by (simp add: table_lookup_def Let_def i_def flip: h)
    have "8 < fst (table_lookup tab v)" using table_okD(5) [OF ok] True by (simp add: h)
    then have b: "0 < unat (hc_bits (tab ! i))" unfolding tl by simp
    have i: "i = v mod 256 + unat (hc_value h) + (v div 256) mod 2 ^ (unat (hc_bits h) - 8)"
      by (simp add: i_def link_off_def link_bits_def)
    show thesis
      using True lk(1) at at2 tl b table_lookup_le [OF ok, of v]
      by (intro long [of "tab ! i"]) (simp_all add: link_bits_def flip: i)
  qed
qed

lemma DropBits_twice: "BrotliDropBits m (BrotliDropBits n br) = BrotliDropBits (n + m) br"
  by (simp add: BrotliDropBits_def add.assoc)

lemma ucast_u8_u32: "unat (ucast (w :: u8) :: u32) = unat w"
proof -
  have "unat w < 2 ^ 32" using unsigned_less [of w, where 'a = nat] by simp
  then have "take_bit 32 (unat w) = unat w" by (rule take_bit_nat_eq_self)
  then show ?thesis by (simp add: unsigned_ucast_eq)
qed

lemma less_8_u32: "(8 :: u32) < ucast (w :: u8) \<longleftrightarrow> 8 < unat w" "ucast w \<le> (8 :: u32) \<longleftrightarrow> unat w \<le> 8"
  by (simp_all add: word_less_nat_alt word_le_nat_alt ucast_u8_u32)

lemma DecodeSymbol_eq:
  assumes ok: "table_ok cs tab"
  shows "DecodeSymbol bits tab br = Some (ucast (snd (table_lookup tab (unat bits))),
    BrotliDropBits (word_of_nat (fst (table_lookup tab (unat bits)))) br)"
proof -
  define v h where "v = unat bits" and "h = tab ! (v mod 256)"
  have idx: "unat (bits AND HUFFMAN_TABLE_MASK) = v mod 256"
    by (simp add: HUFFMAN_TABLE_MASK_def and_0xFF v_def)
  from ok h_def show ?thesis
  proof (cases rule: lookup_levels)
    case short
    have "(ucast (hc_bits h) :: u32) = word_of_nat (unat (hc_bits h))" by simp
    with short show ?thesis
      by (simp add: DecodeSymbol_def idx HUFFMAN_TABLE_BITS_def less_8_u32 Let_def not_less flip: v_def)
  next
    case (long h2)
    have n: "unat (ucast (hc_bits h) - 8 :: u32) = unat (hc_bits h) - 8"
      using long(1) by (simp add: unat_sub word_le_nat_alt ucast_u8_u32)
    have "(ucast (hc_bits h) - 8 :: u32) \<le> 32" using long(1,2) by (simp add: word_le_nat_alt n)
    note m = drop_bit_and_mask [OF this, of bits, unfolded n, folded v_def]
    have d: "BrotliDropBits (ucast (hc_bits h2)) (BrotliDropBits 8 br) =
        BrotliDropBits (word_of_nat (8 + unat (hc_bits h2))) br"
      by (simp add: DropBits_twice)
    show ?thesis
      using long by (simp add: DecodeSymbol_def idx HUFFMAN_TABLE_BITS_def less_8_u32 Let_def m d flip: v_def)
  qed
qed


section \<open>Reading the next symbol\<close>

text \<open>Peeking: \<open>BrotliSafeGetBits\<close> either has the bits in the accumulator or has drained the input.\<close>

lemma safe_get_bits:
  assumes ok: "br_ok br" and n: "n \<le> 32"
  obtains v br' where "unat n \<le> length (br_bits br)" "BrotliSafeGetBits n br = (Some v, br')"
      "unat v = bits_val (take (unat n) (br_bits br))" "br_ok br'" "br_bits br' = br_bits br"
      "unat n \<le> br_avail_bits br'"
  | br' where "length (br_bits br) < unat n" "BrotliSafeGetBits n br = (None, br')"
      "br_ok br'" "br_bits br' = br_bits br" "br_avail_in br' = 0"
proof -
  obtain b br1 where p: "pull_until n br = (b, br1)" by (cases "pull_until n br")
  have n56: "n \<le> 56" using n by (rule order_trans) simp
  note q = pull_until_bits [OF ok n56 p]
  show thesis
  proof (cases b)
    case True
    then have av: "unat n \<le> br_avail_bits br1" and ok1: "br_ok br1" and bits: "br_bits br1 = br_bits br"
      and le: "unat n \<le> length (br_bits br)" using q by blast+
    obtain v br2 where t: "BrotliTakeBits n br1 = (v, br2)" by (cases "BrotliTakeBits n br1")
    then have v: "v = ucast (BrotliGetBitsUnmasked br1) AND BitMask False n" by (simp add: BrotliTakeBits_def)
    have "BrotliSafeGetBits n br = (Some v, br1)" using p True by (simp add: BrotliSafeGetBits_def v)
    then show thesis using that(1) take_bits_bits(3) [OF ok1 av n t] av ok1 bits le by simp
  next
    case False
    then show thesis using that(2) q p by (simp add: BrotliSafeGetBits_def)
  qed
qed

text \<open>
  The bits in the accumulator as a number: all of them, since the shift brings in zeros.
\<close>

lemma unmasked_all:
  assumes ok: "br_ok br"
  shows "unat (BrotliGetBitsUnmasked br) = bits_val (word_bits (br_val br) (unat (br_bit_pos br)) 64)"
proof -
  let ?p = "unat (br_bit_pos br)"
  have p: "?p \<le> 64" by (rule br_okD(1) [OF ok])
  have "word_bits (BrotliGetBitsUnmasked br) 0 (64 - ?p) = word_bits (br_val br) ?p 64"
    using p by (intro word_bits_eqI) (auto simp: BrotliGetBitsUnmasked_def bit_drop_bit_eq)
  then have "bits_val (word_bits (br_val br) ?p 64) = unat (BrotliGetBitsUnmasked br) mod 2 ^ (64 - ?p)"
    by (simp flip: bits_val_word_bits)
  moreover have "unat (BrotliGetBitsUnmasked br) < 2 ^ (64 - ?p)"
  proof -
    have "unat (br_val br) < 2 ^ 64" using unsigned_less [of "br_val br", where 'a = nat] by simp
    then have "unat (br_val br) < 2 ^ (64 - ?p) * 2 ^ ?p" using p by (simp flip: power_add)
    then have "unat (br_val br) div 2 ^ ?p < 2 ^ (64 - ?p)" by (rule less_mult_imp_div_less)
    moreover have "unat (BrotliGetBitsUnmasked br) = unat (br_val br) div 2 ^ ?p"
      unfolding BrotliGetBitsUnmasked_def by (rule unat_drop_bit_div)
    ultimately show ?thesis by simp
  qed
  ultimately show ?thesis by simp
qed

text \<open>
  What a symbol read does to the stream: with the code \<open>(l, s)\<close> at its front it delivers
  \<open>s\<close> and drops \<open>l\<close> bits.
\<close>

lemma drop_code:
  assumes "br_ok br" "l \<le> br_avail_bits br" "l \<le> 15"
  shows "br_ok (BrotliDropBits (word_of_nat l) br)"
    and "br_bits (BrotliDropBits (word_of_nat l) br) = drop l (br_bits br)"
    and "br_avail_bits (BrotliDropBits (word_of_nat l) br) = br_avail_bits br - l"
proof -
  have l: "unat (word_of_nat l :: u32) = l" using assms(3) by (intro unat_word_of_nat_small) simp
  show "br_ok (BrotliDropBits (word_of_nat l) br)"
    "br_bits (BrotliDropBits (word_of_nat l) br) = drop l (br_bits br)"
    "br_avail_bits (BrotliDropBits (word_of_nat l) br) = br_avail_bits br - l"
    using drop_bits_bits [OF assms(1), of "word_of_nat l"] assms(2) by (simp_all add: l)
qed

lemma safe_decode_symbol:
  assumes ok: "br_ok br" and tab: "table_ok cs tab" and drained: "br_avail_in br = 0" "br_avail_bits br < 15"
    and c: "next_code cs (br_bits br) = Some (l, s)"
  shows "SafeDecodeSymbol tab br = Some
    (if l \<le> br_avail_bits br then (Some (ucast s), BrotliDropBits (word_of_nat l) br) else (None, br))"
proof -
  define n v where "n = br_avail_bits br" and "v = bits_val (br_bits br)"
  have bits: "br_bits br = word_bits (br_val br) (unat (br_bit_pos br)) 64"
    using drained ok by (simp add: br_bits_def br_input_def)
  have vb: "v < 2 ^ 15"
  proof -
    have "v < 2 ^ n" using bits_val_bound [of "br_bits br"] ok drained by (simp add: v_def n_def)
    also have "(2::nat) ^ n \<le> 2 ^ 15" using drained(2) by (intro power_increasing) (auto simp: n_def)
    finally show ?thesis .
  qed
  have u: "unat (ucast (BrotliGetBitsUnmasked br) :: u32) = v"
  proof -
    have "unat (BrotliGetBitsUnmasked br) = v" using unmasked_all [OF ok] by (simp add: v_def bits)
    moreover have "take_bit 32 v = v" using vb by (intro take_bit_nat_eq_self) simp
    ultimately show ?thesis by (simp add: unsigned_ucast_eq)
  qed
  have av: "unat (BrotliGetAvailableBits br) = n" using available_bits_unat [OF ok] by (simp add: n_def)
  have lk: "table_lookup tab v = (l, s)" using c table_okD(3) [OF tab, of v] by (simp add: next_code_def v_def)
  define h where "h = tab ! (v mod 256)"
  have idx: "unat (ucast (BrotliGetBitsUnmasked br) AND HUFFMAN_TABLE_MASK) = v mod 256"
    by (simp add: HUFFMAN_TABLE_MASK_def and_0xFF u)
  have le: "ucast w \<le> BrotliGetAvailableBits br \<longleftrightarrow> unat w \<le> n" for w :: u8
    by (simp add: word_le_nat_alt ucast_u8_u32 av)
  show ?thesis
  proof (cases "n = 0")
    case True
    then have z: "BrotliGetAvailableBits br = 0" using av by (simp add: unat_eq_zero)
    have "br_bits br = []" using bits True by (simp add: n_def)
    then have v0: "v = 0" by (simp add: v_def)
    from tab h_def show ?thesis
    proof (cases rule: lookup_levels)
      case short
      then show ?thesis using lk True z
        by (auto simp: SafeDecodeSymbol_def v0 BrotliDropBits_def n_def unat_eq_zero Let_def)
    next
      case (long h2)
      then have "0 < l" "hc_bits h \<noteq> 0" using lk by auto
      then show ?thesis using long(3) True z by (simp add: SafeDecodeSymbol_def v0 n_def Let_def)
    qed
  next
    case False
    then have nz: "BrotliGetAvailableBits br \<noteq> 0" using av by auto
    from tab h_def show ?thesis
    proof (cases rule: lookup_levels)
      case short
      then have l: "l = unat (hc_bits h)" "s = hc_value h" using lk by auto
      show ?thesis
        using short nz
        by (simp add: SafeDecodeSymbol_def idx HUFFMAN_TABLE_BITS_def less_8_u32 le l Let_def flip: n_def)
    next
      case (long h2)
      then have l: "l = 8 + unat (hc_bits h2)" "s = hc_value h2" using lk by auto
      have hb: "ucast (hc_bits h) \<le> (32 :: u32)" using long(2) by (simp add: word_le_nat_alt ucast_u8_u32)
      have second: "unat (drop_bit 8 (ucast (BrotliGetBitsUnmasked br) AND BitMask False (ucast (hc_bits h))) :: u32) =
          (v div 256) mod 2 ^ (unat (hc_bits h) - 8)"
      proof -
        have "(2::nat) ^ unat (hc_bits h) = 256 * 2 ^ (unat (hc_bits h) - 8)"
          using long(1) power_add [of "2::nat" 8 "unat (hc_bits h) - 8"] by simp
        then have "v mod 2 ^ unat (hc_bits h) div 256 = (v div 256) mod 2 ^ (unat (hc_bits h) - 8)"
          by (simp add: mod_mult2_eq)
        moreover have "ucast (BrotliGetBitsUnmasked br) AND BitMask False (ucast (hc_bits h)) =
            (take_bit (unat (hc_bits h)) (ucast (BrotliGetBitsUnmasked br)) :: u32)"
          unfolding BitMask_table [OF hb] ucast_u8_u32 by (rule take_bit_eq_mask [symmetric])
        ultimately show ?thesis by (simp only: unat_drop_bit_div unat_take_bit_mod u) simp
      qed
      have le8: "BrotliGetAvailableBits br \<le> 8 \<longleftrightarrow> n \<le> 8" by (simp add: word_le_nat_alt av)
      have lt: "BrotliGetAvailableBits br - 8 < ucast (hc_bits h2) \<longleftrightarrow> n < l" if "8 < n"
      proof -
        have "unat (BrotliGetAvailableBits br - 8) = n - 8" using that by (simp add: unat_sub word_le_nat_alt av)
        then show ?thesis using that by (auto simp: word_less_nat_alt ucast_u8_u32 l)
      qed
      have d: "BrotliDropBits (8 + ucast (hc_bits h2)) br = BrotliDropBits (word_of_nat l) br" by (simp add: l)
      show ?thesis
      proof (cases "n \<le> 8")
        case True
        then have "\<not> l \<le> n" using long(6) l by simp
        then show ?thesis
          using long(1,3) nz True le8
          by (simp add: SafeDecodeSymbol_def idx HUFFMAN_TABLE_BITS_def less_8_u32 Let_def flip: n_def)
      next
        case False
        then show ?thesis
          using long(1,3,4) nz le8 lt d l
          by (simp add: SafeDecodeSymbol_def idx HUFFMAN_TABLE_BITS_def less_8_u32 second Let_def not_less
              del: drop_bit_and flip: n_def)
      qed
    qed
  qed
qed


lemma next_code_lookup:
  assumes "table_ok cs tab" "v mod 2 ^ 15 = bits_val bs mod 2 ^ 15"
  shows "next_code cs bs = Some (table_lookup tab v)"
  unfolding next_code_def using table_okD(3) [OF assms(1)] next_code_15 [OF table_okD(4) [OF assms(1)] assms(2)]
  by simp

lemma next_code_le:
  assumes "table_ok cs tab" "next_code cs bs = Some (l, s)"
  shows "l \<le> 15"
proof -
  have "(l, s) \<in> set cs" using assms(2) canon_mem by (auto simp: next_code_def)
  then show ?thesis using table_okD(4) [OF assms(1)] by fastforce
qed

lemma safe_read_symbol:
  assumes ok: "br_ok br" and tab: "table_ok cs tab" and c: "next_code cs (br_bits br) = Some (l, s)"
  obtains br' where "l \<le> length (br_bits br)" "SafeReadSymbol tab br = Some (Some (ucast s), br')"
      "br_ok br'" "br_bits br' = drop l (br_bits br)"
  | br' where "length (br_bits br) < l" "SafeReadSymbol tab br = Some (None, br')"
      "br_ok br'" "br_bits br' = br_bits br"
proof -
  have l15: "l \<le> 15" by (rule next_code_le [OF tab c])
  have "(15 :: u32) \<le> 32" by simp
  from ok this show thesis
  proof (cases rule: safe_get_bits)
    case (1 v br1)
    have len: "l \<le> length (br_bits br)" "l \<le> br_avail_bits br1" using 1 l15 by auto
    have "unat v mod 2 ^ 15 = bits_val (br_bits br) mod 2 ^ 15" using 1(3) by (simp add: bits_val_take)
    then have "next_code cs (br_bits br) = Some (table_lookup tab (unat v))" by (rule next_code_lookup [OF tab])
    then have "table_lookup tab (unat v) = (l, s)" using c by simp
    then have "SafeReadSymbol tab br = Some (Some (ucast s), BrotliDropBits (word_of_nat l) br1)"
      by (simp add: SafeReadSymbol_def 1(2) DecodeSymbol_eq [OF tab])
    note r = this
    show thesis
      by (rule that(1) [OF len(1) r]) (simp_all only: drop_code(1,2) [OF 1(4) len(2) l15] 1(5))
  next
    case (2 br1)
    have "length (br_bits br1) = br_avail_bits br1" using 2(3,5) by simp
    then have av: "br_avail_bits br1 < 15" "length (br_bits br) = br_avail_bits br1" using 2(1,4) by simp_all
    have "next_code cs (br_bits br1) = Some (l, s)" using c 2(4) by simp
    note d = safe_decode_symbol [OF 2(3) tab 2(5) av(1) this]
    show thesis
    proof (cases "l \<le> br_avail_bits br1")
      case True
      then show thesis
        using that(1) [of "BrotliDropBits (word_of_nat l) br1"] d drop_code [OF 2(3) True l15] 2 av
        by (simp add: SafeReadSymbol_def)
    next
      case False
      then show thesis using that(2) [of br1] d 2 av by (simp add: SafeReadSymbol_def)
    qed
  qed
qed

text \<open>The fast reader, with a bit in the accumulator and 8 bytes of input.\<close>

lemma get_16_bits:
  assumes "br_ok br" "br_bit_pos br \<noteq> 64" "8 \<le> br_avail_in br"
  obtains v br' where "BrotliGet16BitsUnmasked br = Some (v, br')" "br_ok br'" "br_bits br' = br_bits br"
    "16 < br_avail_bits br'" "br_avail_in br \<le> br_avail_in br' + 7"
    "unat v mod 2 ^ 16 = bits_val (br_bits br) mod 2 ^ 16"
proof -
  have "(16 :: u32) \<le> 32" by simp
  from fill_bit_window_bits [OF assms this, of True] obtain br' where
    f: "BrotliFillBitWindow True 16 br = Some br'" "br_ok br'" "br_bits br' = br_bits br"
      "16 < br_avail_bits br'" "br_avail_in br \<le> br_avail_in br' + 7" by auto
  have "take 16 (br_bits br') = word_bits (BrotliGetBitsUnmasked br') 0 16"
    using f by (intro bits_val_br_bits) auto
  then have "bits_val (br_bits br) mod 2 ^ 16 = unat (BrotliGetBitsUnmasked br') mod 2 ^ 16"
    using bits_val_take [of 16 "br_bits br"] bits_val_word_bits [of "BrotliGetBitsUnmasked br'" 16]
    by (simp add: f(3))
  moreover have "unat (ucast (BrotliGetBitsUnmasked br') :: u32) mod 2 ^ 16 =
      unat (BrotliGetBitsUnmasked br') mod 2 ^ 16"
  proof -
    have "(2::nat) ^ 16 dvd 2 ^ 32" by (rule le_imp_power_dvd) simp
    moreover have "unat (ucast (BrotliGetBitsUnmasked br') :: u32) = unat (BrotliGetBitsUnmasked br') mod 2 ^ 32"
      by (simp add: unsigned_ucast_eq take_bit_eq_mod)
    ultimately show ?thesis by (simp only: mod_mod_cancel)
  qed
  ultimately show thesis using f by (intro that) (simp_all add: BrotliGet16BitsUnmasked_def)
qed

lemma mod_16_15: "u mod 2 ^ 16 = v mod 2 ^ 16 \<Longrightarrow> (u::nat) mod 2 ^ 15 = v mod 2 ^ 15"
proof -
  assume "u mod 2 ^ 16 = v mod 2 ^ 16"
  then have "u mod 2 ^ 16 mod 2 ^ 15 = v mod 2 ^ 16 mod 2 ^ 15" by simp
  then show ?thesis by (simp only: mod_mod_cancel le_imp_power_dvd)
qed

lemma read_symbol:
  assumes "br_ok br" "br_bit_pos br \<noteq> 64" "8 \<le> br_avail_in br" and tab: "table_ok cs tab"
    and c: "next_code cs (br_bits br) = Some (l, s)"
  obtains br' where "ReadSymbol tab br = Some (ucast s, br')" "br_ok br'"
    "br_bits br' = drop l (br_bits br)" "br_bit_pos br' \<noteq> 64" "br_avail_in br \<le> br_avail_in br' + 7"
proof -
  have l15: "l \<le> 15" by (rule next_code_le [OF tab c])
  obtain v br1 where v: "BrotliGet16BitsUnmasked br = Some (v, br1)" "br_ok br1" "br_bits br1 = br_bits br"
      "16 < br_avail_bits br1" "br_avail_in br \<le> br_avail_in br1 + 7"
      "unat v mod 2 ^ 16 = bits_val (br_bits br) mod 2 ^ 16"
    using get_16_bits [OF assms(1-3)] .
  have lk: "table_lookup tab (unat v) = (l, s)"
    using next_code_lookup [OF tab mod_16_15 [OF v(6)]] c by simp
  have "l \<le> br_avail_bits br1" using v(4) l15 by simp
  note d = drop_code [OF v(2) this l15]
  have "br_avail_bits (BrotliDropBits (word_of_nat l) br1) \<noteq> 0" using d(3) v(4) l15 by simp
  then have "br_bit_pos (BrotliDropBits (word_of_nat l) br1) \<noteq> 64" by auto
  then show thesis
    using v d
    by (intro that [of "BrotliDropBits (word_of_nat l) br1"])
       (simp_all add: ReadSymbol_def DecodeSymbol_eq [OF tab] lk BrotliDropBits_def)
qed

text \<open>
  The preloaded form. \<open>preloaded\<close>: the pair holds the first-level entry for the next eight
  bits, which are in the accumulator.
\<close>

definition preloaded :: "HuffmanCode list \<Rightarrow> BrotliBitReader \<Rightarrow> u32 \<times> u32 \<Rightarrow> bool" where
  "preloaded tab br bits_value \<longleftrightarrow>
    (let h = tab ! (bits_val (br_bits br) mod 256) in
     bits_value = (ucast (hc_bits h), ucast (hc_value h))) \<and> 8 < br_avail_bits br"

lemma preload_symbol:
  assumes "br_ok br" "br_bit_pos br \<noteq> 64" "8 \<le> br_avail_in br" and tab: "table_ok cs tab"
  obtains br' bv where "PreloadSymbol False tab br x = Some (bv, br')" "br_ok br'"
    "br_bits br' = br_bits br" "preloaded tab br' bv" "br_avail_in br \<le> br_avail_in br' + 7"
proof -
  have "(8 :: u32) \<le> 32" by simp
  from fill_bit_window_bits [OF assms(1-3) this, of True] obtain br' where
    f: "BrotliFillBitWindow True 8 br = Some br'" "br_ok br'" "br_bits br' = br_bits br"
      "8 < br_avail_bits br'" "br_avail_in br \<le> br_avail_in br' + 7" by auto
  have "take 8 (br_bits br') = word_bits (BrotliGetBitsUnmasked br') 0 8"
    using f by (intro bits_val_br_bits) auto
  then have "bits_val (br_bits br) mod 256 = unat (BrotliGetBitsUnmasked br') mod 256"
    using bits_val_take [of 8 "br_bits br"] bits_val_word_bits [of "BrotliGetBitsUnmasked br'" 8]
    by (simp add: f(3))
  moreover have "unat (ucast (BrotliGetBitsUnmasked br') AND BitMask True 8 :: u32) =
      unat (BrotliGetBitsUnmasked br') mod 256"
    using BitMask_const [of 8] unat_masked [of 8 "BrotliGetBitsUnmasked br'"] by simp
  moreover have "bits_val (br_bits br) mod 256 < length tab"
    using table_okD(1) [OF tab] by (rule order.strict_trans2 [rotated]) simp
  ultimately show thesis
    using f by (intro that [of "(ucast (hc_bits (tab ! (bits_val (br_bits br) mod 256))),
        ucast (hc_value (tab ! (bits_val (br_bits br) mod 256))))" br'])
      (simp_all add: PreloadSymbol_def HUFFMAN_TABLE_BITS_def BrotliGetBits_def hc_at_def preloaded_def)
qed

lemma read_preloaded_symbol:
  assumes ok: "br_ok br" "15 \<le> br_avail_in br" and tab: "table_ok cs tab" and pre: "preloaded tab br bv"
    and c: "next_code cs (br_bits br) = Some (l, s)"
  obtains br' bv' where "ReadPreloadedSymbol tab br bv = Some (ucast s, bv', br')" "br_ok br'"
    "br_bits br' = drop l (br_bits br)" "preloaded tab br' bv'" "br_avail_in br \<le> br_avail_in br' + 14"
proof -
  have l15: "l \<le> 15" by (rule next_code_le [OF tab c])
  define v h where "v = bits_val (br_bits br)" and "h = tab ! (v mod 256)"
  have bv: "bv = (ucast (hc_bits h), ucast (hc_value h))" and av: "8 < br_avail_bits br"
    using pre by (auto simp: preloaded_def h_def v_def Let_def)
  have pos: "br_bit_pos br \<noteq> 64" using av by auto
  have lk: "table_lookup tab v = (l, s)" using next_code_lookup [OF tab] c by (simp add: v_def)
  have u16: "unat (ucast (w :: u16) :: u32) = unat w" for w
    using unsigned_less [of w, where 'a = nat] by (simp add: unsigned_ucast_eq take_bit_eq_mod)
  note finish = that
  have step: thesis
    if e: "ReadPreloadedSymbol tab br bv =
        do { (bv', br') \<leftarrow> PreloadSymbol False tab (BrotliDropBits (word_of_nat l) br1) bv;
             Some (ucast s, bv', br') }"
      and b: "br_ok br1" "br_bits br1 = br_bits br" "l < br_avail_bits br1" "br_avail_in br \<le> br_avail_in br1 + 7"
    for br1
  proof -
    let ?b = "BrotliDropBits (word_of_nat l) br1"
    note d = drop_code [OF b(1) less_imp_le [OF b(3)] l15]
    have "br_avail_bits ?b \<noteq> 0" using d(3) b(3) by simp
    then have p: "br_bit_pos ?b \<noteq> 64" by auto
    have "8 \<le> br_avail_in ?b" using b(4) ok(2) by (simp add: BrotliDropBits_def)
    from preload_symbol [OF d(1) p this tab, of bv] obtain br' bv' where
      "PreloadSymbol False tab ?b bv = Some (bv', br')" "br_ok br'"
      "br_bits br' = br_bits ?b" "preloaded tab br' bv'" "br_avail_in ?b \<le> br_avail_in br' + 7" .
    then show thesis
      using e b(2,4) d(2) by (intro finish [of bv' br']) (simp_all add: BrotliDropBits_def)
  qed
  from tab h_def show thesis
  proof (cases rule: lookup_levels)
    case short
    then have l: "l = unat (hc_bits h)" "s = hc_value h" using lk by auto
    show thesis
      using short(1) l av ok(1)
      by (intro step [of br])
         (simp_all add: ReadPreloadedSymbol_def bv HUFFMAN_TABLE_BITS_def less_8_u32 not_less)
  next
    case (long h2)
    then have l: "l = 8 + unat (hc_bits h2)" "s = hc_value h2" using lk by auto
    have "8 \<le> br_avail_in br" using ok(2) by simp
    from get_16_bits [OF ok(1) pos this] obtain val br1 where
      g: "BrotliGet16BitsUnmasked br = Some (val, br1)" "br_ok br1" "br_bits br1 = br_bits br"
        "16 < br_avail_bits br1" "br_avail_in br \<le> br_avail_in br1 + 7"
        "unat val mod 2 ^ 16 = bits_val (br_bits br) mod 2 ^ 16" .
    define u where "u = unat val"
    have u: "u mod 2 ^ 16 = v mod 2 ^ 16" using g(6) by (simp add: u_def v_def)
    have e1: "u mod 256 = v mod 256"
    proof -
      have "u mod 2 ^ 16 mod 2 ^ 8 = v mod 2 ^ 16 mod 2 ^ 8" by (simp only: u)
      then have "u mod 2 ^ 8 = v mod 2 ^ 8" by (simp only: mod_mod_cancel le_imp_power_dvd)
      then show ?thesis by simp
    qed
    have n: "unat (ucast (hc_bits h) - 8 :: u32) = unat (hc_bits h) - 8"
      using long(1) by (simp add: unat_sub word_le_nat_alt ucast_u8_u32)
    have e2: "(u div 256) mod 2 ^ (unat (hc_bits h) - 8) = (v div 256) mod 2 ^ (unat (hc_bits h) - 8)"
    proof -
      let ?k = "unat (hc_bits h) - 8"
      have "2 ^ (8 + ?k) dvd (2 :: nat) ^ 16" using long(2) by (intro le_imp_power_dvd) simp
      then have "u mod 2 ^ (8 + ?k) = v mod 2 ^ (8 + ?k)"
        using u mod_mod_cancel [of "2 ^ (8 + ?k)" "2 ^ 16" u] mod_mod_cancel [of "2 ^ (8 + ?k)" "2 ^ 16" v] by simp
      then have "u mod (256 * 2 ^ ?k) div 256 = v mod (256 * 2 ^ ?k) div 256" by (simp add: power_add)
      then show ?thesis by (simp add: mod_mult2_eq)
    qed
    have "(ucast (hc_bits h) - 8 :: u32) \<le> 32" using long(1,2) by (simp add: word_le_nat_alt n)
    note m = drop_bit_and_mask [OF this, of val, unfolded n, folded u_def]
    have d: "BrotliDropBits (ucast (hc_bits h2)) (BrotliDropBits 8 br1) = BrotliDropBits (word_of_nat l) br1"
      by (simp add: DropBits_twice l)
    have idx: "unat (val AND HUFFMAN_TABLE_MASK) = v mod 256"
      by (simp add: HUFFMAN_TABLE_MASK_def and_0xFF e1 flip: u_def)
    show thesis
      using long(1,4) g l15 l(2)
      by (intro step [of br1])
         (simp_all add: ReadPreloadedSymbol_def bv HUFFMAN_TABLE_BITS_def less_8_u32 Let_def m d idx u16 e2)
  qed
qed

section \<open>Properties\<close>

text \<open>
  A reader and a table for the witnesses: a stream of zeros, and the simple code of the
  symbols 3 (bit 0) and 9 (bit 1).
\<close>

definition demo_reader :: BrotliBitReader where
  "demo_reader = \<lparr>br_val = 0, br_bit_pos = 55, br_mem = replicate 17 0, br_next_in = 0, br_avail_in = 17\<rparr>"

lemma demo_reader_ok: "br_ok demo_reader" by code_simp

lemma demo_reader_bits: "br_bits demo_reader = replicate 145 False" by code_simp

lemma bits_val_zeros: "bits_val (replicate n False) = 0"
  by (induction n) auto

lemma demo_next: "next_code [(1, 3), (1, 9)] (br_bits demo_reader) = Some (1, 3)"
  by (simp add: next_code_def demo_reader_bits bits_val_zeros)

lemma demo_table:
  obtains tab val' where "BrotliBuildSimpleHuffmanTable (replicate 256 (entry 0 0)) 8 [9, 3] 1 = Some (256, tab, val')"
    "table_ok [(1, 3), (1, 9)] (take 256 tab)"
  using simple_table [of 1 "[9, 3]" "replicate 256 (entry 0 0)"] by (auto simp: simple_code_def)

text \<open>C9: \<open>SafeReadSymbol\<close> on a correct table: when the stream still holds the whole code word
  at its front, its symbol is delivered and exactly its bits are consumed; when it does not,
  the read is refused and no bit is lost.\<close>

theorem safe_read_symbol_correct:
  assumes "br_ok br" "table_ok cs tab" "next_code cs (br_bits br) = Some (l, s)"
  shows "\<exists>br'. br_ok br' \<and>
    (if l \<le> length (br_bits br)
     then SafeReadSymbol tab br = Some (Some (ucast s), br') \<and> br_bits br' = drop l (br_bits br)
     else SafeReadSymbol tab br = Some (None, br') \<and> br_bits br' = br_bits br)"
  by (rule safe_read_symbol [OF assms]) auto

theorem safe_read_symbol_witness:
  "\<exists>tab val' br'. BrotliBuildSimpleHuffmanTable (replicate 256 (entry 0 0)) 8 [9, 3] 1 = Some (256, tab, val') \<and>
    SafeReadSymbol (take 256 tab) demo_reader = Some (Some 3, br') \<and> br_bits br' = replicate 144 False"
proof -
  obtain tab val' where t: "BrotliBuildSimpleHuffmanTable (replicate 256 (entry 0 0)) 8 [9, 3] 1 = Some (256, tab, val')"
    "table_ok [(1, 3), (1, 9)] (take 256 tab)" by (rule demo_table)
  show ?thesis
    using t(1) safe_read_symbol_correct [OF demo_reader_ok t(2) demo_next] by (auto simp: demo_reader_bits)
qed

text \<open>C10: The fast reader agrees: with 8 bytes of input it delivers the symbol of the code word
  at the front of the stream, consumes exactly its bits and refills from at most 7 bytes.\<close>

theorem read_symbol_correct:
  assumes "br_ok br" "br_bit_pos br \<noteq> 64" "8 \<le> br_avail_in br" "table_ok cs tab"
    and "next_code cs (br_bits br) = Some (l, s)"
  shows "\<exists>br'. ReadSymbol tab br = Some (ucast s, br') \<and> br_ok br' \<and>
    br_bits br' = drop l (br_bits br) \<and> br_avail_in br \<le> br_avail_in br' + 7"
  by (rule read_symbol [OF assms]) auto

theorem read_symbol_witness:
  "\<exists>tab val' br'. BrotliBuildSimpleHuffmanTable (replicate 256 (entry 0 0)) 8 [9, 3] 1 = Some (256, tab, val') \<and>
    ReadSymbol (take 256 tab) demo_reader = Some (3, br') \<and> br_bits br' = replicate 144 False"
proof -
  obtain tab val' where t: "BrotliBuildSimpleHuffmanTable (replicate 256 (entry 0 0)) 8 [9, 3] 1 = Some (256, tab, val')"
    "table_ok [(1, 3), (1, 9)] (take 256 tab)" by (rule demo_table)
  have "br_bit_pos demo_reader \<noteq> 64" "8 \<le> br_avail_in demo_reader" by (simp_all add: demo_reader_def)
  from t(1) read_symbol_correct [OF demo_reader_ok this t(2) demo_next] show ?thesis
    by (auto simp: demo_reader_bits)
qed

text \<open>The preloaded reader of the literal loop delivers the symbol whose first-level entry
  was preloaded, consumes exactly its code word, and leaves the pair preloaded for the next
  symbol.\<close>

theorem read_preloaded_symbol_correct:
  assumes "br_ok br" "15 \<le> br_avail_in br" "table_ok cs tab" "preloaded tab br bv"
    and "next_code cs (br_bits br) = Some (l, s)"
  shows "\<exists>br' bv'. ReadPreloadedSymbol tab br bv = Some (ucast s, bv', br') \<and> br_ok br' \<and>
    br_bits br' = drop l (br_bits br) \<and> preloaded tab br' bv' \<and> br_avail_in br \<le> br_avail_in br' + 14"
  by (rule read_preloaded_symbol [OF assms]) auto

theorem read_preloaded_symbol_witness:
  "\<exists>tab val' br' bv'. BrotliBuildSimpleHuffmanTable (replicate 256 (entry 0 0)) 8 [9, 3] 1 = Some (256, tab, val') \<and>
    ReadPreloadedSymbol (take 256 tab) demo_reader (ucast (hc_bits (tab ! 0)), ucast (hc_value (tab ! 0))) =
      Some (3, bv', br') \<and> br_bits br' = replicate 144 False"
proof -
  obtain tab val' where t: "BrotliBuildSimpleHuffmanTable (replicate 256 (entry 0 0)) 8 [9, 3] 1 = Some (256, tab, val')"
    "table_ok [(1, 3), (1, 9)] (take 256 tab)" by (rule demo_table)
  have av: "15 \<le> br_avail_in demo_reader" by (simp add: demo_reader_def)
  have "preloaded (take 256 tab) demo_reader (ucast (hc_bits (tab ! 0)), ucast (hc_value (tab ! 0)))"
    by (simp add: preloaded_def demo_reader_bits bits_val_zeros) (simp add: demo_reader_def)
  from t(1) read_preloaded_symbol_correct [OF demo_reader_ok av t(2) this demo_next] show ?thesis
    by (auto simp: demo_reader_bits)
qed

text \<open>C6: From code lengths to symbols: with the table that \<open>BrotliBuildHuffmanTable\<close> makes for a
  complete code, \<open>SafeReadSymbol\<close> maps the canonical code word of every symbol, followed by
  anything, to that symbol and leaves the rest of the stream.\<close>

theorem built_table_reads_codeword:
  assumes rep: "lists_represent sl cnt cs" and ok: "code_ok 15 cs" "span 16 cs = 2 ^ 16"
    and mem: "huffman_table_size cnt cs \<le> length root_table"
    and b: "BrotliBuildHuffmanTable root_table 8 sl cnt = Some (used, tab, cnt')"
    and cs: "cs = pre @ (l, s) # post" and br: "br_ok br" "br_bits br = codeword pre l @ rest"
  shows "\<exists>br'. SafeReadSymbol (take used tab) br = Some (Some (ucast s), br') \<and> br_ok br' \<and> br_bits br' = rest"
proof -
  have t: "table_ok cs (take used tab)"
    using build_huffman_table [OF rep ok mem] b by (metis option.inject prod.inject)
  have "code_ok 16 cs" using ok(1) by (rule code_ok_mono) simp
  then have c: "next_code cs (br_bits br) = Some (l, s)"
    unfolding br(2) using cs by (rule next_code_codeword) (simp add: ok(2))
  have "l \<le> length (br_bits br)" by (simp add: br(2))
  then show ?thesis by (rule_tac safe_read_symbol [OF br(1) t c]) (auto simp: br(2))
qed

theorem built_table_witness:
  "\<exists>used tab cnt' br'. BrotliBuildHuffmanTable (replicate 260 (entry 0 0)) 8 demo_lists demo_count =
      Some (used, tab, cnt') \<and>
    SafeReadSymbol (take used tab) \<lparr>br_val = 0, br_bit_pos = 64, br_mem = [1], br_next_in = 0, br_avail_in = 1\<rparr> =
      Some (Some 1, br') \<and> br_bits br' = replicate 6 False"
proof -
  let ?br = "\<lparr>br_val = 0, br_bit_pos = 64, br_mem = [1], br_next_in = 0, br_avail_in = 1\<rparr>"
  have mem: "huffman_table_size demo_count demo_code \<le> length (replicate 260 (entry 0 0))"
    using demo_size by simp
  obtain used tab cnt' where b: "BrotliBuildHuffmanTable (replicate 260 (entry 0 0)) 8 demo_lists demo_count =
      Some (used, tab, cnt')"
    by (rule build_huffman_table [OF demo_represent demo_code_ok demo_span mem])
  have cs: "demo_code = [(1, 0)] @ (2, 1) # drop 2 demo_code" by (simp add: demo_code_def)
  have ok: "br_ok ?br" by code_simp
  have bits: "br_bits ?br = codeword [(1, 0 :: u16)] 2 @ replicate 6 False" by code_simp
  show ?thesis
    using b built_table_reads_codeword [OF demo_represent demo_code_ok demo_span mem b cs ok bits] by auto
qed

end
