(* ===== verification/Sgen_Sort.thy ===== *)
theory Sgen_Sort
  imports Brotli_Prelude "HOL-Library.Monad_Syntax" "HOL-Library.Multiset"
begin

text \<open>
  The two sorts of SGen: the quicksort of \<open>sgen/sgen-qsort.c\<close> (the inline copy of
  \<open>sgen-qsort.h\<close> is the same code on typed elements) and the heap sort
  \<open>sgen_sort_addresses\<close> of \<open>sgen/sgen-gc.c\<close>. The array is a list of elements, \<open>ssize_t\<close>
  indices are integers, \<open>size_t\<close> indices natural numbers; an access outside the array is
  \<open>None\<close>, and so is a loop that does not end. The element copies through \<open>pivot_tmp\<close> and
  \<open>swap_tmp\<close> are values. \<open>compare\<close> is the caller's function.
\<close>

section \<open>Quicksort\<close>

definition ELEM :: "'a list \<Rightarrow> int \<Rightarrow> 'a option" where
  "ELEM array i = (if 0 \<le> i \<and> i < int (length array) then Some (array ! nat i) else None)"

definition SET :: "'a list \<Rightarrow> int \<Rightarrow> 'a \<Rightarrow> 'a list option" where
  "SET array i x = (if 0 \<le> i \<and> i < int (length array) then Some (array[nat i := x]) else None)"

definition SWAP :: "'a list \<Rightarrow> int \<Rightarrow> int \<Rightarrow> 'a list option" where
  "SWAP array i j =
    (if i \<noteq> j then
       do {
         a \<leftarrow> ELEM array i;
         b \<leftarrow> ELEM array j;
         array \<leftarrow> SET array i b;
         SET array j a }
     else Some array)"

definition swap_if_less :: "('a \<Rightarrow> 'a \<Rightarrow> int) \<Rightarrow> 'a list \<Rightarrow> int \<Rightarrow> int \<Rightarrow> 'a list option" where
  "swap_if_less compare array i j =
    do {
      a \<leftarrow> ELEM array i;
      b \<leftarrow> ELEM array j;
      if compare a b < 0 then SWAP array i j else Some array }"

function scan_left :: "('a \<Rightarrow> 'a \<Rightarrow> int) \<Rightarrow> 'a list \<Rightarrow> 'a \<Rightarrow> int \<Rightarrow> int \<Rightarrow> int option" where
  "scan_left compare array pivot_tmp left right =
    (if left \<le> right then
       case ELEM array left of
         None \<Rightarrow> None
       | Some a \<Rightarrow>
           if compare a pivot_tmp \<le> 0 then scan_left compare array pivot_tmp (left + 1) right
           else Some left
     else Some left)"
  by pat_completeness auto
termination
  by (relation "measure (\<lambda>(compare, array, pivot_tmp, left, right). nat (right + 1 - left))") auto

declare scan_left.simps [simp del]

function scan_right :: "('a \<Rightarrow> 'a \<Rightarrow> int) \<Rightarrow> 'a list \<Rightarrow> 'a \<Rightarrow> int \<Rightarrow> int \<Rightarrow> int option" where
  "scan_right compare array pivot_tmp left right =
    (if left \<le> right then
       case ELEM array right of
         None \<Rightarrow> None
       | Some a \<Rightarrow>
           if compare a pivot_tmp > 0 then scan_right compare array pivot_tmp left (right - 1)
           else Some right
     else Some right)"
  by pat_completeness auto
termination
  by (relation "measure (\<lambda>(compare, array, pivot_tmp, left, right). nat (right + 1 - left))") auto

declare scan_right.simps [simp del]

partial_function (option) qsort_partition ::
    "('a \<Rightarrow> 'a \<Rightarrow> int) \<Rightarrow> 'a list \<Rightarrow> 'a \<Rightarrow> int \<Rightarrow> int \<Rightarrow> int \<Rightarrow> ('a list \<times> int \<times> int \<times> int) option" where
  "qsort_partition compare array pivot_tmp pivot left right =
    do {
      left \<leftarrow> scan_left compare array pivot_tmp left right;
      right \<leftarrow> scan_right compare array pivot_tmp left right;
      if left > right then Some (array, pivot, left, right)
      else do {
        array \<leftarrow> SWAP array left right;
        qsort_partition compare array pivot_tmp (if pivot = right then left else pivot)
          (left + 1) (right - 1) } }"

declare qsort_partition.simps [code]

partial_function (option) sgen_qsort_rec ::
    "('a \<Rightarrow> 'a \<Rightarrow> int) \<Rightarrow> 'a list \<Rightarrow> int \<Rightarrow> int \<Rightarrow> 'a list option" where
  "sgen_qsort_rec compare array begin' end' =
    (if begin' < end' then
       do {
         let mid = begin' + (end' - begin') div 2;
         array \<leftarrow> swap_if_less compare array mid begin';
         array \<leftarrow> swap_if_less compare array end' begin';
         array \<leftarrow> swap_if_less compare array end' mid;
         pivot_tmp \<leftarrow> ELEM array mid;
         (array, pivot, left, right) \<leftarrow> qsort_partition compare array pivot_tmp mid begin' end';
         r \<leftarrow> ELEM array right;
         array \<leftarrow> SET array pivot r;
         array \<leftarrow> SET array right pivot_tmp;
         let right = right - 1;
         if right - begin' < end' - left then
           do {
             array \<leftarrow> sgen_qsort_rec compare array begin' right;
             sgen_qsort_rec compare array left end' }
         else
           do {
             array \<leftarrow> sgen_qsort_rec compare array left end';
             sgen_qsort_rec compare array begin' right } }
     else Some array)"

declare sgen_qsort_rec.simps [code]

definition sgen_qsort :: "('a \<Rightarrow> 'a \<Rightarrow> int) \<Rightarrow> 'a list \<Rightarrow> 'a list option" where
  "sgen_qsort compare array = sgen_qsort_rec compare array 0 (int (length array) - 1)"

section \<open>Heap sort\<close>

definition swap_at :: "'a list \<Rightarrow> nat \<Rightarrow> nat \<Rightarrow> 'a list" where
  "swap_at array i j = array[i := array ! j, j := array ! i]"

function sift_up :: "u64 list \<Rightarrow> nat \<Rightarrow> u64 list" where
  "sift_up array child =
    (if child > 0 then
       let parent = (child - 1) div 2 in
       if array ! parent \<ge> array ! child then array
       else sift_up (swap_at array parent child) parent
     else array)"
  by pat_completeness auto
termination
  by (relation "measure (\<lambda>(array, child). child)") auto

declare sift_up.simps [simp del]

function sift_down :: "u64 list \<Rightarrow> nat \<Rightarrow> nat \<Rightarrow> u64 list" where
  "sift_down array root end' =
    (if root * 2 + 1 \<le> end' then
       let child = root * 2 + 1;
           child = (if child < end' \<and> array ! child < array ! (child + 1) then child + 1 else child) in
       if array ! root \<ge> array ! child then array
       else sift_down (swap_at array root child) child end'
     else array)"
  by pat_completeness auto
termination
  by (relation "measure (\<lambda>(array, root, end'). end' - root)") (auto split: if_splits)

declare sift_down.simps [simp del]

definition build_heap :: "u64 list \<Rightarrow> nat \<Rightarrow> u64 list" where
  "build_heap array size' = fold (\<lambda>i array. sift_up array i) [1..<size'] array"

text \<open>\<open>for (i = size - 1; i > 0; --i)\<close>; the callers pass a size of at least 1.\<close>

fun drain_heap :: "u64 list \<Rightarrow> nat \<Rightarrow> u64 list" where
  "drain_heap array 0 = array"
| "drain_heap array (Suc i) = drain_heap (sift_down (swap_at array (Suc i) 0) 0 i) i"

definition sgen_sort_addresses :: "u64 list \<Rightarrow> nat \<Rightarrow> u64 list option" where
  "sgen_sort_addresses array size' =
    (if size' = 0 \<or> length array < size' then None
     else Some (drain_heap (build_heap array size') (size' - 1)))"

section \<open>Permutations of a segment\<close>

text \<open>\<open>perm_on b e xs ys\<close>: \<open>ys\<close> rearranges the elements of \<open>xs\<close> at the positions \<open>b\<close> to \<open>e\<close>.\<close>

definition perm_on :: "int \<Rightarrow> int \<Rightarrow> 'a list \<Rightarrow> 'a list \<Rightarrow> bool" where
  "perm_on b e xs ys \<longleftrightarrow> length ys = length xs \<and> mset ys = mset xs \<and>
    (\<forall>i<length xs. int i < b \<or> e < int i \<longrightarrow> ys ! i = xs ! i)"

lemma perm_on_refl [simp]: "perm_on b e xs xs"
  by (simp add: perm_on_def)

lemma perm_on_trans: "perm_on b e xs ys \<Longrightarrow> perm_on b e ys zs \<Longrightarrow> perm_on b e xs zs"
  by (simp add: perm_on_def)

lemma perm_on_mono: "perm_on b e xs ys \<Longrightarrow> b' \<le> b \<Longrightarrow> e \<le> e' \<Longrightarrow> perm_on b' e' xs ys"
  by (simp add: perm_on_def)

lemma perm_on_length: "perm_on b e xs ys \<Longrightarrow> length ys = length xs"
  by (simp add: perm_on_def)

lemma perm_on_outside: "perm_on b e xs ys \<Longrightarrow> i < length xs \<Longrightarrow> int i < b \<or> e < int i \<Longrightarrow> ys ! i = xs ! i"
  by (auto simp: perm_on_def)

lemma perm_on_inside:
  assumes p: "perm_on b e xs ys" and i: "i < length xs" "b \<le> int i" "int i \<le> e"
  obtains j where "j < length xs" "b \<le> int j" "int j \<le> e" "ys ! i = xs ! j"
proof -
  define lo hi where "lo = nat b" and "hi = nat (e + 1)"
  have lohi: "lo \<le> i" "i < hi" using i by (auto simp: lo_def hi_def)
  have len: "length ys = length xs" and ms: "mset ys = mset xs" using p by (simp_all add: perm_on_def)
  have split: "mset zs = mset (take lo zs) + mset (take (hi - lo) (drop lo zs)) + mset (drop hi zs)" for zs :: "'a list"
  proof -
    have "take hi zs = take lo zs @ take (hi - lo) (drop lo zs)"
      using take_add [of lo "hi - lo" zs] lohi by simp
    then have "zs = take lo zs @ take (hi - lo) (drop lo zs) @ drop hi zs"
      by (metis append.assoc append_take_drop_id)
    then show ?thesis by (metis mset_append add.assoc)
  qed
  have "take lo ys = take lo xs"
    using p len by (intro nth_equalityI) (auto simp: perm_on_def lo_def)
  moreover have "drop hi ys = drop hi xs"
    using p len by (intro nth_equalityI) (auto simp: perm_on_def hi_def)
  ultimately have "mset (take (hi - lo) (drop lo ys)) = mset (take (hi - lo) (drop lo xs))"
    using split [of ys] split [of xs] ms by simp
  then have s: "set (take (hi - lo) (drop lo ys)) = set (take (hi - lo) (drop lo xs))"
    by (rule mset_eq_setD)
  have "take (hi - lo) (drop lo ys) ! (i - lo) = ys ! i" using lohi i len by simp
  then have "ys ! i \<in> set (take (hi - lo) (drop lo xs))"
    using lohi i len unfolding s [symmetric] by (auto simp: in_set_conv_nth intro!: exI [of _ "i - lo"])
  then obtain k where k: "k < hi - lo" "lo + k < length xs" "ys ! i = xs ! (lo + k)"
    by (auto simp: in_set_conv_nth)
  then show thesis using i by (intro that [of "lo + k"]) (auto simp: lo_def hi_def)
qed

lemma swap_perm_on:
  assumes "0 \<le> i" "0 \<le> j" "i < int (length xs)" "j < int (length xs)" "b \<le> i" "i \<le> e" "b \<le> j" "j \<le> e"
  obtains ys where "SWAP xs i j = Some ys" "perm_on b e xs ys" "ys ! nat i = xs ! nat j" "ys ! nat j = xs ! nat i"
    "\<And>k. k \<noteq> nat i \<Longrightarrow> k \<noteq> nat j \<Longrightarrow> ys ! k = xs ! k"
proof (cases "i = j")
  case True
  then show thesis by (intro that [of xs]) (simp_all add: SWAP_def)
next
  case False
  then have ne: "nat i \<noteq> nat j" using assms by simp
  let ?ys = "xs[nat i := xs ! nat j, nat j := xs ! nat i]"
  have "SWAP xs i j = Some ?ys" using assms False by (simp add: SWAP_def ELEM_def SET_def)
  moreover have "perm_on b e xs ?ys"
    unfolding perm_on_def using assms ne by (auto simp: mset_swap nth_list_update)
  ultimately show thesis using assms ne by (intro that [of ?ys]) (auto simp: nth_list_update)
qed

section \<open>Quicksort sorts\<close>

locale comparator =
  fixes compare :: "'a \<Rightarrow> 'a \<Rightarrow> int"
  assumes le_total: "compare a b \<le> 0 \<or> compare b a \<le> 0"
    and le_trans: "compare a b \<le> 0 \<Longrightarrow> compare b c \<le> 0 \<Longrightarrow> compare a c \<le> 0"
begin

lemma le_refl: "compare a a \<le> 0"
  using le_total [of a a] by simp

lemma scan_left_stops:
  assumes "0 \<le> left" "right < int (length xs)" "left \<le> right + 1"
  obtains l where "scan_left compare xs pv left right = Some l" "left \<le> l" "l \<le> right + 1"
    "\<And>i. left \<le> i \<Longrightarrow> i < l \<Longrightarrow> compare (xs ! nat i) pv \<le> 0"
    "l \<le> right \<Longrightarrow> 0 < compare (xs ! nat l) pv"
  using assms
proof (induction "nat (right + 1 - left)" arbitrary: left thesis rule: less_induct)
  case less
  show ?case
  proof (cases "left \<le> right \<and> compare (xs ! nat left) pv \<le> 0")
    case False
    then show thesis using less.prems
      by (intro less.prems(1) [of left]) (auto simp: scan_left.simps [of _ _ _ left] ELEM_def)
  next
    case True
    then have e: "scan_left compare xs pv left right = scan_left compare xs pv (left + 1) right"
      using less.prems by (simp add: scan_left.simps [of _ _ _ left] ELEM_def)
    have "nat (right + 1 - (left + 1)) < nat (right + 1 - left)" using True by simp
    from less.hyps [OF this] True less.prems obtain l where
      l: "scan_left compare xs pv (left + 1) right = Some l" "left + 1 \<le> l" "l \<le> right + 1"
        "\<And>i. left + 1 \<le> i \<Longrightarrow> i < l \<Longrightarrow> compare (xs ! nat i) pv \<le> 0"
        "l \<le> right \<Longrightarrow> 0 < compare (xs ! nat l) pv" by auto
    have "compare (xs ! nat i) pv \<le> 0" if "left \<le> i" "i < l" for i
      using l(4) [of i] True that by (cases "i = left") auto
    then show thesis using l e by (intro less.prems(1) [of l]) auto
  qed
qed

lemma scan_right_stops:
  assumes "0 \<le> left" "right < int (length xs)" "left \<le> right + 1"
  obtains r where "scan_right compare xs pv left right = Some r" "r \<le> right" "left \<le> r + 1"
    "\<And>i. r < i \<Longrightarrow> i \<le> right \<Longrightarrow> 0 < compare (xs ! nat i) pv"
    "left \<le> r \<Longrightarrow> compare (xs ! nat r) pv \<le> 0"
  using assms
proof (induction "nat (right + 1 - left)" arbitrary: right thesis rule: less_induct)
  case less
  show ?case
  proof (cases "left \<le> right \<and> 0 < compare (xs ! nat right) pv")
    case False
    then show thesis using less.prems
      by (intro less.prems(1) [of right]) (auto simp: scan_right.simps [of _ _ _ _ right] ELEM_def)
  next
    case True
    then have e: "scan_right compare xs pv left right = scan_right compare xs pv left (right - 1)"
      using less.prems by (simp add: scan_right.simps [of _ _ _ _ right] ELEM_def)
    have "nat (right - 1 + 1 - left) < nat (right + 1 - left)" using True by simp
    from less.hyps [OF this] True less.prems obtain r where
      r: "scan_right compare xs pv left (right - 1) = Some r" "r \<le> right - 1" "left \<le> r + 1"
        "\<And>i. r < i \<Longrightarrow> i \<le> right - 1 \<Longrightarrow> 0 < compare (xs ! nat i) pv"
        "left \<le> r \<Longrightarrow> compare (xs ! nat r) pv \<le> 0" by auto
    have "0 < compare (xs ! nat i) pv" if "r < i" "i \<le> right" for i
      using r(4) [of i] True that by (cases "i = right") auto
    then show thesis using r e by (intro less.prems(1) [of r]) auto
  qed
qed

text \<open>
  The partition invariant: everything before \<open>left\<close> is at most the pivot, everything after
  \<open>right\<close> greater, and \<open>pivot\<close> is the position of the pivot, outside the second part.
\<close>

definition part_inv :: "int \<Rightarrow> int \<Rightarrow> 'a list \<Rightarrow> 'a \<Rightarrow> int \<Rightarrow> int \<Rightarrow> int \<Rightarrow> bool" where
  "part_inv b e xs pv pivot left right \<longleftrightarrow>
    b \<le> left \<and> right \<le> e \<and> left \<le> right + 1 \<and> b \<le> pivot \<and> pivot \<le> right \<and> xs ! nat pivot = pv \<and>
    (\<forall>i. b \<le> i \<and> i < left \<longrightarrow> compare (xs ! nat i) pv \<le> 0) \<and>
    (\<forall>i. right < i \<and> i \<le> e \<longrightarrow> 0 < compare (xs ! nat i) pv)"

lemma qsort_partition_splits:
  assumes "0 \<le> b" "e < int (length xs)" "part_inv b e xs pv pivot left right"
  obtains ys pivot' left' right' where
    "qsort_partition compare xs pv pivot left right = Some (ys, pivot', left', right')"
    "perm_on b e xs ys" "part_inv b e ys pv pivot' left' right'" "left' = right' + 1"
  using assms
proof (induction "nat (right + 1 - left)" arbitrary: xs pivot left right thesis rule: less_induct)
  case less
  note inv = less.prems(4) [unfolded part_inv_def]
  have b: "0 \<le> left" "right < int (length xs)" "left \<le> right + 1" using inv less.prems(2,3) by auto
  obtain l where l: "scan_left compare xs pv left right = Some l" "left \<le> l" "l \<le> right + 1"
    "\<And>i. left \<le> i \<Longrightarrow> i < l \<Longrightarrow> compare (xs ! nat i) pv \<le> 0"
    "l \<le> right \<Longrightarrow> 0 < compare (xs ! nat l) pv" using scan_left_stops [OF b] by blast
  have bl: "0 \<le> l" using b l(2) by simp
  obtain r where r: "scan_right compare xs pv l right = Some r" "r \<le> right" "l \<le> r + 1"
    "\<And>i. r < i \<Longrightarrow> i \<le> right \<Longrightarrow> 0 < compare (xs ! nat i) pv"
    "l \<le> r \<Longrightarrow> compare (xs ! nat r) pv \<le> 0" using scan_right_stops [OF bl b(2) l(3)] by blast
  have low: "compare (xs ! nat i) pv \<le> 0" if "b \<le> i" "i < l" for i
    using inv l(4) [of i] that by (cases "i < left") auto
  have high: "0 < compare (xs ! nat i) pv" if "r < i" "i \<le> e" for i
    using inv r(4) [of i] that by (cases "right < i") auto
  have piv: "pivot \<le> r"
    using high [of pivot] le_refl [of pv] inv by (cases "pivot \<le> r") auto
  show ?case
  proof (cases "r < l")
    case True
    then have "l = r + 1" using r(3) by simp
    moreover have "part_inv b e xs pv pivot l r"
      unfolding part_inv_def using inv low high l(2) r(2,3) piv by auto
    moreover have "qsort_partition compare xs pv pivot left right = Some (xs, pivot, l, r)"
      using True by (simp add: qsort_partition.simps [of _ _ _ _ left] l(1) r(1))
    ultimately show thesis by (intro less.prems(1)) simp_all
  next
    case False
    then have lr: "l < r" using l(5) r(5) r(2) by (cases "l = r") auto
    have bnd: "0 \<le> r" "l < int (length xs)" "r < int (length xs)" "b \<le> l" "r \<le> e"
      using lr bl b r(2) inv l(2) by auto
    obtain ys where ys: "SWAP xs l r = Some ys" "perm_on b e xs ys" "ys ! nat l = xs ! nat r"
      "ys ! nat r = xs ! nat l" "\<And>k. k \<noteq> nat l \<Longrightarrow> k \<noteq> nat r \<Longrightarrow> ys ! k = xs ! k"
      using swap_perm_on [of l r xs b e] bl bnd lr by auto
    define p where "p = (if pivot = r then l else pivot)"
    have p: "ys ! nat p = pv"
    proof (cases "pivot = r")
      case True
      then show ?thesis using inv ys(3) by (simp add: p_def)
    next
      case F: False
      have "pivot \<noteq> l" using l(5) lr r(2) le_refl [of pv] inv by auto
      then show ?thesis using inv F ys(5) [of "nat pivot"] bl bnd b less.prems(2) by (simp add: p_def nat_eq_iff2)
    qed
    have "part_inv b e ys pv p (l + 1) (r - 1)"
      unfolding part_inv_def
    proof (intro conjI allI impI)
      show "b \<le> l + 1" "r - 1 \<le> e" "l + 1 \<le> r - 1 + 1" using bnd lr by auto
      show "b \<le> p" "p \<le> r - 1" "ys ! nat p = pv" using p piv inv bnd lr by (auto simp: p_def)
      show "compare (ys ! nat i) pv \<le> 0" if "b \<le> i \<and> i < l + 1" for i
      proof (cases "i = l")
        case True
        then show ?thesis using ys(3) r(5) lr by simp
      next
        case F: False
        then have "ys ! nat i = xs ! nat i" using that lr bl less.prems(2) by (intro ys(5)) auto
        then show ?thesis using low [of i] that F by simp
      qed
      show "0 < compare (ys ! nat i) pv" if "r - 1 < i \<and> i \<le> e" for i
      proof (cases "i = r")
        case True
        then show ?thesis using ys(4) l(5) lr r(2) by simp
      next
        case F: False
        then have "ys ! nat i = xs ! nat i" using that lr bl less.prems(2) by (intro ys(5)) auto
        then show ?thesis using high [of i] that F by simp
      qed
    qed
    moreover have "nat (r - 1 + 1 - (l + 1)) < nat (right + 1 - left)" using lr l(2) r(2) by simp
    moreover have "e < int (length ys)" using less.prems(3) perm_on_length [OF ys(2)] by simp
    ultimately obtain zs pivot' left' right' where z:
      "qsort_partition compare ys pv p (l + 1) (r - 1) = Some (zs, pivot', left', right')"
      "perm_on b e ys zs" "part_inv b e zs pv pivot' left' right'" "left' = right' + 1"
      using less.hyps [of "r - 1" "l + 1" ys p] less.prems(2) by blast
    show thesis
      using z lr ys(1,2) by (intro less.prems(1) [of zs pivot' left' right'])
        (auto simp: qsort_partition.simps [of _ _ _ _ left] l(1) r(1) p_def intro: perm_on_trans)
  qed
qed

definition sorted_on :: "int \<Rightarrow> int \<Rightarrow> 'a list \<Rightarrow> bool" where
  "sorted_on b e xs \<longleftrightarrow> (\<forall>i j. b \<le> i \<and> i \<le> j \<and> j \<le> e \<longrightarrow> compare (xs ! nat i) (xs ! nat j) \<le> 0)"

lemma swap_if_less_perm:
  assumes "0 \<le> b" "e < int (length xs)" "b \<le> i" "i \<le> e" "b \<le> j" "j \<le> e"
  obtains ys where "swap_if_less compare xs i j = Some ys" "perm_on b e xs ys" "e < int (length ys)"
proof (cases "compare (xs ! nat i) (xs ! nat j) < 0")
  case True
  obtain ys where ys: "SWAP xs i j = Some ys" "perm_on b e xs ys"
    using swap_perm_on [of i j xs b e] assms by auto
  show thesis
  proof (rule that)
    show "swap_if_less compare xs i j = Some ys"
      using assms True ys(1) by (simp add: swap_if_less_def ELEM_def)
    show "e < int (length ys)" using perm_on_length [OF ys(2)] assms(2) by simp
  qed (rule ys(2))
next
  case False
  show thesis
    by (rule that [of xs]) (use assms False in \<open>simp_all add: swap_if_less_def ELEM_def\<close>)
qed

lemma perm_on_bound:
  assumes "perm_on b e xs ys" "0 \<le> b" "e < int (length xs)"
    and "\<And>i. b \<le> i \<Longrightarrow> i \<le> e \<Longrightarrow> P (xs ! nat i)" "b \<le> i" "i \<le> e"
  shows "P (ys ! nat i)"
proof -
  have "nat i < length xs" "b \<le> int (nat i)" "int (nat i) \<le> e" using assms by auto
  from perm_on_inside [OF assms(1) this] obtain j where "j < length xs" "b \<le> int j" "int j \<le> e"
    "ys ! nat i = xs ! j" .
  then show ?thesis using assms(4) [of "int j"] by simp
qed

text \<open>Two segments that do not meet are rearranged independently.\<close>

lemma perm_on_two:
  assumes perm: "perm_on b1 e1 xs ys" "perm_on b2 e2 ys zs" and dis: "e1 < b2 \<or> e2 < b1"
    and bnd: "0 \<le> b1" "0 \<le> b2" "e1 < int (length xs)" "e2 < int (length xs)"
  shows "b1 \<le> i \<Longrightarrow> i \<le> e1 \<Longrightarrow> zs ! nat i = ys ! nat i"
    and "b1 \<le> i \<Longrightarrow> i \<le> e1 \<Longrightarrow> (\<And>j. b1 \<le> j \<Longrightarrow> j \<le> e1 \<Longrightarrow> P (xs ! nat j)) \<Longrightarrow> P (zs ! nat i)"
    and "b2 \<le> i \<Longrightarrow> i \<le> e2 \<Longrightarrow> (\<And>j. b2 \<le> j \<Longrightarrow> j \<le> e2 \<Longrightarrow> P (xs ! nat j)) \<Longrightarrow> P (zs ! nat i)"
proof -
  have len: "length ys = length xs" using perm by (simp add: perm_on_def)
  have z: "zs ! nat i = ys ! nat i" if "b1 \<le> i" "i \<le> e1" for i
    using perm_on_outside [OF perm(2), of "nat i"] that dis bnd len by auto
  have y: "ys ! nat i = xs ! nat i" if "b2 \<le> i" "i \<le> e2" for i
    using perm_on_outside [OF perm(1), of "nat i"] that dis bnd len by auto
  show "b1 \<le> i \<Longrightarrow> i \<le> e1 \<Longrightarrow> zs ! nat i = ys ! nat i" by (rule z)
  show "P (zs ! nat i)" if "b1 \<le> i" "i \<le> e1" "\<And>j. b1 \<le> j \<Longrightarrow> j \<le> e1 \<Longrightarrow> P (xs ! nat j)"
    using perm_on_bound [where P = P, OF perm(1) bnd(1,3) that(3) that(1,2)] z [OF that(1,2)] by simp
  show "P (zs ! nat i)" if "b2 \<le> i" "i \<le> e2" "\<And>j. b2 \<le> j \<Longrightarrow> j \<le> e2 \<Longrightarrow> P (xs ! nat j)"
    using perm_on_bound [OF perm(2) bnd(2) _ _ that(1,2), of P] that(3) y bnd(4) len by auto
qed

lemma sorted_on_join:
  assumes m: "zs ! nat m = pv"
    and low: "\<And>i. b \<le> i \<Longrightarrow> i \<le> m - 1 \<Longrightarrow> compare (zs ! nat i) pv \<le> 0"
    and high: "\<And>i. m + 1 \<le> i \<Longrightarrow> i \<le> e \<Longrightarrow> compare pv (zs ! nat i) \<le> 0"
    and srt: "sorted_on b (m - 1) zs" "sorted_on (m + 1) e zs"
  shows "sorted_on b e zs"
  unfolding sorted_on_def
proof (intro allI impI)
  fix i j assume ij: "b \<le> i \<and> i \<le> j \<and> j \<le> e"
  consider "j < m" | "m < i" | "i = m" "j = m" | "i < m" "m < j" | "i < m" "m = j" | "i = m" "m < j"
    using ij by linarith
  then show "compare (zs ! nat i) (zs ! nat j) \<le> 0"
  proof cases
    case 4
    then show ?thesis using low [of i] high [of j] ij le_trans [of "zs ! nat i" pv "zs ! nat j"] by auto
  qed (use srt ij low [of i] high [of j] m le_refl in \<open>auto simp: sorted_on_def\<close>)
qed

lemma sgen_qsort_rec_sorts:
  assumes "0 \<le> b" "e < int (length xs)"
  obtains ys where "sgen_qsort_rec compare xs b e = Some ys" "perm_on b e xs ys" "sorted_on b e ys"
  using assms
proof (induction "nat (e + 1 - b)" arbitrary: xs b e thesis rule: less_induct)
  case less
  show ?case
  proof (cases "b < e")
    case False
    then have "i = j" if "b \<le> i" "i \<le> j" "j \<le> e" for i j using that by linarith
    then have "sorted_on b e xs" using le_refl by (auto simp: sorted_on_def)
    then show thesis
      using False by (intro less.prems(1) [of xs]) (simp_all add: sgen_qsort_rec.simps [of _ _ b e])
  next
    case True
    define m where "m = b + (e - b) div 2"
    have m: "b \<le> m" "m \<le> e" using True by (auto simp: m_def)
    obtain x1 where x1: "swap_if_less compare xs m b = Some x1" "perm_on b e xs x1" "e < int (length x1)"
      using swap_if_less_perm [OF less.prems(2,3), of m b] m True by auto
    obtain x2 where x2: "swap_if_less compare x1 e b = Some x2" "perm_on b e x1 x2" "e < int (length x2)"
      using swap_if_less_perm [OF less.prems(2) x1(3), of e b] True by auto
    obtain x3 where x3: "swap_if_less compare x2 e m = Some x3" "perm_on b e x2 x3" "e < int (length x3)"
      using swap_if_less_perm [OF less.prems(2) x2(3), of e m] True m by auto
    define pv where "pv = x3 ! nat m"
    have pe: "ELEM x3 m = Some pv" using m less.prems(2) x3(3) by (simp add: ELEM_def pv_def)
    have "part_inv b e x3 pv m b e" using m True by (simp add: part_inv_def pv_def)
    from qsort_partition_splits [OF less.prems(2) x3(3) this] obtain x4 p l r where
      x4: "qsort_partition compare x3 pv m b e = Some (x4, p, l, r)" "perm_on b e x3 x4"
        "part_inv b e x4 pv p l r" "l = r + 1" .
    note inv = x4(3) [unfolded part_inv_def]
    have bnd: "b \<le> p" "p \<le> r" "r \<le> e" "b \<le> r" using inv by auto
    have len4: "length x4 = length xs"
      using x1 x2 x3 x4 by (simp add: perm_on_def)
    define x5 where "x5 = x4[nat p := x4 ! nat r, nat r := pv]"
    have sets: "ELEM x4 r = Some (x4 ! nat r)" "SET x4 p (x4 ! nat r) = Some (x4[nat p := x4 ! nat r])"
      "SET (x4[nat p := x4 ! nat r]) r pv = Some x5"
      using bnd less.prems(2,3) len4 by (auto simp: ELEM_def SET_def x5_def)
    have x4p: "x4 ! nat p = pv" using inv by simp
    have p5: "perm_on b e x4 x5"
    proof -
      have "x5 = x4[nat p := x4 ! nat r, nat r := x4 ! nat p]" by (simp add: x5_def x4p)
      moreover have "nat p < length x4" "nat r < length x4" using bnd less.prems(2,3) len4 by auto
      ultimately show ?thesis
        unfolding perm_on_def using bnd less.prems(2) by (auto simp: mset_swap nth_list_update)
    qed
    have len5: "length x5 = length xs" by (simp add: x5_def len4)
    have x5r: "x5 ! nat r = pv" using bnd less.prems(2,3) len4 by (simp add: x5_def)
    have low: "compare (x5 ! nat i) pv \<le> 0" if "b \<le> i" "i \<le> r - 1" for i
    proof (cases "i = p")
      case T: True
      have "x5 ! nat i = x4 ! nat r" using T that bnd less.prems(2,3) len4 by (simp add: x5_def nth_list_update)
      then show ?thesis using inv x4(4) bnd by auto
    next
      case False
      then have "x5 ! nat i = x4 ! nat i" using that bnd less.prems(2) by (simp add: x5_def nth_list_update)
      then show ?thesis using inv x4(4) that by auto
    qed
    have high: "compare pv (x5 ! nat i) \<le> 0" if "r + 1 \<le> i" "i \<le> e" for i
    proof -
      have "x5 ! nat i = x4 ! nat i" using that bnd less.prems(2) by (simp add: x5_def nth_list_update)
      moreover have "0 < compare (x4 ! nat i) pv" using inv that by auto
      ultimately show ?thesis using le_total [of "x4 ! nat i" pv] by auto
    qed
    have pall: "perm_on b e xs x5"
      using x1(2) x2(2) x3(2) x4(2) p5 by (meson perm_on_trans)
    have step: "sgen_qsort_rec compare xs b e =
        (if r - 1 - b < e - l then
           do { array \<leftarrow> sgen_qsort_rec compare x5 b (r - 1); sgen_qsort_rec compare array l e }
         else do { array \<leftarrow> sgen_qsort_rec compare x5 l e; sgen_qsort_rec compare array b (r - 1) })"
      using True by (subst sgen_qsort_rec.simps)
        (simp add: Let_def x1(1) x2(1) x3(1) pe x4(1) sets flip: m_def)
    have m1: "nat (r - 1 + 1 - b) < nat (e + 1 - b)" and m2: "nat (e + 1 - l) < nat (e + 1 - b)"
      using bnd x4(4) True by auto
    have bnd5: "0 \<le> b" "0 \<le> r + 1" "r - 1 < int (length x5)" "e < int (length x5)" "r - 1 < r + 1"
      using less.prems(2,3) bnd len5 by auto
    have fin: thesis
      if e: "sgen_qsort_rec compare xs b e = Some zs" and p: "perm_on b e x5 zs"
        and z: "zs ! nat r = pv" "\<And>i. b \<le> i \<Longrightarrow> i \<le> r - 1 \<Longrightarrow> compare (zs ! nat i) pv \<le> 0"
          "\<And>i. r + 1 \<le> i \<Longrightarrow> i \<le> e \<Longrightarrow> compare pv (zs ! nat i) \<le> 0"
          "sorted_on b (r - 1) zs" "sorted_on (r + 1) e zs" for zs
      using less.prems(1) [OF e perm_on_trans [OF pall p]] sorted_on_join [OF z] by blast
    show thesis
    proof (cases "r - 1 - b < e - l")
      case T: True
      obtain x6 where x6: "sgen_qsort_rec compare x5 b (r - 1) = Some x6" "perm_on b (r - 1) x5 x6"
          "sorted_on b (r - 1) x6"
        using less.hyps [OF m1 _ bnd5(1,3)] by blast
      have len6: "e < int (length x6)" using bnd5 perm_on_length [OF x6(2)] by simp
      obtain x7 where x7: "sgen_qsort_rec compare x6 (r + 1) e = Some x7" "perm_on (r + 1) e x6 x7"
          "sorted_on (r + 1) e x7"
        using less.hyps [OF m2 _ _ len6] bnd5(2) x4(4) by blast
      note two = perm_on_two [OF x6(2) x7(2) _ bnd5(1,2,3,4)]
      show thesis
      proof (rule fin)
        show "sgen_qsort_rec compare xs b e = Some x7" using step T x6(1) x7(1) x4(4) by simp
        show "perm_on b e x5 x7"
          by (rule perm_on_trans [OF perm_on_mono [OF x6(2)] perm_on_mono [OF x7(2)]]) (use bnd in auto)
        show "x7 ! nat r = pv"
          using perm_on_outside [OF x6(2), of "nat r"] perm_on_outside [OF x7(2), of "nat r"] x5r bnd bnd5
            perm_on_length [OF x6(2)] by auto
        show "compare (x7 ! nat i) pv \<le> 0" if "b \<le> i" "i \<le> r - 1" for i
          by (rule two(2) [where P = "\<lambda>x. compare x pv \<le> 0"]) (use that low in auto)
        show "compare pv (x7 ! nat i) \<le> 0" if "r + 1 \<le> i" "i \<le> e" for i
          by (rule two(3) [where P = "\<lambda>x. compare pv x \<le> 0"]) (use that high in auto)
        show "sorted_on b (r - 1) x7" using x6(3) two(1) by (auto simp: sorted_on_def)
      qed (rule x7(3))
    next
      case F: False
      obtain x6 where x6: "sgen_qsort_rec compare x5 (r + 1) e = Some x6" "perm_on (r + 1) e x5 x6"
          "sorted_on (r + 1) e x6"
        using less.hyps [OF m2 _ _ bnd5(4)] bnd5(2) x4(4) by blast
      have len6: "r - 1 < int (length x6)" using bnd5 perm_on_length [OF x6(2)] by simp
      obtain x7 where x7: "sgen_qsort_rec compare x6 b (r - 1) = Some x7" "perm_on b (r - 1) x6 x7"
          "sorted_on b (r - 1) x7"
        using less.hyps [OF m1 _ bnd5(1) len6] by blast
      note two = perm_on_two [OF x6(2) x7(2) _ bnd5(2,1,4,3)]
      show thesis
      proof (rule fin)
        show "sgen_qsort_rec compare xs b e = Some x7" using step F x6(1) x7(1) x4(4) by simp
        show "perm_on b e x5 x7"
          by (rule perm_on_trans [OF perm_on_mono [OF x6(2)] perm_on_mono [OF x7(2)]]) (use bnd in auto)
        show "x7 ! nat r = pv"
          using perm_on_outside [OF x6(2), of "nat r"] perm_on_outside [OF x7(2), of "nat r"] x5r bnd bnd5
            perm_on_length [OF x6(2)] by auto
        show "compare (x7 ! nat i) pv \<le> 0" if "b \<le> i" "i \<le> r - 1" for i
          by (rule two(3) [where P = "\<lambda>x. compare x pv \<le> 0"]) (use that low in auto)
        show "compare pv (x7 ! nat i) \<le> 0" if "r + 1 \<le> i" "i \<le> e" for i
          by (rule two(2) [where P = "\<lambda>x. compare pv x \<le> 0"]) (use that high in auto)
        show "sorted_on (r + 1) e x7" using x6(3) two(1) by (auto simp: sorted_on_def)
      qed (rule x7(3))
    qed
  qed
qed

theorem sgen_qsort_sorts:
  obtains ys where "sgen_qsort compare xs = Some ys" "mset ys = mset xs"
    "sorted_wrt (\<lambda>a b. compare a b \<le> 0) ys"
proof -
  have "(0 :: int) \<le> 0" "int (length xs) - 1 < int (length xs)" by simp_all
  from sgen_qsort_rec_sorts [OF this] obtain ys where
    ys: "sgen_qsort_rec compare xs 0 (int (length xs) - 1) = Some ys"
      "perm_on 0 (int (length xs) - 1) xs ys" "sorted_on 0 (int (length xs) - 1) ys" .
  have len: "length ys = length xs" by (rule perm_on_length [OF ys(2)])
  have "sorted_wrt (\<lambda>a b. compare a b \<le> 0) ys"
    unfolding sorted_wrt_iff_nth_less
  proof (intro allI impI)
    fix i j assume "i < j" "j < length ys"
    then show "compare (ys ! i) (ys ! j) \<le> 0"
      using ys(3) [unfolded sorted_on_def, rule_format, of "int i" "int j"] len by simp
  qed
  then show thesis using that [of ys] ys(1,2) by (simp add: sgen_qsort_def perm_on_def)
qed

end

section \<open>Heap sort sorts\<close>

lemma swap_at_perm:
  assumes "i < length xs" "j < length xs" "int i \<le> e" "int j \<le> e"
  shows "perm_on 0 e xs (swap_at xs i j)"
  using assms by (auto simp: perm_on_def swap_at_def mset_swap nth_list_update)

lemma length_swap_at [simp]: "length (swap_at xs i j) = length xs"
  by (simp add: swap_at_def)

lemma nth_swap_at:
  assumes "i < length xs" "j < length xs"
  shows "swap_at xs i j ! k = (if k = i then xs ! j else if k = j then xs ! i else xs ! k)"
  using assms by (auto simp: swap_at_def nth_list_update)

definition heap :: "nat \<Rightarrow> u64 list \<Rightarrow> bool" where
  "heap n xs \<longleftrightarrow> (\<forall>i. 0 < i \<and> i < n \<longrightarrow> xs ! i \<le> xs ! ((i - 1) div 2))"

lemma heap_top:
  assumes "heap n xs" "i < n"
  shows "xs ! i \<le> xs ! 0"
  using assms(2)
proof (induction i rule: less_induct)
  case (less i)
  show ?case
  proof (cases "i = 0")
    case False
    then have "(i - 1) div 2 < i" by linarith
    then have "xs ! ((i - 1) div 2) \<le> xs ! 0" using less by simp
    moreover have "xs ! i \<le> xs ! ((i - 1) div 2)" using assms(1) less.prems False by (simp add: heap_def)
    ultimately show ?thesis by simp
  qed simp
qed

text \<open>\<open>sift_up\<close> repairs a heap of \<open>n\<close> elements that is broken at \<open>c\<close> only.\<close>

lemma sift_up_heap:
  assumes "c < n" "n \<le> length xs"
    and "\<And>i. 0 < i \<Longrightarrow> i < n \<Longrightarrow> i \<noteq> c \<Longrightarrow> xs ! i \<le> xs ! ((i - 1) div 2)"
    and "\<And>i. 0 < i \<Longrightarrow> i < n \<Longrightarrow> 0 < c \<Longrightarrow> (i - 1) div 2 = c \<Longrightarrow> xs ! i \<le> xs ! ((c - 1) div 2)"
  shows "heap n (sift_up xs c) \<and> perm_on 0 (int n - 1) xs (sift_up xs c)"
  using assms
proof (induction xs c rule: sift_up.induct)
  case (1 xs c)
  define p where "p = (c - 1) div 2"
  have step: "sift_up xs c = (if 0 < c then if xs ! c \<le> xs ! p then xs else sift_up (swap_at xs p c) p else xs)"
    by (subst sift_up.simps) (simp only: Let_def p_def)
  show ?case
  proof (cases "0 < c \<and> xs ! p < xs ! c")
    case False
    then have "sift_up xs c = xs" using step by (auto simp: not_less)
    moreover have "heap n xs"
      unfolding heap_def
    proof (intro allI impI)
      fix i assume "0 < i \<and> i < n"
      then show "xs ! i \<le> xs ! ((i - 1) div 2)"
        using "1.prems"(3) [of i] False by (cases "i = c") (auto simp: p_def)
    qed
    ultimately show ?thesis by simp
  next
    case True
    then have pc: "p < c" by (simp add: p_def) linarith
    have len: "p < length xs" "c < length xs" using pc "1.prems"(1,2) by auto
    let ?ys = "swap_at xs p c"
    note y = nth_swap_at [OF len]
    have e: "sift_up xs c = sift_up ?ys p" using True step by (auto simp: not_less)
    have "heap n (sift_up ?ys p) \<and> perm_on 0 (int n - 1) ?ys (sift_up ?ys p)"
    proof (rule "1.IH" [OF _ p_def])
      show "0 < c" "\<not> xs ! c \<le> xs ! p" using True by auto
      show "p < n" "n \<le> length ?ys" using pc "1.prems"(1,2) by auto
      show "?ys ! i \<le> ?ys ! ((i - 1) div 2)" if i: "0 < i" "i < n" "i \<noteq> p" for i
      proof -
        have ip: "(i - 1) div 2 < i" using i(1) by linarith
        have b: "i \<noteq> c \<Longrightarrow> xs ! i \<le> xs ! ((i - 1) div 2)" using "1.prems"(3) i by simp
        consider "i = c" | "i \<noteq> c" "(i - 1) div 2 = p" | "i \<noteq> c" "(i - 1) div 2 = c"
          | "i \<noteq> c" "(i - 1) div 2 \<noteq> p" "(i - 1) div 2 \<noteq> c" by blast
        then show ?thesis
        proof cases
          case 1
          then have "(i - 1) div 2 = p" by (simp add: p_def)
          then show ?thesis using True pc 1 by (simp only: y) simp
        next
          case 2
          then have "xs ! i \<le> xs ! p" using b by simp
          also have "\<dots> \<le> xs ! c" using True by (intro less_imp_le) simp
          finally show ?thesis using 2 i by (simp only: y) simp
        next
          case 3
          have "xs ! i \<le> xs ! p" unfolding p_def by (rule "1.prems"(4)) (use 3 i True in auto)
          then show ?thesis using 3 i True pc ip by (simp add: y)
        next
          case 4
          then show ?thesis using b i by (simp add: y)
        qed
      qed
      show "?ys ! i \<le> ?ys ! ((p - 1) div 2)" if i: "0 < i" "i < n" "0 < p" "(i - 1) div 2 = p" for i
      proof -
        have q: "(p - 1) div 2 < p" using i(3) by linarith
        have pp: "xs ! p \<le> xs ! ((p - 1) div 2)" using "1.prems"(3) [of p] i(3) pc "1.prems"(1) by simp
        have ip: "i \<noteq> p" using i(1,4) by linarith
        show ?thesis
        proof (cases "i = c")
          case True
          then show ?thesis using pp q pc by (simp add: y)
        next
          case False
          then have "xs ! i \<le> xs ! p" using "1.prems"(3) [of i] i by simp
          then show ?thesis using pp q pc False ip by (simp add: y)
        qed
      qed
    qed
    moreover have "perm_on 0 (int n - 1) xs ?ys"
      using len pc "1.prems"(1) by (intro swap_at_perm) auto
    ultimately show ?thesis unfolding e by (blast intro: perm_on_trans)
  qed
qed

lemma build_heap_heap:
  assumes "0 < n" "n \<le> length xs"
  shows "heap n (build_heap xs n) \<and> perm_on 0 (int n - 1) xs (build_heap xs n)"
  using assms
proof (induction n)
  case (Suc n)
  show ?case
  proof (cases n)
    case 0
    then show ?thesis by (simp add: build_heap_def heap_def)
  next
    case (Suc k)
    let ?ys = "build_heap xs n"
    have ih: "heap n ?ys" "perm_on 0 (int n - 1) xs ?ys" using Suc.IH Suc.prems Suc by auto
    have e: "build_heap xs (Suc n) = sift_up ?ys n" using Suc by (simp add: build_heap_def)
    have "heap (Suc n) (sift_up ?ys n) \<and> perm_on 0 (int (Suc n) - 1) ?ys (sift_up ?ys n)"
    proof (rule sift_up_heap)
      show "Suc n \<le> length ?ys" using Suc.prems perm_on_length [OF ih(2)] by simp
      show "?ys ! i \<le> ?ys ! ((i - 1) div 2)" if "0 < i" "i < Suc n" "i \<noteq> n" for i
        using ih(1) that by (simp add: heap_def)
      show "?ys ! i \<le> ?ys ! ((n - 1) div 2)" if "0 < i" "i < Suc n" "(i - 1) div 2 = n" for i
        using that by linarith
    qed simp
    then show ?thesis using perm_on_mono [OF ih(2), of 0 "int n"] unfolding e by (auto intro: perm_on_trans)
  qed
qed simp

text \<open>\<open>sift_down\<close> repairs the heap of the elements up to \<open>end\<close> that is broken below \<open>root\<close> only.\<close>

lemma sift_down_heap:
  assumes "root \<le> end'" "end' < length xs"
    and "\<And>i. 0 < i \<Longrightarrow> i \<le> end' \<Longrightarrow> (i - 1) div 2 \<noteq> root \<Longrightarrow> xs ! i \<le> xs ! ((i - 1) div 2)"
    and "\<And>i. 0 < i \<Longrightarrow> i \<le> end' \<Longrightarrow> (i - 1) div 2 = root \<Longrightarrow> 0 < root \<Longrightarrow> xs ! i \<le> xs ! ((root - 1) div 2)"
  shows "heap (Suc end') (sift_down xs root end') \<and> perm_on 0 (int end') xs (sift_down xs root end')"
  using assms
proof (induction xs root end' rule: sift_down.induct)
  case (1 xs root end')
  define l where "l = root * 2 + 1"
  define c where "c = (if l < end' \<and> xs ! l < xs ! (l + 1) then l + 1 else l)"
  have step: "sift_down xs root end' = (if l \<le> end' then if xs ! c \<le> xs ! root then xs
      else sift_down (swap_at xs root c) c end' else xs)"
    by (subst sift_down.simps) (simp only: Let_def l_def c_def)
  have kids: "(i - 1) div 2 = root \<longleftrightarrow> i = l \<or> i = l + 1" if "0 < i" for i
    using that by (auto simp: l_def)
  show ?case
  proof (cases "l \<le> end' \<and> xs ! root < xs ! c")
    case False
    have e: "sift_down xs root end' = xs"
      using False step by (auto simp: not_less)
    have "heap (Suc end') xs"
      unfolding heap_def
    proof (intro allI impI)
      fix i assume i: "0 < i \<and> i < Suc end'"
      show "xs ! i \<le> xs ! ((i - 1) div 2)"
      proof (cases "(i - 1) div 2 = root")
        case T: True
        then have il: "i = l \<or> i = l + 1" using kids i by simp
        then have "l \<le> end'" using i by auto
        then have "xs ! c \<le> xs ! root" using False by auto
        moreover have "xs ! i \<le> xs ! c" using il i by (auto simp: c_def)
        ultimately show ?thesis unfolding T by simp
      qed (use "1.prems"(3) i in auto)
    qed
    then show ?thesis unfolding e by simp
  next
    case True
    have cl: "c = l \<or> c = l + 1" "c \<le> end'" "root < c" using True by (auto simp: c_def l_def)
    have len: "root < length xs" "c < length xs" using cl "1.prems"(2) by auto
    let ?ys = "swap_at xs root c"
    note y = nth_swap_at [OF len]
    have e: "sift_down xs root end' = sift_down ?ys c end'"
      using True step by (auto simp: not_less)
    have pc: "(c - 1) div 2 = root" using cl kids [of c] by simp
    have "heap (Suc end') (sift_down ?ys c end') \<and> perm_on 0 (int end') ?ys (sift_down ?ys c end')"
    proof (rule "1.IH" [OF _ l_def c_def])
      show "root * 2 + 1 \<le> end'" "\<not> xs ! c \<le> xs ! root" using True by (auto simp: l_def)
      show "c \<le> end'" "end' < length ?ys" using cl "1.prems"(2) by auto
      show "?ys ! i \<le> ?ys ! ((i - 1) div 2)" if i: "0 < i" "i \<le> end'" "(i - 1) div 2 \<noteq> c" for i
      proof (cases "(i - 1) div 2 = root")
        case T: True
        then have il: "i = l \<or> i = l + 1" using kids i by simp
        then have "i \<noteq> root" by (auto simp: l_def)
        moreover have "xs ! i \<le> xs ! c" using il i True by (auto simp: c_def)
        ultimately show ?thesis using True T by (auto simp: y)
      next
        case False
        have b: "xs ! i \<le> xs ! ((i - 1) div 2)" using "1.prems"(3) i False by simp
        show ?thesis
        proof (cases "i = root")
          case T: True
          have "xs ! c \<le> xs ! ((root - 1) div 2)"
            using "1.prems"(4) [of c] cl pc i T by simp
          then show ?thesis using T i cl False by (simp add: y)
        next
          case F: False
          then have "i \<noteq> c" using False pc by auto
          then show ?thesis using b F False i by (simp add: y)
        qed
      qed
      show "?ys ! i \<le> ?ys ! ((c - 1) div 2)" if i: "0 < i" "i \<le> end'" "(i - 1) div 2 = c" "0 < c" for i
      proof -
        have ic: "i \<noteq> c" "i \<noteq> root" using i(1,3) cl(3) by linarith+
        have "(i - 1) div 2 \<noteq> root" using i(3) cl by auto
        then have "xs ! i \<le> xs ! c" using "1.prems"(3) [of i] i by simp
        then show ?thesis unfolding pc using ic cl by (simp add: y)
      qed
    qed
    moreover have "perm_on 0 (int end') xs ?ys"
      using len cl "1.prems"(1) by (intro swap_at_perm) auto
    ultimately show ?thesis unfolding e by (blast intro: perm_on_trans)
  qed
qed

text \<open>The extraction loop: the part above the heap is sorted and not below the heap.\<close>

lemma drain_heap_sorts:
  assumes "heap (Suc i) xs" "Suc i \<le> n" "n \<le> length xs"
    and "\<And>j k. i < j \<Longrightarrow> j \<le> k \<Longrightarrow> k < n \<Longrightarrow> xs ! j \<le> xs ! k"
    and "\<And>j k. j \<le> i \<Longrightarrow> i < k \<Longrightarrow> k < n \<Longrightarrow> xs ! j \<le> xs ! k"
  shows "perm_on 0 (int n - 1) xs (drain_heap xs i) \<and>
    (\<forall>j k. j \<le> k \<and> k < n \<longrightarrow> drain_heap xs i ! j \<le> drain_heap xs i ! k)"
  using assms
proof (induction i arbitrary: xs)
  case 0
  have "xs ! j \<le> xs ! k" if "j \<le> k" "k < n" for j k
    using 0(4) [of j k] 0(5) [of j k] that by (cases "j = 0"; cases "k = 0") auto
  then show ?case by simp
next
  case (Suc i)
  let ?ys = "swap_at xs (Suc i) 0"
  let ?zs = "sift_down ?ys 0 i"
  have len: "Suc i < length xs" "0 < length xs" using Suc.prems(2,3) by auto
  note y = nth_swap_at [OF len]
  have hz: "heap (Suc i) ?zs \<and> perm_on 0 (int i) ?ys ?zs"
  proof (rule sift_down_heap)
    show "i < length ?ys" using len by simp
    show "?ys ! j \<le> ?ys ! ((j - 1) div 2)" if "0 < j" "j \<le> i" "(j - 1) div 2 \<noteq> 0" for j
    proof -
      have "(j - 1) div 2 < j" using that(1) by linarith
      then show ?thesis using Suc.prems(1) that by (simp add: y heap_def)
    qed
  qed simp_all
  have zy: "?zs ! k = ?ys ! k" if "i < k" "k < n" for k
    using hz that Suc.prems(3) perm_on_outside [of 0 "int i" ?ys ?zs k] by auto
  have top: "?zs ! Suc i = xs ! 0" using zy [of "Suc i"] Suc.prems(2) by (simp add: y)
  have above: "?zs ! k = xs ! k" if "Suc i < k" "k < n" for k
    using zy [of k] that by (simp add: y)
  have below: "\<exists>j'\<le>Suc i. ?zs ! j = xs ! j'" if "j \<le> i" for j
  proof -
    have "j < length ?ys" "(0 :: int) \<le> int j" "int j \<le> int i" using that len by auto
    from perm_on_inside [OF conjunct2 [OF hz] this] obtain k where "k \<le> i" "?zs ! j = ?ys ! k" by auto
    then show ?thesis by (auto simp: y intro: exI [of _ k] exI [of _ "Suc i"])
  qed
  have "perm_on 0 (int n - 1) ?zs (drain_heap ?zs i) \<and>
    (\<forall>j k. j \<le> k \<and> k < n \<longrightarrow> drain_heap ?zs i ! j \<le> drain_heap ?zs i ! k)"
  proof (rule Suc.IH)
    show "heap (Suc i) ?zs" using hz ..
    show "Suc i \<le> n" "n \<le> length ?zs" using Suc.prems(2,3) perm_on_length [OF conjunct2 [OF hz]] by auto
    show "?zs ! j \<le> ?zs ! k" if "i < j" "j \<le> k" "k < n" for j k
    proof (cases "j = Suc i")
      case True
      then show ?thesis using that True top above [of k] Suc.prems(5) [of 0 k] by (cases "k = Suc i") auto
    next
      case False
      then show ?thesis using that False above [of j] above [of k] Suc.prems(4) [of j k] by auto
    qed
    show "?zs ! j \<le> ?zs ! k" if jk: "j \<le> i" "i < k" "k < n" for j k
    proof -
      obtain j' where j': "j' \<le> Suc i" "?zs ! j = xs ! j'" using below [OF jk(1)] by auto
      show ?thesis
      proof (cases "k = Suc i")
        case True
        then show ?thesis using heap_top [OF Suc.prems(1), of j'] j' top by simp
      next
        case False
        then show ?thesis using Suc.prems(5) [of j' k] j' jk above [of k] by auto
      qed
    qed
  qed
  moreover have "perm_on 0 (int n - 1) xs ?zs"
  proof -
    have "perm_on 0 (int n - 1) xs ?ys" using len Suc.prems(2) by (intro swap_at_perm) auto
    moreover have "perm_on 0 (int n - 1) ?ys ?zs"
      using perm_on_mono [OF conjunct2 [OF hz]] Suc.prems(2) by auto
    ultimately show ?thesis by (rule perm_on_trans)
  qed
  ultimately show ?case by (auto intro: perm_on_trans)
qed

lemma sgen_sort_addresses_ok:
  assumes "0 < n" "n \<le> length xs"
  obtains ys where "sgen_sort_addresses xs n = Some ys" "perm_on 0 (int n - 1) xs ys" "sorted (take n ys)"
proof -
  let ?h = "build_heap xs n"
  have h: "heap n ?h" "perm_on 0 (int n - 1) xs ?h" using build_heap_heap [OF assms] by auto
  have len: "length ?h = length xs" by (rule perm_on_length [OF h(2)])
  have d: "perm_on 0 (int n - 1) ?h (drain_heap ?h (n - 1)) \<and>
      (\<forall>j k. j \<le> k \<and> k < n \<longrightarrow> drain_heap ?h (n - 1) ! j \<le> drain_heap ?h (n - 1) ! k)"
    by (rule drain_heap_sorts) (use assms h len in auto)
  let ?ys = "drain_heap ?h (n - 1)"
  have "sgen_sort_addresses xs n = Some ?ys" using assms by (simp add: sgen_sort_addresses_def)
  moreover have "perm_on 0 (int n - 1) xs ?ys" using h(2) d by (auto intro: perm_on_trans)
  moreover have "sorted (take n ?ys)"
    using d assms len perm_on_length [OF conjunct1 [OF d]] by (auto simp: sorted_iff_nth_mono)
  ultimately show thesis by (rule that)
qed

lemma sgen_sort_addresses_take:
  assumes "0 < n" "n \<le> length xs"
  obtains ys where "sgen_sort_addresses xs n = Some ys" "length ys = length xs"
    "sorted (take n ys)" "mset (take n ys) = mset (take n xs)" "drop n ys = drop n xs"
proof -
  obtain ys where ys: "sgen_sort_addresses xs n = Some ys" "perm_on 0 (int n - 1) xs ys"
      "sorted (take n ys)" by (rule sgen_sort_addresses_ok [OF assms])
  have d: "drop n ys = drop n xs"
    using ys(2) by (intro nth_equalityI) (auto simp: perm_on_def)
  have "mset (take n ys) + mset (drop n ys) = mset (take n xs) + mset (drop n xs)"
    using ys(2) by (simp add: perm_on_def flip: mset_append)
  then show thesis using that ys d perm_on_length [OF ys(2)] by simp
qed

section \<open>The comparison functions and the properties\<close>

text \<open>
  Two of the functions that the collector passes: addresses in ascending order, and blocks
  by their number of used slots (\<open>nused\<close>, a \<open>gint16\<close>) in descending order.
\<close>

definition compare_pointers :: "u64 \<Rightarrow> u64 \<Rightarrow> int" where
  "compare_pointers a b = (if a < b then -1 else if a > b then 1 else 0)"

definition block_usage_comparer :: "16 word \<Rightarrow> 16 word \<Rightarrow> int" where
  "block_usage_comparer nused1 nused2 = sint nused2 - sint nused1"

lemma compare_pointers_le: "compare_pointers a b \<le> 0 \<longleftrightarrow> a \<le> b"
  by (auto simp: compare_pointers_def)

interpretation pointers: comparator compare_pointers
  by unfold_locales (auto simp: compare_pointers_le)

interpretation block_usage: comparator block_usage_comparer
  by unfold_locales (auto simp: block_usage_comparer_def)

text \<open>C11: The quicksort returns for every array and every comparison function that is a total
  preorder (no index leaves the array and both loops end), with the elements of the array
  in an order the function allows.\<close>

theorem sgen_qsort_correct:
  assumes "\<forall>a b. compare a b \<le> 0 \<or> compare b a \<le> 0"
    and "\<forall>a b c. compare a b \<le> 0 \<and> compare b c \<le> 0 \<longrightarrow> compare a c \<le> 0"
  shows "\<exists>ys. sgen_qsort compare xs = Some ys \<and> mset ys = mset xs \<and>
    sorted_wrt (\<lambda>a b. compare a b \<le> 0) ys"
proof -
  have "comparator compare" by (rule comparator.intro) (use assms in blast)+
  then show ?thesis by (rule comparator.sgen_qsort_sorts) blast
qed

theorem sgen_qsort_witness:
  "\<exists>ys. sgen_qsort compare_pointers [8, 24, 16, 8, 0] = Some ys \<and> mset ys = mset [8, 24, 16, 8, 0] \<and> sorted ys"
proof -
  have t: "\<forall>a b. compare_pointers a b \<le> 0 \<or> compare_pointers b a \<le> 0"
    using pointers.le_total by blast
  have tr: "\<forall>a b c. compare_pointers a b \<le> 0 \<and> compare_pointers b c \<le> 0 \<longrightarrow> compare_pointers a c \<le> 0"
    using pointers.le_trans by blast
  from sgen_qsort_correct [OF t tr, of "[8, 24, 16, 8, 0]"] show ?thesis
    by (simp only: compare_pointers_le)
qed

text \<open>C12: \<open>sgen_sort_addresses\<close> sorts the first \<open>size\<close> addresses of its array in place: they
  are rearranged into ascending order and nothing behind them is touched.\<close>

theorem sgen_sort_addresses_correct:
  assumes "0 < n" "n \<le> length array"
  shows "\<exists>array'. sgen_sort_addresses array n = Some array' \<and> length array' = length array \<and>
    sorted (take n array') \<and> mset (take n array') = mset (take n array) \<and> drop n array' = drop n array"
  using sgen_sort_addresses_take [OF assms] by metis

theorem sgen_sort_addresses_witness:
  "\<exists>array'. sgen_sort_addresses [24, 8, 16, 8, 0] 4 = Some array' \<and>
    sorted (take 4 array') \<and> mset (take 4 array') = mset [24, 8, 16, 8] \<and> drop 4 array' = [0]"
  using sgen_sort_addresses_correct [of 4 "[24, 8, 16, 8, 0]"] by auto

end
