(* ===== verification/Sgen_PointerQueue.thy ===== *)
theory Sgen_PointerQueue
  imports Sgen_Sort
begin

text \<open>
  The pointer queue of \<open>sgen/sgen-pointer-queue.{h,c}\<close>: a growing array of addresses that can
  be sorted, made duplicate-free and searched. \<open>data\<close> is the memory block of \<open>size\<close>
  pointers (the empty list for \<open>NULL\<close>); new blocks are zeroed by
  \<open>sgen_alloc_internal_dynamic\<close>, which does not return when it fails.
\<close>

section \<open>Operations\<close>

record SgenPointerQueue =
  pq_next_slot :: nat
  pq_size :: nat
  pq_data :: "u64 list"
  pq_mem_type :: int

definition sgen_pointer_queue_clear :: "SgenPointerQueue \<Rightarrow> SgenPointerQueue" where
  "sgen_pointer_queue_clear queue = queue\<lparr>pq_next_slot := 0\<rparr>"

definition sgen_pointer_queue_init :: "int \<Rightarrow> SgenPointerQueue" where
  "sgen_pointer_queue_init mem_type =
    \<lparr>pq_next_slot = 0, pq_size = 0, pq_data = [], pq_mem_type = mem_type\<rparr>"

definition realloc_queue :: "SgenPointerQueue \<Rightarrow> SgenPointerQueue" where
  "realloc_queue queue =
    (let new_size = (if pq_size queue \<noteq> 0 then pq_size queue + pq_size queue div 2 else 1024);
         new_data = replicate new_size 0;
         new_data = take (pq_next_slot queue) (pq_data queue) @ drop (pq_next_slot queue) new_data in
     queue\<lparr>pq_data := new_data, pq_size := new_size\<rparr>)"

definition sgen_pointer_queue_will_grow :: "SgenPointerQueue \<Rightarrow> bool" where
  "sgen_pointer_queue_will_grow queue \<longleftrightarrow> pq_next_slot queue \<ge> pq_size queue"

definition sgen_pointer_queue_add :: "u64 \<Rightarrow> SgenPointerQueue \<Rightarrow> SgenPointerQueue option" where
  "sgen_pointer_queue_add ptr queue =
    (let queue = (if sgen_pointer_queue_will_grow queue then realloc_queue queue else queue) in
     if pq_next_slot queue < length (pq_data queue)
     then Some (queue\<lparr>pq_data := (pq_data queue)[pq_next_slot queue := ptr],
                      pq_next_slot := pq_next_slot queue + 1\<rparr>)
     else None)"

definition sgen_pointer_queue_pop :: "SgenPointerQueue \<Rightarrow> (u64 \<times> SgenPointerQueue) option" where
  "sgen_pointer_queue_pop queue =
    (if pq_next_slot queue = 0 \<or> length (pq_data queue) < pq_next_slot queue then None
     else let next_slot = pq_next_slot queue - 1 in
       Some (pq_data queue ! next_slot, queue\<lparr>pq_next_slot := next_slot\<rparr>))"

function search_queue :: "u64 list \<Rightarrow> u64 \<Rightarrow> nat \<Rightarrow> nat \<Rightarrow> nat" where
  "search_queue data addr first last' =
    (if first < last' then
       let middle = first + (last' - first) div 2 in
       if addr \<le> data ! middle then search_queue data addr first middle
       else search_queue data addr (middle + 1) last'
     else first)"
  by pat_completeness auto
termination
  by (relation "measure (\<lambda>(data, addr, first, last'). last' - first)") auto

declare search_queue.simps [simp del]

definition sgen_pointer_queue_search :: "SgenPointerQueue \<Rightarrow> u64 \<Rightarrow> nat" where
  "sgen_pointer_queue_search queue addr = search_queue (pq_data queue) addr 0 (pq_next_slot queue)"

function remove_nulls_loop :: "u64 list \<Rightarrow> nat \<Rightarrow> nat \<Rightarrow> nat \<Rightarrow> u64 list \<times> nat" where
  "remove_nulls_loop data start cur end' =
    (if cur < end' then
       if data ! cur \<noteq> 0 then remove_nulls_loop (data[start := data ! cur]) (start + 1) (cur + 1) end'
       else remove_nulls_loop data start (cur + 1) end'
     else (data, start))"
  by pat_completeness auto
termination
  by (relation "measure (\<lambda>(data, start, cur, end'). end' - cur)") auto

declare remove_nulls_loop.simps [simp del]

definition sgen_pointer_queue_remove_nulls :: "SgenPointerQueue \<Rightarrow> SgenPointerQueue" where
  "sgen_pointer_queue_remove_nulls queue =
    (case remove_nulls_loop (pq_data queue) 0 0 (pq_next_slot queue) of (data, start) \<Rightarrow>
       queue\<lparr>pq_data := data, pq_next_slot := start\<rparr>)"

text \<open>\<open>while (cur < end && *start == *cur) cur++\<close>, and the loop around it.\<close>

function skip_equal :: "u64 list \<Rightarrow> nat \<Rightarrow> nat \<Rightarrow> nat \<Rightarrow> nat" where
  "skip_equal data start cur end' =
    (if cur < end' \<and> data ! start = data ! cur then skip_equal data start (cur + 1) end' else cur)"
  by pat_completeness auto
termination
  by (relation "measure (\<lambda>(data, start, cur, end'). end' - cur)") auto

declare skip_equal.simps [simp del]

lemma skip_equal_ge: "cur \<le> skip_equal data start cur end'"
proof (induction data start cur end' rule: skip_equal.induct)
  case (1 data start cur end')
  then show ?case by (subst skip_equal.simps) auto
qed

function uniq_loop :: "u64 list \<Rightarrow> nat \<Rightarrow> nat \<Rightarrow> nat \<Rightarrow> u64 list \<times> nat" where
  "uniq_loop data start cur end' =
    (if cur < end' then
       let data = data[start := data ! cur];
           cur = skip_equal data start (cur + 1) end' in
       uniq_loop data (start + 1) cur end'
     else (data, start))"
  by pat_completeness auto
termination
proof (relation "measure (\<lambda>(data, start, cur, end'). end' - cur)")
  fix data :: "u64 list" and start cur end' :: nat and x xa
  assume "cur < end'" "x = data[start := data ! cur]" "xa = skip_equal x start (cur + 1) end'"
  moreover have "cur + 1 \<le> skip_equal x start (cur + 1) end'" by (rule skip_equal_ge)
  ultimately show "((x, start + 1, xa, end'), data, start, cur, end') \<in> measure (\<lambda>(data, start, cur, end'). end' - cur)"
    by simp
qed simp

declare uniq_loop.simps [simp del]

definition sgen_pointer_queue_sort_uniq :: "SgenPointerQueue \<Rightarrow> SgenPointerQueue option" where
  "sgen_pointer_queue_sort_uniq queue =
    do {
      data \<leftarrow> (if pq_next_slot queue > 1 then sgen_sort_addresses (pq_data queue) (pq_next_slot queue)
               else Some (pq_data queue));
      let (data, start) = uniq_loop data 0 0 (pq_next_slot queue);
      Some (queue\<lparr>pq_data := data, pq_next_slot := start\<rparr>) }"

text \<open>\<open>(size_t)-1\<close> is \<open>None\<close>.\<close>

fun find_from :: "u64 list \<Rightarrow> u64 \<Rightarrow> nat \<Rightarrow> nat \<Rightarrow> nat option" where
  "find_from data ptr 0 i = None"
| "find_from data ptr (Suc n) i = (if data ! i = ptr then Some i else find_from data ptr n (i + 1))"

definition sgen_pointer_queue_find :: "SgenPointerQueue \<Rightarrow> u64 \<Rightarrow> nat option" where
  "sgen_pointer_queue_find queue ptr = find_from (pq_data queue) ptr (pq_next_slot queue) 0"

definition sgen_pointer_queue_is_empty :: "SgenPointerQueue \<Rightarrow> bool" where
  "sgen_pointer_queue_is_empty queue \<longleftrightarrow> pq_next_slot queue = 0"

text \<open>After \<open>sgen_pointer_queue_free\<close> the block is gone; the other fields keep their values.\<close>

definition sgen_pointer_queue_free :: "SgenPointerQueue \<Rightarrow> SgenPointerQueue" where
  "sgen_pointer_queue_free queue = queue\<lparr>pq_data := []\<rparr>"

section \<open>The queue as a list\<close>

definition pq_ok :: "SgenPointerQueue \<Rightarrow> bool" where
  "pq_ok q \<longleftrightarrow> length (pq_data q) = pq_size q \<and> pq_next_slot q \<le> pq_size q \<and> pq_size q \<noteq> 1"

definition pq_list :: "SgenPointerQueue \<Rightarrow> u64 list" where
  "pq_list q = take (pq_next_slot q) (pq_data q)"

lemma length_pq_list [simp]: "pq_ok q \<Longrightarrow> length (pq_list q) = pq_next_slot q"
  by (simp add: pq_ok_def pq_list_def)

lemma nth_pq_list: "i < pq_next_slot q \<Longrightarrow> pq_list q ! i = pq_data q ! i"
  by (simp add: pq_list_def)

lemma init_list: "pq_ok (sgen_pointer_queue_init m)" "pq_list (sgen_pointer_queue_init m) = []"
  by (simp_all add: pq_ok_def pq_list_def sgen_pointer_queue_init_def)

lemma clear_list: "pq_ok q \<Longrightarrow> pq_ok (sgen_pointer_queue_clear q)" "pq_list (sgen_pointer_queue_clear q) = []"
  by (simp_all add: pq_ok_def pq_list_def sgen_pointer_queue_clear_def)

lemma realloc_list:
  assumes "pq_ok q" "pq_next_slot q = pq_size q"
  shows "pq_ok (realloc_queue q)" "pq_list (realloc_queue q) = pq_list q"
    "pq_next_slot (realloc_queue q) < pq_size (realloc_queue q)"
proof -
  have "pq_size q < pq_size q + pq_size q div 2" if "pq_size q \<noteq> 0"
  proof -
    have "2 \<le> pq_size q" using that assms(1) by (simp add: pq_ok_def)
    then have "1 \<le> pq_size q div 2" by simp
    then show ?thesis by simp
  qed
  then show "pq_ok (realloc_queue q)" "pq_list (realloc_queue q) = pq_list q"
    "pq_next_slot (realloc_queue q) < pq_size (realloc_queue q)"
    using assms by (auto simp: pq_ok_def pq_list_def realloc_queue_def Let_def)
qed

lemma add_list:
  assumes "pq_ok q"
  obtains q' where "sgen_pointer_queue_add ptr q = Some q'" "pq_ok q'" "pq_list q' = pq_list q @ [ptr]"
proof -
  define r where "r = (if sgen_pointer_queue_will_grow q then realloc_queue q else q)"
  have r: "pq_ok r" "pq_list r = pq_list q" "pq_next_slot r < pq_size r"
    using assms realloc_list [OF assms] by (auto simp: r_def sgen_pointer_queue_will_grow_def pq_ok_def)
  let ?q = "r\<lparr>pq_data := (pq_data r)[pq_next_slot r := ptr], pq_next_slot := pq_next_slot r + 1\<rparr>"
  have "sgen_pointer_queue_add ptr q = Some ?q"
    using r by (simp add: sgen_pointer_queue_add_def Let_def pq_ok_def flip: r_def)
  moreover have "pq_ok ?q" "pq_list ?q = pq_list q @ [ptr]"
    using r by (simp_all add: pq_ok_def pq_list_def take_Suc_conv_app_nth)
  ultimately show thesis by (rule that)
qed

lemma pop_list:
  assumes "pq_ok q" "pq_list q = xs @ [x]"
  obtains q' where "sgen_pointer_queue_pop q = Some (x, q')" "pq_ok q'" "pq_list q' = xs"
proof -
  have n: "pq_next_slot q = Suc (length xs)" using length_pq_list [OF assms(1)] assms(2) by simp
  have x: "pq_data q ! length xs = x"
    using nth_pq_list [of "length xs" q] assms(2) n by simp
  have "take (length xs) (pq_data q) = take (length xs) (pq_list q)"
    by (simp add: pq_list_def n)
  then have "take (length xs) (pq_data q) = xs" by (simp add: assms(2))
  then show thesis
    using assms(1) n x by (intro that [of "q\<lparr>pq_next_slot := length xs\<rparr>"])
      (simp_all add: sgen_pointer_queue_pop_def pq_ok_def pq_list_def)
qed

subsection \<open>Searching\<close>

lemma search_queue_bound:
  assumes "sorted (take n data)" "n \<le> length data" "first \<le> last'" "last' \<le> n"
    and "\<forall>i<first. data ! i < addr" "\<forall>i. last' \<le> i \<and> i < n \<longrightarrow> addr \<le> data ! i"
  shows "search_queue data addr first last' \<le> n \<and> (\<forall>i < search_queue data addr first last'. data ! i < addr) \<and>
    (\<forall>i. search_queue data addr first last' \<le> i \<and> i < n \<longrightarrow> addr \<le> data ! i)"
  using assms
proof (induction data addr first last' rule: search_queue.induct)
  case (1 data addr first last')
  define m where "m = first + (last' - first) div 2"
  have step: "search_queue data addr first last' =
      (if first < last' then if addr \<le> data ! m then search_queue data addr first m
       else search_queue data addr (m + 1) last' else first)"
    by (subst search_queue.simps) (simp only: Let_def m_def)
  have mono: "data ! i \<le> data ! j" if "i \<le> j" "j < n" for i j
    using sorted_nth_mono [OF "1.prems"(1) that(1)] that "1.prems"(2) by simp
  show ?case
  proof (cases "first < last'")
    case False
    then show ?thesis using step "1.prems" by auto
  next
    case True
    have m: "first \<le> m" "m < last'" using True by (auto simp: m_def)
    show ?thesis
    proof (cases "addr \<le> data ! m")
      case le: True
      have hi: "\<forall>i. m \<le> i \<and> i < n \<longrightarrow> addr \<le> data ! i"
        by (intro allI impI) (rule order_trans [OF le mono], simp_all)
      have e: "search_queue data addr first last' = search_queue data addr first m" using step True le by simp
      show ?thesis
        unfolding e using "1.IH"(1) [OF True m_def le "1.prems"(1,2) m(1) _ "1.prems"(5) hi] m(2) "1.prems"(4)
        by simp
    next
      case gt: False
      have lo: "\<forall>i<m + 1. data ! i < addr"
      proof (intro allI impI)
        fix i assume "i < m + 1"
        then have "data ! i \<le> data ! m" using m "1.prems"(4) by (intro mono) auto
        also have "\<dots> < addr" using gt by simp
        finally show "data ! i < addr" .
      qed
      have e: "search_queue data addr first last' = search_queue data addr (m + 1) last'"
        using step True gt by simp
      show ?thesis
        unfolding e using "1.IH"(2) [OF True m_def gt "1.prems"(1,2) _ "1.prems"(4) lo "1.prems"(6)] m(2)
        by simp
    qed
  qed
qed

subsection \<open>Compacting\<close>

lemma remove_nulls_loop_list:
  assumes "start \<le> cur" "cur \<le> end'" "end' \<le> length data"
  shows "\<exists>data' k. remove_nulls_loop data start cur end' = (data', k) \<and> length data' = length data \<and> k \<le> end' \<and>
    take k data' = take start data @ filter (\<lambda>p. p \<noteq> 0) (take (end' - cur) (drop cur data))"
  using assms
proof (induction data start cur end' rule: remove_nulls_loop.induct)
  case (1 data start cur end')
  show ?case
  proof (cases "cur < end'")
    case False
    then show ?thesis using "1.prems" by (subst remove_nulls_loop.simps) simp
  next
    case True
    have c: "take (end' - cur) (drop cur data) = data ! cur # take (end' - Suc cur) (drop (Suc cur) data)"
      using True "1.prems" by (simp add: Cons_nth_drop_Suc [symmetric] take_Cons' )
    show ?thesis
    proof (cases "data ! cur = 0")
      case z: True
      then show ?thesis
        using "1.IH"(2) True "1.prems" c by (subst remove_nulls_loop.simps) simp
    next
      case nz: False
      let ?d = "data[start := data ! cur]"
      have "take (Suc start) ?d = take start data @ [data ! cur]"
        using "1.prems" True by (simp add: take_Suc_conv_app_nth)
      moreover have "drop (Suc cur) ?d = drop (Suc cur) data" using "1.prems" by simp
      ultimately show ?thesis
        using "1.IH"(1) [OF True] nz True "1.prems" c by (subst remove_nulls_loop.simps) simp
    qed
  qed
qed

lemma remove_nulls_list:
  assumes "pq_ok q"
  shows "pq_ok (sgen_pointer_queue_remove_nulls q)"
    "pq_list (sgen_pointer_queue_remove_nulls q) = filter (\<lambda>p. p \<noteq> 0) (pq_list q)"
  using remove_nulls_loop_list [of 0 0 "pq_next_slot q" "pq_data q"] assms
  by (auto simp: sgen_pointer_queue_remove_nulls_def pq_ok_def pq_list_def)

lemma skip_equal_stops:
  assumes "start < cur" "cur \<le> end'" "end' \<le> length data"
  shows "skip_equal data start cur end' \<le> end' \<and> (\<forall>i. cur \<le> i \<and> i < skip_equal data start cur end' \<longrightarrow> data ! i = data ! start) \<and>
    (skip_equal data start cur end' < end' \<longrightarrow> data ! (skip_equal data start cur end') \<noteq> data ! start)"
  using assms
proof (induction data start cur end' rule: skip_equal.induct)
  case (1 data start cur end')
  show ?case
  proof (cases "cur < end' \<and> data ! start = data ! cur")
    case False
    then have "skip_equal data start cur end' = cur" by (subst skip_equal.simps) auto
    then show ?thesis using False "1.prems" by auto
  next
    case True
    then have e: "skip_equal data start cur end' = skip_equal data start (cur + 1) end'"
      by (subst skip_equal.simps) simp
    have ih: "skip_equal data start (cur + 1) end' \<le> end' \<and>
        (\<forall>i. cur + 1 \<le> i \<and> i < skip_equal data start (cur + 1) end' \<longrightarrow> data ! i = data ! start) \<and>
        (skip_equal data start (cur + 1) end' < end' \<longrightarrow> data ! (skip_equal data start (cur + 1) end') \<noteq> data ! start)"
      using "1.IH" [OF True] "1.prems" True by simp
    show ?thesis
      unfolding e
    proof (intro conjI allI impI)
      show "data ! i = data ! start" if "cur \<le> i \<and> i < skip_equal data start (cur + 1) end'" for i
        using ih that True by (cases "i = cur") auto
    qed (use ih in auto)
  qed
qed

text \<open>
  On sorted input the loop keeps one of each value: the values before \<open>start\<close> are strictly
  ascending and below the ones still to come.
\<close>

lemma uniq_loop_list:
  assumes "start \<le> cur" "cur \<le> end'" "end' \<le> length data"
    and "sorted (take (end' - cur) (drop cur data))"
    and "sorted_wrt (<) (take start data)"
    and "\<forall>x\<in>set (take start data). \<forall>y\<in>set (take (end' - cur) (drop cur data)). x < y"
  shows "\<exists>data' k. uniq_loop data start cur end' = (data', k) \<and> length data' = length data \<and> k \<le> end' \<and>
    sorted_wrt (<) (take k data') \<and>
    set (take k data') = set (take start data) \<union> set (take (end' - cur) (drop cur data))"
  using assms
proof (induction data start cur end' rule: uniq_loop.induct)
  case (1 data start cur end')
  show ?case
  proof (cases "cur < end'")
    case False
    then have "uniq_loop data start cur end' = (data, start)" by (subst uniq_loop.simps) simp
    then show ?thesis using False "1.prems" by auto
  next
    case True
    define x where "x = data ! cur"
    define d where "d = data[start := data ! cur]"
    define c where "c = skip_equal d start (cur + 1) end'"
    have len: "length d = length data" by (simp add: d_def)
    have ds: "d ! start = x" using "1.prems" True by (simp add: d_def x_def)
    have after: "drop (Suc cur) d = drop (Suc cur) data" using "1.prems" by (simp add: d_def)
    have cs: "c \<le> end'" "\<forall>i. cur + 1 \<le> i \<and> i < c \<longrightarrow> d ! i = x" "c < end' \<longrightarrow> d ! c \<noteq> x" "cur + 1 \<le> c"
      using skip_equal_stops [of start "cur + 1" end' d] "1.prems" True skip_equal_ge [of "cur + 1" d start end']
      by (auto simp: c_def ds len)
    have e: "uniq_loop data start cur end' = uniq_loop d (start + 1) c end'"
      using True by (subst uniq_loop.simps) (simp add: Let_def d_def c_def)
    let ?rest = "take (end' - c) (drop c data)"
    have dc: "drop c d = drop c data" using cs(4) "1.prems" by (simp add: d_def)
    have nth: "(\<forall>y\<in>set (take (end' - k) (drop k data)). P y) \<longleftrightarrow> (\<forall>i. k \<le> i \<and> i < end' \<longrightarrow> P (data ! i))" for k P
    proof -
      have "P (data ! i)" if "\<forall>j<end' - k. P (data ! (k + j))" "k \<le> i" "i < end'" for i
        using that(1) [rule_format, of "i - k"] that(2,3) by simp
      then show ?thesis using "1.prems"(3) by (auto simp: all_set_conv_all_nth less_diff_conv add.commute)
    qed
    have mono: "data ! i \<le> data ! j" if "cur \<le> i" "i \<le> j" "j < end'" for i j
      using sorted_nth_mono [OF "1.prems"(4), of "i - cur" "j - cur"] that "1.prems"(3) by simp
    have dn: "d ! i = data ! i" if "cur < i" for i using that "1.prems"(1) by (simp add: d_def)
    have gt: "x < data ! i" if "c \<le> i" "i < end'" for i
    proof -
      have "x \<le> data ! c" unfolding x_def using cs(4) that by (intro mono) auto
      moreover have "data ! c \<noteq> x" using cs(3,4) that dn [of c] by auto
      ultimately have "x < data ! c" by simp
      also have "\<dots> \<le> data ! i" using that cs(4) by (intro mono) auto
      finally show ?thesis .
    qed
    have ts: "take (Suc start) d = take start data @ [x]"
      using "1.prems" True by (simp add: d_def x_def take_Suc_conv_app_nth)
    have old: "\<And>y i. y \<in> set (take start data) \<Longrightarrow> cur \<le> i \<Longrightarrow> i < end' \<Longrightarrow> y < data ! i"
      using "1.prems"(6) unfolding nth by blast
    have set_rest: "set (take (end' - cur) (drop cur data)) = insert x (set ?rest)"
    proof -
      have "y = x \<or> y \<in> set ?rest" if "y \<in> set (take (end' - cur) (drop cur data))" for y
      proof -
        obtain i where i: "cur \<le> i" "i < end'" "y = data ! i"
        proof -
          have "\<forall>y\<in>set (take (end' - cur) (drop cur data)). \<exists>i. cur \<le> i \<and> i < end' \<and> y = data ! i"
            unfolding nth by blast
          then show thesis using that \<open>y \<in> set (take (end' - cur) (drop cur data))\<close> by blast
        qed
        consider "i = cur" | "cur < i" "i < c" | "c \<le> i" using i(1) by linarith
        then show ?thesis
        proof cases
          case 3
          then show ?thesis using i "1.prems"(3) by (auto simp: in_set_conv_nth intro!: exI [of _ "i - c"])
        qed (use i cs(2) dn in \<open>auto simp: x_def\<close>)
      qed
      moreover have "x \<in> set (take (end' - cur) (drop cur data))"
        using True "1.prems"(3) by (auto simp: in_set_conv_nth x_def intro!: exI [of _ 0])
      moreover have "set ?rest \<subseteq> set (take (end' - cur) (drop cur data))"
        using nth [of c "\<lambda>y. y \<in> set (take (end' - cur) (drop cur data))"]
          nth [of cur "\<lambda>y. y \<in> set (take (end' - cur) (drop cur data))"] cs(4) by auto
      ultimately show ?thesis by blast
    qed
    have "\<exists>data' k. uniq_loop d (start + 1) c end' = (data', k) \<and> length data' = length d \<and> k \<le> end' \<and>
        sorted_wrt (<) (take k data') \<and>
        set (take k data') = set (take (start + 1) d) \<union> set (take (end' - c) (drop c d))"
    proof (rule "1.IH" [OF True d_def c_def])
      show "start + 1 \<le> c" "c \<le> end'" "end' \<le> length d" using cs(1,4) "1.prems"(1,3) len by auto
      show "sorted (take (end' - c) (drop c d))"
        unfolding dc using mono cs(4) "1.prems"(3) by (auto simp: sorted_iff_nth_mono)
      show "sorted_wrt (<) (take (start + 1) d)"
        using "1.prems"(5) old [of _ cur] True by (simp add: ts sorted_wrt_append flip: x_def)
      show "\<forall>x\<in>set (take (start + 1) d). \<forall>y\<in>set (take (end' - c) (drop c d)). x < y"
        unfolding dc nth using gt old cs(4) by (auto simp: ts)
    qed
    then show ?thesis unfolding e len set_rest by (auto simp: ts dc)
  qed
qed

section \<open>Properties\<close>

lemma sort_uniq_list:
  assumes "pq_ok q"
  shows "\<exists>q'. sgen_pointer_queue_sort_uniq q = Some q' \<and> pq_ok q' \<and>
    pq_list q' = sorted_list_of_set (set (pq_list q))"
proof -
  let ?n = "pq_next_slot q"
  have len: "?n \<le> length (pq_data q)" "length (pq_data q) = pq_size q" using assms by (auto simp: pq_ok_def)
  obtain data where d: "(if ?n > 1 then sgen_sort_addresses (pq_data q) ?n else Some (pq_data q)) = Some data"
    "length data = length (pq_data q)" "sorted (take ?n data)" "set (take ?n data) = set (take ?n (pq_data q))"
  proof (cases "?n > 1")
    case True
    then obtain ys where ys: "sgen_sort_addresses (pq_data q) ?n = Some ys" "length ys = length (pq_data q)"
        "sorted (take ?n ys)" "mset (take ?n ys) = mset (take ?n (pq_data q))"
      using sgen_sort_addresses_take [of ?n "pq_data q"] len by auto
    show thesis
      by (rule that [of ys]) (use ys True mset_eq_setD [OF ys(4)] in simp_all)
  next
    case False
    then have "?n = 0 \<or> ?n = 1" by auto
    then have "sorted (take ?n (pq_data q))" using len by (cases "pq_data q") auto
    then show thesis by (intro that [of "pq_data q"]) (use False in simp_all)
  qed
  have "\<exists>data' k. uniq_loop data 0 0 ?n = (data', k) \<and> length data' = length data \<and> k \<le> ?n \<and>
    sorted_wrt (<) (take k data') \<and> set (take k data') = set (take 0 data) \<union> set (take (?n - 0) (drop 0 data))"
    by (rule uniq_loop_list) (use len d in auto)
  then obtain data' k where u: "uniq_loop data 0 0 ?n = (data', k)" "length data' = length data" "k \<le> ?n"
    "sorted_wrt (<) (take k data')" "set (take k data') = set (take ?n data)" by auto
  let ?q = "q\<lparr>pq_data := data', pq_next_slot := k\<rparr>"
  have "sgen_pointer_queue_sort_uniq q = Some ?q"
    unfolding sgen_pointer_queue_sort_uniq_def using d(1) u(1) by simp
  moreover have "pq_ok ?q" using assms u(2,3) d(2) by (simp add: pq_ok_def)
  moreover have "pq_list ?q = sorted_list_of_set (set (pq_list q))"
  proof -
    have "sorted_list_of_set (set (take k data')) = take k data'"
      using u(4) by (simp add: strict_sorted_iff sorted_list_of_set.idem_if_sorted_distinct)
    then show ?thesis using u(5) d(4) by (simp add: pq_list_def)
  qed
  ultimately show ?thesis by blast
qed

text \<open>\<open>sgen_pointer_queue_sort_uniq\<close> always returns, keeps the queue well formed and leaves
  exactly the distinct addresses that were queued, in strictly ascending order.\<close>

theorem sort_uniq_correct:
  assumes "pq_ok q"
  shows "\<exists>q'. sgen_pointer_queue_sort_uniq q = Some q' \<and> pq_ok q' \<and>
    pq_list q' = sorted_list_of_set (set (pq_list q))"
  using assms by (rule sort_uniq_list)

definition demo_queue :: SgenPointerQueue where
  "demo_queue = \<lparr>pq_next_slot = 4, pq_size = 6, pq_data = [16, 8, 16, 0, 0, 0], pq_mem_type = 0\<rparr>"

theorem sort_uniq_witness:
  "\<exists>q'. sgen_pointer_queue_sort_uniq demo_queue = Some q' \<and> pq_ok q' \<and> pq_list q' = [0, 8, 16]"
proof -
  have "pq_ok demo_queue" by (simp add: pq_ok_def demo_queue_def)
  moreover have "sorted_list_of_set (set (pq_list demo_queue)) = [0, 8, 16]"
  proof -
    have "set (pq_list demo_queue) = set [0, 8, 16]" by (auto simp: pq_list_def demo_queue_def)
    then show ?thesis by (simp only: sorted_list_of_set.idem_if_sorted_distinct) simp
  qed
  ultimately show ?thesis using sort_uniq_correct [of demo_queue] by simp
qed

lemma search_list:
  assumes "pq_ok q" "sorted (pq_list q)"
  shows "sgen_pointer_queue_search q addr \<le> pq_next_slot q \<and>
    take (sgen_pointer_queue_search q addr) (pq_list q) = filter (\<lambda>p. p < addr) (pq_list q)"
proof -
  let ?n = "pq_next_slot q" and ?k = "sgen_pointer_queue_search q addr"
  have s: "?k \<le> ?n" "\<forall>i < ?k. pq_data q ! i < addr" "\<forall>i. ?k \<le> i \<and> i < ?n \<longrightarrow> addr \<le> pq_data q ! i"
  proof -
    have "sorted (take ?n (pq_data q))" "?n \<le> length (pq_data q)" using assms by (simp_all add: pq_ok_def pq_list_def)
    moreover have "\<forall>i. ?n \<le> i \<and> i < ?n \<longrightarrow> addr \<le> pq_data q ! i" by auto
    ultimately
    have "?k \<le> ?n \<and> (\<forall>i < ?k. pq_data q ! i < addr) \<and> (\<forall>i. ?k \<le> i \<and> i < ?n \<longrightarrow> addr \<le> pq_data q ! i)"
      unfolding sgen_pointer_queue_search_def by (intro search_queue_bound) simp_all
    then show "?k \<le> ?n" "\<forall>i < ?k. pq_data q ! i < addr" "\<forall>i. ?k \<le> i \<and> i < ?n \<longrightarrow> addr \<le> pq_data q ! i" by auto
  qed
  have l: "?n \<le> length (pq_data q)" using assms(1) by (simp add: pq_ok_def)
  have "pq_list q = take ?k (pq_list q) @ drop ?k (pq_list q)" by simp
  moreover have "filter (\<lambda>p. p < addr) (take ?k (pq_list q)) = take ?k (pq_list q)"
    using s(1,2) l by (auto simp: filter_id_conv in_set_conv_nth pq_list_def)
  moreover have "filter (\<lambda>p. p < addr) (drop ?k (pq_list q)) = []"
    using s(3) l by (auto simp: filter_empty_conv in_set_conv_nth pq_list_def not_less)
  ultimately show ?thesis using s(1) filter_append [of "\<lambda>p. p < addr" "take ?k (pq_list q)" "drop ?k (pq_list q)"] by simp
qed

text \<open>On a sorted queue \<open>sgen_pointer_queue_search\<close> returns the number of queued addresses
  below the one searched: the position of the first that is not, or the end.\<close>

theorem pointer_queue_search_correct:
  assumes "pq_ok q" "sorted (pq_list q)"
  shows "sgen_pointer_queue_search q addr \<le> pq_next_slot q \<and>
    take (sgen_pointer_queue_search q addr) (pq_list q) = filter (\<lambda>p. p < addr) (pq_list q)"
  using assms by (rule search_list)

theorem pointer_queue_search_witness:
  "sgen_pointer_queue_search \<lparr>pq_next_slot = 3, pq_size = 4, pq_data = [8, 16, 24, 0], pq_mem_type = 0\<rparr> 20 \<le> 3 \<and>
   take (sgen_pointer_queue_search \<lparr>pq_next_slot = 3, pq_size = 4, pq_data = [8, 16, 24, 0], pq_mem_type = 0\<rparr> 20)
     [8, 16, 24 :: u64] = [8, 16]"
  using pointer_queue_search_correct [of "\<lparr>pq_next_slot = 3, pq_size = 4, pq_data = [8, 16, 24, 0], pq_mem_type = 0\<rparr>" 20]
  by (simp add: pq_ok_def pq_list_def)

end
