(* ===== verification/Hash_Chains.thy ===== *)
theory Hash_Chains
  imports Brotli_Prelude "HOL-Library.Multiset" "HOL-Library.Monad_Syntax"
begin

text \<open>
  What the two chained hash tables of the program share (\<open>sgen/sgen-hash-table.c\<close> and
  \<open>eglib/ghashtable.c\<close>): a table is a list of chains, a chain the list of its entries (key
  and data) in the order of the \<open>next\<close> pointers. A pointer to an entry is the pair of its
  chain and its position in it. The laws are those of a key type with a hash function and
  an equality the hash function respects; they are proved here once, on multisets of
  entries, and instantiated by the tables.
\<close>

section \<open>Operations on chains\<close>

fun find_pos :: "('a \<Rightarrow> bool) \<Rightarrow> 'a list \<Rightarrow> nat \<Rightarrow> nat option" where
  "find_pos P [] i = None"
| "find_pos P (x # xs) i = (if P x then Some i else find_pos P xs (i + 1))"

definition remove_at :: "nat \<Rightarrow> 'a list \<Rightarrow> 'a list" where
  "remove_at i xs = take i xs @ drop (i + 1) xs"

text \<open>Moving an entry to the front of its chain in the new table, and all entries in order.\<close>

definition push_entry :: "('k \<Rightarrow> u32) \<Rightarrow> ('k \<times> 'd) \<Rightarrow> ('k \<times> 'd) list list \<Rightarrow> ('k \<times> 'd) list list" where
  "push_entry h e t = (let i = unat (h (fst e)) mod length t in t[i := e # t ! i])"

definition rehash_chains :: "('k \<Rightarrow> u32) \<Rightarrow> nat \<Rightarrow> ('k \<times> 'd) list list \<Rightarrow> ('k \<times> 'd) list list" where
  "rehash_chains h new_size old =
    fold (\<lambda>chain t. fold (push_entry h) chain t) old (replicate new_size [])"

lemma find_pos_Some:
  "find_pos P xs i = Some j \<Longrightarrow> i \<le> j \<and> j - i < length xs \<and> P (xs ! (j - i))"
proof (induction xs arbitrary: i)
  case (Cons x xs)
  show ?case
  proof (cases "P x")
    case False
    then have ih: "i + 1 \<le> j \<and> j - (i + 1) < length xs \<and> P (xs ! (j - (i + 1)))"
      using Cons.IH [of "i + 1"] Cons.prems by simp
    then have "j - i = Suc (j - (i + 1))" by linarith
    then show ?thesis using ih by auto
  qed (use Cons.prems in simp)
qed simp

lemma find_pos_None: "find_pos P xs i = None \<longleftrightarrow> (\<forall>x\<in>set xs. \<not> P x)"
  by (induction xs arbitrary: i) auto

lemma mset_remove_at: "i < length xs \<Longrightarrow> mset (remove_at i xs) = mset xs - {#xs ! i#}"
  using id_take_nth_drop [of i xs] by (metis Suc_eq_plus1 add_mset_add_single add_mset_remove_trivial
    mset.simps(2) mset_append remove_at_def union_mset_add_mset_right)

section \<open>The multiset of entries\<close>

definition entries :: "('k \<times> 'd) list list \<Rightarrow> ('k \<times> 'd) multiset" where
  "entries t = mset (concat t)"

lemma entries_simps [simp]:
  "entries [] = {#}" "entries (c # t) = mset c + entries t" "entries (replicate n []) = {#}"
  by (simp_all add: entries_def)

lemma entries_update: "i < length t \<Longrightarrow> entries (t[i := c]) + mset (t ! i) = entries t + mset c"
proof (induction t arbitrary: i)
  case (Cons d t)
  show ?case
  proof (cases i)
    case 0
    then show ?thesis by (simp add: add.commute add.left_commute)
  next
    case (Suc j)
    then have "entries (t[j := c]) + mset (t ! j) = entries t + mset c" using Cons by simp
    then show ?thesis using Suc by (simp add: add.assoc)
  qed
qed simp

lemma chain_subset: "i < length t \<Longrightarrow> mset (t ! i) \<subseteq># entries t"
  by (induction t arbitrary: i) (auto simp: less_Suc_eq_0_disj intro: subset_mset.add_increasing)

lemma in_entries: "e \<in># entries t \<longleftrightarrow> (\<exists>i<length t. e \<in> set (t ! i))"
  by (auto simp: entries_def in_set_conv_nth) (metis nth_mem)+

locale hash_key =
  fixes h :: "'k \<Rightarrow> u32" and eq :: "'k \<Rightarrow> 'k \<Rightarrow> bool"
  assumes eq_refl: "eq k k"
    and eq_sym: "eq k l \<Longrightarrow> eq l k"
    and eq_trans: "eq k l \<Longrightarrow> eq l m \<Longrightarrow> eq k m"
    and hash_eq: "eq k l \<Longrightarrow> h k = h l"
begin

text \<open>Every entry is in the chain of its hash value, and no two entries have equal keys.\<close>

definition placed :: "('k \<times> 'd) list list \<Rightarrow> bool" where
  "placed t \<longleftrightarrow> (\<forall>i<length t. \<forall>e\<in>set (t ! i). unat (h (fst e)) mod length t = i)"

definition uniq :: "('k \<times> 'd) multiset \<Rightarrow> bool" where
  "uniq M \<longleftrightarrow> (\<forall>k. size (filter_mset (\<lambda>e. eq (fst e) k) M) \<le> 1)"

definition has :: "('k \<times> 'd) multiset \<Rightarrow> 'k \<Rightarrow> 'd \<Rightarrow> bool" where
  "has M k d \<longleftrightarrow> (\<exists>k'. (k', d) \<in># M \<and> eq k' k)"

definition chain_pos :: "('k \<times> 'd) list list \<Rightarrow> 'k \<Rightarrow> (nat \<times> nat) option" where
  "chain_pos t k =
    (let i = unat (h k) mod length t in map_option (Pair i) (find_pos (\<lambda>e. eq (fst e) k) (t ! i) 0))"

lemma eq_comm: "eq k l \<longleftrightarrow> eq l k"
  using eq_sym by blast

lemma chain_posD:
  assumes "chain_pos t k = Some (i, j)" "t \<noteq> []"
  shows "i < length t" "j < length (t ! i)" "eq (fst (t ! i ! j)) k" "t ! i ! j \<in># entries t"
proof -
  show "i < length t" using assms by (auto simp: chain_pos_def Let_def)
  moreover show "j < length (t ! i)" "eq (fst (t ! i ! j)) k"
    using assms(1) find_pos_Some [of _ "t ! i" 0 j] by (auto simp: chain_pos_def Let_def)
  ultimately show "t ! i ! j \<in># entries t" by (auto simp: in_entries)
qed

lemma chain_pos_None:
  assumes "placed t" "t \<noteq> []"
  shows "chain_pos t k = None \<longleftrightarrow> (\<forall>d. \<not> has (entries t) k d)"
proof
  assume n: "chain_pos t k = None"
  show "\<forall>d. \<not> has (entries t) k d"
  proof (intro allI notI)
    fix d assume "has (entries t) k d"
    then obtain k' i where k': "i < length t" "(k', d) \<in> set (t ! i)" "eq k' k"
      by (auto simp: has_def in_entries)
    have "unat (h k') mod length t = i" using assms(1) k' by (fastforce simp: placed_def)
    then have "i = unat (h k) mod length t" using hash_eq [OF k'(3)] by simp
    then show False using n k' by (auto simp: chain_pos_def Let_def find_pos_None)
  qed
next
  assume n: "\<forall>d. \<not> has (entries t) k d"
  show "chain_pos t k = None"
  proof (cases "chain_pos t k")
    case (Some p)
    obtain i j where p: "p = (i, j)" by (cases p)
    obtain k' d where e: "t ! i ! j = (k', d)" by (cases "t ! i ! j")
    have "has (entries t) k d"
      using chain_posD(3,4) [of t k i j] Some p e assms(2) by (auto simp: has_def)
    then show ?thesis using n by simp
  qed
qed

lemma uniq_has:
  assumes "uniq M" "e \<in># M" "eq (fst e) k"
  shows "has M k d \<longleftrightarrow> d = snd e"
proof -
  have "e' = e" if "e' \<in># M" "eq (fst e') k" for e'
  proof (rule ccontr)
    assume "e' \<noteq> e"
    let ?F = "filter_mset (\<lambda>e. eq (fst e) k) M"
    have "e \<in># ?F" "e' \<in># ?F" using that assms by auto
    then obtain N where N: "?F = add_mset e N" by (metis insert_DiffM)
    then have "e' \<in># N" using \<open>e' \<in># ?F\<close> \<open>e' \<noteq> e\<close> by auto
    then have "N \<noteq> {#}" by auto
    then have "1 < size ?F" by (simp add: N nonempty_has_size)
    then show False using assms(1) by (auto simp: uniq_def not_le [symmetric])
  qed
  note one = this
  show ?thesis
  proof
    assume "has M k d"
    then obtain k' where "(k', d) \<in># M" "eq k' k" by (auto simp: has_def)
    then show "d = snd e" using one [of "(k', d)"] by auto
  next
    assume "d = snd e"
    then show "has M k d" using assms(2,3) unfolding has_def by (intro exI [of _ "fst e"]) simp
  qed
qed

section \<open>The operations on the multiset\<close>

lemma push_entry_props:
  assumes "placed t" "t \<noteq> []"
  shows "placed (push_entry h e t)" "entries (push_entry h e t) = add_mset e (entries t)"
    "length (push_entry h e t) = length t"
proof -
  let ?i = "unat (h (fst e)) mod length t"
  have i: "?i < length t" using assms(2) by simp
  show "placed (push_entry h e t)"
    using assms(1) i by (auto simp: push_entry_def Let_def placed_def nth_list_update)
  have "entries (t[?i := e # t ! ?i]) + mset (t ! ?i) = entries t + mset (e # t ! ?i)"
    by (rule entries_update [OF i])
  then show "entries (push_entry h e t) = add_mset e (entries t)" by (simp add: push_entry_def Let_def)
qed (simp add: push_entry_def Let_def)

lemma fold_push:
  assumes "placed t" "t \<noteq> []"
  shows "placed (fold (push_entry h) c t) \<and> entries (fold (push_entry h) c t) = mset c + entries t \<and>
    length (fold (push_entry h) c t) = length t"
  using assms
proof (induction c arbitrary: t)
  case (Cons e c)
  have "push_entry h e t \<noteq> []" using push_entry_props(3) [OF Cons.prems, of e] Cons.prems(2) by auto
  then show ?case using Cons.IH [of "push_entry h e t"] push_entry_props [OF Cons.prems, of e] by simp
qed simp

lemma rehash_chains_props:
  assumes "0 < n"
  shows "placed (rehash_chains h n t) \<and> entries (rehash_chains h n t) = entries t \<and>
    length (rehash_chains h n t) = n"
proof -
  have all: "placed (fold (\<lambda>chain t. fold (push_entry h) chain t) t t0) \<and>
      entries (fold (\<lambda>chain t. fold (push_entry h) chain t) t t0) = entries t + entries t0 \<and>
      length (fold (\<lambda>chain t. fold (push_entry h) chain t) t t0) = length t0"
    if "placed t0" "t0 \<noteq> []" for t0
    using that
  proof (induction t arbitrary: t0)
    case (Cons c t)
    note f = fold_push [OF Cons.prems, of c]
    have "fold (push_entry h) c t0 \<noteq> []" using f Cons.prems(2) by auto
    then show ?case using Cons.IH [of "fold (push_entry h) c t0"] f by (simp add: add_ac)
  qed simp
  have "placed (replicate n [])" by (simp add: placed_def)
  from all [OF this] show ?thesis unfolding rehash_chains_def using assms by simp
qed

lemma set_entry_props:
  assumes "placed t" "i < length t" "j < length (t ! i)" "eq (fst e) (fst (t ! i ! j))"
  shows "placed (t[i := (t ! i)[j := e]])"
    "entries (t[i := (t ! i)[j := e]]) = add_mset e (entries t - {#t ! i ! j#})"
proof -
  have "unat (h (fst (t ! i ! j))) mod length t = i" using assms(1-3) by (auto simp: placed_def)
  then have "unat (h (fst e)) mod length t = i" using hash_eq [OF assms(4)] by simp
  then show "placed (t[i := (t ! i)[j := e]])"
    using assms(1,2) by (auto simp: placed_def nth_list_update dest!: set_update_subset_insert [THEN subsetD])
  have "entries (t[i := (t ! i)[j := e]]) + mset (t ! i) = entries t + mset ((t ! i)[j := e])"
    by (rule entries_update [OF assms(2)])
  also have "mset ((t ! i)[j := e]) = add_mset e (mset (t ! i) - {#t ! i ! j#})"
    using assms(3) by (simp add: mset_update)
  finally have a: "entries (t[i := (t ! i)[j := e]]) + mset (t ! i) =
      entries t + add_mset e (mset (t ! i) - {#t ! i ! j#})" .
  have m: "t ! i ! j \<in># mset (t ! i)" using assms(3) by simp
  then obtain N where N: "mset (t ! i) = add_mset (t ! i ! j) N" by (metis insert_DiffM)
  have "t ! i ! j \<in># entries t" using assms(2) m by (auto simp: in_entries)
  then obtain E where E: "entries t = add_mset (t ! i ! j) E" by (metis insert_DiffM)
  show "entries (t[i := (t ! i)[j := e]]) = add_mset e (entries t - {#t ! i ! j#})"
    using a unfolding N E by simp
qed

lemma remove_entry_props:
  assumes "placed t" "i < length t" "j < length (t ! i)"
  shows "placed (t[i := remove_at j (t ! i)])"
    "entries (t[i := remove_at j (t ! i)]) = entries t - {#t ! i ! j#}"
proof -
  have "set (remove_at j (t ! i)) \<subseteq> set (t ! i)"
    by (auto simp: remove_at_def dest: in_set_takeD in_set_dropD)
  then show "placed (t[i := remove_at j (t ! i)])"
    using assms(1,2) by (auto simp: placed_def nth_list_update)
  have a: "entries (t[i := remove_at j (t ! i)]) + mset (t ! i) = entries t + mset (remove_at j (t ! i))"
    by (rule entries_update [OF assms(2)])
  have m: "t ! i ! j \<in># mset (t ! i)" using assms(3) by simp
  then obtain N where N: "mset (t ! i) = add_mset (t ! i ! j) N" by (metis insert_DiffM)
  have "t ! i ! j \<in># entries t" using assms(2) m by (auto simp: in_entries)
  then obtain E where E: "entries t = add_mset (t ! i ! j) E" by (metis insert_DiffM)
  show "entries (t[i := remove_at j (t ! i)]) = entries t - {#t ! i ! j#}"
    using a unfolding mset_remove_at [OF assms(3)] N E by simp
qed

lemma uniq_add:
  assumes "uniq M" "\<forall>d. \<not> has M (fst e) d"
  shows "uniq (add_mset e M)"
  unfolding uniq_def
proof
  fix k
  show "size (filter_mset (\<lambda>e. eq (fst e) k) (add_mset e M)) \<le> 1"
  proof (cases "eq (fst e) k")
    case True
    have f: "filter_mset (\<lambda>e. eq (fst e) k) M = {#}"
    proof (rule ccontr)
      assume "filter_mset (\<lambda>e. eq (fst e) k) M \<noteq> {#}"
      then obtain e' where "e' \<in># M" "eq (fst e') k" by auto
      moreover from this have "eq (fst e') (fst e)" by (intro eq_trans [OF _ eq_sym [OF True]])
      ultimately have "has M (fst e) (snd e')" unfolding has_def by (intro exI [of _ "fst e'"]) simp
      then show False using assms(2) by blast
    qed
    show ?thesis unfolding filter_mset_add_mset f by simp
  next
    case False
    then show ?thesis using assms(1) [unfolded uniq_def, rule_format, of k] by auto
  qed
qed

lemma uniq_remove: "uniq M \<Longrightarrow> uniq (M - {#e#})"
  unfolding uniq_def
  by (meson diff_subset_eq_self le_trans multiset_filter_mono size_mset_mono)

lemma uniq_filter_eq:
  assumes "uniq M" "e \<in># M" "eq (fst e) k"
  shows "filter_mset (\<lambda>e. eq (fst e) k) (M - {#e#}) = {#}"
proof -
  obtain N where N: "M = add_mset e N" using assms(2) by (metis insert_DiffM)
  have "size (filter_mset (\<lambda>e. eq (fst e) k) M) \<le> 1" using assms(1) by (simp add: uniq_def)
  then show ?thesis using assms(3) by (simp add: N)
qed

lemma has_remove:
  assumes "uniq M" "e \<in># M" "eq (fst e) k"
  shows "has (M - {#e#}) l d \<longleftrightarrow> has M l d \<and> \<not> eq k l"
proof (cases "eq k l")
  case True
  then have "eq (fst e) l" by (rule eq_trans [OF assms(3)])
  from uniq_filter_eq [OF assms(1,2) this] have "\<forall>e'\<in>#M - {#e#}. \<not> eq (fst e') l"
    by (simp only: filter_mset_eq_mempty_iff) blast
  then show ?thesis using True by (auto simp: has_def)
next
  case False
  then have "\<not> eq (fst e) l" using eq_trans [OF eq_sym [OF assms(3)], of l] by blast
  moreover obtain N where N: "M = add_mset e N" using assms(2) by (metis insert_DiffM)
  ultimately show ?thesis using False by (auto simp: has_def)
qed

lemma has_add: "has (add_mset e M) l d \<longleftrightarrow> eq (fst e) l \<and> snd e = d \<or> has M l d"
  by (cases e) (auto simp: has_def)

lemma uniq_replace:
  assumes "uniq M" "e \<in># M" "eq (fst e') (fst e)"
  shows "uniq (add_mset e' (M - {#e#}))"
proof (rule uniq_add [OF uniq_remove [OF assms(1)]])
  show "\<forall>d. \<not> has (M - {#e#}) (fst e') d"
    using has_remove [OF assms(1,2) eq_sym [OF assms(3)]] eq_refl by blast
qed

end

section \<open>Lookup\<close>

context hash_key
begin

definition tlookup :: "('k \<times> 'd) list list \<Rightarrow> 'k \<Rightarrow> ('k \<times> 'd) option" where
  "tlookup t k = map_option (\<lambda>(i, j). t ! i ! j) (chain_pos t k)"

definition tok :: "('k \<times> 'd) list list \<Rightarrow> bool" where
  "tok t \<longleftrightarrow> t \<noteq> [] \<and> placed t \<and> uniq (entries t)"

lemma tlookup_has:
  assumes "tok t"
  shows "map_option snd (tlookup t k) = Some d \<longleftrightarrow> has (entries t) k d"
proof (cases "chain_pos t k")
  case None
  then have "\<not> has (entries t) k d" using chain_pos_None [of t k] assms by (auto simp: tok_def)
  then show ?thesis using None by (simp add: tlookup_def)
next
  case (Some p)
  obtain i j where p: "p = (i, j)" by (cases p)
  have "t \<noteq> []" using assms by (simp add: tok_def)
  note c = chain_posD [OF Some [unfolded p] this]
  have "uniq (entries t)" using assms by (simp add: tok_def)
  from uniq_has [OF this c(4,3)] show ?thesis using Some by (auto simp: tlookup_def p)
qed

lemma tlookup_eqI:
  assumes "tok t" "tok t'" "\<And>d. has (entries t') k d \<longleftrightarrow> (if b then v = Some d else has (entries t) k d)"
  shows "map_option snd (tlookup t' k) = (if b then v else map_option snd (tlookup t k))"
proof -
  have "map_option snd (tlookup t' k) = Some d \<longleftrightarrow> (if b then v else map_option snd (tlookup t k)) = Some d" for d
    using tlookup_has [OF assms(1), of k d] tlookup_has [OF assms(2), of k d] assms(3) [of d] by auto
  then show ?thesis by (metis not_None_eq)
qed

lemma tok_rehash:
  assumes "tok t" "0 < n"
  shows "tok (rehash_chains h n t)" "map_option snd (tlookup (rehash_chains h n t) k) = map_option snd (tlookup t k)"
proof -
  note p = rehash_chains_props [OF assms(2), of t]
  show ok: "tok (rehash_chains h n t)" using assms p by (auto simp: tok_def)
  show "map_option snd (tlookup (rehash_chains h n t) k) = map_option snd (tlookup t k)"
    using tlookup_eqI [OF assms(1) ok, of k False] p by simp
qed

lemma tok_push:
  assumes "tok t" "tlookup t k = None"
  shows "tok (push_entry h (k, d) t)"
    "map_option snd (tlookup (push_entry h (k, d) t) l) = (if eq k l then Some d else map_option snd (tlookup t l))"
proof -
  have t: "t \<noteq> []" "placed t" "uniq (entries t)" using assms by (simp_all add: tok_def)
  note p = push_entry_props [OF t(2,1), of "(k, d)"]
  have no: "\<not> has (entries t) k c" for c using tlookup_has [OF assms(1), of k c] assms(2) by simp
  show ok: "tok (push_entry h (k, d) t)"
    unfolding tok_def using t p no uniq_add [of "entries t" "(k, d)"] by auto
  show "map_option snd (tlookup (push_entry h (k, d) t) l) = (if eq k l then Some d else map_option snd (tlookup t l))"
  proof (rule tlookup_eqI [OF assms(1) ok])
    fix c
    have "\<not> has (entries t) l c" if "eq k l"
      using no eq_trans [OF _ eq_sym [OF that]] by (auto simp: has_def)
    then show "has (entries (push_entry h (k, d) t)) l c \<longleftrightarrow> (if eq k l then Some d = Some c else has (entries t) l c)"
      unfolding p(2) has_add by auto
  qed
qed

lemma tok_set:
  assumes "tok t" "chain_pos t k = Some (i, j)" "eq k' k"
  shows "tok (t[i := (t ! i)[j := (k', d)]])"
    "map_option snd (tlookup (t[i := (t ! i)[j := (k', d)]]) l) = (if eq k l then Some d else map_option snd (tlookup t l))"
proof -
  have t: "t \<noteq> []" "placed t" "uniq (entries t)" using assms by (simp_all add: tok_def)
  note c = chain_posD [OF assms(2) t(1)]
  have e: "eq (fst (k', d)) (fst (t ! i ! j))" using eq_trans [OF assms(3) eq_sym [OF c(3)]] by simp
  note p = set_entry_props [OF t(2) c(1,2) e]
  show ok: "tok (t[i := (t ! i)[j := (k', d)]])"
    unfolding tok_def using t p uniq_replace [OF t(3) c(4) e] by auto
  show "map_option snd (tlookup (t[i := (t ! i)[j := (k', d)]]) l) = (if eq k l then Some d else map_option snd (tlookup t l))"
  proof (rule tlookup_eqI [OF assms(1) ok])
    fix c'
    have "eq k' l \<longleftrightarrow> eq k l" using eq_trans [OF assms(3)] eq_trans [OF eq_sym [OF assms(3)]] by blast
    then show "has (entries (t[i := (t ! i)[j := (k', d)]])) l c' \<longleftrightarrow>
      (if eq k l then Some d = Some c' else has (entries t) l c')"
      unfolding p(2) has_add has_remove [OF t(3) c(4,3)] by auto
  qed
qed

lemma tok_remove:
  assumes "tok t" "chain_pos t k = Some (i, j)"
  shows "tok (t[i := remove_at j (t ! i)])"
    "map_option snd (tlookup (t[i := remove_at j (t ! i)]) l) = (if eq k l then None else map_option snd (tlookup t l))"
proof -
  have t: "t \<noteq> []" "placed t" "uniq (entries t)" using assms by (simp_all add: tok_def)
  note c = chain_posD [OF assms(2) t(1)]
  note p = remove_entry_props [OF t(2) c(1,2)]
  show ok: "tok (t[i := remove_at j (t ! i)])"
    unfolding tok_def using t p uniq_remove [OF t(3)] by auto
  show "map_option snd (tlookup (t[i := remove_at j (t ! i)]) l) = (if eq k l then None else map_option snd (tlookup t l))"
    by (rule tlookup_eqI [OF assms(1) ok]) (auto simp: p(2) has_remove [OF t(3) c(4,3)])
qed

lemma tlookup_cong: "tok t \<Longrightarrow> eq k l \<Longrightarrow> map_option snd (tlookup t k) = map_option snd (tlookup t l)"
proof -
  assume t: "tok t" and e: "eq k l"
  have "has (entries t) k d \<longleftrightarrow> has (entries t) l d" for d
    unfolding has_def using eq_trans [OF _ e] eq_trans [OF _ eq_sym [OF e]] by blast
  then show ?thesis using tlookup_eqI [OF t t, of k True "map_option snd (tlookup t l)"] tlookup_has [OF t] by simp
qed

end

section \<open>The interface of a table\<close>

text \<open>
  What a client of either table relies on: \<open>lookup\<close> after storing and after removing a key,
  up to the table's equality of keys, and that both keep the table well formed.
\<close>

locale table_map =
  fixes ok :: "'t \<Rightarrow> bool" and same :: "'t \<Rightarrow> 'k \<Rightarrow> 'k \<Rightarrow> bool"
    and lookup :: "'t \<Rightarrow> 'k \<Rightarrow> 'd option"
    and put :: "'k \<Rightarrow> 'd \<Rightarrow> 't \<Rightarrow> 't" and del :: "'k \<Rightarrow> 't \<Rightarrow> 't"
  assumes ok_put: "ok t \<Longrightarrow> ok (put k d t)" and ok_del: "ok t \<Longrightarrow> ok (del k t)"
    and same_put: "ok t \<Longrightarrow> same (put k d t) = same t" and same_del: "ok t \<Longrightarrow> same (del k t) = same t"
    and same_refl: "ok t \<Longrightarrow> same t k k"
    and lookup_put: "ok t \<Longrightarrow> lookup (put k d t) l = (if same t k l then Some d else lookup t l)"
    and lookup_del: "ok t \<Longrightarrow> lookup (del k t) l = (if same t k l then None else lookup t l)"
begin

lemma lookup_put_same: "ok t \<Longrightarrow> lookup (put k d t) k = Some d"
  by (simp add: lookup_put same_refl)

lemma del_put: "ok t \<Longrightarrow> lookup (del k (put k d t)) l = lookup (del k t) l"
  by (simp add: lookup_put lookup_del ok_put same_put)

lemma put_put: "ok t \<Longrightarrow> lookup (put k d (put k c t)) l = lookup (put k d t) l"
  by (simp add: lookup_put ok_put same_put)

lemma put_comm:
  "ok t \<Longrightarrow> \<not> same t k l \<Longrightarrow> \<not> same t l k \<Longrightarrow> (\<And>m. same t k m \<Longrightarrow> \<not> same t l m) \<Longrightarrow>
    lookup (put k c (put l d t)) m = lookup (put l d (put k c t)) m"
  by (auto simp: lookup_put ok_put same_put)

end

end
