(* ===== verification/Sgen_HashTable.thy ===== *)
theory Sgen_HashTable
  imports Hash_Chains
begin

text \<open>
  The collector's hash table, \<open>sgen/sgen-hash-table.{h,c}\<close>, and the table sizes it takes
  from \<open>g_spaced_primes_closest\<close> (\<open>eglib/ghashtable.c\<close>). The table is the list of its chains,
  empty for \<open>NULL\<close>; an entry pointer is the pair of a chain and a position in it. Allocation
  of tables and entries does not fail (\<open>sgen_alloc_internal\<close> aborts), so freeing and the
  registration of the entry size leave no trace here; the statistics are left out.
\<close>

section \<open>Table sizes\<close>

definition prime_tbl :: "nat list" where
  "prime_tbl = [
    11, 19, 37, 73, 109, 163, 251, 367, 557, 823, 1237,
    1861, 2777, 4177, 6247, 9371, 14057, 21089, 31627,
    47431, 71143, 106721, 160073, 240101, 360163,
    540217, 810343, 1215497, 1823231, 2734867, 4102283,
    6153409, 9230113, 13845163]"

text \<open>\<open>n < (int) sqrt (x)\<close> is \<open>(n + 1)\<^sup>2 \<le> x\<close>: the square root of an \<open>int\<close> is exact enough.\<close>

function test_divisors :: "nat \<Rightarrow> nat \<Rightarrow> bool" where
  "test_divisors x n =
    (if (n + 1) * (n + 1) \<le> x then if x mod n = 0 then False else test_divisors x (n + 2) else True)"
  by pat_completeness auto
termination
proof (relation "measure (\<lambda>(x, n). x - n)")
  fix x n :: nat
  assume "(n + 1) * (n + 1) \<le> x"
  moreover have "n + 1 \<le> (n + 1) * (n + 1)" by simp
  ultimately have "n < x" by linarith
  then show "((x, n + 2), x, n) \<in> measure (\<lambda>(x, n). x - n)" by simp
qed simp

declare test_divisors.simps [simp del]

definition test_prime :: "nat \<Rightarrow> bool" where
  "test_prime x = (if odd x then test_divisors x 3 else x = 2)"

text \<open>\<open>for (i = (x & ~1) - 1; i < G_MAXINT32; i += 2)\<close>, for the \<open>int\<close> values of \<open>x\<close> above the table.\<close>

function calc_prime_loop :: "nat \<Rightarrow> nat \<Rightarrow> nat" where
  "calc_prime_loop x i =
    (if i < 2147483647 then if test_prime i then i else calc_prime_loop x (i + 2) else x)"
  by pat_completeness auto
termination
  by (relation "measure (\<lambda>(x, i). 2147483647 - i)") auto

declare calc_prime_loop.simps [simp del]

definition calc_prime :: "nat \<Rightarrow> nat" where
  "calc_prime x = calc_prime_loop x (2 * (x div 2) - 1)"

definition g_spaced_primes_closest :: "nat \<Rightarrow> nat" where
  "g_spaced_primes_closest x =
    (case find (\<lambda>p. x \<le> p) prime_tbl of Some p \<Rightarrow> p | None \<Rightarrow> calc_prime x)"

lemma calc_prime_loop_pos: "0 < x \<Longrightarrow> 0 < i \<Longrightarrow> 0 < calc_prime_loop x i"
proof (induction x i rule: calc_prime_loop.induct)
  case (1 x i)
  then show ?case by (subst calc_prime_loop.simps) simp
qed

lemma spaced_primes_pos: "0 < g_spaced_primes_closest x"
proof (cases "find (\<lambda>p. x \<le> p) prime_tbl")
  case None
  then have "\<forall>p\<in>set prime_tbl. \<not> x \<le> p" by (simp only: find_None_iff) blast
  then have "13845163 < x" by (simp add: prime_tbl_def)
  then show ?thesis using None by (auto simp: g_spaced_primes_closest_def calc_prime_def intro!: calc_prime_loop_pos)
next
  case (Some p)
  then have "p \<in> set prime_tbl" by (auto simp: find_Some_iff)
  then show ?thesis using Some by (auto simp: g_spaced_primes_closest_def prime_tbl_def)
qed

section \<open>The table\<close>

record ('k, 'd) SgenHashTable =
  sht_hash_func :: "'k \<Rightarrow> u32"
  sht_equal_func :: "('k \<Rightarrow> 'k \<Rightarrow> bool) option"
  sht_table :: "('k \<times> 'd) list list"
  sht_size :: nat
  sht_num_entries :: nat

definition rehash :: "('k, 'd) SgenHashTable \<Rightarrow> ('k, 'd) SgenHashTable" where
  "rehash hash_table =
    (let new_size = (if sht_table hash_table = [] then 13
                     else g_spaced_primes_closest (sht_num_entries hash_table));
         new_hash = rehash_chains (sht_hash_func hash_table) new_size (sht_table hash_table) in
     hash_table\<lparr>sht_table := new_hash, sht_size := new_size\<rparr>)"

definition rehash_if_necessary :: "('k, 'd) SgenHashTable \<Rightarrow> ('k, 'd) SgenHashTable" where
  "rehash_if_necessary hash_table =
    (if sht_num_entries hash_table \<ge> sht_size hash_table * 2 then rehash hash_table else hash_table)"

definition key_matches :: "('k, 'd) SgenHashTable \<Rightarrow> 'k \<Rightarrow> 'k \<Rightarrow> bool" where
  "key_matches hash_table entry_key key =
    (case sht_equal_func hash_table of Some equal \<Rightarrow> equal entry_key key | None \<Rightarrow> entry_key = key)"

text \<open>The entry for a key, and \<open>*_hash\<close>, which is not written when the table has no chains.\<close>

definition hash_lookup :: "('k, 'd) SgenHashTable \<Rightarrow> 'k \<Rightarrow> (nat \<times> nat) option \<times> nat option" where
  "hash_lookup hash_table key =
    (if sht_size hash_table = 0 then (None, None)
     else
       let hash = unat (sht_hash_func hash_table key) mod sht_size hash_table in
       (map_option (Pair hash)
          (find_pos (\<lambda>entry. key_matches hash_table (fst entry) key) (sht_table hash_table ! hash) 0),
        Some hash))"

definition entry_at :: "('k, 'd) SgenHashTable \<Rightarrow> nat \<times> nat \<Rightarrow> 'k \<times> 'd" where
  "entry_at hash_table entry = sht_table hash_table ! fst entry ! snd entry"

definition set_entry :: "nat \<times> nat \<Rightarrow> 'k \<times> 'd \<Rightarrow> ('k, 'd) SgenHashTable \<Rightarrow> ('k, 'd) SgenHashTable" where
  "set_entry entry e hash_table =
    hash_table\<lparr>sht_table := (sht_table hash_table)
      [fst entry := (sht_table hash_table ! fst entry)[snd entry := e]]\<rparr>"

definition sgen_hash_table_lookup :: "('k, 'd) SgenHashTable \<Rightarrow> 'k \<Rightarrow> 'd option" where
  "sgen_hash_table_lookup hash_table key =
    (case fst (hash_lookup hash_table key) of
       None \<Rightarrow> None
     | Some entry \<Rightarrow> Some (snd (entry_at hash_table entry)))"

text \<open>The value stored through \<open>old_value\<close> is the second component, when one is stored.\<close>

definition sgen_hash_table_replace ::
    "'k \<Rightarrow> 'd \<Rightarrow> ('k, 'd) SgenHashTable \<Rightarrow> (bool \<times> 'd option \<times> ('k, 'd) SgenHashTable) option" where
  "sgen_hash_table_replace key new_value hash_table =
    (let hash_table = rehash_if_necessary hash_table in
     case hash_lookup hash_table key of
       (Some entry, hash) \<Rightarrow>
         (case entry_at hash_table entry of (entry_key, data) \<Rightarrow>
            Some (False, Some data, set_entry entry (entry_key, new_value) hash_table))
     | (None, None) \<Rightarrow> None
     | (None, Some hash) \<Rightarrow>
         Some (True, None,
           hash_table\<lparr>sht_table := (sht_table hash_table)
               [hash := (key, new_value) # sht_table hash_table ! hash],
             sht_num_entries := sht_num_entries hash_table + 1\<rparr>))"

definition sgen_hash_table_set_value ::
    "'k \<Rightarrow> 'd \<Rightarrow> ('k, 'd) SgenHashTable \<Rightarrow> bool \<times> 'd option \<times> ('k, 'd) SgenHashTable" where
  "sgen_hash_table_set_value key new_value hash_table =
    (case fst (hash_lookup hash_table key) of
       Some entry \<Rightarrow>
         (case entry_at hash_table entry of (entry_key, data) \<Rightarrow>
            (True, Some data, set_entry entry (entry_key, new_value) hash_table))
     | None \<Rightarrow> (False, None, hash_table))"

definition sgen_hash_table_set_key ::
    "'k \<Rightarrow> 'k \<Rightarrow> ('k, 'd) SgenHashTable \<Rightarrow> bool \<times> ('k, 'd) SgenHashTable" where
  "sgen_hash_table_set_key old_key new_key hash_table =
    (case fst (hash_lookup hash_table old_key) of
       Some entry \<Rightarrow> (True, set_entry entry (new_key, snd (entry_at hash_table entry)) hash_table)
     | None \<Rightarrow> (False, hash_table))"

definition sgen_hash_table_remove ::
    "'k \<Rightarrow> ('k, 'd) SgenHashTable \<Rightarrow> (bool \<times> 'd option \<times> ('k, 'd) SgenHashTable) option" where
  "sgen_hash_table_remove key hash_table =
    (let hash_table = rehash_if_necessary hash_table in
     if sht_size hash_table = 0 then None
     else
       let hash = unat (sht_hash_func hash_table key) mod sht_size hash_table in
       case find_pos (\<lambda>entry. key_matches hash_table (fst entry) key) (sht_table hash_table ! hash) 0 of
         Some j \<Rightarrow>
           Some (True, Some (snd (sht_table hash_table ! hash ! j)),
             hash_table\<lparr>sht_table := (sht_table hash_table)[hash := remove_at j (sht_table hash_table ! hash)],
               sht_num_entries := sht_num_entries hash_table - 1\<rparr>)
       | None \<Rightarrow> Some (False, None, hash_table))"

definition sgen_hash_table_clean :: "('k, 'd) SgenHashTable \<Rightarrow> ('k, 'd) SgenHashTable" where
  "sgen_hash_table_clean hash_table =
    (if sht_size hash_table = 0 then hash_table
     else hash_table\<lparr>sht_table := [], sht_size := 0, sht_num_entries := 0\<rparr>)"

text \<open>
  \<open>SGEN_HASH_TABLE_FOREACH\<close>: the body sees every entry once, in the order of the chains, and
  keeps it (with the data it stored), changes its key or removes it.
\<close>

datatype ('k, 'd) foreach_action = Keep 'd | Set_Key 'k | Remove

fun foreach_chain :: "('s \<Rightarrow> 'k \<times> 'd \<Rightarrow> 's \<times> ('k, 'd) foreach_action) \<Rightarrow> 's \<Rightarrow> ('k \<times> 'd) list \<Rightarrow>
    's \<times> ('k \<times> 'd) list \<times> nat" where
  "foreach_chain body s [] = (s, [], 0)"
| "foreach_chain body s (e # chain) =
    (case body s e of (s, action) \<Rightarrow>
     case foreach_chain body s chain of (s, chain, removed) \<Rightarrow>
       (case action of
          Keep d \<Rightarrow> (s, (fst e, d) # chain, removed)
        | Set_Key k \<Rightarrow> (s, (k, snd e) # chain, removed)
        | Remove \<Rightarrow> (s, chain, removed + 1)))"

fun foreach_table :: "('s \<Rightarrow> 'k \<times> 'd \<Rightarrow> 's \<times> ('k, 'd) foreach_action) \<Rightarrow> 's \<Rightarrow> ('k \<times> 'd) list list \<Rightarrow>
    's \<times> ('k \<times> 'd) list list \<times> nat" where
  "foreach_table body s [] = (s, [], 0)"
| "foreach_table body s (chain # table) =
    (case foreach_chain body s chain of (s, chain, m) \<Rightarrow>
     case foreach_table body s table of (s, table, n) \<Rightarrow> (s, chain # table, m + n))"

definition sgen_hash_table_foreach :: "('s \<Rightarrow> 'k \<times> 'd \<Rightarrow> 's \<times> ('k, 'd) foreach_action) \<Rightarrow> 's \<Rightarrow>
    ('k, 'd) SgenHashTable \<Rightarrow> 's \<times> ('k, 'd) SgenHashTable" where
  "sgen_hash_table_foreach body s hash_table =
    (case foreach_table body s (sht_table hash_table) of (s, table, removed) \<Rightarrow>
       (s, hash_table\<lparr>sht_table := table, sht_num_entries := sht_num_entries hash_table - removed\<rparr>))"

section \<open>The table as a map\<close>

definition sht_ok :: "('k, 'd) SgenHashTable \<Rightarrow> bool" where
  "sht_ok ht \<longleftrightarrow> hash_key (sht_hash_func ht) (key_matches ht) \<and>
    length (sht_table ht) = sht_size ht \<and>
    hash_key.placed (sht_hash_func ht) (sht_table ht) \<and>
    hash_key.uniq (key_matches ht) (entries (sht_table ht)) \<and>
    size (entries (sht_table ht)) = sht_num_entries ht"

lemma sht_okD:
  assumes "sht_ok ht"
  shows "hash_key (sht_hash_func ht) (key_matches ht)" "length (sht_table ht) = sht_size ht"
    "hash_key.placed (sht_hash_func ht) (sht_table ht)"
    "hash_key.uniq (key_matches ht) (entries (sht_table ht))"
    "size (entries (sht_table ht)) = sht_num_entries ht"
  using assms by (simp_all add: sht_ok_def)

lemma key_matches_cong:
  "sht_equal_func ht' = sht_equal_func ht \<Longrightarrow> key_matches ht' = key_matches ht"
  by (intro ext) (simp add: key_matches_def)

lemma hash_lookup_chain_pos:
  assumes "sht_ok ht" "sht_size ht \<noteq> 0"
  shows "hash_lookup ht k = (hash_key.chain_pos (sht_hash_func ht) (key_matches ht) (sht_table ht) k,
    Some (unat (sht_hash_func ht k) mod sht_size ht))"
  using assms by (simp add: hash_lookup_def Let_def hash_key.chain_pos_def [OF sht_okD(1) [OF assms(1)]]
    sht_okD(2) [OF assms(1)])

lemma hash_lookup_Some:
  assumes "sht_ok ht" "fst (hash_lookup ht k) = Some (i, j)"
  shows "sht_size ht \<noteq> 0" "i < length (sht_table ht)" "j < length (sht_table ht ! i)"
    "key_matches ht (fst (sht_table ht ! i ! j)) k" "sht_table ht ! i ! j \<in># entries (sht_table ht)"
proof -
  show s: "sht_size ht \<noteq> 0"
  proof
    assume "sht_size ht = 0"
    then show False using assms(2) by (simp add: hash_lookup_def)
  qed
  have "hash_key.chain_pos (sht_hash_func ht) (key_matches ht) (sht_table ht) k = Some (i, j)"
    using assms(2) hash_lookup_chain_pos [OF assms(1) s] by simp
  moreover have "sht_table ht \<noteq> []" using sht_okD(2) [OF assms(1)] s by auto
  ultimately show "i < length (sht_table ht)" "j < length (sht_table ht ! i)"
    "key_matches ht (fst (sht_table ht ! i ! j)) k" "sht_table ht ! i ! j \<in># entries (sht_table ht)"
    using hash_key.chain_posD [OF sht_okD(1) [OF assms(1)]] by blast+
qed

lemma hash_lookup_None:
  assumes "sht_ok ht"
  shows "fst (hash_lookup ht k) = None \<longleftrightarrow>
    (\<forall>d. \<not> hash_key.has (key_matches ht) (entries (sht_table ht)) k d)"
proof (cases "sht_size ht = 0")
  case True
  then have "sht_table ht = []" using sht_okD(2) [OF assms] by simp
  then show ?thesis
    using True by (simp add: hash_lookup_def hash_key.has_def [OF sht_okD(1) [OF assms]])
next
  case False
  then have "sht_table ht \<noteq> []" using sht_okD(2) [OF assms] by auto
  then show ?thesis
    using hash_key.chain_pos_None [OF sht_okD(1) [OF assms] sht_okD(3) [OF assms]]
      hash_lookup_chain_pos [OF assms False] by simp
qed

lemma lookup_has:
  assumes "sht_ok ht"
  shows "sgen_hash_table_lookup ht k = Some d \<longleftrightarrow>
    hash_key.has (key_matches ht) (entries (sht_table ht)) k d"
proof (cases "fst (hash_lookup ht k)")
  case None
  then have "\<not> hash_key.has (key_matches ht) (entries (sht_table ht)) k d"
    using hash_lookup_None [OF assms, of k] by simp
  then show ?thesis using None by (simp add: sgen_hash_table_lookup_def)
next
  case (Some p)
  obtain i j where p: "p = (i, j)" by (cases p)
  note l = hash_lookup_Some [OF assms Some [unfolded p]]
  from hash_key.uniq_has [OF sht_okD(1) [OF assms] sht_okD(4) [OF assms] l(5,4)] show ?thesis
    using Some by (auto simp: sgen_hash_table_lookup_def entry_at_def p)
qed

lemma lookup_eqI:
  assumes "sht_ok ht" "sht_ok ht'"
    and "\<And>d. hash_key.has (key_matches ht') (entries (sht_table ht')) k d \<longleftrightarrow>
      (if b then d = v else hash_key.has (key_matches ht) (entries (sht_table ht)) k d)"
  shows "sgen_hash_table_lookup ht' k = (if b then Some v else sgen_hash_table_lookup ht k)"
proof -
  have "sgen_hash_table_lookup ht' k = Some d \<longleftrightarrow> (if b then Some v else sgen_hash_table_lookup ht k) = Some d" for d
    using lookup_has [OF assms(1), of k d] lookup_has [OF assms(2), of k d] assms(3) [of d] by auto
  then show ?thesis by (metis not_None_eq)
qed

lemma rehash_ok:
  assumes "sht_ok ht"
  shows "sht_ok (rehash_if_necessary ht)" "sgen_hash_table_lookup (rehash_if_necessary ht) = sgen_hash_table_lookup ht"
    "sht_size (rehash_if_necessary ht) \<noteq> 0" "key_matches (rehash_if_necessary ht) = key_matches ht"
    "entries (sht_table (rehash_if_necessary ht)) = entries (sht_table ht)"
    "sht_num_entries (rehash_if_necessary ht) = sht_num_entries ht"
proof -
  define n where "n = (if sht_table ht = [] then 13 else g_spaced_primes_closest (sht_num_entries ht))"
  have n: "0 < n" using spaced_primes_pos by (simp add: n_def)
  have r: "rehash ht = ht\<lparr>sht_table := rehash_chains (sht_hash_func ht) n (sht_table ht), sht_size := n\<rparr>"
    by (simp add: rehash_def n_def Let_def)
  have f: "sht_table (rehash ht) = rehash_chains (sht_hash_func ht) n (sht_table ht)" "sht_size (rehash ht) = n"
    "sht_hash_func (rehash ht) = sht_hash_func ht" "sht_num_entries (rehash ht) = sht_num_entries ht"
    by (simp_all add: r)
  note p = hash_key.rehash_chains_props [OF sht_okD(1) [OF assms] n, of "sht_table ht"]
  have k: "key_matches (rehash ht) = key_matches ht" by (rule key_matches_cong) (simp add: r)
  have ok: "sht_ok (rehash ht)" using assms p unfolding sht_ok_def k f by simp
  have e: "entries (sht_table (rehash ht)) = entries (sht_table ht)" using p by (simp add: f)
  have look: "sgen_hash_table_lookup (rehash ht) = sgen_hash_table_lookup ht"
  proof
    fix x
    show "sgen_hash_table_lookup (rehash ht) x = sgen_hash_table_lookup ht x"
      using lookup_eqI [OF assms ok, of x False undefined] by (simp add: k e)
  qed
  show "sht_ok (rehash_if_necessary ht)" "sgen_hash_table_lookup (rehash_if_necessary ht) = sgen_hash_table_lookup ht"
    "sht_size (rehash_if_necessary ht) \<noteq> 0" "key_matches (rehash_if_necessary ht) = key_matches ht"
    "entries (sht_table (rehash_if_necessary ht)) = entries (sht_table ht)"
    "sht_num_entries (rehash_if_necessary ht) = sht_num_entries ht"
    using assms ok look k e n f by (simp_all add: rehash_if_necessary_def)
qed

lemma set_entry_ok:
  assumes "sht_ok ht" "fst (hash_lookup ht k) = Some (i, j)" "key_matches ht k' (fst (entry_at ht (i, j)))"
    and "sht_hash_func ht k' = sht_hash_func ht (fst (entry_at ht (i, j)))"
  shows "sht_ok (set_entry (i, j) (k', d) ht)" "key_matches (set_entry (i, j) (k', d) ht) = key_matches ht"
    "sgen_hash_table_lookup (set_entry (i, j) (k', d) ht) l =
      (if key_matches ht k l then Some d else sgen_hash_table_lookup ht l)"
proof -
  let ?e = "sht_table ht ! i ! j"
  let ?ht = "set_entry (i, j) (k', d) ht"
  note hk = sht_okD(1) [OF assms(1)] and un = sht_okD(4) [OF assms(1)]
  note l = hash_lookup_Some [OF assms(1,2)]
  have k': "key_matches ht k' (fst ?e)" using assms(3) by (simp add: entry_at_def)
  have f: "sht_table ?ht = (sht_table ht)[i := (sht_table ht ! i)[j := (k', d)]]" "sht_size ?ht = sht_size ht"
    "sht_hash_func ?ht = sht_hash_func ht" "sht_num_entries ?ht = sht_num_entries ht"
    by (simp_all add: set_entry_def)
  show km: "key_matches ?ht = key_matches ht" by (rule key_matches_cong) (simp add: set_entry_def)
  have "key_matches ht (fst (k', d)) (fst ?e)" using k' by simp
  note p = hash_key.set_entry_props [OF hk sht_okD(3) [OF assms(1)] l(2,3) this]
  have "size (add_mset (k', d) (entries (sht_table ht) - {#?e#})) = size (entries (sht_table ht))"
    using l(5) by (metis add_mset_remove_trivial insert_DiffM size_add_mset)
  moreover have "hash_key.uniq (key_matches ht) (add_mset (k', d) (entries (sht_table ht) - {#?e#}))"
    by (rule hash_key.uniq_replace [OF hk un l(5)]) (simp add: k')
  ultimately show ok: "sht_ok ?ht"
    using assms(1) p unfolding sht_ok_def km f by simp
  have ek: "key_matches ht (fst ?e) k" by (rule l(4))
  show "sgen_hash_table_lookup ?ht l = (if key_matches ht k l then Some d else sgen_hash_table_lookup ht l)"
  proof (rule lookup_eqI [OF assms(1) ok])
    fix d'
    have kl: "key_matches ht k' l \<longleftrightarrow> key_matches ht k l"
      using hash_key.eq_trans [OF hk] hash_key.eq_sym [OF hk] k' ek by metis
    show "hash_key.has (key_matches ?ht) (entries (sht_table ?ht)) l d' \<longleftrightarrow>
      (if key_matches ht k l then d' = d else hash_key.has (key_matches ht) (entries (sht_table ht)) l d')"
      unfolding km f p(2) hash_key.has_add [OF hk] hash_key.has_remove [OF hk un l(5) ek]
      using kl by auto
  qed
qed

lemma set_value_ok:
  assumes "sht_ok ht"
  obtains b old ht' where "sgen_hash_table_set_value k d ht = (b, old, ht')" "sht_ok ht'"
    "key_matches ht' = key_matches ht" "b \<longleftrightarrow> sgen_hash_table_lookup ht k \<noteq> None"
    "old = sgen_hash_table_lookup ht k"
    "\<And>l. sgen_hash_table_lookup ht' l = (if b \<and> key_matches ht k l then Some d else sgen_hash_table_lookup ht l)"
proof (cases "fst (hash_lookup ht k)")
  case None
  then show thesis using assms
    by (intro that [of False None ht]) (simp_all add: sgen_hash_table_set_value_def sgen_hash_table_lookup_def)
next
  case (Some p)
  obtain i j where p: "p = (i, j)" by (cases p)
  obtain k' d' where e: "entry_at ht (i, j) = (k', d')" by (cases "entry_at ht (i, j)")
  have "key_matches ht k' (fst (entry_at ht (i, j)))"
    using hash_key.eq_refl [OF sht_okD(1) [OF assms]] by (simp add: e)
  note s = set_entry_ok [OF assms Some [unfolded p] this, of d]
  show thesis
    using Some s e by (intro that [of True "Some d'" "set_entry (i, j) (k', d) ht"])
      (simp_all add: sgen_hash_table_set_value_def sgen_hash_table_lookup_def p)
qed

lemma replace_ok:
  assumes "sht_ok ht"
  obtains b old ht' where "sgen_hash_table_replace k d ht = Some (b, old, ht')" "sht_ok ht'"
    "key_matches ht' = key_matches ht" "b \<longleftrightarrow> sgen_hash_table_lookup ht k = None"
    "old = sgen_hash_table_lookup ht k"
    "sht_num_entries ht' = (if b then sht_num_entries ht + 1 else sht_num_entries ht)"
    "\<And>l. sgen_hash_table_lookup ht' l = (if key_matches ht k l then Some d else sgen_hash_table_lookup ht l)"
proof -
  define r where "r = rehash_if_necessary ht"
  note r = rehash_ok [OF assms, folded r_def]
  note hk = sht_okD(1) [OF r(1)] and un = sht_okD(4) [OF r(1)]
  have def: "sgen_hash_table_replace k d ht =
      (case hash_lookup r k of
        (Some entry, hash) \<Rightarrow> (case entry_at r entry of (entry_key, data) \<Rightarrow>
            Some (False, Some data, set_entry entry (entry_key, d) r))
      | (None, None) \<Rightarrow> None
      | (None, Some hash) \<Rightarrow> Some (True, None, r\<lparr>sht_table := (sht_table r)[hash := (k, d) # sht_table r ! hash],
          sht_num_entries := sht_num_entries r + 1\<rparr>))"
    by (simp only: sgen_hash_table_replace_def Let_def r_def)
  show thesis
  proof (cases "fst (hash_lookup r k)")
    case None
    define i where "i = unat (sht_hash_func r k) mod sht_size r"
    have hl: "hash_lookup r k = (None, Some i)"
      using None hash_lookup_chain_pos [OF r(1,3), of k] by (simp add: i_def)
    define ht' where "ht' = r\<lparr>sht_table := (sht_table r)[i := (k, d) # sht_table r ! i],
      sht_num_entries := sht_num_entries r + 1\<rparr>"
    have t: "sht_table r \<noteq> []" using sht_okD(2) [OF r(1)] r(3) by auto
    have pe: "(sht_table r)[i := (k, d) # sht_table r ! i] = push_entry (sht_hash_func r) (k, d) (sht_table r)"
      by (simp add: push_entry_def i_def sht_okD(2) [OF r(1)] Let_def)
    have f: "sht_table ht' = push_entry (sht_hash_func r) (k, d) (sht_table r)" "sht_size ht' = sht_size r"
      "sht_hash_func ht' = sht_hash_func r" "sht_num_entries ht' = sht_num_entries r + 1"
      by (simp_all add: ht'_def pe)
    have km: "key_matches ht' = key_matches r" by (rule key_matches_cong) (simp add: ht'_def)
    note p = hash_key.push_entry_props [OF hk sht_okD(3) [OF r(1)] t, of "(k, d)"]
    have no: "\<forall>d. \<not> hash_key.has (key_matches r) (entries (sht_table r)) k d"
      using None hash_lookup_None [OF r(1)] by blast
    have ok: "sht_ok ht'"
      using r(1) p hash_key.uniq_add [OF hk un, of "(k, d)"] no unfolding sht_ok_def km f by simp
    have look: "sgen_hash_table_lookup ht' l = (if key_matches r k l then Some d else sgen_hash_table_lookup r l)" for l
    proof (rule lookup_eqI [OF r(1) ok])
      fix d'
      have "\<not> hash_key.has (key_matches r) (entries (sht_table r)) l d'" if "key_matches r k l"
        using no hash_key.eq_trans [OF hk _ hash_key.eq_sym [OF hk that]] by (auto simp: hash_key.has_def [OF hk])
      then show "hash_key.has (key_matches ht') (entries (sht_table ht')) l d' \<longleftrightarrow>
        (if key_matches r k l then d' = d else hash_key.has (key_matches r) (entries (sht_table r)) l d')"
        unfolding km f p(2) hash_key.has_add [OF hk] by auto
    qed
    have "sgen_hash_table_lookup r k = None" using None by (simp add: sgen_hash_table_lookup_def)
    then show thesis
      using ok look km r def hl f(4) by (intro that [of True None ht']) (simp_all add: ht'_def)
  next
    case (Some p)
    obtain i j where p: "p = (i, j)" by (cases p)
    obtain k' d' where e: "entry_at r (i, j) = (k', d')" by (cases "entry_at r (i, j)")
    obtain hh where hl: "hash_lookup r k = (Some (i, j), hh)" using Some p by (cases "hash_lookup r k") simp
    have "key_matches r k' (fst (entry_at r (i, j)))"
      using hash_key.eq_refl [OF hk] by (simp add: e)
    note s = set_entry_ok [OF r(1) Some [unfolded p] this, of d]
    have "sgen_hash_table_lookup r k = Some d'" using Some by (simp add: sgen_hash_table_lookup_def p e)
    then show thesis
      using s e hl def r by (intro that [of False "Some d'" "set_entry (i, j) (k', d) r"])
        (simp_all, simp add: set_entry_def)
  qed
qed

lemma remove_ok:
  assumes "sht_ok ht"
  obtains b old ht' where "sgen_hash_table_remove k ht = Some (b, old, ht')" "sht_ok ht'"
    "key_matches ht' = key_matches ht" "b \<longleftrightarrow> sgen_hash_table_lookup ht k \<noteq> None"
    "old = sgen_hash_table_lookup ht k"
    "\<And>l. sgen_hash_table_lookup ht' l = (if key_matches ht k l then None else sgen_hash_table_lookup ht l)"
proof -
  define r where "r = rehash_if_necessary ht"
  note r = rehash_ok [OF assms, folded r_def]
  note hk = sht_okD(1) [OF r(1)] and un = sht_okD(4) [OF r(1)]
  define i where "i = unat (sht_hash_func r k) mod sht_size r"
  have def: "sgen_hash_table_remove k ht =
      (case find_pos (\<lambda>entry. key_matches r (fst entry) k) (sht_table r ! i) 0 of
         Some j \<Rightarrow>
           Some (True, Some (snd (sht_table r ! i ! j)),
             r\<lparr>sht_table := (sht_table r)[i := remove_at j (sht_table r ! i)],
               sht_num_entries := sht_num_entries r - 1\<rparr>)
       | None \<Rightarrow> Some (False, None, r))"
    unfolding sgen_hash_table_remove_def r_def [symmetric] Let_def i_def [symmetric] using r(3) by simp
  have hl: "fst (hash_lookup r k) =
      map_option (Pair i) (find_pos (\<lambda>entry. key_matches r (fst entry) k) (sht_table r ! i) 0)"
    using r(3) by (simp add: hash_lookup_def Let_def i_def)
  show thesis
  proof (cases "find_pos (\<lambda>entry. key_matches r (fst entry) k) (sht_table r ! i) 0")
    case None
    then have n: "fst (hash_lookup r k) = None" using hl by simp
    have "sgen_hash_table_lookup r l = None" if "key_matches r k l" for l
    proof (cases "sgen_hash_table_lookup r l")
      case (Some d)
      then have "hash_key.has (key_matches r) (entries (sht_table r)) l d" using lookup_has [OF r(1)] by blast
      then have "hash_key.has (key_matches r) (entries (sht_table r)) k d"
        using hash_key.eq_trans [OF hk _ hash_key.eq_sym [OF hk that]] by (auto simp: hash_key.has_def [OF hk])
      then show ?thesis using n hash_lookup_None [OF r(1)] by blast
    qed
    moreover have "sgen_hash_table_lookup r k = None" using n by (simp add: sgen_hash_table_lookup_def)
    ultimately show thesis using def None r by (intro that [of False None r]) auto
  next
    case (Some j)
    then have p: "fst (hash_lookup r k) = Some (i, j)" using hl by simp
    note l = hash_lookup_Some [OF r(1) p]
    define ht' where "ht' = r\<lparr>sht_table := (sht_table r)[i := remove_at j (sht_table r ! i)],
      sht_num_entries := sht_num_entries r - 1\<rparr>"
    have f: "sht_table ht' = (sht_table r)[i := remove_at j (sht_table r ! i)]" "sht_size ht' = sht_size r"
      "sht_hash_func ht' = sht_hash_func r" "sht_num_entries ht' = sht_num_entries r - 1"
      by (simp_all add: ht'_def)
    have km: "key_matches ht' = key_matches r" by (rule key_matches_cong) (simp add: ht'_def)
    note q = hash_key.remove_entry_props [OF hk sht_okD(3) [OF r(1)] l(2,3)]
    have ok: "sht_ok ht'"
      using r(1) q hash_key.uniq_remove [OF hk un] l(5) unfolding sht_ok_def km f
      by (simp add: size_Diff_singleton)
    have look: "sgen_hash_table_lookup ht' m = (if key_matches r k m then None else sgen_hash_table_lookup r m)" for m
    proof -
      have "sgen_hash_table_lookup ht' m = Some d \<longleftrightarrow>
          (if key_matches r k m then None else sgen_hash_table_lookup r m) = Some d" for d
        using lookup_has [OF r(1), of m d] lookup_has [OF ok, of m d]
        unfolding km f q(2) hash_key.has_remove [OF hk un l(5,4)] by auto
      then show ?thesis by (metis not_None_eq)
    qed
    have "sgen_hash_table_lookup r k = Some (snd (sht_table r ! i ! j))"
      using p by (simp add: sgen_hash_table_lookup_def entry_at_def)
    then show thesis
      using ok look km r def Some by (intro that [of True "Some (snd (sht_table r ! i ! j))" ht']) (simp_all add: ht'_def)
  qed
qed

lemma clean_ok:
  assumes "sht_ok ht"
  shows "sht_ok (sgen_hash_table_clean ht)" "sgen_hash_table_lookup (sgen_hash_table_clean ht) k = None"
    "sht_num_entries (sgen_hash_table_clean ht) = 0"
proof -
  have z: "sht_table ht = []" "sht_num_entries ht = 0" if "sht_size ht = 0"
    using that sht_okD(2,5) [OF assms] by auto
  have hk: "hash_key (sht_hash_func ht) (key_matches ht)" by (rule sht_okD(1) [OF assms])
  show l: "sgen_hash_table_lookup (sgen_hash_table_clean ht) k = None"
    by (simp add: sgen_hash_table_lookup_def sgen_hash_table_clean_def hash_lookup_def)
  show "sht_num_entries (sgen_hash_table_clean ht) = 0" using z by (simp add: sgen_hash_table_clean_def)
  have km: "key_matches (sgen_hash_table_clean ht) = key_matches ht"
    by (rule key_matches_cong) (simp add: sgen_hash_table_clean_def)
  show "sht_ok (sgen_hash_table_clean ht)"
    unfolding sht_ok_def km using hk z
    by (auto simp: sgen_hash_table_clean_def hash_key.placed_def [OF hk] hash_key.uniq_def [OF hk])
qed

text \<open>The empty table, \<open>SGEN_HASH_TABLE_INIT\<close>.\<close>

definition SGEN_HASH_TABLE_INIT :: "('k \<Rightarrow> u32) \<Rightarrow> ('k \<Rightarrow> 'k \<Rightarrow> bool) option \<Rightarrow> ('k, 'd) SgenHashTable" where
  "SGEN_HASH_TABLE_INIT h eq = \<lparr>sht_hash_func = h, sht_equal_func = eq, sht_table = [], sht_size = 0, sht_num_entries = 0\<rparr>"

lemma init_ok:
  assumes "hash_key h (case eq of Some e \<Rightarrow> e | None \<Rightarrow> (=))"
  shows "sht_ok (SGEN_HASH_TABLE_INIT h eq)"
proof -
  have km: "key_matches (SGEN_HASH_TABLE_INIT h eq) = (case eq of Some e \<Rightarrow> e | None \<Rightarrow> (=))"
    by (intro ext) (simp add: key_matches_def SGEN_HASH_TABLE_INIT_def split: option.split)
  show ?thesis
    unfolding sht_ok_def km using assms
    by (simp add: SGEN_HASH_TABLE_INIT_def hash_key.placed_def [OF assms] hash_key.uniq_def [OF assms])
qed

section \<open>The table as a \<open>table_map\<close>, and its properties\<close>

definition sht_put :: "'k \<Rightarrow> 'd \<Rightarrow> ('k, 'd) SgenHashTable \<Rightarrow> ('k, 'd) SgenHashTable" where
  "sht_put k d ht = snd (snd (the (sgen_hash_table_replace k d ht)))"

definition sht_del :: "'k \<Rightarrow> ('k, 'd) SgenHashTable \<Rightarrow> ('k, 'd) SgenHashTable" where
  "sht_del k ht = snd (snd (the (sgen_hash_table_remove k ht)))"

interpretation sgen_table: table_map sht_ok key_matches sgen_hash_table_lookup sht_put sht_del
proof (unfold_locales)
  fix ht :: "('a, 'b) SgenHashTable" and k l d
  assume ok: "sht_ok ht"
  show "sht_ok (sht_put k d ht)" "key_matches (sht_put k d ht) = key_matches ht"
    "sgen_hash_table_lookup (sht_put k d ht) l = (if key_matches ht k l then Some d else sgen_hash_table_lookup ht l)"
    by (rule replace_ok [OF ok, of k d], simp add: sht_put_def)+
  show "sht_ok (sht_del k ht)" "key_matches (sht_del k ht) = key_matches ht"
    "sgen_hash_table_lookup (sht_del k ht) l = (if key_matches ht k l then None else sgen_hash_table_lookup ht l)"
    by (rule remove_ok [OF ok, of k], simp add: sht_del_def)+
  show "key_matches ht k k" by (rule hash_key.eq_refl [OF sht_okD(1) [OF ok]])
qed

text \<open>C13: \<open>sgen_hash_table_replace\<close> always succeeds on a well-formed table, through any rehash,
  and keeps it well formed: it returns whether the key is new and the value it had, counts
  new entries, and afterwards exactly the keys equal to the given one have the new value.\<close>

theorem hash_table_replace_correct:
  assumes "sht_ok ht"
  shows "\<exists>ht'. sgen_hash_table_replace k d ht =
      Some (sgen_hash_table_lookup ht k = None, sgen_hash_table_lookup ht k, ht') \<and> sht_ok ht' \<and>
    sht_num_entries ht' = (if sgen_hash_table_lookup ht k = None then sht_num_entries ht + 1 else sht_num_entries ht) \<and>
    (\<forall>l. sgen_hash_table_lookup ht' l = (if key_matches ht k l then Some d else sgen_hash_table_lookup ht l))"
  by (rule replace_ok [OF assms, of k d]) auto

text \<open>\<open>sgen_hash_table_remove\<close> always succeeds on a well-formed table, returns whether the key
  was there and its value, and removes exactly the keys equal to the given one.\<close>

theorem hash_table_remove_correct:
  assumes "sht_ok ht"
  shows "\<exists>ht'. sgen_hash_table_remove k ht =
      Some (sgen_hash_table_lookup ht k \<noteq> None, sgen_hash_table_lookup ht k, ht') \<and> sht_ok ht' \<and>
    (\<forall>l. sgen_hash_table_lookup ht' l = (if key_matches ht k l then None else sgen_hash_table_lookup ht l))"
  by (rule remove_ok [OF assms, of k]) auto

text \<open>A table keyed by addresses with the hash of \<open>mono_aligned_addr_hash\<close>, filled over a rehash.\<close>

definition mono_aligned_addr_hash :: "u64 \<Rightarrow> u32" where
  "mono_aligned_addr_hash ptr = ucast (drop_bit 3 ptr)"

interpretation aligned_addr: hash_key mono_aligned_addr_hash "(=)"
  by unfold_locales simp_all

definition demo_table :: "(u64, u64) SgenHashTable" where
  "demo_table = SGEN_HASH_TABLE_INIT mono_aligned_addr_hash None"

lemma demo_table_ok: "sht_ok demo_table"
  unfolding demo_table_def by (rule init_ok) (simp add: aligned_addr.hash_key_axioms)

lemma demo_table_simps: "sgen_hash_table_lookup demo_table k = None" "key_matches demo_table k l \<longleftrightarrow> k = l"
  by (simp_all add: demo_table_def SGEN_HASH_TABLE_INIT_def sgen_hash_table_lookup_def hash_lookup_def key_matches_def)

theorem hash_table_replace_witness:
  "\<exists>ht'. sgen_hash_table_replace 16 5 demo_table = Some (True, None, ht') \<and> sgen_hash_table_lookup ht' 16 = Some 5 \<and>
    sgen_hash_table_lookup ht' 24 = None"
  using hash_table_replace_correct [OF demo_table_ok, of 16 5]
  by (auto simp: demo_table_simps)

theorem hash_table_remove_witness:
  "\<exists>ht'. sgen_hash_table_remove 16 (sht_put 16 5 demo_table) = Some (True, Some 5, ht') \<and>
    sgen_hash_table_lookup ht' 16 = None"
  using hash_table_remove_correct [OF sgen_table.ok_put [OF demo_table_ok], of 16 16 5]
  by (auto simp: sgen_table.lookup_put [OF demo_table_ok] sgen_table.same_put [OF demo_table_ok]
    sgen_table.same_refl [OF demo_table_ok])

end
