(* ===== verification/Eglib_HashTable.thy ===== *)
theory Eglib_HashTable
  imports Sgen_HashTable
begin

text \<open>
  \<open>GHashTable\<close> of \<open>eglib/ghashtable.c\<close>, on the same chains. The destroy functions are
  external: a call of one is an event with its argument, and an operation returns the
  events in the order of the calls. \<open>threshold\<close> keeps the value 0 that \<open>g_new0\<close> gives it.
\<close>

section \<open>Operations\<close>

datatype ('k, 'v) destroy_call = Destroy_Key 'k | Destroy_Value 'v

record ('k, 'v) GHashTable =
  gh_hash_func :: "'k \<Rightarrow> u32"
  gh_key_equal_func :: "'k \<Rightarrow> 'k \<Rightarrow> bool"
  gh_table :: "('k \<times> 'v) list list"
  gh_table_size :: nat
  gh_in_use :: nat
  gh_threshold :: nat
  gh_last_rehash :: nat
  gh_value_destroy_func :: bool
  gh_key_destroy_func :: bool

definition g_hash_table_new_full :: "('k \<Rightarrow> u32) \<Rightarrow> ('k \<Rightarrow> 'k \<Rightarrow> bool) \<Rightarrow> bool \<Rightarrow> bool \<Rightarrow> ('k, 'v) GHashTable" where
  "g_hash_table_new_full hash_func key_equal_func key_destroy_func value_destroy_func =
    (let table_size = g_spaced_primes_closest 1 in
     \<lparr>gh_hash_func = hash_func, gh_key_equal_func = key_equal_func,
       gh_table = replicate table_size [], gh_table_size = table_size, gh_in_use = 0, gh_threshold = 0,
       gh_last_rehash = table_size, gh_value_destroy_func = value_destroy_func,
       gh_key_destroy_func = key_destroy_func\<rparr>)"

definition g_hash_table_new :: "('k \<Rightarrow> u32) \<Rightarrow> ('k \<Rightarrow> 'k \<Rightarrow> bool) \<Rightarrow> ('k, 'v) GHashTable" where
  "g_hash_table_new hash_func key_equal_func = g_hash_table_new_full hash_func key_equal_func False False"

definition g_do_rehash :: "('k, 'v) GHashTable \<Rightarrow> ('k, 'v) GHashTable" where
  "g_do_rehash hash =
    (let table_size = g_spaced_primes_closest (gh_in_use hash) in
     hash\<lparr>gh_last_rehash := gh_table_size hash, gh_table_size := table_size,
       gh_table := rehash_chains (gh_hash_func hash) table_size (gh_table hash)\<rparr>)"

text \<open>\<open>diff * 0.75 > table_size * 2\<close>, without the fractions.\<close>

definition g_rehash :: "('k, 'v) GHashTable \<Rightarrow> ('k, 'v) GHashTable" where
  "g_rehash hash =
    (let diff = nat \<bar>int (gh_last_rehash hash) - int (gh_in_use hash)\<bar> in
     if \<not> diff * 3 > gh_table_size hash * 8 then hash else g_do_rehash hash)"

definition g_chain :: "('k, 'v) GHashTable \<Rightarrow> 'k \<Rightarrow> nat" where
  "g_chain hash key = unat (gh_hash_func hash key) mod gh_table_size hash"

definition g_find_slot :: "('k, 'v) GHashTable \<Rightarrow> 'k \<Rightarrow> nat option" where
  "g_find_slot hash key =
    find_pos (\<lambda>s. gh_key_equal_func hash (fst s) key) (gh_table hash ! g_chain hash key) 0"

definition destroy_key :: "('k, 'v) GHashTable \<Rightarrow> 'k \<Rightarrow> ('k, 'v) destroy_call list" where
  "destroy_key hash key = (if gh_key_destroy_func hash then [Destroy_Key key] else [])"

definition destroy_value :: "('k, 'v) GHashTable \<Rightarrow> 'v \<Rightarrow> ('k, 'v) destroy_call list" where
  "destroy_value hash value = (if gh_value_destroy_func hash then [Destroy_Value value] else [])"

definition g_hash_table_insert_replace ::
    "'k \<Rightarrow> 'v \<Rightarrow> bool \<Rightarrow> ('k, 'v) GHashTable \<Rightarrow> ('k, 'v) destroy_call list \<times> ('k, 'v) GHashTable" where
  "g_hash_table_insert_replace key value replace hash =
    (let hash = (if gh_in_use hash \<ge> gh_threshold hash then g_rehash hash else hash);
         hashcode = g_chain hash key in
     case g_find_slot hash key of
       Some j \<Rightarrow>
         (case gh_table hash ! hashcode ! j of (s_key, s_value) \<Rightarrow>
            ((if replace then destroy_key hash s_key else []) @ destroy_value hash s_value,
             hash\<lparr>gh_table := (gh_table hash)[hashcode :=
               (gh_table hash ! hashcode)[j := (if replace then key else s_key, value)]]\<rparr>))
     | None \<Rightarrow>
         ([], hash\<lparr>gh_table := (gh_table hash)[hashcode := (key, value) # gh_table hash ! hashcode],
                gh_in_use := gh_in_use hash + 1\<rparr>))"

definition g_hash_table_size :: "('k, 'v) GHashTable \<Rightarrow> nat" where
  "g_hash_table_size hash = gh_in_use hash"

definition g_hash_table_lookup_extended :: "('k, 'v) GHashTable \<Rightarrow> 'k \<Rightarrow> ('k \<times> 'v) option" where
  "g_hash_table_lookup_extended hash key =
    (case g_find_slot hash key of
       Some j \<Rightarrow> Some (gh_table hash ! g_chain hash key ! j)
     | None \<Rightarrow> None)"

definition g_hash_table_contains :: "('k, 'v) GHashTable \<Rightarrow> 'k \<Rightarrow> bool" where
  "g_hash_table_contains hash key \<longleftrightarrow> g_hash_table_lookup_extended hash key \<noteq> None"

text \<open>\<open>NULL\<close> for a missing key is \<open>None\<close>.\<close>

definition g_hash_table_lookup :: "('k, 'v) GHashTable \<Rightarrow> 'k \<Rightarrow> 'v option" where
  "g_hash_table_lookup hash key = map_option snd (g_hash_table_lookup_extended hash key)"

definition g_hash_table_foreach :: "('s \<Rightarrow> 'k \<Rightarrow> 'v \<Rightarrow> 's) \<Rightarrow> 's \<Rightarrow> ('k, 'v) GHashTable \<Rightarrow> 's" where
  "g_hash_table_foreach func user_data hash =
    fold (\<lambda>chain u. fold (\<lambda>s u. func u (fst s) (snd s)) chain u) (gh_table hash) user_data"

fun find_in_chains :: "('k \<Rightarrow> 'v \<Rightarrow> bool) \<Rightarrow> ('k \<times> 'v) list list \<Rightarrow> 'v option" where
  "find_in_chains predicate [] = None"
| "find_in_chains predicate (chain # table) =
    (case find (\<lambda>s. predicate (fst s) (snd s)) chain of
       Some s \<Rightarrow> Some (snd s)
     | None \<Rightarrow> find_in_chains predicate table)"

definition g_hash_table_find :: "('k \<Rightarrow> 'v \<Rightarrow> bool) \<Rightarrow> ('k, 'v) GHashTable \<Rightarrow> 'v option" where
  "g_hash_table_find predicate hash = find_in_chains predicate (gh_table hash)"

definition unlink_slot :: "nat \<Rightarrow> nat \<Rightarrow> ('k, 'v) GHashTable \<Rightarrow> ('k, 'v) GHashTable" where
  "unlink_slot hashcode j hash =
    hash\<lparr>gh_table := (gh_table hash)[hashcode := remove_at j (gh_table hash ! hashcode)],
      gh_in_use := gh_in_use hash - 1\<rparr>"

definition g_hash_table_remove ::
    "'k \<Rightarrow> ('k, 'v) GHashTable \<Rightarrow> bool \<times> ('k, 'v) destroy_call list \<times> ('k, 'v) GHashTable" where
  "g_hash_table_remove key hash =
    (case g_find_slot hash key of
       Some j \<Rightarrow>
         (case gh_table hash ! g_chain hash key ! j of (s_key, s_value) \<Rightarrow>
            (True, destroy_key hash s_key @ destroy_value hash s_value, unlink_slot (g_chain hash key) j hash))
     | None \<Rightarrow> (False, [], hash))"

definition g_hash_table_steal :: "'k \<Rightarrow> ('k, 'v) GHashTable \<Rightarrow> bool \<times> ('k, 'v) GHashTable" where
  "g_hash_table_steal key hash =
    (case g_find_slot hash key of
       Some j \<Rightarrow> (True, unlink_slot (g_chain hash key) j hash)
     | None \<Rightarrow> (False, hash))"

text \<open>\<open>while (hash->table [i])\<close>, for each chain.\<close>

partial_function (option) remove_chain ::
    "nat \<Rightarrow> ('k, 'v) GHashTable \<Rightarrow> (('k, 'v) destroy_call list \<times> ('k, 'v) GHashTable) option" where
  "remove_chain i hash =
    (case gh_table hash ! i of
       [] \<Rightarrow> Some ([], hash)
     | s # _ \<Rightarrow>
         (case g_hash_table_remove (fst s) hash of (removed, calls, hash) \<Rightarrow>
            do { (more, hash) \<leftarrow> remove_chain i hash; Some (calls @ more, hash) }))"

declare remove_chain.simps [code]

fun remove_chains :: "nat list \<Rightarrow> ('k, 'v) GHashTable \<Rightarrow>
    (('k, 'v) destroy_call list \<times> ('k, 'v) GHashTable) option" where
  "remove_chains [] hash = Some ([], hash)"
| "remove_chains (i # is) hash =
    do {
      (calls, hash) \<leftarrow> remove_chain i hash;
      (more, hash) \<leftarrow> remove_chains is hash;
      Some (calls @ more, hash) }"

definition g_hash_table_remove_all ::
    "('k, 'v) GHashTable \<Rightarrow> (('k, 'v) destroy_call list \<times> ('k, 'v) GHashTable) option" where
  "g_hash_table_remove_all hash = remove_chains [0..<gh_table_size hash] hash"

text \<open>
  The entries that \<open>func\<close> selects leave their chains; with \<open>destroy\<close> set (\<open>foreach_remove\<close>,
  not \<open>foreach_steal\<close>) the destroy functions are called.
\<close>

definition filter_slots :: "bool \<Rightarrow> ('k \<Rightarrow> 'v \<Rightarrow> bool) \<Rightarrow> ('k, 'v) GHashTable \<Rightarrow>
    nat \<times> ('k, 'v) destroy_call list \<times> ('k, 'v) GHashTable" where
  "filter_slots destroy func hash =
    (let gone = filter (\<lambda>s. func (fst s) (snd s)) (concat (gh_table hash));
         hash' = hash\<lparr>gh_table := map (filter (\<lambda>s. \<not> func (fst s) (snd s))) (gh_table hash),
                      gh_in_use := gh_in_use hash - length gone\<rparr> in
     (length gone,
      if destroy then concat (map (\<lambda>s. destroy_key hash (fst s) @ destroy_value hash (snd s)) gone) else [],
      if length gone > 0 then g_rehash hash' else hash'))"

definition g_hash_table_foreach_remove :: "('k \<Rightarrow> 'v \<Rightarrow> bool) \<Rightarrow> ('k, 'v) GHashTable \<Rightarrow>
    nat \<times> ('k, 'v) destroy_call list \<times> ('k, 'v) GHashTable" where
  "g_hash_table_foreach_remove func hash = filter_slots True func hash"

definition g_hash_table_foreach_steal :: "('k \<Rightarrow> 'v \<Rightarrow> bool) \<Rightarrow> ('k, 'v) GHashTable \<Rightarrow> nat \<times> ('k, 'v) GHashTable" where
  "g_hash_table_foreach_steal func hash =
    (case filter_slots False func hash of (n, _, hash) \<Rightarrow> (n, hash))"

text \<open>The iterator: the chain it is in (\<open>-1\<close> before the first, \<open>-2\<close> after the last) and the rest of it.\<close>

record ('k, 'v) GHashTableIter =
  it_slot_index :: int
  it_slot :: "('k \<times> 'v) list"

definition g_hash_table_iter_init :: "('k, 'v) GHashTableIter" where
  "g_hash_table_iter_init = \<lparr>it_slot_index = -1, it_slot = []\<rparr>"

function next_chain :: "('k, 'v) GHashTable \<Rightarrow> int \<Rightarrow> int" where
  "next_chain hash slot_index =
    (let slot_index = slot_index + 1 in
     if slot_index \<ge> int (gh_table_size hash) then -2
     else if gh_table hash ! nat slot_index \<noteq> [] then slot_index
     else next_chain hash slot_index)"
  by pat_completeness auto
termination
  by (relation "measure (\<lambda>(hash, i). nat (int (gh_table_size hash) - i))") auto

declare next_chain.simps [simp del]

text \<open>The outer option is the assertion that the iteration has not ended, the inner one the result.\<close>

definition g_hash_table_iter_next :: "('k, 'v) GHashTable \<Rightarrow> ('k, 'v) GHashTableIter \<Rightarrow>
    (('k \<times> 'v) option \<times> ('k, 'v) GHashTableIter) option" where
  "g_hash_table_iter_next hash iter =
    (if it_slot_index iter = -2 then None
     else
       let iter = (if it_slot iter = []
                   then let i = next_chain hash (it_slot_index iter) in
                     iter\<lparr>it_slot_index := i, it_slot := (if i = -2 then [] else gh_table hash ! nat i)\<rparr>
                   else iter) in
       case it_slot iter of
         [] \<Rightarrow> Some (None, iter)
       | s # rest \<Rightarrow> Some (Some s, iter\<lparr>it_slot := rest\<rparr>))"

text \<open>Hash and equality functions for direct keys, integers and strings (a list ends before its NUL).\<close>

definition g_direct_equal :: "u64 \<Rightarrow> u64 \<Rightarrow> bool" where
  "g_direct_equal v1 v2 \<longleftrightarrow> v1 = v2"

definition g_direct_hash :: "u64 \<Rightarrow> u32" where
  "g_direct_hash v1 = ucast v1"

definition g_int_equal :: "u32 \<Rightarrow> u32 \<Rightarrow> bool" where
  "g_int_equal v1 v2 \<longleftrightarrow> v1 = v2"

definition g_int_hash :: "u32 \<Rightarrow> u32" where
  "g_int_hash v1 = v1"

definition g_str_equal :: "8 word list \<Rightarrow> 8 word list \<Rightarrow> bool" where
  "g_str_equal v1 v2 \<longleftrightarrow> v1 = v2"

text \<open>\<open>while (*p++) hash = (hash << 5) - (hash + *p)\<close>; \<open>char\<close> is signed.\<close>

fun str_hash_loop :: "8 word list \<Rightarrow> u32 \<Rightarrow> u32" where
  "str_hash_loop [] hash = hash"
| "str_hash_loop [c] hash = push_bit 5 hash - (hash + 0)"
| "str_hash_loop (c # d # cs) hash = str_hash_loop (d # cs) (push_bit 5 hash - (hash + scast d))"

definition g_str_hash :: "8 word list \<Rightarrow> u32" where
  "g_str_hash v1 = str_hash_loop v1 0"

text \<open>The hash functions that the library provides respect the equality they go with.\<close>

interpretation direct_key: hash_key g_direct_hash g_direct_equal
  by unfold_locales (simp_all add: g_direct_equal_def)

interpretation int_key: hash_key g_int_hash g_int_equal
  by unfold_locales (simp_all add: g_int_equal_def)

interpretation str_key: hash_key g_str_hash g_str_equal
  by unfold_locales (simp_all add: g_str_equal_def)

section \<open>The table as a map\<close>

definition gh_ok :: "('k, 'v) GHashTable \<Rightarrow> bool" where
  "gh_ok hash \<longleftrightarrow> hash_key (gh_hash_func hash) (gh_key_equal_func hash) \<and>
    length (gh_table hash) = gh_table_size hash \<and>
    hash_key.tok (gh_hash_func hash) (gh_key_equal_func hash) (gh_table hash) \<and>
    size (entries (gh_table hash)) = gh_in_use hash"

lemma gh_okD:
  assumes "gh_ok hash"
  shows "hash_key (gh_hash_func hash) (gh_key_equal_func hash)" "length (gh_table hash) = gh_table_size hash"
    "hash_key.tok (gh_hash_func hash) (gh_key_equal_func hash) (gh_table hash)"
    "size (entries (gh_table hash)) = gh_in_use hash"
  using assms by (simp_all add: gh_ok_def)

lemma find_slot_chain_pos:
  assumes "gh_ok hash"
  shows "hash_key.chain_pos (gh_hash_func hash) (gh_key_equal_func hash) (gh_table hash) k =
    map_option (Pair (g_chain hash k)) (g_find_slot hash k)"
  by (simp add: hash_key.chain_pos_def [OF gh_okD(1) [OF assms]] g_chain_def g_find_slot_def gh_okD(2) [OF assms] Let_def)

lemma g_lookup_eq:
  assumes "gh_ok hash"
  shows "g_hash_table_lookup hash k =
    map_option snd (hash_key.tlookup (gh_hash_func hash) (gh_key_equal_func hash) (gh_table hash) k)"
  by (simp add: g_hash_table_lookup_def g_hash_table_lookup_extended_def
    hash_key.tlookup_def [OF gh_okD(1) [OF assms]] find_slot_chain_pos [OF assms] split: option.split)

lemma g_slot_entry:
  assumes "gh_ok hash" "g_find_slot hash k = Some j"
  shows "gh_table hash ! g_chain hash k ! j \<in># entries (gh_table hash)"
    "gh_key_equal_func hash (fst (gh_table hash ! g_chain hash k ! j)) k"
    "hash_key.chain_pos (gh_hash_func hash) (gh_key_equal_func hash) (gh_table hash) k = Some (g_chain hash k, j)"
    "g_hash_table_lookup hash k = Some (snd (gh_table hash ! g_chain hash k ! j))"
    "g_chain hash k < length (gh_table hash)" "j < length (gh_table hash ! g_chain hash k)"
proof -
  have c: "hash_key.chain_pos (gh_hash_func hash) (gh_key_equal_func hash) (gh_table hash) k = Some (g_chain hash k, j)"
    using find_slot_chain_pos [OF assms(1)] assms(2) by simp
  have "gh_table hash \<noteq> []"
    using gh_okD(3) [OF assms(1)] by (simp add: hash_key.tok_def [OF gh_okD(1) [OF assms(1)]])
  from hash_key.chain_posD [OF gh_okD(1) [OF assms(1)] c this] c show
    "gh_table hash ! g_chain hash k ! j \<in># entries (gh_table hash)"
    "gh_key_equal_func hash (fst (gh_table hash ! g_chain hash k ! j)) k"
    "hash_key.chain_pos (gh_hash_func hash) (gh_key_equal_func hash) (gh_table hash) k = Some (g_chain hash k, j)"
    "g_chain hash k < length (gh_table hash)" "j < length (gh_table hash ! g_chain hash k)" by blast+
  show "g_hash_table_lookup hash k = Some (snd (gh_table hash ! g_chain hash k ! j))"
    by (simp add: g_hash_table_lookup_def g_hash_table_lookup_extended_def assms(2))
qed

lemma g_rehash_ok:
  assumes "gh_ok hash"
  shows "gh_ok (g_rehash hash)" "g_hash_table_lookup (g_rehash hash) k = g_hash_table_lookup hash k"
    "gh_hash_func (g_rehash hash) = gh_hash_func hash" "gh_key_equal_func (g_rehash hash) = gh_key_equal_func hash"
    "gh_in_use (g_rehash hash) = gh_in_use hash"
    "gh_key_destroy_func (g_rehash hash) = gh_key_destroy_func hash"
    "gh_value_destroy_func (g_rehash hash) = gh_value_destroy_func hash"
proof -
  define n where "n = g_spaced_primes_closest (gh_in_use hash)"
  have n: "0 < n" using spaced_primes_pos by (simp add: n_def)
  have f: "gh_table (g_do_rehash hash) = rehash_chains (gh_hash_func hash) n (gh_table hash)"
    "gh_table_size (g_do_rehash hash) = n" "gh_in_use (g_do_rehash hash) = gh_in_use hash"
    "gh_hash_func (g_do_rehash hash) = gh_hash_func hash" "gh_key_equal_func (g_do_rehash hash) = gh_key_equal_func hash"
    by (simp_all add: g_do_rehash_def n_def Let_def)
  note hk = gh_okD(1) [OF assms]
  note r = hash_key.tok_rehash [OF hk gh_okD(3) [OF assms] n] hash_key.rehash_chains_props [OF hk n, of "gh_table hash"]
  have ok: "gh_ok (g_do_rehash hash)" using assms r unfolding gh_ok_def f by simp
  have "g_hash_table_lookup (g_do_rehash hash) k = g_hash_table_lookup hash k"
    unfolding g_lookup_eq [OF ok] g_lookup_eq [OF assms] f by (rule r(2))
  then show "gh_ok (g_rehash hash)" "g_hash_table_lookup (g_rehash hash) k = g_hash_table_lookup hash k"
    using ok assms by (simp_all add: g_rehash_def Let_def)
qed (simp_all add: g_rehash_def g_do_rehash_def Let_def)

lemma insert_replace_ok:
  assumes "gh_ok hash"
  obtains calls hash' where "g_hash_table_insert_replace k v r hash = (calls, hash')" "gh_ok hash'"
    "gh_hash_func hash' = gh_hash_func hash" "gh_key_equal_func hash' = gh_key_equal_func hash"
    "\<And>l. g_hash_table_lookup hash' l = (if gh_key_equal_func hash k l then Some v else g_hash_table_lookup hash l)"
    "calls = (case g_hash_table_lookup hash k of None \<Rightarrow> [] | Some v' \<Rightarrow>
       (if r then destroy_key hash (fst (the (g_hash_table_lookup_extended (if gh_in_use hash \<ge> gh_threshold hash then g_rehash hash else hash) k))) else [])
       @ destroy_value hash v')"
proof -
  define s where "s = (if gh_in_use hash \<ge> gh_threshold hash then g_rehash hash else hash)"
  have ok: "gh_ok s" and look: "\<And>k. g_hash_table_lookup s k = g_hash_table_lookup hash k"
    and f: "gh_hash_func s = gh_hash_func hash" "gh_key_equal_func s = gh_key_equal_func hash"
      "destroy_key s = destroy_key hash" "destroy_value s = destroy_value hash"
    using assms g_rehash_ok [OF assms] by (auto simp: s_def destroy_key_def destroy_value_def fun_eq_iff)
  note hk = gh_okD(1) [OF ok] and tk = gh_okD(3) [OF ok]
  have def: "g_hash_table_insert_replace k v r hash =
    (case g_find_slot s k of
       Some j \<Rightarrow>
         (case gh_table s ! g_chain s k ! j of (s_key, s_value) \<Rightarrow>
            ((if r then destroy_key s s_key else []) @ destroy_value s s_value,
             s\<lparr>gh_table := (gh_table s)[g_chain s k :=
               (gh_table s ! g_chain s k)[j := (if r then k else s_key, v)]]\<rparr>))
     | None \<Rightarrow>
         ([], s\<lparr>gh_table := (gh_table s)[g_chain s k := (k, v) # gh_table s ! g_chain s k],
                gh_in_use := gh_in_use s + 1\<rparr>))"
    by (simp only: g_hash_table_insert_replace_def Let_def s_def)
  show thesis
  proof (cases "g_find_slot s k")
    case None
    then have n: "hash_key.tlookup (gh_hash_func s) (gh_key_equal_func s) (gh_table s) k = None"
      by (simp add: hash_key.tlookup_def [OF hk] find_slot_chain_pos [OF ok])
    define hash' where "hash' = s\<lparr>gh_table := (gh_table s)[g_chain s k := (k, v) # gh_table s ! g_chain s k],
                gh_in_use := gh_in_use s + 1\<rparr>"
    have pe: "gh_table hash' = push_entry (gh_hash_func s) (k, v) (gh_table s)"
      by (simp add: hash'_def push_entry_def g_chain_def gh_okD(2) [OF ok] Let_def)
    have f': "gh_hash_func hash' = gh_hash_func s" "gh_key_equal_func hash' = gh_key_equal_func s"
      "gh_table_size hash' = gh_table_size s" "gh_in_use hash' = gh_in_use s + 1"
      by (simp_all add: hash'_def)
    note p = hash_key.tok_push [OF hk tk n, of v]
    have t: "hash_key.placed (gh_hash_func s) (gh_table s)" "gh_table s \<noteq> []"
      using tk by (simp_all add: hash_key.tok_def [OF hk])
    note q = hash_key.push_entry_props [OF hk t, of "(k, v)"]
    have ok': "gh_ok hash'" using ok p(1) q unfolding gh_ok_def pe f' by simp
    have "g_hash_table_lookup hash' l = (if gh_key_equal_func s k l then Some v else g_hash_table_lookup s l)" for l
      unfolding g_lookup_eq [OF ok'] g_lookup_eq [OF ok] pe f' by (rule p(2))
    moreover have "g_hash_table_lookup hash k = None"
      using look [of k] n by (simp add: g_lookup_eq [OF ok])
    moreover have "g_hash_table_insert_replace k v r hash = ([], hash')"
      unfolding def None by (simp add: hash'_def)
    ultimately show thesis
      using ok' look by (intro that [of "[]" hash']) (simp_all add: f f')
  next
    case (Some j)
    note e = g_slot_entry [OF ok Some]
    obtain s_key s_value where sl: "gh_table s ! g_chain s k ! j = (s_key, s_value)"
      by (cases "gh_table s ! g_chain s k ! j")
    define k' where "k' = (if r then k else s_key)"
    have k': "gh_key_equal_func s k' k" using e(2) hash_key.eq_refl [OF hk] by (simp add: k'_def sl)
    define hash' where "hash' = s\<lparr>gh_table := (gh_table s)[g_chain s k :=
               (gh_table s ! g_chain s k)[j := (k', v)]]\<rparr>"
    have f': "gh_hash_func hash' = gh_hash_func s" "gh_key_equal_func hash' = gh_key_equal_func s"
      "gh_table_size hash' = gh_table_size s" "gh_in_use hash' = gh_in_use s"
      "gh_table hash' = (gh_table s)[g_chain s k := (gh_table s ! g_chain s k)[j := (k', v)]]"
      by (simp_all add: hash'_def)
    note p = hash_key.tok_set [OF hk tk e(3) k', of v]
    have "hash_key.placed (gh_hash_func s) (gh_table s)"
      using tk by (simp_all add: hash_key.tok_def [OF hk])
    moreover have "gh_key_equal_func s (fst (k', v)) (fst (gh_table s ! g_chain s k ! j))"
      using hash_key.eq_trans [OF hk k' hash_key.eq_sym [OF hk e(2)]] by simp
    ultimately have q: "entries (gh_table hash') = add_mset (k', v) (entries (gh_table s) - {#gh_table s ! g_chain s k ! j#})"
      unfolding f' by (rule hash_key.set_entry_props(2) [OF hk _ e(5,6)])
    have "size (entries (gh_table hash')) = size (entries (gh_table s))"
      unfolding q using e(1) by (metis add_mset_remove_trivial insert_DiffM size_add_mset)
    then have ok': "gh_ok hash'" using ok p(1) unfolding gh_ok_def f' by simp
    have "g_hash_table_lookup hash' l = (if gh_key_equal_func s k l then Some v else g_hash_table_lookup s l)" for l
      unfolding g_lookup_eq [OF ok'] g_lookup_eq [OF ok] f' by (rule p(2))
    moreover have "g_hash_table_lookup hash k = Some s_value"
      using look [of k] e(4) by (simp add: sl)
    moreover have "g_hash_table_lookup_extended s k = Some (s_key, s_value)"
      by (simp add: g_hash_table_lookup_extended_def Some sl)
    moreover have "g_hash_table_insert_replace k v r hash =
        ((if r then destroy_key s s_key else []) @ destroy_value s s_value, hash')"
      unfolding def Some by (simp add: sl hash'_def k'_def)
    ultimately show thesis
      using that [of "(if r then destroy_key s s_key else []) @ destroy_value s s_value" hash'] ok' look
      by (simp add: f f' flip: s_def)
  qed
qed

lemma g_remove_ok:
  assumes "gh_ok hash"
  obtains calls hash' where "g_hash_table_remove k hash = (g_hash_table_lookup hash k \<noteq> None, calls, hash')" "gh_ok hash'"
    "gh_hash_func hash' = gh_hash_func hash" "gh_key_equal_func hash' = gh_key_equal_func hash"
    "\<And>l. g_hash_table_lookup hash' l = (if gh_key_equal_func hash k l then None else g_hash_table_lookup hash l)"
    "gh_table_size hash' = gh_table_size hash"
proof (cases "g_find_slot hash k")
  case None
  note hk = gh_okD(1) [OF assms] and tk = gh_okD(3) [OF assms]
  have "hash_key.tlookup (gh_hash_func hash) (gh_key_equal_func hash) (gh_table hash) k = None"
    using None by (simp add: hash_key.tlookup_def [OF hk] find_slot_chain_pos [OF assms])
  then have n: "g_hash_table_lookup hash k = None" by (simp add: g_lookup_eq [OF assms])
  have "g_hash_table_lookup hash l = None" if "gh_key_equal_func hash k l" for l
    using hash_key.tlookup_cong [OF hk tk that] n by (simp add: g_lookup_eq [OF assms])
  then show thesis using that [of "[]" hash] assms n None by (simp add: g_hash_table_remove_def)
next
  case (Some j)
  note hk = gh_okD(1) [OF assms] and tk = gh_okD(3) [OF assms]
  note e = g_slot_entry [OF assms Some]
  obtain s_key s_value where sl: "gh_table hash ! g_chain hash k ! j = (s_key, s_value)"
    by (cases "gh_table hash ! g_chain hash k ! j")
  let ?h = "unlink_slot (g_chain hash k) j hash"
  have f: "gh_hash_func ?h = gh_hash_func hash" "gh_key_equal_func ?h = gh_key_equal_func hash"
    "gh_table_size ?h = gh_table_size hash" "gh_in_use ?h = gh_in_use hash - 1"
    "gh_table ?h = (gh_table hash)[g_chain hash k := remove_at j (gh_table hash ! g_chain hash k)]"
    by (simp_all add: unlink_slot_def)
  note p = hash_key.tok_remove [OF hk tk e(3)]
  have "hash_key.placed (gh_hash_func hash) (gh_table hash)"
    using tk by (simp_all add: hash_key.tok_def [OF hk])
  from hash_key.remove_entry_props(2) [OF hk this e(5,6)]
  have "size (entries (gh_table ?h)) = size (entries (gh_table hash)) - 1"
    unfolding f using e(1) by (simp add: size_Diff_singleton)
  then have ok': "gh_ok ?h" using assms p(1) unfolding gh_ok_def f by simp
  have "g_hash_table_lookup ?h l = (if gh_key_equal_func hash k l then None else g_hash_table_lookup hash l)" for l
    unfolding g_lookup_eq [OF ok'] g_lookup_eq [OF assms] f by (rule p(2))
  then show thesis
    using that [of "destroy_key hash s_key @ destroy_value hash s_value" ?h] ok' f e(4) Some
    by (simp add: g_hash_table_remove_def sl)
qed

lemma g_new_ok:
  fixes h :: "'k \<Rightarrow> u32"
  assumes "hash_key h eq" and new: "t = (g_hash_table_new_full h eq kd vd :: ('k, 'v) GHashTable)"
  shows "gh_ok t" "g_hash_table_lookup t k = None"
proof -
  show "gh_ok t"
    using assms(1) spaced_primes_pos [of 1] by (simp add: new gh_ok_def g_hash_table_new_full_def Let_def
      hash_key.tok_def [OF assms(1)] hash_key.placed_def [OF assms(1)] hash_key.uniq_def [OF assms(1)])
  have "gh_table t = replicate (gh_table_size t) []" "0 < gh_table_size t"
    using spaced_primes_pos [of 1] by (simp_all add: new g_hash_table_new_full_def Let_def)
  then have "gh_table t ! g_chain t k = []" by (simp add: g_chain_def)
  then show "g_hash_table_lookup t k = None"
    by (simp add: g_hash_table_lookup_def g_hash_table_lookup_extended_def g_find_slot_def)
qed

section \<open>The table as a \<open>table_map\<close>, and its property\<close>

definition g_put :: "bool \<Rightarrow> 'k \<Rightarrow> 'v \<Rightarrow> ('k, 'v) GHashTable \<Rightarrow> ('k, 'v) GHashTable" where
  "g_put r k v hash = snd (g_hash_table_insert_replace k v r hash)"

definition g_del :: "'k \<Rightarrow> ('k, 'v) GHashTable \<Rightarrow> ('k, 'v) GHashTable" where
  "g_del k hash = snd (snd (g_hash_table_remove k hash))"

interpretation g_table: table_map gh_ok gh_key_equal_func g_hash_table_lookup "g_put r" g_del
proof (unfold_locales)
  fix hash :: "('a, 'b) GHashTable" and k l d
  assume ok: "gh_ok hash"
  show "gh_ok (g_put r k d hash)" "gh_key_equal_func (g_put r k d hash) = gh_key_equal_func hash"
    "g_hash_table_lookup (g_put r k d hash) l = (if gh_key_equal_func hash k l then Some d else g_hash_table_lookup hash l)"
    by (rule insert_replace_ok [OF ok, of k d r], simp add: g_put_def)+
  show "gh_ok (g_del k hash)" "gh_key_equal_func (g_del k hash) = gh_key_equal_func hash"
    "g_hash_table_lookup (g_del k hash) l = (if gh_key_equal_func hash k l then None else g_hash_table_lookup hash l)"
    by (rule g_remove_ok [OF ok, of k], simp add: g_del_def)+
  show "gh_key_equal_func hash k k" by (rule hash_key.eq_refl [OF gh_okD(1) [OF ok]])
qed

text \<open>C14: \<open>GHashTable\<close> keeps the laws of a map through its rehashes: a key inserted (or
  replaced) and then removed is gone, whatever it was before, and all other keys keep their
  values; the table stays well formed and its in-use count is the number of entries.\<close>

theorem g_hash_table_insert_remove:
  assumes "gh_ok hash"
  shows "gh_ok (snd (snd (g_hash_table_remove k (snd (g_hash_table_insert_replace k v r hash))))) \<and>
    g_hash_table_lookup (snd (g_hash_table_insert_replace k v r hash)) k = Some v \<and>
    g_hash_table_lookup (snd (snd (g_hash_table_remove k (snd (g_hash_table_insert_replace k v r hash))))) l =
      (if gh_key_equal_func hash k l then None else g_hash_table_lookup hash l)"
  using g_table.ok_del [OF g_table.ok_put [OF assms]] g_table.lookup_put_same [OF assms]
    g_table.del_put [OF assms] g_table.lookup_del [OF assms]
  by (auto simp: g_put_def g_del_def)

theorem g_hash_table_insert_remove_witness:
  "g_hash_table_lookup (snd (g_hash_table_insert_replace 7 (5 :: u64) True (g_hash_table_new g_direct_hash g_direct_equal))) 7 = Some 5"
proof -
  have "gh_ok (g_hash_table_new g_direct_hash g_direct_equal :: (u64, u64) GHashTable)"
    unfolding g_hash_table_new_def
    by (rule g_new_ok [OF direct_key.hash_key_axioms refl])
  from g_hash_table_insert_remove [OF this, of 7 5 True 7] show ?thesis by simp
qed

section \<open>Removing everything\<close>

lemma g_remove_head:
  assumes ok: "gh_ok hash" and i: "i < gh_table_size hash" "gh_table hash ! i = s # rest"
  shows "g_hash_table_remove (fst s) hash =
    (True, destroy_key hash (fst s) @ destroy_value hash (snd s),
     hash\<lparr>gh_table := (gh_table hash)[i := rest], gh_in_use := gh_in_use hash - 1\<rparr>)"
proof -
  note hk = gh_okD(1) [OF ok] and tk = gh_okD(3) [OF ok]
  have "hash_key.placed (gh_hash_func hash) (gh_table hash)" using tk by (simp add: hash_key.tok_def [OF hk])
  then have c: "g_chain hash (fst s) = i"
    using i gh_okD(2) [OF ok] by (auto simp: hash_key.placed_def [OF hk] g_chain_def)
  have f: "g_find_slot hash (fst s) = Some 0"
    using hash_key.eq_refl [OF hk] by (simp add: g_find_slot_def c i)
  obtain k v where s: "s = (k, v)" by (cases s)
  show ?thesis
    using c f i by (simp add: s g_hash_table_remove_def unlink_slot_def remove_at_def)
qed

definition slot_calls :: "('k, 'v) GHashTable \<Rightarrow> 'k \<times> 'v \<Rightarrow> ('k, 'v) destroy_call list" where
  "slot_calls hash s = destroy_key hash (fst s) @ destroy_value hash (snd s)"

lemma remove_chain_empties:
  assumes "gh_ok hash" "i < gh_table_size hash" "gh_table hash ! i = chain"
  shows "\<exists>hash'. remove_chain i hash = Some (concat (map (slot_calls hash) chain), hash') \<and> gh_ok hash' \<and>
    hash' = hash\<lparr>gh_table := (gh_table hash)[i := []], gh_in_use := gh_in_use hash - length chain\<rparr>"
  using assms
proof (induction chain arbitrary: hash)
  case Nil
  then have "hash\<lparr>gh_table := (gh_table hash)[i := []], gh_in_use := gh_in_use hash - 0\<rparr> = hash"
    by (simp add: list_update_id [of "gh_table hash" i, unfolded Nil.prems(3)])
  then show ?case using Nil by (subst remove_chain.simps) simp
next
  case (Cons s chain)
  let ?h = "hash\<lparr>gh_table := (gh_table hash)[i := chain], gh_in_use := gh_in_use hash - 1\<rparr>"
  note r = g_remove_head [OF Cons.prems]
  have ok: "gh_ok ?h" using g_remove_ok [OF Cons.prems(1), of "fst s"] r by (metis prod.inject)
  have "i < gh_table_size ?h" "gh_table ?h ! i = chain" using Cons.prems gh_okD(2) [OF Cons.prems(1)] by simp_all
  from Cons.IH [OF ok this] have ih: "remove_chain i ?h = Some (concat (map (slot_calls ?h) chain),
      ?h\<lparr>gh_table := (gh_table ?h)[i := []], gh_in_use := gh_in_use ?h - length chain\<rparr>)"
    "gh_ok (?h\<lparr>gh_table := (gh_table ?h)[i := []], gh_in_use := gh_in_use ?h - length chain\<rparr>)" by auto
  have "slot_calls ?h = slot_calls hash"
    by (intro ext) (simp add: slot_calls_def destroy_key_def destroy_value_def)
  then show ?case
    using ih by (subst remove_chain.simps) (simp add: Cons.prems(3) r slot_calls_def)
qed

lemma remove_chains_empties:
  assumes "gh_ok hash" "a \<le> gh_table_size hash"
  shows "\<exists>hash'. remove_chains [a..<gh_table_size hash] hash =
      Some (concat (map (\<lambda>chain. concat (map (slot_calls hash) chain)) (drop a (gh_table hash))), hash') \<and> gh_ok hash' \<and>
    gh_table hash' = take a (gh_table hash) @ replicate (gh_table_size hash - a) []"
  using assms
proof (induction "gh_table_size hash - a" arbitrary: a hash)
  case 0
  then show ?case using gh_okD(2) [OF 0(2)] by simp
next
  case (Suc n)
  have len: "length (gh_table hash) = gh_table_size hash" by (rule gh_okD(2) [OF Suc.prems(1)])
  have a: "a < gh_table_size hash" using Suc.hyps(2) by simp
  let ?h = "hash\<lparr>gh_table := (gh_table hash)[a := []], gh_in_use := gh_in_use hash - length (gh_table hash ! a)\<rparr>"
  have r: "remove_chain a hash = Some (concat (map (slot_calls hash) (gh_table hash ! a)), ?h)" "gh_ok ?h"
    using remove_chain_empties [OF Suc.prems(1) a refl] by auto
  have "n = gh_table_size ?h - Suc a" "Suc a \<le> gh_table_size ?h" using Suc.hyps(2) a by simp_all
  from Suc.hyps(1) [OF this(1) r(2) this(2)] obtain hash' where
    h: "remove_chains [Suc a..<gh_table_size hash] ?h =
        Some (concat (map (\<lambda>chain. concat (map (slot_calls ?h) chain)) (drop (Suc a) (gh_table ?h))), hash')"
      "gh_ok hash'" "gh_table hash' = take (Suc a) (gh_table ?h) @ replicate (gh_table_size hash - Suc a) []" by auto
  have s: "slot_calls ?h = slot_calls hash"
    by (intro ext) (simp add: slot_calls_def destroy_key_def destroy_value_def)
  have t: "take (Suc a) (gh_table ?h) = take a (gh_table hash) @ [[]]"
    using a len by (simp add: take_Suc_conv_app_nth)
  have "gh_table_size hash - a = Suc n" "gh_table_size hash - Suc a = n" using Suc.hyps(2) by simp_all
  then have "gh_table hash' = take a (gh_table hash) @ replicate (gh_table_size hash - a) []"
    unfolding h(3) t by simp
  moreover have "drop a (gh_table hash) = gh_table hash ! a # drop (Suc a) (gh_table hash)"
    using a len by (simp add: Cons_nth_drop_Suc)
  ultimately show ?case
    using h(1,2) r(1) a by (simp add: upt_conv_Cons s)
qed

text \<open>C15: \<open>g_hash_table_remove_all\<close> ends on every well-formed table: it calls the destroy functions
  once for every entry, chain by chain, and leaves the table well formed and empty.\<close>

theorem g_hash_table_remove_all_correct:
  assumes "gh_ok hash"
  shows "\<exists>hash'. g_hash_table_remove_all hash =
      Some (concat (map (\<lambda>s. destroy_key hash (fst s) @ destroy_value hash (snd s)) (concat (gh_table hash))), hash') \<and>
    gh_ok hash' \<and> g_hash_table_size hash' = 0"
proof -
  have "remove_chains [0..<gh_table_size hash] hash = g_hash_table_remove_all hash"
    by (simp add: g_hash_table_remove_all_def)
  then obtain hash' where h: "g_hash_table_remove_all hash =
      Some (concat (map (\<lambda>chain. concat (map (slot_calls hash) chain)) (gh_table hash)), hash')" "gh_ok hash'"
      "gh_table hash' = replicate (gh_table_size hash) []"
    using remove_chains_empties [OF assms, of 0] by auto
  have "concat (map (\<lambda>chain. concat (map (slot_calls hash) chain)) t) = concat (map (slot_calls hash) (concat t))" for t
    by (induction t) auto
  moreover have "g_hash_table_size hash' = 0"
    using gh_okD(4) [OF h(2)] h(3) by (simp add: g_hash_table_size_def)
  ultimately show ?thesis using h(1,2) by (simp add: slot_calls_def [abs_def])
qed

theorem g_hash_table_remove_all_witness:
  "\<exists>hash'. g_hash_table_remove_all (g_put False 7 5 (g_hash_table_new_full g_direct_hash g_direct_equal True True)) =
      Some ([Destroy_Key 7, Destroy_Value (5 :: u64)], hash') \<and> g_hash_table_size hash' = 0"
proof -
  define t where "t = (g_hash_table_new_full g_direct_hash g_direct_equal True True :: (u64, u64) GHashTable)"
  have t: "gh_ok t" unfolding t_def
    by (rule g_new_ok [OF direct_key.hash_key_axioms refl])
  have n: "g_spaced_primes_closest 1 = 11" by (simp add: g_spaced_primes_closest_def prime_tbl_def)
  have e: "t = \<lparr>gh_hash_func = g_direct_hash, gh_key_equal_func = g_direct_equal,
       gh_table = [[], [], [], [], [], [], [], [], [], [], []], gh_table_size = 11, gh_in_use = 0, gh_threshold = 0,
       gh_last_rehash = 11, gh_value_destroy_func = True, gh_key_destroy_func = True\<rparr>"
    unfolding t_def g_hash_table_new_full_def n Let_def by (simp add: numeral_eq_Suc)
  have p: "gh_table (g_put False 7 5 t) = [[], [], [], [], [], [], [], [(7, 5)], [], [], []]"
    and d: "gh_key_destroy_func (g_put False 7 5 t)" "gh_value_destroy_func (g_put False 7 5 t)"
    by (simp_all add: e g_put_def g_hash_table_insert_replace_def g_rehash_def g_find_slot_def g_chain_def
      g_direct_hash_def Let_def)
  from g_hash_table_remove_all_correct [OF g_table.ok_put [OF t, of False 7 5]] show ?thesis
    unfolding t_def [symmetric] by (auto simp: p destroy_key_def destroy_value_def d)
qed

section \<open>Two oddities\<close>

text \<open>The first character of a string does not enter its hash value.\<close>

lemma g_str_hash_first_char: "g_str_hash (a # cs) = g_str_hash (b # cs)"
  by (cases cs) (simp_all add: g_str_hash_def)

text \<open>The trial division stops before the square root, so squares of odd primes pass.\<close>

lemma test_prime_nine: "test_prime 9"
  by (simp add: test_prime_def test_divisors.simps)

end
