(* ===== verification/Sgen_Gray.thy ===== *)
theory Sgen_Gray
  imports Brotli_Prelude "HOL-Library.Monad_Syntax" "HOL-Library.Multiset"
begin

text \<open>
  The gray queue, \<open>sgen/sgen-gray.{h,c}\<close>: a stack of (object, descriptor) entries kept in a
  doubly linked list of sections, with a cursor on the topmost entry and a free list of
  sections. Sections live at addresses of a store; \<open>sgen_alloc_internal\<close> returns a zeroed
  section at an address that was not used before, and does not fail. A pointer into the
  entries of a section is the pair of the section and an index (the cursor of an empty
  section is at index \<open>-1\<close>). \<open>None\<close> is an access through a bad pointer or a failed
  assertion. The steal mutex is its held flag, as the owner or a stealer finds it;
  statistics, the binary protocol and the debug-only section states are left out.
\<close>

section \<open>Data\<close>

record GrayQueueEntry =
  ge_obj :: u64
  ge_desc :: u64

definition SGEN_GRAY_QUEUE_SECTION_SIZE :: nat where
  "SGEN_GRAY_QUEUE_SECTION_SIZE = 512 - 3"

definition GRAY_QUEUE_LENGTH_LIMIT :: nat where
  "GRAY_QUEUE_LENGTH_LIMIT = 64"

record GrayQueueSection =
  sec_size :: int
  sec_next :: "nat option"
  sec_prev :: "nat option"
  sec_entries :: "GrayQueueEntry list"

record SgenGrayQueue =
  gq_cursor :: "(nat \<times> int) option"
  gq_first :: "nat option"
  gq_last :: "nat option"
  gq_free_list :: "nat option"
  gq_steal_mutex :: bool
  gq_num_sections :: int

text \<open>The store, with the next unused address, and \<open>last_gray_queue_free_list\<close>.\<close>

record gray_store =
  gs_sections :: "nat \<Rightarrow> GrayQueueSection option"
  gs_next :: nat
  gs_last_free_list :: "nat option"

definition new_section :: GrayQueueSection where
  "new_section = \<lparr>sec_size = 0, sec_next = None, sec_prev = None,
    sec_entries = replicate SGEN_GRAY_QUEUE_SECTION_SIZE \<lparr>ge_obj = 0, ge_desc = 0\<rparr>\<rparr>"

section \<open>Access\<close>

definition upd_section :: "nat \<Rightarrow> (GrayQueueSection \<Rightarrow> GrayQueueSection) \<Rightarrow> gray_store \<Rightarrow> gray_store option" where
  "upd_section a f st =
    (case gs_sections st a of
       None \<Rightarrow> None
     | Some s \<Rightarrow> Some (st\<lparr>gs_sections := (gs_sections st)(a := Some (f s))\<rparr>))"

definition upd_section_opt :: "nat option \<Rightarrow> (GrayQueueSection \<Rightarrow> GrayQueueSection) \<Rightarrow> gray_store \<Rightarrow> gray_store option" where
  "upd_section_opt p f st = (case p of None \<Rightarrow> None | Some a \<Rightarrow> upd_section a f st)"

definition read_entry :: "nat \<times> int \<Rightarrow> gray_store \<Rightarrow> GrayQueueEntry option" where
  "read_entry p st =
    do {
      s \<leftarrow> gs_sections st (fst p);
      if 0 \<le> snd p \<and> snd p < int (length (sec_entries s)) then Some (sec_entries s ! nat (snd p)) else None }"

definition write_entry :: "nat \<times> int \<Rightarrow> GrayQueueEntry \<Rightarrow> gray_store \<Rightarrow> gray_store option" where
  "write_entry p e st =
    do {
      s \<leftarrow> gs_sections st (fst p);
      if 0 \<le> snd p \<and> snd p < int (length (sec_entries s))
      then upd_section (fst p) (\<lambda>s. s\<lparr>sec_entries := (sec_entries s)[nat (snd p) := e]\<rparr>) st
      else None }"

definition GRAY_LAST_CURSOR_POSITION :: "nat \<Rightarrow> nat \<times> int" where
  "GRAY_LAST_CURSOR_POSITION s = (s, int SGEN_GRAY_QUEUE_SECTION_SIZE - 1)"

definition GRAY_FIRST_CURSOR_POSITION :: "nat \<Rightarrow> nat \<times> int" where
  "GRAY_FIRST_CURSOR_POSITION s = (s, 0)"

text \<open>\<open>cursor - section->entries\<close>, a pointer difference within one section.\<close>

definition cursor_index :: "nat \<Rightarrow> SgenGrayQueue \<Rightarrow> int option" where
  "cursor_index s queue =
    (case gq_cursor queue of Some (a, i) \<Rightarrow> (if a = s then Some i else None) | None \<Rightarrow> None)"

definition sgen_gray_object_queue_is_empty :: "SgenGrayQueue \<Rightarrow> bool" where
  "sgen_gray_object_queue_is_empty queue \<longleftrightarrow> gq_first queue = None"

text \<open>\<open>queue->first ? queue->first->entries + queue->first->size - 1 : NULL\<close>\<close>

definition top_cursor :: "nat option \<Rightarrow> gray_store \<Rightarrow> ((nat \<times> int) option) option" where
  "top_cursor first st =
    (case first of
       None \<Rightarrow> Some None
     | Some f \<Rightarrow> do { s \<leftarrow> gs_sections st f; Some (Some (f, sec_size s - 1)) })"

section \<open>Operations\<close>

definition sgen_gray_object_alloc_queue_section ::
    "SgenGrayQueue \<Rightarrow> gray_store \<Rightarrow> (SgenGrayQueue \<times> gray_store) option" where
  "sgen_gray_object_alloc_queue_section queue st =
    do {
      (section, queue, st) \<leftarrow>
        (case gq_free_list queue of
           Some a \<Rightarrow> do { s \<leftarrow> gs_sections st a; Some (a, queue\<lparr>gq_free_list := sec_next s\<rparr>, st) }
         | None \<Rightarrow>
             Some (gs_next st, queue,
               st\<lparr>gs_sections := (gs_sections st)(gs_next st := Some new_section), gs_next := gs_next st + 1\<rparr>));
      st \<leftarrow> upd_section section (\<lambda>s. s\<lparr>sec_size := 0\<rparr>) st;
      st \<leftarrow> upd_section section (\<lambda>s. s\<lparr>sec_next := gq_first queue, sec_prev := None\<rparr>) st;
      (queue, st) \<leftarrow>
        (case gq_first queue of
           Some f \<Rightarrow> do { st \<leftarrow> upd_section f (\<lambda>s. s\<lparr>sec_prev := Some section\<rparr>) st; Some (queue, st) }
         | None \<Rightarrow> Some (queue\<lparr>gq_last := Some section\<rparr>, st));
      Some (queue\<lparr>gq_first := Some section, gq_cursor := Some (section, -1),
              gq_num_sections := gq_num_sections queue + 1\<rparr>, st) }"

definition sgen_gray_object_free_queue_section :: "nat \<Rightarrow> gray_store \<Rightarrow> gray_store" where
  "sgen_gray_object_free_queue_section section st = st\<lparr>gs_sections := (gs_sections st)(section := None)\<rparr>"

definition push_cursor :: "GrayQueueEntry \<Rightarrow> SgenGrayQueue \<Rightarrow> gray_store \<Rightarrow> (SgenGrayQueue \<times> gray_store) option" where
  "push_cursor entry queue st =
    do {
      (a, i) \<leftarrow> gq_cursor queue;
      st \<leftarrow> write_entry (a, i + 1) entry st;
      Some (queue\<lparr>gq_cursor := Some (a, i + 1)\<rparr>, st) }"

definition first_section_full :: "SgenGrayQueue \<Rightarrow> bool" where
  "first_section_full queue \<longleftrightarrow>
    (case gq_first queue of None \<Rightarrow> True
     | Some f \<Rightarrow> gq_cursor queue = Some (GRAY_LAST_CURSOR_POSITION f))"

definition sgen_gray_object_enqueue ::
    "u64 \<Rightarrow> u64 \<Rightarrow> SgenGrayQueue \<Rightarrow> gray_store \<Rightarrow> (SgenGrayQueue \<times> gray_store) option" where
  "sgen_gray_object_enqueue obj desc queue st =
    (let entry = \<lparr>ge_obj = obj, ge_desc = desc\<rparr> in
     do {
       (queue, st) \<leftarrow>
         (if first_section_full queue then
            do {
              st \<leftarrow> (if gq_first queue \<noteq> None
                     then upd_section_opt (gq_first queue) (\<lambda>s. s\<lparr>sec_size := int SGEN_GRAY_QUEUE_SECTION_SIZE\<rparr>) st
                     else Some st);
              sgen_gray_object_alloc_queue_section queue st }
          else Some (queue, st));
       push_cursor entry queue st })"

text \<open>The entry of an empty queue has a null object (its descriptor is not set).\<close>

definition sgen_gray_object_dequeue ::
    "bool \<Rightarrow> SgenGrayQueue \<Rightarrow> gray_store \<Rightarrow> (GrayQueueEntry option \<times> SgenGrayQueue \<times> gray_store) option" where
  "sgen_gray_object_dequeue is_parallel queue st =
    (if sgen_gray_object_queue_is_empty queue then Some (None, queue, st)
     else
       do {
         (a, i) \<leftarrow> gq_cursor queue;
         entry \<leftarrow> read_entry (a, i) st;
         let queue = queue\<lparr>gq_cursor := Some (a, i - 1)\<rparr>;
         section \<leftarrow> gq_first queue;
         if a = section \<and> i - 1 < snd (GRAY_FIRST_CURSOR_POSITION section) then
           do {
             let queue = queue\<lparr>gq_num_sections := gq_num_sections queue - 1\<rparr>;
             let old_num_sections = (if is_parallel then gq_num_sections queue else 0);
             s \<leftarrow> gs_sections st section;
             let queue = queue\<lparr>gq_first := sec_next s\<rparr>;
             (queue, st) \<leftarrow>
               (case gq_first queue of
                  Some f \<Rightarrow> do { st \<leftarrow> upd_section f (\<lambda>s. s\<lparr>sec_prev := None\<rparr>) st; Some (queue, st) }
                | None \<Rightarrow>
                    if old_num_sections = 0 then Some (queue\<lparr>gq_last := None\<rparr>, st) else None);
             st \<leftarrow> upd_section section (\<lambda>s. s\<lparr>sec_next := gq_free_list queue\<rparr>) st;
             cursor \<leftarrow> top_cursor (gq_first queue) st;
             Some (Some entry, queue\<lparr>gq_free_list := Some section, gq_cursor := cursor\<rparr>, st) }
         else Some (Some entry, queue, st) })"

definition sgen_gray_object_dequeue_section ::
    "SgenGrayQueue \<Rightarrow> gray_store \<Rightarrow> (nat option \<times> SgenGrayQueue \<times> gray_store) option" where
  "sgen_gray_object_dequeue_section queue st =
    (case gq_first queue of
       None \<Rightarrow> Some (None, queue, st)
     | Some section \<Rightarrow>
         do {
           let queue = queue\<lparr>gq_num_sections := gq_num_sections queue - 1\<rparr>;
           s \<leftarrow> gs_sections st section;
           let queue = queue\<lparr>gq_first := sec_next s\<rparr>;
           (queue, st) \<leftarrow>
             (case gq_first queue of
                Some f \<Rightarrow> do { st \<leftarrow> upd_section f (\<lambda>s. s\<lparr>sec_prev := None\<rparr>) st; Some (queue, st) }
              | None \<Rightarrow> Some (queue\<lparr>gq_last := None\<rparr>, st));
           i \<leftarrow> cursor_index section queue;
           st \<leftarrow> upd_section section (\<lambda>s. s\<lparr>sec_next := None, sec_size := i + 1\<rparr>) st;
           cursor \<leftarrow> top_cursor (gq_first queue) st;
           Some (Some section, queue\<lparr>gq_cursor := cursor\<rparr>, st) })"

definition sgen_gray_object_steal_section ::
    "SgenGrayQueue \<Rightarrow> gray_store \<Rightarrow> (nat option \<times> SgenGrayQueue \<times> gray_store) option" where
  "sgen_gray_object_steal_section queue st =
    (if gq_num_sections queue \<le> 1 then Some (None, queue, st)
     else if gq_steal_mutex queue then Some (None, queue, st)
     else
       let sections_remaining = gq_num_sections queue - 1 in
       if sections_remaining \<le> 0 then Some (None, queue, st)
       else
         do {
           let queue = queue\<lparr>gq_num_sections := sections_remaining\<rparr>;
           section \<leftarrow> gq_last queue;
           s \<leftarrow> gs_sections st section;
           if sec_next s \<noteq> None then None
           else do {
             let queue = queue\<lparr>gq_last := sec_prev s\<rparr>;
             st \<leftarrow> upd_section section (\<lambda>s. s\<lparr>sec_prev := None\<rparr>) st;
             st \<leftarrow> upd_section_opt (gq_last queue) (\<lambda>s. s\<lparr>sec_next := None\<rparr>) st;
             Some (Some section, queue, st) } })"

definition sgen_gray_object_enqueue_section ::
    "nat \<Rightarrow> SgenGrayQueue \<Rightarrow> gray_store \<Rightarrow> (SgenGrayQueue \<times> gray_store) option" where
  "sgen_gray_object_enqueue_section section queue st =
    do {
      st \<leftarrow> (case gq_first queue of
               Some f \<Rightarrow> do { i \<leftarrow> cursor_index f queue; upd_section f (\<lambda>s. s\<lparr>sec_size := i + 1\<rparr>) st }
             | None \<Rightarrow> Some st);
      st \<leftarrow> upd_section section (\<lambda>s. s\<lparr>sec_next := gq_first queue, sec_prev := None\<rparr>) st;
      (queue, st) \<leftarrow>
        (case gq_first queue of
           Some f \<Rightarrow> do { st \<leftarrow> upd_section f (\<lambda>s. s\<lparr>sec_prev := Some section\<rparr>) st; Some (queue, st) }
         | None \<Rightarrow> Some (queue\<lparr>gq_last := Some section\<rparr>, st));
      cursor \<leftarrow> top_cursor (Some section) st;
      Some (queue\<lparr>gq_first := Some section, gq_cursor := cursor,
              gq_num_sections := gq_num_sections queue + 1\<rparr>, st) }"

text \<open>The inline fast paths of the header; \<open>obj\<close> is null when there is no entry.\<close>

definition GRAY_OBJECT_ENQUEUE ::
    "u64 \<Rightarrow> u64 \<Rightarrow> SgenGrayQueue \<Rightarrow> gray_store \<Rightarrow> (SgenGrayQueue \<times> gray_store) option" where
  "GRAY_OBJECT_ENQUEUE obj desc queue st =
    (if first_section_full queue then sgen_gray_object_enqueue obj desc queue st
     else push_cursor \<lparr>ge_obj = obj, ge_desc = desc\<rparr> queue st)"

definition GRAY_OBJECT_DEQUEUE ::
    "bool \<Rightarrow> SgenGrayQueue \<Rightarrow> gray_store \<Rightarrow> (GrayQueueEntry option \<times> SgenGrayQueue \<times> gray_store) option" where
  "GRAY_OBJECT_DEQUEUE is_parallel queue st =
    (case gq_first queue of
       None \<Rightarrow> Some (None, queue, st)
     | Some f \<Rightarrow>
         if gq_cursor queue = Some (GRAY_FIRST_CURSOR_POSITION f)
         then sgen_gray_object_dequeue is_parallel queue st
         else do {
           (a, i) \<leftarrow> gq_cursor queue;
           entry \<leftarrow> read_entry (a, i) st;
           Some (Some entry, queue\<lparr>gq_cursor := Some (a, i - 1)\<rparr>, st) })"

text \<open>
  \<open>sgen_gray_object_spread\<close>: the count over the sections behind the first, the allocation of
  the missing sections, and the two loops that move entries from the end to the start.
\<close>

partial_function (option) count_entries :: "gray_store \<Rightarrow> nat option \<Rightarrow> int \<Rightarrow> int option" where
  "count_entries st section_start total_entries =
    (case section_start of
       None \<Rightarrow> Some total_entries
     | Some a \<Rightarrow>
         do {
           s \<leftarrow> gs_sections st a;
           if sec_size s \<noteq> int SGEN_GRAY_QUEUE_SECTION_SIZE then None
           else count_entries st (sec_next s) (total_entries + sec_size s) })"

declare count_entries.simps [code]

partial_function (option) alloc_sections ::
    "int \<Rightarrow> SgenGrayQueue \<Rightarrow> gray_store \<Rightarrow> (SgenGrayQueue \<times> gray_store) option" where
  "alloc_sections num_sections_final queue st =
    (if gq_num_sections queue < num_sections_final then
       do {
         (queue, st) \<leftarrow> sgen_gray_object_alloc_queue_section queue st;
         alloc_sections num_sections_final queue st }
     else Some (queue, st))"

declare alloc_sections.simps [code]

partial_function (option) fill_section ::
    "int \<Rightarrow> nat \<Rightarrow> nat \<Rightarrow> gray_store \<Rightarrow> (nat \<times> gray_store) option" where
  "fill_section num_entries_per_section section_start section_end st =
    do {
      s \<leftarrow> gs_sections st section_start;
      if sec_size s < num_entries_per_section then
        do {
          e \<leftarrow> gs_sections st section_end;
          section_end \<leftarrow> (if sec_size e \<le> num_entries_per_section then sec_prev e else Some section_end);
          e \<leftarrow> gs_sections st section_end;
          if section_end = section_start \<or> sec_size e \<le> num_entries_per_section then Some (section_end, st)
          else
            do {
              st \<leftarrow> upd_section section_end (\<lambda>e. e\<lparr>sec_size := sec_size e - 1\<rparr>) st;
              e \<leftarrow> gs_sections st section_end;
              entry \<leftarrow> read_entry (section_end, sec_size e) st;
              st \<leftarrow> write_entry (section_start, sec_size s) entry st;
              st \<leftarrow> upd_section section_start (\<lambda>s. s\<lparr>sec_size := sec_size s + 1\<rparr>) st;
              fill_section num_entries_per_section section_start section_end st } }
      else Some (section_end, st) }"

declare fill_section.simps [code]

partial_function (option) spread_entries ::
    "int \<Rightarrow> nat option \<Rightarrow> nat \<Rightarrow> gray_store \<Rightarrow> gray_store option" where
  "spread_entries num_entries_per_section section_start section_end st =
    (if section_start \<noteq> Some section_end then
       do {
         start \<leftarrow> section_start;
         (section_end, st) \<leftarrow> fill_section num_entries_per_section start section_end st;
         s \<leftarrow> gs_sections st start;
         spread_entries num_entries_per_section (sec_next s) section_end st }
     else Some st)"

declare spread_entries.simps [code]

definition sgen_gray_object_spread ::
    "int \<Rightarrow> SgenGrayQueue \<Rightarrow> gray_store \<Rightarrow> (SgenGrayQueue \<times> gray_store) option" where
  "sgen_gray_object_spread num_sections queue st =
    (if gq_num_sections queue \<ge> num_sections then Some (queue, st)
     else
       case gq_first queue of
         None \<Rightarrow> Some (queue, st)
       | Some f \<Rightarrow>
           do {
             i \<leftarrow> cursor_index f queue;
             st \<leftarrow> upd_section f (\<lambda>s. s\<lparr>sec_size := i + 1\<rparr>) st;
             s \<leftarrow> gs_sections st f;
             total_entries \<leftarrow> count_entries st (sec_next s) (sec_size s);
             let num_sections_final = (if total_entries > num_sections then num_sections else total_entries);
             if num_sections_final = 0 then None
             else do {
               let num_entries_per_section = total_entries div num_sections_final;
               (queue, st) \<leftarrow> alloc_sections num_sections_final queue st;
               section_end \<leftarrow> gq_last queue;
               st \<leftarrow> spread_entries num_entries_per_section (gq_first queue) section_end st;
               cursor \<leftarrow> top_cursor (gq_first queue) st;
               Some (queue\<lparr>gq_cursor := cursor, gq_num_sections := num_sections_final\<rparr>, st) } })"

text \<open>The free list: keep its first sections, free the others.\<close>

fun trim_skip :: "nat \<Rightarrow> nat option \<Rightarrow> gray_store \<Rightarrow> nat option option" where
  "trim_skip 0 section st = Some section"
| "trim_skip (Suc n) section st =
    (case section of
       None \<Rightarrow> Some None
     | Some a \<Rightarrow> do { s \<leftarrow> gs_sections st a; trim_skip n (sec_next s) st })"

partial_function (option) trim_free :: "nat \<Rightarrow> gray_store \<Rightarrow> gray_store option" where
  "trim_free section st =
    do {
      s \<leftarrow> gs_sections st section;
      case sec_next s of
        None \<Rightarrow> Some st
      | Some next' \<Rightarrow>
          do {
            n \<leftarrow> gs_sections st next';
            st \<leftarrow> upd_section section (\<lambda>s. s\<lparr>sec_next := sec_next n\<rparr>) st;
            trim_free section (sgen_gray_object_free_queue_section next' st) } }"

declare trim_free.simps [code]

definition sgen_gray_object_queue_trim_free_list :: "SgenGrayQueue \<Rightarrow> gray_store \<Rightarrow> gray_store option" where
  "sgen_gray_object_queue_trim_free_list queue st =
    do {
      section \<leftarrow> trim_skip (GRAY_QUEUE_LENGTH_LIMIT - 1) (gq_free_list queue) st;
      case section of None \<Rightarrow> Some st | Some a \<Rightarrow> trim_free a st }"

definition empty_gray_queue :: SgenGrayQueue where
  "empty_gray_queue = \<lparr>gq_cursor = None, gq_first = None, gq_last = None, gq_free_list = None,
    gq_steal_mutex = False, gq_num_sections = 0\<rparr>"

definition sgen_gray_object_queue_init :: "bool \<Rightarrow> gray_store \<Rightarrow> SgenGrayQueue \<times> gray_store" where
  "sgen_gray_object_queue_init reuse_free_list st =
    (if reuse_free_list
     then (empty_gray_queue\<lparr>gq_free_list := gs_last_free_list st\<rparr>, st\<lparr>gs_last_free_list := None\<rparr>)
     else (empty_gray_queue, st))"

definition sgen_gray_object_queue_dispose ::
    "SgenGrayQueue \<Rightarrow> gray_store \<Rightarrow> (SgenGrayQueue \<times> gray_store) option" where
  "sgen_gray_object_queue_dispose queue st =
    (if \<not> sgen_gray_object_queue_is_empty queue then None
     else do {
       st \<leftarrow> sgen_gray_object_queue_trim_free_list queue st;
       if gs_last_free_list st \<noteq> None then None
       else Some (empty_gray_queue, st\<lparr>gs_last_free_list := gq_free_list queue\<rparr>) })"

partial_function (option) sgen_gray_object_queue_deinit ::
    "SgenGrayQueue \<Rightarrow> gray_store \<Rightarrow> (SgenGrayQueue \<times> gray_store) option" where
  "sgen_gray_object_queue_deinit queue st =
    (if gq_first queue \<noteq> None then None
     else
       case gq_free_list queue of
         None \<Rightarrow> Some (queue, st)
       | Some a \<Rightarrow>
           do {
             s \<leftarrow> gs_sections st a;
             sgen_gray_object_queue_deinit (queue\<lparr>gq_free_list := sec_next s\<rparr>)
               (sgen_gray_object_free_queue_section a st) })"

declare sgen_gray_object_queue_deinit.simps [code]

text \<open>
  The queues of whole sections that the workers share. \<open>locked\<close> says that the queue has a
  lock; it is taken and released inside every operation, so it leaves no trace in the state.
\<close>

record SgenSectionGrayQueue =
  sq_first :: "nat option"
  sq_locked :: bool

definition sgen_section_gray_queue_is_empty :: "SgenSectionGrayQueue \<Rightarrow> bool" where
  "sgen_section_gray_queue_is_empty queue \<longleftrightarrow> sq_first queue = None"

definition sgen_section_gray_queue_init :: "bool \<Rightarrow> SgenSectionGrayQueue \<Rightarrow> SgenSectionGrayQueue option" where
  "sgen_section_gray_queue_init locked queue =
    (if sgen_section_gray_queue_is_empty queue then Some (queue\<lparr>sq_locked := locked\<rparr>) else None)"

definition sgen_section_gray_queue_dequeue ::
    "SgenSectionGrayQueue \<Rightarrow> gray_store \<Rightarrow> (nat option \<times> SgenSectionGrayQueue \<times> gray_store) option" where
  "sgen_section_gray_queue_dequeue queue st =
    (case sq_first queue of
       None \<Rightarrow> Some (None, queue, st)
     | Some section \<Rightarrow>
         do {
           s \<leftarrow> gs_sections st section;
           let queue = queue\<lparr>sq_first := sec_next s\<rparr>;
           st \<leftarrow> upd_section section (\<lambda>s. s\<lparr>sec_next := None\<rparr>) st;
           Some (Some section, queue, st) })"

definition sgen_section_gray_queue_enqueue ::
    "nat \<Rightarrow> SgenSectionGrayQueue \<Rightarrow> gray_store \<Rightarrow> (SgenSectionGrayQueue \<times> gray_store) option" where
  "sgen_section_gray_queue_enqueue section queue st =
    do {
      st \<leftarrow> upd_section section (\<lambda>s. s\<lparr>sec_next := sq_first queue\<rparr>) st;
      Some (queue\<lparr>sq_first := Some section\<rparr>, st) }"

section \<open>The queue as a stack\<close>

type_synonym section_map = "nat \<Rightarrow> GrayQueueSection option"

fun linked :: "section_map \<Rightarrow> nat option \<Rightarrow> nat list \<Rightarrow> bool" where
  "linked h p [] \<longleftrightarrow> p = None"
| "linked h p (a # as) \<longleftrightarrow> p = Some a \<and> (case h a of None \<Rightarrow> False | Some s \<Rightarrow> linked h (sec_next s) as)"

fun back_linked :: "section_map \<Rightarrow> nat option \<Rightarrow> nat list \<Rightarrow> bool" where
  "back_linked h p [] \<longleftrightarrow> True"
| "back_linked h p (a # as) \<longleftrightarrow> (case h a of None \<Rightarrow> False | Some s \<Rightarrow> sec_prev s = p \<and> back_linked h (Some a) as)"

definition sec_list :: "section_map \<Rightarrow> nat \<Rightarrow> int \<Rightarrow> GrayQueueEntry list" where
  "sec_list h a n = (case h a of None \<Rightarrow> [] | Some s \<Rightarrow> rev (take (nat n) (sec_entries s)))"

definition sized_list :: "section_map \<Rightarrow> nat \<Rightarrow> GrayQueueEntry list" where
  "sized_list h a = (case h a of None \<Rightarrow> [] | Some s \<Rightarrow> sec_list h a (sec_size s))"

text \<open>Every section of the list is allocated and has room for all its entries.\<close>

definition secs_ok :: "section_map \<Rightarrow> nat list \<Rightarrow> bool" where
  "secs_ok h as \<longleftrightarrow> (\<forall>a\<in>set as. case h a of None \<Rightarrow> False
     | Some s \<Rightarrow> length (sec_entries s) = SGEN_GRAY_QUEUE_SECTION_SIZE)"

definition sizes_ok :: "section_map \<Rightarrow> nat list \<Rightarrow> bool" where
  "sizes_ok h as \<longleftrightarrow> (\<forall>a\<in>set as. case h a of None \<Rightarrow> False
     | Some s \<Rightarrow> 0 < sec_size s \<and> sec_size s \<le> int SGEN_GRAY_QUEUE_SECTION_SIZE)"

definition gq_base :: "gray_store \<Rightarrow> SgenGrayQueue \<Rightarrow> nat list \<Rightarrow> nat list \<Rightarrow> bool" where
  "gq_base st q secs fl \<longleftrightarrow>
    linked (gs_sections st) (gq_first q) secs \<and> back_linked (gs_sections st) None secs \<and>
    linked (gs_sections st) (gq_free_list q) fl \<and> distinct (secs @ fl) \<and>
    secs_ok (gs_sections st) (secs @ fl) \<and> (\<forall>a\<in>set (secs @ fl). a < gs_next st) \<and>
    gq_last q = (if secs = [] then None else Some (last secs)) \<and>
    gq_num_sections q = int (length secs)"

definition gq_rep :: "gray_store \<Rightarrow> SgenGrayQueue \<Rightarrow> nat list \<Rightarrow> nat list \<Rightarrow> int \<Rightarrow> bool" where
  "gq_rep st q secs fl c \<longleftrightarrow>
    gq_base st q secs fl \<and> sizes_ok (gs_sections st) (tl secs) \<and>
    (case secs of [] \<Rightarrow> True
     | f # _ \<Rightarrow> gq_cursor q = Some (f, c) \<and> 0 \<le> c \<and> c < int SGEN_GRAY_QUEUE_SECTION_SIZE)"

definition gq_stack :: "gray_store \<Rightarrow> nat list \<Rightarrow> int \<Rightarrow> GrayQueueEntry list" where
  "gq_stack st secs c =
    (case secs of [] \<Rightarrow> []
     | f # rest \<Rightarrow> sec_list (gs_sections st) f (c + 1) @ concat (map (sized_list (gs_sections st)) rest))"

lemma gq_rep_Cons:
  assumes "gq_rep st q (f # rest) fl c"
  obtains s where "gq_first q = Some f" "gs_sections st f = Some s" "linked (gs_sections st) (sec_next s) rest"
    "sec_prev s = None" "back_linked (gs_sections st) (Some f) rest"
    "length (sec_entries s) = SGEN_GRAY_QUEUE_SECTION_SIZE" "gq_cursor q = Some (f, c)" "0 \<le> c"
    "c < int SGEN_GRAY_QUEUE_SECTION_SIZE"
  using assms by (cases "gs_sections st f") (auto simp: gq_rep_def gq_base_def secs_ok_def)

lemma gq_rep_first_None: "gq_rep st q secs fl c \<Longrightarrow> gq_first q = None \<longleftrightarrow> secs = []"
  by (cases secs) (auto simp: gq_rep_def gq_base_def)

subsection \<open>Frames\<close>

lemma linked_frame: "a \<notin> set as \<Longrightarrow> linked (h(a := x)) p as = linked h p as"
  by (induction as arbitrary: p) (auto split: option.split)

lemma back_linked_frame: "a \<notin> set as \<Longrightarrow> back_linked (h(a := x)) p as = back_linked h p as"
  by (induction as arbitrary: p) (auto split: option.split)

lemma linked_next: "h a = Some s \<Longrightarrow> sec_next s' = sec_next s \<Longrightarrow> linked (h(a := Some s')) p as = linked h p as"
  by (induction as arbitrary: p) (auto split: option.split)

lemma back_linked_prev: "h a = Some s \<Longrightarrow> sec_prev s' = sec_prev s \<Longrightarrow> back_linked (h(a := Some s')) p as = back_linked h p as"
  by (induction as arbitrary: p) (auto split: option.split)

lemma secs_ok_upd:
  "h a = Some s \<Longrightarrow> length (sec_entries s') = length (sec_entries s) \<Longrightarrow> secs_ok (h(a := Some s')) as = secs_ok h as"
  unfolding secs_ok_def by (intro ball_cong refl) simp

lemma sizes_ok_frame: "a \<notin> set as \<Longrightarrow> sizes_ok (h(a := x)) as = sizes_ok h as"
  by (auto simp: sizes_ok_def)

lemma concat_sized_frame: "a \<notin> set as \<Longrightarrow>
  concat (map (sized_list (h(a := x))) as) = concat (map (sized_list h) as)"
  by (intro arg_cong [of _ _ concat] map_cong refl) (auto simp: sized_list_def sec_list_def split: option.split)

lemma secs_ok_append [simp]: "secs_ok h (as @ bs) \<longleftrightarrow> secs_ok h as \<and> secs_ok h bs"
  by (auto simp: secs_ok_def)

lemma secs_ok_Cons [simp]: "secs_ok h (a # as) \<longleftrightarrow>
  (\<exists>s. h a = Some s \<and> length (sec_entries s) = SGEN_GRAY_QUEUE_SECTION_SIZE) \<and> secs_ok h as"
  by (auto simp: secs_ok_def split: option.split)

lemma upd_section_Some: "gs_sections st a = Some s \<Longrightarrow>
  upd_section a f st = Some (st\<lparr>gs_sections := (gs_sections st)(a := Some (f s))\<rparr>)"
  by (simp add: upd_section_def)

subsection \<open>Pushing into the first section\<close>

lemma push_cursor_rep:
  assumes s: "gs_sections st f = Some s" "length (sec_entries s) = SGEN_GRAY_QUEUE_SECTION_SIZE"
    and c: "gq_cursor q = Some (f, c)" "-1 \<le> c" "c + 1 < int SGEN_GRAY_QUEUE_SECTION_SIZE"
  obtains st' s' where "push_cursor e q st = Some (q\<lparr>gq_cursor := Some (f, c + 1)\<rparr>, st')"
    "gs_sections st' = (gs_sections st)(f := Some s')" "gs_next st' = gs_next st"
    "sec_next s' = sec_next s" "sec_prev s' = sec_prev s" "sec_size s' = sec_size s"
    "length (sec_entries s') = length (sec_entries s)"
    "sec_list (gs_sections st') f (c + 1 + 1) = e # sec_list (gs_sections st) f (c + 1)"
proof -
  let ?s' = "s\<lparr>sec_entries := (sec_entries s)[nat (c + 1) := e]\<rparr>"
  let ?st' = "st\<lparr>gs_sections := (gs_sections st)(f := Some ?s')\<rparr>"
  have "push_cursor e q st = Some (q\<lparr>gq_cursor := Some (f, c + 1)\<rparr>, ?st')"
    using assms by (simp add: push_cursor_def write_entry_def upd_section_Some)
  moreover have "nat (c + 1 + 1) = Suc (nat (c + 1))" using c(2) by simp
  then have "sec_list (gs_sections ?st') f (c + 1 + 1) = e # sec_list (gs_sections st) f (c + 1)"
    using assms by (simp add: sec_list_def take_Suc_conv_app_nth nat_less_iff)
  ultimately show thesis by (intro that [of ?st' ?s']) simp_all
qed

lemma rep_push:
  assumes rep: "gq_rep st q (f # rest) fl c" and nf: "c + 1 < int SGEN_GRAY_QUEUE_SECTION_SIZE"
  obtains q' st' where "push_cursor e q st = Some (q', st')" "gq_rep st' q' (f # rest) fl (c + 1)"
    "gq_stack st' (f # rest) (c + 1) = e # gq_stack st (f # rest) c"
proof -
  obtain s where s: "gq_first q = Some f" "gs_sections st f = Some s" "linked (gs_sections st) (sec_next s) rest"
    "sec_prev s = None" "back_linked (gs_sections st) (Some f) rest"
    "length (sec_entries s) = SGEN_GRAY_QUEUE_SECTION_SIZE" "gq_cursor q = Some (f, c)" "0 \<le> c"
    "c < int SGEN_GRAY_QUEUE_SECTION_SIZE" by (rule gq_rep_Cons [OF rep])
  have "-1 \<le> c" using s(8) by simp
  from push_cursor_rep [OF s(2,6,7) this nf, of e] obtain st' s' where
    p: "push_cursor e q st = Some (q\<lparr>gq_cursor := Some (f, c + 1)\<rparr>, st')"
      "gs_sections st' = (gs_sections st)(f := Some s')" "gs_next st' = gs_next st"
      "sec_next s' = sec_next s" "sec_prev s' = sec_prev s" "sec_size s' = sec_size s"
      "length (sec_entries s') = length (sec_entries s)"
      "sec_list (gs_sections st') f (c + 1 + 1) = e # sec_list (gs_sections st) f (c + 1)" .
  have d: "f \<notin> set rest" using rep by (simp add: gq_rep_def gq_base_def)
  have "gq_rep st' (q\<lparr>gq_cursor := Some (f, c + 1)\<rparr>) (f # rest) fl (c + 1)"
    using rep p(2-7) s nf d
    by (simp add: gq_rep_def gq_base_def linked_next [where h = "gs_sections st", OF s(2)]
        back_linked_prev [where h = "gs_sections st", OF s(2)] secs_ok_upd [where h = "gs_sections st", OF s(2)]
        sizes_ok_frame linked_frame back_linked_frame del: secs_ok_Cons secs_ok_append)
  moreover have "gq_stack st' (f # rest) (c + 1) = e # gq_stack st (f # rest) c"
    using p(8) concat_sized_frame [OF d, of "gs_sections st" "Some s'"] by (simp add: gq_stack_def p(2))
  ultimately show thesis using p(1) by (intro that)
qed

subsection \<open>A fresh or recycled section in front\<close>

definition contents :: "section_map \<Rightarrow> nat \<Rightarrow> (int \<times> GrayQueueEntry list) option" where
  "contents h a = map_option (\<lambda>s. (sec_size s, sec_entries s)) (h a)"

lemma sized_list_contents: "\<forall>a\<in>set as. contents h' a = contents h a \<Longrightarrow>
  concat (map (sized_list h') as) = concat (map (sized_list h) as)"
  by (intro arg_cong [of _ _ concat] map_cong refl)
    (auto simp: contents_def sized_list_def sec_list_def split: option.splits)

lemma sizes_ok_contents: "\<forall>a\<in>set as. contents h' a = contents h a \<Longrightarrow> sizes_ok h' as = sizes_ok h as"
  unfolding sizes_ok_def by (intro ball_cong refl) (auto simp: contents_def split: option.splits)

lemma alloc_section_rep:
  assumes b: "gq_base st q secs fl"
  obtains q' st' a fl' s where "sgen_gray_object_alloc_queue_section q st = Some (q', st')"
    "gq_base st' q' (a # secs) fl'" "gq_cursor q' = Some (a, -1)" "a \<notin> set secs"
    "gs_sections st' a = Some s" "length (sec_entries s) = SGEN_GRAY_QUEUE_SECTION_SIZE"
    "\<forall>x\<in>set secs. contents (gs_sections st') x = contents (gs_sections st) x"
proof -
  note base = b [unfolded gq_base_def]
  have "\<exists>a q1 st1 fl' s. (case gq_free_list q of
           Some a \<Rightarrow> do { s \<leftarrow> gs_sections st a; Some (a, q\<lparr>gq_free_list := sec_next s\<rparr>, st) }
         | None \<Rightarrow>
             Some (gs_next st, q,
               st\<lparr>gs_sections := (gs_sections st)(gs_next st := Some new_section), gs_next := gs_next st + 1\<rparr>)) =
      Some (a, q1, st1) \<and> gq_base st1 q1 secs fl' \<and> gs_sections st1 a = Some s \<and>
      length (sec_entries s) = SGEN_GRAY_QUEUE_SECTION_SIZE \<and> a \<notin> set secs \<and> a \<notin> set fl' \<and> a < gs_next st1 \<and>
      (\<forall>x\<in>set secs. contents (gs_sections st1) x = contents (gs_sections st) x)"
  proof (cases fl)
    case Nil
    let ?a = "gs_next st"
    have "?a \<notin> set secs" using base by auto
    then show ?thesis using base Nil
      by (intro exI [of _ ?a] exI [of _ q] exI [of _ "[]"] exI conjI)
        (auto simp: gq_base_def linked_frame back_linked_frame secs_ok_def new_section_def contents_def)
  next
    case (Cons a fl')
    then obtain s where "gs_sections st a = Some s" "gq_free_list q = Some a" "linked (gs_sections st) (sec_next s) fl'"
      using base by (auto split: option.splits)
    then show ?thesis using base Cons by (auto simp: gq_base_def)
  qed
  then obtain a q1 st1 fl' s where
    1: "(case gq_free_list q of
           Some a \<Rightarrow> do { s \<leftarrow> gs_sections st a; Some (a, q\<lparr>gq_free_list := sec_next s\<rparr>, st) }
         | None \<Rightarrow>
             Some (gs_next st, q,
               st\<lparr>gs_sections := (gs_sections st)(gs_next st := Some new_section), gs_next := gs_next st + 1\<rparr>)) =
      Some (a, q1, st1)" and b1: "gq_base st1 q1 secs fl'" and a: "gs_sections st1 a = Some s"
      "length (sec_entries s) = SGEN_GRAY_QUEUE_SECTION_SIZE" "a \<notin> set secs" "a \<notin> set fl'" "a < gs_next st1"
    and c: "\<forall>x\<in>set secs. contents (gs_sections st1) x = contents (gs_sections st) x"
    by blast
  note base1 = b1 [unfolded gq_base_def]
  show thesis
  proof (cases secs)
    case Nil
    let ?q = "q1\<lparr>gq_first := Some a, gq_last := Some a, gq_cursor := Some (a, -1),
      gq_num_sections := gq_num_sections q1 + 1\<rparr>"
    let ?s = "s\<lparr>sec_size := 0, sec_next := None, sec_prev := None\<rparr>"
    let ?st = "st1\<lparr>gs_sections := (gs_sections st1)(a := Some ?s)\<rparr>"
    have "sgen_gray_object_alloc_queue_section q st = Some (?q, ?st)"
      unfolding sgen_gray_object_alloc_queue_section_def 1
      using base1 Nil a by (simp add: upd_section_Some)
    moreover have "gq_base ?st ?q (a # secs) fl'"
      using base1 Nil a by (simp add: gq_base_def linked_frame secs_ok_upd [where h = "gs_sections st1", OF a(1)])
    ultimately show thesis using Nil a by (intro that [of ?q ?st a fl' ?s]) simp_all
  next
    case (Cons f rest)
    then obtain sf where f: "gs_sections st1 f = Some sf" "gq_first q1 = Some f" "f \<noteq> a" "f \<notin> set rest" "f \<notin> set fl'"
      using base1 a(3) by (auto split: option.splits)
    let ?q = "q1\<lparr>gq_first := Some a, gq_cursor := Some (a, -1), gq_num_sections := gq_num_sections q1 + 1\<rparr>"
    let ?s = "s\<lparr>sec_size := 0, sec_next := Some f, sec_prev := None\<rparr>"
    let ?h = "(gs_sections st1)(a := Some ?s, f := Some (sf\<lparr>sec_prev := Some a\<rparr>))"
    let ?st = "st1\<lparr>gs_sections := ?h\<rparr>"
    have "sgen_gray_object_alloc_queue_section q st = Some (?q, ?st)"
      unfolding sgen_gray_object_alloc_queue_section_def 1
      using base1 Cons a f by (simp add: upd_section_Some)
    moreover have "gq_base ?st ?q (a # secs) fl'"
      using base1 Cons a f by (auto simp: gq_base_def linked_frame back_linked_frame secs_ok_def)
    moreover have "\<forall>x\<in>set secs. contents ?h x = contents (gs_sections st) x"
      using c Cons a f by (auto simp: contents_def)
    ultimately show thesis using Cons a f by (intro that [of ?q ?st a fl' ?s]) simp_all
  qed
qed

lemma full_section_contents:
  assumes "gs_sections st f = Some s" "f \<notin> set rest"
  shows "\<forall>x\<in>set rest. contents ((gs_sections st)(f := Some s')) x = contents (gs_sections st) x"
  using assms by (auto simp: contents_def)

lemma enqueue_rep:
  assumes rep: "gq_rep st q secs fl c"
  shows "\<exists>q' st' secs' fl' c'. sgen_gray_object_enqueue obj desc q st = Some (q', st') \<and>
    gq_rep st' q' secs' fl' c' \<and> gq_stack st' secs' c' = \<lparr>ge_obj = obj, ge_desc = desc\<rparr> # gq_stack st secs c"
proof (cases "first_section_full q")
  case False
  then obtain f rest where s: "secs = f # rest"
    using rep by (cases secs) (auto simp: first_section_full_def gq_rep_def gq_base_def)
  with False rep have "c + 1 < int SGEN_GRAY_QUEUE_SECTION_SIZE"
    by (auto simp: first_section_full_def gq_rep_def gq_base_def GRAY_LAST_CURSOR_POSITION_def)
  from rep_push [OF rep [unfolded s] this, of "\<lparr>ge_obj = obj, ge_desc = desc\<rparr>"] obtain q' st' where
    "push_cursor \<lparr>ge_obj = obj, ge_desc = desc\<rparr> q st = Some (q', st')" "gq_rep st' q' (f # rest) fl (c + 1)"
    "gq_stack st' (f # rest) (c + 1) = \<lparr>ge_obj = obj, ge_desc = desc\<rparr> # gq_stack st (f # rest) c" .
  then show ?thesis using False s by (auto simp: sgen_gray_object_enqueue_def)
next
  case True
  let ?e = "\<lparr>ge_obj = obj, ge_desc = desc\<rparr>"
  have "\<exists>st1. (if gq_first q \<noteq> None
                     then upd_section_opt (gq_first q) (\<lambda>s. s\<lparr>sec_size := int SGEN_GRAY_QUEUE_SECTION_SIZE\<rparr>) st
                     else Some st) = Some st1 \<and> gq_base st1 q secs fl \<and> sizes_ok (gs_sections st1) secs \<and>
      concat (map (sized_list (gs_sections st1)) secs) = gq_stack st secs c"
  proof (cases secs)
    case Nil
    then show ?thesis using rep by (auto simp: gq_rep_def gq_base_def sizes_ok_def gq_stack_def)
  next
    case (Cons f rest)
    obtain s where s: "gq_first q = Some f" "gs_sections st f = Some s" "linked (gs_sections st) (sec_next s) rest"
      "sec_prev s = None" "back_linked (gs_sections st) (Some f) rest"
      "length (sec_entries s) = SGEN_GRAY_QUEUE_SECTION_SIZE" "gq_cursor q = Some (f, c)" "0 \<le> c"
      "c < int SGEN_GRAY_QUEUE_SECTION_SIZE" by (rule gq_rep_Cons [OF rep [unfolded Cons]])
    have c: "c + 1 = int SGEN_GRAY_QUEUE_SECTION_SIZE"
      using True s by (simp add: first_section_full_def GRAY_LAST_CURSOR_POSITION_def)
    have d: "f \<notin> set rest" using rep Cons by (simp add: gq_rep_def gq_base_def)
    let ?s = "s\<lparr>sec_size := int SGEN_GRAY_QUEUE_SECTION_SIZE\<rparr>"
    let ?st = "st\<lparr>gs_sections := (gs_sections st)(f := Some ?s)\<rparr>"
    have "gq_base ?st q secs fl" using rep Cons d s
      by (simp add: gq_rep_def gq_base_def linked_next [where h = "gs_sections st", OF s(2)]
        back_linked_prev [where h = "gs_sections st", OF s(2)] secs_ok_upd [where h = "gs_sections st", OF s(2)]
        del: secs_ok_Cons secs_ok_append)
    moreover have "sizes_ok (gs_sections ?st) secs"
      using rep Cons d by (auto simp: gq_rep_def sizes_ok_def SGEN_GRAY_QUEUE_SECTION_SIZE_def)
    moreover have "concat (map (sized_list (gs_sections ?st)) secs) = gq_stack st secs c"
      using Cons d s c by (simp add: gq_stack_def concat_sized_frame)
        (simp add: sized_list_def sec_list_def)
    ultimately show ?thesis using s by (intro exI [of _ ?st]) (simp add: upd_section_opt_def upd_section_Some)
  qed
  then obtain st1 where 1: "(if gq_first q \<noteq> None
                     then upd_section_opt (gq_first q) (\<lambda>s. s\<lparr>sec_size := int SGEN_GRAY_QUEUE_SECTION_SIZE\<rparr>) st
                     else Some st) = Some st1" and b: "gq_base st1 q secs fl"
    and z: "sizes_ok (gs_sections st1) secs" and l: "concat (map (sized_list (gs_sections st1)) secs) = gq_stack st secs c"
    by blast
  from alloc_section_rep [OF b] obtain q2 st2 a fl2 s where 2: "sgen_gray_object_alloc_queue_section q st1 = Some (q2, st2)"
    "gq_base st2 q2 (a # secs) fl2" "gq_cursor q2 = Some (a, -1)" "a \<notin> set secs"
    "gs_sections st2 a = Some s" "length (sec_entries s) = SGEN_GRAY_QUEUE_SECTION_SIZE"
    "\<forall>x\<in>set secs. contents (gs_sections st2) x = contents (gs_sections st1) x" .
  have "-1 + 1 < int SGEN_GRAY_QUEUE_SECTION_SIZE" by (simp add: SGEN_GRAY_QUEUE_SECTION_SIZE_def)
  from push_cursor_rep [OF 2(5,6,3) order_refl this, of ?e] obtain st3 s3 where
    3: "push_cursor ?e q2 st2 = Some (q2\<lparr>gq_cursor := Some (a, -1 + 1)\<rparr>, st3)"
      "gs_sections st3 = (gs_sections st2)(a := Some s3)" "gs_next st3 = gs_next st2"
      "sec_next s3 = sec_next s" "sec_prev s3 = sec_prev s" "sec_size s3 = sec_size s"
      "length (sec_entries s3) = length (sec_entries s)"
      "sec_list (gs_sections st3) a (-1 + 1 + 1) = ?e # sec_list (gs_sections st2) a (-1 + 1)" .
  have "sizes_ok (gs_sections st2) secs" using z sizes_ok_contents [OF 2(7)] by simp
  then have "gq_rep st3 (q2\<lparr>gq_cursor := Some (a, 0)\<rparr>) (a # secs) fl2 0"
    using 2 3(2-7)
    by (simp add: gq_rep_def gq_base_def linked_next [where h = "gs_sections st2", OF 2(5)]
        back_linked_prev [where h = "gs_sections st2", OF 2(5)] secs_ok_upd [where h = "gs_sections st2", OF 2(5)]
        sizes_ok_frame linked_frame back_linked_frame SGEN_GRAY_QUEUE_SECTION_SIZE_def del: secs_ok_Cons secs_ok_append)
  moreover have "concat (map (sized_list (gs_sections st3)) secs) = gq_stack st secs c"
    using l sized_list_contents [OF 2(7)] 2(4) by (simp add: 3(2) concat_sized_frame)
  then have "gq_stack st3 (a # secs) 0 = ?e # gq_stack st secs c"
    using 3(8) 2(5) by (simp add: gq_stack_def sec_list_def)
  moreover have "sgen_gray_object_enqueue obj desc q st = Some (q2\<lparr>gq_cursor := Some (a, 0)\<rparr>, st3)"
    using 3(1) unfolding sgen_gray_object_enqueue_def Let_def if_P [OF True] 1 by (simp add: 2(1))
  ultimately show ?thesis by blast
qed

lemma sec_list_pop:
  assumes "h f = Some s" "length (sec_entries s) = SGEN_GRAY_QUEUE_SECTION_SIZE" "0 \<le> c"
    "c < int SGEN_GRAY_QUEUE_SECTION_SIZE"
  shows "sec_list h f (c + 1) = sec_entries s ! nat c # sec_list h f c"
proof -
  have "nat (c + 1) = Suc (nat c)" using assms(3) by simp
  then show ?thesis using assms by (simp add: sec_list_def take_Suc_conv_app_nth nat_less_iff)
qed

text \<open>The first section leaves the queue; \<open>h\<close> differs from the old store in the first section
  and in the back link of the second.\<close>

lemma unlink_first_base:
  assumes b: "gq_base st q (f # rest) fl" and s: "gs_sections st f = Some s"
    and s': "length (sec_entries s') = length (sec_entries s)"
    and h: "h = (case rest of [] \<Rightarrow> (gs_sections st)(f := Some s')
      | g # _ \<Rightarrow> (gs_sections st)(g := map_option (\<lambda>s. s\<lparr>sec_prev := None\<rparr>) (gs_sections st g), f := Some s'))"
  shows "linked h (sec_next s) rest" "back_linked h None rest" "secs_ok h (rest @ fl)"
    "length (sec_entries s') = SGEN_GRAY_QUEUE_SECTION_SIZE"
    "\<forall>x\<in>set rest. contents h x = contents (gs_sections st) x" "linked h (gq_free_list q) fl"
    "sec_next s = (case rest of [] \<Rightarrow> None | g # _ \<Rightarrow> Some g)" "h f = Some s'"
  using b s s' h
  by (cases rest; auto simp: gq_base_def linked_frame back_linked_frame secs_ok_def contents_def split: option.splits)+

lemma dequeue_last_entry:
  assumes rep: "gq_rep st q (f # rest) fl 0"
  obtains q' st' s where "gs_sections st f = Some s"
    "sgen_gray_object_dequeue is_parallel q st = Some (Some (sec_entries s ! 0), q', st')"
    "gq_rep st' q' rest (f # fl) (case rest of [] \<Rightarrow> 0 | g # _ \<Rightarrow> case gs_sections st g of Some t \<Rightarrow> sec_size t - 1)"
    "gq_stack st' rest (case rest of [] \<Rightarrow> 0 | g # _ \<Rightarrow> case gs_sections st g of Some t \<Rightarrow> sec_size t - 1) =
      concat (map (sized_list (gs_sections st)) rest)"
proof -
  obtain s where s: "gq_first q = Some f" "gs_sections st f = Some s" "linked (gs_sections st) (sec_next s) rest"
    "sec_prev s = None" "back_linked (gs_sections st) (Some f) rest"
    "length (sec_entries s) = SGEN_GRAY_QUEUE_SECTION_SIZE" "gq_cursor q = Some (f, 0)" "(0::int) \<le> 0"
    "(0::int) < int SGEN_GRAY_QUEUE_SECTION_SIZE" by (rule gq_rep_Cons [OF rep])
  have b: "gq_base st q (f # rest) fl" using rep by (simp add: gq_rep_def)
  let ?s = "s\<lparr>sec_next := gq_free_list q\<rparr>"
  have read: "read_entry (f, 0) st = Some (sec_entries s ! 0)"
    using s by (auto simp: read_entry_def SGEN_GRAY_QUEUE_SECTION_SIZE_def)
  show thesis
  proof (cases rest)
    case Nil
    let ?q = "q\<lparr>gq_num_sections := gq_num_sections q - 1, gq_first := None, gq_last := None,
      gq_free_list := Some f, gq_cursor := None\<rparr>"
    let ?st = "st\<lparr>gs_sections := (gs_sections st)(f := Some ?s)\<rparr>"
    note u = unlink_first_base [OF b s(2), of ?s "gs_sections ?st"]
    have "sgen_gray_object_dequeue is_parallel q st = Some (Some (sec_entries s ! 0), ?q, ?st)"
      using s read b Nil u(7)
      by (simp add: sgen_gray_object_dequeue_def Let_def sgen_gray_object_queue_is_empty_def GRAY_FIRST_CURSOR_POSITION_def
          upd_section_Some top_cursor_def gq_base_def)
    moreover have "gq_rep ?st ?q rest (f # fl) 0"
      using rep b s Nil u by (simp add: gq_rep_def gq_base_def linked_frame sizes_ok_frame)
    ultimately show thesis using Nil s by (intro that) (auto simp: gq_stack_def)
  next
    case (Cons g rest')
    obtain t where t: "gs_sections st g = Some t" "0 < sec_size t" "sec_size t \<le> int SGEN_GRAY_QUEUE_SECTION_SIZE"
      "sizes_ok (gs_sections st) rest'"
      using rep Cons by (auto simp: gq_rep_def sizes_ok_def split: option.splits)
    have fg: "f \<noteq> g" using b Cons by (simp add: gq_base_def)
    let ?q = "q\<lparr>gq_num_sections := gq_num_sections q - 1, gq_first := Some g,
      gq_free_list := Some f, gq_cursor := Some (g, sec_size t - 1)\<rparr>"
    let ?h = "(gs_sections st)(g := Some (t\<lparr>sec_prev := None\<rparr>), f := Some ?s)"
    let ?st = "st\<lparr>gs_sections := ?h\<rparr>"
    note u = unlink_first_base [OF b s(2), of ?s ?h]
    have deq: "sgen_gray_object_dequeue is_parallel q st = Some (Some (sec_entries s ! 0), ?q, ?st)"
      using s read b Cons u(7) t fg
      by (simp add: sgen_gray_object_dequeue_def Let_def sgen_gray_object_queue_is_empty_def GRAY_FIRST_CURSOR_POSITION_def
          upd_section_Some top_cursor_def)
    have u': "linked ?h (sec_next s) rest" "back_linked ?h None rest" "secs_ok ?h (rest @ fl)"
      "\<forall>x\<in>set rest. contents ?h x = contents (gs_sections st) x" "linked ?h (gq_free_list q) fl"
      using u Cons t by simp_all
    have sz: "sizes_ok ?h (tl rest)"
      using sizes_ok_contents [of "tl rest" ?h "gs_sections st"] u'(4) t Cons by simp
    have "gq_rep ?st ?q rest (f # fl) (sec_size t - 1)"
      using b s Cons u' u(7) t sz fg unfolding gq_rep_def gq_base_def
      by (auto simp del: secs_ok_Cons fun_upd_apply) (auto simp: secs_ok_def)
    moreover have "gq_stack ?st rest (sec_size t - 1) = concat (map (sized_list ?h) rest)"
      using Cons fg by (simp add: gq_stack_def sized_list_def sec_list_def)
    then have "gq_stack ?st rest (sec_size t - 1) = concat (map (sized_list (gs_sections st)) rest)"
      using sized_list_contents [OF u'(4)] by simp
    ultimately show thesis using Cons s t deq by (intro that) auto
  qed
qed

lemma dequeue_rep:
  assumes rep: "gq_rep st q secs fl c"
  shows "\<exists>q' st' secs' fl' c'. sgen_gray_object_dequeue is_parallel q st =
      Some (case gq_stack st secs c of [] \<Rightarrow> None | e # _ \<Rightarrow> Some e, q', st') \<and>
    gq_rep st' q' secs' fl' c' \<and> gq_stack st' secs' c' = tl (gq_stack st secs c)"
proof (cases secs)
  case Nil
  then show ?thesis using rep
    by (intro exI [of _ q] exI [of _ st] exI [of _ "[]"] exI [of _ fl])
      (auto simp: sgen_gray_object_dequeue_def sgen_gray_object_queue_is_empty_def gq_rep_def gq_base_def gq_stack_def)
next
  case (Cons f rest)
  note rep = rep [unfolded Cons]
  obtain s where s: "gq_first q = Some f" "gs_sections st f = Some s" "linked (gs_sections st) (sec_next s) rest"
    "sec_prev s = None" "back_linked (gs_sections st) (Some f) rest"
    "length (sec_entries s) = SGEN_GRAY_QUEUE_SECTION_SIZE" "gq_cursor q = Some (f, c)" "0 \<le> c"
    "c < int SGEN_GRAY_QUEUE_SECTION_SIZE" by (rule gq_rep_Cons [OF rep])
  have pop: "gq_stack st (f # rest) c = sec_entries s ! nat c # sec_list (gs_sections st) f c @
      concat (map (sized_list (gs_sections st)) rest)"
    using sec_list_pop [where h = "gs_sections st", OF s(2,6,8,9)] by (simp add: gq_stack_def)
  show ?thesis
  proof (cases "c = 0")
    case True
    have "sec_list (gs_sections st) f c = []" using True s(2) by (simp add: sec_list_def)
    then show ?thesis using dequeue_last_entry [OF rep [unfolded True], of is_parallel] pop True s(2) Cons
      by (smt (verit) append_Nil list.case(2) list.sel(3) nat_0 option.inject)
  next
    case False
    have read: "read_entry (f, c) st = Some (sec_entries s ! nat c)" using s by (simp add: read_entry_def)
    have "sgen_gray_object_dequeue is_parallel q st = Some (Some (sec_entries s ! nat c), q\<lparr>gq_cursor := Some (f, c - 1)\<rparr>, st)"
      using s read False
      by (simp add: sgen_gray_object_dequeue_def Let_def sgen_gray_object_queue_is_empty_def GRAY_FIRST_CURSOR_POSITION_def)
    moreover have "gq_rep st (q\<lparr>gq_cursor := Some (f, c - 1)\<rparr>) (f # rest) fl (c - 1)"
      using rep s False by (simp add: gq_rep_def gq_base_def)
    moreover have "gq_stack st (f # rest) (c - 1) = tl (gq_stack st (f # rest) c)"
      by (simp add: pop) (simp add: gq_stack_def)
    ultimately show ?thesis using pop Cons by auto
  qed
qed

lemma fast_paths_rep:
  assumes rep: "gq_rep st q secs fl c"
  shows "GRAY_OBJECT_ENQUEUE obj desc q st = sgen_gray_object_enqueue obj desc q st \<and>
    GRAY_OBJECT_DEQUEUE is_parallel q st = sgen_gray_object_dequeue is_parallel q st"
proof (rule conjI)
  show "GRAY_OBJECT_ENQUEUE obj desc q st = sgen_gray_object_enqueue obj desc q st"
    by (simp add: GRAY_OBJECT_ENQUEUE_def sgen_gray_object_enqueue_def)
  show "GRAY_OBJECT_DEQUEUE is_parallel q st = sgen_gray_object_dequeue is_parallel q st"
  proof (cases secs)
    case Nil
    then show ?thesis using rep
      by (simp add: GRAY_OBJECT_DEQUEUE_def sgen_gray_object_dequeue_def sgen_gray_object_queue_is_empty_def
          gq_rep_def gq_base_def)
  next
    case (Cons f rest)
    obtain s where s: "gq_first q = Some f" "gs_sections st f = Some s" "gq_cursor q = Some (f, c)" "0 \<le> c"
      by (rule gq_rep_Cons [OF rep [unfolded Cons]])
    then show ?thesis
      by (auto simp: GRAY_OBJECT_DEQUEUE_def sgen_gray_object_dequeue_def sgen_gray_object_queue_is_empty_def
          GRAY_FIRST_CURSOR_POSITION_def)
  qed
qed

lemma linked_drop_last:
  "linked h p (as @ [y, z]) \<Longrightarrow> distinct (as @ [y, z]) \<Longrightarrow> h y = Some sy \<Longrightarrow>
    linked (h(z := x, y := Some (sy\<lparr>sec_next := None\<rparr>))) p (as @ [y])"
  by (induction as arbitrary: p) (auto split: option.splits)

lemma back_linked_drop_last:
  "back_linked h p (as @ [y, z]) \<Longrightarrow> distinct (as @ [y, z]) \<Longrightarrow> h y = Some sy \<Longrightarrow>
    back_linked (h(z := x, y := Some (sy\<lparr>sec_next := None\<rparr>))) p (as @ [y])"
  by (induction as arbitrary: p) (auto split: option.splits)

lemma linked_last: "linked h p (as @ [z]) \<Longrightarrow> h z = Some s \<Longrightarrow> sec_next s = None"
  by (induction as arbitrary: p) (auto split: option.splits)

lemma back_linked_last: "back_linked h p (as @ [y, z]) \<Longrightarrow> h z = Some s \<Longrightarrow> sec_prev s = Some y"
  by (induction as arbitrary: p) (auto split: option.splits)

text \<open>C18: Stealing from a queue of at least two sections whose lock is free takes the last section
  with all its entries; the owner keeps all other entries in their order, its cursor and a
  well-formed queue.\<close>

theorem gray_steal_correct:
  assumes rep: "gq_rep st q (secs @ [y, z]) fl c" and m: "\<not> gq_steal_mutex q"
  shows "\<exists>q' st'. sgen_gray_object_steal_section q st = Some (Some z, q', st') \<and>
    gq_rep st' q' (secs @ [y]) fl c \<and>
    gq_stack st (secs @ [y, z]) c = gq_stack st' (secs @ [y]) c @ sized_list (gs_sections st') z"
proof -
  note base = rep [unfolded gq_rep_def gq_base_def]
  obtain sy sz where sy: "gs_sections st y = Some sy" and sz: "gs_sections st z = Some sz"
    using base by (auto split: option.splits)
  have next_z: "sec_next sz = None" using linked_last [of "gs_sections st" "gq_first q" "secs @ [y]" z sz] base sz by simp
  have prev_z: "sec_prev sz = Some y" using back_linked_last [of "gs_sections st" None secs y z sz] base sz by simp
  have d: "distinct (secs @ [y, z])" "y \<noteq> z" "y \<notin> set fl" "z \<notin> set fl" "z \<notin> set (secs @ [y])" using base by auto
  let ?q = "q\<lparr>gq_num_sections := gq_num_sections q - 1, gq_last := Some y\<rparr>"
  let ?h = "(gs_sections st)(z := Some (sz\<lparr>sec_prev := None\<rparr>), y := Some (sy\<lparr>sec_next := None\<rparr>))"
  let ?st = "st\<lparr>gs_sections := ?h\<rparr>"
  have run: "sgen_gray_object_steal_section q st = Some (Some z, ?q, ?st)"
    using base m sy sz next_z prev_z d(2)
    by (simp add: sgen_gray_object_steal_section_def Let_def upd_section_Some upd_section_opt_def)
  have con: "\<forall>x\<in>set (secs @ [y, z]). contents ?h x = contents (gs_sections st) x"
    using sy sz d(2) by (auto simp: contents_def)
  have "linked ?h (gq_first q) (secs @ [y])" "back_linked ?h None (secs @ [y])"
    using linked_drop_last [of "gs_sections st" "gq_first q" secs y z sy]
      back_linked_drop_last [of "gs_sections st" None secs y z sy] base d sy by simp_all
  moreover have "linked ?h (gq_free_list q) fl" using base d by (simp add: linked_frame)
  moreover have "secs_ok ?h ((secs @ [y]) @ fl)" using base sy sz by (auto simp: secs_ok_def)
  moreover have "sizes_ok ?h (tl (secs @ [y]))"
  proof -
    have "\<forall>x\<in>set (tl (secs @ [y])). contents ?h x = contents (gs_sections st) x"
      using con by (cases secs) auto
    moreover have "sizes_ok (gs_sections st) (tl (secs @ [y]))"
      using base unfolding sizes_ok_def by (cases secs) auto
    ultimately show ?thesis using sizes_ok_contents by blast
  qed
  moreover have "distinct ((secs @ [y]) @ fl)" "\<forall>a\<in>set ((secs @ [y]) @ fl). a < gs_next st"
    "gq_num_sections q = int (length (secs @ [y])) + 1" using base by auto
  moreover have "case secs @ [y] of [] \<Rightarrow> True
     | f # _ \<Rightarrow> gq_cursor ?q = Some (f, c) \<and> 0 \<le> c \<and> c < int SGEN_GRAY_QUEUE_SECTION_SIZE"
    using base by (cases secs) auto
  ultimately have rep': "gq_rep ?st ?q (secs @ [y]) fl c"
    unfolding gq_rep_def gq_base_def by simp
  have "gq_stack st (secs @ [y, z]) c = gq_stack ?st (secs @ [y]) c @ sized_list ?h z"
  proof (cases secs)
    case Nil
    have "sec_list ?h y (c + 1) = sec_list (gs_sections st) y (c + 1)" using sy by (simp add: sec_list_def)
    moreover have "sized_list ?h z = sized_list (gs_sections st) z" using sz d(2)
      by (simp add: sized_list_def sec_list_def)
    ultimately show ?thesis using Nil by (simp add: gq_stack_def)
  next
    case (Cons f rest)
    have "sec_list ?h f (c + 1) = sec_list (gs_sections st) f (c + 1)" using d Cons by (simp add: sec_list_def)
    moreover have "concat (map (sized_list ?h) (rest @ [y, z])) = concat (map (sized_list (gs_sections st)) (rest @ [y, z]))"
      using con Cons by (intro sized_list_contents) simp
    ultimately show ?thesis using Cons by (simp add: gq_stack_def)
  qed
  with run rep' show ?thesis by auto
qed

section \<open>Properties of enqueueing and dequeueing\<close>

text \<open>C16: Enqueueing always succeeds on a well-formed queue, whether the entry fits the first
  section or a section is taken from the free list or allocated: it keeps the queue well
  formed and pushes the entry on the stack the queue stands for.\<close>

theorem gray_enqueue_correct:
  assumes "gq_rep st q secs fl c"
  shows "\<exists>q' st' secs' fl' c'. sgen_gray_object_enqueue obj desc q st = Some (q', st') \<and>
    gq_rep st' q' secs' fl' c' \<and> gq_stack st' secs' c' = \<lparr>ge_obj = obj, ge_desc = desc\<rparr> # gq_stack st secs c"
  by (rule enqueue_rep [OF assms])

text \<open>C17: Dequeueing pops the stack the queue stands for (it returns no entry exactly when the
  stack is empty), keeps the queue well formed and recycles the section it empties.\<close>

theorem gray_dequeue_correct:
  assumes "gq_rep st q secs fl c"
  shows "\<exists>q' st' secs' fl' c'. sgen_gray_object_dequeue is_parallel q st =
      Some (case gq_stack st secs c of [] \<Rightarrow> None | e # _ \<Rightarrow> Some e, q', st') \<and>
    gq_rep st' q' secs' fl' c' \<and> gq_stack st' secs' c' = tl (gq_stack st secs c)"
  by (rule dequeue_rep [OF assms])

text \<open>C19: On a well-formed queue the inline fast paths of the header do what the slow operations
  do: they leave the section exactly when it is full or has one entry left.\<close>

theorem gray_fast_paths_agree:
  assumes "gq_rep st q secs fl c"
  shows "GRAY_OBJECT_ENQUEUE obj desc q st = sgen_gray_object_enqueue obj desc q st \<and>
    GRAY_OBJECT_DEQUEUE is_parallel q st = sgen_gray_object_dequeue is_parallel q st"
  by (rule fast_paths_rep [OF assms])

section \<open>A small queue\<close>

definition demo_entry :: "nat \<Rightarrow> GrayQueueEntry" where
  "demo_entry n = \<lparr>ge_obj = of_nat n, ge_desc = 1\<rparr>"

definition demo_section :: "int \<Rightarrow> nat option \<Rightarrow> nat option \<Rightarrow> GrayQueueSection" where
  "demo_section n next' prev = \<lparr>sec_size = n, sec_next = next', sec_prev = prev,
     sec_entries = map demo_entry [0..<SGEN_GRAY_QUEUE_SECTION_SIZE]\<rparr>"

definition demo_store :: gray_store where
  "demo_store = \<lparr>gs_sections = [0 \<mapsto> demo_section 0 (Some 1) None, 1 \<mapsto> demo_section 3 None (Some 0)],
     gs_next = 2, gs_last_free_list = None\<rparr>"

definition demo_gray_queue :: SgenGrayQueue where
  "demo_gray_queue = \<lparr>gq_cursor = Some (0, 508), gq_first = Some 0, gq_last = Some 1, gq_free_list = None,
     gq_steal_mutex = False, gq_num_sections = 2\<rparr>"

lemma demo_gray_rep: "gq_rep demo_store demo_gray_queue ([] @ [0, 1]) [] 508"
  by (simp add: gq_rep_def gq_base_def demo_store_def demo_gray_queue_def demo_section_def secs_ok_def sizes_ok_def
      SGEN_GRAY_QUEUE_SECTION_SIZE_def)

theorem gray_enqueue_witness:
  "\<exists>q' st' secs' fl' c'. sgen_gray_object_enqueue 7 8 demo_gray_queue demo_store = Some (q', st') \<and>
    gq_rep st' q' secs' fl' c' \<and> gq_stack st' secs' c' = \<lparr>ge_obj = 7, ge_desc = 8\<rparr> # gq_stack demo_store ([] @ [0, 1]) 508"
  by (rule gray_enqueue_correct [OF demo_gray_rep])

theorem gray_dequeue_witness:
  "\<exists>q' st' secs' fl' c'. sgen_gray_object_dequeue True demo_gray_queue demo_store =
      Some (case gq_stack demo_store ([] @ [0, 1]) 508 of [] \<Rightarrow> None | e # _ \<Rightarrow> Some e, q', st') \<and>
    gq_rep st' q' secs' fl' c' \<and> gq_stack st' secs' c' = tl (gq_stack demo_store ([] @ [0, 1]) 508)"
  by (rule gray_dequeue_correct [OF demo_gray_rep])

theorem gray_fast_paths_witness:
  "GRAY_OBJECT_ENQUEUE 7 8 demo_gray_queue demo_store = sgen_gray_object_enqueue 7 8 demo_gray_queue demo_store \<and>
   GRAY_OBJECT_DEQUEUE False demo_gray_queue demo_store = sgen_gray_object_dequeue False demo_gray_queue demo_store"
  using gray_fast_paths_agree [OF demo_gray_rep] by blast

theorem gray_steal_witness:
  "\<exists>q' st'. sgen_gray_object_steal_section demo_gray_queue demo_store = Some (Some 1, q', st') \<and>
    gq_rep st' q' ([] @ [0]) [] 508 \<and>
    gq_stack demo_store ([] @ [0, 1]) 508 = gq_stack st' ([] @ [0]) 508 @ sized_list (gs_sections st') 1"
  by (rule gray_steal_correct [OF demo_gray_rep]) (simp add: demo_gray_queue_def)

end
