(* ===== verification/Sgen_ArrayList.thy ===== *)
theory Sgen_ArrayList
  imports Brotli_Prelude "HOL-Library.Monad_Syntax" "HOL-Library.Multiset"
begin

text \<open>
  The array list, \<open>sgen/sgen-array-list.{h,c}\<close>: slots kept in buckets of doubling size that
  never move, found through the leading zeros of the index. A \<open>guint32\<close> is a natural number
  below \<open>2 ^ 32\<close>; a capacity or a bucket size in bytes past that is \<open>None\<close>, like an access out of range and a failed
  assertion. The operations are those of one thread: a compare-and-swap fails only where the
  memory does not hold the expected value. The callback on a new bucket is the log of its
  calls (bucket size in bytes, and whether it was allocated or is about to be freed).
\<close>

section \<open>Buckets\<close>

definition SGEN_ARRAY_LIST_BUCKETS :: nat where
  "SGEN_ARRAY_LIST_BUCKETS = 32"

definition SGEN_ARRAY_LIST_MIN_BUCKET_BITS :: nat where
  "SGEN_ARRAY_LIST_MIN_BUCKET_BITS = 5"

definition SGEN_ARRAY_LIST_MIN_BUCKET_SIZE :: nat where
  "SGEN_ARRAY_LIST_MIN_BUCKET_SIZE = 2 ^ SGEN_ARRAY_LIST_MIN_BUCKET_BITS"

text \<open>The counting loop of \<open>sgen_clz\<close>; the intrinsics of the other compilers count the same.\<close>

fun clz_count :: "nat \<Rightarrow> nat \<Rightarrow> nat" where
  "clz_count x count' = (if x = 0 then count' else clz_count (x div 2) (count' + 1))"

declare clz_count.simps [simp del]

definition sgen_clz :: "nat \<Rightarrow> nat" where
  "sgen_clz x = 32 - clz_count x 0"

definition sgen_array_list_index_bucket :: "nat \<Rightarrow> nat" where
  "sgen_array_list_index_bucket index =
    32 - sgen_clz (index + SGEN_ARRAY_LIST_MIN_BUCKET_SIZE) - 1 - SGEN_ARRAY_LIST_MIN_BUCKET_BITS"

definition sgen_array_list_bucket_size :: "nat \<Rightarrow> nat" where
  "sgen_array_list_bucket_size index = 2 ^ (index + SGEN_ARRAY_LIST_MIN_BUCKET_BITS)"

definition sgen_array_list_bucketize :: "nat \<Rightarrow> nat \<times> nat" where
  "sgen_array_list_bucketize index =
    (let bucket = sgen_array_list_index_bucket index in
     (bucket, index + SGEN_ARRAY_LIST_MIN_BUCKET_SIZE - sgen_array_list_bucket_size bucket))"

section \<open>The list\<close>

record SgenArrayList =
  al_entries :: "u64 list option list"
  al_capacity :: nat
  al_slot_hint :: nat
  al_next_slot :: nat
  al_bucket_alloc_callback :: bool
  al_is_slot_set_func :: "(u64 \<Rightarrow> bool) option"
  al_set_slot_func :: "(u64 \<Rightarrow> u64 \<Rightarrow> int \<Rightarrow> u64 option) option"
  al_callback_calls :: "(nat \<times> bool) list"

definition SGEN_ARRAY_LIST_INIT ::
    "bool \<Rightarrow> (u64 \<Rightarrow> bool) option \<Rightarrow> (u64 \<Rightarrow> u64 \<Rightarrow> int \<Rightarrow> u64 option) option \<Rightarrow> SgenArrayList" where
  "SGEN_ARRAY_LIST_INIT bucket_alloc_callback is_slot_set_func set_slot_func =
    \<lparr>al_entries = replicate SGEN_ARRAY_LIST_BUCKETS None, al_capacity = 0, al_slot_hint = 0, al_next_slot = 0,
     al_bucket_alloc_callback = bucket_alloc_callback, al_is_slot_set_func = is_slot_set_func,
     al_set_slot_func = set_slot_func, al_callback_calls = []\<rparr>"

text \<open>A slot is a bucket and an offset in it.\<close>

definition read_slot :: "nat \<times> nat \<Rightarrow> SgenArrayList \<Rightarrow> u64 option" where
  "read_slot slot array =
    (if fst slot < length (al_entries array)
     then case al_entries array ! fst slot of
            None \<Rightarrow> None
          | Some entries \<Rightarrow> if snd slot < length entries then Some (entries ! snd slot) else None
     else None)"

definition write_slot :: "nat \<times> nat \<Rightarrow> u64 \<Rightarrow> SgenArrayList \<Rightarrow> SgenArrayList option" where
  "write_slot slot v array =
    (if fst slot < length (al_entries array)
     then case al_entries array ! fst slot of
            None \<Rightarrow> None
          | Some entries \<Rightarrow>
              if snd slot < length entries
              then Some (array\<lparr>al_entries := (al_entries array)[fst slot := Some (entries[snd slot := v])]\<rparr>)
              else None
     else None)"

definition sgen_array_list_get_slot :: "SgenArrayList \<Rightarrow> nat \<Rightarrow> (nat \<times> nat) option" where
  "sgen_array_list_get_slot array index =
    (if index < al_capacity array then Some (sgen_array_list_bucketize index) else None)"

text \<open>
  \<open>SGEN_ARRAY_LIST_FOREACH_SLOT\<close>: the indices and slots of the buckets below that of the
  capacity, up to the next slot, in the order the macro visits them.
\<close>

function foreach_offsets :: "nat \<Rightarrow> nat \<Rightarrow> nat \<Rightarrow> nat \<Rightarrow> (nat \<times> nat \<times> nat) list" where
  "foreach_offsets next_slot bucket offset index =
    (if offset < sgen_array_list_bucket_size bucket \<and> index < next_slot
     then (index, bucket, offset) # foreach_offsets next_slot bucket (offset + 1) (index + 1)
     else [])"
  by pat_completeness auto
termination
  by (relation "measure (\<lambda>(next_slot, bucket, offset, index). next_slot - index)") auto

declare foreach_offsets.simps [simp del]

function foreach_buckets :: "nat \<Rightarrow> nat \<Rightarrow> nat \<Rightarrow> nat \<Rightarrow> (nat \<times> nat \<times> nat) list" where
  "foreach_buckets next_slot max_bucket bucket index =
    (if bucket < max_bucket
     then let visited = foreach_offsets next_slot bucket 0 index in
          visited @ foreach_buckets next_slot max_bucket (bucket + 1) (index + length visited)
     else [])"
  by pat_completeness auto
termination
  by (relation "measure (\<lambda>(next_slot, max_bucket, bucket, index). max_bucket - bucket)") auto

declare foreach_buckets.simps [simp del]

definition SGEN_ARRAY_LIST_FOREACH_SLOT :: "SgenArrayList \<Rightarrow> (nat \<times> nat \<times> nat) list" where
  "SGEN_ARRAY_LIST_FOREACH_SLOT array =
    foreach_buckets (al_next_slot array) (sgen_array_list_index_bucket (al_capacity array)) 0 0"

text \<open>\<open>SGEN_ARRAY_LIST_FOREACH_SLOT_RANGE\<close>, up to the first slot that is not set.\<close>

fun find_unset_range :: "(u64 \<Rightarrow> bool) \<Rightarrow> nat list \<Rightarrow> SgenArrayList \<Rightarrow> nat option option" where
  "find_unset_range is_set [] array = Some None"
| "find_unset_range is_set (index # indices) array =
    do {
      v \<leftarrow> read_slot (sgen_array_list_bucketize index) array;
      if \<not> is_set v then Some (Some index) else find_unset_range is_set indices array }"

section \<open>Operations\<close>

definition sgen_array_list_grow :: "nat \<Rightarrow> SgenArrayList \<Rightarrow> SgenArrayList option" where
  "sgen_array_list_grow old_capacity array =
    (let new_bucket = sgen_array_list_index_bucket old_capacity;
         growth = sgen_array_list_bucket_size new_bucket;
         new_capacity = old_capacity + growth;
         new_bucket_size = 8 * growth;
         log = (\<lambda>alloc array. if al_bucket_alloc_callback array
                              then array\<lparr>al_callback_calls := al_callback_calls array @ [(new_bucket_size, alloc)]\<rparr>
                              else array) in
     if 2 ^ 32 \<le> new_capacity \<or> 2 ^ 32 \<le> new_bucket_size then None
     else if new_capacity \<le> al_capacity array then Some array
     else
       let array = log True array in
       if length (al_entries array) \<le> new_bucket then None
       else if al_entries array ! new_bucket = None then
         (let array = array\<lparr>al_entries := (al_entries array)[new_bucket := Some (replicate growth 0)]\<rparr> in
          if al_capacity array = old_capacity
          then Some (array\<lparr>al_capacity := new_capacity, al_slot_hint := old_capacity\<rparr>)
          else None)
       else Some (log False array))"

definition sgen_array_list_find_unset :: "nat \<Rightarrow> SgenArrayList \<Rightarrow> nat option option" where
  "sgen_array_list_find_unset capacity array =
    (case al_is_slot_set_func array of
       None \<Rightarrow> Some (if al_next_slot array < capacity then Some (al_next_slot array) else None)
     | Some is_set \<Rightarrow>
         do {
           r \<leftarrow> find_unset_range is_set [al_slot_hint array..<capacity] array;
           case r of
             Some index \<Rightarrow> Some (Some index)
           | None \<Rightarrow> find_unset_range is_set [0..<al_slot_hint array] array })"

definition sgen_array_list_update_next_slot :: "nat \<Rightarrow> SgenArrayList \<Rightarrow> SgenArrayList" where
  "sgen_array_list_update_next_slot new_index array =
    (if new_index < al_next_slot array then array else array\<lparr>al_next_slot := new_index + 1\<rparr>)"

partial_function (option) alloc_block_loop ::
    "nat \<Rightarrow> nat \<Rightarrow> nat \<Rightarrow> SgenArrayList \<Rightarrow> (nat \<times> SgenArrayList) option" where
  "alloc_block_loop slots_to_add new_index old_capacity array =
    (if old_capacity - new_index < slots_to_add then
       do {
         array \<leftarrow> sgen_array_list_grow old_capacity array;
         alloc_block_loop slots_to_add old_capacity (al_capacity array) array }
     else Some (new_index, array))"

declare alloc_block_loop.simps [code]

definition sgen_array_list_alloc_block :: "nat \<Rightarrow> SgenArrayList \<Rightarrow> (nat \<times> SgenArrayList) option" where
  "sgen_array_list_alloc_block slots_to_add array =
    do {
      (new_index, array) \<leftarrow> alloc_block_loop slots_to_add (al_next_slot array) (al_capacity array) array;
      if sgen_array_list_index_bucket new_index = sgen_array_list_index_bucket (new_index + slots_to_add - 1)
      then Some (new_index, array\<lparr>al_next_slot := new_index + slots_to_add\<rparr>)
      else None }"

text \<open>The loop that \<open>goto retry\<close> closes.\<close>

partial_function (option) add_retry :: "u64 \<Rightarrow> int \<Rightarrow> bool \<Rightarrow> SgenArrayList \<Rightarrow> (nat \<times> SgenArrayList) option" where
  "add_retry ptr data increase_size_before_set array =
    do {
      found \<leftarrow> sgen_array_list_find_unset (al_capacity array) array;
      case found of
        None \<Rightarrow>
          do {
            array \<leftarrow> sgen_array_list_grow (al_capacity array) array;
            add_retry ptr data increase_size_before_set array }
      | Some index \<Rightarrow>
          do {
            let array = array\<lparr>al_slot_hint := index\<rparr>;
            let array = (if increase_size_before_set then sgen_array_list_update_next_slot index array else array);
            slot \<leftarrow> sgen_array_list_get_slot array index;
            set \<leftarrow> (case al_set_slot_func array of
                     None \<Rightarrow> map_option Some (write_slot slot ptr array)
                   | Some set_slot \<Rightarrow>
                       do {
                         v \<leftarrow> read_slot slot array;
                         case set_slot v ptr data of
                           None \<Rightarrow> Some None
                         | Some v \<Rightarrow> map_option Some (write_slot slot v array) });
            case set of
              None \<Rightarrow> add_retry ptr data increase_size_before_set array
            | Some array \<Rightarrow>
                Some (index, if increase_size_before_set then array else sgen_array_list_update_next_slot index array) } }"

declare add_retry.simps [code]

definition sgen_array_list_add :: "u64 \<Rightarrow> int \<Rightarrow> bool \<Rightarrow> SgenArrayList \<Rightarrow> (nat \<times> SgenArrayList) option" where
  "sgen_array_list_add ptr data increase_size_before_set array =
    do {
      array \<leftarrow> (if al_capacity array = 0 then sgen_array_list_grow 0 array else Some array);
      add_retry ptr data increase_size_before_set array }"

fun find_slot :: "u64 \<Rightarrow> (nat \<times> nat \<times> nat) list \<Rightarrow> SgenArrayList \<Rightarrow> nat option option" where
  "find_slot ptr [] array = Some None"
| "find_slot ptr ((index, slot) # visited) array =
    do {
      v \<leftarrow> read_slot slot array;
      if v = ptr then Some (Some index) else find_slot ptr visited array }"

definition sgen_array_list_find :: "u64 \<Rightarrow> SgenArrayList \<Rightarrow> nat option option" where
  "sgen_array_list_find ptr array = find_slot ptr (SGEN_ARRAY_LIST_FOREACH_SLOT array) array"

definition sgen_array_list_default_cas_setter :: "u64 \<Rightarrow> u64 \<Rightarrow> int \<Rightarrow> u64 option" where
  "sgen_array_list_default_cas_setter slot ptr data = (if slot = 0 then Some ptr else None)"

definition sgen_array_list_default_is_slot_set :: "u64 \<Rightarrow> bool" where
  "sgen_array_list_default_is_slot_set slot \<longleftrightarrow> slot \<noteq> 0"

fun remove_nulls_slots :: "(nat \<times> nat \<times> nat) list \<Rightarrow> nat \<Rightarrow> bool \<Rightarrow> SgenArrayList \<Rightarrow> (nat \<times> SgenArrayList) option" where
  "remove_nulls_slots [] start skipped array = Some (start, array)"
| "remove_nulls_slots ((index, slot) # visited) start skipped array =
    do {
      v \<leftarrow> read_slot slot array;
      if v \<noteq> 0 then
        do {
          target \<leftarrow> sgen_array_list_get_slot array start;
          array \<leftarrow> write_slot target v array;
          array \<leftarrow> (if skipped then write_slot slot 0 array else Some array);
          remove_nulls_slots visited (start + 1) skipped array }
      else remove_nulls_slots visited start True array }"

definition sgen_array_list_remove_nulls :: "SgenArrayList \<Rightarrow> SgenArrayList option" where
  "sgen_array_list_remove_nulls array =
    do {
      (start, array) \<leftarrow> remove_nulls_slots (SGEN_ARRAY_LIST_FOREACH_SLOT array) 0 False array;
      Some (array\<lparr>al_next_slot := start, al_slot_hint := start\<rparr>) }"

section \<open>Indices and slots\<close>

lemma clz_count_pow: "2 ^ b \<le> x \<Longrightarrow> x < 2 ^ (b + 1) \<Longrightarrow> clz_count x c = c + b + 1"
proof (induction b arbitrary: x c)
  case 0
  then have "x = 1" by simp
  then show ?case by (simp add: clz_count.simps)
next
  case (Suc b)
  then have "2 ^ b \<le> x div 2" "x div 2 < 2 ^ (b + 1)" by auto
  from Suc.IH [OF this] Suc.prems show ?case by (subst clz_count.simps) auto
qed

lemma index_bucket_eq:
  assumes "2 ^ (b + 5) \<le> index + 32" "index + 32 < 2 ^ (b + 6)" "b \<le> 26"
  shows "sgen_array_list_index_bucket index = b"
proof -
  have "clz_count (index + 32) 0 = 0 + (b + 5) + 1" using assms by (intro clz_count_pow) (simp_all add: add.commute)
  then show ?thesis using assms(3)
    by (simp add: sgen_array_list_index_bucket_def sgen_clz_def SGEN_ARRAY_LIST_MIN_BUCKET_SIZE_def
        SGEN_ARRAY_LIST_MIN_BUCKET_BITS_def)
qed

lemma bucket_exists: "\<exists>b. 2 ^ (b + 5) \<le> index + 32 \<and> index + (32::nat) < 2 ^ (b + 6)"
proof -
  have "2 ^ 5 \<le> index + 32" by simp
  define P where "P = (\<lambda>b. index + 32 < (2::nat) ^ (b + 6))"
  have "P index" unfolding P_def
    using less_exp [of index] by (induction index) (auto simp: power_add)
  then have L: "P (LEAST b. P b)" by (rule LeastI)
  have "2 ^ ((LEAST b. P b) + 5) \<le> index + 32"
  proof (cases "LEAST b. P b")
    case 0
    then show ?thesis by simp
  next
    case (Suc b)
    then have "\<not> P b" using not_less_Least [of b P] by simp
    then show ?thesis using Suc by (simp add: P_def not_less add.commute)
  qed
  then show ?thesis using L unfolding P_def by blast
qed

text \<open>The start of a bucket in the list.\<close>

definition bucket_start :: "nat \<Rightarrow> nat" where
  "bucket_start b = sgen_array_list_bucket_size b - SGEN_ARRAY_LIST_MIN_BUCKET_SIZE"

lemma bucket_start_eq: "bucket_start b = 32 * (2 ^ b - 1)"
  by (simp add: bucket_start_def sgen_array_list_bucket_size_def SGEN_ARRAY_LIST_MIN_BUCKET_SIZE_def
      SGEN_ARRAY_LIST_MIN_BUCKET_BITS_def power_add algebra_simps)

lemma bucket_start_Suc: "bucket_start (Suc b) = bucket_start b + sgen_array_list_bucket_size b"
  by (simp add: bucket_start_eq sgen_array_list_bucket_size_def SGEN_ARRAY_LIST_MIN_BUCKET_BITS_def power_add
      algebra_simps)

lemma bucketize_at:
  assumes "b \<le> 26" "off < sgen_array_list_bucket_size b"
  shows "sgen_array_list_bucketize (bucket_start b + off) = (b, off)"
proof -
  have s: "sgen_array_list_bucket_size b = 32 * 2 ^ b"
    by (simp add: sgen_array_list_bucket_size_def SGEN_ARRAY_LIST_MIN_BUCKET_BITS_def power_add)
  have e: "bucket_start b + off + 32 = 32 * 2 ^ b + off"
    by (cases "(2::nat) ^ b") (auto simp: bucket_start_eq)
  have "sgen_array_list_index_bucket (bucket_start b + off) = b"
  proof (rule index_bucket_eq [OF _ _ assms(1)])
    show "2 ^ (b + 5) \<le> bucket_start b + off + 32" unfolding e by (simp add: power_add)
    show "bucket_start b + off + 32 < 2 ^ (b + 6)" unfolding e using assms(2) s by (simp add: power_add)
  qed
  then show ?thesis
    by (simp add: sgen_array_list_bucketize_def Let_def s SGEN_ARRAY_LIST_MIN_BUCKET_SIZE_def
        SGEN_ARRAY_LIST_MIN_BUCKET_BITS_def) (simp add: e)
qed

lemma bucketize_index:
  assumes "index < bucket_start k" "k \<le> 27"
  obtains b off where "sgen_array_list_bucketize index = (b, off)" "b < k" "off < sgen_array_list_bucket_size b"
    "index = bucket_start b + off"
proof -
  obtain b where b: "2 ^ (b + 5) \<le> index + 32" "index + 32 < 2 ^ (b + 6)" using bucket_exists by blast
  have "index + 32 < 32 * 2 ^ k" using assms(1) by (simp add: bucket_start_eq)
  have k: "b < k"
  proof (rule ccontr)
    assume "\<not> b < k"
    then have "(2::nat) ^ k \<le> 2 ^ b" by (simp add: power_increasing)
    with \<open>index + 32 < 32 * 2 ^ k\<close> b(1) show False by (simp add: power_add)
  qed
  have s: "sgen_array_list_bucket_size b = 32 * 2 ^ b"
    by (simp add: sgen_array_list_bucket_size_def SGEN_ARRAY_LIST_MIN_BUCKET_BITS_def power_add)
  define off where "off = index + 32 - 32 * 2 ^ b"
  have off: "off < sgen_array_list_bucket_size b" using b by (simp add: off_def s power_add)
  have i: "index = bucket_start b + off" using b(1) by (cases "(2::nat) ^ b") (auto simp: off_def bucket_start_eq power_add)
  then have "sgen_array_list_bucketize index = (b, off)"
    using bucketize_at [OF _ off] k assms(2) by simp
  then show thesis using k off i by (rule that)
qed

text \<open>Below the largest capacity, every index lies in exactly one slot: the leading-zero
  computation finds a bucket and an offset inside it, and every offset of every bucket is the
  slot of its own index.\<close>

theorem bucketize_bijective:
  assumes "index < 2 ^ 32 - 32" "b \<le> 26" "off < sgen_array_list_bucket_size b"
  shows "fst (sgen_array_list_bucketize index) \<le> 26 \<and>
    snd (sgen_array_list_bucketize index) < sgen_array_list_bucket_size (fst (sgen_array_list_bucketize index)) \<and>
    32 * (2 ^ fst (sgen_array_list_bucketize index) - 1) + snd (sgen_array_list_bucketize index) = index \<and>
    sgen_array_list_bucketize (32 * (2 ^ b - 1) + off) = (b, off)"
proof -
  have "index < bucket_start 27" using assms(1) by (simp add: bucket_start_eq)
  then obtain b' off' where "sgen_array_list_bucketize index = (b', off')" "b' < 27"
    "off' < sgen_array_list_bucket_size b'" "index = bucket_start b' + off'"
    using bucketize_index by blast
  then show ?thesis using bucketize_at [OF assms(2,3)] by (simp add: bucket_start_eq)
qed

theorem bucketize_witness:
  "fst (sgen_array_list_bucketize 100) \<le> 26 \<and>
    snd (sgen_array_list_bucketize 100) < sgen_array_list_bucket_size (fst (sgen_array_list_bucketize 100)) \<and>
    32 * (2 ^ fst (sgen_array_list_bucketize 100) - 1) + snd (sgen_array_list_bucketize 100) = 100 \<and>
    sgen_array_list_bucketize (32 * (2 ^ 2 - 1) + 4) = (2, 4)"
  by (rule bucketize_bijective) (simp_all add: sgen_array_list_bucket_size_def SGEN_ARRAY_LIST_MIN_BUCKET_BITS_def)

section \<open>The list as a growing array\<close>

definition al_ok :: "nat \<Rightarrow> SgenArrayList \<Rightarrow> bool" where
  "al_ok k a \<longleftrightarrow> k \<le> 24 \<and> length (al_entries a) = SGEN_ARRAY_LIST_BUCKETS \<and> al_capacity a = bucket_start k \<and>
    (\<forall>b<SGEN_ARRAY_LIST_BUCKETS. case al_entries a ! b of None \<Rightarrow> k \<le> b
      | Some l \<Rightarrow> b < k \<and> length l = sgen_array_list_bucket_size b) \<and>
    al_next_slot a \<le> al_capacity a \<and> al_slot_hint a \<le> al_capacity a"

definition al_get :: "SgenArrayList \<Rightarrow> nat \<Rightarrow> u64 option" where
  "al_get a i = (if i < al_capacity a then read_slot (sgen_array_list_bucketize i) a else None)"

lemma al_okD:
  assumes "al_ok k a"
  shows "k \<le> 24" "length (al_entries a) = 32" "al_capacity a = bucket_start k"
    "al_next_slot a \<le> al_capacity a" "al_slot_hint a \<le> al_capacity a"
  using assms by (simp_all add: al_ok_def SGEN_ARRAY_LIST_BUCKETS_def)

lemma al_ok_bucket:
  assumes "al_ok k a" "b < k"
  obtains l where "al_entries a ! b = Some l" "length l = sgen_array_list_bucket_size b" "b < length (al_entries a)"
proof -
  have "b < 32" using assms al_okD(1) by fastforce
  then have "case al_entries a ! b of None \<Rightarrow> k \<le> b
      | Some l \<Rightarrow> b < k \<and> length l = sgen_array_list_bucket_size b"
    using assms(1) by (simp add: al_ok_def SGEN_ARRAY_LIST_BUCKETS_def)
  then obtain l where "al_entries a ! b = Some l" "length l = sgen_array_list_bucket_size b"
    using assms(2) by (cases "al_entries a ! b") auto
  then show thesis using that \<open>b < 32\<close> al_okD(2) [OF assms(1)] by simp
qed

lemma al_get_Some:
  assumes "al_ok k a" "i < al_capacity a"
  obtains v where "al_get a i = Some v" "read_slot (sgen_array_list_bucketize i) a = Some v"
proof -
  have "k \<le> 27" using al_okD(1) [OF assms(1)] by simp
  from assms(2) [unfolded al_okD(3) [OF assms(1)]] this
  obtain b off where b: "sgen_array_list_bucketize i = (b, off)" "b < k" "off < sgen_array_list_bucket_size b"
    by (rule bucketize_index)
  obtain l where "al_entries a ! b = Some l" "length l = sgen_array_list_bucket_size b" "b < length (al_entries a)"
    by (rule al_ok_bucket [OF assms(1) b(2)])
  then show thesis using b assms(2) by (intro that) (auto simp: al_get_def read_slot_def)
qed

lemma write_slot_ok:
  assumes ok: "al_ok k a" and i: "i < al_capacity a"
  obtains a' where "write_slot (sgen_array_list_bucketize i) v a = Some a'" "al_ok k a'"
    "\<forall>j. al_get a' j = (if j = i then Some v else al_get a j)"
    "a' = a\<lparr>al_entries := al_entries a'\<rparr>"
proof -
  have k: "k \<le> 27" "k \<le> 24" using al_okD(1) [OF ok] by simp_all
  from i [unfolded al_okD(3) [OF ok]] k(1)
  obtain b off where b: "sgen_array_list_bucketize i = (b, off)" "b < k" "off < sgen_array_list_bucket_size b"
    "i = bucket_start b + off" by (rule bucketize_index)
  obtain l where l: "al_entries a ! b = Some l" "length l = sgen_array_list_bucket_size b" "b < length (al_entries a)"
    by (rule al_ok_bucket [OF ok b(2)])
  let ?a = "a\<lparr>al_entries := (al_entries a)[b := Some (l[off := v])]\<rparr>"
  have "write_slot (sgen_array_list_bucketize i) v a = Some ?a" using b l by (simp add: write_slot_def)
  moreover have "al_ok k ?a"
    using ok b l by (auto simp: al_ok_def nth_list_update)
  moreover have "al_get ?a j = (if j = i then Some v else al_get a j)" for j
  proof (cases "j < al_capacity a")
    case True
    from True [unfolded al_okD(3) [OF ok]] k(1)
    obtain b' off' where b': "sgen_array_list_bucketize j = (b', off')" "b' < k" "off' < sgen_array_list_bucket_size b'"
      "j = bucket_start b' + off'" by (rule bucketize_index)
    have eq: "j = i \<longleftrightarrow> b' = b \<and> off' = off" using b(1,4) b'(1,4) by (metis prod.inject)
    obtain l' where l': "al_entries a ! b' = Some l'" "length l' = sgen_array_list_bucket_size b'"
      "b' < length (al_entries a)" by (rule al_ok_bucket [OF ok b'(2)])
    show ?thesis
    proof (cases "b' = b")
      case True
      then have "al_get ?a j = Some (l[off := v] ! off')" "al_get a j = Some (l ! off')"
        using \<open>j < al_capacity a\<close> b'(1,3) l by (simp_all add: al_get_def read_slot_def)
      then show ?thesis using eq True b(3) l(2) by (simp add: nth_list_update)
    next
      case False
      then show ?thesis using \<open>j < al_capacity a\<close> b'(1) l' eq by (simp add: al_get_def read_slot_def)
    qed
  qed (use i in \<open>simp add: al_get_def\<close>)
  ultimately show thesis by (intro that) auto
qed

lemma grow_ok:
  assumes ok: "al_ok k a" and k: "k < 24"
  obtains a' where "sgen_array_list_grow (al_capacity a) a = Some a'" "al_ok (Suc k) a'"
    "\<forall>j. al_get a' j = (if j < al_capacity a then al_get a j else if j < bucket_start (Suc k) then Some 0 else None)"
    "al_slot_hint a' = al_capacity a" "al_next_slot a' = al_next_slot a"
    "al_is_slot_set_func a' = al_is_slot_set_func a" "al_set_slot_func a' = al_set_slot_func a"
proof -
  have z: "bucket_start k + 0 = bucket_start k" by simp
  have bk: "sgen_array_list_index_bucket (bucket_start k) = k"
    using bucketize_at [of k 0] k
    by (simp add: sgen_array_list_bucketize_def Let_def sgen_array_list_bucket_size_def)
  have size: "sgen_array_list_bucket_size k \<le> 2 ^ 28"
    using k power_increasing [of "k + 5" 28 "2::nat"]
    by (simp add: sgen_array_list_bucket_size_def SGEN_ARRAY_LIST_MIN_BUCKET_BITS_def)
  have start: "bucket_start k + sgen_array_list_bucket_size k < 2 ^ 32"
    using size by (simp add: bucket_start_def)
  have none: "al_entries a ! k = None"
  proof -
    have "case al_entries a ! k of None \<Rightarrow> k \<le> k | Some l \<Rightarrow> k < k \<and> length l = sgen_array_list_bucket_size k"
      using ok k by (simp add: al_ok_def SGEN_ARRAY_LIST_BUCKETS_def)
    then show ?thesis by (simp split: option.splits)
  qed
  let ?a = "a\<lparr>al_callback_calls := (if al_bucket_alloc_callback a
      then al_callback_calls a @ [(8 * sgen_array_list_bucket_size k, True)] else al_callback_calls a),
    al_entries := (al_entries a)[k := Some (replicate (sgen_array_list_bucket_size k) 0)],
    al_capacity := bucket_start (Suc k), al_slot_hint := bucket_start k\<rparr>"
  have pos: "0 < sgen_array_list_bucket_size k" by (simp add: sgen_array_list_bucket_size_def)
  have "sgen_array_list_grow (al_capacity a) a = Some ?a"
    using al_okD [OF ok] bk size start none k pos
    by (simp add: sgen_array_list_grow_def Let_def bucket_start_Suc)
  moreover have "al_ok (Suc k) ?a"
    using ok k by (auto simp: al_ok_def nth_list_update bucket_start_Suc SGEN_ARRAY_LIST_BUCKETS_def split: option.splits)
  moreover have "al_get ?a j = (if j < al_capacity a then al_get a j
      else if j < bucket_start (Suc k) then Some 0 else None)" for j
  proof (cases "j < bucket_start (Suc k)")
    case True
    then obtain b off where b: "sgen_array_list_bucketize j = (b, off)" "b < Suc k" "off < sgen_array_list_bucket_size b"
      "j = bucket_start b + off" by (rule bucketize_index) (use k in simp)
    have "b = k \<longleftrightarrow> \<not> j < al_capacity a"
    proof
      assume "b = k"
      then show "\<not> j < al_capacity a" using b al_okD(3) [OF ok] by simp
    next
      assume nl: "\<not> j < al_capacity a"
      have "bucket_start (Suc b) \<le> bucket_start k" if "b < k"
        using that power_increasing [of "Suc b" k "2::nat"] by (simp add: bucket_start_eq)
      then show "b = k" using nl b al_okD(3) [OF ok] by (cases "b < k") (auto simp: bucket_start_Suc)
    qed
    then show ?thesis using b True k al_okD(2) [OF ok] by (auto simp: al_get_def read_slot_def)
  next
    case False
    then show ?thesis using al_okD(3) [OF ok] by (simp add: al_get_def bucket_start_Suc)
  qed
  ultimately show thesis using al_okD(3) [OF ok] by (intro that [of ?a]) simp_all
qed

lemma find_unset_range_ok:
  assumes "al_ok k a" "\<forall>i\<in>set is. i < al_capacity a"
  shows "(\<exists>i\<in>set is. find_unset_range sgen_array_list_default_is_slot_set is a = Some (Some i) \<and> al_get a i = Some 0) \<or>
    (find_unset_range sgen_array_list_default_is_slot_set is a = Some None \<and> (\<forall>i\<in>set is. al_get a i \<noteq> Some 0))"
  using assms(2)
proof (induction "is")
  case (Cons i "is")
  obtain v where v: "al_get a i = Some v" "read_slot (sgen_array_list_bucketize i) a = Some v"
    by (rule al_get_Some [OF assms(1), of i]) (use Cons.prems in simp_all)
  show ?case
  proof (cases "v = 0")
    case True
    then have "find_unset_range sgen_array_list_default_is_slot_set (i # is) a = Some (Some i)"
      using v(2) by (simp add: sgen_array_list_default_is_slot_set_def)
    then show ?thesis using v True by (intro disjI1 bexI [of _ i]) simp_all
  next
    case False
    then have "find_unset_range sgen_array_list_default_is_slot_set (i # is) a =
        find_unset_range sgen_array_list_default_is_slot_set is a"
      using v(2) by (simp add: sgen_array_list_default_is_slot_set_def)
    with Cons.IH Cons.prems v(1) False show ?thesis by auto
  qed
qed simp

lemma find_unset_ok:
  assumes ok: "al_ok k a" and set: "al_is_slot_set_func a = Some sgen_array_list_default_is_slot_set"
  shows "(\<exists>i<al_capacity a. sgen_array_list_find_unset (al_capacity a) a = Some (Some i) \<and> al_get a i = Some 0) \<or>
    (sgen_array_list_find_unset (al_capacity a) a = Some None \<and> (\<forall>i<al_capacity a. al_get a i \<noteq> Some 0))"
proof -
  let ?f = "\<lambda>is. find_unset_range sgen_array_list_default_is_slot_set is a"
  let ?hi = "[al_slot_hint a..<al_capacity a]" and ?lo = "[0..<al_slot_hint a]"
  have "\<forall>i\<in>set ?hi. i < al_capacity a" "\<forall>i\<in>set ?lo. i < al_capacity a" using al_okD(5) [OF ok] by auto
  note hi = find_unset_range_ok [OF ok this(1)] and lo = find_unset_range_ok [OF ok this(2)]
  have u: "sgen_array_list_find_unset (al_capacity a) a =
      (case ?f ?hi of None \<Rightarrow> None | Some None \<Rightarrow> ?f ?lo | Some (Some i) \<Rightarrow> Some (Some i))"
    by (auto simp: sgen_array_list_find_unset_def set split: option.split)
  from hi show ?thesis
  proof (elim disjE bexE conjE)
    fix i assume "i \<in> set ?hi" "?f ?hi = Some (Some i)" "al_get a i = Some 0"
    then show ?thesis unfolding u by (intro disjI1 exI [of _ i]) auto
  next
    assume h: "?f ?hi = Some None" "\<forall>i\<in>set ?hi. al_get a i \<noteq> Some 0"
    from lo show ?thesis
    proof (elim disjE bexE conjE)
      fix i assume "i \<in> set ?lo" "?f ?lo = Some (Some i)" "al_get a i = Some 0"
      then show ?thesis unfolding u h(1) using al_okD(5) [OF ok] by (intro disjI1 exI [of _ i]) auto
    next
      assume l: "?f ?lo = Some None" "\<forall>i\<in>set ?lo. al_get a i \<noteq> Some 0"
      have "\<forall>i<al_capacity a. al_get a i \<noteq> Some 0" using h(2) l(2) by (metis atLeastLessThan_iff not_less set_upt zero_le)
      then show ?thesis unfolding u h(1) using l(1) by simp
    qed
  qed
qed

lemma al_ok_fields:
  assumes "al_ok k a" "n \<le> al_capacity a" "m \<le> al_capacity a"
  shows "al_ok k (a\<lparr>al_slot_hint := m, al_next_slot := n\<rparr>)"
  using assms by (simp add: al_ok_def)

lemma read_slot_fields [simp]:
  "read_slot p (a\<lparr>al_slot_hint := m\<rparr>) = read_slot p a" "read_slot p (a\<lparr>al_next_slot := n\<rparr>) = read_slot p a"
  by (simp_all add: read_slot_def)

lemma al_get_fields [simp]:
  "al_get (a\<lparr>al_slot_hint := m\<rparr>) = al_get a" "al_get (a\<lparr>al_next_slot := n\<rparr>) = al_get a"
  by (rule ext, simp add: al_get_def)+

definition next_slot_after :: "nat \<Rightarrow> SgenArrayList \<Rightarrow> nat" where
  "next_slot_after i a = max (al_next_slot a) (i + 1)"

lemma update_next_slot_eq:
  "sgen_array_list_update_next_slot i a = a\<lparr>al_next_slot := next_slot_after i a\<rparr>"
  by (auto simp: sgen_array_list_update_next_slot_def next_slot_after_def max_def)

definition default_setter :: "SgenArrayList \<Rightarrow> bool" where
  "default_setter a \<longleftrightarrow> al_is_slot_set_func a = Some sgen_array_list_default_is_slot_set \<and>
    al_set_slot_func a \<in> {None, Some sgen_array_list_default_cas_setter}"

text \<open>What an addition at slot \<open>i\<close> does.\<close>

definition added :: "u64 \<Rightarrow> nat \<Rightarrow> SgenArrayList \<Rightarrow> SgenArrayList \<Rightarrow> bool" where
  "added ptr i a a' \<longleftrightarrow> i < al_next_slot a' \<and> al_get a i \<in> {None, Some 0} \<and> al_capacity a \<le> al_capacity a' \<and>
    (\<forall>j<al_capacity a'. al_get a' j = (if j = i then Some ptr else if j < al_capacity a then al_get a j else Some 0)) \<and>
    al_next_slot a' = next_slot_after i a \<and> default_setter a'"

lemma add_found:
  assumes ok: "al_ok k a" and set: "default_setter a"
    and i: "i < al_capacity a" "sgen_array_list_find_unset (al_capacity a) a = Some (Some i)" "al_get a i = Some 0"
  obtains a' where "add_retry ptr data inc a = Some (i, a')" "al_ok k a'" "added ptr i a a'" "al_capacity a' = al_capacity a"
proof -
  let ?a = "a\<lparr>al_slot_hint := i, al_next_slot := (if inc then next_slot_after i a else al_next_slot a)\<rparr>"
  have n: "next_slot_after i a \<le> al_capacity a" using i(1) al_okD(4) [OF ok] by (simp add: next_slot_after_def)
  have ok1: "al_ok k ?a" using ok i(1) n al_okD(4) [OF ok] by (intro al_ok_fields) auto
  have i1: "i < al_capacity ?a" using i(1) by simp
  obtain a2 where a2: "write_slot (sgen_array_list_bucketize i) ptr ?a = Some a2" "al_ok k a2"
    "\<forall>j. al_get a2 j = (if j = i then Some ptr else al_get ?a j)" "a2 = ?a\<lparr>al_entries := al_entries a2\<rparr>"
    by (rule write_slot_ok [OF ok1 i1])
  have nx: "al_next_slot a2 = al_next_slot ?a" "al_capacity a2 = al_capacity a"
    "al_is_slot_set_func a2 = al_is_slot_set_func a" "al_set_slot_func a2 = al_set_slot_func a" by (subst a2(4), simp)+
  have g: "al_get ?a = al_get a" by simp
  have read: "read_slot (sgen_array_list_bucketize i) ?a = Some 0"
    using i(1,3) by (simp add: al_get_def)
  define a' where "a' = (if inc then a2 else sgen_array_list_update_next_slot i a2)"
  have start: "(if inc then sgen_array_list_update_next_slot i (a\<lparr>al_slot_hint := i\<rparr>) else a\<lparr>al_slot_hint := i\<rparr>) = ?a"
    by (simp add: update_next_slot_eq next_slot_after_def)
  have "al_set_slot_func a = None \<or> al_set_slot_func a = Some sgen_array_list_default_cas_setter"
    using set by (auto simp: default_setter_def)
  then have "add_retry ptr data inc a = Some (i, a')"
    unfolding a'_def using i(1) read a2(1)
    by (elim disjE; subst add_retry.simps) (simp_all add: i(2) Let_def start sgen_array_list_get_slot_def
        sgen_array_list_default_cas_setter_def del: if_split)
  moreover have "al_ok k a'"
    unfolding a'_def using a2(2) n nx al_okD(4,5) [OF a2(2)] i(1)
    by (auto simp: update_next_slot_eq next_slot_after_def al_ok_def)
  moreover have "i < al_next_slot a'" unfolding a'_def using nx by (auto simp: update_next_slot_eq next_slot_after_def)
  moreover have "\<forall>j. al_get a' j = (if j = i then Some ptr else al_get a j)"
    unfolding a'_def using a2(3) g by (simp add: update_next_slot_eq)
  moreover have cap: "al_capacity a' = al_capacity a" unfolding a'_def using nx by (simp add: update_next_slot_eq)
  moreover have "al_next_slot a' = next_slot_after i a" "default_setter a'"
    unfolding a'_def using nx set by (auto simp: update_next_slot_eq next_slot_after_def default_setter_def)
  ultimately show thesis using i(3) by (intro that [of a']) (auto simp: added_def)
qed

lemma add_retry_ok:
  assumes ok: "al_ok k a" "k < 24" and f: "default_setter a"
  shows "\<exists>i a' k'. add_retry ptr data inc a = Some (i, a') \<and> al_ok k' a' \<and> k' \<le> Suc k \<and> added ptr i a a'"
proof -
  have f1: "al_is_slot_set_func a = Some sgen_array_list_default_is_slot_set" using f by (simp add: default_setter_def)
  show ?thesis
    using find_unset_ok [OF ok(1) f1]
  proof (elim disjE exE conjE)
    fix i assume i: "i < al_capacity a" "sgen_array_list_find_unset (al_capacity a) a = Some (Some i)" "al_get a i = Some 0"
    obtain a' where "add_retry ptr data inc a = Some (i, a')" "al_ok k a'" "added ptr i a a'"
      by (rule add_found [OF ok(1) f i])
    then show ?thesis by (intro exI conjI) auto
  next
    assume none: "sgen_array_list_find_unset (al_capacity a) a = Some None" "\<forall>i<al_capacity a. al_get a i \<noteq> Some 0"
    obtain b where b: "sgen_array_list_grow (al_capacity a) a = Some b" "al_ok (Suc k) b"
      "\<forall>j. al_get b j = (if j < al_capacity a then al_get a j else if j < bucket_start (Suc k) then Some 0 else None)"
      "al_slot_hint b = al_capacity a" "al_next_slot b = al_next_slot a"
      "al_is_slot_set_func b = al_is_slot_set_func a" "al_set_slot_func b = al_set_slot_func a"
      by (rule grow_ok [OF ok])
    have set: "default_setter b" using b(6,7) f by (simp add: default_setter_def)
    have cap: "al_capacity b = bucket_start (Suc k)" "al_capacity a < al_capacity b"
      using al_okD(3) [OF b(2)] al_okD(3) [OF ok(1)] by (simp_all add: bucket_start_Suc sgen_array_list_bucket_size_def)
    then have "al_get b (al_capacity a) = Some 0" using b(3) by simp
    with find_unset_ok [OF b(2)] f1 b(6) cap(2) obtain i where
      i: "i < al_capacity b" "sgen_array_list_find_unset (al_capacity b) b = Some (Some i)" "al_get b i = Some 0" by auto
    obtain a' where a': "add_retry ptr data inc b = Some (i, a')" "al_ok (Suc k) a'" "added ptr i b a'"
      by (rule add_found [OF b(2) set i])
    have "add_retry ptr data inc a = Some (i, a')" using a'(1) by (subst add_retry.simps) (simp add: none(1) b(1))
    moreover have "al_get a i \<in> {None, Some 0}" using i(3) b(3) none(2) by (auto simp: al_get_def split: if_splits)
    then have "added ptr i a a'" using a'(3) b(3,5) cap unfolding added_def next_slot_after_def by auto
    ultimately show ?thesis using a'(2) by blast
  qed
qed

lemma array_list_add_ok:
  assumes ok: "al_ok k a" "k < 23" and f: "default_setter a"
  shows "\<exists>i a' k'. sgen_array_list_add ptr data inc a = Some (i, a') \<and> al_ok k' a' \<and> added ptr i a a'"
proof (cases "al_capacity a = 0")
  case False
  then show ?thesis using add_retry_ok [OF ok(1) _ f, of ptr data inc] ok(2)
    by (auto simp: sgen_array_list_add_def)
next
  case True
  have k: "k < 24" using ok(2) by simp
  obtain b where b: "sgen_array_list_grow (al_capacity a) a = Some b" "al_ok (Suc k) b"
    "\<forall>j. al_get b j = (if j < al_capacity a then al_get a j else if j < bucket_start (Suc k) then Some 0 else None)"
    "al_slot_hint b = al_capacity a" "al_next_slot b = al_next_slot a"
    "al_is_slot_set_func b = al_is_slot_set_func a" "al_set_slot_func b = al_set_slot_func a"
    by (rule grow_ok [OF ok(1) k])
  have set: "default_setter b" using b(6,7) f by (simp add: default_setter_def)
  have cap: "al_capacity b = bucket_start (Suc k)" using al_okD(3) [OF b(2)] by simp
  have "Suc k < 24" using ok(2) by simp
  from add_retry_ok [OF b(2) this set, of ptr data inc] obtain i a' k' where
    a': "add_retry ptr data inc b = Some (i, a')" "al_ok k' a'" "added ptr i b a'" by blast
  have "sgen_array_list_add ptr data inc a = Some (i, a')"
    using b(1) a'(1) True by (simp add: sgen_array_list_add_def)
  moreover have "al_get a j = None" for j using True by (simp add: al_get_def)
  moreover have "j < al_capacity b \<Longrightarrow> al_get b j = Some 0" for j using b(3) cap True by simp
  ultimately show ?thesis using a' True b(5) unfolding added_def next_slot_after_def
    by (intro exI [of _ i] exI [of _ a'] exI [of _ k']) auto
qed

text \<open>C22: With the default setter and test, adding to a well-formed list always ends: it puts the
  pointer into a slot that was empty or is new, growing the list at most where none is empty,
  and changes no other slot.\<close>

theorem array_list_add_correct:
  assumes "al_ok k a" "k < 23" "al_is_slot_set_func a = Some sgen_array_list_default_is_slot_set"
    "al_set_slot_func a = Some sgen_array_list_default_cas_setter"
  shows "\<exists>i a' k'. sgen_array_list_add ptr data inc a = Some (i, a') \<and> al_ok k' a' \<and> i < al_next_slot a' \<and>
    al_get a i \<in> {None, Some 0} \<and> al_capacity a \<le> al_capacity a' \<and>
    (\<forall>j<al_capacity a'. al_get a' j = (if j = i then Some ptr else if j < al_capacity a then al_get a j else Some 0))"
proof -
  have "default_setter a" using assms(3,4) by (simp add: default_setter_def)
  from array_list_add_ok [OF assms(1,2) this, of ptr data inc] show ?thesis unfolding added_def by blast
qed

theorem array_list_add_witness:
  "\<exists>i a' k'. sgen_array_list_add 7 0 True (SGEN_ARRAY_LIST_INIT False (Some sgen_array_list_default_is_slot_set)
      (Some sgen_array_list_default_cas_setter)) = Some (i, a') \<and> al_ok k' a' \<and> al_get a' i = Some 7"
proof -
  let ?a = "SGEN_ARRAY_LIST_INIT False (Some sgen_array_list_default_is_slot_set) (Some sgen_array_list_default_cas_setter)"
  have "al_ok 0 ?a" by (simp add: al_ok_def SGEN_ARRAY_LIST_INIT_def bucket_start_eq SGEN_ARRAY_LIST_BUCKETS_def)
  then obtain i a' k' where "sgen_array_list_add 7 0 True ?a = Some (i, a')" "al_ok k' a'" "i < al_next_slot a'"
    "\<forall>j<al_capacity a'. al_get a' j = (if j = i then Some 7 else if j < al_capacity ?a then al_get ?a j else Some 0)"
    using array_list_add_correct [of 0 ?a 7 0 True] by (auto simp: SGEN_ARRAY_LIST_INIT_def)
  moreover have "i < al_capacity a'" using al_okD(4) [OF calculation(2)] calculation(3) by simp
  ultimately show ?thesis by auto
qed

section \<open>Blocks\<close>

lemma alloc_loop_ok:
  assumes "al_ok k a" "n \<le> sgen_array_list_bucket_size K" "K < 24" "new \<le> al_capacity a"
    "k \<le> K \<or> k \<le> Suc K \<and> n \<le> al_capacity a - new" "0 < k \<longrightarrow> bucket_start (k - 1) \<le> new"
  shows "\<exists>i a' k'. alloc_block_loop n new (al_capacity a) a = Some (i, a') \<and> al_ok k' a' \<and> k' \<le> Suc K \<and> new \<le> i \<and>
    i + n \<le> al_capacity a' \<and> (0 < k' \<longrightarrow> bucket_start (k' - 1) \<le> i) \<and> al_next_slot a' = al_next_slot a \<and>
    (\<forall>j. al_get a' j = (if j < al_capacity a then al_get a j else if j < al_capacity a' then Some 0 else None))"
  using assms
proof (induction "Suc K - k" arbitrary: k a new)
  case 0
  then have "Suc K \<le> k" by simp
  then have "n \<le> al_capacity a - new" using 0 by simp
  then show ?case using 0 by (subst alloc_block_loop.simps) (auto simp: al_get_def)
next
  case (Suc m)
  show ?case
  proof (cases "al_capacity a - new < n")
    case False
    then show ?thesis using Suc.prems by (subst alloc_block_loop.simps) (auto simp: al_get_def)
  next
    case True
    have k: "k \<le> K" "k < 24" using Suc.hyps(2) Suc.prems(3) by simp_all
    obtain b where b: "sgen_array_list_grow (al_capacity a) a = Some b" "al_ok (Suc k) b"
      "\<forall>j. al_get b j = (if j < al_capacity a then al_get a j else if j < bucket_start (Suc k) then Some 0 else None)"
      "al_slot_hint b = al_capacity a" "al_next_slot b = al_next_slot a"
      "al_is_slot_set_func b = al_is_slot_set_func a" "al_set_slot_func b = al_set_slot_func a"
      by (rule grow_ok [OF Suc.prems(1) k(2)])
    have ca: "al_capacity a = bucket_start k" and cb: "al_capacity b = bucket_start (Suc k)"
      using al_okD(3) [OF b(2)] al_okD(3) [OF Suc.prems(1)] by simp_all
    have last: "Suc k \<le> K \<or> Suc k \<le> Suc K \<and> n \<le> al_capacity b - al_capacity a"
      using k(1) Suc.prems(2) by (cases "k = K") (simp_all add: ca cb bucket_start_Suc)
    have "\<exists>i a' k'. alloc_block_loop n (al_capacity a) (al_capacity b) b = Some (i, a') \<and> al_ok k' a' \<and> k' \<le> Suc K \<and> al_capacity a \<le> i \<and>
      i + n \<le> al_capacity a' \<and> (0 < k' \<longrightarrow> bucket_start (k' - 1) \<le> i) \<and> al_next_slot a' = al_next_slot b \<and>
      (\<forall>j. al_get a' j = (if j < al_capacity b then al_get b j else if j < al_capacity a' then Some 0 else None))"
      using Suc.hyps(2) last by (intro Suc.hyps(1) [where k = "Suc k"] b(2) Suc.prems(2,3)) (simp_all add: ca cb bucket_start_Suc)
    then obtain i a' k' where i: "alloc_block_loop n (al_capacity a) (al_capacity b) b = Some (i, a')" "al_ok k' a'" "k' \<le> Suc K"
      "al_capacity a \<le> i" "i + n \<le> al_capacity a'" "0 < k' \<longrightarrow> bucket_start (k' - 1) \<le> i" "al_next_slot a' = al_next_slot b"
      "\<forall>j. al_get a' j = (if j < al_capacity b then al_get b j else if j < al_capacity a' then Some 0 else None)" by blast
    have "alloc_block_loop n new (al_capacity a) a = Some (i, a')"
      using True i(1) b(1) by (subst alloc_block_loop.simps) simp
    moreover have le: "al_capacity b \<le> al_capacity a'"
    proof (rule ccontr)
      assume "\<not> al_capacity b \<le> al_capacity a'"
      moreover obtain v where "al_get b (al_capacity a') = Some v"
        using al_get_Some [OF b(2)] calculation by (metis not_le)
      ultimately have "al_get a' (al_capacity a') = Some v" using i(8) by (metis not_le)
      then show False by (simp add: al_get_def)
    qed
    moreover have "\<forall>j. al_get a' j = (if j < al_capacity a then al_get a j else if j < al_capacity a' then Some 0 else None)"
      using i(8) b(3) le bucket_start_Suc [of k] by (auto simp: ca cb)
    ultimately show ?thesis using i b(5) Suc.prems(4) by (intro exI [of _ i] exI [of _ a'] exI [of _ k']) simp
  qed
qed

text \<open>A block never straddles two buckets, so its slots are consecutive words of memory.\<close>

lemma alloc_block_ok:
  assumes ok: "al_ok k a" and n: "0 < n" "n \<le> sgen_array_list_bucket_size K" and k: "k \<le> K" "K < 24"
    and last: "0 < k \<longrightarrow> bucket_start (k - 1) \<le> al_next_slot a"
  obtains i a' k' where "sgen_array_list_alloc_block n a = Some (i, a')" "al_ok k' a'" "k' \<le> Suc K" "al_next_slot a \<le> i"
    "al_next_slot a' = i + n" "0 < k'" "bucket_start (k' - 1) \<le> i" "i + n \<le> bucket_start k'"
    "\<forall>j. al_get a' j = (if j < al_capacity a then al_get a j else if j < al_capacity a' then Some 0 else None)"
proof -
  from alloc_loop_ok [OF ok n(2) k(2) al_okD(4) [OF ok] disjI1 [OF k(1)] last] obtain i a' k' where
    i: "alloc_block_loop n (al_next_slot a) (al_capacity a) a = Some (i, a')" "al_ok k' a'" "k' \<le> Suc K" "al_next_slot a \<le> i"
    "i + n \<le> al_capacity a'" "0 < k' \<longrightarrow> bucket_start (k' - 1) \<le> i"
    "\<forall>j. al_get a' j = (if j < al_capacity a then al_get a j else if j < al_capacity a' then Some 0 else None)" by blast
  have c: "al_capacity a' = bucket_start k'" using al_okD(3) [OF i(2)] .
  have k': "0 < k'" using i(5) n(1) c by (cases k') (auto simp: bucket_start_eq)
  then obtain b where b: "k' = Suc b" by (cases k') auto
  have b26: "b \<le> 26" using al_okD(1) [OF i(2)] b by simp
  have bucket: "sgen_array_list_index_bucket j = b" if "bucket_start b \<le> j" "j < bucket_start (Suc b)" for j
  proof -
    have "sgen_array_list_bucketize (bucket_start b + (j - bucket_start b)) = (b, j - bucket_start b)"
      using that b26 by (intro bucketize_at) (auto simp: bucket_start_Suc)
    then show ?thesis using that(1) by (simp add: sgen_array_list_bucketize_def Let_def)
  qed
  have "sgen_array_list_index_bucket i = b" "sgen_array_list_index_bucket (i + n - 1) = b"
    using i(5,6) n(1) by (auto simp: c b intro!: bucket)
  then have "sgen_array_list_alloc_block n a = Some (i, a'\<lparr>al_next_slot := i + n\<rparr>)"
    by (simp add: sgen_array_list_alloc_block_def i(1))
  moreover have "al_ok k' (a'\<lparr>al_next_slot := i + n\<rparr>)" using i(2,5) by (simp add: al_ok_def)
  ultimately show thesis using i(3,4,5,6,7) k' c by (intro that [of i "a'\<lparr>al_next_slot := i + n\<rparr>" k']) simp_all
qed

section \<open>Visiting and compacting\<close>

lemma foreach_offsets_eq:
  "foreach_offsets nx b off index = map (\<lambda>j. (index + j, b, off + j)) [0..<min (sgen_array_list_bucket_size b - off) (nx - index)]"
proof (induction "nx - index" arbitrary: off index)
  case 0
  then show ?case by (subst foreach_offsets.simps) simp
next
  case (Suc n)
  show ?case
  proof (cases "off < sgen_array_list_bucket_size b")
    case True
    let ?m = "min (sgen_array_list_bucket_size b - Suc off) (nx - Suc index)"
    have m: "min (sgen_array_list_bucket_size b - off) (nx - index) = Suc ?m" using True Suc.hyps(2) by simp
    have "foreach_offsets nx b (Suc off) (Suc index) = map (\<lambda>j. (Suc index + j, b, Suc off + j)) [0..<?m]"
      using Suc.hyps(1) [of "Suc index" "Suc off"] Suc.hyps(2) by simp
    then show ?thesis using True Suc.hyps(2) unfolding m upt_conv_Cons [OF zero_less_Suc] map_Suc_upt [symmetric]
      by (subst foreach_offsets.simps) simp
  qed (use Suc.hyps(2) in \<open>subst foreach_offsets.simps, simp\<close>)
qed

lemma foreach_buckets_eq:
  assumes "k \<le> 27"
  shows "b \<le> k \<Longrightarrow> foreach_buckets nx k b (min nx (bucket_start b)) =
    map (\<lambda>i. (i, sgen_array_list_bucketize i)) [min nx (bucket_start b)..<min nx (bucket_start k)]"
proof (induction "k - b" arbitrary: b)
  case 0
  then show ?case by (subst foreach_buckets.simps) simp
next
  case (Suc n)
  then have b: "b < k" "b \<le> 26" using assms by simp_all
  let ?s = "sgen_array_list_bucket_size b" and ?i = "min nx (bucket_start b)"
  have off: "foreach_offsets nx b 0 ?i = map (\<lambda>i. (i, sgen_array_list_bucketize i)) [?i..<min nx (bucket_start (Suc b))]"
  proof (cases "bucket_start b < nx")
    case True
    then have "foreach_offsets nx b 0 ?i = map (\<lambda>j. (bucket_start b + j, b, j)) [0..<min ?s (nx - bucket_start b)]"
      by (simp add: foreach_offsets_eq)
    also have "\<dots> = map (\<lambda>i. (i, sgen_array_list_bucketize i)) [?i..<min nx (bucket_start (Suc b))]"
      using True bucketize_at [OF b(2)] by (intro nth_equalityI) (auto simp: bucket_start_Suc)
    finally show ?thesis .
  next
    case False
    then show ?thesis by (simp add: foreach_offsets_eq bucket_start_Suc)
  qed
  have next': "?i + length (foreach_offsets nx b 0 ?i) = min nx (bucket_start (Suc b))"
    unfolding off by (simp add: bucket_start_Suc)
  have "foreach_buckets nx k b ?i = foreach_offsets nx b 0 ?i @ foreach_buckets nx k (Suc b) (min nx (bucket_start (Suc b)))"
    using b(1) by (subst foreach_buckets.simps) (simp add: Let_def next')
  also have "\<dots> = map (\<lambda>i. (i, sgen_array_list_bucketize i)) ([?i..<min nx (bucket_start (Suc b))] @ [min nx (bucket_start (Suc b))..<min nx (bucket_start k)])"
    using Suc.hyps b(1) unfolding off by simp
  also have "[?i..<min nx (bucket_start (Suc b))] @ [min nx (bucket_start (Suc b))..<min nx (bucket_start k)] = [?i..<min nx (bucket_start k)]"
  proof -
    have "bucket_start (Suc b) \<le> bucket_start k"
      using b(1) power_increasing [of "Suc b" k "2::nat"] by (simp add: bucket_start_eq)
    then have "?i \<le> min nx (bucket_start (Suc b))" "min nx (bucket_start (Suc b)) \<le> min nx (bucket_start k)"
      by (auto simp: bucket_start_Suc)
    then show ?thesis by (metis le_add_diff_inverse upt_add_eq_append)
  qed
  finally show ?case .
qed

lemma index_bucket_start: "k \<le> 26 \<Longrightarrow> sgen_array_list_index_bucket (bucket_start k) = k"
  using bucketize_at [of k 0] by (simp add: sgen_array_list_bucketize_def Let_def sgen_array_list_bucket_size_def)

text \<open>The macro visits the slots below the next one, in order.\<close>

lemma foreach_slot_eq:
  assumes "al_ok k a"
  shows "SGEN_ARRAY_LIST_FOREACH_SLOT a = map (\<lambda>i. (i, sgen_array_list_bucketize i)) [0..<al_next_slot a]"
proof -
  note d = al_okD [OF assms]
  have "k \<le> 27" "k \<le> 26" using d(1) by simp_all
  then have "sgen_array_list_index_bucket (al_capacity a) = k" "min (al_next_slot a) (bucket_start k) = al_next_slot a"
    using index_bucket_start d(3,4) by simp_all
  then show ?thesis using foreach_buckets_eq [OF \<open>k \<le> 27\<close>, of 0 "al_next_slot a"]
    unfolding SGEN_ARRAY_LIST_FOREACH_SLOT_def by (simp add: bucket_start_eq)
qed

text \<open>The contents, and that the slots from the next one on are empty.\<close>

definition al_values :: "SgenArrayList \<Rightarrow> u64 list" where
  "al_values a = map (\<lambda>i. the (al_get a i)) [0..<al_capacity a]"

definition al_full :: "nat \<Rightarrow> SgenArrayList \<Rightarrow> bool" where
  "al_full k a \<longleftrightarrow> al_ok k a \<and> (\<forall>i<al_capacity a. al_next_slot a \<le> i \<longrightarrow> al_get a i = Some 0)"

lemma al_get_values: "al_ok k a \<Longrightarrow> i < al_capacity a \<Longrightarrow> al_get a i = Some (al_values a ! i)"
  using al_get_Some by (fastforce simp: al_values_def)

lemma write_slot_values:
  assumes ok: "al_ok k a" and i: "i < al_capacity a"
  obtains a' where "write_slot (sgen_array_list_bucketize i) v a = Some a'" "al_ok k a'"
    "al_values a' = (al_values a)[i := v]" "a' = a\<lparr>al_entries := al_entries a'\<rparr>"
proof -
  obtain a' where a': "write_slot (sgen_array_list_bucketize i) v a = Some a'" "al_ok k a'"
    "\<forall>j. al_get a' j = (if j = i then Some v else al_get a j)" "a' = a\<lparr>al_entries := al_entries a'\<rparr>"
    by (rule write_slot_ok [OF ok i])
  have "al_capacity a' = al_capacity a" by (subst a'(4)) simp
  then have "al_values a' = (al_values a)[i := v]" unfolding al_values_def using a'(3) i
    by (intro nth_equalityI) (auto simp: nth_list_update)
  then show thesis using that a'(1,2,4) by blast
qed

lemma read_slot_values: "al_ok k a \<Longrightarrow> i < al_capacity a \<Longrightarrow> read_slot (sgen_array_list_bucketize i) a = Some (al_values a ! i)"
  using al_get_values [of k a i] by (simp add: al_get_def)

text \<open>The loop of the compaction: the values seen so far are at the front, nothing else up to the slot it has come to.\<close>

definition al_tail :: "SgenArrayList \<Rightarrow> SgenArrayList \<Rightarrow> bool" where
  "al_tail a a' \<longleftrightarrow> a' = a\<lparr>al_entries := al_entries a'\<rparr>"

lemma al_tail_fields: "al_tail a a' \<Longrightarrow> al_capacity a' = al_capacity a \<and> al_next_slot a' = al_next_slot a \<and>
    al_slot_hint a' = al_slot_hint a \<and> al_is_slot_set_func a' = al_is_slot_set_func a \<and> al_set_slot_func a' = al_set_slot_func a"
  unfolding al_tail_def by (metis SgenArrayList.select_convs(2-4,6,7) SgenArrayList.surjective SgenArrayList.update_convs(1))

lemma remove_nulls_slots_ok:
  assumes "al_ok k a" "n \<le> al_capacity a" "start + length (filter (\<lambda>v. v \<noteq> 0) (take (n - i) (drop i (al_values a)))) \<le> n"
    "i \<le> n" "start \<le> i" "skipped \<longleftrightarrow> start < i" "\<forall>j. start \<le> j \<longrightarrow> j < i \<longrightarrow> al_values a ! j = 0"
  shows "\<exists>a'. remove_nulls_slots (map (\<lambda>i. (i, sgen_array_list_bucketize i)) [i..<n]) start skipped a =
      Some (start + length (filter (\<lambda>v. v \<noteq> 0) (take (n - i) (drop i (al_values a)))), a') \<and> al_ok k a' \<and> al_tail a a' \<and>
    al_values a' = take start (al_values a) @ filter (\<lambda>v. v \<noteq> 0) (take (n - i) (drop i (al_values a))) @
      replicate (n - start - length (filter (\<lambda>v. v \<noteq> 0) (take (n - i) (drop i (al_values a))))) 0 @ drop n (al_values a)"
  using assms
proof (induction "n - i" arbitrary: a i start skipped)
  case 0
  then have i: "i = n" by simp
  have len: "length (al_values a) = al_capacity a" by (simp add: al_values_def)
  have "al_values a = take start (al_values a) @ replicate (n - start) 0 @ drop n (al_values a)"
    using 0(3,6,8) len unfolding i by (intro nth_equalityI) (auto simp: nth_append)
  then show ?case using 0(2) i by (simp add: al_tail_def)
next
  case (Suc m)
  have i: "i < n" using Suc.hyps(2) by simp
  let ?vs = "al_values a" and ?v = "al_values a ! i"
  have len: "length ?vs = al_capacity a" by (simp add: al_values_def)
  have ic: "i < al_capacity a" using i Suc.prems(2) by simp
  have split: "take (n - i) (drop i ?vs) = ?v # take (n - Suc i) (drop (Suc i) ?vs)"
    using i ic len by (metis Cons_nth_drop_Suc Suc_diff_Suc take_Suc_Cons)
  have list: "map (\<lambda>i. (i, sgen_array_list_bucketize i)) [i..<n] =
      (i, sgen_array_list_bucketize i) # map (\<lambda>i. (i, sgen_array_list_bucketize i)) [Suc i..<n]"
    using i by (simp add: upt_conv_Cons)
  note read = read_slot_values [OF Suc.prems(1) ic]
  show ?case
  proof (cases "?v = 0")
    case True
    have "\<exists>a'. remove_nulls_slots (map (\<lambda>i. (i, sgen_array_list_bucketize i)) [Suc i..<n]) start True a =
        Some (start + length (filter (\<lambda>v. v \<noteq> 0) (take (n - Suc i) (drop (Suc i) ?vs))), a') \<and> al_ok k a' \<and> al_tail a a' \<and>
      al_values a' = take start ?vs @ filter (\<lambda>v. v \<noteq> 0) (take (n - Suc i) (drop (Suc i) ?vs)) @
        replicate (n - start - length (filter (\<lambda>v. v \<noteq> 0) (take (n - Suc i) (drop (Suc i) ?vs)))) 0 @ drop n ?vs"
      using Suc.prems Suc.hyps(2) True i unfolding split by (intro Suc.hyps(1)) (auto simp: less_Suc_eq)
    then show ?thesis using True read unfolding list split by simp
  next
    case False
    have sc: "start < al_capacity a" using Suc.prems(5) ic by simp
    obtain a1 where a1: "write_slot (sgen_array_list_bucketize start) ?v a = Some a1" "al_ok k a1"
      "al_values a1 = ?vs[start := ?v]" "a1 = a\<lparr>al_entries := al_entries a1\<rparr>" by (rule write_slot_values [OF Suc.prems(1) sc])
    note f1 = al_tail_fields [OF a1(4) [folded al_tail_def]]
    have ic1: "i < al_capacity a1" using ic f1 by simp
    obtain a2 where a2: "(if skipped then write_slot (sgen_array_list_bucketize i) 0 a1 else Some a1) = Some a2" "al_ok k a2"
      "al_values a2 = (if skipped then ?vs[start := ?v, i := 0] else ?vs)" "al_tail a a2"
    proof (cases skipped)
      case True
      obtain a2 where a2: "write_slot (sgen_array_list_bucketize i) 0 a1 = Some a2" "al_ok k a2"
        "al_values a2 = (al_values a1)[i := 0]" "a2 = a1\<lparr>al_entries := al_entries a2\<rparr>" by (rule write_slot_values [OF a1(2) ic1])
      have "al_tail a a2" unfolding al_tail_def using a1(4) a2(4) by (metis SgenArrayList.surjective SgenArrayList.update_convs(1))
      then show thesis using that a2(1-3) a1(3) True by simp
    next
      case False
      then have "start = i" using Suc.prems(5,6) by simp
      then show thesis using that [of a1] a1 False by (simp add: al_tail_def)
    qed
    have vs2: "length (al_values a2) = al_capacity a" "al_capacity a2 = al_capacity a"
      using al_tail_fields [OF a2(4)] by (simp_all add: al_values_def)
    have dr: "drop (Suc i) (al_values a2) = drop (Suc i) ?vs" "drop n (al_values a2) = drop n ?vs"
      using a2(3) Suc.prems(5) i by (auto simp: drop_update_cancel)
    have tk: "take (Suc start) (al_values a2) = take start ?vs @ [?v]"
    proof -
      have "al_values a2 ! start = ?v" "take start (al_values a2) = take start ?vs"
        using a2(3) Suc.prems(5,6) len sc by (auto simp: nth_list_update)
      then show ?thesis using sc vs2(1) by (simp add: take_Suc_conv_app_nth)
    qed
    have zero: "\<forall>j. Suc start \<le> j \<longrightarrow> j < Suc i \<longrightarrow> al_values a2 ! j = 0"
      using a2(3) Suc.prems(5-7) len ic by (auto simp: nth_list_update less_Suc_eq)
    let ?f = "filter (\<lambda>v. v \<noteq> 0) (take (n - Suc i) (drop (Suc i) ?vs))"
    have IH: "\<exists>a'. remove_nulls_slots (map (\<lambda>i. (i, sgen_array_list_bucketize i)) [Suc i..<n]) (Suc start) skipped a2 =
        Some (Suc start + length ?f, a') \<and> al_ok k a' \<and> al_tail a2 a' \<and>
      al_values a' = take (Suc start) (al_values a2) @ ?f @ replicate (n - Suc start - length ?f) 0 @ drop n ?vs"
    proof (rule Suc.hyps(1) [of "Suc i" a2 "Suc start" skipped, unfolded dr])
      show "Suc start + length ?f \<le> n" using Suc.prems(3) False unfolding split by simp
      show "skipped = (Suc start < Suc i)" using Suc.prems(6) by simp
    qed (use Suc.prems(2,5) Suc.hyps(2) i zero vs2(2) a2(2) in simp_all)
    then obtain a' where a': "remove_nulls_slots (map (\<lambda>i. (i, sgen_array_list_bucketize i)) [Suc i..<n]) (Suc start) skipped a2 =
        Some (Suc start + length ?f, a')" "al_ok k a'" "al_tail a2 a'"
      "al_values a' = take start ?vs @ ?v # ?f @ replicate (n - Suc start - length ?f) 0 @ drop n ?vs" unfolding tk by auto
    have tail: "al_tail a a'" using a2(4) a'(3) unfolding al_tail_def by (metis SgenArrayList.surjective SgenArrayList.update_convs(1))
    have slot: "sgen_array_list_get_slot a start = Some (sgen_array_list_bucketize start)" using sc by (simp add: sgen_array_list_get_slot_def)
    have "remove_nulls_slots (map (\<lambda>i. (i, sgen_array_list_bucketize i)) [i..<n]) start skipped a = Some (Suc start + length ?f, a')"
      unfolding list using False a'(1) a2(1) by (simp add: read slot a1(1))
    then show ?thesis using a'(2,4) tail False unfolding split by (intro exI [of _ a']) simp
  qed
qed

lemma nth_append_const: "xs = ys @ zs \<Longrightarrow> \<forall>v\<in>set zs. v = c \<Longrightarrow> length ys \<le> i \<Longrightarrow> i < length xs \<Longrightarrow> xs ! i = c"
  by (simp add: nth_append)

lemma remove_nulls_ok:
  assumes full: "al_full k a" and f: "default_setter a"
  obtains a' where "sgen_array_list_remove_nulls a = Some a'" "al_full k a'" "default_setter a'"
    "filter (\<lambda>v. v \<noteq> 0) (al_values a') = filter (\<lambda>v. v \<noteq> 0) (al_values a)"
    "al_next_slot a' = length (filter (\<lambda>v. v \<noteq> 0) (al_values a))"
proof -
  let ?n = "al_next_slot a" and ?f = "filter (\<lambda>v. v \<noteq> 0) (take (al_next_slot a) (al_values a))"
  have ok: "al_ok k a" and z: "\<forall>i<al_capacity a. ?n \<le> i \<longrightarrow> al_get a i = Some 0" using full by (simp_all add: al_full_def)
  have len: "length (al_values a) = al_capacity a" by (simp add: al_values_def)
  have n: "?n \<le> al_capacity a" by (rule al_okD(4) [OF ok])
  have tail: "\<forall>v\<in>set (drop ?n (al_values a)). v = 0"
    using z al_get_values [OF ok] len by (auto simp: in_set_conv_nth)
  have all: "filter (\<lambda>v. v \<noteq> 0) (al_values a) = ?f"
    using tail by (subst append_take_drop_id [of ?n, symmetric]) (simp add: filter_empty_conv del: append_take_drop_id)
  have "length ?f \<le> length (take ?n (al_values a))" by (rule length_filter_le)
  then have "length ?f \<le> ?n" by simp
  then obtain a1 where a1: "remove_nulls_slots (map (\<lambda>i. (i, sgen_array_list_bucketize i)) [0..<?n]) 0 False a = Some (length ?f, a1)"
    "al_ok k a1" "al_tail a a1" "al_values a1 = ?f @ replicate (?n - length ?f) 0 @ drop ?n (al_values a)"
    using remove_nulls_slots_ok [OF ok n, of 0 0 False] by auto
  note t = al_tail_fields [OF a1(3)]
  let ?a = "a1\<lparr>al_next_slot := length ?f, al_slot_hint := length ?f\<rparr>"
  have run: "sgen_array_list_remove_nulls a = Some ?a"
    by (simp add: sgen_array_list_remove_nulls_def foreach_slot_eq [OF ok] a1(1))
  have ok1: "al_ok k ?a" using a1(2) \<open>length ?f \<le> ?n\<close> n t by (simp add: al_ok_def)
  have vals: "al_values ?a = al_values a1" by (simp add: al_values_def)
  let ?z = "replicate (?n - length ?f) 0 @ drop ?n (al_values a)"
  have zero: "\<forall>v\<in>set ?z. v = 0" using tail by auto
  have empty: "al_get ?a i = Some 0" if "i < al_capacity ?a" "al_next_slot ?a \<le> i" for i
  proof -
    have "i < length (al_values a1)" using that(1) by (simp add: al_values_def)
    then have "al_values a1 ! i = 0" using nth_append_const [OF a1(4) zero] that(2) by simp
    then show ?thesis using al_get_values [OF ok1 that(1)] vals by simp
  qed
  have "filter (\<lambda>v. v \<noteq> 0) ?z = []" unfolding filter_empty_conv using zero by blast
  then have vs: "filter (\<lambda>v. v \<noteq> 0) (al_values a1) = ?f" unfolding a1(4) filter_append [of _ ?f] by simp
  show thesis
  proof (rule that [of ?a])
    show "al_full k ?a" using ok1 empty by (simp add: al_full_def)
    show "default_setter ?a" using f t by (simp add: default_setter_def)
    show "filter (\<lambda>v. v \<noteq> 0) (al_values ?a) = filter (\<lambda>v. v \<noteq> 0) (al_values a)" by (simp only: vals vs all)
    show "al_next_slot ?a = length (filter (\<lambda>v. v \<noteq> 0) (al_values a))" by (simp only: all) simp
  qed (rule run)
qed

lemma added_values:
  assumes full: "al_full k a" and add: "added ptr i a a'" "al_ok k' a'" "ptr \<noteq> 0"
  shows "al_full k' a'" "mset (filter (\<lambda>v. v \<noteq> 0) (al_values a')) = add_mset ptr (mset (filter (\<lambda>v. v \<noteq> 0) (al_values a)))"
proof -
  have ok: "al_ok k a" and z: "\<forall>j<al_capacity a. al_next_slot a \<le> j \<longrightarrow> al_get a j = Some 0" using full by (simp_all add: al_full_def)
  have g: "\<And>j. j < al_capacity a' \<Longrightarrow> al_get a' j = (if j = i then Some ptr else if j < al_capacity a then al_get a j else Some 0)"
    and i: "i < al_capacity a'" and cap: "al_capacity a \<le> al_capacity a'" and old: "al_get a i \<in> {None, Some 0}"
    and nx: "al_next_slot a' = next_slot_after i a" using add(1) al_okD(4) [OF add(2)] by (auto simp: added_def)
  show "al_full k' a'" using add(2) g z nx unfolding al_full_def next_slot_after_def by (simp add: Suc_le_eq)
  let ?old = "al_values a @ replicate (al_capacity a' - al_capacity a) 0"
  have len: "length (al_values a) = al_capacity a" "length ?old = al_capacity a'" using cap by (simp_all add: al_values_def)
  have "?old ! i = 0"
  proof (cases "i < al_capacity a")
    case True
    then show ?thesis using al_get_values [OF ok True] old len(1) by (simp add: nth_append)
  qed (use i len in \<open>simp add: nth_append\<close>)
  have "al_values a' = ?old[i := ptr]"
  proof (rule nth_equalityI)
    show "length (al_values a') = length (?old[i := ptr])" using len by (simp add: al_values_def)
    fix j assume "j < length (al_values a')"
    then have j: "j < al_capacity a'" by (simp add: al_values_def)
    have "Some (al_values a' ! j) = al_get a' j" by (rule al_get_values [OF add(2) j, symmetric])
    also have "\<dots> = Some (?old[i := ptr] ! j)"
    proof (cases "j < al_capacity a")
      case True
      then show ?thesis using g [OF j] al_get_values [OF ok True] i len by (auto simp: nth_list_update nth_append)
    next
      case False
      then show ?thesis using g [OF j] i j len by (auto simp: nth_list_update nth_append)
    qed
    finally show "al_values a' ! j = ?old[i := ptr] ! j" by simp
  qed
  then have "mset (al_values a') = add_mset ptr (mset ?old - {#0#})" using mset_update [of i ?old ptr] i len(2) \<open>?old ! i = 0\<close> by simp
  then have "filter_mset (\<lambda>v. v \<noteq> 0) (mset (al_values a')) = add_mset ptr (filter_mset (\<lambda>v. v \<noteq> 0) (mset ?old))"
    using add(3) by simp
  then show "mset (filter (\<lambda>v. v \<noteq> 0) (al_values a')) = add_mset ptr (mset (filter (\<lambda>v. v \<noteq> 0) (al_values a)))" by simp
qed

end
