(* ===== verification/Sgen_Descriptor.thy ===== *)
theory Sgen_Descriptor
  imports Sgen_ArrayList
begin

unbundle bit_operations_syntax

text \<open>
  GC descriptors, \<open>sgen/sgen-descriptor.{h,c}\<close>, the scan of an object through its descriptor
  (\<open>sgen-scan-object.h\<close>) and of a root area (\<open>sgen-gc.c\<close>), in the 64-bit build: words of 64
  bits, an object header of two words. A \<open>gsize*\<close> bitmap is a list of words; a bit count is a
  natural number. The scan macros give the list of the slots they hand to \<open>HANDLE_PTR\<close>, as
  offsets from the start of the object (in words) or from the first array element (in bytes).
  The gc lock around the search is not visible in the state.
\<close>

section \<open>Constants\<close>

definition SGEN_MAX_SMALL_OBJ_SIZE :: u64 where "SGEN_MAX_SMALL_OBJ_SIZE = 8000"
definition GC_BITS_PER_WORD :: nat where "GC_BITS_PER_WORD = 8 * 8"
definition OBJECT_HEADER_WORDS :: nat where "OBJECT_HEADER_WORDS = 2"
definition LOW_TYPE_BITS :: nat where "LOW_TYPE_BITS = 3"
definition DESC_TYPE_MASK :: u64 where "DESC_TYPE_MASK = push_bit LOW_TYPE_BITS 1 - 1"
definition MAX_RUNLEN_OBJECT_SIZE :: u64 where "MAX_RUNLEN_OBJECT_SIZE = 0xFFFF"
definition VECTOR_INFO_SHIFT :: nat where "VECTOR_INFO_SHIFT = 14"
definition VECTOR_KIND_SHIFT :: nat where "VECTOR_KIND_SHIFT = 13"
definition VECTOR_ELSIZE_SHIFT :: nat where "VECTOR_ELSIZE_SHIFT = 3"
definition VECTOR_BITMAP_SHIFT :: nat where "VECTOR_BITMAP_SHIFT = 16"
definition VECTOR_BITMAP_SIZE :: nat where "VECTOR_BITMAP_SIZE = GC_BITS_PER_WORD - VECTOR_BITMAP_SHIFT"
definition BITMAP_NUM_BITS :: nat where "BITMAP_NUM_BITS = GC_BITS_PER_WORD - LOW_TYPE_BITS"
definition MAX_ELEMENT_SIZE :: u64 where "MAX_ELEMENT_SIZE = 0x3ff"
definition MAX_USER_DESCRIPTORS :: nat where "MAX_USER_DESCRIPTORS = 16"

definition DESC_TYPE_RUN_LENGTH :: u64 where "DESC_TYPE_RUN_LENGTH = 1"
definition DESC_TYPE_BITMAP :: u64 where "DESC_TYPE_BITMAP = 2"
definition DESC_TYPE_SMALL_PTRFREE :: u64 where "DESC_TYPE_SMALL_PTRFREE = 3"
definition DESC_TYPE_COMPLEX :: u64 where "DESC_TYPE_COMPLEX = 4"
definition DESC_TYPE_VECTOR :: u64 where "DESC_TYPE_VECTOR = 5"
definition DESC_TYPE_COMPLEX_ARR :: u64 where "DESC_TYPE_COMPLEX_ARR = 6"
definition DESC_TYPE_COMPLEX_PTRFREE :: u64 where "DESC_TYPE_COMPLEX_PTRFREE = 7"
definition DESC_TYPE_PTRFREE_MASK :: u64 where "DESC_TYPE_PTRFREE_MASK = 3"
definition DESC_TYPE_PTRFREE_BITS :: u64 where "DESC_TYPE_PTRFREE_BITS = 3"

definition DESC_TYPE_V_SZARRAY :: u64 where "DESC_TYPE_V_SZARRAY = 0"
definition DESC_TYPE_V_ARRAY :: u64 where "DESC_TYPE_V_ARRAY = 1"
definition DESC_TYPE_V_PTRFREE :: u64 where "DESC_TYPE_V_PTRFREE = 0"
definition DESC_TYPE_V_REFS :: u64 where "DESC_TYPE_V_REFS = 1"
definition DESC_TYPE_V_RUN_LEN :: u64 where "DESC_TYPE_V_RUN_LEN = 2"
definition DESC_TYPE_V_BITMAP :: u64 where "DESC_TYPE_V_BITMAP = 3"

definition VECTOR_SUBTYPE_PTRFREE :: u64 where
  "VECTOR_SUBTYPE_PTRFREE = push_bit VECTOR_INFO_SHIFT DESC_TYPE_V_PTRFREE"
definition VECTOR_SUBTYPE_REFS :: u64 where
  "VECTOR_SUBTYPE_REFS = push_bit VECTOR_INFO_SHIFT DESC_TYPE_V_REFS"
definition VECTOR_SUBTYPE_BITMAP :: u64 where
  "VECTOR_SUBTYPE_BITMAP = push_bit VECTOR_INFO_SHIFT DESC_TYPE_V_BITMAP"
definition VECTOR_KIND_SZARRAY :: u64 where
  "VECTOR_KIND_SZARRAY = push_bit VECTOR_KIND_SHIFT DESC_TYPE_V_SZARRAY"
definition VECTOR_KIND_ARRAY :: u64 where
  "VECTOR_KIND_ARRAY = push_bit VECTOR_KIND_SHIFT DESC_TYPE_V_ARRAY"

definition ROOT_DESC_CONSERVATIVE :: u64 where "ROOT_DESC_CONSERVATIVE = 0"
definition ROOT_DESC_BITMAP :: u64 where "ROOT_DESC_BITMAP = 1"
definition ROOT_DESC_RUN_LEN :: u64 where "ROOT_DESC_RUN_LEN = 2"
definition ROOT_DESC_COMPLEX :: u64 where "ROOT_DESC_COMPLEX = 3"
definition ROOT_DESC_VECTOR :: u64 where "ROOT_DESC_VECTOR = 4"
definition ROOT_DESC_USER :: u64 where "ROOT_DESC_USER = 5"
definition ROOT_DESC_TYPE_MASK :: u64 where "ROOT_DESC_TYPE_MASK = 0x7"
definition ROOT_DESC_TYPE_SHIFT :: nat where "ROOT_DESC_TYPE_SHIFT = 3"

definition MAKE_ROOT_DESC :: "u64 \<Rightarrow> u64 \<Rightarrow> u64" where
  "MAKE_ROOT_DESC type val = type OR push_bit ROOT_DESC_TYPE_SHIFT val"

definition SGEN_ALIGN_UP :: "u64 \<Rightarrow> u64" where
  "SGEN_ALIGN_UP s = (s + (8 - 1)) AND NOT (8 - 1)"

lemmas desc_consts = SGEN_MAX_SMALL_OBJ_SIZE_def GC_BITS_PER_WORD_def OBJECT_HEADER_WORDS_def LOW_TYPE_BITS_def
  DESC_TYPE_MASK_def MAX_RUNLEN_OBJECT_SIZE_def VECTOR_INFO_SHIFT_def VECTOR_KIND_SHIFT_def VECTOR_ELSIZE_SHIFT_def
  VECTOR_BITMAP_SHIFT_def VECTOR_BITMAP_SIZE_def BITMAP_NUM_BITS_def MAX_ELEMENT_SIZE_def
  DESC_TYPE_RUN_LENGTH_def DESC_TYPE_BITMAP_def DESC_TYPE_SMALL_PTRFREE_def DESC_TYPE_COMPLEX_def DESC_TYPE_VECTOR_def
  DESC_TYPE_COMPLEX_ARR_def DESC_TYPE_COMPLEX_PTRFREE_def DESC_TYPE_PTRFREE_MASK_def DESC_TYPE_PTRFREE_BITS_def
  DESC_TYPE_V_SZARRAY_def DESC_TYPE_V_ARRAY_def DESC_TYPE_V_PTRFREE_def DESC_TYPE_V_REFS_def DESC_TYPE_V_RUN_LEN_def
  DESC_TYPE_V_BITMAP_def VECTOR_SUBTYPE_PTRFREE_def VECTOR_SUBTYPE_REFS_def VECTOR_SUBTYPE_BITMAP_def
  VECTOR_KIND_SZARRAY_def VECTOR_KIND_ARRAY_def ROOT_DESC_CONSERVATIVE_def ROOT_DESC_BITMAP_def ROOT_DESC_RUN_LEN_def
  ROOT_DESC_COMPLEX_def ROOT_DESC_VECTOR_def ROOT_DESC_USER_def ROOT_DESC_TYPE_MASK_def ROOT_DESC_TYPE_SHIFT_def

section \<open>State\<close>

record 'm sgen_descriptors =
  complex_descriptors :: SgenArrayList
  user_descriptors :: "'m list"
  all_ref_root_descrs :: "u64 list"

definition init_descriptors :: "'m sgen_descriptors" where
  "init_descriptors = \<lparr>complex_descriptors = SGEN_ARRAY_LIST_INIT False None None, user_descriptors = [],
     all_ref_root_descrs = replicate 32 0\<rparr>"

section \<open>Complex descriptors\<close>

text \<open>The words from a slot on, as \<open>((gsize*)slot) [j]\<close>.\<close>

definition slot_word :: "nat \<times> nat \<Rightarrow> nat \<Rightarrow> SgenArrayList \<Rightarrow> u64 option" where
  "slot_word slot j array = read_slot (fst slot, snd slot + j) array"

definition bitmap_word :: "u64 list \<Rightarrow> nat \<Rightarrow> u64 option" where
  "bitmap_word bitmap j = (if j < length bitmap then Some (bitmap ! j) else None)"

function same_bitmap :: "u64 list \<Rightarrow> nat \<times> nat \<Rightarrow> nat \<Rightarrow> nat \<Rightarrow> SgenArrayList \<Rightarrow> bool option" where
  "same_bitmap bitmap slot j n array =
    (if j < n then
       do {
         w \<leftarrow> slot_word slot (j + 1) array;
         b \<leftarrow> bitmap_word bitmap j;
         if w \<noteq> b then Some False else same_bitmap bitmap slot (j + 1) n array }
     else Some True)"
  by pat_completeness auto
termination
  by (relation "measure (\<lambda>(bitmap, slot, j, n, array). n - j)") auto

declare same_bitmap.simps [simp del]

text \<open>The body of the search skips a descriptor by moving the macro's own counters.\<close>

partial_function (option) search_bucket ::
    "u64 list \<Rightarrow> nat \<Rightarrow> nat \<Rightarrow> nat \<Rightarrow> nat \<Rightarrow> nat \<Rightarrow> SgenArrayList \<Rightarrow> (nat + nat) option" where
  "search_bucket bitmap nwords next_slot bucket offset index array =
    (if offset < sgen_array_list_bucket_size bucket \<and> index < next_slot then
       do {
         first_word \<leftarrow> slot_word (bucket, offset) 0 array;
         if first_word = 0 then search_bucket bitmap nwords next_slot bucket (offset + 1) (index + 1) array
         else
           do {
             found \<leftarrow> (if first_word = of_nat nwords then same_bitmap bitmap (bucket, offset) 0 (nwords - 1) array
                      else Some False);
             if found then Some (Inl index)
             else
               let skip = unat (ucast (first_word - 1) :: u32) in
               search_bucket bitmap nwords next_slot bucket (offset + skip + 1) (index + skip + 1) array } }
     else Some (Inr index))"

declare search_bucket.simps [code]

function search_buckets :: "u64 list \<Rightarrow> nat \<Rightarrow> nat \<Rightarrow> nat \<Rightarrow> nat \<Rightarrow> nat \<Rightarrow> SgenArrayList \<Rightarrow> nat option option" where
  "search_buckets bitmap nwords next_slot max_bucket bucket index array =
    (if bucket < max_bucket then
       do {
         r \<leftarrow> search_bucket bitmap nwords next_slot bucket 0 index array;
         case r of
           Inl found \<Rightarrow> Some (Some found)
         | Inr index \<Rightarrow> search_buckets bitmap nwords next_slot max_bucket (bucket + 1) index array }
     else Some None)"
  by pat_completeness auto
termination
  by (relation "measure (\<lambda>(bitmap, nwords, next_slot, max_bucket, bucket, index, array). max_bucket - bucket)") auto

declare search_buckets.simps [simp del]

definition write_slot_word :: "nat \<times> nat \<Rightarrow> nat \<Rightarrow> u64 \<Rightarrow> SgenArrayList \<Rightarrow> SgenArrayList option" where
  "write_slot_word slot j v array = write_slot (fst slot, snd slot + j) v array"

function store_bitmap :: "u64 list \<Rightarrow> nat \<times> nat \<Rightarrow> nat \<Rightarrow> nat \<Rightarrow> SgenArrayList \<Rightarrow> SgenArrayList option" where
  "store_bitmap bitmap slot i n array =
    (if i < n then
       do {
         b \<leftarrow> bitmap_word bitmap i;
         array \<leftarrow> write_slot_word slot (1 + i) b array;
         store_bitmap bitmap slot (i + 1) n array }
     else Some array)"
  by pat_completeness auto
termination
  by (relation "measure (\<lambda>(bitmap, slot, i, n, array). n - i)") auto

declare store_bitmap.simps [simp del]

definition alloc_complex_descriptor :: "u64 list \<Rightarrow> nat \<Rightarrow> SgenArrayList \<Rightarrow> (nat \<times> SgenArrayList) option" where
  "alloc_complex_descriptor bitmap numbits array =
    (let numbits = (numbits + GC_BITS_PER_WORD - 1) div GC_BITS_PER_WORD * GC_BITS_PER_WORD;
         nwords = numbits div GC_BITS_PER_WORD + 1 in
     do {
       found \<leftarrow> search_buckets bitmap nwords (al_next_slot array)
         (sgen_array_list_index_bucket (al_capacity array)) 0 0 array;
       case found of
         Some index \<Rightarrow> Some (index, array)
       | None \<Rightarrow>
           do {
             (res, array) \<leftarrow> sgen_array_list_alloc_block nwords array;
             descriptor \<leftarrow> sgen_array_list_get_slot array res;
             array \<leftarrow> write_slot_word descriptor 0 (of_nat nwords) array;
             array \<leftarrow> store_bitmap bitmap descriptor 0 (nwords - 1) array;
             Some (res, array) } })"

definition sgen_get_complex_descriptor :: "u64 \<Rightarrow> SgenArrayList \<Rightarrow> (nat \<times> nat) option" where
  "sgen_get_complex_descriptor desc array =
    sgen_array_list_get_slot array (unat (ucast (drop_bit LOW_TYPE_BITS desc) :: u32))"

definition sgen_get_complex_descriptor_bitmap :: "u64 \<Rightarrow> SgenArrayList \<Rightarrow> (nat \<times> nat) option" where
  "sgen_get_complex_descriptor_bitmap desc array =
    sgen_array_list_get_slot array (unat (ucast (drop_bit ROOT_DESC_TYPE_SHIFT desc) :: u32))"

section \<open>Builders\<close>

text \<open>
  The loop over the bits of a bitmap, with the first set bit, the number of set bits and the
  last set bit (\<open>-1\<close> while there is none).
\<close>

function scan_bits :: "u64 list \<Rightarrow> nat \<Rightarrow> nat \<Rightarrow> int \<times> int \<times> int \<Rightarrow> (int \<times> int \<times> int) option" where
  "scan_bits bitmap i numbits acc =
    (if i < numbits then
       do {
         w \<leftarrow> bitmap_word bitmap (i div GC_BITS_PER_WORD);
         scan_bits bitmap (i + 1) numbits
           (case acc of (first_set, num_set, last_set) \<Rightarrow>
              if w AND push_bit (i mod GC_BITS_PER_WORD) 1 \<noteq> 0
              then (if first_set < 0 then int i else first_set, num_set + 1, int i) else acc) }
     else Some acc)"
  by pat_completeness auto
termination
  by (relation "measure (\<lambda>(bitmap, i, numbits, acc). numbits - i)") auto

declare scan_bits.simps [simp del]

text \<open>An \<open>int\<close> shifted left and widened to a descriptor; the sign is extended.\<close>

definition int_shifted :: "int \<Rightarrow> nat \<Rightarrow> u64" where
  "int_shifted x n = scast (push_bit n (word_of_int x :: u32))"

definition mono_gc_make_descr_for_object ::
    "u64 list \<Rightarrow> nat \<Rightarrow> u64 \<Rightarrow> SgenArrayList \<Rightarrow> (u64 \<times> SgenArrayList) option" where
  "mono_gc_make_descr_for_object bitmap numbits obj_size array =
    (let stored_size = SGEN_ALIGN_UP obj_size in
     do {
       (first_set, num_set, last_set) \<leftarrow> scan_bits bitmap 0 numbits (-1, 0, -1);
       if first_set < 0 then
         (if stored_size \<le> MAX_RUNLEN_OBJECT_SIZE \<and> stored_size \<le> SGEN_MAX_SMALL_OBJ_SIZE
          then Some (DESC_TYPE_SMALL_PTRFREE OR stored_size, array)
          else Some (DESC_TYPE_COMPLEX_PTRFREE, array))
       else if stored_size AND 0x7 \<noteq> 0 then None
       else if last_set < int (BITMAP_NUM_BITS + OBJECT_HEADER_WORDS) \<and> stored_size \<le> SGEN_MAX_SMALL_OBJ_SIZE then
         do {
           w \<leftarrow> bitmap_word bitmap 0;
           Some (DESC_TYPE_BITMAP OR push_bit LOW_TYPE_BITS (drop_bit OBJECT_HEADER_WORDS w), array) }
       else if (stored_size \<le> MAX_RUNLEN_OBJECT_SIZE \<and> stored_size \<le> SGEN_MAX_SMALL_OBJ_SIZE) \<and>
           first_set < 256 \<and> num_set < 256 \<and> first_set + num_set = last_set + 1 then
         Some (DESC_TYPE_RUN_LENGTH OR stored_size OR int_shifted first_set 16 OR int_shifted num_set 24, array)
       else
         do {
           (res, array) \<leftarrow> alloc_complex_descriptor bitmap (nat (last_set + 1)) array;
           Some (DESC_TYPE_COMPLEX OR int_shifted (int res) LOW_TYPE_BITS, array) } })"

definition mono_gc_make_descr_for_array ::
    "bool \<Rightarrow> u64 list \<Rightarrow> nat \<Rightarrow> u64 \<Rightarrow> SgenArrayList \<Rightarrow> (u64 \<times> SgenArrayList) option" where
  "mono_gc_make_descr_for_array vector elem_bitmap numbits elem_size array =
    (let desc = DESC_TYPE_VECTOR OR (if vector then VECTOR_KIND_SZARRAY else VECTOR_KIND_ARRAY);
         sized = desc OR push_bit VECTOR_ELSIZE_SHIFT elem_size in
     do {
       (first_set, num_set, last_set) \<leftarrow> scan_bits elem_bitmap 0 numbits (-1, 0, -1);
       if first_set < 0 then
         (if elem_size \<le> MAX_ELEMENT_SIZE
          then Some (desc OR VECTOR_SUBTYPE_PTRFREE OR push_bit VECTOR_ELSIZE_SHIFT elem_size, array)
          else Some (DESC_TYPE_COMPLEX_PTRFREE, array))
       else if elem_size \<le> MAX_ELEMENT_SIZE \<and> num_set = 0 then Some (sized OR VECTOR_SUBTYPE_PTRFREE, array)
       else if elem_size \<le> MAX_ELEMENT_SIZE \<and> word_of_int num_set * 8 = elem_size then
         Some (sized OR VECTOR_SUBTYPE_REFS OR push_bit 16 (- 1), array)
       else if elem_size \<le> MAX_ELEMENT_SIZE \<and> last_set < int VECTOR_BITMAP_SIZE then
         do {
           w \<leftarrow> bitmap_word elem_bitmap 0;
           Some (sized OR VECTOR_SUBTYPE_BITMAP OR push_bit 16 w, array) }
       else
         do {
           (res, array) \<leftarrow> alloc_complex_descriptor elem_bitmap (nat (last_set + 1)) array;
           Some (DESC_TYPE_COMPLEX_ARR OR int_shifted (int res) LOW_TYPE_BITS, array) } })"

text \<open>Decoding into a bitmap and a bit count.\<close>

function set_run :: "nat \<Rightarrow> nat \<Rightarrow> u64 list \<Rightarrow> u64 list option" where
  "set_run i end' bitmap =
    (if i < end' then
       do {
         w \<leftarrow> bitmap_word bitmap (i div GC_BITS_PER_WORD);
         set_run (i + 1) end' (bitmap[i div GC_BITS_PER_WORD := w OR push_bit (i mod GC_BITS_PER_WORD) 1]) }
     else Some bitmap)"
  by pat_completeness auto
termination
  by (relation "measure (\<lambda>(i, end', bitmap). end' - i)") auto

declare set_run.simps [simp del]

lemma half_less: "bmap \<noteq> 0 \<Longrightarrow> unat (drop_bit 1 bmap) < unat (bmap :: u64)"
  by (simp add: drop_bit_eq_div unat_div unat_gt_0)

function bit_count :: "u64 \<Rightarrow> nat \<Rightarrow> nat" where
  "bit_count bmap numbits = (if bmap \<noteq> 0 then bit_count (drop_bit 1 bmap) (numbits + 1) else numbits)"
  by pat_completeness auto
termination
  by (relation "measure (\<lambda>(bmap, numbits). unat bmap)") (auto intro: half_less [unfolded One_nat_def])

declare bit_count.simps [simp del]

fun copy_words :: "nat \<times> nat \<Rightarrow> nat \<Rightarrow> nat \<Rightarrow> SgenArrayList \<Rightarrow> u64 list option" where
  "copy_words slot i 0 array = Some []"
| "copy_words slot i (Suc n) array =
    do {
      w \<leftarrow> slot_word slot (i + 1) array;
      ws \<leftarrow> copy_words slot (i + 1) n array;
      Some (w # ws) }"

definition mono_gc_get_bitmap_for_descr :: "u64 \<Rightarrow> SgenArrayList \<Rightarrow> (u64 list \<times> nat) option" where
  "mono_gc_get_bitmap_for_descr d array =
    (if d AND DESC_TYPE_MASK = DESC_TYPE_RUN_LENGTH then
       (let first_set = unat (drop_bit 16 d AND 0xff);
            num_set = unat (drop_bit 24 d AND 0xff) in
        do {
          bitmap \<leftarrow> set_run first_set (first_set + num_set) (replicate ((first_set + num_set + 7) div 8) 0);
          Some (bitmap, first_set + num_set) })
     else if d AND DESC_TYPE_MASK = DESC_TYPE_BITMAP then
       (let bmap = push_bit OBJECT_HEADER_WORDS (drop_bit LOW_TYPE_BITS d) in
        Some ([bmap], bit_count bmap 0))
     else if d AND DESC_TYPE_MASK = DESC_TYPE_COMPLEX then
       do {
         bitmap_data \<leftarrow> sgen_get_complex_descriptor d array;
         first_word \<leftarrow> slot_word bitmap_data 0 array;
         let bwords = unat first_word - 1;
         bitmap \<leftarrow> copy_words bitmap_data 0 bwords array;
         Some (bitmap, bwords * GC_BITS_PER_WORD) }
     else None)"

definition mono_gc_make_descr_from_bitmap :: "u64 list \<Rightarrow> nat \<Rightarrow> SgenArrayList \<Rightarrow> (u64 \<times> SgenArrayList) option" where
  "mono_gc_make_descr_from_bitmap bitmap numbits array =
    (if numbits = 0 then Some (MAKE_ROOT_DESC ROOT_DESC_BITMAP 0, array)
     else if numbits < 8 * 8 - ROOT_DESC_TYPE_SHIFT then
       do { w \<leftarrow> bitmap_word bitmap 0; Some (MAKE_ROOT_DESC ROOT_DESC_BITMAP w, array) }
     else
       do {
         (complex, array) \<leftarrow> alloc_complex_descriptor bitmap numbits array;
         Some (MAKE_ROOT_DESC ROOT_DESC_COMPLEX (of_nat complex), array) })"

definition mono_gc_make_vector_descr :: u64 where
  "mono_gc_make_vector_descr = MAKE_ROOT_DESC ROOT_DESC_VECTOR 0"

text \<open>
  \<open>memset (gc_bitmap, 0xff, n)\<close> on zeroed words (little-endian, so the byte swaps are the
  identity), and the store of the remaining bits at word \<open>numbits / 8\<close>.
\<close>

definition memset_ff :: "nat \<Rightarrow> u64 list \<Rightarrow> u64 list" where
  "memset_ff n ws = map (\<lambda>j. if 8 * (j + 1) \<le> n then - 1 else if 8 * j < n then mask (8 * (n - 8 * j)) else ws ! j) [0..<length ws]"

definition mono_gc_make_root_descr_all_refs ::
    "nat \<Rightarrow> 'm sgen_descriptors \<Rightarrow> (u64 \<times> 'm sgen_descriptors) option" where
  "mono_gc_make_root_descr_all_refs numbits ds =
    (if numbits < 32 \<and> all_ref_root_descrs ds ! numbits \<noteq> 0 then Some (all_ref_root_descrs ds ! numbits, ds)
     else
       let num_bytes = numbits div 8;
           size = ((numbits + 7) div 8 * 8 + 1 + 7) div 8 * 8;
           gc_bitmap = memset_ff num_bytes (replicate (size div 8) 0) in
       do {
         gc_bitmap \<leftarrow>
           (if numbits mod 8 \<noteq> 0 then
              (if numbits div 8 < length gc_bitmap
               then Some (gc_bitmap[numbits div 8 := push_bit (numbits mod 8) 1 - 1]) else None)
            else Some gc_bitmap);
         (descr, complex) \<leftarrow> mono_gc_make_descr_from_bitmap gc_bitmap numbits (complex_descriptors ds);
         let ds = ds\<lparr>complex_descriptors := complex\<rparr>;
         Some (descr, if numbits < 32 then ds\<lparr>all_ref_root_descrs := (all_ref_root_descrs ds)[numbits := descr]\<rparr> else ds) })"

definition sgen_make_user_root_descriptor :: "'m \<Rightarrow> 'm sgen_descriptors \<Rightarrow> (u64 \<times> 'm sgen_descriptors) option" where
  "sgen_make_user_root_descriptor marker ds =
    (if length (user_descriptors ds) < MAX_USER_DESCRIPTORS
     then Some (MAKE_ROOT_DESC ROOT_DESC_USER (of_nat (length (user_descriptors ds))),
       ds\<lparr>user_descriptors := user_descriptors ds @ [marker]\<rparr>)
     else None)"

definition sgen_get_user_descriptor_func :: "u64 \<Rightarrow> 'm sgen_descriptors \<Rightarrow> 'm option" where
  "sgen_get_user_descriptor_func desc ds =
    (let i = unat (drop_bit ROOT_DESC_TYPE_SHIFT desc) in
     if i < length (user_descriptors ds) then Some (user_descriptors ds ! i) else None)"

definition sgen_gc_descr_has_references :: "u64 \<Rightarrow> bool" where
  "sgen_gc_descr_has_references desc \<longleftrightarrow>
    (if desc AND DESC_TYPE_PTRFREE_MASK = DESC_TYPE_PTRFREE_BITS then False
     else if desc AND 0xC007 = (DESC_TYPE_VECTOR OR VECTOR_SUBTYPE_PTRFREE) then False
     else True)"

section \<open>Scanning\<close>

definition OBJ_RUN_LEN_FOREACH_PTR :: "u64 \<Rightarrow> nat list" where
  "OBJ_RUN_LEN_FOREACH_PTR desc =
    (if desc AND 0xffff0000 \<noteq> 0 then
       let objptr = unat (drop_bit 16 desc AND 0xff);
           objptr_end = objptr + unat (drop_bit 24 desc AND 0xff) in
       [objptr..<objptr_end]
     else [])"

text \<open>\<open>__builtin_ctzl\<close>, undefined on 0.\<close>

function ctz_loop :: "nat \<Rightarrow> nat \<Rightarrow> nat" where
  "ctz_loop n i = (if 0 < n \<and> even n then ctz_loop (n div 2) (i + 1) else i)"
  by pat_completeness auto
termination
  by (relation "measure fst") auto

declare ctz_loop.simps [simp del]

definition GNUC_BUILTIN_CTZ :: "u64 \<Rightarrow> nat option" where
  "GNUC_BUILTIN_CTZ bmap = (if bmap = 0 then None else Some (ctz_loop (unat bmap) 0))"

partial_function (option) bitmap_foreach :: "u64 \<Rightarrow> nat \<Rightarrow> nat list option" where
  "bitmap_foreach bmap objptr =
    do {
      index \<leftarrow> GNUC_BUILTIN_CTZ bmap;
      let objptr = objptr + index;
      let bmap = drop_bit (index + 1) bmap;
      rest \<leftarrow> (if bmap \<noteq> 0 then bitmap_foreach bmap (objptr + 1) else Some []);
      Some (objptr # rest) }"

declare bitmap_foreach.simps [code]

definition OBJ_BITMAP_FOREACH_PTR :: "u64 \<Rightarrow> nat list option" where
  "OBJ_BITMAP_FOREACH_PTR desc = bitmap_foreach (drop_bit LOW_TYPE_BITS desc) OBJECT_HEADER_WORDS"

text \<open>The loop \<open>while (_bmap)\<close> over the bits of one word.\<close>

function bmap_foreach :: "u64 \<Rightarrow> nat \<Rightarrow> nat list" where
  "bmap_foreach bmap objptr =
    (if bmap \<noteq> 0 then (if bmap AND 1 \<noteq> 0 then [objptr] else []) @ bmap_foreach (drop_bit 1 bmap) (objptr + 1)
     else [])"
  by pat_completeness auto
termination
  by (relation "measure (\<lambda>(bmap, objptr). unat bmap)") (auto intro: half_less [unfolded One_nat_def])

declare bmap_foreach.simps [simp del]

fun complex_foreach :: "nat \<times> nat \<Rightarrow> nat \<Rightarrow> nat \<Rightarrow> nat \<Rightarrow> SgenArrayList \<Rightarrow> nat list option" where
  "complex_foreach bitmap_data j 0 start_run array = Some []"
| "complex_foreach bitmap_data j (Suc bwords) start_run array =
    do {
      bmap \<leftarrow> slot_word bitmap_data j array;
      rest \<leftarrow> complex_foreach bitmap_data (j + 1) bwords (start_run + GC_BITS_PER_WORD) array;
      Some (bmap_foreach bmap start_run @ rest) }"

definition OBJ_COMPLEX_FOREACH_PTR :: "u64 \<Rightarrow> SgenArrayList \<Rightarrow> nat list option" where
  "OBJ_COMPLEX_FOREACH_PTR desc array =
    do {
      bitmap_data \<leftarrow> sgen_get_complex_descriptor desc array;
      first_word \<leftarrow> slot_word bitmap_data 0 array;
      complex_foreach bitmap_data 1 (unat (first_word - 1)) 0 array }"

text \<open>
  Arrays: the offsets in bytes at which the elements start, then the offsets of the references
  in each.
\<close>

function element_starts :: "nat \<Rightarrow> nat \<Rightarrow> nat \<Rightarrow> nat list" where
  "element_starts el_size e_start e_end =
    (if e_start < e_end \<and> 0 < el_size then e_start # element_starts el_size (e_start + el_size) e_end else [])"
  by pat_completeness auto
termination
  by (relation "measure (\<lambda>(el_size, e_start, e_end). e_end - e_start)") auto

declare element_starts.simps [simp del]

definition OBJ_COMPLEX_ARR_FOREACH_PTR :: "u64 \<Rightarrow> nat \<Rightarrow> nat \<Rightarrow> SgenArrayList \<Rightarrow> nat list option" where
  "OBJ_COMPLEX_ARR_FOREACH_PTR desc el_size length' array =
    do {
      mbitmap_data \<leftarrow> sgen_get_complex_descriptor desc array;
      first_word \<leftarrow> slot_word mbitmap_data 0 array;
      refs \<leftarrow> complex_foreach mbitmap_data 1 (unat (first_word - 1)) 0 array;
      Some (concat (map (\<lambda>e_start. map (\<lambda>p. e_start + 8 * p) refs) (element_starts el_size 0 (el_size * length')))) }"

definition OBJ_VECTOR_FOREACH_PTR :: "u64 \<Rightarrow> nat \<Rightarrow> nat list" where
  "OBJ_VECTOR_FOREACH_PTR desc length' =
    (if desc AND 0xffffc000 \<noteq> 0 then
       let el_size = unat (drop_bit 3 desc AND MAX_ELEMENT_SIZE);
           etype = desc AND 0xc000 in
       if etype = push_bit 14 DESC_TYPE_V_REFS then element_starts 8 0 (el_size * length')
       else if etype = push_bit 14 DESC_TYPE_V_RUN_LEN then
         (let offset = unat (drop_bit 16 desc AND 0xff);
              num_refs = unat (drop_bit 24 desc AND 0xff) in
          concat (map (\<lambda>e_start. map (\<lambda>i. e_start + 8 * (offset + i)) [0..<num_refs])
            (element_starts el_size 0 (el_size * length'))))
       else if etype = push_bit 14 DESC_TYPE_V_BITMAP then
         concat (map (\<lambda>e_start. map (\<lambda>p. e_start + 8 * p) (bmap_foreach (drop_bit 16 desc) 0))
           (element_starts el_size 0 (el_size * length')))
       else []
     else [])"

text \<open>
  The switch of \<open>sgen-scan-object.h\<close>: the references in an object (word offsets) or in the
  elements of an array (byte offsets); no scan for the pointer-free types.
\<close>

datatype scanned = Object_Refs "nat list" | Array_Refs "nat list" | No_Refs

definition scan_object :: "u64 \<Rightarrow> nat \<Rightarrow> nat \<Rightarrow> SgenArrayList \<Rightarrow> scanned option" where
  "scan_object desc el_size length' array =
    (let type = desc AND DESC_TYPE_MASK in
     if type = DESC_TYPE_RUN_LENGTH then Some (Object_Refs (OBJ_RUN_LEN_FOREACH_PTR desc))
     else if type = DESC_TYPE_VECTOR then Some (Array_Refs (OBJ_VECTOR_FOREACH_PTR desc length'))
     else if type = DESC_TYPE_BITMAP then map_option Object_Refs (OBJ_BITMAP_FOREACH_PTR desc)
     else if type = DESC_TYPE_COMPLEX then map_option Object_Refs (OBJ_COMPLEX_FOREACH_PTR desc array)
     else if type = DESC_TYPE_COMPLEX_ARR then
       map_option Array_Refs (OBJ_COMPLEX_ARR_FOREACH_PTR desc el_size length' array)
     else if type = DESC_TYPE_SMALL_PTRFREE \<or> type = DESC_TYPE_COMPLEX_PTRFREE then Some No_Refs
     else None)"

text \<open>
  A root area: the slots (offsets from \<open>start_root\<close>) that are handed on, those that hold null
  left out; the area is a list of words. A user descriptor calls its marker.
\<close>

datatype 'm root_visit = Visit_Slots "nat list" | Call_Marker 'm

fun nonnull_slots :: "u64 list \<Rightarrow> nat list \<Rightarrow> nat list option" where
  "nonnull_slots root [] = Some []"
| "nonnull_slots root (p # ps) =
    do {
      v \<leftarrow> bitmap_word root p;
      rest \<leftarrow> nonnull_slots root ps;
      Some (if v \<noteq> 0 then p # rest else rest) }"

definition precisely_scan_objects_from :: "u64 list \<Rightarrow> u64 \<Rightarrow> 'm sgen_descriptors \<Rightarrow> 'm root_visit option" where
  "precisely_scan_objects_from root desc ds =
    (let type = desc AND ROOT_DESC_TYPE_MASK in
     if type = ROOT_DESC_BITMAP then
       map_option Visit_Slots (nonnull_slots root (bmap_foreach (drop_bit ROOT_DESC_TYPE_SHIFT desc) 0))
     else if type = ROOT_DESC_COMPLEX then
       do {
         bitmap_data \<leftarrow> sgen_get_complex_descriptor_bitmap desc (complex_descriptors ds);
         first_word \<leftarrow> slot_word bitmap_data 0 (complex_descriptors ds);
         ps \<leftarrow> complex_foreach bitmap_data 1 (unat (first_word - 1)) 0 (complex_descriptors ds);
         map_option Visit_Slots (nonnull_slots root ps) }
     else if type = ROOT_DESC_VECTOR then map_option Visit_Slots (nonnull_slots root [0..<length root])
     else if type = ROOT_DESC_USER then map_option Call_Marker (sgen_get_user_descriptor_func desc ds)
     else None)"

end
