(* ===== verification/Sgen_DescriptorScan.thy ===== *)
theory Sgen_DescriptorScan
  imports Sgen_Descriptor
begin

unbundle bit_operations_syntax

text \<open>
  What the descriptors mean: the references a bitmap stands for (\<open>bitmap_refs\<close>), the layout of
  the complex descriptors in their array list (\<open>dsc_ok\<close>, with the blocks that tile it), and the
  proof that the descriptor built for an object makes the scan visit exactly its references.
\<close>

section \<open>The references a bitmap stands for\<close>

definition bitmap_refs :: "u64 list \<Rightarrow> nat \<Rightarrow> nat list" where
  "bitmap_refs bitmap n = filter (\<lambda>i. bit (bitmap ! (i div 64)) (i mod 64)) [0..<n]"

definition word_refs :: "u64 \<Rightarrow> nat list" where
  "word_refs w = filter (bit w) [0..<64]"

definition refs_summary :: "nat list \<Rightarrow> int \<times> int \<times> int" where
  "refs_summary xs = (if xs = [] then (-1, 0, -1) else (int (hd xs), int (length xs), int (last xs)))"

lemma and_push_one: "w AND push_bit n 1 \<noteq> 0 \<longleftrightarrow> bit (w :: u64) n"
proof
  assume "bit w n"
  then have "bit (w AND push_bit n 1) n" by (auto simp: bit_simps dest: bit_imp_le_length)
  then show "w AND push_bit n 1 \<noteq> 0" by (metis bit_0_eq bot_apply bot_bool_def)
next
  assume "w AND push_bit n 1 \<noteq> 0"
  then obtain j where "bit (w AND push_bit n 1) j" by (metis bit_eq_iff bit_0_eq bot_apply bot_bool_def)
  then show "bit w n" by (auto simp: bit_simps)
qed

lemma bitmap_refs_Suc:
  "bitmap_refs bitmap (Suc n) = bitmap_refs bitmap n @ (if bit (bitmap ! (n div 64)) (n mod 64) then [n] else [])"
  by (simp add: bitmap_refs_def)

lemma scan_bits_from:
  assumes "n \<le> 64 * length bitmap" "i \<le> n"
  shows "scan_bits bitmap i n (refs_summary (bitmap_refs bitmap i)) = Some (refs_summary (bitmap_refs bitmap n))"
  using assms(2)
proof (induction "n - i" arbitrary: i)
  case 0
  then show ?case by (subst scan_bits.simps) simp
next
  case (Suc m)
  then have i: "i < n" by simp
  then have l: "i div 64 < length bitmap" using assms(1) by (simp add: less_mult_imp_div_less mult.commute)
  let ?b = "bit (bitmap ! (i div 64)) (i mod 64)"
  have step: "(case refs_summary (bitmap_refs bitmap i) of (first_set, num_set, last_set) \<Rightarrow>
      if ?b then (if first_set < 0 then int i else first_set, num_set + 1, int i)
      else refs_summary (bitmap_refs bitmap i)) = refs_summary (bitmap_refs bitmap (Suc i))"
    by (auto simp: refs_summary_def bitmap_refs_Suc)
  show ?case
    using Suc.hyps(1) [of "Suc i"] Suc.hyps(2) i l
    by (subst scan_bits.simps)
      (simp add: bitmap_word_def and_push_one [unfolded push_bit_of_1] GC_BITS_PER_WORD_def step [symmetric])
qed

lemma scan_bits_eq:
  "n \<le> 64 * length bitmap \<Longrightarrow> scan_bits bitmap 0 n (-1, 0, -1) = Some (refs_summary (bitmap_refs bitmap n))"
  using scan_bits_from [of n bitmap 0] by (simp add: refs_summary_def bitmap_refs_def)

lemma upt_Suc_map: "[0..<Suc n] = 0 # map Suc [0..<n]"
  by (simp add: map_Suc_upt upt_conv_Cons del: upt_Suc)

lemma bmap_foreach_upto:
  "drop_bit n w = 0 \<Longrightarrow> bmap_foreach w p = map ((+) p) (filter (bit w) [0..<n])"
proof (induction n arbitrary: w p)
  case 0
  then show ?case by (simp add: bmap_foreach.simps)
next
  case (Suc n)
  have d: "drop_bit n (drop_bit 1 w) = 0" using Suc.prems by (simp add: drop_bit_drop_bit)
  have f: "filter (bit w) [0..<Suc n] = (if bit w 0 then [0] else []) @ map Suc (filter (bit (drop_bit 1 w)) [0..<n])"
    unfolding upt_Suc_map by (simp add: filter_map o_def bit_drop_bit_eq)
  have a: "w AND 1 \<noteq> 0 \<longleftrightarrow> bit w 0" using and_push_one [of w 0] by simp
  show ?case
  proof (cases "w = 0")
    case True
    then show ?thesis by (simp add: bmap_foreach.simps)
  next
    case False
    then show ?thesis using Suc.IH [OF d, of "p + 1"] unfolding f
      by (subst bmap_foreach.simps) (simp only: a, simp add: o_def)
  qed
qed

lemma drop_64: "drop_bit 64 (w :: u64) = 0"
  by (rule bit_word_eqI) (simp add: bit_simps)

lemma bmap_foreach_eq: "bmap_foreach w p = map ((+) p) (word_refs w)"
  by (simp add: bmap_foreach_upto [OF drop_64] word_refs_def)

lemma ctz_loop_spec:
  "0 < n \<Longrightarrow> ctz_loop n i \<ge> i \<and> bit n (ctz_loop n i - i) \<and> (\<forall>j<ctz_loop n i - i. \<not> bit n j)"
proof (induction n i rule: ctz_loop.induct)
  case (1 n i)
  show ?case
  proof (cases "even n")
    case False
    then show ?thesis by (simp add: ctz_loop.simps bit_0)
  next
    case True
    with 1 have ih: "ctz_loop (n div 2) (i + 1) \<ge> i + 1 \<and> bit (n div 2) (ctz_loop (n div 2) (i + 1) - (i + 1)) \<and>
        (\<forall>j<ctz_loop (n div 2) (i + 1) - (i + 1). \<not> bit (n div 2) j)" by auto
    have e: "ctz_loop n i = ctz_loop (n div 2) (i + 1)" using True 1(2) by (subst ctz_loop.simps) simp
    obtain k where k: "ctz_loop (n div 2) (i + 1) = i + 1 + k" using ih le_Suc_ex by blast
    have "bit n (Suc k)" using ih k by (simp add: bit_Suc)
    moreover have "\<not> bit n j" if "j < Suc k" for j
      using that ih k True by (cases j) (auto simp: bit_0 bit_Suc)
    ultimately show ?thesis using k by (simp add: e)
  qed
qed

lemma ctz_spec:
  assumes "w \<noteq> 0"
  obtains k where "GNUC_BUILTIN_CTZ w = Some k" "bit w k" "\<forall>j<k. \<not> bit w j"
proof -
  have "0 < unat w" using assms by (simp add: unat_gt_0)
  from ctz_loop_spec [OF this, of 0] assms show thesis
    by (intro that [of "ctz_loop (unat w) 0"]) (auto simp: GNUC_BUILTIN_CTZ_def bit_unsigned_iff dest: bit_imp_le_length)
qed

lemma bmap_foreach_skip: "\<forall>j<k. \<not> bit w j \<Longrightarrow> bmap_foreach w p = bmap_foreach (drop_bit k w) (p + k)"
proof (induction k arbitrary: w p)
  case (Suc k)
  have "\<not> bit w 0" using Suc.prems by blast
  then have a: "w AND 1 = 0" using and_push_one [of w 0] by simp
  have "\<forall>j<k. \<not> bit (drop_bit 1 w) j" using Suc.prems by (simp add: bit_drop_bit_eq)
  from Suc.IH [OF this, of "p + 1"] have "bmap_foreach (drop_bit 1 w) (p + 1) = bmap_foreach (drop_bit (Suc k) w) (p + Suc k)"
    by (simp add: drop_bit_drop_bit)
  moreover have "bmap_foreach w p = bmap_foreach (drop_bit 1 w) (p + 1)"
    using a by (cases "w = 0") (simp_all add: bmap_foreach.simps [of 0], subst bmap_foreach.simps, simp)
  ultimately show ?case by simp
qed simp

lemma bitmap_foreach_eq: "w \<noteq> 0 \<Longrightarrow> bitmap_foreach w p = Some (bmap_foreach w p)"
proof (induction "unat w" arbitrary: w p rule: less_induct)
  case less
  obtain k where k: "GNUC_BUILTIN_CTZ w = Some k" "bit w k" "\<forall>j<k. \<not> bit w j" by (rule ctz_spec [OF less.prems])
  let ?v = "drop_bit k w" and ?r = "drop_bit (k + 1) w"
  have v: "?v \<noteq> 0" "?v AND 1 \<noteq> 0"
    using k(2) and_push_one [of ?v 0] by (auto simp: bit_drop_bit_eq)
  have r: "?r = drop_bit 1 ?v" by (simp add: drop_bit_drop_bit)
  have "unat ?r < unat w"
  proof -
    have "unat ?r < unat ?v" using half_less [OF v(1)] r by simp
    also have "unat ?v \<le> unat w" by (simp add: drop_bit_eq_div unat_div)
    finally show ?thesis .
  qed
  then have ih: "?r \<noteq> 0 \<Longrightarrow> bitmap_foreach ?r q = Some (bmap_foreach ?r q)" for q using less.hyps by blast
  have "bmap_foreach w p = bmap_foreach ?v (p + k)" by (rule bmap_foreach_skip [OF k(3)])
  also have "\<dots> = (p + k) # bmap_foreach ?r (p + k + 1)"
    unfolding r using v by (subst bmap_foreach.simps) simp
  finally have e: "bmap_foreach w p = (p + k) # bmap_foreach ?r (p + k + 1)" .
  show ?case
  proof (cases "?r = 0")
    case True
    then have "bmap_foreach ?r (p + k + 1) = []" by (simp add: bmap_foreach.simps)
    then show ?thesis using True e by (subst bitmap_foreach.simps) (simp add: k(1) Let_def)
  next
    case False
    then show ?thesis using e ih [OF False, of "p + k + 1"] by (subst bitmap_foreach.simps) (simp add: k(1) Let_def)
  qed
qed

section \<open>Descriptor words\<close>

lemma word_and_eqI: "(\<And>j. j < 64 \<Longrightarrow> bit m j \<Longrightarrow> bit (a :: u64) j = bit b j) \<Longrightarrow> a AND m = b AND m"
  by (rule bit_word_eqI) (auto simp: bit_simps)

lemma bit_small:
  assumes "unat (x :: u64) < 2 ^ n" "n \<le> j"
  shows "\<not> bit x j"
proof -
  have "take_bit n x = x" using assms(1) by (simp add: word_unat_eq_iff unat_take_bit_mod)
  then show ?thesis using assms(2) by (metis bit_take_bit_iff not_le)
qed

lemma bit_int_shifted:
  assumes "j < 32"
  shows "bit (int_shifted x s) j \<longleftrightarrow> s \<le> j \<and> bit x (j - s)"
  using assms by (auto simp: int_shifted_def bit_simps)

lemma bit_of_small_int: "0 \<le> x \<Longrightarrow> x < 256 \<Longrightarrow> 8 \<le> j \<Longrightarrow> \<not> bit (x :: int) j"
proof -
  assume "0 \<le> x" "x < 256" "8 \<le> j"
  then have "take_bit 8 x = x" by (simp add: take_bit_int_eq_self)
  then show ?thesis using \<open>8 \<le> j\<close> by (metis bit_take_bit_iff not_le)
qed

lemma and_small_cases: "(w :: u64) AND 7 = v \<longleftrightarrow> take_bit 3 w = v"
  by (simp add: take_bit_eq_mask mask_eq_exp_minus_1)

lemma low_byte: "0 \<le> x \<Longrightarrow> x < 256 \<Longrightarrow> (\<And>j. j < 8 \<Longrightarrow> bit w j = bit x j) \<Longrightarrow> unat (w AND 0xff :: u64) = nat x"
proof -
  assume x: "0 \<le> x" "x < 256" and b: "\<And>j. j < 8 \<Longrightarrow> bit w j = bit x j"
  have "w AND 0xff = take_bit 8 w" by (simp add: take_bit_eq_mask mask_eq_exp_minus_1)
  also have "\<dots> = word_of_int x"
    
  proof (rule bit_word_eqI)
    fix j assume "j < LENGTH(64)"
    then show "bit (take_bit 8 w) j = bit (word_of_int x :: u64) j"
      using b [of j] bit_of_small_int [OF x, of j] by (cases "j < 8") (auto simp: bit_take_bit_iff bit_word_of_int_iff)
  qed
  finally show ?thesis using x by (simp add: unsigned_of_int take_bit_int_eq_self)
qed

lemma run_length_word:
  assumes f: "0 \<le> f" "f < 256" and n: "0 < n" "n < 256" and z: "sz0 \<le> 8000" "sz0 AND 7 = 0"
  defines "d \<equiv> DESC_TYPE_RUN_LENGTH OR sz0 OR int_shifted f 16 OR int_shifted n 24"
  shows "d AND DESC_TYPE_MASK = DESC_TYPE_RUN_LENGTH" "unat (drop_bit 16 d AND 0xff) = nat f"
    "unat (drop_bit 24 d AND 0xff) = nat n" "d AND 0xffff0000 \<noteq> 0" "sgen_gc_descr_has_references d"
proof -
  have "unat sz0 < 2 ^ 13" using z(1) by (simp add: word_le_nat_alt)
  note sz = bit_small [OF this]
  have one: "bit (1 :: u64) j \<longleftrightarrow> j = 0" for j by (simp add: bit_1_iff)
  have low: "bit sz0 j = False" if "j < 3" for j
  proof -
    have "bit (sz0 AND 7) j = bit sz0 j" using that by (simp add: bit_simps numeral_3_eq_3 less_Suc_eq) (auto simp: bit_numeral_simps)
    then show ?thesis using z(2) by simp
  qed
  have b: "bit d j \<longleftrightarrow> j = 0 \<or> bit sz0 j \<or> (16 \<le> j \<and> bit f (j - 16)) \<or> (24 \<le> j \<and> bit n (j - 24))" if "j < 32" for j
    using that by (auto simp: d_def DESC_TYPE_RUN_LENGTH_def bit_or_iff bit_int_shifted one)
  show t: "d AND DESC_TYPE_MASK = DESC_TYPE_RUN_LENGTH"
  proof -
    have "take_bit 3 d = 1" by (rule bit_word_eqI) (auto simp: bit_take_bit_iff b one low)
    then show ?thesis by (simp add: desc_consts and_small_cases)
  qed
  show "unat (drop_bit 16 d AND 0xff) = nat f"
    by (rule low_byte [OF f]) (auto simp: bit_drop_bit_eq b sz)
  show "unat (drop_bit 24 d AND 0xff) = nat n"
    using n bit_of_small_int [OF f] by (intro low_byte) (auto simp: bit_drop_bit_eq b sz)
  obtain j where "bit n j" using n(1) by (metis bit_0_eq bit_eq_iff bot_apply bot_bool_def less_irrefl)
  moreover then have "j < 8" using bit_of_small_int [of n j] n by force
  ultimately have "bit d (24 + j)" "24 + j < 32" by (simp_all add: b)
  moreover have "bit (0xffff0000 :: u64) (24 + j)"
  proof -
    have "bit (push_bit 16 (mask 16) :: u64) (24 + j)" using \<open>j < 8\<close> by (simp only: bit_simps) simp
    moreover have "(push_bit 16 (mask 16) :: u64) = 0xffff0000" by (simp add: mask_eq_exp_minus_1)
    ultimately show ?thesis by simp
  qed
  ultimately have "bit (d AND 0xffff0000) (24 + j)" by (simp add: bit_and_iff)
  then show "d AND 0xffff0000 \<noteq> 0" by (metis bit_0_eq bot_apply bot_bool_def)
  show "sgen_gc_descr_has_references d"
  proof -
    have "take_bit 2 d = 1" by (rule bit_word_eqI) (auto simp: bit_take_bit_iff b one low)
    then have 3: "d AND 3 = 1" by (simp add: take_bit_eq_mask mask_eq_exp_minus_1)
    have "\<not> bit d 2" by (simp add: b low)
    then have "\<not> bit (d AND 0xC007) 2" by (simp add: bit_and_iff)
    moreover have "bit (5 :: u64) 2" by (simp add: bit_numeral_simps)
    ultimately have "d AND 0xC007 \<noteq> 5" by metis
    then show ?thesis using 3 by (simp add: sgen_gc_descr_has_references_def desc_consts)
  qed
qed

lemma bitmap_word_desc:
  fixes w :: u64
  assumes w: "\<not> bit w 0" "\<not> bit w 1" "\<not> bit w 63" "w \<noteq> 0"
  defines "d \<equiv> DESC_TYPE_BITMAP OR push_bit LOW_TYPE_BITS (drop_bit OBJECT_HEADER_WORDS w)"
  shows "d AND DESC_TYPE_MASK = DESC_TYPE_BITMAP" "drop_bit LOW_TYPE_BITS d = drop_bit 2 w" "drop_bit 2 w \<noteq> 0"
    "sgen_gc_descr_has_references d"
proof -
  have two: "bit (2 :: u64) j \<longleftrightarrow> j = Suc 0" for j
    using bit_push_bit_iff [of 1 "1::u64" j] by (auto simp: bit_1_iff)
  have b: "bit d j \<longleftrightarrow> j = 1 \<or> (j < 64 \<and> 3 \<le> j \<and> bit w (j - 1))" for j
  proof -
    have "bit d j \<longleftrightarrow> j = 1 \<or> (j < 64 \<and> 3 \<le> j \<and> bit w (2 + (j - 3)))"
      by (auto simp: d_def desc_consts bit_or_iff two bit_simps)
    moreover have "3 \<le> j \<Longrightarrow> 2 + (j - 3) = j - 1" by simp
    ultimately show ?thesis by metis
  qed
  have "take_bit 3 d = 2" by (rule bit_word_eqI) (simp only: bit_take_bit_iff b two, auto)
  then show "d AND DESC_TYPE_MASK = DESC_TYPE_BITMAP" by (simp add: desc_consts and_small_cases)
  show "drop_bit LOW_TYPE_BITS d = drop_bit 2 w"
  proof (rule bit_word_eqI)
    fix j assume "j < LENGTH(64)"
    have "bit w (2 + j) \<Longrightarrow> 3 + j < 64"
      using w(3) bit_imp_le_length [of w "2 + j"] by (cases "j = 61") auto
    moreover have "3 + j - 1 = 2 + j" by simp
    ultimately show "bit (drop_bit LOW_TYPE_BITS d) j = bit (drop_bit 2 w) j"
      by (auto simp: bit_drop_bit_eq b LOW_TYPE_BITS_def)
  qed
  show "drop_bit 2 w \<noteq> 0"
  proof
    assume z: "drop_bit 2 w = 0"
    have "bit w j = False" for j
    proof (cases "j < 2")
      case True
      then have "j = 0 \<or> j = 1" by auto
      then show ?thesis using w by auto
    next
      case False
      then have "2 + (j - 2) = j" by simp
      then have "bit (drop_bit 2 w) (j - 2) = bit w j" by (metis bit_drop_bit_eq o_apply)
      then show ?thesis using z by simp
    qed
    then have "w = 0" by (intro bit_word_eqI) simp
    with w(4) show False by simp
  qed
  have "take_bit 2 d = 2" by (rule bit_word_eqI) (simp only: bit_take_bit_iff b two, auto)
  then have 3: "d AND 3 = 2" by (simp add: take_bit_eq_mask mask_eq_exp_minus_1)
  have "\<not> bit d 0" by (simp add: b)
  then have "\<not> bit (d AND 0xC007) 0" by (simp add: bit_and_iff)
  moreover have "bit (5 :: u64) 0" by (simp add: bit_numeral_simps)
  ultimately have "d AND 0xC007 \<noteq> 5" by metis
  then show "sgen_gc_descr_has_references d" using 3 by (simp add: sgen_gc_descr_has_references_def desc_consts)
qed

section \<open>The complex descriptors in the list\<close>

lemma bucket_start_mono: "b \<le> c \<Longrightarrow> bucket_start b \<le> bucket_start c"
  using power_increasing [of b c "2::nat"] by (simp add: bucket_start_eq diff_le_mono)

lemma bucket_unique:
  assumes "bucket_start b \<le> i" "i < bucket_start (Suc b)" "bucket_start c \<le> i" "i < bucket_start (Suc c)"
  shows "b = c"
proof (rule ccontr)
  assume "b \<noteq> c"
  then consider "Suc b \<le> c" | "Suc c \<le> b" by linarith
  then show False using bucket_start_mono assms by cases fastforce+
qed

text \<open>\<open>n\<close> consecutive words at index \<open>i\<close>, all in one bucket.\<close>

definition in_bucket :: "nat \<Rightarrow> nat \<Rightarrow> nat \<Rightarrow> bool" where
  "in_bucket b i n \<longleftrightarrow> bucket_start b \<le> i \<and> i + n \<le> bucket_start (Suc b)"

lemma in_bucket_slot:
  assumes ok: "al_ok k a" and b: "in_bucket b i n" "i + n \<le> al_capacity a" and j: "j < n"
  shows "sgen_array_list_bucketize (i + j) = (b, i - bucket_start b + j)" "i + j < al_capacity a"
proof -
  have "\<not> k \<le> b"
    using b j al_okD(3) [OF ok] bucket_start_mono [of k b] by (auto simp: in_bucket_def)
  then have "b \<le> 26" using al_okD(1) [OF ok] by simp
  then show "sgen_array_list_bucketize (i + j) = (b, i - bucket_start b + j)"
    using bucketize_at [of b "i + j - bucket_start b"] b j by (auto simp: in_bucket_def bucket_start_Suc)
  show "i + j < al_capacity a" using b(2) j by simp
qed

lemma slot_word_in_bucket:
  assumes "al_ok k a" "in_bucket b i n" "i + n \<le> al_capacity a" "j < n"
  shows "slot_word (b, i - bucket_start b) j a = al_get a (i + j)"
  using in_bucket_slot [OF assms] by (simp add: slot_word_def al_get_def)

inductive tiled :: "SgenArrayList \<Rightarrow> nat \<Rightarrow> bool" for a where
  tiled_end: "tiled a (al_next_slot a)"
| tiled_zero: "i < al_next_slot a \<Longrightarrow> al_get a i = Some 0 \<Longrightarrow> tiled a (i + 1) \<Longrightarrow> tiled a i"
| tiled_block: "i < al_next_slot a \<Longrightarrow> al_get a i = Some w \<Longrightarrow> w \<noteq> 0 \<Longrightarrow> unat w \<le> 2 ^ 26 \<Longrightarrow>
    in_bucket b i (unat w) \<Longrightarrow> i + unat w \<le> al_next_slot a \<Longrightarrow> tiled a (i + unat w) \<Longrightarrow> tiled a i"

definition block_at :: "SgenArrayList \<Rightarrow> nat \<Rightarrow> u64 list \<Rightarrow> bool" where
  "block_at a i ws \<longleftrightarrow> al_get a i = Some (of_nat (length ws + 1)) \<and> (\<forall>j<length ws. al_get a (i + 1 + j) = Some (ws ! j)) \<and>
    (\<exists>b. in_bucket b i (length ws + 1)) \<and> i + length ws + 1 \<le> al_next_slot a \<and> length ws < 2 ^ 26"

lemma tiled_le: "tiled a i \<Longrightarrow> i \<le> al_next_slot a"
  by (induction rule: tiled.induct) auto

lemma tiled_zeros:
  assumes "tiled a q" "p \<le> q" "\<forall>j. p \<le> j \<and> j < q \<longrightarrow> al_get a j = Some 0"
  shows "tiled a p"
  using assms(2,3)
proof (induction "q - p" arbitrary: p)
  case 0
  then show ?case using assms(1) by simp
next
  case (Suc m)
  have "tiled a (p + 1)" using Suc.prems Suc.hyps(2) by (intro Suc.hyps(1)) auto
  moreover have "p < al_next_slot a" "al_get a p = Some 0" using Suc.prems Suc.hyps(2) tiled_le [OF assms(1)] by auto
  ultimately show ?case by (simp add: tiled_zero)
qed

lemma tiled_extend:
  assumes "tiled a i" "\<forall>j<al_next_slot a. al_get a' j = al_get a j" "al_next_slot a \<le> al_next_slot a'"
    "tiled a' (al_next_slot a)"
  shows "tiled a' i"
  using assms(1)
proof (induction rule: tiled.induct)
  case tiled_end
  then show ?case by (rule assms(4))
next
  case (tiled_zero i)
  then have "i < al_next_slot a'" "al_get a' i = Some 0" using assms(2,3) by auto
  then show ?case using tiled_zero by (simp add: tiled.tiled_zero)
next
  case (tiled_block i w b)
  then have "i < al_next_slot a'" "al_get a' i = Some w" "i + unat w \<le> al_next_slot a'" using assms(2,3) by auto
  then show ?case using tiled_block tiled.tiled_block [of i a' w b] by blast
qed

lemma same_bitmap_ok:
  assumes ok: "al_ok k a" and b: "in_bucket b i (n + 1)" "i + (n + 1) \<le> al_capacity a" and n: "n \<le> length bitmap"
    and j: "j \<le> n"
  shows "\<exists>r. same_bitmap bitmap (b, i - bucket_start b) j n a = Some r \<and>
    (r \<longrightarrow> (\<forall>l. j \<le> l \<and> l < n \<longrightarrow> al_get a (i + 1 + l) = Some (bitmap ! l)))"
  using j
proof (induction "n - j" arbitrary: j)
  case 0
  then have "same_bitmap bitmap (b, i - bucket_start b) j n a = Some True" by (subst same_bitmap.simps) (use 0 in simp)
  then show ?case using "0.hyps" "0.prems" by (intro exI [of _ True]) auto
next
  case (Suc m)
  then have jn: "j < n" by simp
  have "j + 1 < n + 1" using jn by simp
  note sw = slot_word_in_bucket [OF ok b this] and sl = in_bucket_slot [OF ok b this]
  obtain v where v: "al_get a (i + (j + 1)) = Some v" using al_get_Some [OF ok sl(2)] by blast
  have bw: "bitmap_word bitmap j = Some (bitmap ! j)" using jn n by (simp add: bitmap_word_def)
  have "m = n - (j + 1)" "j + 1 \<le> n" using Suc.hyps(2) jn by auto
  from Suc.hyps(1) [OF this] obtain r where r: "same_bitmap bitmap (b, i - bucket_start b) (j + 1) n a = Some r"
    "r \<longrightarrow> (\<forall>l. j + 1 \<le> l \<and> l < n \<longrightarrow> al_get a (i + 1 + l) = Some (bitmap ! l))"
    by blast
  have step: "same_bitmap bitmap (b, i - bucket_start b) j n a = (if v \<noteq> bitmap ! j then Some False else Some r)"
    using jn by (subst same_bitmap.simps) (simp add: sw v bw r(1) del: One_nat_def)
  have "al_get a (i + 1 + l) = Some (bitmap ! l)" if "v = bitmap ! j" r "j \<le> l" "l < n" for l
    using that r(2) v by (cases "l = j") auto
  then show ?case using step by auto
qed

lemma search_bucket_ok:
  assumes ok: "al_ok k a" and n: "0 < nwords" "nwords \<le> 2 ^ 26" "nwords - 1 \<le> length bitmap" and b: "b < k"
    and t: "tiled a i"
  shows "bucket_start b \<le> i \<Longrightarrow> i \<le> bucket_start (Suc b) \<Longrightarrow>
    \<exists>r. search_bucket bitmap nwords (al_next_slot a) b (i - bucket_start b) i a = Some r \<and>
    (case r of Inl f \<Rightarrow> block_at a f (take (nwords - 1) bitmap)
     | Inr i' \<Rightarrow> tiled a i' \<and> i' \<le> bucket_start (Suc b) \<and> (i' = al_next_slot a \<or> i' = bucket_start (Suc b)))"
  using t
proof (induction rule: tiled.induct)
  case tiled_end
  then show ?case by (subst search_bucket.simps) (simp add: tiled.tiled_end)
next
  case (tiled_zero i)
  have cap: "al_next_slot a \<le> al_capacity a" using al_okD(4) [OF ok] .
  show ?case
  proof (cases "i = bucket_start (Suc b)")
    case True
    then show ?thesis using tiled.tiled_zero [OF tiled_zero(1-3)]
      by (subst search_bucket.simps) (simp add: bucket_start_Suc)
  next
    case False
    have ib: "in_bucket b i 1" "i + 1 \<le> al_capacity a" using tiled_zero False cap by (auto simp: in_bucket_def)
    have off: "i - bucket_start b < sgen_array_list_bucket_size b" "i - bucket_start b + 1 = i + 1 - bucket_start b"
      using tiled_zero False by (auto simp: bucket_start_Suc)
    have w: "slot_word (b, i - bucket_start b) 0 a = Some 0"
      using slot_word_in_bucket [OF ok ib] tiled_zero(2) by simp
    have "search_bucket bitmap nwords (al_next_slot a) b (i - bucket_start b) i a =
        search_bucket bitmap nwords (al_next_slot a) b (i + 1 - bucket_start b) (i + 1) a"
      using off tiled_zero(1) w by (subst search_bucket.simps) (simp del: One_nat_def)
    then show ?thesis using tiled_zero False by (simp del: One_nat_def)
  qed
next
  case (tiled_block i w c)
  have cap: "al_next_slot a \<le> al_capacity a" using al_okD(4) [OF ok] .
  show ?case
  proof (cases "i = bucket_start (Suc b)")
    case True
    then show ?thesis using tiled.tiled_block [OF tiled_block(1-7)]
      by (subst search_bucket.simps) (simp add: bucket_start_Suc)
  next
    case False
    have w0: "0 < unat w" using tiled_block(3) by (simp add: unat_gt_0)
    have "c = b" using tiled_block False w0 by (intro bucket_unique [of c i b]) (auto simp: in_bucket_def)
    then have ib: "in_bucket b i (unat w)" "i + unat w \<le> al_capacity a" using tiled_block cap by auto
    have off: "i - bucket_start b < sgen_array_list_bucket_size b"
      using tiled_block False by (auto simp: bucket_start_Suc)
    have wd: "slot_word (b, i - bucket_start b) 0 a = Some w"
      using slot_word_in_bucket [OF ok ib w0] tiled_block(2) by simp
    have "unat (w - 1) = unat w - 1" using tiled_block(3) by (simp add: unat_sub word_le_nat_alt unat_gt_0 Suc_le_eq)
    then have skip: "unat (ucast (w - 1) :: u32) = unat w - 1"
      using tiled_block(4) by (simp add: unsigned_ucast_eq take_bit_nat_eq_self_iff)
    have sk: "i - bucket_start b + (unat w - 1) + 1 = i + unat w - bucket_start b" "i + (unat w - 1) + 1 = i + unat w"
      using w0 tiled_block by auto
    have "\<exists>found. (if w = of_nat nwords then same_bitmap bitmap (b, i - bucket_start b) 0 (nwords - 1) a
                      else Some False) = Some found \<and> (found \<longrightarrow> block_at a i (take (nwords - 1) bitmap))"
    proof (cases "w = of_nat nwords")
      case True
      then have uw: "unat w = nwords" using n(2) by (simp add: unat_word_of_nat_small)
      then have nb: "in_bucket b i (nwords - 1 + 1)" "i + (nwords - 1 + 1) \<le> al_capacity a" using ib n(1) by auto
      show ?thesis using same_bitmap_ok [OF ok nb n(3), of 0] True n tiled_block(2,6) uw nb(1)
        by (auto simp: block_at_def)
    qed auto
    then obtain found where found: "(if w = of_nat nwords then same_bitmap bitmap (b, i - bucket_start b) 0 (nwords - 1) a
                      else Some False) = Some found" "found \<longrightarrow> block_at a i (take (nwords - 1) bitmap)" by blast
    have step: "search_bucket bitmap nwords (al_next_slot a) b (i - bucket_start b) i a =
        (if found then Some (Inl i)
         else search_bucket bitmap nwords (al_next_slot a) b (i + unat w - bucket_start b) (i + unat w) a)"
      using off tiled_block(1,3)
      by (subst search_bucket.simps, cases found) (simp_all add: wd found(1) skip sk Let_def del: One_nat_def split del: if_split)
    have "i + unat w \<le> bucket_start (Suc b)" "bucket_start b \<le> i + unat w" using ib tiled_block by (auto simp: in_bucket_def)
    with tiled_block(8) step found(2) show ?thesis by auto
  qed
qed

lemma search_buckets_ok:
  assumes ok: "al_ok k a" and n: "0 < nwords" "nwords \<le> 2 ^ 26" "nwords - 1 \<le> length bitmap"
    and b: "b \<le> k" "i = bucket_start b \<and> tiled a i \<or> i = al_next_slot a \<and> i \<le> bucket_start b"
  shows "\<exists>r. search_buckets bitmap nwords (al_next_slot a) k b i a = Some r \<and>
    (case r of None \<Rightarrow> True | Some f \<Rightarrow> block_at a f (take (nwords - 1) bitmap))"
  using b
proof (induction "k - b" arbitrary: b i)
  case 0
  then show ?case by (subst search_buckets.simps) simp
next
  case (Suc m)
  have bk: "b < k" using Suc.hyps(2) by simp
  have nx: "m = k - Suc b" "Suc b \<le> k" using Suc.hyps(2) by auto
  have mono: "bucket_start b \<le> bucket_start (Suc b)" by (simp add: bucket_start_mono)
  have "\<exists>r. search_bucket bitmap nwords (al_next_slot a) b 0 i a = Some r \<and>
      (case r of Inl f \<Rightarrow> block_at a f (take (nwords - 1) bitmap)
       | Inr i' \<Rightarrow> i' = bucket_start (Suc b) \<and> tiled a i' \<or> i' = al_next_slot a \<and> i' \<le> bucket_start (Suc b))"
  proof (cases "i = bucket_start b \<and> tiled a i")
    case True
    with search_bucket_ok [OF ok n bk, of i] mono show ?thesis by (fastforce split: sum.splits)
  next
    case False
    then have i: "i = al_next_slot a" "i \<le> bucket_start b" using Suc.prems(2) by auto
    have "search_bucket bitmap nwords (al_next_slot a) b 0 i a = Some (Inr i)"
      using i by (subst search_bucket.simps) simp
    then show ?thesis using i mono by simp
  qed
  then obtain r where r: "search_bucket bitmap nwords (al_next_slot a) b 0 i a = Some r"
      "case r of Inl f \<Rightarrow> block_at a f (take (nwords - 1) bitmap)
       | Inr i' \<Rightarrow> i' = bucket_start (Suc b) \<and> tiled a i' \<or> i' = al_next_slot a \<and> i' \<le> bucket_start (Suc b)" by blast
  show ?case
  proof (cases r)
    case (Inl f)
    then show ?thesis using r bk by (subst search_buckets.simps) simp
  next
    case (Inr i')
    with r(2) have "i' = bucket_start (Suc b) \<and> tiled a i' \<or> i' = al_next_slot a \<and> i' \<le> bucket_start (Suc b)" by simp
    from Suc.hyps(1) [OF nx this] show ?thesis using Inr r(1) bk by (subst search_buckets.simps) simp
  qed
qed

lemma store_bitmap_ok:
  assumes ok: "al_ok k a" and b: "in_bucket b i (n + 1)" "i + (n + 1) \<le> al_capacity a" and n: "n \<le> length bitmap"
    and m: "m \<le> n"
  shows "\<exists>a'. store_bitmap bitmap (b, i - bucket_start b) m n a = Some a' \<and> al_ok k a' \<and>
    al_next_slot a' = al_next_slot a \<and> al_capacity a' = al_capacity a \<and>
    (\<forall>j. al_get a' j = (if i + 1 + m \<le> j \<and> j < i + 1 + n then Some (bitmap ! (j - (i + 1))) else al_get a j))"
  using ok b(2) m
proof (induction "n - m" arbitrary: m a)
  case 0
  then have "store_bitmap bitmap (b, i - bucket_start b) m n a = Some a" by (subst store_bitmap.simps) simp
  then show ?case using "0.hyps" "0.prems" by (intro exI [of _ a]) auto
next
  case (Suc d)
  have mn: "m < n" using Suc.hyps(2) by simp
  have "1 + m < n + 1" using mn by simp
  note sl = in_bucket_slot [OF Suc.prems(1) b(1) Suc.prems(2) this]
  obtain a1 where a1: "write_slot (sgen_array_list_bucketize (i + (1 + m))) (bitmap ! m) a = Some a1" "al_ok k a1"
    "\<forall>j. al_get a1 j = (if j = i + (1 + m) then Some (bitmap ! m) else al_get a j)"
    "a1 = a\<lparr>al_entries := al_entries a1\<rparr>"
    by (rule write_slot_ok [OF Suc.prems(1) sl(2)])
  have f: "al_next_slot a1 = al_next_slot a" "al_capacity a1 = al_capacity a" by (subst a1(4), simp)+
  have "d = n - (m + 1)" "i + (n + 1) \<le> al_capacity a1" "m + 1 \<le> n" using Suc.hyps(2) Suc.prems(2) mn f by auto
  from Suc.hyps(1) [OF this(1) a1(2) this(2,3)] obtain a' where
    a': "store_bitmap bitmap (b, i - bucket_start b) (m + 1) n a1 = Some a'" "al_ok k a'"
    "al_next_slot a' = al_next_slot a1" "al_capacity a' = al_capacity a1"
    "\<forall>j. al_get a' j = (if i + 1 + (m + 1) \<le> j \<and> j < i + 1 + n then Some (bitmap ! (j - (i + 1))) else al_get a1 j)"
    by blast
  have "store_bitmap bitmap (b, i - bucket_start b) m n a = Some a'"
    using mn n a'(1) a1(1) sl(1)
    by (subst store_bitmap.simps) (simp add: bitmap_word_def write_slot_word_def)
  moreover have "al_get a' j = (if i + 1 + m \<le> j \<and> j < i + 1 + n then Some (bitmap ! (j - (i + 1))) else al_get a j)" for j
    using a'(5) a1(3) mn by (cases "j = i + 1 + m") auto
  ultimately show ?case using a'(2-4) f by auto
qed

definition dsc_ok :: "nat \<Rightarrow> SgenArrayList \<Rightarrow> bool" where
  "dsc_ok k a \<longleftrightarrow> al_ok k a \<and> tiled a 0 \<and> (0 < k \<longrightarrow> bucket_start (k - 1) \<le> al_next_slot a) \<and>
    (\<forall>j. al_next_slot a \<le> j \<and> j < al_capacity a \<longrightarrow> al_get a j = Some 0)"

lemma index_bucket_capacity: "k \<le> 26 \<Longrightarrow> sgen_array_list_index_bucket (bucket_start k) = k"
  using bucketize_at [of k 0] by (simp add: sgen_array_list_bucketize_def Let_def sgen_array_list_bucket_size_def)

lemma block_at_extend:
  assumes "block_at a i ws" "\<forall>j<al_next_slot a. al_get a' j = al_get a j" "al_next_slot a \<le> al_next_slot a'"
  shows "block_at a' i ws"
  using assms unfolding block_at_def by auto

lemma alloc_complex_ok:
  assumes d: "dsc_ok k a" "k \<le> 21" and n: "nw = (numbits + 63) div 64" "nw \<le> length bitmap" "nw < 2 ^ 26"
  shows "\<exists>res a' k'. alloc_complex_descriptor bitmap numbits a = Some (res, a') \<and> dsc_ok k' a' \<and> k' \<le> 22 \<and>
    block_at a' res (take nw bitmap) \<and> (\<forall>i ws. block_at a i ws \<longrightarrow> block_at a' i ws)"
proof -
  have ok: "al_ok k a" and t: "tiled a 0" and last: "0 < k \<longrightarrow> bucket_start (k - 1) \<le> al_next_slot a"
    and zero: "\<forall>j. al_next_slot a \<le> j \<and> j < al_capacity a \<longrightarrow> al_get a j = Some 0"
    using d(1) by (auto simp: dsc_ok_def)
  let ?n = "nw + 1"
  have n1: "0 < ?n" "?n \<le> 2 ^ 26" "?n - 1 \<le> length bitmap" using n by auto
  have words: "(numbits + GC_BITS_PER_WORD - 1) div GC_BITS_PER_WORD * GC_BITS_PER_WORD div GC_BITS_PER_WORD + 1 = ?n"
    by (simp add: GC_BITS_PER_WORD_def n(1))
  have mb: "sgen_array_list_index_bucket (al_capacity a) = k"
    using al_okD(1,3) [OF ok] index_bucket_capacity [of k] by simp
  have "0 = bucket_start 0 \<and> tiled a 0 \<or> 0 = al_next_slot a \<and> 0 \<le> bucket_start 0" using t by (simp add: bucket_start_eq)
  from search_buckets_ok [OF ok n1 _ this] obtain r where
    r: "search_buckets bitmap ?n (al_next_slot a) k 0 0 a = Some r"
      "case r of None \<Rightarrow> True | Some f \<Rightarrow> block_at a f (take nw bitmap)"
    unfolding add_diff_cancel_right' by auto
  show ?thesis
  proof (cases r)
    case (Some f)
    then have "alloc_complex_descriptor bitmap numbits a = Some (f, a)"
      using r(1) unfolding alloc_complex_descriptor_def Let_def words mb by simp
    then show ?thesis using Some r(2) d by auto
  next
    case None
    have sz: "?n \<le> sgen_array_list_bucket_size 21" using n(3)
      by (simp add: sgen_array_list_bucket_size_def SGEN_ARRAY_LIST_MIN_BUCKET_BITS_def)
    obtain i a1 k' where a1: "sgen_array_list_alloc_block ?n a = Some (i, a1)" "al_ok k' a1" "k' \<le> Suc 21"
      "al_next_slot a \<le> i" "al_next_slot a1 = i + ?n" "0 < k'" "bucket_start (k' - 1) \<le> i" "i + ?n \<le> bucket_start k'"
      "\<forall>j. al_get a1 j = (if j < al_capacity a then al_get a j else if j < al_capacity a1 then Some 0 else None)"
      by (rule alloc_block_ok [OF ok n1(1) sz d(2) _ last]) simp
    let ?b = "k' - 1"
    have c1: "al_capacity a1 = bucket_start k'" using al_okD(3) [OF a1(2)] .
    have ib: "in_bucket ?b i ?n" "i + ?n \<le> al_capacity a1" using a1(6,7,8) c1 by (simp_all add: in_bucket_def)
    note sl = in_bucket_slot [OF a1(2) ib, of 0]
    have sl0: "sgen_array_list_bucketize i = (?b, i - bucket_start ?b)" "i < al_capacity a1" using sl by simp_all
    obtain a2 where a2: "write_slot (sgen_array_list_bucketize i) (of_nat ?n) a1 = Some a2" "al_ok k' a2"
      "\<forall>j. al_get a2 j = (if j = i then Some (of_nat ?n) else al_get a1 j)"
      "a2 = a1\<lparr>al_entries := al_entries a2\<rparr>"
      by (rule write_slot_ok [OF a1(2) sl0(2)])
    have f2: "al_next_slot a2 = al_next_slot a1" "al_capacity a2 = al_capacity a1" by (subst a2(4), simp)+
    have "i + (nw + 1) \<le> al_capacity a2" using ib(2) f2 by simp
    from store_bitmap_ok [OF a2(2) ib(1) this n(2) le0] obtain a3 where
      a3: "store_bitmap bitmap (?b, i - bucket_start ?b) 0 nw a2 = Some a3" "al_ok k' a3"
        "al_next_slot a3 = al_next_slot a2" "al_capacity a3 = al_capacity a2"
        "\<forall>j. al_get a3 j = (if i + 1 + 0 \<le> j \<and> j < i + 1 + nw then Some (bitmap ! (j - (i + 1))) else al_get a2 j)" by blast
    have run: "alloc_complex_descriptor bitmap numbits a = Some (i, a3)"
      using r(1) None a1(1) a2(1) a3(1) sl0
      unfolding alloc_complex_descriptor_def Let_def words mb
      by (simp add: sgen_array_list_get_slot_def write_slot_word_def)
    have nx: "al_next_slot a3 = i + ?n" using a1(5) f2 a3(3) by simp
    have cap: "al_capacity a \<le> al_capacity a3 \<and> al_capacity a3 = al_capacity a1"
    proof -
      have "al_get a (al_capacity a1) = None \<or> al_capacity a \<le> al_capacity a1"
        using a1(9) by (metis al_get_def less_irrefl not_le)
      then have "al_capacity a \<le> al_capacity a1" using al_get_Some [OF ok] by (metis not_le option.distinct(1))
      then show ?thesis using a3(4) f2 by simp
    qed
    have nc: "al_next_slot a \<le> al_capacity a" using al_okD(4) [OF ok] .
    have same: "\<forall>j<al_next_slot a. al_get a3 j = al_get a j"
      using a3(5) a2(3) a1(9) a1(4) nc by auto
    have zeros: "al_get a1 j = Some 0" if "al_next_slot a \<le> j" "j < al_capacity a1" for j
      using that zero a1(9) by auto
    have head: "al_get a3 i = Some (of_nat ?n)" using a3(5) a2(3) by auto
    have block: "block_at a3 i (take nw bitmap)"
    proof -
      have "length (take nw bitmap) = nw" using n(2) by simp
      moreover have "\<forall>j<nw. al_get a3 (i + 1 + j) = Some (take nw bitmap ! j)" using a3(5) by auto
      ultimately show ?thesis using head ib(1) nx n(3) unfolding block_at_def by auto
    qed
    have un: "unat (of_nat ?n :: u64) = ?n" using n1(2) by (intro unat_word_of_nat_small) simp
    have "tiled a3 (al_next_slot a3)" by (rule tiled_end)
    then have "tiled a3 (i + unat (of_nat ?n :: u64))" using nx un by simp
    then have ti: "tiled a3 i"
      using head n1 un ib(1) nx
      by (intro tiled_block [of i a3 "of_nat ?n" ?b]) (simp_all add: unat_gt_0 [symmetric] del: of_nat_add)
    have "tiled a3 (al_next_slot a)"
      using zeros a3(5) a2(3) a1(4) sl0(2) by (intro tiled_zeros [OF ti a1(4)]) auto
    then have "tiled a3 0" using tiled_extend [OF t same] nx a1(4) by simp
    moreover have "\<forall>j. al_next_slot a3 \<le> j \<and> j < al_capacity a3 \<longrightarrow> al_get a3 j = Some 0"
      using zeros a3(5) a2(3) a1(4) nx cap by auto
    ultimately have "dsc_ok k' a3" using a3(2) a1(7) nx by (auto simp: dsc_ok_def)
    moreover have "\<forall>i ws. block_at a i ws \<longrightarrow> block_at a3 i ws"
      using block_at_extend same nx a1(4) by (metis le_add1 le_trans)
    ultimately show ?thesis using run block a1(3) by auto
  qed
qed

section \<open>From a bitmap to a descriptor and back to its references\<close>

definition bitmap_clean :: "u64 list \<Rightarrow> nat \<Rightarrow> bool" where
  "bitmap_clean bitmap n \<longleftrightarrow> n \<le> 64 * length bitmap \<and>
    (\<forall>i<64 * length bitmap. n \<le> i \<longrightarrow> \<not> bit (bitmap ! (i div 64)) (i mod 64))"

lemma set_bitmap_refs: "set (bitmap_refs bitmap n) = {i. i < n \<and> bit (bitmap ! (i div 64)) (i mod 64)}"
  by (auto simp: bitmap_refs_def)

lemma bitmap_refs_sorted [simp]: "sorted (bitmap_refs bitmap n)" "distinct (bitmap_refs bitmap n)"
  by (simp_all add: bitmap_refs_def sorted_wrt_filter)

lemma bitmap_refs_eqI:
  assumes "\<And>i. (i < n \<and> bit (v ! (i div 64)) (i mod 64)) \<longleftrightarrow> (i < m \<and> bit (w ! (i div 64)) (i mod 64))"
  shows "bitmap_refs v n = bitmap_refs w m"
proof (rule sorted_distinct_set_unique)
  show "set (bitmap_refs v n) = set (bitmap_refs w m)" using assms by (simp add: set_bitmap_refs)
qed simp_all

lemma refs_bound: "i \<in> set xs \<Longrightarrow> sorted xs \<Longrightarrow> hd xs \<le> i \<and> i \<le> (last xs :: nat)"
proof (induction xs)
  case (Cons x xs)
  then show ?case by (cases "xs = []") (auto dest: hd_in_set)
qed simp

lemma refs_run:
  assumes "sorted xs" "distinct xs" "xs \<noteq> []" "hd xs + length xs = last xs + (1 :: nat)"
  shows "xs = [hd xs..<hd xs + length xs]"
proof (rule sorted_distinct_set_unique)
  have sub: "set xs \<subseteq> {hd xs..<hd xs + length xs}" using refs_bound [OF _ assms(1)] assms(4) by force
  have "card (set xs) = length xs" using assms(2) by (simp add: distinct_card)
  then have "set xs = {hd xs..<hd xs + length xs}" by (intro card_subset_eq sub) simp_all
  then show "set xs = set [hd xs..<hd xs + length xs]" by simp
qed (use assms(1,2) in simp_all)

lemma map_plus_0: "map ((+) 0) xs = (xs :: nat list)"
  by (induction xs) simp_all

lemma word_refs_bitmap: "bitmap_refs [w] 64 = word_refs w"
  by (auto simp: bitmap_refs_def word_refs_def intro!: filter_cong)

lemma bitmap_refs_Cons:
  "bitmap_refs (w # ws) (64 + m) = word_refs w @ map ((+) 64) (bitmap_refs ws m)"
proof -
  have "[0..<64 + m] = [0..<64] @ map ((+) 64) [0..<m]"
    using upt_add_eq_append [of 0 64 m] map_add_upt [of 64 m]
    by (simp add: add.commute [of 64] o_def cong: map_cong)
  moreover have "filter (\<lambda>i. bit ((w # ws) ! (i div 64)) (i mod 64)) [0..<64] = word_refs w"
    unfolding word_refs_def by (rule filter_cong) auto
  moreover have "filter (\<lambda>i. bit ((w # ws) ! (i div 64)) (i mod 64)) (map ((+) 64) [0..<m]) = map ((+) 64) (bitmap_refs ws m)"
    by (simp add: bitmap_refs_def filter_map o_def div_add_self1)
  ultimately show ?thesis by (simp add: bitmap_refs_def)
qed

lemma complex_foreach_eq:
  assumes "\<forall>l<length ws. slot_word slot (j + l) a = Some (ws ! l)"
  shows "complex_foreach slot j (length ws) s a = Some (map ((+) s) (bitmap_refs ws (64 * length ws)))"
  using assms
proof (induction ws arbitrary: j s)
  case Nil
  then show ?case by (simp add: bitmap_refs_def)
next
  case (Cons w ws)
  have "slot_word slot j a = Some w" using Cons.prems by fastforce
  moreover have "\<forall>l<length ws. slot_word slot (j + 1 + l) a = Some (ws ! l)" using Cons.prems by fastforce
  note Cons.IH [OF this, of "s + 64"]
  ultimately show ?case
    using bitmap_refs_Cons [of w ws "64 * length ws"] by (simp add: bmap_foreach_eq GC_BITS_PER_WORD_def add.assoc)
qed

lemma int_shifted_index:
  assumes "res < 2 ^ 28"
  shows "int_shifted (int res) 3 = push_bit 3 (of_nat res)"
proof (rule bit_word_eqI)
  fix n assume "n < LENGTH(64)"
  have high: "\<not> bit res j" if "28 \<le> j" for j
    using that assms by (metis bit_take_bit_iff leD take_bit_nat_eq_self)
  show "bit (int_shifted (int res) 3 :: u64) n = bit (push_bit 3 (of_nat res) :: u64) n"
  proof (cases "n < 31")
    case True
    then show ?thesis using \<open>n < LENGTH(64)\<close>
      by (auto simp: bit_int_shifted bit_push_bit_iff bit_of_nat_iff bit_of_int_iff)
  next
    case False
    then have "\<not> bit res (n - 3)" "\<not> bit res 28" using high by auto
    moreover have "bit (int_shifted (int res) 3 :: u64) n = bit (push_bit 3 (word_of_int (int res)) :: u32) 31"
      using False \<open>n < LENGTH(64)\<close> by (simp add: int_shifted_def bit_signed_iff min_def)
    ultimately show ?thesis by (auto simp: bit_push_bit_iff bit_of_nat_iff bit_of_int_iff)
  qed
qed

lemma complex_word:
  assumes res: "res < 2 ^ 28" and t: "unat t < 8"
  defines "d \<equiv> t OR int_shifted (int res) LOW_TYPE_BITS"
  shows "d AND DESC_TYPE_MASK = t" "unat (ucast (drop_bit LOW_TYPE_BITS d) :: u32) = res"
proof -
  have d: "d = t OR push_bit 3 (of_nat res)" using int_shifted_index [OF res] by (simp add: d_def LOW_TYPE_BITS_def)
  have hi: "\<not> bit t j" if "3 \<le> j" for j using bit_small [of t 3 j] t that by simp
  have "take_bit 3 d = t" by (rule bit_word_eqI) (use hi in \<open>auto simp: d bit_simps not_less\<close>)
  then show "d AND DESC_TYPE_MASK = t" by (simp add: desc_consts and_small_cases)
  have high: "\<not> bit res j" if "28 \<le> j" for j
    using that res by (metis bit_take_bit_iff leD take_bit_nat_eq_self)
  have "drop_bit 3 d = of_nat res"
  proof (rule bit_word_eqI)
    fix n assume "n < LENGTH(64)"
    show "bit (drop_bit 3 d) n = bit (of_nat res :: u64) n"
      using hi [of "3 + n"] high [of n] \<open>n < LENGTH(64)\<close> by (cases "n < 61") (auto simp: d bit_simps)
  qed
  then show "unat (ucast (drop_bit LOW_TYPE_BITS d) :: u32) = res"
    using res by (simp add: LOW_TYPE_BITS_def unsigned_ucast_eq unsigned_of_nat take_bit_nat_eq_self)
qed

lemma block_descriptor:
  assumes d: "dsc_ok k a" "k \<le> 22" and b: "block_at a i ws"
  obtains slot where "sgen_array_list_get_slot a i = Some slot" "slot_word slot 0 a = Some (of_nat (length ws + 1))"
    "\<forall>l<length ws. slot_word slot (1 + l) a = Some (ws ! l)" "i < 2 ^ 28" "unat (of_nat (length ws + 1) :: u64) = length ws + 1"
proof -
  have ok: "al_ok k a" using d(1) by (simp add: dsc_ok_def)
  obtain b where ib: "in_bucket b i (length ws + 1)" using assms(3) by (auto simp: block_at_def)
  have le: "i + (length ws + 1) \<le> al_capacity a"
    using assms(3) al_okD(4) [OF ok] by (simp add: block_at_def)
  note sw = slot_word_in_bucket [OF ok ib le] and sl = in_bucket_slot [OF ok ib le, of 0]
  have "al_capacity a \<le> bucket_start 22" using al_okD(3) [OF ok] bucket_start_mono [OF d(2)] by simp
  then have "i < 2 ^ 28" using le by (simp add: bucket_start_eq)
  moreover have "sgen_array_list_get_slot a i = Some (b, i - bucket_start b)"
    using sl by (simp add: sgen_array_list_get_slot_def)
  moreover have "slot_word (b, i - bucket_start b) 0 a = Some (of_nat (length ws + 1))"
    "\<forall>l<length ws. slot_word (b, i - bucket_start b) (1 + l) a = Some (ws ! l)"
    using sw assms(3) by (simp_all add: block_at_def del: of_nat_add)
  moreover have "unat (of_nat (length ws + 1) :: u64) = length ws + 1"
    using assms(3) by (intro unat_word_of_nat_small) (simp add: block_at_def)
  ultimately show thesis by (intro that)
qed

lemma complex_scan:
  assumes d: "dsc_ok k a" "k \<le> 22" and b: "block_at a i ws"
  shows "OBJ_COMPLEX_FOREACH_PTR (DESC_TYPE_COMPLEX OR int_shifted (int i) LOW_TYPE_BITS) a =
    Some (bitmap_refs ws (64 * length ws))"
proof -
  obtain slot where s: "sgen_array_list_get_slot a i = Some slot" "slot_word slot 0 a = Some (of_nat (length ws + 1))"
    "\<forall>l<length ws. slot_word slot (1 + l) a = Some (ws ! l)" "i < 2 ^ 28" "unat (of_nat (length ws + 1) :: u64) = length ws + 1"
    by (rule block_descriptor [OF assms])
  have "unat DESC_TYPE_COMPLEX < 8" by (simp add: DESC_TYPE_COMPLEX_def)
  note w = complex_word [OF s(4) this]
  have u: "unat ((of_nat (length ws + 1) :: u64) - 1) = length ws"
    using b by (simp add: block_at_def unat_word_of_nat_small)
  have "complex_foreach slot 1 (length ws) 0 a = Some (bitmap_refs ws (64 * length ws))"
    using complex_foreach_eq [OF s(3), of 0] by (simp add: map_plus_0)
  then show ?thesis using s(1,2) w(2) u
    by (simp add: OBJ_COMPLEX_FOREACH_PTR_def sgen_get_complex_descriptor_def del: of_nat_add of_nat_Suc)
qed

lemma align_up_and_7: "SGEN_ALIGN_UP s AND 7 = 0"
  by (rule bit_word_eqI) (simp add: SGEN_ALIGN_UP_def bit_simps)

lemma ptrfree_word:
  assumes "s AND 7 = 0"
  shows "(DESC_TYPE_SMALL_PTRFREE OR s) AND DESC_TYPE_MASK = DESC_TYPE_SMALL_PTRFREE"
    "\<not> sgen_gc_descr_has_references (DESC_TYPE_SMALL_PTRFREE OR s)"
proof -
  have "(3 OR s) AND 7 = (3 AND 7) OR (s AND 7)" by (rule bit.conj_disj_distrib2)
  then show "(DESC_TYPE_SMALL_PTRFREE OR s) AND DESC_TYPE_MASK = DESC_TYPE_SMALL_PTRFREE"
    using assms by (simp add: desc_consts)
  have "s AND 3 = s AND (7 AND 3)" by simp
  also have "\<dots> = 0" using assms by (simp only: and.assoc [symmetric]) simp
  finally have "s AND 3 = 0" .
  moreover have "(3 OR s) AND 3 = (3 AND 3) OR (s AND 3)" by (rule bit.conj_disj_distrib2)
  ultimately show "\<not> sgen_gc_descr_has_references (DESC_TYPE_SMALL_PTRFREE OR s)"
    by (simp add: sgen_gc_descr_has_references_def desc_consts)
qed

lemma complex_has_references:
  assumes "res < 2 ^ 28" "t = DESC_TYPE_COMPLEX \<or> t = DESC_TYPE_COMPLEX_ARR"
  shows "sgen_gc_descr_has_references (t OR int_shifted (int res) LOW_TYPE_BITS)"
proof -
  let ?d = "t OR int_shifted (int res) LOW_TYPE_BITS"
  have "unat t < 8" using assms(2) by (auto simp: DESC_TYPE_COMPLEX_def DESC_TYPE_COMPLEX_ARR_def)
  from complex_word(1) [OF assms(1) this] have 7: "?d AND 7 = t" by (simp add: desc_consts)
  have m: "?d AND 3 = ?d AND (7 AND 3)" by simp
  have "?d AND 3 = t AND 3" unfolding m and.assoc [symmetric] 7 ..
  moreover have "(?d AND 0xC007) AND 7 = ?d AND (0xC007 AND 7)" by (rule and.assoc)
  then have "(?d AND 0xC007) AND 7 = t" using 7 by simp
  then have "?d AND 0xC007 \<noteq> 5" using assms(2) by (auto simp: DESC_TYPE_COMPLEX_def DESC_TYPE_COMPLEX_ARR_def)
  ultimately show ?thesis using assms(2) by (auto simp: sgen_gc_descr_has_references_def desc_consts)
qed

text \<open>The references that fit a bitmap of whole words.\<close>

lemma refs_in_words:
  assumes c: "bitmap_clean bitmap n" and ne: "bitmap_refs bitmap n \<noteq> []"
    and m: "m = (last (bitmap_refs bitmap n) + 1 + 63) div 64"
  shows "bitmap_refs (take m bitmap) (64 * m) = bitmap_refs bitmap n" "m \<le> length bitmap"
proof -
  let ?l = "last (bitmap_refs bitmap n)"
  have l: "?l \<in> set (bitmap_refs bitmap n)" using ne by simp
  then have ln: "?l < n" by (simp add: set_bitmap_refs)
  have "?l < 64 * length bitmap" using ln c by (simp add: bitmap_clean_def)
  then show m': "m \<le> length bitmap" using m by linarith
  have lm: "?l < 64 * m" unfolding m by linarith
  show "bitmap_refs (take m bitmap) (64 * m) = bitmap_refs bitmap n"
  proof (rule bitmap_refs_eqI)
    fix i
    have div: "i < 64 * m \<Longrightarrow> i div 64 < m" by (simp add: less_mult_imp_div_less mult.commute)
    have "i < 64 * m" if "i < n" "bit (bitmap ! (i div 64)) (i mod 64)"
    proof -
      have "i \<in> set (bitmap_refs bitmap n)" using that by (simp add: set_bitmap_refs)
      then have "i \<le> ?l" using refs_bound by auto
      then show ?thesis using lm by simp
    qed
    moreover have "i < n" if "i < 64 * m" "bit (bitmap ! (i div 64)) (i mod 64)"
    proof -
      have "i < 64 * length bitmap" using that(1) m' by linarith
      then show ?thesis using that(2) c by (auto simp: bitmap_clean_def not_less)
    qed
    ultimately show "(i < 64 * m \<and> bit (take m bitmap ! (i div 64)) (i mod 64)) =
        (i < n \<and> bit (bitmap ! (i div 64)) (i mod 64))" using div by auto
  qed
qed

text \<open>C20: For every bitmap of an object's references outside its two header words, the descriptor
  built for it (pointer-free, bitmap, run-length or complex, whichever the size and the
  shape lead to) makes the scan visit exactly these references, in order; it counts as having
  references exactly when there are some, and the complex descriptors made before stay.\<close>

theorem object_descriptor_correct:
  assumes d: "dsc_ok k a" "k \<le> 21" and c: "bitmap_clean bitmap n" "n \<le> 2 ^ 30"
    and hdr: "\<forall>i\<in>set (bitmap_refs bitmap n). 2 \<le> i"
  shows "\<exists>desc a' k'. mono_gc_make_descr_for_object bitmap n obj_size a = Some (desc, a') \<and> dsc_ok k' a' \<and> k' \<le> 22 \<and>
    (sgen_gc_descr_has_references desc \<longleftrightarrow> bitmap_refs bitmap n \<noteq> []) \<and>
    scan_object desc el_size len a' =
      Some (if bitmap_refs bitmap n = [] then No_Refs else Object_Refs (bitmap_refs bitmap n)) \<and>
    (\<forall>i ws. block_at a i ws \<longrightarrow> block_at a' i ws)"
proof -
  let ?refs = "bitmap_refs bitmap n" and ?s = "SGEN_ALIGN_UP obj_size"
  have sb: "scan_bits bitmap 0 n (-1, 0, -1) = Some (refs_summary ?refs)"
    using c(1) by (intro scan_bits_eq) (simp add: bitmap_clean_def)
  note make = mono_gc_make_descr_for_object_def [of bitmap n obj_size a, unfolded Let_def sb]
  show ?thesis
  proof (cases "?refs = []")
    case True
    have p7: "\<not> sgen_gc_descr_has_references DESC_TYPE_COMPLEX_PTRFREE"
      "scan_object DESC_TYPE_COMPLEX_PTRFREE el_size len a = Some No_Refs"
      by (simp_all add: sgen_gc_descr_has_references_def scan_object_def Let_def desc_consts)
    have p3: "scan_object (DESC_TYPE_SMALL_PTRFREE OR ?s) el_size len a = Some No_Refs"
      using ptrfree_word(1) [OF align_up_and_7]
      by (simp add: scan_object_def Let_def) (simp add: desc_consts)
    show ?thesis using True d p7 p3 ptrfree_word(2) [OF align_up_and_7, of obj_size]
      by (auto simp: make refs_summary_def)
  next
    case False
    let ?f = "hd ?refs" and ?l = "last ?refs" and ?c = "length ?refs"
    have in_refs: "?f \<in> set ?refs" "?l \<in> set ?refs" using False by simp_all
    have fl: "2 \<le> ?f" "?l < n" "0 < ?c" using in_refs hdr False by (auto simp: set_bitmap_refs)
    have l64: "?l < 64 * length bitmap" using fl(2) c(1) by (simp add: bitmap_clean_def)
    have sum: "refs_summary ?refs = (int ?f, int ?c, int ?l)" using False by (simp add: refs_summary_def)
    have al: "?s AND 7 = 0" by (rule align_up_and_7)
    let ?bm = "int ?l < int (BITMAP_NUM_BITS + OBJECT_HEADER_WORDS) \<and> ?s \<le> SGEN_MAX_SMALL_OBJ_SIZE"
    let ?rl = "(?s \<le> MAX_RUNLEN_OBJECT_SIZE \<and> ?s \<le> SGEN_MAX_SMALL_OBJ_SIZE) \<and>
           int ?f < 256 \<and> int ?c < 256 \<and> int ?f + int ?c = int ?l + 1"
    have mk: "mono_gc_make_descr_for_object bitmap n obj_size a =
        (if ?bm then
           do {
             w \<leftarrow> bitmap_word bitmap 0;
             Some (DESC_TYPE_BITMAP OR push_bit LOW_TYPE_BITS (drop_bit OBJECT_HEADER_WORDS w), a) }
         else if ?rl then
           Some (DESC_TYPE_RUN_LENGTH OR ?s OR int_shifted (int ?f) 16 OR int_shifted (int ?c) 24, a)
         else
           do {
             (res, a) \<leftarrow> alloc_complex_descriptor bitmap (nat (int ?l + 1)) a;
             Some (DESC_TYPE_COMPLEX OR int_shifted (int res) LOW_TYPE_BITS, a) })"
      unfolding make sum using al by (simp split del: if_split)
    consider (bm) "?bm" | (rl) "\<not> ?bm" "?rl" | (cx) "\<not> ?bm" "\<not> ?rl" by blast
    then show ?thesis
    proof cases
      case bm
      let ?w = "bitmap ! 0"
      have l63: "?l < 63" using bm by (simp add: desc_consts)
      have len: "0 < length bitmap" using l64 by (cases bitmap) simp_all
      have bits: "bit ?w i \<longleftrightarrow> i \<in> set ?refs" if "i < 64" for i
      proof -
        have "i < 64 * length bitmap" using that len by (cases "length bitmap") auto
        then show ?thesis using that c(1) by (auto simp: set_bitmap_refs bitmap_clean_def not_less)
      qed
      have "bitmap_refs bitmap n = bitmap_refs [?w] 64"
      proof (rule bitmap_refs_eqI)
        fix i
        show "(i < n \<and> bit (bitmap ! (i div 64)) (i mod 64)) = (i < 64 \<and> bit ([?w] ! (i div 64)) (i mod 64))"
        proof (cases "i < 64")
          case True
          then show ?thesis using bits [OF True] by (simp add: set_bitmap_refs)
        next
          case False
          then have "i \<notin> set ?refs" using refs_bound [of i ?refs] l63 by auto
          then show ?thesis using False by (simp add: set_bitmap_refs)
        qed
      qed
      then have refs: "?refs = word_refs ?w" by (simp add: word_refs_bitmap)
      have w: "\<not> bit ?w 0" "\<not> bit ?w 1" using bits [of 0] bits [of 1] hdr by fastforce+
      have w63: "\<not> bit ?w 63" using bits [of 63] refs_bound [of 63 ?refs] l63 by fastforce
      have "?f \<le> ?l" using refs_bound [OF in_refs(1)] by simp
      then have "bit ?w ?f" using bits [of ?f] in_refs(1) l63 by simp
      then have w0: "?w \<noteq> 0" by auto
      let ?d = "DESC_TYPE_BITMAP OR push_bit LOW_TYPE_BITS (drop_bit OBJECT_HEADER_WORDS ?w)"
      note dw = bitmap_word_desc [OF w w63 w0]
      have "\<forall>j<2. \<not> bit ?w j" using w by (auto simp: less_2_cases_iff)
      from bmap_foreach_skip [OF this, of 0] have "bmap_foreach ?w 0 = bmap_foreach (drop_bit 2 ?w) 2"
        by (simp only: add_0_left)
      moreover have "bmap_foreach ?w 0 = ?refs" by (simp add: bmap_foreach_eq refs map_plus_0)
      ultimately have "bmap_foreach (drop_bit 2 ?w) 2 = ?refs" by simp
      then have "OBJ_BITMAP_FOREACH_PTR ?d = Some ?refs"
        using bitmap_foreach_eq [OF dw(3), of 2] unfolding OBJ_BITMAP_FOREACH_PTR_def dw(2)
        by (simp add: OBJECT_HEADER_WORDS_def)
      then have "scan_object ?d el_size len a = Some (Object_Refs ?refs)"
        using dw(1) by (simp add: scan_object_def Let_def) (simp add: desc_consts)
      moreover have "mono_gc_make_descr_for_object bitmap n obj_size a = Some (?d, a)"
        unfolding mk if_P [OF bm] using len by (simp add: bitmap_word_def)
      ultimately show ?thesis using d dw(4) False by auto
    next
      case rl
      let ?d = "DESC_TYPE_RUN_LENGTH OR ?s OR int_shifted (int ?f) 16 OR int_shifted (int ?c) 24"
      have "?s \<le> 8000" using rl(2) by (simp add: desc_consts)
      moreover have "0 \<le> int ?f" "int ?f < 256" "0 < int ?c" "int ?c < 256" using rl(2) fl by simp_all
      ultimately have rw: "?d AND DESC_TYPE_MASK = DESC_TYPE_RUN_LENGTH" "unat (drop_bit 16 ?d AND 0xff) = ?f"
        "unat (drop_bit 24 ?d AND 0xff) = ?c" "?d AND 0xffff0000 \<noteq> 0" "sgen_gc_descr_has_references ?d"
        using run_length_word [of "int ?f" "int ?c" ?s] al by simp_all
      have "?refs = [?f..<?f + ?c]" using rl(2) False by (intro refs_run) auto
      then have "OBJ_RUN_LEN_FOREACH_PTR ?d = ?refs" using rw by (simp add: OBJ_RUN_LEN_FOREACH_PTR_def Let_def)
      then have "scan_object ?d el_size len a = Some (Object_Refs ?refs)"
        using rw(1) by (simp add: scan_object_def Let_def)
      moreover have "mono_gc_make_descr_for_object bitmap n obj_size a = Some (?d, a)"
        unfolding mk if_not_P [OF rl(1)] if_P [OF rl(2)] ..
      ultimately show ?thesis using d rw(5) False by auto
    next
      case cx
      define m where "m = (?l + 1 + 63) div 64"
      note rw = refs_in_words [OF c(1) False m_def]
      have "?l < 2 ^ 30" using fl(2) c(2) by linarith
      then have "m < 2 ^ 26" unfolding m_def by simp
      from alloc_complex_ok [OF d m_def rw(2) this] obtain res a' k' where
        r: "alloc_complex_descriptor bitmap (?l + 1) a = Some (res, a')" "dsc_ok k' a'" "k' \<le> 22"
          "block_at a' res (take m bitmap)" "\<forall>i ws. block_at a i ws \<longrightarrow> block_at a' i ws" by blast
      let ?d = "DESC_TYPE_COMPLEX OR int_shifted (int res) LOW_TYPE_BITS"
      have len: "length (take m bitmap) = m" using rw(2) by simp
      obtain slot where res: "res < 2 ^ 28" by (rule block_descriptor [OF r(2,3,4)])
      have "OBJ_COMPLEX_FOREACH_PTR ?d a' = Some ?refs" using complex_scan [OF r(2,3,4)] rw(1) len by simp
      moreover have "unat DESC_TYPE_COMPLEX < 8" by (simp add: DESC_TYPE_COMPLEX_def)
      note complex_word(1) [OF res this]
      ultimately have "scan_object ?d el_size len a' = Some (Object_Refs ?refs)"
        by (simp add: scan_object_def Let_def) (simp add: desc_consts)
      moreover have "nat (int ?l + 1) = ?l + 1" by simp
      then have "mono_gc_make_descr_for_object bitmap n obj_size a = Some (?d, a')"
        unfolding mk if_not_P [OF cx(1)] if_not_P [OF cx(2)] using r(1) by simp
      ultimately show ?thesis using r complex_has_references [OF res] False by auto
    qed
  qed
qed

theorem object_descriptor_witness:
  "\<exists>desc a' k'. mono_gc_make_descr_for_object [0xF0] 64 64 (SGEN_ARRAY_LIST_INIT False None None) = Some (desc, a') \<and>
    dsc_ok k' a' \<and> scan_object desc 0 0 a' = Some (Object_Refs [4, 5, 6, 7])"
proof -
  let ?a = "SGEN_ARRAY_LIST_INIT False None None"
  have ok: "al_ok 0 ?a" by (simp add: al_ok_def SGEN_ARRAY_LIST_INIT_def bucket_start_eq SGEN_ARRAY_LIST_BUCKETS_def)
  have "tiled ?a 0" using tiled_end [of ?a] by (simp add: SGEN_ARRAY_LIST_INIT_def)
  with ok have d: "dsc_ok 0 ?a" by (simp add: dsc_ok_def SGEN_ARRAY_LIST_INIT_def)
  have c: "bitmap_clean [0xF0] 64" by (simp add: bitmap_clean_def)
  have refs: "bitmap_refs [0xF0] 64 = [4, 5, 6, 7]"
    unfolding word_refs_bitmap word_refs_def by code_simp
  from object_descriptor_correct [OF d _ c, of 64 0 0] show ?thesis by (simp add: refs) blast
qed

section \<open>Root descriptors of all references\<close>

lemma root_word:
  assumes "\<not> bit w 61" "\<not> bit w 62" "\<not> bit (w :: u64) 63"
  shows "MAKE_ROOT_DESC ROOT_DESC_BITMAP w AND ROOT_DESC_TYPE_MASK = ROOT_DESC_BITMAP"
    "drop_bit ROOT_DESC_TYPE_SHIFT (MAKE_ROOT_DESC ROOT_DESC_BITMAP w) = w"
proof -
  have one: "bit (1 :: u64) j \<longleftrightarrow> j = 0" for j by (simp add: bit_1_iff)
  have b: "bit (MAKE_ROOT_DESC ROOT_DESC_BITMAP w) j \<longleftrightarrow> j = 0 \<or> (j < 64 \<and> 3 \<le> j \<and> bit w (j - 3))" for j
    by (auto simp: MAKE_ROOT_DESC_def desc_consts bit_or_iff one bit_push_bit_iff)
  have "take_bit 3 (MAKE_ROOT_DESC ROOT_DESC_BITMAP w) = 1"
    by (rule bit_word_eqI) (simp only: bit_take_bit_iff b one, auto)
  then show "MAKE_ROOT_DESC ROOT_DESC_BITMAP w AND ROOT_DESC_TYPE_MASK = ROOT_DESC_BITMAP"
    by (simp add: desc_consts and_small_cases)
  show "drop_bit ROOT_DESC_TYPE_SHIFT (MAKE_ROOT_DESC ROOT_DESC_BITMAP w) = w"
  proof (rule bit_word_eqI)
    fix j assume "j < LENGTH(64)"
    moreover have "bit w j \<Longrightarrow> j < 61" using assms \<open>j < LENGTH(64)\<close> by (cases "j = 61 \<or> j = 62 \<or> j = 63") auto
    ultimately show "bit (drop_bit ROOT_DESC_TYPE_SHIFT (MAKE_ROOT_DESC ROOT_DESC_BITMAP w)) j = bit w j"
      by (auto simp: bit_drop_bit_eq b ROOT_DESC_TYPE_SHIFT_def)
  qed
qed

lemma word_refs_mask: "m \<le> 64 \<Longrightarrow> word_refs (mask m) = [0..<m]"
  by (rule sorted_distinct_set_unique) (auto simp: word_refs_def bit_mask_iff sorted_wrt_filter)

lemma memset_head: "0 < k \<Longrightarrow> m < 8 \<Longrightarrow> memset_ff m (replicate k 0) ! 0 = mask (8 * m)"
  by (simp add: memset_ff_def)

text \<open>C21: The root descriptor made for \<open>n < 61\<close> references describes all of them only below 8 or
  when 8 divides \<open>n\<close>: the bits past the last whole byte are stored at word \<open>n / 8\<close> of the
  bitmap, not at its byte, so the references they stand for are never scanned.\<close>

theorem root_descr_all_refs_bits:
  assumes n: "n < 61" and fresh: "n < 32 \<longrightarrow> all_ref_root_descrs ds ! n = 0"
  shows "\<exists>desc ds'. mono_gc_make_root_descr_all_refs n ds = Some (desc, ds') \<and>
    desc AND ROOT_DESC_TYPE_MASK = ROOT_DESC_BITMAP \<and>
    bmap_foreach (drop_bit ROOT_DESC_TYPE_SHIFT desc) 0 = [0..<if n < 8 then n else n div 8 * 8]"
proof -
  let ?m = "if n < 8 then n else n div 8 * 8"
  define L where "L = ((n + 7) div 8 * 8 + 1 + 7) div 8 * 8 div 8"
  let ?bm = "memset_ff (n div 8) (replicate L 0)"
  let ?bm' = "if n mod 8 \<noteq> 0 then ?bm[n div 8 := push_bit (n mod 8) 1 - 1] else ?bm"
  have len: "length ?bm = L" by (simp add: memset_ff_def)
  have pos: "0 < L" "n div 8 < L" unfolding L_def by auto
  then have ne: "?bm' \<noteq> []" using len by auto
  have head: "?bm ! 0 = mask (8 * (n div 8))" using pos(1) n by (intro memset_head) simp_all
  have w0: "n \<noteq> 0 \<Longrightarrow> ?bm' ! 0 = mask ?m"
  proof (cases "n < 8")
    case True
    assume "n \<noteq> 0"
    then show ?thesis using True pos(1) len by (simp add: mask_eq_exp_minus_1)
  next
    case False
    then have "n div 8 \<noteq> 0" by auto
    then show ?thesis using False head by (simp add: mult.commute)
  qed
  have m: "?m \<le> 60" using n by auto
  have bits: "\<not> bit (mask ?m :: u64) j" if "60 \<le> j" for j using m that by (auto simp: bit_mask_iff)
  let ?d = "MAKE_ROOT_DESC ROOT_DESC_BITMAP (mask ?m)"
  have make: "mono_gc_make_descr_from_bitmap ?bm' n (complex_descriptors ds) = Some (?d, complex_descriptors ds)"
  proof (cases "n = 0")
    case False
    have "bitmap_word ?bm' 0 = Some (mask ?m)" using w0 [OF False] ne by (simp add: bitmap_word_def)
    then show ?thesis using n False
      by (simp add: mono_gc_make_descr_from_bitmap_def ROOT_DESC_TYPE_SHIFT_def)
  qed (simp add: mono_gc_make_descr_from_bitmap_def)
  have "\<exists>ds'. mono_gc_make_root_descr_all_refs n ds = Some (?d, ds')"
    using make fresh len pos(2)
    unfolding mono_gc_make_root_descr_all_refs_def Let_def L_def [symmetric] by (cases "n mod 8 = 0") auto
  moreover have "?d AND ROOT_DESC_TYPE_MASK = ROOT_DESC_BITMAP" "drop_bit ROOT_DESC_TYPE_SHIFT ?d = mask ?m"
    using root_word [of "mask ?m"] bits by simp_all
  moreover have "bmap_foreach (mask ?m) 0 = [0..<?m]" using m by (simp add: bmap_foreach_eq map_plus_0 word_refs_mask)
  ultimately show ?thesis by auto
qed

theorem root_descr_all_refs_witness:
  "\<exists>desc ds'. mono_gc_make_root_descr_all_refs 12 (init_descriptors :: unit sgen_descriptors) = Some (desc, ds') \<and>
    bmap_foreach (drop_bit ROOT_DESC_TYPE_SHIFT desc) 0 = [0..<8]"
  using root_descr_all_refs_bits [of 12 "init_descriptors :: unit sgen_descriptors"]
  by (auto simp: init_descriptors_def)

end
