(* ===== verification/Sgen_Internal.thy ===== *)
theory Sgen_Internal
  imports Main "HOL-Library.Monad_Syntax"
begin

text \<open>
  The internal allocator, \<open>sgen/sgen-internal.c\<close>: which lock-free allocator (or the operating
  system) serves a request, and the block size a later free passes on, from which that free
  finds the superblock. The page size is a parameter. An operation is modelled by the call it
  makes and the registration table it leaves; \<open>None\<close> is a failed assertion.
\<close>

section \<open>Sizes\<close>

definition allocator_sizes :: "nat list" where
  "allocator_sizes = [
       8,   16,   24,   32,   40,   48,   64,   80,
      96,  128,  160,  192,  224,  248,  288,  336,
     368,  448,  504,  584,  680,  816, 1016,
    1360, 2040, 2728, 4088, 5456, 8184]"

definition NUM_ALLOCATORS :: nat where
  "NUM_ALLOCATORS = 29"

definition LOCK_FREE_ALLOC_SB_MAX_SIZE :: nat where
  "LOCK_FREE_ALLOC_SB_MAX_SIZE = 16384"

definition LOCK_FREE_ALLOC_SB_HEADER_SIZE :: nat where
  "LOCK_FREE_ALLOC_SB_HEADER_SIZE = 8"

definition LOCK_FREE_ALLOC_SB_USABLE_SIZE :: "nat \<Rightarrow> nat" where
  "LOCK_FREE_ALLOC_SB_USABLE_SIZE block_size = block_size - LOCK_FREE_ALLOC_SB_HEADER_SIZE"

section \<open>Memory types\<close>

text \<open>The runtime's own types follow the collector's.\<close>

datatype internal_mem_type =
    INTERNAL_MEM_PIN_QUEUE
  | INTERNAL_MEM_FRAGMENT
  | INTERNAL_MEM_SECTION
  | INTERNAL_MEM_SCAN_STARTS
  | INTERNAL_MEM_FIN_TABLE
  | INTERNAL_MEM_FINALIZE_ENTRY
  | INTERNAL_MEM_FINALIZE_READY
  | INTERNAL_MEM_DISLINK_TABLE
  | INTERNAL_MEM_DISLINK
  | INTERNAL_MEM_ROOTS_TABLE
  | INTERNAL_MEM_ROOT_RECORD
  | INTERNAL_MEM_STATISTICS
  | INTERNAL_MEM_STAT_PINNED_CLASS
  | INTERNAL_MEM_STAT_REMSET_CLASS
  | INTERNAL_MEM_STAT_GCHANDLE_CLASS
  | INTERNAL_MEM_GRAY_QUEUE
  | INTERNAL_MEM_MS_TABLES
  | INTERNAL_MEM_MS_BLOCK_INFO
  | INTERNAL_MEM_MS_BLOCK_INFO_SORT
  | INTERNAL_MEM_WORKER_DATA
  | INTERNAL_MEM_THREAD_POOL_JOB
  | INTERNAL_MEM_BRIDGE_DATA
  | INTERNAL_MEM_OLD_BRIDGE_HASH_TABLE
  | INTERNAL_MEM_OLD_BRIDGE_HASH_TABLE_ENTRY
  | INTERNAL_MEM_BRIDGE_HASH_TABLE
  | INTERNAL_MEM_BRIDGE_HASH_TABLE_ENTRY
  | INTERNAL_MEM_BRIDGE_ALIVE_HASH_TABLE
  | INTERNAL_MEM_BRIDGE_ALIVE_HASH_TABLE_ENTRY
  | INTERNAL_MEM_TARJAN_BRIDGE_HASH_TABLE
  | INTERNAL_MEM_TARJAN_BRIDGE_HASH_TABLE_ENTRY
  | INTERNAL_MEM_TARJAN_OBJ_BUCKET
  | INTERNAL_MEM_BRIDGE_DEBUG
  | INTERNAL_MEM_TOGGLEREF_DATA
  | INTERNAL_MEM_CARDTABLE_MOD_UNION
  | INTERNAL_MEM_BINARY_PROTOCOL
  | INTERNAL_MEM_TEMPORARY
  | INTERNAL_MEM_LOG_ENTRY
  | INTERNAL_MEM_COMPLEX_DESCRIPTORS
  | INTERNAL_MEM_EPHEMERON_LINK
  | INTERNAL_MEM_MOVED_OBJECT

fun description_for_type :: "internal_mem_type \<Rightarrow> string" where
  "description_for_type INTERNAL_MEM_PIN_QUEUE = ''pin-queue''"
| "description_for_type INTERNAL_MEM_FRAGMENT = ''fragment''"
| "description_for_type INTERNAL_MEM_SECTION = ''section''"
| "description_for_type INTERNAL_MEM_SCAN_STARTS = ''scan-starts''"
| "description_for_type INTERNAL_MEM_FIN_TABLE = ''fin-table''"
| "description_for_type INTERNAL_MEM_FINALIZE_ENTRY = ''finalize-entry''"
| "description_for_type INTERNAL_MEM_FINALIZE_READY = ''finalize-ready''"
| "description_for_type INTERNAL_MEM_DISLINK_TABLE = ''dislink-table''"
| "description_for_type INTERNAL_MEM_DISLINK = ''dislink''"
| "description_for_type INTERNAL_MEM_ROOTS_TABLE = ''roots-table''"
| "description_for_type INTERNAL_MEM_ROOT_RECORD = ''root-record''"
| "description_for_type INTERNAL_MEM_STATISTICS = ''statistics''"
| "description_for_type INTERNAL_MEM_STAT_PINNED_CLASS = ''pinned-class''"
| "description_for_type INTERNAL_MEM_STAT_REMSET_CLASS = ''remset-class''"
| "description_for_type INTERNAL_MEM_STAT_GCHANDLE_CLASS = ''gchandle-class''"
| "description_for_type INTERNAL_MEM_GRAY_QUEUE = ''gray-queue''"
| "description_for_type INTERNAL_MEM_MS_TABLES = ''marksweep-tables''"
| "description_for_type INTERNAL_MEM_MS_BLOCK_INFO = ''marksweep-block-info''"
| "description_for_type INTERNAL_MEM_MS_BLOCK_INFO_SORT = ''marksweep-block-info-sort''"
| "description_for_type INTERNAL_MEM_WORKER_DATA = ''worker-data''"
| "description_for_type INTERNAL_MEM_THREAD_POOL_JOB = ''thread-pool-job''"
| "description_for_type INTERNAL_MEM_BRIDGE_DATA = ''bridge-data''"
| "description_for_type INTERNAL_MEM_OLD_BRIDGE_HASH_TABLE = ''old-bridge-hash-table''"
| "description_for_type INTERNAL_MEM_OLD_BRIDGE_HASH_TABLE_ENTRY = ''old-bridge-hash-table-entry''"
| "description_for_type INTERNAL_MEM_BRIDGE_HASH_TABLE = ''bridge-hash-table''"
| "description_for_type INTERNAL_MEM_BRIDGE_HASH_TABLE_ENTRY = ''bridge-hash-table-entry''"
| "description_for_type INTERNAL_MEM_BRIDGE_ALIVE_HASH_TABLE = ''bridge-alive-hash-table''"
| "description_for_type INTERNAL_MEM_BRIDGE_ALIVE_HASH_TABLE_ENTRY = ''bridge-alive-hash-table-entry''"
| "description_for_type INTERNAL_MEM_TARJAN_BRIDGE_HASH_TABLE = ''tarjan-bridge-hash-table''"
| "description_for_type INTERNAL_MEM_TARJAN_BRIDGE_HASH_TABLE_ENTRY = ''tarjan-bridge-hash-table-entry''"
| "description_for_type INTERNAL_MEM_TARJAN_OBJ_BUCKET = ''tarjan-bridge-object-buckets''"
| "description_for_type INTERNAL_MEM_BRIDGE_DEBUG = ''bridge-debug''"
| "description_for_type INTERNAL_MEM_TOGGLEREF_DATA = ''toggleref-data''"
| "description_for_type INTERNAL_MEM_CARDTABLE_MOD_UNION = ''cardtable-mod-union''"
| "description_for_type INTERNAL_MEM_BINARY_PROTOCOL = ''binary-protocol''"
| "description_for_type INTERNAL_MEM_TEMPORARY = ''temporary''"
| "description_for_type INTERNAL_MEM_LOG_ENTRY = ''log-entry''"
| "description_for_type INTERNAL_MEM_COMPLEX_DESCRIPTORS = ''complex-descriptors''"
| "description_for_type INTERNAL_MEM_EPHEMERON_LINK = ''ephemeron-link''"
| "description_for_type INTERNAL_MEM_MOVED_OBJECT = ''moved-object''"

section \<open>Choosing an allocator\<close>

definition align_ptr :: "nat \<Rightarrow> nat" where
  "align_ptr n = (n + 7) div 8 * 8"

text \<open>The doubling loops need a positive page size; the operating system's is.\<close>

function block_size_loop :: "nat \<Rightarrow> nat \<Rightarrow> nat" where
  "block_size_loop aligned_slot_size size' =
    (if 0 < size' \<and> size' < LOCK_FREE_ALLOC_SB_MAX_SIZE then
       (if aligned_slot_size * 2 \<le> LOCK_FREE_ALLOC_SB_USABLE_SIZE size' then size'
        else block_size_loop aligned_slot_size (2 * size'))
     else LOCK_FREE_ALLOC_SB_MAX_SIZE)"
  by pat_completeness auto
termination
  by (relation "measure (\<lambda>(aligned_slot_size, size'). LOCK_FREE_ALLOC_SB_MAX_SIZE - size')") auto

declare block_size_loop.simps [simp del]

definition block_size :: "nat \<Rightarrow> nat \<Rightarrow> nat" where
  "block_size pagesize slot_size = block_size_loop (align_ptr slot_size) pagesize"

fun index_from :: "nat \<Rightarrow> nat list \<Rightarrow> nat \<Rightarrow> nat option" where
  "index_from slot [] sz = None"
| "index_from slot (a # as) sz = (if sz \<le> a then Some slot else index_from (slot + 1) as sz)"

definition index_for_size :: "nat \<Rightarrow> nat option" where
  "index_for_size sz = index_from 0 allocator_sizes sz"

section \<open>Operations\<close>

text \<open>
  The call an operation makes: \<open>sgen_alloc_os_memory\<close> or \<open>sgen_free_os_memory\<close> with the size,
  \<open>mono_lock_free_alloc\<close> on the allocator of an index (the slot it returns is cleared over the
  given number of bytes) or \<open>mono_lock_free_free\<close> with a block size.
\<close>

datatype internal_call =
    Alloc_OS_Memory nat
  | Lock_Free_Alloc nat nat
  | Free_OS_Memory nat
  | Lock_Free_Free nat

type_synonym type_indexes = "internal_mem_type \<Rightarrow> nat option"

definition sgen_register_fixed_internal_mem_type ::
    "internal_mem_type \<Rightarrow> nat \<Rightarrow> type_indexes \<Rightarrow> type_indexes option" where
  "sgen_register_fixed_internal_mem_type type sz fixed_type_allocator_indexes =
    (if allocator_sizes ! (NUM_ALLOCATORS - 1) < sz then None
     else do {
       slot \<leftarrow> index_for_size sz;
       case fixed_type_allocator_indexes type of
         None \<Rightarrow> Some (fixed_type_allocator_indexes(type := Some slot))
       | Some old \<Rightarrow> if old = slot then Some fixed_type_allocator_indexes else None })"

definition sgen_alloc_internal_dynamic :: "nat \<Rightarrow> internal_call option" where
  "sgen_alloc_internal_dynamic sz =
    (if allocator_sizes ! (NUM_ALLOCATORS - 1) < sz then Some (Alloc_OS_Memory sz)
     else do { index \<leftarrow> index_for_size sz; Some (Lock_Free_Alloc index sz) })"

text \<open>Freeing null makes no call: the result is \<open>None\<close>.\<close>

definition sgen_free_internal_dynamic :: "nat \<Rightarrow> nat \<Rightarrow> nat \<Rightarrow> internal_call option" where
  "sgen_free_internal_dynamic pagesize addr sz =
    (if addr = 0 then None
     else if allocator_sizes ! (NUM_ALLOCATORS - 1) < sz then Some (Free_OS_Memory sz)
     else Some (Lock_Free_Free (block_size pagesize sz)))"

definition sgen_alloc_internal :: "internal_mem_type \<Rightarrow> type_indexes \<Rightarrow> internal_call option" where
  "sgen_alloc_internal type fixed_type_allocator_indexes =
    do {
      index \<leftarrow> fixed_type_allocator_indexes type;
      if index < NUM_ALLOCATORS then Some (Lock_Free_Alloc index (allocator_sizes ! index)) else None }"

text \<open>Here the inner \<open>None\<close> is the missing call and the outer one the failed assertion.\<close>

definition sgen_free_internal :: "nat list \<Rightarrow> nat \<Rightarrow> internal_mem_type \<Rightarrow> type_indexes \<Rightarrow> internal_call option option" where
  "sgen_free_internal allocator_block_sizes addr type fixed_type_allocator_indexes =
    (if addr = 0 then Some None
     else do {
       index \<leftarrow> fixed_type_allocator_indexes type;
       if index < NUM_ALLOCATORS then Some (Some (Lock_Free_Free (allocator_block_sizes ! index))) else None })"

text \<open>The checks of the initialisation, one for every block size.\<close>

function check_block_sizes :: "nat \<Rightarrow> nat \<Rightarrow> bool" where
  "check_block_sizes pagesize size' =
    (if 0 < size' \<and> size' \<le> LOCK_FREE_ALLOC_SB_MAX_SIZE then
       (let max_size = LOCK_FREE_ALLOC_SB_USABLE_SIZE size' div 2 div 8 * 8 in
        (case index_for_size max_size of None \<Rightarrow> False | Some i \<Rightarrow> allocator_sizes ! i = max_size) \<and>
        block_size pagesize max_size = size' \<and>
        (size' < LOCK_FREE_ALLOC_SB_MAX_SIZE \<longrightarrow> block_size pagesize (max_size + 1) = 2 * size') \<and>
        check_block_sizes pagesize (2 * size'))
     else True)"
  by pat_completeness auto
termination
  by (relation "measure (\<lambda>(pagesize, size'). LOCK_FREE_ALLOC_SB_MAX_SIZE + 1 - size')") auto

declare check_block_sizes.simps [simp del]

definition sgen_init_internal_allocator :: "nat \<Rightarrow> (type_indexes \<times> nat list) option" where
  "sgen_init_internal_allocator pagesize =
    (if check_block_sizes pagesize pagesize
     then Some (\<lambda>_. None, map (block_size pagesize) allocator_sizes) else None)"

section \<open>A block is freed with the size it was allocated with\<close>

lemma index_from_spec:
  "\<exists>a\<in>set as. sz \<le> a \<Longrightarrow>
    \<exists>i<length as. index_from k as sz = Some (k + i) \<and> sz \<le> as ! i \<and> (\<forall>j<i. as ! j < sz)"
proof (induction as arbitrary: k)
  case (Cons a as)
  show ?case
  proof (cases "sz \<le> a")
    case True
    then show ?thesis by (intro exI [of _ 0]) simp
  next
    case False
    with Cons.prems have "\<exists>b\<in>set as. sz \<le> b" by auto
    from Cons.IH [OF this, of "k + 1"] obtain i where
      i: "i < length as" "index_from (k + 1) as sz = Some (k + 1 + i)" "sz \<le> as ! i" "\<forall>j<i. as ! j < sz" by blast
    then show ?thesis using False
      by (intro exI [of _ "Suc i"]) (auto simp: less_Suc_eq_0_disj)
  qed
qed simp

lemma index_for_size_spec:
  assumes "sz \<le> 8184"
  obtains i where "i < NUM_ALLOCATORS" "index_for_size sz = Some i" "sz \<le> allocator_sizes ! i"
    "\<forall>j<i. allocator_sizes ! j < sz"
proof -
  have "\<exists>a\<in>set allocator_sizes. sz \<le> a" using assms by (auto simp: allocator_sizes_def)
  moreover have "length allocator_sizes = NUM_ALLOCATORS" by (simp add: allocator_sizes_def NUM_ALLOCATORS_def)
  ultimately show thesis using index_from_spec [of allocator_sizes sz 0] that by (auto simp: index_for_size_def)
qed

lemma index_threshold:
  assumes "index_for_size sz = Some i" "i < NUM_ALLOCATORS" "sz \<le> allocator_sizes ! i" "\<forall>j<i. allocator_sizes ! j < sz"
    and t: "allocator_sizes ! t = T" "t < NUM_ALLOCATORS"
  shows "sz \<le> T \<longleftrightarrow> allocator_sizes ! i \<le> T"
proof -
  have s: "sorted allocator_sizes" by (simp add: allocator_sizes_def)
  have len: "length allocator_sizes = NUM_ALLOCATORS" by (simp add: allocator_sizes_def NUM_ALLOCATORS_def)
  show ?thesis
  proof
    assume "sz \<le> T"
    then have "i \<le> t" using assms(4) t(1) by (metis not_le)
    then show "allocator_sizes ! i \<le> T" using sorted_nth_mono [OF s] t len by metis
  next
    assume "allocator_sizes ! i \<le> T"
    then show "sz \<le> T" using assms(3) by simp
  qed
qed

lemma block_size_eq:
  assumes "pagesize \<in> {4096, 8192, 16384}"
  shows "block_size pagesize n =
    (if pagesize = 4096 \<and> n \<le> 2040 then 4096 else if pagesize \<le> 8192 \<and> n \<le> 4088 then 8192 else 16384)"
proof -
  have a: "align_ptr n * 2 \<le> 4088 \<longleftrightarrow> n \<le> 2040" "align_ptr n * 2 \<le> 8184 \<longleftrightarrow> n \<le> 4088"
  proof -
    have "align_ptr n * 2 \<le> 4088 \<longleftrightarrow> (n + 7) div 8 < 256" "align_ptr n * 2 \<le> 8184 \<longleftrightarrow> (n + 7) div 8 < 512"
      unfolding align_ptr_def by auto
    then show "align_ptr n * 2 \<le> 4088 \<longleftrightarrow> n \<le> 2040" "align_ptr n * 2 \<le> 8184 \<longleftrightarrow> n \<le> 4088"
      by (auto simp: div_less_iff_less_mult)
  qed
  note step = block_size_loop.simps [of "align_ptr n"] LOCK_FREE_ALLOC_SB_MAX_SIZE_def
    LOCK_FREE_ALLOC_SB_USABLE_SIZE_def LOCK_FREE_ALLOC_SB_HEADER_SIZE_def
  have l: "block_size_loop (align_ptr n) 16384 = 16384" by (simp add: step)
  have m: "block_size_loop (align_ptr n) 8192 = (if n \<le> 4088 then 8192 else 16384)"
    by (subst block_size_loop.simps) (simp add: l a(2) LOCK_FREE_ALLOC_SB_MAX_SIZE_def
        LOCK_FREE_ALLOC_SB_USABLE_SIZE_def LOCK_FREE_ALLOC_SB_HEADER_SIZE_def)
  have "block_size_loop (align_ptr n) 4096 = (if n \<le> 2040 then 4096 else if n \<le> 4088 then 8192 else 16384)"
    by (subst block_size_loop.simps) (simp add: m a(1) LOCK_FREE_ALLOC_SB_MAX_SIZE_def
        LOCK_FREE_ALLOC_SB_USABLE_SIZE_def LOCK_FREE_ALLOC_SB_HEADER_SIZE_def)
  with l m assms show ?thesis by (auto simp: block_size_def)
qed

lemma check_block_sizes_ok:
  assumes "pagesize \<in> {4096, 8192, 16384}"
  shows "check_block_sizes pagesize pagesize"
proof -
  note sizes = LOCK_FREE_ALLOC_SB_MAX_SIZE_def LOCK_FREE_ALLOC_SB_USABLE_SIZE_def LOCK_FREE_ALLOC_SB_HEADER_SIZE_def
  have i: "case index_for_size 2040 of None \<Rightarrow> False | Some i \<Rightarrow> allocator_sizes ! i = 2040"
    "case index_for_size 4088 of None \<Rightarrow> False | Some i \<Rightarrow> allocator_sizes ! i = 4088"
    "case index_for_size 8184 of None \<Rightarrow> False | Some i \<Rightarrow> allocator_sizes ! i = 8184"
    by (simp_all add: index_for_size_def allocator_sizes_def)
  have 3: "check_block_sizes pagesize 32768" by (subst check_block_sizes.simps) (simp add: sizes)
  have 2: "check_block_sizes pagesize 16384"
    using assms by (subst check_block_sizes.simps) (auto simp: sizes i 3 block_size_eq [OF assms])
  have 1: "check_block_sizes pagesize 8192" if "pagesize \<noteq> 16384"
    using assms that by (subst check_block_sizes.simps) (auto simp: sizes i 2 block_size_eq [OF assms])
  have 0: "check_block_sizes pagesize 4096" if "pagesize = 4096"
    using 1 that by (subst check_block_sizes.simps) (auto simp: sizes i block_size_eq)
  from assms 0 1 2 show ?thesis by auto
qed

text \<open>For the page sizes of the supported systems the initialisation passes its checks, and every
  request up to the largest slot is served by the smallest slot that fits and freed with the
  block size of the very allocator that served it, which holds at least two of its slots.\<close>

theorem internal_block_size_matches:
  assumes p: "pagesize \<in> {4096, 8192, 16384}" and sz: "sz \<le> 8184" and addr: "addr \<noteq> 0"
  shows "\<exists>i types blocks. sgen_init_internal_allocator pagesize = Some (types, blocks) \<and>
    sgen_alloc_internal_dynamic sz = Some (Lock_Free_Alloc i sz) \<and>
    sgen_free_internal_dynamic pagesize addr sz = Some (Lock_Free_Free (blocks ! i)) \<and>
    sz \<le> allocator_sizes ! i \<and> (\<forall>j<i. allocator_sizes ! j < sz) \<and>
    2 * allocator_sizes ! i \<le> LOCK_FREE_ALLOC_SB_USABLE_SIZE (blocks ! i)"
proof -
  obtain i where i: "i < NUM_ALLOCATORS" "index_for_size sz = Some i" "sz \<le> allocator_sizes ! i"
    "\<forall>j<i. allocator_sizes ! j < sz" by (rule index_for_size_spec [OF sz])
  let ?blocks = "map (block_size pagesize) allocator_sizes"
  have len: "length allocator_sizes = NUM_ALLOCATORS" by (simp add: allocator_sizes_def NUM_ALLOCATORS_def)
  have last: "allocator_sizes ! (NUM_ALLOCATORS - 1) = 8184" by (simp add: allocator_sizes_def NUM_ALLOCATORS_def)
  have t: "allocator_sizes ! 24 = 2040" "allocator_sizes ! 26 = 4088" "24 < NUM_ALLOCATORS" "26 < NUM_ALLOCATORS"
    by (simp_all add: allocator_sizes_def NUM_ALLOCATORS_def)
  have "sz \<le> 2040 \<longleftrightarrow> allocator_sizes ! i \<le> 2040" "sz \<le> 4088 \<longleftrightarrow> allocator_sizes ! i \<le> 4088"
    using index_threshold [OF i(2,1,3,4) t(1,3)] index_threshold [OF i(2,1,3,4) t(2,4)] by simp_all
  then have same: "block_size pagesize sz = ?blocks ! i"
    using i(1) len by (simp add: block_size_eq [OF p])
  have "allocator_sizes ! i \<in> set allocator_sizes" using i(1) len by simp
  then have "allocator_sizes ! i \<le> 8184" by (auto simp: allocator_sizes_def)
  then have "2 * allocator_sizes ! i \<le> LOCK_FREE_ALLOC_SB_USABLE_SIZE (?blocks ! i)"
    using i(1) len p by (auto simp: block_size_eq LOCK_FREE_ALLOC_SB_USABLE_SIZE_def LOCK_FREE_ALLOC_SB_HEADER_SIZE_def)
  moreover have "sgen_init_internal_allocator pagesize = Some (\<lambda>_. None, ?blocks)"
    by (simp add: sgen_init_internal_allocator_def check_block_sizes_ok [OF p])
  moreover have "sgen_alloc_internal_dynamic sz = Some (Lock_Free_Alloc i sz)"
    "sgen_free_internal_dynamic pagesize addr sz = Some (Lock_Free_Free (?blocks ! i))"
    using sz addr i(2) same by (simp_all add: sgen_alloc_internal_dynamic_def sgen_free_internal_dynamic_def last [unfolded One_nat_def])
  ultimately show ?thesis using i(3,4) by blast
qed

theorem internal_block_size_witness:
  "\<exists>i types blocks. sgen_init_internal_allocator 4096 = Some (types, blocks) \<and>
    sgen_alloc_internal_dynamic 2041 = Some (Lock_Free_Alloc i 2041) \<and>
    sgen_free_internal_dynamic 4096 1 2041 = Some (Lock_Free_Free (blocks ! i)) \<and>
    2041 \<le> allocator_sizes ! i \<and> (\<forall>j<i. allocator_sizes ! j < 2041) \<and>
    2 * allocator_sizes ! i \<le> LOCK_FREE_ALLOC_SB_USABLE_SIZE (blocks ! i)"
  by (rule internal_block_size_matches) simp_all

end
