(* ===== verification/Sgen_Pinning.thy ===== *)
theory Sgen_Pinning
  imports Sgen_PointerQueue
begin

unbundle bit_operations_syntax

text \<open>
  Pinning and cementing, \<open>sgen/sgen-pinning.{h,c}\<close>: the queue of addresses that pin objects,
  with a small hash filter in front, its searches by memory section, and the hash of objects
  pinned so often that they are cemented. The size of an object, which the runtime computes
  from its vtable, is a parameter. The cementing tag in an object's header is a predicate on
  addresses; the mutex of the concurrent collector is its held flag. Callbacks of the client,
  the binary protocol and logging are left out. \<open>None\<close> is a failed assertion or an access out
  of range.
\<close>

section \<open>State\<close>

definition PIN_HASH_SIZE :: nat where
  "PIN_HASH_SIZE = 1024"

definition SGEN_CEMENT_HASH_SHIFT :: nat where
  "SGEN_CEMENT_HASH_SHIFT = 6"

definition SGEN_CEMENT_HASH_SIZE :: nat where
  "SGEN_CEMENT_HASH_SIZE = 2 ^ SGEN_CEMENT_HASH_SHIFT"

definition SGEN_CEMENT_HASH :: "u32 \<Rightarrow> nat" where
  "SGEN_CEMENT_HASH hv = unat ((hv XOR drop_bit SGEN_CEMENT_HASH_SHIFT hv) AND (push_bit SGEN_CEMENT_HASH_SHIFT 1 - 1))"

definition SGEN_CEMENT_THRESHOLD :: u32 where
  "SGEN_CEMENT_THRESHOLD = 1000"

definition sgen_aligned_addr_hash :: "u64 \<Rightarrow> u32" where
  "sgen_aligned_addr_hash ptr = drop_bit 3 (ucast ptr)"

record CementHashEntry =
  ce_obj :: u64
  ce_count :: u32
  ce_forced :: bool

record GCMemSection =
  sec_data :: u64
  sec_end_data :: u64
  sec_scan_starts :: "u64 list"
  sec_pin_queue_first_entry :: nat
  sec_pin_queue_last_entry :: nat
  sec_num_scan_start :: nat

record pin_state =
  pin_queue :: SgenPointerQueue
  last_num_pinned :: nat
  pin_queue_objs :: SgenPointerQueue
  pin_queue_mutex :: bool
  pin_hash_filter :: "u64 list"
  cement_hash :: "CementHashEntry list"
  cement_enabled :: bool
  cemented_objects :: "u64 \<Rightarrow> bool"

section \<open>The pin queue\<close>

definition sgen_init_pinning :: "int \<Rightarrow> pin_state \<Rightarrow> pin_state" where
  "sgen_init_pinning mem_type st =
    st\<lparr>pin_hash_filter := replicate PIN_HASH_SIZE 0, pin_queue := (pin_queue st)\<lparr>pq_mem_type := mem_type\<rparr>\<rparr>"

definition sgen_init_pinning_for_conc :: "pin_state \<Rightarrow> pin_state option" where
  "sgen_init_pinning_for_conc st =
    (if pin_queue_mutex st then None
     else Some (st\<lparr>pin_queue_mutex := True, pin_queue_objs := sgen_pointer_queue_clear (pin_queue_objs st)\<rparr>))"

definition sgen_finish_pinning :: "pin_state \<Rightarrow> pin_state" where
  "sgen_finish_pinning st =
    st\<lparr>last_num_pinned := pq_next_slot (pin_queue st), pin_queue := sgen_pointer_queue_clear (pin_queue st)\<rparr>"

definition sgen_finish_pinning_for_conc :: "pin_state \<Rightarrow> pin_state" where
  "sgen_finish_pinning_for_conc st = st\<lparr>pin_queue_mutex := False\<rparr>"

definition sgen_pinning_register_pinned_in_nursery :: "u64 \<Rightarrow> pin_state \<Rightarrow> pin_state option" where
  "sgen_pinning_register_pinned_in_nursery obj st =
    map_option (\<lambda>q. st\<lparr>pin_queue_objs := q\<rparr>) (sgen_pointer_queue_add obj (pin_queue_objs st))"

text \<open>The objects handed to the scan function, in order.\<close>

definition sgen_scan_pin_queue_objects :: "pin_state \<Rightarrow> u64 list" where
  "sgen_scan_pin_queue_objects st = take (pq_next_slot (pin_queue_objs st)) (pq_data (pin_queue_objs st))"

definition pin_hash_idx :: "u64 \<Rightarrow> nat" where
  "pin_hash_idx ptr = unat ((ptr * 1737350767) AND (of_nat PIN_HASH_SIZE - 1))"

definition sgen_pin_stage_ptr :: "u64 \<Rightarrow> pin_state \<Rightarrow> pin_state option" where
  "sgen_pin_stage_ptr ptr st =
    (let hash_idx = pin_hash_idx ptr in
     if length (pin_hash_filter st) \<le> hash_idx then None
     else if pin_hash_filter st ! hash_idx = ptr then Some st
     else
       map_option (\<lambda>q. st\<lparr>pin_hash_filter := (pin_hash_filter st)[hash_idx := ptr], pin_queue := q\<rparr>)
         (sgen_pointer_queue_add ptr (pin_queue st)))"

definition sgen_find_optimized_pin_queue_area :: "u64 \<Rightarrow> u64 \<Rightarrow> pin_state \<Rightarrow> (bool \<times> nat \<times> nat) option" where
  "sgen_find_optimized_pin_queue_area start end' st =
    (let first = sgen_pointer_queue_search (pin_queue st) start;
         last = sgen_pointer_queue_search (pin_queue st) end' in
     if last = pq_next_slot (pin_queue st) \<or> end' \<le> pq_data (pin_queue st) ! last
     then Some (first \<noteq> last, first, last) else None)"

definition sgen_pinning_get_entry :: "nat \<Rightarrow> pin_state \<Rightarrow> nat option" where
  "sgen_pinning_get_entry index st = (if index \<le> pq_next_slot (pin_queue st) then Some index else None)"

definition sgen_find_section_pin_queue_start_end :: "GCMemSection \<Rightarrow> pin_state \<Rightarrow> GCMemSection option" where
  "sgen_find_section_pin_queue_start_end section st =
    map_option (\<lambda>(_, first, last). section\<lparr>sec_pin_queue_first_entry := first, sec_pin_queue_last_entry := last\<rparr>)
      (sgen_find_optimized_pin_queue_area (sec_data section) (sec_end_data section) st)"

definition sgen_pinning_setup_section :: "GCMemSection \<Rightarrow> pin_state \<Rightarrow> GCMemSection" where
  "sgen_pinning_setup_section section st =
    section\<lparr>sec_pin_queue_first_entry := 0, sec_pin_queue_last_entry := pq_next_slot (pin_queue st)\<rparr>"

definition sgen_pinning_trim_queue_to_section :: "GCMemSection \<Rightarrow> pin_state \<Rightarrow> pin_state option" where
  "sgen_pinning_trim_queue_to_section section st =
    (if sec_pin_queue_first_entry section = 0
     then Some (st\<lparr>pin_queue := (pin_queue st)\<lparr>pq_next_slot := sec_pin_queue_last_entry section\<rparr>\<rparr>) else None)"

function clear_discarded :: "GCMemSection \<Rightarrow> nat \<Rightarrow> nat \<Rightarrow> u64 list \<Rightarrow> u64 list option" where
  "clear_discarded section start end' data =
    (if start < end' then
       (if length data \<le> start then None
        else if data ! start < sec_data section \<or> sec_end_data section < data ! start then Some data
        else clear_discarded section (start + 1) end' (data[start := 0]))
     else Some data)"
  by pat_completeness auto
termination
  by (relation "measure (\<lambda>(section, start, end', data). end' - start)") auto

declare clear_discarded.simps [simp del]

definition sgen_pin_queue_clear_discarded_entries :: "GCMemSection \<Rightarrow> nat \<Rightarrow> pin_state \<Rightarrow> pin_state option" where
  "sgen_pin_queue_clear_discarded_entries section max_pin_slot st =
    do {
      start \<leftarrow> sgen_pinning_get_entry (sec_pin_queue_last_entry section) st;
      end' \<leftarrow> sgen_pinning_get_entry max_pin_slot st;
      data \<leftarrow> clear_discarded section start end' (pq_data (pin_queue st));
      Some (st\<lparr>pin_queue := (pin_queue st)\<lparr>pq_data := data\<rparr>\<rparr>) }"

definition sgen_optimize_pin_queue :: "pin_state \<Rightarrow> pin_state option" where
  "sgen_optimize_pin_queue st = map_option (\<lambda>q. st\<lparr>pin_queue := q\<rparr>) (sgen_pointer_queue_sort_uniq (pin_queue st))"

definition sgen_get_pinned_count :: "pin_state \<Rightarrow> nat" where
  "sgen_get_pinned_count st = pq_next_slot (pin_queue st)"

section \<open>Cementing\<close>

definition sgen_cement_init :: "bool \<Rightarrow> pin_state \<Rightarrow> pin_state" where
  "sgen_cement_init enabled st = st\<lparr>cement_enabled := enabled\<rparr>"

definition sgen_cement_reset :: "pin_state \<Rightarrow> pin_state" where
  "sgen_cement_reset st =
    st\<lparr>cement_hash := map (\<lambda>e. if ce_forced e then e\<lparr>ce_forced := False\<rparr> else e\<lparr>ce_obj := 0, ce_count := 0\<rparr>)
      (cement_hash st)\<rparr>"

fun force_entries :: "(u64 \<Rightarrow> u64) \<Rightarrow> SgenPointerQueue \<Rightarrow> CementHashEntry list \<Rightarrow> CementHashEntry list option" where
  "force_entries object_size queue [] = Some []"
| "force_entries object_size queue (e # es) =
    do {
      e \<leftarrow>
        (if ce_obj e = 0 \<or> ce_count e < SGEN_CEMENT_THRESHOLD then Some e
         else if ce_forced e then None
         else
           let index = sgen_pointer_queue_search queue (ce_obj e) in
           if index = pq_next_slot queue then Some e
           else if pq_data queue ! index < ce_obj e then None
           else if pq_data queue ! index < ce_obj e + object_size (ce_obj e) then Some (e\<lparr>ce_forced := True\<rparr>)
           else Some e);
      es \<leftarrow> force_entries object_size queue es;
      Some (e # es) }"

definition sgen_cement_force_pinned :: "(u64 \<Rightarrow> u64) \<Rightarrow> pin_state \<Rightarrow> pin_state option" where
  "sgen_cement_force_pinned object_size st =
    (if \<not> cement_enabled st then Some st
     else map_option (\<lambda>es. st\<lparr>cement_hash := es\<rparr>) (force_entries object_size (pin_queue st) (cement_hash st)))"

definition cement_slot :: "u64 \<Rightarrow> nat" where
  "cement_slot obj = SGEN_CEMENT_HASH (sgen_aligned_addr_hash obj)"

definition sgen_cement_is_forced :: "u64 \<Rightarrow> pin_state \<Rightarrow> bool" where
  "sgen_cement_is_forced obj st \<longleftrightarrow>
    (let e = cement_hash st ! cement_slot obj in
     if \<not> cement_enabled st then False
     else if ce_obj e = 0 then False
     else if ce_obj e \<noteq> obj then False
     else ce_forced e)"

definition sgen_cement_lookup :: "u64 \<Rightarrow> pin_state \<Rightarrow> bool" where
  "sgen_cement_lookup obj st \<longleftrightarrow>
    (let e = cement_hash st ! cement_slot obj in
     if \<not> cement_enabled st then False
     else if ce_obj e = 0 then False
     else if ce_obj e \<noteq> obj then False
     else SGEN_CEMENT_THRESHOLD \<le> ce_count e)"

definition sgen_cement_lookup_or_register :: "u64 \<Rightarrow> pin_state \<Rightarrow> bool \<times> pin_state" where
  "sgen_cement_lookup_or_register obj st =
    (if \<not> cement_enabled st then (False, st)
     else
       let i = cement_slot obj; e = cement_hash st ! i in
       if ce_obj e \<noteq> 0 \<and> ce_obj e \<noteq> obj then (False, st)
       else
         let e = e\<lparr>ce_obj := obj\<rparr> in
         if SGEN_CEMENT_THRESHOLD \<le> ce_count e then (True, st\<lparr>cement_hash := (cement_hash st)[i := e]\<rparr>)
         else
           let e = e\<lparr>ce_count := ce_count e + 1\<rparr>; st = st\<lparr>cement_hash := (cement_hash st)[i := e]\<rparr> in
           (False, if ce_count e = SGEN_CEMENT_THRESHOLD
                   then st\<lparr>cemented_objects := (cemented_objects st)(obj := True)\<rparr> else st))"

fun pin_from_hash :: "CementHashEntry list \<Rightarrow> pin_state \<Rightarrow> pin_state option" where
  "pin_from_hash [] st = Some st"
| "pin_from_hash (e # es) st =
    (if ce_count e = 0 then pin_from_hash es st
     else do {
       st \<leftarrow> sgen_pin_stage_ptr (ce_obj e) st;
       pin_from_hash es (st\<lparr>cemented_objects := (cemented_objects st)(ce_obj e := True)\<rparr>) })"

definition sgen_pin_cemented_objects :: "pin_state \<Rightarrow> pin_state option" where
  "sgen_pin_cemented_objects st = pin_from_hash (cement_hash st) st"

definition sgen_cement_clear_below_threshold :: "pin_state \<Rightarrow> pin_state" where
  "sgen_cement_clear_below_threshold st =
    st\<lparr>cement_hash := map (\<lambda>e. if ce_count e < SGEN_CEMENT_THRESHOLD then e\<lparr>ce_obj := 0, ce_count := 0\<rparr> else e)
      (cement_hash st)\<rparr>"

section \<open>From staged addresses to the entries of a section\<close>

fun stage_all :: "u64 list \<Rightarrow> pin_state \<Rightarrow> pin_state option" where
  "stage_all [] st = Some st"
| "stage_all (p # ps) st = do { st \<leftarrow> sgen_pin_stage_ptr p st; stage_all ps st }"

definition pin_ok :: "pin_state \<Rightarrow> bool" where
  "pin_ok st \<longleftrightarrow> pq_ok (pin_queue st) \<and> length (pin_hash_filter st) = PIN_HASH_SIZE \<and>
    (\<forall>p\<in>set (pin_hash_filter st). p = 0 \<or> p \<in> set (pq_list (pin_queue st)))"

lemma pin_hash_idx_bound: "pin_hash_idx ptr < PIN_HASH_SIZE"
proof -
  have "(of_nat PIN_HASH_SIZE - 1 :: u64) = mask 10" by (simp add: PIN_HASH_SIZE_def mask_eq_exp_minus_1)
  then have "pin_hash_idx ptr = unat (take_bit 10 (ptr * 1737350767))"
    by (simp add: pin_hash_idx_def take_bit_eq_mask)
  then show ?thesis by (simp add: unat_take_bit_mod PIN_HASH_SIZE_def)
qed

lemma stage_ok:
  assumes "pin_ok st" "ptr \<noteq> 0"
  obtains st' where "sgen_pin_stage_ptr ptr st = Some st'" "pin_ok st'"
    "set (pq_list (pin_queue st')) = insert ptr (set (pq_list (pin_queue st)))"
proof -
  let ?i = "pin_hash_idx ptr"
  have ok: "pq_ok (pin_queue st)" "length (pin_hash_filter st) = PIN_HASH_SIZE"
    "\<forall>p\<in>set (pin_hash_filter st). p = 0 \<or> p \<in> set (pq_list (pin_queue st))"
    using assms(1) by (simp_all add: pin_ok_def)
  have i: "?i < length (pin_hash_filter st)" using pin_hash_idx_bound ok(2) by simp
  show thesis
  proof (cases "pin_hash_filter st ! ?i = ptr")
    case True
    then have "ptr \<in> set (pq_list (pin_queue st))" using ok(3) i assms(2) nth_mem [OF i] by auto
    moreover have "sgen_pin_stage_ptr ptr st = Some st" using True i by (simp add: sgen_pin_stage_ptr_def Let_def)
    ultimately show thesis using assms(1) by (intro that [of st]) auto
  next
    case False
    obtain q where q: "sgen_pointer_queue_add ptr (pin_queue st) = Some q" "pq_ok q"
      "pq_list q = pq_list (pin_queue st) @ [ptr]" by (rule add_list [OF ok(1)])
    let ?st = "st\<lparr>pin_hash_filter := (pin_hash_filter st)[?i := ptr], pin_queue := q\<rparr>"
    have "pin_ok ?st" using ok q set_update_subset_insert [of "pin_hash_filter st" ?i ptr]
      by (auto simp: pin_ok_def)
    moreover have "sgen_pin_stage_ptr ptr st = Some ?st" using False i q(1) by (simp add: sgen_pin_stage_ptr_def Let_def)
    ultimately show thesis using q(3) by (intro that [of ?st]) auto
  qed
qed

lemma stage_all_ok:
  assumes "pin_ok st" "0 \<notin> set ps"
  shows "\<exists>st'. stage_all ps st = Some st' \<and> pin_ok st' \<and>
    set (pq_list (pin_queue st')) = set ps \<union> set (pq_list (pin_queue st))"
  using assms
proof (induction ps arbitrary: st)
  case (Cons p ps)
  then have "p \<noteq> 0" by auto
  then obtain st1 where st1: "sgen_pin_stage_ptr p st = Some st1" "pin_ok st1"
    "set (pq_list (pin_queue st1)) = insert p (set (pq_list (pin_queue st)))" using stage_ok [OF Cons.prems(1)] by blast
  from Cons.IH [OF st1(2)] Cons.prems(2) st1 show ?case by auto
qed simp

lemma filter_between:
  fixes xs :: "u64 list"
  assumes "sorted xs" "a \<le> b" "take m xs = filter (\<lambda>p. p < a) xs" "take n xs = filter (\<lambda>p. p < b) xs"
    "m \<le> length xs" "n \<le> length xs"
  shows "take (n - m) (drop m xs) = filter (\<lambda>p. a \<le> p \<and> p < b) xs"
proof -
  have m: "length (filter (\<lambda>p. p < a) xs) = m" and n: "length (filter (\<lambda>p. p < b) xs) = n"
    using assms(3,4) [symmetric] assms(5,6) by simp_all
  have "filter (\<lambda>p. p < b) xs = filter (\<lambda>p. p < a) (filter (\<lambda>p. p < b) xs) @ filter (\<lambda>p. \<not> p < a) (filter (\<lambda>p. p < b) xs)"
    using assms(1)
  proof (induction xs)
    case (Cons x xs)
    then have "\<not> x < a \<Longrightarrow> filter (\<lambda>p. p < a) (filter (\<lambda>p. p < b) xs) = []"
      by (fastforce simp: filter_empty_conv)
    with Cons show ?case by auto
  qed simp
  moreover have "filter (\<lambda>p. p < a) (filter (\<lambda>p. p < b) xs) = filter (\<lambda>p. p < a) xs"
    using assms(2) by (auto simp: filter_filter intro!: filter_cong)
  moreover have "filter (\<lambda>p. \<not> p < a) (filter (\<lambda>p. p < b) xs) = filter (\<lambda>p. a \<le> p \<and> p < b) xs"
    by (auto simp: filter_filter not_less intro!: filter_cong)
  ultimately have split: "take n xs = take m xs @ filter (\<lambda>p. a \<le> p \<and> p < b) xs" using assms(3,4) by simp
  have "length (take n xs) = length (take m xs @ filter (\<lambda>p. a \<le> p \<and> p < b) xs)" by (simp only: split)
  then have "m \<le> n" using assms(5,6) by simp
  then have "take (n - m) (drop m xs) = drop m (take n xs)" by (simp add: drop_take)
  also have "\<dots> = filter (\<lambda>p. a \<le> p \<and> p < b) xs" unfolding split using assms(5) by simp
  finally show ?thesis .
qed

text \<open>C23: Pinning from start to end: after the queue is emptied, any addresses are staged through the
  hash filter and the queue is sorted, the area found for a range of memory holds exactly the
  distinct staged addresses of that range, in ascending order. The filter, which drops
  repetitions early, never loses an address.\<close>

theorem pin_queue_area_correct:
  assumes ok: "pq_ok (pin_queue st)" and empty: "pq_next_slot (pin_queue st) = 0" and ps: "0 \<notin> set ps" and le: "start \<le> end'"
  shows "\<exists>st1 st2 first last. stage_all ps (sgen_init_pinning m st) = Some st1 \<and>
    sgen_optimize_pin_queue st1 = Some st2 \<and>
    sgen_find_optimized_pin_queue_area start end' st2 = Some (first \<noteq> last, first, last) \<and>
    take (last - first) (drop first (pq_list (pin_queue st2))) =
      filter (\<lambda>p. start \<le> p \<and> p < end') (sorted_list_of_set (set ps))"
proof -
  let ?st = "sgen_init_pinning m st"
  have "pin_ok ?st" using ok by (auto simp: pin_ok_def sgen_init_pinning_def pq_ok_def)
  moreover have "pq_list (pin_queue ?st) = []" using empty by (simp add: sgen_init_pinning_def pq_list_def)
  ultimately obtain st1 where st1: "stage_all ps ?st = Some st1" "pin_ok st1" "set (pq_list (pin_queue st1)) = set ps"
    using stage_all_ok [of ?st ps] ps by auto
  have ok1: "pq_ok (pin_queue st1)" using st1(2) by (simp add: pin_ok_def)
  obtain q where q: "sgen_pointer_queue_sort_uniq (pin_queue st1) = Some q" "pq_ok q"
    "pq_list q = sorted_list_of_set (set ps)" using sort_uniq_list [OF ok1] st1(3) by auto
  let ?st2 = "st1\<lparr>pin_queue := q\<rparr>"
  have s: "sorted (pq_list q)" using q(3) by simp
  let ?f = "sgen_pointer_queue_search q start" and ?l = "sgen_pointer_queue_search q end'"
  note f = search_list [OF q(2) s, of start] and l = search_list [OF q(2) s, of end']
  have "?l = pq_next_slot q \<or> end' \<le> pq_data q ! ?l"
  proof (rule ccontr)
    assume a: "\<not> (?l = pq_next_slot q \<or> end' \<le> pq_data q ! ?l)"
    then have lt: "?l < pq_next_slot q" "pq_list q ! ?l < end'" using l nth_pq_list [of ?l q] by auto
    then have "pq_list q ! ?l \<in> set (take ?l (pq_list q))"
      using l length_pq_list [OF q(2)] by simp
    then obtain j where j: "j < ?l" "pq_list q ! j = pq_list q ! ?l"
      by (auto simp: in_set_conv_nth)
    moreover have "distinct (pq_list q)" using q(3) by simp
    ultimately show False using lt(1) length_pq_list [OF q(2)] by (simp add: nth_eq_iff_index_eq)
  qed
  then have "sgen_find_optimized_pin_queue_area start end' ?st2 = Some (?f \<noteq> ?l, ?f, ?l)"
    by (simp add: sgen_find_optimized_pin_queue_area_def Let_def)
  moreover have "take (?l - ?f) (drop ?f (pq_list q)) = filter (\<lambda>p. start \<le> p \<and> p < end') (pq_list q)"
    using f l length_pq_list [OF q(2)] by (intro filter_between [OF s le]) auto
  moreover have "sgen_optimize_pin_queue st1 = Some ?st2" using q(1) by (simp add: sgen_optimize_pin_queue_def)
  ultimately show ?thesis using st1(1) q(3)
    by (intro exI [of _ st1] exI [of _ ?st2] exI [of _ ?f] exI [of _ ?l]) simp
qed

section \<open>Cementing takes a thousand registrations of the first comer\<close>

fun register_all :: "u64 list \<Rightarrow> pin_state \<Rightarrow> pin_state" where
  "register_all [] st = st"
| "register_all (p # ps) st = register_all ps (snd (sgen_cement_lookup_or_register p st))"

lemma register_all_append: "register_all (xs @ ys) st = register_all ys (register_all xs st)"
  by (induction xs arbitrary: st) simp_all

lemma cement_slot_bound: "cement_slot obj < SGEN_CEMENT_HASH_SIZE"
proof -
  have "unat (w AND (push_bit SGEN_CEMENT_HASH_SHIFT 1 - 1)) < 64" for w :: u32
  proof -
    have "w AND (push_bit SGEN_CEMENT_HASH_SHIFT 1 - 1) = take_bit 6 w"
      by (simp add: SGEN_CEMENT_HASH_SHIFT_def take_bit_eq_mask mask_eq_exp_minus_1)
    then show ?thesis by (simp add: unat_take_bit_mod)
  qed
  moreover have "SGEN_CEMENT_HASH_SIZE = 64" by (simp add: SGEN_CEMENT_HASH_SIZE_def SGEN_CEMENT_HASH_SHIFT_def)
  ultimately show ?thesis unfolding cement_slot_def SGEN_CEMENT_HASH_def by simp
qed

definition empty_cement :: "CementHashEntry list" where
  "empty_cement = replicate SGEN_CEMENT_HASH_SIZE \<lparr>ce_obj = 0, ce_count = 0, ce_forced = False\<rparr>"

text \<open>The object that claimed a slot, and how often it was registered.\<close>

definition claimed_by :: "u64 list \<Rightarrow> nat \<Rightarrow> u64" where
  "claimed_by ps i = (case filter (\<lambda>p. cement_slot p = i) ps of [] \<Rightarrow> 0 | p # _ \<Rightarrow> p)"

definition cement_inv :: "u64 list \<Rightarrow> pin_state \<Rightarrow> bool" where
  "cement_inv ps st \<longleftrightarrow> cement_enabled st \<and> length (cement_hash st) = SGEN_CEMENT_HASH_SIZE \<and>
    (\<forall>i<SGEN_CEMENT_HASH_SIZE. ce_obj (cement_hash st ! i) = claimed_by ps i \<and>
      unat (ce_count (cement_hash st ! i)) = min 1000 (if claimed_by ps i = 0 then 0 else count_list ps (claimed_by ps i)))"

lemma claimed_by_snoc:
  "claimed_by (ps @ [p]) i = (if claimed_by ps i = 0 \<and> filter (\<lambda>p. cement_slot p = i) ps = [] \<and> cement_slot p = i then p else claimed_by ps i)"
  by (auto simp: claimed_by_def split: list.split)

lemma claimed_by_slot: "claimed_by ps i \<noteq> 0 \<Longrightarrow> cement_slot (claimed_by ps i) = i \<and> claimed_by ps i \<in> set ps"
proof -
  assume "claimed_by ps i \<noteq> 0"
  then obtain p qs where f: "filter (\<lambda>p. cement_slot p = i) ps = p # qs" by (auto simp: claimed_by_def split: list.splits)
  have "cement_slot p = i" "p \<in> set ps" using arg_cong [OF f, of set] by auto
  then show ?thesis using f by (simp add: claimed_by_def)
qed

lemma claimed_by_zero:
  assumes "0 \<notin> set ps" "claimed_by ps i = 0"
  shows "filter (\<lambda>p. cement_slot p = i) ps = []"
proof (cases "filter (\<lambda>p. cement_slot p = i) ps")
  case (Cons p qs)
  have "p \<in> set ps" using arg_cong [OF Cons, of set] by auto
  with assms Cons show ?thesis by (auto simp: claimed_by_def)
qed simp

lemma cement_inv_step:
  assumes inv: "cement_inv ps st" and z: "0 \<notin> set ps" "p \<noteq> 0"
  shows "cement_inv (ps @ [p]) (snd (sgen_cement_lookup_or_register p st))"
proof -
  let ?i = "cement_slot p" and ?e = "cement_hash st ! cement_slot p"
  have i: "?i < SGEN_CEMENT_HASH_SIZE" by (rule cement_slot_bound)
  have e: "ce_obj ?e = claimed_by ps ?i" "cement_enabled st" "length (cement_hash st) = SGEN_CEMENT_HASH_SIZE"
    "unat (ce_count ?e) = min 1000 (if claimed_by ps ?i = 0 then 0 else count_list ps (claimed_by ps ?i))"
    using inv i by (simp_all add: cement_inv_def)
  have other: "claimed_by (ps @ [p]) j = claimed_by ps j \<and> (claimed_by ps j \<noteq> 0 \<longrightarrow> count_list (ps @ [p]) (claimed_by ps j) = count_list ps (claimed_by ps j))"
    if "j \<noteq> ?i" for j
    using that claimed_by_slot [of ps j] by (cases "claimed_by ps j = 0") (auto simp: claimed_by_snoc)
  have th: "SGEN_CEMENT_THRESHOLD \<le> c \<longleftrightarrow> 1000 \<le> unat c" for c by (simp add: SGEN_CEMENT_THRESHOLD_def word_le_nat_alt)
  show ?thesis
  proof (cases "claimed_by ps ?i \<noteq> 0 \<and> claimed_by ps ?i \<noteq> p")
    case True
    then have same: "snd (sgen_cement_lookup_or_register p st) = st"
      using e by (simp add: sgen_cement_lookup_or_register_def Let_def)
    have "claimed_by (ps @ [p]) j = claimed_by ps j \<and> (claimed_by ps j \<noteq> 0 \<longrightarrow> count_list (ps @ [p]) (claimed_by ps j) = count_list ps (claimed_by ps j))" for j
      using other [of j] True by (cases "j = ?i") (auto simp: claimed_by_snoc)
    then show ?thesis using inv same unfolding cement_inv_def by auto
  next
    case False
    have new: "claimed_by (ps @ [p]) ?i = p"
      using False claimed_by_zero [OF z(1), of ?i] by (auto simp: claimed_by_snoc)
    let ?c = "if claimed_by ps ?i = 0 then 0 else count_list ps p"
    have cnt: "count_list (ps @ [p]) p = ?c + 1"
    proof (cases "claimed_by ps ?i = 0")
      case True
      then have "p \<notin> set ps" using claimed_by_zero [OF z(1) True] by (auto simp: filter_empty_conv)
      then show ?thesis using True by (simp add: count_list_0_iff)
    qed simp
    have ec: "unat (ce_count ?e) = min 1000 ?c" using e(4) False by auto
    define e' where "e' = (if 1000 \<le> unat (ce_count ?e) then ?e\<lparr>ce_obj := p\<rparr> else ?e\<lparr>ce_obj := p, ce_count := ce_count ?e + 1\<rparr>)"
    have cement: "cement_hash (snd (sgen_cement_lookup_or_register p st)) = (cement_hash st)[?i := e']"
      "cement_enabled (snd (sgen_cement_lookup_or_register p st))"
      using e(1,2) False by (auto simp: sgen_cement_lookup_or_register_def Let_def th e'_def)
    have "unat (ce_count e') = min 1000 (?c + 1)"
    proof (cases "1000 \<le> unat (ce_count ?e)")
      case True
      then show ?thesis using ec by (simp add: e'_def)
    next
      case lt: False
      then have "unat (ce_count ?e + 1) = unat (ce_count ?e) + 1" by (simp add: unat_word_ariths)
      then show ?thesis using ec lt by (auto simp: e'_def)
    qed
    moreover have "ce_obj e' = p" by (simp add: e'_def)
    ultimately have at_i: "ce_obj e' = claimed_by (ps @ [p]) ?i"
      "unat (ce_count e') = min 1000 (if claimed_by (ps @ [p]) ?i = 0 then 0 else count_list (ps @ [p]) (claimed_by (ps @ [p]) ?i))"
      using new cnt z(2) by simp_all
    show ?thesis unfolding cement_inv_def
    proof (intro conjI allI impI)
      fix j assume j: "j < SGEN_CEMENT_HASH_SIZE"
      show "ce_obj (cement_hash (snd (sgen_cement_lookup_or_register p st)) ! j) = claimed_by (ps @ [p]) j"
        and "unat (ce_count (cement_hash (snd (sgen_cement_lookup_or_register p st)) ! j)) =
          min 1000 (if claimed_by (ps @ [p]) j = 0 then 0 else count_list (ps @ [p]) (claimed_by (ps @ [p]) j))"
        using at_i other [of j] inv j e(3) unfolding cement(1) cement_inv_def
        by (cases "j = ?i"; simp)+
    qed (use cement e(3) in simp_all)
  qed
qed

lemma cement_inv_all:
  assumes "cement_enabled st" "cement_hash st = empty_cement" "0 \<notin> set ps"
  shows "cement_inv ps (register_all ps st)"
  using assms(3)
proof (induction ps rule: rev_induct)
  case Nil
  then show ?case using assms(1,2) by (simp add: cement_inv_def empty_cement_def claimed_by_def)
next
  case (snoc p ps)
  then show ?case using cement_inv_step [of ps _ p] by (simp add: register_all_append)
qed

text \<open>C24: From an empty cementing hash, an object counts as cemented exactly when it was the first to
  claim its slot and was registered a thousand times; objects that collide with it neither
  advance its count nor take its slot.\<close>

theorem cement_threshold:
  assumes "cement_enabled st" "cement_hash st = empty_cement" "0 \<notin> set ps" "obj \<noteq> 0"
  shows "sgen_cement_lookup obj (register_all ps st) \<longleftrightarrow>
    (\<exists>qs. filter (\<lambda>p. cement_slot p = cement_slot obj) ps = obj # qs) \<and> 1000 \<le> count_list ps obj"
proof -
  let ?i = "cement_slot obj" and ?st = "register_all ps st"
  have inv: "cement_inv ps ?st" using cement_inv_all assms(1-3) .
  then have e: "ce_obj (cement_hash ?st ! ?i) = claimed_by ps ?i" "cement_enabled ?st"
    "unat (ce_count (cement_hash ?st ! ?i)) = min 1000 (if claimed_by ps ?i = 0 then 0 else count_list ps (claimed_by ps ?i))"
    using cement_slot_bound [of obj] by (simp_all add: cement_inv_def)
  have "claimed_by ps ?i = obj \<longleftrightarrow> (\<exists>qs. filter (\<lambda>p. cement_slot p = ?i) ps = obj # qs)"
    using assms(4) by (auto simp: claimed_by_def split: list.split)
  then show ?thesis using e assms(4)
    by (auto simp: sgen_cement_lookup_def Let_def SGEN_CEMENT_THRESHOLD_def word_le_nat_alt)
qed

definition pin_start :: pin_state where
  "pin_start = \<lparr>pin_queue = sgen_pointer_queue_init 0, last_num_pinned = 0,
    pin_queue_objs = sgen_pointer_queue_init 0, pin_queue_mutex = False,
    pin_hash_filter = replicate PIN_HASH_SIZE 0, cement_hash = empty_cement, cement_enabled = True,
    cemented_objects = (\<lambda>_. False)\<rparr>"

theorem pin_queue_area_witness:
  "\<exists>st1 st2. stage_all [56, 24, 40, 24, 8] (sgen_init_pinning 3 pin_start) = Some st1 \<and>
    sgen_optimize_pin_queue st1 = Some st2 \<and>
    (\<exists>first last. sgen_find_optimized_pin_queue_area 16 56 st2 = Some (first \<noteq> last, first, last) \<and>
      take (last - first) (drop first (pq_list (pin_queue st2))) = [24, 40])"
proof -
  have ok: "pq_ok (pin_queue pin_start)" by (simp add: pin_start_def init_list)
  have "sorted_list_of_set (set [56, 24, 40, 24, 8 :: u64]) = [8, 24, 40, 56]"
    by (simp only: sorted_list_of_set_sort_remdups) simp
  moreover have "pq_next_slot (pin_queue pin_start) = 0" by (simp add: pin_start_def sgen_pointer_queue_init_def)
  ultimately show ?thesis
    using pin_queue_area_correct [OF ok, of "[56, 24, 40, 24, 8]" 16 56 3] by auto
qed

theorem cement_threshold_witness:
  "sgen_cement_lookup 8 (register_all (replicate 1000 8) pin_start) \<and>
    \<not> sgen_cement_lookup 8 (register_all (replicate 999 8) pin_start)"
proof -
  have "cement_enabled pin_start" "cement_hash pin_start = empty_cement" by (simp_all add: pin_start_def)
  moreover have "filter (\<lambda>p. cement_slot p = cement_slot 8) (replicate 1000 8) = 8 # replicate 999 8"
    by (simp add: replicate_Suc [symmetric] del: replicate_Suc)
  moreover have "count_list (replicate n x) x = n" for n and x :: u64 by (induction n) simp_all
  ultimately show ?thesis
    using cement_threshold [of pin_start "replicate 1000 8" 8] cement_threshold [of pin_start "replicate 999 8" 8]
    by auto
qed

end
