(* ===== verification/Sgen_Minor.thy ===== *)
theory Sgen_Minor
  imports Sgen_Gray Sgen_Descriptor Sgen_Pinning
begin

unbundle bit_operations_syntax

text \<open>
  The serial nursery collection with the simple (always promoting) nursery:
  \<open>sgen-minor-copy-object.h\<close>, \<open>sgen-copy-object.h\<close>, \<open>sgen-minor-scan-object.h\<close> as
  \<open>sgen-simple-nursery.c\<close> includes them, the vtable tags of \<open>sgen-gc.h\<close> and
  \<open>sgen-tagged-pointer.h\<close>, and the sizes of Mono's objects of \<open>sgen-client-mono.h\<close>. Memory is a
  map from word addresses to words; the fields of vtables and classes are a parameter, and so is
  the allocation in the old generation. The gray queue, the descriptors and the pinning state are
  those of their own theories. \<open>None\<close> is a failed assertion. Statistics, logging, the binary
  protocol and the profiler's events are left out.
\<close>

type_synonym memory = "u64 \<Rightarrow> u64"

section \<open>Tagged vtable words\<close>

definition SGEN_TAGGED_POINTER_MASK :: u64 where
  "SGEN_TAGGED_POINTER_MASK = 7"

definition SGEN_POINTER_UNTAG_ALL :: "u64 \<Rightarrow> u64" where
  "SGEN_POINTER_UNTAG_ALL p = p AND NOT SGEN_TAGGED_POINTER_MASK"

definition SGEN_POINTER_IS_TAGGED_FORWARDED :: "u64 \<Rightarrow> bool" where
  "SGEN_POINTER_IS_TAGGED_FORWARDED p \<longleftrightarrow> p AND 1 \<noteq> 0"

definition SGEN_POINTER_TAG_FORWARDED :: "u64 \<Rightarrow> u64" where
  "SGEN_POINTER_TAG_FORWARDED p = p OR 1"

definition SGEN_POINTER_IS_TAGGED_PINNED :: "u64 \<Rightarrow> bool" where
  "SGEN_POINTER_IS_TAGGED_PINNED p \<longleftrightarrow> p AND 2 \<noteq> 0"

definition SGEN_POINTER_TAG_PINNED :: "u64 \<Rightarrow> u64" where
  "SGEN_POINTER_TAG_PINNED p = p OR 2"

definition SGEN_POINTER_IS_TAGGED_CEMENTED :: "u64 \<Rightarrow> bool" where
  "SGEN_POINTER_IS_TAGGED_CEMENTED p \<longleftrightarrow> p AND 4 \<noteq> 0"

definition SGEN_VTABLE_IS_FORWARDED :: "u64 \<Rightarrow> u64" where
  "SGEN_VTABLE_IS_FORWARDED vtable =
    (if SGEN_POINTER_IS_TAGGED_FORWARDED vtable then SGEN_POINTER_UNTAG_ALL vtable else 0)"

definition SGEN_OBJECT_IS_PINNED :: "memory \<Rightarrow> u64 \<Rightarrow> bool" where
  "SGEN_OBJECT_IS_PINNED mem obj \<longleftrightarrow> SGEN_POINTER_IS_TAGGED_PINNED (mem obj)"

definition SGEN_OBJECT_IS_CEMENTED :: "memory \<Rightarrow> u64 \<Rightarrow> bool" where
  "SGEN_OBJECT_IS_CEMENTED mem obj \<longleftrightarrow> SGEN_POINTER_IS_TAGGED_CEMENTED (mem obj)"

definition SGEN_FORWARD_OBJECT :: "u64 \<Rightarrow> u64 \<Rightarrow> memory \<Rightarrow> memory" where
  "SGEN_FORWARD_OBJECT obj fw_addr mem = mem(obj := SGEN_POINTER_TAG_FORWARDED fw_addr)"

definition SGEN_PIN_OBJECT :: "u64 \<Rightarrow> memory \<Rightarrow> memory" where
  "SGEN_PIN_OBJECT obj mem = mem(obj := SGEN_POINTER_TAG_PINNED (mem obj))"

definition SGEN_LOAD_VTABLE :: "memory \<Rightarrow> u64 \<Rightarrow> u64" where
  "SGEN_LOAD_VTABLE mem obj = SGEN_POINTER_UNTAG_ALL (mem obj)"

section \<open>Mono's objects\<close>

text \<open>What the collector reads of a vtable and its class.\<close>

record vtable_info =
  vt_gc_descr :: u64
  vt_rank :: u64
  vt_is_string :: bool
  vt_instance_size :: u64
  vt_element_size :: u64

definition SGEN_DESC_STRING :: u64 where
  "SGEN_DESC_STRING = DESC_TYPE_COMPLEX_PTRFREE OR push_bit LOW_TYPE_BITS 1"

definition array_bounds :: "memory \<Rightarrow> u64 \<Rightarrow> u64" where
  "array_bounds mem array = mem (array + 16)"

definition mono_array_length :: "memory \<Rightarrow> u64 \<Rightarrow> u32" where
  "mono_array_length mem array = ucast (mem (array + 24))"

definition mono_string_length :: "memory \<Rightarrow> u64 \<Rightarrow> u32" where
  "mono_string_length mem str = ucast (mem (str + 16))"

definition MONO_SIZEOF_MONO_ARRAY :: u64 where "MONO_SIZEOF_MONO_ARRAY = 32"
definition MONO_SIZEOF_MONO_STRING :: u64 where "MONO_SIZEOF_MONO_STRING = 20"

definition sgen_mono_array_size :: "vtable_info \<Rightarrow> memory \<Rightarrow> u64 \<Rightarrow> u64 \<Rightarrow> u64" where
  "sgen_mono_array_size vt mem array descr =
    (let element_size = (if descr AND DESC_TYPE_MASK = DESC_TYPE_VECTOR
                         then drop_bit VECTOR_ELSIZE_SHIFT descr AND MAX_ELEMENT_SIZE else vt_element_size vt);
         size = MONO_SIZEOF_MONO_ARRAY + element_size * ucast (mono_array_length mem array) in
     if array_bounds mem array \<noteq> 0 then ((size + 3) AND NOT 3) + 8 * vt_rank vt else size)"

definition string_size :: "memory \<Rightarrow> u64 \<Rightarrow> u64" where
  "string_size mem str = MONO_SIZEOF_MONO_STRING + scast (2 * mono_string_length mem str) + 2"

definition sgen_client_slow_object_get_size :: "vtable_info \<Rightarrow> memory \<Rightarrow> u64 \<Rightarrow> u64" where
  "sgen_client_slow_object_get_size vt mem obj =
    (if vt_is_string vt then string_size mem obj
     else if vt_rank vt \<noteq> 0 then sgen_mono_array_size vt mem obj 0
     else vt_instance_size vt)"

definition sgen_client_par_object_get_size :: "vtable_info \<Rightarrow> memory \<Rightarrow> u64 \<Rightarrow> u64" where
  "sgen_client_par_object_get_size vt mem obj =
    (let descr = vt_gc_descr vt; type = descr AND DESC_TYPE_MASK in
     if type = DESC_TYPE_RUN_LENGTH \<or> type = DESC_TYPE_SMALL_PTRFREE then descr AND 0xfff8
     else if descr = SGEN_DESC_STRING then string_size mem obj
     else if type = DESC_TYPE_VECTOR then sgen_mono_array_size vt mem obj descr
     else sgen_client_slow_object_get_size vt mem obj)"

text \<open>The bounds of a multi-dimensional array lie inside it and move with it.\<close>

definition sgen_client_update_copied_object :: "u64 \<Rightarrow> vtable_info \<Rightarrow> u64 \<Rightarrow> memory \<Rightarrow> memory" where
  "sgen_client_update_copied_object destination vt obj mem =
    (if vt_rank vt \<noteq> 0 \<and> array_bounds mem obj \<noteq> 0
     then mem(destination + 16 := destination + (array_bounds mem obj - obj)) else mem)"

section \<open>The state of a collection\<close>

text \<open>\<open>cf_alloc_object\<close> is \<open>sgen_major_collector.alloc_object\<close>: it returns null when there is no memory,
  and stores the vtable otherwise.\<close>

record 'h minor_config =
  cf_nursery_bits :: nat
  cf_nursery_start :: u64
  cf_vtable :: "u64 \<Rightarrow> vtable_info"
  cf_complex_descriptors :: SgenArrayList
  cf_alloc_object :: "u64 \<Rightarrow> u64 \<Rightarrow> bool \<Rightarrow> memory \<Rightarrow> 'h \<Rightarrow> (u64 \<times> memory \<times> 'h) option"

text \<open>\<open>gc_remset\<close> is the list of the pointers handed to \<open>remset.record_pointer\<close>.\<close>

record 'h minor_state =
  gc_mem :: memory
  gc_major :: 'h
  gc_queue :: SgenGrayQueue
  gc_store :: gray_store
  gc_pin :: pin_state
  gc_remset :: "u64 list"
  gc_objects_pinned :: nat
  gc_failed_bytes :: u64
  gc_promoted_size :: u64

definition sgen_ptr_in_nursery :: "'h minor_config \<Rightarrow> u64 \<Rightarrow> bool" where
  "sgen_ptr_in_nursery cf p \<longleftrightarrow> p AND NOT (push_bit (cf_nursery_bits cf) 1 - 1) = cf_nursery_start cf"

definition GRAY_OBJECT_ENQUEUE_SERIAL :: "u64 \<Rightarrow> u64 \<Rightarrow> 'h minor_state \<Rightarrow> 'h minor_state option" where
  "GRAY_OBJECT_ENQUEUE_SERIAL obj desc st =
    map_option (\<lambda>(q, gs). st\<lparr>gc_queue := q, gc_store := gs\<rparr>) (GRAY_OBJECT_ENQUEUE obj desc (gc_queue st) (gc_store st))"

section \<open>Copying\<close>

definition alloc_for_promotion ::
    "'h minor_config \<Rightarrow> u64 \<Rightarrow> u64 \<Rightarrow> bool \<Rightarrow> 'h minor_state \<Rightarrow> (u64 \<times> 'h minor_state) option" where
  "alloc_for_promotion cf vtable objsize has_references st =
    map_option (\<lambda>(p, mem, h). (p, st\<lparr>gc_mem := mem, gc_major := h, gc_promoted_size := gc_promoted_size st + objsize\<rparr>))
      (cf_alloc_object cf vtable objsize has_references (gc_mem st) (gc_major st))"

text \<open>The copy leaves out the vtable word, which the allocation has stored.\<close>

definition memcpy_words :: "u64 \<Rightarrow> u64 \<Rightarrow> u64 \<Rightarrow> memory \<Rightarrow> memory" where
  "memcpy_words destination obj objsize mem =
    (\<lambda>a. if a - destination < objsize - 8 \<and> (a - destination) AND 7 = 0 then mem (obj + (a - destination)) else mem a)"

definition par_copy_object_no_checks :: "u64 \<Rightarrow> vtable_info \<Rightarrow> u64 \<Rightarrow> u64 \<Rightarrow> memory \<Rightarrow> memory" where
  "par_copy_object_no_checks destination vt obj objsize mem =
    sgen_client_update_copied_object destination vt obj
      (memcpy_words (destination + 8) (obj + 8) objsize mem)"

definition sgen_pin_object :: "'h minor_config \<Rightarrow> u64 \<Rightarrow> 'h minor_state \<Rightarrow> 'h minor_state option" where
  "sgen_pin_object cf obj st =
    (if \<not> sgen_ptr_in_nursery cf obj then None
     else do {
       pin \<leftarrow> sgen_pin_stage_ptr obj (gc_pin st);
       let mem = SGEN_PIN_OBJECT obj (gc_mem st);
       GRAY_OBJECT_ENQUEUE_SERIAL obj (vt_gc_descr (cf_vtable cf (SGEN_LOAD_VTABLE mem obj)))
         (st\<lparr>gc_pin := pin, gc_mem := mem, gc_objects_pinned := gc_objects_pinned st + 1\<rparr>) })"

definition copy_object_no_checks :: "'h minor_config \<Rightarrow> u64 \<Rightarrow> 'h minor_state \<Rightarrow> (u64 \<times> 'h minor_state) option" where
  "copy_object_no_checks cf obj st =
    (let vtable = gc_mem st obj; vt = cf_vtable cf vtable;
         has_references = sgen_gc_descr_has_references (vt_gc_descr vt);
         objsize = SGEN_ALIGN_UP (sgen_client_par_object_get_size vt (gc_mem st) obj) in
     do {
       (destination, st) \<leftarrow> alloc_for_promotion cf vtable objsize has_references st;
       if destination = 0 then
         do {
           st \<leftarrow> sgen_pin_object cf obj st;
           Some (obj, st\<lparr>gc_failed_bytes := gc_failed_bytes st + objsize\<rparr>) }
       else
         do {
           let mem = SGEN_FORWARD_OBJECT obj destination (par_copy_object_no_checks destination vt obj objsize (gc_mem st));
           st \<leftarrow>
             (if has_references then GRAY_OBJECT_ENQUEUE_SERIAL destination (vt_gc_descr vt) (st\<lparr>gc_mem := mem\<rparr>)
              else Some (st\<lparr>gc_mem := mem\<rparr>));
           Some (destination, st) } })"

definition SGEN_UPDATE_REFERENCE :: "u64 \<Rightarrow> u64 \<Rightarrow> 'h minor_state \<Rightarrow> 'h minor_state" where
  "SGEN_UPDATE_REFERENCE slot obj st = st\<lparr>gc_mem := (gc_mem st)(slot := obj)\<rparr>"

text \<open>The copy function for roots.\<close>

definition simple_nursery_serial_copy_object :: "'h minor_config \<Rightarrow> u64 \<Rightarrow> 'h minor_state \<Rightarrow> 'h minor_state option" where
  "simple_nursery_serial_copy_object cf obj_slot st =
    (let obj = gc_mem st obj_slot; forwarded = SGEN_VTABLE_IS_FORWARDED (gc_mem st obj) in
     if \<not> sgen_ptr_in_nursery cf obj then Some st
     else if forwarded \<noteq> 0 then Some (SGEN_UPDATE_REFERENCE obj_slot forwarded st)
     else if SGEN_OBJECT_IS_PINNED (gc_mem st) obj then Some st
     else do {
       (copy, st) \<leftarrow> copy_object_no_checks cf obj st;
       Some (SGEN_UPDATE_REFERENCE obj_slot copy st) })"

definition sgen_add_to_global_remset :: "'h minor_config \<Rightarrow> u64 \<Rightarrow> u64 \<Rightarrow> 'h minor_state \<Rightarrow> 'h minor_state option" where
  "sgen_add_to_global_remset cf ptr obj st =
    (if \<not> sgen_ptr_in_nursery cf obj then None
     else if \<not> SGEN_OBJECT_IS_PINNED (gc_mem st) obj then None
     else
       let (cemented, pin) = sgen_cement_lookup_or_register obj (gc_pin st); st = st\<lparr>gc_pin := pin\<rparr> in
       if cemented then Some st else Some (st\<lparr>gc_remset := gc_remset st @ [ptr]\<rparr>))"

text \<open>The copy function for slots of objects, which records pointers into the nursery.\<close>

definition simple_nursery_serial_copy_object_from_obj ::
    "'h minor_config \<Rightarrow> u64 \<Rightarrow> 'h minor_state \<Rightarrow> 'h minor_state option" where
  "simple_nursery_serial_copy_object_from_obj cf obj_slot st =
    (let obj = gc_mem st obj_slot; forwarded = SGEN_VTABLE_IS_FORWARDED (gc_mem st obj) in
     if \<not> sgen_ptr_in_nursery cf obj then Some st
     else if forwarded \<noteq> 0 then Some (SGEN_UPDATE_REFERENCE obj_slot forwarded st)
     else if SGEN_OBJECT_IS_PINNED (gc_mem st) obj then
       (if \<not> sgen_ptr_in_nursery cf obj_slot \<and> \<not> SGEN_OBJECT_IS_CEMENTED (gc_mem st) obj
        then sgen_add_to_global_remset cf obj_slot obj st else Some st)
     else do {
       (copy, st) \<leftarrow> copy_object_no_checks cf obj st;
       let st = SGEN_UPDATE_REFERENCE obj_slot copy st;
       if obj = copy \<and> sgen_ptr_in_nursery cf copy \<and> \<not> sgen_ptr_in_nursery cf obj_slot \<and>
         \<not> SGEN_OBJECT_IS_CEMENTED (gc_mem st) copy
       then sgen_add_to_global_remset cf obj_slot copy st else Some st })"

section \<open>Scanning\<close>

definition HANDLE_PTR :: "'h minor_config \<Rightarrow> u64 \<Rightarrow> 'h minor_state \<Rightarrow> 'h minor_state option" where
  "HANDLE_PTR cf ptr st =
    (if gc_mem st ptr \<noteq> 0 then simple_nursery_serial_copy_object_from_obj cf ptr st else Some st)"

fun handle_ptrs :: "'h minor_config \<Rightarrow> u64 list \<Rightarrow> 'h minor_state \<Rightarrow> 'h minor_state option" where
  "handle_ptrs cf [] st = Some st"
| "handle_ptrs cf (ptr # ptrs) st = do { st \<leftarrow> HANDLE_PTR cf ptr st; handle_ptrs cf ptrs st }"

text \<open>The offsets, in bytes, of the slots that the scan of an object visits.\<close>

definition slot_offsets :: "SgenArrayList \<Rightarrow> vtable_info \<Rightarrow> u64 \<Rightarrow> u32 \<Rightarrow> nat list option" where
  "slot_offsets array vt desc array_length =
    (case scan_object desc (unat (vt_element_size vt)) (unat array_length) array of
       None \<Rightarrow> None
     | Some (Object_Refs ws) \<Rightarrow> Some (map (\<lambda>w. 8 * w) ws)
     | Some (Array_Refs bs) \<Rightarrow> Some (map (\<lambda>b. unat MONO_SIZEOF_MONO_ARRAY + b) bs)
     | Some No_Refs \<Rightarrow> Some [])"

definition simple_nursery_serial_scan_object ::
    "'h minor_config \<Rightarrow> u64 \<Rightarrow> u64 \<Rightarrow> 'h minor_state \<Rightarrow> 'h minor_state option" where
  "simple_nursery_serial_scan_object cf full_object desc st =
    do {
      offs \<leftarrow> slot_offsets (cf_complex_descriptors cf) (cf_vtable cf (SGEN_LOAD_VTABLE (gc_mem st) full_object)) desc
        (mono_array_length (gc_mem st) full_object);
      handle_ptrs cf (map (\<lambda>k. full_object + of_nat k) offs) st }"

definition simple_nursery_serial_scan_ptr_field :: "'h minor_config \<Rightarrow> u64 \<Rightarrow> 'h minor_state \<Rightarrow> 'h minor_state option" where
  "simple_nursery_serial_scan_ptr_field = HANDLE_PTR"

partial_function (option) simple_nursery_serial_drain_gray_stack ::
    "'h minor_config \<Rightarrow> 'h minor_state \<Rightarrow> 'h minor_state option" where
  "simple_nursery_serial_drain_gray_stack cf st =
    do {
      (entry, q, gs) \<leftarrow> GRAY_OBJECT_DEQUEUE False (gc_queue st) (gc_store st);
      let st = st\<lparr>gc_queue := q, gc_store := gs\<rparr>;
      case entry of
        None \<Rightarrow> Some st
      | Some e \<Rightarrow>
          if ge_obj e = 0 then Some st
          else do {
            st \<leftarrow> simple_nursery_serial_scan_object cf (ge_obj e) (ge_desc e) st;
            simple_nursery_serial_drain_gray_stack cf st } }"

declare simple_nursery_serial_drain_gray_stack.simps [code]

text \<open>The slots of roots: each is visited when it is not null. The flag says that a pointer into the
  nursery that stays in the slot is recorded, as for the slots of old objects.\<close>

fun scan_roots :: "'h minor_config \<Rightarrow> (u64 \<times> bool) list \<Rightarrow> 'h minor_state \<Rightarrow> 'h minor_state option" where
  "scan_roots cf [] st = Some st"
| "scan_roots cf ((slot, from_obj) # rs) st =
    do {
      st \<leftarrow>
        (if gc_mem st slot = 0 then Some st
         else if from_obj then simple_nursery_serial_scan_ptr_field cf slot st
         else simple_nursery_serial_copy_object cf slot st);
      scan_roots cf rs st }"

end
