(* ===== verification/Sgen_MinorInv.thy ===== *)
theory Sgen_MinorInv
  imports Sgen_Minor
begin

unbundle bit_operations_syntax

text \<open>
  The nursery collection of \<open>Sgen_Minor\<close> is correct for every allocator of the old generation that
  meets a contract, the locale \<open>promotion_heap\<close>: what the allocator promises of the memory it hands
  out. The invariant of the collection relates each word of memory to the heap before it: an object
  is where it was, or forwarded to a copy whose slots are translated, or still to be translated by an
  entry of the gray stack; the remembered set holds every slot of the old generation left pointing
  into the nursery. Each step keeps it: updating a slot, copying an object, scanning one, draining
  the stack, scanning the roots.
\<close>

section \<open>Objects and the heap before the collection\<close>

text \<open>The words of a block of \<open>n\<close> bytes.\<close>

definition block_words :: "u64 \<Rightarrow> nat \<Rightarrow> u64 set" where
  "block_words p n = {p + of_nat k | k. k < n \<and> 8 dvd k}"

definition object_info :: "'h minor_config \<Rightarrow> memory \<Rightarrow> u64 \<Rightarrow> vtable_info" where
  "object_info cf mem obj = cf_vtable cf (SGEN_LOAD_VTABLE mem obj)"

definition object_size :: "'h minor_config \<Rightarrow> memory \<Rightarrow> u64 \<Rightarrow> u64" where
  "object_size cf mem obj = SGEN_ALIGN_UP (sgen_client_par_object_get_size (object_info cf mem obj) mem obj)"

definition object_words :: "'h minor_config \<Rightarrow> memory \<Rightarrow> u64 \<Rightarrow> u64 \<Rightarrow> u64 set" where
  "object_words cf mem obj p = block_words p (unat (object_size cf mem obj))"

definition object_slots :: "'h minor_config \<Rightarrow> memory \<Rightarrow> u64 \<Rightarrow> nat list" where
  "object_slots cf mem obj =
    the (slot_offsets (cf_complex_descriptors cf) (object_info cf mem obj) (vt_gc_descr (object_info cf mem obj))
      (mono_array_length mem obj))"

definition has_bounds :: "'h minor_config \<Rightarrow> memory \<Rightarrow> u64 \<Rightarrow> bool" where
  "has_bounds cf mem obj \<longleftrightarrow> vt_rank (object_info cf mem obj) \<noteq> 0 \<and> array_bounds mem obj \<noteq> 0"

definition is_array_descr :: "u64 \<Rightarrow> bool" where
  "is_array_descr desc \<longleftrightarrow> desc AND DESC_TYPE_MASK = DESC_TYPE_VECTOR \<or> desc AND DESC_TYPE_MASK = DESC_TYPE_COMPLEX_ARR"

text \<open>A reference is null, the start of an object of the nursery, or outside the nursery.\<close>

definition good_ref :: "'h minor_config \<Rightarrow> u64 set \<Rightarrow> u64 \<Rightarrow> bool" where
  "good_ref cf N v \<longleftrightarrow> v = 0 \<or> v \<in> N \<or> \<not> sgen_ptr_in_nursery cf v"

definition object_ok :: "'h minor_config \<Rightarrow> memory \<Rightarrow> u64 set \<Rightarrow> u64 \<Rightarrow> bool" where
  "object_ok cf mem N obj \<longleftrightarrow>
    (\<forall>a\<in>object_words cf mem obj obj. sgen_ptr_in_nursery cf a) \<and> mem obj AND 7 \<in> {0, 2, 6} \<and>
    16 \<le> object_size cf mem obj \<and> object_size cf mem obj \<le> SGEN_MAX_SMALL_OBJ_SIZE \<and>
    (let vt = object_info cf mem obj; desc = vt_gc_descr vt; offs = object_slots cf mem obj in
     slot_offsets (cf_complex_descriptors cf) vt desc (mono_array_length mem obj) = Some offs \<and>
     (\<not> sgen_gc_descr_has_references desc \<longrightarrow> offs = []) \<and>
     (is_array_descr desc \<or> vt_rank vt \<noteq> 0 \<longrightarrow> 32 \<le> object_size cf mem obj) \<and>
     (vt_is_string vt \<or> desc = SGEN_DESC_STRING \<longrightarrow> 24 \<le> object_size cf mem obj) \<and>
     (has_bounds cf mem obj \<longrightarrow> 16 \<notin> set offs) \<and>
     (\<forall>k\<in>set offs. 8 dvd k \<and> 8 \<le> k \<and> k < unat (object_size cf mem obj) \<and> good_ref cf N (mem (obj + of_nat k))))"

text \<open>The objects \<open>N\<close> of the nursery and the root slots \<open>R\<close> do not overlap.\<close>

definition nursery_ok :: "'h minor_config \<Rightarrow> memory \<Rightarrow> u64 set \<Rightarrow> u64 set \<Rightarrow> bool" where
  "nursery_ok cf mem N R \<longleftrightarrow>
    finite N \<and> \<not> sgen_ptr_in_nursery cf 0 \<and> (\<forall>obj\<in>N. object_ok cf mem N obj) \<and>
    (\<forall>x\<in>N. \<forall>y\<in>N. x \<noteq> y \<longrightarrow> object_words cf mem x x \<inter> object_words cf mem y y = {}) \<and>
    (\<forall>x\<in>N. object_words cf mem x x \<inter> R = {}) \<and> (\<forall>r\<in>R. good_ref cf N (mem r))"

text \<open>What is live: the objects pinned beforehand, and what roots and live objects refer to.\<close>

inductive live_obj :: "'h minor_config \<Rightarrow> memory \<Rightarrow> u64 set \<Rightarrow> u64 set \<Rightarrow> u64 \<Rightarrow> bool"
  for cf mem N R where
  pinned: "x \<in> N \<Longrightarrow> SGEN_OBJECT_IS_PINNED mem x \<Longrightarrow> live_obj cf mem N R x"
| root: "r \<in> R \<Longrightarrow> mem r \<in> N \<Longrightarrow> live_obj cf mem N R (mem r)"
| slot: "live_obj cf mem N R x \<Longrightarrow> k \<in> set (object_slots cf mem x) \<Longrightarrow> mem (x + of_nat k) \<in> N \<Longrightarrow>
    live_obj cf mem N R (mem (x + of_nat k))"

section \<open>The promotion of objects\<close>

text \<open>\<open>F\<close> are the words the old generation may still hand out.\<close>

locale promotion_heap =
  fixes cf :: "'h minor_config" and hp_ok :: "'h \<Rightarrow> memory \<Rightarrow> u64 set \<Rightarrow> bool"
  assumes alloc_ok: "\<lbrakk>hp_ok h mem F; 16 \<le> size'; size' \<le> SGEN_MAX_SMALL_OBJ_SIZE; size' AND 7 = 0\<rbrakk> \<Longrightarrow>
      \<exists>d mem' h' F'. cf_alloc_object cf vt size' refs mem h = Some (d, mem', h') \<and> hp_ok h' mem' F' \<and> F' \<subseteq> F \<and>
        (\<forall>a. a \<notin> F \<longrightarrow> mem' a = mem a) \<and>
        (d \<noteq> 0 \<longrightarrow> d AND 7 = 0 \<and> mem' d = vt \<and> block_words d (unat size') \<subseteq> F \<and> block_words d (unat size') \<inter> F' = {})"
    and hp_frame: "\<lbrakk>hp_ok h mem F; \<And>a. a \<in> F \<Longrightarrow> mem' a = mem a\<rbrakk> \<Longrightarrow> hp_ok h mem' F"
    and hp_outside: "\<lbrakk>hp_ok h mem F; a \<in> F\<rbrakk> \<Longrightarrow> \<not> sgen_ptr_in_nursery cf a"

section \<open>The invariant of a collection\<close>

text \<open>
  \<open>L\<close> maps the objects reached so far to where they are now: to themselves when they are pinned.
  \<open>T\<close> are the slots still to visit.
\<close>

definition now_at :: "(u64 \<Rightarrow> u64 option) \<Rightarrow> u64 \<Rightarrow> u64" where
  "now_at L v = (case L v of Some p \<Rightarrow> p | None \<Rightarrow> v)"

definition raw_word :: "'h minor_config \<Rightarrow> memory \<Rightarrow> u64 \<Rightarrow> u64 \<Rightarrow> nat \<Rightarrow> u64" where
  "raw_word cf mem0 x p k = (if has_bounds cf mem0 x \<and> k = 16 then p + (mem0 (x + 16) - x) else mem0 (x + of_nat k))"

definition resolved :: "u64 set \<Rightarrow> (u64 \<Rightarrow> u64 option) \<Rightarrow> u64 \<Rightarrow> bool" where
  "resolved N L v \<longleftrightarrow> (v \<in> N \<longrightarrow> L v \<noteq> None)"

definition body_ok :: "'h minor_config \<Rightarrow> memory \<Rightarrow> u64 set \<Rightarrow> (u64 \<Rightarrow> u64 option) \<Rightarrow> u64 set \<Rightarrow> memory \<Rightarrow> u64 \<Rightarrow> u64 \<Rightarrow> bool" where
  "body_ok cf mem0 N L T mem x p \<longleftrightarrow>
    (\<forall>k. 8 dvd k \<longrightarrow> 8 \<le> k \<longrightarrow> k < unat (object_size cf mem0 x) \<longrightarrow>
      (if k \<in> set (object_slots cf mem0 x) \<and> p + of_nat k \<notin> T
       then resolved N L (mem0 (x + of_nat k)) \<and> mem (p + of_nat k) = now_at L (mem0 (x + of_nat k))
       else mem (p + of_nat k) = raw_word cf mem0 x p k))"

definition header_ok :: "'h minor_config \<Rightarrow> memory \<Rightarrow> u64 set \<Rightarrow> u64 set \<Rightarrow> (u64 \<Rightarrow> u64 option) \<Rightarrow> u64 set \<Rightarrow> memory \<Rightarrow> u64 \<Rightarrow> bool" where
  "header_ok cf mem0 N R L F mem x \<longleftrightarrow>
    (case L x of
       None \<Rightarrow> mem0 x AND 7 = 0 \<and> (\<forall>a\<in>object_words cf mem0 x x. mem a = mem0 a)
     | Some p \<Rightarrow>
         if p = x then mem x = mem0 x OR 2
         else mem x = p OR 1 \<and> p \<noteq> 0 \<and> p AND 7 = 0 \<and> mem0 x AND 7 = 0 \<and> mem p = mem0 x \<and>
           object_words cf mem0 x p \<inter> F = {} \<and> object_words cf mem0 x p \<inter> R = {} \<and>
           (\<forall>a\<in>object_words cf mem0 x p. \<not> sgen_ptr_in_nursery cf a) \<and>
           (\<forall>y\<in>N. object_words cf mem0 x p \<inter> object_words cf mem0 y y = {}))"

definition heap_inv ::
    "'h minor_config \<Rightarrow> memory \<Rightarrow> u64 set \<Rightarrow> u64 set \<Rightarrow> (u64 \<Rightarrow> u64 option) \<Rightarrow> u64 set \<Rightarrow> u64 set \<Rightarrow> memory \<Rightarrow> bool" where
  "heap_inv cf mem0 N R L T F mem \<longleftrightarrow>
    dom L \<subseteq> N \<and> (\<forall>x\<in>N. header_ok cf mem0 N R L F mem x) \<and>
    (\<forall>x p. L x = Some p \<longrightarrow> live_obj cf mem0 N R x \<and> body_ok cf mem0 N L T mem x p) \<and>
    (\<forall>x y p q. L x = Some p \<longrightarrow> L y = Some q \<longrightarrow> x \<noteq> y \<longrightarrow> object_words cf mem0 x p \<inter> object_words cf mem0 y q = {}) \<and>
    (\<forall>x\<in>N. object_words cf mem0 x x \<inter> F = {}) \<and> R \<inter> F = {} \<and>
    (\<forall>r\<in>R. if r \<in> T then mem r = mem0 r else resolved N L (mem0 r) \<and> mem r = now_at L (mem0 r))"

lemma block_wordsI: "k < n \<Longrightarrow> 8 dvd k \<Longrightarrow> p + of_nat k \<in> block_words p n"
  by (auto simp: block_words_def)

lemma block_words_start: "0 < n \<Longrightarrow> p \<in> block_words p n"
  using block_wordsI [of 0 n p] by simp

lemma small_offset_eq: "j < 2 ^ 64 \<Longrightarrow> k < 2 ^ 64 \<Longrightarrow> p + of_nat j = p + (of_nat k :: u64) \<longleftrightarrow> j = k"
  by (simp add: word_of_nat_eq_iff take_bit_nat_eq_self)

lemma object_size_small: "object_ok cf mem N x \<Longrightarrow> 16 \<le> unat (object_size cf mem x) \<and> unat (object_size cf mem x) \<le> 8000"
  by (simp add: object_ok_def SGEN_MAX_SMALL_OBJ_SIZE_def word_le_nat_alt)

lemma nursery_okD:
  assumes "nursery_ok cf mem N R"
  shows "finite N" "\<not> sgen_ptr_in_nursery cf 0" "\<And>x. x \<in> N \<Longrightarrow> object_ok cf mem N x"
    "\<And>x y. x \<in> N \<Longrightarrow> y \<in> N \<Longrightarrow> x \<noteq> y \<Longrightarrow> object_words cf mem x x \<inter> object_words cf mem y y = {}"
    "\<And>x. x \<in> N \<Longrightarrow> object_words cf mem x x \<inter> R = {}" "\<And>r. r \<in> R \<Longrightarrow> good_ref cf N (mem r)"
  using assms by (auto simp: nursery_ok_def)

lemma object_slotsD:
  assumes "object_ok cf mem N x" "k \<in> set (object_slots cf mem x)"
  shows "8 dvd k" "8 \<le> k" "k < unat (object_size cf mem x)" "good_ref cf N (mem (x + of_nat k))"
    "has_bounds cf mem x \<Longrightarrow> k \<noteq> 16"
  using assms by (auto simp: object_ok_def Let_def)

lemma object_wordI: "k < unat (object_size cf mem x) \<Longrightarrow> 8 dvd k \<Longrightarrow> p + of_nat k \<in> object_words cf mem x p"
  unfolding object_words_def by (rule block_wordsI)

lemma object_start: "object_ok cf mem N x \<Longrightarrow> p \<in> object_words cf mem x p"
  using object_wordI [of 0 cf mem x p] object_size_small [of cf mem N x] by simp

lemma heap_invD:
  assumes "heap_inv cf mem0 N R L T F mem"
  shows "dom L \<subseteq> N" "\<And>x. x \<in> N \<Longrightarrow> header_ok cf mem0 N R L F mem x"
    "\<And>x p. L x = Some p \<Longrightarrow> live_obj cf mem0 N R x" "\<And>x p. L x = Some p \<Longrightarrow> body_ok cf mem0 N L T mem x p"
    "\<And>x y p q. L x = Some p \<Longrightarrow> L y = Some q \<Longrightarrow> x \<noteq> y \<Longrightarrow> object_words cf mem0 x p \<inter> object_words cf mem0 y q = {}"
    "\<And>x. x \<in> N \<Longrightarrow> object_words cf mem0 x x \<inter> F = {}" "R \<inter> F = {}"
    "\<And>r. r \<in> R \<Longrightarrow> r \<in> T \<Longrightarrow> mem r = mem0 r"
    "\<And>r. r \<in> R \<Longrightarrow> r \<notin> T \<Longrightarrow> resolved N L (mem0 r) \<and> mem r = now_at L (mem0 r)"
    "\<And>x p. L x = Some p \<Longrightarrow> x \<in> N"
  using assms unfolding heap_inv_def by (auto split: if_splits)

lemma header_okD:
  assumes "header_ok cf mem0 N R L F mem x"
  shows "L x = None \<Longrightarrow> mem0 x AND 7 = 0" "L x = None \<Longrightarrow> a \<in> object_words cf mem0 x x \<Longrightarrow> mem a = mem0 a"
    "L x = Some x \<Longrightarrow> mem x = mem0 x OR 2"
    "L x = Some p \<Longrightarrow> p \<noteq> x \<Longrightarrow> mem x = p OR 1 \<and> p \<noteq> 0 \<and> p AND 7 = 0 \<and> mem0 x AND 7 = 0 \<and> mem p = mem0 x"
    "L x = Some p \<Longrightarrow> p \<noteq> x \<Longrightarrow> a \<in> object_words cf mem0 x p \<Longrightarrow> a \<notin> F \<and> a \<notin> R \<and> \<not> sgen_ptr_in_nursery cf a"
    "L x = Some p \<Longrightarrow> p \<noteq> x \<Longrightarrow> a \<in> object_words cf mem0 x p \<Longrightarrow> y \<in> N \<Longrightarrow> a \<notin> object_words cf mem0 y y"
  using assms by (auto simp: header_ok_def split: if_splits)

lemma settled_words:
  assumes n: "nursery_ok cf mem0 N R" and h: "heap_inv cf mem0 N R L T F mem" and y: "L y = Some q"
    and a: "a \<in> object_words cf mem0 y q"
  shows "a \<notin> F" "a \<notin> R" "z \<in> N \<Longrightarrow> z \<noteq> y \<Longrightarrow> a \<notin> object_words cf mem0 z z"
proof -
  have yN: "y \<in> N" using heap_invD(10) [OF h y] .
  note d = header_okD(5,6) [OF heap_invD(2) [OF h yN] y]
  show "a \<notin> F" "a \<notin> R" "z \<in> N \<Longrightarrow> z \<noteq> y \<Longrightarrow> a \<notin> object_words cf mem0 z z"
    using a d [of a] heap_invD(6) [OF h yN] nursery_okD(5) [OF n yN] nursery_okD(4) [OF n yN, of z] by (cases "q = y"; blast)+
qed

definition slots_at :: "'h minor_config \<Rightarrow> memory \<Rightarrow> u64 \<Rightarrow> u64 \<Rightarrow> u64 set" where
  "slots_at cf mem0 x p = (\<lambda>k. p + of_nat k) ` set (object_slots cf mem0 x)"

lemma slots_at_words: "object_ok cf mem0 N x \<Longrightarrow> slots_at cf mem0 x p \<subseteq> object_words cf mem0 x p"
  by (auto simp: slots_at_def intro!: object_wordI dest: object_slotsD)

lemma now_at_upd: "resolved N L v \<Longrightarrow> x \<in> N \<Longrightarrow> dom L \<subseteq> N \<Longrightarrow> L x = None \<Longrightarrow> now_at (L(x \<mapsto> p)) v = now_at L v"
  by (auto simp: now_at_def resolved_def)

lemma resolved_upd: "resolved N L v \<Longrightarrow> resolved N (L(x \<mapsto> p)) v"
  by (auto simp: resolved_def)

text \<open>An object is reached: it is pinned, or moved into words that were free.\<close>

lemma settle:
  assumes n: "nursery_ok cf mem0 N R" and h: "heap_inv cf mem0 N R L T F mem" and x: "x \<in> N" "L x = None"
    and live: "live_obj cf mem0 N R x" and F: "F' \<subseteq> F"
    and frame: "\<And>a. a \<notin> F \<Longrightarrow> a \<noteq> x \<Longrightarrow> mem' a = mem a"
    and moved: "p \<noteq> x \<Longrightarrow> object_words cf mem0 x p \<subseteq> F"
    and head: "header_ok cf mem0 N R (L(x \<mapsto> p)) F' mem' x"
    and body: "\<And>k. 8 dvd k \<Longrightarrow> 8 \<le> k \<Longrightarrow> k < unat (object_size cf mem0 x) \<Longrightarrow> mem' (p + of_nat k) = raw_word cf mem0 x p k"
  shows "heap_inv cf mem0 N R (L(x \<mapsto> p)) (T \<union> slots_at cf mem0 x p) F' mem'"
proof -
  note ok = nursery_okD(3) [OF n x(1)]
  note inv = heap_invD [OF h]
  have start: "x \<in> object_words cf mem0 x x" by (rule object_start [OF ok])
  have sl: "slots_at cf mem0 x p \<subseteq> object_words cf mem0 x p" by (rule slots_at_words [OF ok])
  have apart: "a \<notin> object_words cf mem0 x p \<and> mem' a = mem a" if y: "L y = Some q" "a \<in> object_words cf mem0 y q" for y q a
  proof -
    have "y \<noteq> x" using y x by auto
    then have "a \<notin> F" "a \<notin> object_words cf mem0 x x" using settled_words [OF n h y] x(1) by auto
    then show ?thesis using frame [of a] moved start by (cases "p = x") auto
  qed
  have root: "r \<notin> object_words cf mem0 x p \<and> mem' r = mem r" if r: "r \<in> R" for r
  proof -
    have "r \<notin> F" "r \<notin> object_words cf mem0 x x" using inv(7) nursery_okD(5) [OF n x(1)] r by auto
    then show ?thesis using frame [of r] moved start by (cases "p = x") auto
  qed
  have hd: "header_ok cf mem0 N R (L(x \<mapsto> p)) F' mem' y" if y: "y \<in> N" for y
  proof (cases "y = x")
    case False
    have w: "mem' a = mem a" if "a \<in> object_words cf mem0 y y" for a
      using that inv(6) [OF y] nursery_okD(4) [OF n y x(1) False] start frame [of a] by blast
    have w': "mem' y = mem y" using w object_start [OF nursery_okD(3) [OF n y]] by blast
    show ?thesis
    proof (cases "L y")
      case None
      then show ?thesis using inv(2) [OF y] w False by (simp add: header_ok_def)
    next
      case (Some q)
      have "mem' q = mem q" using apart [OF Some object_start [OF nursery_okD(3) [OF n y]]] by simp
      then show ?thesis using inv(2) [OF y] w' False Some F by (simp add: header_ok_def split: if_splits) blast
    qed
  qed (use head in simp)
  have bd: "body_ok cf mem0 N (L(x \<mapsto> p)) (T \<union> slots_at cf mem0 x p) mem' y q" if y: "(L(x \<mapsto> p)) y = Some q" for y q
  proof (cases "y = x")
    case True
    then have "q = p" using y by simp
    then show ?thesis using body True by (auto simp: body_ok_def slots_at_def)
  next
    case False
    then have y: "L y = Some q" using y by simp
    show ?thesis unfolding body_ok_def
    proof (intro allI impI)
      fix k assume k: "8 dvd k" "8 \<le> k" "k < unat (object_size cf mem0 y)"
      have a: "q + of_nat k \<notin> slots_at cf mem0 x p" "mem' (q + of_nat k) = mem (q + of_nat k)"
        using apart [OF y object_wordI [OF k(3,1)]] sl by auto
      have b: "if k \<in> set (object_slots cf mem0 y) \<and> q + of_nat k \<notin> T
       then resolved N L (mem0 (y + of_nat k)) \<and> mem (q + of_nat k) = now_at L (mem0 (y + of_nat k))
       else mem (q + of_nat k) = raw_word cf mem0 y q k" using inv(4) [OF y] k unfolding body_ok_def by blast
      show "if k \<in> set (object_slots cf mem0 y) \<and> q + of_nat k \<notin> T \<union> slots_at cf mem0 x p
       then resolved N (L(x \<mapsto> p)) (mem0 (y + of_nat k)) \<and> mem' (q + of_nat k) = now_at (L(x \<mapsto> p)) (mem0 (y + of_nat k))
       else mem' (q + of_nat k) = raw_word cf mem0 y q k"
        using a b now_at_upd [OF _ x(1) inv(1) x(2), of "mem0 (y + of_nat k)" p] resolved_upd [of N L "mem0 (y + of_nat k)" x p]
        by (auto split: if_splits)
    qed
  qed
  have lv: "live_obj cf mem0 N R y" if "(L(x \<mapsto> p)) y = Some q" for y q
    using that live inv(3) by (cases "y = x") auto
  have dj: "object_words cf mem0 y q \<inter> object_words cf mem0 z r = {}"
    if "(L(x \<mapsto> p)) y = Some q" "(L(x \<mapsto> p)) z = Some r" "y \<noteq> z" for y z q r
    using that apart inv(5) by (cases "y = x"; cases "z = x"; force)
  have rt: "if r \<in> T \<union> slots_at cf mem0 x p then mem' r = mem0 r
      else resolved N (L(x \<mapsto> p)) (mem0 r) \<and> mem' r = now_at (L(x \<mapsto> p)) (mem0 r)" if r: "r \<in> R" for r
    using root [OF r] sl inv(8,9) [OF r] now_at_upd [OF _ x(1) inv(1) x(2), of "mem0 r" p] resolved_upd [of N L "mem0 r" x p] by auto
  have dl: "dom (L(x \<mapsto> p)) \<subseteq> N" using inv(1) x(1) by auto
  have nf: "\<forall>y\<in>N. object_words cf mem0 y y \<inter> F' = {}" "R \<inter> F' = {}" using inv(6,7) F by blast+
  show ?thesis unfolding heap_inv_def using dl hd lv bd dj nf rt by blast
qed

text \<open>The allocation touches only words that were free.\<close>

lemma heap_frame:
  assumes n: "nursery_ok cf mem0 N R" and h: "heap_inv cf mem0 N R L T F mem" and F: "F' \<subseteq> F"
    and frame: "\<And>a. a \<notin> F \<Longrightarrow> mem' a = mem a"
  shows "heap_inv cf mem0 N R L T F' mem'"
proof -
  note inv = heap_invD [OF h]
  have w: "mem' a = mem a" if "y \<in> N" "a \<in> object_words cf mem0 y y" for y a
    using that inv(6) frame [of a] by blast
  have s: "mem' a = mem a" if "L y = Some q" "a \<in> object_words cf mem0 y q" for y q a
    using settled_words(1) [OF n h that] frame by blast
  have hd: "header_ok cf mem0 N R L F' mem' y" if y: "y \<in> N" for y
  proof (cases "L y")
    case None
    then show ?thesis using inv(2) [OF y] w [OF y] by (simp add: header_ok_def)
  next
    case (Some q)
    have "mem' q = mem q" "mem' y = mem y"
      using s [OF Some] w [OF y] object_start [OF nursery_okD(3) [OF n y]] by blast+
    then show ?thesis using inv(2) [OF y] Some F by (simp add: header_ok_def split: if_splits) blast
  qed
  have bd: "body_ok cf mem0 N L T mem' y q" if y: "L y = Some q" for y q
    using inv(4) [OF y] s [OF y object_wordI] by (simp add: body_ok_def)
  have rt: "mem' r = mem r" if "r \<in> R" for r using that inv(7) frame [of r] by blast
  have nf: "\<forall>y\<in>N. object_words cf mem0 y y \<inter> F' = {}" "R \<inter> F' = {}" using inv(6,7) F by blast+
  have "\<forall>r\<in>R. if r \<in> T then mem' r = mem0 r else resolved N L (mem0 r) \<and> mem' r = now_at L (mem0 r)"
    using rt inv(8,9) by auto
  then show ?thesis unfolding heap_inv_def using inv(1,3,5) hd bd nf by blast
qed

definition slot_at :: "'h minor_config \<Rightarrow> memory \<Rightarrow> u64 set \<Rightarrow> (u64 \<Rightarrow> u64 option) \<Rightarrow> u64 \<Rightarrow> u64 \<Rightarrow> bool" where
  "slot_at cf mem0 R L a v \<longleftrightarrow> a \<in> R \<and> v = mem0 a \<or>
    (\<exists>x q k. L x = Some q \<and> k \<in> set (object_slots cf mem0 x) \<and> a = q + of_nat k \<and> v = mem0 (x + of_nat k))"

lemma slot_apart:
  assumes n: "nursery_ok cf mem0 N R" and h: "heap_inv cf mem0 N R L T F mem" and a: "slot_at cf mem0 R L a v"
  shows "y \<in> N \<Longrightarrow> a \<noteq> y" "L y = Some q \<Longrightarrow> a \<noteq> q" "y \<in> N \<Longrightarrow> L y = None \<Longrightarrow> a \<notin> object_words cf mem0 y y" "a \<notin> F"
proof -
  note inv = heap_invD [OF h]
  have start: "p \<in> object_words cf mem0 z p" if "z \<in> N" for z p
    by (rule object_start [OF nursery_okD(3) [OF n that]])
  have root: "(y \<in> N \<longrightarrow> a \<noteq> y) \<and> (L y = Some q \<longrightarrow> a \<noteq> q) \<and> (y \<in> N \<longrightarrow> L y = None \<longrightarrow> a \<notin> object_words cf mem0 y y) \<and> a \<notin> F"
    if r: "a \<in> R"
    using r nursery_okD(5) [OF n, of y] settled_words(2) [OF n h, of y q q] start [of y y] start [of y q] inv(7) inv(10) [of y q] by blast
  have obj: "(y \<in> N \<longrightarrow> a \<noteq> y) \<and> (L y = Some q \<longrightarrow> a \<noteq> q) \<and> (y \<in> N \<longrightarrow> L y = None \<longrightarrow> a \<notin> object_words cf mem0 y y) \<and> a \<notin> F"
    if x: "L x = Some p" "k \<in> set (object_slots cf mem0 x)" "a = p + of_nat k" for x p k
  proof -
    have xN: "x \<in> N" using inv(10) [OF x(1)] .
    note ok = nursery_okD(3) [OF n xN]
    note k = object_slotsD [OF ok x(2)]
    have aw: "a \<in> object_words cf mem0 x p" using object_wordI [OF k(3,1)] x(3) by simp
    have ap: "a \<noteq> p"
      using small_offset_eq [of k 0 p] k(2,3) object_size_small [OF ok] x(3) by simp
    have own: "a \<noteq> x"
      using header_okD(6) [OF inv(2) [OF xN] x(1) _ aw xN] start [OF xN, of x] ap by (cases "p = x") auto
    note s = settled_words [OF n h x(1) aw]
    have "a \<noteq> y" if "y \<in> N" using s(3) [OF that] start [OF that, of y] own by (cases "y = x") auto
    moreover have "a \<noteq> q" if "L y = Some q"
      using inv(5) [OF x(1) that] aw start [OF inv(10) [OF that], of q] ap x(1) that by (cases "y = x") auto
    moreover have "a \<notin> object_words cf mem0 y y" if "y \<in> N" "L y = None" proof -
      have "y \<noteq> x" using x(1) that(2) by auto
      then show ?thesis by (rule s(3) [OF that(1)])
    qed
    ultimately show ?thesis using s(1) by blast
  qed
  show "y \<in> N \<Longrightarrow> a \<noteq> y" "L y = Some q \<Longrightarrow> a \<noteq> q" "y \<in> N \<Longrightarrow> L y = None \<Longrightarrow> a \<notin> object_words cf mem0 y y" "a \<notin> F"
    using a root obj unfolding slot_at_def by blast+
qed

lemma slot_value:
  assumes n: "nursery_ok cf mem0 N R" and h: "heap_inv cf mem0 N R L T F mem" and a: "slot_at cf mem0 R L a v"
  shows "a \<in> T \<Longrightarrow> mem a = v" "a \<notin> T \<Longrightarrow> resolved N L v \<and> mem a = now_at L v" "good_ref cf N v"
    "v \<in> N \<Longrightarrow> live_obj cf mem0 N R v"
proof -
  note inv = heap_invD [OF h]
  have obj: "(a \<in> T \<longrightarrow> mem a = v) \<and> (a \<notin> T \<longrightarrow> resolved N L v \<and> mem a = now_at L v) \<and> good_ref cf N v \<and> (v \<in> N \<longrightarrow> live_obj cf mem0 N R v)"
    if x: "L x = Some p" "k \<in> set (object_slots cf mem0 x)" "a = p + of_nat k" "v = mem0 (x + of_nat k)" for x p k
  proof -
    note k = object_slotsD [OF nursery_okD(3) [OF n inv(10) [OF x(1)]] x(2)]
    have "if p + of_nat k \<notin> T then resolved N L (mem0 (x + of_nat k)) \<and> mem (p + of_nat k) = now_at L (mem0 (x + of_nat k))
       else mem (p + of_nat k) = raw_word cf mem0 x p k"
      using inv(4) [OF x(1)] k(1-3) x(2) unfolding body_ok_def by (auto split: if_splits)
    moreover have "raw_word cf mem0 x p k = v" using k(5) x(4) by (auto simp: raw_word_def)
    ultimately show ?thesis using x k(4) live_obj.slot [OF inv(3) [OF x(1)] x(2)] by auto
  qed
  have root: "(a \<in> T \<longrightarrow> mem a = v) \<and> (a \<notin> T \<longrightarrow> resolved N L v \<and> mem a = now_at L v) \<and> good_ref cf N v \<and> (v \<in> N \<longrightarrow> live_obj cf mem0 N R v)"
    if r: "a \<in> R" "v = mem0 a"
    using r inv(8,9) [OF r(1)] nursery_okD(6) [OF n r(1)] live_obj.root [OF r(1)] by blast
  show "a \<in> T \<Longrightarrow> mem a = v" "a \<notin> T \<Longrightarrow> resolved N L v \<and> mem a = now_at L v" "good_ref cf N v"
    "v \<in> N \<Longrightarrow> live_obj cf mem0 N R v"
    using a root obj unfolding slot_at_def by blast+
qed

lemma slot_update:
  assumes n: "nursery_ok cf mem0 N R" and h: "heap_inv cf mem0 N R L T F mem" and a: "slot_at cf mem0 R L a v"
    and r: "resolved N L v"
  shows "heap_inv cf mem0 N R L (T - {a}) F (mem(a := now_at L v))" (is "heap_inv _ _ _ _ _ _ _ ?mem")
proof -
  note inv = heap_invD [OF h]
  note ap = slot_apart [OF n h a]
  have uniq: "v = mem0 (y + of_nat k) \<and> k \<in> set (object_slots cf mem0 y)"
    if y: "L y = Some q" "q + of_nat k = a" "8 dvd k" "k < unat (object_size cf mem0 y)" for y q k
  proof -
    have aw: "a \<in> object_words cf mem0 y q" using object_wordI [OF y(4,3)] y(2) by blast
    then have "a \<notin> R" by (rule settled_words(2) [OF n h y(1)])
    then obtain x p j where x: "L x = Some p" "j \<in> set (object_slots cf mem0 x)" "a = p + of_nat j" "v = mem0 (x + of_nat j)"
      using a unfolding slot_at_def by blast
    note ok = nursery_okD(3) [OF n inv(10) [OF x(1)]]
    note j = object_slotsD [OF ok x(2)]
    have "a \<in> object_words cf mem0 x p" using object_wordI [OF j(3,1)] x(3) by simp
    then have "x = y" using inv(5) [OF x(1) y(1)] aw by blast
    moreover from this have "p = q" using x(1) y(1) by simp
    moreover from this \<open>x = y\<close> have "j = k"
      using small_offset_eq [of k j q] x(3) y(2,4) j(3) object_size_small [OF ok] by simp
    ultimately show ?thesis using x by simp
  qed
  have hd: "header_ok cf mem0 N R L F ?mem y" if y: "y \<in> N" for y
    using inv(2) [OF y] ap(1) [OF y] ap(2) [of y] ap(3) [OF y] by (auto simp: header_ok_def split: option.splits)
  have bd: "body_ok cf mem0 N L (T - {a}) ?mem y q" if y: "L y = Some q" for y q
    unfolding body_ok_def
  proof (intro allI impI)
    fix k assume k: "8 dvd k" "8 \<le> k" "k < unat (object_size cf mem0 y)"
    have b: "if k \<in> set (object_slots cf mem0 y) \<and> q + of_nat k \<notin> T
       then resolved N L (mem0 (y + of_nat k)) \<and> mem (q + of_nat k) = now_at L (mem0 (y + of_nat k))
       else mem (q + of_nat k) = raw_word cf mem0 y q k" using inv(4) [OF y] k unfolding body_ok_def by blast
    show "if k \<in> set (object_slots cf mem0 y) \<and> q + of_nat k \<notin> T - {a}
       then resolved N L (mem0 (y + of_nat k)) \<and> ?mem (q + of_nat k) = now_at L (mem0 (y + of_nat k))
       else ?mem (q + of_nat k) = raw_word cf mem0 y q k"
      using b uniq [OF y _ k(1,3)] r by (cases "q + of_nat k = a") auto
  qed
  have rt: "if s \<in> T - {a} then ?mem s = mem0 s else resolved N L (mem0 s) \<and> ?mem s = now_at L (mem0 s)" if s: "s \<in> R" for s
  proof (cases "s = a")
    case True
    have "q + of_nat k \<notin> R" if x: "L x = Some q" "k \<in> set (object_slots cf mem0 x)" for x q k
      using settled_words(2) [OF n h x(1)] object_wordI [OF object_slotsD(3,1) [OF nursery_okD(3) [OF n inv(10) [OF x(1)]] x(2)]] by blast
    then have "v = mem0 s" using a s True unfolding slot_at_def by blast
    then show ?thesis using True r by simp
  qed (use inv(8,9) [OF s] in auto)
  have rt': "\<forall>s\<in>R. if s \<in> T - {a} then ?mem s = mem0 s else resolved N L (mem0 s) \<and> ?mem s = now_at L (mem0 s)"
    using rt by blast
  show ?thesis unfolding heap_inv_def
    by (intro conjI rt' ballI allI impI inv(1,3,5,6,7) hd bd)
qed

lemma and_7_dvd: "(w :: u64) AND 7 = 0 \<longleftrightarrow> 8 dvd unat w"
proof -
  have "w AND 7 = take_bit 3 w" by (simp add: take_bit_eq_mask mask_eq_exp_minus_1)
  then show ?thesis by (simp add: word_unat_eq_iff unat_take_bit_mod dvd_eq_mod_eq_0)
qed

lemma untag_id: "w AND 7 = 0 \<Longrightarrow> SGEN_POINTER_UNTAG_ALL w = w"
proof -
  assume "w AND 7 = 0"
  then have "\<not> (bit w i \<and> bit (7::u64) i)" for i by (metis bit_and_iff bit_0_eq bot_apply bot_bool_def)
  then show ?thesis unfolding SGEN_POINTER_UNTAG_ALL_def SGEN_TAGGED_POINTER_MASK_def
    by (intro bit_word_eqI) (simp only: bit_and_iff bit_not_iff, auto)
qed

lemma untag_or: "SGEN_POINTER_UNTAG_ALL (w OR 1) = SGEN_POINTER_UNTAG_ALL w" "SGEN_POINTER_UNTAG_ALL (w OR 2) = SGEN_POINTER_UNTAG_ALL w"
  by (simp_all add: SGEN_POINTER_UNTAG_ALL_def SGEN_TAGGED_POINTER_MASK_def bit.conj_disj_distrib2)

lemma align_up_7: "SGEN_ALIGN_UP s AND 7 = 0"
  by (simp add: SGEN_ALIGN_UP_def and.assoc)

lemma object_size_dvd: "8 dvd unat (object_size cf mem x)"
  unfolding and_7_dvd [symmetric] object_size_def by (rule align_up_7)

lemma memcpy_words_in:
  assumes n: "16 \<le> size'" "size' \<le> SGEN_MAX_SMALL_OBJ_SIZE" and k: "8 dvd k" "8 \<le> k" "k < unat size'"
  shows "memcpy_words (d + 8) (x + 8) size' mem (d + of_nat k) = mem (x + of_nat k)"
proof -
  obtain j where j: "k = j + 8" using k(2) by (metis le_add_diff_inverse2)
  have k64: "unat (of_nat j :: u64) = j"
    using k(3) j n(2) by (simp add: unat_of_nat take_bit_nat_eq_self SGEN_MAX_SMALL_OBJ_SIZE_def word_le_nat_alt)
  have "(of_nat j :: u64) < size' - 8"
    using k(3) j n k64 by (simp add: word_less_nat_alt unat_sub word_le_nat_alt)
  moreover have "(of_nat j :: u64) AND 7 = 0" using k(1) j by (simp add: and_7_dvd k64)
  moreover have "d + of_nat k - (d + 8) = (of_nat j :: u64)" "x + 8 + of_nat j = x + (of_nat k :: u64)" using j by simp_all
  ultimately show ?thesis unfolding memcpy_words_def by presburger
qed

lemma memcpy_words_out:
  assumes n: "16 \<le> size'" "8 dvd unat size'" and a: "a \<notin> block_words d (unat size') \<or> a = d" and l: "size' \<le> SGEN_MAX_SMALL_OBJ_SIZE"
  shows "memcpy_words (d + 8) (x + 8) size' mem a = mem a"
proof -
  have "\<not> (a - (d + 8) < size' - 8 \<and> (a - (d + 8)) AND 7 = 0)"
  proof
    assume h: "a - (d + 8) < size' - 8 \<and> (a - (d + 8)) AND 7 = 0"
    let ?j = "unat (a - (d + 8))"
    have j: "8 dvd ?j" "?j + 8 < unat size'" using h n(1) by (auto simp: and_7_dvd word_less_nat_alt unat_sub word_le_nat_alt)
    have e: "a = d + of_nat (?j + 8)" by simp
    then have "a \<in> block_words d (unat size')" using block_wordsI [OF j(2), of d] j(1) by simp
    then have "d + of_nat (?j + 8) = d + of_nat 0" using a e by simp
    then show False using small_offset_eq [of "?j + 8" 0 d] j(2) l by (simp add: SGEN_MAX_SMALL_OBJ_SIZE_def word_le_nat_alt)
  qed
  then show ?thesis unfolding memcpy_words_def by (rule if_not_P)
qed

text \<open>The fixed words of an object that its size and its slots depend on.\<close>

lemma object_okD:
  assumes "object_ok cf mem N x"
  shows "a \<in> object_words cf mem x x \<Longrightarrow> sgen_ptr_in_nursery cf a" "mem x AND 7 \<in> {0, 2, 6}" "16 \<le> object_size cf mem x" "object_size cf mem x \<le> SGEN_MAX_SMALL_OBJ_SIZE"
    "slot_offsets (cf_complex_descriptors cf) (object_info cf mem x) (vt_gc_descr (object_info cf mem x)) (mono_array_length mem x) =
      Some (object_slots cf mem x)"
    "\<not> sgen_gc_descr_has_references (vt_gc_descr (object_info cf mem x)) \<Longrightarrow> object_slots cf mem x = []"
    "is_array_descr (vt_gc_descr (object_info cf mem x)) \<or> vt_rank (object_info cf mem x) \<noteq> 0 \<Longrightarrow> 32 \<le> object_size cf mem x"
    "vt_is_string (object_info cf mem x) \<or> vt_gc_descr (object_info cf mem x) = SGEN_DESC_STRING \<Longrightarrow> 24 \<le> object_size cf mem x"
  using assms by (auto simp: object_ok_def Let_def)

lemma object_in_nursery: "object_ok cf mem N x \<Longrightarrow> sgen_ptr_in_nursery cf x"
  using object_okD(1) [of cf mem N x x] object_start [of cf mem N x x] by blast

lemma object_field:
  assumes ok: "object_ok cf mem0 N x" and same: "\<And>a. a \<in> object_words cf mem0 x x \<Longrightarrow> mem a = mem0 a"
  shows "mem x = mem0 x" "24 \<le> object_size cf mem0 x \<Longrightarrow> mem (x + 16) = mem0 (x + 16)"
    "32 \<le> object_size cf mem0 x \<Longrightarrow> mem (x + 16) = mem0 (x + 16) \<and> mem (x + 24) = mem0 (x + 24)"
  using object_start [OF ok, of x] object_wordI [of 16 cf mem0 x x] object_wordI [of 24 cf mem0 x x] same
  by (auto simp: word_le_nat_alt)

lemma object_size_same:
  assumes ok: "object_ok cf mem0 N x" and same: "\<And>a. a \<in> object_words cf mem0 x x \<Longrightarrow> mem a = mem0 a"
  shows "object_info cf mem x = object_info cf mem0 x" "object_size cf mem x = object_size cf mem0 x"
proof -
  note f = object_field [OF ok same] and d = object_okD(7,8) [OF ok]
  show i: "object_info cf mem x = object_info cf mem0 x" using f(1) by (simp add: object_info_def SGEN_LOAD_VTABLE_def)
  let ?vt = "object_info cf mem0 x"
  have arr: "sgen_mono_array_size ?vt mem x dd = sgen_mono_array_size ?vt mem0 x dd"
    if "is_array_descr (vt_gc_descr ?vt) \<or> vt_rank ?vt \<noteq> 0" for dd
    using f(3) d(1) that by (simp add: sgen_mono_array_size_def mono_array_length_def array_bounds_def)
  have str: "string_size mem x = string_size mem0 x" if "vt_is_string ?vt \<or> vt_gc_descr ?vt = SGEN_DESC_STRING"
    using f(2) d(2) that by (simp add: string_size_def mono_string_length_def)
  have "sgen_client_par_object_get_size ?vt mem x = sgen_client_par_object_get_size ?vt mem0 x"
    using arr str unfolding sgen_client_par_object_get_size_def sgen_client_slow_object_get_size_def Let_def is_array_descr_def
    by (simp cong: if_cong)
  then show "object_size cf mem x = object_size cf mem0 x" by (simp add: object_size_def i)
qed

section \<open>The state\<close>

definition gray_holds :: "'h minor_state \<Rightarrow> GrayQueueEntry list \<Rightarrow> bool" where
  "gray_holds st xs \<longleftrightarrow> (\<exists>secs fl c. gq_rep (gc_store st) (gc_queue st) secs fl c \<and> gq_stack (gc_store st) secs c = xs)"

lemma gray_enqueue_ok:
  assumes "gray_holds st xs"
  shows "\<exists>q gs. GRAY_OBJECT_ENQUEUE_SERIAL obj desc st = Some (st\<lparr>gc_queue := q, gc_store := gs\<rparr>) \<and>
    gray_holds (st\<lparr>gc_queue := q, gc_store := gs\<rparr>) (\<lparr>ge_obj = obj, ge_desc = desc\<rparr> # xs)"
proof -
  obtain secs fl c where r: "gq_rep (gc_store st) (gc_queue st) secs fl c" "gq_stack (gc_store st) secs c = xs"
    using assms by (auto simp: gray_holds_def)
  from enqueue_rep [OF r(1), of obj desc] fast_paths_rep [OF r(1), of obj desc] r(2) show ?thesis
    by (fastforce simp: GRAY_OBJECT_ENQUEUE_SERIAL_def gray_holds_def)
qed

lemma gray_dequeue_ok:
  assumes "gray_holds st xs"
  shows "\<exists>q gs. GRAY_OBJECT_DEQUEUE False (gc_queue st) (gc_store st) = Some (case xs of [] \<Rightarrow> None | e # _ \<Rightarrow> Some e, q, gs) \<and>
    gray_holds (st\<lparr>gc_queue := q, gc_store := gs\<rparr>) (tl xs)"
proof -
  obtain secs fl c where r: "gq_rep (gc_store st) (gc_queue st) secs fl c" "gq_stack (gc_store st) secs c = xs"
    using assms by (auto simp: gray_holds_def)
  from dequeue_rep [OF r(1), of False] fast_paths_rep [OF r(1), of _ _ False] r(2) show ?thesis
    by (fastforce simp: gray_holds_def)
qed

definition entry_ok :: "'h minor_config \<Rightarrow> memory \<Rightarrow> (u64 \<Rightarrow> u64 option) \<Rightarrow> GrayQueueEntry \<Rightarrow> bool" where
  "entry_ok cf mem0 L e \<longleftrightarrow>
    (\<exists>x. L x = Some (ge_obj e) \<and> ge_desc e = vt_gc_descr (object_info cf mem0 x)) \<and> ge_obj e \<noteq> 0"

text \<open>Every slot still to visit belongs to a gray object, or is one of \<open>X\<close>.\<close>

definition covered :: "'h minor_config \<Rightarrow> memory \<Rightarrow> (u64 \<Rightarrow> u64 option) \<Rightarrow> u64 set \<Rightarrow> u64 set \<Rightarrow> GrayQueueEntry list \<Rightarrow> bool" where
  "covered cf mem0 L T X xs \<longleftrightarrow>
    (\<forall>a\<in>T. a \<in> X \<or> (\<exists>e\<in>set xs. \<exists>x. L x = Some (ge_obj e) \<and> a \<in> slots_at cf mem0 x (ge_obj e)))"

text \<open>A slot outside the nursery that keeps a pointer into it is recorded, unless the object is cemented.\<close>

definition remembered :: "memory \<Rightarrow> 'h minor_state \<Rightarrow> u64 \<Rightarrow> u64 \<Rightarrow> bool" where
  "remembered mem0 st a v \<longleftrightarrow>
    a \<in> set (gc_remset st) \<or> SGEN_OBJECT_IS_CEMENTED mem0 v \<or> sgen_cement_lookup v (gc_pin st)"

definition remset_inv :: "'h minor_config \<Rightarrow> memory \<Rightarrow> u64 set \<Rightarrow> (u64 \<Rightarrow> u64 option) \<Rightarrow> u64 set \<Rightarrow> 'h minor_state \<Rightarrow> bool" where
  "remset_inv cf mem0 RO L T st \<longleftrightarrow>
    (\<forall>a v. slot_at cf mem0 RO L a v \<longrightarrow> a \<notin> T \<longrightarrow> \<not> sgen_ptr_in_nursery cf a \<longrightarrow> L v = Some v \<longrightarrow> remembered mem0 st a v)"

definition pins_ok :: "pin_state \<Rightarrow> bool" where
  "pins_ok pin \<longleftrightarrow> pin_ok pin \<and> length (cement_hash pin) = SGEN_CEMENT_HASH_SIZE"

lemma lookup_or_register_ok:
  assumes "pins_ok pin" "p \<noteq> 0" "sgen_cement_lookup_or_register p pin = (c, pin')"
  shows "pins_ok pin'" "c \<Longrightarrow> sgen_cement_lookup p pin'" "sgen_cement_lookup q pin \<Longrightarrow> sgen_cement_lookup q pin'"
proof -
  let ?i = "cement_slot p" and ?e = "cement_hash pin ! cement_slot p"
  have l: "length (cement_hash pin) = SGEN_CEMENT_HASH_SIZE" using assms(1) by (simp add: pins_ok_def)
  have i: "?i < length (cement_hash pin)" using cement_slot_bound l by simp
  have keep: "pins_ok pin'" if "cement_hash pin' = (cement_hash pin)[?i := e]" "pin_queue pin' = pin_queue pin"
    "pin_hash_filter pin' = pin_hash_filter pin" for e
    using that assms(1) by (simp add: pins_ok_def pin_ok_def)
  show "pins_ok pin'"
    using assms(1,3) keep by (auto simp: sgen_cement_lookup_or_register_def Let_def split: if_splits)
  show "c \<Longrightarrow> sgen_cement_lookup p pin'"
    using assms(2,3) i by (auto simp: sgen_cement_lookup_or_register_def sgen_cement_lookup_def Let_def split: if_splits)
  show "sgen_cement_lookup q pin \<Longrightarrow> sgen_cement_lookup q pin'"
  proof (cases "cement_slot q = ?i")
    case True
    then show "sgen_cement_lookup q pin \<Longrightarrow> sgen_cement_lookup q pin'"
      using assms(3) i by (auto simp: sgen_cement_lookup_or_register_def sgen_cement_lookup_def Let_def split: if_splits)
  next
    case False
    then show "sgen_cement_lookup q pin \<Longrightarrow> sgen_cement_lookup q pin'"
      using assms(3) i by (auto simp: sgen_cement_lookup_or_register_def sgen_cement_lookup_def Let_def split: if_splits)
  qed
qed

lemma stage_pins_ok:
  assumes "pins_ok pin" "p \<noteq> 0"
  shows "\<exists>pin'. sgen_pin_stage_ptr p pin = Some pin' \<and> pins_ok pin' \<and> (\<forall>q. sgen_cement_lookup q pin' = sgen_cement_lookup q pin)"
proof -
  obtain pin' where pin': "sgen_pin_stage_ptr p pin = Some pin'" "pin_ok pin'"
    using stage_ok [of pin p] assms by (auto simp: pins_ok_def)
  then have "cement_hash pin' = cement_hash pin" "cement_enabled pin' = cement_enabled pin"
    by (auto simp: sgen_pin_stage_ptr_def Let_def split: if_splits)
  then show ?thesis using pin' assms(1) by (simp add: pins_ok_def sgen_cement_lookup_def)
qed

definition minor_inv ::
    "'h minor_config \<Rightarrow> ('h \<Rightarrow> memory \<Rightarrow> u64 set \<Rightarrow> bool) \<Rightarrow> memory \<Rightarrow> u64 set \<Rightarrow> u64 set \<Rightarrow> u64 set \<Rightarrow>
      (u64 \<Rightarrow> u64 option) \<Rightarrow> u64 set \<Rightarrow> u64 set \<Rightarrow> GrayQueueEntry list \<Rightarrow> u64 set \<Rightarrow> 'h minor_state \<Rightarrow> bool" where
  "minor_inv cf hp_ok mem0 N R RO L T X xs F st \<longleftrightarrow>
    heap_inv cf mem0 N R L T F (gc_mem st) \<and> hp_ok (gc_major st) (gc_mem st) F \<and> gray_holds st xs \<and>
    (\<forall>e\<in>set xs. entry_ok cf mem0 L e) \<and> covered cf mem0 L T X xs \<and> pins_ok (gc_pin st) \<and> remset_inv cf mem0 RO L T st"

lemma entry_ok_upd: "entry_ok cf mem0 L e \<Longrightarrow> L x = None \<Longrightarrow> entry_ok cf mem0 (L(x \<mapsto> p)) e"
proof -
  assume e: "entry_ok cf mem0 L e" "L x = None"
  then obtain y where y: "L y = Some (ge_obj e)" "ge_desc e = vt_gc_descr (object_info cf mem0 y)" "ge_obj e \<noteq> 0"
    unfolding entry_ok_def by blast
  moreover from y e(2) have "y \<noteq> x" by auto
  ultimately have "(L(x \<mapsto> p)) y = Some (ge_obj e) \<and> ge_desc e = vt_gc_descr (object_info cf mem0 y)" by simp
  then show ?thesis using y(3) unfolding entry_ok_def by blast
qed

lemma covered_upd:
  "covered cf mem0 L T X xs \<Longrightarrow> L x = None \<Longrightarrow>
    slots_at cf mem0 x p = {} \<or> (\<exists>e\<in>set xs'. ge_obj e = p) \<Longrightarrow> set xs \<subseteq> set xs' \<Longrightarrow>
    covered cf mem0 (L(x \<mapsto> p)) (T \<union> slots_at cf mem0 x p) X xs'"
  unfolding covered_def by (fastforce split: if_splits)

lemma slot_at_updD:
  "slot_at cf mem0 R (L(x \<mapsto> p)) a v \<Longrightarrow> slot_at cf mem0 R L a v \<or> a \<in> slots_at cf mem0 x p"
  unfolding slot_at_def slots_at_def by (auto split: if_splits)

lemma remset_inv_upd:
  assumes "remset_inv cf mem0 RO L T st" "gc_remset st' = gc_remset st"
    "\<And>q. sgen_cement_lookup q (gc_pin st) \<Longrightarrow> sgen_cement_lookup q (gc_pin st')"
    and h: "heap_inv cf mem0 N R L T F mem" and n: "nursery_ok cf mem0 N R" and RO: "RO \<subseteq> R" and x: "x \<in> N" "L x = None"
  shows "remset_inv cf mem0 RO (L(x \<mapsto> p)) (T \<union> slots_at cf mem0 x p) st'"
  unfolding remset_inv_def
proof (intro allI impI)
  fix a v assume a: "slot_at cf mem0 RO (L(x \<mapsto> p)) a v" "a \<notin> T \<union> slots_at cf mem0 x p" "\<not> sgen_ptr_in_nursery cf a"
    "(L(x \<mapsto> p)) v = Some v"
  then have s: "slot_at cf mem0 RO L a v" using slot_at_updD [OF a(1)] by blast
  then have "slot_at cf mem0 R L a v" using RO unfolding slot_at_def by blast
  then have "v \<noteq> x" using slot_value(2) [OF n h, of a v] a(2) x by (auto simp: resolved_def)
  then show "remembered mem0 st' a v" using assms(1-3) s a(2-4) unfolding remset_inv_def remembered_def by auto
qed

context promotion_heap
begin

lemma copy_ok:
  assumes n: "nursery_ok cf mem0 N R" and RO: "RO \<subseteq> R" and inv: "minor_inv cf hp_ok mem0 N R RO L T X xs F st"
    and x: "x \<in> N" "L x = None" "live_obj cf mem0 N R x"
  shows "\<exists>p st' F' xs'. copy_object_no_checks cf x st = Some (p, st') \<and> length xs' \<le> Suc (length xs) \<and>
    minor_inv cf hp_ok mem0 N R RO (L(x \<mapsto> p)) (T \<union> slots_at cf mem0 x p) X xs' F' st'"
proof -
  have h: "heap_inv cf mem0 N R L T F (gc_mem st)" and g: "gray_holds st xs" and hp: "hp_ok (gc_major st) (gc_mem st) F"
    and pins: "pins_ok (gc_pin st)" and rem: "remset_inv cf mem0 RO L T st" and cov: "covered cf mem0 L T X xs"
    and ent: "\<forall>e\<in>set xs. entry_ok cf mem0 L e"
    using inv by (simp_all add: minor_inv_def)
  note ok = nursery_okD(3) [OF n x(1)]
  note od = object_okD [OF ok]
  note hx = header_okD(1,2) [OF heap_invD(2) [OF h x(1)] x(2)]
  let ?vt = "object_info cf mem0 x" and ?size = "object_size cf mem0 x" and ?W = "object_words cf mem0 x x"
  let ?refs = "sgen_gc_descr_has_references (vt_gc_descr ?vt)"
  have start: "x \<in> ?W" by (rule object_start [OF ok])
  have v: "gc_mem st x = mem0 x" using hx(2) [OF start] .
  have vt: "cf_vtable cf (gc_mem st x) = ?vt" using hx(1) v by (simp add: object_info_def SGEN_LOAD_VTABLE_def untag_id)
  have sz: "SGEN_ALIGN_UP (sgen_client_par_object_get_size ?vt (gc_mem st) x) = ?size"
    using object_size_same [OF ok hx(2)] by (simp add: object_size_def)
  from alloc_ok [OF hp od(3,4), of "gc_mem st x" ?refs] obtain d mem1 h1 F1 where
    al: "cf_alloc_object cf (gc_mem st x) ?size ?refs (gc_mem st) (gc_major st) = Some (d, mem1, h1)"
      "hp_ok h1 mem1 F1" "F1 \<subseteq> F" "\<And>a. a \<notin> F \<Longrightarrow> mem1 a = gc_mem st a"
    and dn: "d \<noteq> 0 \<Longrightarrow> d AND 7 = 0 \<and> mem1 d = mem0 x \<and> block_words d (unat ?size) \<subseteq> F \<and> block_words d (unat ?size) \<inter> F1 = {}"
    using v align_up_7 by (auto simp: object_size_def)
  let ?st1 = "st\<lparr>gc_mem := mem1, gc_major := h1, gc_promoted_size := gc_promoted_size st + ?size\<rparr>"
  have prom: "alloc_for_promotion cf (gc_mem st x) ?size ?refs st = Some (d, ?st1)" using al(1) by (simp add: alloc_for_promotion_def)
  note copy = copy_object_no_checks_def [of cf x st, unfolded Let_def vt sz, unfolded prom, simplified]
  have WF: "a \<notin> F" if "a \<in> ?W" for a using heap_invD(6) [OF h x(1)] that by blast
  have m1: "mem1 a = mem0 a" if "a \<in> ?W" for a using al(4) [OF WF [OF that]] hx(2) [OF that] by simp
  have outside: "a \<notin> F \<Longrightarrow> a \<notin> F1" for a using al(3) by blast
  show ?thesis
  proof (cases "d = 0")
    case True
    have x0: "x \<noteq> 0" using object_in_nursery [OF ok] nursery_okD(2) [OF n] by auto
    obtain pin where pin: "sgen_pin_stage_ptr x (gc_pin st) = Some pin" "pins_ok pin"
      "\<And>q. sgen_cement_lookup q pin = sgen_cement_lookup q (gc_pin st)" using stage_pins_ok [OF pins x0] by blast
    let ?mem = "mem1(x := mem0 x OR 2)"
    let ?st2 = "?st1\<lparr>gc_pin := pin, gc_mem := ?mem, gc_objects_pinned := gc_objects_pinned st + 1\<rparr>"
    have "gray_holds ?st2 xs" using g by (simp add: gray_holds_def)
    from gray_enqueue_ok [OF this, of x "vt_gc_descr ?vt"] obtain q gs where
      q: "GRAY_OBJECT_ENQUEUE_SERIAL x (vt_gc_descr ?vt) ?st2 = Some (?st2\<lparr>gc_queue := q, gc_store := gs\<rparr>)"
      "gray_holds (?st2\<lparr>gc_queue := q, gc_store := gs\<rparr>) (\<lparr>ge_obj = x, ge_desc = vt_gc_descr ?vt\<rparr> # xs)" by blast
    have "SGEN_PIN_OBJECT x mem1 = ?mem" using m1 [OF start] by (simp add: SGEN_PIN_OBJECT_def SGEN_POINTER_TAG_PINNED_def)
    moreover have "cf_vtable cf (SGEN_LOAD_VTABLE ?mem x) = ?vt"
      by (simp add: SGEN_LOAD_VTABLE_def untag_or object_info_def)
    ultimately have "sgen_pin_object cf x ?st1 = Some (?st2\<lparr>gc_queue := q, gc_store := gs\<rparr>)"
      using object_in_nursery [OF ok] pin(1) q(1) by (simp add: sgen_pin_object_def Let_def)
    then have run: "copy_object_no_checks cf x st =
      Some (x, ?st2\<lparr>gc_queue := q, gc_store := gs, gc_failed_bytes := gc_failed_bytes st + ?size\<rparr>)" (is "_ = Some (x, ?st3)")
      using True by (simp add: copy)
    let ?L = "L(x \<mapsto> x)"
    have "heap_inv cf mem0 N R ?L (T \<union> slots_at cf mem0 x x) F1 ?mem"
    proof (rule settle [OF n h x al(3)])
      show "?mem a = gc_mem st a" if "a \<notin> F" "a \<noteq> x" for a using al(4) [OF that(1)] that(2) by simp
      show "header_ok cf mem0 N R ?L F1 ?mem x" by (simp add: header_ok_def)
      show "?mem (x + of_nat k) = raw_word cf mem0 x x k" if k: "8 dvd k" "8 \<le> k" "k < unat ?size" for k
      proof -
        have "x + of_nat k \<noteq> x" using small_offset_eq [of k 0 x] k object_size_small [OF ok] by simp
        then show ?thesis using m1 [OF object_wordI [OF k(3,1)]] by (auto simp: raw_word_def)
      qed
    qed simp
    moreover have "hp_ok h1 ?mem F1" using al(2) by (rule hp_frame) (use outside [OF WF [OF start]] in auto)
    moreover have "gray_holds ?st3 (\<lparr>ge_obj = x, ge_desc = vt_gc_descr ?vt\<rparr> # xs)" using q(2) by (simp add: gray_holds_def)
    moreover have "entry_ok cf mem0 ?L \<lparr>ge_obj = x, ge_desc = vt_gc_descr ?vt\<rparr>" using x0 by (auto simp: entry_ok_def)
    moreover have "covered cf mem0 ?L (T \<union> slots_at cf mem0 x x) X (\<lparr>ge_obj = x, ge_desc = vt_gc_descr ?vt\<rparr> # xs)"
      by (rule covered_upd [OF cov x(2)]) auto
    moreover have "remset_inv cf mem0 RO ?L (T \<union> slots_at cf mem0 x x) ?st3"
      by (rule remset_inv_upd [OF rem _ _ h n RO x(1,2)]) (simp_all add: pin(3))
    ultimately have "minor_inv cf hp_ok mem0 N R RO ?L (T \<union> slots_at cf mem0 x x) X (\<lparr>ge_obj = x, ge_desc = vt_gc_descr ?vt\<rparr> # xs) F1 ?st3"
      using pin(2) ent entry_ok_upd [where L = L and x = x, OF _ x(2)] by (simp add: minor_inv_def del: fun_upd_apply) blast
    moreover have "length (\<lparr>ge_obj = x, ge_desc = vt_gc_descr ?vt\<rparr> # xs) \<le> Suc (length xs)" by simp
    ultimately show ?thesis using run by blast
  next
    case False
    then have dn: "d AND 7 = 0" "mem1 d = mem0 x" "object_words cf mem0 x d \<subseteq> F" "object_words cf mem0 x d \<inter> F1 = {}"
      using dn by (simp_all add: object_words_def)
    have dx: "d \<noteq> x" using WF [OF start] dn(3) object_start [OF ok, of d] by blast
    let ?mem2 = "par_copy_object_no_checks d ?vt x ?size mem1"
    let ?mem = "?mem2(x := d OR 1)"
    have bounds16: "32 \<le> ?size" if "has_bounds cf mem0 x" using od(7) that by (auto simp: has_bounds_def)
    have cp: "memcpy_words (d + 8) (x + 8) ?size mem1 a = mem1 a" if "a \<notin> object_words cf mem0 x d \<or> a = d" for a
      using memcpy_words_out [OF od(3) object_size_dvd _ od(4)] that unfolding object_words_def by blast
    have Wd: "a \<notin> object_words cf mem0 x d" if "a \<in> ?W" for a using WF [OF that] dn(3) by blast
    have nb: "vt_rank ?vt \<noteq> 0 \<and> array_bounds (memcpy_words (d + 8) (x + 8) ?size mem1) x \<noteq> 0 \<longleftrightarrow> has_bounds cf mem0 x"
      "vt_rank ?vt \<noteq> 0 \<Longrightarrow> array_bounds (memcpy_words (d + 8) (x + 8) ?size mem1) x = mem0 (x + 16)"
    proof -
      have *: "array_bounds (memcpy_words (d + 8) (x + 8) ?size mem1) x = mem0 (x + 16)" if "vt_rank ?vt \<noteq> 0"
      proof -
        have "x + of_nat 16 \<in> ?W" using od(7) that by (intro object_wordI) (auto simp: word_le_nat_alt)
        then show ?thesis using cp [of "x + 16"] Wd [of "x + 16"] m1 [of "x + 16"] by (simp add: array_bounds_def)
      qed
      then show "vt_rank ?vt \<noteq> 0 \<and> array_bounds (memcpy_words (d + 8) (x + 8) ?size mem1) x \<noteq> 0 \<longleftrightarrow> has_bounds cf mem0 x"
        by (auto simp: has_bounds_def array_bounds_def)
      show "vt_rank ?vt \<noteq> 0 \<Longrightarrow> array_bounds (memcpy_words (d + 8) (x + 8) ?size mem1) x = mem0 (x + 16)" by (rule *)
    qed
    have mem2: "?mem2 = (if has_bounds cf mem0 x then (memcpy_words (d + 8) (x + 8) ?size mem1)(d + 16 := d + (mem0 (x + 16) - x))
        else memcpy_words (d + 8) (x + 8) ?size mem1)"
      using nb by (auto simp: par_copy_object_no_checks_def sgen_client_update_copied_object_def has_bounds_def)
    have d16: "d + 16 \<in> object_words cf mem0 x d" if "has_bounds cf mem0 x"
      using object_wordI [where k = 16 and cf = cf and mem = mem0 and x = x and p = d] bounds16 [OF that] by (simp add: word_le_nat_alt)
    have eq: "d + of_nat k = d + 16 \<longleftrightarrow> k = 16" if "k < unat ?size" for k
      using small_offset_eq [of k 16 d] that object_size_small [OF ok] by simp
    have inside: "?mem (d + of_nat k) = raw_word cf mem0 x d k" if k: "8 dvd k" "8 \<le> k" "k < unat ?size" for k
    proof -
      have "d + of_nat k \<noteq> x" using Wd [OF start] object_wordI [OF k(3,1), of d] by auto
      moreover have "memcpy_words (d + 8) (x + 8) ?size mem1 (d + of_nat k) = mem0 (x + of_nat k)"
        using memcpy_words_in [OF od(3,4) k] m1 [OF object_wordI [OF k(3,1)]] by simp
      ultimately show ?thesis using eq [OF k(3)] by (auto simp: mem2 raw_word_def)
    qed
    have out: "?mem a = mem1 a" if "a \<notin> object_words cf mem0 x d" "a \<noteq> x" for a
      using that cp [of a] d16 by (auto simp: mem2)
    have d0: "d + 16 \<noteq> d" using small_offset_eq [of 16 0 d] by simp
    have head: "?mem d = mem0 x" using dx cp [of d] dn(2) d0 by (auto simp: mem2)
    let ?L = "L(x \<mapsto> d)"
    have "object_words cf mem0 x d \<inter> R = {}" "\<forall>a\<in>object_words cf mem0 x d. \<not> sgen_ptr_in_nursery cf a"
      "\<forall>y\<in>N. object_words cf mem0 x d \<inter> object_words cf mem0 y y = {}"
      using dn(3) heap_invD(6,7) [OF h] hp_outside [OF hp] by blast+
    then have hd: "header_ok cf mem0 N R ?L F1 ?mem x"
      using dx False dn(1,4) hx(1) head by (simp add: header_ok_def)
    have heap: "heap_inv cf mem0 N R ?L (T \<union> slots_at cf mem0 x d) F1 ?mem"
    proof (rule settle [OF n h x al(3) _ _ hd inside])
      show "?mem a = gc_mem st a" if "a \<notin> F" "a \<noteq> x" for a
      proof -
        have aw: "a \<notin> object_words cf mem0 x d" using dn(3) that(1) by blast
        show ?thesis by (rule HOL.trans [OF out [OF aw that(2)] al(4) [OF that(1)]])
      qed
    qed (use dn(3) in blast)
    have hp1: "hp_ok h1 ?mem F1" using al(2)
      by (rule hp_frame, intro out) (use dn(4) outside [OF WF [OF start]] in blast)+
    have fw: "SGEN_FORWARD_OBJECT x d ?mem2 = ?mem" by (simp add: SGEN_FORWARD_OBJECT_def SGEN_POINTER_TAG_FORWARDED_def)
    let ?st2 = "?st1\<lparr>gc_mem := ?mem\<rparr>"
    have g2: "gray_holds ?st2 xs" using g by (simp add: gray_holds_def)
    obtain st3 xs' where st3: "(if ?refs then GRAY_OBJECT_ENQUEUE_SERIAL d (vt_gc_descr ?vt) ?st2 else Some ?st2) = Some st3"
      "gray_holds st3 xs'" "xs' = (if ?refs then \<lparr>ge_obj = d, ge_desc = vt_gc_descr ?vt\<rparr> # xs else xs)"
      "gc_mem st3 = ?mem" "gc_major st3 = h1" "gc_pin st3 = gc_pin st" "gc_remset st3 = gc_remset st"
    proof (cases ?refs)
      case True
      from gray_enqueue_ok [OF g2, of d "vt_gc_descr ?vt"] obtain q gs where
        "GRAY_OBJECT_ENQUEUE_SERIAL d (vt_gc_descr ?vt) ?st2 = Some (?st2\<lparr>gc_queue := q, gc_store := gs\<rparr>)"
        "gray_holds (?st2\<lparr>gc_queue := q, gc_store := gs\<rparr>) (\<lparr>ge_obj = d, ge_desc = vt_gc_descr ?vt\<rparr> # xs)" by blast
      then show thesis using True
        by (intro that [of "?st2\<lparr>gc_queue := q, gc_store := gs\<rparr>" "\<lparr>ge_obj = d, ge_desc = vt_gc_descr ?vt\<rparr> # xs"]) simp_all
    qed (use g2 in \<open>intro that [of ?st2 xs], auto\<close>)
    have "covered cf mem0 ?L (T \<union> slots_at cf mem0 x d) X xs'"
      by (rule covered_upd [OF cov x(2)]) (use od(6) st3(3) in \<open>auto simp: slots_at_def\<close>)
    moreover have "remset_inv cf mem0 RO ?L (T \<union> slots_at cf mem0 x d) st3"
      by (rule remset_inv_upd [OF rem _ _ h n RO x(1,2)]) (simp_all add: st3)
    moreover have "entry_ok cf mem0 ?L \<lparr>ge_obj = d, ge_desc = vt_gc_descr ?vt\<rparr>"
      using False unfolding entry_ok_def by (intro conjI exI [of _ x]) simp_all
    then have "\<forall>e\<in>set xs'. entry_ok cf mem0 ?L e"
      using ent entry_ok_upd [where L = L and x = x, OF _ x(2)] st3(3) by (simp del: fun_upd_apply) blast
    ultimately have "minor_inv cf hp_ok mem0 N R RO ?L (T \<union> slots_at cf mem0 x d) X xs' F1 st3"
      using heap hp1 st3 pins by (simp add: minor_inv_def)
    moreover have "copy_object_no_checks cf x st = Some (d, st3)" using False st3(1) by (cases ?refs) (simp_all add: copy fw)
    moreover have "length xs' \<le> Suc (length xs)" by (simp add: st3(3))
    ultimately show ?thesis by blast
  qed
qed

end

section \<open>Visiting a slot\<close>

lemma tag_bits:
  "(w :: u64) AND 7 \<in> {0, 2, 6} \<Longrightarrow> w AND 1 = 0" "w AND 7 = 0 \<Longrightarrow> w AND 2 = 0" "(w OR 2) AND 1 = w AND 1"
  "(w OR 2) AND 2 \<noteq> 0" "(w OR 2) AND 4 = w AND 4" "(w OR 1) AND 1 \<noteq> 0"
  "w AND 7 \<in> {0, 2, 6} \<Longrightarrow> w AND 2 = 0 \<Longrightarrow> w AND 7 = 0"
proof -
  have "w AND 1 = (w AND 7) AND 1" "w AND 2 = (w AND 7) AND 2" by (simp_all add: and.assoc)
  then show "w AND 7 \<in> {0, 2, 6} \<Longrightarrow> w AND 1 = 0" "w AND 7 = 0 \<Longrightarrow> w AND 2 = 0"
    "w AND 7 \<in> {0, 2, 6} \<Longrightarrow> w AND 2 = 0 \<Longrightarrow> w AND 7 = 0" by auto
qed (simp_all add: bit.conj_disj_distrib2)

lemma forwarded_value:
  "w AND 1 = 0 \<Longrightarrow> SGEN_VTABLE_IS_FORWARDED w = 0" "p AND 7 = 0 \<Longrightarrow> SGEN_VTABLE_IS_FORWARDED (p OR 1) = p"
  by (simp_all add: SGEN_VTABLE_IS_FORWARDED_def SGEN_POINTER_IS_TAGGED_FORWARDED_def untag_or untag_id tag_bits(1-6))

lemma slot_at_mono: "slot_at cf mem0 R L a v \<Longrightarrow> L \<subseteq>\<^sub>m L' \<Longrightarrow> slot_at cf mem0 R L' a v"
  unfolding slot_at_def map_le_def by (metis domI)

definition todo :: "u64 set \<Rightarrow> (u64 \<Rightarrow> u64 option) \<Rightarrow> nat" where
  "todo N L = 2 * card (N - dom L)"

lemma todo_upd: "finite N \<Longrightarrow> x \<in> N \<Longrightarrow> L x = None \<Longrightarrow> todo N (L(x \<mapsto> p)) + 2 = todo N L"
proof -
  assume a: "finite N" "x \<in> N" "L x = None"
  then have "N - dom (L(x \<mapsto> p)) = (N - dom L) - {x}" "x \<in> N - dom L" by auto
  then show ?thesis using a(1) card_Suc_Diff1 [of "N - dom L" x] by (simp add: todo_def)
qed

context promotion_heap
begin

lemma visit_slot:
  assumes n: "nursery_ok cf mem0 N R" and RO: "RO \<subseteq> R" and inv: "minor_inv cf hp_ok mem0 N R RO L T (insert a X) xs F st"
    and a: "slot_at cf mem0 R L a v" and r: "resolved N L v"
    and rem: "slot_at cf mem0 RO L a v \<Longrightarrow> \<not> sgen_ptr_in_nursery cf a \<Longrightarrow> L v = Some v \<Longrightarrow> remembered mem0 st a v"
  shows "minor_inv cf hp_ok mem0 N R RO L (T - {a}) X xs F (st\<lparr>gc_mem := (gc_mem st)(a := now_at L v)\<rparr>)"
proof -
  have h: "heap_inv cf mem0 N R L T F (gc_mem st)" and i: "hp_ok (gc_major st) (gc_mem st) F"
    "gray_holds st xs" "\<forall>e\<in>set xs. entry_ok cf mem0 L e" "covered cf mem0 L T (insert a X) xs" "pins_ok (gc_pin st)"
    "remset_inv cf mem0 RO L T st" using inv by (simp_all add: minor_inv_def)
  have "hp_ok (gc_major st) ((gc_mem st)(a := now_at L v)) F"
    using i(1) by (rule hp_frame) (use slot_apart(4) [OF n h a] in auto)
  moreover have "gray_holds (st\<lparr>gc_mem := (gc_mem st)(a := now_at L v)\<rparr>) xs" using i(2) by (simp add: gray_holds_def)
  moreover have "covered cf mem0 L (T - {a}) X xs" using i(4) unfolding covered_def by blast
  moreover have "remset_inv cf mem0 RO L (T - {a}) (st\<lparr>gc_mem := (gc_mem st)(a := now_at L v)\<rparr>)"
    unfolding remset_inv_def
  proof (intro allI impI)
    fix b w assume b: "slot_at cf mem0 RO L b w" "b \<notin> T - {a}" "\<not> sgen_ptr_in_nursery cf b" "L w = Some w"
    have "remembered mem0 st b w"
    proof (cases "b \<in> T")
      case True
      then have ba: "b = a" using b(2) by simp
      have "slot_at cf mem0 R L b w" using b(1) RO unfolding slot_at_def by blast
      then have "w = v" using slot_value(1) [OF n h] a True ba by metis
      then show ?thesis using rem b ba by simp
    qed (use i(6) b in \<open>auto simp: remset_inv_def\<close>)
    then show "remembered mem0 (st\<lparr>gc_mem := (gc_mem st)(a := now_at L v)\<rparr>) b w" by (simp add: remembered_def)
  qed
  ultimately show ?thesis using slot_update [OF n h a r] i(3,5) by (simp add: minor_inv_def)
qed

lemma visit_same:
  assumes n: "nursery_ok cf mem0 N R" and RO: "RO \<subseteq> R" and inv: "minor_inv cf hp_ok mem0 N R RO L T (insert a X) xs F st"
    and a: "slot_at cf mem0 R L a v" and r: "resolved N L v" and same: "gc_mem st a = now_at L v"
    and rem: "slot_at cf mem0 RO L a v \<Longrightarrow> \<not> sgen_ptr_in_nursery cf a \<Longrightarrow> L v = Some v \<Longrightarrow> remembered mem0 st a v"
  shows "minor_inv cf hp_ok mem0 N R RO L (T - {a}) X xs F st"
proof -
  have upd: "(gc_mem st)(a := now_at L v) = gc_mem st" by (rule fun_upd_idem) (rule same)
  have "minor_inv cf hp_ok mem0 N R RO L (T - {a}) X xs F (st\<lparr>gc_mem := gc_mem st\<rparr>)"
    using visit_slot [OF n RO inv a r rem] unfolding upd .
  then show ?thesis by simp
qed

lemma add_remset_ok:
  assumes n: "nursery_ok cf mem0 N R" and inv: "minor_inv cf hp_ok mem0 N R RO L T X xs F st" and v: "L v = Some v"
  shows "\<exists>st'. sgen_add_to_global_remset cf a v st = Some st' \<and> minor_inv cf hp_ok mem0 N R RO L T X xs F st' \<and>
    gc_mem st' = gc_mem st \<and> remembered mem0 st' a v"
proof -
  have h: "heap_inv cf mem0 N R L T F (gc_mem st)" and pins: "pins_ok (gc_pin st)" and rem: "remset_inv cf mem0 RO L T st"
    using inv by (simp_all add: minor_inv_def)
  have vN: "v \<in> N" using heap_invD(10) [OF h v] .
  note ok = object_in_nursery [OF nursery_okD(3) [OF n vN]]
  have "gc_mem st v = mem0 v OR 2" using header_okD(3) [OF heap_invD(2) [OF h vN] v] .
  then have p: "SGEN_OBJECT_IS_PINNED (gc_mem st) v"
    by (simp add: SGEN_OBJECT_IS_PINNED_def SGEN_POINTER_IS_TAGGED_PINNED_def tag_bits(1-6))
  have v0: "v \<noteq> 0" using ok nursery_okD(2) [OF n] by auto
  obtain c pin where c: "sgen_cement_lookup_or_register v (gc_pin st) = (c, pin)" by fastforce
  note l = lookup_or_register_ok [OF pins v0 c]
  let ?st = "if c then st\<lparr>gc_pin := pin\<rparr> else st\<lparr>gc_pin := pin, gc_remset := gc_remset st @ [a]\<rparr>"
  have "sgen_add_to_global_remset cf a v st = Some ?st" using ok p c by (simp add: sgen_add_to_global_remset_def)
  moreover have "remembered mem0 ?st a v" using l(2) by (simp add: remembered_def)
  moreover have "remset_inv cf mem0 RO L T ?st" using rem l(3) unfolding remset_inv_def remembered_def by auto
  then have "minor_inv cf hp_ok mem0 N R RO L T X xs F ?st" using inv l(1) by (simp add: minor_inv_def gray_holds_def)
  ultimately show ?thesis by (intro exI [of _ ?st]) simp
qed

text \<open>What a slot that holds a reference to \<open>v\<close> sees of it.\<close>

lemma slot_cases:
  assumes n: "nursery_ok cf mem0 N R" and inv: "minor_inv cf hp_ok mem0 N R RO L T X xs F st" and a: "slot_at cf mem0 R L a v"
  obtains
    (outside) "v \<notin> N" "L v = None" "gc_mem st a = v" "now_at L v = v" "v = 0 \<or> \<not> sgen_ptr_in_nursery cf v"
  | (moved) p where "v \<in> N" "v \<noteq> 0" "L v = Some p" "gc_mem st a = p" "\<not> sgen_ptr_in_nursery cf p" "p \<noteq> v"
  | (forward) p where "v \<in> N" "v \<noteq> 0" "L v = Some p" "gc_mem st a = v" "sgen_ptr_in_nursery cf v"
      "SGEN_VTABLE_IS_FORWARDED (gc_mem st v) = p" "p \<noteq> 0" "p \<noteq> v"
  | (pinned) "v \<in> N" "v \<noteq> 0" "L v = Some v" "gc_mem st a = v" "sgen_ptr_in_nursery cf v"
      "SGEN_VTABLE_IS_FORWARDED (gc_mem st v) = 0" "SGEN_OBJECT_IS_PINNED (gc_mem st) v"
      "SGEN_OBJECT_IS_CEMENTED (gc_mem st) v = SGEN_OBJECT_IS_CEMENTED mem0 v"
  | (fresh) "v \<in> N" "v \<noteq> 0" "L v = None" "gc_mem st a = v" "sgen_ptr_in_nursery cf v" "a \<in> T" "live_obj cf mem0 N R v"
      "SGEN_VTABLE_IS_FORWARDED (gc_mem st v) = 0" "\<not> SGEN_OBJECT_IS_PINNED (gc_mem st) v"
proof -
  have h: "heap_inv cf mem0 N R L T F (gc_mem st)" using inv by (simp add: minor_inv_def)
  note val = slot_value [OF n h a]
  show thesis
  proof (cases "v \<in> N")
    case False
    then have "L v = None" using heap_invD(1) [OF h] by auto
    moreover from this have "now_at L v = v" by (simp add: now_at_def)
    ultimately show thesis using False val by (intro outside) (auto simp: good_ref_def)
  next
    case True
    note ok = object_in_nursery [OF nursery_okD(3) [OF n True]] object_okD(2) [OF nursery_okD(3) [OF n True]]
    note hd = header_okD [OF heap_invD(2) [OF h True]]
    have v0: "v \<noteq> 0" using ok(1) nursery_okD(2) [OF n] by auto
    show thesis
    proof (cases "L v")
      case None
      have m: "gc_mem st v = mem0 v" "mem0 v AND 7 = 0"
        using hd(1,2) None object_start [OF nursery_okD(3) [OF n True]] by auto
      have "a \<in> T" using val(2) None True by (auto simp: resolved_def)
      then show thesis using True v0 None val(1,4) ok(1) m
        by (intro fresh) (auto simp: SGEN_OBJECT_IS_PINNED_def SGEN_POINTER_IS_TAGGED_PINNED_def forwarded_value tag_bits(1-6))
    next
      case (Some p)
      have now: "now_at L v = p" using Some by (simp add: now_at_def)
      show thesis
      proof (cases "p = v")
        case True
        have m: "gc_mem st v = mem0 v OR 2" using hd(3) Some True by simp
        have "gc_mem st a = v" using val(1,2) now True by metis
        then show thesis using \<open>v \<in> N\<close> v0 Some True ok(1,2) m
          by (intro pinned) (auto simp: SGEN_OBJECT_IS_PINNED_def SGEN_POINTER_IS_TAGGED_PINNED_def
              SGEN_OBJECT_IS_CEMENTED_def SGEN_POINTER_IS_TAGGED_CEMENTED_def forwarded_value tag_bits(1-6))
      next
        case False
        note m = hd(4) [OF Some False]
        have "\<not> sgen_ptr_in_nursery cf p"
          using hd(5) [OF Some False object_start [OF nursery_okD(3) [OF n \<open>v \<in> N\<close>]]] by simp
        then show thesis using \<open>v \<in> N\<close> v0 Some False ok(1) m val(1,2) now
          by (cases "a \<in> T") (auto intro: moved forward simp: forwarded_value)
      qed
    qed
  qed
qed

lemma from_obj_ok:
  assumes n: "nursery_ok cf mem0 N R" and RO: "RO \<subseteq> R" and inv: "minor_inv cf hp_ok mem0 N R RO L T (insert a X) xs F st"
    and a: "slot_at cf mem0 R L a v"
  shows "\<exists>L' T' xs' F' st'. HANDLE_PTR cf a st = Some st' \<and> L \<subseteq>\<^sub>m L' \<and> todo N L' + length xs' \<le> todo N L + length xs \<and>
    minor_inv cf hp_ok mem0 N R RO L' T' X xs' F' st'"
  using n inv a
proof (cases rule: slot_cases)
  case outside
  then have "minor_inv cf hp_ok mem0 N R RO L (T - {a}) X xs F st"
    by (intro visit_same [OF n RO inv a]) (auto simp: resolved_def)
  then show ?thesis using outside
    by (intro exI [of _ L] exI [of _ "T - {a}"] exI [of _ xs] exI [of _ F] exI [of _ st])
      (auto simp: HANDLE_PTR_def simple_nursery_serial_copy_object_from_obj_def)
next
  case (moved p)
  then have "minor_inv cf hp_ok mem0 N R RO L (T - {a}) X xs F st"
    by (intro visit_same [OF n RO inv a]) (auto simp: resolved_def now_at_def)
  then show ?thesis using moved
    by (intro exI [of _ L] exI [of _ "T - {a}"] exI [of _ xs] exI [of _ F] exI [of _ st])
      (auto simp: HANDLE_PTR_def simple_nursery_serial_copy_object_from_obj_def)
next
  case (forward p)
  then have "minor_inv cf hp_ok mem0 N R RO L (T - {a}) X xs F (st\<lparr>gc_mem := (gc_mem st)(a := now_at L v)\<rparr>)"
    by (intro visit_slot [OF n RO inv a]) (auto simp: resolved_def)
  then show ?thesis using forward
    by (intro exI [of _ L] exI [of _ "T - {a}"] exI [of _ xs] exI [of _ F] exI [of _ "st\<lparr>gc_mem := (gc_mem st)(a := now_at L v)\<rparr>"])
      (auto simp: HANDLE_PTR_def simple_nursery_serial_copy_object_from_obj_def SGEN_UPDATE_REFERENCE_def now_at_def)
next
  case pinned
  let ?rem = "\<not> sgen_ptr_in_nursery cf a \<and> \<not> SGEN_OBJECT_IS_CEMENTED (gc_mem st) v"
  obtain st' where st': "(if ?rem then sgen_add_to_global_remset cf a v st else Some st) = Some st'"
    "minor_inv cf hp_ok mem0 N R RO L T (insert a X) xs F st'" "gc_mem st' = gc_mem st"
    "\<not> sgen_ptr_in_nursery cf a \<longrightarrow> remembered mem0 st' a v"
    using add_remset_ok [OF n inv pinned(3), of a] inv pinned(8) by (cases ?rem) (auto simp: remembered_def)
  have "minor_inv cf hp_ok mem0 N R RO L (T - {a}) X xs F st'"
    using pinned st'(3,4) by (intro visit_same [OF n RO st'(2) a]) (auto simp: resolved_def now_at_def)
  moreover have "HANDLE_PTR cf a st = Some st'"
    using pinned st'(1) by (simp add: HANDLE_PTR_def simple_nursery_serial_copy_object_from_obj_def split: if_splits)
  ultimately show ?thesis using map_le_refl [of L] by blast
next
  case fresh
  obtain p st1 F1 xs1 where c: "copy_object_no_checks cf v st = Some (p, st1)" "length xs1 \<le> Suc (length xs)"
    "minor_inv cf hp_ok mem0 N R RO (L(v \<mapsto> p)) (T \<union> slots_at cf mem0 v p) (insert a X) xs1 F1 st1"
    using copy_ok [OF n RO inv fresh(1,3,7)] by blast
  let ?L = "L(v \<mapsto> p)" and ?T = "T \<union> slots_at cf mem0 v p"
  have sub: "L \<subseteq>\<^sub>m ?L" using fresh(3) by (auto simp: map_le_def)
  have a': "slot_at cf mem0 R ?L a v" by (rule slot_at_mono [OF a sub])
  have le: "todo N ?L + length xs1 \<le> todo N L + length xs"
    using todo_upd [where L = L and p = p, OF nursery_okD(1) [OF n] fresh(1,3)] c(2) by simp
  have res: "resolved N ?L v" "now_at ?L v = p" by (simp_all add: resolved_def now_at_def)
  have start: "HANDLE_PTR cf a st =
    (if v = p \<and> sgen_ptr_in_nursery cf p \<and> \<not> sgen_ptr_in_nursery cf a \<and> \<not> SGEN_OBJECT_IS_CEMENTED (gc_mem (SGEN_UPDATE_REFERENCE a p st1)) p
     then sgen_add_to_global_remset cf a p (SGEN_UPDATE_REFERENCE a p st1) else Some (SGEN_UPDATE_REFERENCE a p st1))"
    using fresh c(1) by (simp add: HANDLE_PTR_def simple_nursery_serial_copy_object_from_obj_def Let_def)
  show ?thesis
  proof (cases "p = v")
    case False
    then have "minor_inv cf hp_ok mem0 N R RO ?L (?T - {a}) X xs1 F1 (st1\<lparr>gc_mem := (gc_mem st1)(a := now_at ?L v)\<rparr>)"
      by (intro visit_slot [OF n RO c(3) a' res(1)]) auto
    then show ?thesis using start le sub False res(2) unfolding SGEN_UPDATE_REFERENCE_def by auto
  next
    case True
    have h1: "heap_inv cf mem0 N R ?L ?T F1 (gc_mem st1)" using c(3) by (simp add: minor_inv_def)
    have av: "gc_mem st1 a = v" using slot_value(1) [OF n h1 a'] fresh(6) by simp
    then have "(gc_mem st1)(a := v) = gc_mem st1" by (rule fun_upd_idem)
    then have upd: "SGEN_UPDATE_REFERENCE a v st1 = st1" by (simp add: SGEN_UPDATE_REFERENCE_def)
    have pv: "?L v = Some v" using True by simp
    have "gc_mem st1 v = mem0 v OR 2" using header_okD(3) [OF heap_invD(2) [OF h1 fresh(1)] pv] .
    then have cem: "SGEN_OBJECT_IS_CEMENTED (gc_mem st1) v = SGEN_OBJECT_IS_CEMENTED mem0 v"
      by (simp add: SGEN_OBJECT_IS_CEMENTED_def SGEN_POINTER_IS_TAGGED_CEMENTED_def tag_bits(1-6))
    let ?rem = "\<not> sgen_ptr_in_nursery cf a \<and> \<not> SGEN_OBJECT_IS_CEMENTED (gc_mem st1) v"
    obtain st' where st': "(if ?rem then sgen_add_to_global_remset cf a v st1 else Some st1) = Some st'"
      "minor_inv cf hp_ok mem0 N R RO ?L ?T (insert a X) xs1 F1 st'" "gc_mem st' = gc_mem st1"
      "\<not> sgen_ptr_in_nursery cf a \<longrightarrow> remembered mem0 st' a v"
      using add_remset_ok [OF n c(3) pv, of a] c(3) cem by (cases ?rem) (auto simp: remembered_def simp del: fun_upd_apply)
    have "minor_inv cf hp_ok mem0 N R RO ?L (?T - {a}) X xs1 F1 st'"
      using st'(3,4) av res True by (intro visit_same [OF n RO st'(2) a']) auto
    moreover have "HANDLE_PTR cf a st = (if ?rem then sgen_add_to_global_remset cf a v st1 else Some st1)"
      using start True fresh(5) by (simp add: upd)
    then have "HANDLE_PTR cf a st = Some st'" using st'(1) by simp
    ultimately show ?thesis using le sub True by blast
  qed
qed

lemma copy_root_ok:
  assumes n: "nursery_ok cf mem0 N R" and RO: "RO \<subseteq> R" and inv: "minor_inv cf hp_ok mem0 N R RO L T (insert a X) xs F st"
    and a: "a \<in> R" "a \<notin> RO"
  shows "\<exists>L' T' xs' F' st'. simple_nursery_serial_copy_object cf a st = Some st' \<and> L \<subseteq>\<^sub>m L' \<and>
    todo N L' + length xs' \<le> todo N L + length xs \<and> minor_inv cf hp_ok mem0 N R RO L' T' X xs' F' st'"
proof -
  have not_obj: "\<not> slot_at cf mem0 RO L' a w" if h: "heap_inv cf mem0 N R L' T' F' mem'" for L' T' F' mem' w
  proof
    assume "slot_at cf mem0 RO L' a w"
    then obtain x q k where x: "L' x = Some q" "k \<in> set (object_slots cf mem0 x)" "a = q + of_nat k"
      using a(2) unfolding slot_at_def by blast
    note k = object_slotsD(3,1) [OF nursery_okD(3) [OF n heap_invD(10) [OF h x(1)]] x(2)]
    show False using settled_words(2) [OF n h x(1) object_wordI [OF k]] x(3) a(1) by simp
  qed
  have h: "heap_inv cf mem0 N R L T F (gc_mem st)" using inv by (simp add: minor_inv_def)
  have s: "slot_at cf mem0 R L a (mem0 a)" using a(1) by (simp add: slot_at_def)
  show ?thesis using n inv s
  proof (cases rule: slot_cases)
    case outside
    then have "minor_inv cf hp_ok mem0 N R RO L (T - {a}) X xs F st"
      using not_obj [OF h] by (intro visit_same [OF n RO inv s]) (auto simp: resolved_def)
    then show ?thesis using outside nursery_okD(2) [OF n]
      by (intro exI [of _ L] exI [of _ "T - {a}"] exI [of _ xs] exI [of _ F] exI [of _ st])
        (auto simp: simple_nursery_serial_copy_object_def)
  next
    case (moved p)
    then have "minor_inv cf hp_ok mem0 N R RO L (T - {a}) X xs F st"
      using not_obj [OF h] by (intro visit_same [OF n RO inv s]) (auto simp: resolved_def now_at_def)
    then show ?thesis using moved
      by (intro exI [of _ L] exI [of _ "T - {a}"] exI [of _ xs] exI [of _ F] exI [of _ st])
        (auto simp: simple_nursery_serial_copy_object_def)
  next
    case (forward p)
    then have "minor_inv cf hp_ok mem0 N R RO L (T - {a}) X xs F (st\<lparr>gc_mem := (gc_mem st)(a := now_at L (mem0 a))\<rparr>)"
      using not_obj [OF h] by (intro visit_slot [OF n RO inv s]) (auto simp: resolved_def)
    then show ?thesis using forward
      by (intro exI [of _ L] exI [of _ "T - {a}"] exI [of _ xs] exI [of _ F] exI [of _ "st\<lparr>gc_mem := (gc_mem st)(a := now_at L (mem0 a))\<rparr>"])
        (auto simp: simple_nursery_serial_copy_object_def SGEN_UPDATE_REFERENCE_def now_at_def)
  next
    case pinned
    then have "minor_inv cf hp_ok mem0 N R RO L (T - {a}) X xs F st"
      using not_obj [OF h] by (intro visit_same [OF n RO inv s]) (auto simp: resolved_def now_at_def)
    then show ?thesis using pinned
      by (intro exI [of _ L] exI [of _ "T - {a}"] exI [of _ xs] exI [of _ F] exI [of _ st])
        (auto simp: simple_nursery_serial_copy_object_def)
  next
    case fresh
    obtain p st1 F1 xs1 where c: "copy_object_no_checks cf (mem0 a) st = Some (p, st1)" "length xs1 \<le> Suc (length xs)"
      "minor_inv cf hp_ok mem0 N R RO (L(mem0 a \<mapsto> p)) (T \<union> slots_at cf mem0 (mem0 a) p) (insert a X) xs1 F1 st1"
      using copy_ok [OF n RO inv fresh(1,3,7)] by blast
    let ?L = "L(mem0 a \<mapsto> p)" and ?T = "T \<union> slots_at cf mem0 (mem0 a) p"
    have sub: "L \<subseteq>\<^sub>m ?L" using fresh(3) by (auto simp: map_le_def)
    have h1: "heap_inv cf mem0 N R ?L ?T F1 (gc_mem st1)" using c(3) by (simp add: minor_inv_def)
    have le: "todo N ?L + length xs1 \<le> todo N L + length xs"
      using todo_upd [where L = L and p = p, OF nursery_okD(1) [OF n] fresh(1,3)] c(2) by simp
    have "minor_inv cf hp_ok mem0 N R RO ?L (?T - {a}) X xs1 F1 (st1\<lparr>gc_mem := (gc_mem st1)(a := now_at ?L (mem0 a))\<rparr>)"
      using not_obj [OF h1] by (intro visit_slot [OF n RO c(3) slot_at_mono [OF s sub]]) (auto simp: resolved_def)
    moreover have "now_at ?L (mem0 a) = p" by (simp add: now_at_def)
    moreover have "simple_nursery_serial_copy_object cf a st = Some (SGEN_UPDATE_REFERENCE a p st1)"
      using fresh c(1) by (simp add: simple_nursery_serial_copy_object_def Let_def)
    ultimately show ?thesis using le sub unfolding SGEN_UPDATE_REFERENCE_def by auto
  qed
qed

end

section \<open>Scanning objects and draining the gray stack\<close>

lemma slot_offsets_len: "\<not> is_array_descr desc \<Longrightarrow> slot_offsets array vt desc l = slot_offsets array vt desc l'"
  by (simp add: slot_offsets_def scan_object_def is_array_descr_def Let_def)

lemma slot_offsets_array: "is_array_descr desc \<Longrightarrow> slot_offsets array vt desc l = Some offs \<Longrightarrow> k \<in> set offs \<Longrightarrow> 32 \<le> k"
  by (auto simp: slot_offsets_def scan_object_def is_array_descr_def Let_def MONO_SIZEOF_MONO_ARRAY_def
      DESC_TYPE_VECTOR_def DESC_TYPE_RUN_LENGTH_def DESC_TYPE_BITMAP_def DESC_TYPE_COMPLEX_def DESC_TYPE_COMPLEX_ARR_def
      split: option.splits)

context promotion_heap
begin

lemma handle_ptrs_ok:
  assumes n: "nursery_ok cf mem0 N R" and RO: "RO \<subseteq> R"
  shows "minor_inv cf hp_ok mem0 N R RO L T (set as \<union> X) xs F st \<Longrightarrow> \<forall>a\<in>set as. \<exists>v. slot_at cf mem0 R L a v \<Longrightarrow>
    \<exists>L' T' xs' F' st'. handle_ptrs cf as st = Some st' \<and> L \<subseteq>\<^sub>m L' \<and> todo N L' + length xs' \<le> todo N L + length xs \<and>
      minor_inv cf hp_ok mem0 N R RO L' T' X xs' F' st'"
proof (induction as arbitrary: L T xs F st)
  case Nil
  then show ?case using map_le_refl [of L] by fastforce
next
  case (Cons a as)
  obtain v where v: "slot_at cf mem0 R L a v" using Cons.prems(2) by auto
  have "minor_inv cf hp_ok mem0 N R RO L T (insert a (set as \<union> X)) xs F st" using Cons.prems(1) by simp
  from from_obj_ok [OF n RO this v] obtain L1 T1 xs1 F1 st1 where 1: "HANDLE_PTR cf a st = Some st1" "L \<subseteq>\<^sub>m L1"
    "todo N L1 + length xs1 \<le> todo N L + length xs" "minor_inv cf hp_ok mem0 N R RO L1 T1 (set as \<union> X) xs1 F1 st1" by blast
  have "\<forall>b\<in>set as. \<exists>w. slot_at cf mem0 R L1 b w" using Cons.prems(2) slot_at_mono [OF _ 1(2)] by (meson list.set_intros(2))
  from Cons.IH [OF 1(4) this] obtain L2 T2 xs2 F2 st2 where 2: "handle_ptrs cf as st1 = Some st2" "L1 \<subseteq>\<^sub>m L2"
    "todo N L2 + length xs2 \<le> todo N L1 + length xs1" "minor_inv cf hp_ok mem0 N R RO L2 T2 X xs2 F2 st2" by blast
  have "handle_ptrs cf (a # as) st = Some st2" using 1(1) 2(1) by simp
  then show ?case using 2 1(3) map_le_trans [OF 1(2)] le_trans [OF 2(3) 1(3)] by blast
qed

lemma scan_object_ok:
  assumes n: "nursery_ok cf mem0 N R" and RO: "RO \<subseteq> R"
    and inv: "minor_inv cf hp_ok mem0 N R RO L T (slots_at cf mem0 x p \<union> X) xs F st" and x: "L x = Some p"
  shows "\<exists>L' T' xs' F' st'. simple_nursery_serial_scan_object cf p (vt_gc_descr (object_info cf mem0 x)) st = Some st' \<and>
    L \<subseteq>\<^sub>m L' \<and> todo N L' + length xs' \<le> todo N L + length xs \<and> minor_inv cf hp_ok mem0 N R RO L' T' X xs' F' st'"
proof -
  have h: "heap_inv cf mem0 N R L T F (gc_mem st)" using inv by (simp add: minor_inv_def)
  have xN: "x \<in> N" using heap_invD(10) [OF h x] .
  note ok = nursery_okD(3) [OF n xN]
  note hd = header_okD(3,4) [OF heap_invD(2) [OF h xN]]
  let ?vt = "object_info cf mem0 x" and ?desc = "vt_gc_descr (object_info cf mem0 x)"
  have "SGEN_LOAD_VTABLE (gc_mem st) p = SGEN_LOAD_VTABLE mem0 x"
    using hd x by (cases "p = x") (auto simp: SGEN_LOAD_VTABLE_def untag_or)
  then have vt: "cf_vtable cf (SGEN_LOAD_VTABLE (gc_mem st) p) = ?vt" by (simp add: object_info_def)
  have offs: "slot_offsets (cf_complex_descriptors cf) ?vt ?desc (mono_array_length (gc_mem st) p) = Some (object_slots cf mem0 x)"
  proof (cases "is_array_descr ?desc")
    case True
    have s: "24 < unat (object_size cf mem0 x)" using object_okD(7) [OF ok] True by (simp add: word_le_nat_alt)
    have "24 \<notin> set (object_slots cf mem0 x)" using slot_offsets_array [OF True object_okD(5) [OF ok], of 24] by auto
    then have "gc_mem st (p + of_nat 24) = raw_word cf mem0 x p 24"
      using heap_invD(4) [OF h x, unfolded body_ok_def, rule_format, of 24] s by simp
    then have "mono_array_length (gc_mem st) p = mono_array_length mem0 x"
      by (simp add: mono_array_length_def raw_word_def)
    then show ?thesis using object_okD(5) [OF ok] by simp
  next
    case False
    then show ?thesis using object_okD(5) [OF ok] slot_offsets_len [OF False] by metis
  qed
  have "set (map (\<lambda>k. p + of_nat k) (object_slots cf mem0 x)) = slots_at cf mem0 x p" by (simp add: slots_at_def)
  moreover have "\<forall>a\<in>slots_at cf mem0 x p. \<exists>v. slot_at cf mem0 R L a v"
    using x unfolding slots_at_def slot_at_def by blast
  ultimately show ?thesis
    using handle_ptrs_ok [OF n RO, of L T "map (\<lambda>k. p + of_nat k) (object_slots cf mem0 x)" X xs F st] inv vt offs
    by (simp add: simple_nursery_serial_scan_object_def)
qed

lemma drain_ok:
  assumes n: "nursery_ok cf mem0 N R" and RO: "RO \<subseteq> R"
  shows "minor_inv cf hp_ok mem0 N R RO L T {} xs F st \<Longrightarrow>
    \<exists>L' F' st'. simple_nursery_serial_drain_gray_stack cf st = Some st' \<and> L \<subseteq>\<^sub>m L' \<and>
      minor_inv cf hp_ok mem0 N R RO L' {} {} [] F' st'"
proof (induction "todo N L + length xs" arbitrary: L T xs F st rule: less_induct)
  case less
  have g: "gray_holds st xs" using less.prems by (simp add: minor_inv_def)
  obtain q gs where deq: "GRAY_OBJECT_DEQUEUE False (gc_queue st) (gc_store st) = Some (case xs of [] \<Rightarrow> None | e # _ \<Rightarrow> Some e, q, gs)"
    "gray_holds (st\<lparr>gc_queue := q, gc_store := gs\<rparr>) (tl xs)" using gray_dequeue_ok [OF g] by blast
  let ?st = "st\<lparr>gc_queue := q, gc_store := gs\<rparr>"
  have rem: "remset_inv cf mem0 RO L T ?st" using less.prems by (simp add: minor_inv_def remset_inv_def remembered_def)
  show ?case
  proof (cases xs)
    case Nil
    then have "T = {}" using less.prems by (auto simp: minor_inv_def covered_def)
    then have "minor_inv cf hp_ok mem0 N R RO L {} {} [] F ?st" using less.prems Nil deq(2) rem by (simp add: minor_inv_def)
    moreover have "simple_nursery_serial_drain_gray_stack cf st = Some ?st"
      by (subst simple_nursery_serial_drain_gray_stack.simps) (simp add: deq(1) Nil)
    ultimately show ?thesis using map_le_refl [of L] by blast
  next
    case (Cons e ys)
    have "entry_ok cf mem0 L e" using less.prems Cons by (simp add: minor_inv_def)
    then obtain x where x: "L x = Some (ge_obj e)" "ge_desc e = vt_gc_descr (object_info cf mem0 x)" "ge_obj e \<noteq> 0"
      by (auto simp: entry_ok_def)
    have h: "heap_inv cf mem0 N R L T F (gc_mem st)" using less.prems by (simp add: minor_inv_def)
    have only: "y = x" if "L y = Some (ge_obj e)" for y
      using heap_invD(5) [OF h that x(1)] object_start [OF nursery_okD(3) [OF n heap_invD(10) [OF h that]]]
        object_start [OF nursery_okD(3) [OF n heap_invD(10) [OF h x(1)]]] by blast
    have "covered cf mem0 L T (slots_at cf mem0 x (ge_obj e) \<union> {}) ys"
      using less.prems Cons only unfolding minor_inv_def covered_def by fastforce
    then have "minor_inv cf hp_ok mem0 N R RO L T (slots_at cf mem0 x (ge_obj e) \<union> {}) ys F ?st"
      using less.prems Cons deq(2) rem by (simp add: minor_inv_def)
    from scan_object_ok [OF n RO this x(1)] obtain L1 T1 xs1 F1 st1 where
      1: "simple_nursery_serial_scan_object cf (ge_obj e) (ge_desc e) ?st = Some st1" "L \<subseteq>\<^sub>m L1"
        "todo N L1 + length xs1 \<le> todo N L + length ys" "minor_inv cf hp_ok mem0 N R RO L1 T1 {} xs1 F1 st1"
      unfolding x(2) by blast
    have "todo N L1 + length xs1 < todo N L + length xs" using 1(3) Cons by simp
    from less.hyps [OF this 1(4)] obtain L2 F2 st2 where
      2: "simple_nursery_serial_drain_gray_stack cf st1 = Some st2" "L1 \<subseteq>\<^sub>m L2" "minor_inv cf hp_ok mem0 N R RO L2 {} {} [] F2 st2" by blast
    have "simple_nursery_serial_drain_gray_stack cf st = Some st2"
      using 1(1) 2(1) x(3) by (subst simple_nursery_serial_drain_gray_stack.simps) (simp add: deq(1) Cons)
    then show ?thesis using 2 map_le_trans [OF 1(2)] by blast
  qed
qed

lemma scan_roots_ok:
  assumes n: "nursery_ok cf mem0 N R" and RO: "RO \<subseteq> R"
  shows "minor_inv cf hp_ok mem0 N R RO L T (fst ` set rs \<union> X) xs F st \<Longrightarrow> \<forall>(a, from_obj)\<in>set rs. a \<in> R \<and> (a \<in> RO \<longrightarrow> from_obj) \<Longrightarrow>
    \<exists>L' T' xs' F' st'. scan_roots cf rs st = Some st' \<and> L \<subseteq>\<^sub>m L' \<and> minor_inv cf hp_ok mem0 N R RO L' T' X xs' F' st'"
proof (induction rs arbitrary: L T xs F st)
  case Nil
  then show ?case using map_le_refl [of L] by fastforce
next
  case (Cons r rs)
  obtain a from_obj where r: "r = (a, from_obj)" by fastforce
  have a: "a \<in> R" "a \<in> RO \<longrightarrow> from_obj" using Cons.prems(2) r by auto
  have inv: "minor_inv cf hp_ok mem0 N R RO L T (insert a (fst ` set rs \<union> X)) xs F st" using Cons.prems(1) r by simp
  have s: "slot_at cf mem0 R L a (mem0 a)" using a(1) by (simp add: slot_at_def)
  let ?visit = "if from_obj then HANDLE_PTR cf a st else simple_nursery_serial_copy_object cf a st"
  obtain L1 T1 xs1 F1 st1 where 1: "?visit = Some st1" "L \<subseteq>\<^sub>m L1" "minor_inv cf hp_ok mem0 N R RO L1 T1 (fst ` set rs \<union> X) xs1 F1 st1"
    using from_obj_ok [OF n RO inv s] copy_root_ok [OF n RO inv a(1)] a(2) by (cases from_obj) auto
  have "(if gc_mem st a = 0 then Some st
         else if from_obj then simple_nursery_serial_scan_ptr_field cf a st
         else simple_nursery_serial_copy_object cf a st) = ?visit"
    using nursery_okD(2) [OF n]
    by (simp add: simple_nursery_serial_scan_ptr_field_def HANDLE_PTR_def simple_nursery_serial_copy_object_def)
  moreover obtain L2 T2 xs2 F2 st2 where
    2: "scan_roots cf rs st1 = Some st2" "L1 \<subseteq>\<^sub>m L2" "minor_inv cf hp_ok mem0 N R RO L2 T2 X xs2 F2 st2"
    using Cons.IH [OF 1(3)] Cons.prems(2) by auto
  ultimately have "scan_roots cf (r # rs) st = Some st2" using 1(1) r by simp
  then show ?case using 2 map_le_trans [OF 1(2)] by blast
qed

end

section \<open>A whole collection\<close>

text \<open>The state in which the roots are visited: the pinned objects are gray.\<close>

definition minor_start ::
    "'h minor_config \<Rightarrow> ('h \<Rightarrow> memory \<Rightarrow> u64 set \<Rightarrow> bool) \<Rightarrow> memory \<Rightarrow> u64 set \<Rightarrow> u64 set \<Rightarrow> 'h minor_state \<Rightarrow> bool" where
  "minor_start cf hp_ok mem0 N R st \<longleftrightarrow>
    nursery_ok cf mem0 N R \<and> gc_mem st = mem0 \<and> pins_ok (gc_pin st) \<and>
    (\<exists>F. hp_ok (gc_major st) mem0 F \<and> R \<inter> F = {}) \<and>
    (\<exists>xs. gray_holds st xs \<and>
      (\<forall>e\<in>set xs. ge_obj e \<in> N \<and> SGEN_OBJECT_IS_PINNED mem0 (ge_obj e) \<and>
        ge_desc e = vt_gc_descr (object_info cf mem0 (ge_obj e))) \<and>
      (\<forall>x\<in>N. SGEN_OBJECT_IS_PINNED mem0 x \<longrightarrow> (\<exists>e\<in>set xs. ge_obj e = x)))"

text \<open>
  The heap after the collection: \<open>L\<close> says where each live object is. Pinned objects stay, all
  others are outside the nursery; no two overlap; and every root slot and every word of a live
  object is what it was, with the references led to the new places.
\<close>

definition relocated :: "'h minor_config \<Rightarrow> memory \<Rightarrow> u64 set \<Rightarrow> u64 set \<Rightarrow> (u64 \<Rightarrow> u64 option) \<Rightarrow> memory \<Rightarrow> bool" where
  "relocated cf mem0 N R L mem \<longleftrightarrow>
    (\<forall>x. L x \<noteq> None \<longleftrightarrow> live_obj cf mem0 N R x) \<and>
    (\<forall>r\<in>R. mem r = now_at L (mem0 r)) \<and>
    (\<forall>x p. L x = Some p \<longrightarrow>
      (SGEN_OBJECT_IS_PINNED mem0 x \<longrightarrow> p = x) \<and>
      (p = x \<longrightarrow> SGEN_OBJECT_IS_PINNED mem x) \<and>
      (p \<noteq> x \<longrightarrow> (\<forall>a\<in>object_words cf mem0 x p. \<not> sgen_ptr_in_nursery cf a)) \<and>
      SGEN_LOAD_VTABLE mem p = SGEN_LOAD_VTABLE mem0 x \<and>
      (\<forall>k. 8 dvd k \<longrightarrow> 8 \<le> k \<longrightarrow> k < unat (object_size cf mem0 x) \<longrightarrow>
        mem (p + of_nat k) = (if k \<in> set (object_slots cf mem0 x) then now_at L (mem0 (x + of_nat k)) else raw_word cf mem0 x p k))) \<and>
    (\<forall>x y p q. L x = Some p \<longrightarrow> L y = Some q \<longrightarrow> x \<noteq> y \<longrightarrow> object_words cf mem0 x p \<inter> object_words cf mem0 y q = {})"

context promotion_heap
begin

lemma start_ok:
  assumes s: "minor_start cf hp_ok mem0 N R st" and RO: "RO \<subseteq> R"
  shows "\<exists>L T xs F. minor_inv cf hp_ok mem0 N R RO L T R xs F st \<and> (\<forall>x\<in>N. SGEN_OBJECT_IS_PINNED mem0 x \<longrightarrow> L x = Some x)"
proof -
  obtain F xs where n: "nursery_ok cf mem0 N R" and st: "gc_mem st = mem0" "pins_ok (gc_pin st)" "hp_ok (gc_major st) mem0 F"
    "R \<inter> F = {}" "gray_holds st xs"
    and xs: "\<And>e. e \<in> set xs \<Longrightarrow> ge_obj e \<in> N \<and> SGEN_OBJECT_IS_PINNED mem0 (ge_obj e) \<and>
        ge_desc e = vt_gc_descr (object_info cf mem0 (ge_obj e))"
      "\<And>x. x \<in> N \<Longrightarrow> SGEN_OBJECT_IS_PINNED mem0 x \<Longrightarrow> \<exists>e\<in>set xs. ge_obj e = x"
    using s unfolding minor_start_def by blast
  let ?L = "\<lambda>x. if x \<in> N \<and> SGEN_OBJECT_IS_PINNED mem0 x then Some x else None"
  let ?T = "R \<union> (\<Union>x\<in>{x\<in>N. SGEN_OBJECT_IS_PINNED mem0 x}. slots_at cf mem0 x x)"
  have L: "?L x = Some p \<longleftrightarrow> p = x \<and> x \<in> N \<and> SGEN_OBJECT_IS_PINNED mem0 x" for x p by auto
  have pin2: "mem0 x OR 2 = mem0 x" if "SGEN_OBJECT_IS_PINNED mem0 x" "x \<in> N" for x
  proof -
    have "mem0 x AND 7 = 2 \<or> mem0 x AND 7 = 6"
      using object_okD(2) [OF nursery_okD(3) [OF n that(2)]] that(1) tag_bits(2) [of "mem0 x"]
      by (auto simp: SGEN_OBJECT_IS_PINNED_def SGEN_POINTER_IS_TAGGED_PINNED_def)
    then have "(mem0 x AND 7) AND 2 = 2" by auto
    then have "mem0 x OR 2 = mem0 x OR (mem0 x AND 2)" by (simp add: and.assoc)
    also have "\<dots> = mem0 x" by (rule bit_word_eqI) (simp only: bit_or_iff bit_and_iff, blast)
    finally show ?thesis .
  qed
  have "header_ok cf mem0 N R ?L F mem0 x" if "x \<in> N" for x
    using that pin2 [of x] tag_bits(7) [OF object_okD(2) [OF nursery_okD(3) [OF n that]]]
    by (simp add: header_ok_def SGEN_OBJECT_IS_PINNED_def SGEN_POINTER_IS_TAGGED_PINNED_def)
  moreover have "body_ok cf mem0 N ?L ?T mem0 x x" if "x \<in> N" "SGEN_OBJECT_IS_PINNED mem0 x" for x
  proof -
    have "x + of_nat k \<in> ?T" if "k \<in> set (object_slots cf mem0 x)" for k
      using that \<open>x \<in> N\<close> \<open>SGEN_OBJECT_IS_PINNED mem0 x\<close> unfolding slots_at_def by blast
    then have "\<not> (k \<in> set (object_slots cf mem0 x) \<and> x + of_nat k \<notin> ?T)" for k by blast
    moreover have "raw_word cf mem0 x x k = mem0 (x + of_nat k)" for k by (simp add: raw_word_def)
    ultimately show ?thesis unfolding body_ok_def by (simp only: if_False simp_thms)
  qed
  moreover have "object_words cf mem0 x x \<inter> F = {}" if "x \<in> N" for x
    using object_okD(1) [OF nursery_okD(3) [OF n that]] hp_outside [OF st(3)] by blast
  ultimately have "heap_inv cf mem0 N R ?L ?T F mem0"
    unfolding heap_inv_def using live_obj.pinned nursery_okD(4) [OF n] st(4) by (auto simp: L)
  moreover have "\<forall>e\<in>set xs. entry_ok cf mem0 ?L e"
  proof
    fix e assume e: "e \<in> set xs"
    have "ge_obj e \<noteq> 0" using xs(1) [OF e] object_in_nursery [OF nursery_okD(3) [OF n]] nursery_okD(2) [OF n] by metis
    then show "entry_ok cf mem0 ?L e" using xs(1) [OF e] unfolding entry_ok_def by auto
  qed
  moreover have "covered cf mem0 ?L ?T R xs"
  proof -
    have "\<exists>e\<in>set xs. \<exists>y. ?L y = Some (ge_obj e) \<and> a \<in> slots_at cf mem0 y (ge_obj e)"
      if "x \<in> N" "SGEN_OBJECT_IS_PINNED mem0 x" "a \<in> slots_at cf mem0 x x" for a x
      using xs(2) [OF that(1,2)] that by (auto simp: L)
    then show ?thesis unfolding covered_def by blast
  qed
  moreover have "remset_inv cf mem0 RO ?L ?T st"
    unfolding remset_inv_def
  proof (intro allI impI)
    fix a v assume a: "slot_at cf mem0 RO ?L a v" "a \<notin> ?T"
    then have "a \<notin> R" by blast
    then obtain x q k where "?L x = Some q" "k \<in> set (object_slots cf mem0 x)" "a = q + of_nat k"
      using a(1) RO unfolding slot_at_def by blast
    then have "a \<in> ?T" unfolding L slots_at_def by blast
    then show "remembered mem0 st a v" using a(2) by blast
  qed
  ultimately have "minor_inv cf hp_ok mem0 N R RO ?L ?T R xs F st"
    using st by (simp add: minor_inv_def)
  then show ?thesis by (intro exI [of _ ?L] exI [of _ ?T] exI [of _ xs] exI [of _ F]) auto
qed

lemma live_settled:
  assumes n: "nursery_ok cf mem0 N R" and inv: "minor_inv cf hp_ok mem0 N R RO L {} X xs F st"
    and pinned: "\<And>x. x \<in> N \<Longrightarrow> SGEN_OBJECT_IS_PINNED mem0 x \<Longrightarrow> L x \<noteq> None"
  shows "live_obj cf mem0 N R x \<Longrightarrow> L x \<noteq> None"
proof (induction rule: live_obj.induct)
  case (pinned x)
  then show ?case by (rule assms(3))
next
  case (root r)
  have h: "heap_inv cf mem0 N R L {} F (gc_mem st)" using inv by (simp add: minor_inv_def)
  then show ?case using heap_invD(9) [OF h root(1)] root(2) by (simp add: resolved_def)
next
  case (slot x k)
  have h: "heap_inv cf mem0 N R L {} F (gc_mem st)" using inv by (simp add: minor_inv_def)
  obtain p where p: "L x = Some p" using slot.IH by blast
  have "slot_at cf mem0 R L (p + of_nat k) (mem0 (x + of_nat k))" using p slot(2) unfolding slot_at_def by blast
  from slot_value(2) [OF n h this] slot(3) show ?case by (simp add: resolved_def)
qed

lemma inv_relocated:
  assumes n: "nursery_ok cf mem0 N R" and inv: "minor_inv cf hp_ok mem0 N R RO L {} X xs F st"
    and pinned: "\<And>x. x \<in> N \<Longrightarrow> SGEN_OBJECT_IS_PINNED mem0 x \<Longrightarrow> L x = Some x"
  shows "relocated cf mem0 N R L (gc_mem st)"
proof -
  have h: "heap_inv cf mem0 N R L {} F (gc_mem st)" using inv by (simp add: minor_inv_def)
  note d = heap_invD [OF h]
  have c1: "L x \<noteq> None \<longleftrightarrow> live_obj cf mem0 N R x" for x
    using d(3) live_settled [OF n inv] pinned by (metis option.exhaust option.simps(3))
  have c2: "SGEN_LOAD_VTABLE (gc_mem st) p = SGEN_LOAD_VTABLE mem0 x \<and> (p = x \<longrightarrow> SGEN_OBJECT_IS_PINNED (gc_mem st) x) \<and>
      (p \<noteq> x \<longrightarrow> (\<forall>a\<in>object_words cf mem0 x p. \<not> sgen_ptr_in_nursery cf a))" if "L x = Some p" for x p
    using header_okD(3-5) [OF d(2) [OF d(10) [OF that]]] that
    by (cases "p = x") (auto simp: SGEN_LOAD_VTABLE_def untag_or SGEN_OBJECT_IS_PINNED_def SGEN_POINTER_IS_TAGGED_PINNED_def tag_bits(1-6))
  have c3: "p = x" if "L x = Some p" "SGEN_OBJECT_IS_PINNED mem0 x" for x p
    using pinned [OF d(10) [OF that(1)] that(2)] that(1) by simp
  have c4: "gc_mem st (p + of_nat k) =
      (if k \<in> set (object_slots cf mem0 x) then now_at L (mem0 (x + of_nat k)) else raw_word cf mem0 x p k)"
    if "L x = Some p" "8 dvd k" "8 \<le> k" "k < unat (object_size cf mem0 x)" for x p k
    using d(4) [OF that(1), unfolded body_ok_def, rule_format, OF that(2-4)] by (simp split: if_splits)
  have c5: "gc_mem st r = now_at L (mem0 r)" if "r \<in> R" for r using d(9) [OF that] by simp
  show ?thesis unfolding relocated_def
  proof (intro conjI allI ballI impI)
    show "(L x \<noteq> None) = live_obj cf mem0 N R x" for x by (rule c1)
    show "gc_mem st r = now_at L (mem0 r)" if "r \<in> R" for r using that by (rule c5)
    fix x p assume xp: "L x = Some p"
    show "p = x" if "SGEN_OBJECT_IS_PINNED mem0 x" using xp that by (rule c3)
    show "SGEN_OBJECT_IS_PINNED (gc_mem st) x" if "p = x" using c2 [OF xp] that by blast
    show "SGEN_LOAD_VTABLE (gc_mem st) p = SGEN_LOAD_VTABLE mem0 x" using c2 [OF xp] by blast
    show "\<not> sgen_ptr_in_nursery cf a" if "p \<noteq> x" "a \<in> object_words cf mem0 x p" for a using c2 [OF xp] that by blast
    show "gc_mem st (p + of_nat k) =
      (if k \<in> set (object_slots cf mem0 x) then now_at L (mem0 (x + of_nat k)) else raw_word cf mem0 x p k)"
      if "8 dvd k" "8 \<le> k" "k < unat (object_size cf mem0 x)" for k using xp that by (rule c4)
    show "object_words cf mem0 x p \<inter> object_words cf mem0 y q = {}" if "L y = Some q" "x \<noteq> y" for y q
      using xp that by (rule d(5))
  qed
qed

lemma collection_ok:
  assumes s: "minor_start cf hp_ok mem0 N R st" and rs: "fst ` set rs = R"
    and RO: "RO \<subseteq> R" "\<And>a. a \<in> RO \<Longrightarrow> (a, False) \<notin> set rs"
  shows "\<exists>L st1 st2. scan_roots cf rs st = Some st1 \<and> simple_nursery_serial_drain_gray_stack cf st1 = Some st2 \<and>
    relocated cf mem0 N R L (gc_mem st2) \<and> gray_holds st2 [] \<and>
    (\<forall>a v. slot_at cf mem0 RO L a v \<longrightarrow> \<not> sgen_ptr_in_nursery cf a \<longrightarrow> L v = Some v \<longrightarrow> remembered mem0 st2 a v)"
proof -
  have n: "nursery_ok cf mem0 N R" using s by (simp add: minor_start_def)
  obtain L T xs F where i: "minor_inv cf hp_ok mem0 N R RO L T R xs F st"
    "\<And>x. x \<in> N \<Longrightarrow> SGEN_OBJECT_IS_PINNED mem0 x \<Longrightarrow> L x = Some x" using start_ok [OF s RO(1)] by blast
  have "minor_inv cf hp_ok mem0 N R RO L T (fst ` set rs \<union> {}) xs F st" using i(1) rs by simp
  moreover have "\<forall>(a, from_obj)\<in>set rs. a \<in> R \<and> (a \<in> RO \<longrightarrow> from_obj)"
  proof (clarify)
    fix a b assume ab: "(a, b) \<in> set rs"
    then have "a \<in> fst ` set rs" by (rule image_eqI [rotated]) simp
    then show "a \<in> R \<and> (a \<in> RO \<longrightarrow> b)" using rs ab RO(2) [of a] by (cases b) auto
  qed
  ultimately obtain L1 T1 xs1 F1 st1 where 1: "scan_roots cf rs st = Some st1" "L \<subseteq>\<^sub>m L1"
    "minor_inv cf hp_ok mem0 N R RO L1 T1 {} xs1 F1 st1" using scan_roots_ok [OF n RO(1)] by blast
  obtain L2 F2 st2 where 2: "simple_nursery_serial_drain_gray_stack cf st1 = Some st2" "L1 \<subseteq>\<^sub>m L2"
    "minor_inv cf hp_ok mem0 N R RO L2 {} {} [] F2 st2" using drain_ok [OF n RO(1) 1(3)] by blast
  have "L2 x = Some x" if "x \<in> N" "SGEN_OBJECT_IS_PINNED mem0 x" for x
    using i(2) [OF that] map_le_trans [OF 1(2) 2(2)] by (metis domI map_le_def)
  then have "relocated cf mem0 N R L2 (gc_mem st2)" by (rule inv_relocated [OF n 2(3)])
  moreover have "gray_holds st2 []" "remset_inv cf mem0 RO L2 {} st2" using 2(3) by (simp_all add: minor_inv_def)
  ultimately show ?thesis using 1(1) 2(1) unfolding remset_inv_def by blast
qed

end

end
