(* ===== verification/Sgen_MarkSweep.thy ===== *)
theory Sgen_MarkSweep
  imports Sgen_MinorInv
begin

unbundle bit_operations_syntax

text \<open>
  The blocks of the mark-and-sweep old generation, \<open>sgen/sgen-marksweep.c\<close>: allocation from the free
  lists of blocks and of slots, new blocks from the empty blocks or from the operating system, and
  the sweep of a block. Free slots and empty blocks are linked through their first words in memory;
  the header of a block (\<open>MSBlockInfo\<close>) is a record kept by the address of the block. Blocks have the
  least size, 16 KiB, which is that of systems with pages of at most that size. One thread runs: a
  compare-and-swap succeeds, and a block that is being checked or swept by somebody else, like a
  failed assertion, is \<open>None\<close>. The memory governor's answer and the memory of the operating system
  are parameters; the sizes of slots, computed with floating-point numbers, are a parameter too.
  The list of all blocks stands for its array list.
\<close>

section \<open>Blocks\<close>

definition ms_block_size :: nat where
  "ms_block_size = 16384"

definition MS_BLOCK_ALLOC_NUM :: nat where
  "MS_BLOCK_ALLOC_NUM = 32"

definition MS_NUM_MARK_WORDS :: nat where
  "MS_NUM_MARK_WORDS = (ms_block_size div 8 + 4 * 8 - 1) div (4 * 8)"

text \<open>The fields before the mark words take 40 bytes.\<close>

definition SIZEOF_MS_BLOCK_INFO :: nat where
  "SIZEOF_MS_BLOCK_INFO = 40 + 4 * MS_NUM_MARK_WORDS"

definition MS_BLOCK_SKIP :: nat where
  "MS_BLOCK_SKIP = (SIZEOF_MS_BLOCK_INFO + 15) div 16 * 16"

definition MS_BLOCK_FREE :: nat where
  "MS_BLOCK_FREE = ms_block_size - MS_BLOCK_SKIP"

definition MS_NUM_FAST_BLOCK_OBJ_SIZE_INDEXES :: nat where
  "MS_NUM_FAST_BLOCK_OBJ_SIZE_INDEXES = 32"

datatype block_state =
    BLOCK_STATE_SWEPT
  | BLOCK_STATE_MARKING
  | BLOCK_STATE_CHECKING
  | BLOCK_STATE_NEED_SWEEPING
  | BLOCK_STATE_SWEEPING

record MSBlockInfo =
  ms_obj_size :: nat
  ms_obj_size_index :: nat
  ms_state :: block_state
  ms_pinned :: bool
  ms_has_references :: bool
  ms_has_pinned :: bool
  ms_is_to_space :: bool
  ms_free_list :: u64
  ms_next_free :: u64
  ms_mark_words :: "u32 list"

text \<open>\<open>os_alloc\<close> is \<open>sgen_alloc_os_memory_aligned\<close> and \<open>try_alloc_space\<close> is
  \<open>sgen_memgov_try_alloc_space\<close>; \<open>to_space\<close> says that new blocks belong to to-space.\<close>

record 'o ms_env =
  block_obj_sizes :: "nat list"
  os_alloc :: "nat \<Rightarrow> 'o \<Rightarrow> u64 \<times> 'o"
  try_alloc_space :: "nat \<Rightarrow> 'o \<Rightarrow> bool \<times> 'o"
  to_space :: bool

record 'o ms_heap =
  ms_blocks :: "u64 \<Rightarrow> MSBlockInfo option"
  free_block_lists :: "nat \<Rightarrow> nat \<Rightarrow> u64"
  empty_blocks :: u64
  num_empty_blocks :: int
  allocated_blocks :: "u64 list"
  num_major_sections :: nat
  total_allocated_major :: nat
  ms_os :: 'o

definition MS_BLOCK_OBJ_FOR_SIZE :: "u64 \<Rightarrow> nat \<Rightarrow> nat \<Rightarrow> u64" where
  "MS_BLOCK_OBJ_FOR_SIZE b i obj_size = b + of_nat (MS_BLOCK_SKIP + obj_size * i)"

definition MS_BLOCK_DATA_FOR_OBJ :: "u64 \<Rightarrow> u64" where
  "MS_BLOCK_DATA_FOR_OBJ obj = obj AND NOT (of_nat ms_block_size - 1)"

text \<open>The word and the bit of an object's mark.\<close>

definition MS_CALC_MARK_BIT :: "u64 \<Rightarrow> nat \<times> nat" where
  "MS_CALC_MARK_BIT obj = (let i = unat (obj - MS_BLOCK_DATA_FOR_OBJ obj) div 8 in (i div 32, i mod 32))"

definition MS_MARK_BIT :: "MSBlockInfo \<Rightarrow> nat \<times> nat \<Rightarrow> bool" where
  "MS_MARK_BIT bl wb = bit (ms_mark_words bl ! fst wb) (snd wb)"

definition MS_SET_MARK_BIT :: "nat \<times> nat \<Rightarrow> MSBlockInfo \<Rightarrow> MSBlockInfo" where
  "MS_SET_MARK_BIT wb bl =
    bl\<lparr>ms_mark_words := (ms_mark_words bl)[fst wb := ms_mark_words bl ! fst wb OR push_bit (snd wb) 1]\<rparr>"

definition MS_OBJ_ALLOCED :: "memory \<Rightarrow> u64 \<Rightarrow> u64 \<Rightarrow> bool" where
  "MS_OBJ_ALLOCED mem obj b \<longleftrightarrow> mem obj \<noteq> 0 \<and> (mem obj < b \<or> b + of_nat ms_block_size \<le> mem obj)"

section \<open>Sizes of slots\<close>

fun find_size_from :: "nat list \<Rightarrow> nat \<Rightarrow> nat \<Rightarrow> nat option" where
  "find_size_from [] i sz = None"
| "find_size_from (s # ss) i sz = (if sz \<le> s then Some i else find_size_from ss (i + 1) sz)"

definition ms_find_block_obj_size_index :: "'o ms_env \<Rightarrow> nat \<Rightarrow> nat option" where
  "ms_find_block_obj_size_index env sz = find_size_from (block_obj_sizes env) 0 sz"

definition fast_block_obj_size_indexes :: "'o ms_env \<Rightarrow> nat option list" where
  "fast_block_obj_size_indexes env =
    map (\<lambda>i. ms_find_block_obj_size_index env (i * 8)) [0..<MS_NUM_FAST_BLOCK_OBJ_SIZE_INDEXES]"

definition MS_BLOCK_OBJ_SIZE_INDEX :: "'o ms_env \<Rightarrow> nat \<Rightarrow> nat option" where
  "MS_BLOCK_OBJ_SIZE_INDEX env s =
    (if (s + 7) div 8 < MS_NUM_FAST_BLOCK_OBJ_SIZE_INDEXES then fast_block_obj_size_indexes env ! ((s + 7) div 8)
     else ms_find_block_obj_size_index env s)"

definition FREE_BLOCKS :: "bool \<Rightarrow> bool \<Rightarrow> nat" where
  "FREE_BLOCKS p r = (if p then 1 else 0) + (if r then 2 else 0)"

section \<open>Empty blocks\<close>

text \<open>Halves the number of blocks until the memory is granted; the program ends when there is no memory
  for one block.\<close>

partial_function (option) alloc_os_blocks :: "'o ms_env \<Rightarrow> nat \<Rightarrow> 'o \<Rightarrow> (nat \<times> u64 \<times> 'o) option" where
  "alloc_os_blocks env alloc_num os =
    (let (p, os) = os_alloc env (ms_block_size * alloc_num) os in
     if p \<noteq> 0 then Some (alloc_num, p, os)
     else if alloc_num = 1 then None else alloc_os_blocks env (alloc_num div 2) os)"

declare alloc_os_blocks.simps [code]

fun push_empty_blocks :: "nat \<Rightarrow> u64 \<Rightarrow> memory \<Rightarrow> u64 \<Rightarrow> memory \<times> u64" where
  "push_empty_blocks 0 p mem empty' = (mem, empty')"
| "push_empty_blocks (Suc n) p mem empty' = push_empty_blocks n (p + of_nat ms_block_size) (mem(p := empty')) p"

definition ms_get_empty_block :: "'o ms_env \<Rightarrow> memory \<Rightarrow> 'o ms_heap \<Rightarrow> (u64 \<times> memory \<times> 'o ms_heap) option" where
  "ms_get_empty_block env mem h =
    do {
      (mem, h) \<leftarrow>
        (if empty_blocks h = 0 then
           do {
             (alloc_num, p, os) \<leftarrow> alloc_os_blocks env MS_BLOCK_ALLOC_NUM (ms_os h);
             let (mem, empty') = push_empty_blocks alloc_num p mem (empty_blocks h);
             Some (mem, h\<lparr>empty_blocks := empty', ms_os := os, num_empty_blocks := num_empty_blocks h + int alloc_num\<rparr>) }
         else Some (mem, h));
      let block = empty_blocks h;
      if block = 0 then None
      else
        let h = h\<lparr>empty_blocks := mem block, num_empty_blocks := num_empty_blocks h - 1\<rparr>;
            mem = mem(block := 0) in
        if block AND (of_nat ms_block_size - 1) = 0 then Some (block, mem, h) else None }"

section \<open>Allocation\<close>

definition upd_block :: "u64 \<Rightarrow> (MSBlockInfo \<Rightarrow> MSBlockInfo) \<Rightarrow> 'o ms_heap \<Rightarrow> 'o ms_heap" where
  "upd_block b f h = h\<lparr>ms_blocks := (ms_blocks h)(b := map_option f (ms_blocks h b))\<rparr>"

definition add_free_block :: "nat \<Rightarrow> nat \<Rightarrow> u64 \<Rightarrow> 'o ms_heap \<Rightarrow> 'o ms_heap" where
  "add_free_block free_blocks size_index block h =
    (let old = free_block_lists h free_blocks size_index in
     (upd_block block (\<lambda>b. b\<lparr>ms_next_free := old\<rparr>) h)
       \<lparr>free_block_lists := (free_block_lists h)(free_blocks := (free_block_lists h free_blocks)(size_index := block))\<rparr>)"

fun link_slots :: "nat \<Rightarrow> u64 \<Rightarrow> nat \<Rightarrow> memory \<Rightarrow> memory" where
  "link_slots 0 obj_start sz mem = mem(obj_start := 0)"
| "link_slots (Suc n) obj_start sz mem =
    link_slots n (obj_start + of_nat sz) sz (mem(obj_start := obj_start + of_nat sz))"

definition ms_alloc_block ::
    "'o ms_env \<Rightarrow> nat \<Rightarrow> bool \<Rightarrow> bool \<Rightarrow> memory \<Rightarrow> 'o ms_heap \<Rightarrow> (bool \<times> memory \<times> 'o ms_heap) option" where
  "ms_alloc_block env size_index pinned has_references mem h =
    (let sz = block_obj_sizes env ! size_index;
         cnt = MS_BLOCK_FREE div sz;
         (granted, os) = try_alloc_space env ms_block_size (ms_os h);
         h = h\<lparr>ms_os := os\<rparr> in
     if \<not> granted then Some (False, mem, h)
     else do {
       (info, mem, h) \<leftarrow> ms_get_empty_block env mem h;
       let obj_start = info + of_nat MS_BLOCK_SKIP;
       let bl = \<lparr>ms_obj_size = sz, ms_obj_size_index = size_index,
         ms_state = (if to_space env then BLOCK_STATE_MARKING else BLOCK_STATE_SWEPT),
         ms_pinned = pinned, ms_has_references = has_references, ms_has_pinned = pinned,
         ms_is_to_space = to_space env, ms_free_list = obj_start, ms_next_free = 0,
         ms_mark_words = replicate MS_NUM_MARK_WORDS 0\<rparr>;
       let mem = link_slots (cnt - 1) obj_start sz mem;
       let h = add_free_block (FREE_BLOCKS pinned has_references) size_index info
         (h\<lparr>ms_blocks := (ms_blocks h)(info := Some bl)\<rparr>);
       Some (True, mem, h\<lparr>allocated_blocks := allocated_blocks h @ [if has_references then info OR 1 else info],
         num_major_sections := num_major_sections h + 1\<rparr>) })"

section \<open>Sweeping\<close>

definition memset_zero :: "u64 \<Rightarrow> nat \<Rightarrow> memory \<Rightarrow> memory" where
  "memset_zero obj n mem = (\<lambda>a. if unat (a - obj) < n \<and> (a - obj) AND 7 = 0 then 0 else mem a)"

function sweep_block_for_size :: "u64 \<Rightarrow> MSBlockInfo \<Rightarrow> nat \<Rightarrow> nat \<Rightarrow> nat \<Rightarrow> memory \<Rightarrow> u64 \<Rightarrow> memory \<times> u64" where
  "sweep_block_for_size block bl cnt obj_size obj_index mem free_list =
    (if obj_index < cnt then
       let obj = MS_BLOCK_OBJ_FOR_SIZE block obj_index obj_size in
       if MS_MARK_BIT bl (MS_CALC_MARK_BIT obj) then
         sweep_block_for_size block bl cnt obj_size (obj_index + 1) mem free_list
       else
         let mem = (if MS_OBJ_ALLOCED mem obj block then memset_zero obj obj_size mem else mem) in
         sweep_block_for_size block bl cnt obj_size (obj_index + 1) (mem(obj := free_list)) obj
     else (mem, free_list))"
  by pat_completeness auto
termination
  by (relation "measure (\<lambda>(block, bl, cnt, obj_size, obj_index, mem, free_list). cnt - obj_index)") auto

declare sweep_block_for_size.simps [simp del]

partial_function (option) reverse_free_list :: "memory \<Rightarrow> u64 \<Rightarrow> u64 \<Rightarrow> (memory \<times> u64) option" where
  "reverse_free_list mem free_list reversed =
    (if free_list \<noteq> 0 then reverse_free_list (mem(free_list := reversed)) (mem free_list) free_list
     else Some (mem, reversed))"

declare reverse_free_list.simps [code]

definition sweep_block :: "u64 \<Rightarrow> memory \<Rightarrow> 'o ms_heap \<Rightarrow> (bool \<times> memory \<times> 'o ms_heap) option" where
  "sweep_block block mem h =
    (case ms_blocks h block of
       None \<Rightarrow> None
     | Some bl \<Rightarrow>
         (case ms_state bl of
            BLOCK_STATE_SWEPT \<Rightarrow> Some (False, mem, h)
          | BLOCK_STATE_NEED_SWEEPING \<Rightarrow>
              let cnt = MS_BLOCK_FREE div ms_obj_size bl;
                  (mem, free_list) = sweep_block_for_size block bl cnt (ms_obj_size bl) 0 mem 0 in
              do {
                (mem, reversed) \<leftarrow> reverse_free_list mem free_list 0;
                Some (True, mem, upd_block block (\<lambda>bl. bl\<lparr>ms_mark_words := replicate MS_NUM_MARK_WORDS 0,
                  ms_free_list := reversed, ms_state := BLOCK_STATE_SWEPT\<rparr>) h) }
          | _ \<Rightarrow> None))"

definition ensure_can_access_block_free_list :: "u64 \<Rightarrow> memory \<Rightarrow> 'o ms_heap \<Rightarrow> (memory \<times> 'o ms_heap) option" where
  "ensure_can_access_block_free_list block mem h =
    (case ms_blocks h block of
       None \<Rightarrow> None
     | Some bl \<Rightarrow>
         (case ms_state bl of
            BLOCK_STATE_SWEPT \<Rightarrow> Some (mem, h)
          | BLOCK_STATE_MARKING \<Rightarrow> Some (mem, h)
          | BLOCK_STATE_NEED_SWEEPING \<Rightarrow> map_option snd (sweep_block block mem h)
          | _ \<Rightarrow> None))"

section \<open>Slots\<close>

definition unlink_slot_from_free_list_uncontested ::
    "nat \<Rightarrow> nat \<Rightarrow> memory \<Rightarrow> 'o ms_heap \<Rightarrow> (u64 \<times> memory \<times> 'o ms_heap) option" where
  "unlink_slot_from_free_list_uncontested free_blocks size_index mem h =
    (let block = free_block_lists h free_blocks size_index in
     do {
       (mem, h) \<leftarrow> ensure_can_access_block_free_list block mem h;
       bl \<leftarrow> ms_blocks h block;
       let obj = ms_free_list bl;
       if obj = 0 then None
       else
         let next_free_slot = mem obj in
         if next_free_slot \<noteq> 0 then Some (obj, mem, upd_block block (\<lambda>bl. bl\<lparr>ms_free_list := next_free_slot\<rparr>) h)
         else
           Some (obj, mem, upd_block block (\<lambda>bl. bl\<lparr>ms_free_list := 0, ms_next_free := 0\<rparr>)
             (h\<lparr>free_block_lists := (free_block_lists h)(free_blocks :=
                  (free_block_lists h free_blocks)(size_index := ms_next_free bl))\<rparr>)) })"

definition alloc_obj ::
    "'o ms_env \<Rightarrow> u64 \<Rightarrow> nat \<Rightarrow> bool \<Rightarrow> bool \<Rightarrow> memory \<Rightarrow> 'o ms_heap \<Rightarrow> (u64 \<times> memory \<times> 'o ms_heap) option" where
  "alloc_obj env vtable sz pinned has_references mem h =
    do {
      size_index \<leftarrow> MS_BLOCK_OBJ_SIZE_INDEX env sz;
      let free_blocks = FREE_BLOCKS pinned has_references;
      (ok, mem, h) \<leftarrow>
        (if free_block_lists h free_blocks size_index = 0 then ms_alloc_block env size_index pinned has_references mem h
         else Some (True, mem, h));
      if \<not> ok then Some (0, mem, h)
      else do {
        (obj, mem, h) \<leftarrow> unlink_slot_from_free_list_uncontested free_blocks size_index mem h;
        Some (obj, mem(obj := vtable),
          h\<lparr>total_allocated_major := total_allocated_major h + block_obj_sizes env ! size_index\<rparr>) } }"

definition major_alloc_object ::
    "'o ms_env \<Rightarrow> u64 \<Rightarrow> u64 \<Rightarrow> bool \<Rightarrow> memory \<Rightarrow> 'o ms_heap \<Rightarrow> (u64 \<times> memory \<times> 'o ms_heap) option" where
  "major_alloc_object env vtable sz has_references mem h = alloc_obj env vtable (unat sz) False has_references mem h"

text \<open>Freeing one object at a time, and a whole block. The mark words of a freed block are cleared with it.\<close>

definition free_object :: "'o ms_env \<Rightarrow> u64 \<Rightarrow> nat \<Rightarrow> bool \<Rightarrow> memory \<Rightarrow> 'o ms_heap \<Rightarrow> (memory \<times> 'o ms_heap) option" where
  "free_object env obj sz pinned mem h =
    (let block = MS_BLOCK_DATA_FOR_OBJ obj in
     do {
       (mem, h) \<leftarrow> ensure_can_access_block_free_list block mem h;
       bl \<leftarrow> ms_blocks h block;
       let mem = memset_zero obj sz mem;
       let mem = mem(obj := ms_free_list bl);
       let h = upd_block block (\<lambda>bl. bl\<lparr>ms_free_list := obj\<rparr>) h;
       if ms_free_list bl = 0 then
         do {
           size_index \<leftarrow> MS_BLOCK_OBJ_SIZE_INDEX env sz;
           Some (mem, add_free_block (FREE_BLOCKS pinned (ms_has_references bl)) size_index block h) }
       else Some (mem, h) })"

definition ms_free_block :: "u64 \<Rightarrow> memory \<Rightarrow> 'o ms_heap \<Rightarrow> memory \<times> 'o ms_heap" where
  "ms_free_block info mem h =
    (let mem = memset_zero info ms_block_size mem in
     (mem(info := empty_blocks h),
      h\<lparr>ms_blocks := (ms_blocks h)(info := None), empty_blocks := info, num_empty_blocks := num_empty_blocks h + 1\<rparr>))"

end
