(* ===== verification/Sgen_MemGovernor.thy ===== *)
theory Sgen_MemGovernor
  imports Brotli_Prelude
begin

text \<open>
  The limit of the memory governor, \<open>sgen/sgen-memory-governor.c\<close>: how much of the heap is in use, and
  whether a request stays below the greatest size. The heap's allocators take it as a parameter; the
  theories of the old generation and of the large objects put this one in.
\<close>

record sgen_memgov =
  allocated_heap :: u64
  max_heap_size :: u64

definition sgen_memgov_available_free_space :: "sgen_memgov \<Rightarrow> u64" where
  "sgen_memgov_available_free_space g = max_heap_size g - min (allocated_heap g) (max_heap_size g)"

definition sgen_memgov_release_space :: "u64 \<Rightarrow> sgen_memgov \<Rightarrow> sgen_memgov" where
  "sgen_memgov_release_space n g = g\<lparr>allocated_heap := allocated_heap g - n\<rparr>"

definition sgen_memgov_try_alloc_space :: "u64 \<Rightarrow> sgen_memgov \<Rightarrow> bool \<times> sgen_memgov" where
  "sgen_memgov_try_alloc_space n g =
    (if sgen_memgov_available_free_space g < n then (False, g)
     else (True, g\<lparr>allocated_heap := allocated_heap g + n\<rparr>))"

text \<open>A request is granted exactly when it fits below the limit, and the sum does not wrap.\<close>

lemma memgov_try_alloc:
  assumes "allocated_heap g \<le> max_heap_size g" "sgen_memgov_try_alloc_space n g = (granted, g')"
  shows "granted \<longleftrightarrow> unat (allocated_heap g) + unat n \<le> unat (max_heap_size g)"
    "unat (allocated_heap g') = unat (allocated_heap g) + (if granted then unat n else 0)"
    "allocated_heap g' \<le> max_heap_size g'"
proof -
  have a: "unat (sgen_memgov_available_free_space g) = unat (max_heap_size g) - unat (allocated_heap g)"
    using assms(1) by (simp add: sgen_memgov_available_free_space_def min_def unat_sub)
  have le: "unat (allocated_heap g) \<le> unat (max_heap_size g)" using assms(1) by (simp add: word_le_nat_alt)
  show iff: "granted \<longleftrightarrow> unat (allocated_heap g) + unat n \<le> unat (max_heap_size g)"
    using assms(2) a le by (auto simp: sgen_memgov_try_alloc_space_def word_less_nat_alt split: if_splits)
  have lim: "unat (max_heap_size g) < 2 ^ 64" using unsigned_less [of "max_heap_size g", where 'a = nat] by simp
  have sum: "unat (allocated_heap g + n) = unat (allocated_heap g) + unat n" if granted
  proof -
    have "unat (allocated_heap g) + unat n < 2 ^ 64" using iff [THEN iffD1, OF that] lim by (rule order_le_less_trans)
    then show ?thesis by (simp add: unat_word_ariths)
  qed
  have g': "max_heap_size g' = max_heap_size g" "\<not> granted \<Longrightarrow> g' = g" "granted \<Longrightarrow> allocated_heap g' = allocated_heap g + n"
    using assms(2) by (auto simp: sgen_memgov_try_alloc_space_def split: if_splits)
  show 2: "unat (allocated_heap g') = unat (allocated_heap g) + (if granted then unat n else 0)"
    using g'(2,3) sum by (cases granted) simp_all
  show "allocated_heap g' \<le> max_heap_size g'"
    unfolding word_le_nat_alt 2 g'(1) using iff le by (cases granted) simp_all
qed

lemma memgov_release:
  "n \<le> allocated_heap g \<Longrightarrow> unat (allocated_heap (sgen_memgov_release_space n g)) = unat (allocated_heap g) - unat n"
  by (simp add: sgen_memgov_release_space_def unat_sub)

end
