(* ===== verification/Sgen_MarkSweepInv.thy ===== *)
theory Sgen_MarkSweepInv
  imports Sgen_MarkSweep Sgen_MemGovernor
begin

unbundle bit_operations_syntax

text \<open>
  The blocks of the old generation are well formed, and the allocator of \<open>Sgen_MarkSweep\<close> meets the
  contract \<open>promotion_heap\<close> of the nursery collection. The invariant says that the free lists of
  blocks are chains of distinct blocks, that each of them has at least one free slot, that the free
  slots of a swept block are threaded through memory and those of a block still to be swept are the
  unmarked ones, and that empty blocks and the memory of the operating system are disjoint from all of
  them. Allocation keeps it on each of its ways. The collection of \<open>Sgen_MinorInv\<close> is instantiated with
  this allocator.
\<close>

section \<open>Geometry of a block\<close>

lemma ms_consts: "MS_BLOCK_SKIP = 304" "MS_BLOCK_FREE = 16080" "ms_block_size = 16384" "MS_NUM_MARK_WORDS = 64"
  by (simp_all add: MS_BLOCK_SKIP_def MS_BLOCK_FREE_def SIZEOF_MS_BLOCK_INFO_def MS_NUM_MARK_WORDS_def ms_block_size_def)

definition block_aligned :: "u64 \<Rightarrow> bool" where
  "block_aligned b \<longleftrightarrow> b \<noteq> 0 \<and> b AND (of_nat ms_block_size - 1) = 0"

lemma mask14: "(of_nat ms_block_size - 1 :: u64) = mask 14"
  by (simp add: ms_consts mask_eq_exp_minus_1)

lemma block_aligned_unat: "block_aligned b \<longleftrightarrow> b \<noteq> 0 \<and> 16384 dvd unat b"
proof -
  have "b AND mask 14 = take_bit 14 b" by (simp add: take_bit_eq_mask)
  then show ?thesis by (simp add: block_aligned_def mask14 word_unat_eq_iff unat_take_bit_mod dvd_eq_mod_eq_0)
qed

lemma unat_block_base: "unat (MS_BLOCK_DATA_FOR_OBJ a) = unat a div 16384 * 16384"
proof -
  have "a AND NOT (mask 14) = push_bit 14 (drop_bit 14 a)"
    by (rule bit_word_eqI) (auto simp: bit_simps)
  also have "unat \<dots> = unat a div 2 ^ 14 * 2 ^ 14"
  proof -
    have "unat a div 2 ^ 14 * 2 ^ 14 \<le> unat a" by (rule div_times_less_eq_dividend)
    also have "unat a < 2 ^ 64" using unsigned_less [of a] by simp
    finally show ?thesis by (simp add: push_bit_eq_mult unat_word_ariths unat_drop_bit_div mult.commute)
  qed
  finally show ?thesis by (simp add: MS_BLOCK_DATA_FOR_OBJ_def mask14)
qed

lemma in_block:
  assumes "block_aligned b" "k < 16384"
  shows "unat (b + of_nat k) = unat b + k" "MS_BLOCK_DATA_FOR_OBJ (b + of_nat k) = b"
proof -
  have d: "16384 dvd unat b" using assms(1) by (simp add: block_aligned_unat)
  have "unat b < 2 ^ 64" using unsigned_less [of b] by simp
  moreover obtain m where m: "unat b = 16384 * m" using d by (rule dvdE)
  ultimately have "unat b + 16384 \<le> 2 ^ 64" by simp
  then show u: "unat (b + of_nat k) = unat b + k"
    using assms(2) by (simp add: unat_word_ariths unat_of_nat take_bit_nat_eq_self)
  have "unat (MS_BLOCK_DATA_FOR_OBJ (b + of_nat k)) = unat b"
  proof -
    obtain m where "unat b = 16384 * m" using d by (rule dvdE)
    then show ?thesis using assms(2) by (simp only: unat_block_base u) simp
  qed
  then show "MS_BLOCK_DATA_FOR_OBJ (b + of_nat k) = b" by (simp add: word_unat_eq_iff)
qed

abbreviation slot_addr :: "u64 \<Rightarrow> nat \<Rightarrow> nat \<Rightarrow> u64" where
  "slot_addr b sz s \<equiv> MS_BLOCK_OBJ_FOR_SIZE b s sz"

definition slot_words :: "u64 \<Rightarrow> nat \<Rightarrow> nat \<Rightarrow> u64 set" where
  "slot_words b sz s = block_words (slot_addr b sz s) sz"

text \<open>A size of slots: two or more fit into a block.\<close>

definition size_ok :: "nat \<Rightarrow> bool" where
  "size_ok sz \<longleftrightarrow> 16 \<le> sz \<and> 8 dvd sz \<and> sz \<le> 8000"

lemma slot_offset: "s < MS_BLOCK_FREE div sz \<Longrightarrow> k < sz \<Longrightarrow> MS_BLOCK_SKIP + sz * s + k < 16384"
proof -
  assume "s < MS_BLOCK_FREE div sz" "k < sz"
  then have "sz * Suc s \<le> 16080" by (metis Suc_leI div_times_less_eq_dividend le_trans mult.commute mult_le_mono2 ms_consts(2))
  then show ?thesis using \<open>k < sz\<close> by (simp add: ms_consts)
qed

lemma slot_word:
  assumes b: "block_aligned b" and s: "s < MS_BLOCK_FREE div sz" "k < sz"
  shows "slot_addr b sz s + of_nat k = b + of_nat (MS_BLOCK_SKIP + sz * s + k)"
    "unat (slot_addr b sz s + of_nat k) = unat b + (MS_BLOCK_SKIP + sz * s + k)"
    "MS_BLOCK_DATA_FOR_OBJ (slot_addr b sz s + of_nat k) = b"
proof -
  show e: "slot_addr b sz s + of_nat k = b + of_nat (MS_BLOCK_SKIP + sz * s + k)"
    by (simp add: MS_BLOCK_OBJ_FOR_SIZE_def)
  show "unat (slot_addr b sz s + of_nat k) = unat b + (MS_BLOCK_SKIP + sz * s + k)"
    "MS_BLOCK_DATA_FOR_OBJ (slot_addr b sz s + of_nat k) = b"
    unfolding e by (rule in_block [OF b slot_offset [OF s]])+
qed

lemma slot_wordsD: "a \<in> slot_words b sz s \<Longrightarrow> \<exists>k. k < sz \<and> 8 dvd k \<and> a = slot_addr b sz s + of_nat k"
  by (auto simp: slot_words_def block_words_def)

lemma slot_words_base: "block_aligned b \<Longrightarrow> s < MS_BLOCK_FREE div sz \<Longrightarrow> a \<in> slot_words b sz s \<Longrightarrow> MS_BLOCK_DATA_FOR_OBJ a = b"
  using slot_word(3) slot_wordsD by metis

lemma slot_words_block: "block_aligned b \<Longrightarrow> size_ok sz \<Longrightarrow> s < MS_BLOCK_FREE div sz \<Longrightarrow> slot_words b sz s \<subseteq> block_words b ms_block_size"
proof
  fix a assume b: "block_aligned b" "size_ok sz" "s < MS_BLOCK_FREE div sz" "a \<in> slot_words b sz s"
  obtain k where k: "k < sz" "8 dvd k" "a = slot_addr b sz s + of_nat k" using slot_wordsD [OF b(4)] by blast
  have "8 dvd MS_BLOCK_SKIP + sz * s + k" using b(2) k(2) by (simp add: size_ok_def ms_consts)
  then show "a \<in> block_words b ms_block_size"
    unfolding k(3) slot_word(1) [OF b(1,3) k(1)] using slot_offset [OF b(3) k(1)] by (intro block_wordsI) (simp_all add: ms_consts(3))
qed

lemma block_words_base: "block_aligned b \<Longrightarrow> a \<in> block_words b ms_block_size \<Longrightarrow> MS_BLOCK_DATA_FOR_OBJ a = b"
  by (auto simp: block_words_def ms_consts in_block)

lemma slot_words_disjoint:
  assumes b: "block_aligned b" and st: "s < MS_BLOCK_FREE div sz" "t < MS_BLOCK_FREE div sz" "s \<noteq> t"
  shows "slot_words b sz s \<inter> slot_words b sz t = {}"
proof (rule ccontr)
  assume "slot_words b sz s \<inter> slot_words b sz t \<noteq> {}"
  then obtain a where a: "a \<in> slot_words b sz s" "a \<in> slot_words b sz t" by blast
  obtain k where k: "k < sz" "a = slot_addr b sz s + of_nat k" using slot_wordsD [OF a(1)] by blast
  obtain j where j: "j < sz" "a = slot_addr b sz t + of_nat j" using slot_wordsD [OF a(2)] by blast
  have e: "sz * s + k = sz * t + j" using slot_word(2) [OF b st(1) k(1)] slot_word(2) [OF b st(2) j(1)] k(2) j(2) by simp
  have "(sz * s + k) div sz = s" "(sz * t + j) div sz = t" using k(1) j(1) by simp_all
  then show False using st(3) e by simp
qed

lemma slot_addr_in: "0 < sz \<Longrightarrow> slot_addr b sz s \<in> slot_words b sz s"
  unfolding slot_words_def by (rule block_words_start)

lemma slot_addr_0: "block_aligned b \<Longrightarrow> 0 < sz \<Longrightarrow> s < MS_BLOCK_FREE div sz \<Longrightarrow> slot_addr b sz s \<noteq> 0"
  using slot_word(2) [of b s sz 0] by (auto simp: ms_consts)

lemma slot_addr_inj: "block_aligned b \<Longrightarrow> 0 < sz \<Longrightarrow> s < MS_BLOCK_FREE div sz \<Longrightarrow> t < MS_BLOCK_FREE div sz \<Longrightarrow>
    slot_addr b sz s = slot_addr b sz t \<longleftrightarrow> s = t"
  using slot_words_disjoint [of b s sz t] slot_addr_in [of sz b s] slot_addr_in [of sz b t]
  by (metis disjoint_iff)

lemma slot_addr_aligned: "block_aligned b \<Longrightarrow> size_ok sz \<Longrightarrow> s < MS_BLOCK_FREE div sz \<Longrightarrow> slot_addr b sz s AND 7 = 0"
proof -
  assume b: "block_aligned b" "size_ok sz" "s < MS_BLOCK_FREE div sz"
  have "(8::nat) dvd 16384" by simp
  then have "8 dvd unat b" using b(1) dvd_trans by (auto simp: block_aligned_unat)
  then show ?thesis using slot_word(2) [OF b(1,3), of 0] b(2) by (simp add: and_7_dvd size_ok_def ms_consts)
qed

section \<open>Lists threaded through memory\<close>

fun chain :: "memory \<Rightarrow> u64 \<Rightarrow> u64 list \<Rightarrow> bool" where
  "chain mem p [] \<longleftrightarrow> p = 0"
| "chain mem p (x # xs) \<longleftrightarrow> p = x \<and> x \<noteq> 0 \<and> chain mem (mem x) xs"

lemma chain_frame: "\<forall>x\<in>set xs. mem' x = mem x \<Longrightarrow> chain mem' p xs = chain mem p xs"
  by (induction xs arbitrary: p) auto

lemma chain_push: "chain mem p xs \<Longrightarrow> x \<noteq> 0 \<Longrightarrow> x \<notin> set xs \<Longrightarrow> chain (mem(x := p)) x (x # xs)"
  using chain_frame [of xs "mem(x := p)" mem p] by auto

lemma reverse_free_list_ok:
  "chain mem p xs \<Longrightarrow> chain mem r ys \<Longrightarrow> distinct (xs @ ys) \<Longrightarrow>
    \<exists>mem' r'. reverse_free_list mem p r = Some (mem', r') \<and> chain mem' r' (rev xs @ ys) \<and> (\<forall>a. a \<notin> set xs \<longrightarrow> mem' a = mem a)"
proof (induction xs arbitrary: mem p r ys)
  case Nil
  then show ?case by (subst reverse_free_list.simps) simp
next
  case (Cons x xs)
  then have x: "p = x" "x \<noteq> 0" "chain mem (mem x) xs" "x \<notin> set xs" "x \<notin> set ys" by auto
  have "chain (mem(x := r)) (mem x) xs" using chain_frame [of xs "mem(x := r)" mem] x by auto
  moreover have "chain (mem(x := r)) x (x # ys)" by (rule chain_push [OF Cons.prems(2) x(2,5)])
  ultimately obtain mem' r' where 1: "reverse_free_list (mem(x := r)) (mem x) x = Some (mem', r')"
    "chain mem' r' (rev xs @ x # ys)" "\<forall>a. a \<notin> set xs \<longrightarrow> mem' a = (mem(x := r)) a"
    using Cons.IH [of "mem(x := r)" "mem x" x "x # ys"] Cons.prems(3) by (simp del: fun_upd_apply) blast
  have "reverse_free_list mem p r = Some (mem', r')" using x 1(1) by (subst reverse_free_list.simps) simp
  then show ?case using 1(2,3) by (intro exI [of _ mem'] exI [of _ r']) auto
qed

section \<open>Sweeping a block\<close>

definition slot_marked :: "u64 \<Rightarrow> MSBlockInfo \<Rightarrow> nat \<Rightarrow> nat \<Rightarrow> bool" where
  "slot_marked b bl sz s \<longleftrightarrow> MS_MARK_BIT bl (MS_CALC_MARK_BIT (slot_addr b sz s))"

definition unmarked :: "u64 \<Rightarrow> MSBlockInfo \<Rightarrow> nat \<Rightarrow> nat \<Rightarrow> nat list" where
  "unmarked b bl sz i = filter (\<lambda>s. \<not> slot_marked b bl sz s) [i..<MS_BLOCK_FREE div sz]"

lemma memset_zero_in: "k < n \<Longrightarrow> n \<le> 16384 \<Longrightarrow> 8 dvd k \<Longrightarrow> memset_zero p n mem (p + of_nat k) = 0"
  by (simp add: memset_zero_def unat_of_nat take_bit_nat_eq_self and_7_dvd)

lemma memset_zero_out: "a \<notin> block_words p n \<Longrightarrow> memset_zero p n mem a = mem a"
proof -
  assume a: "a \<notin> block_words p n"
  have "\<not> (unat (a - p) < n \<and> (a - p) AND 7 = 0)"
    using a block_wordsI [of "unat (a - p)" n p] by (auto simp: and_7_dvd)
  then show ?thesis unfolding memset_zero_def by (rule if_not_P)
qed

text \<open>One slot: only its own words change.\<close>

lemma sweep_slots_ok:
  assumes b: "block_aligned b" "size_ok sz" "ms_obj_size bl = sz"
  defines "cnt \<equiv> MS_BLOCK_FREE div sz"
  shows "i \<le> cnt \<Longrightarrow> set xs \<subseteq> {..<i} \<Longrightarrow> distinct xs \<Longrightarrow> chain mem fl (map (slot_addr b sz) xs) \<Longrightarrow>
    \<exists>mem' fl'. sweep_block_for_size b bl cnt sz i mem fl = (mem', fl') \<and>
      chain mem' fl' (map (slot_addr b sz) (rev (unmarked b bl sz i) @ xs)) \<and>
      (\<forall>a. a \<notin> (\<Union>s\<in>set (unmarked b bl sz i). slot_words b sz s) \<longrightarrow> mem' a = mem a) \<and>
      (\<forall>s\<in>set (unmarked b bl sz i). MS_OBJ_ALLOCED mem (slot_addr b sz s) b \<longrightarrow>
        (\<forall>k. 8 dvd k \<longrightarrow> 8 \<le> k \<longrightarrow> k < sz \<longrightarrow> mem' (slot_addr b sz s + of_nat k) = 0))"
proof (induction "cnt - i" arbitrary: i xs mem fl)
  case 0
  then have "unmarked b bl sz i = []" "\<not> i < cnt" by (simp_all add: unmarked_def cnt_def)
  then show ?case using 0 by (subst sweep_block_for_size.simps) simp
next
  case (Suc m)
  then have i: "i < cnt" by simp
  note sw = sweep_block_for_size.simps [of b bl cnt sz i mem fl]
  have un: "unmarked b bl sz i = (if slot_marked b bl sz i then [] else [i]) @ unmarked b bl sz (Suc i)"
    using i by (simp add: unmarked_def cnt_def upt_conv_Cons)
  have m: "m = cnt - Suc i" using Suc.hyps(2) by simp
  show ?case
  proof (cases "slot_marked b bl sz i")
    case True
    have "sweep_block_for_size b bl cnt sz i mem fl = sweep_block_for_size b bl cnt sz (Suc i) mem fl"
      unfolding sw using i True by (simp add: slot_marked_def Let_def)
    moreover have "set xs \<subseteq> {..<Suc i}" using Suc.prems(2) by auto
    ultimately show ?thesis using Suc.hyps(1) [OF m _ _ Suc.prems(3,4)] i True un by simp
  next
    case False
    let ?obj = "slot_addr b sz i"
    let ?mem1 = "if MS_OBJ_ALLOCED mem ?obj b then memset_zero ?obj sz mem else mem"
    let ?mem = "?mem1(?obj := fl)"
    have sz: "0 < sz" "sz \<le> 16384" using b(2) by (auto simp: size_ok_def)
    have run: "sweep_block_for_size b bl cnt sz i mem fl = sweep_block_for_size b bl cnt sz (Suc i) ?mem ?obj"
      unfolding sw using i False by (simp add: slot_marked_def Let_def)
    have out: "?mem a = mem a" if "a \<notin> slot_words b sz i" for a
      using that memset_zero_out [of a ?obj sz mem] slot_addr_in [OF sz(1), of b i] by (auto simp: slot_words_def)
    have inj: "slot_addr b sz s = slot_addr b sz t \<longleftrightarrow> s = t" if "s < cnt" "t < cnt" for s t
      using slot_addr_inj [OF b(1) sz(1)] that by (simp add: cnt_def)
    have xs: "slot_addr b sz s \<notin> slot_words b sz i" if "s < cnt" "s \<noteq> i" for s
      using slot_words_disjoint [OF b(1), of s sz i] slot_addr_in [OF sz(1), of b s] that i by (auto simp: cnt_def)
    have "chain ?mem fl (map (slot_addr b sz) xs)"
    proof -
      have "?mem y = mem y" if "y \<in> set (map (slot_addr b sz) xs)" for y
      proof -
        obtain s where "s \<in> set xs" "y = slot_addr b sz s" using \<open>y \<in> set (map (slot_addr b sz) xs)\<close> by auto
        then show ?thesis using out [OF xs [of s]] Suc.prems(2) i by auto
      qed
      then show ?thesis using chain_frame [of "map (slot_addr b sz) xs" ?mem mem fl] Suc.prems(4) by blast
    qed
    moreover have "?mem ?obj = fl" "?obj \<noteq> 0" using slot_addr_0 [OF b(1) sz(1)] i by (simp_all add: cnt_def)
    ultimately have "chain ?mem ?obj (map (slot_addr b sz) (i # xs))" by simp
    moreover have "set (i # xs) \<subseteq> {..<Suc i}" "distinct (i # xs)" using Suc.prems(2,3) by auto
    ultimately obtain mem' fl' where
      1: "sweep_block_for_size b bl cnt sz (Suc i) ?mem ?obj = (mem', fl')"
        "chain mem' fl' (map (slot_addr b sz) (rev (unmarked b bl sz (Suc i)) @ i # xs))"
        "\<forall>a. a \<notin> (\<Union>s\<in>set (unmarked b bl sz (Suc i)). slot_words b sz s) \<longrightarrow> mem' a = ?mem a"
        "\<forall>s\<in>set (unmarked b bl sz (Suc i)). MS_OBJ_ALLOCED ?mem (slot_addr b sz s) b \<longrightarrow>
          (\<forall>k. 8 dvd k \<longrightarrow> 8 \<le> k \<longrightarrow> k < sz \<longrightarrow> mem' (slot_addr b sz s + of_nat k) = 0)"
      using Suc.hyps(1) [OF m, of "i # xs" ?mem ?obj] i by auto
    have later: "s < cnt \<and> s \<noteq> i" if "s \<in> set (unmarked b bl sz (Suc i))" for s
      using that by (auto simp: unmarked_def cnt_def)
    have zero: "mem' (?obj + of_nat k) = 0" if "MS_OBJ_ALLOCED mem ?obj b" "8 dvd k" "8 \<le> k" "k < sz" for k
    proof -
      have w: "?obj + of_nat k \<in> slot_words b sz i" unfolding slot_words_def using that(4,2) by (rule block_wordsI)
      have "?obj + of_nat k \<notin> (\<Union>s\<in>set (unmarked b bl sz (Suc i)). slot_words b sz s)"
        using slot_words_disjoint [OF b(1), of _ sz i] later w i unfolding cnt_def by blast
      then have "mem' (?obj + of_nat k) = ?mem (?obj + of_nat k)" using 1(3) by blast
      moreover have "?obj + of_nat k \<noteq> ?obj" using small_offset_eq [of k 0 ?obj] that(3,4) sz(2) by simp
      ultimately show ?thesis using that memset_zero_in [OF that(4) sz(2) that(2)] by simp
    qed
    have "\<forall>s\<in>set (unmarked b bl sz (Suc i)). MS_OBJ_ALLOCED ?mem (slot_addr b sz s) b = MS_OBJ_ALLOCED mem (slot_addr b sz s) b"
      using later out xs by (simp add: MS_OBJ_ALLOCED_def)
    then have "\<forall>s\<in>set (unmarked b bl sz i). MS_OBJ_ALLOCED mem (slot_addr b sz s) b \<longrightarrow>
        (\<forall>k. 8 dvd k \<longrightarrow> 8 \<le> k \<longrightarrow> k < sz \<longrightarrow> mem' (slot_addr b sz s + of_nat k) = 0)"
      using 1(4) zero un False by auto
    moreover have "\<forall>a. a \<notin> (\<Union>s\<in>set (unmarked b bl sz i). slot_words b sz s) \<longrightarrow> mem' a = mem a"
      using 1(3) out un False by (simp del: fun_upd_apply)
    moreover have "chain mem' fl' (map (slot_addr b sz) (rev (unmarked b bl sz i) @ xs))" using 1(2) un False by simp
    ultimately show ?thesis unfolding run 1(1) by blast
  qed
qed

lemma sweep_block_ok:
  assumes b: "block_aligned b" "size_ok sz" and h: "ms_blocks h b = Some bl" "ms_obj_size bl = sz" "ms_state bl = BLOCK_STATE_NEED_SWEEPING"
  shows "\<exists>mem' fl. sweep_block b mem h = Some (True, mem', upd_block b (\<lambda>bl. bl\<lparr>ms_mark_words := replicate MS_NUM_MARK_WORDS 0,
        ms_free_list := fl, ms_state := BLOCK_STATE_SWEPT\<rparr>) h) \<and>
      chain mem' fl (map (slot_addr b sz) (unmarked b bl sz 0)) \<and>
      (\<forall>a. a \<notin> (\<Union>s\<in>set (unmarked b bl sz 0). slot_words b sz s) \<longrightarrow> mem' a = mem a) \<and>
      (\<forall>s\<in>set (unmarked b bl sz 0). MS_OBJ_ALLOCED mem (slot_addr b sz s) b \<longrightarrow>
        (\<forall>k. 8 dvd k \<longrightarrow> 8 \<le> k \<longrightarrow> k < sz \<longrightarrow> mem' (slot_addr b sz s + of_nat k) = 0))"
proof -
  let ?cnt = "MS_BLOCK_FREE div sz" and ?un = "unmarked b bl sz 0"
  have sz: "0 < sz" "sz \<le> 16384" using b(2) by (auto simp: size_ok_def)
  obtain mem1 fl1 where 1: "sweep_block_for_size b bl ?cnt sz 0 mem 0 = (mem1, fl1)" "chain mem1 fl1 (map (slot_addr b sz) (rev ?un))"
    "\<forall>a. a \<notin> (\<Union>s\<in>set ?un. slot_words b sz s) \<longrightarrow> mem1 a = mem a"
    "\<forall>s\<in>set ?un. MS_OBJ_ALLOCED mem (slot_addr b sz s) b \<longrightarrow>
        (\<forall>k. 8 dvd k \<longrightarrow> 8 \<le> k \<longrightarrow> k < sz \<longrightarrow> mem1 (slot_addr b sz s + of_nat k) = 0)"
    using sweep_slots_ok [OF b h(2), of 0 "[]" mem 0] by auto
  have lt: "s < ?cnt" if "s \<in> set ?un" for s using that by (simp add: unmarked_def)
  have "inj_on (slot_addr b sz) (set ?un)" using slot_addr_inj [OF b(1) sz(1)] lt by (auto simp: inj_on_def)
  moreover have "distinct ?un" by (simp add: unmarked_def)
  ultimately have "distinct (map (slot_addr b sz) (rev ?un) @ [])" by (simp add: distinct_map)
  from reverse_free_list_ok [OF 1(2) _ this, of 0] obtain mem2 fl2 where 2: "reverse_free_list mem1 fl1 0 = Some (mem2, fl2)"
    "chain mem2 fl2 (map (slot_addr b sz) ?un)" "\<forall>a. a \<notin> slot_addr b sz ` set ?un \<longrightarrow> mem2 a = mem1 a"
    by (auto simp: rev_map)
  have "mem2 a = mem a" if a: "a \<notin> (\<Union>s\<in>set ?un. slot_words b sz s)" for a
  proof -
    have "a \<notin> slot_addr b sz ` set ?un"
    proof
      assume "a \<in> slot_addr b sz ` set ?un"
      then obtain s where "s \<in> set ?un" "a = slot_addr b sz s" by blast
      then show False using a slot_addr_in [OF sz(1), of b s] by blast
    qed
    then have "mem2 a = mem1 a" using 2(3) by blast
    also have "mem1 a = mem a" using 1(3) a by blast
    finally show ?thesis .
  qed
  moreover have "mem2 (slot_addr b sz s + of_nat k) = 0"
    if s: "s \<in> set ?un" "MS_OBJ_ALLOCED mem (slot_addr b sz s) b" and k: "8 dvd k" "8 \<le> k" "k < sz" for s k
  proof -
    have w: "slot_addr b sz s + of_nat k \<in> slot_words b sz s" unfolding slot_words_def using k(3,1) by (rule block_wordsI)
    have "slot_addr b sz s + of_nat k \<noteq> slot_addr b sz t" if "t \<in> set ?un" for t
    proof (cases "t = s")
      case True
      then show ?thesis using small_offset_eq [of k 0 "slot_addr b sz s"] k(2,3) sz(2) by simp
    next
      case False
      then show ?thesis using slot_words_disjoint [OF b(1) lt [OF s(1)] lt [OF that]] w slot_addr_in [OF sz(1), of b t] by auto
    qed
    then have "mem2 (slot_addr b sz s + of_nat k) = mem1 (slot_addr b sz s + of_nat k)" using 2(3) by blast
    then show ?thesis using 1(4) s k by simp
  qed
  moreover have "sweep_block b mem h = Some (True, mem2, upd_block b (\<lambda>bl. bl\<lparr>ms_mark_words := replicate MS_NUM_MARK_WORDS 0,
        ms_free_list := fl2, ms_state := BLOCK_STATE_SWEPT\<rparr>) h)"
    using h 1(1) 2(1) by (simp add: sweep_block_def)
  ultimately show ?thesis using 2(2) by blast
qed

section \<open>The free memory of the heap\<close>

text \<open>
  What the operating system and the memory governor promise, for a function \<open>os_free\<close> that gives the
  blocks still to be had: blocks are aligned; granted memory was free, and is not afterwards; a
  refusal changes nothing; the governor agrees only while there is a block, and then a request for
  one block succeeds.
\<close>

definition nth_block :: "u64 \<Rightarrow> nat \<Rightarrow> u64" where
  "nth_block p i = p + of_nat (ms_block_size * i)"

lemma nth_block_0 [simp]: "nth_block p 0 = p"
  by (simp add: nth_block_def)

lemma nth_block_Suc: "nth_block (p + of_nat ms_block_size) i = nth_block p (Suc i)"
  by (simp add: nth_block_def algebra_simps)

lemma nth_block_inj: "i < 33 \<Longrightarrow> j < 33 \<Longrightarrow> nth_block p i = nth_block p j \<longleftrightarrow> i = j"
  using small_offset_eq [of "ms_block_size * i" "ms_block_size * j" p] by (simp add: nth_block_def ms_consts)

definition os_law :: "'o ms_env \<Rightarrow> ('o \<Rightarrow> u64 set) \<Rightarrow> bool" where
  "os_law env os_free \<longleftrightarrow>
    (\<forall>os. \<forall>b\<in>os_free os. block_aligned b) \<and>
    (\<forall>os k. 0 < k \<longrightarrow> k \<le> MS_BLOCK_ALLOC_NUM \<longrightarrow>
      (case os_alloc env (ms_block_size * k) os of (p, os') \<Rightarrow>
        if p = 0 then os_free os' = os_free os \<and> (k = 1 \<longrightarrow> os_free os = {})
        else os_free os' \<subseteq> os_free os \<and> (\<forall>i. i < k \<longrightarrow> nth_block p i \<in> os_free os \<and> nth_block p i \<notin> os_free os'))) \<and>
    (\<forall>os. os_free (snd (try_alloc_space env ms_block_size os)) = os_free os)"

text \<open>The memory governor only compares the size of the heap with its limit. This says that it grants no
  more than the system has; where it does not hold, the program ends when the system refuses a block.\<close>

definition governor_within :: "'o ms_env \<Rightarrow> ('o \<Rightarrow> u64 set) \<Rightarrow> bool" where
  "governor_within env os_free \<longleftrightarrow> (\<forall>os. fst (try_alloc_space env ms_block_size os) \<longrightarrow> os_free os \<noteq> {})"

text \<open>The sizes of slots are sorted and the last one is that of the largest small object.\<close>

definition slot_sizes_ok :: "'o ms_env \<Rightarrow> bool" where
  "slot_sizes_ok env \<longleftrightarrow>
    (\<forall>s\<in>set (block_obj_sizes env). size_ok s) \<and> block_obj_sizes env \<noteq> [] \<and> last (block_obj_sizes env) = 8000"

text \<open>
  The free lists of blocks (\<open>bls\<close>), the free slots of each (\<open>sl\<close>) and the empty blocks (\<open>es\<close>). A block
  that still has to be swept has its unmarked slots to give.
\<close>

fun block_chain :: "(u64 \<Rightarrow> MSBlockInfo option) \<Rightarrow> u64 \<Rightarrow> u64 list \<Rightarrow> bool" where
  "block_chain blocks p [] \<longleftrightarrow> p = 0"
| "block_chain blocks p (b # bs) \<longleftrightarrow>
    p = b \<and> b \<noteq> 0 \<and> blocks b \<noteq> None \<and> block_chain blocks (ms_next_free (the (blocks b))) bs"

definition block_free :: "'o ms_env \<Rightarrow> memory \<Rightarrow> nat \<Rightarrow> nat \<Rightarrow> u64 \<Rightarrow> MSBlockInfo \<Rightarrow> nat list \<Rightarrow> bool" where
  "block_free env mem t s b bl ss \<longleftrightarrow>
    block_aligned b \<and> t = FREE_BLOCKS (ms_pinned bl) (ms_has_references bl) \<and> s = ms_obj_size_index bl \<and>
    s < length (block_obj_sizes env) \<and> ms_obj_size bl = block_obj_sizes env ! s \<and> size_ok (ms_obj_size bl) \<and>
    ss \<noteq> [] \<and> distinct ss \<and> set ss \<subseteq> {..<MS_BLOCK_FREE div ms_obj_size bl} \<and>
    (if ms_state bl = BLOCK_STATE_NEED_SWEEPING then ss = unmarked b bl (ms_obj_size bl) 0
     else ms_state bl \<in> {BLOCK_STATE_SWEPT, BLOCK_STATE_MARKING} \<and>
       chain mem (ms_free_list bl) (map (slot_addr b (ms_obj_size bl)) ss))"

definition ms_inv ::
    "'o ms_env \<Rightarrow> ('o \<Rightarrow> u64 set) \<Rightarrow> 'o ms_heap \<Rightarrow> memory \<Rightarrow> (nat \<Rightarrow> nat \<Rightarrow> u64 list) \<Rightarrow> (u64 \<Rightarrow> nat list) \<Rightarrow> u64 list \<Rightarrow> bool" where
  "ms_inv env os_free h mem bls sl es \<longleftrightarrow>
    (\<forall>t s. block_chain (ms_blocks h) (free_block_lists h t s) (bls t s) \<and> distinct (bls t s)) \<and>
    (\<forall>t s. \<forall>b\<in>set (bls t s). block_free env mem t s b (the (ms_blocks h b)) (sl b)) \<and>
    chain mem (empty_blocks h) es \<and> distinct es \<and> (\<forall>e\<in>set es. block_aligned e \<and> ms_blocks h e = None) \<and>
    (\<forall>b\<in>os_free (ms_os h). ms_blocks h b = None \<and> b \<notin> set es)"

definition listed :: "(nat \<Rightarrow> nat \<Rightarrow> u64 list) \<Rightarrow> u64 set" where
  "listed bls = (\<Union>t s. set (bls t s))"

definition free_words :: "u64 \<Rightarrow> nat \<Rightarrow> nat list \<Rightarrow> u64 set" where
  "free_words b sz ss = (\<Union>s\<in>set ss. slot_words b sz s)"

definition ms_free ::
    "('o \<Rightarrow> u64 set) \<Rightarrow> 'o ms_heap \<Rightarrow> (nat \<Rightarrow> nat \<Rightarrow> u64 list) \<Rightarrow> (u64 \<Rightarrow> nat list) \<Rightarrow> u64 list \<Rightarrow> u64 set" where
  "ms_free os_free h bls sl es =
    (\<Union>b\<in>listed bls. free_words b (ms_obj_size (the (ms_blocks h b))) (sl b)) \<union>
    (\<Union>b\<in>set es \<union> os_free (ms_os h). block_words b ms_block_size)"

lemma find_size_from_ok:
  "\<exists>s\<in>set ss. sz \<le> s \<Longrightarrow> \<exists>j. find_size_from ss i sz = Some (i + j) \<and> j < length ss \<and> sz \<le> ss ! j"
proof (induction ss arbitrary: i)
  case (Cons s ss)
  show ?case
  proof (cases "sz \<le> s")
    case True
    then show ?thesis by (intro exI [of _ 0]) simp
  next
    case False
    then obtain j where "find_size_from ss (i + 1) sz = Some (i + 1 + j)" "j < length ss" "sz \<le> ss ! j"
      using Cons.IH [of "i + 1"] Cons.prems by auto
    then show ?thesis using False by (intro exI [of _ "Suc j"]) simp
  qed
qed simp

lemma size_index_ok:
  assumes "slot_sizes_ok env" "sz \<le> 8000"
  shows "\<exists>i. MS_BLOCK_OBJ_SIZE_INDEX env sz = Some i \<and> i < length (block_obj_sizes env) \<and> sz \<le> block_obj_sizes env ! i \<and>
    size_ok (block_obj_sizes env ! i)"
proof -
  have mem: "8000 \<in> set (block_obj_sizes env)" using assms(1) by (auto simp: slot_sizes_ok_def dest: last_in_set)
  have find: "\<exists>i. ms_find_block_obj_size_index env n = Some i \<and> i < length (block_obj_sizes env) \<and> n \<le> block_obj_sizes env ! i"
    if "n \<le> 8000" for n
    using find_size_from_ok [of "block_obj_sizes env" n 0] mem that by (auto simp: ms_find_block_obj_size_index_def)
  have ok: "size_ok (block_obj_sizes env ! i)" if "i < length (block_obj_sizes env)" for i
    using assms(1) that by (simp add: slot_sizes_ok_def)
  show ?thesis
  proof (cases "(sz + 7) div 8 < MS_NUM_FAST_BLOCK_OBJ_SIZE_INDEXES")
    case True
    then have fast: "MS_BLOCK_OBJ_SIZE_INDEX env sz = ms_find_block_obj_size_index env ((sz + 7) div 8 * 8)"
      by (simp add: MS_BLOCK_OBJ_SIZE_INDEX_def fast_block_obj_size_indexes_def)
    have "(sz + 7) div 8 * 8 \<le> 8000" "sz \<le> (sz + 7) div 8 * 8"
      using True by (auto simp: MS_NUM_FAST_BLOCK_OBJ_SIZE_INDEXES_def)
    then show ?thesis unfolding fast using find [of "(sz + 7) div 8 * 8"] ok le_trans by blast
  next
    case False
    then show ?thesis using find [OF assms(2)] ok by (auto simp: MS_BLOCK_OBJ_SIZE_INDEX_def)
  qed
qed

lemma link_slots_ok:
  assumes b: "block_aligned b" "0 < sz"
  shows "i + n < MS_BLOCK_FREE div sz \<Longrightarrow>
    chain (link_slots n (slot_addr b sz i) sz mem) (slot_addr b sz i) (map (slot_addr b sz) [i..<Suc (i + n)]) \<and>
    (\<forall>a. a \<notin> slot_addr b sz ` {i..i + n} \<longrightarrow> link_slots n (slot_addr b sz i) sz mem a = mem a)"
proof (induction n arbitrary: i mem)
  case 0
  then show ?case using slot_addr_0 [OF b, of i] by simp
next
  case (Suc n)
  let ?next = "slot_addr b sz (Suc i)" and ?mem = "mem(slot_addr b sz i := slot_addr b sz (Suc i))"
  let ?mem' = "link_slots n ?next sz ?mem"
  have nx: "slot_addr b sz i + of_nat sz = ?next" by (simp add: MS_BLOCK_OBJ_FOR_SIZE_def)
  have IH: "chain ?mem' ?next (map (slot_addr b sz) [Suc i..<Suc (Suc i + n)])"
    "\<And>a. a \<notin> slot_addr b sz ` {Suc i..Suc i + n} \<Longrightarrow> ?mem' a = ?mem a"
    using conjunct1 [OF Suc.IH [of "Suc i" ?mem]] conjunct2 [OF Suc.IH [of "Suc i" ?mem]] Suc.prems
    by (simp_all del: upt_Suc fun_upd_apply)
  have "slot_addr b sz i \<notin> slot_addr b sz ` {Suc i..Suc i + n}"
  proof
    assume "slot_addr b sz i \<in> slot_addr b sz ` {Suc i..Suc i + n}"
    then obtain j where "j \<in> {Suc i..Suc i + n}" "slot_addr b sz i = slot_addr b sz j" by blast
    then show False using slot_addr_inj [OF b, of i j] Suc.prems by simp
  qed
  then have "?mem' (slot_addr b sz i) = ?next" using IH(2) by simp
  then have 2: "chain ?mem' (slot_addr b sz i) (map (slot_addr b sz) (i # [Suc i..<Suc (Suc i + n)]))"
    using IH(1) slot_addr_0 [OF b, of i] Suc.prems by (simp del: upt_Suc)
  have "i # [Suc i..<Suc (Suc i + n)] = [i..<Suc (i + Suc n)]" by (simp add: upt_conv_Cons)
  note 2 [unfolded this]
  moreover have "?mem' a = mem a" if a: "a \<notin> slot_addr b sz ` {i..i + Suc n}" for a
  proof -
    have "a \<notin> slot_addr b sz ` {Suc i..Suc i + n}" using a by force
    moreover have "a \<noteq> slot_addr b sz i" using a by force
    ultimately show ?thesis using IH(2) by simp
  qed
  ultimately show ?case by (simp add: nx del: upt_Suc)
qed

lemma push_empty_blocks_ok:
  "chain mem r es \<Longrightarrow> distinct es \<Longrightarrow> k \<le> 32 \<Longrightarrow> \<forall>i<k. nth_block p i \<notin> set es \<and> nth_block p i \<noteq> 0 \<Longrightarrow>
    \<exists>mem' r'. push_empty_blocks k p mem r = (mem', r') \<and> chain mem' r' (rev (map (nth_block p) [0..<k]) @ es) \<and>
      (\<forall>a. a \<notin> nth_block p ` {..<k} \<longrightarrow> mem' a = mem a)"
proof (induction k arbitrary: p mem r es)
  case (Suc k)
  have p: "p \<notin> set es" "p \<noteq> 0" using Suc.prems(4) by force+
  note nth = nth_block_Suc [of p]
  have "nth_block p (Suc i) \<notin> set (p # es) \<and> nth_block p (Suc i) \<noteq> 0" if "i < k" for i
  proof -
    have "nth_block p (Suc i) \<noteq> p" using nth_block_inj [of "Suc i" 0 p] that Suc.prems(3) by simp
    then show ?thesis using Suc.prems(4) that by simp
  qed
  then have "\<forall>i<k. nth_block (p + of_nat ms_block_size) i \<notin> set (p # es) \<and> nth_block (p + of_nat ms_block_size) i \<noteq> 0"
    unfolding nth by blast
  from Suc.IH [OF chain_push [OF Suc.prems(1) p(2,1)] _ _ this]
  obtain mem' r' where 1: "push_empty_blocks k (p + of_nat ms_block_size) (mem(p := r)) p = (mem', r')"
    "chain mem' r' (rev (map (nth_block (p + of_nat ms_block_size)) [0..<k]) @ p # es)"
    "\<forall>a. a \<notin> nth_block (p + of_nat ms_block_size) ` {..<k} \<longrightarrow> mem' a = (mem(p := r)) a"
    using Suc.prems(2,3) p(1) by (auto simp del: fun_upd_apply)
  have up: "[0..<Suc k] = 0 # map Suc [0..<k]" by (simp only: map_Suc_upt upt_conv_Cons zero_less_Suc)
  have "rev (map (nth_block p) [0..<Suc k]) @ es = rev (map (nth_block (p + of_nat ms_block_size)) [0..<k]) @ p # es"
    unfolding up by (simp add: comp_def nth del: upt_Suc)
  moreover have "mem' a = mem a" if a: "a \<notin> nth_block p ` {..<Suc k}" for a
  proof -
    have "a \<notin> nth_block (p + of_nat ms_block_size) ` {..<k}" unfolding nth using a by force
    moreover have "a \<noteq> p" using a by force
    ultimately show ?thesis using 1(3) by simp
  qed
  ultimately show ?case using 1(1,2) by simp
qed simp

lemma ms_invD:
  assumes "ms_inv env os_free h mem bls sl es"
  shows "block_chain (ms_blocks h) (free_block_lists h t s) (bls t s)" "distinct (bls t s)"
    "b \<in> set (bls t s) \<Longrightarrow> block_free env mem t s b (the (ms_blocks h b)) (sl b)"
    "chain mem (empty_blocks h) es" "distinct es" "e \<in> set es \<Longrightarrow> block_aligned e" "e \<in> set es \<Longrightarrow> ms_blocks h e = None"
    "b \<in> os_free (ms_os h) \<Longrightarrow> ms_blocks h b = None" "b \<in> os_free (ms_os h) \<Longrightarrow> b \<notin> set es"
  using assms by (auto simp: ms_inv_def)

lemma os_lawD:
  assumes "os_law env os_free"
  shows "b \<in> os_free os \<Longrightarrow> block_aligned b"
    "os_alloc env (ms_block_size * k) os = (0, os') \<Longrightarrow> 0 < k \<Longrightarrow> k \<le> 32 \<Longrightarrow>
      os_free os' = os_free os \<and> (k = 1 \<longrightarrow> os_free os = {})"
    "os_alloc env (ms_block_size * k) os = (p, os') \<Longrightarrow> p \<noteq> 0 \<Longrightarrow> 0 < k \<Longrightarrow> k \<le> 32 \<Longrightarrow>
      os_free os' \<subseteq> os_free os \<and> (\<forall>i<k. nth_block p i \<in> os_free os \<and> nth_block p i \<notin> os_free os')"
    "try_alloc_space env ms_block_size os = (g, os') \<Longrightarrow> os_free os' = os_free os"
proof -
  note l = assms [unfolded os_law_def MS_BLOCK_ALLOC_NUM_def]
  show "b \<in> os_free os \<Longrightarrow> block_aligned b" using l by blast
  show "os_free os' = os_free os \<and> (k = 1 \<longrightarrow> os_free os = {})"
    if "os_alloc env (ms_block_size * k) os = (0, os')" "0 < k" "k \<le> 32"
    using conjunct1 [OF conjunct2 [OF l], rule_format, OF that(2,3), of os] that(1) by simp
  show "os_free os' \<subseteq> os_free os \<and> (\<forall>i<k. nth_block p i \<in> os_free os \<and> nth_block p i \<notin> os_free os')"
    if "os_alloc env (ms_block_size * k) os = (p, os')" "p \<noteq> 0" "0 < k" "k \<le> 32"
    using conjunct1 [OF conjunct2 [OF l], rule_format, OF that(3,4), of os] that(1,2) by simp
  show "os_free os' = os_free os" if "try_alloc_space env ms_block_size os = (g, os')"
    using conjunct2 [OF conjunct2 [OF l], rule_format, of os] that by simp
qed

lemma block_chain_some: "block_chain blocks p bs \<Longrightarrow> b \<in> set bs \<Longrightarrow> blocks b \<noteq> None"
  by (induction bs arbitrary: p) auto

lemma listed_some: "ms_inv env os_free h mem bls sl es \<Longrightarrow> b \<in> listed bls \<Longrightarrow> ms_blocks h b \<noteq> None"
  unfolding listed_def by (blast dest: block_chain_some ms_invD(1))

lemma listed_free:
  assumes "ms_inv env os_free h mem bls sl es" "b \<in> listed bls"
  shows "\<exists>t s. block_free env mem t s b (the (ms_blocks h b)) (sl b)"
  using assms(2) ms_invD(3) [OF assms(1)] unfolding listed_def by blast

lemma free_words_base: "block_free env mem t s b bl ss \<Longrightarrow> a \<in> free_words b (ms_obj_size bl) ss \<Longrightarrow> MS_BLOCK_DATA_FOR_OBJ a = b"
  unfolding free_words_def block_free_def by (auto intro: slot_words_base)

lemma ms_free_cases:
  assumes inv: "ms_inv env os_free h mem bls sl es" and os: "os_law env os_free" and a: "a \<in> ms_free os_free h bls sl es"
  obtains (slot) b where "MS_BLOCK_DATA_FOR_OBJ a = b" "b \<in> listed bls" "a \<in> free_words b (ms_obj_size (the (ms_blocks h b))) (sl b)"
  | (block) b where "MS_BLOCK_DATA_FOR_OBJ a = b" "b \<in> set es \<union> os_free (ms_os h)" "a \<in> block_words b ms_block_size"
proof -
  have "(\<exists>b. MS_BLOCK_DATA_FOR_OBJ a = b \<and> b \<in> listed bls \<and> a \<in> free_words b (ms_obj_size (the (ms_blocks h b))) (sl b)) \<or>
    (\<exists>b. MS_BLOCK_DATA_FOR_OBJ a = b \<and> b \<in> set es \<union> os_free (ms_os h) \<and> a \<in> block_words b ms_block_size)"
    using a listed_free [OF inv] free_words_base ms_invD(6) [OF inv] os_lawD(1) [OF os] block_words_base
    unfolding ms_free_def by blast
  then show ?thesis using slot block by blast
qed

lemma not_free:
  assumes "ms_inv env os_free h mem bls sl es" "os_law env os_free" "block_aligned b"
    "b \<notin> listed bls" "b \<notin> set es" "b \<notin> os_free (ms_os h)"
  shows "block_words b ms_block_size \<inter> ms_free os_free h bls sl es = {}"
proof (rule ccontr)
  assume "block_words b ms_block_size \<inter> ms_free os_free h bls sl es \<noteq> {}"
  then obtain a where a: "a \<in> block_words b ms_block_size" "a \<in> ms_free os_free h bls sl es" by blast
  have "MS_BLOCK_DATA_FOR_OBJ a = b" using block_words_base [OF assms(3) a(1)] .
  then show False using a(2) assms(4-6) by (elim ms_free_cases [OF assms(1,2)]) auto
qed

lemma block_in: "b \<in> block_words b ms_block_size"
  by (rule block_words_start) (simp add: ms_consts)

lemma slot_addr_free:
  assumes "block_free env mem t s b bl ss" "i \<in> set ss"
  shows "slot_addr b (ms_obj_size bl) i \<in> free_words b (ms_obj_size bl) ss"
  using assms slot_addr_in [of "ms_obj_size bl" b i] by (auto simp: free_words_def block_free_def size_ok_def)

lemma block_free_frame:
  assumes f: "block_free env mem t s b bl ss" and eq: "\<And>a. a \<in> free_words b (ms_obj_size bl) ss \<Longrightarrow> mem' a = mem a"
  shows "block_free env mem' t s b bl ss"
proof -
  have e: "chain mem' p (map (slot_addr b (ms_obj_size bl)) ss) = chain mem p (map (slot_addr b (ms_obj_size bl)) ss)" for p
    using eq [OF slot_addr_free [OF f]] by (intro chain_frame) auto
  show ?thesis unfolding block_free_def e by (rule f [unfolded block_free_def])
qed

lemma ms_inv_frame:
  assumes inv: "ms_inv env os_free h mem bls sl es" and eq: "\<And>a. a \<in> ms_free os_free h bls sl es \<Longrightarrow> mem' a = mem a"
  shows "ms_inv env os_free h mem' bls sl es"
proof -
  have "block_free env mem' t s b (the (ms_blocks h b)) (sl b)" if b: "b \<in> set (bls t s)" for t s b
  proof -
    have "mem' a = mem a" if "a \<in> free_words b (ms_obj_size (the (ms_blocks h b))) (sl b)" for a
      using eq that b unfolding ms_free_def listed_def by blast
    then show ?thesis using ms_invD(3) [OF inv b] by (rule block_free_frame [rotated])
  qed
  moreover have "chain mem' (empty_blocks h) es"
    using ms_invD(4) [OF inv] chain_frame [of es mem' mem] eq block_in unfolding ms_free_def by blast
  ultimately show ?thesis using inv unfolding ms_inv_def by blast
qed

section \<open>Empty blocks\<close>

lemma alloc_os_blocks_ok:
  assumes os: "os_law env os_free"
  shows "j \<le> 5 \<Longrightarrow> os_free os \<noteq> {} \<Longrightarrow> \<exists>n p os'. alloc_os_blocks env (2 ^ j) os = Some (n, p, os') \<and> 0 < n \<and> n \<le> 32 \<and> p \<noteq> 0 \<and>
    os_free os' \<subseteq> os_free os \<and> (\<forall>i<n. nth_block p i \<in> os_free os \<and> nth_block p i \<notin> os_free os')"
proof (induction j arbitrary: os)
  case 0
  obtain p os' where 1: "os_alloc env (ms_block_size * 1) os = (p, os')" by (metis surj_pair)
  then have "p \<noteq> 0" using os_lawD(2) [OF os, of 1 os os'] 0 by auto
  then show ?case using os_lawD(3) [OF os 1] 1 by (subst alloc_os_blocks.simps) simp
next
  case (Suc j)
  obtain p os' where 1: "os_alloc env (ms_block_size * 2 ^ Suc j) os = (p, os')" by (metis surj_pair)
  have j: "(2::nat) ^ Suc j \<le> 32" using power_increasing [of "Suc j" 5 "2::nat"] Suc.prems(1) by simp
  show ?case
  proof (cases "p = 0")
    case True
    then have "os_free os' = os_free os" using os_lawD(2) [OF os 1 [unfolded True]] j by simp
    then show ?thesis using Suc.IH [of os'] Suc.prems 1 True by (subst alloc_os_blocks.simps) simp
  next
    case False
    then show ?thesis using os_lawD(3) [OF os 1 False] 1 j by (subst alloc_os_blocks.simps) simp
  qed
qed

lemma alloc_os_blocks_none:
  assumes os: "os_law env os_free"
  shows "j \<le> 5 \<Longrightarrow> os_free os = {} \<Longrightarrow> alloc_os_blocks env (2 ^ j) os = None"
proof (induction j arbitrary: os)
  case 0
  obtain p os' where 1: "os_alloc env (ms_block_size * 1) os = (p, os')" by (metis surj_pair)
  have "p = 0" using os_lawD(3) [OF os 1] 0 by auto
  then show ?case using 1 by (subst alloc_os_blocks.simps) simp
next
  case (Suc j)
  obtain p os' where 1: "os_alloc env (ms_block_size * 2 ^ Suc j) os = (p, os')" by (metis surj_pair)
  have j: "(2::nat) ^ Suc j \<le> 32" using power_increasing [of "Suc j" 5 "2::nat"] Suc.prems(1) by simp
  have p: "p = 0"
  proof (rule ccontr)
    assume "p \<noteq> 0"
    have "0 < (2::nat) ^ Suc j" by simp
    then have "nth_block p 0 \<in> os_free os" using os_lawD(3) [OF os 1 \<open>p \<noteq> 0\<close> _ j] by blast
    then show False using Suc.prems(2) by simp
  qed
  then have "os_free os' = {}" using os_lawD(2) [OF os 1 [unfolded p]] j Suc.prems(2) by simp
  then show ?case using Suc.IH [of os'] Suc.prems 1 p by (subst alloc_os_blocks.simps) simp
qed

definition mem_step :: "u64 set \<Rightarrow> memory \<Rightarrow> u64 set \<Rightarrow> memory \<Rightarrow> bool" where
  "mem_step F mem F' mem' \<longleftrightarrow> F' \<subseteq> F \<and> (\<forall>a. a \<notin> F \<longrightarrow> mem' a = mem a)"

lemma mem_step_trans: "mem_step F mem F' mem' \<Longrightarrow> mem_step F' mem' F'' mem'' \<Longrightarrow> mem_step F mem F'' mem''"
  unfolding mem_step_def by (metis subset_iff)

lemma grow_empty_ok:
  assumes inv: "ms_inv env os_free h mem bls sl []" and os: "os_law env os_free" and free: "os_free (ms_os h) \<noteq> {}"
  shows "\<exists>n p os' mem' r es'. alloc_os_blocks env MS_BLOCK_ALLOC_NUM (ms_os h) = Some (n, p, os') \<and>
    push_empty_blocks n p mem (empty_blocks h) = (mem', r) \<and> es' \<noteq> [] \<and>
    (let h' = h\<lparr>empty_blocks := r, ms_os := os', num_empty_blocks := num_empty_blocks h + int n\<rparr> in
      ms_inv env os_free h' mem' bls sl es' \<and> mem_step (ms_free os_free h bls sl []) mem (ms_free os_free h' bls sl es') mem')"
proof -
  obtain n p os' where 1: "alloc_os_blocks env MS_BLOCK_ALLOC_NUM (ms_os h) = Some (n, p, os')" "0 < n" "n \<le> 32" "p \<noteq> 0"
    "os_free os' \<subseteq> os_free (ms_os h)" "\<And>i. i < n \<Longrightarrow> nth_block p i \<in> os_free (ms_os h)" "\<And>i. i < n \<Longrightarrow> nth_block p i \<notin> os_free os'"
    using alloc_os_blocks_ok [OF os, of 5 "ms_os h"] free by (auto simp: MS_BLOCK_ALLOC_NUM_def)
  let ?es = "rev (map (nth_block p) [0..<n])"
  have set: "set ?es = nth_block p ` {..<n}" by auto
  have nz: "\<forall>i<n. nth_block p i \<notin> set [] \<and> nth_block p i \<noteq> 0" using os_lawD(1) [OF os 1(6)] by (auto simp: block_aligned_def)
  obtain mem' r where 2: "push_empty_blocks n p mem (empty_blocks h) = (mem', r)" "chain mem' r ?es"
    "\<forall>a. a \<notin> nth_block p ` {..<n} \<longrightarrow> mem' a = mem a"
    using push_empty_blocks_ok [OF ms_invD(4) [OF inv] _ 1(3) nz] by auto
  let ?h = "h\<lparr>empty_blocks := r, ms_os := os', num_empty_blocks := num_empty_blocks h + int n\<rparr>"
  have sub: "set ?es \<subseteq> os_free (ms_os h)" "set ?es \<inter> os_free os' = {}" unfolding set using 1(6,7) by auto
  have "inj_on (nth_block p) {..<n}" using 1(3) nth_block_inj by (auto simp: inj_on_def)
  then have dist: "distinct ?es" by (simp add: distinct_map atLeast0LessThan)
  have "mem' a = mem a" if "a \<in> ms_free os_free (h\<lparr>ms_os := os'\<rparr>) bls sl []" for a
  proof -
    have inv': "ms_inv env os_free (h\<lparr>ms_os := os'\<rparr>) mem bls sl []" using inv 1(5) unfolding ms_inv_def by auto
    have "a \<notin> set ?es"
    proof
      assume a: "a \<in> set ?es"
      then have "block_aligned a" "ms_blocks h a = None" "a \<notin> os_free os'"
        using sub os_lawD(1) [OF os] ms_invD(8) [OF inv] by blast+
      then have "a \<notin> ms_free os_free (h\<lparr>ms_os := os'\<rparr>) bls sl []"
        using not_free [OF inv' os, of a] listed_some [OF inv, of a] block_in [of a] by auto
      then show False using that by blast
    qed
    then show ?thesis using 2(3) unfolding set by blast
  qed
  note eq = this
  have "ms_inv env os_free (h\<lparr>ms_os := os'\<rparr>) mem bls sl []" using inv 1(5) unfolding ms_inv_def by auto
  then have "ms_inv env os_free (h\<lparr>ms_os := os'\<rparr>) mem' bls sl []" by (rule ms_inv_frame) (rule eq)
  note inv' = ms_invD [OF this]
  have "block_aligned e \<and> ms_blocks h e = None" if "e \<in> set ?es" for e
    using sub(1) that os_lawD(1) [OF os] ms_invD(8) [OF inv] by blast
  moreover have "ms_blocks h b = None \<and> b \<notin> set ?es" if "b \<in> os_free os'" for b
    using that sub(2) 1(5) ms_invD(8) [OF inv] by blast
  ultimately have "ms_inv env os_free ?h mem' bls sl ?es"
    using inv'(1-3) 2(2) dist unfolding ms_inv_def by (simp del: set_rev set_map)
  moreover have "mem_step (ms_free os_free h bls sl []) mem (ms_free os_free ?h bls sl ?es) mem'"
    unfolding mem_step_def
  proof (intro conjI allI impI)
    show "ms_free os_free ?h bls sl ?es \<subseteq> ms_free os_free h bls sl []"
      using sub(1) 1(5) by (auto simp: ms_free_def)
    fix a assume "a \<notin> ms_free os_free h bls sl []"
    then have "a \<notin> set ?es" using sub(1) block_in unfolding ms_free_def by blast
    then show "mem' a = mem a" using 2(3) unfolding set by blast
  qed
  moreover have "?es \<noteq> []" using 1(2) by simp
  ultimately show ?thesis using 1(1) 2(1) by (intro exI [of _ n] exI [of _ p] exI [of _ os'] exI [of _ mem'] exI [of _ r] exI [of _ ?es]) simp
qed

lemma pop_empty_ok:
  assumes inv: "ms_inv env os_free h mem bls sl (b # es)" and os: "os_law env os_free"
  shows "let h' = h\<lparr>empty_blocks := mem b, num_empty_blocks := m\<rparr> in
    ms_inv env os_free h' (mem(b := 0)) bls sl es \<and>
    mem_step (ms_free os_free h bls sl (b # es)) mem (ms_free os_free h' bls sl es) (mem(b := 0)) \<and>
    block_words b ms_block_size \<subseteq> ms_free os_free h bls sl (b # es) \<and>
    block_words b ms_block_size \<inter> ms_free os_free h' bls sl es = {}"
proof -
  let ?h = "h\<lparr>empty_blocks := mem b, num_empty_blocks := m\<rparr>"
  note d = ms_invD [OF inv]
  have b: "block_aligned b" "ms_blocks h b = None" "b \<notin> set es" "b \<notin> os_free (ms_os h)" using d(5,6,7,9) by auto
  have inv': "ms_inv env os_free ?h mem bls sl es" using inv unfolding ms_inv_def by simp
  note dis = not_free [OF inv' os b(1) _ b(3)]
  have "b \<notin> listed bls" using listed_some [OF inv] b(2) by blast
  then have dis: "block_words b ms_block_size \<inter> ms_free os_free ?h bls sl es = {}" using dis b(4) by simp
  have "(mem(b := 0)) a = mem a" if "a \<in> ms_free os_free ?h bls sl es" for a
    using that dis block_in [of b] by (cases "a = b") auto
  with inv' have "ms_inv env os_free ?h (mem(b := 0)) bls sl es" by (rule ms_inv_frame)
  moreover have sub: "block_words b ms_block_size \<subseteq> ms_free os_free h bls sl (b # es)" by (auto simp: ms_free_def)
  moreover have "ms_free os_free ?h bls sl es \<subseteq> ms_free os_free h bls sl (b # es)" by (auto simp: ms_free_def)
  moreover have "(mem(b := 0)) a = mem a" if "a \<notin> ms_free os_free h bls sl (b # es)" for a
    using that sub block_in [of b] by auto
  ultimately show ?thesis using dis unfolding mem_step_def Let_def by blast
qed

lemma get_empty_none: "os_law env os_free \<Longrightarrow> empty_blocks h = 0 \<Longrightarrow> os_free (ms_os h) = {} \<Longrightarrow> ms_get_empty_block env mem h = None"
  using alloc_os_blocks_none [of env os_free 5 "ms_os h"] by (simp add: ms_get_empty_block_def MS_BLOCK_ALLOC_NUM_def)

lemma get_empty_ok:
  assumes inv: "ms_inv env os_free h mem bls sl es" and os: "os_law env os_free" and free: "empty_blocks h \<noteq> 0 \<or> os_free (ms_os h) \<noteq> {}"
  shows "\<exists>b mem' h' es'. ms_get_empty_block env mem h = Some (b, mem', h') \<and> ms_inv env os_free h' mem' bls sl es' \<and>
    mem_step (ms_free os_free h bls sl es) mem (ms_free os_free h' bls sl es') mem' \<and>
    block_words b ms_block_size \<subseteq> ms_free os_free h bls sl es \<and> block_words b ms_block_size \<inter> ms_free os_free h' bls sl es' = {} \<and>
    block_aligned b \<and> b \<notin> set es' \<and> b \<notin> os_free (ms_os h') \<and> ms_blocks h b = None \<and>
    ms_blocks h' = ms_blocks h \<and> free_block_lists h' = free_block_lists h"
proof -
  have ex: "\<exists>mem1 h1 b es1. ms_inv env os_free h1 mem1 bls sl (b # es1) \<and>
    mem_step (ms_free os_free h bls sl es) mem (ms_free os_free h1 bls sl (b # es1)) mem1 \<and>
    ms_blocks h1 = ms_blocks h \<and> free_block_lists h1 = free_block_lists h \<and>
    ms_get_empty_block env mem h =
      (let h2 = h1\<lparr>empty_blocks := mem1 b, num_empty_blocks := num_empty_blocks h1 - 1\<rparr> in Some (b, mem1(b := 0), h2))"
  proof (cases es)
    case Nil
    have e: "empty_blocks h = 0" using ms_invD(4) [OF inv] Nil by simp
    then have sys: "os_free (ms_os h) \<noteq> {}" using free by simp
    obtain n p os' mem' r b es' where 1: "alloc_os_blocks env MS_BLOCK_ALLOC_NUM (ms_os h) = Some (n, p, os')"
      "push_empty_blocks n p mem (empty_blocks h) = (mem', r)"
      "ms_inv env os_free (h\<lparr>empty_blocks := r, ms_os := os', num_empty_blocks := num_empty_blocks h + int n\<rparr>) mem' bls sl (b # es')"
      "mem_step (ms_free os_free h bls sl []) mem
        (ms_free os_free (h\<lparr>empty_blocks := r, ms_os := os', num_empty_blocks := num_empty_blocks h + int n\<rparr>) bls sl (b # es')) mem'"
      using grow_empty_ok [OF inv [unfolded Nil] os sys] unfolding Let_def by (metis list.exhaust)
    have "r = b" "b \<noteq> 0" "b AND (of_nat ms_block_size - 1) = 0"
      using ms_invD(4) [OF 1(3)] ms_invD(6) [OF 1(3), of b] by (auto simp: block_aligned_def)
    then show ?thesis using 1 Nil e
      by (intro exI [of _ mem'] exI [of _ "h\<lparr>empty_blocks := r, ms_os := os', num_empty_blocks := num_empty_blocks h + int n\<rparr>"]
          exI [of _ b] exI [of _ es']) (simp add: ms_get_empty_block_def)
  next
    case (Cons b es1)
    have "empty_blocks h = b" "b \<noteq> 0" "b AND (of_nat ms_block_size - 1) = 0"
      using ms_invD(4) [OF inv] ms_invD(6) [OF inv, of b] Cons by (auto simp: block_aligned_def)
    then show ?thesis using inv Cons
      by (intro exI [of _ mem] exI [of _ h] exI [of _ b] exI [of _ es1]) (simp add: ms_get_empty_block_def mem_step_def)
  qed
  then obtain mem1 h1 b es1 where 1: "ms_inv env os_free h1 mem1 bls sl (b # es1)"
    "mem_step (ms_free os_free h bls sl es) mem (ms_free os_free h1 bls sl (b # es1)) mem1"
    "ms_blocks h1 = ms_blocks h" "free_block_lists h1 = free_block_lists h"
    "ms_get_empty_block env mem h = Some (b, mem1(b := 0), h1\<lparr>empty_blocks := mem1 b, num_empty_blocks := num_empty_blocks h1 - 1\<rparr>)"
    unfolding Let_def by blast
  let ?h = "h1\<lparr>empty_blocks := mem1 b, num_empty_blocks := num_empty_blocks h1 - 1\<rparr>"
  note p = pop_empty_ok [OF 1(1) os, of "num_empty_blocks h1 - 1", unfolded Let_def]
  have "mem_step (ms_free os_free h bls sl es) mem (ms_free os_free ?h bls sl es1) (mem1(b := 0))"
    using mem_step_trans [OF 1(2)] p by blast
  moreover have "block_words b ms_block_size \<subseteq> ms_free os_free h bls sl es" using p 1(2) unfolding mem_step_def by blast
  moreover have "block_aligned b" "b \<notin> set es1" "b \<notin> os_free (ms_os ?h)" "ms_blocks h b = None"
    "ms_blocks ?h = ms_blocks h" "free_block_lists ?h = free_block_lists h"
    using ms_invD(5,6,7,9) [OF 1(1)] 1(3,4) by auto
  ultimately show ?thesis using 1(5) p by blast
qed

section \<open>Changing one block\<close>

lemma block_chain_upd: "b \<notin> set bs \<Longrightarrow> block_chain (blocks(b := x)) p bs = block_chain blocks p bs"
  by (induction bs arbitrary: p) auto

text \<open>One block and the list it is on change, and memory only inside the block.\<close>

lemma ms_inv_update:
  assumes inv: "ms_inv env os_free h mem bls sl es" and os: "os_law env os_free"
    and h': "ms_blocks h' = (ms_blocks h)(b := Some bl)" "empty_blocks h' = empty_blocks h" "ms_os h' = ms_os h"
    and others: "\<And>t' s'. (t', s') \<noteq> (t, s) \<Longrightarrow>
      bls' t' s' = bls t' s' \<and> free_block_lists h' t' s' = free_block_lists h t' s' \<and> b \<notin> set (bls t' s')"
    and list: "block_chain (ms_blocks h') (free_block_lists h' t s) (bls' t s)" "distinct (bls' t s)"
      "set (bls' t s) \<subseteq> insert b (set (bls t s))"
    and b: "b \<in> set (bls' t s) \<Longrightarrow> block_free env mem' t s b bl ss" "b \<notin> set es" "b \<notin> os_free (ms_os h)"
    and eq: "\<And>a. a \<in> ms_free os_free h bls sl es \<Longrightarrow> MS_BLOCK_DATA_FOR_OBJ a \<noteq> b \<Longrightarrow> mem' a = mem a"
  shows "ms_inv env os_free h' mem' bls' (sl(b := ss)) es"
    "ms_free os_free h' bls' (sl(b := ss)) es \<subseteq>
      {a \<in> ms_free os_free h bls sl es. MS_BLOCK_DATA_FOR_OBJ a \<noteq> b} \<union>
      (if b \<in> set (bls' t s) then free_words b (ms_obj_size bl) ss else {})"
proof -
  note d = ms_invD [OF inv]
  have old: "c \<in> set (bls t' s')" if "c \<in> set (bls' t' s')" "c \<noteq> b" for c t' s'
    using others [of t' s'] list(3) that by (cases "(t', s') = (t, s)") auto
  have base: "MS_BLOCK_DATA_FOR_OBJ a = c" if "c \<in> set (bls t' s')" "a \<in> free_words c (ms_obj_size (the (ms_blocks h c))) (sl c)" for a c t' s'
    using free_words_base [OF d(3) [OF that(1)] that(2)] .
  have bs: "block_chain (ms_blocks h') (free_block_lists h' t' s') (bls' t' s') \<and> distinct (bls' t' s')" for t' s'
  proof (cases "(t', s') = (t, s)")
    case False
    then show ?thesis using others [OF False] block_chain_upd [of b "bls t' s'" "ms_blocks h"] d(1,2) unfolding h'(1) by simp
  qed (use list(1,2) in simp)
  have blocks: "block_free env mem' t' s' c (the (ms_blocks h' c)) ((sl(b := ss)) c)" if c: "c \<in> set (bls' t' s')" for t' s' c
  proof (cases "c = b")
    case True
    then have "(t', s') = (t, s)" using others [of t' s'] c by metis
    then show ?thesis using b(1) c True h'(1) by simp
  next
    case False
    note f = d(3) [OF old [OF c False]]
    have "mem' a = mem a" if a: "a \<in> free_words c (ms_obj_size (the (ms_blocks h c))) (sl c)" for a
    proof -
      have "a \<in> ms_free os_free h bls sl es" using a old [OF c False] unfolding ms_free_def listed_def by blast
      moreover have "MS_BLOCK_DATA_FOR_OBJ a \<noteq> b" using base [OF old [OF c False] a] False by simp
      ultimately show ?thesis by (rule eq)
    qed
    from block_free_frame [OF f this] show ?thesis using False h'(1) by simp
  qed
  have "mem' e = mem e" if e: "e \<in> set es" for e
  proof -
    have "MS_BLOCK_DATA_FOR_OBJ e = e" using block_words_base [OF d(6) [OF e] block_in] .
    then have "MS_BLOCK_DATA_FOR_OBJ e \<noteq> b" using e b(2) by auto
    moreover have "e \<in> ms_free os_free h bls sl es" using e block_in [of e] unfolding ms_free_def by blast
    ultimately show ?thesis using eq by blast
  qed
  then have "chain mem' (empty_blocks h') es" using d(4) chain_frame [of es mem' mem] h'(2) by simp
  moreover have "block_aligned e \<and> ms_blocks h' e = None" if "e \<in> set es" for e using d(6,7) [OF that] b(2) that h'(1) by auto
  moreover have "ms_blocks h' c = None \<and> c \<notin> set es" if "c \<in> os_free (ms_os h')" for c
    using d(8,9) [of c] that b(3) h'(1,3) by auto
  ultimately show "ms_inv env os_free h' mem' bls' (sl(b := ss)) es"
    using bs blocks d(5) unfolding ms_inv_def by blast
  show "ms_free os_free h' bls' (sl(b := ss)) es \<subseteq>
      {a \<in> ms_free os_free h bls sl es. MS_BLOCK_DATA_FOR_OBJ a \<noteq> b} \<union>
      (if b \<in> set (bls' t s) then free_words b (ms_obj_size bl) ss else {})"
  proof
    fix a assume "a \<in> ms_free os_free h' bls' (sl(b := ss)) es"
    then consider (slot) c t' s' where "c \<in> set (bls' t' s')" "a \<in> free_words c (ms_obj_size (the (ms_blocks h' c))) ((sl(b := ss)) c)"
      | (block) c where "c \<in> set es \<union> os_free (ms_os h)" "a \<in> block_words c ms_block_size"
      unfolding ms_free_def listed_def h'(3) by blast
    then show "a \<in> {a \<in> ms_free os_free h bls sl es. MS_BLOCK_DATA_FOR_OBJ a \<noteq> b} \<union>
      (if b \<in> set (bls' t s) then free_words b (ms_obj_size bl) ss else {})"
    proof cases
      case slot
      show ?thesis
      proof (cases "c = b")
        case True
        then have "(t', s') = (t, s)" using others [of t' s'] slot(1) by metis
        then show ?thesis using slot True h'(1) by simp
      next
        case False
        note c = old [OF slot(1) False]
        have a: "a \<in> free_words c (ms_obj_size (the (ms_blocks h c))) (sl c)" using slot(2) False h'(1) by simp
        then have "a \<in> ms_free os_free h bls sl es" using c unfolding ms_free_def listed_def by blast
        then show ?thesis using base [OF c a] False by simp
      qed
    next
      case block
      have "block_aligned c" using block(1) d(6) os_lawD(1) [OF os] by blast
      then have "MS_BLOCK_DATA_FOR_OBJ a = c" using block(2) by (rule block_words_base)
      moreover have "c \<noteq> b" using block(1) b(2,3) by auto
      moreover have "a \<in> ms_free os_free h bls sl es" using block unfolding ms_free_def by blast
      ultimately show ?thesis by simp
    qed
  qed
qed

lemma listed_other:
  assumes inv: "ms_inv env os_free h mem bls sl es" and b: "b \<in> set (bls t s)" and n: "(t', s') \<noteq> (t, s)"
  shows "b \<notin> set (bls t' s')"
proof
  assume "b \<in> set (bls t' s')"
  from ms_invD(3) [OF inv this] ms_invD(3) [OF inv b] n show False unfolding block_free_def by auto
qed

lemma listed_new: "ms_inv env os_free h mem bls sl es \<Longrightarrow> ms_blocks h b = None \<Longrightarrow> b \<notin> set (bls t s)"
  using listed_some [of env os_free h mem bls sl es b] by (auto simp: listed_def)

lemma listed_not_free:
  assumes inv: "ms_inv env os_free h mem bls sl es" and b: "b \<in> set (bls t s)"
  shows "b \<notin> set es" "b \<notin> os_free (ms_os h)"
proof -
  have "ms_blocks h b \<noteq> None" using block_chain_some [OF ms_invD(1) [OF inv] b] .
  then show "b \<notin> set es" "b \<notin> os_free (ms_os h)" using ms_invD(7,8) [OF inv, of b] by auto
qed

section \<open>A new block\<close>

lemma mem_stepI: "F' \<subseteq> F \<Longrightarrow> (\<And>a. a \<notin> F \<Longrightarrow> mem' a = mem a) \<Longrightarrow> mem_step F mem F' mem'"
  by (simp add: mem_step_def)

lemma unmarked_range: "set (unmarked b bl sz i) \<subseteq> {..<MS_BLOCK_FREE div sz}" "distinct (unmarked b bl sz i)"
  by (auto simp: unmarked_def)

lemma free_words_block:
  "block_aligned b \<Longrightarrow> size_ok sz \<Longrightarrow> set ss \<subseteq> {..<MS_BLOCK_FREE div sz} \<Longrightarrow> free_words b sz ss \<subseteq> block_words b ms_block_size"
  unfolding free_words_def using slot_words_block by blast

text \<open>The governor's answer for one block, and that it is granted when neither the allocator nor the system has one.\<close>

definition governor_grants :: "'o ms_env \<Rightarrow> 'o ms_heap \<Rightarrow> bool" where
  "governor_grants env h \<longleftrightarrow> fst (try_alloc_space env ms_block_size (ms_os h))"

text \<open>With the program's own governor: the law of the system carries over, and a block is granted exactly
  when it fits below the limit.\<close>

definition with_governor :: "'o ms_env \<Rightarrow> (sgen_memgov \<times> 'o) ms_env" where
  "with_governor env = \<lparr>block_obj_sizes = block_obj_sizes env,
    os_alloc = (\<lambda>n (g, os). case os_alloc env n os of (p, os) \<Rightarrow> (p, (g, os))),
    try_alloc_space = (\<lambda>n (g, os). case sgen_memgov_try_alloc_space (of_nat n) g of (granted, g) \<Rightarrow> (granted, (g, os))),
    to_space = to_space env\<rparr>"

lemma with_governor_law:
  assumes "os_law env os_free"
  shows "os_law (with_governor env) (os_free \<circ> snd)"
proof -
  note law = assms [unfolded os_law_def]
  show ?thesis unfolding os_law_def
  proof (intro conjI allI impI ballI)
    show "block_aligned b" if "b \<in> (os_free \<circ> snd) os" for b and os :: "sgen_memgov \<times> 'a"
      using law [THEN conjunct1] that by simp
    show "case os_alloc (with_governor env) (ms_block_size * k) os of (p, os') \<Rightarrow>
        if p = 0 then (os_free \<circ> snd) os' = (os_free \<circ> snd) os \<and> (k = 1 \<longrightarrow> (os_free \<circ> snd) os = {})
        else (os_free \<circ> snd) os' \<subseteq> (os_free \<circ> snd) os \<and>
          (\<forall>i. i < k \<longrightarrow> nth_block p i \<in> (os_free \<circ> snd) os \<and> nth_block p i \<notin> (os_free \<circ> snd) os')"
      if "0 < k" "k \<le> MS_BLOCK_ALLOC_NUM" for k and os :: "sgen_memgov \<times> 'a"
    proof -
      obtain g o' where os: "os = (g, o')" by fastforce
      obtain p o2 where p: "os_alloc env (ms_block_size * k) o' = (p, o2)" by fastforce
      from law [THEN conjunct2, THEN conjunct1, THEN spec, THEN spec, THEN mp, OF that(1), THEN mp, OF that(2), of o']
      have "if p = 0 then os_free o2 = os_free o' \<and> (k = 1 \<longrightarrow> os_free o' = {})
        else os_free o2 \<subseteq> os_free o' \<and> (\<forall>i. i < k \<longrightarrow> nth_block p i \<in> os_free o' \<and> nth_block p i \<notin> os_free o2)"
        unfolding p by simp
      moreover have "os_alloc (with_governor env) (ms_block_size * k) os = (p, (g, o2))" using p by (simp add: with_governor_def os)
      ultimately show ?thesis by (simp only: os prod.case o_apply snd_conv)
    qed
    show "(os_free \<circ> snd) (snd (try_alloc_space (with_governor env) ms_block_size os)) = (os_free \<circ> snd) os" for os
      by (cases os) (simp add: with_governor_def split: prod.split)
  qed
qed

lemma with_governor_grants:
  assumes "ms_os h = (g, os)" "allocated_heap g \<le> max_heap_size g"
  shows "governor_grants (with_governor env) h \<longleftrightarrow> unat (allocated_heap g) + ms_block_size \<le> unat (max_heap_size g)"
proof -
  obtain granted g' where r: "sgen_memgov_try_alloc_space (of_nat ms_block_size) g = (granted, g')" by fastforce
  have "unat (of_nat ms_block_size :: u64) = ms_block_size" by (simp add: ms_block_size_def)
  then show ?thesis using memgov_try_alloc(1) [OF assms(2) r] assms(1) r by (simp add: governor_grants_def with_governor_def)
qed

definition no_memory :: "'o ms_env \<Rightarrow> ('o \<Rightarrow> u64 set) \<Rightarrow> 'o ms_heap \<Rightarrow> bool" where
  "no_memory env os_free h \<longleftrightarrow> governor_grants env h \<and> empty_blocks h = 0 \<and> os_free (ms_os h) = {}"

lemma ms_alloc_block_none:
  assumes os: "os_law env os_free" and none: "no_memory env os_free h"
  shows "ms_alloc_block env s pinned refs mem h = None"
proof -
  obtain os1 where g: "try_alloc_space env ms_block_size (ms_os h) = (True, os1)"
    using none by (cases "try_alloc_space env ms_block_size (ms_os h)") (auto simp: no_memory_def governor_grants_def)
  have "ms_get_empty_block env mem (h\<lparr>ms_os := os1\<rparr>) = None"
    using get_empty_none [OF os] os_lawD(4) [OF os g] none by (simp add: no_memory_def)
  then show ?thesis using g by (simp add: ms_alloc_block_def)
qed

lemma ms_alloc_block_ok:
  assumes inv: "ms_inv env os_free h mem bls sl es" and os: "os_law env os_free"
    and s: "s < length (block_obj_sizes env)" "size_ok (block_obj_sizes env ! s)"
    and room: "\<not> no_memory env os_free h"
  shows "\<exists>mem' h' bls' sl' es'. ms_alloc_block env s pinned refs mem h = Some (governor_grants env h, mem', h') \<and>
    ms_inv env os_free h' mem' bls' sl' es' \<and>
    mem_step (ms_free os_free h bls sl es) mem (ms_free os_free h' bls' sl' es') mem' \<and>
    (governor_grants env h \<longrightarrow> bls' (FREE_BLOCKS pinned refs) s \<noteq> []) \<and> (\<not> governor_grants env h \<longrightarrow> mem' = mem)"
proof -
  let ?sz = "block_obj_sizes env ! s" and ?t = "FREE_BLOCKS pinned refs"
  let ?cnt = "MS_BLOCK_FREE div ?sz"
  obtain g os1 where g: "try_alloc_space env ms_block_size (ms_os h) = (g, os1)" by (metis surj_pair)
  note gl = os_lawD(4) [OF os g]
  have grants: "governor_grants env h = g" using g by (simp add: governor_grants_def)
  let ?h0 = "h\<lparr>ms_os := os1\<rparr>"
  have inv0: "ms_inv env os_free ?h0 mem bls sl es" using inv gl unfolding ms_inv_def by simp
  have F0: "ms_free os_free ?h0 bls sl es = ms_free os_free h bls sl es" using gl by (simp add: ms_free_def)
  show ?thesis
  proof (cases g)
    case False
    then show ?thesis using g inv0 F0 unfolding grants
      by (intro exI [of _ mem] exI [of _ ?h0] exI [of _ bls] exI [of _ sl] exI [of _ es])
        (simp add: ms_alloc_block_def mem_step_def)
  next
    case True
    have "empty_blocks ?h0 \<noteq> 0 \<or> os_free (ms_os ?h0) \<noteq> {}" using gl True room grants by (auto simp: no_memory_def)
    from get_empty_ok [OF inv0 os this] obtain b mem1 h1 es1 where 1: "ms_get_empty_block env mem ?h0 = Some (b, mem1, h1)"
      "ms_inv env os_free h1 mem1 bls sl es1" "mem_step (ms_free os_free h bls sl es) mem (ms_free os_free h1 bls sl es1) mem1"
      "block_words b ms_block_size \<subseteq> ms_free os_free h bls sl es" "block_words b ms_block_size \<inter> ms_free os_free h1 bls sl es1 = {}"
      "block_aligned b" "b \<notin> set es1" "b \<notin> os_free (ms_os h1)" "ms_blocks h1 b = None" "free_block_lists h1 = free_block_lists h"
      unfolding F0 by auto
    define bl where "bl = \<lparr>ms_obj_size = ?sz, ms_obj_size_index = s,
      ms_state = (if to_space env then BLOCK_STATE_MARKING else BLOCK_STATE_SWEPT), ms_pinned = pinned,
      ms_has_references = refs, ms_has_pinned = pinned, ms_is_to_space = to_space env,
      ms_free_list = b + of_nat MS_BLOCK_SKIP, ms_next_free = free_block_lists h1 ?t s, ms_mark_words = replicate MS_NUM_MARK_WORDS 0\<rparr>"
    let ?mem = "link_slots (?cnt - 1) (b + of_nat MS_BLOCK_SKIP) ?sz mem1"
    let ?bls = "bls(?t := (bls ?t)(s := b # bls ?t s))"
    define h2 where "h2 = h1\<lparr>ms_blocks := (ms_blocks h1)(b := Some bl),
      free_block_lists := (free_block_lists h1)(?t := (free_block_lists h1 ?t)(s := b)),
      allocated_blocks := allocated_blocks h1 @ [if refs then b OR 1 else b], num_major_sections := num_major_sections h1 + 1\<rparr>"
    have run: "ms_alloc_block env s pinned refs mem h = Some (True, ?mem, h2)"
      using g True 1(1) unfolding ms_alloc_block_def h2_def bl_def
      by (simp add: add_free_block_def upd_block_def Let_def)
    have sz: "0 < ?sz" "1 \<le> ?cnt" using s(2) by (auto simp: size_ok_def ms_consts less_eq_div_iff_mult_less_eq)
    have first: "slot_addr b ?sz 0 = b + of_nat MS_BLOCK_SKIP" by (simp add: MS_BLOCK_OBJ_FOR_SIZE_def)
    have up: "[0..<Suc (0 + (?cnt - 1))] = [0..<?cnt]" "{0..0 + (?cnt - 1)} = {..<?cnt}" using sz(2) by auto
    have links: "chain ?mem (b + of_nat MS_BLOCK_SKIP) (map (slot_addr b ?sz) [0..<?cnt])"
      "\<And>a. a \<notin> slot_addr b ?sz ` {..<?cnt} \<Longrightarrow> ?mem a = mem1 a"
      using link_slots_ok [OF 1(6) sz(1), of 0 "?cnt - 1" mem1] sz(2) unfolding first up by simp_all
    have bf: "block_free env ?mem ?t s b bl [0..<?cnt]"
      using links(1) 1(6) s sz(2) unfolding block_free_def bl_def by (simp del: chain.simps add: atLeast0LessThan)
    have fresh: "b \<notin> set (bls t' s')" for t' s' using listed_new [OF 1(2,9)] .
    have slot_in: "slot_addr b ?sz i \<in> block_words b ms_block_size" if "i < ?cnt" for i
      using slot_addr_in [OF sz(1)] slot_words_block [OF 1(6) s(2) that] by blast
    have eq: "?mem a = mem1 a" if "a \<in> ms_free os_free h1 bls sl es1" "MS_BLOCK_DATA_FOR_OBJ a \<noteq> b" for a
    proof (rule links(2))
      show "a \<notin> slot_addr b ?sz ` {..<?cnt}" using slot_in 1(5) that(1) by auto
    qed
    have others: "?bls t' s' = bls t' s' \<and> free_block_lists h2 t' s' = free_block_lists h1 t' s' \<and> b \<notin> set (bls t' s')"
      if "(t', s') \<noteq> (?t, s)" for t' s'
      using that fresh by (auto simp: h2_def)
    have "b \<noteq> 0" using 1(6) by (simp add: block_aligned_def)
    then have chain: "block_chain (ms_blocks h2) (free_block_lists h2 ?t s) (?bls ?t s)"
      using ms_invD(1) [OF 1(2), of ?t s] block_chain_upd [OF fresh] by (simp add: h2_def bl_def)
    have dist: "distinct (?bls ?t s)" using ms_invD(2) [OF 1(2)] fresh by simp
    have bin: "b \<in> set (?bls ?t s)" and bsz: "ms_obj_size bl = ?sz" by (simp_all add: bl_def)
    have sb: "set (?bls ?t s) \<subseteq> insert b (set (bls ?t s))" by simp
    have "ms_blocks h2 = (ms_blocks h1)(b := Some bl)" "empty_blocks h2 = empty_blocks h1" "ms_os h2 = ms_os h1"
      by (simp_all add: h2_def)
    note u = ms_inv_update [OF 1(2) os this others chain dist sb bf 1(7,8) eq]
    have inv2: "ms_inv env os_free h2 ?mem ?bls (sl(b := [0..<?cnt])) es1" by (rule u(1))
    have "ms_free os_free h2 ?bls (sl(b := [0..<?cnt])) es1 \<subseteq> ms_free os_free h1 bls sl es1 \<union> free_words b ?sz [0..<?cnt]"
      using u(2) [unfolded if_P [OF bin] bsz] by blast
    also have "free_words b ?sz [0..<?cnt] \<subseteq> block_words b ms_block_size"
      by (rule free_words_block [OF 1(6) s(2)]) auto
    finally have sub: "ms_free os_free h2 ?bls (sl(b := [0..<?cnt])) es1 \<subseteq> ms_free os_free h bls sl es"
      using 1(3,4) unfolding mem_step_def by blast
    have step: "mem_step (ms_free os_free h bls sl es) mem (ms_free os_free h2 ?bls (sl(b := [0..<?cnt])) es1) ?mem"
    proof (rule mem_stepI [OF sub])
      fix a assume a: "a \<notin> ms_free os_free h bls sl es"
      then have "a \<notin> slot_addr b ?sz ` {..<?cnt}" using slot_in 1(4) by blast
      then have "?mem a = mem1 a" by (rule links(2))
      then show "?mem a = mem a" using a 1(3) unfolding mem_step_def by simp
    qed
    have "?bls ?t s \<noteq> []" by simp
    moreover have "ms_alloc_block env s pinned refs mem h = Some (g, ?mem, h2)" using run True by simp
    ultimately show ?thesis using inv2 step True unfolding grants by blast
  qed
qed

section \<open>Taking a slot\<close>

lemma upd_block_same [simp]: "ms_blocks h b = Some bl \<Longrightarrow> ms_blocks (upd_block b f h) = (ms_blocks h)(b := Some (f bl))"
  by (simp add: upd_block_def)

lemma upd_block_sel [simp]: "free_block_lists (upd_block b f h) = free_block_lists h" "empty_blocks (upd_block b f h) = empty_blocks h"
    "ms_os (upd_block b f h) = ms_os h"
  by (simp_all add: upd_block_def)

lemma block_freeD:
  assumes "block_free env mem t s b bl ss"
  shows "block_aligned b" "s < length (block_obj_sizes env)" "ms_obj_size bl = block_obj_sizes env ! s" "size_ok (ms_obj_size bl)"
    "ss \<noteq> []" "distinct ss" "set ss \<subseteq> {..<MS_BLOCK_FREE div ms_obj_size bl}"
    "ms_state bl = BLOCK_STATE_NEED_SWEEPING \<Longrightarrow> ss = unmarked b bl (ms_obj_size bl) 0"
    "ms_state bl \<noteq> BLOCK_STATE_NEED_SWEEPING \<Longrightarrow> ms_state bl \<in> {BLOCK_STATE_SWEPT, BLOCK_STATE_MARKING}"
    "ms_state bl \<noteq> BLOCK_STATE_NEED_SWEEPING \<Longrightarrow> chain mem (ms_free_list bl) (map (slot_addr b (ms_obj_size bl)) ss)"
  using assms unfolding block_free_def by metis+

text \<open>The slots of a swept block change.\<close>

lemma block_free_slots:
  assumes "block_free env mem t s b bl ss" "ms_pinned bl' = ms_pinned bl" "ms_has_references bl' = ms_has_references bl"
    "ms_obj_size_index bl' = ms_obj_size_index bl" "ms_obj_size bl' = ms_obj_size bl"
    "ss' \<noteq> []" "distinct ss'" "set ss' \<subseteq> {..<MS_BLOCK_FREE div ms_obj_size bl}"
    "ms_state bl' \<in> {BLOCK_STATE_SWEPT, BLOCK_STATE_MARKING}"
    "chain mem' (ms_free_list bl') (map (slot_addr b (ms_obj_size bl)) ss')"
  shows "block_free env mem' t s b bl' ss'"
proof -
  have "ms_state bl' \<noteq> BLOCK_STATE_NEED_SWEEPING" using assms(9) by auto
  then show ?thesis using assms(6-10) block_freeD(1-4) [OF assms(1)] assms(1) unfolding block_free_def assms(2-5) by metis
qed

lemma access_ok:
  assumes inv: "ms_inv env os_free h mem bls sl es" and os: "os_law env os_free" and b: "bls t s = b # bs"
  shows "\<exists>mem' h' bl. ensure_can_access_block_free_list b mem h = Some (mem', h') \<and> ms_inv env os_free h' mem' bls sl es \<and>
    mem_step (ms_free os_free h bls sl es) mem (ms_free os_free h' bls sl es) mem' \<and>
    ms_blocks h' b = Some bl \<and> ms_state bl \<noteq> BLOCK_STATE_NEED_SWEEPING \<and> free_block_lists h' = free_block_lists h"
proof -
  have in_b: "b \<in> set (bls t s)" using b by simp
  obtain bl where bl: "ms_blocks h b = Some bl" using block_chain_some [OF ms_invD(1) [OF inv] in_b] by blast
  have f: "block_free env mem t s b bl (sl b)" using ms_invD(3) [OF inv in_b] bl by simp
  show ?thesis
  proof (cases "ms_state bl = BLOCK_STATE_NEED_SWEEPING")
    case False
    then have "ms_state bl = BLOCK_STATE_SWEPT \<or> ms_state bl = BLOCK_STATE_MARKING" using block_freeD(9) [OF f] by blast
    then show ?thesis using inv bl
      by (intro exI [of _ mem] exI [of _ h] exI [of _ bl]) (auto simp: ensure_can_access_block_free_list_def mem_step_def)
  next
    case True
    let ?sz = "ms_obj_size bl"
    let ?un = "unmarked b bl ?sz 0"
    note fd = block_freeD [OF f]
    have al: "block_aligned b" "size_ok ?sz" and sl: "sl b = ?un" using fd(1,4) fd(8) [OF True] by blast+
    obtain mem' fl where 1: "sweep_block b mem h = Some (True, mem', upd_block b (\<lambda>bl. bl\<lparr>ms_mark_words := replicate MS_NUM_MARK_WORDS 0,
        ms_free_list := fl, ms_state := BLOCK_STATE_SWEPT\<rparr>) h)"
      "chain mem' fl (map (slot_addr b ?sz) ?un)" "\<And>a. a \<notin> free_words b ?sz ?un \<Longrightarrow> mem' a = mem a"
      using sweep_block_ok [OF al bl refl True] unfolding free_words_def by blast
    define bl' where "bl' = bl\<lparr>ms_mark_words := replicate MS_NUM_MARK_WORDS 0, ms_free_list := fl, ms_state := BLOCK_STATE_SWEPT\<rparr>"
    let ?h = "upd_block b (\<lambda>bl. bl\<lparr>ms_mark_words := replicate MS_NUM_MARK_WORDS 0, ms_free_list := fl, ms_state := BLOCK_STATE_SWEPT\<rparr>) h"
    have h: "ms_blocks ?h = (ms_blocks h)(b := Some bl')" using bl by (simp add: bl'_def)
    have run: "ensure_can_access_block_free_list b mem h = Some (mem', ?h)"
      using bl True 1(1) by (simp add: ensure_can_access_block_free_list_def)
    have bf: "block_free env mem' t s b bl' (sl b)" using 1(2) by (intro block_free_slots [OF f]) (simp_all add: bl'_def fd(5-7) sl [symmetric])
    note nf = listed_not_free [OF inv in_b]
    have others: "bls t' s' = bls t' s' \<and> free_block_lists ?h t' s' = free_block_lists h t' s' \<and> b \<notin> set (bls t' s')"
      if "(t', s') \<noteq> (t, s)" for t' s' using listed_other [OF inv in_b that] by simp
    have chain: "block_chain (ms_blocks ?h) (free_block_lists ?h t s) (bls t s)"
      using ms_invD(1,2) [OF inv, of t s] block_chain_upd [of b bs "ms_blocks h"] bl unfolding h b by (simp add: bl'_def)
    have eq: "mem' a = mem a" if "a \<in> ms_free os_free h bls sl es" "MS_BLOCK_DATA_FOR_OBJ a \<noteq> b" for a
      using 1(3) [of a] free_words_base [OF f] that(2) sl by auto
    note u = ms_inv_update [OF inv os h _ _ others chain ms_invD(2) [OF inv] subset_insertI bf nf eq]
    have "sl(b := sl b) = sl" by simp
    note u = u [unfolded this]
    have inv': "ms_inv env os_free ?h mem' bls sl es" by (rule u(1)) simp_all
    have fw: "free_words b ?sz (sl b) \<subseteq> ms_free os_free h bls sl es" using in_b bl unfolding ms_free_def listed_def by force
    have "ms_free os_free ?h bls sl es \<subseteq> {a \<in> ms_free os_free h bls sl es. MS_BLOCK_DATA_FOR_OBJ a \<noteq> b} \<union> free_words b ?sz (sl b)"
      using u(2) in_b by (simp add: bl'_def)
    then have sub: "ms_free os_free ?h bls sl es \<subseteq> ms_free os_free h bls sl es" using fw by blast
    have "mem_step (ms_free os_free h bls sl es) mem (ms_free os_free ?h bls sl es) mem'"
      using 1(3) fw unfolding sl by (intro mem_stepI [OF sub]) blast
    moreover have "ms_blocks ?h b = Some bl'" "ms_state bl' \<noteq> BLOCK_STATE_NEED_SWEEPING" unfolding h by (simp_all add: bl'_def)
    moreover have "free_block_lists ?h = free_block_lists h" by simp
    ultimately show ?thesis using run inv' by blast
  qed
qed

lemma take_slot_ok:
  assumes inv: "ms_inv env os_free h mem bls sl es" and os: "os_law env os_free" and b: "bls t s = b # bs"
    and bl: "ms_blocks h b = Some bl" "ms_state bl \<noteq> BLOCK_STATE_NEED_SWEEPING"
  defines "obj \<equiv> ms_free_list bl"
  shows "obj \<noteq> 0 \<and> (\<exists>bls' sl'.
    (let h' = (if mem obj \<noteq> 0 then upd_block b (\<lambda>bl. bl\<lparr>ms_free_list := mem obj\<rparr>) h
       else upd_block b (\<lambda>bl. bl\<lparr>ms_free_list := 0, ms_next_free := 0\<rparr>)
         (h\<lparr>free_block_lists := (free_block_lists h)(t := (free_block_lists h t)(s := ms_next_free bl))\<rparr>)) in
     ms_inv env os_free h' mem bls' sl' es \<and> ms_free os_free h' bls' sl' es \<subseteq> ms_free os_free h bls sl es \<and>
     (\<exists>i. i < MS_BLOCK_FREE div block_obj_sizes env ! s \<and> obj = slot_addr b (block_obj_sizes env ! s) i \<and> block_aligned b) \<and>
     block_words obj (block_obj_sizes env ! s) \<subseteq> ms_free os_free h bls sl es \<and>
     block_words obj (block_obj_sizes env ! s) \<inter> ms_free os_free h' bls' sl' es = {}))"
proof -
  have in_b: "b \<in> set (bls t s)" using b by simp
  have f: "block_free env mem t s b bl (sl b)" using ms_invD(3) [OF inv in_b] bl by simp
  note fd = block_freeD [OF f]
  let ?sz = "ms_obj_size bl"
  have sz: "?sz = block_obj_sizes env ! s" by (rule fd(3))
  obtain i ss where ss: "sl b = i # ss" using fd(5) by (cases "sl b") auto
  have ch: "chain mem obj (map (slot_addr b ?sz) (i # ss))" using fd(10) [OF bl(2)] unfolding obj_def ss .
  then have o: "obj = slot_addr b ?sz i" "obj \<noteq> 0" "chain mem (mem obj) (map (slot_addr b ?sz) ss)" by auto
  have i: "i < MS_BLOCK_FREE div ?sz" "i \<notin> set ss" "set ss \<subseteq> {..<MS_BLOCK_FREE div ?sz}" "distinct ss"
    and al: "block_aligned b" "size_ok ?sz" using fd(1,4,6,7) unfolding ss by simp_all
  have fw: "free_words b ?sz (sl b) \<subseteq> ms_free os_free h bls sl es" using in_b bl unfolding ms_free_def listed_def by force
  have words: "block_words obj (block_obj_sizes env ! s) = slot_words b ?sz i" unfolding slot_words_def o(1) sz ..
  have w1: "slot_words b ?sz i \<subseteq> ms_free os_free h bls sl es" using fw ss by (auto simp: free_words_def)
  have w2: "slot_words b ?sz i \<inter> free_words b ?sz ss = {}"
    using slot_words_disjoint [OF al(1) i(1)] i(2,3) unfolding free_words_def by blast
  have w3: "MS_BLOCK_DATA_FOR_OBJ a = b" if "a \<in> slot_words b ?sz i" for a using slot_words_base [OF al(1) i(1) that] .
  note nf = listed_not_free [OF inv in_b]
  let ?h = "if mem obj \<noteq> 0 then upd_block b (\<lambda>bl. bl\<lparr>ms_free_list := mem obj\<rparr>) h
    else upd_block b (\<lambda>bl. bl\<lparr>ms_free_list := 0, ms_next_free := 0\<rparr>)
         (h\<lparr>free_block_lists := (free_block_lists h)(t := (free_block_lists h t)(s := ms_next_free bl))\<rparr>)"
  let ?bl = "if mem obj \<noteq> 0 then bl\<lparr>ms_free_list := mem obj\<rparr> else bl\<lparr>ms_free_list := 0, ms_next_free := 0\<rparr>"
  let ?bls = "if mem obj \<noteq> 0 then bls else bls(t := (bls t)(s := bs))"
  have h: "ms_blocks ?h = (ms_blocks h)(b := Some ?bl)" "empty_blocks ?h = empty_blocks h" "ms_os ?h = ms_os h" using bl by simp_all
  have others: "?bls t' s' = bls t' s' \<and> free_block_lists ?h t' s' = free_block_lists h t' s' \<and> b \<notin> set (bls t' s')"
    if "(t', s') \<noteq> (t, s)" for t' s' using listed_other [OF inv in_b that] that by auto
  have nb: "b \<notin> set bs" "distinct bs" using ms_invD(2) [OF inv, of t s] b by auto
  have chb: "free_block_lists h t s = b" "b \<noteq> 0" "block_chain (ms_blocks h) (ms_next_free bl) bs"
    using ms_invD(1) [OF inv, of t s] b bl by simp_all
  have chain: "block_chain (ms_blocks ?h) (free_block_lists ?h t s) (?bls t s)"
    using chb block_chain_upd [OF nb(1)] b unfolding h(1) by simp
  have dist: "distinct (?bls t s)" "set (?bls t s) \<subseteq> insert b (set (bls t s))" using nb b by auto
  have bf: "block_free env mem t s b ?bl ss" if m: "b \<in> set (?bls t s)"
  proof -
    have "mem obj \<noteq> 0" using m nb(1) by (auto split: if_splits)
    moreover then have "ss \<noteq> []" using o(3) by (cases ss) auto
    ultimately show ?thesis using o(3) i(3,4) fd(9) [OF bl(2)] by (intro block_free_slots [OF f]) simp_all
  qed
  note u = ms_inv_update [OF inv os h others chain dist bf nf refl]
  have inv': "ms_inv env os_free ?h mem ?bls (sl(b := ss)) es" by (rule u(1))
  have sub: "ms_free os_free ?h ?bls (sl(b := ss)) es \<subseteq>
      {a \<in> ms_free os_free h bls sl es. MS_BLOCK_DATA_FOR_OBJ a \<noteq> b} \<union> free_words b ?sz ss"
    using u(2) by (auto split: if_splits)
  have "free_words b ?sz ss \<subseteq> free_words b ?sz (sl b)" unfolding ss free_words_def by auto
  then have "ms_free os_free ?h ?bls (sl(b := ss)) es \<subseteq> ms_free os_free h bls sl es" using sub fw by blast
  moreover have "slot_words b ?sz i \<inter> ms_free os_free ?h ?bls (sl(b := ss)) es = {}" using sub w2 w3 by blast
  moreover have "\<exists>i. i < MS_BLOCK_FREE div block_obj_sizes env ! s \<and> obj = slot_addr b (block_obj_sizes env ! s) i \<and> block_aligned b"
    using o(1) i(1) al(1) unfolding sz by blast
  ultimately show ?thesis unfolding Let_def words using o(2) inv' w1
    by (intro conjI exI [of _ ?bls] exI [of _ "sl(b := ss)"])
qed

lemma block_words_mono: "n \<le> m \<Longrightarrow> block_words p n \<subseteq> block_words p m"
  unfolding block_words_def by (auto intro: less_le_trans)

lemma take_slot_run:
  assumes "free_block_lists h t s = b" "ensure_can_access_block_free_list b mem h = Some (mem', h')"
    "ms_blocks h' b = Some bl" "ms_free_list bl \<noteq> 0"
  shows "unlink_slot_from_free_list_uncontested t s mem h = Some (ms_free_list bl, mem',
    if mem' (ms_free_list bl) \<noteq> 0 then upd_block b (\<lambda>bl'. bl'\<lparr>ms_free_list := mem' (ms_free_list bl)\<rparr>) h'
    else upd_block b (\<lambda>bl. bl\<lparr>ms_free_list := 0, ms_next_free := 0\<rparr>)
      (h'\<lparr>free_block_lists := (free_block_lists h')(t := (free_block_lists h' t)(s := ms_next_free bl))\<rparr>))"
  using assms by (simp add: unlink_slot_from_free_list_uncontested_def Let_def)

lemma unlink_ok:
  assumes inv: "ms_inv env os_free h mem bls sl es" and os: "os_law env os_free" and ne: "bls t s \<noteq> []"
    and sz: "sz \<le> block_obj_sizes env ! s" "size_ok (block_obj_sizes env ! s)"
  shows "\<exists>d mem' h' bls' sl'. unlink_slot_from_free_list_uncontested t s mem h = Some (d, mem', h') \<and>
    ms_inv env os_free h' mem' bls' sl' es \<and>
    mem_step (ms_free os_free h bls sl es) mem (ms_free os_free h' bls' sl' es) mem' \<and>
    d \<noteq> 0 \<and> d AND 7 = 0 \<and> block_words d sz \<subseteq> ms_free os_free h bls sl es \<and>
    block_words d (block_obj_sizes env ! s) \<inter> ms_free os_free h' bls' sl' es = {}"
proof -
  obtain b bs where b: "bls t s = b # bs" using ne by (cases "bls t s") auto
  have head: "free_block_lists h t s = b" using ms_invD(1) [OF inv, of t s] b by simp
  obtain mem1 h1 bl where 1: "ensure_can_access_block_free_list b mem h = Some (mem1, h1)" "ms_inv env os_free h1 mem1 bls sl es"
    "mem_step (ms_free os_free h bls sl es) mem (ms_free os_free h1 bls sl es) mem1"
    "ms_blocks h1 b = Some bl" "ms_state bl \<noteq> BLOCK_STATE_NEED_SWEEPING"
    using access_ok [OF inv os b] by blast
  let ?d = "ms_free_list bl"
  let ?h = "if mem1 ?d \<noteq> 0 then upd_block b (\<lambda>bl'. bl'\<lparr>ms_free_list := mem1 ?d\<rparr>) h1
    else upd_block b (\<lambda>bl. bl\<lparr>ms_free_list := 0, ms_next_free := 0\<rparr>)
      (h1\<lparr>free_block_lists := (free_block_lists h1)(t := (free_block_lists h1 t)(s := ms_next_free bl))\<rparr>)"
  obtain bls' sl' i where 2: "?d \<noteq> 0" "ms_inv env os_free ?h mem1 bls' sl' es"
    "ms_free os_free ?h bls' sl' es \<subseteq> ms_free os_free h1 bls sl es"
    "i < MS_BLOCK_FREE div block_obj_sizes env ! s" "?d = slot_addr b (block_obj_sizes env ! s) i" "block_aligned b"
    "block_words ?d (block_obj_sizes env ! s) \<subseteq> ms_free os_free h1 bls sl es"
    "block_words ?d (block_obj_sizes env ! s) \<inter> ms_free os_free ?h bls' sl' es = {}"
    using take_slot_ok [OF 1(2) os b 1(4,5)] unfolding Let_def by blast
  note run = take_slot_run [OF head 1(1,4) 2(1)]
  have "mem_step (ms_free os_free h1 bls sl es) mem1 (ms_free os_free ?h bls' sl' es) mem1"
    using 2(3) by (intro mem_stepI) simp_all
  then have "mem_step (ms_free os_free h bls sl es) mem (ms_free os_free ?h bls' sl' es) mem1" by (rule mem_step_trans [OF 1(3)])
  moreover have "?d AND 7 = 0" using slot_addr_aligned [OF 2(6) sz(2) 2(4)] 2(5) by simp
  moreover have "block_words ?d sz \<subseteq> ms_free os_free h bls sl es"
    using block_words_mono [OF sz(1), of ?d] 2(7) 1(3) unfolding mem_step_def by blast
  ultimately show ?thesis using run 2(1,2,8) by blast
qed

lemma alloc_obj_ok:
  assumes inv: "ms_inv env os_free h mem bls sl es" and os: "os_law env os_free" and sizes: "slot_sizes_ok env"
    and sz: "16 \<le> sz" "sz \<le> 8000" and s0: "MS_BLOCK_OBJ_SIZE_INDEX env sz = Some s"
    and room: "\<not> (free_block_lists h (FREE_BLOCKS pinned refs) s = 0 \<and> no_memory env os_free h)"
  shows "\<exists>d mem' h' bls' sl' es'. alloc_obj env vt sz pinned refs mem h = Some (d, mem', h') \<and>
    (d = 0 \<longleftrightarrow> free_block_lists h (FREE_BLOCKS pinned refs) s = 0 \<and> \<not> governor_grants env h) \<and> (d = 0 \<longrightarrow> mem' = mem) \<and>
    ms_inv env os_free h' mem' bls' sl' es' \<and>
    mem_step (ms_free os_free h bls sl es) mem (ms_free os_free h' bls' sl' es') mem' \<and>
    (d \<noteq> 0 \<longrightarrow> d AND 7 = 0 \<and> mem' d = vt \<and> block_words d sz \<subseteq> ms_free os_free h bls sl es \<and>
      block_words d sz \<inter> ms_free os_free h' bls' sl' es' = {})"
proof -
  have s: "MS_BLOCK_OBJ_SIZE_INDEX env sz = Some s" "s < length (block_obj_sizes env)" "sz \<le> block_obj_sizes env ! s"
    "size_ok (block_obj_sizes env ! s)" using size_index_ok [OF sizes sz(2)] s0 by auto
  let ?t = "FREE_BLOCKS pinned refs" and ?F = "ms_free os_free h bls sl es"
  obtain mem1 h1 bls1 sl1 es1 ok where 1:
    "(if free_block_lists h ?t s = 0 then ms_alloc_block env s pinned refs mem h else Some (True, mem, h)) = Some (ok, mem1, h1)"
    "ms_inv env os_free h1 mem1 bls1 sl1 es1" "mem_step ?F mem (ms_free os_free h1 bls1 sl1 es1) mem1"
    "ok \<longrightarrow> bls1 ?t s \<noteq> []" "ok \<longleftrightarrow> \<not> (free_block_lists h ?t s = 0 \<and> \<not> governor_grants env h)" "\<not> ok \<longrightarrow> mem1 = mem"
  proof (cases "free_block_lists h ?t s = 0")
    case True
    then have "\<not> no_memory env os_free h" using room by simp
    from ms_alloc_block_ok [OF inv os s(2,4) this, of pinned refs] obtain mem' h' bls' sl' es' where 2:
      "ms_alloc_block env s pinned refs mem h = Some (governor_grants env h, mem', h')" "ms_inv env os_free h' mem' bls' sl' es'"
      "mem_step ?F mem (ms_free os_free h' bls' sl' es') mem'"
      "governor_grants env h \<longrightarrow> bls' ?t s \<noteq> []" "\<not> governor_grants env h \<longrightarrow> mem' = mem" by blast
    show ?thesis by (rule that [of "governor_grants env h" mem' h' bls' sl' es']) (use 2 True in simp_all)
  next
    case False
    then have "bls ?t s \<noteq> []" using ms_invD(1) [OF inv, of ?t s] by (cases "bls ?t s") auto
    moreover have "mem_step ?F mem ?F mem" by (simp add: mem_step_def)
    ultimately show ?thesis using that [of True mem h bls sl es] False inv by simp
  qed
  show ?thesis
  proof (cases ok)
    case False
    then have "alloc_obj env vt sz pinned refs mem h = Some (0, mem1, h1)" using s(1) 1(1) by (simp add: alloc_obj_def)
    then show ?thesis using 1(2,3,5,6) False by blast
  next
    case True
    obtain d mem2 h2 bls2 sl2 where 2: "unlink_slot_from_free_list_uncontested ?t s mem1 h1 = Some (d, mem2, h2)"
      "ms_inv env os_free h2 mem2 bls2 sl2 es1"
      "mem_step (ms_free os_free h1 bls1 sl1 es1) mem1 (ms_free os_free h2 bls2 sl2 es1) mem2"
      "d \<noteq> 0" "d AND 7 = 0" "block_words d sz \<subseteq> ms_free os_free h1 bls1 sl1 es1"
      "block_words d (block_obj_sizes env ! s) \<inter> ms_free os_free h2 bls2 sl2 es1 = {}"
      using unlink_ok [OF 1(2) os _ s(3,4), of ?t] 1(4) True by blast
    define h3 where "h3 = h2\<lparr>total_allocated_major := total_allocated_major h2 + block_obj_sizes env ! s\<rparr>"
    have run: "alloc_obj env vt sz pinned refs mem h = Some (d, mem2(d := vt), h3)"
      using s(1) 1(1) True 2(1) by (simp add: alloc_obj_def h3_def)
    have F: "ms_free os_free h3 bls2 sl2 es1 = ms_free os_free h2 bls2 sl2 es1" by (simp add: h3_def ms_free_def)
    have words: "block_words d sz \<inter> ms_free os_free h2 bls2 sl2 es1 = {}" using block_words_mono [OF s(3), of d] 2(7) by blast
    have d_in: "d \<in> block_words d sz" using sz(1) by (intro block_words_start) simp
    have "ms_inv env os_free h3 mem2 bls2 sl2 es1" using 2(2) unfolding ms_inv_def h3_def by simp
    moreover have "(mem2(d := vt)) a = mem2 a" if "a \<in> ms_free os_free h3 bls2 sl2 es1" for a
      using that words d_in unfolding F by (cases "a = d") auto
    ultimately have inv3: "ms_inv env os_free h3 (mem2(d := vt)) bls2 sl2 es1" by (rule ms_inv_frame)
    have "mem_step (ms_free os_free h1 bls1 sl1 es1) mem1 (ms_free os_free h3 bls2 sl2 es1) (mem2(d := vt))"
      using 2(3,6) d_in unfolding F mem_step_def by (metis fun_upd_other subset_iff)
    then have step: "mem_step ?F mem (ms_free os_free h3 bls2 sl2 es1) (mem2(d := vt))" by (rule mem_step_trans [OF 1(3)])
    have "block_words d sz \<subseteq> ?F" using 2(6) 1(3) unfolding mem_step_def by blast
    then show ?thesis using run inv3 step 2(4,5) words 1(5) True unfolding F [symmetric]
      by (intro exI [of _ d] exI [of _ "mem2(d := vt)"] exI [of _ h3] exI [of _ bls2] exI [of _ sl2] exI [of _ es1] conjI impI) simp_all
  qed
qed

lemma alloc_obj_none:
  assumes "os_law env os_free" "no_memory env os_free h" "MS_BLOCK_OBJ_SIZE_INDEX env sz = Some s" "free_block_lists h (FREE_BLOCKS pinned refs) s = 0"
  shows "alloc_obj env vt sz pinned refs mem h = None"
  using ms_alloc_block_none [OF assms(1,2)] assms(3,4) by (simp add: alloc_obj_def)

section \<open>The contract of the collection's allocator\<close>

definition ms_wf :: "'h minor_config \<Rightarrow> 'o ms_env \<Rightarrow> ('o \<Rightarrow> u64 set) \<Rightarrow> 'o ms_heap \<Rightarrow> memory \<Rightarrow> u64 set \<Rightarrow> bool" where
  "ms_wf cf env os_free h mem F \<longleftrightarrow>
    os_law env os_free \<and> slot_sizes_ok env \<and>
    (\<exists>bls sl es. ms_inv env os_free h mem bls sl es \<and> F = ms_free os_free h bls sl es) \<and>
    (\<forall>a\<in>F. \<not> sgen_ptr_in_nursery cf a)"

text \<open>What a collection needs of it: the program does not end for lack of memory.\<close>

definition ms_hp :: "'h minor_config \<Rightarrow> 'o ms_env \<Rightarrow> ('o \<Rightarrow> u64 set) \<Rightarrow> 'o ms_heap \<Rightarrow> memory \<Rightarrow> u64 set \<Rightarrow> bool" where
  "ms_hp cf env os_free h mem F \<longleftrightarrow> governor_within env os_free \<and> ms_wf cf env os_free h mem F"

definition ms_config :: "'o ms_env \<Rightarrow> 'o ms_heap minor_config \<Rightarrow> 'o ms_heap minor_config" where
  "ms_config env cf = cf\<lparr>cf_alloc_object := major_alloc_object env\<rparr>"

lemma ms_config_nursery [simp]: "sgen_ptr_in_nursery (ms_config env cf) = sgen_ptr_in_nursery cf"
  by (simp add: ms_config_def sgen_ptr_in_nursery_def fun_eq_iff)

text \<open>No block with free slots of the size.\<close>

definition no_free_slot :: "'o ms_env \<Rightarrow> 'o ms_heap \<Rightarrow> u64 \<Rightarrow> bool \<Rightarrow> bool" where
  "no_free_slot env h sz refs \<longleftrightarrow>
    (case MS_BLOCK_OBJ_SIZE_INDEX env (unat sz) of None \<Rightarrow> False | Some s \<Rightarrow> free_block_lists h (FREE_BLOCKS False refs) s = 0)"

lemma major_alloc_ok:
  assumes hp: "ms_wf cf env os_free h mem F" and sz: "16 \<le> sz" "sz \<le> SGEN_MAX_SMALL_OBJ_SIZE"
  shows "if no_free_slot env h sz refs \<and> no_memory env os_free h then major_alloc_object env vt sz refs mem h = None
    else \<exists>d mem' h' F'. major_alloc_object env vt sz refs mem h = Some (d, mem', h') \<and>
      (d = 0 \<longleftrightarrow> no_free_slot env h sz refs \<and> \<not> governor_grants env h) \<and> (d = 0 \<longrightarrow> mem' = mem) \<and>
      ms_wf cf env os_free h' mem' F' \<and> mem_step F mem F' mem' \<and>
      (d \<noteq> 0 \<longrightarrow> d AND 7 = 0 \<and> mem' d = vt \<and> block_words d (unat sz) \<subseteq> F \<and> block_words d (unat sz) \<inter> F' = {})"
proof -
  obtain bls sl es where 1: "os_law env os_free" "slot_sizes_ok env" "ms_inv env os_free h mem bls sl es" "F = ms_free os_free h bls sl es"
    "\<forall>a\<in>F. \<not> sgen_ptr_in_nursery cf a" using hp unfolding ms_wf_def by blast
  have u: "16 \<le> unat sz" "unat sz \<le> 8000" using sz by (simp_all add: word_le_nat_alt SGEN_MAX_SMALL_OBJ_SIZE_def)
  obtain s where s: "MS_BLOCK_OBJ_SIZE_INDEX env (unat sz) = Some s" using size_index_ok [OF 1(2) u(2)] by blast
  have no: "no_free_slot env h sz refs \<longleftrightarrow> free_block_lists h (FREE_BLOCKS False refs) s = 0" by (simp add: no_free_slot_def s)
  show ?thesis
  proof (cases "no_free_slot env h sz refs \<and> no_memory env os_free h")
    case True
    then show ?thesis using alloc_obj_none [OF 1(1) _ s] by (simp add: major_alloc_object_def no)
  next
    case False
    from alloc_obj_ok [OF 1(3,1,2) u s False [unfolded no], of vt] obtain d mem' h' bls' sl' es' where 2:
      "major_alloc_object env vt sz refs mem h = Some (d, mem', h')"
      "d = 0 \<longleftrightarrow> no_free_slot env h sz refs \<and> \<not> governor_grants env h" "d = 0 \<longrightarrow> mem' = mem"
      "ms_inv env os_free h' mem' bls' sl' es'" "mem_step F mem (ms_free os_free h' bls' sl' es') mem'"
      "d \<noteq> 0 \<longrightarrow> d AND 7 = 0 \<and> mem' d = vt \<and> block_words d (unat sz) \<subseteq> F \<and>
        block_words d (unat sz) \<inter> ms_free os_free h' bls' sl' es' = {}"
      unfolding major_alloc_object_def 1(4) no by blast
    have "ms_wf cf env os_free h' mem' (ms_free os_free h' bls' sl' es')"
      using 1(1,2,5) 2(4,5) unfolding ms_wf_def mem_step_def by blast
    then show ?thesis using 2(1-3,5,6) False by (auto simp: if_not_P)
  qed
qed

lemma ms_wf_frame: "ms_wf cf env os_free h mem F \<Longrightarrow> (\<And>a. a \<in> F \<Longrightarrow> mem' a = mem a) \<Longrightarrow> ms_wf cf env os_free h mem' F"
  unfolding ms_wf_def using ms_inv_frame by blast

lemma ms_hp_frame: "ms_hp cf env os_free h mem F \<Longrightarrow> (\<And>a. a \<in> F \<Longrightarrow> mem' a = mem a) \<Longrightarrow> ms_hp cf env os_free h mem' F"
  unfolding ms_hp_def using ms_wf_frame by blast

interpretation ms: promotion_heap "ms_config env cf" "ms_hp cf env os_free" for env cf os_free
proof
  fix h :: "'a ms_heap" and mem F vt refs and size' :: u64
  assume hp: "ms_hp cf env os_free h mem F" and s: "16 \<le> size'" "size' \<le> SGEN_MAX_SMALL_OBJ_SIZE"
  have wf: "governor_within env os_free" "ms_wf cf env os_free h mem F" using hp by (simp_all add: ms_hp_def)
  have "\<not> no_memory env os_free h" using wf(1) by (auto simp: no_memory_def governor_within_def governor_grants_def)
  then obtain d mem' h' F' where 1: "major_alloc_object env vt size' refs mem h = Some (d, mem', h')" "ms_wf cf env os_free h' mem' F'"
    "mem_step F mem F' mem'"
    "d \<noteq> 0 \<longrightarrow> d AND 7 = 0 \<and> mem' d = vt \<and> block_words d (unat size') \<subseteq> F \<and> block_words d (unat size') \<inter> F' = {}"
    using major_alloc_ok [OF wf(2) s, of refs vt] by (auto split: if_splits)
  have "ms_hp cf env os_free h' mem' F'" using wf(1) 1(2) by (simp add: ms_hp_def)
  then show "\<exists>d mem' h' F'. cf_alloc_object (ms_config env cf) vt size' refs mem h = Some (d, mem', h') \<and>
      ms_hp cf env os_free h' mem' F' \<and> F' \<subseteq> F \<and> (\<forall>a. a \<notin> F \<longrightarrow> mem' a = mem a) \<and>
      (d \<noteq> 0 \<longrightarrow> d AND 7 = 0 \<and> mem' d = vt \<and> block_words d (unat size') \<subseteq> F \<and> block_words d (unat size') \<inter> F' = {})"
    using 1(1,3,4) unfolding ms_config_def mem_step_def by auto
next
  show "ms_hp cf env os_free h mem' F" if "ms_hp cf env os_free h mem F" "\<And>a. a \<in> F \<Longrightarrow> mem' a = mem a" for h mem F mem'
    using that by (rule ms_hp_frame)
  show "\<not> sgen_ptr_in_nursery (ms_config env cf) a" if "ms_hp cf env os_free h mem F" "a \<in> F" for h mem F a
    using that unfolding ms_hp_def ms_wf_def by simp
qed

section \<open>Properties\<close>

text \<open>C36: sweeping a block that needs it turns exactly its unmarked slots, in ascending order, into the
  free list, clears the words of the objects that died there, leaves every other word of memory as
  it is, and leaves the block swept with no mark.\<close>

theorem sweep_block_correct:
  assumes "block_aligned b" "size_ok sz"
    and "ms_blocks h b = Some bl" "ms_obj_size bl = sz" "ms_state bl = BLOCK_STATE_NEED_SWEEPING"
  shows "\<exists>mem' fl h'. sweep_block b mem h = Some (True, mem', h') \<and>
    ms_blocks h' = (ms_blocks h)(b \<mapsto> bl\<lparr>ms_mark_words := replicate MS_NUM_MARK_WORDS 0, ms_free_list := fl,
      ms_state := BLOCK_STATE_SWEPT\<rparr>) \<and>
    chain mem' fl (map (\<lambda>s. MS_BLOCK_OBJ_FOR_SIZE b s sz)
      (filter (\<lambda>s. \<not> MS_MARK_BIT bl (MS_CALC_MARK_BIT (MS_BLOCK_OBJ_FOR_SIZE b s sz))) [0..<MS_BLOCK_FREE div sz])) \<and>
    (\<forall>a. (\<forall>s\<in>set (unmarked b bl sz 0). a \<notin> slot_words b sz s) \<longrightarrow> mem' a = mem a) \<and>
    (\<forall>s\<in>set (unmarked b bl sz 0). MS_OBJ_ALLOCED mem (MS_BLOCK_OBJ_FOR_SIZE b s sz) b \<longrightarrow>
      (\<forall>k. 8 dvd k \<longrightarrow> 8 \<le> k \<longrightarrow> k < sz \<longrightarrow> mem' (MS_BLOCK_OBJ_FOR_SIZE b s sz + of_nat k) = 0))"
proof -
  obtain mem' fl where 1: "sweep_block b mem h = Some (True, mem', upd_block b (\<lambda>bl. bl\<lparr>ms_mark_words := replicate MS_NUM_MARK_WORDS 0,
        ms_free_list := fl, ms_state := BLOCK_STATE_SWEPT\<rparr>) h)"
    "chain mem' fl (map (slot_addr b sz) (unmarked b bl sz 0))"
    "\<forall>a. a \<notin> (\<Union>s\<in>set (unmarked b bl sz 0). slot_words b sz s) \<longrightarrow> mem' a = mem a"
    "\<forall>s\<in>set (unmarked b bl sz 0). MS_OBJ_ALLOCED mem (slot_addr b sz s) b \<longrightarrow>
        (\<forall>k. 8 dvd k \<longrightarrow> 8 \<le> k \<longrightarrow> k < sz \<longrightarrow> mem' (slot_addr b sz s + of_nat k) = 0)"
    using sweep_block_ok [OF assms] by blast
  show ?thesis
    using 1(1,3,4) 1(2) [unfolded unmarked_def slot_marked_def] assms(3)
    by (intro exI [of _ mem'] exI [of _ fl] exI conjI) auto
qed

definition demo_block :: MSBlockInfo where
  "demo_block = \<lparr>ms_obj_size = 8000, ms_obj_size_index = 2, ms_state = BLOCK_STATE_NEED_SWEEPING, ms_pinned = False,
    ms_has_references = True, ms_has_pinned = False, ms_is_to_space = False, ms_free_list = 0, ms_next_free = 0,
    ms_mark_words = (replicate MS_NUM_MARK_WORDS 0)[1 := push_bit 6 1]\<rparr>"

definition demo_os_alloc :: "nat \<Rightarrow> nat \<Rightarrow> u64 \<times> nat" where
  "demo_os_alloc sz n =
    (if n + sz div ms_block_size \<le> 1024 then (of_nat (2 ^ 30 + ms_block_size * n), n + sz div ms_block_size) else (0, n))"

definition demo_env :: "nat ms_env" where
  "demo_env = \<lparr>block_obj_sizes = [16, 24, 8000], os_alloc = demo_os_alloc, try_alloc_space = (\<lambda>_ n. (n < 1024, n)),
    to_space = False\<rparr>"

definition demo_heap :: "nat ms_heap" where
  "demo_heap = \<lparr>ms_blocks = (\<lambda>_. None), free_block_lists = (\<lambda>_ _. 0), empty_blocks = 0, num_empty_blocks = 0,
    allocated_blocks = [], num_major_sections = 0, total_allocated_major = 0, ms_os = 0\<rparr>"

text \<open>A block at \<open>2 ^ 30\<close> with two slots of 8000 bytes, the first one marked.\<close>

theorem sweep_block_witness:
  "\<exists>mem' fl h'. sweep_block 0x40000000 (\<lambda>_. 7) (demo_heap\<lparr>ms_blocks := [0x40000000 \<mapsto> demo_block]\<rparr>) = Some (True, mem', h') \<and>
    chain mem' fl [0x40002070] \<and> mem' 0x40002078 = 0 \<and> mem' 0x40000130 = 7"
proof -
  have b: "block_aligned 0x40000000" by (simp add: block_aligned_def ms_consts)
  have cnt: "MS_BLOCK_FREE div 8000 = 2" by (simp add: ms_consts)
  have slots: "slot_addr 0x40000000 8000 0 = 0x40000130" "slot_addr 0x40000000 8000 1 = 0x40002070"
    by (simp_all add: MS_BLOCK_OBJ_FOR_SIZE_def ms_consts)
  have marks: "MS_CALC_MARK_BIT 0x40000130 = (1, 6)" "MS_CALC_MARK_BIT 0x40002070 = (32, 14)"
    by (simp_all add: MS_CALC_MARK_BIT_def MS_BLOCK_DATA_FOR_OBJ_def ms_consts)
  have un: "unmarked 0x40000000 demo_block 8000 0 = [1]"
    unfolding unmarked_def cnt slot_marked_def
    by (simp add: upt_rec slots marks [simplified] MS_MARK_BIT_def demo_block_def ms_consts bit_simps slots(2) [simplified])
  have al: "MS_OBJ_ALLOCED (\<lambda>_. 7) (slot_addr 0x40000000 8000 1) 0x40000000" by (simp add: MS_OBJ_ALLOCED_def)
  have w: "0x40000130 \<notin> slot_words 0x40000000 8000 1"
    using slot_words_disjoint [OF b, where sz = 8000 and s = 0 and t = 1] slot_addr_in [of 8000 "0x40000000" 0] slots cnt by auto
  have fl: "filter (\<lambda>s. \<not> MS_MARK_BIT demo_block (MS_CALC_MARK_BIT (slot_addr 0x40000000 8000 s))) [0..<MS_BLOCK_FREE div 8000] = [1]"
    using un by (simp add: unmarked_def slot_marked_def)
  let ?h = "demo_heap\<lparr>ms_blocks := [0x40000000 \<mapsto> demo_block]\<rparr>"
  have h: "size_ok 8000" "ms_blocks ?h 0x40000000 = Some demo_block" "ms_obj_size demo_block = 8000"
    "ms_state demo_block = BLOCK_STATE_NEED_SWEEPING" by (simp_all add: size_ok_def demo_block_def)
  obtain mem' fl h' where 1: "sweep_block 0x40000000 (\<lambda>_. 7) ?h = Some (True, mem', h')"
    "chain mem' fl (map (slot_addr 0x40000000 8000) [1])" "\<forall>a. a \<notin> slot_words 0x40000000 8000 1 \<longrightarrow> mem' a = 7"
    "\<forall>k. 8 dvd k \<longrightarrow> 8 \<le> k \<longrightarrow> k < 8000 \<longrightarrow> mem' (slot_addr 0x40000000 8000 1 + of_nat k) = 0"
    using sweep_block_correct [OF b h, of "\<lambda>_. 7", unfolded fl un] al by auto
  moreover have "mem' 0x40002078 = 0" using 1(4) [rule_format, of 8] by (simp add: slots(2) [simplified])
  ultimately show ?thesis using w by (auto simp: slots(2) [simplified])
qed

text \<open>C35: allocating in a well-formed old generation keeps it well formed, and what it returns is settled by
  three questions: whether a block of the size class has a free slot, whether the memory governor
  grants a new block, and whether the allocator or the system has one. With a free slot, or with a
  block granted and there, it returns a slot that is not null: aligned, free before and not after, with
  the vtable, whichever way it takes (a listed block, a lazily swept one, a recycled empty block, new
  memory), and only words that were free change. It returns null exactly when no slot is free and the
  governor refuses, and then memory is unchanged. When the governor grants a block that nobody has, the
  program ends.\<close>

theorem major_alloc_object_keeps_heap:
  assumes "ms_wf cf env os_free h mem F" "16 \<le> sz" "sz \<le> SGEN_MAX_SMALL_OBJ_SIZE"
  shows "if no_free_slot env h sz refs \<and> no_memory env os_free h then major_alloc_object env vt sz refs mem h = None
    else \<exists>d mem' h' F'. major_alloc_object env vt sz refs mem h = Some (d, mem', h') \<and>
      (d = 0 \<longleftrightarrow> no_free_slot env h sz refs \<and> \<not> governor_grants env h) \<and> (d = 0 \<longrightarrow> mem' = mem) \<and>
      ms_wf cf env os_free h' mem' F' \<and> F' \<subseteq> F \<and> (\<forall>a. a \<notin> F \<longrightarrow> mem' a = mem a) \<and>
      (d \<noteq> 0 \<longrightarrow> d AND 7 = 0 \<and> mem' d = vt \<and> block_words d (unat sz) \<subseteq> F \<and> block_words d (unat sz) \<inter> F' = {})"
  using major_alloc_ok [OF assms, of refs vt] unfolding mem_step_def by auto

text \<open>A nursery of 1 MiB with two objects that refer to each other, one of them in a root slot; the old
  generation is empty and the operating system has 1024 blocks.\<close>

definition demo_vtable :: vtable_info where
  "demo_vtable = \<lparr>vt_gc_descr = 16908313, vt_rank = 0, vt_is_string = False, vt_instance_size = 24, vt_element_size = 0\<rparr>"

definition demo_config :: "nat ms_heap minor_config" where
  "demo_config = \<lparr>cf_nursery_bits = 20, cf_nursery_start = 0x1000000, cf_vtable = (\<lambda>_. demo_vtable),
    cf_complex_descriptors = SGEN_ARRAY_LIST_INIT False None None, cf_alloc_object = (\<lambda>_ _ _ _ _. None)\<rparr>"

definition demo_mem :: memory where
  "demo_mem a =
    (if a = 256 then 0x1000000 else if a = 0x1000000 \<or> a = 0x1000018 then 4096
     else if a = 0x1000010 then 0x1000018 else if a = 0x1000028 then 0x1000000 else 0)"

definition demo_addr :: "nat \<Rightarrow> u64" where
  "demo_addr i = of_nat (2 ^ 30 + ms_block_size * i)"

definition demo_os_free :: "nat \<Rightarrow> u64 set" where
  "demo_os_free n = demo_addr ` {n..<1024}"

lemma demo_addr_unat: "i < 1024 \<Longrightarrow> unat (demo_addr i) = 2 ^ 30 + 16384 * i"
  unfolding demo_addr_def unsigned_of_nat by (subst take_bit_nat_eq_self) (simp_all add: ms_consts)

lemma demo_os_aligned: "b \<in> demo_os_free n \<Longrightarrow> block_aligned b"
proof -
  assume "b \<in> demo_os_free n"
  then obtain i where i: "i < 1024" "b = demo_addr i" by (auto simp: demo_os_free_def)
  have u: "unat b = 16384 * (65536 + i)" using demo_addr_unat [OF i(1)] i(2) by simp
  then have "unat b \<noteq> 0" by simp
  then have "b \<noteq> 0" by (metis unsigned_0)
  then show ?thesis unfolding block_aligned_unat u by simp
qed

lemma demo_addr_inj: "i < 1024 \<Longrightarrow> j < 1024 \<Longrightarrow> demo_addr i = demo_addr j \<Longrightarrow> i = j"
  by (drule arg_cong [where f = unat]) (simp add: demo_addr_unat)

lemma demo_free_high:
  assumes "a \<in> ms_free demo_os_free demo_heap (\<lambda>_ _. []) (\<lambda>_. []) []"
  shows "2 ^ 30 \<le> unat a"
proof -
  obtain b k where b: "b \<in> demo_os_free 0" "k < 16384" "a = b + of_nat k"
    using assms by (auto simp: ms_free_def listed_def block_words_def demo_heap_def ms_consts)
  obtain i where i: "i < 1024" "b = demo_addr i" using b(1) by (auto simp: demo_os_free_def)
  show ?thesis using in_block(1) [OF demo_os_aligned [OF b(1)] b(2)] demo_addr_unat [OF i(1)] unfolding b(3) i(2) by simp
qed

lemma demo_os_law: "os_law demo_env demo_os_free"
proof -
  have alloc: "case os_alloc demo_env (ms_block_size * k) n of (p, n') \<Rightarrow>
        if p = 0 then demo_os_free n' = demo_os_free n \<and> (k = 1 \<longrightarrow> demo_os_free n = {})
        else demo_os_free n' \<subseteq> demo_os_free n \<and> (\<forall>i. i < k \<longrightarrow> nth_block p i \<in> demo_os_free n \<and> nth_block p i \<notin> demo_os_free n')"
    if k: "0 < k" "k \<le> 32" for n k
  proof (cases "n + k \<le> 1024")
    case True
    let ?p = "demo_addr n"
    have "n < 1024" using True k(1) by simp
    then have "unat ?p \<noteq> 0" using demo_addr_unat [of n] by simp
    then have "?p \<noteq> 0" by (metis unsigned_0)
    moreover have "os_alloc demo_env (ms_block_size * k) n = (?p, n + k)"
      using True by (simp add: demo_env_def demo_os_alloc_def ms_consts demo_addr_def)
    moreover have "demo_os_free (n + k) \<subseteq> demo_os_free n" unfolding demo_os_free_def by (intro image_mono) auto
    moreover have "nth_block ?p i \<in> demo_os_free n \<and> nth_block ?p i \<notin> demo_os_free (n + k)" if i: "i < k" for i
    proof -
      have e: "nth_block ?p i = demo_addr (n + i)" by (simp add: nth_block_def demo_addr_def algebra_simps)
      have "n + i \<in> {n..<1024}" using i True by simp
      then have "nth_block ?p i \<in> demo_os_free n" unfolding e demo_os_free_def by (rule imageI)
      moreover have "nth_block ?p i \<notin> demo_os_free (n + k)"
      proof
        assume "nth_block ?p i \<in> demo_os_free (n + k)"
        then obtain j where j: "j \<in> {n + k..<1024}" "nth_block ?p i = demo_addr j"
          unfolding demo_os_free_def by (rule imageE)
        then have "n + i = j" using demo_addr_inj [of "n + i" j] i True unfolding e by simp
        then show False using j(1) i by simp
      qed
      ultimately show ?thesis by blast
    qed
    ultimately show ?thesis by simp
  next
    case False
    then show ?thesis using k by (simp add: demo_env_def demo_os_alloc_def ms_consts demo_os_free_def)
  qed
  have "demo_os_free (snd (try_alloc_space demo_env ms_block_size n)) = demo_os_free n" for n
    by (simp add: demo_env_def)
  note govern = this
  show ?thesis unfolding os_law_def MS_BLOCK_ALLOC_NUM_def
  proof (intro conjI allI ballI)
    show "block_aligned b" if "b \<in> demo_os_free n" for n b using that by (rule demo_os_aligned)
    show "0 < k \<longrightarrow> k \<le> 32 \<longrightarrow> (case os_alloc demo_env (ms_block_size * k) n of (p, n') \<Rightarrow>
        if p = 0 then demo_os_free n' = demo_os_free n \<and> (k = 1 \<longrightarrow> demo_os_free n = {})
        else demo_os_free n' \<subseteq> demo_os_free n \<and> (\<forall>i. i < k \<longrightarrow> nth_block p i \<in> demo_os_free n \<and> nth_block p i \<notin> demo_os_free n'))"
      for n k by (intro impI) (rule alloc)
  qed (rule govern)
qed

lemma nursery_bits: "sgen_ptr_in_nursery demo_config a \<longleftrightarrow> drop_bit 20 a = 16"
proof -
  have e: "a AND NOT (mask 20) = push_bit 20 (drop_bit 20 a)" by (rule bit_word_eqI) (auto simp: bit_simps)
  have "(a AND NOT (mask 20) = 0x1000000) \<longleftrightarrow> drop_bit 20 a = 16"
  proof
    assume "a AND NOT (mask 20) = 0x1000000"
    then have "drop_bit 20 (push_bit 20 (drop_bit 20 a)) = drop_bit 20 0x1000000" unfolding e by simp
    moreover have "drop_bit 20 (push_bit 20 (drop_bit 20 a)) = drop_bit 20 a" by (rule bit_word_eqI) (auto simp: bit_simps dest: bit_imp_le_length)
    ultimately show "drop_bit 20 a = 16" by simp
  next
    assume d: "drop_bit 20 a = 16"
    then show "a AND NOT (mask 20) = 0x1000000" unfolding e d by simp
  qed
  then show ?thesis by (simp add: sgen_ptr_in_nursery_def demo_config_def mask_eq_exp_minus_1)
qed

lemma demo_wf: "ms_wf demo_config demo_env demo_os_free demo_heap mem (ms_free demo_os_free demo_heap (\<lambda>_ _. []) (\<lambda>_. []) [])"
proof -
  have "ms_inv demo_env demo_os_free demo_heap mem (\<lambda>_ _. []) (\<lambda>_. []) []"
    by (simp add: ms_inv_def demo_heap_def)
  moreover have "slot_sizes_ok demo_env" by (simp add: slot_sizes_ok_def demo_env_def size_ok_def)
  moreover have "\<not> sgen_ptr_in_nursery demo_config a" if a: "a \<in> ms_free demo_os_free demo_heap (\<lambda>_ _. []) (\<lambda>_. []) []" for a
  proof -
    have "2 ^ 30 \<le> unat a" by (rule demo_free_high [OF a])
    then have "unat (drop_bit 20 a) \<noteq> 16" by (simp add: unat_drop_bit_div)
    then show ?thesis unfolding nursery_bits by auto
  qed
  ultimately show ?thesis using demo_os_law unfolding ms_wf_def by blast
qed

lemma demo_hp: "ms_hp demo_config demo_env demo_os_free demo_heap mem (ms_free demo_os_free demo_heap (\<lambda>_ _. []) (\<lambda>_. []) [])"
proof -
  have "governor_within demo_env demo_os_free" by (simp add: governor_within_def demo_env_def demo_os_free_def)
  then show ?thesis using demo_wf by (simp add: ms_hp_def)
qed

theorem major_alloc_object_witness:
  "\<exists>d mem' h' F'. major_alloc_object demo_env 4096 24 True demo_mem demo_heap = Some (d, mem', h') \<and>
    ms_wf demo_config demo_env demo_os_free h' mem' F' \<and> mem' 256 = 0x1000000 \<and> d \<noteq> 0 \<and> mem' d = 4096"
proof -
  let ?F = "ms_free demo_os_free demo_heap (\<lambda>_ _. []) (\<lambda>_. []) []"
  have "256 \<notin> ?F" using demo_free_high [of 256] by auto
  moreover have "governor_grants demo_env demo_heap" by (simp add: governor_grants_def demo_env_def demo_heap_def)
  moreover have "\<not> no_memory demo_env demo_os_free demo_heap" by (simp add: no_memory_def demo_heap_def demo_os_free_def)
  ultimately show ?thesis
    using major_alloc_object_keeps_heap [OF demo_wf [of demo_mem], of 24 True 4096]
    by (auto simp: SGEN_MAX_SMALL_OBJ_SIZE_def demo_mem_def)
qed

text \<open>C33: the collection of a well-formed nursery that promotes into the mark-and-sweep old generation
  ends, whether the governor refuses memory or not (it must not grant memory that the system does not have, or the
  program may end): the scan of the root slots and the drain of the gray stack
  return with the stack empty, and the heap is the one before with its live objects moved. Exactly the
  objects reachable from roots and from objects pinned beforehand have a place, in the nursery only if
  they are pinned; the places do not overlap; and every word of them and every root slot is what it
  was, with references led to the new places.\<close>

theorem minor_collection_correct:
  assumes "minor_start (ms_config env cf) (ms_hp cf env os_free) mem0 N R st" "fst ` set rs = R"
  shows "\<exists>L st1 st2. scan_roots (ms_config env cf) rs st = Some st1 \<and>
    simple_nursery_serial_drain_gray_stack (ms_config env cf) st1 = Some st2 \<and> gray_holds st2 [] \<and>
    relocated (ms_config env cf) mem0 N R L (gc_mem st2)"
  using ms.collection_ok [OF assms, of "{}"] by blast

text \<open>C34: after a collection the remembered set is complete: every slot outside the nursery (of an object
  that was promoted, or a root slot that is handled as a slot of an old object) that still refers to
  an object of the nursery has been recorded, unless that object is cemented.\<close>

theorem minor_collection_remembers:
  assumes "minor_start (ms_config env cf) (ms_hp cf env os_free) mem0 N R st" "fst ` set rs = R"
    and "RO \<subseteq> R" "\<And>a. a \<in> RO \<Longrightarrow> (a, False) \<notin> set rs"
    and "scan_roots (ms_config env cf) rs st = Some st1"
    and "simple_nursery_serial_drain_gray_stack (ms_config env cf) st1 = Some st2"
  shows "\<exists>L. relocated (ms_config env cf) mem0 N R L (gc_mem st2) \<and>
    (\<forall>a v. slot_at (ms_config env cf) mem0 RO L a v \<longrightarrow> \<not> sgen_ptr_in_nursery cf a \<longrightarrow> L v = Some v \<longrightarrow>
      a \<in> set (gc_remset st2) \<or> SGEN_OBJECT_IS_CEMENTED mem0 v \<or> sgen_cement_lookup v (gc_pin st2))"
proof -
  obtain L where "relocated (ms_config env cf) mem0 N R L (gc_mem st2)"
    "\<forall>a v. slot_at (ms_config env cf) mem0 RO L a v \<longrightarrow> \<not> sgen_ptr_in_nursery (ms_config env cf) a \<longrightarrow> L v = Some v \<longrightarrow>
      remembered mem0 st2 a v"
    using ms.collection_ok [OF assms(1-4)] assms(5,6) by auto
  then show ?thesis unfolding remembered_def by auto
qed

definition demo_state :: "nat ms_heap minor_state" where
  "demo_state = \<lparr>gc_mem = demo_mem, gc_major = demo_heap, gc_queue = empty_gray_queue,
    gc_store = \<lparr>gs_sections = (\<lambda>_. None), gs_next = 0, gs_last_free_list = None\<rparr>, gc_pin = pin_start,
    gc_remset = [], gc_objects_pinned = 0, gc_failed_bytes = 0, gc_promoted_size = 0\<rparr>"

lemma demo_desc: "16908313 AND DESC_TYPE_MASK = 1" "DESC_TYPE_RUN_LENGTH = 1" "DESC_TYPE_VECTOR \<noteq> 1" "DESC_TYPE_COMPLEX_ARR \<noteq> 1"
    "SGEN_DESC_STRING \<noteq> 16908313" "sgen_gc_descr_has_references 16908313"
  by (simp_all add: desc_consts SGEN_DESC_STRING_def sgen_gc_descr_has_references_def)

lemma demo_sizes: "object_size (ms_config demo_env demo_config) demo_mem x = 24"
  by (simp add: object_size_def object_info_def ms_config_def demo_config_def demo_vtable_def
      sgen_client_par_object_get_size_def demo_desc SGEN_ALIGN_UP_def Let_def)

lemma demo_slots:
  "slot_offsets (cf_complex_descriptors (ms_config demo_env demo_config)) demo_vtable 16908313 n = Some [16]"
  by (simp add: slot_offsets_def scan_object_def OBJ_RUN_LEN_FOREACH_PTR_def demo_desc upt_rec Let_def)

lemma demo_info: "object_info (ms_config demo_env demo_config) mem x = demo_vtable"
  by (simp add: object_info_def ms_config_def demo_config_def)

lemma demo_object_slots: "object_slots (ms_config demo_env demo_config) demo_mem x = [16]"
  using demo_slots by (simp add: object_slots_def demo_info demo_vtable_def)

lemma demo_words: "block_words p 24 = {p, p + 8, p + 16}"
proof -
  have "{k :: nat. k < 24 \<and> 8 dvd k} = {0, 8, 16}"
  proof (intro equalityI subsetI)
    fix k :: nat assume "k \<in> {k. k < 24 \<and> 8 dvd k}"
    then obtain m where "k = 8 * m" "m < 3" by auto
    then show "k \<in> {0, 8, 16}" by auto
  qed auto
  moreover have "block_words p 24 = (\<lambda>k. p + of_nat k) ` {k. k < 24 \<and> 8 dvd k}" by (auto simp: block_words_def)
  ultimately show ?thesis by simp
qed

lemma demo_object_words: "object_words (ms_config demo_env demo_config) demo_mem x p = {p, p + 8, p + 16}"
  unfolding object_words_def demo_sizes using demo_words [of p] by simp

lemma demo_object_ok:
  assumes "x = 0x1000000 \<or> x = 0x1000018"
  shows "object_ok (ms_config demo_env demo_config) demo_mem {0x1000000, 0x1000018} x"
proof -
  have "good_ref (ms_config demo_env demo_config) {0x1000000, 0x1000018} (demo_mem (x + 16))"
    using assms by (auto simp: good_ref_def demo_mem_def)
  moreover have "demo_mem x AND 7 = 0" using assms by (auto simp: demo_mem_def)
  moreover have "\<forall>a\<in>object_words (ms_config demo_env demo_config) demo_mem x x. sgen_ptr_in_nursery demo_config a"
    unfolding demo_object_words nursery_bits using assms by auto
  ultimately show ?thesis
    unfolding object_ok_def demo_sizes demo_info demo_object_slots
    by (simp add: demo_slots [unfolded demo_vtable_def] demo_vtable_def has_bounds_def demo_info is_array_descr_def SGEN_DESC_STRING_def
        SGEN_MAX_SMALL_OBJ_SIZE_def demo_desc)
qed

lemma demo_start:
  "minor_start (ms_config demo_env demo_config) (ms_hp demo_config demo_env demo_os_free) demo_mem {0x1000000, 0x1000018} {256} demo_state"
proof -
  let ?cf = "ms_config demo_env demo_config" and ?N = "{0x1000000, 0x1000018} :: u64 set"
  have "object_words ?cf demo_mem x x \<inter> object_words ?cf demo_mem y y = {}" if "x \<in> ?N" "y \<in> ?N" "x \<noteq> y" for x y
    using that unfolding demo_object_words by auto
  moreover have "object_words ?cf demo_mem x x \<inter> {256} = {}" if "x \<in> ?N" for x using that unfolding demo_object_words by auto
  moreover have "\<not> sgen_ptr_in_nursery ?cf 0" by (simp add: nursery_bits)
  moreover have "good_ref ?cf ?N (demo_mem 256)" by (simp add: good_ref_def demo_mem_def)
  ultimately have n: "nursery_ok ?cf demo_mem ?N {256}" using demo_object_ok unfolding nursery_ok_def by auto
  have "gq_rep (gc_store demo_state) (gc_queue demo_state) [] [] 0" "gq_stack (gc_store demo_state) [] 0 = []"
    by (simp_all add: gq_rep_def gq_base_def demo_state_def empty_gray_queue_def secs_ok_def Sgen_Gray.sizes_ok_def gq_stack_def)
  then have g: "gray_holds demo_state []" unfolding gray_holds_def by blast
  have p: "pins_ok (gc_pin demo_state)"
    by (simp add: pins_ok_def pin_ok_def demo_state_def pin_start_def init_list empty_cement_def)
  have "256 \<notin> ms_free demo_os_free demo_heap (\<lambda>_ _. []) (\<lambda>_. []) []" using demo_free_high [of 256] by auto
  then have "\<exists>F. ms_hp demo_config demo_env demo_os_free (gc_major demo_state) demo_mem F \<and> {256} \<inter> F = {}"
    using demo_hp by (auto simp: demo_state_def)
  moreover have "\<not> SGEN_OBJECT_IS_PINNED demo_mem x" if "x \<in> ?N" for x
    using that by (auto simp: SGEN_OBJECT_IS_PINNED_def SGEN_POINTER_IS_TAGGED_PINNED_def demo_mem_def)
  ultimately show ?thesis unfolding minor_start_def using n g p by (auto simp: demo_state_def intro!: exI [of _ "[]"])
qed

theorem minor_collection_witness:
  "\<exists>L st1 st2. scan_roots (ms_config demo_env demo_config) [(256, False)] demo_state = Some st1 \<and>
    simple_nursery_serial_drain_gray_stack (ms_config demo_env demo_config) st1 = Some st2 \<and> gray_holds st2 [] \<and>
    relocated (ms_config demo_env demo_config) demo_mem {0x1000000, 0x1000018} {256} L (gc_mem st2)"
  by (rule minor_collection_correct [OF demo_start]) simp

theorem minor_collection_remembers_witness:
  "\<exists>L st1 st2. scan_roots (ms_config demo_env demo_config) [(256, True)] demo_state = Some st1 \<and>
    simple_nursery_serial_drain_gray_stack (ms_config demo_env demo_config) st1 = Some st2 \<and>
    (\<forall>a v. slot_at (ms_config demo_env demo_config) demo_mem {256} L a v \<longrightarrow> \<not> sgen_ptr_in_nursery demo_config a \<longrightarrow>
      L v = Some v \<longrightarrow> a \<in> set (gc_remset st2) \<or> SGEN_OBJECT_IS_CEMENTED demo_mem v \<or> sgen_cement_lookup v (gc_pin st2))"
proof -
  have rs: "fst ` set [(256 :: u64, True)] = {256}" "\<And>a. a \<in> {256} \<Longrightarrow> (a, False) \<notin> set [(256 :: u64, True)]" by auto
  obtain st1 st2 where "scan_roots (ms_config demo_env demo_config) [(256, True)] demo_state = Some st1"
    "simple_nursery_serial_drain_gray_stack (ms_config demo_env demo_config) st1 = Some st2"
    using ms.collection_ok [OF demo_start rs(1), of "{}"] by blast
  then show ?thesis using minor_collection_remembers [OF demo_start rs(1) subset_refl rs(2)] by blast
qed

end
