(* ===== verification/Mono_LockFreeAlloc.thy ===== *)
theory Mono_LockFreeAlloc
  imports Main "HOL-Library.Word" "HOL-Library.Monad_Syntax" Brotli_Prelude
begin

unbundle bit_operations_syntax

text \<open>
  The lock-free allocator, \<open>utils/lock-free-alloc.{h,c}\<close>, as the steps its threads take. A
  thread's place in the code is a value of \<open>lf_pc\<close> that carries its local variables; a step does
  the code up to and including the next access to shared memory and is a function, \<open>None\<close> when an
  assertion fails or unmapped memory is touched. A configuration interleaves the steps of any
  number of threads, the writes of clients to the slots they own, and the callbacks that the
  hazard pointer machinery runs late; one from which any of these fails is one that \<open>lf_aborts\<close>. The
  system grants every request for memory: \<open>alloc_sb\<close> and \<open>desc_alloc\<close> end the process when it does not,
  with an assertion of their own that is not counted among those.

  A slot's address is the pair of its descriptor and its index, which the address arithmetic at
  the end of the file justifies. The partial queue (\<open>utils/lock-free-queue.c\<close>) and the list of
  available descriptors have one-step operations; a dequeue may find nothing, which the queue
  is allowed to report, and a hazardous free may be put off, both as the scheduler chooses.
\<close>

section \<open>Descriptors\<close>

datatype anchor_state = STATE_FULL | STATE_PARTIAL | STATE_EMPTY

record Anchor =
  an_avail :: nat
  an_count :: nat
  an_state :: anchor_state

text \<open>What an assignment to a 15-bit field keeps.\<close>

definition bf15 :: "nat \<Rightarrow> nat" where
  "bf15 n = n mod 2 ^ 15"

text \<open>\<open>d_links\<close> is the first word of each slot, \<open>d_mapped\<close> whether the superblock is there, and
  \<open>d_poisoned\<close> whether the queue node must not be enqueued.\<close>

record Descriptor =
  d_anchor :: Anchor
  d_max_count :: nat
  d_links :: "nat \<Rightarrow> u32"
  d_mapped :: bool
  d_in_use :: bool
  d_poisoned :: bool

record MonoLockFreeAllocSizeClass =
  sc_slot_size :: u32
  sc_block_size :: u32

definition sc_slots :: "MonoLockFreeAllocSizeClass \<Rightarrow> nat" where
  "sc_slots sc = unat ((ucast (sc_block_size sc) - 8 :: u64) div ucast (sc_slot_size sc))"

definition mono_lock_free_allocator_init_size_class :: "u32 \<Rightarrow> u32 \<Rightarrow> MonoLockFreeAllocSizeClass option" where
  "mono_lock_free_allocator_init_size_class slot_size block_size =
    (if 0 < block_size \<and> block_size AND (block_size - 1) = 0 \<and>
        ucast (slot_size * 2) \<le> (ucast block_size - 8 :: u64)
     then Some \<lparr>sc_slot_size = slot_size, sc_block_size = block_size\<rparr> else None)"

definition NUM_DESC_BATCH :: nat where
  "NUM_DESC_BATCH = 64"

text \<open>The allocator, its size class's queue, the callbacks put off, and the descriptors.\<close>

record lf_shared =
  heap_active :: "nat option"
  sc_partial :: "nat list"
  put_deferred :: "nat list"
  desc_avail :: "nat list"
  avail_deferred :: "nat list"
  lf_descs :: "nat \<Rightarrow> Descriptor"
  num_descs :: nat

definition upd_desc :: "nat \<Rightarrow> (Descriptor \<Rightarrow> Descriptor) \<Rightarrow> lf_shared \<Rightarrow> lf_shared" where
  "upd_desc d f s = s\<lparr>lf_descs := (lf_descs s)(d := f (lf_descs s d))\<rparr>"

section \<open>Places in the code\<close>

text \<open>The last three take the place to go on at.\<close>

datatype lf_pc =
    Idle
  | Returned nat nat
  | Alloc_retry
  | Alloc_take nat
  | Get_partial
  | Get_partial_check nat
  | Alloc_own nat
  | Alloc_link nat Anchor
  | Alloc_cas nat Anchor Anchor
  | New_desc
  | New_init nat
  | New_cas nat
  | New_fail nat
  | Free_read nat nat
  | Free_link nat nat Anchor
  | Free_cas nat nat Anchor Anchor
  | Free_active nat
  | Free_check nat
  | Free_check_partial nat
  | Remove_empty nat
  | Remove_empty_check nat nat
  | Give_back nat lf_pc
  | Put_partial nat lf_pc
  | Try_put nat lf_pc
  | Retire nat lf_pc

type_synonym lf_result = "(lf_pc \<times> lf_shared) option"

section \<open>Descriptors available and retired\<close>

definition fresh_descriptor :: Descriptor where
  "fresh_descriptor = \<lparr>d_anchor = \<lparr>an_avail = 0, an_count = 0, an_state = STATE_FULL\<rparr>, d_max_count = 0,
    d_links = (\<lambda>_. 0), d_mapped = False, d_in_use = False, d_poisoned = True\<rparr>"

definition desc_batch :: "lf_shared \<Rightarrow> lf_shared" where
  "desc_batch s =
    s\<lparr>desc_avail := [num_descs s..<num_descs s + NUM_DESC_BATCH],
      lf_descs := (\<lambda>d. if num_descs s \<le> d \<and> d < num_descs s + NUM_DESC_BATCH then fresh_descriptor else lf_descs s d),
      num_descs := num_descs s + NUM_DESC_BATCH\<rparr>"

definition desc_alloc :: "lf_shared \<Rightarrow> (nat \<times> lf_shared) option" where
  "desc_alloc s =
    (let s = (if desc_avail s = [] then desc_batch s else s);
         desc = hd (desc_avail s);
         s = s\<lparr>desc_avail := tl (desc_avail s)\<rparr>
     in if d_in_use (lf_descs s desc) then None
        else Some (desc, upd_desc desc (\<lambda>d. d\<lparr>d_in_use := True\<rparr>) s))"

definition desc_enqueue_avail :: "nat \<Rightarrow> lf_shared \<Rightarrow> lf_shared option" where
  "desc_enqueue_avail desc s =
    (if an_state (d_anchor (lf_descs s desc)) = STATE_EMPTY \<and> \<not> d_in_use (lf_descs s desc)
     then Some (s\<lparr>desc_avail := desc # desc_avail s\<rparr>) else None)"

definition desc_retire :: "bool \<Rightarrow> nat \<Rightarrow> lf_shared \<Rightarrow> lf_shared option" where
  "desc_retire put_off desc s =
    (if an_state (d_anchor (lf_descs s desc)) = STATE_EMPTY \<and> d_in_use (lf_descs s desc) \<and> d_mapped (lf_descs s desc)
     then
       let s = upd_desc desc (\<lambda>d. d\<lparr>d_in_use := False, d_mapped := False\<rparr>) s in
       if put_off then Some (s\<lparr>avail_deferred := desc # avail_deferred s\<rparr>) else desc_enqueue_avail desc s
     else None)"

section \<open>The partial queue\<close>

definition partial_dequeue :: "bool \<Rightarrow> lf_shared \<Rightarrow> nat option \<times> lf_shared" where
  "partial_dequeue nothing s =
    (case sc_partial s of
       [] \<Rightarrow> (None, s)
     | desc # ds \<Rightarrow>
         if nothing then (None, s)
         else (Some desc, upd_desc desc (\<lambda>d. d\<lparr>d_poisoned := True\<rparr>) (s\<lparr>sc_partial := ds\<rparr>)))"

definition desc_put_partial :: "nat \<Rightarrow> lf_shared \<Rightarrow> lf_shared option" where
  "desc_put_partial desc s =
    (if an_state (d_anchor (lf_descs s desc)) \<noteq> STATE_FULL \<and> d_poisoned (lf_descs s desc)
     then Some (upd_desc desc (\<lambda>d. d\<lparr>d_poisoned := False\<rparr>) (s\<lparr>sc_partial := sc_partial s @ [desc]\<rparr>))
     else None)"

definition list_put_partial :: "nat \<Rightarrow> lf_pc \<Rightarrow> lf_shared \<Rightarrow> lf_result" where
  "list_put_partial desc k s =
    (if an_state (d_anchor (lf_descs s desc)) \<noteq> STATE_FULL then Some (Try_put desc k, s) else None)"

definition try_put_partial :: "bool \<Rightarrow> nat \<Rightarrow> lf_pc \<Rightarrow> lf_shared \<Rightarrow> lf_result" where
  "try_put_partial put_off desc k s =
    (if put_off then Some (k, s\<lparr>put_deferred := desc # put_deferred s\<rparr>)
     else map_option (\<lambda>s. (k, s)) (desc_put_partial desc s))"

definition list_get_partial :: "bool \<Rightarrow> lf_shared \<Rightarrow> lf_result" where
  "list_get_partial nothing s =
    (case partial_dequeue nothing s of
       (None, s) \<Rightarrow> Some (New_desc, s)
     | (Some desc, s) \<Rightarrow> Some (Get_partial_check desc, s))"

definition list_get_partial_check :: "nat \<Rightarrow> lf_shared \<Rightarrow> lf_result" where
  "list_get_partial_check desc s =
    (if an_state (d_anchor (lf_descs s desc)) \<noteq> STATE_EMPTY then Some (Alloc_own desc, s)
     else Some (Retire desc Get_partial, s))"

definition list_remove_empty_desc :: "bool \<Rightarrow> nat \<Rightarrow> lf_shared \<Rightarrow> lf_result" where
  "list_remove_empty_desc nothing num_non_empty s =
    (case partial_dequeue nothing s of
       (None, s) \<Rightarrow> Some (Idle, s)
     | (Some desc, s) \<Rightarrow> Some (Remove_empty_check desc num_non_empty, s))"

definition list_remove_empty_check :: "nat \<Rightarrow> nat \<Rightarrow> lf_shared \<Rightarrow> lf_result" where
  "list_remove_empty_check desc num_non_empty s =
    (if an_state (d_anchor (lf_descs s desc)) = STATE_EMPTY then Some (Retire desc (Remove_empty num_non_empty), s)
     else Some (Try_put desc (if 2 \<le> num_non_empty + 1 then Idle else Remove_empty (num_non_empty + 1)), s))"

section \<open>Allocation\<close>

definition set_anchor :: "nat \<Rightarrow> Anchor \<Rightarrow> Anchor \<Rightarrow> lf_shared \<Rightarrow> (bool \<times> lf_shared) option" where
  "set_anchor desc old_anchor new_anchor s =
    (if an_state old_anchor = STATE_EMPTY \<and> an_state new_anchor \<noteq> STATE_EMPTY then None
     else if d_anchor (lf_descs s desc) = old_anchor
     then Some (True, upd_desc desc (\<lambda>d. d\<lparr>d_anchor := new_anchor\<rparr>) s)
     else Some (False, s))"

definition alloc_retry :: "lf_shared \<Rightarrow> lf_result" where
  "alloc_retry s =
    (case heap_active s of Some desc \<Rightarrow> Some (Alloc_take desc, s) | None \<Rightarrow> Some (Get_partial, s))"

definition alloc_take :: "nat \<Rightarrow> lf_shared \<Rightarrow> lf_result" where
  "alloc_take desc s =
    (if heap_active s \<noteq> Some desc then Some (Alloc_retry, s)
     else Some (Alloc_own desc, s\<lparr>heap_active := None\<rparr>))"

definition alloc_own :: "nat \<Rightarrow> lf_shared \<Rightarrow> lf_result" where
  "alloc_own desc s =
    (let old_anchor = d_anchor (lf_descs s desc) in
     if an_state old_anchor = STATE_EMPTY then Some (Retire desc Alloc_retry, s)
     else if an_state old_anchor = STATE_PARTIAL \<and> 0 < an_count old_anchor then Some (Alloc_link desc old_anchor, s)
     else None)"

definition alloc_anchor :: "nat \<Rightarrow> Anchor \<Rightarrow> Anchor" where
  "alloc_anchor next' a =
    (let a = a\<lparr>an_avail := bf15 next', an_count := bf15 (an_count a - 1)\<rparr> in
     if an_count a = 0 then a\<lparr>an_state := STATE_FULL\<rparr> else a)"

definition alloc_link :: "MonoLockFreeAllocSizeClass \<Rightarrow> nat \<Rightarrow> Anchor \<Rightarrow> lf_shared \<Rightarrow> lf_result" where
  "alloc_link sc desc old_anchor s =
    (if \<not> d_mapped (lf_descs s desc) then None
     else
       let next' = unat (d_links (lf_descs s desc) (an_avail old_anchor)) in
       if sc_slots sc \<le> next' then None
       else Some (Alloc_cas desc old_anchor (alloc_anchor next' old_anchor), s))"

definition alloc_cas :: "nat \<Rightarrow> Anchor \<Rightarrow> Anchor \<Rightarrow> lf_shared \<Rightarrow> lf_result" where
  "alloc_cas desc old_anchor new_anchor s =
    do {
      (ok, s) \<leftarrow> set_anchor desc old_anchor new_anchor s;
      Some
        (if \<not> ok then Alloc_own desc
         else if an_state new_anchor = STATE_PARTIAL then Give_back desc (Returned desc (an_avail old_anchor))
         else Returned desc (an_avail old_anchor), s) }"

definition give_back :: "nat \<Rightarrow> lf_pc \<Rightarrow> lf_shared \<Rightarrow> lf_result" where
  "give_back desc k s =
    (if heap_active s = None then Some (k, s\<lparr>heap_active := Some desc\<rparr>) else Some (Put_partial desc k, s))"

definition alloc_new_desc :: "lf_shared \<Rightarrow> lf_result" where
  "alloc_new_desc s = map_option (\<lambda>(desc, s). (New_init desc, s)) (desc_alloc s)"

definition new_links :: "nat \<Rightarrow> (nat \<Rightarrow> u32) \<Rightarrow> nat \<Rightarrow> u32" where
  "new_links count links i =
    (if i = count - 1 then 0 else if 1 \<le> i \<and> i < count - 1 then of_nat (i + 1) else links i)"

definition alloc_new_init :: "MonoLockFreeAllocSizeClass \<Rightarrow> nat \<Rightarrow> lf_shared \<Rightarrow> lf_result" where
  "alloc_new_init sc desc s =
    (let count = sc_slots sc in
     Some (New_cas desc,
       upd_desc desc (\<lambda>d. d\<lparr>d_max_count := count,
         d_anchor := \<lparr>an_avail = 1, an_count = bf15 (count - 1), an_state = STATE_PARTIAL\<rparr>,
         d_mapped := True, d_links := new_links count (d_links d)\<rparr>) s))"

definition alloc_new_cas :: "nat \<Rightarrow> lf_shared \<Rightarrow> lf_result" where
  "alloc_new_cas desc s =
    (if heap_active s = None then Some (Returned desc 0, s\<lparr>heap_active := Some desc\<rparr>)
     else Some (New_fail desc, s))"

definition alloc_new_fail :: "bool \<Rightarrow> nat \<Rightarrow> lf_shared \<Rightarrow> lf_result" where
  "alloc_new_fail put_off desc s =
    map_option (\<lambda>s. (Alloc_retry, s))
      (desc_retire put_off desc
        (upd_desc desc (\<lambda>d. d\<lparr>d_anchor := (d_anchor d)\<lparr>an_state := STATE_EMPTY\<rparr>\<rparr>) s))"

section \<open>Freeing\<close>

definition free_anchor :: "nat \<Rightarrow> nat \<Rightarrow> Anchor \<Rightarrow> Anchor" where
  "free_anchor max_count slot a =
    (let a = a\<lparr>an_avail := bf15 slot\<rparr>;
         a = (if an_state a = STATE_FULL then a\<lparr>an_state := STATE_PARTIAL\<rparr> else a);
         a = a\<lparr>an_count := bf15 (an_count a + 1)\<rparr>
     in if an_count a = max_count then a\<lparr>an_state := STATE_EMPTY\<rparr> else a)"

definition free_read :: "nat \<Rightarrow> nat \<Rightarrow> lf_shared \<Rightarrow> lf_result" where
  "free_read desc slot s =
    (if d_mapped (lf_descs s desc) then Some (Free_link desc slot (d_anchor (lf_descs s desc)), s) else None)"

definition free_link :: "MonoLockFreeAllocSizeClass \<Rightarrow> nat \<Rightarrow> nat \<Rightarrow> Anchor \<Rightarrow> lf_shared \<Rightarrow> lf_result" where
  "free_link sc desc slot old_anchor s =
    (if \<not> d_mapped (lf_descs s desc) then None
     else
       let s = upd_desc desc (\<lambda>d. d\<lparr>d_links := (d_links d)(slot := of_nat (an_avail old_anchor))\<rparr>) s;
           new_anchor = free_anchor (d_max_count (lf_descs s desc)) slot old_anchor in
       if an_avail new_anchor < sc_slots sc then Some (Free_cas desc slot old_anchor new_anchor, s) else None)"

definition free_cas :: "nat \<Rightarrow> nat \<Rightarrow> Anchor \<Rightarrow> Anchor \<Rightarrow> lf_shared \<Rightarrow> lf_result" where
  "free_cas desc slot old_anchor new_anchor s =
    do {
      (ok, s) \<leftarrow> set_anchor desc old_anchor new_anchor s;
      if \<not> ok then Some (Free_read desc slot, s)
      else if an_state new_anchor = STATE_EMPTY
      then (if an_state old_anchor = STATE_EMPTY then None else Some (Free_active desc, s))
      else if an_state old_anchor = STATE_FULL
      then (if an_state new_anchor = STATE_PARTIAL then Some (Give_back desc Idle, s) else None)
      else Some (Idle, s) }"

definition free_active :: "nat \<Rightarrow> lf_shared \<Rightarrow> lf_result" where
  "free_active desc s =
    (if heap_active s = Some desc then Some (Free_check desc, s\<lparr>heap_active := None\<rparr>)
     else Some (Remove_empty 0, s))"

definition free_check :: "nat \<Rightarrow> lf_shared \<Rightarrow> lf_result" where
  "free_check desc s =
    (if an_state (d_anchor (lf_descs s desc)) = STATE_EMPTY then Some (Retire desc Idle, s)
     else Some (Free_check_partial desc, s))"

definition free_check_partial :: "nat \<Rightarrow> lf_shared \<Rightarrow> lf_result" where
  "free_check_partial desc s =
    (if an_state (d_anchor (lf_descs s desc)) = STATE_PARTIAL then Some (Give_back desc Idle, s)
     else Some (Idle, s))"

section \<open>Configurations\<close>

text \<open>One step of a thread. The Boolean is the scheduler's choice for a dequeue and a free.\<close>

fun lf_exec :: "MonoLockFreeAllocSizeClass \<Rightarrow> bool \<Rightarrow> lf_pc \<Rightarrow> lf_shared \<Rightarrow> lf_result" where
  "lf_exec sc ch Idle s = None"
| "lf_exec sc ch (Returned d i) s = None"
| "lf_exec sc ch Alloc_retry s = alloc_retry s"
| "lf_exec sc ch (Alloc_take d) s = alloc_take d s"
| "lf_exec sc ch Get_partial s = list_get_partial ch s"
| "lf_exec sc ch (Get_partial_check d) s = list_get_partial_check d s"
| "lf_exec sc ch (Alloc_own d) s = alloc_own d s"
| "lf_exec sc ch (Alloc_link d old) s = alloc_link sc d old s"
| "lf_exec sc ch (Alloc_cas d old new) s = alloc_cas d old new s"
| "lf_exec sc ch New_desc s = alloc_new_desc s"
| "lf_exec sc ch (New_init d) s = alloc_new_init sc d s"
| "lf_exec sc ch (New_cas d) s = alloc_new_cas d s"
| "lf_exec sc ch (New_fail d) s = alloc_new_fail ch d s"
| "lf_exec sc ch (Free_read d i) s = free_read d i s"
| "lf_exec sc ch (Free_link d i old) s = free_link sc d i old s"
| "lf_exec sc ch (Free_cas d i old new) s = free_cas d i old new s"
| "lf_exec sc ch (Free_active d) s = free_active d s"
| "lf_exec sc ch (Free_check d) s = free_check d s"
| "lf_exec sc ch (Free_check_partial d) s = free_check_partial d s"
| "lf_exec sc ch (Remove_empty n) s = list_remove_empty_desc ch n s"
| "lf_exec sc ch (Remove_empty_check d n) s = list_remove_empty_check d n s"
| "lf_exec sc ch (Give_back d k) s = give_back d k s"
| "lf_exec sc ch (Put_partial d k) s = list_put_partial d k s"
| "lf_exec sc ch (Try_put d k) s = try_put_partial ch d k s"
| "lf_exec sc ch (Retire d k) s = map_option (\<lambda>s. (k, s)) (desc_retire ch d s)"

definition lf_running :: "lf_pc \<Rightarrow> bool" where
  "lf_running pc \<longleftrightarrow> (case pc of Idle \<Rightarrow> False | Returned _ _ \<Rightarrow> False | _ \<Rightarrow> True)"

record lf_conf =
  lf_sh :: lf_shared
  lf_thr :: "nat \<Rightarrow> lf_pc"
  lf_client :: "nat \<Rightarrow> nat set"

definition lf_init :: lf_conf where
  "lf_init = \<lparr>lf_sh = \<lparr>heap_active = None, sc_partial = [], put_deferred = [], desc_avail = [],
      avail_deferred = [], lf_descs = (\<lambda>_. fresh_descriptor), num_descs = 0\<rparr>,
    lf_thr = (\<lambda>_. Idle), lf_client = (\<lambda>_. {})\<rparr>"

inductive lf_step :: "MonoLockFreeAllocSizeClass \<Rightarrow> lf_conf \<Rightarrow> lf_conf \<Rightarrow> bool" for sc where
  call_alloc: "lf_thr c t = Idle \<Longrightarrow> lf_step sc c (c\<lparr>lf_thr := (lf_thr c)(t := Alloc_retry)\<rparr>)"
| call_free: "\<lbrakk>lf_thr c t = Idle; i \<in> lf_client c d\<rbrakk> \<Longrightarrow>
    lf_step sc c (c\<lparr>lf_thr := (lf_thr c)(t := Free_read d i),
      lf_client := (lf_client c)(d := lf_client c d - {i})\<rparr>)"
| run: "lf_exec sc ch (lf_thr c t) (lf_sh c) = Some (pc, s) \<Longrightarrow>
    lf_step sc c (c\<lparr>lf_sh := s, lf_thr := (lf_thr c)(t := pc)\<rparr>)"
| return: "lf_thr c t = Returned d i \<Longrightarrow>
    lf_step sc c (c\<lparr>lf_thr := (lf_thr c)(t := Idle), lf_client := (lf_client c)(d := insert i (lf_client c d))\<rparr>)"
| client_write: "i \<in> lf_client c d \<Longrightarrow>
    lf_step sc c (c\<lparr>lf_sh := upd_desc d (\<lambda>x. x\<lparr>d_links := (d_links x)(i := v)\<rparr>) (lf_sh c)\<rparr>)"
| late_put: "\<lbrakk>put_deferred (lf_sh c) = ds @ d # ds';
      desc_put_partial d ((lf_sh c)\<lparr>put_deferred := ds @ ds'\<rparr>) = Some s\<rbrakk> \<Longrightarrow>
    lf_step sc c (c\<lparr>lf_sh := s\<rparr>)"
| late_avail: "\<lbrakk>avail_deferred (lf_sh c) = ds @ d # ds';
      desc_enqueue_avail d ((lf_sh c)\<lparr>avail_deferred := ds @ ds'\<rparr>) = Some s\<rbrakk> \<Longrightarrow>
    lf_step sc c (c\<lparr>lf_sh := s\<rparr>)"

inductive lf_reachable :: "MonoLockFreeAllocSizeClass \<Rightarrow> lf_conf \<Rightarrow> bool" for sc where
  start: "lf_reachable sc lf_init"
| step: "\<lbrakk>lf_reachable sc c; lf_step sc c c'\<rbrakk> \<Longrightarrow> lf_reachable sc c'"

text \<open>A configuration from which the next step of a thread or a late callback fails an assertion or
  touches unmapped memory.\<close>

inductive lf_aborts :: "MonoLockFreeAllocSizeClass \<Rightarrow> lf_conf \<Rightarrow> bool" for sc where
  run_aborts: "\<lbrakk>lf_running (lf_thr c t); lf_exec sc ch (lf_thr c t) (lf_sh c) = None\<rbrakk> \<Longrightarrow> lf_aborts sc c"
| late_put_aborts: "\<lbrakk>put_deferred (lf_sh c) = ds @ d # ds';
      desc_put_partial d ((lf_sh c)\<lparr>put_deferred := ds @ ds'\<rparr>) = None\<rbrakk> \<Longrightarrow> lf_aborts sc c"
| late_avail_aborts: "\<lbrakk>avail_deferred (lf_sh c) = ds @ d # ds';
      desc_enqueue_avail d ((lf_sh c)\<lparr>avail_deferred := ds @ ds'\<rparr>) = None\<rbrakk> \<Longrightarrow> lf_aborts sc c"

section \<open>The allocator's own consistency check\<close>

fun check_links :: "nat \<Rightarrow> (nat \<Rightarrow> u32) \<Rightarrow> nat set \<Rightarrow> nat \<Rightarrow> nat \<Rightarrow> bool" where
  "check_links max_count links linked index 0 = True"
| "check_links max_count links linked index (Suc n) =
    (index < max_count \<and> index \<notin> linked \<and>
      check_links max_count links (insert index linked) (unat (links index)) n)"

definition descriptor_check_consistency :: "MonoLockFreeAllocSizeClass \<Rightarrow> lf_shared \<Rightarrow> nat \<Rightarrow> bool" where
  "descriptor_check_consistency sc s desc \<longleftrightarrow>
    (let D = lf_descs s desc; count = an_count (d_anchor D); max_count = sc_slots sc in
     desc \<notin> set (desc_avail s) \<and>
     (case an_state (d_anchor D) of
        STATE_FULL \<Rightarrow> count = 0
      | STATE_PARTIAL \<Rightarrow> count < max_count
      | STATE_EMPTY \<Rightarrow> count = max_count) \<and>
     check_links max_count (d_links D) {} (an_avail (d_anchor D)) count)"

section \<open>Addresses\<close>

text \<open>What stands behind the pairs of descriptor and index: the superblock's header, which holds
  the descriptor, is found from any slot's address, and so is the slot's index.\<close>

definition sb_header_for_addr :: "u64 \<Rightarrow> u64 \<Rightarrow> u64" where
  "sb_header_for_addr addr block_size = addr AND NOT (block_size - 1)"

definition alloc_sb :: "u64 \<Rightarrow> u64 \<Rightarrow> u64 option" where
  "alloc_sb sb_header block_size =
    (if sb_header = sb_header_for_addr sb_header block_size then Some (sb_header + 8) else None)"

definition free_sb :: "u64 \<Rightarrow> u64 \<Rightarrow> u64 option" where
  "free_sb sb block_size =
    (let sb_header = sb_header_for_addr sb block_size in if sb_header + 8 = sb then Some sb_header else None)"

lemma unat_pow2: "k < 64 \<Longrightarrow> unat (2 ^ k :: u64) = 2 ^ k"
proof -
  assume k: "k < 64"
  then have "(2 :: nat) ^ k < 2 ^ 64" by (intro power_strict_increasing) simp_all
  then have "unat (of_nat (2 ^ k) :: u64) = 2 ^ k" by (simp only: unat_of_nat) (simp add: take_bit_nat_eq_self)
  then show ?thesis by simp
qed

lemma sb_header_offset:
  assumes "sb_header_for_addr h (2 ^ k) = h" "k < 64" "x < 2 ^ k"
  shows "sb_header_for_addr (h + x) (2 ^ k) = h"
proof -
  have m: "(2 ^ k :: u64) - 1 = mask k" by (simp add: mask_eq_exp_minus_1)
  have "h AND mask k = (h AND NOT (mask k)) AND mask k" using assms(1) by (simp only: sb_header_for_addr_def m)
  then have h: "h AND mask k = 0" by (simp add: and.assoc)
  have "unat x < 2 ^ k" using assms(3) unat_pow2 [OF assms(2)] by (simp add: word_less_nat_alt)
  then have "unat (take_bit k x) = unat x" by (simp only: unsigned_take_bit_eq) (simp add: take_bit_nat_eq_self)
  then have "take_bit k x = x" by (simp only: word_unat_eq_iff)
  then have x: "x AND mask k = x" by (simp only: take_bit_eq_mask)
  have "h AND x = h AND (x AND mask k)" by (simp only: x)
  also have "\<dots> = (h AND mask k) AND x" by (simp only: ac_simps)
  finally have "h AND x = 0" by (simp only: h and_zero_eq and.commute zero_and_eq)
  then have sum: "h + x = h OR x" by (rule disjunctive_add_eq_or)
  have "x AND NOT (mask k) = (x AND mask k) AND NOT (mask k)" by (simp only: x)
  also have "\<dots> = 0" by (simp add: and.assoc)
  finally have "x AND NOT (mask k) = 0" .
  moreover have "h AND NOT (mask k) = h" using assms(1) by (simp only: sb_header_for_addr_def m)
  ultimately show ?thesis
    unfolding sb_header_for_addr_def m sum by (simp only: bit.conj_disj_distrib2 or.right_neutral)
qed

lemma slot_address:
  assumes h: "sb_header_for_addr h (2 ^ k) = h" and k: "k < 64" and sl: "0 < slot" "8 + (i + 1) * slot \<le> 2 ^ k"
  shows "sb_header_for_addr (h + 8 + of_nat i * of_nat slot) (2 ^ k) = h"
    "unat (((h + 8 + of_nat i * of_nat slot) - (h + 8)) div of_nat slot) = i"
proof -
  have p: "(2 :: nat) ^ k < 2 ^ 64" using k by (intro power_strict_increasing) simp_all
  have small: "unat (of_nat m :: u64) = m" if "m < 2 ^ k" for m
    using that p by (simp only: unat_of_nat) (simp add: take_bit_nat_eq_self)
  have b: "8 + i * slot < 2 ^ k" "i * slot < 2 ^ k" "slot < 2 ^ k" using sl by (auto simp: algebra_simps)
  have e: "8 + of_nat i * of_nat slot = (of_nat (8 + i * slot) :: u64)" by simp
  have "of_nat (8 + i * slot) < (2 ^ k :: u64)"
    using small [OF b(1)] unat_pow2 [OF k] b(1) by (simp only: word_less_nat_alt)
  from sb_header_offset [OF h k this] show "sb_header_for_addr (h + 8 + of_nat i * of_nat slot) (2 ^ k) = h"
    by (simp only: e [symmetric] add.assoc)
  have "(h + 8 + of_nat i * of_nat slot) - (h + 8) = (of_nat (i * slot) :: u64)" by simp
  then show "unat (((h + 8 + of_nat i * of_nat slot) - (h + 8)) div of_nat slot) = i"
    using small [OF b(2)] small [OF b(3)] sl(1) by (simp only: unat_div) simp
qed

end
