(* ===== verification/Mono_LockFreeInv.thy ===== *)
theory Mono_LockFreeInv
  imports Mono_LockFreeAlloc
begin

unbundle bit_operations_syntax

text \<open>
  The invariant of the lock-free allocator: where a descriptor can be and which thread owns it,
  how the state of its anchor goes with that, and how the free list and the slots in use share a
  superblock out. Every step succeeds and keeps it.
\<close>

section \<open>Ownership\<close>

fun lf_owns :: "lf_pc \<Rightarrow> nat option" where
  "lf_owns (Get_partial_check d) = Some d"
| "lf_owns (Alloc_own d) = Some d"
| "lf_owns (Alloc_link d old) = Some d"
| "lf_owns (Alloc_cas d old new) = Some d"
| "lf_owns (New_init d) = Some d"
| "lf_owns (New_cas d) = Some d"
| "lf_owns (New_fail d) = Some d"
| "lf_owns (Free_check d) = Some d"
| "lf_owns (Free_check_partial d) = Some d"
| "lf_owns (Remove_empty_check d n) = Some d"
| "lf_owns (Give_back d k) = Some d"
| "lf_owns (Put_partial d k) = Some d"
| "lf_owns (Try_put d k) = Some d"
| "lf_owns (Retire d k) = Some d"
| "lf_owns _ = None"

fun lf_slot_of :: "lf_pc \<Rightarrow> (nat \<times> nat) option" where
  "lf_slot_of (Returned d i) = Some (d, i)"
| "lf_slot_of (Free_read d i) = Some (d, i)"
| "lf_slot_of (Free_link d i old) = Some (d, i)"
| "lf_slot_of (Free_cas d i old new) = Some (d, i)"
| "lf_slot_of (New_cas d) = Some (d, 0)"
| "lf_slot_of (New_fail d) = Some (d, 0)"
| "lf_slot_of (Give_back d k) = lf_slot_of k"
| "lf_slot_of (Put_partial d k) = lf_slot_of k"
| "lf_slot_of (Try_put d k) = lf_slot_of k"
| "lf_slot_of _ = None"

fun setting_up :: "lf_pc \<Rightarrow> bool" where
  "setting_up (New_init d) = True"
| "setting_up _ = False"

text \<open>The places a descriptor can be found in: the first three lead to a superblock.\<close>

definition live_places :: "lf_shared \<Rightarrow> nat list" where
  "live_places s = (case heap_active s of None \<Rightarrow> [] | Some d \<Rightarrow> [d]) @ sc_partial s @ put_deferred s"

definition idle_places :: "lf_shared \<Rightarrow> nat list" where
  "idle_places s = desc_avail s @ avail_deferred s"

definition own_ok :: "lf_shared \<Rightarrow> (nat \<Rightarrow> lf_pc) \<Rightarrow> bool" where
  "own_ok s thr \<longleftrightarrow> distinct (live_places s @ idle_places s) \<and>
    (\<forall>d\<in>set (live_places s). d < num_descs s \<and> d_mapped (lf_descs s d)) \<and>
    (\<forall>d\<in>set (idle_places s). d < num_descs s \<and> \<not> d_in_use (lf_descs s d)) \<and>
    (\<forall>d\<in>set (avail_deferred s). an_state (d_anchor (lf_descs s d)) = STATE_EMPTY) \<and>
    (\<forall>t d. lf_owns (thr t) = Some d \<longrightarrow> d \<notin> set (live_places s) \<and> d \<notin> set (idle_places s) \<and> d < num_descs s \<and>
       d_in_use (lf_descs s d) \<and> d_mapped (lf_descs s d) = (\<not> setting_up (thr t))) \<and>
    (\<forall>t t' d. lf_owns (thr t) = Some d \<longrightarrow> lf_owns (thr t') = Some d \<longrightarrow> t = t')"

definition node_ok :: "lf_shared \<Rightarrow> bool" where
  "node_ok s \<longleftrightarrow> (\<forall>d. (d_mapped (lf_descs s d) \<longrightarrow> d_in_use (lf_descs s d) \<and> d < num_descs s) \<and>
    (d < num_descs s \<longrightarrow> d_poisoned (lf_descs s d) = (d \<notin> set (sc_partial s))))"

text \<open>A full superblock is nobody's; one with a free slot that is not empty is never lost.\<close>

definition held :: "lf_shared \<Rightarrow> (nat \<Rightarrow> lf_pc) \<Rightarrow> nat \<Rightarrow> bool" where
  "held s thr d \<longleftrightarrow> d \<in> set (live_places s) \<or> (\<exists>t. lf_owns (thr t) = Some d)"

definition state_ok :: "lf_shared \<Rightarrow> (nat \<Rightarrow> lf_pc) \<Rightarrow> bool" where
  "state_ok s thr \<longleftrightarrow> (\<forall>d. d_mapped (lf_descs s d) \<longrightarrow>
    (an_state (d_anchor (lf_descs s d)) = STATE_FULL \<longrightarrow> \<not> held s thr d) \<and>
    (an_state (d_anchor (lf_descs s d)) = STATE_PARTIAL \<longrightarrow> held s thr d))"

section \<open>Slots\<close>

fun lchain :: "(nat \<Rightarrow> u32) \<Rightarrow> nat \<Rightarrow> nat \<Rightarrow> nat list" where
  "lchain links a 0 = []"
| "lchain links a (Suc n) = a # lchain links (unat (links a)) n"

definition free_slots :: "Descriptor \<Rightarrow> nat list" where
  "free_slots D = lchain (d_links D) (an_avail (d_anchor D)) (an_count (d_anchor D))"

definition busy :: "(nat \<Rightarrow> lf_pc) \<Rightarrow> (nat \<Rightarrow> nat set) \<Rightarrow> nat \<Rightarrow> nat set" where
  "busy thr client d = client d \<union> {i. \<exists>t. lf_slot_of (thr t) = Some (d, i)}"

definition desc_ok :: "nat \<Rightarrow> nat set \<Rightarrow> Descriptor \<Rightarrow> bool" where
  "desc_ok n used D \<longleftrightarrow> d_max_count D = n \<and> an_count (d_anchor D) \<le> n \<and> an_avail (d_anchor D) < n \<and>
    (\<forall>i\<in>set (free_slots D). unat (d_links D i) < n) \<and>
    distinct (free_slots D) \<and> set (free_slots D) \<inter> used = {} \<and> set (free_slots D) \<union> used = {..<n} \<and>
    (an_state (d_anchor D) = STATE_FULL \<longleftrightarrow> an_count (d_anchor D) = 0) \<and>
    (an_state (d_anchor D) = STATE_EMPTY \<longleftrightarrow> an_count (d_anchor D) = n)"

text \<open>Where a thread goes on after giving a descriptor away.\<close>

fun lf_cont :: "lf_pc \<Rightarrow> bool" where
  "lf_cont Idle = True"
| "lf_cont (Returned d i) = True"
| "lf_cont Alloc_retry = True"
| "lf_cont Get_partial = True"
| "lf_cont (Remove_empty n) = True"
| "lf_cont _ = False"

fun pc_ok :: "nat \<Rightarrow> lf_shared \<Rightarrow> lf_pc \<Rightarrow> bool" where
  "pc_ok n s (Alloc_link d old) \<longleftrightarrow> an_state old = STATE_PARTIAL \<and> 0 < an_count old \<and> an_count old \<le> n \<and>
    an_avail old \<in> set (free_slots (lf_descs s d))"
| "pc_ok n s (Alloc_cas d old new) \<longleftrightarrow> an_state old = STATE_PARTIAL \<and> 0 < an_count old \<and> an_count old \<le> n \<and>
    an_avail old \<in> set (free_slots (lf_descs s d)) \<and> new = alloc_anchor (unat (d_links (lf_descs s d) (an_avail old))) old"
| "pc_ok n s (New_cas d) \<longleftrightarrow> set (free_slots (lf_descs s d)) = {1..<n}"
| "pc_ok n s (New_fail d) \<longleftrightarrow> set (free_slots (lf_descs s d)) = {1..<n}"
| "pc_ok n s (Free_link d i old) \<longleftrightarrow> an_state old \<noteq> STATE_EMPTY \<and> an_avail old < n"
| "pc_ok n s (Free_cas d i old new) \<longleftrightarrow> an_state old \<noteq> STATE_EMPTY \<and> an_avail old < n \<and>
    d_links (lf_descs s d) i = of_nat (an_avail old) \<and> new = free_anchor n i old"
| "pc_ok n s (Give_back d k) \<longleftrightarrow> lf_cont k"
| "pc_ok n s (Put_partial d k) \<longleftrightarrow> lf_cont k"
| "pc_ok n s (Try_put d k) \<longleftrightarrow> lf_cont k"
| "pc_ok n s (Retire d k) \<longleftrightarrow> an_state (d_anchor (lf_descs s d)) = STATE_EMPTY \<and> lf_cont k \<and> lf_slot_of k = None"
| "pc_ok n s _ = True"

definition slots_apart :: "(nat \<Rightarrow> lf_pc) \<Rightarrow> (nat \<Rightarrow> nat set) \<Rightarrow> bool" where
  "slots_apart thr client \<longleftrightarrow> (\<forall>t d i. lf_slot_of (thr t) = Some (d, i) \<longrightarrow>
    i \<notin> client d \<and> (\<forall>t'. lf_slot_of (thr t') = Some (d, i) \<longrightarrow> t' = t))"

definition slots_ok :: "nat \<Rightarrow> lf_shared \<Rightarrow> (nat \<Rightarrow> lf_pc) \<Rightarrow> (nat \<Rightarrow> nat set) \<Rightarrow> bool" where
  "slots_ok n s thr client \<longleftrightarrow>
    (\<forall>d. if d_mapped (lf_descs s d) then desc_ok n (busy thr client d) (lf_descs s d) else busy thr client d = {}) \<and>
    slots_apart thr client \<and> (\<forall>t. pc_ok n s (thr t))"

definition lf_inv :: "nat \<Rightarrow> lf_shared \<Rightarrow> (nat \<Rightarrow> lf_pc) \<Rightarrow> (nat \<Rightarrow> nat set) \<Rightarrow> bool" where
  "lf_inv n s thr client \<longleftrightarrow> own_ok s thr \<and> node_ok s \<and> state_ok s thr \<and> slots_ok n s thr client"

section \<open>Moves of ownership\<close>

text \<open>Descriptors alike but for the queue node.\<close>

definition same_descs :: "lf_shared \<Rightarrow> lf_shared \<Rightarrow> bool" where
  "same_descs s s' \<longleftrightarrow> num_descs s' = num_descs s \<and>
    (\<forall>d. (lf_descs s' d)\<lparr>d_poisoned := True\<rparr> = (lf_descs s d)\<lparr>d_poisoned := True\<rparr>)"

lemma same_descs_fields:
  assumes "same_descs s s'"
  shows "num_descs s' = num_descs s" "d_anchor (lf_descs s' d) = d_anchor (lf_descs s d)"
    "d_max_count (lf_descs s' d) = d_max_count (lf_descs s d)" "d_links (lf_descs s' d) = d_links (lf_descs s d)"
    "d_mapped (lf_descs s' d) = d_mapped (lf_descs s d)" "d_in_use (lf_descs s' d) = d_in_use (lf_descs s d)"
proof -
  have e: "(lf_descs s' d)\<lparr>d_poisoned := True\<rparr> = (lf_descs s d)\<lparr>d_poisoned := True\<rparr>"
    and "num_descs s' = num_descs s" using assms by (simp_all add: same_descs_def)
  show "num_descs s' = num_descs s" by fact
  show "d_anchor (lf_descs s' d) = d_anchor (lf_descs s d)" using arg_cong [OF e, of d_anchor] by simp
  show "d_max_count (lf_descs s' d) = d_max_count (lf_descs s d)" using arg_cong [OF e, of d_max_count] by simp
  show "d_links (lf_descs s' d) = d_links (lf_descs s d)" using arg_cong [OF e, of d_links] by simp
  show "d_mapped (lf_descs s' d) = d_mapped (lf_descs s d)" using arg_cong [OF e, of d_mapped] by simp
  show "d_in_use (lf_descs s' d) = d_in_use (lf_descs s d)" using arg_cong [OF e, of d_in_use] by simp
qed

lemma same_descs_refl [simp]: "same_descs s s"
  by (simp add: same_descs_def)

lemma free_slots_same: "same_descs s s' \<Longrightarrow> free_slots (lf_descs s' d) = free_slots (lf_descs s d)"
  by (simp add: free_slots_def same_descs_fields)

lemma desc_ok_same: "same_descs s s' \<Longrightarrow> desc_ok n u (lf_descs s' d) = desc_ok n u (lf_descs s d)"
  by (simp add: desc_ok_def free_slots_same same_descs_fields)

lemma pc_ok_same: "same_descs s s' \<Longrightarrow> pc_ok n s' pc = pc_ok n s pc"
  by (cases pc) (simp_all add: free_slots_same same_descs_fields)

lemma busy_upd:
  "lf_slot_of pc = lf_slot_of (thr t) \<Longrightarrow> busy (thr(t := pc)) client d = busy thr client d"
  by (auto simp: busy_def)

lemma slots_apart_upd:
  "lf_slot_of pc = lf_slot_of (thr t) \<Longrightarrow> slots_apart (thr(t := pc)) client = slots_apart thr client"
proof -
  assume e: "lf_slot_of pc = lf_slot_of (thr t)"
  have "lf_slot_of ((thr(t := pc)) t') = lf_slot_of (thr t')" for t' using e by simp
  then show ?thesis by (simp only: slots_apart_def)
qed

lemma slots_pc:
  assumes "slots_ok n s thr client" "same_descs s s'" "lf_slot_of pc = lf_slot_of (thr t)" "pc_ok n s pc"
  shows "slots_ok n s' (thr(t := pc)) client"
proof -
  have "pc_ok n s' ((thr(t := pc)) t')" for t'
    using assms(1,4) by (simp add: pc_ok_same [OF assms(2)] slots_ok_def)
  then show ?thesis
    using assms(1) unfolding slots_ok_def busy_upd [where pc = pc and thr = thr and t = t, OF assms(3)]
      slots_apart_upd [where pc = pc and thr = thr and t = t, OF assms(3)]
      desc_ok_same [OF assms(2)] same_descs_fields(5) [OF assms(2)]
    by simp
qed

lemma own_okD:
  assumes "own_ok s thr"
  shows "distinct (live_places s @ idle_places s)"
    "\<And>d. d \<in> set (live_places s) \<Longrightarrow> d < num_descs s \<and> d_mapped (lf_descs s d)"
    "\<And>d. d \<in> set (idle_places s) \<Longrightarrow> d < num_descs s \<and> \<not> d_in_use (lf_descs s d)"
    "\<And>d. d \<in> set (avail_deferred s) \<Longrightarrow> an_state (d_anchor (lf_descs s d)) = STATE_EMPTY"
    "\<And>t d. lf_owns (thr t) = Some d \<Longrightarrow> d \<notin> set (live_places s) \<and> d \<notin> set (idle_places s) \<and> d < num_descs s \<and>
       d_in_use (lf_descs s d) \<and> d_mapped (lf_descs s d) = (\<not> setting_up (thr t))"
    "\<And>t t' d. lf_owns (thr t) = Some d \<Longrightarrow> lf_owns (thr t') = Some d \<Longrightarrow> t = t'"
  using assms unfolding own_ok_def by blast+

lemma own_okI:
  assumes "distinct (live_places s @ idle_places s)"
    "\<And>d. d \<in> set (live_places s) \<Longrightarrow> d < num_descs s \<and> d_mapped (lf_descs s d)"
    "\<And>d. d \<in> set (idle_places s) \<Longrightarrow> d < num_descs s \<and> \<not> d_in_use (lf_descs s d)"
    "\<And>d. d \<in> set (avail_deferred s) \<Longrightarrow> an_state (d_anchor (lf_descs s d)) = STATE_EMPTY"
    "\<And>t d. lf_owns (thr t) = Some d \<Longrightarrow> d \<notin> set (live_places s) \<and> d \<notin> set (idle_places s) \<and> d < num_descs s \<and>
       d_in_use (lf_descs s d) \<and> d_mapped (lf_descs s d) = (\<not> setting_up (thr t))"
    "\<And>t t' d. lf_owns (thr t) = Some d \<Longrightarrow> lf_owns (thr t') = Some d \<Longrightarrow> t = t'"
  shows "own_ok s thr"
  unfolding own_ok_def using assms by blast

lemma own_stay:
  assumes "own_ok s thr" "lf_owns pc = lf_owns (thr t)" "setting_up pc = setting_up (thr t)"
  shows "own_ok s (thr(t := pc))"
  using assms unfolding own_ok_def by auto

lemma held_stay: "lf_owns pc = lf_owns (thr t) \<Longrightarrow> held s (thr(t := pc)) d = held s thr d"
  by (auto simp: held_def)

text \<open>A step that moves no descriptor and no slot.\<close>

lemma inv_stay:
  assumes "lf_inv n s thr client" "lf_owns pc = lf_owns (thr t)" "setting_up pc = setting_up (thr t)"
    "lf_slot_of pc = lf_slot_of (thr t)" "pc_ok n s pc"
  shows "lf_inv n s (thr(t := pc)) client"
  using assms own_stay [of s thr pc t] slots_pc [of n s thr client s pc t]
  by (auto simp: lf_inv_def state_ok_def held_stay)

lemma own_take:
  assumes ok: "own_ok s thr" and owns: "lf_owns (thr t) = None" "lf_owns pc = Some d" "\<not> setting_up pc"
    and same: "same_descs s s'" and live: "live_places s = xs @ d # ys" "live_places s' = xs @ ys"
    and idle: "idle_places s' = idle_places s" "avail_deferred s' = avail_deferred s" and node: "node_ok s"
  shows "own_ok s' (thr(t := pc))"
proof (rule own_okI, unfold idle same_descs_fields [OF same])
  note D = own_okD [OF ok]
  have d: "d_mapped (lf_descs s d)" "d < num_descs s" "d_in_use (lf_descs s d)"
    "d \<notin> set xs" "d \<notin> set ys" "d \<notin> set (idle_places s)"
    using D(1) D(2) [of d] node live(1) unfolding node_ok_def by auto
  have o: "lf_owns (thr t') \<noteq> Some d" for t' using D(5) [of t' d] live(1) by auto
  show "distinct (live_places s' @ idle_places s)" using D(1) live by auto
  show "e < num_descs s \<and> d_mapped (lf_descs s e)" if "e \<in> set (live_places s')" for e
    using D(2) [of e] that live by auto
  show "e \<notin> set (live_places s') \<and> e \<notin> set (idle_places s) \<and> e < num_descs s \<and> d_in_use (lf_descs s e) \<and>
      d_mapped (lf_descs s e) = (\<not> setting_up ((thr(t := pc)) t'))" if "lf_owns ((thr(t := pc)) t') = Some e" for t' e
    using that D(5) [of t' e] owns d live by (cases "t' = t") auto
  show "t1 = t2" if "lf_owns ((thr(t := pc)) t1) = Some e" "lf_owns ((thr(t := pc)) t2) = Some e" for t1 t2 e
    using that D(6) [of t1 e t2] o owns by (auto split: if_splits)
qed (use own_okD [OF ok] in auto)

lemma owns_upd:
  "(\<exists>t'. lf_owns ((thr(t := pc)) t') = Some d) \<longleftrightarrow> lf_owns pc = Some d \<or> (\<exists>t'. t' \<noteq> t \<and> lf_owns (thr t') = Some d)"
  "(\<exists>t'. lf_owns (thr t') = Some d) \<longleftrightarrow> lf_owns (thr t) = Some d \<or> (\<exists>t'. t' \<noteq> t \<and> lf_owns (thr t') = Some d)"
  by (auto simp del: fun_upd_apply) (metis fun_upd_apply)+

lemma held_take:
  assumes "lf_owns (thr t) = None" "lf_owns pc = Some d" "live_places s = xs @ d # ys" "live_places s' = xs @ ys"
  shows "held s' (thr(t := pc)) d' = held s thr d'"
  unfolding held_def owns_upd(1) owns_upd(2) [of thr d' t] using assms by auto

lemma inv_take:
  assumes inv: "lf_inv n s thr client" and owns: "lf_owns (thr t) = None" "lf_owns pc = Some d" "\<not> setting_up pc"
    and same: "same_descs s s'" and live: "live_places s = xs @ d # ys" "live_places s' = xs @ ys"
    and idle: "idle_places s' = idle_places s" "avail_deferred s' = avail_deferred s" and node: "node_ok s'"
    and slot: "lf_slot_of pc = lf_slot_of (thr t)" "pc_ok n s pc"
  shows "lf_inv n s' (thr(t := pc)) client"
proof -
  have "own_ok s' (thr(t := pc))" 
    using inv own_take [of s thr t pc d s' xs ys, OF _ owns same live idle] by (simp add: lf_inv_def)
  moreover have "slots_ok n s' (thr(t := pc)) client" 
    using inv slots_pc [of n s thr client s' pc t, OF _ same slot] by (simp add: lf_inv_def)
  ultimately show ?thesis using inv node
    unfolding lf_inv_def state_ok_def held_take [of thr t pc d s xs ys s', OF owns(1,2) live] same_descs_fields [OF same] by simp
qed

lemma own_give:
  assumes ok: "own_ok s thr" and owns: "lf_owns (thr t) = Some d" "\<not> setting_up (thr t)" "lf_owns pc = None"
    and same: "same_descs s s'" and live: "live_places s = xs @ ys" "live_places s' = xs @ d # ys"
    and idle: "idle_places s' = idle_places s" "avail_deferred s' = avail_deferred s"
  shows "own_ok s' (thr(t := pc))"
proof (rule own_okI, unfold idle same_descs_fields [OF same])
  note D = own_okD [OF ok]
  have d: "d_mapped (lf_descs s d)" "d < num_descs s" "d \<notin> set xs" "d \<notin> set ys" "d \<notin> set (idle_places s)"
    using D(5) [OF owns(1)] owns(2) live(1) by auto
  show "distinct (live_places s' @ idle_places s)" using D(1) d live by auto
  show "e < num_descs s \<and> d_mapped (lf_descs s e)" if "e \<in> set (live_places s')" for e
    using D(2) [of e] d that live by (cases "e = d") auto
  show "e \<notin> set (live_places s') \<and> e \<notin> set (idle_places s) \<and> e < num_descs s \<and> d_in_use (lf_descs s e) \<and>
      d_mapped (lf_descs s e) = (\<not> setting_up ((thr(t := pc)) t'))" if "lf_owns ((thr(t := pc)) t') = Some e" for t' e
  proof -
    have "t' \<noteq> t" using that owns(3) by auto
    then have "lf_owns (thr t') = Some e" "e \<noteq> d" using that D(6) [of t' d t] owns(1) by auto
    then show ?thesis using D(5) [of t' e] \<open>t' \<noteq> t\<close> live by auto
  qed
  show "t1 = t2" if "lf_owns ((thr(t := pc)) t1) = Some e" "lf_owns ((thr(t := pc)) t2) = Some e" for t1 t2 e
    using that D(6) [of t1 e t2] owns(3) by (auto split: if_splits)
qed (use own_okD [OF ok] in auto)

lemma held_give:
  assumes "own_ok s thr" "lf_owns (thr t) = Some d" "lf_owns pc = None"
    "live_places s = xs @ ys" "live_places s' = xs @ d # ys"
  shows "held s' (thr(t := pc)) d' = held s thr d'"
  unfolding held_def owns_upd(1) owns_upd(2) [of thr d' t] using assms(2-) by auto

lemma inv_give:
  assumes inv: "lf_inv n s thr client" and owns: "lf_owns (thr t) = Some d" "\<not> setting_up (thr t)" "lf_owns pc = None"
    and same: "same_descs s s'" and live: "live_places s = xs @ ys" "live_places s' = xs @ d # ys"
    and idle: "idle_places s' = idle_places s" "avail_deferred s' = avail_deferred s" and node: "node_ok s'"
    and slot: "lf_slot_of pc = lf_slot_of (thr t)" "pc_ok n s pc"
  shows "lf_inv n s' (thr(t := pc)) client"
proof -
  have own: "own_ok s thr" using inv by (simp add: lf_inv_def)
  have "slots_ok n s' (thr(t := pc)) client" 
    using inv slots_pc [of n s thr client s' pc t, OF _ same slot] by (simp add: lf_inv_def)
  then show ?thesis using inv node own_give [of s thr t d pc s' xs ys, OF own owns same live idle]
    unfolding lf_inv_def state_ok_def held_give [of s thr t d pc xs ys s', OF own owns(1,3) live] same_descs_fields [OF same] by simp
qed

section \<open>A superblock's slots\<close>

lemma length_lchain [simp]: "length (lchain links a n) = n"
  by (induction links a n rule: lchain.induct) simp_all

lemma length_free_slots: "length (free_slots D) = an_count (d_anchor D)"
  by (simp add: free_slots_def)

lemma small_u32: "n < 32768 \<Longrightarrow> unat (of_nat n :: u32) = n"
  by (simp add: unat_of_nat take_bit_nat_eq_self)

lemma lchain_upd: "i \<notin> set (lchain links a n) \<Longrightarrow> lchain (links(i := v)) a n = lchain links a n"
  by (induction links a n rule: lchain.induct) auto

lemma free_slots_link: "i \<notin> set (free_slots D) \<Longrightarrow> free_slots (D\<lparr>d_links := (d_links D)(i := v)\<rparr>) = free_slots D"
  by (simp add: free_slots_def lchain_upd)

lemma desc_ok_link:
  "\<lbrakk>desc_ok n u D; i \<in> u\<rbrakk> \<Longrightarrow> desc_ok n u (D\<lparr>d_links := (d_links D)(i := v)\<rparr>)"
proof -
  assume a: "desc_ok n u D" "i \<in> u"
  then have i: "i \<notin> set (free_slots D)" by (auto simp: desc_ok_def)
  show ?thesis using a i unfolding desc_ok_def free_slots_link [OF i] by auto
qed

lemma desc_ok_empty:
  assumes "desc_ok n u D" "an_state (d_anchor D) = STATE_EMPTY"
  shows "u = {}"
proof -
  have "card (set (free_slots D)) = n" using assms by (auto simp: desc_ok_def distinct_card length_free_slots)
  moreover have "set (free_slots D) \<subseteq> {..<n}" using assms(1) by (auto simp: desc_ok_def)
  ultimately have "set (free_slots D) = {..<n}" by (simp add: card_subset_eq)
  then show ?thesis using assms(1) by (auto simp: desc_ok_def)
qed

lemma bf15_id [simp]: "n < 32768 \<Longrightarrow> bf15 n = n"
  by (simp add: bf15_def)

lemma desc_ok_alloc:
  assumes ok: "desc_ok n u D" and n: "n < 32768" and a: "a = d_anchor D" "0 < an_count a" "an_state a = STATE_PARTIAL"
    and new: "new = alloc_anchor (unat (d_links D (an_avail a))) a"
  shows "free_slots D = an_avail a # free_slots (D\<lparr>d_anchor := new\<rparr>)"
    "desc_ok n (insert (an_avail a) u) (D\<lparr>d_anchor := new\<rparr>)" "an_avail a \<notin> u"
    "an_state new = STATE_FULL \<or> an_state new = STATE_PARTIAL"
proof -
  obtain c where c: "an_count a = Suc c" using a(2) by (cases "an_count a") auto
  have mem: "an_avail a \<in> set (free_slots D)" using c by (simp add: free_slots_def a(1) [symmetric])
  have link: "unat (d_links D (an_avail a)) < n" using ok mem by (simp add: desc_ok_def)
  have le: "c < n" using ok c by (simp add: desc_ok_def a(1))
  have nw: "an_avail new = unat (d_links D (an_avail a))" "an_count new = c"
    "an_state new = (if c = 0 then STATE_FULL else STATE_PARTIAL)"
    using n link le c a(3) by (simp_all add: new alloc_anchor_def Let_def)
  show fs: "free_slots D = an_avail a # free_slots (D\<lparr>d_anchor := new\<rparr>)"
    using c by (simp add: free_slots_def nw a(1) [symmetric])
  show "an_avail a \<notin> u" using ok mem by (auto simp: desc_ok_def)
  show "an_state new = STATE_FULL \<or> an_state new = STATE_PARTIAL" by (simp add: nw)
  show "desc_ok n (insert (an_avail a) u) (D\<lparr>d_anchor := new\<rparr>)"
    using ok link le nw unfolding desc_ok_def fs by auto
qed

lemma desc_ok_free:
  assumes ok: "desc_ok n u D" and n: "n < 32768" "2 \<le> n" and i: "i \<in> u" "d_links D i = of_nat (an_avail (d_anchor D))"
    and new: "new = free_anchor n i (d_anchor D)"
  shows "free_slots (D\<lparr>d_anchor := new\<rparr>) = i # free_slots D" "desc_ok n (u - {i}) (D\<lparr>d_anchor := new\<rparr>)"
    "an_state (d_anchor D) \<noteq> STATE_EMPTY" "an_state new = STATE_EMPTY \<or> an_state new = STATE_PARTIAL"
proof -
  let ?a = "d_anchor D"
  show ne: "an_state ?a \<noteq> STATE_EMPTY" using desc_ok_empty [OF ok] i(1) by auto
  have i': "i < n" "i \<notin> set (free_slots D)" using ok i(1) by (auto simp: desc_ok_def)
  have av: "an_avail ?a < n" "an_count ?a \<le> n" "(an_state ?a = STATE_FULL) = (an_count ?a = 0)"
    "an_count ?a \<noteq> n" using ok ne by (auto simp: desc_ok_def)
  have u: "unat (of_nat (an_avail ?a) :: u32) = an_avail ?a" using av(1) n(1) by (simp add: unat_of_nat take_bit_nat_eq_self)
  have nw: "an_avail new = i" "an_count new = Suc (an_count ?a)"
    "an_state new = (if Suc (an_count ?a) = n then STATE_EMPTY else STATE_PARTIAL)"
    using n i'(1) av ne by (auto simp: new free_anchor_def Let_def) (metis anchor_state.exhaust)+
  show fs: "free_slots (D\<lparr>d_anchor := new\<rparr>) = i # free_slots D" by (simp add: free_slots_def nw i(2) u)
  show "an_state new = STATE_EMPTY \<or> an_state new = STATE_PARTIAL" by (simp add: nw)
  show "desc_ok n (u - {i}) (D\<lparr>d_anchor := new\<rparr>)"
    using ok i'(1) i nw av u unfolding desc_ok_def fs by auto
qed

lemma new_chain:
  assumes "2 \<le> n" "n < 32768"
  shows "lchain (new_links n links) 1 (n - 1) = [1..<n]"
proof -
  have "lchain (new_links n links) a m = [a..<a + m]" if "1 \<le> a" "a + m \<le> n" for a m
    using that
  proof (induction m arbitrary: a)
    case (Suc m)
    show ?case
    proof (cases m)
      case (Suc k)
      then have "a < n - 1" using Suc.prems by simp
      then have "unat (new_links n links a) = a + 1"
        using Suc.prems assms(2) small_u32 [of "a + 1"] by (simp add: new_links_def del: of_nat_add)
      then show ?thesis using Suc.IH [of "a + 1"] Suc.prems Suc by (simp add: upt_conv_Cons)
    qed simp
  qed simp
  from this [of 1 "n - 1"] assms(1) show ?thesis by simp
qed

lemma desc_ok_new:
  assumes "2 \<le> n" "n < 32768"
  shows "desc_ok n {0} (D\<lparr>d_max_count := n, d_anchor := \<lparr>an_avail = 1, an_count = bf15 (n - 1), an_state = STATE_PARTIAL\<rparr>,
    d_mapped := True, d_links := new_links n (d_links D)\<rparr>)" (is "desc_ok n _ ?D")
    and "set (free_slots (D\<lparr>d_max_count := n, d_anchor := \<lparr>an_avail = 1, an_count = bf15 (n - 1), an_state = STATE_PARTIAL\<rparr>,
    d_mapped := True, d_links := new_links n (d_links D)\<rparr>)) = {1..<n}"
proof -
  have b: "bf15 (n - 1) = n - 1" using assms by simp
  have fs: "free_slots ?D = [1..<n]" using new_chain [OF assms] by (simp only: free_slots_def b Descriptor.simps Anchor.simps) simp
  have "unat (new_links n (d_links D) i) < n" if "1 \<le> i" "i < n" for i
    using that assms small_u32 [of "i + 1"] by (auto simp: new_links_def simp del: of_nat_add)
  then show "desc_ok n {0} ?D" using assms unfolding desc_ok_def fs by auto
  show "set (free_slots ?D) = {1..<n}" unfolding fs by auto
qed

section \<open>Steps that change a descriptor\<close>

lemma lf_contD: "lf_cont k \<Longrightarrow> lf_owns k = None \<and> \<not> setting_up k \<and> pc_ok n s k"
  by (cases k) simp_all

lemma pc_ok_other:
  assumes "lf_owns pc \<noteq> Some d" "\<And>e. e \<noteq> d \<Longrightarrow> lf_descs s' e = lf_descs s e"
    "d_links (lf_descs s' d) = d_links (lf_descs s d)"
  shows "pc_ok n s' pc = pc_ok n s pc"
  using assms(1)
proof (induction pc)
  case (Free_cas e i old new)
  then show ?case using assms(2) [of e] assms(3) by (cases "e = d") simp_all
qed (use assms(2) in auto)

lemma slots_apart_drop: "slots_apart thr client \<Longrightarrow> lf_slot_of pc = None \<Longrightarrow> slots_apart (thr(t := pc)) client"
  by (auto simp: slots_apart_def)

lemma slots_apart_gain:
  "\<lbrakk>slots_apart thr client; lf_slot_of pc = Some (d, i); i \<notin> busy thr client d\<rbrakk> \<Longrightarrow> slots_apart (thr(t := pc)) client"
  by (auto simp: slots_apart_def busy_def)

lemma busy_upd_split:
  "busy (thr(t := pc)) client e = client e \<union> {i. lf_slot_of pc = Some (e, i)} \<union> {i. \<exists>t'. t' \<noteq> t \<and> lf_slot_of (thr t') = Some (e, i)}"
  "busy thr client e = client e \<union> {i. lf_slot_of (thr t) = Some (e, i)} \<union> {i. \<exists>t'. t' \<noteq> t \<and> lf_slot_of (thr t') = Some (e, i)}"
  by (auto simp: busy_def)

lemma busy_drop:
  assumes "slots_apart thr client" "lf_slot_of (thr t) = Some (d, i)" "lf_slot_of pc = None"
  shows "busy (thr(t := pc)) client e = (if e = d then busy thr client d - {i} else busy thr client e)"
  unfolding busy_upd_split(1) busy_upd_split(2) [of thr client _ t] using assms by (auto simp: slots_apart_def)

lemma busy_gain:
  assumes "lf_slot_of (thr t) = None" "lf_slot_of pc = Some (d, i)"
  shows "busy (thr(t := pc)) client e = (if e = d then insert i (busy thr client d) else busy thr client e)"
  unfolding busy_upd_split(1) busy_upd_split(2) [of thr client _ t] using assms by auto

lemma slots_okI:
  assumes "\<And>e. e \<noteq> d \<Longrightarrow> busy thr' client' e = busy thr client e"
    and "\<And>e. e \<noteq> d \<Longrightarrow> lf_descs s' e = lf_descs s e" and ok: "slots_ok n s thr client"
    and "if d_mapped (lf_descs s' d) then desc_ok n (busy thr' client' d) (lf_descs s' d) else busy thr' client' d = {}"
    and "slots_apart thr' client'" "\<And>t. pc_ok n s' (thr' t)"
  shows "slots_ok n s' thr' client'"
  unfolding slots_ok_def
proof (intro conjI allI)
  fix e show "if d_mapped (lf_descs s' e) then desc_ok n (busy thr' client' e) (lf_descs s' e) else busy thr' client' e = {}"
    using assms(1,2) [of e] assms(4) ok unfolding slots_ok_def by (cases "e = d") auto
qed (use assms(5,6) in auto)

lemma slots_okD:
  assumes "slots_ok n s thr client"
  shows "d_mapped (lf_descs s d) \<Longrightarrow> desc_ok n (busy thr client d) (lf_descs s d)"
    "\<not> d_mapped (lf_descs s d) \<Longrightarrow> busy thr client d = {}" "slots_apart thr client" "pc_ok n s (thr t)"
proof -
  have "if d_mapped (lf_descs s d) then desc_ok n (busy thr client d) (lf_descs s d) else busy thr client d = {}"
    using assms unfolding slots_ok_def by blast
  then show "d_mapped (lf_descs s d) \<Longrightarrow> desc_ok n (busy thr client d) (lf_descs s d)"
    "\<not> d_mapped (lf_descs s d) \<Longrightarrow> busy thr client d = {}" by simp_all
  show "slots_apart thr client" "pc_ok n s (thr t)" using assms by (simp_all add: slots_ok_def)
qed

lemma upd_desc_simps [simp]:
  "lf_descs (upd_desc d f s) = (lf_descs s)(d := f (lf_descs s d))" "heap_active (upd_desc d f s) = heap_active s"
  "sc_partial (upd_desc d f s) = sc_partial s" "put_deferred (upd_desc d f s) = put_deferred s"
  "desc_avail (upd_desc d f s) = desc_avail s" "avail_deferred (upd_desc d f s) = avail_deferred s"
  "num_descs (upd_desc d f s) = num_descs s"
  by (simp_all add: upd_desc_def)

lemma places_upd [simp]: "live_places (upd_desc d f s) = live_places s" "idle_places (upd_desc d f s) = idle_places s"
  by (simp_all add: live_places_def idle_places_def)

text \<open>What the slot invariant says of a thread that owns a mapped descriptor or holds a slot.\<close>

lemma owned_desc:
  assumes "lf_inv n s thr client" "lf_owns (thr t) = Some d" "\<not> setting_up (thr t)"
  shows "desc_ok n (busy thr client d) (lf_descs s d)" "an_state (d_anchor (lf_descs s d)) \<noteq> STATE_FULL"
    "d_mapped (lf_descs s d)" "d_in_use (lf_descs s d)"
proof -
  show m: "d_mapped (lf_descs s d)" "d_in_use (lf_descs s d)"
    using assms own_okD(5) [of s thr t d] by (simp_all add: lf_inv_def)
  show "desc_ok n (busy thr client d) (lf_descs s d)"
    using assms(1) m slots_okD(1) by (simp add: lf_inv_def)
  show "an_state (d_anchor (lf_descs s d)) \<noteq> STATE_FULL"
    using assms m by (auto simp: lf_inv_def state_ok_def held_def)
qed

lemma held_desc:
  assumes "lf_inv n s thr client" "i \<in> busy thr client d"
  shows "desc_ok n (busy thr client d) (lf_descs s d)" "d_mapped (lf_descs s d)"
    "d_in_use (lf_descs s d)" "d < num_descs s"
proof -
  have "busy thr client d \<noteq> {}" using assms(2) by auto
  then show m: "d_mapped (lf_descs s d)" using assms(1) slots_okD(2) [of n s thr client d] by (auto simp: lf_inv_def)
  then show "d_in_use (lf_descs s d)" "d < num_descs s" using assms(1) by (auto simp: lf_inv_def node_ok_def)
  show "desc_ok n (busy thr client d) (lf_descs s d)"
    using assms(1) m slots_okD(1) by (simp add: lf_inv_def)
qed

lemma own_content:
  assumes ok: "own_ok s thr" and same: "\<And>e. d_mapped (f (lf_descs s d)) = d_mapped (lf_descs s d) \<and>
      d_in_use (f (lf_descs s d)) = d_in_use (lf_descs s d)" and d: "d \<notin> set (avail_deferred s)"
  shows "own_ok (upd_desc d f s) thr"
proof -
  have m: "d_mapped (((lf_descs s)(d := f (lf_descs s d))) e) = d_mapped (lf_descs s e)"
    "d_in_use (((lf_descs s)(d := f (lf_descs s d))) e) = d_in_use (lf_descs s e)" for e
    using same by simp_all
  show ?thesis using own_okD [OF ok] d by (intro own_okI) (auto simp: m simp del: fun_upd_apply, auto)
qed

text \<open>Writing to a slot in use.\<close>

lemma inv_link:
  assumes inv: "lf_inv n s thr client" and i: "i \<in> busy thr client d"
    and others: "\<And>t' old new. thr t' \<noteq> Free_cas d i old new"
  shows "lf_inv n (upd_desc d (\<lambda>x. x\<lparr>d_links := (d_links x)(i := v)\<rparr>) s) thr client" (is "lf_inv n ?s _ _")
proof -
  note H = held_desc [OF inv i]
  have ni: "i \<notin> set (free_slots (lf_descs s d))" using H(1) i by (auto simp: desc_ok_def)
  have fs: "free_slots (lf_descs ?s e) = free_slots (lf_descs s e)" for e
    using free_slots_link [OF ni] by simp
  have own: "own_ok s thr" using inv by (simp add: lf_inv_def)
  have "d \<notin> set (avail_deferred s)" using own_okD(3) [OF own, of d] H(3) by (auto simp: idle_places_def)
  then have "own_ok ?s thr" by (intro own_content [OF own]) simp_all
  moreover have "node_ok ?s" using inv by (auto simp: lf_inv_def node_ok_def)
  moreover have "held ?s thr e = held s thr e" for e by (simp add: held_def)
  moreover have "pc_ok n ?s pc" if "pc_ok n s pc" "\<And>old new. pc \<noteq> Free_cas d i old new" for pc
  proof -
    define s' where "s' = ?s"
    have l: "d_links (lf_descs s' e) j = (if e = d \<and> j = i then v else d_links (lf_descs s e) j)"
      "d_anchor (lf_descs s' e) = d_anchor (lf_descs s e)" "free_slots (lf_descs s' e) = free_slots (lf_descs s e)" for e j
      using fs [of e] by (simp_all add: s'_def)
    have "pc_ok n s' pc" using that
    proof (induction pc)
      case (Alloc_cas e old new)
      then have "e = d \<Longrightarrow> an_avail old \<noteq> i" using ni by auto
      with Alloc_cas show ?case by (auto simp: l)
    qed (auto simp: l)
    then show ?thesis by (simp add: s'_def)
  qed
  moreover have "if d_mapped (lf_descs ?s e) then desc_ok n (busy thr client e) (lf_descs ?s e) else busy thr client e = {}" for e
    using slots_okD(1,2) [of n s thr client e] inv desc_ok_link [OF H(1) i] H(2)
    by (cases "e = d") (simp_all add: lf_inv_def)
  ultimately have "own_ok ?s thr" "node_ok ?s" and h: "\<And>e. held ?s thr e = held s thr e" and "slots_ok n ?s thr client"
    using inv others unfolding lf_inv_def slots_ok_def by blast+
  moreover have "state_ok ?s thr"
    using inv unfolding lf_inv_def state_ok_def h by simp
  ultimately show ?thesis by (simp add: lf_inv_def)
qed

text \<open>A thread that owns a descriptor takes its first free slot.\<close>

lemma inv_alloc_cas:
  assumes inv: "lf_inv n s thr client" and n: "n < 32768" and t: "thr t = Alloc_cas d (d_anchor (lf_descs s d)) new"
    and pc: "pc = (if an_state new = STATE_PARTIAL then Give_back d (Returned d (an_avail (d_anchor (lf_descs s d))))
      else Returned d (an_avail (d_anchor (lf_descs s d))))"
  shows "lf_inv n (upd_desc d (\<lambda>x. x\<lparr>d_anchor := new\<rparr>) s) (thr(t := pc)) client" (is "lf_inv n ?s ?thr _")
proof -
  let ?a = "d_anchor (lf_descs s d)" and ?u = "busy thr client d"
  have own: "lf_owns (thr t) = Some d" "\<not> setting_up (thr t)" "lf_slot_of (thr t) = None" by (simp_all add: t)
  note D = owned_desc [OF inv own(1,2)]
  have s: "slots_ok n s thr client" "own_ok s thr" "node_ok s" "state_ok s thr" using inv by (simp_all add: lf_inv_def)
  have p: "an_state ?a = STATE_PARTIAL" "0 < an_count ?a" "new = alloc_anchor (unat (d_links (lf_descs s d) (an_avail ?a))) ?a"
    using slots_okD(4) [OF s(1), of t] by (simp_all add: t)
  note A = desc_ok_alloc [OF D(1) n refl p(2,1,3)]
  have pc_slot: "lf_slot_of pc = Some (d, an_avail ?a)" and pc_ok: "pc_ok n ?s pc" and pc_up: "\<not> setting_up pc"
    by (simp_all add: pc)
  have others: "lf_owns (thr t') \<noteq> Some d" if "t' \<noteq> t" for t' using own_okD(6) [OF s(2)] own(1) that by blast
  have "slots_ok n ?s ?thr client"
  proof (rule slots_okI [OF _ _ s(1)])
    show "busy ?thr client e = busy thr client e" if "e \<noteq> d" for e using that busy_gain [where thr = thr and t = t and pc = pc, OF own(3) pc_slot] by simp
    show "if d_mapped (lf_descs ?s d) then desc_ok n (busy ?thr client d) (lf_descs ?s d) else busy ?thr client d = {}"
      using D(3) A(2) busy_gain [where thr = thr and t = t and pc = pc, OF own(3) pc_slot] by simp
    show "slots_apart ?thr client" using slots_apart_gain [where thr = thr and t = t and pc = pc, OF slots_okD(3) [OF s(1)] pc_slot] A(3) by simp
    show "pc_ok n ?s (?thr t')" for t'
      using pc_ok pc_ok_other [OF others, of t' ?s s n] slots_okD(4) [OF s(1), of t'] by (cases "t' = t") simp_all
  qed simp
  moreover have "own_ok ?s ?thr"
  proof -
    have "d \<notin> set (avail_deferred s)" using own_okD(5) [OF s(2) own(1)] by (auto simp: idle_places_def)
    then have o: "own_ok ?s thr" by (intro own_content [OF s(2)]) simp_all
    show ?thesis
    proof (rule own_okI)
      show "e \<notin> set (live_places ?s) \<and> e \<notin> set (idle_places ?s) \<and> e < num_descs ?s \<and> d_in_use (lf_descs ?s e) \<and>
          d_mapped (lf_descs ?s e) = (\<not> setting_up (?thr t'))" if "lf_owns (?thr t') = Some e" for t' e
        using own_okD(5) [OF o, of t' e] own_okD(5) [OF o own(1)] own(2) that pc_up by (cases "t' = t") (auto simp: pc split: if_splits)
      show "t1 = t2" if "lf_owns (?thr t1) = Some e" "lf_owns (?thr t2) = Some e" for t1 t2 e
        using own_okD(6) [OF o, of t1 e t2] that others by (auto simp: pc split: if_splits)
    qed (use own_okD(1-4) [OF o] in simp_all)
  qed
  moreover have "node_ok ?s" using s(3) by (auto simp: node_ok_def)
  moreover have "state_ok ?s ?thr"
    unfolding state_ok_def
  proof (intro allI impI)
    fix e assume m: "d_mapped (lf_descs ?s e)"
    have he: "held ?s ?thr e = held s thr e" if "e \<noteq> d"
      using that unfolding held_def owns_upd(1) owns_upd(2) [of thr e t] own(1) by (simp add: pc)
    have hd: "held ?s ?thr d = (an_state new = STATE_PARTIAL)"
      using others own_okD(5) [OF s(2) own(1)] unfolding held_def owns_upd(1) by (auto simp: pc)
    show "(an_state (d_anchor (lf_descs ?s e)) = STATE_FULL \<longrightarrow> \<not> held ?s ?thr e) \<and>
        (an_state (d_anchor (lf_descs ?s e)) = STATE_PARTIAL \<longrightarrow> held ?s ?thr e)"
      using s(4) m he hd A(4) unfolding state_ok_def by (cases "e = d") auto
  qed
  ultimately show ?thesis by (simp add: lf_inv_def)
qed

text \<open>A thread puts its slot back on the free list.\<close>

lemma inv_free_cas:
  assumes inv: "lf_inv n s thr client" and n: "n < 32768" "2 \<le> n" and t: "thr t = Free_cas d i (d_anchor (lf_descs s d)) new"
    and pc: "pc = (if an_state new = STATE_EMPTY then Free_active d
      else if an_state (d_anchor (lf_descs s d)) = STATE_FULL then Give_back d Idle else Idle)"
  shows "lf_inv n (upd_desc d (\<lambda>x. x\<lparr>d_anchor := new\<rparr>) s) (thr(t := pc)) client" (is "lf_inv n ?s ?thr _")
    and "an_state (d_anchor (lf_descs s d)) \<noteq> STATE_EMPTY" "an_state new = STATE_EMPTY \<or> an_state new = STATE_PARTIAL"
proof -
  let ?a = "d_anchor (lf_descs s d)" and ?u = "busy thr client d"
  have slot: "lf_slot_of (thr t) = Some (d, i)" "lf_owns (thr t) = None" by (simp_all add: t)
  then have i: "i \<in> ?u" by (auto simp: busy_def)
  note D = held_desc [OF inv i]
  have s: "slots_ok n s thr client" "own_ok s thr" "node_ok s" "state_ok s thr" using inv by (simp_all add: lf_inv_def)
  have p: "d_links (lf_descs s d) i = of_nat (an_avail ?a)" "new = free_anchor n i ?a"
    using slots_okD(4) [OF s(1), of t] by (simp_all add: t)
  note A = desc_ok_free [OF D(1) n i p]
  show "an_state ?a \<noteq> STATE_EMPTY" "an_state new = STATE_EMPTY \<or> an_state new = STATE_PARTIAL" using A(3,4) by auto
  have pc_slot: "lf_slot_of pc = None" and pc_ok: "pc_ok n ?s pc" and pc_up: "\<not> setting_up pc"
    by (simp_all add: pc)
  have fs: "free_slots (lf_descs ?s e) = (if e = d then i # free_slots (lf_descs s d) else free_slots (lf_descs s e))" for e
    using A(1) by simp
  have "n = an_count new" if "an_state new = STATE_EMPTY" using A(2) that by (auto simp: desc_ok_def)
  have other_ok: "pc_ok n ?s (thr t')" if "t' \<noteq> t" for t'
  proof -
    have ok: "pc_ok n s (thr t')" using slots_okD(4) [OF s(1)] .
    have no: "(d, 0) = (d, i)" if "thr t' = New_cas d \<or> thr t' = New_fail d"
    proof -
      have "set (free_slots (lf_descs s d)) = {1..<n}" using ok that by auto
      moreover have "i \<in> {..<n}" "i \<notin> set (free_slots (lf_descs s d))" using D(1) i by (auto simp: desc_ok_def)
      ultimately show ?thesis by auto
    qed
    then have "thr t' \<noteq> New_cas d" "thr t' \<noteq> New_fail d"
      using slots_okD(3) [OF s(1)] slot(1) \<open>t' \<noteq> t\<close> unfolding slots_apart_def by (metis lf_slot_of.simps(5,6))+
    then show ?thesis using ok A(3) by (cases "thr t'") (auto simp: fs A(1))
  qed
  have "slots_ok n ?s ?thr client"
  proof (rule slots_okI [OF _ _ s(1)])
    note b = busy_drop [where thr = thr and t = t and pc = pc, OF slots_okD(3) [OF s(1)] slot(1) pc_slot]
    show "busy ?thr client e = busy thr client e" if "e \<noteq> d" for e using that b by simp
    show "if d_mapped (lf_descs ?s d) then desc_ok n (busy ?thr client d) (lf_descs ?s d) else busy ?thr client d = {}"
      using D(2) A(2) b by simp
    show "slots_apart ?thr client" using slots_apart_drop [where thr = thr and t = t and pc = pc, OF slots_okD(3) [OF s(1)] pc_slot] .
    show "pc_ok n ?s (?thr t')" for t' using pc_ok other_ok by simp
  qed simp
  moreover have nown: "an_state ?a = STATE_FULL \<Longrightarrow> \<not> held s thr d" using s(4) D(2) by (simp add: state_ok_def)
  have own: "own_ok ?s ?thr"
  proof -
    have na: "d \<notin> set (avail_deferred s)" "d \<notin> set (idle_places s)"
      using own_okD(3) [OF s(2), of d] D(3) by (auto simp: idle_places_def)
    then have o: "own_ok ?s thr" by (intro own_content [OF s(2)]) simp_all
    show ?thesis
    proof (rule own_okI)
      show "e \<notin> set (live_places ?s) \<and> e \<notin> set (idle_places ?s) \<and> e < num_descs ?s \<and> d_in_use (lf_descs ?s e) \<and>
          d_mapped (lf_descs ?s e) = (\<not> setting_up (?thr t'))" if "lf_owns (?thr t') = Some e" for t' e
        using own_okD(5) [OF o, of t' e] that pc_up nown na D by (cases "t' = t") (auto simp: pc held_def split: if_splits)
      show "t1 = t2" if "lf_owns (?thr t1) = Some e" "lf_owns (?thr t2) = Some e" for t1 t2 e
        using own_okD(6) [OF o, of t1 e t2] that nown by (auto simp: pc held_def split: if_splits)
    qed (use own_okD(1-4) [OF o] in simp_all)
  qed
  moreover have "node_ok ?s" using s(3) by (auto simp: node_ok_def)
  moreover have "state_ok ?s ?thr"
    unfolding state_ok_def
  proof (intro allI impI)
    fix e assume m: "d_mapped (lf_descs ?s e)"
    have h: "held ?s ?thr x = (held s thr x \<or> lf_owns pc = Some x)" for x
      unfolding held_def owns_upd(1) owns_upd(2) [of thr x t] slot(2) by auto
    have "an_state new = STATE_PARTIAL \<Longrightarrow> held ?s ?thr d"
      using s(4) D(2) A(3) h [of d] unfolding h state_ok_def by (cases "an_state ?a") (auto simp: pc)
    moreover have "lf_owns pc = Some e \<Longrightarrow> e = d" by (auto simp: pc split: if_splits)
    ultimately show "(an_state (d_anchor (lf_descs ?s e)) = STATE_FULL \<longrightarrow> \<not> held ?s ?thr e) \<and>
        (an_state (d_anchor (lf_descs ?s e)) = STATE_PARTIAL \<longrightarrow> held ?s ?thr e)"
      using s(4) m A(4) h unfolding state_ok_def by (cases "e = d") auto
  qed
  ultimately show "lf_inv n ?s ?thr client" by (simp add: lf_inv_def)
qed

text \<open>Descriptors come and go.\<close>

lemma pc_ok_apart:
  assumes "lf_owns pc \<noteq> Some d" "\<And>i. lf_slot_of pc \<noteq> Some (d, i)" "\<And>e. e \<noteq> d \<Longrightarrow> lf_descs s' e = lf_descs s e"
  shows "pc_ok n s' pc = pc_ok n s pc"
proof (cases pc)
  case (Free_cas e i old new)
  then have "e \<noteq> d" using assms(2) [of i] by auto
  then show ?thesis using assms(3) Free_cas by simp
qed (use assms(1,3) in auto)

lemma live_places_cong:
  "\<lbrakk>heap_active s' = heap_active s; sc_partial s' = sc_partial s; put_deferred s' = put_deferred s\<rbrakk> \<Longrightarrow>
    live_places s' = live_places s"
  by (simp add: live_places_def)

lemma inv_batch:
  assumes inv: "lf_inv n s thr client" and empty: "desc_avail s = []"
  shows "lf_inv n (desc_batch s) thr client" (is "lf_inv n ?s _ _")
proof -
  have s: "slots_ok n s thr client" "own_ok s thr" "node_ok s" "state_ok s thr" using inv by (simp_all add: lf_inv_def)
  note O = own_okD [OF s(2)]
  have f: "heap_active ?s = heap_active s" "sc_partial ?s = sc_partial s" "put_deferred ?s = put_deferred s"
    "avail_deferred ?s = avail_deferred s" "desc_avail ?s = [num_descs s..<num_descs s + NUM_DESC_BATCH]"
    "num_descs ?s = num_descs s + NUM_DESC_BATCH" by (simp_all add: desc_batch_def)
  note live = live_places_cong [OF f(1-3)]
  have idle: "idle_places ?s = [num_descs s..<num_descs s + NUM_DESC_BATCH] @ avail_deferred s"
    "idle_places s = avail_deferred s" by (simp_all add: idle_places_def f empty)
  have old: "lf_descs ?s e = lf_descs s e" if "e < num_descs s" for e using that by (simp add: desc_batch_def)
  have fresh: "lf_descs ?s e = fresh_descriptor" if "num_descs s \<le> e" "e < num_descs s + NUM_DESC_BATCH" for e
    using that by (simp add: desc_batch_def)
  have same: "lf_descs ?s e = lf_descs s e \<or> lf_descs ?s e = fresh_descriptor \<and> num_descs s \<le> e" for e
    by (simp add: desc_batch_def)
  have unmapped: "d_mapped (lf_descs s e) \<Longrightarrow> e < num_descs s" for e using s(3) by (simp add: node_ok_def)
  have m: "d_mapped (lf_descs ?s e) = d_mapped (lf_descs s e)" for e
    using same [of e] unmapped [of e] by (auto simp: fresh_descriptor_def)
  have "own_ok ?s thr"
  proof (rule own_okI, unfold live idle f m)
    have "e < num_descs s" if "e \<in> set (live_places s) \<or> e \<in> set (avail_deferred s)" for e
      using that O(2) [of e] O(3) [of e] idle(2) by auto
    then show "distinct (live_places s @ [num_descs s..<num_descs s + NUM_DESC_BATCH] @ avail_deferred s)"
      using O(1) unfolding idle by fastforce
    show "e < num_descs s + NUM_DESC_BATCH \<and> d_mapped (lf_descs s e)" if "e \<in> set (live_places s)" for e
      using O(2) [OF that] by simp
    show "e < num_descs s + NUM_DESC_BATCH \<and> \<not> d_in_use (lf_descs ?s e)"
      if "e \<in> set ([num_descs s..<num_descs s + NUM_DESC_BATCH] @ avail_deferred s)" for e
      using that O(3) [of e] fresh [of e] old [of e] unfolding idle by (auto simp: fresh_descriptor_def)
    show "an_state (d_anchor (lf_descs ?s e)) = STATE_EMPTY" if "e \<in> set (avail_deferred s)" for e
      using O(4) [OF that] O(3) [of e] that old [of e] unfolding idle by simp
    show "e \<notin> set (live_places s) \<and> e \<notin> set ([num_descs s..<num_descs s + NUM_DESC_BATCH] @ avail_deferred s) \<and>
        e < num_descs s + NUM_DESC_BATCH \<and> d_in_use (lf_descs ?s e) \<and> d_mapped (lf_descs s e) = (\<not> setting_up (thr t))"
      if "lf_owns (thr t) = Some e" for t e
      using O(5) [OF that] old [of e] unfolding idle by simp
  qed (use O(6) in blast)
  moreover have "node_ok ?s"
    using s(3) same fresh old unfolding node_ok_def f by (smt (verit) fresh_descriptor_def Descriptor.simps m O(2) Un_iff live_places_def not_less set_append trans_less_add1)
  moreover have "state_ok ?s thr"
    using s(4) unmapped old unfolding state_ok_def m held_def live by simp
  moreover have "slots_ok n ?s thr client"
  proof -
    have "desc_ok n u (lf_descs ?s e) = desc_ok n u (lf_descs s e)" if "d_mapped (lf_descs s e)" for u e
      using old [OF unmapped [OF that]] by simp
    moreover have "pc_ok n ?s (thr t)" for t
    proof -
      have "lf_owns (thr t) = Some e \<or> lf_slot_of (thr t) = Some (e, i) \<Longrightarrow> e < num_descs s" for e i
        using O(5) [of t e] held_desc(4) [OF inv, of i e] by (auto simp: busy_def)
      then show ?thesis using slots_okD(4) [OF s(1), of t] old by (cases "thr t") auto
    qed
    ultimately show ?thesis using s(1) unfolding slots_ok_def m by simp
  qed
  ultimately show ?thesis by (simp add: lf_inv_def)
qed

lemma inv_desc_pop:
  assumes inv: "lf_inv n s thr client" and t: "thr t = New_desc" and av: "desc_avail s = d # ds"
  shows "\<not> d_in_use (lf_descs s d)"
    "lf_inv n (upd_desc d (\<lambda>d. d\<lparr>d_in_use := True\<rparr>) (s\<lparr>desc_avail := ds\<rparr>)) (thr(t := New_init d)) client"
    (is "lf_inv n ?s ?thr _")
proof -
  have s: "slots_ok n s thr client" "own_ok s thr" "node_ok s" "state_ok s thr" using inv by (simp_all add: lf_inv_def)
  note O = own_okD [OF s(2)]
  have idle: "idle_places s = d # ds @ avail_deferred s" "idle_places ?s = ds @ avail_deferred s"
    by (simp_all add: idle_places_def av)
  have live: "live_places ?s = live_places s" by (simp add: live_places_def)
  show iu: "\<not> d_in_use (lf_descs s d)" using O(3) [of d] idle by simp
  have d: "d < num_descs s" "d \<notin> set (live_places s)" "d \<notin> set ds" "d \<notin> set (avail_deferred s)"
    "\<not> d_mapped (lf_descs s d)" "\<And>t'. lf_owns (thr t') \<noteq> Some d"
    using O(1) O(3) [of d] O(5) [of _ d] iu s(3) unfolding idle by (auto simp: node_ok_def)
  have own: "lf_owns (thr t) = None" "lf_slot_of (thr t) = None" by (simp_all add: t)
  have noslot: "lf_slot_of (thr t') \<noteq> Some (d, i)" for t' i
    using slots_okD(2) [OF s(1) d(5)] by (auto simp: busy_def)
  have b: "busy ?thr client e = busy thr client e" for e using own(2) by (intro busy_upd) simp
  have "own_ok ?s ?thr"
  proof (rule own_okI, unfold live idle)
    show "distinct (live_places s @ ds @ avail_deferred s)" using O(1) unfolding idle by simp
    show "e < num_descs ?s \<and> d_mapped (lf_descs ?s e)" if "e \<in> set (live_places s)" for e using O(2) [OF that] d by auto
    show "e < num_descs ?s \<and> \<not> d_in_use (lf_descs ?s e)" if "e \<in> set (ds @ avail_deferred s)" for e
      using O(3) [of e] that d unfolding idle by auto
    show "an_state (d_anchor (lf_descs ?s e)) = STATE_EMPTY" if "e \<in> set (avail_deferred ?s)" for e
      using O(4) [of e] that d by auto
    show "e \<notin> set (live_places s) \<and> e \<notin> set (ds @ avail_deferred s) \<and> e < num_descs ?s \<and> d_in_use (lf_descs ?s e) \<and>
        d_mapped (lf_descs ?s e) = (\<not> setting_up (?thr t'))" if "lf_owns (?thr t') = Some e" for t' e
      using O(5) [of t' e] that d unfolding idle by (cases "t' = t") auto
    show "t1 = t2" if "lf_owns (?thr t1) = Some e" "lf_owns (?thr t2) = Some e" for t1 t2 e
      using O(6) [of t1 e t2] that d(6) by (auto split: if_splits)
  qed
  moreover have "node_ok ?s" using s(3) d by (auto simp: node_ok_def)
  moreover have "state_ok ?s ?thr"
  proof -
    have "held ?s ?thr e = held s thr e" if "e \<noteq> d" for e
      using that unfolding held_def live owns_upd(1) owns_upd(2) [of thr e t] own(1) by simp
    then show ?thesis using s(4) d(5) unfolding state_ok_def by auto
  qed
  moreover have "slots_ok n ?s ?thr client"
  proof (rule slots_okI [OF _ _ s(1)])
    show "if d_mapped (lf_descs ?s d) then desc_ok n (busy ?thr client d) (lf_descs ?s d) else busy ?thr client d = {}"
      using d(5) slots_okD(2) [OF s(1) d(5)] unfolding b by simp
    show "slots_apart ?thr client" using slots_apart_drop [OF slots_okD(3) [OF s(1)]] by simp
    show "pc_ok n ?s (?thr t')" for t'
      using pc_ok_apart [of "thr t'" d ?s s n, OF d(6) noslot] slots_okD(4) [OF s(1), of t'] by (cases "t' = t") simp_all
  qed (use b in simp_all)
  ultimately show "lf_inv n ?s ?thr client" by (simp add: lf_inv_def)
qed

lemma inv_desc_alloc:
  assumes inv: "lf_inv n s thr client" and t: "thr t = New_desc"
  shows "\<exists>d s'. desc_alloc s = Some (d, s') \<and> lf_inv n s' (thr(t := New_init d)) client"
proof -
  let ?s = "if desc_avail s = [] then desc_batch s else s"
  have inv': "lf_inv n ?s thr client" using inv inv_batch by simp
  have "desc_avail ?s \<noteq> []" by (simp add: desc_batch_def NUM_DESC_BATCH_def)
  then obtain d ds where av: "desc_avail ?s = d # ds" by (cases "desc_avail ?s") auto
  from inv_desc_pop [OF inv' t av] av show ?thesis by (simp add: desc_alloc_def Let_def)
qed

lemma inv_new_init:
  assumes inv: "lf_inv n s thr client" and n: "n < 32768" "2 \<le> n" and t: "thr t = New_init d"
  shows "lf_inv n (upd_desc d (\<lambda>D. D\<lparr>d_max_count := n,
         d_anchor := \<lparr>an_avail = 1, an_count = bf15 (n - 1), an_state = STATE_PARTIAL\<rparr>,
         d_mapped := True, d_links := new_links n (d_links D)\<rparr>) s) (thr(t := New_cas d)) client"
    (is "lf_inv n ?s ?thr _")
proof -
  have own: "lf_owns (thr t) = Some d" "setting_up (thr t)" "lf_slot_of (thr t) = None" by (simp_all add: t)
  have s: "slots_ok n s thr client" "own_ok s thr" "node_ok s" "state_ok s thr" using inv by (simp_all add: lf_inv_def)
  note O = own_okD [OF s(2)]
  have d: "\<not> d_mapped (lf_descs s d)" "d_in_use (lf_descs s d)" "d < num_descs s"
    "d \<notin> set (live_places s)" "d \<notin> set (idle_places s)" using O(5) [OF own(1)] own(2) by auto
  have u: "busy thr client d = {}" using slots_okD(2) [OF s(1)] d(1) .
  have others: "lf_owns (thr t') \<noteq> Some d" if "t' \<noteq> t" for t' using O(6) own(1) that by blast
  note N = desc_ok_new [OF n(2,1), of "lf_descs s d"]
  note b = busy_gain [where thr = thr and t = t and pc = "New_cas d", OF own(3) lf_slot_of.simps(5)]
  have noslot: "lf_slot_of (thr t') \<noteq> Some (d, i)" for t' i using u by (auto simp: busy_def)
  have "slots_ok n ?s ?thr client"
  proof (rule slots_okI [OF _ _ s(1)])
    show "busy ?thr client e = busy thr client e" if "e \<noteq> d" for e using that b by simp
    show "if d_mapped (lf_descs ?s d) then desc_ok n (busy ?thr client d) (lf_descs ?s d) else busy ?thr client d = {}"
      using N(1) b u by simp
    show "slots_apart ?thr client"
      using slots_apart_gain [where thr = thr and t = t and pc = "New_cas d", OF slots_okD(3) [OF s(1)] lf_slot_of.simps(5)] u by simp
    show "pc_ok n ?s (?thr t')" for t'
    proof (cases "t' = t")
      case True
      then show ?thesis using N(2) by simp
    next
      case False
      then show ?thesis
        using slots_okD(4) [OF s(1), of t'] pc_ok_apart [of "thr t'" d ?s s n, OF others [OF False] noslot] by simp
    qed
  qed simp
  moreover have "own_ok ?s ?thr"
  proof (rule own_okI)
    show "e < num_descs ?s \<and> d_mapped (lf_descs ?s e)" if "e \<in> set (live_places ?s)" for e
      using O(2) [of e] that d(3,4) by simp
    show "e < num_descs ?s \<and> \<not> d_in_use (lf_descs ?s e)" if "e \<in> set (idle_places ?s)" for e
    proof -
      have "e \<noteq> d" using that d(5) by auto
      then show ?thesis using O(3) [of e] that by simp
    qed
    show "an_state (d_anchor (lf_descs ?s e)) = STATE_EMPTY" if "e \<in> set (avail_deferred ?s)" for e
    proof -
      have "e \<noteq> d" using that d(5) by (auto simp: idle_places_def)
      then show ?thesis using O(4) [of e] that by simp
    qed
    show "e \<notin> set (live_places ?s) \<and> e \<notin> set (idle_places ?s) \<and> e < num_descs ?s \<and> d_in_use (lf_descs ?s e) \<and>
        d_mapped (lf_descs ?s e) = (\<not> setting_up (?thr t'))" if "lf_owns (?thr t') = Some e" for t' e
    proof (cases "t' = t")
      case True
      then show ?thesis using that d by simp
    next
      case False
      then have "e \<noteq> d" using others [of t'] that by auto
      then show ?thesis using O(5) [of t' e] that False by simp
    qed
    have "lf_owns (?thr t') = lf_owns (thr t')" for t' using own(1) by simp
    then show "t1 = t2" if "lf_owns (?thr t1) = Some e" "lf_owns (?thr t2) = Some e" for t1 t2 e
      using O(6) [of t1 e t2] that by simp
  qed (use O(1) in simp)
  moreover have "node_ok ?s" using s(3) d by (auto simp: node_ok_def)
  moreover have "state_ok ?s ?thr"
    unfolding state_ok_def
  proof (intro allI impI)
    fix e assume m: "d_mapped (lf_descs ?s e)"
    have he: "held ?s ?thr e = held s thr e" if "e \<noteq> d"
      using that unfolding held_def owns_upd(1) owns_upd(2) [of thr e t] own(1) by simp
    have hd: "held ?s ?thr d" unfolding held_def owns_upd(1) by simp
    show "(an_state (d_anchor (lf_descs ?s e)) = STATE_FULL \<longrightarrow> \<not> held ?s ?thr e) \<and>
        (an_state (d_anchor (lf_descs ?s e)) = STATE_PARTIAL \<longrightarrow> held ?s ?thr e)"
      using s(4) m he hd unfolding state_ok_def by (cases "e = d") auto
  qed
  ultimately show ?thesis by (simp add: lf_inv_def)
qed

lemma inv_retire:
  assumes inv: "lf_inv n s thr client" and own: "lf_owns (thr t) = Some d" "\<not> setting_up (thr t)"
    and pc: "lf_cont pc" "lf_slot_of pc = None"
    and desc: "lf_descs s' = (lf_descs s)(d := D)" "\<not> d_mapped D" "\<not> d_in_use D" "an_state (d_anchor D) = STATE_EMPTY"
      "d_poisoned D = d_poisoned (lf_descs s d)"
    and live: "live_places s' = live_places s" "sc_partial s' = sc_partial s" "num_descs s' = num_descs s"
    and idle: "idle_places s = xs @ ys" "idle_places s' = xs @ d # ys"
      "set (avail_deferred s') \<subseteq> insert d (set (avail_deferred s))"
    and slot: "busy thr client d = {i. lf_slot_of (thr t) = Some (d, i)}" "\<And>e i. lf_slot_of (thr t) = Some (e, i) \<Longrightarrow> e = d"
  shows "lf_inv n s' (thr(t := pc)) client" (is "lf_inv n s' ?thr _")
proof -
  have s: "slots_ok n s thr client" "own_ok s thr" "node_ok s" "state_ok s thr" using inv by (simp_all add: lf_inv_def)
  note O = own_okD [OF s(2)]
  have d: "d \<notin> set (live_places s)" "d \<notin> set (idle_places s)" "d < num_descs s" using O(5) [OF own(1)] by auto
  have np: "lf_owns pc = None" "pc_ok n s' pc" using lf_contD [OF pc(1)] by auto
  have others: "lf_owns (thr t') \<noteq> Some d" if "t' \<noteq> t" for t' using O(6) own(1) that by blast
  have apart: "slots_apart thr client" using slots_okD(3) [OF s(1)] .
  have b: "busy ?thr client e = (if e = d then {} else busy thr client e)" for e
  proof (cases "lf_slot_of (thr t)")
    case None
    then have "busy ?thr client e = busy thr client e" using pc(2) by (intro busy_upd) simp
    then show ?thesis using slot(1) None by auto
  next
    case (Some p)
    then obtain i where p: "lf_slot_of (thr t) = Some (d, i)" using slot(2) by (cases p) auto
    show ?thesis using busy_drop [where thr = thr and t = t and pc = pc, OF apart p pc(2), of e] slot(1) p by auto
  qed
  have noslot: "lf_slot_of (thr t') \<noteq> Some (d, i)" if "t' \<noteq> t" for t' i
  proof
    assume a: "lf_slot_of (thr t') = Some (d, i)"
    then have "i \<in> busy thr client d" by (auto simp: busy_def)
    then have "lf_slot_of (thr t) = Some (d, i)" using slot(1) by simp
    then show False using apart a that unfolding slots_apart_def by blast
  qed
  have other_ok: "pc_ok n s' (thr t')" if "t' \<noteq> t" for t'
    using pc_ok_apart [of "thr t'" d s' s n, OF others [OF that] noslot [OF that]] slots_okD(4) [OF s(1), of t'] desc(1) by simp
  have "slots_ok n s' ?thr client"
  proof (rule slots_okI [OF _ _ s(1)])
    show "busy ?thr client e = busy thr client e" if "e \<noteq> d" for e using that b by simp
    show "if d_mapped (lf_descs s' d) then desc_ok n (busy ?thr client d) (lf_descs s' d) else busy ?thr client d = {}"
      using b desc(1,2) by simp
    show "slots_apart ?thr client" using slots_apart_drop [OF apart pc(2)] .
    show "pc_ok n s' (?thr t')" for t' using np(2) other_ok by simp
  qed (simp add: desc(1))
  moreover have "own_ok s' ?thr"
  proof (rule own_okI, unfold live)
    show "distinct (live_places s @ idle_places s')" using O(1) d unfolding idle by auto
    show "e < num_descs s \<and> d_mapped (lf_descs s' e)" if "e \<in> set (live_places s)" for e
      using O(2) [OF that] that d(1) desc(1) by auto
    show "e < num_descs s \<and> \<not> d_in_use (lf_descs s' e)" if "e \<in> set (idle_places s')" for e
      using O(3) [of e] that d(3) desc(1,3) unfolding idle by (cases "e = d") auto
    show "an_state (d_anchor (lf_descs s' e)) = STATE_EMPTY" if "e \<in> set (avail_deferred s')" for e
      using O(4) [of e] that idle(3) desc(1,4) by (cases "e = d") auto
    fix t' e assume o: "lf_owns (?thr t') = Some e"
    then have t': "t' \<noteq> t" "lf_owns (thr t') = Some e" using np(1) by (auto split: if_splits)
    then have "e \<noteq> d" using others by auto
    then show "e \<notin> set (live_places s) \<and> e \<notin> set (idle_places s') \<and> e < num_descs s \<and> d_in_use (lf_descs s' e) \<and>
        d_mapped (lf_descs s' e) = (\<not> setting_up (?thr t'))"
      using O(5) [OF t'(2)] t'(1) desc(1) unfolding idle by simp
    show "t' = t2" if "lf_owns (?thr t2) = Some e" for t2
      using O(6) [OF t'(2)] that np(1) by (auto split: if_splits)
  qed
  moreover have "node_ok s'" using s(3) desc by (auto simp: node_ok_def live)
  moreover have "state_ok s' ?thr"
  proof -
    have "held s' ?thr e = held s thr e" if "e \<noteq> d" for e
      using that np(1) own(1) unfolding held_def live owns_upd(1) owns_upd(2) [of thr e t] by simp
    then show ?thesis using s(4) desc(1,2) unfolding state_ok_def by auto
  qed
  ultimately show ?thesis by (simp add: lf_inv_def)
qed

text \<open>The callbacks put off change only the place of a descriptor.\<close>

lemma inv_rearrange:
  assumes inv: "lf_inv n s thr client" and same: "same_descs s s'"
    and perm: "set (live_places s') = set (live_places s)" "set (idle_places s') = set (idle_places s)"
      "distinct (live_places s' @ idle_places s')" "set (avail_deferred s') \<subseteq> set (avail_deferred s)"
    and node: "node_ok s'"
  shows "lf_inv n s' thr client"
proof -
  have s: "slots_ok n s thr client" "own_ok s thr" "state_ok s thr" using inv by (simp_all add: lf_inv_def)
  note f = same_descs_fields [OF same]
  have "own_ok s' thr"
    using own_okD [OF s(2)] perm by (intro own_okI) (auto simp: f simp del: distinct_append)
  moreover have "state_ok s' thr" using s(3) by (simp add: state_ok_def held_def f perm)
  moreover have "slots_ok n s' thr client" using s(1) by (simp add: slots_ok_def f desc_ok_same [OF same] pc_ok_same [OF same])
  ultimately show ?thesis using node by (simp add: lf_inv_def)
qed

text \<open>An empty descriptor is dropped.\<close>

lemma inv_leak:
  assumes inv: "lf_inv n s thr client" and t: "lf_owns (thr t) = Some d" "lf_slot_of (thr t) = None"
    and d: "an_state (d_anchor (lf_descs s d)) = STATE_EMPTY"
  shows "lf_inv n s (thr(t := Idle)) client"
proof -
  have s: "slots_ok n s thr client" "own_ok s thr" "node_ok s" "state_ok s thr" using inv by (simp_all add: lf_inv_def)
  have "own_ok s (thr(t := Idle))" using own_okD [OF s(2)] by (intro own_okI) (auto split: if_splits)
  moreover have "slots_ok n s (thr(t := Idle)) client" using slots_pc [OF s(1), of s Idle t] t(2) by simp
  moreover have "held s (thr(t := Idle)) e = held s thr e" if "e \<noteq> d" for e
    using that t(1) unfolding held_def owns_upd(1) owns_upd(2) [of thr e t] by simp
  then have "state_ok s (thr(t := Idle))" using s(4) d unfolding state_ok_def by (metis anchor_state.distinct(3,5))
  ultimately show ?thesis using s(3) by (simp add: lf_inv_def)
qed

text \<open>Slots go from a client to a thread and back.\<close>

lemma inv_call_free:
  assumes inv: "lf_inv n s thr client" and t: "thr t = Idle" and i: "i \<in> client d"
  shows "lf_inv n s (thr(t := Free_read d i)) (client(d := client d - {i}))" (is "lf_inv n s ?thr ?client")
proof -
  have s: "slots_ok n s thr client" "own_ok s thr" "node_ok s" "state_ok s thr" using inv by (simp_all add: lf_inv_def)
  have own: "lf_owns (Free_read d i) = lf_owns (thr t)" "setting_up (Free_read d i) = setting_up (thr t)" by (simp_all add: t)
  have b: "busy ?thr ?client e = busy thr client e" for e
    unfolding busy_upd_split(1) busy_upd_split(2) [of thr client _ t] using i by (auto simp: t)
  have "slots_apart ?thr ?client" using slots_okD(3) [OF s(1)] i by (auto simp: slots_apart_def t)
  then have "slots_ok n s ?thr ?client"
    using slots_okD(1,2,4) [OF s(1)] unfolding slots_ok_def b by simp
  then show ?thesis using own_stay [OF s(2) own] s(3,4) held_stay [where thr = thr and t = t, OF own(1)]
    by (simp add: lf_inv_def state_ok_def)
qed

lemma inv_return:
  assumes inv: "lf_inv n s thr client" and t: "thr t = Returned d i"
  shows "lf_inv n s (thr(t := Idle)) (client(d := insert i (client d)))" (is "lf_inv n s ?thr ?client")
proof -
  have s: "slots_ok n s thr client" "own_ok s thr" "node_ok s" "state_ok s thr" using inv by (simp_all add: lf_inv_def)
  have own: "lf_owns Idle = lf_owns (thr t)" "setting_up Idle = setting_up (thr t)" by (simp_all add: t)
  have b: "busy ?thr ?client e = busy thr client e" for e
    unfolding busy_upd_split(1) busy_upd_split(2) [of thr client _ t] by (auto simp: t)
  have "\<forall>t'. lf_slot_of (thr t') = Some (d, i) \<longrightarrow> t' = t"
    using slots_okD(3) [OF s(1)] t unfolding slots_apart_def by (metis lf_slot_of.simps(1))
  then have "slots_apart ?thr ?client" using slots_okD(3) [OF s(1)] by (auto simp: slots_apart_def)
  then have "slots_ok n s ?thr ?client"
    using slots_okD(1,2,4) [OF s(1)] unfolding slots_ok_def b by simp
  then show ?thesis using own_stay [OF s(2) own] s(3,4) held_stay [where thr = thr and t = t, OF own(1)]
    by (simp add: lf_inv_def state_ok_def)
qed

section \<open>Every step succeeds and keeps the invariant\<close>

lemma node_okD:
  assumes "node_ok s"
  shows "d_mapped (lf_descs s d) \<Longrightarrow> d_in_use (lf_descs s d) \<and> d < num_descs s"
    "d < num_descs s \<Longrightarrow> d_poisoned (lf_descs s d) = (d \<notin> set (sc_partial s))"
  using assms by (simp_all add: node_ok_def)

lemma take_active:
  assumes inv: "lf_inv n s thr client" and act: "heap_active s = Some d"
    and pc: "lf_owns (thr t) = None" "lf_owns pc = Some d" "\<not> setting_up pc" "lf_slot_of pc = lf_slot_of (thr t)" "pc_ok n s pc"
  shows "lf_inv n (s\<lparr>heap_active := None\<rparr>) (thr(t := pc)) client"
proof (rule inv_take [OF inv pc(1-3), where xs = "[]" and ys = "sc_partial s @ put_deferred s"])
  show "node_ok (s\<lparr>heap_active := None\<rparr>)" using inv by (simp add: lf_inv_def node_ok_def)
qed (use act pc(4,5) in \<open>simp_all add: live_places_def idle_places_def same_descs_def\<close>)

lemma give_active:
  assumes inv: "lf_inv n s thr client" and act: "heap_active s = None"
    and pc: "lf_owns (thr t) = Some d" "\<not> setting_up (thr t)" "lf_owns pc = None" "lf_slot_of pc = lf_slot_of (thr t)" "pc_ok n s pc"
  shows "lf_inv n (s\<lparr>heap_active := Some d\<rparr>) (thr(t := pc)) client"
proof (rule inv_give [OF inv pc(1-3), where xs = "[]" and ys = "sc_partial s @ put_deferred s"])
  show "node_ok (s\<lparr>heap_active := Some d\<rparr>)" using inv by (simp add: lf_inv_def node_ok_def)
qed (use act pc(4,5) in \<open>simp_all add: live_places_def idle_places_def same_descs_def\<close>)

lemma dequeue_cases:
  assumes inv: "lf_inv n s thr client" and own: "lf_owns (thr t) = None" "lf_slot_of (thr t) = None"
  obtains "partial_dequeue nothing s = (None, s)"
  | d s' where "partial_dequeue nothing s = (Some d, s')"
      "\<And>pc. lf_owns pc = Some d \<Longrightarrow> \<not> setting_up pc \<Longrightarrow> lf_slot_of pc = None \<Longrightarrow> pc_ok n s pc \<Longrightarrow> lf_inv n s' (thr(t := pc)) client"
proof (cases "sc_partial s")
  case Nil
  then show ?thesis using that(1) by (simp add: partial_dequeue_def)
next
  case (Cons d ds)
  show ?thesis
  proof (cases nothing)
    case True
    then show ?thesis using that(1) Cons by (simp add: partial_dequeue_def)
  next
    case False
    let ?s = "upd_desc d (\<lambda>d. d\<lparr>d_poisoned := True\<rparr>) (s\<lparr>sc_partial := ds\<rparr>)"
    have s: "own_ok s thr" "node_ok s" using inv by (simp_all add: lf_inv_def)
    have "d \<notin> set ds" using own_okD(1) [OF s(1)] Cons by (auto simp: live_places_def)
    then have node: "node_ok ?s" using node_okD [OF s(2)] Cons unfolding node_ok_def by auto
    have same: "same_descs s ?s" by (simp add: same_descs_def)
    let ?xs = "case heap_active s of None \<Rightarrow> [] | Some d \<Rightarrow> [d]"
    have live: "live_places s = ?xs @ d # ds @ put_deferred s" "live_places ?s = ?xs @ ds @ put_deferred s"
      and idle: "idle_places ?s = idle_places s" "avail_deferred ?s = avail_deferred s"
      by (simp_all add: live_places_def Cons idle_places_def)
    have "partial_dequeue nothing s = (Some d, ?s)" using False Cons by (simp add: partial_dequeue_def)
    moreover have "lf_inv n ?s (thr(t := pc)) client"
      if "lf_owns pc = Some d" "\<not> setting_up pc" "lf_slot_of pc = None" "pc_ok n s pc" for pc
      using inv_take [OF inv own(1) that(1,2) same live idle node _ that(4)] that(3) own(2) by simp
    ultimately show ?thesis using that(2) by blast
  qed
qed

lemma put_partial_ok:
  assumes inv: "lf_inv n s thr client" and own: "lf_owns (thr t) = Some d" "\<not> setting_up (thr t)"
    and pc: "lf_cont pc" "lf_slot_of pc = lf_slot_of (thr t)"
  shows "\<exists>s'. desc_put_partial d s = Some s' \<and> lf_inv n s' (thr(t := pc)) client"
    "lf_inv n (s\<lparr>put_deferred := d # put_deferred s\<rparr>) (thr(t := pc)) client"
proof -
  have s: "own_ok s thr" "node_ok s" using inv by (simp_all add: lf_inv_def)
  have d: "d \<notin> set (live_places s)" "d < num_descs s" using own_okD(5) [OF s(1) own(1)] by auto
  then have np: "d \<notin> set (sc_partial s)" by (auto simp: live_places_def)
  have k: "lf_owns pc = None" "pc_ok n s pc" using lf_contD [OF pc(1)] by auto
  let ?s = "upd_desc d (\<lambda>d. d\<lparr>d_poisoned := False\<rparr>) (s\<lparr>sc_partial := sc_partial s @ [d]\<rparr>)"
  let ?a = "case heap_active s of None \<Rightarrow> [] | Some d \<Rightarrow> [d]"
  have "desc_put_partial d s = Some ?s"
    using owned_desc(2) [OF inv own] node_okD(2) [OF s(2) d(2)] np by (simp add: desc_put_partial_def)
  moreover have "lf_inv n ?s (thr(t := pc)) client"
  proof (rule inv_give [OF inv own k(1), where xs = "?a @ sc_partial s" and ys = "put_deferred s"])
    show "node_ok ?s" using node_okD [OF s(2)] d(2) unfolding node_ok_def by auto
  qed (use pc(2) k(2) in \<open>simp_all add: live_places_def idle_places_def same_descs_def\<close>)
  ultimately show "\<exists>s'. desc_put_partial d s = Some s' \<and> lf_inv n s' (thr(t := pc)) client" by blast
  show "lf_inv n (s\<lparr>put_deferred := d # put_deferred s\<rparr>) (thr(t := pc)) client"
  proof (rule inv_give [OF inv own k(1), where xs = "?a @ sc_partial s" and ys = "put_deferred s"])
    show "node_ok (s\<lparr>put_deferred := d # put_deferred s\<rparr>)" using s(2) by (simp add: node_ok_def)
  qed (use pc(2) k(2) in \<open>simp_all add: live_places_def idle_places_def same_descs_def\<close>)
qed

lemma retire_ok:
  assumes inv: "lf_inv n s thr client" and own: "lf_owns (thr t) = Some d" "\<not> setting_up (thr t)"
    and pc: "lf_cont pc" "lf_slot_of pc = None"
    and slot: "busy thr client d = {i. lf_slot_of (thr t) = Some (d, i)}" "\<And>e i. lf_slot_of (thr t) = Some (e, i) \<Longrightarrow> e = d"
  shows "\<exists>s'. desc_retire put_off d (upd_desc d (\<lambda>d. d\<lparr>d_anchor := (d_anchor d)\<lparr>an_state := STATE_EMPTY\<rparr>\<rparr>) s) = Some s' \<and>
    lf_inv n s' (thr(t := pc)) client"
proof -
  note D = owned_desc [OF inv own]
  let ?D = "lf_descs s d\<lparr>d_anchor := (d_anchor (lf_descs s d))\<lparr>an_state := STATE_EMPTY\<rparr>, d_in_use := False, d_mapped := False\<rparr>"
  let ?s = "s\<lparr>lf_descs := (lf_descs s)(d := ?D)\<rparr>"
  let ?s1 = "?s\<lparr>avail_deferred := d # avail_deferred s\<rparr>" and ?s2 = "?s\<lparr>desc_avail := d # desc_avail s\<rparr>"
  have "desc_retire put_off d (upd_desc d (\<lambda>d. d\<lparr>d_anchor := (d_anchor d)\<lparr>an_state := STATE_EMPTY\<rparr>\<rparr>) s) =
      Some (if put_off then ?s1 else ?s2)"
    using D(3,4) by (simp add: desc_retire_def desc_enqueue_avail_def upd_desc_def Let_def)
  moreover have "lf_inv n ?s1 (thr(t := pc)) client"
    by (rule inv_retire [OF inv own pc _ _ _ _ _ _ _ _ _ _ _ slot, where D = ?D and xs = "desc_avail s" and ys = "avail_deferred s"])
      (auto simp: live_places_def idle_places_def)
  moreover have "lf_inv n ?s2 (thr(t := pc)) client"
    by (rule inv_retire [OF inv own pc _ _ _ _ _ _ _ _ _ _ _ slot, where D = ?D and xs = "[]" and ys = "idle_places s"])
      (auto simp: live_places_def idle_places_def)
  ultimately show ?thesis by simp
qed

lemma upd_desc_id: "f (lf_descs s d) = lf_descs s d \<Longrightarrow> upd_desc d f s = s"
  by (simp add: upd_desc_def)

definition step_ok :: "nat \<Rightarrow> lf_shared \<Rightarrow> (nat \<Rightarrow> lf_pc) \<Rightarrow> (nat \<Rightarrow> nat set) \<Rightarrow> nat \<Rightarrow> lf_result \<Rightarrow> bool" where
  "step_ok n s thr client t r \<longleftrightarrow> (\<exists>pc s'. r = Some (pc, s') \<and> lf_inv n s' (thr(t := pc)) client)"

lemma step_okI: "lf_inv n s' (thr(t := pc)) client \<Longrightarrow> step_ok n s thr client t (Some (pc, s'))"
  by (simp add: step_ok_def)

lemmas step_stay = step_okI [OF inv_stay]

lemma alloc_steps_ok:
  assumes inv: "lf_inv n s thr client" and n: "n = sc_slots sc" "n < 32768" "2 \<le> n"
  shows "thr t = Alloc_retry \<Longrightarrow> step_ok n s thr client t (alloc_retry s)"
    "thr t = Alloc_take d \<Longrightarrow> step_ok n s thr client t (alloc_take d s)"
    "thr t = Get_partial \<Longrightarrow> step_ok n s thr client t (list_get_partial ch s)"
    "thr t = Get_partial_check d \<Longrightarrow> step_ok n s thr client t (list_get_partial_check d s)"
    "thr t = Alloc_own d \<Longrightarrow> step_ok n s thr client t (alloc_own d s)"
    "thr t = Alloc_link d old \<Longrightarrow> step_ok n s thr client t (alloc_link sc d old s)"
    "thr t = Alloc_cas d old new \<Longrightarrow> step_ok n s thr client t (alloc_cas d old new s)"
proof -
  have s: "slots_ok n s thr client" "own_ok s thr" "node_ok s" "state_ok s thr" using inv by (simp_all add: lf_inv_def)
  note P = slots_okD(4) [OF s(1), of t]
  show "step_ok n s thr client t (alloc_retry s)" if t: "thr t = Alloc_retry"
    by (auto simp: alloc_retry_def t split: option.split intro!: step_stay [OF inv])
  show "step_ok n s thr client t (alloc_take d s)" if t: "thr t = Alloc_take d"
    by (auto simp: alloc_take_def t intro!: step_stay [OF inv] step_okI [OF take_active [OF inv]])
  show "step_ok n s thr client t (list_get_partial ch s)" if t: "thr t = Get_partial"
    by (rule dequeue_cases [OF inv, of t ch]) (auto simp: t list_get_partial_def intro!: step_okI intro: inv_stay [OF inv])
  show "step_ok n s thr client t (list_get_partial_check d s)" if t: "thr t = Get_partial_check d"
    by (auto simp: list_get_partial_check_def t intro!: step_stay [OF inv])
  show "step_ok n s thr client t (alloc_own d s)" if t: "thr t = Alloc_own d"
  proof -
    let ?a = "d_anchor (lf_descs s d)"
    have own: "lf_owns (thr t) = Some d" "\<not> setting_up (thr t)" by (simp_all add: t)
    note D = owned_desc [OF inv own]
    show ?thesis
    proof (cases "an_state ?a = STATE_EMPTY")
      case True
      then show ?thesis by (auto simp: alloc_own_def Let_def t intro!: step_stay [OF inv])
    next
      case False
      then have p: "an_state ?a = STATE_PARTIAL" using D(2) by (cases "an_state ?a") auto
      then have "0 < an_count ?a" "an_count ?a \<le> n" using D(1,2) by (auto simp: desc_ok_def)
      moreover then have "an_avail ?a \<in> set (free_slots (lf_descs s d))"
        by (cases "an_count ?a") (simp_all add: free_slots_def)
      ultimately show ?thesis using p by (auto simp: alloc_own_def Let_def t intro!: step_stay [OF inv])
    qed
  qed
  show "step_ok n s thr client t (alloc_link sc d old s)" if t: "thr t = Alloc_link d old"
  proof -
    have own: "lf_owns (thr t) = Some d" "\<not> setting_up (thr t)" by (simp_all add: t)
    note D = owned_desc [OF inv own]
    have "unat (d_links (lf_descs s d) (an_avail old)) < n" using P D(1) by (auto simp: t desc_ok_def)
    then have "alloc_link sc d old s =
        Some (Alloc_cas d old (alloc_anchor (unat (d_links (lf_descs s d) (an_avail old))) old), s)"
      using D(3) n(1) by (simp add: alloc_link_def Let_def)
    then show ?thesis using P by (auto simp: t intro!: step_stay [OF inv])
  qed
  show "step_ok n s thr client t (alloc_cas d old new s)" if t: "thr t = Alloc_cas d old new"
  proof (cases "d_anchor (lf_descs s d) = old")
    case True
    then show ?thesis using P inv_alloc_cas [OF inv n(2), of t d new] t
      by (auto simp: alloc_cas_def set_anchor_def t intro!: step_okI)
  next
    case False
    then show ?thesis using P by (auto simp: alloc_cas_def set_anchor_def t intro!: step_stay [OF inv])
  qed
qed

lemma new_steps_ok:
  assumes inv: "lf_inv n s thr client" and n: "n = sc_slots sc" "n < 32768" "2 \<le> n"
  shows "thr t = New_desc \<Longrightarrow> step_ok n s thr client t (alloc_new_desc s)"
    "thr t = New_init d \<Longrightarrow> step_ok n s thr client t (alloc_new_init sc d s)"
    "thr t = New_cas d \<Longrightarrow> step_ok n s thr client t (alloc_new_cas d s)"
    "thr t = New_fail d \<Longrightarrow> step_ok n s thr client t (alloc_new_fail ch d s)"
proof -
  have s: "slots_ok n s thr client" "own_ok s thr" using inv by (simp_all add: lf_inv_def)
  note P = slots_okD(4) [OF s(1), of t]
  show "step_ok n s thr client t (alloc_new_desc s)" if t: "thr t = New_desc"
    using inv_desc_alloc [OF inv t] by (auto simp: alloc_new_desc_def intro!: step_okI)
  show "step_ok n s thr client t (alloc_new_init sc d s)" if t: "thr t = New_init d"
    using inv_new_init [OF inv n(2,3) t] by (simp add: alloc_new_init_def Let_def n(1) [symmetric] step_okI)
  show "step_ok n s thr client t (alloc_new_cas d s)" if t: "thr t = New_cas d"
    using P by (auto simp: alloc_new_cas_def t intro!: step_stay [OF inv] step_okI [OF give_active [OF inv]])
  show "step_ok n s thr client t (alloc_new_fail ch d s)" if t: "thr t = New_fail d"
  proof -
    have own: "lf_owns (thr t) = Some d" "\<not> setting_up (thr t)" by (simp_all add: t)
    note D = owned_desc [OF inv own]
    have "busy thr client d = {..<n} - {1..<n}" using D(1) P by (auto simp: t desc_ok_def)
    also have "\<dots> = {0}" using n(3) by auto
    also have "\<dots> = {i. lf_slot_of (thr t) = Some (d, i)}" by (auto simp: t)
    finally have b: "busy thr client d = {i. lf_slot_of (thr t) = Some (d, i)}" .
    have "lf_slot_of (thr t) = Some (e, i) \<Longrightarrow> e = d" for e i by (simp add: t)
    then obtain s' where s': "desc_retire ch d (upd_desc d (\<lambda>d. d\<lparr>d_anchor := (d_anchor d)\<lparr>an_state := STATE_EMPTY\<rparr>\<rparr>) s) = Some s'"
      "lf_inv n s' (thr(t := Alloc_retry)) client"
      using retire_ok [OF inv own _ _ b, of Alloc_retry ch] by auto
    then show ?thesis by (simp add: alloc_new_fail_def step_okI)
  qed
qed

lemma free_steps_ok:
  assumes inv: "lf_inv n s thr client" and n: "n = sc_slots sc" "n < 32768" "2 \<le> n"
  shows "thr t = Free_read d i \<Longrightarrow> step_ok n s thr client t (free_read d i s)"
    "thr t = Free_link d i old \<Longrightarrow> step_ok n s thr client t (free_link sc d i old s)"
    "thr t = Free_cas d i old new \<Longrightarrow> step_ok n s thr client t (free_cas d i old new s)"
    "thr t = Free_active d \<Longrightarrow> step_ok n s thr client t (free_active d s)"
    "thr t = Free_check d \<Longrightarrow> step_ok n s thr client t (free_check d s)"
    "thr t = Free_check_partial d \<Longrightarrow> step_ok n s thr client t (free_check_partial d s)"
    "thr t = Remove_empty k \<Longrightarrow> step_ok n s thr client t (list_remove_empty_desc ch k s)"
    "thr t = Remove_empty_check d k \<Longrightarrow> step_ok n s thr client t (list_remove_empty_check d k s)"
proof -
  have s: "slots_ok n s thr client" "own_ok s thr" using inv by (simp_all add: lf_inv_def)
  note P = slots_okD(4) [OF s(1), of t]
  have held: "desc_ok n (busy thr client d) (lf_descs s d)" "d_mapped (lf_descs s d)" "i \<in> busy thr client d" "i < n"
    "an_state (d_anchor (lf_descs s d)) \<noteq> STATE_EMPTY" "an_avail (d_anchor (lf_descs s d)) < n"
    if "lf_slot_of (thr t) = Some (d, i)"
  proof -
    show i: "i \<in> busy thr client d" using that by (auto simp: busy_def)
    show d: "desc_ok n (busy thr client d) (lf_descs s d)" "d_mapped (lf_descs s d)" using held_desc [OF inv i] by auto
    then show "i < n" "an_avail (d_anchor (lf_descs s d)) < n" using i by (auto simp: desc_ok_def)
    show "an_state (d_anchor (lf_descs s d)) \<noteq> STATE_EMPTY" using desc_ok_empty [OF d(1)] i by auto
  qed
  show "step_ok n s thr client t (free_read d i s)" if t: "thr t = Free_read d i"
    using held t by (auto simp: free_read_def intro!: step_stay [OF inv])
  show "step_ok n s thr client t (free_link sc d i old s)" if t: "thr t = Free_link d i old"
  proof -
    have sl: "lf_slot_of (thr t) = Some (d, i)" by (simp add: t)
    note H = held [OF sl]
    let ?s = "upd_desc d (\<lambda>D. D\<lparr>d_links := (d_links D)(i := of_nat (an_avail old))\<rparr>) s"
    have mx: "d_max_count (lf_descs s d) = n" using H(1) by (simp add: desc_ok_def)
    have "thr t' \<noteq> Free_cas d i old' new" for t' old' new
    proof
      assume a: "thr t' = Free_cas d i old' new"
      then have "t' = t" using slots_okD(3) [OF s(1)] sl unfolding slots_apart_def by (metis lf_slot_of.simps(4))
      then show False using a t by simp
    qed
    then have inv': "lf_inv n ?s thr client" by (rule inv_link [OF inv H(3)])
    have fr: "an_avail (free_anchor n i old) = i" using H(4) n(2) by (simp add: free_anchor_def Let_def)
    have "lf_inv n ?s (thr(t := Free_cas d i old (free_anchor n i old))) client"
      by (rule inv_stay [OF inv']) (use P in \<open>simp_all add: t\<close>)
    then show ?thesis using H(2,4) mx n(1) fr by (simp add: free_link_def Let_def step_okI)
  qed
  show "step_ok n s thr client t (free_cas d i old new s)" if t: "thr t = Free_cas d i old new"
  proof (cases "d_anchor (lf_descs s d) = old")
    case True
    then show ?thesis using inv_free_cas [OF inv n(2,3), of t d i new] t
      by (auto simp: free_cas_def set_anchor_def intro!: step_okI)
  next
    case False
    then show ?thesis using P by (auto simp: free_cas_def set_anchor_def t intro!: step_stay [OF inv])
  qed
  show "step_ok n s thr client t (free_active d s)" if t: "thr t = Free_active d"
    by (auto simp: free_active_def t intro!: step_stay [OF inv] step_okI [OF take_active [OF inv]])
  show "step_ok n s thr client t (free_check d s)" if t: "thr t = Free_check d"
    by (auto simp: free_check_def t intro!: step_stay [OF inv])
  show "step_ok n s thr client t (free_check_partial d s)" if t: "thr t = Free_check_partial d"
  proof (cases "an_state (d_anchor (lf_descs s d)) = STATE_PARTIAL")
    case True
    then show ?thesis by (auto simp: free_check_partial_def t intro!: step_stay [OF inv])
  next
    case False
    have own: "lf_owns (thr t) = Some d" "lf_slot_of (thr t) = None" "\<not> setting_up (thr t)" by (simp_all add: t)
    have "an_state (d_anchor (lf_descs s d)) = STATE_EMPTY"
      using False owned_desc(2) [OF inv own(1,3)] by (cases "an_state (d_anchor (lf_descs s d))") auto
    then show ?thesis using False inv_leak [OF inv own(1,2)] by (simp add: free_check_partial_def step_okI)
  qed
  show "step_ok n s thr client t (list_remove_empty_desc ch k s)" if t: "thr t = Remove_empty k"
    by (rule dequeue_cases [OF inv, of t ch]) (auto simp: t list_remove_empty_desc_def intro!: step_okI intro: inv_stay [OF inv])
  show "step_ok n s thr client t (list_remove_empty_check d k s)" if t: "thr t = Remove_empty_check d k"
    by (auto simp: list_remove_empty_check_def t intro!: step_stay [OF inv])
qed

lemma shared_steps_ok:
  assumes inv: "lf_inv n s thr client"
  shows "thr t = Give_back d k \<Longrightarrow> step_ok n s thr client t (give_back d k s)"
    "thr t = Put_partial d k \<Longrightarrow> step_ok n s thr client t (list_put_partial d k s)"
    "thr t = Try_put d k \<Longrightarrow> step_ok n s thr client t (try_put_partial ch d k s)"
    "thr t = Retire d k \<Longrightarrow> step_ok n s thr client t (map_option (\<lambda>s. (k, s)) (desc_retire ch d s))"
proof -
  have s: "slots_ok n s thr client" "own_ok s thr" using inv by (simp_all add: lf_inv_def)
  note P = slots_okD(4) [OF s(1), of t]
  show "step_ok n s thr client t (give_back d k s)" if t: "thr t = Give_back d k"
    using P lf_contD [of k n s] by (auto simp: give_back_def t intro!: step_stay [OF inv] step_okI [OF give_active [OF inv]])
  show "step_ok n s thr client t (list_put_partial d k s)" if t: "thr t = Put_partial d k"
    using P owned_desc(2) [OF inv, of t d] by (auto simp: list_put_partial_def t intro!: step_stay [OF inv])
  show "step_ok n s thr client t (try_put_partial ch d k s)" if t: "thr t = Try_put d k"
    using P put_partial_ok [OF inv, of t d k] by (auto simp: try_put_partial_def t intro!: step_okI)
  show "step_ok n s thr client t (map_option (\<lambda>s. (k, s)) (desc_retire ch d s))" if t: "thr t = Retire d k"
  proof -
    have own: "lf_owns (thr t) = Some d" "\<not> setting_up (thr t)" by (simp_all add: t)
    have e: "an_state (d_anchor (lf_descs s d)) = STATE_EMPTY" "lf_cont k" "lf_slot_of k = None" using P by (simp_all add: t)
    have "busy thr client d = {}" using desc_ok_empty [OF owned_desc(1) [OF inv own] e(1)] .
    moreover have "upd_desc d (\<lambda>d. d\<lparr>d_anchor := (d_anchor d)\<lparr>an_state := STATE_EMPTY\<rparr>\<rparr>) s = s"
      using e(1) by (intro upd_desc_id) (metis (mono_tags, lifting) Anchor.surjective Anchor.update_convs(3) Descriptor.surjective Descriptor.update_convs(1))
    ultimately show ?thesis using retire_ok [OF inv own e(2,3), of ch] by (auto simp: t intro!: step_okI)
  qed
qed

lemma exec_ok:
  assumes "lf_inv n s thr client" "n = sc_slots sc" "n < 32768" "2 \<le> n" "lf_running (thr t)"
  shows "step_ok n s thr client t (lf_exec sc ch (thr t) s)"
  using assms(5) alloc_steps_ok [OF assms(1-4), of t] new_steps_ok [OF assms(1-4), of t]
    free_steps_ok [OF assms(1-4), of t] shared_steps_ok [OF assms(1), of t]
  by (cases "thr t") (simp_all add: lf_running_def)

end
