(* ===== verification/Mono_LockFreeSafety.thy ===== *)
theory Mono_LockFreeSafety
  imports Mono_LockFreeInv
begin

unbundle bit_operations_syntax

text \<open>
  The properties of the lock-free allocator, for every size class that its initialisation accepts
  with slots that can hold a link and superblocks no larger than the code uses: no interleaving of
  any number of threads makes an assertion fail or touches freed memory, no slot is handed out
  twice, no superblock with room is lost; and a schedule that loses an empty one.
\<close>

section \<open>Reachable configurations\<close>

lemma unat_ucast_u64: "unat (ucast (x :: u32) :: u64) = unat x"
proof -
  have "unat x < 2 ^ LENGTH(32)" by (rule unsigned_less)
  then have "unat x < 2 ^ 64" by simp
  then show ?thesis by (simp add: unsigned_ucast_eq take_bit_nat_eq_self)
qed

lemma init_size_class_slots:
  assumes "mono_lock_free_allocator_init_size_class slot_size block_size = Some sc"
    "4 \<le> slot_size" "slot_size \<le> block_size" "8 \<le> block_size" "block_size \<le> 16384"
  shows "2 \<le> sc_slots sc" "sc_slots sc < 32768"
proof -
  have b: "4 \<le> unat slot_size" "unat slot_size \<le> 16384" "8 \<le> unat block_size" "unat block_size \<le> 16384"
    using assms(2-5) by (simp_all add: word_le_nat_alt)
  have sc: "sc_slot_size sc = slot_size" "sc_block_size sc = block_size"
    and le: "ucast (slot_size * 2) \<le> (ucast block_size - 8 :: u64)"
    using assms(1) by (auto simp: mono_lock_free_allocator_init_size_class_def split: if_splits)
  have u: "unat (ucast block_size - 8 :: u64) = unat block_size - 8"
  proof -
    have "(8 :: u64) \<le> ucast block_size" using b(3,4) by (simp add: word_le_nat_alt unat_ucast_u64)
    then show ?thesis by (simp add: unat_sub unat_ucast_u64)
  qed
  have "unat (slot_size * 2) = unat slot_size * 2" using b(2) by (simp add: unat_mult_lem [THEN iffD1])
  then have "unat slot_size * 2 \<le> unat block_size - 8" using le u by (simp add: word_le_nat_alt unat_ucast_u64)
  moreover have n: "sc_slots sc = (unat block_size - 8) div unat slot_size"
    by (simp add: sc_slots_def sc unat_div u unat_ucast_u64)
  ultimately show "2 \<le> sc_slots sc" using b(1) by (simp add: less_eq_div_iff_mult_less_eq)
  have "(unat block_size - 8) div unat slot_size \<le> unat block_size - 8" by (rule div_le_dividend)
  then show "sc_slots sc < 32768" using n b(4) by linarith
qed

lemma inv_start: "lf_inv n (lf_sh lf_init) (lf_thr lf_init) (lf_client lf_init)"
  by (simp add: lf_inv_def lf_init_def own_ok_def node_ok_def state_ok_def slots_ok_def live_places_def idle_places_def
      fresh_descriptor_def busy_def slots_apart_def)

lemma late_put_ok:
  assumes inv: "lf_inv n s thr client" and d: "put_deferred s = ds @ d # ds'"
  shows "\<exists>s'. desc_put_partial d (s\<lparr>put_deferred := ds @ ds'\<rparr>) = Some s' \<and> lf_inv n s' thr client"
proof -
  have s: "own_ok s thr" "node_ok s" "state_ok s thr" using inv by (simp_all add: lf_inv_def)
  note O = own_okD [OF s(1)]
  have live: "d \<in> set (live_places s)" by (simp add: live_places_def d)
  then have l: "d < num_descs s" "d_mapped (lf_descs s d)" using O(2) by auto
  have np: "d \<notin> set (sc_partial s)" using O(1) d by (auto simp: live_places_def)
  have "an_state (d_anchor (lf_descs s d)) \<noteq> STATE_FULL" using s(3) l live by (auto simp: state_ok_def held_def)
  then have r: "desc_put_partial d (s\<lparr>put_deferred := ds @ ds'\<rparr>) =
      Some (upd_desc d (\<lambda>d. d\<lparr>d_poisoned := False\<rparr>) (s\<lparr>put_deferred := ds @ ds', sc_partial := sc_partial s @ [d]\<rparr>))" (is "_ = Some ?s")
    using node_okD(2) [OF s(2) l(1)] np by (simp add: desc_put_partial_def)
  have "lf_inv n ?s thr client"
  proof (rule inv_rearrange [OF inv])
    show "distinct (live_places ?s @ idle_places ?s)" using O(1) by (auto simp: live_places_def idle_places_def d)
    show "node_ok ?s" using node_okD [OF s(2)] unfolding node_ok_def by auto
  qed (auto simp: same_descs_def live_places_def idle_places_def d)
  with r show ?thesis by blast
qed

lemma late_avail_ok:
  assumes inv: "lf_inv n s thr client" and d: "avail_deferred s = ds @ d # ds'"
  shows "\<exists>s'. desc_enqueue_avail d (s\<lparr>avail_deferred := ds @ ds'\<rparr>) = Some s' \<and> lf_inv n s' thr client"
proof -
  have s: "own_ok s thr" "node_ok s" using inv by (simp_all add: lf_inv_def)
  note O = own_okD [OF s(1)]
  let ?s = "s\<lparr>avail_deferred := ds @ ds', desc_avail := d # desc_avail s\<rparr>"
  have "desc_enqueue_avail d (s\<lparr>avail_deferred := ds @ ds'\<rparr>) = Some ?s"
    using O(3,4) [of d] d by (simp add: desc_enqueue_avail_def idle_places_def)
  moreover have "lf_inv n ?s thr client"
  proof (rule inv_rearrange [OF inv])
    show "distinct (live_places ?s @ idle_places ?s)" using O(1) by (auto simp: live_places_def idle_places_def d)
    show "node_ok ?s" using s(2) by (simp add: node_ok_def)
  qed (auto simp: same_descs_def live_places_def idle_places_def d)
  ultimately show ?thesis by blast
qed

lemma reachable_inv:
  assumes "lf_reachable sc c" "sc_slots sc < 32768" "2 \<le> sc_slots sc"
  shows "lf_inv (sc_slots sc) (lf_sh c) (lf_thr c) (lf_client c)"
  using assms(1)
proof induction
  case start
  show ?case by (rule inv_start)
next
  case (step c c')
  from step.hyps(2) show ?case
  proof cases
    case (call_alloc t)
    then show ?thesis using inv_stay [OF step.IH, of Alloc_retry t] by (simp del: fun_upd_apply)
  next
    case (call_free t i d)
    then show ?thesis using inv_call_free [OF step.IH] by (simp del: fun_upd_apply)
  next
    case (run ch t pc s)
    then have "lf_running (lf_thr c t)" by (cases "lf_thr c t") (simp_all add: lf_running_def)
    from exec_ok [OF step.IH refl assms(2,3) this, of ch] run show ?thesis by (simp add: step_ok_def del: fun_upd_apply)
  next
    case (return t d i)
    then show ?thesis using inv_return [OF step.IH] by (simp del: fun_upd_apply)
  next
    case (client_write i d v)
    have "i \<in> busy (lf_thr c) (lf_client c) d" using client_write(2) by (simp add: busy_def)
    moreover have "lf_thr c t \<noteq> Free_cas d i old new" for t old new
    proof
      assume "lf_thr c t = Free_cas d i old new"
      moreover have "slots_apart (lf_thr c) (lf_client c)" using step.IH slots_okD(3) by (auto simp: lf_inv_def)
      ultimately have "i \<notin> lf_client c d" unfolding slots_apart_def by (metis lf_slot_of.simps(4))
      then show False using client_write(2) by simp
    qed
    ultimately show ?thesis using inv_link [OF step.IH] client_write(1) by simp
  next
    case (late_put ds d ds' s)
    then show ?thesis using late_put_ok [OF step.IH late_put(2)] by auto
  next
    case (late_avail ds d ds' s)
    then show ?thesis using late_avail_ok [OF step.IH late_avail(2)] by auto
  qed
qed

section \<open>Running a schedule\<close>

datatype lf_event = Call_alloc nat | Call_free nat nat nat | Run nat bool | Return nat

definition lf_do :: "MonoLockFreeAllocSizeClass \<Rightarrow> lf_event \<Rightarrow> lf_conf \<Rightarrow> lf_conf option" where
  "lf_do sc ev c =
    (case ev of
       Call_alloc t \<Rightarrow>
         (case lf_thr c t of Idle \<Rightarrow> Some (c\<lparr>lf_thr := (lf_thr c)(t := Alloc_retry)\<rparr>) | _ \<Rightarrow> None)
     | Call_free t d i \<Rightarrow>
         (case lf_thr c t of
            Idle \<Rightarrow>
              if i \<in> lf_client c d
              then Some (c\<lparr>lf_thr := (lf_thr c)(t := Free_read d i),
                lf_client := (lf_client c)(d := lf_client c d - {i})\<rparr>)
              else None
          | _ \<Rightarrow> None)
     | Run t ch \<Rightarrow>
         (case lf_exec sc ch (lf_thr c t) (lf_sh c) of
            Some (pc, s) \<Rightarrow> Some (c\<lparr>lf_sh := s, lf_thr := (lf_thr c)(t := pc)\<rparr>) | None \<Rightarrow> None)
     | Return t \<Rightarrow>
         (case lf_thr c t of
            Returned d i \<Rightarrow>
              Some (c\<lparr>lf_thr := (lf_thr c)(t := Idle), lf_client := (lf_client c)(d := insert i (lf_client c d))\<rparr>)
          | _ \<Rightarrow> None))"

fun lf_run :: "MonoLockFreeAllocSizeClass \<Rightarrow> lf_event list \<Rightarrow> lf_conf \<Rightarrow> lf_conf option" where
  "lf_run sc [] c = Some c"
| "lf_run sc (e # es) c = (case lf_do sc e c of Some c' \<Rightarrow> lf_run sc es c' | None \<Rightarrow> None)"

lemma lf_do_step: "lf_do sc e c = Some c' \<Longrightarrow> lf_step sc c c'"
  by (cases e) (auto simp: lf_do_def split: lf_pc.splits option.splits if_splits intro: lf_step.intros)

lemma lf_run_reachable: "lf_run sc es c = Some c' \<Longrightarrow> lf_reachable sc c \<Longrightarrow> lf_reachable sc c'"
  by (induction sc es c rule: lf_run.induct) (auto split: option.splits dest: lf_do_step intro: lf_reachable.step)

definition two_slots :: MonoLockFreeAllocSizeClass where
  "two_slots = \<lparr>sc_slot_size = 2040, sc_block_size = 4096\<rparr>"

text \<open>A thread allocates both slots of a superblock and frees them, but is held up before it looks
  at \<open>heap->active\<close>. Another retires the superblock, gets the same descriptor for a new one and makes
  it active. The first now takes it and finds it not empty; the second frees its slot; the first
  finds it not partial either.\<close>

definition leak_schedule :: "lf_event list" where
  "leak_schedule = [
    Call_alloc 0, Run 0 False, Run 0 False, Run 0 False, Run 0 False, Run 0 False, Return 0, Call_alloc
    0, Run 0 False, Run 0 False, Run 0 False, Run 0 False, Run 0 False, Return 0, Call_free 0 0 0, Run 0
    False, Run 0 False, Run 0 False, Run 0 False, Call_free 0 0 1, Run 0 False, Run 0 False, Run 0
    False, Call_alloc 1, Run 1 False, Run 1 False, Run 1 False, Run 1 False, Run 1 False, Run 1 False,
    Run 1 False, Run 1 False, Run 1 False, Return 1, Run 0 False, Run 0 False, Call_free 1 0 0, Run 1
    False, Run 1 False, Run 1 False, Run 1 False, Run 1 False, Run 0 False]"

lemma two_slots_sc: "sc_slots two_slots = 2"
  by (simp add: sc_slots_def two_slots_def)
text \<open>The definitions a schedule runs through.\<close>

lemmas lf_defs = lf_do_def alloc_retry_def alloc_take_def list_get_partial_def partial_dequeue_def alloc_new_desc_def
  desc_alloc_def desc_batch_def NUM_DESC_BATCH_def alloc_new_init_def alloc_new_cas_def alloc_own_def alloc_link_def
  alloc_cas_def set_anchor_def alloc_anchor_def give_back_def free_read_def free_link_def free_anchor_def free_cas_def
  free_active_def free_check_def free_check_partial_def list_remove_empty_desc_def desc_retire_def desc_enqueue_avail_def
  Let_def two_slots_sc fresh_descriptor_def upd_desc_def lf_init_def new_links_def

section \<open>Properties\<close>

lemma check_links_chain:
  "check_links m links linked a n \<longleftrightarrow>
    distinct (lchain links a n) \<and> set (lchain links a n) \<subseteq> {..<m} \<and> set (lchain links a n) \<inter> linked = {}"
  by (induction m links linked a n rule: check_links.induct) auto

text \<open>C25: In every interleaving of any number of allocating and freeing threads, with clients writing
  what they like into their slots and hazardous frees run late, no configuration is reached in which
  an assertion of the allocator can fail or a freed superblock be touched: neither in the next step of
  a running thread, whatever the scheduler chooses, nor in a late callback, whichever of those put off
  is run. (The
  system is taken to grant the memory for superblocks and descriptors; the process ends otherwise.)\<close>

theorem lock_free_steps_succeed:
  assumes sc: "mono_lock_free_allocator_init_size_class slot_size block_size = Some sc"
    "4 \<le> slot_size" "slot_size \<le> block_size" "8 \<le> block_size" "block_size \<le> 16384"
    and c: "lf_reachable sc c"
  shows "\<not> lf_aborts sc c \<and>
    (\<forall>t ch. lf_running (lf_thr c t) \<longrightarrow> (\<exists>pc s. lf_exec sc ch (lf_thr c t) (lf_sh c) = Some (pc, s))) \<and>
    (\<forall>ds d ds'. put_deferred (lf_sh c) = ds @ d # ds' \<longrightarrow>
      (\<exists>s. desc_put_partial d ((lf_sh c)\<lparr>put_deferred := ds @ ds'\<rparr>) = Some s)) \<and>
    (\<forall>ds d ds'. avail_deferred (lf_sh c) = ds @ d # ds' \<longrightarrow>
      (\<exists>s. desc_enqueue_avail d ((lf_sh c)\<lparr>avail_deferred := ds @ ds'\<rparr>) = Some s))"
proof (intro conjI allI impI)
  note inv = reachable_inv [OF c init_size_class_slots(2,1) [OF sc]]
  show run: "\<exists>pc s. lf_exec sc ch (lf_thr c t) (lf_sh c) = Some (pc, s)" if "lf_running (lf_thr c t)" for t ch
    using exec_ok [OF inv refl init_size_class_slots(2,1) [OF sc] that, of ch] by (auto simp: step_ok_def)
  show put: "\<exists>s. desc_put_partial d ((lf_sh c)\<lparr>put_deferred := ds @ ds'\<rparr>) = Some s" if "put_deferred (lf_sh c) = ds @ d # ds'" for ds d ds'
    using late_put_ok [OF inv that] by blast
  show avail: "\<exists>s. desc_enqueue_avail d ((lf_sh c)\<lparr>avail_deferred := ds @ ds'\<rparr>) = Some s" if "avail_deferred (lf_sh c) = ds @ d # ds'" for ds d ds'
    using late_avail_ok [OF inv that] by blast
  show "\<not> lf_aborts sc c"
  proof
    assume "lf_aborts sc c"
    then show False
    proof cases
      case (run_aborts t ch)
      then show ?thesis using run [OF run_aborts(1), of ch] by simp
    next
      case (late_put_aborts ds d ds')
      then show ?thesis using put [OF late_put_aborts(1)] by simp
    next
      case (late_avail_aborts ds d ds')
      then show ?thesis using avail [OF late_avail_aborts(1)] by simp
    qed
  qed
qed

text \<open>A thread about to allocate the first slot of a new superblock.\<close>

lemma two_slots_init:
  "mono_lock_free_allocator_init_size_class 2040 4096 = Some two_slots"
  by (simp add: mono_lock_free_allocator_init_size_class_def two_slots_def)

definition first_slot :: "lf_event list" where
  "first_slot = [Call_alloc 0, Run 0 False, Run 0 False, Run 0 False, Run 0 False, Run 0 False, Return 0]"

lemma first_slot_run:
  "\<exists>c. lf_run two_slots first_slot lf_init = Some c \<and> lf_thr c 0 = Idle \<and> lf_client c 0 = {0} \<and>
    d_mapped (lf_descs (lf_sh c) 0) \<and> an_state (d_anchor (lf_descs (lf_sh c) 0)) = STATE_PARTIAL"
  by (simp add: lf_defs first_slot_def)

lemma first_slot_reachable:
  obtains c where "lf_reachable two_slots c" "lf_thr c 0 = Idle" "lf_client c 0 = {0}"
    "d_mapped (lf_descs (lf_sh c) 0)" "an_state (d_anchor (lf_descs (lf_sh c) 0)) = STATE_PARTIAL"
  using first_slot_run lf_run_reachable [OF _ lf_reachable.start] by blast

theorem lock_free_steps_witness:
  "\<exists>c pc s. lf_reachable two_slots c \<and> lf_thr c 0 = Free_read 0 0 \<and>
    lf_exec two_slots False (lf_thr c 0) (lf_sh c) = Some (pc, s)"
proof -
  obtain c where c: "lf_reachable two_slots c" "lf_thr c 0 = Idle" "lf_client c 0 = {0}" by (rule first_slot_reachable)
  let ?c = "c\<lparr>lf_thr := (lf_thr c)(0 := Free_read 0 0), lf_client := (lf_client c)(0 := lf_client c 0 - {0})\<rparr>"
  have r: "lf_reachable two_slots ?c" using c by (intro lf_reachable.step [OF c(1)] lf_step.call_free) simp_all
  have "lf_running (lf_thr ?c 0)" by (simp add: lf_running_def)
  then have "\<exists>pc s. lf_exec two_slots False (lf_thr ?c 0) (lf_sh ?c) = Some (pc, s)"
    using lock_free_steps_succeed [OF two_slots_init _ _ _ _ r, THEN conjunct2, THEN conjunct1, rule_format, of 0 False] by simp
  then show ?thesis using r by (intro exI [of _ ?c]) simp
qed

text \<open>C26: In every reachable configuration each live superblock passes the allocator's own consistency
  check, and its slots are split without overlap into the free list and the slots in use; a slot
  in a thread's hands is in no other thread's and no client's, and no slot of a freed superblock
  is in use. So no slot is handed out twice.\<close>

theorem lock_free_slots_partition:
  assumes sc: "mono_lock_free_allocator_init_size_class slot_size block_size = Some sc"
    "4 \<le> slot_size" "slot_size \<le> block_size" "8 \<le> block_size" "block_size \<le> 16384"
    and c: "lf_reachable sc c"
  shows "(if d_mapped (lf_descs (lf_sh c) d)
      then descriptor_check_consistency sc (lf_sh c) d \<and>
        set (free_slots (lf_descs (lf_sh c) d)) \<inter> busy (lf_thr c) (lf_client c) d = {} \<and>
        set (free_slots (lf_descs (lf_sh c) d)) \<union> busy (lf_thr c) (lf_client c) d = {..<sc_slots sc}
      else busy (lf_thr c) (lf_client c) d = {}) \<and>
    (lf_slot_of (lf_thr c t) = Some (d, i) \<longrightarrow>
      i \<notin> lf_client c d \<and> (\<forall>t'. lf_slot_of (lf_thr c t') = Some (d, i) \<longrightarrow> t' = t))"
proof -
  note inv = reachable_inv [OF c init_size_class_slots(2,1) [OF sc]]
  then have s: "slots_ok (sc_slots sc) (lf_sh c) (lf_thr c) (lf_client c)" "own_ok (lf_sh c) (lf_thr c)" "node_ok (lf_sh c)"
    by (simp_all add: lf_inv_def)
  have m: "d_mapped (lf_descs (lf_sh c) d) \<Longrightarrow> d \<notin> set (desc_avail (lf_sh c))"
    using own_okD(3) [OF s(2), of d] node_okD(1) [OF s(3)] by (auto simp: idle_places_def)
  have "descriptor_check_consistency sc (lf_sh c) d" if "d_mapped (lf_descs (lf_sh c) d)"
    using slots_okD(1) [OF s(1) that] m [OF that]
    by (auto simp: descriptor_check_consistency_def Let_def desc_ok_def check_links_chain free_slots_def split: anchor_state.split)
  then show ?thesis using slots_okD(1,2) [OF s(1), of d] slots_okD(3) [OF s(1)]
    unfolding desc_ok_def slots_apart_def by simp
qed

theorem lock_free_slots_witness:
  "\<exists>c. lf_reachable two_slots c \<and> descriptor_check_consistency two_slots (lf_sh c) 0 \<and> 0 \<notin> set (free_slots (lf_descs (lf_sh c) 0))"
proof -
  obtain c where c: "lf_reachable two_slots c" "lf_client c 0 = {0}" "d_mapped (lf_descs (lf_sh c) 0)"
    by (rule first_slot_reachable)
  have "0 \<in> busy (lf_thr c) (lf_client c) 0" using c(2) by (simp add: busy_def)
  then show ?thesis
    using lock_free_slots_partition [OF two_slots_init _ _ _ _ c(1), of 0 0 0] c(1,3) by auto
qed

text \<open>C27: In every reachable configuration a descriptor is in one place: the active field, the partial
  queue, the available list, a callback put off, or one thread. A full superblock is in none of
  them, so the free that makes it partial owns it; a partial one is in one, so its room is never
  lost.\<close>

theorem lock_free_ownership:
  assumes sc: "mono_lock_free_allocator_init_size_class slot_size block_size = Some sc"
    "4 \<le> slot_size" "slot_size \<le> block_size" "8 \<le> block_size" "block_size \<le> 16384"
    and c: "lf_reachable sc c"
  shows "distinct (live_places (lf_sh c) @ idle_places (lf_sh c)) \<and>
    (lf_owns (lf_thr c t) = Some d \<longrightarrow> d \<notin> set (live_places (lf_sh c)) \<union> set (idle_places (lf_sh c)) \<and>
      (\<forall>t'. lf_owns (lf_thr c t') = Some d \<longrightarrow> t' = t)) \<and>
    (d_mapped (lf_descs (lf_sh c) d) \<and> an_state (d_anchor (lf_descs (lf_sh c) d)) = STATE_FULL \<longrightarrow>
      \<not> held (lf_sh c) (lf_thr c) d) \<and>
    (d_mapped (lf_descs (lf_sh c) d) \<and> an_state (d_anchor (lf_descs (lf_sh c) d)) = STATE_PARTIAL \<longrightarrow>
      held (lf_sh c) (lf_thr c) d)"
proof -
  note inv = reachable_inv [OF c init_size_class_slots(2,1) [OF sc]]
  then have s: "own_ok (lf_sh c) (lf_thr c)" "state_ok (lf_sh c) (lf_thr c)" by (simp_all add: lf_inv_def)
  have "lf_owns (lf_thr c t) = Some d \<longrightarrow> d \<notin> set (live_places (lf_sh c)) \<union> set (idle_places (lf_sh c)) \<and>
      (\<forall>t'. lf_owns (lf_thr c t') = Some d \<longrightarrow> t' = t)"
    using own_okD(5,6) [OF s(1)] by blast
  then show ?thesis using own_okD(1) [OF s(1)] s(2) by (simp add: state_ok_def)
qed

theorem lock_free_ownership_witness:
  "\<exists>c. lf_reachable two_slots c \<and> lf_client c 0 = {0} \<and> held (lf_sh c) (lf_thr c) 0"
proof -
  obtain c where c: "lf_reachable two_slots c" "lf_client c 0 = {0}" "d_mapped (lf_descs (lf_sh c) 0)"
    "an_state (d_anchor (lf_descs (lf_sh c) 0)) = STATE_PARTIAL" by (rule first_slot_reachable)
  then show ?thesis using lock_free_ownership [OF two_slots_init _ _ _ _ c(1), of 0 0] by auto
qed

text \<open>C28: The two reads of the state at the end of \<open>mono_lock_free_free\<close> can lose an empty superblock: a
  schedule of two threads ends with both idle, no slot in use, and a mapped, empty superblock
  whose descriptor is neither active, nor partial, nor available, nor anyone's.\<close>

theorem lock_free_empty_superblock_leaks:
  "mono_lock_free_allocator_init_size_class 2040 4096 = Some two_slots \<and>
    (\<exists>c. lf_reachable two_slots c \<and> (\<forall>t. lf_thr c t = Idle) \<and> (\<forall>d. lf_client c d = {}) \<and>
      d_mapped (lf_descs (lf_sh c) 0) \<and> an_state (d_anchor (lf_descs (lf_sh c) 0)) = STATE_EMPTY \<and>
      \<not> held (lf_sh c) (lf_thr c) 0 \<and> 0 \<notin> set (idle_places (lf_sh c)))"
proof -
  have "\<exists>c. lf_run two_slots leak_schedule lf_init = Some c \<and> (\<forall>t. lf_thr c t = Idle) \<and> (\<forall>d. lf_client c d = {}) \<and>
      d_mapped (lf_descs (lf_sh c) 0) \<and> an_state (d_anchor (lf_descs (lf_sh c) 0)) = STATE_EMPTY \<and>
      \<not> held (lf_sh c) (lf_thr c) 0 \<and> 0 \<notin> set (idle_places (lf_sh c))"
    by (simp add: lf_defs leak_schedule_def held_def live_places_def idle_places_def) auto
  then have "\<exists>c. lf_reachable two_slots c \<and> (\<forall>t. lf_thr c t = Idle) \<and> (\<forall>d. lf_client c d = {}) \<and>
      d_mapped (lf_descs (lf_sh c) 0) \<and> an_state (d_anchor (lf_descs (lf_sh c) 0)) = STATE_EMPTY \<and>
      \<not> held (lf_sh c) (lf_thr c) 0 \<and> 0 \<notin> set (idle_places (lf_sh c))"
    using lf_run_reachable [OF _ lf_reachable.start] by blast
  then show ?thesis using two_slots_init by blast
qed

end
