(* ===== verification/Mono_ThreadState.thy ===== *)
theory Mono_ThreadState
  imports Main "HOL-Library.Word" "HOL-Library.Monad_Syntax" Brotli_Prelude
begin

unbundle bit_operations_syntax

text \<open>
  The thread state machine, \<open>utils/mono-threads-state-machine.c\<close> with the enumerations of
  \<open>utils/mono-threads.h\<close>: one 32-bit word per thread that packs its state, its no-safepoints flag
  and a signed 8-bit count of suspensions. A transition reads the word and decides from it alone;
  it fails, returns, or tries to replace the word it read, and starts again when the word has
  changed. Since only the word matters, a transition is the function of the word that its last
  attempt sees, and \<open>transition\<close> is its effect, the consistency check of the trace included.
  \<open>None\<close> is \<open>mono_fatal_with_history\<close> or a failed assertion.
\<close>

section \<open>The word\<close>

datatype thread_state =
    STATE_STARTING
  | STATE_DETACHED
  | STATE_RUNNING
  | STATE_ASYNC_SUSPENDED
  | STATE_SELF_SUSPENDED
  | STATE_ASYNC_SUSPEND_REQUESTED
  | STATE_BLOCKING
  | STATE_BLOCKING_ASYNC_SUSPENDED
  | STATE_BLOCKING_SELF_SUSPENDED
  | STATE_BLOCKING_SUSPEND_REQUESTED

fun state_num :: "thread_state \<Rightarrow> nat" where
  "state_num STATE_STARTING = 0"
| "state_num STATE_DETACHED = 1"
| "state_num STATE_RUNNING = 2"
| "state_num STATE_ASYNC_SUSPENDED = 3"
| "state_num STATE_SELF_SUSPENDED = 4"
| "state_num STATE_ASYNC_SUSPEND_REQUESTED = 5"
| "state_num STATE_BLOCKING = 6"
| "state_num STATE_BLOCKING_ASYNC_SUSPENDED = 7"
| "state_num STATE_BLOCKING_SELF_SUSPENDED = 8"
| "state_num STATE_BLOCKING_SUSPEND_REQUESTED = 9"

definition thread_states :: "thread_state list" where
  "thread_states = [STATE_STARTING, STATE_DETACHED, STATE_RUNNING, STATE_ASYNC_SUSPENDED, STATE_SELF_SUSPENDED,
    STATE_ASYNC_SUSPEND_REQUESTED, STATE_BLOCKING, STATE_BLOCKING_ASYNC_SUSPENDED,
    STATE_BLOCKING_SELF_SUSPENDED, STATE_BLOCKING_SUSPEND_REQUESTED]"

definition THREAD_SUSPEND_COUNT_MAX :: int where
  "THREAD_SUSPEND_COUNT_MAX = 255"

text \<open>The state of a word; \<open>None\<close> is a number that no state has.\<close>

definition get_thread_state :: "u32 \<Rightarrow> thread_state option" where
  "get_thread_state raw =
    (let n = unat (take_bit 7 raw) in if n < length thread_states then Some (thread_states ! n) else None)"

definition get_thread_suspend_count :: "u32 \<Rightarrow> int" where
  "get_thread_suspend_count raw = sint (ucast (drop_bit 8 raw) :: 8 word)"

definition get_thread_no_safepoints :: "u32 \<Rightarrow> bool" where
  "get_thread_no_safepoints raw = bit raw 7"

definition build_thread_state :: "thread_state \<Rightarrow> int \<Rightarrow> bool \<Rightarrow> u32 option" where
  "build_thread_state thread_state suspend_count no_safepoints =
    (if 0 \<le> suspend_count \<and> suspend_count \<le> THREAD_SUSPEND_COUNT_MAX
     then Some (of_nat (state_num thread_state) OR (if no_safepoints then 128 else 0) OR
       push_bit 8 (ucast (word_of_int suspend_count :: 8 word)))
     else None)"

definition unwrap_thread_state :: "u32 \<Rightarrow> thread_state option \<times> int \<times> bool" where
  "unwrap_thread_state raw = (get_thread_state raw, get_thread_suspend_count raw, get_thread_no_safepoints raw)"

definition check_thread_state :: "u32 \<Rightarrow> bool" where
  "check_thread_state raw \<longleftrightarrow>
    (case unwrap_thread_state raw of
       (Some STATE_STARTING, count, blk) \<Rightarrow> \<not> blk \<and> count = 0
     | (Some STATE_DETACHED, count, blk) \<Rightarrow> \<not> blk \<and> count = 0
     | (Some STATE_RUNNING, count, blk) \<Rightarrow> count = 0
     | (Some STATE_ASYNC_SUSPEND_REQUESTED, count, blk) \<Rightarrow> 0 < count
     | (Some STATE_BLOCKING, count, blk) \<Rightarrow> \<not> blk \<and> count = 0
     | (Some _, count, blk) \<Rightarrow> \<not> blk \<and> 0 < count
     | (None, count, blk) \<Rightarrow> False)"

section \<open>Transitions\<close>

datatype 'r attempt = Fatal | Done 'r | Cas u32 'r

definition try_cas :: "thread_state \<Rightarrow> int \<Rightarrow> bool \<Rightarrow> 'r \<Rightarrow> 'r attempt" where
  "try_cas st count blk r = (case build_thread_state st count blk of Some raw \<Rightarrow> Cas raw r | None \<Rightarrow> Fatal)"

definition transition :: "(u32 \<Rightarrow> 'r attempt) \<Rightarrow> u32 \<Rightarrow> ('r \<times> u32) option" where
  "transition f raw =
    (case f raw of
       Fatal \<Rightarrow> None
     | Done r \<Rightarrow> if check_thread_state raw then Some (r, raw) else None
     | Cas raw' r \<Rightarrow> if check_thread_state raw' then Some (r, raw') else None)"

definition mono_threads_transition_attach :: "u32 \<Rightarrow> unit attempt" where
  "mono_threads_transition_attach raw =
    (case unwrap_thread_state raw of
       (Some STATE_STARTING, count, blk) \<Rightarrow>
         if count \<noteq> 0 \<or> blk then Fatal else try_cas STATE_RUNNING 0 False ()
     | _ \<Rightarrow> Fatal)"

definition detach_running :: "int \<Rightarrow> bool \<Rightarrow> bool attempt" where
  "detach_running count blk = (if count \<noteq> 0 \<or> blk then Fatal else try_cas STATE_DETACHED 0 False True)"

definition mono_threads_transition_detach :: "u32 \<Rightarrow> bool attempt" where
  "mono_threads_transition_detach raw =
    (case unwrap_thread_state raw of
       (Some STATE_RUNNING, count, blk) \<Rightarrow> detach_running count blk
     | (Some STATE_BLOCKING, count, blk) \<Rightarrow> detach_running count blk
     | (Some STATE_ASYNC_SUSPEND_REQUESTED, count, blk) \<Rightarrow> Done False
     | (Some STATE_BLOCKING_SUSPEND_REQUESTED, count, blk) \<Rightarrow> Done False
     | _ \<Rightarrow> Fatal)"

datatype MonoRequestSuspendResult =
    ReqSuspendAlreadySuspended
  | ReqSuspendAlreadySuspendedBlocking
  | ReqSuspendInitSuspendRunning
  | ReqSuspendInitSuspendBlocking

text \<open>One more suspension of a thread that is suspended already.\<close>

definition suspend_again :: "thread_state \<Rightarrow> int \<Rightarrow> bool \<Rightarrow> 'r \<Rightarrow> 'r attempt" where
  "suspend_again st count blk r =
    (if blk \<or> \<not> (0 < count \<and> count < THREAD_SUSPEND_COUNT_MAX) then Fatal else try_cas st (count + 1) blk r)"

definition mono_threads_transition_request_suspension :: "u32 \<Rightarrow> MonoRequestSuspendResult attempt" where
  "mono_threads_transition_request_suspension raw =
    (case unwrap_thread_state raw of
       (Some STATE_RUNNING, count, blk) \<Rightarrow>
         if count \<noteq> 0 then Fatal
         else try_cas STATE_ASYNC_SUSPEND_REQUESTED 1 blk ReqSuspendInitSuspendRunning
     | (Some STATE_BLOCKING_SELF_SUSPENDED, count, blk) \<Rightarrow>
         suspend_again STATE_BLOCKING_SELF_SUSPENDED count blk ReqSuspendAlreadySuspended
     | (Some STATE_BLOCKING_ASYNC_SUSPENDED, count, blk) \<Rightarrow>
         suspend_again STATE_BLOCKING_ASYNC_SUSPENDED count blk ReqSuspendAlreadySuspended
     | (Some STATE_ASYNC_SUSPENDED, count, blk) \<Rightarrow>
         suspend_again STATE_ASYNC_SUSPENDED count blk ReqSuspendAlreadySuspended
     | (Some STATE_SELF_SUSPENDED, count, blk) \<Rightarrow>
         suspend_again STATE_SELF_SUSPENDED count blk ReqSuspendAlreadySuspended
     | (Some STATE_BLOCKING, count, blk) \<Rightarrow>
         if count \<noteq> 0 \<or> blk then Fatal
         else try_cas STATE_BLOCKING_SUSPEND_REQUESTED 1 blk ReqSuspendInitSuspendBlocking
     | (Some STATE_BLOCKING_SUSPEND_REQUESTED, count, blk) \<Rightarrow>
         suspend_again STATE_BLOCKING_SUSPEND_REQUESTED count blk ReqSuspendAlreadySuspendedBlocking
     | _ \<Rightarrow> Fatal)"

definition peek_suspended :: "int \<Rightarrow> bool \<Rightarrow> bool \<Rightarrow> bool attempt" where
  "peek_suspended count blk r =
    (if \<not> (0 < count \<and> count < THREAD_SUSPEND_COUNT_MAX) \<or> blk then Fatal else Done r)"

definition mono_threads_transition_peek_blocking_suspend_requested :: "u32 \<Rightarrow> bool attempt" where
  "mono_threads_transition_peek_blocking_suspend_requested raw =
    (case unwrap_thread_state raw of
       (Some STATE_ASYNC_SUSPENDED, count, blk) \<Rightarrow> Done False
     | (Some STATE_SELF_SUSPENDED, count, blk) \<Rightarrow> Done False
     | (Some STATE_BLOCKING_SELF_SUSPENDED, count, blk) \<Rightarrow> peek_suspended count blk False
     | (Some STATE_BLOCKING_ASYNC_SUSPENDED, count, blk) \<Rightarrow> peek_suspended count blk False
     | (Some STATE_BLOCKING_SUSPEND_REQUESTED, count, blk) \<Rightarrow> peek_suspended count blk True
     | _ \<Rightarrow> Fatal)"

datatype MonoSelfSupendResult = SelfSuspendResumed | SelfSuspendNotifyAndWait

definition mono_threads_transition_state_poll :: "u32 \<Rightarrow> MonoSelfSupendResult attempt" where
  "mono_threads_transition_state_poll raw =
    (case unwrap_thread_state raw of
       (Some STATE_RUNNING, count, blk) \<Rightarrow>
         if blk \<or> count \<noteq> 0 then Fatal else Done SelfSuspendResumed
     | (Some STATE_ASYNC_SUSPEND_REQUESTED, count, blk) \<Rightarrow>
         if blk \<or> \<not> 0 < count then Fatal else try_cas STATE_SELF_SUSPENDED count blk SelfSuspendNotifyAndWait
     | _ \<Rightarrow> Fatal)"

datatype MonoResumeResult =
    ResumeError
  | ResumeOk
  | ResumeInitSelfResume
  | ResumeInitAsyncResume
  | ResumeInitBlockingResume

text \<open>The count goes down, and at the last one the thread goes on in the given state.\<close>

definition resume_suspended :: "thread_state \<Rightarrow> int \<Rightarrow> bool \<Rightarrow> thread_state \<Rightarrow> MonoResumeResult \<Rightarrow> MonoResumeResult attempt" where
  "resume_suspended st count blk st' r =
    (if \<not> 0 < count \<or> blk then Fatal
     else if 1 < count then try_cas st (count - 1) blk ResumeOk
     else try_cas st' 0 blk r)"

definition mono_threads_transition_request_resume :: "u32 \<Rightarrow> MonoResumeResult attempt" where
  "mono_threads_transition_request_resume raw =
    (case unwrap_thread_state raw of
       (Some STATE_RUNNING, count, blk) \<Rightarrow> if count \<noteq> 0 then Fatal else Done ResumeError
     | (Some STATE_BLOCKING, count, blk) \<Rightarrow> if count \<noteq> 0 \<or> blk then Fatal else Done ResumeError
     | (Some STATE_BLOCKING_SUSPEND_REQUESTED, count, blk) \<Rightarrow>
         resume_suspended STATE_BLOCKING_SUSPEND_REQUESTED count blk STATE_BLOCKING ResumeOk
     | (Some STATE_BLOCKING_ASYNC_SUSPENDED, count, blk) \<Rightarrow>
         resume_suspended STATE_BLOCKING_ASYNC_SUSPENDED count blk STATE_BLOCKING ResumeInitAsyncResume
     | (Some STATE_BLOCKING_SELF_SUSPENDED, count, blk) \<Rightarrow>
         resume_suspended STATE_BLOCKING_SELF_SUSPENDED count blk STATE_RUNNING ResumeInitBlockingResume
     | (Some STATE_ASYNC_SUSPENDED, count, blk) \<Rightarrow>
         resume_suspended STATE_ASYNC_SUSPENDED count blk STATE_RUNNING ResumeInitAsyncResume
     | (Some STATE_SELF_SUSPENDED, count, blk) \<Rightarrow>
         resume_suspended STATE_SELF_SUSPENDED count blk STATE_RUNNING ResumeInitSelfResume
     | _ \<Rightarrow> Fatal)"

datatype MonoPulseResult = PulseInitAsyncPulse

definition mono_threads_transition_request_pulse :: "u32 \<Rightarrow> MonoPulseResult attempt" where
  "mono_threads_transition_request_pulse raw =
    (case unwrap_thread_state raw of
       (Some STATE_BLOCKING_ASYNC_SUSPENDED, count, blk) \<Rightarrow>
         if count \<noteq> 1 \<or> blk then Fatal else try_cas STATE_BLOCKING_SUSPEND_REQUESTED count blk PulseInitAsyncPulse
     | _ \<Rightarrow> Fatal)"

definition abort_requested :: "thread_state \<Rightarrow> int \<Rightarrow> bool \<Rightarrow> bool attempt" where
  "abort_requested st count blk =
    (if \<not> 0 < count \<or> blk then Fatal
     else if 1 < count then try_cas st (count - 1) blk True
     else try_cas STATE_RUNNING 0 blk True)"

definition mono_threads_transition_abort_async_suspend :: "u32 \<Rightarrow> bool attempt" where
  "mono_threads_transition_abort_async_suspend raw =
    (case unwrap_thread_state raw of
       (Some STATE_SELF_SUSPENDED, count, blk) \<Rightarrow> if blk then Fatal else Done False
     | (Some STATE_BLOCKING_SELF_SUSPENDED, count, blk) \<Rightarrow> if blk then Fatal else Done False
     | (Some STATE_ASYNC_SUSPEND_REQUESTED, count, blk) \<Rightarrow> abort_requested STATE_ASYNC_SUSPEND_REQUESTED count blk
     | (Some STATE_BLOCKING_SUSPEND_REQUESTED, count, blk) \<Rightarrow> abort_requested STATE_BLOCKING_SUSPEND_REQUESTED count blk
     | _ \<Rightarrow> Fatal)"

definition mono_threads_transition_finish_async_suspend :: "u32 \<Rightarrow> bool attempt" where
  "mono_threads_transition_finish_async_suspend raw =
    (case unwrap_thread_state raw of
       (Some STATE_SELF_SUSPENDED, count, blk) \<Rightarrow> if blk then Fatal else Done False
     | (Some STATE_BLOCKING_SELF_SUSPENDED, count, blk) \<Rightarrow> if blk then Fatal else Done False
     | (Some STATE_ASYNC_SUSPEND_REQUESTED, count, blk) \<Rightarrow>
         if \<not> 0 < count \<or> blk then Fatal else try_cas STATE_ASYNC_SUSPENDED count False True
     | (Some STATE_BLOCKING_SUSPEND_REQUESTED, count, blk) \<Rightarrow>
         if \<not> 0 < count \<or> blk then Fatal else try_cas STATE_BLOCKING_ASYNC_SUSPENDED count False True
     | _ \<Rightarrow> Fatal)"

datatype MonoDoBlockingResult = DoBlockingContinue | DoBlockingPollAndRetry

definition mono_threads_transition_do_blocking :: "u32 \<Rightarrow> MonoDoBlockingResult attempt" where
  "mono_threads_transition_do_blocking raw =
    (case unwrap_thread_state raw of
       (Some STATE_RUNNING, count, blk) \<Rightarrow>
         if count \<noteq> 0 \<or> blk then Fatal else try_cas STATE_BLOCKING count blk DoBlockingContinue
     | (Some STATE_ASYNC_SUSPEND_REQUESTED, count, blk) \<Rightarrow>
         if \<not> 0 < count \<or> blk then Fatal else Done DoBlockingPollAndRetry
     | _ \<Rightarrow> Fatal)"

datatype MonoDoneBlockingResult = DoneBlockingOk | DoneBlockingWait

definition mono_threads_transition_done_blocking :: "u32 \<Rightarrow> MonoDoneBlockingResult attempt" where
  "mono_threads_transition_done_blocking raw =
    (case unwrap_thread_state raw of
       (Some STATE_BLOCKING, count, blk) \<Rightarrow>
         if count \<noteq> 0 \<or> blk then Fatal else try_cas STATE_RUNNING count blk DoneBlockingOk
     | (Some STATE_BLOCKING_SUSPEND_REQUESTED, count, blk) \<Rightarrow>
         if \<not> 0 < count \<or> blk then Fatal else try_cas STATE_BLOCKING_SELF_SUSPENDED count blk DoneBlockingWait
     | _ \<Rightarrow> Fatal)"

datatype MonoAbortBlockingResult =
    AbortBlockingIgnore
  | AbortBlockingIgnoreAndPoll
  | AbortBlockingOk
  | AbortBlockingWait

text \<open>A running thread that must not poll has its flag cleared and then fails all the same.\<close>

definition mono_threads_transition_abort_blocking :: "u32 \<Rightarrow> MonoAbortBlockingResult attempt" where
  "mono_threads_transition_abort_blocking raw =
    (case unwrap_thread_state raw of
       (Some STATE_RUNNING, count, blk) \<Rightarrow> if blk then Fatal else Done AbortBlockingIgnore
     | (Some STATE_ASYNC_SUSPEND_REQUESTED, count, blk) \<Rightarrow> if blk then Fatal else Done AbortBlockingIgnoreAndPoll
     | (Some STATE_BLOCKING, count, blk) \<Rightarrow>
         if count \<noteq> 0 \<or> blk then Fatal else try_cas STATE_RUNNING count False AbortBlockingOk
     | (Some STATE_BLOCKING_SUSPEND_REQUESTED, count, blk) \<Rightarrow>
         if \<not> 0 < count \<or> blk then Fatal else try_cas STATE_BLOCKING_SELF_SUSPENDED count False AbortBlockingWait
     | _ \<Rightarrow> Fatal)"

definition mono_threads_transition_begin_no_safepoints :: "u32 \<Rightarrow> unit attempt" where
  "mono_threads_transition_begin_no_safepoints raw =
    (case unwrap_thread_state raw of
       (Some STATE_RUNNING, count, blk) \<Rightarrow> if blk then Fatal else try_cas STATE_RUNNING count True ()
     | (Some STATE_ASYNC_SUSPEND_REQUESTED, count, blk) \<Rightarrow>
         if blk then Fatal else try_cas STATE_ASYNC_SUSPEND_REQUESTED count True ()
     | _ \<Rightarrow> Fatal)"

definition mono_threads_transition_end_no_safepoints :: "u32 \<Rightarrow> unit attempt" where
  "mono_threads_transition_end_no_safepoints raw =
    (case unwrap_thread_state raw of
       (Some STATE_RUNNING, count, blk) \<Rightarrow> if \<not> blk then Fatal else try_cas STATE_RUNNING count False ()
     | (Some STATE_ASYNC_SUSPEND_REQUESTED, count, blk) \<Rightarrow>
         if \<not> blk then Fatal else try_cas STATE_ASYNC_SUSPEND_REQUESTED count False ()
     | _ \<Rightarrow> Fatal)"

section \<open>Looking at the state\<close>

definition mono_thread_info_current_state :: "u32 \<Rightarrow> thread_state option" where
  "mono_thread_info_current_state raw = get_thread_state raw"

definition mono_thread_info_suspend_count :: "u32 \<Rightarrow> int" where
  "mono_thread_info_suspend_count raw = get_thread_suspend_count raw"

definition mono_thread_info_will_not_safepoint :: "u32 \<Rightarrow> bool" where
  "mono_thread_info_will_not_safepoint raw = get_thread_no_safepoints raw"

definition mono_thread_info_is_running :: "u32 \<Rightarrow> bool" where
  "mono_thread_info_is_running raw \<longleftrightarrow>
    (case mono_thread_info_current_state raw of
       Some STATE_RUNNING \<Rightarrow> True
     | Some STATE_ASYNC_SUSPEND_REQUESTED \<Rightarrow> True
     | Some STATE_BLOCKING_SUSPEND_REQUESTED \<Rightarrow> True
     | Some STATE_BLOCKING \<Rightarrow> True
     | _ \<Rightarrow> False)"

definition mono_thread_info_is_live :: "u32 \<Rightarrow> bool" where
  "mono_thread_info_is_live raw \<longleftrightarrow>
    (case mono_thread_info_current_state raw of
       Some STATE_STARTING \<Rightarrow> False
     | Some STATE_DETACHED \<Rightarrow> False
     | _ \<Rightarrow> True)"

definition mono_thread_is_gc_unsafe_mode :: "u32 option \<Rightarrow> bool" where
  "mono_thread_is_gc_unsafe_mode cur \<longleftrightarrow>
    (case cur of
       None \<Rightarrow> False
     | Some raw \<Rightarrow>
         (case mono_thread_info_current_state raw of
            Some STATE_RUNNING \<Rightarrow> True
          | Some STATE_ASYNC_SUSPEND_REQUESTED \<Rightarrow> True
          | _ \<Rightarrow> False))"

section \<open>The word holds what was put in it\<close>

definition wrap8 :: "int \<Rightarrow> int" where
  "wrap8 c = sint (word_of_int c :: 8 word)"

lemma wrap8_id [simp]: "0 \<le> c \<Longrightarrow> c < 128 \<Longrightarrow> wrap8 c = c"
  by (simp add: wrap8_def sint_uint unsigned_of_int take_bit_int_eq_self signed_take_bit_int_eq_self)

lemma wrap8_128: "wrap8 128 = - 128"
  by (simp add: wrap8_def)

lemma unwrap_build:
  assumes "build_thread_state st c blk = Some raw"
  shows "unwrap_thread_state raw = (Some st, wrap8 c, blk)"
proof -
  let ?s = "of_nat (state_num st) :: u32" and ?b = "if blk then 128 else 0 :: u32"
    and ?c = "word_of_int c :: 8 word"
  have raw: "raw = ?s OR ?b OR push_bit 8 (ucast ?c)" using assms by (simp add: build_thread_state_def split: if_splits)
  have t: "take_bit 7 (push_bit 8 x) = 0" for x :: u32 by (rule bit_word_eqI) (auto simp: bit_simps)
  have "take_bit 7 raw = take_bit 7 (?s OR ?b)" by (simp add: raw t)
  also have "\<dots> = ?s" by (cases st; cases blk) simp_all
  finally have "get_thread_state raw = Some st"
    by (cases st) (simp_all add: get_thread_state_def thread_states_def)
  moreover have "\<not> bit (push_bit 8 x) 7" for x :: u32 by (simp add: bit_simps)
  then have "get_thread_no_safepoints raw = bit (?s OR ?b) 7" by (simp add: get_thread_no_safepoints_def raw bit_or_iff)
  then have "get_thread_no_safepoints raw = blk" by (cases st; cases blk) simp_all
  moreover have "drop_bit 8 ?s OR drop_bit 8 ?b = 0" by (cases st; cases blk) simp_all
  then have "drop_bit 8 raw = drop_bit 8 (push_bit 8 (ucast ?c :: u32))"
    unfolding raw or.assoc [symmetric] drop_bit_or by (simp only: or.left_neutral)
  moreover have "ucast (drop_bit 8 (push_bit 8 (ucast ?c :: u32))) = ?c"
    by (rule bit_word_eqI) (auto simp: bit_simps)
  ultimately show ?thesis by (simp add: unwrap_thread_state_def get_thread_suspend_count_def wrap8_def)
qed

lemma build_total: "0 \<le> c \<Longrightarrow> c \<le> 255 \<Longrightarrow> \<exists>raw. build_thread_state st c blk = Some raw"
  by (simp add: build_thread_state_def THREAD_SUSPEND_COUNT_MAX_def)

end
