(* ===== verification/Mono_ThreadSuspend.thy ===== *)
theory Mono_ThreadSuspend
  imports Mono_ThreadState
begin

unbundle bit_operations_syntax

text \<open>
  Full cooperative suspension: what a thread does at safepoints and when it enters and leaves GC
  safe and GC unsafe regions (\<open>utils/mono-threads-coop.c\<close>), and what a suspend initiator does to it
  (\<open>utils/mono-threads.c\<close>), as steps over the word of the thread state machine. Initiators hold the
  suspend lock from the request to the end of the wait; several suspensions of one thread can be
  outstanding. The saved register state, the stack copy and the async targets are left out.
\<close>

section \<open>Configurations\<close>

text \<open>Where the thread is. The arguments say where it goes on.\<close>

datatype victim_pc =
    V_starting
  | V_unsafe
  | V_no_safepoints
  | V_poll victim_pc
  | V_poll_requested victim_pc
  | V_notify victim_pc
  | V_wait victim_pc
  | V_enter_safe
  | V_safe
  | V_exit_safe
  | V_enter_unsafe
  | V_detached

text \<open>\<open>cs_pending\<close> is an initiator waiting for the thread, \<open>cs_suspended\<close> the number of suspensions
  that have been granted and not yet resumed.\<close>

record coop_state =
  cs_word :: u32
  cs_pc :: victim_pc
  cs_resume_semaphore :: nat
  cs_suspend_semaphore :: nat
  cs_pending :: bool
  cs_suspended :: nat

section \<open>The thread\<close>

definition move :: "('r \<times> u32) option \<Rightarrow> ('r \<Rightarrow> victim_pc) \<Rightarrow> coop_state \<Rightarrow> coop_state option" where
  "move r pc c = map_option (\<lambda>(r, raw). c\<lparr>cs_word := raw, cs_pc := pc r\<rparr>) r"

definition mono_threads_state_poll :: "victim_pc \<Rightarrow> coop_state \<Rightarrow> coop_state option" where
  "mono_threads_state_poll k c =
    (if mono_thread_info_will_not_safepoint (cs_word c) then None
     else if mono_thread_info_current_state (cs_word c) \<noteq> Some STATE_ASYNC_SUSPEND_REQUESTED then Some (c\<lparr>cs_pc := k\<rparr>)
     else Some (c\<lparr>cs_pc := V_poll_requested k\<rparr>))"

definition state_poll_requested :: "victim_pc \<Rightarrow> coop_state \<Rightarrow> coop_state option" where
  "state_poll_requested k c =
    move (transition mono_threads_transition_state_poll (cs_word c))
      (\<lambda>r. case r of SelfSuspendResumed \<Rightarrow> k | SelfSuspendNotifyAndWait \<Rightarrow> V_notify k) c"

definition mono_threads_notify_initiator_of_suspend :: "victim_pc \<Rightarrow> coop_state \<Rightarrow> coop_state option" where
  "mono_threads_notify_initiator_of_suspend k c =
    Some (c\<lparr>cs_pc := V_wait k, cs_suspend_semaphore := cs_suspend_semaphore c + 1\<rparr>)"

text \<open>Blocks on the semaphore.\<close>

definition mono_thread_info_wait_for_resume :: "victim_pc \<Rightarrow> coop_state \<Rightarrow> coop_state option" where
  "mono_thread_info_wait_for_resume k c =
    (if cs_resume_semaphore c = 0 then Some c
     else Some (c\<lparr>cs_pc := k, cs_resume_semaphore := cs_resume_semaphore c - 1\<rparr>))"

definition check_info :: "coop_state \<Rightarrow> coop_state option" where
  "check_info c = (if mono_thread_info_is_live (cs_word c) then Some c else None)"

definition mono_threads_enter_gc_safe_region :: "coop_state \<Rightarrow> coop_state option" where
  "mono_threads_enter_gc_safe_region c =
    do {
      c \<leftarrow> check_info c;
      move (transition mono_threads_transition_do_blocking (cs_word c))
        (\<lambda>r. case r of DoBlockingContinue \<Rightarrow> V_safe | DoBlockingPollAndRetry \<Rightarrow> V_poll V_enter_safe) c }"

definition mono_threads_exit_gc_safe_region :: "coop_state \<Rightarrow> coop_state option" where
  "mono_threads_exit_gc_safe_region c =
    do {
      c \<leftarrow> check_info c;
      move (transition mono_threads_transition_done_blocking (cs_word c))
        (\<lambda>r. case r of DoneBlockingOk \<Rightarrow> V_unsafe | DoneBlockingWait \<Rightarrow> V_wait V_unsafe) c }"

definition mono_threads_enter_gc_unsafe_region :: "coop_state \<Rightarrow> coop_state option" where
  "mono_threads_enter_gc_unsafe_region c =
    do {
      c \<leftarrow> check_info c;
      move (transition mono_threads_transition_abort_blocking (cs_word c))
        (\<lambda>r. case r of
           AbortBlockingIgnore \<Rightarrow> V_unsafe
         | AbortBlockingIgnoreAndPoll \<Rightarrow> V_poll V_unsafe
         | AbortBlockingOk \<Rightarrow> V_unsafe
         | AbortBlockingWait \<Rightarrow> V_wait V_unsafe) c }"

text \<open>What the thread's code asks for next, where it has a choice.\<close>

datatype victim_choice =
    Go_poll
  | Go_enter_safe
  | Go_enter_unsafe
  | Go_exit_safe
  | Go_begin_no_safepoints
  | Go_end_no_safepoints
  | Go_detach

text \<open>A thread detaches while it holds the suspend lock, so no initiator is waiting then.\<close>

definition victim_choose :: "victim_choice \<Rightarrow> coop_state \<Rightarrow> coop_state option" where
  "victim_choose ch c =
    (case (cs_pc c, ch) of
       (V_unsafe, Go_poll) \<Rightarrow> Some (c\<lparr>cs_pc := V_poll V_unsafe\<rparr>)
     | (V_unsafe, Go_enter_safe) \<Rightarrow> Some (c\<lparr>cs_pc := V_enter_safe\<rparr>)
     | (V_unsafe, Go_enter_unsafe) \<Rightarrow> Some (c\<lparr>cs_pc := V_enter_unsafe\<rparr>)
     | (V_unsafe, Go_begin_no_safepoints) \<Rightarrow>
         move (transition mono_threads_transition_begin_no_safepoints (cs_word c)) (\<lambda>_. V_no_safepoints) c
     | (V_unsafe, Go_detach) \<Rightarrow>
         if cs_pending c then Some c
         else move (transition mono_threads_transition_detach (cs_word c)) (\<lambda>ok. if ok then V_detached else V_unsafe) c
     | (V_no_safepoints, Go_end_no_safepoints) \<Rightarrow>
         move (transition mono_threads_transition_end_no_safepoints (cs_word c)) (\<lambda>_. V_unsafe) c
     | (V_safe, Go_exit_safe) \<Rightarrow> Some (c\<lparr>cs_pc := V_exit_safe\<rparr>)
     | (V_safe, Go_enter_unsafe) \<Rightarrow> Some (c\<lparr>cs_pc := V_enter_unsafe\<rparr>)
     | _ \<Rightarrow> Some c)"

definition victim_step :: "victim_choice \<Rightarrow> coop_state \<Rightarrow> coop_state option" where
  "victim_step ch c =
    (case cs_pc c of
       V_starting \<Rightarrow> move (transition mono_threads_transition_attach (cs_word c)) (\<lambda>_. V_unsafe) c
     | V_poll k \<Rightarrow> mono_threads_state_poll k c
     | V_poll_requested k \<Rightarrow> state_poll_requested k c
     | V_notify k \<Rightarrow> mono_threads_notify_initiator_of_suspend k c
     | V_wait k \<Rightarrow> mono_thread_info_wait_for_resume k c
     | V_enter_safe \<Rightarrow> mono_threads_enter_gc_safe_region c
     | V_exit_safe \<Rightarrow> mono_threads_exit_gc_safe_region c
     | V_enter_unsafe \<Rightarrow> mono_threads_enter_gc_unsafe_region c
     | _ \<Rightarrow> victim_choose ch c)"

section \<open>Initiators\<close>

text \<open>\<open>suspend_sync\<close> up to the wait: a running thread is waited for, any other counts as suspended.\<close>

definition suspend_sync :: "coop_state \<Rightarrow> coop_state option" where
  "suspend_sync c =
    map_option
      (\<lambda>(r, raw).
        let c = c\<lparr>cs_word := raw\<rparr> in
        case r of
          ReqSuspendInitSuspendRunning \<Rightarrow> c\<lparr>cs_pending := True\<rparr>
        | ReqSuspendAlreadySuspended \<Rightarrow> c\<lparr>cs_suspended := cs_suspended c + 1\<rparr>
        | ReqSuspendAlreadySuspendedBlocking \<Rightarrow> c\<lparr>cs_suspended := cs_suspended c + 1\<rparr>
        | ReqSuspendInitSuspendBlocking \<Rightarrow> c\<lparr>cs_suspended := cs_suspended c + 1\<rparr>)
      (transition mono_threads_transition_request_suspension (cs_word c))"

text \<open>The wait has a limit, \<open>sleepAbortDuration\<close>: when it is over before the thread has posted, the
  program stops with an error. Whether it is over is the scheduler's choice.\<close>

definition mono_threads_wait_pending_operations :: "bool \<Rightarrow> coop_state \<Rightarrow> coop_state option" where
  "mono_threads_wait_pending_operations timed_out c =
    (if 0 < cs_suspend_semaphore c
     then Some (c\<lparr>cs_suspend_semaphore := cs_suspend_semaphore c - 1, cs_pending := False,
       cs_suspended := cs_suspended c + 1\<rparr>)
     else if timed_out then None else Some c)"

text \<open>Whether the thread was resumed. A resume by signal must not be asked for under this policy.\<close>

definition mono_thread_info_core_resume :: "coop_state \<Rightarrow> (bool \<times> coop_state) option" where
  "mono_thread_info_core_resume c =
    (case transition mono_threads_transition_request_resume (cs_word c) of
       None \<Rightarrow> None
     | Some (r, raw) \<Rightarrow>
         let c = c\<lparr>cs_word := raw\<rparr> in
         case r of
           ResumeError \<Rightarrow> Some (False, c)
         | ResumeOk \<Rightarrow> Some (True, c)
         | ResumeInitSelfResume \<Rightarrow> Some (True, c\<lparr>cs_resume_semaphore := cs_resume_semaphore c + 1\<rparr>)
         | ResumeInitAsyncResume \<Rightarrow> None
         | ResumeInitBlockingResume \<Rightarrow> Some (True, c\<lparr>cs_resume_semaphore := cs_resume_semaphore c + 1\<rparr>))"

text \<open>The resume that goes with a granted suspension: it has to succeed.\<close>

definition resume_granted :: "coop_state \<Rightarrow> coop_state option" where
  "resume_granted c =
    (case mono_thread_info_core_resume c of
       Some (True, c) \<Rightarrow> Some (c\<lparr>cs_suspended := cs_suspended c - 1\<rparr>)
     | _ \<Rightarrow> None)"

text \<open>What the initiator that holds the suspend lock does: ask for a suspension, resume one that was
  granted, or, while it waits, go on waiting until the limit is over. It finds the thread only while
  that is registered.\<close>

datatype initiator_choice = Go_suspend | Go_resume | Time_out

definition initiator_step :: "initiator_choice \<Rightarrow> coop_state \<Rightarrow> coop_state option" where
  "initiator_step ch c =
    (if cs_pending c then mono_threads_wait_pending_operations (ch = Time_out) c
     else if cs_pc c = V_starting \<or> cs_pc c = V_detached then Some c
     else case ch of
       Go_suspend \<Rightarrow> suspend_sync c
     | Go_resume \<Rightarrow> if 0 < cs_suspended c then resume_granted c else Some c
     | Time_out \<Rightarrow> Some c)"

definition coop_start :: "coop_state" where
  "coop_start = \<lparr>cs_word = 0, cs_pc = V_starting, cs_resume_semaphore = 0, cs_suspend_semaphore = 0,
    cs_pending = False, cs_suspended = 0\<rparr>"

inductive coop_reachable :: "coop_state \<Rightarrow> bool" where
  start: "coop_reachable coop_start"
| victim: "\<lbrakk>coop_reachable c; victim_step ch c = Some c'\<rbrakk> \<Longrightarrow> coop_reachable c'"
| initiator: "\<lbrakk>coop_reachable c; initiator_step ch c = Some c'\<rbrakk> \<Longrightarrow> coop_reachable c'"

section \<open>The invariant\<close>

definition mk_word :: "thread_state \<Rightarrow> int \<Rightarrow> bool \<Rightarrow> u32" where
  "mk_word st count blk = the (build_thread_state st count blk)"

lemma build_mk: "0 \<le> count \<Longrightarrow> count < 128 \<Longrightarrow> build_thread_state st count blk = Some (mk_word st count blk)"
  using build_total [of count st blk] by (auto simp: mk_word_def)

lemma unwrap_mk [simp]:
  "0 \<le> count \<Longrightarrow> count < 128 \<Longrightarrow> unwrap_thread_state (mk_word st count blk) = (Some st, count, blk)"
  using unwrap_build [OF build_mk [of count st blk]] by simp

lemma try_cas_mk [simp]:
  "0 \<le> count \<Longrightarrow> count < 128 \<Longrightarrow> try_cas st count blk r = Cas (mk_word st count blk) r"
  by (simp add: try_cas_def build_mk)

lemma unwrapD:
  "unwrap_thread_state raw = (st, count, blk) \<Longrightarrow>
    get_thread_state raw = st \<and> get_thread_suspend_count raw = count \<and> get_thread_no_safepoints raw = blk"
  by (simp add: unwrap_thread_state_def)

text \<open>The thread is on its way in GC unsafe mode, or waits for a resume.\<close>

definition poll_cont :: "victim_pc \<Rightarrow> bool" where
  "poll_cont k \<longleftrightarrow> k = V_unsafe \<or> k = V_enter_safe"

fun unsafe_pc :: "victim_pc \<Rightarrow> bool" where
  "unsafe_pc V_unsafe = True"
| "unsafe_pc V_no_safepoints = True"
| "unsafe_pc (V_poll k) = poll_cont k"
| "unsafe_pc (V_poll_requested k) = poll_cont k"
| "unsafe_pc V_enter_safe = True"
| "unsafe_pc V_enter_unsafe = True"
| "unsafe_pc _ = False"

definition blocking_pc :: "victim_pc \<Rightarrow> bool" where
  "blocking_pc pc \<longleftrightarrow> pc = V_safe \<or> pc = V_exit_safe \<or> pc = V_enter_unsafe"

definition going :: "victim_pc \<Rightarrow> nat \<Rightarrow> bool" where
  "going pc rs \<longleftrightarrow> unsafe_pc pc \<and> rs = 0 \<or> (\<exists>k. poll_cont k \<and> pc = V_wait k) \<and> rs = 1"

fun coop_ok :: "thread_state \<Rightarrow> int \<Rightarrow> bool \<Rightarrow> victim_pc \<Rightarrow> nat \<Rightarrow> nat \<Rightarrow> bool \<Rightarrow> nat \<Rightarrow> bool" where
  "coop_ok STATE_STARTING count blk pc rs ss pend n \<longleftrightarrow>
    count = 0 \<and> \<not> blk \<and> pc = V_starting \<and> rs = 0 \<and> ss = 0 \<and> \<not> pend \<and> n = 0"
| "coop_ok STATE_DETACHED count blk pc rs ss pend n \<longleftrightarrow>
    count = 0 \<and> \<not> blk \<and> pc = V_detached \<and> rs = 0 \<and> ss = 0 \<and> \<not> pend \<and> n = 0"
| "coop_ok STATE_RUNNING count blk pc rs ss pend n \<longleftrightarrow>
    count = 0 \<and> blk = (pc = V_no_safepoints) \<and> going pc rs \<and> ss = 0 \<and> \<not> pend \<and> n = 0"
| "coop_ok STATE_ASYNC_SUSPEND_REQUESTED count blk pc rs ss pend n \<longleftrightarrow>
    count = 1 \<and> blk = (pc = V_no_safepoints) \<and> going pc rs \<and> ss = 0 \<and> pend \<and> n = 0"
| "coop_ok STATE_SELF_SUSPENDED count blk pc rs ss pend n \<longleftrightarrow>
    \<not> blk \<and> rs = 0 \<and> (\<exists>k. poll_cont k \<and>
      (pc = V_notify k \<and> pend \<and> ss = 0 \<and> n = 0 \<and> count = 1 \<or>
       pc = V_wait k \<and> pend \<and> ss = 1 \<and> n = 0 \<and> count = 1 \<or>
       pc = V_wait k \<and> \<not> pend \<and> ss = 0 \<and> 0 < n \<and> n \<le> 127 \<and> count = int n))"
| "coop_ok STATE_BLOCKING count blk pc rs ss pend n \<longleftrightarrow>
    count = 0 \<and> \<not> blk \<and> blocking_pc pc \<and> rs = 0 \<and> ss = 0 \<and> \<not> pend \<and> n = 0"
| "coop_ok STATE_BLOCKING_SUSPEND_REQUESTED count blk pc rs ss pend n \<longleftrightarrow>
    count = int n \<and> 0 < n \<and> n \<le> 127 \<and> \<not> blk \<and> blocking_pc pc \<and> rs = 0 \<and> ss = 0 \<and> \<not> pend"
| "coop_ok STATE_BLOCKING_SELF_SUSPENDED count blk pc rs ss pend n \<longleftrightarrow>
    count = int n \<and> 0 < n \<and> n \<le> 127 \<and> \<not> blk \<and> pc = V_wait V_unsafe \<and> rs = 0 \<and> ss = 0 \<and> \<not> pend"
| "coop_ok _ count blk pc rs ss pend n \<longleftrightarrow> False"

definition coop_inv :: "coop_state \<Rightarrow> bool" where
  "coop_inv c \<longleftrightarrow> (\<exists>st count blk. unwrap_thread_state (cs_word c) = (Some st, count, blk) \<and>
    coop_ok st count blk (cs_pc c) (cs_resume_semaphore c) (cs_suspend_semaphore c) (cs_pending c) (cs_suspended c))"

lemma coop_invI:
  "unwrap_thread_state (cs_word c) = (Some st, count, blk) \<Longrightarrow>
    coop_ok st count blk (cs_pc c) (cs_resume_semaphore c) (cs_suspend_semaphore c) (cs_pending c) (cs_suspended c) \<Longrightarrow> coop_inv c"
  by (auto simp: coop_inv_def)

lemma inv_check: "coop_inv c \<Longrightarrow> check_thread_state (cs_word c)"
proof -
  assume "coop_inv c"
  then obtain st count blk where u: "unwrap_thread_state (cs_word c) = (Some st, count, blk)" and
    ok: "coop_ok st count blk (cs_pc c) (cs_resume_semaphore c) (cs_suspend_semaphore c) (cs_pending c) (cs_suspended c)"
    by (auto simp: coop_inv_def)
  then show ?thesis by (cases st) (auto simp: check_thread_state_def)
qed

named_theorems trans_defs

declare transition_def [trans_defs] move_def [trans_defs] check_thread_state_def [trans_defs]
  mono_threads_transition_attach_def [trans_defs] mono_threads_transition_detach_def [trans_defs] detach_running_def [trans_defs]
  mono_threads_transition_request_suspension_def [trans_defs] suspend_again_def [trans_defs]
  mono_threads_transition_state_poll_def [trans_defs] mono_threads_transition_request_resume_def [trans_defs]
  resume_suspended_def [trans_defs] mono_threads_transition_do_blocking_def [trans_defs]
  mono_threads_transition_done_blocking_def [trans_defs] mono_threads_transition_abort_blocking_def [trans_defs]
  mono_threads_transition_begin_no_safepoints_def [trans_defs] mono_threads_transition_end_no_safepoints_def [trans_defs]
  THREAD_SUSPEND_COUNT_MAX_def [trans_defs] Let_def [trans_defs]

named_theorems region_defs

declare mono_threads_state_poll_def [region_defs] state_poll_requested_def [region_defs]
  mono_threads_notify_initiator_of_suspend_def [region_defs] mono_thread_info_wait_for_resume_def [region_defs]
  check_info_def [region_defs] mono_threads_enter_gc_safe_region_def [region_defs]
  mono_threads_exit_gc_safe_region_def [region_defs] mono_threads_enter_gc_unsafe_region_def [region_defs]
  victim_choose_def [region_defs] victim_step_def [region_defs] mono_thread_info_will_not_safepoint_def [region_defs]
  mono_thread_info_current_state_def [region_defs] mono_thread_info_is_live_def [region_defs]

lemma victim_step_ok:
  assumes "coop_inv c"
  shows "\<exists>c'. victim_step ch c = Some c' \<and> coop_inv c'"
proof -
  obtain st count blk where u: "unwrap_thread_state (cs_word c) = (Some st, count, blk)" and
    ok: "coop_ok st count blk (cs_pc c) (cs_resume_semaphore c) (cs_suspend_semaphore c) (cs_pending c) (cs_suspended c)"
    using assms by (auto simp: coop_inv_def)
  note g = unwrapD [OF u]
  show ?thesis
  proof (cases st)
    case STATE_STARTING
    then show ?thesis using ok u g
      by (auto simp: region_defs trans_defs going_def intro!: coop_invI)
  next
    case STATE_DETACHED
    then show ?thesis using ok u g
      by (cases ch) (auto simp: region_defs intro!: coop_invI)
  next
    case STATE_RUNNING
    then show ?thesis using ok u g
      by (cases "cs_pc c"; cases ch) (auto simp: region_defs trans_defs going_def poll_cont_def blocking_pc_def intro!: coop_invI)
  next
    case STATE_BLOCKING
    then show ?thesis using ok u g
      by (cases "cs_pc c"; cases ch) (auto simp: region_defs trans_defs going_def poll_cont_def blocking_pc_def intro!: coop_invI)
  next
    case STATE_ASYNC_SUSPEND_REQUESTED
    then show ?thesis using ok u g
      by (cases "cs_pc c"; cases ch) (auto simp: region_defs trans_defs going_def poll_cont_def blocking_pc_def intro!: coop_invI)
  next
    case STATE_SELF_SUSPENDED
    then show ?thesis using ok u g
      by (cases "cs_pc c") (auto simp: region_defs intro!: coop_invI)
  next
    case STATE_BLOCKING_SUSPEND_REQUESTED
    then show ?thesis using ok u g
      by (cases "cs_pc c"; cases ch) (auto simp: region_defs trans_defs going_def poll_cont_def blocking_pc_def intro!: coop_invI)
  next
    case STATE_BLOCKING_SELF_SUSPENDED
    then show ?thesis using ok u g
      by (cases "cs_pc c") (auto simp: region_defs intro!: coop_invI)
  qed (use ok in simp_all)
qed

text \<open>The two ways an initiator can fail: the wait is over before the thread has posted, or the thread has
  as many suspensions outstanding as the count can hold.\<close>

definition initiator_fails :: "initiator_choice \<Rightarrow> coop_state \<Rightarrow> bool" where
  "initiator_fails ch c \<longleftrightarrow>
    (if cs_pending c then ch = Time_out \<and> cs_suspend_semaphore c = 0 else ch = Go_suspend \<and> cs_suspended c = 127)"

lemma wrap_128:
  assumes "build_thread_state st 128 blk = Some raw"
  shows "\<not> check_thread_state raw"
proof -
  have "unwrap_thread_state raw = (Some st, - 128, blk)" using unwrap_build [OF assms] by (simp add: wrap8_def)
  then show ?thesis by (cases st) (simp_all add: check_thread_state_def)
qed

lemma suspend_again_full: "transition (\<lambda>_. suspend_again st 127 False r) raw = None"
  using wrap_128 [of st False] build_total [of 128 st False]
  by (auto simp: suspend_again_def try_cas_def transition_def THREAD_SUSPEND_COUNT_MAX_def split: option.splits)

lemma initiator_step_ok:
  assumes "coop_inv c"
  shows "if initiator_fails ch c then initiator_step ch c = None else \<exists>c'. initiator_step ch c = Some c' \<and> coop_inv c'"
proof -
  obtain st count blk where u: "unwrap_thread_state (cs_word c) = (Some st, count, blk)" and
    ok: "coop_ok st count blk (cs_pc c) (cs_resume_semaphore c) (cs_suspend_semaphore c) (cs_pending c) (cs_suspended c)"
    using assms by (auto simp: coop_inv_def)
  note defs = initiator_step_def mono_threads_wait_pending_operations_def suspend_sync_def resume_granted_def mono_thread_info_core_resume_def
    initiator_fails_def
  show ?thesis
  proof (cases "initiator_fails ch c")
    case True
    then show ?thesis using ok u suspend_again_full [of st _ "cs_word c"]
      by (cases st) (auto simp: defs transition_def mono_threads_transition_request_suspension_def blocking_pc_def split: if_splits)
  next
    case False
    show ?thesis
    proof (cases st)
      case STATE_SELF_SUSPENDED
      then show ?thesis using ok u False
        by (cases ch) (auto simp: defs trans_defs going_def intro!: coop_invI split: if_splits)
    next
      case STATE_BLOCKING_SUSPEND_REQUESTED
      then show ?thesis using ok u False
        by (cases ch) (auto simp: defs trans_defs going_def blocking_pc_def intro!: coop_invI split: if_splits)
    next
      case STATE_BLOCKING_SELF_SUSPENDED
      then show ?thesis using ok u False
        by (cases ch) (auto simp: defs trans_defs going_def poll_cont_def intro!: coop_invI split: if_splits)
    qed (use ok u False in \<open>cases ch; auto simp: defs trans_defs going_def blocking_pc_def intro!: coop_invI\<close>)+
  qed
qed

lemma coop_reachable_inv: "coop_reachable c \<Longrightarrow> coop_inv c"
proof (induction rule: coop_reachable.induct)
  case start
  have "unwrap_thread_state 0 = (Some STATE_STARTING, 0, False)" by code_simp
  then show ?case by (auto simp: coop_start_def intro!: coop_invI)
next
  case (victim c ch c')
  then show ?case using victim_step_ok [of c ch] by auto
next
  case (initiator c ch c')
  then show ?case using initiator_step_ok [of c ch] by (auto split: if_splits)
qed

section \<open>Properties\<close>

text \<open>C29: Full cooperative suspension of one thread, in every interleaving of the thread's own steps
  (polls, entering and leaving GC safe and GC unsafe regions and no-safepoint sections, attach and
  detach) with the suspends and resumes of the initiators: the thread word passes the state machine's
  consistency check, and the thread's next step never reaches a fatal error or a failed assertion. An
  initiator's next step does so in exactly two cases: its wait runs out of time before the thread has
  posted, and then the thread has not reached the notification yet; or it asks for a suspension of a
  thread that has 127 outstanding, although the limit the code tests is 255.\<close>

theorem cooperative_suspension_never_fails:
  assumes "coop_reachable c"
  shows "check_thread_state (cs_word c) \<and> (\<exists>c'. victim_step vch c = Some c') \<and>
    (initiator_step ich c = None \<longleftrightarrow>
      ich = Time_out \<and> cs_pending c \<and> cs_suspend_semaphore c = 0 \<or>
      ich = Go_suspend \<and> \<not> cs_pending c \<and> cs_suspended c = 127) \<and>
    (cs_pending c \<and> cs_suspend_semaphore c = 0 \<longrightarrow>
      mono_thread_info_current_state (cs_word c) = Some STATE_ASYNC_SUSPEND_REQUESTED \<or> (\<exists>k. cs_pc c = V_notify k))"
proof -
  have inv: "coop_inv c" by (rule coop_reachable_inv [OF assms])
  then obtain st count blk where u: "unwrap_thread_state (cs_word c) = (Some st, count, blk)" and
    ok: "coop_ok st count blk (cs_pc c) (cs_resume_semaphore c) (cs_suspend_semaphore c) (cs_pending c) (cs_suspended c)"
    by (auto simp: coop_inv_def)
  have "cs_pending c \<and> cs_suspend_semaphore c = 0 \<longrightarrow>
      mono_thread_info_current_state (cs_word c) = Some STATE_ASYNC_SUSPEND_REQUESTED \<or> (\<exists>k. cs_pc c = V_notify k)"
    using ok unwrapD [OF u] by (cases st) (auto simp: mono_thread_info_current_state_def)
  moreover have "initiator_step ich c = None \<longleftrightarrow> initiator_fails ich c"
    using initiator_step_ok [OF inv, of ich] by (auto split: if_splits)
  ultimately show ?thesis using victim_step_ok [OF inv, of vch] inv_check [OF inv] by (auto simp: initiator_fails_def)
qed

text \<open>A thread in a GC safe region is suspended.\<close>

lemma blocking_steps:
  "victim_step Go_poll coop_start = Some (coop_start\<lparr>cs_word := 2, cs_pc := V_unsafe\<rparr>)"
  "victim_step Go_enter_safe (coop_start\<lparr>cs_word := 2, cs_pc := V_unsafe\<rparr>) = Some (coop_start\<lparr>cs_word := 2, cs_pc := V_enter_safe\<rparr>)"
  "victim_step Go_poll (coop_start\<lparr>cs_word := 2, cs_pc := V_enter_safe\<rparr>) = Some (coop_start\<lparr>cs_word := 6, cs_pc := V_safe\<rparr>)"
  "initiator_step Go_suspend (coop_start\<lparr>cs_word := 6, cs_pc := V_safe\<rparr>) =
    Some (coop_start\<lparr>cs_word := 265, cs_pc := V_safe, cs_suspended := 1\<rparr>)"
  by code_simp+

lemma blocking_suspended_reachable: "coop_reachable (coop_start\<lparr>cs_word := 265, cs_pc := V_safe, cs_suspended := 1\<rparr>)"
  by (rule coop_reachable.initiator [OF coop_reachable.victim [OF coop_reachable.victim [OF coop_reachable.victim
        [OF coop_reachable.start blocking_steps(1)] blocking_steps(2)] blocking_steps(3)] blocking_steps(4)])

theorem cooperative_suspension_witness:
  "(\<exists>c'. victim_step Go_exit_safe (coop_start\<lparr>cs_word := 265, cs_pc := V_safe, cs_suspended := 1\<rparr>) = Some c') \<and>
    (\<exists>c'. initiator_step Go_suspend (coop_start\<lparr>cs_word := 265, cs_pc := V_safe, cs_suspended := 1\<rparr>) = Some c')"
  using cooperative_suspension_never_fails [OF blocking_suspended_reachable, of Go_exit_safe Go_suspend] by (auto simp: coop_start_def)

definition out_of_managed_code :: "victim_pc \<Rightarrow> bool" where
  "out_of_managed_code pc \<longleftrightarrow> pc = V_safe \<or> pc = V_exit_safe \<or> pc = V_enter_unsafe \<or> (\<exists>k. pc = V_wait k)"

text \<open>C30: A suspended thread stays out of managed code: as long as suspensions that were granted are outstanding, the thread
  is in a GC safe region or waits, it is not in GC unsafe mode, its suspend count is the number of the
  outstanding suspensions, no initiator is left waiting, and no step of its own gets it out.\<close>

theorem suspended_thread_stays_out:
  assumes "coop_reachable c" "0 < cs_suspended c"
  shows "out_of_managed_code (cs_pc c) \<and> \<not> mono_thread_is_gc_unsafe_mode (Some (cs_word c)) \<and>
    mono_thread_info_suspend_count (cs_word c) = int (cs_suspended c) \<and> \<not> cs_pending c \<and>
    (\<exists>c'. victim_step ch c = Some c' \<and> cs_suspended c' = cs_suspended c \<and> out_of_managed_code (cs_pc c'))"
proof -
  have *: "out_of_managed_code (cs_pc c) \<and> \<not> mono_thread_is_gc_unsafe_mode (Some (cs_word c)) \<and>
      mono_thread_info_suspend_count (cs_word c) = int (cs_suspended c) \<and> \<not> cs_pending c"
    if inv: "coop_inv c" and n: "0 < cs_suspended c" for c
  proof -
    obtain st count blk where u: "unwrap_thread_state (cs_word c) = (Some st, count, blk)" and
      ok: "coop_ok st count blk (cs_pc c) (cs_resume_semaphore c) (cs_suspend_semaphore c) (cs_pending c) (cs_suspended c)"
      using inv by (auto simp: coop_inv_def)
    show ?thesis using ok n unwrapD [OF u]
      by (cases st) (auto simp: out_of_managed_code_def blocking_pc_def mono_thread_is_gc_unsafe_mode_def
          mono_thread_info_current_state_def mono_thread_info_suspend_count_def)
  qed
  have inv: "coop_inv c" by (rule coop_reachable_inv [OF assms(1)])
  obtain c' where c': "victim_step ch c = Some c'" "coop_inv c'" using victim_step_ok [OF inv] by blast
  have "cs_suspended c' = cs_suspended c"
    using c'(1) by (auto simp: region_defs move_def split: victim_pc.splits victim_choice.splits if_splits option.splits bind_splits)
  then show ?thesis using * [OF inv assms(2)] * [OF c'(2)] c'(1) assms(2) by auto
qed

theorem suspended_thread_witness:
  "out_of_managed_code V_safe \<and>
    (\<exists>c'. victim_step Go_enter_unsafe (coop_start\<lparr>cs_word := 265, cs_pc := V_safe, cs_suspended := 1\<rparr>) = Some c' \<and>
      cs_suspended c' = 1)"
  using suspended_thread_stays_out [OF blocking_suspended_reachable, of Go_enter_unsafe] by (auto simp: out_of_managed_code_def)

text \<open>C31: The fields packed in a thread word by \<open>build_thread_state\<close> are read back by \<open>unwrap_thread_state\<close> exactly
  when the suspend count is below 128: the count may be as large as \<open>THREAD_SUSPEND_COUNT_MAX\<close> (255), but
  it is read as a signed 8-bit field.\<close>

theorem thread_word_roundtrip:
  assumes "build_thread_state st count blk = Some raw"
  shows "unwrap_thread_state raw = (Some st, count, blk) \<longleftrightarrow> count < 128"
proof -
  have c: "0 \<le> count" "count \<le> 255" using assms by (auto simp: build_thread_state_def THREAD_SUSPEND_COUNT_MAX_def split: if_splits)
  have "wrap8 count < 128" using sint_lt [of "word_of_int count :: 8 word"] by (simp add: wrap8_def)
  then have "wrap8 count = count \<longleftrightarrow> count < 128" using wrap8_id [OF c(1)] by auto
  then show ?thesis using unwrap_build [OF assms] by simp
qed

theorem thread_word_witness:
  "(\<exists>raw. build_thread_state STATE_SELF_SUSPENDED 127 False = Some raw \<and>
      unwrap_thread_state raw = (Some STATE_SELF_SUSPENDED, 127, False)) \<and>
    (\<exists>raw. build_thread_state STATE_SELF_SUSPENDED 128 False = Some raw \<and>
      unwrap_thread_state raw \<noteq> (Some STATE_SELF_SUSPENDED, 128, False))"
  using build_total [of 127 STATE_SELF_SUSPENDED False] build_total [of 128 STATE_SELF_SUSPENDED False]
    thread_word_roundtrip [of STATE_SELF_SUSPENDED 127 False] thread_word_roundtrip [of STATE_SELF_SUSPENDED 128 False] by auto

text \<open>C32: Aborting the suspend request of a thread in a GC safe region makes it fail. The thread enters the region, a suspend
  is requested and then aborted; the abort leaves the word in the running state, on which the
  thread's return from the region is a fatal error.\<close>

theorem abort_async_suspend_breaks_blocking:
  assumes "unwrap_thread_state raw = (Some STATE_RUNNING, 0, False)"
  shows "\<exists>raw1 raw2 raw3.
    transition mono_threads_transition_do_blocking raw = Some (DoBlockingContinue, raw1) \<and>
    transition mono_threads_transition_request_suspension raw1 = Some (ReqSuspendInitSuspendBlocking, raw2) \<and>
    transition mono_threads_transition_abort_async_suspend raw2 = Some (True, raw3) \<and>
    transition mono_threads_transition_done_blocking raw3 = None"
  using assms by (simp add: trans_defs mono_threads_transition_abort_async_suspend_def abort_requested_def)

theorem abort_async_suspend_witness:
  "transition mono_threads_transition_do_blocking 2 = Some (DoBlockingContinue, 6) \<and>
    transition mono_threads_transition_done_blocking 6 = Some (DoneBlockingOk, 2) \<and>
    (\<exists>raw2 raw3. transition mono_threads_transition_request_suspension 6 = Some (ReqSuspendInitSuspendBlocking, raw2) \<and>
      transition mono_threads_transition_abort_async_suspend raw2 = Some (True, raw3) \<and>
      transition mono_threads_transition_done_blocking raw3 = None)"
proof -
  have "unwrap_thread_state 2 = (Some STATE_RUNNING, 0, False)"
    "transition mono_threads_transition_do_blocking 2 = Some (DoBlockingContinue, 6)"
    "transition mono_threads_transition_done_blocking 6 = Some (DoneBlockingOk, 2)" by code_simp+
  then show ?thesis using abort_async_suspend_breaks_blocking [of 2] by auto
qed

end
