(* ===== verification/Mono_ConcHashtable.thy ===== *)
theory Mono_ConcHashtable
  imports Eglib_HashTable
begin

unbundle bit_operations_syntax

text \<open>
  The mostly concurrent hash table, \<open>utils/mono-conc-hashtable.c\<close>, as its writer runs it under the
  external lock: linear open addressing with tombstones. Keys and values are addresses; the equality
  function is optional, as in the code. Calls of the destroy functions are returned as events. A loop
  that finds no slot to stop at does not return: \<open>None\<close>, like a failed assertion. A retired table is
  freed by the hazard pointers. Theory \<open>Mono_ConcReaders\<close> has the readers that run beside the writer.
\<close>

section \<open>Tables\<close>

definition INITIAL_SIZE :: nat where
  "INITIAL_SIZE = 32"

definition TOMBSTONE :: u64 where
  "TOMBSTONE = - 1"

record key_value_pair =
  kv_key :: u64
  kv_value :: u64

record conc_table =
  ct_size :: nat
  ct_kvs :: "key_value_pair list"

record MonoConcurrentHashTable =
  ch_table :: conc_table
  ch_hash_func :: "u64 \<Rightarrow> u32"
  ch_equal_func :: "(u64 \<Rightarrow> u64 \<Rightarrow> bool) option"
  ch_element_count :: int
  ch_tombstone_count :: int
  ch_overflow_count :: int
  ch_key_destroy_func :: bool
  ch_value_destroy_func :: bool

definition conc_table_new :: "nat \<Rightarrow> conc_table" where
  "conc_table_new n = \<lparr>ct_size = n, ct_kvs = replicate n \<lparr>kv_key = 0, kv_value = 0\<rparr>\<rparr>"

text \<open>\<open>(int)(size * LOAD_FACTOR)\<close>, exact because sizes are powers of two.\<close>

definition load_limit :: "nat \<Rightarrow> int" where
  "load_limit n = int (3 * n div 4)"

definition mix_hash :: "u32 \<Rightarrow> u32" where
  "mix_hash hash = signed_drop_bit 16 (hash * 215497) XOR (hash * 1823231 + hash)"

definition start_slot :: "nat \<Rightarrow> u32 \<Rightarrow> nat" where
  "start_slot n hash = unat (mix_hash hash AND of_nat (n - 1))"

definition next_slot :: "nat \<Rightarrow> nat \<Rightarrow> nat" where
  "next_slot n i = (i + 1) AND (n - 1)"

text \<open>All loops over slots go on from a slot to the next one until a condition on the slot holds.\<close>

partial_function (option) probe ::
    "conc_table \<Rightarrow> (key_value_pair \<Rightarrow> bool) \<Rightarrow> nat \<Rightarrow> (nat \<times> key_value_pair) option" where
  "probe table stop i =
    (if length (ct_kvs table) \<le> i then None
     else if stop (ct_kvs table ! i) then Some (i, ct_kvs table ! i)
     else probe table stop (next_slot (ct_size table) i))"

declare probe.simps [code]

definition set_kv :: "nat \<Rightarrow> key_value_pair \<Rightarrow> conc_table \<Rightarrow> conc_table" where
  "set_kv i kv table = table\<lparr>ct_kvs := (ct_kvs table)[i := kv]\<rparr>"

definition live_kv :: "key_value_pair \<Rightarrow> bool" where
  "live_kv kv \<longleftrightarrow> kv_key kv \<noteq> 0 \<and> kv_key kv \<noteq> TOMBSTONE"

section \<open>Growing\<close>

definition insert_one_local :: "(u64 \<Rightarrow> u32) \<Rightarrow> u64 \<Rightarrow> u64 \<Rightarrow> conc_table \<Rightarrow> conc_table option" where
  "insert_one_local hash_func key v table =
    do {
      (i, _) \<leftarrow> probe table (\<lambda>kv. kv_key kv = 0) (start_slot (ct_size table) (hash_func key));
      Some (set_kv i \<lparr>kv_key = key, kv_value = v\<rparr> table) }"

fun insert_all_local :: "(u64 \<Rightarrow> u32) \<Rightarrow> key_value_pair list \<Rightarrow> conc_table \<Rightarrow> conc_table option" where
  "insert_all_local hash_func [] table = Some table"
| "insert_all_local hash_func (kv # kvs) table =
    do {
      table \<leftarrow> (if live_kv kv then insert_one_local hash_func (kv_key kv) (kv_value kv) table else Some table);
      insert_all_local hash_func kvs table }"

definition rehash_table :: "nat \<Rightarrow> MonoConcurrentHashTable \<Rightarrow> MonoConcurrentHashTable option" where
  "rehash_table multiplier hash_table =
    (let old_table = ch_table hash_table in
     do {
       new_table \<leftarrow> insert_all_local (ch_hash_func hash_table) (ct_kvs old_table)
         (conc_table_new (ct_size old_table * multiplier));
       Some (hash_table\<lparr>ch_table := new_table, ch_overflow_count := load_limit (ct_size new_table),
         ch_element_count := ch_element_count hash_table - ch_tombstone_count hash_table, ch_tombstone_count := 0\<rparr>) })"

definition check_table_size :: "MonoConcurrentHashTable \<Rightarrow> MonoConcurrentHashTable option" where
  "check_table_size hash_table =
    (if ch_element_count hash_table \<ge> ch_overflow_count hash_table then
       if ch_tombstone_count hash_table > ch_element_count hash_table div 2 then rehash_table 1 hash_table
       else rehash_table 2 hash_table
     else Some hash_table)"

section \<open>Operations\<close>

definition mono_conc_hashtable_new :: "(u64 \<Rightarrow> u32) option \<Rightarrow> (u64 \<Rightarrow> u64 \<Rightarrow> bool) option \<Rightarrow> MonoConcurrentHashTable" where
  "mono_conc_hashtable_new hash_func key_equal_func =
    \<lparr>ch_table = conc_table_new INITIAL_SIZE,
      ch_hash_func = (case hash_func of Some h \<Rightarrow> h | None \<Rightarrow> g_direct_hash), ch_equal_func = key_equal_func,
      ch_element_count = 0, ch_tombstone_count = 0, ch_overflow_count = load_limit INITIAL_SIZE,
      ch_key_destroy_func = False, ch_value_destroy_func = False\<rparr>"

definition mono_conc_hashtable_new_full ::
    "(u64 \<Rightarrow> u32) option \<Rightarrow> (u64 \<Rightarrow> u64 \<Rightarrow> bool) option \<Rightarrow> bool \<Rightarrow> bool \<Rightarrow> MonoConcurrentHashTable" where
  "mono_conc_hashtable_new_full hash_func key_equal_func key_destroy_func value_destroy_func =
    (mono_conc_hashtable_new hash_func key_equal_func)
      \<lparr>ch_key_destroy_func := key_destroy_func, ch_value_destroy_func := value_destroy_func\<rparr>"

definition destroy_calls :: "MonoConcurrentHashTable \<Rightarrow> u64 \<Rightarrow> u64 \<Rightarrow> (u64, u64) destroy_call list" where
  "destroy_calls hash_table key v =
    (if ch_key_destroy_func hash_table then [Destroy_Key key] else []) @
    (if ch_value_destroy_func hash_table then [Destroy_Value v] else [])"

definition mono_conc_hashtable_destroy :: "MonoConcurrentHashTable \<Rightarrow> (u64, u64) destroy_call list" where
  "mono_conc_hashtable_destroy hash_table =
    concat (map (\<lambda>kv. destroy_calls hash_table (kv_key kv) (kv_value kv)) (filter live_kv (ct_kvs (ch_table hash_table))))"

text \<open>The match of a lookup and of a removal.\<close>

definition key_match :: "MonoConcurrentHashTable \<Rightarrow> u64 \<Rightarrow> key_value_pair \<Rightarrow> bool" where
  "key_match hash_table key kv =
    (case ch_equal_func hash_table of
       None \<Rightarrow> key = kv_key kv
     | Some equal \<Rightarrow> kv_key kv \<noteq> TOMBSTONE \<and> equal key (kv_key kv))"

definition key_slot :: "MonoConcurrentHashTable \<Rightarrow> u64 \<Rightarrow> nat" where
  "key_slot hash_table key = start_slot (ct_size (ch_table hash_table)) (ch_hash_func hash_table key)"

partial_function (option) mono_conc_hashtable_lookup :: "MonoConcurrentHashTable \<Rightarrow> u64 \<Rightarrow> u64 option" where
  "mono_conc_hashtable_lookup hash_table key =
    do {
      (i, kv) \<leftarrow> probe (ch_table hash_table) (\<lambda>kv. kv_key kv = 0 \<or> key_match hash_table key kv) (key_slot hash_table key);
      if kv_key kv = 0 then Some 0
      else if ch_equal_func hash_table \<noteq> None \<and> kv_value kv = 0 then mono_conc_hashtable_lookup hash_table key
      else Some (kv_value kv) }"

declare mono_conc_hashtable_lookup.simps [code]

definition mono_conc_hashtable_remove ::
    "u64 \<Rightarrow> MonoConcurrentHashTable \<Rightarrow> (u64 \<times> (u64, u64) destroy_call list \<times> MonoConcurrentHashTable) option" where
  "mono_conc_hashtable_remove key hash_table =
    (if key = 0 \<or> key = TOMBSTONE then None
     else do {
       (i, kv) \<leftarrow> probe (ch_table hash_table) (\<lambda>kv. kv_key kv = 0 \<or> key_match hash_table key kv) (key_slot hash_table key);
       if kv_key kv = 0 then Some (0, [], hash_table)
       else
         let old_key = (case ch_equal_func hash_table of None \<Rightarrow> key | Some _ \<Rightarrow> kv_key kv) in
         do {
           ht \<leftarrow> check_table_size (hash_table\<lparr>ch_table := set_kv i \<lparr>kv_key = TOMBSTONE, kv_value = 0\<rparr> (ch_table hash_table),
             ch_tombstone_count := ch_tombstone_count hash_table + 1\<rparr>);
           Some (kv_value kv, destroy_calls hash_table old_key (kv_value kv), ht) } })"

definition mono_conc_hashtable_insert :: "u64 \<Rightarrow> u64 \<Rightarrow> MonoConcurrentHashTable \<Rightarrow> (u64 \<times> MonoConcurrentHashTable) option" where
  "mono_conc_hashtable_insert key v hash_table =
    (if key = 0 \<or> key = TOMBSTONE \<or> v = 0 then None
     else do {
       ht \<leftarrow> check_table_size hash_table;
       (i, kv) \<leftarrow> probe (ch_table ht)
         (\<lambda>kv. kv_key kv = 0 \<or> kv_key kv = TOMBSTONE \<or>
           (case ch_equal_func ht of None \<Rightarrow> key = kv_key kv | Some equal \<Rightarrow> equal key (kv_key kv))) (key_slot ht key);
       if kv_key kv = 0 \<or> kv_key kv = TOMBSTONE then
         let ht = ht\<lparr>ch_table := set_kv i \<lparr>kv_key = key, kv_value = v\<rparr> (ch_table ht)\<rparr> in
         Some (0, if kv_key kv = TOMBSTONE then ht\<lparr>ch_tombstone_count := ch_tombstone_count ht - 1\<rparr>
           else ht\<lparr>ch_element_count := ch_element_count ht + 1\<rparr>)
       else Some (kv_value kv, ht) })"

text \<open>The calls of the function that is handed to \<open>foreach\<close>.\<close>

definition mono_conc_hashtable_foreach :: "MonoConcurrentHashTable \<Rightarrow> (u64 \<times> u64) list" where
  "mono_conc_hashtable_foreach hash_table =
    map (\<lambda>kv. (kv_key kv, kv_value kv)) (filter live_kv (ct_kvs (ch_table hash_table)))"

definition mono_conc_hashtable_foreach_steal ::
    "(u64 \<Rightarrow> u64 \<Rightarrow> bool) \<Rightarrow> MonoConcurrentHashTable \<Rightarrow> MonoConcurrentHashTable option" where
  "mono_conc_hashtable_foreach_steal func hash_table =
    (let steal = (\<lambda>kv. live_kv kv \<and> func (kv_key kv) (kv_value kv)); kvs = ct_kvs (ch_table hash_table) in
     check_table_size (hash_table\<lparr>
       ch_table := (ch_table hash_table)\<lparr>ct_kvs := map (\<lambda>kv. if steal kv then \<lparr>kv_key = TOMBSTONE, kv_value = 0\<rparr> else kv) kvs\<rparr>,
       ch_tombstone_count := ch_tombstone_count hash_table + int (length (filter steal kvs))\<rparr>))"

section \<open>Walking the slots\<close>

definition power_size :: "conc_table \<Rightarrow> bool" where
  "power_size t \<longleftrightarrow> (\<exists>e. ct_size t = 2 ^ e) \<and> length (ct_kvs t) = ct_size t"

text \<open>The key of the \<open>j\<close>-th slot from \<open>s\<close> on.\<close>

definition walk :: "conc_table \<Rightarrow> nat \<Rightarrow> nat \<Rightarrow> nat" where
  "walk t s j = (s + j) mod ct_size t"

lemma and_mask_nat: "n AND (2 ^ e - 1 :: nat) = n mod 2 ^ e"
  by (metis mask_eq_exp_minus_1 take_bit_eq_mask take_bit_eq_mod)

lemma next_slot_mod: "power_size t \<Longrightarrow> next_slot (ct_size t) i = Suc i mod ct_size t"
  using and_mask_nat [of "Suc i"] by (auto simp: power_size_def next_slot_def)

lemma start_slot_mod: "power_size t \<Longrightarrow> start_slot (ct_size t) hash = unat (mix_hash hash) mod ct_size t"
proof -
  assume "power_size t"
  then obtain e where e: "ct_size t = 2 ^ e" by (auto simp: power_size_def)
  have "(of_nat (2 ^ e - 1) :: u32) = mask e"
    by (simp add: mask_eq_exp_minus_1 of_nat_diff)
  then have "start_slot (ct_size t) hash = unat (take_bit e (mix_hash hash))"
    by (simp add: start_slot_def e take_bit_eq_mask)
  then show ?thesis by (simp add: e unat_take_bit_mod)
qed

lemma power_size_pos: "power_size t \<Longrightarrow> 0 < ct_size t"
  by (auto simp: power_size_def)

lemma walk_less: "power_size t \<Longrightarrow> walk t s j < length (ct_kvs t)"
  using power_size_pos by (auto simp: walk_def power_size_def)

lemma walk_0: "s < ct_size t \<Longrightarrow> walk t s 0 = s"
  by (simp add: walk_def)

lemma walk_Suc: "walk t (Suc s mod ct_size t) j = walk t s (Suc j)"
  by (simp add: walk_def mod_add_left_eq)

lemma probe_walk:
  assumes t: "power_size t"
  shows "s < ct_size t \<Longrightarrow> stop (ct_kvs t ! walk t s j) \<Longrightarrow> \<forall>j'<j. \<not> stop (ct_kvs t ! walk t s j') \<Longrightarrow>
    probe t stop s = Some (walk t s j, ct_kvs t ! walk t s j)"
proof (induction j arbitrary: s)
  case 0
  then show ?case using t by (subst probe.simps) (simp add: walk_0 power_size_def)
next
  case (Suc j)
  have "\<not> stop (ct_kvs t ! s)" using Suc.prems(1,3) walk_0 [of s t] by auto
  then have p: "probe t stop s = probe t stop (Suc s mod ct_size t)"
    using Suc.prems(1) t by (subst probe.simps) (simp add: next_slot_mod power_size_def)
  have "Suc s mod ct_size t < ct_size t" using power_size_pos [OF t] by simp
  moreover have "\<forall>j'<j. \<not> stop (ct_kvs t ! walk t (Suc s mod ct_size t) j')" using Suc.prems(3) by (auto simp: walk_Suc)
  ultimately show ?case using Suc.IH [of "Suc s mod ct_size t"] Suc.prems(2) by (simp add: p walk_Suc)
qed

lemma walk_reaches:
  assumes "power_size t" "s < ct_size t" "i < ct_size t"
  shows "\<exists>j<ct_size t. walk t s j = i"
proof (cases "s \<le> i")
  case True
  then show ?thesis using assms(3) by (intro exI [of _ "i - s"]) (simp add: walk_def)
next
  case False
  then have "s + (ct_size t - s + i) = i + ct_size t" using assms(2) by simp
  then show ?thesis using False assms(2,3) by (intro exI [of _ "ct_size t - s + i"]) (simp add: walk_def)
qed

lemma walk_inj:
  assumes "walk t s j = walk t s k" "j < ct_size t" "k < ct_size t"
  shows "j = k"
proof -
  have "(s + j) mod ct_size t = (s + k) mod ct_size t" using assms(1) by (simp add: walk_def)
  then have "int (s + j) mod int (ct_size t) = int (s + k) mod int (ct_size t)" by (metis zmod_int)
  then have "int (ct_size t) dvd int j - int k" by (simp add: mod_eq_dvd_iff)
  then show ?thesis using assms(2,3) dvd_imp_le_int [of "int j - int k" "int (ct_size t)"] by (cases "j = k") linarith+
qed

lemma probe_first:
  assumes t: "power_size t" and s: "s < ct_size t" and i: "i < ct_size t" "stop (ct_kvs t ! i)"
  obtains j where "j < ct_size t" "probe t stop s = Some (walk t s j, ct_kvs t ! walk t s j)"
    "stop (ct_kvs t ! walk t s j)" "\<And>j'. j' < j \<Longrightarrow> \<not> stop (ct_kvs t ! walk t s j')"
proof -
  obtain m where m: "m < ct_size t" "walk t s m = i" using walk_reaches [OF t s i(1)] by blast
  define j where "j = (LEAST j. stop (ct_kvs t ! walk t s j))"
  have "stop (ct_kvs t ! walk t s m)" using m(2) i(2) by simp
  then have j: "stop (ct_kvs t ! walk t s j)" "j \<le> m" unfolding j_def by (auto intro: LeastI Least_le)
  have less: "\<not> stop (ct_kvs t ! walk t s j')" if "j' < j" for j' using not_less_Least that unfolding j_def by blast
  show thesis using that [of j] j m(1) less probe_walk [OF t s, of stop j] by (meson order.strict_trans1)
qed

section \<open>What a table holds\<close>

definition dead_kv :: key_value_pair where
  "dead_kv = \<lparr>kv_key = TOMBSTONE, kv_value = 0\<rparr>"

text \<open>
  A live entry is reached from the start slot of its key without meeting an empty slot; no two live
  entries have equal keys; the value of a live entry is not null.
\<close>

definition conc_table_ok :: "(u64 \<Rightarrow> u32) \<Rightarrow> (u64 \<Rightarrow> u64 \<Rightarrow> bool) \<Rightarrow> conc_table \<Rightarrow> bool" where
  "conc_table_ok h eq t \<longleftrightarrow> power_size t \<and>
    (\<forall>i<ct_size t. live_kv (ct_kvs t ! i) \<longrightarrow> kv_value (ct_kvs t ! i) \<noteq> 0 \<and>
      (\<forall>j<ct_size t. walk t (start_slot (ct_size t) (h (kv_key (ct_kvs t ! i)))) j = i \<longrightarrow>
        (\<forall>j'<j. kv_key (ct_kvs t ! walk t (start_slot (ct_size t) (h (kv_key (ct_kvs t ! i)))) j') \<noteq> 0))) \<and>
    (\<forall>i<ct_size t. \<forall>j<ct_size t. live_kv (ct_kvs t ! i) \<longrightarrow> live_kv (ct_kvs t ! j) \<longrightarrow>
      eq (kv_key (ct_kvs t ! i)) (kv_key (ct_kvs t ! j)) \<longrightarrow> i = j)"

lemma conc_table_okD:
  assumes "conc_table_ok h eq t"
  shows "power_size t" "i < ct_size t \<Longrightarrow> live_kv (ct_kvs t ! i) \<Longrightarrow> kv_value (ct_kvs t ! i) \<noteq> 0"
    "i < ct_size t \<Longrightarrow> live_kv (ct_kvs t ! i) \<Longrightarrow> j < ct_size t \<Longrightarrow>
      walk t (start_slot (ct_size t) (h (kv_key (ct_kvs t ! i)))) j = i \<Longrightarrow> j' < j \<Longrightarrow>
      kv_key (ct_kvs t ! walk t (start_slot (ct_size t) (h (kv_key (ct_kvs t ! i)))) j') \<noteq> 0"
    "i < ct_size t \<Longrightarrow> j < ct_size t \<Longrightarrow> live_kv (ct_kvs t ! i) \<Longrightarrow> live_kv (ct_kvs t ! j) \<Longrightarrow>
      eq (kv_key (ct_kvs t ! i)) (kv_key (ct_kvs t ! j)) \<Longrightarrow> i = j"
  using assms unfolding conc_table_ok_def by blast+

lemma start_slot_less: "power_size t \<Longrightarrow> start_slot (ct_size t) hash < ct_size t"
  using power_size_pos by (simp add: start_slot_mod)

text \<open>The map a table stands for.\<close>

definition table_get :: "(u64 \<Rightarrow> u64 \<Rightarrow> bool) \<Rightarrow> conc_table \<Rightarrow> u64 \<Rightarrow> u64 option" where
  "table_get eq t k = map_option kv_value (find (\<lambda>kv. live_kv kv \<and> eq k (kv_key kv)) (ct_kvs t))"

lemma table_get_None: "power_size t \<Longrightarrow>
    table_get eq t k = None \<longleftrightarrow> (\<forall>i<ct_size t. live_kv (ct_kvs t ! i) \<longrightarrow> \<not> eq k (kv_key (ct_kvs t ! i)))"
  by (auto simp: table_get_def find_None_iff power_size_def in_set_conv_nth)

lemma set_kv_simps [simp]: "ct_size (set_kv i kv t) = ct_size t" "power_size (set_kv i kv t) = power_size t"
    "walk (set_kv i kv t) s j = walk t s j" "ct_kvs (set_kv i kv t) = (ct_kvs t)[i := kv]"
  by (simp_all add: set_kv_def power_size_def walk_def)

lemma set_kv_ex:
  assumes "i < ct_size t" "length (ct_kvs t) = ct_size t"
  shows "(\<exists>m<ct_size t. P (ct_kvs (set_kv i kv t) ! m)) \<longleftrightarrow> P kv \<or> (\<exists>m<ct_size t. m \<noteq> i \<and> P (ct_kvs t ! m))"
  using assms by (auto simp: nth_list_update)

lemma option_ext: "(\<And>u. x = Some u \<longleftrightarrow> y = Some u) \<Longrightarrow> x = y"
  by (cases x; cases y) auto

text \<open>Hash keys that are addresses.\<close>

locale address_key = hash_key h eq for h :: "u64 \<Rightarrow> u32" and eq :: "u64 \<Rightarrow> u64 \<Rightarrow> bool"
begin

lemma table_get_Some:
  assumes "conc_table_ok h eq t"
  shows "table_get eq t k = Some v \<longleftrightarrow>
    (\<exists>i<ct_size t. live_kv (ct_kvs t ! i) \<and> eq k (kv_key (ct_kvs t ! i)) \<and> kv_value (ct_kvs t ! i) = v)"
proof
  assume "table_get eq t k = Some v"
  then show "\<exists>i<ct_size t. live_kv (ct_kvs t ! i) \<and> eq k (kv_key (ct_kvs t ! i)) \<and> kv_value (ct_kvs t ! i) = v"
    using conc_table_okD(1) [OF assms] by (auto simp: table_get_def find_Some_iff power_size_def)
next
  assume "\<exists>i<ct_size t. live_kv (ct_kvs t ! i) \<and> eq k (kv_key (ct_kvs t ! i)) \<and> kv_value (ct_kvs t ! i) = v"
  then obtain i where i: "i < ct_size t" "live_kv (ct_kvs t ! i)" "eq k (kv_key (ct_kvs t ! i))" "kv_value (ct_kvs t ! i) = v" by blast
  then obtain w where w: "table_get eq t k = Some w" using table_get_None [OF conc_table_okD(1) [OF assms], of eq k] by (cases "table_get eq t k") auto
  then obtain j where j: "j < ct_size t" "live_kv (ct_kvs t ! j)" "eq k (kv_key (ct_kvs t ! j))" "kv_value (ct_kvs t ! j) = w"
    using conc_table_okD(1) [OF assms] by (auto simp: table_get_def find_Some_iff power_size_def)
  have "eq (kv_key (ct_kvs t ! i)) (kv_key (ct_kvs t ! j))" using i(3) j(3) eq_sym eq_trans by blast
  then have "i = j" using conc_table_okD(4) [OF assms] i j by blast
  then show "table_get eq t k = Some v" using w i(4) j(4) by simp
qed

text \<open>A walk for a key that stops at an empty slot or at a match.\<close>

lemma conc_walk_get:
  assumes t: "conc_table_ok h eq t" and j: "j < ct_size t"
    and before: "\<And>j'. j' < j \<Longrightarrow> kv_key (ct_kvs t ! walk t (start_slot (ct_size t) (h k)) j') \<noteq> 0 \<and>
      \<not> (live_kv (ct_kvs t ! walk t (start_slot (ct_size t) (h k)) j') \<and> eq k (kv_key (ct_kvs t ! walk t (start_slot (ct_size t) (h k)) j')))"
    and null: "kv_key (ct_kvs t ! walk t (start_slot (ct_size t) (h k)) j) = 0"
  shows "table_get eq t k = None"
  unfolding table_get_None [OF conc_table_okD(1) [OF t]]
proof (intro allI impI notI)
  fix i assume i: "i < ct_size t" "live_kv (ct_kvs t ! i)" "eq k (kv_key (ct_kvs t ! i))"
  note p = conc_table_okD(1) [OF t]
  have h: "h k = h (kv_key (ct_kvs t ! i))" by (rule hash_eq [OF i(3)])
  obtain m where m: "m < ct_size t" "walk t (start_slot (ct_size t) (h k)) m = i"
    using walk_reaches [OF p start_slot_less [OF p] i(1)] by blast
  consider "m < j" | "m = j" | "j < m" by linarith
  then show False
  proof cases
    case 1
    then show False using before [OF 1] i m(2) by simp
  next
    case 2
    then show False using null m(2) i(2) by (simp add: live_kv_def)
  next
    case 3
    then show False using conc_table_okD(3) [OF t i(1,2) m(1) _ 3] m(2) null unfolding h by simp
  qed
qed

text \<open>Writing a new entry into a slot that is not live, at the end of a walk for its key.\<close>

lemma conc_fill_ok:
  assumes t: "conc_table_ok h eq t" and j: "j < ct_size t"
    and before: "\<And>j'. j' < j \<Longrightarrow> kv_key (ct_kvs t ! walk t (start_slot (ct_size t) (h k)) j') \<noteq> 0"
  defines "i \<equiv> walk t (start_slot (ct_size t) (h k)) j"
  assumes free: "\<not> live_kv (ct_kvs t ! i)" and k: "k \<noteq> 0" "k \<noteq> TOMBSTONE" "v \<noteq> 0" and absent: "table_get eq t k = None"
  shows "conc_table_ok h eq (set_kv i \<lparr>kv_key = k, kv_value = v\<rparr> t)"
    "table_get eq (set_kv i \<lparr>kv_key = k, kv_value = v\<rparr> t) l = (if eq l k then Some v else table_get eq t l)"
proof -
  note p = conc_table_okD(1) [OF t]
  have len: "length (ct_kvs t) = ct_size t" using p by (simp add: power_size_def)
  have i: "i < ct_size t" using walk_less [OF p] len by (simp add: i_def)
  let ?t = "set_kv i \<lparr>kv_key = k, kv_value = v\<rparr> t"
  have at: "ct_kvs ?t ! m = (if m = i then \<lparr>kv_key = k, kv_value = v\<rparr> else ct_kvs t ! m)" if "m < ct_size t" for m
    using that i len by simp
  have w: "walk t s m < ct_size t" for s m using walk_less [OF p] len by simp
  have none: "\<not> eq k (kv_key (ct_kvs t ! m))" if "m < ct_size t" "live_kv (ct_kvs t ! m)" for m
    using absent that unfolding table_get_None [OF p] by blast
  have live: "live_kv \<lparr>kv_key = k, kv_value = v\<rparr>" using k by (simp add: live_kv_def)
  have vals: "kv_value (ct_kvs ?t ! m) \<noteq> 0" if "m < ct_size t" "live_kv (ct_kvs ?t ! m)" for m
    using that conc_table_okD(2) [OF t, of m] k(3) unfolding at [OF that(1)] by (auto split: if_splits)
  have reach: "kv_key (ct_kvs ?t ! walk t (start_slot (ct_size t) (h (kv_key (ct_kvs ?t ! m)))) j') \<noteq> 0"
    if m: "m < ct_size t" "live_kv (ct_kvs ?t ! m)" "n < ct_size t"
      "walk t (start_slot (ct_size t) (h (kv_key (ct_kvs ?t ! m)))) n = m" "j' < n" for m n j'
  proof (cases "m = i")
    case True
    then have "walk t (start_slot (ct_size t) (h k)) n = walk t (start_slot (ct_size t) (h k)) j"
      using m(4) unfolding at [OF m(1)] by (simp add: i_def)
    then have "n = j" using walk_inj j m(3) by blast
    then have "kv_key (ct_kvs t ! walk t (start_slot (ct_size t) (h k)) j') \<noteq> 0" using before m(5) by simp
    then show ?thesis using True k(1) w unfolding at [OF m(1)] at [OF w] by simp
  next
    case False
    then have "live_kv (ct_kvs t ! m)" "walk t (start_slot (ct_size t) (h (kv_key (ct_kvs t ! m)))) n = m"
      using m(2,4) unfolding at [OF m(1)] by simp_all
    from conc_table_okD(3) [OF t m(1) this(1) m(3) this(2) m(5)] show ?thesis
      using False k(1) unfolding at [OF m(1)] at [OF w] by simp
  qed
  have uniq: "m = n" if "m < ct_size t" "n < ct_size t" "live_kv (ct_kvs ?t ! m)" "live_kv (ct_kvs ?t ! n)"
      "eq (kv_key (ct_kvs ?t ! m)) (kv_key (ct_kvs ?t ! n))" for m n
  proof -
    note at = at [OF that(1)] at [OF that(2)]
    consider "m = i" "n = i" | "m = i" "n \<noteq> i" | "m \<noteq> i" "n = i" | "m \<noteq> i" "n \<noteq> i" by blast
    then show "m = n"
    proof cases
      case 2
      then show ?thesis using that(4,5) none [OF that(2)] unfolding at by simp
    next
      case 3
      then show ?thesis using that(3,5) none [OF that(1)] eq_sym unfolding at by auto
    next
      case 4
      then show ?thesis using that(3-5) conc_table_okD(4) [OF t that(1,2)] unfolding at by simp
    qed simp
  qed
  show ok: "conc_table_ok h eq ?t" unfolding conc_table_ok_def set_kv_simps(1-3)
    using p vals reach uniq by blast
  show "table_get eq ?t l = (if eq l k then Some v else table_get eq t l)"
  proof (rule option_ext)
    fix u
    let ?P = "\<lambda>kv. live_kv kv \<and> eq l (kv_key kv) \<and> kv_value kv = u"
    have "table_get eq ?t l = Some u \<longleftrightarrow> (\<exists>m<ct_size t. ?P (ct_kvs ?t ! m))"
      unfolding table_get_Some [OF ok] set_kv_simps(1) ..
    also have "\<dots> \<longleftrightarrow> ?P \<lparr>kv_key = k, kv_value = v\<rparr> \<or> (\<exists>m<ct_size t. m \<noteq> i \<and> ?P (ct_kvs t ! m))"
      by (rule set_kv_ex [OF i len])
    also have "\<dots> \<longleftrightarrow> (eq l k \<and> v = u) \<or> table_get eq t l = Some u"
      unfolding table_get_Some [OF t] using free live by auto
    also have "\<dots> \<longleftrightarrow> (if eq l k then Some v else table_get eq t l) = Some u"
    proof (cases "eq l k")
      case True
      then have "table_get eq t l \<noteq> Some u" unfolding table_get_Some [OF t] using none eq_sym eq_trans by blast
      then show ?thesis using True by auto
    qed auto
    finally show "table_get eq ?t l = Some u \<longleftrightarrow> (if eq l k then Some v else table_get eq t l) = Some u" .
  qed
qed

text \<open>Turning entries into tombstones.\<close>

lemma conc_bury_ok:
  assumes t: "conc_table_ok h eq t" and t': "power_size t'" "ct_size t' = ct_size t"
    and at: "\<And>m. m < ct_size t \<Longrightarrow> ct_kvs t' ! m = (if m \<in> D then dead_kv else ct_kvs t ! m)"
  shows "conc_table_ok h eq t'"
proof -
  note p = conc_table_okD(1) [OF t]
  have w: "walk t s m < ct_size t" for s m using walk_less [OF p] p by (simp add: power_size_def)
  have walk: "walk t' s m = walk t s m" for s m by (simp add: walk_def t'(2))
  have dead: "\<not> live_kv dead_kv" "kv_key dead_kv \<noteq> 0" by (simp_all add: live_kv_def dead_kv_def TOMBSTONE_def)
  have same: "live_kv (ct_kvs t ! m) \<and> ct_kvs t' ! m = ct_kvs t ! m" if "m < ct_size t" "live_kv (ct_kvs t' ! m)" for m
    using that dead(1) unfolding at [OF that(1)] by (auto split: if_splits)
  have vals: "kv_value (ct_kvs t' ! m) \<noteq> 0" if "m < ct_size t" "live_kv (ct_kvs t' ! m)" for m
    using same [OF that] conc_table_okD(2) [OF t that(1)] by simp
  have reach: "kv_key (ct_kvs t' ! walk t (start_slot (ct_size t) (h (kv_key (ct_kvs t' ! m)))) j') \<noteq> 0"
    if m: "m < ct_size t" "live_kv (ct_kvs t' ! m)" "n < ct_size t"
      "walk t (start_slot (ct_size t) (h (kv_key (ct_kvs t' ! m)))) n = m" "j' < n" for m n j'
  proof -
    have e: "ct_kvs t' ! m = ct_kvs t ! m" "live_kv (ct_kvs t ! m)" using same [OF m(1,2)] by blast+
    from conc_table_okD(3) [OF t m(1) e(2) m(3) m(4) [unfolded e(1)] m(5)] show ?thesis
      using dead(2) unfolding e(1) at [OF w] by simp
  qed
  have uniq: "m = n" if "m < ct_size t" "n < ct_size t" "live_kv (ct_kvs t' ! m)" "live_kv (ct_kvs t' ! n)"
      "eq (kv_key (ct_kvs t' ! m)) (kv_key (ct_kvs t' ! n))" for m n
    using same [OF that(1,3)] same [OF that(2,4)] conc_table_okD(4) [OF t that(1,2)] that(5) by simp
  show ?thesis unfolding conc_table_ok_def t'(2) walk using t'(1) vals reach uniq by blast
qed

lemma conc_kill_ok:
  assumes t: "conc_table_ok h eq t" and i: "i < ct_size t" "live_kv (ct_kvs t ! i)" "eq k (kv_key (ct_kvs t ! i))"
  shows "conc_table_ok h eq (set_kv i dead_kv t)"
    "table_get eq (set_kv i dead_kv t) l = (if eq l k then None else table_get eq t l)"
proof -
  note p = conc_table_okD(1) [OF t]
  have len: "length (ct_kvs t) = ct_size t" using p by (simp add: power_size_def)
  let ?t = "set_kv i dead_kv t"
  show ok: "conc_table_ok h eq ?t" by (rule conc_bury_ok [OF t, where D = "{i}"]) (use p i(1) len in simp_all)
  have dead: "\<not> live_kv dead_kv" by (simp add: live_kv_def dead_kv_def)
  show "table_get eq ?t l = (if eq l k then None else table_get eq t l)"
  proof (rule option_ext)
    fix u
    let ?P = "\<lambda>kv. live_kv kv \<and> eq l (kv_key kv) \<and> kv_value kv = u"
    have "table_get eq ?t l = Some u \<longleftrightarrow> (\<exists>m<ct_size t. ?P (ct_kvs ?t ! m))"
      unfolding table_get_Some [OF ok] set_kv_simps(1) ..
    also have "\<dots> \<longleftrightarrow> ?P dead_kv \<or> (\<exists>m<ct_size t. m \<noteq> i \<and> ?P (ct_kvs t ! m))" by (rule set_kv_ex [OF i(1) len])
    also have "\<dots> \<longleftrightarrow> (if eq l k then None else table_get eq t l) = Some u"
    proof (cases "eq l k")
      case True
      have "m = i" if "m < ct_size t" "?P (ct_kvs t ! m)" for m
      proof (rule conc_table_okD(4) [OF t that(1) i(1) _ i(2)])
        show "live_kv (ct_kvs t ! m)" using that(2) by blast
        show "eq (kv_key (ct_kvs t ! m)) (kv_key (ct_kvs t ! i))"
          using that(2) True i(3) eq_sym eq_trans by blast
      qed
      then show ?thesis using True dead by auto
    next
      case False
      have no: "\<not> ?P (ct_kvs t ! i)" using False i(3) eq_sym eq_trans by blast
      have "table_get eq t l = Some u \<longleftrightarrow> (\<exists>m<ct_size t. m \<noteq> i \<and> ?P (ct_kvs t ! m))"
        unfolding table_get_Some [OF t] using no by blast
      then show ?thesis using False dead by simp
    qed
    finally show "table_get eq ?t l = Some u \<longleftrightarrow> (if eq l k then None else table_get eq t l) = Some u" .
  qed
qed

section \<open>Counting and growing\<close>

end

definition used_slots :: "conc_table \<Rightarrow> nat" where
  "used_slots t = length (filter (\<lambda>kv. kv_key kv \<noteq> 0) (ct_kvs t))"

definition dead_slots :: "conc_table \<Rightarrow> nat" where
  "dead_slots t = length (filter (\<lambda>kv. kv_key kv = TOMBSTONE) (ct_kvs t))"

lemma count_update:
  "i < length xs \<Longrightarrow> int (length (filter P (xs[i := x]))) =
    int (length (filter P xs)) - (if P (xs ! i) then 1 else 0) + (if P x then 1 else 0)"
proof (induction xs arbitrary: i)
  case (Cons a xs)
  show ?case
  proof (cases i)
    case (Suc m)
    then show ?thesis using Cons.IH [of m] Cons.prems by (simp split: if_splits)
  qed simp
qed simp

lemma live_count: "int (length (filter live_kv kvs)) =
    int (length (filter (\<lambda>kv. kv_key kv \<noteq> 0) kvs)) - int (length (filter (\<lambda>kv. kv_key kv = TOMBSTONE) kvs))"
  by (induction kvs) (auto simp: live_kv_def TOMBSTONE_def)

lemma empty_slot:
  assumes "power_size t" "used_slots t < ct_size t"
  obtains i where "i < ct_size t" "kv_key (ct_kvs t ! i) = 0"
proof -
  have "filter (\<lambda>kv. kv_key kv \<noteq> 0) (ct_kvs t) \<noteq> ct_kvs t"
  proof
    assume "filter (\<lambda>kv. kv_key kv \<noteq> 0) (ct_kvs t) = ct_kvs t"
    then show False using assms by (simp add: used_slots_def power_size_def)
  qed
  then have "\<not> (\<forall>kv\<in>set (ct_kvs t). kv_key kv \<noteq> 0)" using filter_True by blast
  then obtain i where "i < length (ct_kvs t)" "kv_key (ct_kvs t ! i) = 0" by (auto simp: in_set_conv_nth)
  then show thesis using that assms(1) by (simp add: power_size_def)
qed

lemma new_table_get: "table_get eq (conc_table_new n) k = None"
  by (auto simp: table_get_def conc_table_new_def find_None_iff live_kv_def)

lemma new_table_ok: "conc_table_ok h eq (conc_table_new (2 ^ e))" "used_slots (conc_table_new n) = 0"
    "dead_slots (conc_table_new n) = 0" "ct_size (conc_table_new n) = n"
  by (simp_all add: conc_table_ok_def conc_table_new_def power_size_def live_kv_def used_slots_def dead_slots_def TOMBSTONE_def)

context address_key
begin

lemma insert_one_local_ok:
  assumes t: "conc_table_ok h eq t" and room: "used_slots t < ct_size t" and k: "k \<noteq> 0" "k \<noteq> TOMBSTONE" "v \<noteq> 0"
    and absent: "table_get eq t k = None"
  shows "\<exists>t'. insert_one_local h k v t = Some t' \<and> conc_table_ok h eq t' \<and> ct_size t' = ct_size t \<and>
    used_slots t' = used_slots t + 1 \<and> dead_slots t' = dead_slots t \<and>
    (\<forall>l. table_get eq t' l = (if eq l k then Some v else table_get eq t l))"
proof -
  note p = conc_table_okD(1) [OF t]
  let ?s = "start_slot (ct_size t) (h k)"
  obtain e where e: "e < ct_size t" "kv_key (ct_kvs t ! e) = 0" using empty_slot [OF p room] .
  obtain j where j: "j < ct_size t"
    "probe t (\<lambda>kv. kv_key kv = 0) ?s = Some (walk t ?s j, ct_kvs t ! walk t ?s j)" "kv_key (ct_kvs t ! walk t ?s j) = 0"
    "\<And>j'. j' < j \<Longrightarrow> kv_key (ct_kvs t ! walk t ?s j') \<noteq> 0"
    using probe_first [where stop = "\<lambda>kv. kv_key kv = 0", OF p start_slot_less [OF p] e] by blast
  let ?t = "set_kv (walk t ?s j) \<lparr>kv_key = k, kv_value = v\<rparr> t"
  have free: "\<not> live_kv (ct_kvs t ! walk t ?s j)" using j(3) by (simp add: live_kv_def)
  note f = conc_fill_ok [OF t j(1,4) free k absent]
  note c = count_update [OF walk_less [OF p], of _ ?s j "\<lparr>kv_key = k, kv_value = v\<rparr>"]
  have "used_slots ?t = used_slots t + 1" "dead_slots ?t = dead_slots t"
    using c [of "\<lambda>kv. kv_key kv \<noteq> 0"] c [of "\<lambda>kv. kv_key kv = TOMBSTONE"] j(3) k
    by (simp_all add: used_slots_def dead_slots_def TOMBSTONE_def)
  then show ?thesis using j(2) f by (intro exI [of _ ?t]) (simp add: insert_one_local_def)
qed

lemma insert_all_local_ok:
  "conc_table_ok h eq t \<Longrightarrow> used_slots t + length (filter live_kv kvs) \<le> ct_size t \<Longrightarrow>
    (\<And>kv. kv \<in> set kvs \<Longrightarrow> live_kv kv \<Longrightarrow> kv_value kv \<noteq> 0 \<and> table_get eq t (kv_key kv) = None) \<Longrightarrow>
    sorted_wrt (\<lambda>a b. live_kv a \<longrightarrow> live_kv b \<longrightarrow> \<not> eq (kv_key a) (kv_key b)) kvs \<Longrightarrow>
    \<exists>t'. insert_all_local h kvs t = Some t' \<and> conc_table_ok h eq t' \<and> ct_size t' = ct_size t \<and>
      used_slots t' = used_slots t + length (filter live_kv kvs) \<and> dead_slots t' = dead_slots t \<and>
      (\<forall>l. table_get eq t' l = (case find (\<lambda>kv. live_kv kv \<and> eq l (kv_key kv)) kvs of
        Some kv \<Rightarrow> Some (kv_value kv) | None \<Rightarrow> table_get eq t l))"
proof (induction kvs arbitrary: t)
  case (Cons kv kvs)
  show ?case
  proof (cases "live_kv kv")
    case False
    then show ?thesis using Cons.IH [OF Cons.prems(1)] Cons.prems(2-4) by simp
  next
    case True
    have k: "kv_key kv \<noteq> 0" "kv_key kv \<noteq> TOMBSTONE" "kv_value kv \<noteq> 0" "table_get eq t (kv_key kv) = None"
      using True Cons.prems(3) [of kv] by (simp_all add: live_kv_def)
    have "used_slots t < ct_size t" using Cons.prems(2) True by simp
    from insert_one_local_ok [OF Cons.prems(1) this k] obtain t1 where 1:
      "insert_one_local h (kv_key kv) (kv_value kv) t = Some t1" "conc_table_ok h eq t1" "ct_size t1 = ct_size t"
      "used_slots t1 = used_slots t + 1" "dead_slots t1 = dead_slots t"
      "\<And>l. table_get eq t1 l = (if eq l (kv_key kv) then Some (kv_value kv) else table_get eq t l)" by blast
    have "kv_value b \<noteq> 0 \<and> table_get eq t1 (kv_key b) = None" if "b \<in> set kvs" "live_kv b" for b
      using that Cons.prems(3) [of b] Cons.prems(4) True eq_sym by (auto simp: 1(6))
    moreover have "used_slots t1 + length (filter live_kv kvs) \<le> ct_size t1" using Cons.prems(2) True 1(3,4) by simp
    moreover have "sorted_wrt (\<lambda>a b. live_kv a \<longrightarrow> live_kv b \<longrightarrow> \<not> eq (kv_key a) (kv_key b)) kvs" using Cons.prems(4) by simp
    ultimately obtain t' where 2: "insert_all_local h kvs t1 = Some t'" "conc_table_ok h eq t'" "ct_size t' = ct_size t1"
      "used_slots t' = used_slots t1 + length (filter live_kv kvs)" "dead_slots t' = dead_slots t1"
      "\<And>l. table_get eq t' l = (case find (\<lambda>kv. live_kv kv \<and> eq l (kv_key kv)) kvs of
        Some kv \<Rightarrow> Some (kv_value kv) | None \<Rightarrow> table_get eq t1 l)"
      using Cons.IH [OF 1(2)] by blast
    have get: "table_get eq t' l = (case find (\<lambda>kv. live_kv kv \<and> eq l (kv_key kv)) (kv # kvs) of
        Some kv \<Rightarrow> Some (kv_value kv) | None \<Rightarrow> table_get eq t l)" for l
    proof (cases "eq l (kv_key kv)")
      case eq: True
      have "find (\<lambda>kv. live_kv kv \<and> eq l (kv_key kv)) kvs = None"
        unfolding find_None_iff
      proof
        assume "\<exists>b. b \<in> set kvs \<and> live_kv b \<and> eq l (kv_key b)"
        then obtain b where b: "b \<in> set kvs" "live_kv b" "eq l (kv_key b)" by blast
        then have "\<not> eq (kv_key kv) (kv_key b)" using Cons.prems(4) True by simp
        then show False using eq_trans [OF eq_sym [OF eq] b(3)] by simp
      qed
      then show ?thesis using True eq 1(6) 2(6) by simp
    next
      case False
      then have "table_get eq t1 l = table_get eq t l" using 1(6) by simp
      then show ?thesis using False 2(6) [of l] by (simp split: option.split)
    qed
    have "insert_all_local h (kv # kvs) t = Some t'" using True 1(1) 2(1) by simp
    then show ?thesis using 1(3-5) 2(2-5) get True by simp
  qed
qed simp

text \<open>Rehashing keeps the map and leaves no tombstones.\<close>

lemma conc_rehash_ok:
  assumes t: "conc_table_ok h eq t" and size: "ct_size t \<le> n" "n = 2 ^ e"
  shows "\<exists>t'. insert_all_local h (ct_kvs t) (conc_table_new n) = Some t' \<and> conc_table_ok h eq t' \<and> ct_size t' = n \<and>
    int (used_slots t') = int (used_slots t) - int (dead_slots t) \<and> dead_slots t' = 0 \<and> (\<forall>l. table_get eq t' l = table_get eq t l)"
proof -
  have len: "length (ct_kvs t) = ct_size t" using conc_table_okD(1) [OF t] by (simp add: power_size_def)
  have srt: "sorted_wrt (\<lambda>a b. live_kv a \<longrightarrow> live_kv b \<longrightarrow> \<not> eq (kv_key a) (kv_key b)) (ct_kvs t)"
    unfolding sorted_wrt_iff_nth_less using conc_table_okD(4) [OF t] len by (metis less_irrefl order.strict_trans)
  have room: "used_slots (conc_table_new n) + length (filter live_kv (ct_kvs t)) \<le> ct_size (conc_table_new n)"
    using length_filter_le [of live_kv "ct_kvs t"] len size(1) by (simp add: new_table_ok(2,4))
  have vals: "kv_value kv \<noteq> 0 \<and> table_get eq (conc_table_new n) (kv_key kv) = None" if "kv \<in> set (ct_kvs t)" "live_kv kv" for kv
    using that conc_table_okD(2) [OF t] len by (auto simp: new_table_get in_set_conv_nth)
  have new: "conc_table_ok h eq (conc_table_new n)" unfolding size(2) by (rule new_table_ok(1))
  from insert_all_local_ok [OF new room vals srt] obtain t' where 1: "insert_all_local h (ct_kvs t) (conc_table_new n) = Some t'" "conc_table_ok h eq t'" "ct_size t' = n"
    "used_slots t' = length (filter live_kv (ct_kvs t))" "dead_slots t' = 0"
    "\<And>l. table_get eq t' l = (case find (\<lambda>kv. live_kv kv \<and> eq l (kv_key kv)) (ct_kvs t) of
      Some kv \<Rightarrow> Some (kv_value kv) | None \<Rightarrow> None)"
    unfolding new_table_ok(2-4) new_table_get add_0 by blast
  moreover have "table_get eq t' l = table_get eq t l" for l unfolding 1(6) by (simp add: table_get_def split: option.split)
  ultimately show ?thesis using live_count [of "ct_kvs t"] by (auto simp: used_slots_def dead_slots_def)
qed

end

section \<open>The table as a map\<close>

definition key_eq :: "MonoConcurrentHashTable \<Rightarrow> u64 \<Rightarrow> u64 \<Rightarrow> bool" where
  "key_eq ht = (case ch_equal_func ht of None \<Rightarrow> (=) | Some equal \<Rightarrow> equal)"

definition conc_get :: "MonoConcurrentHashTable \<Rightarrow> u64 \<Rightarrow> u64 option" where
  "conc_get ht = table_get (key_eq ht) (ch_table ht)"

text \<open>The hash function respects equality, the counters are right, and an empty slot is left.\<close>

definition conc_ok :: "MonoConcurrentHashTable \<Rightarrow> bool" where
  "conc_ok ht \<longleftrightarrow> address_key (ch_hash_func ht) (key_eq ht) \<and> conc_table_ok (ch_hash_func ht) (key_eq ht) (ch_table ht) \<and>
    2 \<le> ct_size (ch_table ht) \<and> ch_element_count ht = int (used_slots (ch_table ht)) \<and>
    ch_tombstone_count ht = int (dead_slots (ch_table ht)) \<and> ch_overflow_count ht = load_limit (ct_size (ch_table ht)) \<and>
    ch_element_count ht \<le> ch_overflow_count ht"

lemma conc_okD:
  assumes "conc_ok ht"
  shows "address_key (ch_hash_func ht) (key_eq ht)" "conc_table_ok (ch_hash_func ht) (key_eq ht) (ch_table ht)"
    "power_size (ch_table ht)" "used_slots (ch_table ht) < ct_size (ch_table ht)"
    "key_slot ht k < ct_size (ch_table ht)"
proof -
  show t: "conc_table_ok (ch_hash_func ht) (key_eq ht) (ch_table ht)" "address_key (ch_hash_func ht) (key_eq ht)"
    using assms by (simp_all add: conc_ok_def)
  show "power_size (ch_table ht)" by (rule conc_table_okD(1) [OF t(1)])
  then show "key_slot ht k < ct_size (ch_table ht)" unfolding key_slot_def by (rule start_slot_less)
  show "used_slots (ch_table ht) < ct_size (ch_table ht)" using assms by (auto simp: conc_ok_def load_limit_def)
qed

text \<open>The writer's check before an insertion and after a removal.\<close>

lemma rehash_table_ok:
  assumes ok: "conc_ok ht" and m: "m = 1 \<or> m = 2"
    and fits: "ch_element_count ht - ch_tombstone_count ht < load_limit (ct_size (ch_table ht) * m)"
  shows "\<exists>ht'. rehash_table m ht = Some ht' \<and> conc_ok ht' \<and> conc_get ht' = conc_get ht \<and>
    ch_hash_func ht' = ch_hash_func ht \<and> key_eq ht' = key_eq ht \<and> ch_equal_func ht' = ch_equal_func ht \<and>
    ch_element_count ht' < ch_overflow_count ht'"
proof -
  let ?t = "ch_table ht"
  note d = conc_okD [OF ok]
  obtain e where "ct_size ?t = 2 ^ e" using d(3) by (auto simp: power_size_def)
  then have "\<exists>e'. ct_size ?t * m = 2 ^ e'" using m by (metis mult.right_neutral power_Suc2)
  then obtain e' where e': "ct_size ?t * m = 2 ^ e'" by blast
  have "ct_size ?t \<le> ct_size ?t * m" using m by auto
  from address_key.conc_rehash_ok [OF d(1,2) this e'] obtain t' where
    1: "insert_all_local (ch_hash_func ht) (ct_kvs ?t) (conc_table_new (ct_size ?t * m)) = Some t'"
      "conc_table_ok (ch_hash_func ht) (key_eq ht) t'" "ct_size t' = ct_size ?t * m"
      "int (used_slots t') = int (used_slots ?t) - int (dead_slots ?t)" "dead_slots t' = 0"
      "\<And>l. table_get (key_eq ht) t' l = table_get (key_eq ht) ?t l" by blast
  let ?ht = "ht\<lparr>ch_table := t', ch_overflow_count := load_limit (ct_size t'),
         ch_element_count := ch_element_count ht - ch_tombstone_count ht, ch_tombstone_count := 0\<rparr>"
  have run: "rehash_table m ht = Some ?ht" using 1(1) by (simp add: rehash_table_def Let_def)
  have k: "key_eq ?ht = key_eq ht" by (simp add: key_eq_def)
  have lt: "ch_element_count ?ht < ch_overflow_count ?ht" using fits 1(3) by simp
  have "2 \<le> ct_size t'" using ok m 1(3) by (auto simp: conc_ok_def)
  then have "conc_ok ?ht" using ok d(1) 1(2,4,5) lt unfolding conc_ok_def k by simp
  moreover have "conc_get ?ht = conc_get ht" unfolding conc_get_def k using 1(6) by (simp add: fun_eq_iff)
  ultimately show ?thesis using run k lt by (intro exI [of _ ?ht]) simp
qed

lemma check_table_size_ok:
  assumes ok: "conc_ok ht"
  shows "\<exists>ht'. check_table_size ht = Some ht' \<and> conc_ok ht' \<and> conc_get ht' = conc_get ht \<and>
    ch_hash_func ht' = ch_hash_func ht \<and> key_eq ht' = key_eq ht \<and> ch_equal_func ht' = ch_equal_func ht \<and>
    ch_element_count ht' < ch_overflow_count ht'"
proof -
  have c: "2 \<le> ct_size (ch_table ht)" "ch_overflow_count ht = int (3 * ct_size (ch_table ht) div 4)"
    "ch_element_count ht \<le> ch_overflow_count ht" "0 \<le> ch_tombstone_count ht"
    using ok by (auto simp: conc_ok_def load_limit_def)
  show ?thesis
  proof (cases "ch_element_count ht \<ge> ch_overflow_count ht")
    case True
    show ?thesis
    proof (cases "ch_tombstone_count ht > ch_element_count ht div 2")
      case t: True
      have "ch_element_count ht - ch_tombstone_count ht < load_limit (ct_size (ch_table ht) * 1)"
        using c True t unfolding load_limit_def by simp
      then show ?thesis using rehash_table_ok [OF ok, of 1] True t by (simp add: check_table_size_def)
    next
      case False
      have "ch_element_count ht - ch_tombstone_count ht < load_limit (ct_size (ch_table ht) * 2)"
        using c unfolding load_limit_def by simp
      then show ?thesis using rehash_table_ok [OF ok, of 2] True False by (simp add: check_table_size_def)
    qed
  next
    case False
    then show ?thesis using ok by (simp add: check_table_size_def)
  qed
qed

lemma key_match_live: "key_match ht k kv \<Longrightarrow> kv_key kv \<noteq> 0 \<Longrightarrow> k \<noteq> TOMBSTONE \<Longrightarrow> live_kv kv \<and> key_eq ht k (kv_key kv)"
  by (auto simp: key_match_def live_kv_def key_eq_def split: option.splits)

lemma live_key_match: "live_kv kv \<Longrightarrow> key_eq ht k (kv_key kv) \<Longrightarrow> key_match ht k kv"
  by (auto simp: key_match_def live_kv_def key_eq_def split: option.splits)

text \<open>The walk of a lookup or a removal ends at the entry of the key or shows that there is none.\<close>

lemma find_key:
  assumes ok: "conc_ok ht" and k: "k \<noteq> TOMBSTONE"
  obtains (absent) i kv where
    "probe (ch_table ht) (\<lambda>kv. kv_key kv = 0 \<or> key_match ht k kv) (key_slot ht k) = Some (i, kv)" "kv_key kv = 0" "conc_get ht k = None"
  | (present) i where
    "probe (ch_table ht) (\<lambda>kv. kv_key kv = 0 \<or> key_match ht k kv) (key_slot ht k) = Some (i, ct_kvs (ch_table ht) ! i)"
    "i < ct_size (ch_table ht)" "live_kv (ct_kvs (ch_table ht) ! i)" "key_eq ht k (kv_key (ct_kvs (ch_table ht) ! i))"
    "kv_value (ct_kvs (ch_table ht) ! i) \<noteq> 0" "conc_get ht k = Some (kv_value (ct_kvs (ch_table ht) ! i))"
proof -
  let ?t = "ch_table ht" and ?stop = "\<lambda>kv. kv_key kv = 0 \<or> key_match ht k kv"
  note d = conc_okD [OF ok]
  have len: "length (ct_kvs ?t) = ct_size ?t" using d(3) by (simp add: power_size_def)
  obtain e where e: "e < ct_size ?t" "?stop (ct_kvs ?t ! e)" using empty_slot [OF d(3,4)] by blast
  obtain j where j: "j < ct_size ?t" "probe ?t ?stop (key_slot ht k) = Some (walk ?t (key_slot ht k) j, ct_kvs ?t ! walk ?t (key_slot ht k) j)"
    "?stop (ct_kvs ?t ! walk ?t (key_slot ht k) j)" "\<And>j'. j' < j \<Longrightarrow> \<not> ?stop (ct_kvs ?t ! walk ?t (key_slot ht k) j')"
    using probe_first [where stop = ?stop, OF d(3,5) e] by blast
  let ?i = "walk ?t (key_slot ht k) j"
  have i: "?i < ct_size ?t" using walk_less [OF d(3)] len by simp
  show thesis
  proof (cases "kv_key (ct_kvs ?t ! ?i) = 0")
    case True
    have before: "kv_key (ct_kvs ?t ! walk ?t (start_slot (ct_size ?t) (ch_hash_func ht k)) j') \<noteq> 0 \<and>
      \<not> (live_kv (ct_kvs ?t ! walk ?t (start_slot (ct_size ?t) (ch_hash_func ht k)) j') \<and>
        key_eq ht k (kv_key (ct_kvs ?t ! walk ?t (start_slot (ct_size ?t) (ch_hash_func ht k)) j')))" if "j' < j" for j'
      using j(4) [OF that] live_key_match [of _ ht k] unfolding key_slot_def by blast
    have "conc_get ht k = None" unfolding conc_get_def
      by (rule address_key.conc_walk_get [OF d(1,2) j(1) before]) (use True in \<open>simp_all add: key_slot_def\<close>)
    then show thesis using absent [OF j(2) True] by blast
  next
    case False
    then have m: "live_kv (ct_kvs ?t ! ?i)" "key_eq ht k (kv_key (ct_kvs ?t ! ?i))"
      using j(3) key_match_live [OF _ False k] by blast+
    then have "conc_get ht k = Some (kv_value (ct_kvs ?t ! ?i))"
      unfolding conc_get_def address_key.table_get_Some [OF d(1,2)] using i by blast
    then show thesis using present [OF j(2) i m] conc_table_okD(2) [OF d(2) i m(1)] by blast
  qed
qed

lemma conc_lookup_ok:
  assumes ok: "conc_ok ht" and k: "k \<noteq> TOMBSTONE"
  shows "mono_conc_hashtable_lookup ht k = Some (case conc_get ht k of Some v \<Rightarrow> v | None \<Rightarrow> 0)"
proof (cases rule: find_key [OF ok k])
  case (1 i kv)
  then show ?thesis by (subst mono_conc_hashtable_lookup.simps) simp
next
  case (2 i)
  then show ?thesis by (subst mono_conc_hashtable_lookup.simps) (simp add: live_kv_def)
qed

lemma conc_remove_ok:
  assumes ok: "conc_ok ht" and k: "k \<noteq> 0" "k \<noteq> TOMBSTONE"
  shows "\<exists>calls ht'. mono_conc_hashtable_remove k ht = Some (case conc_get ht k of Some v \<Rightarrow> v | None \<Rightarrow> 0, calls, ht') \<and>
    conc_ok ht' \<and> key_eq ht' = key_eq ht \<and> (\<forall>l. conc_get ht' l = (if key_eq ht l k then None else conc_get ht l))"
proof (cases rule: find_key [OF ok k(2)])
  case (1 i kv)
  note hk = address_key.axioms [OF conc_okD(1) [OF ok]]
  have none: "conc_get ht l = None" if l: "key_eq ht l k" for l
  proof (rule ccontr)
    assume "conc_get ht l \<noteq> None"
    then obtain v where "conc_get ht l = Some v" by blast
    then have "conc_get ht k = Some v" unfolding conc_get_def address_key.table_get_Some [OF conc_okD(1,2) [OF ok]]
      using hash_key.eq_trans [OF hk hash_key.eq_sym [OF hk l]] by blast
    then show False using 1(3) by simp
  qed
  have "mono_conc_hashtable_remove k ht = Some (0, [], ht)" using 1(1,2) k by (simp add: mono_conc_hashtable_remove_def)
  then show ?thesis using 1(3) ok none by simp
next
  case (2 i)
  let ?t = "ch_table ht"
  let ?ht = "ht\<lparr>ch_table := set_kv i dead_kv ?t, ch_tombstone_count := ch_tombstone_count ht + 1\<rparr>"
  note d = conc_okD [OF ok]
  note kill = address_key.conc_kill_ok [OF d(1,2) 2(2-4)]
  have len: "i < length (ct_kvs ?t)" using d(3) 2(2) by (simp add: power_size_def)
  have e: "key_eq ?ht = key_eq ht" by (simp add: key_eq_def)
  have "int (used_slots (set_kv i dead_kv ?t)) = int (used_slots ?t)" "int (dead_slots (set_kv i dead_kv ?t)) = int (dead_slots ?t) + 1"
    using count_update [OF len, of _ dead_kv] 2(3) by (simp_all add: used_slots_def dead_slots_def dead_kv_def live_kv_def TOMBSTONE_def)
  then have "conc_ok ?ht" using ok kill(1) unfolding conc_ok_def e by simp
  from check_table_size_ok [OF this] obtain ht' where 3: "check_table_size ?ht = Some ht'" "conc_ok ht'"
    "conc_get ht' = conc_get ?ht" "key_eq ht' = key_eq ht" unfolding e by blast
  have "conc_get ?ht l = (if key_eq ht l k then None else conc_get ht l)" for l
    unfolding conc_get_def e using kill(2) by simp
  moreover have "mono_conc_hashtable_remove k ht = Some (kv_value (ct_kvs ?t ! i),
      destroy_calls ht (case ch_equal_func ht of None \<Rightarrow> k | Some _ \<Rightarrow> kv_key (ct_kvs ?t ! i)) (kv_value (ct_kvs ?t ! i)), ht')"
    using k 2(1,3) 3(1) by (simp add: mono_conc_hashtable_remove_def dead_kv_def live_kv_def Let_def)
  ultimately show ?thesis using 2(6) 3(2-4) by simp
qed

lemma conc_insert_ok:
  assumes ok: "conc_ok ht" and k: "k \<noteq> 0" "k \<noteq> TOMBSTONE" "v \<noteq> 0" and absent: "conc_get ht k = None"
  shows "\<exists>ht'. mono_conc_hashtable_insert k v ht = Some (0, ht') \<and> conc_ok ht' \<and> key_eq ht' = key_eq ht \<and>
    (\<forall>l. conc_get ht' l = (if key_eq ht l k then Some v else conc_get ht l))"
proof -
  obtain ht1 where 1: "check_table_size ht = Some ht1" "conc_ok ht1" "conc_get ht1 = conc_get ht" "key_eq ht1 = key_eq ht"
    "ch_element_count ht1 < ch_overflow_count ht1" using check_table_size_ok [OF ok] by blast
  let ?t = "ch_table ht1"
  let ?stop = "\<lambda>kv. kv_key kv = 0 \<or> kv_key kv = TOMBSTONE \<or>
    (case ch_equal_func ht1 of None \<Rightarrow> k = kv_key kv | Some equal \<Rightarrow> equal k (kv_key kv))"
  note d = conc_okD [OF 1(2)]
  have eq: "?stop kv \<longleftrightarrow> \<not> live_kv kv \<or> key_eq ht1 k (kv_key kv)" for kv
    by (auto simp: live_kv_def key_eq_def split: option.split)
  obtain e where e: "e < ct_size ?t" "?stop (ct_kvs ?t ! e)" using empty_slot [OF d(3,4)] by blast
  obtain j where j: "j < ct_size ?t" "probe ?t ?stop (key_slot ht1 k) = Some (walk ?t (key_slot ht1 k) j, ct_kvs ?t ! walk ?t (key_slot ht1 k) j)"
    "?stop (ct_kvs ?t ! walk ?t (key_slot ht1 k) j)" "\<And>j'. j' < j \<Longrightarrow> \<not> ?stop (ct_kvs ?t ! walk ?t (key_slot ht1 k) j')"
    using probe_first [where stop = ?stop, OF d(3,5) e] by blast
  let ?i = "walk ?t (key_slot ht1 k) j"
  have i: "?i < ct_size ?t" "?i < length (ct_kvs ?t)" using walk_less [OF d(3)] d(3) by (simp_all add: power_size_def)
  have none: "table_get (key_eq ht1) ?t k = None" using absent 1(3) by (simp add: conc_get_def)
  then have free: "\<not> live_kv (ct_kvs ?t ! ?i)" using j(3) i(1) unfolding eq table_get_None [OF d(3)] by blast
  have before: "kv_key (ct_kvs ?t ! walk ?t (start_slot (ct_size ?t) (ch_hash_func ht1 k)) j') \<noteq> 0" if "j' < j" for j'
    using j(4) [OF that] unfolding key_slot_def by blast
  let ?kv = "\<lparr>kv_key = k, kv_value = v\<rparr>"
  note fill = address_key.conc_fill_ok [OF d(1,2) j(1) before free [unfolded key_slot_def] k none, folded key_slot_def]
  have dead: "kv_key (ct_kvs ?t ! ?i) = 0 \<or> kv_key (ct_kvs ?t ! ?i) = TOMBSTONE" using free by (simp add: live_kv_def)
  let ?ht = "ht1\<lparr>ch_table := set_kv ?i ?kv ?t\<rparr>"
  let ?ht' = "if kv_key (ct_kvs ?t ! ?i) = TOMBSTONE then ?ht\<lparr>ch_tombstone_count := ch_tombstone_count ?ht - 1\<rparr>
    else ?ht\<lparr>ch_element_count := ch_element_count ?ht + 1\<rparr>"
  have run: "mono_conc_hashtable_insert k v ht = Some (0, ?ht')"
    using k 1(1) j(2) dead by (simp add: mono_conc_hashtable_insert_def Let_def)
  have e: "key_eq ?ht' = key_eq ht1" by (simp add: key_eq_def)
  have "int (used_slots (set_kv ?i ?kv ?t)) = int (used_slots ?t) + (if kv_key (ct_kvs ?t ! ?i) = TOMBSTONE then 0 else 1)"
    "int (dead_slots (set_kv ?i ?kv ?t)) = int (dead_slots ?t) - (if kv_key (ct_kvs ?t ! ?i) = TOMBSTONE then 1 else 0)"
    using count_update [OF i(2), of _ ?kv] k dead by (auto simp: used_slots_def dead_slots_def TOMBSTONE_def)
  then have ok': "conc_ok ?ht'" using 1(2,5) fill(1) unfolding conc_ok_def e by simp
  have get: "conc_get ?ht' l = (if key_eq ht l k then Some v else conc_get ht l)" for l
  proof -
    have "conc_get ?ht' l = table_get (key_eq ht1) (set_kv ?i ?kv ?t) l" unfolding conc_get_def e by simp
    also have "\<dots> = (if key_eq ht l k then Some v else conc_get ht1 l)" using fill(2) [of l] by (simp only: 1(4) conc_get_def)
    finally show ?thesis by (simp only: 1(3))
  qed
  show ?thesis
  proof (intro exI conjI allI)
    show "mono_conc_hashtable_insert k v ht = Some (0, ?ht')" by (rule run)
    show "conc_ok ?ht'" by (rule ok')
    show "key_eq ?ht' = key_eq ht" unfolding e by (rule 1(4))
    show "conc_get ?ht' l = (if key_eq ht l k then Some v else conc_get ht l)" for l by (rule get)
  qed
qed

interpretation aligned_address: address_key mono_aligned_addr_hash "(=)"
  by (rule address_key.intro) (rule aligned_addr.hash_key_axioms)

lemma direct_address: "address_key g_direct_hash (=)"
  by unfold_locales simp_all

interpretation direct_addresses: address_key g_direct_hash "(=)"
  by (rule direct_address)

lemma conc_new_ok:
  assumes "address_key (case h of Some h \<Rightarrow> h | None \<Rightarrow> g_direct_hash) (case eq of None \<Rightarrow> (=) | Some eq \<Rightarrow> eq)"
  shows "conc_ok (mono_conc_hashtable_new_full h eq kd vd)" "conc_get (mono_conc_hashtable_new_full h eq kd vd) k = None"
proof -
  have e: "key_eq (mono_conc_hashtable_new_full h eq kd vd) = (case eq of None \<Rightarrow> (=) | Some eq \<Rightarrow> eq)"
    by (simp add: key_eq_def mono_conc_hashtable_new_full_def mono_conc_hashtable_new_def)
  have "conc_table_ok f g (conc_table_new INITIAL_SIZE)" for f g using new_table_ok(1) [of f g 5] by (simp add: INITIAL_SIZE_def)
  then show "conc_ok (mono_conc_hashtable_new_full h eq kd vd)"
    using assms unfolding conc_ok_def e
    by (simp add: mono_conc_hashtable_new_full_def mono_conc_hashtable_new_def new_table_ok(2-4) INITIAL_SIZE_def load_limit_def)
  show "conc_get (mono_conc_hashtable_new_full h eq kd vd) k = None"
    unfolding conc_get_def by (simp add: mono_conc_hashtable_new_full_def mono_conc_hashtable_new_def new_table_get)
qed

section \<open>Properties\<close>

text \<open>C38: as long as keys are only inserted when they are absent, the table is a map: every operation
  returns (its walk meets an empty slot, through any rehash), lookup and removal give the value, a
  removal takes exactly the keys equal to the given one out, an insertion adds one, and the invariant
  stays.\<close>

theorem conc_hashtable_is_map:
  assumes "conc_ok ht" "k \<noteq> 0" "k \<noteq> TOMBSTONE"
  shows "mono_conc_hashtable_lookup ht k = Some (case conc_get ht k of Some v \<Rightarrow> v | None \<Rightarrow> 0) \<and>
    (\<exists>calls ht'. mono_conc_hashtable_remove k ht = Some (case conc_get ht k of Some v \<Rightarrow> v | None \<Rightarrow> 0, calls, ht') \<and>
      conc_ok ht' \<and> (\<forall>l. conc_get ht' l = (if key_eq ht l k then None else conc_get ht l))) \<and>
    (conc_get ht k = None \<longrightarrow> v \<noteq> 0 \<longrightarrow>
      (\<exists>ht'. mono_conc_hashtable_insert k v ht = Some (0, ht') \<and> conc_ok ht' \<and>
        (\<forall>l. conc_get ht' l = (if key_eq ht l k then Some v else conc_get ht l))))"
  using conc_lookup_ok [OF assms(1,3)] conc_remove_ok [OF assms] conc_insert_ok [OF assms, of v] by blast

lemma demo_conc_ok: "conc_ok (mono_conc_hashtable_new_full None None False False)"
    "conc_get (mono_conc_hashtable_new_full None None False False) k = None"
  using conc_new_ok [of None None] direct_address by simp_all

theorem conc_hashtable_is_map_witness:
  "\<exists>ht'. mono_conc_hashtable_insert 32 6 (mono_conc_hashtable_new_full None None False False) = Some (0, ht') \<and> conc_get ht' 32 = Some 6"
proof -
  have e: "key_eq (mono_conc_hashtable_new_full None None False False) = (=)"
    by (simp add: key_eq_def mono_conc_hashtable_new_full_def mono_conc_hashtable_new_def)
  show ?thesis using conc_hashtable_is_map [OF demo_conc_ok(1), of 32 6] demo_conc_ok(2) unfolding e
    by (auto simp: TOMBSTONE_def)
qed

text \<open>an insertion stops at the first tombstone and does not look further for the key. When another
  key was removed from the same walk, inserting a key that is present returns null instead of the
  value that is there, and enters the key a second time; after it has been removed once, a lookup
  finds the old value again.\<close>

theorem conc_hashtable_insert_duplicates:
  "(do {
      (_, t) \<leftarrow> mono_conc_hashtable_insert 3 5 (mono_conc_hashtable_new None None);
      (_, t) \<leftarrow> mono_conc_hashtable_insert 32 6 t;
      (_, _, t) \<leftarrow> mono_conc_hashtable_remove 3 t;
      before \<leftarrow> mono_conc_hashtable_lookup t 32;
      (inserted, t) \<leftarrow> mono_conc_hashtable_insert 32 7 t;
      (removed, _, t) \<leftarrow> mono_conc_hashtable_remove 32 t;
      after \<leftarrow> mono_conc_hashtable_lookup t 32;
      Some [before, inserted, removed, after] }) = Some [6, 0, 7, 6]"
  by code_simp

end
