(* ===== verification/Mono_ConcReaders.thy ===== *)
theory Mono_ConcReaders
  imports Mono_ConcHashtable
begin

unbundle bit_operations_syntax

text \<open>
  Readers beside the writer of \<open>utils/mono-conc-hashtable.c\<close>: every access to shared memory is a
  step. Tables are kept by address; a retired table stays readable, which is what the hazard pointers
  are for. The writer, who holds the lock, builds a new table unseen and publishes it with one store;
  an insertion stores the value before the key, a removal clears the value before it stores the
  tombstone. A reader loads the table, reads keys slot by slot, twice each (whether the slot is empty, and whether
  it matches; the tombstone test and the call of the equality function share that second read), then
  the value, and at an empty slot compares the table again.
\<close>

section \<open>Steps\<close>

datatype writer_pc =
    W_Idle
  | W_Insert u64 u64
  | W_Store_Key nat u64
  | W_Store_Tombstone nat
  | W_Check

datatype reader_pc =
    R_Idle
  | R_Start u64
  | R_Key u64 nat nat
  | R_Match u64 nat nat
  | R_Value u64 nat nat
  | R_End u64 nat
  | R_Done u64 u64

text \<open>\<open>cs_hash\<close> holds the fields of the hash table but for \<open>table\<close>, which is \<open>cs_table\<close>.\<close>

record conc_state =
  cs_tables :: "nat \<Rightarrow> conc_table"
  cs_table :: nat
  cs_next :: nat
  cs_hash :: MonoConcurrentHashTable
  cs_writer :: writer_pc
  cs_readers :: "nat \<Rightarrow> reader_pc"

datatype conc_act =
    Begin_Insert u64 u64
  | Begin_Remove u64
  | Writer
  | Begin_Lookup nat u64
  | Reader nat

definition hash_view :: "conc_state \<Rightarrow> MonoConcurrentHashTable" where
  "hash_view s = (cs_hash s)\<lparr>ch_table := cs_tables s (cs_table s)\<rparr>"

definition upd_table :: "(conc_table \<Rightarrow> conc_table) \<Rightarrow> conc_state \<Rightarrow> conc_state" where
  "upd_table f s = s\<lparr>cs_tables := (cs_tables s)(cs_table s := f (cs_tables s (cs_table s)))\<rparr>"

text \<open>The check of the size, with the store that publishes a new table.\<close>

definition check_step :: "conc_state \<Rightarrow> conc_state option" where
  "check_step s =
    (let ht = hash_view s in
     do {
       ht' \<leftarrow> check_table_size ht;
       Some (if ch_element_count ht \<ge> ch_overflow_count ht
         then s\<lparr>cs_tables := (cs_tables s)(cs_next s := ch_table ht'), cs_table := cs_next s, cs_next := cs_next s + 1, cs_hash := ht'\<rparr>
         else s) })"

definition writer_step :: "conc_state \<Rightarrow> conc_state option" where
  "writer_step s =
    (let ht = hash_view s; t = ch_table ht in
     case cs_writer s of
       W_Idle \<Rightarrow> None
     | W_Insert key v \<Rightarrow>
         do {
           (i, kv) \<leftarrow> probe t
             (\<lambda>kv. kv_key kv = 0 \<or> kv_key kv = TOMBSTONE \<or>
               (case ch_equal_func ht of None \<Rightarrow> key = kv_key kv | Some equal \<Rightarrow> equal key (kv_key kv))) (key_slot ht key);
           Some (if kv_key kv = 0 \<or> kv_key kv = TOMBSTONE
             then (upd_table (set_kv i (kv\<lparr>kv_value := v\<rparr>)) s)\<lparr>cs_writer := W_Store_Key i key\<rparr>
             else s\<lparr>cs_writer := W_Idle\<rparr>) }
     | W_Store_Key i key \<Rightarrow>
         let kv = ct_kvs t ! i; s = (upd_table (set_kv i (kv\<lparr>kv_key := key\<rparr>)) s)\<lparr>cs_writer := W_Idle\<rparr> in
         Some (if kv_key kv = TOMBSTONE then s\<lparr>cs_hash := (cs_hash s)\<lparr>ch_tombstone_count := ch_tombstone_count ht - 1\<rparr>\<rparr>
           else s\<lparr>cs_hash := (cs_hash s)\<lparr>ch_element_count := ch_element_count ht + 1\<rparr>\<rparr>)
     | W_Store_Tombstone i \<Rightarrow>
         Some ((upd_table (set_kv i ((ct_kvs t ! i)\<lparr>kv_key := TOMBSTONE\<rparr>)) s)
           \<lparr>cs_writer := W_Check, cs_hash := (cs_hash s)\<lparr>ch_tombstone_count := ch_tombstone_count ht + 1\<rparr>\<rparr>)
     | W_Check \<Rightarrow> check_step (s\<lparr>cs_writer := W_Idle\<rparr>))"

definition reader_step :: "nat \<Rightarrow> conc_state \<Rightarrow> conc_state option" where
  "reader_step r s =
    (let ht = hash_view s; go = (\<lambda>pc. Some (s\<lparr>cs_readers := (cs_readers s)(r := pc)\<rparr>)) in
     case cs_readers s r of
       R_Start key \<Rightarrow> go (R_Key key (cs_table s) (key_slot ht key))
     | R_Key key T i \<Rightarrow>
         go (if kv_key (ct_kvs (cs_tables s T) ! i) = 0 then R_End key T else R_Match key T i)
     | R_Match key T i \<Rightarrow>
         go (if key_match ht key (ct_kvs (cs_tables s T) ! i) then R_Value key T i
           else R_Key key T (next_slot (ct_size (cs_tables s T)) i))
     | R_Value key T i \<Rightarrow>
         let v = kv_value (ct_kvs (cs_tables s T) ! i) in
         go (if ch_equal_func ht \<noteq> None \<and> v = 0 then R_Start key else R_Done key v)
     | R_End key T \<Rightarrow> go (if cs_table s \<noteq> T then R_Start key else R_Done key 0)
     | _ \<Rightarrow> None)"

definition conc_step :: "conc_act \<Rightarrow> conc_state \<Rightarrow> conc_state option" where
  "conc_step a s =
    (case a of
       Begin_Insert key v \<Rightarrow>
         if cs_writer s \<noteq> W_Idle \<or> key = 0 \<or> key = TOMBSTONE \<or> v = 0 then None
         else map_option (\<lambda>s. s\<lparr>cs_writer := W_Insert key v\<rparr>) (check_step s)
     | Begin_Remove key \<Rightarrow>
         if cs_writer s \<noteq> W_Idle \<or> key = 0 \<or> key = TOMBSTONE then None
         else
           let ht = hash_view s in
           do {
             (i, kv) \<leftarrow> probe (ch_table ht) (\<lambda>kv. kv_key kv = 0 \<or> key_match ht key kv) (key_slot ht key);
             Some (if kv_key kv = 0 then s
               else (upd_table (set_kv i (kv\<lparr>kv_value := 0\<rparr>)) s)\<lparr>cs_writer := W_Store_Tombstone i\<rparr>) }
     | Writer \<Rightarrow> writer_step s
     | Begin_Lookup r key \<Rightarrow>
         (case cs_readers s r of
            R_Idle \<Rightarrow> Some (s\<lparr>cs_readers := (cs_readers s)(r := R_Start key)\<rparr>)
          | R_Done _ _ \<Rightarrow> Some (s\<lparr>cs_readers := (cs_readers s)(r := R_Start key)\<rparr>)
          | _ \<Rightarrow> None)
     | Reader r \<Rightarrow> reader_step r s)"

fun conc_exec :: "conc_act list \<Rightarrow> conc_state \<Rightarrow> conc_state option" where
  "conc_exec [] s = Some s"
| "conc_exec (a # as) s = do { s \<leftarrow> conc_step a s; conc_exec as s }"

definition conc_start :: "MonoConcurrentHashTable \<Rightarrow> conc_state" where
  "conc_start ht = \<lparr>cs_tables = (\<lambda>_. ch_table ht), cs_table = 0, cs_next = 1, cs_hash = ht, cs_writer = W_Idle,
    cs_readers = (\<lambda>_. R_Idle)\<rparr>"

section \<open>The invariant of insertions\<close>

lemma get_cong:
  assumes ok: "conc_ok ht" and l: "key_eq ht l k"
  shows "conc_get ht l = conc_get ht k"
proof -
  note d = conc_okD [OF ok]
  note hk = address_key.axioms [OF d(1)]
  have "key_eq ht l x \<longleftrightarrow> key_eq ht k x" for x
    using hash_key.eq_trans [OF hk l, of x] hash_key.eq_trans [OF hk hash_key.eq_sym [OF hk l], of x] by blast
  then show ?thesis unfolding conc_get_def table_get_def by simp
qed

text \<open>The value of a slot whose key is null may change.\<close>

lemma conc_touch_ok:
  assumes hk: "address_key h eq" and t: "conc_table_ok h eq t" and i: "i < ct_size t" "kv_key (ct_kvs t ! i) = 0" "kv_key kv = 0"
  shows "conc_table_ok h eq (set_kv i kv t)" "table_get eq (set_kv i kv t) = table_get eq t"
proof -
  note p = conc_table_okD(1) [OF t]
  have len: "length (ct_kvs t) = ct_size t" using p by (simp add: power_size_def)
  let ?t = "set_kv i kv t"
  have w: "walk t s m < ct_size t" for s m using walk_less [OF p] len by simp
  have at: "kv_key (ct_kvs ?t ! m) = kv_key (ct_kvs t ! m)" "live_kv (ct_kvs ?t ! m) \<longleftrightarrow> live_kv (ct_kvs t ! m)"
    "live_kv (ct_kvs t ! m) \<Longrightarrow> ct_kvs ?t ! m = ct_kvs t ! m" if "m < ct_size t" for m
    using that i len by (auto simp: nth_list_update live_kv_def)
  have vals: "kv_value (ct_kvs ?t ! m) \<noteq> 0" if "m < ct_size t" "live_kv (ct_kvs ?t ! m)" for m
    using that(2) conc_table_okD(2) [OF t that(1)] at [OF that(1)] by simp
  have reach: "kv_key (ct_kvs ?t ! walk t (start_slot (ct_size t) (h (kv_key (ct_kvs ?t ! m)))) j') \<noteq> 0"
    if m: "m < ct_size t" "live_kv (ct_kvs ?t ! m)" "n < ct_size t"
      "walk t (start_slot (ct_size t) (h (kv_key (ct_kvs ?t ! m)))) n = m" "j' < n" for m n j'
    using conc_table_okD(3) [OF t m(1) m(2) [unfolded at(2) [OF m(1)]] m(3) m(4) [unfolded at(1) [OF m(1)]] m(5)]
    unfolding at(1) [OF m(1)] at(1) [OF w] .
  have uniq: "m = n" if "m < ct_size t" "n < ct_size t" "live_kv (ct_kvs ?t ! m)" "live_kv (ct_kvs ?t ! n)"
      "eq (kv_key (ct_kvs ?t ! m)) (kv_key (ct_kvs ?t ! n))" for m n
    using conc_table_okD(4) [OF t that(1,2)] that(3-5) unfolding at(1,2) [OF that(1)] at(1,2) [OF that(2)] by blast
  show ok: "conc_table_ok h eq ?t" unfolding conc_table_ok_def set_kv_simps(1-3) using p vals reach uniq by blast
  show "table_get eq ?t = table_get eq t"
  proof (rule ext, rule option_ext)
    fix l u
    let ?P = "\<lambda>kv. live_kv kv \<and> eq l (kv_key kv) \<and> kv_value kv = u"
    have dead: "\<not> ?P kv" "\<not> ?P (ct_kvs t ! i)" using i by (simp_all add: live_kv_def)
    have "table_get eq ?t l = Some u \<longleftrightarrow> ?P kv \<or> (\<exists>m<ct_size t. m \<noteq> i \<and> ?P (ct_kvs t ! m))"
      unfolding address_key.table_get_Some [OF hk ok] set_kv_simps(1) by (rule set_kv_ex [OF i(1) len])
    also have "\<dots> \<longleftrightarrow> table_get eq t l = Some u" unfolding address_key.table_get_Some [OF hk t] using dead by blast
    finally show "table_get eq ?t l = Some u \<longleftrightarrow> table_get eq t l = Some u" .
  qed
qed

definition table_grows :: "conc_table \<Rightarrow> conc_table \<Rightarrow> bool" where
  "table_grows t t' \<longleftrightarrow> ct_size t' = ct_size t \<and>
    (\<forall>i<ct_size t. kv_key (ct_kvs t ! i) \<noteq> 0 \<longrightarrow> ct_kvs t' ! i = ct_kvs t ! i)"

definition insert_pending :: "conc_state \<Rightarrow> bool" where
  "insert_pending s \<longleftrightarrow>
    (let ht = hash_view s; t = ch_table ht in
     case cs_writer s of
       W_Idle \<Rightarrow> True
     | W_Insert k v \<Rightarrow> k \<noteq> 0 \<and> k \<noteq> TOMBSTONE \<and> v \<noteq> 0 \<and> ch_element_count ht < ch_overflow_count ht
     | W_Store_Key i k \<Rightarrow> k \<noteq> 0 \<and> k \<noteq> TOMBSTONE \<and> ch_element_count ht < ch_overflow_count ht \<and> conc_get ht k = None \<and>
         kv_key (ct_kvs t ! i) = 0 \<and> kv_value (ct_kvs t ! i) \<noteq> 0 \<and>
         (\<exists>j<ct_size t. i = walk t (key_slot ht k) j \<and> (\<forall>j'<j. kv_key (ct_kvs t ! walk t (key_slot ht k) j') \<noteq> 0))
     | _ \<Rightarrow> False)"

definition insert_inv :: "conc_state \<Rightarrow> bool" where
  "insert_inv s \<longleftrightarrow> conc_ok (hash_view s) \<and> dead_slots (ch_table (hash_view s)) = 0 \<and> cs_table s < cs_next s \<and> insert_pending s \<and>
    (\<forall>T<cs_next s. conc_table_ok (ch_hash_func (hash_view s)) (key_eq (hash_view s)) (cs_tables s T) \<and>
      (\<forall>l w. table_get (key_eq (hash_view s)) (cs_tables s T) l = Some w \<longrightarrow> conc_get (hash_view s) l = Some w))"

text \<open>What a step leaves to the readers.\<close>

definition grown :: "conc_state \<Rightarrow> conc_state \<Rightarrow> bool" where
  "grown s s' \<longleftrightarrow> cs_next s \<le> cs_next s' \<and> ch_hash_func (hash_view s') = ch_hash_func (hash_view s) \<and>
    ch_equal_func (hash_view s') = ch_equal_func (hash_view s) \<and>
    (\<forall>T<cs_next s. table_grows (cs_tables s T) (cs_tables s' T)) \<and>
    (\<forall>l w. conc_get (hash_view s) l = Some w \<longrightarrow> conc_get (hash_view s') l = Some w)"

lemma grown_refl: "grown s s"
  by (simp add: grown_def table_grows_def)
lemma put_inv:
  assumes inv: "insert_inv s" and s': "s' = s\<lparr>cs_tables := (cs_tables s)(cs_table s := t'), cs_hash := (cs_hash s)\<lparr>ch_element_count := n\<rparr>, cs_writer := w\<rparr>"
    and g: "table_grows (cs_tables s (cs_table s)) t'"
      "\<And>l u. table_get (key_eq (hash_view s)) (cs_tables s (cs_table s)) l = Some u \<Longrightarrow> table_get (key_eq (hash_view s)) t' l = Some u"
    and ok: "conc_ok (hash_view s')" "dead_slots t' = 0" "insert_pending s'"
  shows "insert_inv s' \<and> grown s s'"
proof -
  let ?h = "ch_hash_func (cs_hash s)" and ?eq = "key_eq (hash_view s)"
  have eq: "key_eq (hash_view s') = ?eq" "ch_hash_func (hash_view s') = ch_hash_func (hash_view s)"
      "ch_equal_func (hash_view s') = ch_equal_func (hash_view s)" "ch_table (hash_view s') = t'"
      "cs_next s' = cs_next s" "cs_table s' = cs_table s" "ch_table (hash_view s) = cs_tables s (cs_table s)"
    unfolding s' by (simp_all add: hash_view_def key_eq_def)
  have tables: "cs_tables s' T = (if T = cs_table s then t' else cs_tables s T)" for T unfolding s' by simp
  have get: "conc_get (hash_view s) l = table_get ?eq (cs_tables s (cs_table s)) l" "conc_get (hash_view s') l = table_get ?eq t' l" for l
    unfolding conc_get_def eq by simp_all
  have old: "conc_ok (hash_view s)" "cs_table s < cs_next s"
      "\<And>T. T < cs_next s \<Longrightarrow> conc_table_ok (ch_hash_func (hash_view s)) ?eq (cs_tables s T)"
      "\<And>T l u. T < cs_next s \<Longrightarrow> table_get ?eq (cs_tables s T) l = Some u \<Longrightarrow> conc_get (hash_view s) l = Some u"
    using inv unfolding insert_inv_def by blast+
  have "conc_table_ok (ch_hash_func (hash_view s)) ?eq t'" using conc_okD(2) [OF ok(1)] unfolding eq .
  then have 1: "conc_table_ok (ch_hash_func (hash_view s)) ?eq (cs_tables s' T)" if "T < cs_next s" for T
    using old(3) [OF that] unfolding tables by simp
  have 2: "conc_get (hash_view s') l = Some u" if "conc_get (hash_view s) l = Some u" for l u
    using g(2) that unfolding get .
  have 3: "conc_get (hash_view s') l = Some u" if "T < cs_next s" "table_get ?eq (cs_tables s' T) l = Some u" for T l u
    using that(2) 2 [OF old(4) [OF that(1)], of l u] unfolding tables by (cases "T = cs_table s") (simp_all add: get)
  have 4: "table_grows (cs_tables s T) (cs_tables s' T)" for T using g(1) unfolding tables by (simp add: table_grows_def)
  show ?thesis unfolding insert_inv_def grown_def eq using ok(1,2,3) old(2) 1 2 3 4 by blast
qed

lemma dead_slots_0: "power_size t \<Longrightarrow> dead_slots t = 0 \<Longrightarrow> i < ct_size t \<Longrightarrow> kv_key (ct_kvs t ! i) \<noteq> TOMBSTONE"
  by (auto simp: dead_slots_def power_size_def filter_empty_conv)

lemma touch_counts:
  assumes "i < length (ct_kvs t)" "kv_key (ct_kvs t ! i) = 0" "kv_key kv = 0"
  shows "used_slots (set_kv i kv t) = used_slots t" "dead_slots (set_kv i kv t) = dead_slots t"
proof -
  have z: "(0 :: u64) \<noteq> TOMBSTONE" by (simp add: TOMBSTONE_def)
  show "used_slots (set_kv i kv t) = used_slots t"
    using count_update [OF assms(1), of "\<lambda>kv. kv_key kv \<noteq> 0" kv] assms(2,3) by (simp add: used_slots_def)
  show "dead_slots (set_kv i kv t) = dead_slots t"
    using count_update [OF assms(1), of "\<lambda>kv. kv_key kv = TOMBSTONE" kv] assms(2,3) z by (simp add: dead_slots_def)
qed

lemma idle_insert_inv: "insert_inv s \<Longrightarrow> insert_inv (s\<lparr>cs_writer := W_Idle\<rparr>)"
  by (simp add: insert_inv_def insert_pending_def hash_view_def Let_def)

lemma store_value_step:
  assumes inv: "insert_inv s" and w: "cs_writer s = W_Insert k v" and step: "writer_step s = Some s'"
  shows "insert_inv s' \<and> grown s s'"
proof -
  let ?ht = "hash_view s"
  let ?t = "ch_table ?ht"
  let ?stop = "\<lambda>kv. kv_key kv = 0 \<or> kv_key kv = TOMBSTONE \<or>
    (case ch_equal_func ?ht of None \<Rightarrow> k = kv_key kv | Some equal \<Rightarrow> equal k (kv_key kv))"
  have ok: "conc_ok ?ht" "dead_slots ?t = 0" and k: "k \<noteq> 0" "k \<noteq> TOMBSTONE" "v \<noteq> 0" "ch_element_count ?ht < ch_overflow_count ?ht"
    using inv w by (auto simp: insert_inv_def insert_pending_def Let_def)
  note d = conc_okD [OF ok(1)]
  have eq: "?stop kv \<longleftrightarrow> \<not> live_kv kv \<or> key_eq ?ht k (kv_key kv)" for kv
    by (auto simp: live_kv_def key_eq_def split: option.split)
  obtain e where e: "e < ct_size ?t" "?stop (ct_kvs ?t ! e)" using empty_slot [OF d(3,4)] by blast
  obtain j where j: "j < ct_size ?t" "probe ?t ?stop (key_slot ?ht k) = Some (walk ?t (key_slot ?ht k) j, ct_kvs ?t ! walk ?t (key_slot ?ht k) j)"
    "?stop (ct_kvs ?t ! walk ?t (key_slot ?ht k) j)" "\<And>j'. j' < j \<Longrightarrow> \<not> ?stop (ct_kvs ?t ! walk ?t (key_slot ?ht k) j')"
    using probe_first [where stop = ?stop, OF d(3,5) e] by blast
  let ?i = "walk ?t (key_slot ?ht k) j"
  have i: "?i < ct_size ?t" "?i < length (ct_kvs ?t)" using walk_less [OF d(3)] d(3) by (simp_all add: power_size_def)
  have nt: "kv_key (ct_kvs ?t ! ?i) \<noteq> TOMBSTONE" by (rule dead_slots_0 [OF d(3) ok(2) i(1)])
  have t: "?t = cs_tables s (cs_table s)" by (simp add: hash_view_def)
  show ?thesis
  proof (cases "kv_key (ct_kvs ?t ! ?i) = 0")
    case False
    then have "s' = s\<lparr>cs_writer := W_Idle\<rparr>" using step j(2) nt by (simp add: writer_step_def w Let_def)
    then show ?thesis using idle_insert_inv [OF inv] by (simp add: grown_def hash_view_def table_grows_def)
  next
    case True
    let ?kv = "(ct_kvs ?t ! ?i)\<lparr>kv_value := v\<rparr>"
    let ?t' = "set_kv ?i ?kv ?t"
    have kv: "kv_key ?kv = 0" using True by simp
    note touch = conc_touch_ok [OF d(1,2) i(1) True kv]
    have s': "s' = s\<lparr>cs_tables := (cs_tables s)(cs_table s := ?t'),
        cs_hash := (cs_hash s)\<lparr>ch_element_count := ch_element_count (cs_hash s)\<rparr>, cs_writer := W_Store_Key ?i k\<rparr>"
      using step j(2) True by (simp add: writer_step_def w Let_def upd_table_def t)
    have counts: "used_slots ?t' = used_slots ?t" "dead_slots ?t' = dead_slots ?t"
      using touch_counts [OF i(2) True kv] .
    have view: "hash_view s' = ?ht\<lparr>ch_table := ?t'\<rparr>" unfolding s' by (simp add: hash_view_def)
    have keq: "key_eq (?ht\<lparr>ch_table := ?t'\<rparr>) = key_eq ?ht" by (simp add: key_eq_def)
    have ok': "conc_ok (hash_view s')" using ok(1) touch(1) counts unfolding view conc_ok_def keq by simp
    have before: "live_kv (ct_kvs ?t ! walk ?t (key_slot ?ht k) j') \<and> \<not> key_eq ?ht k (kv_key (ct_kvs ?t ! walk ?t (key_slot ?ht k) j'))" if "j' < j" for j'
      using j(4) [OF that] unfolding eq by blast
    have none: "table_get (key_eq ?ht) ?t k = None"
      by (rule address_key.conc_walk_get [OF d(1,2) j(1)]) (use before True in \<open>auto simp: key_slot_def live_kv_def\<close>)
    have slots: "key_slot (?ht\<lparr>ch_table := ?t'\<rparr>) k = key_slot ?ht k" by (simp add: key_slot_def)
    have w': "walk ?t (key_slot ?ht k) j' \<noteq> ?i" if "j' < j" for j' using before [OF that] True by (auto simp: live_kv_def)
    have pend: "insert_pending s'"
      unfolding insert_pending_def view Let_def
      using k none touch(2) j(1) before w' i(2) True unfolding conc_get_def keq
      by (auto simp: s' slots nth_list_update live_kv_def intro!: exI [of _ j])
    show ?thesis
    proof (rule put_inv [OF inv s' _ _ ok' _ pend])
      show "table_grows (cs_tables s (cs_table s)) ?t'"
        using i(2) True unfolding t [symmetric] by (auto simp: table_grows_def nth_list_update live_kv_def)
      show "table_get (key_eq ?ht) ?t' l = Some u" if "table_get (key_eq ?ht) (cs_tables s (cs_table s)) l = Some u" for l u
        using that touch(2) unfolding t [symmetric] by simp
      show "dead_slots ?t' = 0" using counts(2) ok(2) by simp
    qed
  qed
qed
lemma store_key_step:
  assumes inv: "insert_inv s" and w: "cs_writer s = W_Store_Key i k" and step: "writer_step s = Some s'"
  shows "insert_inv s' \<and> grown s s'"
proof -
  let ?ht = "hash_view s"
  let ?t = "ch_table ?ht"
  have ok: "conc_ok ?ht" "dead_slots ?t = 0" using inv by (auto simp: insert_inv_def)
  note d = conc_okD [OF ok(1)]
  from inv w have k: "k \<noteq> 0" "k \<noteq> TOMBSTONE" "ch_element_count ?ht < ch_overflow_count ?ht" "conc_get ?ht k = None"
    and free: "kv_key (ct_kvs ?t ! i) = 0" "kv_value (ct_kvs ?t ! i) \<noteq> 0"
    and "\<exists>j<ct_size ?t. i = walk ?t (key_slot ?ht k) j \<and> (\<forall>j'<j. kv_key (ct_kvs ?t ! walk ?t (key_slot ?ht k) j') \<noteq> 0)"
    by (simp_all add: insert_inv_def insert_pending_def Let_def)
  then obtain j where j: "j < ct_size ?t" "i = walk ?t (key_slot ?ht k) j"
    "\<And>j'. j' < j \<Longrightarrow> kv_key (ct_kvs ?t ! walk ?t (key_slot ?ht k) j') \<noteq> 0" by blast
  have i: "i < ct_size ?t" "i < length (ct_kvs ?t)" using walk_less [OF d(3)] d(3) by (simp_all add: power_size_def j(2))
  have t: "?t = cs_tables s (cs_table s)" by (simp add: hash_view_def)
  let ?kv = "\<lparr>kv_key = k, kv_value = kv_value (ct_kvs ?t ! i)\<rparr>"
  let ?t' = "set_kv i ?kv ?t"
  have kv: "?kv = (ct_kvs ?t ! i)\<lparr>kv_key := k\<rparr>" by (cases "ct_kvs ?t ! i") simp
  have nt: "kv_key (ct_kvs ?t ! i) \<noteq> TOMBSTONE" using free by (simp add: TOMBSTONE_def)
  have s': "s' = s\<lparr>cs_tables := (cs_tables s)(cs_table s := ?t'),
      cs_hash := (cs_hash s)\<lparr>ch_element_count := ch_element_count ?ht + 1\<rparr>, cs_writer := W_Idle\<rparr>"
    unfolding kv using step nt by (auto simp: writer_step_def w Let_def upd_table_def t)
  have dead: "\<not> live_kv (ct_kvs ?t ! walk ?t (start_slot (ct_size ?t) (ch_hash_func ?ht k)) j)"
    using free j(2) by (simp add: live_kv_def key_slot_def)
  have none: "table_get (key_eq ?ht) ?t k = None" using k(4) by (simp add: conc_get_def)
  note fill = address_key.conc_fill_ok [OF d(1,2) j(1) j(3) [unfolded key_slot_def] dead k(1,2) free(2) none, folded key_slot_def, folded j(2)]
  have counts: "int (used_slots ?t') = int (used_slots ?t) + 1" "int (dead_slots ?t') = int (dead_slots ?t)"
    using count_update [OF i(2), of "\<lambda>kv. kv_key kv \<noteq> 0" ?kv] count_update [OF i(2), of "\<lambda>kv. kv_key kv = TOMBSTONE" ?kv] free(1) nt k(1,2)
    by (simp_all add: used_slots_def dead_slots_def)
  let ?ht' = "?ht\<lparr>ch_table := ?t', ch_element_count := ch_element_count ?ht + 1\<rparr>"
  have view: "hash_view s' = ?ht'" unfolding s' by (simp add: hash_view_def)
  have keq: "key_eq ?ht' = key_eq ?ht" by (simp add: key_eq_def)
  have ok': "conc_ok (hash_view s')" using ok(1) fill(1) counts k(3) unfolding view conc_ok_def keq by simp
  have pend: "insert_pending s'" unfolding s' by (simp add: insert_pending_def Let_def)
  show ?thesis
  proof (rule put_inv [OF inv s' _ _ ok' _ pend])
    show "table_grows (cs_tables s (cs_table s)) ?t'"
      using i(2) free unfolding t [symmetric] by (auto simp: table_grows_def nth_list_update live_kv_def)
    show "table_get (key_eq ?ht) ?t' l = Some u" if l: "table_get (key_eq ?ht) (cs_tables s (cs_table s)) l = Some u" for l u
    proof -
      have "\<not> key_eq ?ht l k" using get_cong [OF ok(1), of l k] k(4) l unfolding t [symmetric] conc_get_def by auto
      then show ?thesis using fill(2) [of l] l unfolding t [symmetric] by simp
    qed
    show "dead_slots ?t' = 0" using counts(2) ok(2) by simp
  qed
qed

lemma check_size_table:
  assumes "check_table_size ht = Some ht'" "ch_tombstone_count ht = 0"
  shows "ch_tombstone_count ht' = 0" "ch_element_count ht < ch_overflow_count ht \<Longrightarrow> ht' = ht"
  using assms by (auto simp: check_table_size_def rehash_table_def Let_def split: if_splits bind_splits)

lemma check_size_step:
  assumes inv: "insert_inv s" and idle: "cs_writer s = W_Idle" and k: "k \<noteq> 0" "k \<noteq> TOMBSTONE" "v \<noteq> 0"
    and step: "check_step s = Some s1" and s': "s' = s1\<lparr>cs_writer := W_Insert k v\<rparr>"
  shows "insert_inv s' \<and> grown s s'"
proof -
  let ?ht = "hash_view s"
  have ok: "conc_ok ?ht" "dead_slots (ch_table ?ht) = 0" and lt: "cs_table s < cs_next s"
    and T: "T < cs_next s \<Longrightarrow> conc_table_ok (ch_hash_func ?ht) (key_eq ?ht) (cs_tables s T)"
      "T < cs_next s \<Longrightarrow> table_get (key_eq ?ht) (cs_tables s T) l = Some u \<Longrightarrow> conc_get ?ht l = Some u" for T l u
    using inv by (auto simp: insert_inv_def)
  from check_table_size_ok [OF ok(1)] obtain ht' where 1: "check_table_size ?ht = Some ht'" "conc_ok ht'" "conc_get ht' = conc_get ?ht"
    "ch_hash_func ht' = ch_hash_func ?ht" "key_eq ht' = key_eq ?ht" "ch_equal_func ht' = ch_equal_func ?ht"
    "ch_element_count ht' < ch_overflow_count ht'" by blast
  have zero: "ch_tombstone_count ?ht = 0" using ok by (simp add: conc_ok_def)
  note z = check_size_table [OF 1(1) zero]
  show ?thesis
  proof (cases "ch_element_count ?ht \<ge> ch_overflow_count ?ht")
    case False
    then have "ht' = ?ht" using z(2) by simp
    moreover have "s1 = s" using step 1(1) False by (simp add: check_step_def Let_def)
    ultimately have "ch_element_count ?ht < ch_overflow_count ?ht" using 1(7) by simp
    then show ?thesis using inv k unfolding s' \<open>s1 = s\<close>
      by (simp add: insert_inv_def insert_pending_def Let_def grown_def hash_view_def table_grows_def)
  next
    case True
    then have s1: "s1 = s\<lparr>cs_tables := (cs_tables s)(cs_next s := ch_table ht'), cs_table := cs_next s, cs_next := cs_next s + 1, cs_hash := ht'\<rparr>"
      using step 1(1) by (simp add: check_step_def Let_def)
    have view: "hash_view s' = ht'" unfolding s' s1 by (simp add: hash_view_def)
    have tables: "cs_tables s' T = (if T = cs_next s then ch_table ht' else cs_tables s T)" for T unfolding s' s1 by simp
    have nxt: "cs_next s' = Suc (cs_next s)" "cs_table s' = cs_next s" unfolding s' s1 by simp_all
    have dead: "dead_slots (ch_table ht') = 0" using 1(2) z(1) by (simp add: conc_ok_def)
    have pend: "insert_pending s'" using k 1(7) unfolding insert_pending_def view Let_def by (simp add: s')
    have all: "conc_table_ok (ch_hash_func ?ht) (key_eq ?ht) (cs_tables s' T)" if "T < Suc (cs_next s)" for T
      using that T(1) [of T] conc_okD(2) [OF 1(2)] unfolding tables 1(4,5) by (auto simp: less_Suc_eq)
    have gets: "conc_get ?ht l = Some u" if "T < Suc (cs_next s)" "table_get (key_eq ?ht) (cs_tables s' T) l = Some u" for T l u
    proof (cases "T = cs_next s")
      case True
      then show ?thesis using that(2) unfolding tables 1(3) [symmetric] conc_get_def [of ht'] 1(5) by simp
    next
      case False
      then show ?thesis using that T(2) [of T] unfolding tables by simp
    qed
    have grow: "table_grows (cs_tables s T) (cs_tables s' T)" if "T < cs_next s" for T
      using that unfolding tables by (simp add: table_grows_def)
    show ?thesis unfolding insert_inv_def grown_def view nxt 1(3-6) using 1(2) dead pend all gets grow by auto
  qed
qed

lemma readers_step:
  assumes "insert_inv s" "s' = s\<lparr>cs_readers := f\<rparr>"
  shows "insert_inv s' \<and> grown s s'"
  using assms(1) unfolding assms(2) by (simp add: insert_inv_def insert_pending_def Let_def grown_def hash_view_def table_grows_def)

lemma insert_step:
  assumes inv: "insert_inv s" and step: "conc_step a s = Some s'" and a: "\<And>k. a \<noteq> Begin_Remove k"
  shows "insert_inv s' \<and> grown s s'"
proof (cases a)
  case (Begin_Insert k v)
  then show ?thesis using step check_size_step [OF inv] by (auto simp: conc_step_def split: if_splits)
next
  case (Begin_Remove k)
  then show ?thesis using a by blast
next
  case Writer
  then have w: "writer_step s = Some s'" using step by (simp add: conc_step_def)
  show ?thesis
  proof (cases "cs_writer s")
    case W_Idle
    then show ?thesis using w by (simp add: writer_step_def Let_def)
  next
    case (W_Insert k v)
    show ?thesis by (rule store_value_step [OF inv W_Insert w])
  next
    case (W_Store_Key i k)
    show ?thesis by (rule store_key_step [OF inv W_Store_Key w])
  qed (use inv in \<open>simp_all add: insert_inv_def insert_pending_def Let_def\<close>)
next
  case (Begin_Lookup r k)
  then show ?thesis using step by (auto simp: conc_step_def split: reader_pc.splits intro!: readers_step [OF inv])
next
  case (Reader r)
  then show ?thesis using step
    by (auto simp: conc_step_def reader_step_def Let_def split: reader_pc.splits intro!: readers_step [OF inv])
qed
section \<open>What a reader knows\<close>

text \<open>The walk for a key has not passed the entry of the key.\<close>

definition walk_ahead :: "MonoConcurrentHashTable \<Rightarrow> u64 \<Rightarrow> conc_table \<Rightarrow> nat \<Rightarrow> bool" where
  "walk_ahead ht k t i \<longleftrightarrow>
    (\<exists>j m. j \<le> m \<and> m < ct_size t \<and> i = walk t (start_slot (ct_size t) (ch_hash_func ht k)) j \<and>
      live_kv (ct_kvs t ! walk t (start_slot (ct_size t) (ch_hash_func ht k)) m) \<and>
      key_eq ht k (kv_key (ct_kvs t ! walk t (start_slot (ct_size t) (ch_hash_func ht k)) m)))"

definition reader_inv :: "conc_state \<Rightarrow> nat \<Rightarrow> u64 \<Rightarrow> u64 option \<Rightarrow> bool" where
  "reader_inv s r k seen \<longleftrightarrow>
    (\<forall>v. seen = Some v \<longrightarrow> conc_get (hash_view s) k = Some v) \<and>
    (case cs_readers s r of
       R_Idle \<Rightarrow> False
     | R_Start key \<Rightarrow> key = k
     | R_Key key T i \<Rightarrow> key = k \<and> T < cs_next s \<and> i < ct_size (cs_tables s T) \<and> (seen \<noteq> None \<longrightarrow> walk_ahead (hash_view s) k (cs_tables s T) i)
     | R_Match key T i \<Rightarrow> key = k \<and> T < cs_next s \<and> i < ct_size (cs_tables s T) \<and> kv_key (ct_kvs (cs_tables s T) ! i) \<noteq> 0 \<and>
         (seen \<noteq> None \<longrightarrow> walk_ahead (hash_view s) k (cs_tables s T) i)
     | R_Value key T i \<Rightarrow> key = k \<and> T < cs_next s \<and> i < ct_size (cs_tables s T) \<and>
         live_kv (ct_kvs (cs_tables s T) ! i) \<and> key_eq (hash_view s) k (kv_key (ct_kvs (cs_tables s T) ! i))
     | R_End key T \<Rightarrow> key = k \<and> seen = None
     | R_Done key res \<Rightarrow> key = k \<and> (res \<noteq> 0 \<longrightarrow> conc_get (hash_view s) k = Some res) \<and> (\<forall>v. seen = Some v \<longrightarrow> res = v))"

lemma live_nonzero: "live_kv kv \<Longrightarrow> kv_key kv \<noteq> 0"
  by (simp add: live_kv_def)

lemma walk_ahead_grows:
  assumes g: "table_grows t t'" and p: "power_size t" and ht: "ch_hash_func ht' = ch_hash_func ht" "key_eq ht' = key_eq ht"
    and a: "walk_ahead ht k t i"
  shows "walk_ahead ht' k t' i"
proof -
  have e: "ct_size t' = ct_size t" "walk t' s m = walk t s m" for s m using g by (simp_all add: table_grows_def walk_def)
  have same: "ct_kvs t' ! walk t s m = ct_kvs t ! walk t s m" if "live_kv (ct_kvs t ! walk t s m)" for s m
    using g walk_less [OF p, of s m] p live_nonzero [OF that] by (simp add: table_grows_def power_size_def)
  show ?thesis using a same unfolding walk_ahead_def e ht by metis
qed

lemma reader_grown:
  assumes inv: "insert_inv s" and g: "grown s s'" and same: "cs_readers s' r = cs_readers s r" and rd: "reader_inv s r k seen"
  shows "reader_inv s' r k seen"
proof -
  have ht: "ch_hash_func (hash_view s') = ch_hash_func (hash_view s)" "key_eq (hash_view s') = key_eq (hash_view s)"
    and n: "cs_next s \<le> cs_next s'" and t: "\<And>T. T < cs_next s \<Longrightarrow> table_grows (cs_tables s T) (cs_tables s' T)"
    and get: "\<And>l w. conc_get (hash_view s) l = Some w \<Longrightarrow> conc_get (hash_view s') l = Some w"
    using g by (simp_all add: grown_def key_eq_def)
  have p: "power_size (cs_tables s T)" if "T < cs_next s" for T
    using inv conc_table_okD(1) that unfolding insert_inv_def by blast
  have size: "ct_size (cs_tables s' T) = ct_size (cs_tables s T)" if "T < cs_next s" for T
    using t [OF that] by (simp add: table_grows_def)
  have slot: "ct_kvs (cs_tables s' T) ! i = ct_kvs (cs_tables s T) ! i"
    if "T < cs_next s" "i < ct_size (cs_tables s T)" "kv_key (ct_kvs (cs_tables s T) ! i) \<noteq> 0" for T i
    using t [OF that(1)] that(2,3) by (simp add: table_grows_def)
  have ahead: "walk_ahead (hash_view s') k (cs_tables s' T) i" if "T < cs_next s" "walk_ahead (hash_view s) k (cs_tables s T) i" for T i
    by (rule walk_ahead_grows [OF t [OF that(1)] p [OF that(1)] ht that(2)])
  show ?thesis
  proof (cases "cs_readers s r")
    case (R_Key key T i)
    then show ?thesis using rd get n size ahead unfolding reader_inv_def same by auto
  next
    case (R_Match key T i)
    then show ?thesis using rd get n size ahead slot unfolding reader_inv_def same by auto
  next
    case (R_Value key T i)
    then have "T < cs_next s" "i < ct_size (cs_tables s T)" "live_kv (ct_kvs (cs_tables s T) ! i)" using rd by (simp_all add: reader_inv_def)
    then show ?thesis using R_Value rd get n size slot live_nonzero unfolding reader_inv_def same ht by simp
  qed (use rd get in \<open>auto simp: reader_inv_def same\<close>)
qed

lemma ahead_start:
  assumes ok: "conc_ok ht" and v: "conc_get ht k = Some v"
  shows "walk_ahead ht k (ch_table ht) (key_slot ht k)"
proof -
  note d = conc_okD [OF ok]
  obtain i where i: "i < ct_size (ch_table ht)" "live_kv (ct_kvs (ch_table ht) ! i)" "key_eq ht k (kv_key (ct_kvs (ch_table ht) ! i))"
    using v unfolding conc_get_def address_key.table_get_Some [OF d(1,2)] by blast
  obtain m where "m < ct_size (ch_table ht)" "walk (ch_table ht) (key_slot ht k) m = i" using walk_reaches [OF d(3,5) i(1)] by blast
  then show ?thesis using i d(5) [of k] walk_0 unfolding walk_ahead_def key_slot_def [symmetric] by (metis le0)
qed

text \<open>The slot that ends the walk is not empty; the walk goes on only before it.\<close>

lemma ahead_nonzero:
  assumes hk: "address_key (ch_hash_func ht) (key_eq ht)" and t: "conc_table_ok (ch_hash_func ht) (key_eq ht) t" and a: "walk_ahead ht k t i"
  shows "kv_key (ct_kvs t ! i) \<noteq> 0" "\<not> key_match ht k (ct_kvs t ! i) \<Longrightarrow> walk_ahead ht k t (next_slot (ct_size t) i)"
proof -
  let ?s = "start_slot (ct_size t) (ch_hash_func ht k)"
  note p = conc_table_okD(1) [OF t]
  obtain j m where jm: "j \<le> m" "m < ct_size t" "i = walk t ?s j" "live_kv (ct_kvs t ! walk t ?s m)"
    "key_eq ht k (kv_key (ct_kvs t ! walk t ?s m))" using a unfolding walk_ahead_def by blast
  have wm: "walk t ?s m < ct_size t" using walk_less [OF p] p by (simp add: power_size_def)
  have h: "ch_hash_func ht (kv_key (ct_kvs t ! walk t ?s m)) = ch_hash_func ht k"
    by (rule hash_key.hash_eq [OF address_key.axioms [OF hk] jm(5), symmetric])
  show "kv_key (ct_kvs t ! i) \<noteq> 0"
  proof (cases "j = m")
    case True
    then show ?thesis using jm(3,4) live_nonzero by simp
  next
    case False
    then have "j < m" using jm(1) by simp
    from conc_table_okD(3) [OF t wm jm(4) jm(2) _ this] show ?thesis unfolding h jm(3) by simp
  qed
  assume no: "\<not> key_match ht k (ct_kvs t ! i)"
  have "j \<noteq> m" using no live_key_match [OF jm(4,5)] jm(3) by blast
  then have "Suc j \<le> m" using jm(1) by simp
  moreover have "next_slot (ct_size t) i = walk t ?s (Suc j)"
    unfolding jm(3) next_slot_mod [OF p] by (simp add: walk_def mod_Suc_eq)
  ultimately show "walk_ahead ht k t (next_slot (ct_size t) i)" using jm(2,4,5) unfolding walk_ahead_def by blast
qed
lemma reader_own_step:
  assumes inv: "insert_inv s" and k: "k \<noteq> TOMBSTONE" and rd: "reader_inv s r k seen" and step: "reader_step r s = Some s'"
  shows "reader_inv s' r k seen"
proof -
  let ?ht = "hash_view s"
  have ok: "conc_ok ?ht" and lt: "cs_table s < cs_next s"
    and T: "T < cs_next s \<Longrightarrow> conc_table_ok (ch_hash_func ?ht) (key_eq ?ht) (cs_tables s T)"
      "T < cs_next s \<Longrightarrow> table_get (key_eq ?ht) (cs_tables s T) l = Some u \<Longrightarrow> conc_get ?ht l = Some u" for T l u
    using inv by (auto simp: insert_inv_def)
  note d = conc_okD [OF ok]
  have seen: "conc_get ?ht k = Some v" if "seen = Some v" for v using rd that by (simp add: reader_inv_def)
  have view: "hash_view (s\<lparr>cs_readers := f\<rparr>) = ?ht" for f by (simp add: hash_view_def)
  have tb: "cs_tables s (cs_table s) = ch_table ?ht" by (simp add: hash_view_def)
  show ?thesis
  proof (cases "cs_readers s r")
    case R_Idle
    then show ?thesis using step by (simp add: reader_step_def Let_def)
  next
    case (R_Start key)
    then have key: "key = k" using rd by (simp add: reader_inv_def)
    have s': "s' = s\<lparr>cs_readers := (cs_readers s)(r := R_Key k (cs_table s) (key_slot ?ht k))\<rparr>"
      using step by (simp add: reader_step_def Let_def R_Start key)
    have "walk_ahead ?ht k (ch_table ?ht) (key_slot ?ht k)" if "seen = Some v" for v by (rule ahead_start [OF ok seen [OF that]])
    then show ?thesis using seen lt d(5) unfolding reader_inv_def s' view by (auto simp: tb)
  next
    case (R_Key key T' i)
    then have key: "key = k" "T' < cs_next s" "i < ct_size (cs_tables s T')" "seen \<noteq> None \<Longrightarrow> walk_ahead ?ht k (cs_tables s T') i"
      using rd by (simp_all add: reader_inv_def)
    note nz = ahead_nonzero(1) [OF d(1) T(1) [OF key(2)] key(4)]
    have s': "s' = s\<lparr>cs_readers := (cs_readers s)(r := if kv_key (ct_kvs (cs_tables s T') ! i) = 0 then R_End k T' else R_Match k T' i)\<rparr>"
      using step by (simp add: reader_step_def Let_def R_Key key)
    show ?thesis
    proof (cases "kv_key (ct_kvs (cs_tables s T') ! i) = 0")
      case True
      then have "seen = None" using nz by blast
      then show ?thesis using True seen unfolding reader_inv_def s' view by simp
    next
      case False
      then show ?thesis using key seen unfolding reader_inv_def s' view by simp
    qed
  next
    case (R_Match key T' i)
    then have key: "key = k" "T' < cs_next s" "i < ct_size (cs_tables s T')" "kv_key (ct_kvs (cs_tables s T') ! i) \<noteq> 0"
      "seen \<noteq> None \<Longrightarrow> walk_ahead ?ht k (cs_tables s T') i" using rd by (simp_all add: reader_inv_def)
    let ?t = "cs_tables s T'"
    have s': "s' = s\<lparr>cs_readers := (cs_readers s)(r := if key_match ?ht k (ct_kvs ?t ! i) then R_Value k T' i else R_Key k T' (next_slot (ct_size ?t) i))\<rparr>"
      using step by (simp add: reader_step_def Let_def R_Match key)
    show ?thesis
    proof (cases "key_match ?ht k (ct_kvs ?t ! i)")
      case True
      then show ?thesis using key seen key_match_live [OF True key(4) k] unfolding reader_inv_def s' view by simp
    next
      case False
      note p = conc_table_okD(1) [OF T(1) [OF key(2)]]
      have "next_slot (ct_size ?t) i < ct_size ?t" unfolding next_slot_mod [OF p] using power_size_pos [OF p] by simp
      moreover have "walk_ahead ?ht k ?t (next_slot (ct_size ?t) i)" if "seen \<noteq> None"
        by (rule ahead_nonzero(2) [OF d(1) T(1) [OF key(2)] key(5) [OF that] False])
      ultimately show ?thesis using key(2) False seen unfolding reader_inv_def s' view by simp
    qed
  next
    case (R_Value key T' i)
    let ?kv = "ct_kvs (cs_tables s T') ! i"
    from R_Value have key: "key = k" "T' < cs_next s" "i < ct_size (cs_tables s T')" "live_kv ?kv" "key_eq ?ht k (kv_key ?kv)"
      using rd by (simp_all add: reader_inv_def)
    have "kv_value ?kv \<noteq> 0" by (rule conc_table_okD(2) [OF T(1) [OF key(2)] key(3,4)])
    then have s': "s' = s\<lparr>cs_readers := (cs_readers s)(r := R_Done k (kv_value ?kv))\<rparr>"
      using step by (simp add: reader_step_def Let_def R_Value key)
    have "table_get (key_eq ?ht) (cs_tables s T') k = Some (kv_value ?kv)"
      unfolding address_key.table_get_Some [OF d(1) T(1) [OF key(2)]] using key(3-5) by blast
    from T(2) [OF key(2) this] have "conc_get ?ht k = Some (kv_value ?kv)" .
    then show ?thesis using seen unfolding reader_inv_def s' view by auto
  next
    case (R_End key T')
    then have key: "key = k" "seen = None" using rd by (simp_all add: reader_inv_def)
    then have s': "s' = s\<lparr>cs_readers := (cs_readers s)(r := if cs_table s \<noteq> T' then R_Start k else R_Done k 0)\<rparr>"
      using step by (simp add: reader_step_def Let_def R_End)
    show ?thesis using key(2) unfolding reader_inv_def s' view by simp
  next
    case (R_Done key res)
    then show ?thesis using step by (simp add: reader_step_def Let_def)
  qed
qed

lemma check_step_readers: "check_step s = Some s' \<Longrightarrow> cs_readers s' = cs_readers s"
  by (auto simp: check_step_def Let_def split: bind_splits if_splits)

lemma writer_step_readers:
  assumes "writer_step s = Some s'"
  shows "cs_readers s' = cs_readers s"
proof (cases "cs_writer s")
  case W_Check
  then have "check_step (s\<lparr>cs_writer := W_Idle\<rparr>) = Some s'" using assms by (simp add: writer_step_def Let_def)
  then show ?thesis using check_step_readers by fastforce
qed (use assms in \<open>auto simp: writer_step_def upd_table_def Let_def split: bind_splits if_splits prod.splits\<close>)

lemma other_readers:
  assumes step: "conc_step a s = Some s'" and a: "a \<noteq> Reader r" "\<And>l. a \<noteq> Begin_Lookup r l"
  shows "cs_readers s' r = cs_readers s r"
proof (cases a)
  case (Begin_Insert k v)
  then show ?thesis using step by (auto simp: conc_step_def dest: check_step_readers split: if_splits)
next
  case (Begin_Remove k)
  then show ?thesis using step by (auto simp: conc_step_def upd_table_def Let_def split: if_splits bind_splits)
next
  case Writer
  then show ?thesis using step writer_step_readers [of s s'] by (simp add: conc_step_def)
next
  case (Begin_Lookup r' l)
  then show ?thesis using step a(2) [of l] by (auto simp: conc_step_def split: reader_pc.splits)
next
  case (Reader r')
  then show ?thesis using step a(1)
    by (auto simp: conc_step_def reader_step_def Let_def split: reader_pc.splits if_splits)
qed

lemma reader_conc_step:
  assumes inv: "insert_inv s" and k: "k \<noteq> TOMBSTONE" and rd: "reader_inv s r k seen" and step: "conc_step a s = Some s'"
    and a: "\<And>l. a \<noteq> Begin_Remove l" "\<And>l. a \<noteq> Begin_Lookup r l"
  shows "reader_inv s' r k seen"
proof (cases "a = Reader r")
  case True
  then show ?thesis using reader_own_step [OF inv k rd, of s'] step by (simp add: conc_step_def)
next
  case False
  show ?thesis by (rule reader_grown [OF inv conjunct2 [OF insert_step [OF inv step a(1)]] other_readers [OF step False a(2)] rd])
qed

section \<open>Schedules\<close>

definition no_removal :: "conc_act list \<Rightarrow> bool" where
  "no_removal as \<longleftrightarrow> list_all (\<lambda>a. case a of Begin_Remove _ \<Rightarrow> False | _ \<Rightarrow> True) as"

definition one_lookup :: "nat \<Rightarrow> conc_act list \<Rightarrow> bool" where
  "one_lookup r as \<longleftrightarrow> list_all (\<lambda>a. case a of Begin_Lookup r' _ \<Rightarrow> r' \<noteq> r | _ \<Rightarrow> True) as"

lemma insert_exec: "conc_exec as s = Some s' \<Longrightarrow> no_removal as \<Longrightarrow> insert_inv s \<Longrightarrow> insert_inv s'"
proof (induction as arbitrary: s)
  case (Cons a as)
  then obtain s1 where s1: "conc_step a s = Some s1" "conc_exec as s1 = Some s'" by (auto split: bind_splits)
  have "a \<noteq> Begin_Remove l" for l using Cons.prems(2) by (auto simp: no_removal_def)
  with insert_step [OF Cons.prems(3) s1(1)] have "insert_inv s1" by blast
  then show ?case using Cons.IH [OF s1(2)] Cons.prems(2) by (simp add: no_removal_def)
qed simp

lemma reader_exec:
  "conc_exec as s = Some s' \<Longrightarrow> no_removal as \<Longrightarrow> one_lookup r as \<Longrightarrow> k \<noteq> TOMBSTONE \<Longrightarrow> insert_inv s \<Longrightarrow>
    reader_inv s r k seen \<Longrightarrow> reader_inv s' r k seen"
proof (induction as arbitrary: s)
  case (Cons a as)
  then obtain s1 where s1: "conc_step a s = Some s1" "conc_exec as s1 = Some s'" by (auto split: bind_splits)
  have a: "a \<noteq> Begin_Remove l" "a \<noteq> Begin_Lookup r l" for l
    using Cons.prems(2,3) by (auto simp: no_removal_def one_lookup_def)
  have "insert_inv s1" using insert_step [OF Cons.prems(5) s1(1) a(1)] by blast
  then show ?case using Cons.IH [OF s1(2)] reader_conc_step [OF Cons.prems(5,4,6) s1(1) a] Cons.prems(2-4)
    by (simp add: no_removal_def one_lookup_def)
qed simp

lemma insert_inv_start: "conc_ok ht \<Longrightarrow> dead_slots (ch_table ht) = 0 \<Longrightarrow> insert_inv (conc_start ht)"
proof -
  have v: "hash_view (conc_start ht) = ht" by (simp add: hash_view_def conc_start_def)
  show "conc_ok ht \<Longrightarrow> dead_slots (ch_table ht) = 0 \<Longrightarrow> insert_inv (conc_start ht)"
    unfolding insert_inv_def insert_pending_def v Let_def
    by (auto simp: conc_start_def conc_get_def dest: conc_okD(2))
qed

text \<open>C37: readers without the lock, while the writer only inserts: a lookup that runs beside any
  interleaving of insertions, rehashes and other lookups returns the value of its key at its end, when
  it returns one, and the value its key had at its start, when it had one; so null is only returned for
  a key that was absent when the lookup began.\<close>

theorem conc_lookup_linearizable:
  assumes "conc_ok ht" "dead_slots (ch_table ht) = 0" "k \<noteq> TOMBSTONE"
    and "no_removal (before @ during)" "one_lookup r during"
    and "conc_exec before (conc_start ht) = Some s0" "conc_exec (Begin_Lookup r k # during) s0 = Some s"
    and "cs_readers s r = R_Done k res"
  shows "(res \<noteq> 0 \<longrightarrow> conc_get (hash_view s) k = Some res) \<and> (\<forall>v. conc_get (hash_view s0) k = Some v \<longrightarrow> res = v)"
proof -
  have nr: "no_removal before" "no_removal during" using assms(4) by (simp_all add: no_removal_def)
  have inv: "insert_inv s0" by (rule insert_exec [OF assms(6) nr(1) insert_inv_start [OF assms(1,2)]])
  obtain s1 where s1: "conc_step (Begin_Lookup r k) s0 = Some s1" "conc_exec during s1 = Some s" using assms(7) by (auto split: bind_splits)
  have e: "s1 = s0\<lparr>cs_readers := (cs_readers s0)(r := R_Start k)\<rparr>" using s1(1) by (auto simp: conc_step_def split: reader_pc.splits)
  have inv1: "insert_inv s1" using readers_step [OF inv e] by blast
  have "reader_inv s1 r k (conc_get (hash_view s0) k)" unfolding reader_inv_def e by (simp add: hash_view_def)
  from reader_exec [OF s1(2) nr(2) assms(5,3) inv1 this] show ?thesis using assms(8) by (simp add: reader_inv_def)
qed
theorem conc_lookup_linearizable_witness:
  "map_option (\<lambda>s. conc_get (hash_view s) 3) (conc_exec [Begin_Insert 3 5, Writer, Writer, Begin_Lookup 0 3,
      Begin_Insert 32 6, Reader 0, Writer, Reader 0, Writer, Reader 0, Reader 0] (conc_start (mono_conc_hashtable_new_full None None False False)))
    = Some (Some 5)"
proof -
  let ?ht = "mono_conc_hashtable_new_full None None False False"
  let ?before = "[Begin_Insert 3 5, Writer, Writer]"
  let ?during = "[Begin_Insert 32 6, Reader 0, Writer, Reader 0, Writer, Reader 0, Reader 0]"
  have runs: "map_option (\<lambda>s. (case conc_exec (Begin_Lookup 0 3 # ?during) s of None \<Rightarrow> R_Idle | Some s' \<Rightarrow> cs_readers s' 0))
      (conc_exec ?before (conc_start ?ht)) = Some (R_Done 3 5)" by code_simp
  then obtain s0 where s0: "conc_exec ?before (conc_start ?ht) = Some s0" by (auto simp: map_option_case split: option.splits)
  with runs obtain s where s: "conc_exec (Begin_Lookup 0 3 # ?during) s0 = Some s" "cs_readers s 0 = R_Done 3 5"
    by (cases "conc_exec (Begin_Lookup 0 3 # ?during) s0") simp_all
  have ok: "conc_ok ?ht" "dead_slots (ch_table ?ht) = 0"
    using demo_conc_ok(1) new_table_ok(3) by (simp_all add: mono_conc_hashtable_new_full_def mono_conc_hashtable_new_def)
  have "(3::u64) \<noteq> TOMBSTONE" "no_removal (?before @ ?during)" "one_lookup 0 ?during"
    by (simp_all add: TOMBSTONE_def no_removal_def one_lookup_def)
  from conc_lookup_linearizable [OF ok this s0 s] have "conc_get (hash_view s) 3 = Some 5" by simp
  moreover have "conc_exec (?before @ Begin_Lookup 0 3 # ?during) (conc_start ?ht) = Some s"
  proof -
    have "conc_exec (as @ bs) t = Option.bind (conc_exec as t) (conc_exec bs)" for as bs t
      by (induction as arbitrary: t) (auto simp: Option.bind_assoc intro!: Option.bind_cong)
    then show ?thesis using s0 s(1) by (simp only: Option.bind.bind_lunit)
  qed
  ultimately show ?thesis by simp
qed

text \<open>beside removals a lookup can return the value of another key: between its read of the key
  and its read of the value the entry is removed and the slot is taken by an insertion of another key,
  whose value the lookup returns; it does not look at the key again.\<close>

theorem conc_lookup_wrong_value:
  "map_option (\<lambda>s. cs_readers s 0)
     (conc_exec [Begin_Insert 3 5, Writer, Writer, Begin_Lookup 0 3, Reader 0, Reader 0, Reader 0, Begin_Remove 3, Writer, Writer,
         Begin_Insert 32 6, Writer, Writer, Reader 0] (conc_start (mono_conc_hashtable_new None None))) = Some (R_Done 3 6)"
  by code_simp

end
