(* ===== verification/Sgen_Los.thy ===== *)
theory Sgen_Los
  imports Sgen_MarkSweep Sgen_ArrayList Sgen_Descriptor
begin

unbundle bit_operations_syntax

text \<open>
  The large object space, \<open>sgen/sgen-los.c\<close>: sections of one megabyte in chunks of 4 KiB, free runs of
  chunks in lists by size, huge objects in memory of their own, the array list of all objects, and
  the sweep. The headers of objects are words of memory: the size, whose lowest bit is the mark, the
  card table of the concurrent collector (always null here), then the object. The free lists, which
  the code links through the free chunks, are lists of addresses and sizes; a section is a record with
  its address. The operating system, the memory governor and the collection that a request for space
  may start are parameters. \<open>None\<close> is a failed assertion or an access out of range.
\<close>

section \<open>Sections and chunks\<close>

definition LOS_SECTION_SIZE :: nat where
  "LOS_SECTION_SIZE = 1024 * 1024"

definition LOS_CHUNK_SIZE :: nat where
  "LOS_CHUNK_SIZE = 4096"

definition LOS_CHUNK_BITS :: nat where
  "LOS_CHUNK_BITS = 12"

definition SIZEOF_LOSObject :: nat where
  "SIZEOF_LOSObject = 16"

definition LOS_SECTION_OBJECT_LIMIT :: nat where
  "LOS_SECTION_OBJECT_LIMIT = LOS_SECTION_SIZE - LOS_CHUNK_SIZE - SIZEOF_LOSObject"

definition LOS_SECTION_NUM_CHUNKS :: nat where
  "LOS_SECTION_NUM_CHUNKS = LOS_SECTION_SIZE div 2 ^ LOS_CHUNK_BITS - 1"

definition LOS_NUM_FAST_SIZES :: nat where
  "LOS_NUM_FAST_SIZES = 32"

definition mono_pagesize :: nat where
  "mono_pagesize = 4096"

definition SSIZE_MAX :: nat where
  "SSIZE_MAX = 2 ^ 63 - 1"

text \<open>Alignments are powers of two.\<close>

definition SGEN_ALIGN_UP_TO :: "nat \<Rightarrow> nat \<Rightarrow> nat" where
  "SGEN_ALIGN_UP_TO val align = (val + (align - 1)) div align * align"

definition SGEN_ALIGN_DOWN_TO :: "u64 \<Rightarrow> nat \<Rightarrow> u64" where
  "SGEN_ALIGN_DOWN_TO val align = val AND NOT (of_nat (align - 1))"

definition LOS_SECTION_FOR_OBJ :: "u64 \<Rightarrow> u64" where
  "LOS_SECTION_FOR_OBJ obj = obj AND NOT (of_nat (LOS_SECTION_SIZE - 1))"

definition LOS_CHUNK_INDEX :: "u64 \<Rightarrow> u64 \<Rightarrow> nat" where
  "LOS_CHUNK_INDEX obj section = unat (drop_bit LOS_CHUNK_BITS (obj - section))"

record LOSSection =
  ls_addr :: u64
  ls_num_free_chunks :: nat
  ls_free_chunk_map :: "bool list"

record 'o los_heap =
  los_object_array_list :: SgenArrayList
  compact_los_objects :: bool
  los_memory_usage :: int
  los_memory_usage_total :: int
  los_sections :: "LOSSection list"
  los_fast_free_lists :: "(u64 \<times> nat) list list"
  los_num_objects :: int
  los_num_sections :: int
  lowest_heap_address :: u64
  highest_heap_address :: u64
  los_os :: 'o

record 'o los_env =
  vtable_has_references :: "u64 \<Rightarrow> bool"
  alloc_os_memory :: "nat \<Rightarrow> 'o \<Rightarrow> u64 \<times> 'o"
  alloc_os_memory_aligned :: "nat \<Rightarrow> nat \<Rightarrow> 'o \<Rightarrow> u64 \<times> 'o"
  free_os_memory :: "u64 \<Rightarrow> nat \<Rightarrow> 'o \<Rightarrow> 'o"
  memgov_try_alloc_space :: "nat \<Rightarrow> 'o \<Rightarrow> bool \<times> 'o"
  memgov_release_space :: "nat \<Rightarrow> 'o \<Rightarrow> 'o"
  ensure_free_space :: "nat \<Rightarrow> memory \<times> 'o los_heap \<Rightarrow> (memory \<times> 'o los_heap) option"

definition section_at :: "u64 \<Rightarrow> LOSSection list \<Rightarrow> LOSSection option" where
  "section_at base secs = find (\<lambda>s. ls_addr s = base) secs"

definition put_section :: "LOSSection \<Rightarrow> 'o los_heap \<Rightarrow> 'o los_heap" where
  "put_section sec h = h\<lparr>los_sections := map (\<lambda>s. if ls_addr s = ls_addr sec then sec else s) (los_sections h)\<rparr>"

text \<open>The loop that turns \<open>n\<close> entries of the map, which all have the other value, to \<open>v\<close>.\<close>

fun set_chunks :: "bool \<Rightarrow> nat \<Rightarrow> nat \<Rightarrow> bool list \<Rightarrow> bool list option" where
  "set_chunks v i 0 m = Some m"
| "set_chunks v i (Suc n) m = (if i < length m \<and> m ! i \<noteq> v then set_chunks v (i + 1) n (m[i := v]) else None)"

section \<open>Free chunks\<close>

definition add_free_chunk :: "u64 \<Rightarrow> nat \<Rightarrow> (u64 \<times> nat) list list \<Rightarrow> (u64 \<times> nat) list list" where
  "add_free_chunk free_chunks size' lists' =
    (let num_chunks = size' div 2 ^ LOS_CHUNK_BITS;
         num_chunks = (if num_chunks \<ge> LOS_NUM_FAST_SIZES then 0 else num_chunks) in
     lists'[num_chunks := (free_chunks, size') # lists' ! num_chunks])"

text \<open>The counter of free chunks is unsigned: the assertion that it is not negative says nothing.\<close>

definition size_t_minus :: "nat \<Rightarrow> nat \<Rightarrow> nat" where
  "size_t_minus a b = (a + (2 ^ 64 - b)) mod 2 ^ 64"

text \<open>The first entry that is large enough, and the list without it.\<close>

fun unlink_first_fit :: "nat \<Rightarrow> (u64 \<times> nat) list \<Rightarrow> ((u64 \<times> nat) \<times> (u64 \<times> nat) list) option" where
  "unlink_first_fit size' [] = None"
| "unlink_first_fit size' (fc # fcs) =
    (if snd fc \<ge> size' then Some (fc, fcs)
     else map_option (\<lambda>(found, fcs). (found, fc # fcs)) (unlink_first_fit size' fcs))"

definition get_from_size_list :: "nat \<Rightarrow> nat \<Rightarrow> 'o los_heap \<Rightarrow> (u64 \<times> 'o los_heap) option" where
  "get_from_size_list i size' h =
    (if size' mod LOS_CHUNK_SIZE \<noteq> 0 then None
     else case unlink_first_fit size' (los_fast_free_lists h ! i) of
       None \<Rightarrow> Some (0, h)
     | Some ((free_chunks, fc_size), rest) \<Rightarrow>
         let lists' = (los_fast_free_lists h)[i := rest];
             lists' = (if fc_size > size' then add_free_chunk (free_chunks + of_nat size') (fc_size - size') lists' else lists');
             num_chunks = size' div 2 ^ LOS_CHUNK_BITS in
         do {
           sec \<leftarrow> section_at (LOS_SECTION_FOR_OBJ free_chunks) (los_sections h);
           m \<leftarrow> set_chunks False (LOS_CHUNK_INDEX free_chunks (ls_addr sec)) num_chunks (ls_free_chunk_map sec);
           Some (free_chunks, put_section
             (sec\<lparr>ls_free_chunk_map := m, ls_num_free_chunks := size_t_minus (ls_num_free_chunks sec) num_chunks\<rparr>)
             (h\<lparr>los_fast_free_lists := lists'\<rparr>)) })"

fun get_from_lists :: "nat list \<Rightarrow> nat \<Rightarrow> 'o los_heap \<Rightarrow> (u64 \<times> 'o los_heap) option" where
  "get_from_lists [] size' h = Some (0, h)"
| "get_from_lists (i # is) size' h =
    do {
      (free_chunks, h) \<leftarrow> get_from_size_list i size' h;
      if free_chunks \<noteq> 0 then Some (free_chunks, h) else get_from_lists is size' h }"

definition get_free_chunks :: "nat \<Rightarrow> 'o los_heap \<Rightarrow> (u64 \<times> 'o los_heap) option" where
  "get_free_chunks size' h =
    (let num_chunks = size' div 2 ^ LOS_CHUNK_BITS in
     if num_chunks \<ge> LOS_NUM_FAST_SIZES then get_from_size_list 0 size' h
     else get_from_lists ([num_chunks..<LOS_NUM_FAST_SIZES] @ [0]) size' h)"

definition randomize_los_object_start :: "u64 \<Rightarrow> nat \<Rightarrow> nat \<Rightarrow> nat \<Rightarrow> u64 option" where
  "randomize_los_object_start addr obj_size alloced_size addr_alignment =
    (let offset = (if alloced_size \<noteq> obj_size
           then unat ((addr - 1) * 2654435761) mod (alloced_size - obj_size) div 8 * 8 else 0) in
     if alloced_size - obj_size < addr_alignment then Some (addr + of_nat offset) else None)"

section \<open>New sections\<close>

definition los_new_section :: "'o los_env \<Rightarrow> memory \<Rightarrow> 'o los_heap \<Rightarrow> (bool \<times> memory \<times> 'o los_heap) option" where
  "los_new_section env mem h =
    do {
      (granted, mem, h) \<leftarrow>
        (case memgov_try_alloc_space env LOS_SECTION_SIZE (los_os h) of (granted, os) \<Rightarrow>
           if granted then Some (True, mem, h\<lparr>los_os := os\<rparr>)
           else do {
             (mem, h) \<leftarrow> ensure_free_space env LOS_SECTION_SIZE (mem, h\<lparr>los_os := os\<rparr>);
             case memgov_try_alloc_space env LOS_SECTION_SIZE (los_os h) of (granted, os) \<Rightarrow>
               Some (granted, mem, h\<lparr>los_os := os\<rparr>) });
      if \<not> granted then Some (False, mem, h)
      else case alloc_os_memory_aligned env LOS_SECTION_SIZE LOS_SECTION_SIZE (los_os h) of (section, os) \<Rightarrow>
        if section = 0 then Some (False, mem, h\<lparr>los_os := os\<rparr>)
        else Some (True, mem, h\<lparr>los_os := os,
          los_fast_free_lists := (los_fast_free_lists h)[0 :=
            (section + of_nat LOS_CHUNK_SIZE, LOS_SECTION_SIZE - LOS_CHUNK_SIZE) # los_fast_free_lists h ! 0],
          los_sections := \<lparr>ls_addr = section, ls_num_free_chunks = LOS_SECTION_NUM_CHUNKS,
            ls_free_chunk_map = False # replicate LOS_SECTION_NUM_CHUNKS True\<rparr> # los_sections h,
          los_memory_usage_total := los_memory_usage_total h + int LOS_SECTION_SIZE,
          los_num_sections := los_num_sections h + 1\<rparr>) }"

partial_function (option) los_section_retry ::
    "'o los_env \<Rightarrow> nat \<Rightarrow> memory \<Rightarrow> 'o los_heap \<Rightarrow> (u64 \<times> memory \<times> 'o los_heap) option" where
  "los_section_retry env size' mem h =
    do {
      (free_chunks, h) \<leftarrow> get_free_chunks size' h;
      if free_chunks \<noteq> 0 then Some (free_chunks, mem, h)
      else do {
        (ok, mem, h) \<leftarrow> los_new_section env mem h;
        if ok then los_section_retry env size' mem h else Some (0, mem, h) } }"

declare los_section_retry.simps [code]

definition get_los_section_memory ::
    "'o los_env \<Rightarrow> nat \<Rightarrow> memory \<Rightarrow> 'o los_heap \<Rightarrow> (u64 \<times> memory \<times> 'o los_heap) option" where
  "get_los_section_memory env obj_size mem h =
    (let size' = SGEN_ALIGN_UP_TO obj_size LOS_CHUNK_SIZE in
     if size' = 0 \<or> size' - SIZEOF_LOSObject > LOS_SECTION_OBJECT_LIMIT then None
     else do {
       (free_chunks, mem, h) \<leftarrow> los_section_retry env size' mem h;
       if free_chunks \<noteq> 0 then do {
         obj \<leftarrow> randomize_los_object_start free_chunks obj_size size' LOS_CHUNK_SIZE;
         Some (obj, mem, h) }
       else Some (0, mem, h) })"

section \<open>Objects\<close>

definition sgen_los_object_size :: "memory \<Rightarrow> u64 \<Rightarrow> nat" where
  "sgen_los_object_size mem obj = unat (mem obj AND NOT 1)"

definition LOS_OBJECT_DATA :: "u64 \<Rightarrow> u64" where
  "LOS_OBJECT_DATA obj = obj + of_nat SIZEOF_LOSObject"

definition sgen_los_header_for_object :: "u64 \<Rightarrow> u64" where
  "sgen_los_header_for_object data = data - of_nat SIZEOF_LOSObject"

definition LOS_OBJECT_IS_TAGGED_HAS_REFERENCES :: "u64 \<Rightarrow> bool" where
  "LOS_OBJECT_IS_TAGGED_HAS_REFERENCES bl \<longleftrightarrow> bl AND 1 \<noteq> 0"

definition LOS_OBJECT_UNTAG :: "u64 \<Rightarrow> u64" where
  "LOS_OBJECT_UNTAG bl = bl AND NOT 1"

definition LOS_OBJECT_TAG :: "'o los_env \<Rightarrow> memory \<Rightarrow> u64 \<Rightarrow> u64" where
  "LOS_OBJECT_TAG env mem bl =
    (if vtable_has_references env (SGEN_LOAD_VTABLE mem (LOS_OBJECT_DATA bl)) then bl OR 1 else bl)"

definition sgen_update_heap_boundaries :: "u64 \<Rightarrow> u64 \<Rightarrow> 'o los_heap \<Rightarrow> 'o los_heap" where
  "sgen_update_heap_boundaries low high h =
    h\<lparr>lowest_heap_address := (if low < lowest_heap_address h then low else lowest_heap_address h),
      highest_heap_address := (if high > highest_heap_address h then high else highest_heap_address h)\<rparr>"

definition sgen_los_pin_object :: "u64 \<Rightarrow> memory \<Rightarrow> memory" where
  "sgen_los_pin_object data mem = (let obj = sgen_los_header_for_object data in mem(obj := mem obj OR 1))"

definition sgen_los_unpin_object :: "u64 \<Rightarrow> memory \<Rightarrow> memory" where
  "sgen_los_unpin_object data mem = (let obj = sgen_los_header_for_object data in mem(obj := mem obj AND NOT 1))"

definition sgen_los_object_is_pinned :: "memory \<Rightarrow> u64 \<Rightarrow> bool" where
  "sgen_los_object_is_pinned mem data \<longleftrightarrow> mem (sgen_los_header_for_object data) AND 1 \<noteq> 0"

text \<open>One thread of those that mark in parallel: the one that sets the bit marks the object.\<close>

definition sgen_los_pin_object_par :: "u64 \<Rightarrow> memory \<Rightarrow> bool \<times> memory" where
  "sgen_los_pin_object_par data mem =
    (let obj = sgen_los_header_for_object data in
     if mem obj AND 1 \<noteq> 0 then (False, mem) else (True, mem(obj := mem obj OR 1)))"

section \<open>Allocation and freeing\<close>

text \<open>Memory for an object: pages of its own, or chunks of a section, cleared.\<close>

definition los_object_memory :: "'o los_env \<Rightarrow> nat \<Rightarrow> memory \<Rightarrow> 'o los_heap \<Rightarrow> (u64 \<times> memory \<times> 'o los_heap) option" where
  "los_object_memory env size' mem h =
    (if size' > LOS_SECTION_OBJECT_LIMIT then
       let obj_size = size' + SIZEOF_LOSObject; alloc_size = SGEN_ALIGN_UP_TO obj_size mono_pagesize in
       case memgov_try_alloc_space env alloc_size (los_os h) of (granted, os) \<Rightarrow>
         if \<not> granted then Some (0, mem, h\<lparr>los_os := os\<rparr>)
         else case alloc_os_memory env alloc_size os of (obj, os) \<Rightarrow>
           if obj = 0 then Some (0, mem, h\<lparr>los_os := os\<rparr>)
           else do {
             obj \<leftarrow> randomize_los_object_start obj obj_size alloc_size mono_pagesize;
             Some (obj, mem, h\<lparr>los_os := os, los_memory_usage_total := los_memory_usage_total h + int alloc_size\<rparr>) }
     else do {
       (obj, mem, h) \<leftarrow> get_los_section_memory env (size' + SIZEOF_LOSObject) mem h;
       Some (obj, if obj \<noteq> 0 then memset_zero obj (size' + SIZEOF_LOSObject) mem else mem, h) })"

definition sgen_los_alloc_large_inner ::
    "'o los_env \<Rightarrow> u64 \<Rightarrow> nat \<Rightarrow> memory \<Rightarrow> 'o los_heap \<Rightarrow> (u64 \<times> memory \<times> 'o los_heap) option" where
  "sgen_los_alloc_large_inner env vtable size' mem h =
    (if size' \<le> unat SGEN_MAX_SMALL_OBJ_SIZE \<or> odd size' then None
     else if size' > SSIZE_MAX - (mono_pagesize - 1) - SIZEOF_LOSObject then Some (0, mem, h)
     else do {
       (mem, h) \<leftarrow> ensure_free_space env size' (mem, h);
       (obj, mem, h) \<leftarrow> los_object_memory env size' mem h;
       if obj = 0 then Some (0, mem, h)
       else if LOS_OBJECT_DATA obj AND (8 - 1) \<noteq> 0 then None
       else
         let mem = mem(obj := of_nat size', LOS_OBJECT_DATA obj := vtable);
             h = sgen_update_heap_boundaries (LOS_OBJECT_DATA obj) (LOS_OBJECT_DATA obj + of_nat size') h in
         do {
           (_, array) \<leftarrow> sgen_array_list_add (LOS_OBJECT_TAG env mem obj) 0 False (los_object_array_list h);
           Some (LOS_OBJECT_DATA obj, mem, h\<lparr>los_object_array_list := array,
             los_memory_usage := los_memory_usage h + int size', los_num_objects := los_num_objects h + 1\<rparr>) } })"

definition free_los_section_memory :: "u64 \<Rightarrow> nat \<Rightarrow> 'o los_heap \<Rightarrow> 'o los_heap option" where
  "free_los_section_memory obj size' h =
    (let size' = SGEN_ALIGN_UP_TO size' LOS_CHUNK_SIZE; num_chunks = size' div 2 ^ LOS_CHUNK_BITS in
     do {
       sec \<leftarrow> section_at (LOS_SECTION_FOR_OBJ obj) (los_sections h);
       if size' = 0 \<or> size' - SIZEOF_LOSObject > LOS_SECTION_OBJECT_LIMIT \<or>
         ls_num_free_chunks sec + num_chunks > LOS_SECTION_NUM_CHUNKS then None
       else do {
         m \<leftarrow> set_chunks True (LOS_CHUNK_INDEX obj (ls_addr sec)) num_chunks (ls_free_chunk_map sec);
         Some (put_section (sec\<lparr>ls_free_chunk_map := m, ls_num_free_chunks := ls_num_free_chunks sec + num_chunks\<rparr>)
           (h\<lparr>los_fast_free_lists :=
             add_free_chunk (SGEN_ALIGN_DOWN_TO obj LOS_CHUNK_SIZE) size' (los_fast_free_lists h)\<rparr>)) } })"

definition sgen_los_free_object :: "'o los_env \<Rightarrow> memory \<Rightarrow> u64 \<Rightarrow> 'o los_heap \<Rightarrow> 'o los_heap option" where
  "sgen_los_free_object env mem obj h =
    (let size' = sgen_los_object_size mem obj;
         h = h\<lparr>los_memory_usage := los_memory_usage h - int size', los_num_objects := los_num_objects h - 1\<rparr> in
     if size' > LOS_SECTION_OBJECT_LIMIT then
       let size' = SGEN_ALIGN_UP_TO (size' + SIZEOF_LOSObject) mono_pagesize in
       Some (h\<lparr>los_os := memgov_release_space env size'
           (free_os_memory env (SGEN_ALIGN_DOWN_TO obj mono_pagesize) size' (los_os h)),
         los_memory_usage_total := los_memory_usage_total h - int size'\<rparr>)
     else free_los_section_memory obj (size' + SIZEOF_LOSObject) h)"

section \<open>Sweeping\<close>

fun los_sweep_slots :: "'o los_env \<Rightarrow> (nat \<times> nat \<times> nat) list \<Rightarrow> memory \<Rightarrow> 'o los_heap \<Rightarrow> (memory \<times> 'o los_heap) option" where
  "los_sweep_slots env [] mem h = Some (mem, h)"
| "los_sweep_slots env ((index, slot) # slots) mem h =
    do {
      v \<leftarrow> read_slot slot (los_object_array_list h);
      let obj = LOS_OBJECT_UNTAG v;
      if obj = 0 then los_sweep_slots env slots mem h
      else if SGEN_OBJECT_IS_PINNED mem (LOS_OBJECT_DATA obj) then None
      else if sgen_los_object_is_pinned mem (LOS_OBJECT_DATA obj) then
        (let mem = sgen_los_unpin_object (LOS_OBJECT_DATA obj) mem in
         los_sweep_slots env slots mem (sgen_update_heap_boundaries (LOS_OBJECT_DATA obj)
           (LOS_OBJECT_DATA obj + of_nat (sgen_los_object_size mem obj)) h))
      else do {
        array \<leftarrow> write_slot slot 0 (los_object_array_list h);
        h \<leftarrow> sgen_los_free_object env mem obj (h\<lparr>los_object_array_list := array\<rparr>);
        los_sweep_slots env slots mem (h\<lparr>compact_los_objects := True\<rparr>) } }"

text \<open>The runs of free chunks of a section, from index \<open>i\<close> on: start and length.\<close>

fun free_runs :: "nat \<Rightarrow> bool list \<Rightarrow> (nat \<times> nat) list" where
  "free_runs i [] = []"
| "free_runs i (b # m) =
    (if b then
       let n = length (takeWhile id m) in (i, n + 1) # free_runs (i + n + 1) (drop n m)
     else free_runs (i + 1) m)"

definition add_free_runs :: "LOSSection \<Rightarrow> (u64 \<times> nat) list list \<Rightarrow> (u64 \<times> nat) list list" where
  "add_free_runs sec lists' =
    fold (\<lambda>(i, n). add_free_chunk (ls_addr sec + of_nat (i * 2 ^ LOS_CHUNK_BITS)) (n * 2 ^ LOS_CHUNK_BITS))
      (free_runs 0 (ls_free_chunk_map sec)) lists'"

fun los_sweep_sections :: "'o los_env \<Rightarrow> LOSSection list \<Rightarrow> 'o los_heap \<Rightarrow> 'o los_heap" where
  "los_sweep_sections env [] h = h"
| "los_sweep_sections env (sec # secs) h =
    (if ls_num_free_chunks sec = LOS_SECTION_NUM_CHUNKS then
       los_sweep_sections env secs (h\<lparr>los_sections := remove1 sec (los_sections h),
         los_os := memgov_release_space env LOS_SECTION_SIZE (free_os_memory env (ls_addr sec) LOS_SECTION_SIZE (los_os h)),
         los_num_sections := los_num_sections h - 1, los_memory_usage_total := los_memory_usage_total h - int LOS_SECTION_SIZE\<rparr>)
     else los_sweep_sections env secs (h\<lparr>los_fast_free_lists := add_free_runs sec (los_fast_free_lists h)\<rparr>))"

definition sgen_los_sweep :: "'o los_env \<Rightarrow> memory \<Rightarrow> 'o los_heap \<Rightarrow> (memory \<times> 'o los_heap) option" where
  "sgen_los_sweep env mem h =
    do {
      (mem, h) \<leftarrow> los_sweep_slots env (SGEN_ARRAY_LIST_FOREACH_SLOT (los_object_array_list h)) mem h;
      h \<leftarrow> (if compact_los_objects h then
              map_option (\<lambda>array. h\<lparr>los_object_array_list := array, compact_los_objects := False\<rparr>)
                (sgen_array_list_remove_nulls (los_object_array_list h))
            else Some h);
      let h = los_sweep_sections env (los_sections h) (h\<lparr>los_fast_free_lists := replicate LOS_NUM_FAST_SIZES []\<rparr>);
      if los_num_sections h = int (length (los_sections h)) then Some (mem, h) else None }"

section \<open>Visiting the objects\<close>

text \<open>\<open>FOREACH_LOS_OBJECT_NO_LOCK\<close> and \<open>FOREACH_LOS_OBJECT_HAS_REFERENCES_NO_LOCK\<close> over the slots given.\<close>

fun los_foreach :: "(nat \<times> nat \<times> nat) list \<Rightarrow> SgenArrayList \<Rightarrow> u64 list option" where
  "los_foreach [] array = Some []"
| "los_foreach ((index, slot) # slots) array =
    do {
      v \<leftarrow> read_slot slot array;
      objs \<leftarrow> los_foreach slots array;
      Some (if LOS_OBJECT_UNTAG v = 0 then objs else LOS_OBJECT_UNTAG v # objs) }"

fun los_foreach_has_references :: "(nat \<times> nat \<times> nat) list \<Rightarrow> SgenArrayList \<Rightarrow> (u64 \<times> bool) list option" where
  "los_foreach_has_references [] array = Some []"
| "los_foreach_has_references ((index, slot) # slots) array =
    do {
      v \<leftarrow> read_slot slot array;
      objs \<leftarrow> los_foreach_has_references slots array;
      Some (if v = 0 then objs else (LOS_OBJECT_UNTAG v, LOS_OBJECT_IS_TAGGED_HAS_REFERENCES v) # objs) }"

text \<open>The arguments the callback gets, in order.\<close>

definition sgen_los_iterate_objects :: "memory \<Rightarrow> SgenArrayList \<Rightarrow> (u64 \<times> nat) list option" where
  "sgen_los_iterate_objects mem array =
    map_option (map (\<lambda>obj. (LOS_OBJECT_DATA obj, sgen_los_object_size mem obj))) (los_foreach (SGEN_ARRAY_LIST_FOREACH_SLOT array) array)"

fun ptr_in_los_slots :: "(nat \<times> nat \<times> nat) list \<Rightarrow> memory \<Rightarrow> SgenArrayList \<Rightarrow> u64 \<Rightarrow> (bool \<times> u64) option" where
  "ptr_in_los_slots [] mem array ptr = Some (False, 0)"
| "ptr_in_los_slots ((index, slot) # slots) mem array ptr =
    do {
      v \<leftarrow> read_slot slot array;
      let obj = LOS_OBJECT_UNTAG v;
      if obj = 0 then ptr_in_los_slots slots mem array ptr
      else
        let end' = LOS_OBJECT_DATA obj + of_nat (sgen_los_object_size mem obj) in
        if ptr \<ge> LOS_OBJECT_DATA obj \<and> ptr < end' then Some (True, LOS_OBJECT_DATA obj)
        else ptr_in_los_slots slots mem array ptr }"

definition sgen_ptr_is_in_los :: "memory \<Rightarrow> SgenArrayList \<Rightarrow> u64 \<Rightarrow> (bool \<times> u64) option" where
  "sgen_ptr_is_in_los mem array ptr = ptr_in_los_slots (SGEN_ARRAY_LIST_FOREACH_SLOT array) mem array ptr"

fun valid_object_slots :: "(nat \<times> nat \<times> nat) list \<Rightarrow> SgenArrayList \<Rightarrow> u64 \<Rightarrow> bool option" where
  "valid_object_slots [] array object = Some False"
| "valid_object_slots ((index, slot) # slots) array object =
    do {
      v \<leftarrow> read_slot slot array;
      let obj = LOS_OBJECT_UNTAG v;
      if obj = 0 then valid_object_slots slots array object
      else if LOS_OBJECT_DATA obj = object then Some True
      else valid_object_slots slots array object }"

definition sgen_los_is_valid_object :: "SgenArrayList \<Rightarrow> u64 \<Rightarrow> bool option" where
  "sgen_los_is_valid_object array object = valid_object_slots (SGEN_ARRAY_LIST_FOREACH_SLOT array) array object"

definition sgen_los_iterate_live_block_ranges :: "memory \<Rightarrow> SgenArrayList \<Rightarrow> (u64 \<times> nat) list option" where
  "sgen_los_iterate_live_block_ranges mem array =
    map_option (\<lambda>objs. [(LOS_OBJECT_DATA obj, sgen_los_object_size mem obj). (obj, has_references) \<leftarrow> objs, has_references])
      (los_foreach_has_references (SGEN_ARRAY_LIST_FOREACH_SLOT array) array)"

text \<open>The part of the list that a job visits.\<close>

definition get_los_object_range_for_job :: "SgenArrayList \<Rightarrow> nat \<Rightarrow> nat \<Rightarrow> (nat \<times> nat) option" where
  "get_los_object_range_for_job array job_index job_split_count =
    (if job_split_count = 0 then None
     else let object_count = al_next_slot array div job_split_count in
       Some (object_count * job_index,
         if int job_index = int job_split_count - 1 then al_next_slot array else object_count * (job_index + 1)))"

definition sgen_los_iterate_live_block_range_jobs :: "memory \<Rightarrow> SgenArrayList \<Rightarrow> nat \<Rightarrow> nat \<Rightarrow> (u64 \<times> nat) list option" where
  "sgen_los_iterate_live_block_range_jobs mem array job_index job_split_count =
    do {
      (start, end') \<leftarrow> get_los_object_range_for_job array job_index job_split_count;
      objs \<leftarrow> los_foreach_has_references (map (\<lambda>i. (i, sgen_array_list_bucketize i)) [start..<end']) array;
      Some [(LOS_OBJECT_DATA obj, sgen_los_object_size mem obj). (obj, has_references) \<leftarrow> objs, has_references] }"

section \<open>The consistency check\<close>

definition chunk_bits :: "bool \<Rightarrow> nat \<Rightarrow> nat \<Rightarrow> LOSSection \<Rightarrow> bool" where
  "chunk_bits v start n section' \<longleftrightarrow>
    list_all (\<lambda>i. i < length (ls_free_chunk_map section') \<and> ls_free_chunk_map section' ! i = v) [start..<start + n]"

definition check_los_object :: "memory \<Rightarrow> 'o los_heap \<Rightarrow> u64 \<Rightarrow> bool" where
  "check_los_object mem h obj \<longleftrightarrow>
    (let obj_size = sgen_los_object_size mem obj; end' = LOS_OBJECT_DATA obj + of_nat obj_size in
     obj_size > LOS_SECTION_OBJECT_LIMIT \<or>
     (case section_at (LOS_SECTION_FOR_OBJ obj) (los_sections h) of
        None \<Rightarrow> False
      | Some section' \<Rightarrow> end' \<le> ls_addr section' + of_nat LOS_SECTION_SIZE \<and>
          chunk_bits False (LOS_CHUNK_INDEX obj (ls_addr section'))
            ((obj_size + SIZEOF_LOSObject + LOS_CHUNK_SIZE - 1) div 2 ^ LOS_CHUNK_BITS) section'))"

definition check_free_chunk :: "'o los_heap \<Rightarrow> nat \<Rightarrow> u64 \<times> nat \<Rightarrow> bool" where
  "check_free_chunk h i fc \<longleftrightarrow>
    (if i = 0 then snd fc \<ge> LOS_NUM_FAST_SIZES * LOS_CHUNK_SIZE else snd fc = i * LOS_CHUNK_SIZE) \<and>
    (case section_at (LOS_SECTION_FOR_OBJ (fst fc)) (los_sections h) of
       None \<Rightarrow> False
     | Some section' \<Rightarrow> chunk_bits True (LOS_CHUNK_INDEX (fst fc) (ls_addr section')) (snd fc div 2 ^ LOS_CHUNK_BITS) section')"

definition los_consistency_check :: "memory \<Rightarrow> 'o los_heap \<Rightarrow> bool" where
  "los_consistency_check mem h \<longleftrightarrow>
    (case los_foreach (SGEN_ARRAY_LIST_FOREACH_SLOT (los_object_array_list h)) (los_object_array_list h) of
       None \<Rightarrow> False
     | Some objs \<Rightarrow> list_all (check_los_object mem h) objs \<and>
         list_all (\<lambda>i. list_all (check_free_chunk h i) (los_fast_free_lists h ! i)) [0..<LOS_NUM_FAST_SIZES] \<and>
         los_memory_usage h = (\<Sum>obj\<leftarrow>objs. int (sgen_los_object_size mem obj)))"

end
