(* ===== verification/Sgen_LosAlloc.thy ===== *)
theory Sgen_LosAlloc
  imports Sgen_Los Sgen_MemGovernor
begin

unbundle bit_operations_syntax

text \<open>
  The allocation of large objects: the heap's invariant (the free runs and the small objects partition
  the chunks of the sections, the huge objects lie apart, the object list holds every object once), the
  contracts of the operating system and of the collections an allocation may start, and that an
  allocation keeps the invariant and returns memory of its own.
\<close>

section \<open>Addresses of chunks\<close>

lemma los_consts: "LOS_SECTION_SIZE = 1048576" "LOS_CHUNK_SIZE = 4096" "LOS_CHUNK_BITS = 12" "SIZEOF_LOSObject = 16"
    "LOS_SECTION_OBJECT_LIMIT = 1044464" "LOS_SECTION_NUM_CHUNKS = 255" "LOS_NUM_FAST_SIZES = 32" "mono_pagesize = 4096"
    "unat SGEN_MAX_SMALL_OBJ_SIZE = 8000"
  by (simp_all add: LOS_SECTION_SIZE_def LOS_CHUNK_SIZE_def LOS_CHUNK_BITS_def SIZEOF_LOSObject_def LOS_SECTION_OBJECT_LIMIT_def
      LOS_SECTION_NUM_CHUNKS_def LOS_NUM_FAST_SIZES_def mono_pagesize_def SGEN_MAX_SMALL_OBJ_SIZE_def)

lemma unat_and_not_mask: "unat (a AND NOT (mask n) :: u64) = unat a div 2 ^ n * 2 ^ n"
proof -
  have "a AND NOT (mask n) = push_bit n (drop_bit n a)"
    by (rule bit_word_eqI) (auto simp: bit_simps)
  moreover have "unat (push_bit n (drop_bit n a)) = take_bit 64 (push_bit n (drop_bit n (unat a)))"
    by (simp only: unsigned_push_bit_eq unat_drop_bit_eq) simp
  moreover have "push_bit n (drop_bit n (unat a)) = unat a div 2 ^ n * 2 ^ n" by (simp add: push_bit_eq_mult drop_bit_eq_div)
  moreover have "unat a < 2 ^ 64" using unsigned_less [of a, where 'a = nat] by simp
  moreover from this have "unat a div 2 ^ n * 2 ^ n < 2 ^ 64" by (rule order_le_less_trans [OF div_times_less_eq_dividend])
  ultimately show ?thesis by (simp add: take_bit_nat_eq_self)
qed

definition sec_aligned :: "u64 \<Rightarrow> bool" where
  "sec_aligned b \<longleftrightarrow> b \<noteq> 0 \<and> b AND mask 20 = 0"

definition caddr :: "u64 \<Rightarrow> nat \<Rightarrow> u64" where
  "caddr b c = b + of_nat (4096 * c)"

lemma sec_aligned_unat: "sec_aligned b \<Longrightarrow> 1048576 dvd unat b \<and> unat b + 1048576 \<le> 2 ^ 64 \<and> b \<noteq> 0"
proof -
  assume b: "sec_aligned b"
  then have "take_bit 20 b = 0" by (simp add: sec_aligned_def take_bit_eq_mask)
  then have "unat b mod 2 ^ 20 = 0" using unat_take_bit_mod [of 20 b] by simp
  then have d: "1048576 dvd unat b" by (simp add: dvd_eq_mod_eq_0)
  then obtain k where k: "unat b = 1048576 * k" by blast
  then have "k < 2 ^ 44" using unsigned_less [of b, where 'a = nat] by simp
  then show ?thesis using d k b by (simp add: sec_aligned_def)
qed

lemma caddr_off:
  assumes b: "sec_aligned b" and c: "c < 256" "off < 4096"
  shows "unat (caddr b c + of_nat off) = unat b + 4096 * c + off"
    "LOS_SECTION_FOR_OBJ (caddr b c + of_nat off) = b" "LOS_CHUNK_INDEX (caddr b c + of_nat off) b = c"
    "SGEN_ALIGN_DOWN_TO (caddr b c + of_nat off) 4096 = caddr b c"
proof -
  note u = sec_aligned_unat [OF b]
  have e: "caddr b c + of_nat off = b + of_nat (4096 * c + off)" by (simp add: caddr_def)
  have lt: "4096 * c + off < 1048576" using c by simp
  have unat_off: "unat (b + of_nat m) = unat b + m" if "m < 1048576" for m
    using u that by (simp add: unat_word_ariths unat_of_nat take_bit_nat_eq_self)
  show 1: "unat (caddr b c + of_nat off) = unat b + 4096 * c + off" unfolding e using unat_off [OF lt] by simp
  have c0: "unat (caddr b c) = unat b + 4096 * c" using unat_off [of "4096 * c"] c by (simp add: caddr_def)
  have m20: "(of_nat (LOS_SECTION_SIZE - 1) :: u64) = mask 20" by (simp add: los_consts mask_eq_exp_minus_1)
  have "(unat b + 4096 * c + off) div 1048576 * 1048576 = unat b"
    using u lt by (auto elim!: dvdE)
  then have "unat (LOS_SECTION_FOR_OBJ (caddr b c + of_nat off)) = unat b"
    unfolding LOS_SECTION_FOR_OBJ_def m20 unat_and_not_mask 1 by simp
  then show "LOS_SECTION_FOR_OBJ (caddr b c + of_nat off) = b" by (simp add: word_unat_eq_iff)
  have "caddr b c + of_nat off - b = of_nat (4096 * c + off)" unfolding e by simp
  then have "unat (caddr b c + of_nat off - b) = 4096 * c + off"
    using lt by (simp only: unat_of_nat) (simp add: take_bit_nat_eq_self)
  then show "LOS_CHUNK_INDEX (caddr b c + of_nat off) b = c"
    unfolding LOS_CHUNK_INDEX_def los_consts unat_drop_bit_eq using c(2) by (simp add: drop_bit_eq_div)
  have m12: "(of_nat (4096 - 1) :: u64) = mask 12" by (simp add: mask_eq_exp_minus_1)
  obtain k where k: "unat b = 1048576 * k" using u by blast
  have "(unat b + 4096 * c + off) div 4096 * 4096 = unat b + 4096 * c" 
  proof -
    have "unat b + 4096 * c + off = off + 4096 * (256 * k + c)" using k by simp
    moreover have "(off + 4096 * (256 * k + c)) div 4096 = 256 * k + c" using c(2) by (subst div_mult_self2) simp_all
    ultimately show ?thesis using k by (simp add: algebra_simps)
  qed
  then have "unat (SGEN_ALIGN_DOWN_TO (caddr b c + of_nat off) 4096) = unat (caddr b c)"
    unfolding SGEN_ALIGN_DOWN_TO_def m12 unat_and_not_mask 1 c0 by simp
  then show "SGEN_ALIGN_DOWN_TO (caddr b c + of_nat off) 4096 = caddr b c" by (simp add: word_unat_eq_iff)
qed

lemma caddr_facts:
  assumes "sec_aligned b" "c < 256"
  shows "unat (caddr b c) = unat b + 4096 * c" "LOS_SECTION_FOR_OBJ (caddr b c) = b" "LOS_CHUNK_INDEX (caddr b c) b = c" "caddr b c \<noteq> 0"
proof -
  note o = caddr_off [OF assms, of 0]
  show "unat (caddr b c) = unat b + 4096 * c" "LOS_SECTION_FOR_OBJ (caddr b c) = b" "LOS_CHUNK_INDEX (caddr b c) b = c"
    using o by simp_all
  then show "caddr b c \<noteq> 0" using sec_aligned_unat [OF assms(1)] by (auto simp: word_unat_eq_iff)
qed

lemma caddr_inj: "sec_aligned b \<Longrightarrow> sec_aligned b' \<Longrightarrow> c < 256 \<Longrightarrow> c' < 256 \<Longrightarrow> caddr b c = caddr b' c' \<longleftrightarrow> b = b' \<and> c = c'"
  using caddr_facts(2,3) by metis

lemma caddr_add: "caddr b c + of_nat (4096 * j) = caddr b (c + j)"
  by (simp add: caddr_def algebra_simps)

section \<open>Free runs and free chunks\<close>

lemma set_chunks_ok:
  "i + n \<le> length m \<Longrightarrow> (\<And>c. i \<le> c \<Longrightarrow> c < i + n \<Longrightarrow> m ! c \<noteq> v) \<Longrightarrow>
    \<exists>m'. set_chunks v i n m = Some m' \<and> length m' = length m \<and>
      (\<forall>c<length m. m' ! c = (if i \<le> c \<and> c < i + n then v else m ! c))"
proof (induction n arbitrary: i m)
  case (Suc n)
  have "\<exists>m'. set_chunks v (i + 1) n (m[i := v]) = Some m' \<and> length m' = length (m[i := v]) \<and>
      (\<forall>c<length (m[i := v]). m' ! c = (if i + 1 \<le> c \<and> c < i + 1 + n then v else m[i := v] ! c))"
    using Suc.prems by (intro Suc.IH) simp_all
  then show ?case using Suc.prems(1) Suc.prems(2) [of i] by (auto simp: nth_list_update)
qed auto

definition entry_chunks :: "u64 \<times> nat \<Rightarrow> u64 list" where
  "entry_chunks e = map (\<lambda>j. fst e + of_nat (4096 * j)) [0..<snd e div 4096]"

definition run_entry_ok :: "u64 set \<Rightarrow> u64 \<times> nat \<Rightarrow> bool" where
  "run_entry_ok B e \<longleftrightarrow> (\<exists>b\<in>B. \<exists>c m. 1 \<le> c \<and> 0 < m \<and> c + m \<le> 256 \<and> e = (caddr b c, 4096 * m))"

definition sec_free :: "LOSSection \<Rightarrow> u64 list" where
  "sec_free s = map (caddr (ls_addr s)) (filter (\<lambda>c. ls_free_chunk_map s ! c) [0..<256])"

definition sec_ok :: "LOSSection \<Rightarrow> bool" where
  "sec_ok s \<longleftrightarrow> sec_aligned (ls_addr s) \<and> length (ls_free_chunk_map s) = 256 \<and> \<not> ls_free_chunk_map s ! 0 \<and>
    ls_num_free_chunks s = length (filter (\<lambda>c. ls_free_chunk_map s ! c) [0..<256])"

definition fast_index :: "nat \<Rightarrow> nat" where
  "fast_index n = (if n div 4096 \<ge> 32 then 0 else n div 4096)"

definition chunks_of :: "(u64 \<times> nat) list \<Rightarrow> u64 multiset" where
  "chunks_of es = (\<Sum>e\<in>#mset es. mset (entry_chunks e))"

definition free_of :: "LOSSection list \<Rightarrow> u64 multiset" where
  "free_of secs = (\<Sum>s\<in>#mset secs. mset (sec_free s))"

definition lists_ok :: "u64 set \<Rightarrow> (u64 \<times> nat) list list \<Rightarrow> bool" where
  "lists_ok B lists' \<longleftrightarrow> length lists' = 32 \<and> (\<forall>i<32. \<forall>e\<in>set (lists' ! i). run_entry_ok B e \<and> fast_index (snd e) = i)"

definition free_ok :: "LOSSection list \<Rightarrow> (u64 \<times> nat) list list \<Rightarrow> bool" where
  "free_ok secs lists' \<longleftrightarrow> distinct (map ls_addr secs) \<and> (\<forall>s\<in>set secs. sec_ok s) \<and>
    lists_ok (ls_addr ` set secs) lists' \<and> chunks_of (concat lists') = free_of secs"

lemma chunks_of_simps [simp]: "chunks_of [] = {#}" "chunks_of (e # es) = mset (entry_chunks e) + chunks_of es"
    "chunks_of (es @ fs) = chunks_of es + chunks_of fs"
  by (simp_all add: chunks_of_def)

lemma chunks_of_update: "i < length ls \<Longrightarrow> chunks_of (concat (ls[i := xs])) + chunks_of (ls ! i) = chunks_of (concat ls) + chunks_of xs"
proof (induction ls arbitrary: i)
  case (Cons l ls)
  then show ?case by (cases i) (simp_all add: ac_simps)
qed simp

lemma add_free_chunk_eq: "add_free_chunk p n lists' = lists'[fast_index n := (p, n) # lists' ! fast_index n]"
  by (simp add: add_free_chunk_def fast_index_def los_consts Let_def)

lemma fast_index_less: "fast_index n < 32"
  by (simp add: fast_index_def)

lemma add_free_chunk_ok:
  assumes "lists_ok B lists'" "run_entry_ok B (p, n)"
  shows "lists_ok B (add_free_chunk p n lists')"
    "chunks_of (concat (add_free_chunk p n lists')) = mset (entry_chunks (p, n)) + chunks_of (concat lists')"
proof -
  have len: "fast_index n < length lists'" using assms(1) fast_index_less by (simp add: lists_ok_def)
  show "lists_ok B (add_free_chunk p n lists')"
    using assms len unfolding lists_ok_def add_free_chunk_eq by (auto simp: nth_list_update)
  show "chunks_of (concat (add_free_chunk p n lists')) = mset (entry_chunks (p, n)) + chunks_of (concat lists')"
    using chunks_of_update [OF len, of "(p, n) # lists' ! fast_index n"] unfolding add_free_chunk_eq by simp
qed

lemma unlink_first_fit_None: "unlink_first_fit n es = None \<longleftrightarrow> (\<forall>e\<in>set es. snd e < n)"
  by (induction es) auto

lemma unlink_first_fit_Some: "unlink_first_fit n es = Some (e, rest) \<Longrightarrow>
    n \<le> snd e \<and> e \<in> set es \<and> set rest \<subseteq> set es \<and> chunks_of es = mset (entry_chunks e) + chunks_of rest"
proof (induction es arbitrary: rest)
  case (Cons a es)
  show ?case
  proof (cases "n \<le> snd a")
    case False
    then obtain r where r: "unlink_first_fit n es = Some (e, r)" "rest = a # r" using Cons.prems by auto
    with Cons.IH [OF r(1)] show ?thesis by (auto simp: ac_simps)
  qed (use Cons.prems in auto)
qed simp

lemma entry_chunks_caddr: "entry_chunks (caddr b c, 4096 * m) = map (caddr b) [c..<c + m]"
  unfolding entry_chunks_def by (rule nth_equalityI) (simp_all add: caddr_def algebra_simps)

lemma entry_chunks_split: "k \<le> m \<Longrightarrow> entry_chunks (caddr b c, 4096 * m) = entry_chunks (caddr b c, 4096 * k) @ entry_chunks (caddr b (c + k), 4096 * (m - k))"
  using upt_add_eq_append [of c "c + k" "m - k"] unfolding entry_chunks_caddr by simp

lemma section_at_mem: "distinct (map ls_addr secs) \<Longrightarrow> s \<in> set secs \<Longrightarrow> section_at (ls_addr s) secs = Some s"
  unfolding section_at_def by (induction secs) (auto simp: image_iff)

lemma filter_range: "c + k \<le> n \<Longrightarrow> filter (\<lambda>x. c \<le> x \<and> x < c + k) [0..<n] = [c..<c + k]"
proof -
  assume "c + k \<le> n"
  then have "[0..<n] = [0..<c] @ [c..<c + k] @ [c + k..<n]"
    by (metis add_diff_inverse_nat le_add1 le_trans less_imp_le not_less upt_add_eq_append zero_le append.assoc)
  then show ?thesis by (auto simp: filter_empty_conv filter_id_conv)
qed

lemma filter_split_range:
  assumes "c + k \<le> n" "\<And>x. x < n \<Longrightarrow> P x \<longleftrightarrow> Q x \<or> c \<le> x \<and> x < c + k" "\<And>x. c \<le> x \<Longrightarrow> x < c + k \<Longrightarrow> \<not> Q x"
  shows "mset (filter P [0..<n]) = mset [c..<c + k] + mset (filter Q [0..<n])"
proof -
  have e: "mset (filter P xs) = mset (filter (\<lambda>x. c \<le> x \<and> x < c + k) xs) + mset (filter Q xs)" if "\<forall>x\<in>set xs. x < n" for xs
    using that by (induction xs) (use assms(2,3) in auto)
  have "mset (filter P [0..<n]) = mset (filter (\<lambda>x. c \<le> x \<and> x < c + k) [0..<n]) + mset (filter Q [0..<n])" by (rule e) simp
  then show ?thesis unfolding filter_range [OF assms(1)] .
qed

lemma set_chunks_section:
  assumes s: "sec_ok s" and c: "1 \<le> c" "c + k \<le> 256" and old: "\<And>x. c \<le> x \<Longrightarrow> x < c + k \<Longrightarrow> ls_free_chunk_map s ! x = (\<not> v)"
  obtains m' where "set_chunks v c k (ls_free_chunk_map s) = Some m'" "length m' = 256" "\<not> m' ! 0"
    "if v then mset (filter ((!) m') [0..<256]) = mset [c..<c + k] + mset (filter ((!) (ls_free_chunk_map s)) [0..<256])
     else mset (filter ((!) (ls_free_chunk_map s)) [0..<256]) = mset [c..<c + k] + mset (filter ((!) m') [0..<256])"
proof -
  let ?m = "ls_free_chunk_map s"
  have len: "length ?m = 256" "\<not> ?m ! 0" using s by (simp_all add: sec_ok_def)
  obtain m' where m': "set_chunks v c k ?m = Some m'" "length m' = 256"
    "\<And>x. x < 256 \<Longrightarrow> m' ! x = (if c \<le> x \<and> x < c + k then v else ?m ! x)"
    using set_chunks_ok [of c k ?m v] c(2) old unfolding len(1) by (metis (full_types))
  have zero: "\<not> m' ! 0" using m'(3) [of 0] c(1) len(2) by simp
  have at: "m' ! x = (if c \<le> x \<and> x < c + k then v else ?m ! x)" if "x < 256" for x using m'(3) [OF that] .
  have in_range: "x < 256" if "x < c + k" for x using that c(2) by simp
  show thesis
  proof (cases v)
    case True
    have "mset (filter ((!) m') [0..<256]) = mset [c..<c + k] + mset (filter ((!) ?m) [0..<256])"
      by (rule filter_split_range [OF c(2)]) (use at old True in auto)
    then show thesis using that [OF m'(1,2) zero] True by simp
  next
    case False
    have "mset (filter ((!) ?m) [0..<256]) = mset [c..<c + k] + mset (filter ((!) m') [0..<256])"
      by (rule filter_split_range [OF c(2)]) (use at old False in_range in auto)
    then show thesis using that [OF m'(1,2) zero] False by simp
  qed
qed

lemma free_of_mem: "x \<in># free_of secs \<longleftrightarrow> (\<exists>s\<in>set secs. \<exists>c<256. ls_free_chunk_map s ! c \<and> x = caddr (ls_addr s) c)"
  by (auto simp: free_of_def sec_free_def)

lemma chunks_of_mem: "e \<in> set es \<Longrightarrow> x \<in> set (entry_chunks e) \<Longrightarrow> x \<in># chunks_of es"
  by (auto simp: chunks_of_def)

lemma free_of_replace:
  assumes "distinct (map ls_addr secs)" "s \<in> set secs" "ls_addr s' = ls_addr s"
  defines "secs' \<equiv> map (\<lambda>t. if ls_addr t = ls_addr s' then s' else t) secs"
  shows "free_of secs' + mset (sec_free s) = free_of secs + mset (sec_free s')" "map ls_addr secs' = map ls_addr secs"
    "set secs' \<subseteq> insert s' (set secs)" "s' \<in> set secs'" "\<And>t. t \<in> set secs \<Longrightarrow> ls_addr t \<noteq> ls_addr s \<Longrightarrow> t \<in> set secs'"
proof -
  have keep: "map (\<lambda>t. if ls_addr t = ls_addr s' then s' else t) xs = xs" if "ls_addr s \<notin> ls_addr ` set xs" for xs
    using that assms(3) by (induction xs) auto
  have "free_of (map (\<lambda>t. if ls_addr t = ls_addr s' then s' else t) xs) + mset (sec_free s) = free_of xs + mset (sec_free s')"
    if "distinct (map ls_addr xs)" "s \<in> set xs" for xs
    using that
  proof (induction xs)
    case (Cons t xs)
    show ?case
    proof (cases "t = s")
      case True
      then show ?thesis using Cons.prems(1) keep [of xs] assms(3) by (simp add: free_of_def)
    next
      case False
      then have "ls_addr t \<noteq> ls_addr s" using Cons.prems by auto
      then show ?thesis using Cons False assms(3) by (simp add: free_of_def ac_simps)
    qed
  qed simp
  then show "free_of secs' + mset (sec_free s) = free_of secs + mset (sec_free s')" unfolding secs'_def using assms(1,2) .
  show "map ls_addr secs' = map ls_addr secs" unfolding secs'_def by simp
  show "set secs' \<subseteq> insert s' (set secs)" "s' \<in> set secs'" unfolding secs'_def using assms(2,3) by auto
  show "t \<in> set secs'" if "t \<in> set secs" "ls_addr t \<noteq> ls_addr s" for t unfolding secs'_def using that assms(3) by (auto simp: image_iff)
qed

text \<open>What taking or giving chunks leaves of a space.\<close>

definition same_space :: "'o los_heap \<Rightarrow> 'o los_heap \<Rightarrow> bool" where
  "same_space h h' \<longleftrightarrow> map ls_addr (los_sections h') = map ls_addr (los_sections h) \<and>
    h' = h\<lparr>los_sections := los_sections h', los_fast_free_lists := los_fast_free_lists h'\<rparr>"

definition heap_free :: "'o los_heap \<Rightarrow> bool" where
  "heap_free h \<longleftrightarrow> free_ok (los_sections h) (los_fast_free_lists h)"

definition los_free :: "'o los_heap \<Rightarrow> u64 multiset" where
  "los_free h = free_of (los_sections h)"

lemma heap_freeD:
  assumes "heap_free h"
  shows "distinct (map ls_addr (los_sections h))" "s \<in> set (los_sections h) \<Longrightarrow> sec_ok s"
    "lists_ok (ls_addr ` set (los_sections h)) (los_fast_free_lists h)" "chunks_of (concat (los_fast_free_lists h)) = los_free h"
  using assms by (simp_all add: heap_free_def free_ok_def los_free_def)

lemma sec_of_chunk:
  assumes "heap_free h" "s \<in> set (los_sections h)" "c < 256" "caddr (ls_addr s) c \<in># los_free h"
  shows "ls_free_chunk_map s ! c"
proof -
  obtain t c' where t: "t \<in> set (los_sections h)" "c' < 256" "ls_free_chunk_map t ! c'" "caddr (ls_addr s) c = caddr (ls_addr t) c'"
    using assms(4) unfolding los_free_def free_of_mem by blast
  have "sec_aligned (ls_addr s)" "sec_aligned (ls_addr t)" using heap_freeD(2) [OF assms(1)] assms(2) t(1) by (simp_all add: sec_ok_def)
  then have "ls_addr t = ls_addr s" "c' = c" using caddr_inj t(2,4) assms(3) by metis+
  moreover from this have "t = s" using heap_freeD(1) [OF assms(1)] assms(2) t(1) by (auto simp: distinct_map inj_on_def)
  ultimately show ?thesis using t(3) by simp
qed

lemma put_section_ok:
  assumes ok: "heap_free h" and s: "s \<in> set (los_sections h)" "ls_addr s' = ls_addr s" "sec_ok s'"
    and l: "lists_ok (ls_addr ` set (los_sections h)) lists'" "chunks_of (concat lists') + mset (sec_free s) = los_free h + mset (sec_free s')"
  defines "h' \<equiv> put_section s' (h\<lparr>los_fast_free_lists := lists'\<rparr>)"
  shows "heap_free h'" "same_space h h'" "los_free h' + mset (sec_free s) = los_free h + mset (sec_free s')"
proof -
  note d = heap_freeD [OF ok]
  note r = free_of_replace [OF d(1) s(1,2)]
  have secs: "los_sections h' = map (\<lambda>t. if ls_addr t = ls_addr s' then s' else t) (los_sections h)"
    "los_fast_free_lists h' = lists'" unfolding h'_def by (simp_all add: put_section_def)
  show 1: "los_free h' + mset (sec_free s) = los_free h + mset (sec_free s')" unfolding los_free_def secs by (rule r(1))
  have addrs: "ls_addr ` set (los_sections h') = ls_addr ` set (los_sections h)"
    unfolding secs by (simp only: set_map [symmetric] r(2))
  have "chunks_of (concat lists') + mset (sec_free s) = los_free h' + mset (sec_free s)" by (simp only: 1 l(2))
  then have "chunks_of (concat lists') = los_free h'" by (rule add_right_imp_eq)
  moreover have "sec_ok t" if "t \<in> set (los_sections h')" for t
    using that r(3) d(2) s(3) unfolding secs by blast
  moreover have "distinct (map ls_addr (los_sections h'))" unfolding secs r(2) by (rule d(1))
  ultimately show "heap_free h'" using l(1) addrs secs(2) by (simp add: heap_free_def free_ok_def los_free_def)
  show "same_space h h'" using r(2) unfolding same_space_def secs by (simp add: h'_def put_section_def)
qed

definition took :: "'o los_heap \<Rightarrow> nat \<Rightarrow> u64 \<Rightarrow> nat \<Rightarrow> 'o los_heap \<Rightarrow> bool" where
  "took h k b c h' \<longleftrightarrow> b \<in> ls_addr ` set (los_sections h) \<and> sec_aligned b \<and> 1 \<le> c \<and> c + k \<le> 256 \<and> caddr b c \<noteq> 0 \<and>
    heap_free h' \<and> same_space h h' \<and> los_free h = mset (map (caddr b) [c..<c + k]) + los_free h'"

lemma size_t_minus_eq: "b \<le> a \<Longrightarrow> a < 2 ^ 64 \<Longrightarrow> size_t_minus a b = a - b"
proof -
  assume "b \<le> a" "a < 2 ^ 64"
  then have "a + (2 ^ 64 - b) = (a - b) + 2 ^ 64" by simp
  moreover have "a - b < 2 ^ 64" using \<open>a < 2 ^ 64\<close> by simp
  ultimately show ?thesis unfolding size_t_minus_def by (simp only: mod_add_self2 mod_less)
qed

lemma get_from_size_list_ok:
  assumes ok: "heap_free h" and i: "i < 32" and k: "0 < k"
  obtains (none) "get_from_size_list i (4096 * k) h = Some (0, h)" "\<forall>e\<in>set (los_fast_free_lists h ! i). snd e < 4096 * k"
  | (some) b c h' where "get_from_size_list i (4096 * k) h = Some (caddr b c, h')" "took h k b c h'"
proof (cases "unlink_first_fit (4096 * k) (los_fast_free_lists h ! i)")
  case None
  then have "get_from_size_list i (4096 * k) h = Some (0, h)" by (simp add: get_from_size_list_def los_consts)
  moreover have "\<forall>e\<in>set (los_fast_free_lists h ! i). snd e < 4096 * k" using None by (simp add: unlink_first_fit_None)
  ultimately show thesis by (rule none)
next
  case (Some r)
  let ?L = "los_fast_free_lists h" and ?B = "ls_addr ` set (los_sections h)"
  note d = heap_freeD [OF ok]
  have L: "length ?L = 32" "\<And>j e. j < 32 \<Longrightarrow> e \<in> set (?L ! j) \<Longrightarrow> run_entry_ok ?B e \<and> fast_index (snd e) = j"
    using d(3) by (auto simp: lists_ok_def)
  obtain e rest where r: "r = (e, rest)" by (cases r)
  note u = unlink_first_fit_Some [OF Some [unfolded r]]
  have "run_entry_ok ?B e" using L(2) [OF i] u by blast
  then obtain b c m where e: "b \<in> ?B" "1 \<le> c" "0 < m" "c + m \<le> 256" "e = (caddr b c, 4096 * m)" by (auto simp: run_entry_ok_def)
  from e(1) obtain s where s: "s \<in> set (los_sections h)" "ls_addr s = b" by blast
  have sok: "sec_ok s" "sec_aligned b" using d(2) [OF s(1)] s(2) by (auto simp: sec_ok_def)
  have km: "k \<le> m" using u e(5) by simp
  have c256: "c < 256" "c + k \<le> 256" using e km k by simp_all
  note a = caddr_facts [OF sok(2) c256(1)]
  have "e \<in> set (concat ?L)" using u i L(1) by (auto intro!: bexI [of _ "?L ! i"])
  then have "caddr b x \<in># los_free h" if "c \<le> x" "x < c + m" for x
    unfolding d(4) [symmetric] by (rule chunks_of_mem) (use that in \<open>simp add: e(5) entry_chunks_caddr\<close>)
  then have set: "ls_free_chunk_map s ! x = (\<not> False)" if "c \<le> x" "x < c + k" for x
    using sec_of_chunk [OF ok s(1), of x] that km e(4) s(2) by simp
  obtain m' where m': "set_chunks False c k (ls_free_chunk_map s) = Some m'" "length m' = 256" "\<not> m' ! 0"
    "mset (filter ((!) (ls_free_chunk_map s)) [0..<256]) = mset [c..<c + k] + mset (filter ((!) m') [0..<256])"
    using set_chunks_section [OF sok(1) e(2) c256(2) set] by auto
  let ?s = "s\<lparr>ls_free_chunk_map := m', ls_num_free_chunks := ls_num_free_chunks s - k\<rparr>"
  have num: "ls_num_free_chunks s = k + length (filter ((!) m') [0..<256])"
  proof -
    have "length (filter ((!) (ls_free_chunk_map s)) [0..<256]) = length [c..<c + k] + length (filter ((!) m') [0..<256])"
      using arg_cong [OF m'(4), of size] by (simp only: size_union size_mset)
    then show ?thesis using sok(1) by (simp add: sec_ok_def)
  qed
  have "ls_num_free_chunks s < 2 ^ 64"
    using sok(1) length_filter_le [of "\<lambda>c. ls_free_chunk_map s ! c" "[0..<256]"] by (simp add: sec_ok_def)
  then have minus: "size_t_minus (ls_num_free_chunks s) k = ls_num_free_chunks s - k" using num by (intro size_t_minus_eq) simp_all
  have "ls_num_free_chunks s - k = length (filter ((!) m') [0..<256])" using num by simp
  then have sok': "sec_ok ?s" using sok m'(2,3) s(2) unfolding sec_ok_def by simp
  have sfree: "mset (sec_free s) = mset (map (caddr b) [c..<c + k]) + mset (sec_free ?s)"
    using arg_cong [OF m'(4), of "image_mset (caddr b)"] by (simp add: sec_free_def s(2))
  let ?L1 = "?L[i := rest]"
  let ?L2 = "if 4096 * m > 4096 * k then add_free_chunk (caddr b c + of_nat (4096 * k)) (4096 * m - 4096 * k) ?L1 else ?L1"
  have l1: "lists_ok ?B ?L1" "chunks_of (concat ?L1) + mset (entry_chunks e) = chunks_of (concat ?L)"
  proof -
    show "lists_ok ?B ?L1" using L u i unfolding lists_ok_def by (auto simp: nth_list_update)
    have "chunks_of (concat ?L1) + chunks_of (?L ! i) = chunks_of (concat ?L) + chunks_of rest"
      by (rule chunks_of_update) (simp add: L(1) i)
    then show "chunks_of (concat ?L1) + mset (entry_chunks e) = chunks_of (concat ?L)" using u by (simp add: ac_simps)
  qed
  have l2: "lists_ok ?B ?L2" "chunks_of (concat ?L2) + mset (map (caddr b) [c..<c + k]) = chunks_of (concat ?L)"
  proof -
    have eq: "caddr b c + of_nat (4096 * k) = caddr b (c + k)" "4096 * m - 4096 * k = 4096 * (m - k)" using caddr_add [of b c k] by simp_all
    have sp: "entry_chunks e = map (caddr b) [c..<c + k] @ entry_chunks (caddr b (c + k), 4096 * (m - k))"
      using entry_chunks_split [OF km, of b c] unfolding e(5) entry_chunks_caddr by simp
    have "run_entry_ok ?B (caddr b (c + k), 4096 * (m - k))" if "k < m"
      using that e unfolding run_entry_ok_def by (intro bexI [of _ b] exI [of _ "c + k"] exI [of _ "m - k"]) auto
    note add = add_free_chunk_ok [OF l1(1) this]
    show "lists_ok ?B ?L2" using l1(1) add(1) unfolding eq by simp
    show "chunks_of (concat ?L2) + mset (map (caddr b) [c..<c + k]) = chunks_of (concat ?L)"
    proof (cases "k < m")
      case True
      then show ?thesis using l1(2) add(2) [OF True] unfolding eq sp by (simp add: ac_simps)
    next
      case False
      then have "k = m" using km by simp
      then show ?thesis using l1(2) unfolding e(5) entry_chunks_caddr by simp
    qed
  qed
  have at: "section_at (LOS_SECTION_FOR_OBJ (caddr b c)) (los_sections h) = Some s"
    unfolding a(2) by (rule section_at_mem [OF d(1) s(1), unfolded s(2)])
  let ?h = "put_section ?s (h\<lparr>los_fast_free_lists := ?L2\<rparr>)"
  have "chunks_of (concat ?L2) + mset (sec_free s) = los_free h + mset (sec_free ?s)"
    using l2(2) d(4) sfree by (simp add: ac_simps)
  moreover have "ls_addr ?s = ls_addr s" by simp
  ultimately have put: "heap_free ?h" "same_space h ?h" "los_free ?h + mset (sec_free s) = los_free h + mset (sec_free ?s)"
    using put_section_ok [OF ok s(1) _ sok' l2(1)] by blast+
  have run: "get_from_size_list i (4096 * k) h = Some (caddr b c, ?h)"
    using Some minus m'(1) a(3) at s(2) unfolding r e(5) by (simp add: get_from_size_list_def los_consts Let_def)
  have "los_free h = mset (map (caddr b) [c..<c + k]) + los_free ?h"
  proof -
    have "los_free h + mset (sec_free ?s) = (mset (map (caddr b) [c..<c + k]) + los_free ?h) + mset (sec_free ?s)"
      unfolding put(3) [symmetric] sfree by (simp add: ac_simps)
    then show ?thesis by (rule add_right_imp_eq)
  qed
  then have "took h k b c ?h" using e(1,2) sok(2) c256(2) a(4) put(1,2) unfolding took_def by blast
  then show thesis by (rule some [OF run])
qed

lemma tookD:
  assumes "took h k b c h'"
  shows "b \<in> ls_addr ` set (los_sections h)" "sec_aligned b" "1 \<le> c" "c + k \<le> 256" "caddr b c \<noteq> 0"
    "heap_free h'" "same_space h h'" "los_free h = mset (map (caddr b) [c..<c + k]) + los_free h'"
  using assms by (simp_all add: took_def)

lemma get_from_lists_ok:
  assumes ok: "heap_free h" and k: "0 < k" and js: "\<forall>i\<in>set js. i < 32"
  shows "get_from_lists js (4096 * k) h = Some (0, h) \<and> (\<forall>i\<in>set js. \<forall>e\<in>set (los_fast_free_lists h ! i). snd e < 4096 * k) \<or>
    (\<exists>b c h'. get_from_lists js (4096 * k) h = Some (caddr b c, h') \<and> took h k b c h')"
  using js
proof (induction js)
  case (Cons i js)
  then have i: "i < 32" by simp
  show ?case
  proof (cases rule: get_from_size_list_ok [OF ok i k, case_names none some])
    case none
    then show ?thesis using Cons by simp
  next
    case (some b c h')
    then show ?thesis using tookD(5) [OF some(2)] by (intro disjI2 exI [of _ b] exI [of _ c] exI [of _ h']) simp
  qed
qed simp

lemma get_free_chunks_ok:
  assumes ok: "heap_free h" and k: "0 < k"
  obtains (none) "get_free_chunks (4096 * k) h = Some (0, h)" "\<forall>e\<in>set (los_fast_free_lists h ! 0). snd e < 4096 * k"
  | (some) b c h' where "get_free_chunks (4096 * k) h = Some (caddr b c, h')" "took h k b c h'"
proof (cases "k \<ge> 32")
  case True
  then have e: "get_free_chunks (4096 * k) h = get_from_size_list 0 (4096 * k) h"
    by (simp add: get_free_chunks_def los_consts)
  have z: "(0::nat) < 32" by simp
  show thesis
    by (cases rule: get_from_size_list_ok [OF ok z k]) (use none some in \<open>simp_all add: e\<close>)
next
  case False
  let ?js = "[k..<32] @ [0]"
  have e: "get_free_chunks (4096 * k) h = get_from_lists ?js (4096 * k) h"
    using False by (simp add: get_free_chunks_def los_consts)
  have "\<forall>i\<in>set ?js. i < 32" by auto
  from get_from_lists_ok [OF ok k this] show thesis
  proof (elim disjE conjE exE)
    assume "get_from_lists ?js (4096 * k) h = Some (0, h)" "\<forall>i\<in>set ?js. \<forall>e\<in>set (los_fast_free_lists h ! i). snd e < 4096 * k"
    then show thesis using none e by simp
  next
    fix b c h' assume "get_from_lists ?js (4096 * k) h = Some (caddr b c, h')" "took h k b c h'"
    then show thesis using some e by simp
  qed
qed

text \<open>Some free run is large enough.\<close>

definition los_fits :: "nat \<Rightarrow> 'o los_heap \<Rightarrow> bool" where
  "los_fits n h \<longleftrightarrow> (\<exists>i<LOS_NUM_FAST_SIZES. \<exists>e\<in>set (los_fast_free_lists h ! i). n \<le> snd e)"

lemma get_from_size_list_fits:
  "get_from_size_list i n h = Some (p, h') \<Longrightarrow> p \<noteq> 0 \<Longrightarrow> \<exists>e\<in>set (los_fast_free_lists h ! i). n \<le> snd e"
  using unlink_first_fit_None [of n "los_fast_free_lists h ! i"]
  by (auto simp: get_from_size_list_def not_less split: if_splits option.splits)

lemma get_from_lists_fits:
  "get_from_lists js (4096 * k) h = Some (p, h') \<Longrightarrow> p \<noteq> 0 \<Longrightarrow> heap_free h \<Longrightarrow> 0 < k \<Longrightarrow> \<forall>i\<in>set js. i < 32 \<Longrightarrow>
    \<exists>i\<in>set js. \<exists>e\<in>set (los_fast_free_lists h ! i). 4096 * k \<le> snd e"
proof (induction js)
  case (Cons i js)
  then have i: "i < 32" by simp
  show ?case
  proof (cases rule: get_from_size_list_ok [OF Cons.prems(3) i Cons.prems(4), case_names none some])
    case none
    then show ?thesis using Cons by simp
  next
    case (some b c h')
    then show ?thesis using get_from_size_list_fits [OF some(1) tookD(5) [OF some(2)]] by simp
  qed
qed simp

lemma get_free_chunks_fits:
  assumes ok: "heap_free h" and k: "0 < k" and r: "get_free_chunks (4096 * k) h = Some (p, h')"
  shows "p \<noteq> 0 \<longleftrightarrow> los_fits (4096 * k) h"
proof (cases "k \<ge> 32")
  case True
  then have e: "get_from_size_list 0 (4096 * k) h = Some (p, h')" using r by (simp add: get_free_chunks_def los_consts)
  have z: "(0::nat) < 32" by simp
  show ?thesis
  proof (cases rule: get_from_size_list_ok [OF ok z k, case_names none some])
    case none
    have "snd x < 4096 * k" if i: "i < 32" and x: "x \<in> set (los_fast_free_lists h ! i)" for i x
    proof (cases "i = 0")
      case False
      have "fast_index (snd x) = i" using heap_freeD(3) [OF ok] i x unfolding lists_ok_def by blast
      then have "snd x div 4096 < k" using False True i by (simp add: fast_index_def split: if_splits)
      then show ?thesis by (simp add: div_less_iff_less_mult)
    qed (use none(2) x in simp)
    then show ?thesis using e none(1) unfolding los_fits_def los_consts by (auto simp: not_le)
  next
    case (some b c h')
    have "los_fits (4096 * k) h"
      using get_from_size_list_fits [OF some(1) tookD(5) [OF some(2)]] z unfolding los_fits_def los_consts by blast
    then show ?thesis using some(1) tookD(5) [OF some(2)] e by simp
  qed
next
  case False
  let ?js = "[k..<32] @ [0]"
  have e: "get_from_lists ?js (4096 * k) h = Some (p, h')" using r False by (simp add: get_free_chunks_def los_consts)
  have js: "\<forall>i\<in>set ?js. i < 32" by auto
  show ?thesis
  proof (cases "p = 0")
    case True
    have n: "\<forall>i\<in>set ?js. \<forall>x\<in>set (los_fast_free_lists h ! i). snd x < 4096 * k"
      using get_from_lists_ok [OF ok k js] e True tookD(5) by fastforce
    have "snd x < 4096 * k" if i: "i < 32" and x: "x \<in> set (los_fast_free_lists h ! i)" for i x
    proof (cases "i \<in> set ?js")
      case no: False
      have "fast_index (snd x) = i" using heap_freeD(3) [OF ok] i x unfolding lists_ok_def by blast
      then have "snd x div 4096 < k" using no i by (simp add: fast_index_def split: if_splits)
      then show ?thesis by (simp add: div_less_iff_less_mult)
    qed (use n x in blast)
    then show ?thesis using True unfolding los_fits_def los_consts by (auto simp: not_le)
  next
    case nz: False
    then show ?thesis using get_from_lists_fits [OF e nz ok k js] js unfolding los_fits_def los_consts by blast
  qed
qed

lemma align_up_eq: "SGEN_ALIGN_UP_TO n 4096 = 4096 * ((n + 4095) div 4096)"
  by (simp add: SGEN_ALIGN_UP_TO_def mult.commute)

lemma randomize_ok:
  assumes "n = SGEN_ALIGN_UP_TO obj_size 4096"
  obtains off where "randomize_los_object_start addr obj_size n 4096 = Some (addr + of_nat off)"
    "8 dvd off" "off < 4096" "off + obj_size \<le> n"
proof -
  let ?off = "if n \<noteq> obj_size then unat ((addr - 1) * 2654435761) mod (n - obj_size) div 8 * 8 else 0"
  have up: "obj_size \<le> n" "n - obj_size < 4096" unfolding assms align_up_eq by linarith+
  have "?off \<le> n - obj_size"
  proof (cases "n = obj_size")
    case False
    then have "unat ((addr - 1) * 2654435761) mod (n - obj_size) < n - obj_size" using up(1) by simp
    then show ?thesis using False by (simp add: order.trans [OF div_times_less_eq_dividend less_imp_le])
  qed simp
  moreover have "randomize_los_object_start addr obj_size n 4096 = Some (addr + of_nat ?off)"
    using up(2) by (simp add: randomize_los_object_start_def Let_def)
  moreover have "8 dvd ?off" by simp
  ultimately show thesis using that [of ?off] up by linarith
qed

lemma add_section_ok:
  assumes ok: "heap_free h" and b: "sec_aligned b" "b \<notin> ls_addr ` set (los_sections h)"
  defines "sec \<equiv> \<lparr>ls_addr = b, ls_num_free_chunks = 255, ls_free_chunk_map = False # replicate 255 True\<rparr>"
  assumes h': "los_sections h' = sec # los_sections h"
    "los_fast_free_lists h' = (los_fast_free_lists h)[0 := (caddr b 1, 4096 * 255) # los_fast_free_lists h ! 0]"
  shows "heap_free h'" "los_free h' = los_free h + mset (map (caddr b) [1..<256])"
proof -
  note d = heap_freeD [OF ok]
  let ?L = "los_fast_free_lists h" and ?B = "ls_addr ` set (los_sections h)"
  have map: "filter ((!) (False # replicate 255 True)) [0..<256] = [1..<256]"
  proof -
    have "[0..<256] = 0 # [1..<256::nat]" by (simp add: upt_conv_Cons)
    moreover have "filter ((!) (False # replicate 255 True)) [1..<256] = [1..<256]" by (auto simp: filter_id_conv nth_Cons')
    ultimately show ?thesis by simp
  qed
  have sec: "sec_ok sec" "sec_free sec = map (caddr b) [1..<256]"
    using b(1) by (simp_all only: sec_ok_def sec_free_def sec_def LOSSection.simps map) simp_all
  show free: "los_free h' = los_free h + mset (map (caddr b) [1..<256])"
    by (simp add: los_free_def free_of_def h'(1) sec(2) ac_simps)
  have add: "add_free_chunk (caddr b 1) (4096 * 255) ?L = los_fast_free_lists h'"
    unfolding add_free_chunk_eq h'(2) by (simp add: fast_index_def)
  have l: "lists_ok (insert b ?B) ?L" using d(3) unfolding lists_ok_def run_entry_ok_def by blast
  have "run_entry_ok (insert b ?B) (caddr b 1, 4096 * 255)" unfolding run_entry_ok_def by (intro bexI [of _ b] exI [of _ 1] exI [of _ 255]) auto
  note a = add_free_chunk_ok [OF l this, unfolded add]
  have "mset (entry_chunks (caddr b 1, 4096 * 255)) = mset (map (caddr b) [1..<256])" unfolding entry_chunks_caddr by simp
  then have "chunks_of (concat (los_fast_free_lists h')) = los_free h'" using a(2) d(4) free by (simp add: ac_simps)
  moreover have "distinct (map ls_addr (los_sections h'))" using d(1) b(2) by (simp add: h'(1) sec_def)
  moreover have "\<forall>s\<in>set (los_sections h'). sec_ok s" using d(2) sec(1) by (simp add: h'(1))
  moreover have "ls_addr ` set (los_sections h') = insert b ?B" by (simp add: h'(1) sec_def)
  ultimately show "heap_free h'" using a(1) by (simp add: heap_free_def free_ok_def los_free_def)
qed

section \<open>The invariant\<close>

definition mem_range :: "u64 \<Rightarrow> nat \<Rightarrow> u64 set" where
  "mem_range p n = {a. unat (a - p) < n}"

definition los_objs :: "SgenArrayList \<Rightarrow> u64 list" where
  "los_objs a = map LOS_OBJECT_UNTAG (filter (\<lambda>v. v \<noteq> 0) (al_values a))"

text \<open>The memory of an object: whole chunks or pages.\<close>

definition los_base :: "u64 \<Rightarrow> u64" where
  "los_base x = SGEN_ALIGN_DOWN_TO x 4096"

definition los_span :: "memory \<Rightarrow> u64 \<Rightarrow> nat" where
  "los_span mem x = SGEN_ALIGN_UP_TO (sgen_los_object_size mem x + 16) 4096"

definition los_range :: "memory \<Rightarrow> u64 \<Rightarrow> u64 set" where
  "los_range mem x = mem_range (los_base x) (los_span mem x)"

definition los_small :: "memory \<Rightarrow> u64 \<Rightarrow> bool" where
  "los_small mem x \<longleftrightarrow> sgen_los_object_size mem x \<le> LOS_SECTION_OBJECT_LIMIT"

definition los_obj_ok :: "u64 set \<Rightarrow> memory \<Rightarrow> u64 \<Rightarrow> bool" where
  "los_obj_ok B mem x \<longleftrightarrow>
    8000 < sgen_los_object_size mem x \<and> sgen_los_object_size mem x \<le> SSIZE_MAX - 4095 - 16 \<and> mem (x + 16) AND 7 = 0 \<and>
    (\<exists>off<4096. 8 dvd off \<and> off + sgen_los_object_size mem x + 16 \<le> los_span mem x \<and> x = los_base x + of_nat off) \<and>
    los_base x \<noteq> 0 \<and> unat (los_base x) + los_span mem x \<le> 2 ^ 64 \<and>
    (los_small mem x \<longrightarrow> (\<exists>b\<in>B. \<exists>c. 1 \<le> c \<and> c + los_span mem x div 4096 \<le> 256 \<and> los_base x = caddr b c))"

definition obj_chunks :: "memory \<Rightarrow> u64 list \<Rightarrow> u64 multiset" where
  "obj_chunks mem xs = chunks_of (map (\<lambda>x. (los_base x, los_span mem x)) (filter (los_small mem) xs))"

definition all_chunks :: "LOSSection list \<Rightarrow> u64 multiset" where
  "all_chunks secs = (\<Sum>s\<in>#mset secs. mset (map (caddr (ls_addr s)) [1..<256]))"

definition los_bases :: "'o los_heap \<Rightarrow> u64 set" where
  "los_bases h = ls_addr ` set (los_sections h)"

text \<open>What is not in a section keeps clear of the sections, of its like and of the memory the system has to give.\<close>

definition huge_ok :: "u64 set \<Rightarrow> u64 set \<Rightarrow> memory \<Rightarrow> u64 list \<Rightarrow> bool" where
  "huge_ok B F mem xs \<longleftrightarrow>
    (\<forall>b\<in>B. mem_range b LOS_SECTION_SIZE \<inter> F = {}) \<and>
    (\<forall>x\<in>set xs. \<not> los_small mem x \<longrightarrow> los_range mem x \<inter> F = {} \<and> (\<forall>b\<in>B. los_range mem x \<inter> mem_range b LOS_SECTION_SIZE = {}) \<and>
      (\<forall>y\<in>set xs. y \<noteq> x \<longrightarrow> \<not> los_small mem y \<longrightarrow> los_range mem x \<inter> los_range mem y = {}))"

definition los_inv :: "('o \<Rightarrow> u64 set) \<Rightarrow> memory \<Rightarrow> 'o los_heap \<Rightarrow> bool" where
  "los_inv os_free mem h \<longleftrightarrow>
    (let xs = los_objs (los_object_array_list h) in
     heap_free h \<and> (\<exists>k. al_full k (los_object_array_list h)) \<and> default_setter (los_object_array_list h) \<and>
     distinct xs \<and> (\<forall>x\<in>set xs. los_obj_ok (los_bases h) mem x) \<and>
     los_free h + obj_chunks mem xs = all_chunks (los_sections h) \<and> huge_ok (los_bases h) (os_free (los_os h)) mem xs \<and>
     los_num_objects h = int (length xs) \<and> los_memory_usage h = (\<Sum>x\<leftarrow>xs. int (sgen_los_object_size mem x)) \<and>
     los_num_sections h = int (length (los_sections h)))"

lemma los_invD:
  assumes "los_inv os_free mem h"
  defines "xs \<equiv> los_objs (los_object_array_list h)"
  shows "heap_free h" "\<exists>k. al_full k (los_object_array_list h)" "default_setter (los_object_array_list h)" "distinct xs"
    "x \<in> set xs \<Longrightarrow> los_obj_ok (los_bases h) mem x" "los_free h + obj_chunks mem xs = all_chunks (los_sections h)"
    "huge_ok (los_bases h) (os_free (los_os h)) mem xs" "los_num_objects h = int (length xs)"
    "los_memory_usage h = (\<Sum>x\<leftarrow>xs. int (sgen_los_object_size mem x))" "los_num_sections h = int (length (los_sections h))"
  using assms(1) unfolding los_inv_def xs_def Let_def by blast+

lemma los_bases_aligned: "heap_free h \<Longrightarrow> b \<in> los_bases h \<Longrightarrow> sec_aligned b"
  using heap_freeD(2) by (fastforce simp: los_bases_def sec_ok_def)

lemma all_chunks_count:
  assumes "heap_free h"
  shows "count (all_chunks (los_sections h)) a \<le> 1"
proof -
  have gen: "count (\<Sum>s\<in>#mset secs. mset (map (caddr (ls_addr s)) [1..<n])) a \<le> (if \<exists>s\<in>set secs. a \<in> caddr (ls_addr s) ` {1..<n} then 1 else 0)"
    if "distinct (map ls_addr secs)" "\<forall>s\<in>set secs. sec_aligned (ls_addr s)" "n \<le> 256" for secs n
    using that(1,2)
  proof (induction secs)
    case (Cons s secs)
    have "inj_on (caddr (ls_addr s)) {1..<n}" using Cons.prems(2) that(3) by (auto simp: inj_on_def caddr_inj)
    then have "distinct (map (caddr (ls_addr s)) [1..<n])" by (simp add: distinct_map)
    then have one: "count (mset (map (caddr (ls_addr s)) [1..<n])) a = (if a \<in> caddr (ls_addr s) ` {1..<n} then 1 else 0)"
      unfolding distinct_count_atmost_1 by simp
    have IH: "count (\<Sum>s\<in>#mset secs. mset (map (caddr (ls_addr s)) [1..<n])) a \<le> (if \<exists>s\<in>set secs. a \<in> caddr (ls_addr s) ` {1..<n} then 1 else 0)"
      using Cons by simp
    have no: "\<not> (\<exists>t\<in>set secs. a \<in> caddr (ls_addr t) ` {1..<n})" if a: "a \<in> caddr (ls_addr s) ` {1..<n}"
    proof
      assume "\<exists>t\<in>set secs. a \<in> caddr (ls_addr t) ` {1..<n}"
      then obtain t c c' where t: "t \<in> set secs" "c < n" "c' < n" "caddr (ls_addr s) c = caddr (ls_addr t) c'" using a by auto
      have "sec_aligned (ls_addr s)" "sec_aligned (ls_addr t)" "c < 256" "c' < 256" using Cons.prems(2) t(1-3) \<open>n \<le> 256\<close> by auto
      then have "ls_addr s = ls_addr t" using caddr_inj t(4) by metis
      then show False using Cons.prems(1) t(1) by (auto simp: image_iff)
    qed
    have sum: "count (\<Sum>s\<in>#mset (s # secs). mset (map (caddr (ls_addr s)) [1..<n])) a =
        count (mset (map (caddr (ls_addr s)) [1..<n])) a + count (\<Sum>s\<in>#mset secs. mset (map (caddr (ls_addr s)) [1..<n])) a"
      by (simp only: mset.simps image_mset_add_mset sum_mset.add_mset count_union)
    show ?case
    proof (cases "a \<in> caddr (ls_addr s) ` {1..<n}")
      case True
      then show ?thesis unfolding sum one using IH [unfolded if_not_P [OF no [OF True]]] by simp
    next
      case False
      then show ?thesis unfolding sum one using IH by (simp split: if_splits)
    qed
  qed simp
  have "\<forall>s\<in>set (los_sections h). sec_aligned (ls_addr s)" using heap_freeD(2) [OF assms] by (auto simp: sec_ok_def)
  from gen [OF heap_freeD(1) [OF assms] this le_refl] show ?thesis unfolding all_chunks_def by (rule order.trans) simp
qed

lemma mem_range_chunk:
  assumes "sec_aligned b" "c + k \<le> 256" "a \<in> mem_range (caddr b c) (4096 * k)"
  shows "SGEN_ALIGN_DOWN_TO a 4096 \<in> set (entry_chunks (caddr b c, 4096 * k))"
proof -
  let ?m = "unat (a - caddr b c)"
  have m: "?m < 4096 * k" using assms(3) by (simp add: mem_range_def)
  then have j: "?m div 4096 < k" by (simp add: div_less_iff_less_mult mult.commute)
  have "a = caddr b c + of_nat ?m" by simp
  also have "(of_nat ?m :: u64) = of_nat (4096 * (?m div 4096)) + of_nat (?m mod 4096)"
    by (metis mult_div_mod_eq of_nat_add)
  finally have "a = caddr b (c + ?m div 4096) + of_nat (?m mod 4096)" unfolding caddr_add [symmetric] by (simp only: add.assoc)
  moreover have "c + ?m div 4096 < 256" using j assms(2) by simp
  ultimately have "SGEN_ALIGN_DOWN_TO a 4096 = caddr b (c + ?m div 4096)"
    using caddr_off(4) [OF assms(1), of "c + ?m div 4096" "?m mod 4096"] by simp
  then show ?thesis using j by (simp add: entry_chunks_caddr)
qed

lemma mem_range_section:
  assumes "sec_aligned b" "c + k \<le> 256"
  shows "mem_range (caddr b c) (4096 * k) \<subseteq> mem_range b LOS_SECTION_SIZE"
proof
  fix a assume "a \<in> mem_range (caddr b c) (4096 * k)"
  then have m: "unat (a - caddr b c) < 4096 * k" by (simp add: mem_range_def)
  have "a - b = (a - caddr b c) + of_nat (4096 * c)" by (simp add: caddr_def)
  then have "unat (a - b) \<le> unat (a - caddr b c) + unat (of_nat (4096 * c) :: u64)" by (metis mod_less_eq_dividend unat_word_ariths(1))
  also have "unat (of_nat (4096 * c) :: u64) \<le> 4096 * c" by (simp only: unat_of_nat) simp
  finally show "a \<in> mem_range b LOS_SECTION_SIZE" using m assms(2) by (simp add: mem_range_def los_consts)
qed

lemma same_header:
  assumes "mem' x AND NOT 1 = mem x AND NOT 1" "mem' (x + 16) = mem (x + 16)"
  shows "sgen_los_object_size mem' x = sgen_los_object_size mem x" "los_small mem' x = los_small mem x" "los_span mem' x = los_span mem x"
    "los_range mem' x = los_range mem x" "los_obj_ok B mem' x = los_obj_ok B mem x"
  using assms by (simp_all add: sgen_los_object_size_def los_small_def los_span_def los_range_def los_obj_ok_def)

lemma obj_header:
  assumes x: "los_obj_ok B mem x"
  shows "x \<in> los_range mem x" "x + 16 \<in> los_range mem x" "x \<noteq> 0" "x AND 7 = 0"
proof -
  obtain off where off: "off < 4096" "8 dvd off" "off + sgen_los_object_size mem x + 16 \<le> los_span mem x" "x = los_base x + of_nat off"
    and base: "los_base x \<noteq> 0" "unat (los_base x) + los_span mem x \<le> 2 ^ 64" "8000 < sgen_los_object_size mem x"
    using x unfolding los_obj_ok_def by blast
  have d: "x - los_base x = of_nat off" by (subst off(4)) simp
  have d16: "x + 16 - los_base x = of_nat (off + 16)" by (subst off(4)) simp
  have u: "unat (of_nat m :: u64) = m" if "m < 8192" for m using that by (simp only: unat_of_nat) (simp add: take_bit_nat_eq_self)
  have u1: "unat (of_nat off :: u64) = off" "unat (of_nat (off + 16) :: u64) = off + 16" using off(1) by (intro u; simp)+
  show "x \<in> los_range mem x" "x + 16 \<in> los_range mem x"
    unfolding los_range_def mem_range_def mem_Collect_eq d d16 u1 using off(3) base(3) by linarith+
  have ux: "unat x = unat (los_base x) + off"
    by (subst off(4)) (use off(1,3) base(2,3) u [of off] in \<open>simp add: unat_word_ariths\<close>)
  then show "x \<noteq> 0" using base(1) by (auto simp: word_unat_eq_iff)
  have "unat (los_base x) = unat x div 4096 * 4096"
    using unat_and_not_mask [of x 12] by (simp add: los_base_def SGEN_ALIGN_DOWN_TO_def mask_eq_exp_minus_1)
  then have "8 dvd unat (los_base x)" by (simp only:) (rule dvd_mult, simp)
  then show "x AND 7 = 0" using off(2) ux by (simp add: and_7_dvd)
qed

lemma obj_chunks_mset: "mset xs = mset ys \<Longrightarrow> obj_chunks mem xs = obj_chunks mem ys"
  by (simp add: obj_chunks_def chunks_of_def)

lemma obj_chunks_Cons: "obj_chunks mem (x # xs) = obj_chunks mem [x] + obj_chunks mem xs"
  by (simp add: obj_chunks_def)

lemma obj_chunks_one: "los_small mem x \<Longrightarrow> obj_chunks mem [x] = mset (entry_chunks (los_base x, los_span mem x))"
    "\<not> los_small mem x \<Longrightarrow> obj_chunks mem [x] = {#}"
  by (simp_all add: obj_chunks_def)

lemma obj_chunks_cong: "(\<And>x. x \<in> set xs \<Longrightarrow> los_small mem' x = los_small mem x \<and> los_span mem' x = los_span mem x) \<Longrightarrow>
    obj_chunks mem' xs = obj_chunks mem xs"
  by (induction xs) (simp_all add: obj_chunks_def)

lemma small_range:
  assumes "los_obj_ok B mem x" "los_small mem x" "\<And>b. b \<in> B \<Longrightarrow> sec_aligned b"
  obtains b c k where "b \<in> B" "sec_aligned b" "1 \<le> c" "c + k \<le> 256" "los_base x = caddr b c" "los_span mem x = 4096 * k" "0 < k"
    "los_range mem x = mem_range (caddr b c) (4096 * k)"
proof -
  obtain b c where bc: "b \<in> B" "1 \<le> c" "c + los_span mem x div 4096 \<le> 256" "los_base x = caddr b c" and sz: "8000 < sgen_los_object_size mem x"
    using assms(1,2) unfolding los_obj_ok_def by blast
  have "los_span mem x = 4096 * (los_span mem x div 4096)" unfolding los_span_def align_up_eq by simp
  moreover from this have "0 < los_span mem x div 4096" using sz unfolding los_span_def align_up_eq by simp
  ultimately show thesis using that [of b c "los_span mem x div 4096"] bc assms(3) by (simp add: los_range_def)
qed

text \<open>No two objects share memory.\<close>

lemma los_disjoint:
  assumes inv: "los_inv os_free mem h" and xy: "x \<in> set (los_objs (los_object_array_list h))" "y \<in> set (los_objs (los_object_array_list h))" "x \<noteq> y"
  shows "los_range mem x \<inter> los_range mem y = {}"
proof -
  let ?xs = "los_objs (los_object_array_list h)"
  note d = los_invD [OF inv]
  note al = los_bases_aligned [OF d(1)]
  have huge: "los_range mem u \<inter> los_range mem v = {}" if uv: "u \<in> set ?xs" "v \<in> set ?xs" "\<not> los_small mem u" "u \<noteq> v" for u v
  proof (cases "los_small mem v")
    case True
    obtain b c k where v: "b \<in> los_bases h" "sec_aligned b" "1 \<le> c" "c + k \<le> 256" "los_base v = caddr b c" "los_span mem v = 4096 * k" "0 < k"
      "los_range mem v = mem_range (caddr b c) (4096 * k)" by (rule small_range [OF d(5) [OF uv(2)] True al])
    have "los_range mem u \<inter> mem_range b LOS_SECTION_SIZE = {}" using d(7) uv(1,3) v(1) by (simp add: huge_ok_def)
    then show ?thesis using mem_range_section [OF v(2,4)] v(8) by blast
  next
    case False
    then show ?thesis using d(7) uv unfolding huge_ok_def by metis
  qed
  show ?thesis
  proof (cases "los_small mem x \<and> los_small mem y")
    case False
    then show ?thesis using huge [of x y] huge [of y x] xy by blast
  next
    case True
    show ?thesis
    proof (rule ccontr)
      assume "los_range mem x \<inter> los_range mem y \<noteq> {}"
      then obtain a where a: "a \<in> los_range mem x" "a \<in> los_range mem y" by blast
      let ?d = "SGEN_ALIGN_DOWN_TO a 4096"
      have in_chunks: "?d \<in> set (entry_chunks (los_base u, los_span mem u))" if u0: "u \<in> set ?xs" "los_small mem u" "a \<in> los_range mem u" for u
      proof -
        obtain b c k where u: "b \<in> los_bases h" "sec_aligned b" "1 \<le> c" "c + k \<le> 256" "los_base u = caddr b c" "los_span mem u = 4096 * k" "0 < k"
          "los_range mem u = mem_range (caddr b c) (4096 * k)" by (rule small_range [OF d(5) [OF u0(1)] u0(2) al])
        then show ?thesis using mem_range_chunk [OF u(2,4)] u0(3) by simp
      qed
      obtain ys where ys: "mset ?xs = add_mset x (add_mset y (mset ys))"
      proof -
        obtain M where M: "mset ?xs = add_mset x M" using xy(1) by (meson in_multiset_in_set multi_member_split)
        have "y \<in># mset ?xs" using xy(2) by simp
        then have "y \<in># M" unfolding M using xy(3) by simp
        then obtain N where "M = add_mset y N" by (meson multi_member_split)
        then show thesis using that M ex_mset [of N] by metis
      qed
      have split: "obj_chunks mem ?xs = obj_chunks mem [x] + obj_chunks mem [y] + obj_chunks mem ys"
        using obj_chunks_mset [of ?xs "x # y # ys"] ys obj_chunks_Cons [of mem x "y # ys"] obj_chunks_Cons [of mem y ys] by (simp add: add.assoc)
      have one: "1 \<le> count (obj_chunks mem [u]) ?d" if "u = x \<or> u = y" for u
        using in_chunks [of u] that xy(1,2) a True by (auto simp: obj_chunks_one Suc_le_eq)

      have "count (obj_chunks mem ?xs) ?d \<ge> 2" unfolding split count_union using one [OF disjI1 [OF refl]] one [OF disjI2 [OF refl]] by linarith
      moreover have "count (obj_chunks mem ?xs) ?d \<le> count (all_chunks (los_sections h)) ?d" unfolding d(6) [symmetric] by simp
      ultimately show False using all_chunks_count [OF d(1), of ?d] by simp
    qed
  qed
qed

lemma sum_list_cong: "(\<And>x. x \<in> set xs \<Longrightarrow> f x = g x) \<Longrightarrow> (\<Sum>x\<leftarrow>xs. f x) = (\<Sum>x\<leftarrow>xs. g x)"
  by (rule arg_cong [where f = sum_list]) simp

lemma sum_list_perm: "mset xs = mset ys \<Longrightarrow> (\<Sum>x\<leftarrow>xs. f x :: int) = (\<Sum>x\<leftarrow>ys. f x)"
proof -
  assume "mset xs = mset ys"
  then have "mset (map f xs) = mset (map f ys)" by simp
  then have "sum_mset (mset (map f xs)) = sum_mset (mset (map f ys))" by simp
  then show ?thesis by (simp only: sum_mset_sum_list)
qed

text \<open>Entering a new object that keeps clear of the others.\<close>

lemma los_inv_insert:
  assumes inv: "los_inv os_free mem h"
    and free: "heap_free h'" "los_bases h' = los_bases h" "all_chunks (los_sections h') = all_chunks (los_sections h)"
      "length (los_sections h') = length (los_sections h)" "los_free h = los_free h' + obj_chunks mem' [x]"
    and os: "os_free (los_os h') \<subseteq> os_free (los_os h)"
    and x: "los_obj_ok (los_bases h) mem' x"
      "\<not> los_small mem' x \<Longrightarrow> los_range mem' x \<inter> os_free (los_os h') = {} \<and> (\<forall>b\<in>los_bases h. los_range mem' x \<inter> mem_range b LOS_SECTION_SIZE = {})"
      "\<And>y. y \<in> set (los_objs (los_object_array_list h)) \<Longrightarrow> los_range mem' x \<inter> los_range mem y = {}"
    and mem: "\<And>a. a \<notin> los_range mem' x \<Longrightarrow> mem' a = mem a"
    and arr: "added v i (los_object_array_list h) (los_object_array_list h')" "al_ok k (los_object_array_list h')"
      "LOS_OBJECT_UNTAG v = x" "v \<noteq> 0"
    and counts: "los_num_objects h' = los_num_objects h + 1" "los_num_sections h' = los_num_sections h"
      "los_memory_usage h' = los_memory_usage h + int (sgen_los_object_size mem' x)"
  shows "los_inv os_free mem' h'" "set (los_objs (los_object_array_list h')) = insert x (set (los_objs (los_object_array_list h)))"
    "x \<notin> set (los_objs (los_object_array_list h))"
proof -
  let ?xs = "los_objs (los_object_array_list h)" and ?ys = "los_objs (los_object_array_list h')"
  note d = los_invD [OF inv]
  obtain k0 where k0: "al_full k0 (los_object_array_list h)" using d(2) by blast
  note added = added_values [OF k0 arr(1,2,4)]
  have ys: "mset ?ys = add_mset x (mset ?xs)"
    unfolding los_objs_def mset_map added(2) by (simp add: arr(3))
  then have set: "set ?ys = insert x (set ?xs)" by (metis set_mset_add_mset_insert set_mset_mset)
  have hdr: "mem' y = mem y" "mem' (y + 16) = mem (y + 16)" if "y \<in> set ?xs" for y
    using mem x(3) [OF that] obj_header(1,2) [OF d(5) [OF that]] by blast+
  then have hd: "mem' y AND NOT 1 = mem y AND NOT 1" "mem' (y + 16) = mem (y + 16)" if "y \<in> set ?xs" for y using that by simp_all
  note same = same_header [where mem' = mem' and mem = mem, OF hd]
  have new: "x \<notin> set ?xs" using x(3) obj_header(1) [OF x(1)] obj_header(1) [OF d(5)] by blast
  have chunks: "obj_chunks mem' ?ys = obj_chunks mem' [x] + obj_chunks mem ?xs"
  proof -
    have "obj_chunks mem' ?ys = obj_chunks mem' (x # ?xs)" using ys by (intro obj_chunks_mset) simp
    also have "\<dots> = obj_chunks mem' [x] + obj_chunks mem' ?xs" by (rule obj_chunks_Cons)
    also have "obj_chunks mem' ?xs = obj_chunks mem ?xs" by (rule obj_chunks_cong) (simp add: same(2,3))
    finally show ?thesis .
  qed
  have sum: "(\<Sum>y\<leftarrow>?ys. int (sgen_los_object_size mem' y)) = (\<Sum>y\<leftarrow>x # ?xs. int (sgen_los_object_size mem' y))"
    by (rule sum_list_perm) (simp add: ys)
  have sum': "(\<Sum>y\<leftarrow>?xs. int (sgen_los_object_size mem' y)) = (\<Sum>y\<leftarrow>?xs. int (sgen_los_object_size mem y))"
    by (rule sum_list_cong) (simp add: same(1))
  have clear: "los_range mem' y \<inter> os_free (los_os h') = {} \<and> (\<forall>b\<in>los_bases h. los_range mem' y \<inter> mem_range b LOS_SECTION_SIZE = {})"
    if y: "y \<in> insert x (set ?xs)" "\<not> los_small mem' y" for y
  proof (cases "y = x")
    case True
    then show ?thesis using x(2) y(2) by blast
  next
    case False
    then have yx: "y \<in> set ?xs" using y(1) by simp
    have "\<not> los_small mem y" using same(2) [OF yx yx] y(2) by simp
    then have "los_range mem y \<inter> os_free (los_os h) = {} \<and> (\<forall>b\<in>los_bases h. los_range mem y \<inter> mem_range b LOS_SECTION_SIZE = {})"
      using d(7) yx unfolding huge_ok_def by blast
    then show ?thesis unfolding same(4) [OF yx yx] using os by blast
  qed
  have apart: "los_range mem' y \<inter> los_range mem' z = {}" if yz: "y \<in> insert x (set ?xs)" "z \<in> insert x (set ?xs)" "z \<noteq> y" for y z
  proof -
    consider "y = x" "z \<in> set ?xs" | "z = x" "y \<in> set ?xs" | "y \<in> set ?xs" "z \<in> set ?xs" using yz by blast
    then show ?thesis
    proof cases
      case 1
      then show ?thesis using x(3) [OF 1(2)] same(4) [OF 1(2) 1(2)] by simp
    next
      case 2
      then show ?thesis using x(3) [OF 2(2)] same(4) [OF 2(2) 2(2)] by (simp add: Int_commute)
    next
      case 3
      then show ?thesis using los_disjoint [OF inv 3] yz(3) same(4) [OF 3(1) 3(1)] same(4) [OF 3(2) 3(2)] by blast
    qed
  qed
  have "\<forall>b\<in>los_bases h. mem_range b LOS_SECTION_SIZE \<inter> os_free (los_os h') = {}" using d(7) os unfolding huge_ok_def by blast
  then have huge: "huge_ok (los_bases h) (os_free (los_os h')) mem' ?ys"
    unfolding huge_ok_def set
  proof (intro conjI ballI impI)
    fix y assume y: "y \<in> insert x (set ?xs)" "\<not> los_small mem' y"
    show "los_range mem' y \<inter> os_free (los_os h') = {}" by (rule conjunct1 [OF clear [OF y]])
    show "los_range mem' y \<inter> mem_range b LOS_SECTION_SIZE = {}" if "b \<in> los_bases h" for b using conjunct2 [OF clear [OF y]] that by (rule bspec)
    show "los_range mem' y \<inter> los_range mem' z = {}" if "z \<in> insert x (set ?xs)" "z \<noteq> y" "\<not> los_small mem' z" for z by (rule apart [OF y(1) that(1,2)])
  qed (rule bspec)
  show "set ?ys = insert x (set ?xs)" "x \<notin> set ?xs" by (rule set, rule new)
  show "los_inv os_free mem' h'"
    unfolding los_inv_def Let_def
  proof (intro conjI ballI)
    show "distinct ?ys" using ys d(4) new by (metis distinct.simps(2) mset.simps(2) mset_eq_imp_distinct_iff)
    show "los_obj_ok (los_bases h') mem' y" if "y \<in> set ?ys" for y
      using that x(1) d(5) same(5) unfolding set free(2) by auto
    show "los_free h' + obj_chunks mem' ?ys = all_chunks (los_sections h')"
      unfolding chunks free(3) d(6) [symmetric] free(5) by (simp add: ac_simps)
    show "huge_ok (los_bases h') (os_free (los_os h')) mem' ?ys" unfolding free(2) by (rule huge)
    show "los_num_objects h' = int (length ?ys)" using arg_cong [OF ys, of size] counts(1) d(8) by simp
    show "los_memory_usage h' = (\<Sum>x\<leftarrow>?ys. int (sgen_los_object_size mem' x))" unfolding sum counts(3) d(9) using sum' by simp
    show "los_num_sections h' = int (length (los_sections h'))" using counts(2) d(10) free(4) by simp
    show "\<exists>k. al_full k (los_object_array_list h')" using added(1) by blast
    show "default_setter (los_object_array_list h')" using arr(1) by (simp add: added_def)
  qed (rule free(1))
qed

section \<open>Allocation keeps the invariant\<close>

text \<open>What is assumed of the operating system, of the memory governor and of a collection that a request for space starts.\<close>

definition los_os_law :: "'o los_env \<Rightarrow> ('o \<Rightarrow> u64 set) \<Rightarrow> bool" where
  "los_os_law env os_free \<longleftrightarrow>
    (\<forall>n os p os'. alloc_os_memory env n os = (p, os') \<longrightarrow> os_free os' \<subseteq> os_free os \<and>
      (p \<noteq> 0 \<longrightarrow> p AND mask 12 = 0 \<and> unat p + n \<le> 2 ^ 64 \<and> mem_range p n \<subseteq> os_free os \<and> mem_range p n \<inter> os_free os' = {})) \<and>
    (\<forall>os p os'. alloc_os_memory_aligned env LOS_SECTION_SIZE LOS_SECTION_SIZE os = (p, os') \<longrightarrow> os_free os' \<subseteq> os_free os \<and>
      (p \<noteq> 0 \<longrightarrow> p AND mask 20 = 0 \<and> mem_range p LOS_SECTION_SIZE \<subseteq> os_free os \<and> mem_range p LOS_SECTION_SIZE \<inter> os_free os' = {})) \<and>
    (\<forall>p n os. os_free (free_os_memory env p n os) \<subseteq> os_free os \<union> mem_range p n) \<and>
    (\<forall>n os. os_free (snd (memgov_try_alloc_space env n os)) \<subseteq> os_free os) \<and>
    (\<forall>n os. os_free (memgov_release_space env n os) \<subseteq> os_free os)"

text \<open>With the program's own governor the law of the system carries over.\<close>

definition with_memgov :: "(nat \<Rightarrow> memory \<times> (sgen_memgov \<times> 'o) los_heap \<Rightarrow> (memory \<times> (sgen_memgov \<times> 'o) los_heap) option) \<Rightarrow>
    'o los_env \<Rightarrow> (sgen_memgov \<times> 'o) los_env" where
  "with_memgov collect env = \<lparr>vtable_has_references = vtable_has_references env,
    alloc_os_memory = (\<lambda>n (g, os). case alloc_os_memory env n os of (p, os) \<Rightarrow> (p, (g, os))),
    alloc_os_memory_aligned = (\<lambda>n align (g, os). case alloc_os_memory_aligned env n align os of (p, os) \<Rightarrow> (p, (g, os))),
    free_os_memory = (\<lambda>p n (g, os). (g, free_os_memory env p n os)),
    memgov_try_alloc_space = (\<lambda>n (g, os). case sgen_memgov_try_alloc_space (of_nat n) g of (granted, g) \<Rightarrow> (granted, (g, os))),
    memgov_release_space = (\<lambda>n (g, os). (sgen_memgov_release_space (of_nat n) g, os)), ensure_free_space = collect\<rparr>"

lemma with_memgov_law:
  assumes "los_os_law env os_free"
  shows "los_os_law (with_memgov collect env) (os_free \<circ> snd)"
proof -
  note law = assms [unfolded los_os_law_def]
  show ?thesis unfolding los_os_law_def
  proof (intro conjI allI impI)
    fix n :: nat and os :: "sgen_memgov \<times> 'a" and p and os' :: "sgen_memgov \<times> 'a"
    assume "alloc_os_memory (with_memgov collect env) n os = (p, os')"
    then have "alloc_os_memory env n (snd os) = (p, snd os')"
      by (cases os) (auto simp: with_memgov_def split: prod.splits)
    from law [THEN conjunct1, THEN spec, THEN spec, THEN spec, THEN spec, THEN mp, OF this]
    show "(os_free \<circ> snd) os' \<subseteq> (os_free \<circ> snd) os" "p \<noteq> 0 \<Longrightarrow> p AND mask 12 = 0" "p \<noteq> 0 \<Longrightarrow> unat p + n \<le> 2 ^ 64"
      "p \<noteq> 0 \<Longrightarrow> mem_range p n \<subseteq> (os_free \<circ> snd) os" "p \<noteq> 0 \<Longrightarrow> mem_range p n \<inter> (os_free \<circ> snd) os' = {}" by simp_all
  next
    fix os :: "sgen_memgov \<times> 'a" and p and os' :: "sgen_memgov \<times> 'a"
    assume "alloc_os_memory_aligned (with_memgov collect env) LOS_SECTION_SIZE LOS_SECTION_SIZE os = (p, os')"
    then have "alloc_os_memory_aligned env LOS_SECTION_SIZE LOS_SECTION_SIZE (snd os) = (p, snd os')"
      by (cases os) (auto simp: with_memgov_def split: prod.splits)
    from law [THEN conjunct2, THEN conjunct1, THEN spec, THEN spec, THEN spec, THEN mp, OF this]
    show "(os_free \<circ> snd) os' \<subseteq> (os_free \<circ> snd) os" "p \<noteq> 0 \<Longrightarrow> p AND mask 20 = 0"
      "p \<noteq> 0 \<Longrightarrow> mem_range p LOS_SECTION_SIZE \<subseteq> (os_free \<circ> snd) os" "p \<noteq> 0 \<Longrightarrow> mem_range p LOS_SECTION_SIZE \<inter> (os_free \<circ> snd) os' = {}" by simp_all
  next
    show "(os_free \<circ> snd) (free_os_memory (with_memgov collect env) p n os) \<subseteq> (os_free \<circ> snd) os \<union> mem_range p n" for p n os
      using law by (cases os) (simp add: with_memgov_def)
    show "(os_free \<circ> snd) (snd (memgov_try_alloc_space (with_memgov collect env) n os)) \<subseteq> (os_free \<circ> snd) os" for n os
      by (cases os) (simp add: with_memgov_def split: prod.split)
    show "(os_free \<circ> snd) (memgov_release_space (with_memgov collect env) n os) \<subseteq> (os_free \<circ> snd) os" for n os
      by (cases os) (simp add: with_memgov_def)
  qed
qed

definition shrunk :: "'o los_heap \<Rightarrow> 'o los_heap \<Rightarrow> bool" where
  "shrunk h h' \<longleftrightarrow> set (los_objs (los_object_array_list h')) \<subseteq> set (los_objs (los_object_array_list h)) \<and>
    al_capacity (los_object_array_list h') = al_capacity (los_object_array_list h)"

definition los_collector_law :: "'o los_env \<Rightarrow> ('o \<Rightarrow> u64 set) \<Rightarrow> bool" where
  "los_collector_law env os_free \<longleftrightarrow>
    (\<forall>n mem h. los_inv os_free mem h \<longrightarrow>
      (\<exists>mem' h'. ensure_free_space env n (mem, h) = Some (mem', h') \<and> los_inv os_free mem' h' \<and> shrunk h h'))"

lemma shrunk_refl: "shrunk h h"
  by (simp add: shrunk_def)

lemma shrunk_trans: "shrunk h h1 \<Longrightarrow> shrunk h1 h2 \<Longrightarrow> shrunk h h2"
  by (auto simp: shrunk_def)

lemma huge_ok_mono: "huge_ok B F mem xs \<Longrightarrow> F' \<subseteq> F \<Longrightarrow> huge_ok B F' mem xs"
  unfolding huge_ok_def by blast

lemma los_inv_os:
  assumes "los_inv os_free mem h" "os_free os' \<subseteq> os_free (los_os h)"
  shows "los_inv os_free mem (h\<lparr>los_os := os'\<rparr>)"
proof -
  have "huge_ok (los_bases h) (os_free os') mem (los_objs (los_object_array_list h))"
    by (rule huge_ok_mono [OF los_invD(7) [OF assms(1)] assms(2)])
  then show ?thesis using assms(1) by (simp add: los_inv_def Let_def heap_free_def los_free_def los_bases_def)
qed

lemma los_obj_ok_mono: "los_obj_ok B mem x \<Longrightarrow> B \<subseteq> B' \<Longrightarrow> los_obj_ok B' mem x"
  unfolding los_obj_ok_def by blast

lemma mem_range_self: "0 < n \<Longrightarrow> p \<in> mem_range p n"
  by (simp add: mem_range_def)

lemma los_new_section_ok:
  assumes law: "los_os_law env os_free" "los_collector_law env os_free" and inv: "los_inv os_free mem h"
  obtains ok mem' h' where "los_new_section env mem h = Some (ok, mem', h')" "los_inv os_free mem' h'" "shrunk h h'"
    "ok \<Longrightarrow> \<exists>e\<in>set (los_fast_free_lists h' ! 0). snd e = 4096 * 255"
proof -
  let ?grant = "\<lambda>os. memgov_try_alloc_space env LOS_SECTION_SIZE os"
  have grant: "os_free (snd (?grant os)) \<subseteq> os_free os" for os using law(1) unfolding los_os_law_def by blast
  obtain g mem1 h1 where 1: "(case ?grant (los_os h) of (granted, os) \<Rightarrow>
       if granted then Some (True, mem, h\<lparr>los_os := os\<rparr>)
       else do {
         (mem, h) \<leftarrow> ensure_free_space env LOS_SECTION_SIZE (mem, h\<lparr>los_os := os\<rparr>);
         case ?grant (los_os h) of (granted, os) \<Rightarrow> Some (granted, mem, h\<lparr>los_os := os\<rparr>) }) = Some (g, mem1, h1)"
    "los_inv os_free mem1 h1" "shrunk h h1"
  proof -
    obtain g os where g: "?grant (los_os h) = (g, os)" by fastforce
    have inv1: "los_inv os_free mem (h\<lparr>los_os := os\<rparr>)" using los_inv_os [OF inv] grant [of "los_os h"] g by simp
    show thesis
    proof (cases g)
      case True
      then show thesis using that [of True mem "h\<lparr>los_os := os\<rparr>"] inv1 g by (simp add: shrunk_def)
    next
      case False
      obtain mem' h' where e: "ensure_free_space env LOS_SECTION_SIZE (mem, h\<lparr>los_os := os\<rparr>) = Some (mem', h')"
        "los_inv os_free mem' h'" "shrunk (h\<lparr>los_os := os\<rparr>) h'" using law(2) inv1 unfolding los_collector_law_def by blast
      obtain g' os' where g': "?grant (los_os h') = (g', os')" by fastforce
      have "los_inv os_free mem' (h'\<lparr>los_os := os'\<rparr>)" using los_inv_os [OF e(2)] grant [of "los_os h'"] g' by simp
      then show thesis using that [of g' mem' "h'\<lparr>los_os := os'\<rparr>"] False g g' e(1,3) by (simp add: shrunk_def)
    qed
  qed
  obtain p os where p: "alloc_os_memory_aligned env LOS_SECTION_SIZE LOS_SECTION_SIZE (los_os h1) = (p, os)" by fastforce
  have pos: "os_free os \<subseteq> os_free (los_os h1)" "p \<noteq> 0 \<Longrightarrow> p AND mask 20 = 0"
    "p \<noteq> 0 \<Longrightarrow> mem_range p LOS_SECTION_SIZE \<subseteq> os_free (los_os h1)" "p \<noteq> 0 \<Longrightarrow> mem_range p LOS_SECTION_SIZE \<inter> os_free os = {}"
    using law(1) p unfolding los_os_law_def by blast+
  show thesis
  proof (cases "g \<and> p \<noteq> 0")
    case False
    let ?h = "if g then h1\<lparr>los_os := os\<rparr> else h1"
    have "los_new_section env mem h = Some (False, mem1, ?h)"
      using False p unfolding los_new_section_def 1(1) by simp
    moreover have "los_inv os_free mem1 ?h" using los_inv_os [OF 1(2) pos(1)] 1(2) by simp
    moreover have "shrunk h ?h" using 1(3) by (simp add: shrunk_def)
    ultimately show thesis using that by blast
  next
    case True
    note d = los_invD [OF 1(2)]
    let ?xs = "los_objs (los_object_array_list h1)"
    let ?sec = "\<lparr>ls_addr = p, ls_num_free_chunks = LOS_SECTION_NUM_CHUNKS, ls_free_chunk_map = False # replicate LOS_SECTION_NUM_CHUNKS True\<rparr>"
    let ?h = "h1\<lparr>los_os := os, los_fast_free_lists := (los_fast_free_lists h1)[0 :=
        (p + of_nat LOS_CHUNK_SIZE, LOS_SECTION_SIZE - LOS_CHUNK_SIZE) # los_fast_free_lists h1 ! 0],
      los_sections := ?sec # los_sections h1,
      los_memory_usage_total := los_memory_usage_total h1 + int LOS_SECTION_SIZE, los_num_sections := los_num_sections h1 + 1\<rparr>"
    have run: "los_new_section env mem h = Some (True, mem1, ?h)" using True p unfolding los_new_section_def 1(1) by simp
    have al: "sec_aligned p" using pos(2) True by (simp add: sec_aligned_def)
    have range: "mem_range p LOS_SECTION_SIZE \<subseteq> os_free (los_os h1)" "mem_range p LOS_SECTION_SIZE \<inter> os_free os = {}"
      using pos(3,4) True by blast+
    have self: "p \<in> mem_range p LOS_SECTION_SIZE" by (rule mem_range_self) (simp add: los_consts)
    have fresh: "p \<notin> los_bases h1" using d(7) range(1) self unfolding huge_ok_def by blast
    have sec: "los_sections ?h = \<lparr>ls_addr = p, ls_num_free_chunks = 255, ls_free_chunk_map = False # replicate 255 True\<rparr> # los_sections h1"
      "los_fast_free_lists ?h = (los_fast_free_lists h1)[0 := (caddr p 1, 4096 * 255) # los_fast_free_lists h1 ! 0]"
      unfolding los_consts by (simp_all add: caddr_def)
    note add = add_section_ok [OF d(1) al fresh [unfolded los_bases_def] sec]
    have bases: "los_bases ?h = insert p (los_bases h1)" by (simp add: los_bases_def)
    have "los_inv os_free mem1 ?h"
      unfolding los_inv_def Let_def
    proof (intro conjI ballI)
      show "los_free ?h + obj_chunks mem1 (los_objs (los_object_array_list ?h)) = all_chunks (los_sections ?h)"
      proof -
        have "los_free ?h + obj_chunks mem1 ?xs = mset (map (caddr p) [1..<256]) + (los_free h1 + obj_chunks mem1 ?xs)"
          unfolding add(2) by (simp only: ac_simps)
        also have "\<dots> = all_chunks (los_sections ?h)" unfolding d(6) sec(1) all_chunks_def by (simp only: mset.simps image_mset_add_mset sum_mset.add_mset LOSSection.simps)
        finally show ?thesis by simp
      qed
      show "huge_ok (los_bases ?h) (os_free (los_os ?h)) mem1 (los_objs (los_object_array_list ?h))"
        using d(7) pos(1) range unfolding bases by (simp add: huge_ok_def) blast
      show "los_obj_ok (los_bases ?h) mem1 x" if "x \<in> set (los_objs (los_object_array_list ?h))" for x
        unfolding bases using that by (intro los_obj_ok_mono [OF d(5)]) auto
    qed (use d add(1) in simp_all)
    moreover have "shrunk h ?h" using 1(3) by (simp add: shrunk_def)
    moreover have "\<exists>e\<in>set (los_fast_free_lists ?h ! 0). snd e = 4096 * 255"
      using heap_freeD(3) [OF d(1)] unfolding sec(2) by (simp add: lists_ok_def)
    ultimately show thesis using that [OF run] by blast
  qed
qed

text \<open>No new section: the governor refuses one, also after a collection, or the system has none.\<close>

definition los_section_refused :: "'o los_env \<Rightarrow> memory \<Rightarrow> 'o los_heap \<Rightarrow> bool" where
  "los_section_refused env mem h \<longleftrightarrow>
    (let governor = memgov_try_alloc_space env LOS_SECTION_SIZE;
         no_memory = (\<lambda>os. fst (alloc_os_memory_aligned env LOS_SECTION_SIZE LOS_SECTION_SIZE os) = 0) in
     if fst (governor (los_os h)) then no_memory (snd (governor (los_os h)))
     else case ensure_free_space env LOS_SECTION_SIZE (mem, h\<lparr>los_os := snd (governor (los_os h))\<rparr>) of
       None \<Rightarrow> False
     | Some (_, h) \<Rightarrow> \<not> fst (governor (los_os h)) \<or> no_memory (snd (governor (los_os h))))"

lemma los_new_section_refused:
  assumes r: "los_new_section env mem h = Some (ok, mem', h')"
  shows "ok \<longleftrightarrow> \<not> los_section_refused env mem h"
proof -
  let ?S = LOS_SECTION_SIZE
  obtain g os where g: "memgov_try_alloc_space env ?S (los_os h) = (g, os)" by fastforce
  obtain p os2 where p: "alloc_os_memory_aligned env ?S ?S os = (p, os2)" by fastforce
  show ?thesis
  proof (cases g)
    case True
    then show ?thesis using r g p by (simp add: los_new_section_def los_section_refused_def Let_def split: if_splits)
  next
    case False
    obtain mem1 h1 where e: "ensure_free_space env ?S (mem, h\<lparr>los_os := os\<rparr>) = Some (mem1, h1)"
      using r g False by (auto simp: los_new_section_def bind_eq_Some_conv)
    obtain g1 os1 where g1: "memgov_try_alloc_space env ?S (los_os h1) = (g1, os1)" by fastforce
    obtain p1 os3 where p1: "alloc_os_memory_aligned env ?S ?S os1 = (p1, os3)" by fastforce
    show ?thesis
      using r g False e g1 p1 by (cases g1) (simp_all add: los_new_section_def los_section_refused_def Let_def split: if_splits)
  qed
qed

definition los_no_room :: "'o los_env \<Rightarrow> nat \<Rightarrow> memory \<Rightarrow> 'o los_heap \<Rightarrow> bool" where
  "los_no_room env n mem h \<longleftrightarrow> \<not> los_fits n h \<and> los_section_refused env mem h"

lemma los_section_retry_ok:
  assumes law: "los_os_law env os_free" "los_collector_law env os_free" and inv: "los_inv os_free mem h" and k: "0 < k" "k \<le> 255"
  shows "\<exists>p mem' h'. los_section_retry env (4096 * k) mem h = Some (p, mem', h') \<and>
    (p = 0 \<and> los_no_room env (4096 * k) mem h \<and> los_inv os_free mem' h' \<and> shrunk h h' \<or>
     \<not> los_no_room env (4096 * k) mem h \<and> (\<exists>b c h1. p = caddr b c \<and> los_inv os_free mem' h1 \<and> shrunk h h1 \<and> took h1 k b c h'))"
proof (cases rule: get_free_chunks_ok [OF los_invD(1) [OF inv] k(1), case_names none some])
  case (some b c h')
  then have "los_section_retry env (4096 * k) mem h = Some (caddr b c, mem, h')"
    using tookD(5) [OF some(2)] by (subst los_section_retry.simps) simp
  moreover have "\<not> los_no_room env (4096 * k) mem h"
    using get_free_chunks_fits [OF los_invD(1) [OF inv] k(1) some(1)] tookD(5) [OF some(2)] by (simp add: los_no_room_def)
  ultimately show ?thesis using inv some(2) shrunk_refl by blast
next
  case none
  obtain ok mem1 h1 where 1: "los_new_section env mem h = Some (ok, mem1, h1)" "los_inv os_free mem1 h1" "shrunk h h1"
    "ok \<Longrightarrow> \<exists>e\<in>set (los_fast_free_lists h1 ! 0). snd e = 4096 * 255" by (rule los_new_section_ok [OF law inv]) blast
  have room: "los_no_room env (4096 * k) mem h \<longleftrightarrow> \<not> ok"
    using get_free_chunks_fits [OF los_invD(1) [OF inv] k(1) none(1)] los_new_section_refused [OF 1(1)] by (simp add: los_no_room_def)
  have unroll: "los_section_retry env (4096 * k) mem h = (if ok then los_section_retry env (4096 * k) mem1 h1 else Some (0, mem1, h1))"
    by (subst los_section_retry.simps) (simp add: none(1) 1(1))
  show ?thesis
  proof (cases ok)
    case False
    then show ?thesis using unroll room 1(2,3) by simp
  next
    case True
    then obtain e where e: "e \<in> set (los_fast_free_lists h1 ! 0)" "snd e = 4096 * 255" using 1(4) by blast
    then have "\<not> snd e < 4096 * k" using k(2) by simp
    then have big: "\<exists>e\<in>set (los_fast_free_lists h1 ! 0). \<not> snd e < 4096 * k" using e(1) by blast
    show ?thesis
    proof (cases rule: get_free_chunks_ok [OF los_invD(1) [OF 1(2)] k(1), case_names none some])
      case none
      then show ?thesis using big by blast
    next
      case (some b c h')
      then have "los_section_retry env (4096 * k) mem1 h1 = Some (caddr b c, mem1, h')"
        using tookD(5) [OF some(2)] by (subst los_section_retry.simps) simp
      then show ?thesis using unroll room True 1(2,3) some(2) by auto
    qed
  qed
qed

lemma took_disjoint:
  assumes inv: "los_inv os_free mem h" and took: "took h k b c h'" and y: "y \<in> set (los_objs (los_object_array_list h))"
  shows "mem_range (caddr b c) (4096 * k) \<inter> los_range mem y = {}"
proof (rule ccontr)
  assume "mem_range (caddr b c) (4096 * k) \<inter> los_range mem y \<noteq> {}"
  then obtain a where a: "a \<in> mem_range (caddr b c) (4096 * k)" "a \<in> los_range mem y" by blast
  note d = los_invD [OF inv] and t = tookD [OF took]
  let ?d = "SGEN_ALIGN_DOWN_TO a 4096"
  show False
  proof (cases "los_small mem y")
    case False
    then have "los_range mem y \<inter> mem_range b LOS_SECTION_SIZE = {}" using d(7) y t(1) [folded los_bases_def] unfolding huge_ok_def by blast
    then show False using a mem_range_section [OF t(2,4)] by blast
  next
    case True
    obtain b' c' k' where s: "b' \<in> los_bases h" "sec_aligned b'" "1 \<le> c'" "c' + k' \<le> 256" "los_base y = caddr b' c'" "los_span mem y = 4096 * k'"
      "0 < k'" "los_range mem y = mem_range (caddr b' c') (4096 * k')" by (rule small_range [OF d(5) [OF y] True los_bases_aligned [OF d(1)]])
    have "?d \<in># obj_chunks mem [y]"
      using mem_range_chunk [OF s(2,4)] a(2) s(5,6,8) True by (simp add: obj_chunks_one)
    moreover obtain ys where "mset (los_objs (los_object_array_list h)) = mset (y # ys)"
      using y by (metis insert_DiffM ex_mset mset.simps(2) set_mset_mset)
    then have "obj_chunks mem (los_objs (los_object_array_list h)) = obj_chunks mem [y] + obj_chunks mem ys"
      using obj_chunks_mset obj_chunks_Cons by metis
    ultimately have "1 \<le> count (obj_chunks mem (los_objs (los_object_array_list h))) ?d" by (simp add: Suc_le_eq)
    moreover have "?d \<in># los_free h"
      using mem_range_chunk [OF t(2,4) a(1)] unfolding t(8) entry_chunks_caddr by simp
    then have "1 \<le> count (los_free h) ?d" by (simp add: Suc_le_eq)
    ultimately have "2 \<le> count (all_chunks (los_sections h)) ?d" unfolding d(6) [symmetric] count_union by linarith
    then show False using all_chunks_count [OF d(1), of ?d] by simp
  qed
qed

lemma base_off:
  assumes "p AND mask 12 = 0" "off < 4096" "p \<noteq> 0" "unat p + n \<le> 2 ^ 64" "off < n"
  shows "los_base (p + of_nat off) = p" "unat (p + of_nat off) = unat p + off"
proof -
  have u: "unat (of_nat off :: u64) = off" using assms(2) by (simp only: unat_of_nat) (simp add: take_bit_nat_eq_self)
  show 1: "unat (p + of_nat off) = unat p + off" using assms(4,5) u by (simp add: unat_word_ariths)
  have "take_bit 12 p = 0" using assms(1) by (simp add: take_bit_eq_mask)
  then have "unat p mod 2 ^ 12 = 0" using unat_take_bit_mod [of 12 p] by simp
  then obtain q where q: "unat p = 4096 * q" by (auto simp: mod_eq_0_iff_dvd dvd_def)
  have "(off + 4096 * q) div 4096 = q" using assms(2) by (subst div_mult_self2) simp_all
  then have "(unat p + off) div 4096 * 4096 = unat p" using q by (simp add: add.commute)
  then have "unat (los_base (p + of_nat off)) = unat p"
    using unat_and_not_mask [of "p + of_nat off" 12] 1 by (simp add: los_base_def SGEN_ALIGN_DOWN_TO_def mask_eq_exp_minus_1)
  then show "los_base (p + of_nat off) = p" by (simp add: word_unat_eq_iff)
qed

lemma bucket_start_le: "j \<le> k \<Longrightarrow> bucket_start j \<le> bucket_start k"
  using diff_le_mono [OF power_increasing [of j k "2::nat"], of 1] by (simp add: bucket_start_eq)

lemma los_untag: "x AND 7 = 0 \<Longrightarrow> LOS_OBJECT_UNTAG x = x" "x AND 7 = 0 \<Longrightarrow> LOS_OBJECT_UNTAG (x OR 1) = x"
proof -
  assume x: "x AND 7 = 0"
  have "x AND 1 = (x AND 7) AND 1" by (simp add: and.assoc)
  then have one: "x AND 1 = 0" using x by simp
  have "x = x AND (1 OR NOT 1)" by (simp only: bit.disj_cancel_right bit.conj_one_right)
  also have "\<dots> = x AND NOT 1" by (simp only: bit.conj_disj_distrib one or.left_neutral)
  finally have e: "x AND NOT 1 = x" ..
  then show "LOS_OBJECT_UNTAG x = x" unfolding LOS_OBJECT_UNTAG_def .
  show "LOS_OBJECT_UNTAG (x OR 1) = x" unfolding LOS_OBJECT_UNTAG_def
    by (simp only: bit.conj_disj_distrib2 e bit.conj_cancel_right or.right_neutral)
qed

lemma even_word: "even n \<Longrightarrow> n < 2 ^ 64 \<Longrightarrow> unat ((of_nat n :: u64) AND NOT 1) = n"
proof -
  assume n: "even n" "n < 2 ^ 64"
  have "unat ((of_nat n :: u64) AND NOT (mask 1)) = unat (of_nat n :: u64) div 2 ^ 1 * 2 ^ 1" by (rule unat_and_not_mask)
  moreover have "unat (of_nat n :: u64) = n" using n(2) by (simp only: unat_of_nat) (simp add: take_bit_nat_eq_self)
  ultimately show ?thesis using n(1) by simp
qed

definition los_extent :: "nat \<Rightarrow> nat" where
  "los_extent n = SGEN_ALIGN_UP_TO (n + 16) 4096"

lemma los_extent_eq: "los_extent n = 4096 * ((n + 4111) div 4096)"
  by (simp add: los_extent_def align_up_eq)

text \<open>What is left of the allocation once the memory is there.\<close>

definition los_entered :: "('o \<Rightarrow> u64 set) \<Rightarrow> 'o los_env \<Rightarrow> 'o los_heap \<Rightarrow> u64 \<Rightarrow> nat \<Rightarrow> u64 \<Rightarrow> memory \<Rightarrow> 'o los_heap \<Rightarrow> bool" where
  "los_entered os_free env h vtable n x mem1 h2 \<longleftrightarrow>
    (let mem3 = mem1(x := of_nat n, x + 16 := vtable) in
     x \<noteq> 0 \<and> x + 16 \<noteq> 0 \<and> (x + 16) AND 7 = 0 \<and> sgen_los_object_size mem3 x = n \<and> mem3 (x + 16) = vtable \<and>
     (\<exists>i array. sgen_array_list_add (LOS_OBJECT_TAG env mem3 x) 0 False (los_object_array_list h2) = Some (i, array) \<and>
       set (los_objs array) = insert x (set (los_objs (los_object_array_list h))) \<and>
       (\<forall>lo hi. los_inv os_free mem3 (h2\<lparr>lowest_heap_address := lo, highest_heap_address := hi, los_object_array_list := array,
         los_memory_usage := los_memory_usage h2 + int n, los_num_objects := los_num_objects h2 + 1\<rparr>))))"

lemma los_entered_intro:
  assumes inv: "los_inv os_free mem h"
    and h2: "heap_free h2" "los_bases h2 = los_bases h" "all_chunks (los_sections h2) = all_chunks (los_sections h)"
      "length (los_sections h2) = length (los_sections h)" "los_object_array_list h2 = los_object_array_list h"
      "los_num_objects h2 = los_num_objects h" "los_num_sections h2 = los_num_sections h" "los_memory_usage h2 = los_memory_usage h"
      "os_free (los_os h2) \<subseteq> os_free (los_os h)"
    and p: "p AND mask 12 = 0" "p \<noteq> 0" "unat p + los_extent n \<le> 2 ^ 64" "off < 4096" "8 dvd off" "off + (n + 16) \<le> los_extent n"
    and n: "8000 < n" "even n" "n \<le> SSIZE_MAX - 4095 - 16" and v: "vtable AND 7 = 0"
    and small: "n \<le> LOS_SECTION_OBJECT_LIMIT \<Longrightarrow> los_free h = mset (entry_chunks (p, los_extent n)) + los_free h2 \<and>
      (\<exists>b\<in>los_bases h. \<exists>c. 1 \<le> c \<and> c + los_extent n div 4096 \<le> 256 \<and> p = caddr b c)"
    and huge: "LOS_SECTION_OBJECT_LIMIT < n \<Longrightarrow> los_free h = los_free h2 \<and> mem_range p (los_extent n) \<inter> os_free (los_os h2) = {} \<and>
      (\<forall>b\<in>los_bases h. mem_range p (los_extent n) \<inter> mem_range b LOS_SECTION_SIZE = {})"
    and apart: "\<And>y. y \<in> set (los_objs (los_object_array_list h)) \<Longrightarrow> mem_range p (los_extent n) \<inter> los_range mem y = {}"
    and mem1: "\<And>a. a \<notin> mem_range p (los_extent n) \<Longrightarrow> mem1 a = mem a"
    and room: "al_capacity (los_object_array_list h) < bucket_start 23"
  defines "x \<equiv> p + of_nat off"
  defines "mem' \<equiv> mem1(x := of_nat n, x + 16 := vtable)"
  shows "los_entered os_free env h vtable n x mem1 h2"
proof -
  let ?a = "los_object_array_list h"
  have ext: "16 + n \<le> los_extent n" "off < los_extent n" using p(6) n(1) by simp_all
  note bo = base_off [OF p(1,4,2,3) ext(2), folded x_def]
  have lt: "n < 2 ^ 64" using n(3) by (simp add: SSIZE_MAX_def)
  have x16: "x + 16 \<noteq> x" by simp
  have m: "mem' x = of_nat n" "mem' (x + 16) = vtable" using x16 by (simp_all add: mem'_def)
  have size: "sgen_los_object_size mem' x = n" unfolding sgen_los_object_size_def m(1) by (rule even_word [OF n(2) lt])
  have span: "los_span mem' x = los_extent n" "los_range mem' x = mem_range p (los_extent n)" "los_small mem' x \<longleftrightarrow> n \<le> LOS_SECTION_OBJECT_LIMIT"
    by (simp_all add: los_span_def los_extent_def los_range_def size bo(1) los_small_def)
  have okx: "los_obj_ok (los_bases h) mem' x"
    unfolding los_obj_ok_def size span(1) bo(1) span(3) m(2) using n p v small x_def by (auto simp: add.assoc)
  note hdr = obj_header [OF okx]
  have outside: "mem' a = mem a" if "a \<notin> mem_range p (los_extent n)" for a
  proof -
    have "a \<noteq> x" "a \<noteq> x + 16" using hdr(1,2) that unfolding span(2) by blast+
    then show ?thesis using mem1 [OF that] by (simp add: mem'_def)
  qed
  let ?v = "LOS_OBJECT_TAG env mem' x"
  have uv: "LOS_OBJECT_UNTAG ?v = x" using los_untag [OF hdr(4)] by (simp add: LOS_OBJECT_TAG_def)
  then have v0: "?v \<noteq> 0" using hdr(3) by (auto simp: LOS_OBJECT_UNTAG_def)
  obtain k where full: "al_full k ?a" using los_invD(2) [OF inv] by blast
  have "k < 23"
  proof (rule ccontr)
    assume "\<not> k < 23"
    then have "bucket_start 23 \<le> bucket_start k" by (intro bucket_start_le) simp
    then show False using room al_okD(3) [of k ?a] full by (simp add: al_full_def)
  qed
  then obtain i array k' where add: "sgen_array_list_add ?v 0 False ?a = Some (i, array)" "al_ok k' array" "added ?v i ?a array"
    using array_list_add_ok [of k ?a ?v 0 False] full los_invD(3) [OF inv] by (auto simp: al_full_def)
  have ins: "los_inv os_free mem' (h2\<lparr>lowest_heap_address := lo, highest_heap_address := hi, los_object_array_list := array,
      los_memory_usage := los_memory_usage h2 + int n, los_num_objects := los_num_objects h2 + 1\<rparr>)"
    "set (los_objs array) = insert x (set (los_objs ?a))" "x \<notin> set (los_objs ?a)" for lo hi
  proof -
    let ?h = "h2\<lparr>lowest_heap_address := lo, highest_heap_address := hi, los_object_array_list := array,
      los_memory_usage := los_memory_usage h2 + int n, los_num_objects := los_num_objects h2 + 1\<rparr>"
    have free: "heap_free ?h" "los_bases ?h = los_bases h" "los_free ?h = los_free h2"
      using h2(1,2) by (simp_all add: heap_free_def los_bases_def los_free_def)
    have part: "los_free h = los_free ?h + obj_chunks mem' [x]"
    proof (cases "n \<le> LOS_SECTION_OBJECT_LIMIT")
      case True
      then show ?thesis using small unfolding free(3) by (simp add: obj_chunks_one span bo(1) ac_simps)
    next
      case False
      then show ?thesis using huge unfolding free(3) by (simp add: obj_chunks_one span)
    qed
    have far: "los_range mem' x \<inter> os_free (los_os ?h) = {} \<and> (\<forall>b\<in>los_bases h. los_range mem' x \<inter> mem_range b LOS_SECTION_SIZE = {})" if "\<not> los_small mem' x"
      using huge that unfolding span by simp
    note I = los_inv_insert [OF inv free(1,2) _ _ part _ okx far _ _ _ _ uv v0, of i k']
    show "los_inv os_free mem' ?h" by (rule I(1)) (use h2 apart outside add size in \<open>simp_all add: span(2)\<close>)
    show "set (los_objs array) = insert x (set (los_objs ?a))"
      using I(2) h2 apart outside add size by (simp add: span(2))
    show "x \<notin> set (los_objs ?a)"
      using I(3) h2 apart outside add size by (simp add: span(2))
  qed
  have d16: "(x + 16) AND 7 = 0" "x + 16 \<noteq> 0"
  proof -
    have "8 dvd unat x" using hdr(4) by (simp add: and_7_dvd)
    moreover have "unat (x + 16) = unat x + 16" using bo(2) p(3,6) n(1) by (simp add: unat_word_ariths)
    ultimately show "(x + 16) AND 7 = 0" "x + 16 \<noteq> 0" by (auto simp: and_7_dvd)
  qed
  show ?thesis
    unfolding los_entered_def Let_def mem'_def [symmetric]
    using add(1) h2(5) ins size m(2) hdr(3) d16 by auto
qed

lemma los_range_clear:
  assumes inv: "los_inv os_free mem h" and y: "y \<in> set (los_objs (los_object_array_list h))"
  shows "los_range mem y \<inter> os_free (los_os h) = {}"
proof (cases "los_small mem y")
  case True
  note d = los_invD [OF inv]
  obtain b c k where s: "b \<in> los_bases h" "sec_aligned b" "1 \<le> c" "c + k \<le> 256" "los_base y = caddr b c" "los_span mem y = 4096 * k"
    "0 < k" "los_range mem y = mem_range (caddr b c) (4096 * k)" by (rule small_range [OF d(5) [OF y] True los_bases_aligned [OF d(1)]])
  have "mem_range b LOS_SECTION_SIZE \<inter> os_free (los_os h) = {}" using d(7) s(1) unfolding huge_ok_def by blast
  then show ?thesis using mem_range_section [OF s(2,4)] s(8) by blast
next
  case False
  then show ?thesis using los_invD(7) [OF inv] y unfolding huge_ok_def by blast
qed

lemma all_chunks_addrs: "map ls_addr secs = map ls_addr secs' \<Longrightarrow> all_chunks secs = all_chunks secs'"
proof -
  have "all_chunks secs = (\<Sum>b\<in>#mset (map ls_addr secs). mset (map (caddr b) [1..<256]))" for secs
    unfolding all_chunks_def by (induction secs) (simp_all only: mset.simps list.map image_mset_add_mset sum_mset.add_mset image_mset_empty)
  then show "map ls_addr secs = map ls_addr secs' \<Longrightarrow> all_chunks secs = all_chunks secs'" by metis
qed

lemma memset_range:
  assumes "x = p + of_nat off" "off + n \<le> m" "a \<notin> mem_range p m"
  shows "memset_zero x n mem a = mem a"
proof -
  have "\<not> unat (a - x) < n"
  proof
    assume lt: "unat (a - x) < n"
    have "a - p = (a - x) + of_nat off" by (simp add: assms(1))
    then have "unat (a - p) \<le> unat (a - x) + unat (of_nat off :: u64)" by (metis mod_less_eq_dividend unat_word_ariths(1))
    also have "unat (of_nat off :: u64) \<le> off" by (simp only: unat_of_nat) simp
    finally show False using lt assms(2,3) by (simp add: mem_range_def)
  qed
  then show ?thesis unfolding memset_zero_def by simp
qed

text \<open>No memory for an object of \<open>n\<close> bytes: for a huge one the governor refuses its pages or the system has
  none, for one in a section there is no free run that is large enough and no new section.\<close>

definition los_refused :: "'o los_env \<Rightarrow> nat \<Rightarrow> memory \<Rightarrow> 'o los_heap \<Rightarrow> bool" where
  "los_refused env n mem h \<longleftrightarrow>
    (if n > LOS_SECTION_OBJECT_LIMIT then
       let m = SGEN_ALIGN_UP_TO (n + SIZEOF_LOSObject) mono_pagesize; governor = memgov_try_alloc_space env m (los_os h) in
       \<not> fst governor \<or> fst (alloc_os_memory env m (snd governor)) = 0
     else los_no_room env (SGEN_ALIGN_UP_TO (n + SIZEOF_LOSObject) LOS_CHUNK_SIZE) mem h)"

definition los_memory_ok :: "('o \<Rightarrow> u64 set) \<Rightarrow> 'o los_env \<Rightarrow> memory \<Rightarrow> 'o los_heap \<Rightarrow> u64 \<Rightarrow> nat \<Rightarrow> (u64 \<times> memory \<times> 'o los_heap) option \<Rightarrow> bool" where
  "los_memory_ok os_free env mem h vtable n r \<longleftrightarrow>
    los_refused env n mem h \<and> (\<exists>mem' h'. r = Some (0, mem', h') \<and> los_inv os_free mem' h' \<and> shrunk h h') \<or>
    \<not> los_refused env n mem h \<and> (\<exists>x mem1 h1 h2. r = Some (x, mem1, h2) \<and> shrunk h h1 \<and> los_entered os_free env h1 vtable n x mem1 h2)"

lemma los_huge_memory:
  assumes law: "los_os_law env os_free" and inv: "los_inv os_free mem h"
    and n: "8000 < n" "even n" "n \<le> SSIZE_MAX - 4095 - 16" and v: "vtable AND 7 = 0"
    and room: "al_capacity (los_object_array_list h) < bucket_start 23" and huge: "LOS_SECTION_OBJECT_LIMIT < n"
  shows "los_memory_ok os_free env mem h vtable n (los_object_memory env n mem h)"
proof -
  let ?m = "los_extent n"
  have m: "SGEN_ALIGN_UP_TO (n + SIZEOF_LOSObject) mono_pagesize = ?m" "n + SIZEOF_LOSObject = n + 16" "mono_pagesize = 4096"
    by (simp_all add: los_extent_def los_consts)
  obtain g os where g: "memgov_try_alloc_space env ?m (los_os h) = (g, os)" by fastforce
  have gs: "os_free os \<subseteq> os_free (los_os h)" using law g unfolding los_os_law_def by (metis snd_conv)
  obtain p os' where p: "alloc_os_memory env ?m os = (p, os')" by fastforce
  have ps: "os_free os' \<subseteq> os_free os" "p \<noteq> 0 \<Longrightarrow> p AND mask 12 = 0" "p \<noteq> 0 \<Longrightarrow> unat p + ?m \<le> 2 ^ 64"
    "p \<noteq> 0 \<Longrightarrow> mem_range p ?m \<subseteq> os_free os" "p \<noteq> 0 \<Longrightarrow> mem_range p ?m \<inter> os_free os' = {}"
    using law [unfolded los_os_law_def, THEN conjunct1, THEN spec, THEN spec, THEN spec, THEN spec, THEN mp, OF p] by simp_all
  have refused: "los_refused env n mem h \<longleftrightarrow> \<not> (g \<and> p \<noteq> 0)" using huge g p m(1) by (auto simp: los_refused_def Let_def)
  show ?thesis
  proof (cases "g \<and> p \<noteq> 0")
    case False
    let ?h = "if g then h\<lparr>los_os := os'\<rparr> else h\<lparr>los_os := os\<rparr>"
    have "los_inv os_free mem ?h" using los_inv_os [OF inv gs] los_inv_os [OF inv, of os'] gs ps(1) by (simp add: subset_trans)
    moreover have "shrunk h ?h" by (simp add: shrunk_def)
    moreover have "los_object_memory env n mem h = Some (0, mem, ?h)" using False huge g p m by (simp add: los_object_memory_def Let_def)
    ultimately show ?thesis using False refused unfolding los_memory_ok_def by blast
  next
    case go: True
    then have p0: "p \<noteq> 0" by simp
    note ps = ps(1) ps(2-) [OF p0]
    obtain off where off: "randomize_los_object_start p (n + 16) ?m 4096 = Some (p + of_nat off)" "8 dvd off" "off < 4096" "off + (n + 16) \<le> ?m"
      using randomize_ok [of ?m "n + 16" p] by (auto simp: los_extent_def)
    let ?h2 = "h\<lparr>los_os := os', los_memory_usage_total := los_memory_usage_total h + int ?m\<rparr>"
    have run: "los_object_memory env n mem h = Some (p + of_nat off, mem, ?h2)"
      using huge go g p off(1) m by (simp add: los_object_memory_def Let_def)
    have clear: "mem_range p ?m \<subseteq> os_free (los_os h)" using ps(4) gs by blast
    have "los_entered os_free env h vtable n (p + of_nat off) mem ?h2"
    proof (rule los_entered_intro [OF inv _ _ _ _ _ _ _ _ _ ps(2) p0 ps(3) off(3,2,4) n v])
      show "heap_free ?h2" "los_bases ?h2 = los_bases h" using los_invD(1) [OF inv] by (simp_all add: heap_free_def los_bases_def)
      show "os_free (los_os ?h2) \<subseteq> os_free (los_os h)" using ps(1) gs by simp
      show "mem_range p ?m \<inter> los_range mem y = {}" if "y \<in> set (los_objs (los_object_array_list h))" for y
        using los_range_clear [OF inv that] clear by blast
      have "\<forall>b\<in>los_bases h. mem_range p ?m \<inter> mem_range b LOS_SECTION_SIZE = {}"
        using los_invD(7) [OF inv] clear unfolding huge_ok_def by blast
      then show "los_free h = los_free ?h2 \<and> mem_range p ?m \<inter> os_free (los_os ?h2) = {} \<and>
        (\<forall>b\<in>los_bases h. mem_range p ?m \<inter> mem_range b LOS_SECTION_SIZE = {})" using ps(5) by (simp add: los_free_def)
    qed (use huge room in simp_all)
    then show ?thesis using go refused run shrunk_refl [of h] unfolding los_memory_ok_def by blast
  qed
qed

lemma took_fields:
  assumes "took h k b c h2"
  shows "heap_free h2" "los_bases h2 = los_bases h" "all_chunks (los_sections h2) = all_chunks (los_sections h)"
    "length (los_sections h2) = length (los_sections h)" "los_object_array_list h2 = los_object_array_list h"
    "los_num_objects h2 = los_num_objects h" "los_num_sections h2 = los_num_sections h" "los_memory_usage h2 = los_memory_usage h"
    "los_os h2 = los_os h"
proof -
  have s: "map ls_addr (los_sections h2) = map ls_addr (los_sections h)"
    "h2 = h\<lparr>los_sections := los_sections h2, los_fast_free_lists := los_fast_free_lists h2\<rparr>"
    using tookD(7) [OF assms] unfolding same_space_def by blast+
  show "heap_free h2" by (rule tookD(6) [OF assms])
  show "los_bases h2 = los_bases h" unfolding los_bases_def by (metis s(1) list.set_map)
  show "all_chunks (los_sections h2) = all_chunks (los_sections h)" by (rule all_chunks_addrs [OF s(1)])
  show "length (los_sections h2) = length (los_sections h)" using s(1) by (metis length_map)
  show "los_object_array_list h2 = los_object_array_list h" "los_num_objects h2 = los_num_objects h" "los_num_sections h2 = los_num_sections h"
    "los_memory_usage h2 = los_memory_usage h" "los_os h2 = los_os h" by (subst s(2), simp)+
qed

lemma los_small_memory:
  assumes law: "los_os_law env os_free" "los_collector_law env os_free" and inv: "los_inv os_free mem h"
    and n: "8000 < n" "even n" "n \<le> SSIZE_MAX - 4095 - 16" and v: "vtable AND 7 = 0"
    and room: "al_capacity (los_object_array_list h) < bucket_start 23" and small: "n \<le> LOS_SECTION_OBJECT_LIMIT"
  shows "los_memory_ok os_free env mem h vtable n (los_object_memory env n mem h)"
proof -
  let ?k = "(n + 4111) div 4096"
  have k: "0 < ?k" "?k \<le> 255" using n(1) small by (simp_all add: los_consts)
  have m: "SGEN_ALIGN_UP_TO (n + SIZEOF_LOSObject) LOS_CHUNK_SIZE = 4096 * ?k" "n + SIZEOF_LOSObject = n + 16" "los_extent n = 4096 * ?k"
    using los_extent_eq [of n] by (simp_all add: los_extent_def los_consts)
  have guard: "\<not> (4096 * ?k = 0 \<or> 4096 * ?k - SIZEOF_LOSObject > LOS_SECTION_OBJECT_LIMIT)" using k by (simp add: los_consts)
  obtain p mem1 h2 where r: "los_section_retry env (4096 * ?k) mem h = Some (p, mem1, h2)"
    "p = 0 \<and> los_no_room env (4096 * ?k) mem h \<and> los_inv os_free mem1 h2 \<and> shrunk h h2 \<or>
     \<not> los_no_room env (4096 * ?k) mem h \<and> (\<exists>b c h1. p = caddr b c \<and> los_inv os_free mem1 h1 \<and> shrunk h h1 \<and> took h1 ?k b c h2)"
    using los_section_retry_ok [OF law inv k] by blast
  have refused: "los_refused env n mem h \<longleftrightarrow> los_no_room env (4096 * ?k) mem h" using small m(1) by (simp add: los_refused_def)
  from r(2) show ?thesis
  proof (elim disjE conjE exE)
    assume 0: "p = 0" "los_no_room env (4096 * ?k) mem h" "los_inv os_free mem1 h2" "shrunk h h2"
    have "los_object_memory env n mem h = Some (0, mem1, h2)"
      using small guard r(1) 0(1) m by (simp add: los_object_memory_def get_los_section_memory_def Let_def)
    then show ?thesis using 0 refused unfolding los_memory_ok_def by blast
  next
    fix b c h1 assume no: "\<not> los_no_room env (4096 * ?k) mem h" and 1: "p = caddr b c" "los_inv os_free mem1 h1" "shrunk h h1" "took h1 ?k b c h2"
    note t = tookD [OF 1(4)] and f = took_fields [OF 1(4)]
    obtain off where off: "randomize_los_object_start p (n + 16) (4096 * ?k) 4096 = Some (p + of_nat off)" "8 dvd off" "off < 4096" "off + (n + 16) \<le> 4096 * ?k"
      by (rule randomize_ok [of "4096 * ?k" "n + 16" p]) (use m in \<open>simp_all add: los_consts\<close>)
    have c: "c < 256" using t(4) k by simp
    have pp: "p AND mask 12 = 0" "unat p + 4096 * ?k \<le> 2 ^ 64"
    proof -
      have "unat p = unat b + 4096 * c" using caddr_facts(1) [OF t(2) c] 1(1) by simp
      then show "unat p + 4096 * ?k \<le> 2 ^ 64" using sec_aligned_unat [OF t(2)] t(4) by simp
      have "p = SGEN_ALIGN_DOWN_TO p 4096" using caddr_off(4) [OF t(2) c, of 0] 1(1) by simp
      then have "p = p AND NOT (mask 12)" by (simp add: SGEN_ALIGN_DOWN_TO_def mask_eq_exp_minus_1)
      then have "p AND mask 12 = (p AND NOT (mask 12)) AND mask 12" by simp
      also have "\<dots> = 0" by (simp only: and.assoc bit.conj_cancel_left and_zero_eq)
      finally show "p AND mask 12 = 0" .
    qed
    have p0: "p \<noteq> 0" using t(5) 1(1) by simp
    have x0: "p + of_nat off \<noteq> 0" using base_off(2) [OF pp(1) off(3) p0 pp(2)] off(4) p0 by (auto simp: word_unat_eq_iff)
    let ?mem = "memset_zero (p + of_nat off) (n + 16) mem1"
    have run: "los_object_memory env n mem h = Some (p + of_nat off, ?mem, h2)"
      using small guard r(1) p0 x0 off(1) m by (simp add: los_object_memory_def get_los_section_memory_def Let_def los_consts)
    have "los_entered os_free env h1 vtable n (p + of_nat off) ?mem h2"
    proof (rule los_entered_intro [OF 1(2) f(1-8) _ pp(1) p0 _ off(3,2) _ n v, unfolded m(3)])
      show "los_free h1 = mset (entry_chunks (p, 4096 * ?k)) + los_free h2 \<and>
        (\<exists>b\<in>los_bases h1. \<exists>c\<ge>1. c + 4096 * ?k div 4096 \<le> 256 \<and> p = caddr b c)"
      proof (intro conjI bexI [of _ b] exI [of _ c])
        show "los_free h1 = mset (entry_chunks (p, 4096 * ?k)) + los_free h2" using t(8) unfolding 1(1) entry_chunks_caddr .
        show "b \<in> los_bases h1" using t(1) by (simp add: los_bases_def)
      qed (use t(3,4) 1(1) in simp_all)
      show "mem_range p (4096 * ?k) \<inter> los_range mem1 y = {}" if "y \<in> set (los_objs (los_object_array_list h1))" for y
        using took_disjoint [OF 1(2,4) that] 1(1) by simp
      show "?mem a = mem1 a" if "a \<notin> mem_range p (4096 * ?k)" for a by (rule memset_range [OF refl off(4) that])
      show "al_capacity (los_object_array_list h1) < bucket_start 23" using room 1(3) by (simp add: shrunk_def)
    qed (use pp(2) off(4) small f(9) in simp_all)
    then show ?thesis using no refused run 1(3) unfolding los_memory_ok_def by blast
  qed
qed

text \<open>The words that an allocation leaves alone, when collections do: all but those of the new object.\<close>

definition collections_keep :: "'o los_env \<Rightarrow> u64 set \<Rightarrow> bool" where
  "collections_keep env W \<longleftrightarrow>
    (\<forall>k mem h mem' h'. ensure_free_space env k (mem, h) = Some (mem', h') \<longrightarrow> (\<forall>a\<in>W. mem' a = mem a))"

lemma collections_keepD:
  "collections_keep env W \<Longrightarrow> ensure_free_space env k (mem, h) = Some (mem', h') \<Longrightarrow> a \<in> W \<Longrightarrow> mem' a = mem a"
  unfolding collections_keep_def by blast

lemma los_new_section_frame:
  assumes W: "collections_keep env W" and r: "los_new_section env mem h = Some (ok, mem', h')" and a: "a \<in> W"
  shows "mem' a = mem a"
proof -
  let ?S = LOS_SECTION_SIZE
  obtain g os where g: "memgov_try_alloc_space env ?S (los_os h) = (g, os)" by fastforce
  show ?thesis
  proof (cases g)
    case True
    then show ?thesis using r g by (auto simp: los_new_section_def split: prod.splits if_splits)
  next
    case False
    obtain mem1 h1 where e: "ensure_free_space env ?S (mem, h\<lparr>los_os := os\<rparr>) = Some (mem1, h1)"
      using r g False by (auto simp: los_new_section_def bind_eq_Some_conv)
    have "mem' = mem1" using r g False e by (auto simp: los_new_section_def split: prod.splits if_splits)
    then show ?thesis using collections_keepD [OF W e a] by simp
  qed
qed

lemma los_section_retry_frame:
  "los_section_retry env n mem h = Some r \<Longrightarrow> collections_keep env W \<longrightarrow> (\<forall>a\<in>W. fst (snd r) a = mem a)"
proof (rule los_section_retry.raw_induct [where P = "\<lambda>env n mem h r. collections_keep env W \<longrightarrow> (\<forall>a\<in>W. fst (snd r) a = mem a)"])
  fix retry env n mem h r
  assume IH: "\<And>env n mem h r. retry env n mem h = Some r \<Longrightarrow> collections_keep env W \<longrightarrow> (\<forall>a\<in>W. fst (snd r) a = mem a)"
    and r: "do {
      (free_chunks, h) \<leftarrow> get_free_chunks n h;
      if free_chunks \<noteq> 0 then Some (free_chunks, mem, h)
      else do {
        (ok, mem, h) \<leftarrow> los_new_section env mem h;
        if ok then retry env n mem h else Some (0, mem, h) } } = Some r"
  obtain p h1 where p: "get_free_chunks n h = Some (p, h1)" using r by (auto simp: bind_eq_Some_conv)
  show "collections_keep env W \<longrightarrow> (\<forall>a\<in>W. fst (snd r) a = mem a)"
  proof (cases "p = 0")
    case False
    then show ?thesis using r p by auto
  next
    case True
    obtain ok mem1 h2 where s: "los_new_section env mem h1 = Some (ok, mem1, h2)" using r p True by (auto simp: bind_eq_Some_conv)
    then have step: "(if ok then retry env n mem1 h2 else Some (0, mem1, h2)) = Some r" using r p True by simp
    show ?thesis
    proof (intro impI ballI)
      fix a assume W: "collections_keep env W" "a \<in> W"
      have "mem1 a = mem a" by (rule los_new_section_frame [OF W(1) s W(2)])
      moreover have "fst (snd r) a = mem1 a" using step IH [of env n mem1 h2 r] W by (cases ok) auto
      ultimately show "fst (snd r) a = mem a" by simp
    qed
  qed
qed

lemma los_object_memory_frame:
  assumes W: "collections_keep env W" and r: "los_object_memory env n mem h = Some (x, mem', h')"
    and a: "a \<in> W" "x = 0 \<or> a \<notin> mem_range x (n + 16)"
  shows "mem' a = mem a"
proof (cases "n > LOS_SECTION_OBJECT_LIMIT")
  case True
  then show ?thesis using r by (auto simp: los_object_memory_def Let_def bind_eq_Some_conv split: prod.splits if_splits)
next
  case False
  obtain mem1 where m: "get_los_section_memory env (n + SIZEOF_LOSObject) mem h = Some (x, mem1, h')"
    "mem' = (if x \<noteq> 0 then memset_zero x (n + SIZEOF_LOSObject) mem1 else mem1)"
    using r False by (auto simp: los_object_memory_def bind_eq_Some_conv)
  obtain p where "los_section_retry env (SGEN_ALIGN_UP_TO (n + SIZEOF_LOSObject) LOS_CHUNK_SIZE) mem h = Some (p, mem1, h')"
    using m(1) by (auto simp: get_los_section_memory_def Let_def bind_eq_Some_conv split: if_splits)
  then have "mem1 a = mem a" using los_section_retry_frame W a(1) by fastforce
  then show ?thesis using m(2) a(2) by (auto simp: memset_zero_def mem_range_def los_consts)
qed


end
