(* ===== verification/Sgen_LosSweep.thy ===== *)
theory Sgen_LosSweep
  imports Sgen_LosAlloc
begin

unbundle bit_operations_syntax

text \<open>
  Freeing and sweeping large objects: a sweep keeps the invariant, its objects are the marked ones in
  their order, their marks cleared, and every section left holds an object. A collection that marks and
  sweeps meets the contract under which allocation is correct. The debug check of the code passes.
\<close>

section \<open>Freeing\<close>

lemma huge_ok_remove:
  assumes "huge_ok B F mem (xs)" "set ys \<subseteq> set xs" "F' \<subseteq> F \<union> G"
    and "\<forall>b\<in>B. mem_range b LOS_SECTION_SIZE \<inter> G = {}" "\<forall>y\<in>set ys. \<not> los_small mem y \<longrightarrow> los_range mem y \<inter> G = {}"
  shows "huge_ok B F' mem ys"
  unfolding huge_ok_def
proof (intro conjI ballI impI)
  show "mem_range b LOS_SECTION_SIZE \<inter> F' = {}" if "b \<in> B" for b
    using assms(1,3,4) that unfolding huge_ok_def by blast
  show "los_range mem x \<inter> F' = {}" if "x \<in> set ys" "\<not> los_small mem x" for x
    using assms(1-3,5) that unfolding huge_ok_def by blast
  show "los_range mem x \<inter> mem_range b LOS_SECTION_SIZE = {}" if "x \<in> set ys" "\<not> los_small mem x" "b \<in> B" for x b
    using assms(1,2) that unfolding huge_ok_def by blast
  show "los_range mem x \<inter> los_range mem y = {}"
    if "x \<in> set ys" "\<not> los_small mem x" "y \<in> set ys" "y \<noteq> x" "\<not> los_small mem y" for x y
    using assms(1,2) that unfolding huge_ok_def by blast
qed

lemma los_inv_remove:
  assumes inv: "los_inv os_free mem h"
    and free: "heap_free h'" "los_bases h' = los_bases h" "all_chunks (los_sections h') = all_chunks (los_sections h)"
      "length (los_sections h') = length (los_sections h)" "los_free h' = los_free h + obj_chunks mem [x]"
    and os: "os_free (los_os h') \<subseteq> os_free (los_os h) \<union> (if los_small mem x then {} else los_range mem x)"
    and arr: "mset (los_objs (los_object_array_list h)) = add_mset x (mset (los_objs (los_object_array_list h')))"
      "al_full k (los_object_array_list h')" "default_setter (los_object_array_list h')"
    and counts: "los_num_objects h' = los_num_objects h - 1" "los_num_sections h' = los_num_sections h"
      "los_memory_usage h' = los_memory_usage h - int (sgen_los_object_size mem x)"
  shows "los_inv os_free mem h'"
proof -
  note d = los_invD [OF inv]
  let ?xs = "los_objs (los_object_array_list h)" and ?ys = "los_objs (los_object_array_list h')"
  have m: "mset ?xs = mset (x # ?ys)" using arr(1) by simp
  have dis: "distinct (x # ?ys)" using d(4) m by (metis distinct_count_atmost_1 mset_eq_setD)
  have sub: "set ?ys \<subseteq> set ?xs" "x \<in> set ?xs" using mset_eq_setD [OF m] by auto
  have part: "los_free h' + obj_chunks mem ?ys = all_chunks (los_sections h')"
    using d(6) obj_chunks_mset [OF m, of mem] obj_chunks_Cons [of mem x ?ys] free(3,5) by (simp add: ac_simps)
  have huge: "huge_ok (los_bases h') (os_free (los_os h')) mem ?ys"
  proof (rule huge_ok_remove [OF d(7)[folded free(2)] sub(1) os])
    show "\<forall>b\<in>los_bases h'. mem_range b LOS_SECTION_SIZE \<inter> (if los_small mem x then {} else los_range mem x) = {}"
      using d(7) sub(2) unfolding huge_ok_def free(2) by (auto simp: Int_commute)
    show "\<forall>y\<in>set ?ys. \<not> los_small mem y \<longrightarrow> los_range mem y \<inter> (if los_small mem x then {} else los_range mem x) = {}"
      using los_disjoint [OF inv] sub dis by auto
  qed
  have sum: "(\<Sum>y\<leftarrow>?xs. int (sgen_los_object_size mem y)) = int (sgen_los_object_size mem x) + (\<Sum>y\<leftarrow>?ys. int (sgen_los_object_size mem y))"
    using sum_list_perm [OF m, of "\<lambda>y. int (sgen_los_object_size mem y)"] by simp
  have len: "length ?xs = length ?ys + 1" using mset_eq_length [OF m] by simp
  have ok: "\<forall>y\<in>set ?ys. los_obj_ok (los_bases h') mem y" using d(5) sub(1) unfolding free(2) by blast
  show ?thesis
    unfolding los_inv_def Let_def
    using free(1,4) arr(2,3) dis ok part huge counts d(8-10) sum len by (auto simp del: mset_eq_setD)
qed

lemma sec_free_le:
  assumes "sec_ok s"
  shows "length (filter ((!) (ls_free_chunk_map s)) [0..<256]) \<le> 255"
proof -
  have "[0..<256] = 0 # [1..<256::nat]" by (subst upt_conv_Cons) simp_all
  then have "filter ((!) (ls_free_chunk_map s)) [0..<256] = filter ((!) (ls_free_chunk_map s)) [1..<256]"
    using assms by (simp add: sec_ok_def)
  moreover have "length (filter ((!) (ls_free_chunk_map s)) [1..<256]) \<le> length [1..<256::nat]" by (rule length_filter_le)
  ultimately show ?thesis by simp
qed

lemma in_obj_chunks: "x \<in> set xs \<Longrightarrow> los_small mem x \<Longrightarrow> a \<in> set (entry_chunks (los_base x, los_span mem x)) \<Longrightarrow> a \<in># obj_chunks mem xs"
  unfolding obj_chunks_def by (rule chunks_of_mem) auto

text \<open>A chunk of an object is not free.\<close>

lemma obj_chunk_not_free:
  assumes inv: "los_inv os_free mem h" and x: "x \<in> set (los_objs (los_object_array_list h))" "los_small mem x"
    and a: "a \<in> set (entry_chunks (los_base x, los_span mem x))"
  shows "a \<notin># los_free h"
proof -
  note d = los_invD [OF inv]
  have "count (los_free h) a + count (obj_chunks mem (los_objs (los_object_array_list h))) a \<le> 1"
    using all_chunks_count [OF d(1), of a] unfolding d(6) [symmetric] by simp
  moreover have "0 < count (obj_chunks mem (los_objs (los_object_array_list h))) a"
    using in_obj_chunks [OF x a] by (simp only: count_greater_zero_iff)
  ultimately show ?thesis unfolding not_in_iff by linarith
qed

lemma same_space_fields:
  assumes "same_space h h'"
  shows "los_bases h' = los_bases h" "all_chunks (los_sections h') = all_chunks (los_sections h)"
    "length (los_sections h') = length (los_sections h)" "los_object_array_list h' = los_object_array_list h"
    "los_num_objects h' = los_num_objects h" "los_num_sections h' = los_num_sections h" "los_memory_usage h' = los_memory_usage h"
    "los_os h' = los_os h" "compact_los_objects h' = compact_los_objects h"
proof -
  have s: "map ls_addr (los_sections h') = map ls_addr (los_sections h)"
    "h' = h\<lparr>los_sections := los_sections h', los_fast_free_lists := los_fast_free_lists h'\<rparr>"
    using assms unfolding same_space_def by blast+
  show "los_bases h' = los_bases h" unfolding los_bases_def by (metis s(1) list.set_map)
  show "all_chunks (los_sections h') = all_chunks (los_sections h)" by (rule all_chunks_addrs [OF s(1)])
  show "length (los_sections h') = length (los_sections h)" using s(1) by (metis length_map)
  show "los_object_array_list h' = los_object_array_list h" "los_num_objects h' = los_num_objects h" "los_num_sections h' = los_num_sections h"
    "los_memory_usage h' = los_memory_usage h" "los_os h' = los_os h" "compact_los_objects h' = compact_los_objects h" by (subst s(2), simp)+
qed

lemma obj_offset:
  assumes "los_obj_ok B mem x"
  obtains off where "off < 4096" "x = los_base x + of_nat off"
  using assms unfolding los_obj_ok_def by blast

lemma free_section_memory_ok:
  assumes ok: "heap_free h" and x: "los_obj_ok (los_bases h) mem x" "los_small mem x"
    and used: "\<And>a. a \<in> set (entry_chunks (los_base x, los_span mem x)) \<Longrightarrow> a \<notin># los_free h"
  obtains h' where "free_los_section_memory x (sgen_los_object_size mem x + SIZEOF_LOSObject) h = Some h'" "heap_free h'" "same_space h h'"
    "los_free h' = los_free h + obj_chunks mem [x]"
proof -
  obtain b c k where s: "b \<in> los_bases h" "sec_aligned b" "1 \<le> c" "c + k \<le> 256" "los_base x = caddr b c" "los_span mem x = 4096 * k" "0 < k"
    by (rule small_range [OF x los_bases_aligned [OF ok]])
  obtain off where off: "off < 4096" "x = los_base x + of_nat off" by (rule obj_offset [OF x(1)])
  have c: "c < 256" using s(4,7) by simp
  have addr: "LOS_SECTION_FOR_OBJ x = b" "LOS_CHUNK_INDEX x b = c" "SGEN_ALIGN_DOWN_TO x 4096 = caddr b c"
    using caddr_off(2-4) [OF s(2) c off(1)] off(2) s(5) by simp_all
  obtain sec where sec: "sec \<in> set (los_sections h)" "ls_addr sec = b" using s(1) by (auto simp: los_bases_def)
  have sok: "sec_ok sec" by (rule heap_freeD(2) [OF ok sec(1)])
  have chunks: "set (entry_chunks (los_base x, los_span mem x)) = caddr b ` {c..<c + k}" unfolding s(5,6) entry_chunks_caddr by simp
  have old: "ls_free_chunk_map sec ! j = (\<not> True)" if "c \<le> j" "j < c + k" for j
  proof -
    have "caddr b j \<notin># los_free h" by (rule used) (use that in \<open>simp add: chunks\<close>)
    moreover have "caddr b j \<in># los_free h" if "ls_free_chunk_map sec ! j"
      unfolding los_free_def free_of_mem using sec that \<open>j < c + k\<close> s(4) by force
    ultimately show ?thesis by blast
  qed
  obtain m' where m': "set_chunks True c k (ls_free_chunk_map sec) = Some m'" "length m' = 256" "\<not> m' ! 0"
    "if True then mset (filter ((!) m') [0..<256]) = mset [c..<c + k] + mset (filter ((!) (ls_free_chunk_map sec)) [0..<256])
     else mset (filter ((!) (ls_free_chunk_map sec)) [0..<256]) = mset [c..<c + k] + mset (filter ((!) m') [0..<256])"
    by (rule set_chunks_section [where v = True, OF sok s(3,4) old])
  note m' = m'(1-3) m'(4) [unfolded if_True]
  let ?sec = "sec\<lparr>ls_free_chunk_map := m', ls_num_free_chunks := ls_num_free_chunks sec + k\<rparr>"
  have num: "ls_num_free_chunks sec + k = length (filter ((!) m') [0..<256])"
    using mset_eq_length [of "filter ((!) m') [0..<256]" "[c..<c + k] @ filter ((!) (ls_free_chunk_map sec)) [0..<256]"] m'(4) sok
    by (simp add: sec_ok_def)
  have sok': "sec_ok ?sec" using sok m'(2,3) num by (simp add: sec_ok_def)
  have le: "ls_num_free_chunks sec + k \<le> 255" using sec_free_le [OF sok'] num by simp
  have free: "mset (sec_free ?sec) = mset (entry_chunks (caddr b c, 4096 * k)) + mset (sec_free sec)"
    unfolding sec_free_def entry_chunks_caddr using m'(4) sec(2) by (simp add: image_mset_union [symmetric] del: image_mset_union)
  have entry: "run_entry_ok (ls_addr ` set (los_sections h)) (caddr b c, 4096 * k)"
    unfolding run_entry_ok_def using s sec by blast
  let ?l = "add_free_chunk (caddr b c) (4096 * k) (los_fast_free_lists h)"
  note fd = heap_freeD [OF ok]
  note al = add_free_chunk_ok [OF fd(3) entry]
  let ?h = "put_section ?sec (h\<lparr>los_fast_free_lists := ?l\<rparr>)"
  have put: "heap_free ?h" "same_space h ?h" "los_free ?h + mset (sec_free sec) = los_free h + mset (sec_free ?sec)"
    by (rule put_section_ok [OF ok sec(1) _ sok' al(1)], simp, use al(2) fd(4) free in \<open>simp add: ac_simps\<close>)+
  have at: "section_at b (los_sections h) = Some sec" using section_at_mem [OF fd(1) sec(1)] sec(2) by simp
  have up: "SGEN_ALIGN_UP_TO (sgen_los_object_size mem x + 16) 4096 = 4096 * k" using s(6) by (simp add: los_span_def)
  have run: "free_los_section_memory x (sgen_los_object_size mem x + SIZEOF_LOSObject) h = Some ?h"
    using le s(4,7) m'(1) sec(2) by (simp add: free_los_section_memory_def los_consts up addr at Let_def)
  have "los_free ?h + mset (sec_free sec) = (los_free h + obj_chunks mem [x]) + mset (sec_free sec)"
    using put(3) unfolding free by (simp add: obj_chunks_one(1) [OF x(2)] s(5,6) ac_simps)
  then have "los_free ?h = los_free h + obj_chunks mem [x]" by (rule add_right_imp_eq)
  then show thesis using that run put(1,2) by blast
qed

lemma los_objs_clear:
  assumes "al_values a' = (al_values a)[i := 0]" "i < length (al_values a)" "al_values a ! i \<noteq> 0"
  shows "mset (los_objs a) = add_mset (LOS_OBJECT_UNTAG (al_values a ! i)) (mset (los_objs a'))"
proof -
  let ?vs = "al_values a"
  have "mset ?vs = add_mset (?vs ! i) (mset ?vs - {#?vs ! i#})" using assms(2) by simp
  moreover have "mset (al_values a') = add_mset 0 (mset ?vs - {#?vs ! i#})"
    unfolding assms(1) using mset_update [OF assms(2)] by simp
  ultimately have "filter_mset (\<lambda>v. v \<noteq> 0) (mset ?vs) = add_mset (?vs ! i) (filter_mset (\<lambda>v. v \<noteq> 0) (mset (al_values a')))"
    using assms(3) by (metis (mono_tags, lifting) filter_mset_add_mset)
  then show ?thesis unfolding los_objs_def by simp
qed

lemma al_full_clear:
  assumes full: "al_full k a" and i: "i < al_capacity a"
  obtains a' where "write_slot (sgen_array_list_bucketize i) 0 a = Some a'" "al_full k a'" "al_values a' = (al_values a)[i := 0]" "al_tail a a'"
proof -
  have ok: "al_ok k a" using full by (simp add: al_full_def)
  obtain a' where a': "write_slot (sgen_array_list_bucketize i) 0 a = Some a'" "al_ok k a'"
    "\<forall>j. al_get a' j = (if j = i then Some 0 else al_get a j)" "a' = a\<lparr>al_entries := al_entries a'\<rparr>"
    by (rule write_slot_ok [OF ok i])
  obtain a'' where a'': "write_slot (sgen_array_list_bucketize i) 0 a = Some a''" "al_ok k a''"
    "al_values a'' = (al_values a)[i := 0]" "a'' = a\<lparr>al_entries := al_entries a''\<rparr>" by (rule write_slot_values [OF ok i])
  have same: "a'' = a'" using a'(1) a''(1) by simp
  have tail: "al_tail a a'" using a'(4) by (simp add: al_tail_def)
  have "al_full k a'" using full a'(2,3) al_tail_fields [OF tail] by (auto simp: al_full_def)
  then show thesis using that a'(1) a''(3) tail same by blast
qed

lemma los_objs_nth:
  assumes "i < length (al_values a)" "al_values a ! i \<noteq> 0"
  shows "LOS_OBJECT_UNTAG (al_values a ! i) \<in> set (los_objs a)"
  using assms by (auto simp: los_objs_def in_set_conv_nth)

lemma huge_base:
  assumes "los_obj_ok B mem x"
  shows "SGEN_ALIGN_DOWN_TO x mono_pagesize = los_base x" "SGEN_ALIGN_UP_TO (sgen_los_object_size mem x + SIZEOF_LOSObject) mono_pagesize = los_span mem x"
  by (simp_all add: los_base_def los_span_def los_consts)

text \<open>One slot of the sweep whose object is not marked: the object is freed, the slot cleared.\<close>

lemma sweep_free_ok:
  assumes law: "los_os_law env os_free" and inv: "los_inv os_free mem h" and i: "i < al_capacity (los_object_array_list h)"
    and v: "al_values (los_object_array_list h) ! i \<noteq> 0"
  defines "x \<equiv> LOS_OBJECT_UNTAG (al_values (los_object_array_list h) ! i)"
  obtains array h' where "write_slot (sgen_array_list_bucketize i) 0 (los_object_array_list h) = Some array"
    "sgen_los_free_object env mem x (h\<lparr>los_object_array_list := array\<rparr>) = Some h'"
    "los_inv os_free mem (h'\<lparr>compact_los_objects := True\<rparr>)" "los_object_array_list h' = array" "al_tail (los_object_array_list h) array"
    "al_values array = (al_values (los_object_array_list h))[i := 0]"
proof -
  note d = los_invD [OF inv]
  let ?a = "los_object_array_list h"
  obtain k where full: "al_full k ?a" using d(2) by blast
  obtain array where ar: "write_slot (sgen_array_list_bucketize i) 0 ?a = Some array" "al_full k array" "al_values array = (al_values ?a)[i := 0]"
    "al_tail ?a array" by (rule al_full_clear [OF full i])
  have len: "i < length (al_values ?a)" using i by (simp add: al_values_def)
  have objs: "mset (los_objs ?a) = add_mset x (mset (los_objs array))" unfolding x_def by (rule los_objs_clear [OF ar(3) len v])
  have x: "x \<in> set (los_objs ?a)" unfolding x_def by (rule los_objs_nth [OF len v])
  have def: "default_setter array" using d(3) al_tail_fields [OF ar(4)] by (simp add: default_setter_def)
  let ?n = "sgen_los_object_size mem x"
  let ?h = "h\<lparr>los_object_array_list := array, los_memory_usage := los_memory_usage h - int ?n, los_num_objects := los_num_objects h - 1\<rparr>"
  have hf: "heap_free ?h" "los_bases ?h = los_bases h" "los_free ?h = los_free h"
    using d(1) by (simp_all add: heap_free_def los_bases_def los_free_def)
  show thesis
  proof (cases "los_small mem x")
    case True
    have used: "a \<notin># los_free ?h" if "a \<in> set (entry_chunks (los_base x, los_span mem x))" for a
      using obj_chunk_not_free [OF inv x True that] hf(3) by simp
    obtain h' where h': "free_los_section_memory x (?n + SIZEOF_LOSObject) ?h = Some h'" "heap_free h'" "same_space ?h h'"
      "los_free h' = los_free ?h + obj_chunks mem [x]"
      by (rule free_section_memory_ok [OF hf(1) d(5) [OF x, folded hf(2)] True used])
    note f = same_space_fields [OF h'(3)]
    have run: "sgen_los_free_object env mem x (h\<lparr>los_object_array_list := array\<rparr>) = Some h'"
      using True h'(1) by (simp add: sgen_los_free_object_def los_small_def Let_def)
    let ?h' = "h'\<lparr>compact_los_objects := True\<rparr>"
    have "los_inv os_free mem ?h'"
    proof (rule los_inv_remove [OF inv])
      show "heap_free ?h'" "los_bases ?h' = los_bases h" "los_free ?h' = los_free h + obj_chunks mem [x]"
        using h'(2,4) f(1) hf by (simp_all add: heap_free_def los_bases_def los_free_def)
      show "default_setter (los_object_array_list ?h')" using def f(4) by simp
    qed (use f objs ar(2) True in simp_all)
    then show thesis using that [OF ar(1) run] f(4) ar(3,4) by simp
  next
    case False
    let ?os = "memgov_release_space env (los_span mem x) (free_os_memory env (los_base x) (los_span mem x) (los_os h))"
    let ?h' = "?h\<lparr>los_os := ?os, los_memory_usage_total := los_memory_usage_total h - int (los_span mem x)\<rparr>"
    have run: "sgen_los_free_object env mem x (h\<lparr>los_object_array_list := array\<rparr>) = Some ?h'"
      using False by (simp add: sgen_los_free_object_def los_small_def huge_base [OF d(5) [OF x]] Let_def)
    have os: "os_free ?os \<subseteq> os_free (los_os h) \<union> los_range mem x"
    proof -
      have "os_free ?os \<subseteq> os_free (free_os_memory env (los_base x) (los_span mem x) (los_os h))" using law unfolding los_os_law_def by blast
      also have "\<dots> \<subseteq> os_free (los_os h) \<union> mem_range (los_base x) (los_span mem x)" using law unfolding los_os_law_def by blast
      finally show ?thesis by (simp add: los_range_def)
    qed
    let ?h'' = "?h'\<lparr>compact_los_objects := True\<rparr>"
    have "los_inv os_free mem ?h''"
    proof (rule los_inv_remove [OF inv])
      show "heap_free ?h''" "los_bases ?h'' = los_bases h" "los_free ?h'' = los_free h + obj_chunks mem [x]"
        using d(1) by (simp_all add: heap_free_def los_bases_def los_free_def obj_chunks_one(2) [OF False])
      show "default_setter (los_object_array_list ?h'')" using def by simp
    qed (use objs ar(2) False os in simp_all)
    then show thesis using that [OF ar(1) run] ar(3,4) by simp
  qed
qed

lemma los_inv_headers:
  assumes inv: "los_inv os_free mem h"
    and same: "\<And>y. y \<in> set (los_objs (los_object_array_list h)) \<Longrightarrow> mem' y AND NOT 1 = mem y AND NOT 1 \<and> mem' (y + 16) = mem (y + 16)"
  shows "los_inv os_free mem' h"
proof -
  note d = los_invD [OF inv]
  let ?xs = "los_objs (los_object_array_list h)"
  have eq: "sgen_los_object_size mem' y = sgen_los_object_size mem y" "los_small mem' y = los_small mem y" "los_span mem' y = los_span mem y"
    "los_range mem' y = los_range mem y" "los_obj_ok (los_bases h) mem' y = los_obj_ok (los_bases h) mem y" if "y \<in> set ?xs" for y
    using same_header [of mem' y mem] same [OF that] by simp_all
  have "obj_chunks mem' ?xs = obj_chunks mem ?xs" by (rule obj_chunks_cong) (simp add: eq)
  moreover have "(\<Sum>x\<leftarrow>?xs. int (sgen_los_object_size mem' x)) = (\<Sum>x\<leftarrow>?xs. int (sgen_los_object_size mem x))"
    by (rule sum_list_cong) (simp add: eq)
  moreover have "huge_ok (los_bases h) (os_free (los_os h)) mem' ?xs" using d(7) unfolding huge_ok_def by (simp add: eq)
  moreover have "\<forall>y\<in>set ?xs. los_obj_ok (los_bases h) mem' y" using d(5) eq by simp
  ultimately show ?thesis using inv unfolding los_inv_def Let_def by simp
qed

lemma los_unpin_eq: "sgen_los_unpin_object (LOS_OBJECT_DATA x) mem = mem(x := mem x AND NOT 1)"
    "sgen_los_object_is_pinned mem (LOS_OBJECT_DATA x) \<longleftrightarrow> mem x AND 1 \<noteq> 0"
  by (simp_all add: sgen_los_unpin_object_def sgen_los_object_is_pinned_def sgen_los_header_for_object_def LOS_OBJECT_DATA_def)

lemma not_obj_data:
  assumes inv: "los_inv os_free mem h" and xy: "x \<in> set (los_objs (los_object_array_list h))" "y \<in> set (los_objs (los_object_array_list h))"
  shows "y + 16 \<noteq> x"
proof (cases "x = y")
  case False
  note d = los_invD [OF inv]
  show ?thesis using obj_header(2) [OF d(5) [OF xy(2)]] obj_header(1) [OF d(5) [OF xy(1)]] los_disjoint [OF inv xy False] by auto
qed simp

lemma los_inv_unpin:
  assumes inv: "los_inv os_free mem h" and x: "x \<in> set (los_objs (los_object_array_list h))"
  shows "los_inv os_free (mem(x := mem x AND NOT 1)) h"
  by (rule los_inv_headers [OF inv]) (use not_obj_data [OF inv x] in \<open>auto simp: and.assoc\<close>)

lemma los_inv_boundaries: "los_inv os_free mem h \<Longrightarrow> los_inv os_free mem (sgen_update_heap_boundaries low high h)"
  by (simp add: los_inv_def sgen_update_heap_boundaries_def heap_free_def los_free_def los_bases_def)

text \<open>Two slots in use hold different objects.\<close>

lemma los_slot_inj:
  assumes "distinct (los_objs a)" "i < length (al_values a)" "j < length (al_values a)" "i \<noteq> j" "al_values a ! i \<noteq> 0" "al_values a ! j \<noteq> 0"
  shows "LOS_OBJECT_UNTAG (al_values a ! i) \<noteq> LOS_OBJECT_UNTAG (al_values a ! j)"
proof -
  have split: "distinct (map f (filter P vs)) \<Longrightarrow> i < j \<Longrightarrow> j < length vs \<Longrightarrow> P (vs ! i) \<Longrightarrow> P (vs ! j) \<Longrightarrow> f (vs ! i) \<noteq> f (vs ! j)"
    for f :: "u64 \<Rightarrow> u64" and P vs i j
  proof (induction vs arbitrary: i j)
    case (Cons v vs)
    then show ?case by (cases i; cases j) (auto split: if_splits)
  qed simp
  show ?thesis using split [of LOS_OBJECT_UNTAG "\<lambda>v. v \<noteq> 0" "al_values a" i j] split [of LOS_OBJECT_UNTAG "\<lambda>v. v \<noteq> 0" "al_values a" j i] assms
    unfolding los_objs_def by (metis linorder_neqE_nat)
qed

lemma obj_not_sgen_pinned:
  assumes "los_obj_ok B mem x"
  shows "\<not> SGEN_OBJECT_IS_PINNED mem (LOS_OBJECT_DATA x)"
proof -
  have 7: "mem (x + 16) AND 7 = 0" using assms by (simp add: los_obj_ok_def)
  have "mem (x + 16) AND 2 = (mem (x + 16) AND 7) AND 2" by (simp add: and.assoc)
  then show ?thesis using 7 by (simp add: SGEN_OBJECT_IS_PINNED_def SGEN_POINTER_IS_TAGGED_PINNED_def LOS_OBJECT_DATA_def los_consts)
qed

section \<open>Sweeping\<close>

definition swept_objs :: "u64 list \<Rightarrow> nat set \<Rightarrow> u64 set" where
  "swept_objs vs J = {LOS_OBJECT_UNTAG (vs ! j) | j. j \<in> J \<and> vs ! j \<noteq> 0}"

definition swept :: "memory \<Rightarrow> u64 list \<Rightarrow> nat set \<Rightarrow> memory \<Rightarrow> u64 list \<Rightarrow> bool" where
  "swept mem vs J mem' vs' \<longleftrightarrow> length vs' = length vs \<and>
    (\<forall>i<length vs. vs' ! i = (if i \<in> J \<and> vs ! i \<noteq> 0 \<and> mem (LOS_OBJECT_UNTAG (vs ! i)) AND 1 = 0 then 0 else vs ! i)) \<and>
    (\<forall>a. mem' a = (if a \<in> swept_objs vs J then mem a AND NOT 1 else mem a))"

lemma unmarked_header: "(w :: u64) AND 1 = 0 \<Longrightarrow> w AND NOT 1 = w"
proof -
  assume "w AND 1 = 0"
  have "w = w AND (1 OR NOT 1)" by simp
  also have "\<dots> = (w AND 1) OR (w AND NOT 1)" by (simp only: bit.conj_disj_distrib)
  finally show "w AND NOT 1 = w" using \<open>w AND 1 = 0\<close> by simp
qed

text \<open>The steps of the loop: an empty slot, a marked object, one that is not marked.\<close>

lemma swept_empty: "vs ! j = 0 \<Longrightarrow> swept mem vs J mem' vs' \<Longrightarrow> swept mem vs (insert j J) mem' vs'"
proof -
  assume "vs ! j = 0"
  then have "swept_objs vs (insert j J) = swept_objs vs J" by (auto simp: swept_objs_def)
  then show "swept mem vs J mem' vs' \<Longrightarrow> swept mem vs (insert j J) mem' vs'" using \<open>vs ! j = 0\<close> by (auto simp: swept_def)
qed

lemma swept_marked:
  assumes j: "j \<notin> J" "j < length vs" "vs ! j \<noteq> 0" and J: "\<forall>i\<in>J. i < length vs"
    and inj: "\<And>i. i < length vs \<Longrightarrow> i \<noteq> j \<Longrightarrow> vs ! i \<noteq> 0 \<Longrightarrow> LOS_OBJECT_UNTAG (vs ! i) \<noteq> LOS_OBJECT_UNTAG (vs ! j)"
    and marked: "mem (LOS_OBJECT_UNTAG (vs ! j)) AND 1 \<noteq> 0"
    and s: "swept (mem(LOS_OBJECT_UNTAG (vs ! j) := mem (LOS_OBJECT_UNTAG (vs ! j)) AND NOT 1)) vs J mem' vs'"
  shows "swept mem vs (insert j J) mem' vs'"
proof -
  let ?x = "LOS_OBJECT_UNTAG (vs ! j)"
  have objs: "swept_objs vs (insert j J) = insert ?x (swept_objs vs J)" using j(3) by (auto simp: swept_objs_def)
  have x: "?x \<notin> swept_objs vs J"
  proof
    assume "?x \<in> swept_objs vs J"
    then obtain i where "i \<in> J" "vs ! i \<noteq> 0" "LOS_OBJECT_UNTAG (vs ! i) = ?x" by (auto simp: swept_objs_def)
    then show False using inj [of i] J j(1) by auto
  qed
  have vals: "vs' ! i = (if i \<in> insert j J \<and> vs ! i \<noteq> 0 \<and> mem (LOS_OBJECT_UNTAG (vs ! i)) AND 1 = 0 then 0 else vs ! i)" if "i < length vs" for i
    using s that inj [OF that] j(1) marked unfolding swept_def by (cases "i = j") auto
  have mems: "mem' a = (if a \<in> swept_objs vs (insert j J) then mem a AND NOT 1 else mem a)" for a
  proof (cases "a = ?x")
    case True
    then have "mem' a = (mem(?x := mem ?x AND NOT 1)) a" using s x unfolding swept_def by simp
    then show ?thesis using True unfolding objs by simp
  next
    case False
    then have "(a \<in> swept_objs vs (insert j J)) = (a \<in> swept_objs vs J)" "(mem(?x := mem ?x AND NOT 1)) a = mem a" unfolding objs by simp_all
    then show ?thesis using s unfolding swept_def by simp
  qed
  show ?thesis using s vals mems unfolding swept_def by simp
qed

lemma swept_freed:
  assumes j: "j \<notin> J" "j < length vs" "vs ! j \<noteq> 0" and J: "\<forall>i\<in>J. i < length vs"
    and free: "mem (LOS_OBJECT_UNTAG (vs ! j)) AND 1 = 0"
    and s: "swept mem (vs[j := 0]) J mem' vs'"
  shows "swept mem vs (insert j J) mem' vs'"
proof -
  let ?x = "LOS_OBJECT_UNTAG (vs ! j)"
  have same: "i \<in> J \<Longrightarrow> vs[j := 0] ! i = vs ! i" for i using j(1) by (metis nth_list_update_neq)
  have "swept_objs (vs[j := 0]) J = swept_objs vs J" (is "?A = ?B")
  proof (rule set_eqI)
    fix a show "a \<in> ?A \<longleftrightarrow> a \<in> ?B" unfolding swept_objs_def mem_Collect_eq by (rule ex_cong1) (use same in auto)
  qed
  then have objs: "swept_objs vs (insert j J) = insert ?x (swept_objs (vs[j := 0]) J)" using j(3) by (auto simp: swept_objs_def)
  have vals: "vs' ! i = (if i \<in> insert j J \<and> vs ! i \<noteq> 0 \<and> mem (LOS_OBJECT_UNTAG (vs ! i)) AND 1 = 0 then 0 else vs ! i)" if "i < length vs" for i
    using s that j free unfolding swept_def by (cases "i = j") auto
  have mems: "mem' a = (if a \<in> swept_objs vs (insert j J) then mem a AND NOT 1 else mem a)" for a
  proof -
    have "mem' a = (if a \<in> swept_objs (vs[j := 0]) J then mem a AND NOT 1 else mem a)" using s unfolding swept_def by blast
    then show ?thesis unfolding objs using unmarked_header [OF free] by (cases "a = ?x") simp_all
  qed
  show ?thesis using s vals mems unfolding swept_def by simp
qed

lemma los_sweep_slots_ok:
  assumes law: "los_os_law env os_free" and "los_inv os_free mem h" "distinct js" "\<forall>j\<in>set js. j < al_capacity (los_object_array_list h)"
  shows "\<exists>mem' h'. los_sweep_slots env (map (\<lambda>i. (i, sgen_array_list_bucketize i)) js) mem h = Some (mem', h') \<and>
    los_inv os_free mem' h' \<and> al_tail (los_object_array_list h) (los_object_array_list h') \<and>
    swept mem (al_values (los_object_array_list h)) (set js) mem' (al_values (los_object_array_list h'))"
  using assms(2-4)
proof (induction js arbitrary: mem h)
  case Nil
  then show ?case by (simp add: swept_def swept_objs_def al_tail_def)
next
  case (Cons j js)
  note inv = Cons.prems(1)
  note d = los_invD [OF inv]
  let ?a = "los_object_array_list h" and ?run = "\<lambda>js. los_sweep_slots env (map (\<lambda>i. (i, sgen_array_list_bucketize i)) js)"
  let ?vs = "al_values ?a"
  obtain k where ok: "al_ok k ?a" using d(2) by (auto simp: al_full_def)
  have j: "j \<notin> set js" "distinct js" "j < al_capacity ?a" "\<forall>i\<in>set js. i < al_capacity ?a" using Cons.prems by simp_all
  have len: "length ?vs = al_capacity ?a" by (simp add: al_values_def)
  note read = read_slot_values [OF ok j(3)]
  let ?x = "LOS_OBJECT_UNTAG (?vs ! j)"
  show ?case
  proof (cases "?vs ! j = 0")
    case True
    have "?run (j # js) mem h = ?run js mem h" using True read by (simp add: LOS_OBJECT_UNTAG_def)
    moreover obtain mem' h' where "?run js mem h = Some (mem', h')" "los_inv os_free mem' h'" "al_tail ?a (los_object_array_list h')"
      "swept mem ?vs (set js) mem' (al_values (los_object_array_list h'))" using Cons.IH [OF inv j(2,4)] by blast
    ultimately show ?thesis using swept_empty [OF True] by fastforce
  next
    case False
    have x: "?x \<in> set (los_objs ?a)" by (rule los_objs_nth) (use len j(3) False in simp_all)
    note x0 = obj_header(3) [OF d(5) [OF x]]
    note np = obj_not_sgen_pinned [OF d(5) [OF x]]
    show ?thesis
    proof (cases "mem ?x AND 1 = 0")
      case free: True
      obtain array h1 where f: "write_slot (sgen_array_list_bucketize j) 0 ?a = Some array"
        "sgen_los_free_object env mem ?x (h\<lparr>los_object_array_list := array\<rparr>) = Some h1"
        "los_inv os_free mem (h1\<lparr>compact_los_objects := True\<rparr>)" "los_object_array_list h1 = array" "al_tail ?a array" "al_values array = ?vs[j := 0]"
        by (rule sweep_free_ok [OF law inv j(3) False])
      let ?h1 = "h1\<lparr>compact_los_objects := True\<rparr>"
      have arr: "los_object_array_list ?h1 = array" using f(4) by simp
      have cap: "al_capacity array = al_capacity ?a" using al_tail_fields [OF f(5)] by simp
      have step: "?run (j # js) mem h = ?run js mem ?h1"
        using read x0 np free f(1,2) by (simp add: los_unpin_eq Let_def)
      obtain mem' h' where I: "?run js mem ?h1 = Some (mem', h')" "los_inv os_free mem' h'" "al_tail array (los_object_array_list h')"
        "swept mem (?vs[j := 0]) (set js) mem' (al_values (los_object_array_list h'))"
        using Cons.IH [OF f(3) j(2)] j(4) unfolding arr cap f(6) by blast
      have "al_tail ?a (los_object_array_list h')" using f(5) I(3) unfolding al_tail_def by (metis SgenArrayList.surjective SgenArrayList.update_convs(1))
      moreover have "swept mem ?vs (insert j (set js)) mem' (al_values (los_object_array_list h'))"
        by (rule swept_freed [OF j(1) _ False _ free I(4)]) (use len j(3,4) in simp_all)
      ultimately show ?thesis using step I(1,2) by simp
    next
      case marked: False
      let ?mem = "mem(?x := mem ?x AND NOT 1)"
      let ?h1 = "sgen_update_heap_boundaries (LOS_OBJECT_DATA ?x) (LOS_OBJECT_DATA ?x + of_nat (sgen_los_object_size ?mem ?x)) h"
      have arr: "los_object_array_list ?h1 = ?a" by (simp add: sgen_update_heap_boundaries_def)
      have step: "?run (j # js) mem h = ?run js ?mem ?h1"
        using read x0 np marked by (simp add: los_unpin_eq Let_def)
      have inv1: "los_inv os_free ?mem ?h1" by (rule los_inv_boundaries [OF los_inv_unpin [OF inv x]])
      obtain mem' h' where I: "?run js ?mem ?h1 = Some (mem', h')" "los_inv os_free mem' h'" "al_tail ?a (los_object_array_list h')"
        "swept ?mem ?vs (set js) mem' (al_values (los_object_array_list h'))"
        using Cons.IH [OF inv1 j(2)] j(4) unfolding arr by blast
      have "swept mem ?vs (insert j (set js)) mem' (al_values (los_object_array_list h'))"
        by (rule swept_marked [OF j(1) _ False _ _ marked I(4)])
          (use len j(3,4) los_slot_inj [OF d(4)] False in simp_all)
      then show ?thesis using step I(1-3) by simp
    qed
  qed
qed

fun trues :: "nat \<Rightarrow> bool list \<Rightarrow> nat list" where
  "trues i [] = []"
| "trues i (b # m) = (if b then [i] else []) @ trues (i + 1) m"

lemma trues_eq: "trues i m = map ((+) i) (filter ((!) m) [0..<length m])"
proof (induction m arbitrary: i)
  case (Cons b m)
  have "[0..<length (b # m)] = 0 # map Suc [0..<length m]" by (simp add: upt_conv_Cons map_Suc_upt del: upt_Suc)
  then show ?case using Cons [of "i + 1"] by (simp add: filter_map o_def)
qed simp

lemma trues_append: "trues i (m @ m') = trues i m @ trues (i + length m) m'"
  by (induction m arbitrary: i) simp_all

lemma trues_all: "False \<notin> set m \<Longrightarrow> trues i m = [i..<i + length m]"
proof (induction m arbitrary: i)
  case (Cons b m)
  then have "trues (i + 1) m = [i + 1..<i + 1 + length m]" "b" by simp_all
  then show ?case by (simp add: upt_conv_Cons del: upt_Suc)
qed simp

text \<open>The runs are the free chunks of the section, each once, in order.\<close>

lemma free_runs_ok:
  "concat (map (\<lambda>(s, n). [s..<s + n]) (free_runs i m)) = trues i m \<and>
    (\<forall>(s, n)\<in>set (free_runs i m). i \<le> s \<and> 0 < n \<and> s + n \<le> i + length m)"
proof (induction i m rule: free_runs.induct)
  case (2 i b m)
  show ?case
  proof (cases b)
    case True
    let ?n = "length (takeWhile id m)"
    have n: "?n \<le> length m" by (rule length_takeWhile_le)
    have m: "m = takeWhile id m @ drop ?n m" by (simp add: dropWhile_eq_drop [symmetric])
    have "False \<notin> set (b # takeWhile id m)" using True by (auto dest: set_takeWhileD)
    then have "trues i (b # takeWhile id m) = [i..<i + length (b # takeWhile id m)]" by (rule trues_all)
    then have run: "trues i (b # takeWhile id m) = [i..<i + ?n + 1]" by (simp del: trues.simps upt_Suc)
    have split: "trues i (b # m) = [i..<i + ?n + 1] @ trues (i + ?n + 1) (drop ?n m)"
      using trues_append [of i "b # takeWhile id m" "drop ?n m"] m run by (simp del: trues.simps upt_Suc)
    note I = 2(1) [OF True refl]
    show ?thesis
    proof
      show "concat (map (\<lambda>(s, n). [s..<s + n]) (free_runs i (b # m))) = trues i (b # m)"
        using I True unfolding split by (simp add: Let_def add.assoc del: upt_Suc)
      show "\<forall>(s, n')\<in>set (free_runs i (b # m)). i \<le> s \<and> 0 < n' \<and> s + n' \<le> i + length (b # m)"
        using I True n by (auto simp: Let_def)
    qed
  next
    case False
    then show ?thesis using 2(2) by auto
  qed
qed simp

lemma fold_runs_ok:
  assumes "lists_ok B l" "b \<in> B" "\<forall>(s, n)\<in>set runs. 1 \<le> s \<and> 0 < n \<and> s + n \<le> 256"
  defines "l' \<equiv> fold (\<lambda>(i, n). add_free_chunk (b + of_nat (i * 2 ^ LOS_CHUNK_BITS)) (n * 2 ^ LOS_CHUNK_BITS)) runs l"
  shows "lists_ok B l' \<and> chunks_of (concat l') = chunks_of (concat l) + mset (map (caddr b) (concat (map (\<lambda>(s, n). [s..<s + n]) runs)))"
  using assms(1,3) unfolding l'_def
proof (induction runs arbitrary: l)
  case (Cons r runs)
  let ?F = "\<lambda>(i, n). add_free_chunk (b + of_nat (i * 2 ^ LOS_CHUNK_BITS)) (n * 2 ^ LOS_CHUNK_BITS)"
  obtain s n where r: "r = (s, n)" by fastforce
  have sn: "1 \<le> s" "0 < n" "s + n \<le> 256" using Cons.prems(2) r by simp_all
  have e: "b + of_nat (s * 2 ^ LOS_CHUNK_BITS) = caddr b s" "n * 2 ^ LOS_CHUNK_BITS = 4096 * n"
    by (simp_all add: caddr_def los_consts)
  have entry: "run_entry_ok B (caddr b s, 4096 * n)" unfolding run_entry_ok_def using assms(2) sn by blast
  note a = add_free_chunk_ok [OF Cons.prems(1) entry]
  let ?l = "add_free_chunk (caddr b s) (4096 * n) l"
  have "\<forall>(s, n)\<in>set runs. 1 \<le> s \<and> 0 < n \<and> s + n \<le> 256" using Cons.prems(2) by simp
  note I = Cons.IH [OF a(1) this]
  have step: "fold ?F (r # runs) l = fold ?F runs ?l" by (simp only: fold_Cons r prod.case o_apply e)
  show ?case using I a(2) unfolding step entry_chunks_caddr by (simp add: r ac_simps del: mset_upt)
qed simp

lemma add_free_runs_ok:
  assumes "sec_ok sec" "lists_ok B l" "ls_addr sec \<in> B"
  shows "lists_ok B (add_free_runs sec l)" "chunks_of (concat (add_free_runs sec l)) = chunks_of (concat l) + mset (sec_free sec)"
proof -
  let ?m = "ls_free_chunk_map sec"
  have m: "length ?m = 256" "\<not> ?m ! 0" using assms(1) by (simp_all add: sec_ok_def)
  then obtain m where cons: "?m = False # m" by (cases ?m) auto
  have "length m = 255" using m(1) cons by simp
  then have "\<forall>(s, n)\<in>set (free_runs 0 ?m). 1 \<le> s \<and> 0 < n \<and> s + n \<le> 256"
    unfolding cons using conjunct2 [OF free_runs_ok [of 1 m]] by simp
  note f = fold_runs_ok [OF assms(2,3) this]
  have "trues 0 ?m = filter ((!) ?m) [0..<256]" using trues_eq [of 0 ?m] m(1) by (simp add: map_idI)
  then show "lists_ok B (add_free_runs sec l)" "chunks_of (concat (add_free_runs sec l)) = chunks_of (concat l) + mset (sec_free sec)"
    using f conjunct1 [OF free_runs_ok [of 0 ?m]] unfolding add_free_runs_def sec_free_def by simp_all
qed

definition section_used :: "LOSSection \<Rightarrow> bool" where
  "section_used s \<longleftrightarrow> ls_num_free_chunks s \<noteq> LOS_SECTION_NUM_CHUNKS"

definition released :: "LOSSection list \<Rightarrow> u64 set" where
  "released secs = (\<Union>s\<in>{s \<in> set secs. \<not> section_used s}. mem_range (ls_addr s) LOS_SECTION_SIZE)"

lemma free_of_split: "free_of secs = free_of (filter P secs) + free_of (filter (\<lambda>s. \<not> P s) secs)"
  by (induction secs) (simp_all add: free_of_def ac_simps)

lemma all_chunks_split: "all_chunks secs = all_chunks (filter P secs) + all_chunks (filter (\<lambda>s. \<not> P s) secs)"
  by (induction secs) (simp_all add: all_chunks_def ac_simps del: mset_upt mset_map)

lemma los_sweep_sections_ok:
  assumes law: "los_os_law env os_free" and "\<forall>s\<in>set secs. sec_ok s" "distinct secs" "distinct (los_sections h)" "set secs \<subseteq> set (los_sections h)"
    "lists_ok B (los_fast_free_lists h)" "ls_addr ` set (filter section_used secs) \<subseteq> B"
  defines "h' \<equiv> los_sweep_sections env secs h"
  shows "los_sections h' = filter (\<lambda>s. s \<in> set secs \<longrightarrow> section_used s) (los_sections h) \<and>
    lists_ok B (los_fast_free_lists h') \<and>
    chunks_of (concat (los_fast_free_lists h')) = chunks_of (concat (los_fast_free_lists h)) + free_of (filter section_used secs) \<and>
    los_num_sections h' = los_num_sections h - int (length (filter (\<lambda>s. \<not> section_used s) secs)) \<and>
    os_free (los_os h') \<subseteq> os_free (los_os h) \<union> released secs \<and>
    los_object_array_list h' = los_object_array_list h \<and> los_num_objects h' = los_num_objects h \<and>
    los_memory_usage h' = los_memory_usage h"
  using assms(2-7) unfolding h'_def
proof (induction secs arbitrary: h)
  case Nil
  then show ?case by (simp add: free_of_def released_def)
next
  case (Cons s secs)
  have s: "sec_ok s" "s \<notin> set secs" "s \<in> set (los_sections h)" "set secs \<subseteq> set (los_sections h)" using Cons.prems by auto
  show ?case
  proof (cases "section_used s")
    case True
    let ?h = "h\<lparr>los_fast_free_lists := add_free_runs s (los_fast_free_lists h)\<rparr>"
    have step: "los_sweep_sections env (s # secs) h = los_sweep_sections env secs ?h" using True by (simp add: section_used_def)
    have "ls_addr s \<in> B" using Cons.prems(6) True by simp
    note r = add_free_runs_ok [OF s(1) Cons.prems(5) this]
    have rel: "released (s # secs) = released secs" using True unfolding released_def by auto
    note I = Cons.IH [of ?h]
    have "filter (\<lambda>t. t \<in> set (s # secs) \<longrightarrow> section_used t) (los_sections h) = filter (\<lambda>t. t \<in> set secs \<longrightarrow> section_used t) (los_sections h)"
      using True by (intro filter_cong) auto
    moreover have "free_of (filter section_used (s # secs)) = mset (sec_free s) + free_of (filter section_used secs)"
      using True by (simp add: free_of_def)
    ultimately show ?thesis unfolding step rel using I Cons.prems r True by (simp add: ac_simps)
  next
    case False
    let ?os = "memgov_release_space env LOS_SECTION_SIZE (free_os_memory env (ls_addr s) LOS_SECTION_SIZE (los_os h))"
    let ?h = "h\<lparr>los_sections := remove1 s (los_sections h), los_os := ?os, los_num_sections := los_num_sections h - 1,
      los_memory_usage_total := los_memory_usage_total h - int LOS_SECTION_SIZE\<rparr>"
    have step: "los_sweep_sections env (s # secs) h = los_sweep_sections env secs ?h" using False by (simp add: section_used_def)
    have os: "os_free ?os \<subseteq> os_free (los_os h) \<union> mem_range (ls_addr s) LOS_SECTION_SIZE"
    proof -
      have "os_free ?os \<subseteq> os_free (free_os_memory env (ls_addr s) LOS_SECTION_SIZE (los_os h))" using law unfolding los_os_law_def by blast
      also have "\<dots> \<subseteq> os_free (los_os h) \<union> mem_range (ls_addr s) LOS_SECTION_SIZE" using law unfolding los_os_law_def by blast
      finally show ?thesis .
    qed
    have rem: "remove1 s (los_sections h) = filter (\<lambda>t. t \<noteq> s) (los_sections h)"
      using Cons.prems(3) by (simp add: distinct_remove1_removeAll removeAll_filter_not_eq eq_commute)
    have sub: "set secs \<subseteq> set (los_sections ?h)" using s(2,4) rem by auto
    have "distinct (los_sections ?h)" using Cons.prems(3) by simp
    note I = Cons.IH [OF _ _ this sub, simplified]
    have rel: "released (s # secs) = mem_range (ls_addr s) LOS_SECTION_SIZE \<union> released secs" using False unfolding released_def by auto
    have keep: "filter (\<lambda>t. t \<in> set (s # secs) \<longrightarrow> section_used t) (los_sections h) = filter (\<lambda>t. t \<in> set secs \<longrightarrow> section_used t) (remove1 s (los_sections h))"
      unfolding rem filter_filter using False s(2) by (intro filter_cong) auto
    have "os_free (los_os (los_sweep_sections env secs ?h)) \<subseteq> os_free (los_os h) \<union> released (s # secs)"
      using I Cons.prems os unfolding rel by (simp add: False) blast
    then show ?thesis unfolding step keep using I Cons.prems False by simp
  qed
qed

lemma section_range_inj:
  assumes "sec_aligned b" "a \<in> mem_range b LOS_SECTION_SIZE"
  shows "LOS_SECTION_FOR_OBJ a = b"
proof -
  let ?n = "unat (a - b)"
  have n: "?n < 1048576" using assms(2) by (simp add: mem_range_def los_consts)
  have "a = b + of_nat ?n" by simp
  also have "of_nat ?n = (of_nat (4096 * (?n div 4096)) :: u64) + of_nat (?n mod 4096)" by (simp only: of_nat_add [symmetric] mult_div_mod_eq)
  finally have "a = caddr b (?n div 4096) + of_nat (?n mod 4096)" by (simp only: caddr_def add.assoc)
  moreover have "?n div 4096 < 256" "?n mod 4096 < 4096" using n by simp_all
  ultimately show ?thesis using caddr_off(2) [OF assms(1)] by metis
qed

lemma section_unused:
  assumes "sec_ok s" "\<not> section_used s"
  shows "sec_free s = map (caddr (ls_addr s)) [1..<256]"
proof -
  let ?P = "(!) (ls_free_chunk_map s)"
  have upt: "[0..<256] = 0 # [1..<256::nat]" by (subst upt_conv_Cons) simp_all
  have f: "filter ?P [0..<256] = filter ?P [1..<256]" unfolding upt using assms(1) by (simp add: sec_ok_def)
  have "length (filter ?P [1..<256]) = length [1..<256::nat]"
    using assms unfolding sec_ok_def section_used_def f by (simp add: los_consts)
  then have "filter ?P [1..<256] = [1..<256]" by (metis filter_id_conv length_filter_less order_less_irrefl)
  then show ?thesis unfolding sec_free_def f by simp
qed

lemma free_unused: "\<forall>s\<in>set secs. sec_ok s \<Longrightarrow> free_of (filter (\<lambda>s. \<not> section_used s) secs) = all_chunks (filter (\<lambda>s. \<not> section_used s) secs)"
proof (induction secs)
  case (Cons s secs)
  have "sec_ok s" "free_of (filter (\<lambda>s. \<not> section_used s) secs) = all_chunks (filter (\<lambda>s. \<not> section_used s) secs)" using Cons by auto
  then show ?case using section_unused [of s] by (cases "section_used s") (simp_all add: free_of_def all_chunks_def del: mset_upt mset_map)
qed (simp add: free_of_def all_chunks_def)

lemma length_filter_split: "length xs = length (filter P xs) + length (filter (\<lambda>x. \<not> P x) xs)"
  by (induction xs) simp_all

lemma sweep_sections_inv:
  assumes law: "los_os_law env os_free" and inv: "los_inv os_free mem h"
  defines "h' \<equiv> los_sweep_sections env (los_sections h) (h\<lparr>los_fast_free_lists := replicate LOS_NUM_FAST_SIZES []\<rparr>)"
  shows "los_inv os_free mem h'" "los_object_array_list h' = los_object_array_list h" "los_sections h' = filter section_used (los_sections h)"
proof -
  note d = los_invD [OF inv] and fd = heap_freeD [OF los_invD(1) [OF inv]]
  let ?secs = "los_sections h" and ?h = "h\<lparr>los_fast_free_lists := replicate LOS_NUM_FAST_SIZES []\<rparr>" and ?xs = "los_objs (los_object_array_list h)"
  let ?kept = "filter section_used (los_sections h)" and ?B = "ls_addr ` set (filter section_used (los_sections h))"
  have sok: "\<forall>s\<in>set ?secs. sec_ok s" using fd(2) by blast
  have dis: "distinct ?secs" using fd(1) by (simp add: distinct_map)
  have empty: "lists_ok ?B (los_fast_free_lists ?h)" "chunks_of (concat (los_fast_free_lists ?h)) = {#}"
    by (simp_all add: lists_ok_def los_consts)
  note r = los_sweep_sections_ok [where h = ?h and secs = ?secs and B = ?B, OF law sok dis _ _ empty(1) subset_refl, folded h'_def, simplified, OF dis]
  have secs: "los_sections h' = ?kept" using r by (auto intro: filter_cong)
  show arr: "los_object_array_list h' = los_object_array_list h" and "los_sections h' = ?kept" using r secs by simp_all
  have bases: "los_bases h' = ?B" "?B \<subseteq> los_bases h" by (auto simp: los_bases_def secs)
  have hf: "heap_free h'"
    unfolding heap_free_def free_ok_def secs
    using r empty(2) sok distinct_map_filter [OF fd(1)] by auto
  have part: "los_free h' + obj_chunks mem ?xs = all_chunks (los_sections h')"
  proof -
    have "free_of ?kept + free_of (filter (\<lambda>s. \<not> section_used s) ?secs) + obj_chunks mem ?xs =
      all_chunks ?kept + all_chunks (filter (\<lambda>s. \<not> section_used s) ?secs)"
      using d(6) unfolding los_free_def free_of_split [of ?secs section_used, symmetric] all_chunks_split [of ?secs section_used, symmetric] .
    then have "free_of ?kept + obj_chunks mem ?xs = all_chunks ?kept" unfolding free_unused [OF sok] by (simp add: ac_simps)
    then show ?thesis by (simp add: los_free_def secs)
  qed
  have objs: "los_obj_ok (los_bases h') mem x" if x: "x \<in> set ?xs" for x
  proof (cases "los_small mem x")
    case True
    obtain b c k where s: "b \<in> los_bases h" "sec_aligned b" "1 \<le> c" "c + k \<le> 256" "los_base x = caddr b c" "los_span mem x = 4096 * k" "0 < k"
      by (rule small_range [OF d(5) [OF x] True los_bases_aligned [OF d(1)]])
    obtain sec where sec: "sec \<in> set ?secs" "ls_addr sec = b" using s(1) by (auto simp: los_bases_def)
    have "section_used sec"
    proof (rule ccontr)
      assume "\<not> section_used sec"
      then have "sec_free sec = map (caddr b) [1..<256]" using section_unused fd(2) [OF sec(1)] sec(2) by simp
      moreover have "caddr b c \<in> set (map (caddr b) [1..<256])" using s(3,4,7) by (simp del: image_eqI) (metis One_nat_def atLeastLessThan_iff imageI less_add_same_cancel1 order_less_le_trans)
      ultimately have "caddr b c \<in> set (sec_free sec)" by metis
      then have "caddr b c \<in># los_free h" using sec(1) unfolding los_free_def free_of_def by auto
      moreover have "caddr b c \<in> set (entry_chunks (los_base x, los_span mem x))" unfolding s(5,6) entry_chunks_caddr using s(7) by simp
      ultimately show False using obj_chunk_not_free [OF inv x True] by blast
    qed
    then have "b \<in> los_bases h'" using sec by (auto simp: bases(1))
    moreover have "c + los_span mem x div 4096 \<le> 256" using s(4,6) by simp
    ultimately show ?thesis using d(5) [OF x] s(3,5) unfolding los_obj_ok_def by blast
  next
    case False
    then show ?thesis using d(5) [OF x] unfolding los_obj_ok_def by blast
  qed
  have huge: "huge_ok (los_bases h') (os_free (los_os h')) mem ?xs"
  proof (rule huge_ok_remove [OF _ subset_refl])
    show "huge_ok (los_bases h') (os_free (los_os h)) mem ?xs" using d(7) bases unfolding huge_ok_def by blast
    show "os_free (los_os h') \<subseteq> os_free (los_os h) \<union> released ?secs" using r by simp
    show "\<forall>b\<in>los_bases h'. mem_range b LOS_SECTION_SIZE \<inter> released ?secs = {}"
    proof (intro ballI equals0I)
      fix b a assume b: "b \<in> los_bases h'" and a: "a \<in> mem_range b LOS_SECTION_SIZE \<inter> released ?secs"
      obtain t where t: "t \<in> set ?secs" "\<not> section_used t" "a \<in> mem_range (ls_addr t) LOS_SECTION_SIZE" using a by (auto simp: released_def)
      obtain s where s: "s \<in> set ?secs" "section_used s" "ls_addr s = b" using b by (auto simp: bases(1))
      have "LOS_SECTION_FOR_OBJ a = b" "LOS_SECTION_FOR_OBJ a = ls_addr t"
        using section_range_inj fd(2) s(1,3) t(1,3) a by (auto simp: sec_ok_def)
      then have "s = t" using fd(1) s(1,3) t(1) by (auto simp: distinct_map dest: inj_onD)
      then show False using s(2) t(2) by simp
    qed
    show "\<forall>y\<in>set ?xs. \<not> los_small mem y \<longrightarrow> los_range mem y \<inter> released ?secs = {}"
    proof (intro ballI impI)
      fix y assume y: "y \<in> set ?xs" "\<not> los_small mem y"
      have "\<forall>b\<in>los_bases h. los_range mem y \<inter> mem_range b LOS_SECTION_SIZE = {}" using d(7) y unfolding huge_ok_def by blast
      then show "los_range mem y \<inter> released ?secs = {}" unfolding released_def los_bases_def by blast
    qed
  qed
  have num: "los_num_sections h' = int (length (los_sections h'))"
    using r d(10) length_filter_split [of ?secs section_used] by (simp add: secs)
  show "los_inv os_free mem h'"
    unfolding los_inv_def Let_def arr
    using hf d(2-4,8,9) objs part huge num r by simp
qed

lemma los_inv_array:
  assumes inv: "los_inv os_free mem h" and a: "al_full k a" "default_setter a" "los_objs a = los_objs (los_object_array_list h)"
  shows "los_inv os_free mem (h\<lparr>los_object_array_list := a, compact_los_objects := c\<rparr>)"
proof -
  have f: "heap_free (h\<lparr>los_object_array_list := a, compact_los_objects := c\<rparr>) = heap_free h"
    "los_free (h\<lparr>los_object_array_list := a, compact_los_objects := c\<rparr>) = los_free h"
    "los_bases (h\<lparr>los_object_array_list := a, compact_los_objects := c\<rparr>) = los_bases h"
    by (simp_all add: heap_free_def los_free_def los_bases_def)
  show ?thesis using inv a(1,2) unfolding los_inv_def Let_def f by (auto simp: a(3))
qed

lemma sweep_filter:
  "map f (filter (\<lambda>v. v \<noteq> 0) (map (\<lambda>v. if v \<noteq> 0 \<and> P (f v) then 0 else v) vs)) = filter (\<lambda>x. \<not> P x) (map f (filter (\<lambda>v. v \<noteq> (0 :: u64)) vs))"
  by (induction vs) auto

lemma section_used_chunk:
  assumes "sec_ok s" "section_used s"
  shows "\<exists>c\<in>{1..<256}. \<not> ls_free_chunk_map s ! c"
proof (rule ccontr)
  assume "\<not> ?thesis"
  then have all: "\<forall>c\<in>{1..<256}. ls_free_chunk_map s ! c" by blast
  have upt: "[0..<256] = 0 # [1..<256::nat]" by (subst upt_conv_Cons) simp_all
  have "filter ((!) (ls_free_chunk_map s)) [1..<256] = [1..<256]" unfolding filter_id_conv using all by simp
  then have "filter ((!) (ls_free_chunk_map s)) [0..<256] = [1..<256]" unfolding upt using assms(1) by (simp add: sec_ok_def)
  then have "ls_num_free_chunks s = length [1..<256::nat]" using assms(1) by (simp only: sec_ok_def)
  then show False using assms(2) by (simp add: section_used_def los_consts)
qed

lemma los_sweep_ok:
  assumes law: "los_os_law env os_free" and inv: "los_inv os_free mem h"
  shows "\<exists>mem' h'. sgen_los_sweep env mem h = Some (mem', h') \<and> los_inv os_free mem' h' \<and>
    los_objs (los_object_array_list h') = filter (\<lambda>x. mem x AND 1 \<noteq> 0) (los_objs (los_object_array_list h)) \<and>
    (\<forall>a. mem' a = (if a \<in> set (los_objs (los_object_array_list h)) then mem a AND NOT 1 else mem a)) \<and>
    al_capacity (los_object_array_list h') = al_capacity (los_object_array_list h) \<and>
    (\<forall>s\<in>set (los_sections h'). \<exists>c\<in>{1..<256}. \<not> ls_free_chunk_map s ! c)"
proof -
  note d = los_invD [OF inv]
  let ?a = "los_object_array_list h"
  let ?vs = "al_values ?a" and ?n = "al_next_slot ?a"
  obtain k where full: "al_full k ?a" using d(2) by blast
  then have ok: "al_ok k ?a" and z: "\<And>i. i < al_capacity ?a \<Longrightarrow> ?n \<le> i \<Longrightarrow> al_get ?a i = Some 0" by (simp_all add: al_full_def)
  note ad = al_okD [OF ok]
  have len: "length ?vs = al_capacity ?a" by (simp add: al_values_def)
  have zero: "?vs ! i = 0" if "i < length ?vs" "\<not> i < ?n" for i using z al_get_values [OF ok] that len by simp
  obtain mem' h1 where s: "los_sweep_slots env (SGEN_ARRAY_LIST_FOREACH_SLOT ?a) mem h = Some (mem', h1)" "los_inv os_free mem' h1"
    "al_tail ?a (los_object_array_list h1)" "swept mem ?vs {0..<?n} mem' (al_values (los_object_array_list h1))"
    using los_sweep_slots_ok [OF law inv, of "[0..<?n]"] ad(4) unfolding foreach_slot_eq [OF ok] by auto
  let ?a1 = "los_object_array_list h1"
  have vals: "al_values ?a1 = map (\<lambda>v. if v \<noteq> 0 \<and> mem (LOS_OBJECT_UNTAG v) AND 1 = 0 then 0 else v) ?vs"
  proof (rule nth_equalityI)
    show "length (al_values ?a1) = length (map (\<lambda>v. if v \<noteq> 0 \<and> mem (LOS_OBJECT_UNTAG v) AND 1 = 0 then 0 else v) ?vs)"
      using s(4) by (simp add: swept_def)
    fix i assume "i < length (al_values ?a1)"
    then have i: "i < length ?vs" using s(4) by (simp add: swept_def)
    then have "al_values ?a1 ! i = (if i \<in> {0..<?n} \<and> ?vs ! i \<noteq> 0 \<and> mem (LOS_OBJECT_UNTAG (?vs ! i)) AND 1 = 0 then 0 else ?vs ! i)"
      using s(4) unfolding swept_def by blast
    then show "al_values ?a1 ! i = map (\<lambda>v. if v \<noteq> 0 \<and> mem (LOS_OBJECT_UNTAG v) AND 1 = 0 then 0 else v) ?vs ! i"
      using i zero [OF i] by auto
  qed
  have objs1: "los_objs ?a1 = filter (\<lambda>x. mem x AND 1 \<noteq> 0) (los_objs ?a)"
    unfolding los_objs_def vals by (rule sweep_filter [of LOS_OBJECT_UNTAG "\<lambda>x. mem x AND 1 = 0"])
  have "swept_objs ?vs {0..<?n} = set (los_objs ?a)"
  proof
    show "swept_objs ?vs {0..<?n} \<subseteq> set (los_objs ?a)" using los_objs_nth [of _ ?a] len ad(4) unfolding swept_objs_def by auto
    show "set (los_objs ?a) \<subseteq> swept_objs ?vs {0..<?n}"
    proof
      fix x assume "x \<in> set (los_objs ?a)"
      then obtain i where "i < length ?vs" "?vs ! i \<noteq> 0" "x = LOS_OBJECT_UNTAG (?vs ! i)" by (auto simp: los_objs_def in_set_conv_nth)
      then show "x \<in> swept_objs ?vs {0..<?n}" using zero [of i] by (auto simp: swept_objs_def)
    qed
  qed
  then have mems: "\<forall>a. mem' a = (if a \<in> set (los_objs ?a) then mem a AND NOT 1 else mem a)" using s(4) unfolding swept_def by simp
  obtain k1 where full1: "al_full k1 ?a1" using los_invD(2) [OF s(2)] by blast
  have cap1: "al_capacity ?a1 = al_capacity ?a" using al_tail_fields [OF s(3)] by simp
  obtain h2 where c: "(if compact_los_objects h1 then
              map_option (\<lambda>array. h1\<lparr>los_object_array_list := array, compact_los_objects := False\<rparr>)
                (sgen_array_list_remove_nulls ?a1)
            else Some h1) = Some h2" "los_inv os_free mem' h2" "los_objs (los_object_array_list h2) = los_objs ?a1"
      "al_capacity (los_object_array_list h2) = al_capacity ?a1"
  proof (cases "compact_los_objects h1")
    case True
    obtain a' where a': "sgen_array_list_remove_nulls ?a1 = Some a'" "al_full k1 a'" "default_setter a'"
      "filter (\<lambda>v. v \<noteq> 0) (al_values a') = filter (\<lambda>v. v \<noteq> 0) (al_values ?a1)" "al_next_slot a' = length (filter (\<lambda>v. v \<noteq> 0) (al_values ?a1))"
      by (rule remove_nulls_ok [OF full1 los_invD(3) [OF s(2)]])
    have objs: "los_objs a' = los_objs ?a1" using a'(4) by (simp add: los_objs_def)
    have "al_capacity a' = al_capacity ?a1" using a'(2) full1 al_okD(3) by (metis al_full_def)
    then show thesis using that [OF _ los_inv_array [OF s(2) a'(2,3) objs, of False]] True a'(1) objs by simp
  next
    case False
    then show thesis using that [of h1] s(2) by simp
  qed
  let ?h3 = "los_sweep_sections env (los_sections h2) (h2\<lparr>los_fast_free_lists := replicate LOS_NUM_FAST_SIZES []\<rparr>)"
  note w = sweep_sections_inv [OF law c(2)]
  have run: "sgen_los_sweep env mem h = Some (mem', ?h3)"
    using los_invD(10) [OF w(1)] c(1) s(1) unfolding sgen_los_sweep_def by (simp add: Let_def)
  have used: "\<forall>s\<in>set (los_sections ?h3). \<exists>c\<in>{1..<256}. \<not> ls_free_chunk_map s ! c"
    using section_used_chunk heap_freeD(2) [OF los_invD(1) [OF w(1)]] unfolding w(3) by simp
  show ?thesis
    by (rule exI [of _ mem'], rule exI [of _ ?h3], intro conjI) (fact run w(1) mems used | simp add: w(2) c(3,4) objs1 cap1)+
qed

text \<open>A collection that marks any objects and sweeps is one that an allocation may start.\<close>

definition sweeping :: "'o los_env \<Rightarrow> (nat \<Rightarrow> memory \<Rightarrow> u64 set) \<Rightarrow> 'o los_env" where
  "sweeping env live = env\<lparr>ensure_free_space := (\<lambda>n (mem, h).
    sgen_los_sweep env (\<lambda>a. if a \<in> live n mem \<inter> set (los_objs (los_object_array_list h)) then mem a OR 1 else mem a) h)\<rparr>"

lemma or_1_header: "((w :: u64) OR 1) AND NOT 1 = w AND NOT 1"
  by (simp only: bit.conj_disj_distrib2 bit.conj_cancel_right or.right_neutral)

lemma sweeping_law:
  assumes "los_os_law env os_free"
  shows "los_os_law (sweeping env live) os_free" "los_collector_law (sweeping env live) os_free"
proof -
  show "los_os_law (sweeping env live) os_free" using assms by (simp add: los_os_law_def sweeping_def)
  show "los_collector_law (sweeping env live) os_free"
    unfolding los_collector_law_def
  proof (intro allI impI)
    fix n mem h assume inv: "los_inv os_free mem h"
    let ?mem = "\<lambda>a. if a \<in> live n mem \<inter> set (los_objs (los_object_array_list h)) then mem a OR 1 else mem a"
    have "los_inv os_free ?mem h"
    proof (rule los_inv_headers [OF inv])
      fix y assume y: "y \<in> set (los_objs (los_object_array_list h))"
      have "y + 16 \<notin> set (los_objs (los_object_array_list h))" using not_obj_data [OF inv _ y] by blast
      then have "?mem (y + 16) = mem (y + 16)" by simp
      moreover have "?mem y AND NOT 1 = mem y AND NOT 1"
        by (cases "y \<in> live n mem \<inter> set (los_objs (los_object_array_list h))") (simp_all only: if_True if_False or_1_header)
      ultimately show "?mem y AND NOT 1 = mem y AND NOT 1 \<and> ?mem (y + 16) = mem (y + 16)" by blast
    qed
    from los_sweep_ok [OF assms this] show "\<exists>mem' h'. ensure_free_space (sweeping env live) n (mem, h) = Some (mem', h') \<and> los_inv os_free mem' h' \<and> shrunk h h'"
      unfolding sweeping_def shrunk_def by fastforce
  qed
qed

section \<open>Visiting the objects\<close>

lemma los_foreach_eq:
  assumes ok: "al_ok k a" and "n \<le> al_capacity a" "m \<le> n"
  shows "los_foreach (map (\<lambda>i. (i, sgen_array_list_bucketize i)) [m..<n]) a =
    Some (map LOS_OBJECT_UNTAG (filter (\<lambda>v. LOS_OBJECT_UNTAG v \<noteq> 0) (map ((!) (al_values a)) [m..<n])))"
    "los_foreach_has_references (map (\<lambda>i. (i, sgen_array_list_bucketize i)) [m..<n]) a =
    Some (map (\<lambda>v. (LOS_OBJECT_UNTAG v, LOS_OBJECT_IS_TAGGED_HAS_REFERENCES v)) (filter (\<lambda>v. v \<noteq> 0) (map ((!) (al_values a)) [m..<n])))"
proof -
  have r: "\<forall>i\<in>set [m..<n]. read_slot (sgen_array_list_bucketize i) a = Some (al_values a ! i)"
    using read_slot_values [OF ok] assms(2) by simp
  have "los_foreach (map (\<lambda>i. (i, sgen_array_list_bucketize i)) js) a =
      Some (map LOS_OBJECT_UNTAG (filter (\<lambda>v. LOS_OBJECT_UNTAG v \<noteq> 0) (map ((!) (al_values a)) js))) \<and>
    los_foreach_has_references (map (\<lambda>i. (i, sgen_array_list_bucketize i)) js) a =
      Some (map (\<lambda>v. (LOS_OBJECT_UNTAG v, LOS_OBJECT_IS_TAGGED_HAS_REFERENCES v)) (filter (\<lambda>v. v \<noteq> 0) (map ((!) (al_values a)) js)))"
    if "\<forall>i\<in>set js. read_slot (sgen_array_list_bucketize i) a = Some (al_values a ! i)" for js
    using that by (induction js) simp_all
  from this [OF r] show "los_foreach (map (\<lambda>i. (i, sgen_array_list_bucketize i)) [m..<n]) a =
    Some (map LOS_OBJECT_UNTAG (filter (\<lambda>v. LOS_OBJECT_UNTAG v \<noteq> 0) (map ((!) (al_values a)) [m..<n])))"
    "los_foreach_has_references (map (\<lambda>i. (i, sgen_array_list_bucketize i)) [m..<n]) a =
    Some (map (\<lambda>v. (LOS_OBJECT_UNTAG v, LOS_OBJECT_IS_TAGGED_HAS_REFERENCES v)) (filter (\<lambda>v. v \<noteq> 0) (map ((!) (al_values a)) [m..<n])))"
    by blast+
qed

lemma filter_drop_const: "\<forall>i<length xs. n \<le> i \<longrightarrow> \<not> P (xs ! i) \<Longrightarrow> n \<le> length xs \<Longrightarrow> filter P (map ((!) xs) [0..<n]) = filter P xs"
proof -
  assume a: "\<forall>i<length xs. n \<le> i \<longrightarrow> \<not> P (xs ! i)" "n \<le> length xs"
  have "map ((!) xs) [0..<n] = take n xs" using a(2) by (intro nth_equalityI) simp_all
  moreover have "filter P (drop n xs) = []" using a by (auto simp: filter_empty_conv in_set_conv_nth)
  ultimately show ?thesis by (metis append_Nil2 append_take_drop_id filter_append)
qed

lemma los_foreach_objs:
  assumes inv: "los_inv os_free mem h"
  shows "los_foreach (SGEN_ARRAY_LIST_FOREACH_SLOT (los_object_array_list h)) (los_object_array_list h) = Some (los_objs (los_object_array_list h))"
proof -
  note d = los_invD [OF inv]
  let ?a = "los_object_array_list h"
  obtain k where full: "al_full k ?a" using d(2) by blast
  then have ok: "al_ok k ?a" and z: "\<And>i. i < al_capacity ?a \<Longrightarrow> al_next_slot ?a \<le> i \<Longrightarrow> al_get ?a i = Some 0" by (simp_all add: al_full_def)
  have len: "length (al_values ?a) = al_capacity ?a" by (simp add: al_values_def)
  have n: "al_next_slot ?a \<le> al_capacity ?a" by (rule al_okD(4) [OF ok])
  have zero: "\<forall>i<length (al_values ?a). al_next_slot ?a \<le> i \<longrightarrow> \<not> al_values ?a ! i \<noteq> 0" using z al_get_values [OF ok] len by simp
  have nz: "LOS_OBJECT_UNTAG v \<noteq> 0 \<longleftrightarrow> v \<noteq> 0" if v: "v \<in> set (al_values ?a)" for v
  proof (cases "v = 0")
    case False
    then have "LOS_OBJECT_UNTAG v \<in> set (los_objs ?a)" using v by (simp add: los_objs_def)
    then show ?thesis using obj_header(3) [OF d(5)] False by blast
  qed (simp add: LOS_OBJECT_UNTAG_def)
  have u0: "LOS_OBJECT_UNTAG 0 = 0" by (simp add: LOS_OBJECT_UNTAG_def)
  have "filter (\<lambda>v. LOS_OBJECT_UNTAG v \<noteq> 0) (map ((!) (al_values ?a)) [0..<al_next_slot ?a]) =
    filter (\<lambda>v. v \<noteq> 0) (map ((!) (al_values ?a)) [0..<al_next_slot ?a])"
    by (rule filter_cong [OF refl]) (use nz len n u0 in auto)
  also have "\<dots> = filter (\<lambda>v. v \<noteq> 0) (al_values ?a)" by (rule filter_drop_const [OF zero]) (use len n in simp)
  finally show ?thesis using los_foreach_eq(1) [OF ok n, of 0] unfolding foreach_slot_eq [OF ok] los_objs_def by simp
qed

text \<open>The ranges of the jobs cut the list into consecutive parts.\<close>

lemma job_ranges:
  assumes "0 < n"
  shows "concat (map (\<lambda>j. case get_los_object_range_for_job a j n of Some (s, e) \<Rightarrow> [s..<e] | None \<Rightarrow> []) [0..<n]) = [0..<al_next_slot a]"
proof -
  let ?q = "al_next_slot a div n" and ?r = "\<lambda>j. case get_los_object_range_for_job a j n of Some (s, e) \<Rightarrow> [s..<e] | None \<Rightarrow> []"
  have front: "concat (map ?r [0..<m]) = [0..<?q * m]" if "m < n" for m
    using that
  proof (induction m)
    case (Suc m)
    have "?r m = [?q * m..<?q * Suc m]" using Suc.prems by (simp add: get_los_object_range_for_job_def Let_def)
    then show ?case using Suc upt_add_eq_append [of 0 "?q * m" ?q] by (simp add: add.commute)
  qed simp
  obtain m where m: "n = Suc m" using assms by (cases n) auto
  have last': "?r m = [?q * m..<al_next_slot a]" using m by (simp add: get_los_object_range_for_job_def Let_def)
  have "?q * m \<le> ?q * n" using m by simp
  also have "\<dots> \<le> al_next_slot a" by (metis div_times_less_eq_dividend)
  finally have "[0..<al_next_slot a] = [0..<?q * m] @ [?q * m..<al_next_slot a]"
    using upt_add_eq_append [of 0 "?q * m" "al_next_slot a - ?q * m"] by simp
  then show ?thesis using front [of m] last' m by simp
qed

section \<open>The consistency check\<close>

lemma chunk_bits_iff: "chunk_bits v c k s \<longleftrightarrow> (\<forall>i. c \<le> i \<longrightarrow> i < c + k \<longrightarrow> i < length (ls_free_chunk_map s) \<and> ls_free_chunk_map s ! i = v)"
  by (auto simp: chunk_bits_def list_all_iff)

lemma check_object_ok:
  assumes inv: "los_inv os_free mem h" and x: "x \<in> set (los_objs (los_object_array_list h))"
    and top: "\<forall>b\<in>los_bases h. b + of_nat LOS_SECTION_SIZE \<noteq> 0"
  shows "check_los_object mem h x"
proof (cases "los_small mem x")
  case True
  note d = los_invD [OF inv] and fd = heap_freeD [OF los_invD(1) [OF inv]]
  let ?n = "sgen_los_object_size mem x"
  obtain b c k where s: "b \<in> los_bases h" "sec_aligned b" "1 \<le> c" "c + k \<le> 256" "los_base x = caddr b c" "los_span mem x = 4096 * k" "0 < k"
    by (rule small_range [OF d(5) [OF x] True los_bases_aligned [OF d(1)]])
  obtain off where off: "off < 4096" "off + ?n + 16 \<le> 4096 * k" "x = caddr b c + of_nat off"
    using d(5) [OF x] s(5,6) unfolding los_obj_ok_def by auto
  have c: "c < 256" using s(4,7) by simp
  note a = caddr_off [OF s(2) c off(1), folded off(3)]
  obtain sec where sec: "sec \<in> set (los_sections h)" "ls_addr sec = b" using s(1) by (auto simp: los_bases_def)
  have at: "section_at b (los_sections h) = Some sec" using section_at_mem [OF fd(1) sec(1)] sec(2) by simp
  note u = sec_aligned_unat [OF s(2)]
  have wrap: "unat b + 1048576 \<noteq> 2 ^ 64"
  proof
    assume "unat b + 1048576 = 2 ^ 64"
    then have "unat (b + 1048576) = 0" by (simp add: unat_word_ariths)
    then have "b + 1048576 = 0" by (simp add: word_unat_eq_iff)
    then show False using top s(1) by (simp add: los_consts)
  qed
  have e1: "unat (b + 1048576) = unat b + 1048576" using u wrap by (simp add: unat_word_ariths)
  have "unat x + 16 + ?n \<le> unat b + 1048576" using a(1) off(2) s(4) by simp
  then have "unat (x + 16 + of_nat ?n) = unat x + 16 + ?n" using u wrap by (simp add: unat_word_ariths unat_of_nat take_bit_nat_eq_self)
  then have end': "x + 16 + of_nat ?n \<le> b + 1048576" using \<open>unat x + 16 + ?n \<le> unat b + 1048576\<close> e1 by (simp add: word_le_nat_alt)
  have k: "(4111 + ?n) div 4096 = k" using s(6) by (simp add: los_span_def align_up_eq add.commute)
  have len: "length (ls_free_chunk_map sec) = 256" using fd(2) [OF sec(1)] by (simp add: sec_ok_def)
  have "chunk_bits False c k sec"
    unfolding chunk_bits_iff
  proof (intro allI impI conjI)
    fix i assume i: "c \<le> i" "i < c + k"
    then show "i < length (ls_free_chunk_map sec)" using s(4) len by simp
    have "caddr b i \<in> set (entry_chunks (los_base x, los_span mem x))" unfolding s(5,6) entry_chunks_caddr using i by simp
    then have "caddr b i \<notin># los_free h" by (rule obj_chunk_not_free [OF inv x True])
    moreover have "caddr b i \<in># los_free h" if "ls_free_chunk_map sec ! i"
      unfolding los_free_def free_of_mem using sec that i s(4) by force
    ultimately show "ls_free_chunk_map sec ! i = False" by blast
  qed
  then show ?thesis unfolding check_los_object_def Let_def a(2) at
    using end' a(3) sec(2) k by (simp add: LOS_OBJECT_DATA_def los_consts add.commute)
qed (simp add: check_los_object_def los_small_def)

lemma check_free_ok:
  assumes hf: "heap_free h" and i: "i < 32" and e: "e \<in> set (los_fast_free_lists h ! i)"
  shows "check_free_chunk h i e"
proof -
  note fd = heap_freeD [OF hf]
  have "run_entry_ok (ls_addr ` set (los_sections h)) e" "fast_index (snd e) = i" using fd(3) i e unfolding lists_ok_def by blast+
  then obtain s c m where s: "s \<in> set (los_sections h)" "1 \<le> c" "0 < m" "c + m \<le> 256" "e = (caddr (ls_addr s) c, 4096 * m)" "fast_index (4096 * m) = i"
    unfolding run_entry_ok_def by auto
  have sok: "sec_ok s" by (rule fd(2) [OF s(1)])
  then have al: "sec_aligned (ls_addr s)" by (simp add: sec_ok_def)
  have c: "c < 256" using s(3,4) by simp
  note a = caddr_facts [OF al c]
  have at: "section_at (ls_addr s) (los_sections h) = Some s" by (rule section_at_mem [OF fd(1) s(1)])
  have size': "if i = 0 then 4096 * m \<ge> LOS_NUM_FAST_SIZES * LOS_CHUNK_SIZE else 4096 * m = i * LOS_CHUNK_SIZE"
    using s(3,6) by (auto simp: fast_index_def los_consts split: if_splits)
  have "chunk_bits True c m s"
    unfolding chunk_bits_iff
  proof (intro allI impI conjI)
    fix j assume j: "c \<le> j" "j < c + m"
    then show "j < length (ls_free_chunk_map s)" using s(4) sok by (simp add: sec_ok_def)
    have "e \<in> set (concat (los_fast_free_lists h))" using e i fd(3) by (auto simp: lists_ok_def intro!: bexI [of _ "los_fast_free_lists h ! i"])
    moreover have "caddr (ls_addr s) j \<in> set (entry_chunks e)" unfolding s(5) entry_chunks_caddr using j by simp
    ultimately have "caddr (ls_addr s) j \<in># los_free h" unfolding fd(4) [symmetric] by (rule chunks_of_mem)
    then show "ls_free_chunk_map s ! j = True" using sec_of_chunk [OF hf s(1)] j s(4) by simp
  qed
  then show ?thesis using size' unfolding check_free_chunk_def s(5) fst_conv a(2) at snd_conv
    by (simp add: a(3) los_consts)
qed

section \<open>A heap to try the theorems on\<close>

text \<open>The system hands out addresses upwards and takes nothing back.\<close>

definition los_demo_bump :: "nat \<Rightarrow> nat \<Rightarrow> nat \<Rightarrow> u64 \<times> nat" where
  "los_demo_bump align n os =
    (let p = (os div align + 1) * align in if p + n \<le> 2 ^ 47 then (of_nat p, p + n) else (0, os))"

definition demo_los_env :: "nat los_env" where
  "demo_los_env = \<lparr>vtable_has_references = (\<lambda>vt. vt \<noteq> 0), alloc_os_memory = los_demo_bump 4096,
    alloc_os_memory_aligned = (\<lambda>n align. los_demo_bump 1048576 n), free_os_memory = (\<lambda>p n os. os),
    memgov_try_alloc_space = (\<lambda>n os. (True, os)), memgov_release_space = (\<lambda>n os. os), ensure_free_space = (\<lambda>n. Some)\<rparr>"

definition los_demo_os_free :: "nat \<Rightarrow> u64 set" where
  "los_demo_os_free os = {a. os \<le> unat a \<and> unat a < 2 ^ 47}"

lemma mem_range_iff:
  assumes "unat p + n \<le> 2 ^ 64"
  shows "a \<in> mem_range p n \<longleftrightarrow> unat p \<le> unat a \<and> unat a < unat p + n"
proof -
  have a: "unat a < 2 ^ 64" using unsigned_less [of a, where 'a = nat] by simp
  have "unat (a - p) = (if p \<le> a then unat a - unat p else unat a + 2 ^ 64 - unat p)" using unat_sub_if_size [of a p] by (simp add: word_le_nat_alt word_size)
  then show ?thesis using assms a by (auto simp: mem_range_def word_le_nat_alt)
qed

lemma los_demo_bump_ok:
  assumes "los_demo_bump align n os = (p, os')" "0 < align"
  shows "los_demo_os_free os' \<subseteq> los_demo_os_free os" "p \<noteq> 0 \<Longrightarrow> align dvd unat p \<and> unat p + n \<le> 2 ^ 47 \<and>
    mem_range p n \<subseteq> los_demo_os_free os \<and> mem_range p n \<inter> los_demo_os_free os' = {}"
proof -
  let ?p = "(os div align + 1) * align"
  have less: "os < ?p" using assms(2) by (metis Suc_eq_plus1 dividend_less_div_times mult.commute mult_Suc_right add.commute)
  consider (no) "p = 0" "os' = os" | (yes) "p = of_nat ?p" "os' = ?p + n" "?p + n \<le> 2 ^ 47"
    using assms(1) by (auto simp: los_demo_bump_def Let_def split: if_splits)
  then show "los_demo_os_free os' \<subseteq> los_demo_os_free os" using less by cases (auto simp: los_demo_os_free_def)
  assume "p \<noteq> 0"
  then have yes: "p = of_nat ?p" "os' = ?p + n" "?p + n \<le> 2 ^ 47" using assms(1) by (auto simp: los_demo_bump_def Let_def split: if_splits)
  have u: "unat p = ?p" using yes(3) unfolding yes(1) by (simp only: unat_of_nat) (simp add: take_bit_nat_eq_self)
  have "mem_range p n = {a. ?p \<le> unat a \<and> unat a < ?p + n}" using mem_range_iff [of p n] yes(3) u by auto
  then show "align dvd unat p \<and> unat p + n \<le> 2 ^ 47 \<and> mem_range p n \<subseteq> los_demo_os_free os \<and> mem_range p n \<inter> los_demo_os_free os' = {}"
    using yes less u by (auto simp: los_demo_os_free_def)
qed

lemma dvd_mask: "2 ^ k dvd unat (p :: u64) \<Longrightarrow> p AND mask k = 0"
  unfolding take_bit_eq_mask [symmetric] word_unat_eq_iff unat_take_bit_mod by (simp add: dvd_eq_mod_eq_0)

lemma los_demo_os_law: "los_os_law demo_los_env los_demo_os_free"
proof -
  have a: "los_demo_os_free os' \<subseteq> los_demo_os_free os \<and>
      (p \<noteq> 0 \<longrightarrow> p AND mask 12 = 0 \<and> unat p + n \<le> 2 ^ 64 \<and> mem_range p n \<subseteq> los_demo_os_free os \<and> mem_range p n \<inter> los_demo_os_free os' = {})"
    if "los_demo_bump 4096 n os = (p, os')" for n os p os'
    using los_demo_bump_ok [OF that] dvd_mask [of 12 p] by (cases "p = 0") simp_all
  have b: "los_demo_os_free os' \<subseteq> los_demo_os_free os \<and>
      (p \<noteq> 0 \<longrightarrow> p AND mask 20 = 0 \<and> mem_range p LOS_SECTION_SIZE \<subseteq> los_demo_os_free os \<and> mem_range p LOS_SECTION_SIZE \<inter> los_demo_os_free os' = {})"
    if "los_demo_bump 1048576 LOS_SECTION_SIZE os = (p, os')" for os p os'
    using los_demo_bump_ok [OF that] dvd_mask [of 20 p] by (cases "p = 0") simp_all
  show ?thesis unfolding los_os_law_def
  proof (intro conjI allI impI)
    fix n os p os' assume "alloc_os_memory demo_los_env n os = (p, os')"
    then have "los_demo_bump 4096 n os = (p, os')" by (simp add: demo_los_env_def)
    from a [OF this] show "los_demo_os_free os' \<subseteq> los_demo_os_free os"
      "p \<noteq> 0 \<Longrightarrow> p AND mask 12 = 0" "p \<noteq> 0 \<Longrightarrow> unat p + n \<le> 2 ^ 64" "p \<noteq> 0 \<Longrightarrow> mem_range p n \<subseteq> los_demo_os_free os"
      "p \<noteq> 0 \<Longrightarrow> mem_range p n \<inter> los_demo_os_free os' = {}" by simp_all
  next
    fix os p os' assume "alloc_os_memory_aligned demo_los_env LOS_SECTION_SIZE LOS_SECTION_SIZE os = (p, os')"
    then have "los_demo_bump 1048576 LOS_SECTION_SIZE os = (p, os')" by (simp add: demo_los_env_def)
    from b [OF this] show "los_demo_os_free os' \<subseteq> los_demo_os_free os"
      "p \<noteq> 0 \<Longrightarrow> p AND mask 20 = 0" "p \<noteq> 0 \<Longrightarrow> mem_range p LOS_SECTION_SIZE \<subseteq> los_demo_os_free os"
      "p \<noteq> 0 \<Longrightarrow> mem_range p LOS_SECTION_SIZE \<inter> los_demo_os_free os' = {}" by simp_all
  qed (simp_all add: demo_los_env_def)
qed

definition demo_los_mem :: memory where
  "demo_los_mem a = (if a = 16781312 then 9001 else if a = 33554432 then 2000000
    else if a \<in> {16781328, 33554448} then 4096 else 0)"

definition demo_los_list :: SgenArrayList where
  "demo_los_list = \<lparr>al_entries = Some (16781313 # 33554432 # replicate 30 0) # replicate 31 None, al_capacity = 32, al_slot_hint = 1,
    al_next_slot = 2, al_bucket_alloc_callback = False, al_is_slot_set_func = Some sgen_array_list_default_is_slot_set,
    al_set_slot_func = None, al_callback_calls = []\<rparr>"

definition los_demo_section :: LOSSection where
  "los_demo_section = \<lparr>ls_addr = 16777216, ls_num_free_chunks = 252, ls_free_chunk_map = replicate 4 False @ replicate 252 True\<rparr>"

definition demo_los_heap :: "nat los_heap" where
  "demo_los_heap = \<lparr>los_object_array_list = demo_los_list, compact_los_objects = False, los_memory_usage = 2009000,
    los_memory_usage_total = 3051520, los_sections = [los_demo_section],
    los_fast_free_lists = [(16793600, 1032192)] # replicate 31 [], los_num_objects = 2, los_num_sections = 1,
    lowest_heap_address = 0, highest_heap_address = 0, los_os = 67108864\<rparr>"

lemma los_demo_values: "al_full 1 demo_los_list" "al_values demo_los_list = 16781313 # 33554432 # replicate 30 0"
proof -
  let ?vs = "16781313 # 33554432 # replicate 30 (0 :: u64)"
  have ok: "al_ok 1 demo_los_list"
    by (auto simp: al_ok_def demo_los_list_def SGEN_ARRAY_LIST_BUCKETS_def bucket_start_eq nth_Cons' sgen_array_list_bucket_size_def
        SGEN_ARRAY_LIST_MIN_BUCKET_BITS_def split: option.split)
  have get: "al_get demo_los_list i = Some (?vs ! i)" if "i < 32" for i
  proof -
    have "sgen_array_list_bucketize i = (0, i)" using bucketize_at [of 0 i] that
      by (simp add: sgen_array_list_bucket_size_def SGEN_ARRAY_LIST_MIN_BUCKET_BITS_def bucket_start_eq)
    then show ?thesis using that by (simp add: al_get_def demo_los_list_def read_slot_def)
  qed
  have cap: "al_capacity demo_los_list = 32" "al_next_slot demo_los_list = 2" by (simp_all add: demo_los_list_def)
  show "al_values demo_los_list = ?vs" unfolding al_values_def cap by (rule nth_equalityI) (simp_all add: get)
  have "?vs ! i = 0" if "i < 32" "2 \<le> i" for i using that by (auto simp: nth_Cons')
  then show "al_full 1 demo_los_list" using ok get unfolding al_full_def cap by simp
qed

lemma los_demo_objs: "los_objs demo_los_list = [16781312, 33554432]"
proof -
  have "LOS_OBJECT_UNTAG 16781313 = 16781312" "LOS_OBJECT_UNTAG 33554432 = 33554432"
    using los_untag [of 16781312] los_untag [of 33554432] by simp_all
  then show ?thesis by (simp add: los_objs_def los_demo_values(2))
qed

lemma los_demo_sizes: "sgen_los_object_size demo_los_mem 16781312 = 9000" "sgen_los_object_size demo_los_mem 33554432 = 2000000"
proof -
  have "unat ((9001 :: u64) AND NOT 1) = unat ((of_nat 9000 :: u64) AND NOT 1)"
    using or_1_header [of 9000] by simp
  then show "sgen_los_object_size demo_los_mem 16781312 = 9000"
    using even_word [of 9000] by (simp only: sgen_los_object_size_def demo_los_mem_def if_True simp_thms) simp
  show "sgen_los_object_size demo_los_mem 33554432 = 2000000"
    using even_word [of 2000000] by (simp add: sgen_los_object_size_def demo_los_mem_def)
qed

lemma los_demo_bases: "los_base 16781312 = 16781312" "los_base 33554432 = 33554432" "caddr 16777216 1 = 16781312" "caddr 16777216 4 = 16793600"
    "los_span demo_los_mem 16781312 = 12288" "los_span demo_los_mem 33554432 = 2002944" "sec_aligned 16777216"
proof -
  have m: "(16781312 :: u64) AND mask 12 = 0" "(33554432 :: u64) AND mask 12 = 0" by (simp_all add: mask_eq_exp_minus_1)
  show "los_base 16781312 = 16781312" "los_base 33554432 = 33554432"
    using base_off(1) [OF m(1), of 0 1] base_off(1) [OF m(2), of 0 1] by simp_all
  show "caddr 16777216 1 = 16781312" "caddr 16777216 4 = 16793600" by (simp_all add: caddr_def)
  show "los_span demo_los_mem 16781312 = 12288" "los_span demo_los_mem 33554432 = 2002944"
    by (simp_all add: los_span_def los_demo_sizes align_up_eq)
  show "sec_aligned 16777216" by (simp add: sec_aligned_def mask_eq_exp_minus_1)
qed

lemma los_demo_free_chunks: "filter ((!) (replicate 4 False @ replicate 252 True)) [0..<256] = [4..<256]"
proof -
  have "[0..<256] = [0..<4] @ [4..<256::nat]" using upt_add_eq_append [of 0 4 252] by simp
  moreover have "filter ((!) (replicate 4 False @ replicate 252 True)) [0..<4] = []"
    by (rule filter_False) (auto simp: nth_append)
  moreover have "filter ((!) (replicate 4 False @ replicate 252 True)) [4..<256] = [4..<256]"
    by (rule filter_True) (auto simp: nth_append)
  ultimately show ?thesis by (simp only: filter_append append_Nil)
qed

lemma los_demo_heap_free: "heap_free demo_los_heap" "los_free demo_los_heap = mset (map (caddr 16777216) [4..<256])"
proof -
  have sfree: "sec_free los_demo_section = map (caddr 16777216) [4..<256]"
    unfolding sec_free_def using los_demo_free_chunks by (simp only: los_demo_section_def LOSSection.select_convs)
  have len: "length (filter ((!) (replicate 4 False @ replicate 252 True)) [0..<256]) = 252" unfolding los_demo_free_chunks by simp
  have first: "\<not> (replicate 4 False @ replicate 252 True) ! 0" by (simp add: nth_append)
  have sok: "sec_ok los_demo_section"
    unfolding sec_ok_def using len first los_demo_bases(7) by (simp only: los_demo_section_def LOSSection.select_convs) simp
  show free: "los_free demo_los_heap = mset (map (caddr 16777216) [4..<256])"
    by (simp only: los_free_def free_of_def demo_los_heap_def los_heap.select_convs sfree mset.simps image_mset_add_mset image_mset_empty
        sum_mset.add_mset sum_mset.empty add_0_right)
  have e: "(16793600, 1032192 :: nat) = (caddr 16777216 4, 4096 * 252)" using los_demo_bases(4) by simp
  have entry: "run_entry_ok {16777216} (16793600, 1032192)"
    unfolding run_entry_ok_def e by (intro bexI [of _ 16777216] exI [of _ 4] exI [of _ 252]) simp_all
  have lists: "lists_ok {16777216} (los_fast_free_lists demo_los_heap)"
    using entry by (auto simp: lists_ok_def demo_los_heap_def nth_Cons' fast_index_def)
  have chunks: "chunks_of (concat (los_fast_free_lists demo_los_heap)) = mset (map (caddr 16777216) [4..<256])"
  proof -
    have "concat (los_fast_free_lists demo_los_heap) = [(16793600, 1032192)]" by (simp add: demo_los_heap_def)
    moreover have "entry_chunks (16793600, 1032192) = map (caddr 16777216) [4..<4 + 252]" unfolding e entry_chunks_caddr ..
    ultimately show ?thesis by (simp only: chunks_of_simps add_0_right) simp
  qed
  have secs: "los_sections demo_los_heap = [los_demo_section]" "ls_addr los_demo_section = 16777216" by (simp_all add: demo_los_heap_def los_demo_section_def)
  show "heap_free demo_los_heap"
    using sok lists chunks free by (simp add: heap_free_def free_ok_def secs los_free_def)
qed

lemma demo_los_inv: "los_inv los_demo_os_free demo_los_mem demo_los_heap"
proof -
  have arr: "los_object_array_list demo_los_heap = demo_los_list" by (simp add: demo_los_heap_def)
  have secs: "los_sections demo_los_heap = [los_demo_section]" "ls_addr los_demo_section = 16777216" by (simp_all add: demo_los_heap_def los_demo_section_def)
  have bases: "los_bases demo_los_heap = {16777216}" by (simp add: los_bases_def secs)
  have small: "los_small demo_los_mem 16781312" "\<not> los_small demo_los_mem 33554432" by (simp_all add: los_small_def los_demo_sizes los_consts)
  have ok: "los_obj_ok {16777216} demo_los_mem 16781312" "los_obj_ok {16777216} demo_los_mem 33554432"
  proof -
    have "\<exists>c\<ge>1. c + los_span demo_los_mem 16781312 div 4096 \<le> 256 \<and> los_base 16781312 = caddr 16777216 c"
      by (rule exI [of _ 1], unfold los_demo_bases) simp
    then show "los_obj_ok {16777216} demo_los_mem 16781312"
      unfolding los_obj_ok_def los_demo_sizes los_demo_bases by (auto simp: demo_los_mem_def SSIZE_MAX_def intro!: exI [of _ 0])
    show "los_obj_ok {16777216} demo_los_mem 33554432"
      unfolding los_obj_ok_def los_demo_sizes los_demo_bases using small(2) by (auto simp: demo_los_mem_def SSIZE_MAX_def intro!: exI [of _ 0])
  qed
  have part: "los_free demo_los_heap + obj_chunks demo_los_mem [16781312, 33554432] = all_chunks (los_sections demo_los_heap)"
  proof -
    have "obj_chunks demo_los_mem [16781312, 33554432] = mset (entry_chunks (caddr 16777216 1, 4096 * 3))"
      using obj_chunks_Cons [of demo_los_mem 16781312 "[33554432]"] obj_chunks_one(1) [OF small(1)] obj_chunks_one(2) [OF small(2)] los_demo_bases(3)
      by (simp add: los_demo_bases)
    also have "\<dots> = mset (map (caddr 16777216) [1..<4])" unfolding entry_chunks_caddr by simp
    finally have o: "obj_chunks demo_los_mem [16781312, 33554432] = mset (map (caddr 16777216) [1..<4])" .
    have "all_chunks (los_sections demo_los_heap) = mset (map (caddr 16777216) [1..<256])"
      by (simp only: all_chunks_def secs mset.simps image_mset_add_mset image_mset_empty sum_mset.add_mset sum_mset.empty add_0_right)
    also have "[1..<256] = [1..<4] @ [4..<256::nat]" using upt_add_eq_append [of 1 4 252] by simp
    finally have "all_chunks (los_sections demo_los_heap) = mset (map (caddr 16777216) [1..<4]) + mset (map (caddr 16777216) [4..<256])"
      by (simp only: map_append mset_append)
    then show ?thesis unfolding los_demo_heap_free(2) o by (simp only: add.commute)
  qed
  have r: "a \<in> mem_range 16777216 LOS_SECTION_SIZE \<longleftrightarrow> 16777216 \<le> unat a \<and> unat a < 17825792"
    "a \<in> los_range demo_los_mem 33554432 \<longleftrightarrow> 33554432 \<le> unat a \<and> unat a < 35557376" for a
    using mem_range_iff [of 16777216 LOS_SECTION_SIZE a] mem_range_iff [of 33554432 2002944 a]
    by (simp_all add: los_consts los_range_def los_demo_bases)
  have os: "los_demo_os_free (los_os demo_los_heap) = {a. 67108864 \<le> unat a \<and> unat a < 2 ^ 47}" by (simp add: los_demo_os_free_def demo_los_heap_def)
  have huge: "huge_ok {16777216} (los_demo_os_free (los_os demo_los_heap)) demo_los_mem [16781312, 33554432]"
    unfolding huge_ok_def os using small(1) by (auto simp: r)
  have set': "default_setter demo_los_list" by (simp add: default_setter_def demo_los_list_def)
  have counts: "los_num_objects demo_los_heap = 2" "los_num_sections demo_los_heap = 1" "los_memory_usage demo_los_heap = 2009000"
    by (simp_all add: demo_los_heap_def)
  show ?thesis
    unfolding los_inv_def Let_def arr los_demo_objs bases
    using los_demo_heap_free(1) los_demo_values(1) set' ok part huge by (auto simp: counts los_demo_sizes secs)
qed

section \<open>The main theorems\<close>

text \<open>C40: a sweep of the large object space always finishes, whatever the state of sections and lists: it
  keeps the invariant, the objects left are the marked ones in the order of the list, every mark is
  cleared, no other word of memory changes (the links of the free lists, which the code keeps in the
  free chunks, are not words of the model), and every section left holds a chunk that is in use. The
  system is assumed to hand out only memory nobody has.\<close>

theorem los_sweep_correct:
  assumes "los_os_law env os_free" "los_inv os_free mem h"
  shows "\<exists>mem' h'. sgen_los_sweep env mem h = Some (mem', h') \<and> los_inv os_free mem' h' \<and>
    los_objs (los_object_array_list h') =
      filter (\<lambda>obj. sgen_los_object_is_pinned mem (LOS_OBJECT_DATA obj)) (los_objs (los_object_array_list h)) \<and>
    (\<forall>a. mem' a = (if a \<in> set (los_objs (los_object_array_list h)) then mem a AND NOT 1 else mem a)) \<and>
    (\<forall>sec\<in>set (los_sections h'). \<exists>c\<in>{1..<256}. \<not> ls_free_chunk_map sec ! c)"
  using los_sweep_ok [OF assms] unfolding los_unpin_eq(2) by blast

theorem los_sweep_witness:
  "\<exists>mem' h'. sgen_los_sweep demo_los_env demo_los_mem demo_los_heap = Some (mem', h') \<and>
    los_objs (los_object_array_list h') = [16781312] \<and> mem' 16781312 = 9000"
proof -
  have objs: "los_objs (los_object_array_list demo_los_heap) = [16781312, 33554432]" by (simp add: demo_los_heap_def los_demo_objs)
  have pinned: "sgen_los_object_is_pinned demo_los_mem (LOS_OBJECT_DATA 16781312)" "\<not> sgen_los_object_is_pinned demo_los_mem (LOS_OBJECT_DATA 33554432)"
    by (simp_all add: los_unpin_eq(2) demo_los_mem_def)
  have "(9001 :: u64) AND NOT 1 = 9000" using or_1_header [of 9000] by simp
  then show ?thesis using los_sweep_correct [OF los_demo_os_law demo_los_inv] pinned by (auto simp: objs demo_los_mem_def)
qed

text \<open>Wherever the invariant holds, the program's own consistency check passes, unless a section
  ends at the last address: the chunks of every small object are taken and end inside its section, every
  free run has the size its list is for and only free chunks, and the usage counter is exact.\<close>

theorem los_consistency:
  assumes "los_inv os_free mem h" "\<forall>sec\<in>set (los_sections h). ls_addr sec + of_nat LOS_SECTION_SIZE \<noteq> 0"
  shows "los_consistency_check mem h"
proof -
  have "\<forall>x\<in>set (los_objs (los_object_array_list h)). check_los_object mem h x"
    using check_object_ok [OF assms(1)] assms(2) by (simp add: los_bases_def)
  moreover have "\<forall>i<32. \<forall>e\<in>set (los_fast_free_lists h ! i). check_free_chunk h i e" using check_free_ok [OF los_invD(1) [OF assms(1)]] by blast
  ultimately show ?thesis
    using los_foreach_objs [OF assms(1)] los_invD(9) [OF assms(1)] by (simp add: los_consistency_check_def list_all_iff los_consts)
qed

theorem los_consistency_witness: "los_consistency_check demo_los_mem demo_los_heap"
  by (rule los_consistency [OF demo_los_inv]) (simp add: demo_los_heap_def los_demo_section_def los_consts)


text \<open>The jobs of a parallel scan of the large objects together call back for every object with
  references exactly once, in the order of the list.\<close>

theorem los_jobs_cover:
  assumes "los_inv os_free mem h" "0 < n"
  shows "\<exists>parts. (\<forall>j<n. sgen_los_iterate_live_block_range_jobs mem (los_object_array_list h) j n = Some (parts j)) \<and>
    sgen_los_iterate_live_block_ranges mem (los_object_array_list h) = Some (concat (map parts [0..<n]))"
proof -
  let ?a = "los_object_array_list h" and ?s = "\<lambda>i. (i, sgen_array_list_bucketize i)"
  obtain k where ok: "al_ok k ?a" using los_invD(2) [OF assms(1)] by (auto simp: al_full_def)
  have nx: "al_next_slot ?a \<le> al_capacity ?a" by (rule al_okD(4) [OF ok])
  let ?call = "\<lambda>i. let v = al_values ?a ! i in if v \<noteq> 0 \<and> LOS_OBJECT_IS_TAGGED_HAS_REFERENCES v
    then [(LOS_OBJECT_DATA (LOS_OBJECT_UNTAG v), sgen_los_object_size mem (LOS_OBJECT_UNTAG v))] else []"
  have calls: "concat (map ((\<lambda>(obj, has_references). if has_references then [(LOS_OBJECT_DATA obj, sgen_los_object_size mem obj)] else []) \<circ>
      (\<lambda>v. (LOS_OBJECT_UNTAG v, LOS_OBJECT_IS_TAGGED_HAS_REFERENCES v))) (filter (\<lambda>v. v \<noteq> 0) (map ((!) (al_values ?a)) js))) =
    concat (map ?call js)" for js
    by (induction js) (auto simp: Let_def)
  let ?range = "\<lambda>j. case get_los_object_range_for_job ?a j n of Some (s, e) \<Rightarrow> [s..<e] | None \<Rightarrow> []"
  have job: "sgen_los_iterate_live_block_range_jobs mem ?a j n = Some (concat (map ?call (?range j)))" if j: "j < n" for j
  proof -
    obtain s e where r: "get_los_object_range_for_job ?a j n = Some (s, e)" using assms(2) by (auto simp: get_los_object_range_for_job_def Let_def)
    have "e \<le> al_next_slot ?a \<and> s \<le> e"
    proof -
      have q: "al_next_slot ?a div n * m \<le> al_next_slot ?a" if "m \<le> n" for m
        using mult_le_mono2 [OF that, of "al_next_slot ?a div n"] by (meson div_times_less_eq_dividend order.trans)
      show ?thesis using r q [of j] q [of "j + 1"] j by (auto simp: get_los_object_range_for_job_def Let_def split: if_splits)
    qed
    then have "e \<le> al_capacity ?a" "s \<le> e" using nx by simp_all
    from los_foreach_eq(2) [OF ok this] show ?thesis
      unfolding sgen_los_iterate_live_block_range_jobs_def using r by (simp add: calls)
  qed
  have cc: "concat (map f (concat (map g xs))) = concat (map (\<lambda>j. concat (map f (g j))) xs)"
    for f :: "nat \<Rightarrow> (u64 \<times> nat) list" and g :: "nat \<Rightarrow> nat list" and xs by (induction xs) simp_all
  have "sgen_los_iterate_live_block_ranges mem ?a = Some (concat (map ?call [0..<al_next_slot ?a]))"
    unfolding sgen_los_iterate_live_block_ranges_def foreach_slot_eq [OF ok] using los_foreach_eq(2) [OF ok nx, of 0] by (simp add: calls)
  also have "concat (map ?call [0..<al_next_slot ?a]) = concat (map (\<lambda>j. concat (map ?call (?range j))) [0..<n])"
    unfolding job_ranges [OF assms(2), of ?a, symmetric] by (rule cc)
  finally show ?thesis using job by (intro exI [of _ "\<lambda>j. concat (map ?call (?range j))"]) simp
qed

end
