(* ===== verification/Spec2Isabelle.thy ===== *)
theory Spec2Isabelle
  imports Brotli_BitReader Brotli_WriteBits Brotli_SmallTables Brotli_Symbols
    Sgen_Sort Sgen_PointerQueue Sgen_HashTable Eglib_HashTable Sgen_Gray Sgen_DescriptorScan
    Sgen_Internal Sgen_Pinning Sgen_MarkSweepInv Mono_LockFreeSafety Mono_ThreadSuspend
    Mono_ConcReaders Sgen_LosSweep Sgen_MemGovernor
begin

text \<open>
  A verification library for the C code of this repository, IL2CPP with the SGen collector: models
  of the parts that carry the logic, translated from the source, and the theorems that make them
  correct. Paths below are relative to \<open>src/\<close>; \<open>mono\<close> stands for \<open>external/mono/mono\<close> and
  \<open>brotli\<close> for \<open>libil2cpp/os/ClassLibraryPAL/brotli\<close>.

  \<^bold>\<open>Conventions.\<close> Machine integers are words of their C width, so that they wrap; indices and sizes
  that the code bounds are natural numbers. Structs are records, enumerations are datatypes. A failed
  assertion, a read outside an array or a fatal error is \<open>None\<close>. Loops are recursive functions; one
  that the code does not bound is a \<open>partial_function (option)\<close>, and the theorems then say that it
  returns. Memory that the code follows pointers through is a map from addresses to words. Code that
  is not in the repository (operating system, callbacks) and floating-point computations are
  parameters, and so are a collection that an allocation starts and, in the theorems on the heaps, the
  memory governor; what is assumed of them is named in the theorems. Debug counters, logging and the binary
  protocol are left out everywhere.

  \<^bold>\<open>SGen, the collector\<close> (\<open>mono/sgen\<close>).
  \<^item> \<open>Sgen_Minor\<close>: the serial nursery collection with the simple nursery: tagged vtable words,
    sizes of objects, copying and forwarding, scanning, draining the gray stack, visiting root slots,
    recording pointers into the nursery (\<open>sgen-minor-copy-object.h\<close>, \<open>sgen-copy-object.h\<close>,
    \<open>sgen-minor-scan-object.h\<close>, parts of \<open>sgen-gc.c\<close> and of \<open>metadata/sgen-client-mono.h\<close>). Its parts
    are the gray queue, the descriptors and the pinning state below.
  \<^item> \<open>Sgen_MinorInv\<close>: the contract \<open>promotion_heap\<close> of the allocator that objects are promoted with,
    and the invariant of a collection, which every step keeps.
  \<^item> \<open>Sgen_MarkSweep\<close>: the blocks of the old generation (\<open>sgen-marksweep.c\<close>): size classes, free lists
    of blocks and slots, lazy sweeping, empty blocks, memory from the operating system.
    \<open>Sgen_MarkSweepInv\<close>: its invariant, the interpretation of \<open>promotion_heap\<close> by its allocator, and
    the theorems: a collection that promotes into this heap ends, keeps exactly the reachable objects,
    with disjoint places and updated references, and leaves a complete remembered set. The law of the
    system (\<open>os_law\<close>) does not bind the governor; that it grants no more than the system has
    (\<open>governor_within\<close>) is assumed for collections only, and the theorem on allocation says what
    happens otherwise.
  \<^item> \<open>Sgen_Los\<close>, \<open>Sgen_LosAlloc\<close>, \<open>Sgen_LosSweep\<close>: the large objects (\<open>sgen-los.c\<close>): sections, free runs of
    chunks, huge objects, the sweep, the visitors and the program's own consistency check. Free runs
    and objects partition the chunks, through every allocation and sweep; a collection that marks and
    sweeps meets the contract that allocation asks of collections.
  \<^item> \<open>Sgen_MemGovernor\<close>: the limit of the heap (\<open>sgen-memory-governor.c\<close>), a governor to put into both
    spaces: \<open>with_governor\<close>, \<open>with_memgov\<close>.
  \<^item> \<open>Sgen_Gray\<close>: the gray queue refines a stack, over sections, free list and cursor; stealing a
    section keeps the owner's queue well formed.
  \<^item> \<open>Sgen_Descriptor\<close>, \<open>Sgen_DescriptorScan\<close>: the descriptors of objects and roots, and that scanning
    by a descriptor visits exactly the references it was made from.
  \<^item> \<open>Sgen_ArrayList\<close>: slots in buckets of doubling size.
  \<^item> \<open>Sgen_Pinning\<close>: the pin queue and the cementing of objects that stay pinned.
  \<^item> \<open>Sgen_PointerQueue\<close>, \<open>Sgen_Sort\<close>: the queue of addresses, the quicksort and the heap sort.
  \<^item> \<open>Sgen_HashTable\<close> over \<open>Hash_Chains\<close>: the chained hash table refines a map.
  \<^item> \<open>Sgen_Internal\<close>: which allocator serves and frees an internal request.

  \<^bold>\<open>The runtime below it\<close> (\<open>mono/utils\<close>, \<open>mono/eglib\<close>).
  \<^item> \<open>Mono_LockFreeAlloc\<close>, \<open>Mono_LockFreeInv\<close>, \<open>Mono_LockFreeSafety\<close>: the lock-free allocator as a
    step relation of any number of threads, one step for each access to shared memory; the
    invariant, and that no interleaving fails an assertion (in a step of a thread or in a callback that
    runs late, \<open>lf_aborts\<close>), hands a slot out twice or loses a superblock with room; and a schedule in
    which an empty superblock is lost. Memory is taken to be granted: the assertions of \<open>alloc_sb\<close> and
    \<open>desc_alloc\<close> that end the process without it are left out.
  \<^item> \<open>Mono_ThreadState\<close>, \<open>Mono_ThreadSuspend\<close>: the thread state machine and full cooperative
    suspension: no step of the thread is a fatal error, one of an initiator is exactly when its wait
    times out or the suspend count passes 127, and a suspended thread stays out of managed code.
  \<^item> \<open>Mono_ConcHashtable\<close>: the mostly concurrent hash table under its lock, open addressing with
    tombstones: a map as long as only absent keys are inserted. \<open>Mono_ConcReaders\<close>: its readers, which
    take no lock, as steps beside the steps of the writer; what a lookup returns while the writer
    inserts, and a schedule with a removal in which it returns the value of another key.
  \<^item> \<open>Eglib_HashTable\<close>: \<open>GHashTable\<close>, with its destroy functions, on the chains of \<open>Hash_Chains\<close>.

  \<^bold>\<open>Brotli\<close> (\<open>brotli\<close>, the native half of the class library's \<open>System.IO.Compression\<close>).
  \<^item> \<open>Brotli_Prelude\<close>: words, bits and bytes; \<open>Brotli_Interfaces\<close>: the locales of a source and of a
    sink of bits and their composition.
  \<^item> \<open>Brotli_BitReader\<close>: the decoder's bit reader; \<open>Brotli_WriteBits\<close>: the encoder's bit writer.
  \<^item> \<open>Brotli_Huffman\<close>: the builders of the decoding tables; \<open>Brotli_Canonical\<close>: canonical prefix codes;
    \<open>Brotli_HuffmanTables\<close> and \<open>Brotli_SmallTables\<close>: the tables decode them; \<open>Brotli_Symbols\<close>: the symbol
    readers over reader and tables. Reader and writer meet in this theory.

  \<^bold>\<open>Interfaces.\<close> \<open>promotion_heap\<close> (provided by the old generation, used by the nursery collection), the
  sources and sinks of bits (provided by reader and writer), and the orders and hash functions that
  sorts and tables take; each is interpreted on the model's own definitions in the theory that
  provides it.

  \<^bold>\<open>Bounds.\<close> No theorem depends on fuel. Blocks have the least size (16 KiB), pages 4 KiB, pointers 64
  bits. Sizes that the code keeps in an \<open>int\<close> without a check are natural numbers below their width.

  \<^bold>\<open>Not modelled.\<close> The Brotli stream decoder around the symbol readers and the encoder's search; of
  SGen the driver, the ageing nursery, the parallel and concurrent variants of the collections, the
  marking of the old generation, the card table, finalisers, workers and heuristics in floating point; preemptive suspension; the rest of \<open>eglib\<close> and of \<open>mono/utils\<close>; \<open>mono/metadata\<close> and
  \<open>libil2cpp\<close>, which interpret metadata and code generated by the converter; platform glue; and the
  third-party copies (zlib, bdwgc, baselib, containers and hashes).
\<close>

section \<open>Across the codec: what is written is read back\<close>

text \<open>
  C5: A field written by the encoder's \<open>BrotliWriteBits\<close> is what the decoder's
  \<open>BrotliSafeReadBits\<close> reads. After the write, any reader whose unread bits are the stream
  from the old write position on returns exactly the value that was written and is left at
  the new write position. (The code documents 1 to 24 bits for this reader; up to 32 it has the body of
  \<open>BrotliSafeReadBits32\<close>.)
\<close>

theorem write_then_read:
  assumes "bs_ok s" "n \<le> 32" "unat v < 2 ^ n" "64 \<le> bs_room s" "br_ok br"
    and "BrotliWriteBits n v s = Some s'"
    and "br_bits br = drop (bs_pos s) (bs_written s') @ rest"
  shows "\<exists>br'. BrotliSafeReadBits (word_of_nat n) br = (Some (ucast v), br') \<and> br_ok br' \<and>
    br_bits br' = rest"
proof -
  have len: "length (bs_written s) = bs_pos s"
    using assms(4) by (simp add: bs_written_def bs_room_def)
  have "bs_written s' = bs_written s @ nat_bits n (unat v)"
    using write_bits_appends [of s n v] assms(1-4,6) by fastforce
  then have u: "br_bits br = nat_bits (unat (word_of_nat n :: u32)) (unat v) @ rest"
    using assms(2,7) len by (simp add: unat_of_nat take_bit_nat_eq_self)
  have "(word_of_nat n :: u32) \<le> 32" using assms(2) by (simp add: word_le_nat_alt unat_of_nat)
  moreover have "unat v < 2 ^ unat (word_of_nat n :: u32)"
    using assms(2,3) by (simp add: unat_of_nat)
  moreover have "(word_of_nat (unat v) :: u32) = ucast v" by simp
  ultimately show ?thesis using safe.rd_written [OF assms(5) _ u] by simp
qed

text \<open>A reader put on the storage itself, at the start of the byte it was written to.\<close>

theorem write_then_read_witness:
  "\<exists>s' br'. BrotliWriteBits 13 0x1234 \<lparr>bs_pos = 0, bs_array = replicate 9 0\<rparr> = Some s' \<and>
    BrotliSafeReadBits 13 \<lparr>br_val = 0, br_bit_pos = 64, br_mem = bs_array s', br_next_in = 0,
      br_avail_in = 9\<rparr> = (Some 0x1234, br')"
proof -
  let ?s = "\<lparr>bs_pos = 0, bs_array = replicate 9 0\<rparr>"
  have s: "bs_ok ?s" "64 \<le> bs_room ?s" by (simp_all add: bs_ok_def bs_room_def)
  obtain s' where s': "BrotliWriteBits 13 0x1234 ?s = Some s'" "length (bs_array s') = 9" "bs_pos s' = 13"
    using write_bits_appends [OF s(1) _ _ s(2), of 13 "0x1234"] by auto
  let ?br = "\<lparr>br_val = 0, br_bit_pos = 64, br_mem = bs_array s', br_next_in = 0, br_avail_in = 9\<rparr>"
  have "br_bits ?br = drop (bs_pos ?s) (bs_written s') @ drop 13 (bytes_bits (bs_array s'))"
    using s'(2,3) by (simp add: br_bits_def br_input_def bs_written_def)
  then show ?thesis
    using write_then_read [of ?s 13 "0x1234" ?br s'] s s'(1,2) by (auto simp: br_ok_def)
qed

end
